(* ===== verification/BW_Prelude.thy ===== *)
theory BW_Prelude
  imports Main "HOL-Library.Word"
begin

unbundle bit_operations_syntax

text \<open>
  Shared vocabulary of the development: the fixed-width integers of the Rust code
  (\<open>u64\<close>, \<open>u128\<close>) and the parts of Rust's integer API the kernels call, counted loops, and
  the generic facts on lists, bits and division the component theories share.
\<close>

section \<open>Machine integers\<close>

type_synonym u8 = "8 word"
type_synonym u64 = "64 word"
type_synonym u128 = "128 word"

named_theorems rust_int \<open>definitions of the integer operations of the Rust standard library\<close>

text \<open>\<open>overflowing_add\<close> and \<open>overflowing_sub\<close>: the wrapped result and whether it wrapped.\<close>

definition overflowing_add :: "'a::len word \<Rightarrow> 'a word \<Rightarrow> 'a word \<times> bool" where
  [rust_int]: "overflowing_add x y = (x + y, 2 ^ LENGTH('a) \<le> unat x + unat y)"

definition overflowing_sub :: "'a::len word \<Rightarrow> 'a word \<Rightarrow> 'a word \<times> bool" where
  [rust_int]: "overflowing_sub x y = (x - y, unat x < unat y)"

text \<open>Counting and permuting bits.\<close>

definition leading_zeros :: "'a::len word \<Rightarrow> nat" where
  "leading_zeros x = length (takeWhile (\<lambda>i. \<not> bit x i) (rev [0..<LENGTH('a)]))"

definition trailing_zeros :: "'a::len word \<Rightarrow> nat" where
  "trailing_zeros x = length (takeWhile (\<lambda>i. \<not> bit x i) [0..<LENGTH('a)])"

definition count_ones :: "'a::len word \<Rightarrow> nat" where
  "count_ones x = length (filter (bit x) [0..<LENGTH('a)])"

definition reverse_bits :: "'a::len word \<Rightarrow> 'a word" where
  "reverse_bits x = horner_sum of_bool 2 (map (\<lambda>i. bit x (LENGTH('a) - 1 - i)) [0..<LENGTH('a)])"

definition swap_bytes :: "'a::len word \<Rightarrow> 'a word" where
  "swap_bytes x =
     horner_sum of_bool 2
       (map (\<lambda>i. bit x ((LENGTH('a) div 8 - 1 - i div 8) * 8 + i mod 8)) [0..<LENGTH('a)])"

text \<open>\<open>u64::to_le_bytes\<close> and \<open>u64::from_le_bytes\<close>.\<close>

definition to_le_bytes :: "u64 \<Rightarrow> u8 list" where
  "to_le_bytes x = map (\<lambda>j. ucast (drop_bit (8 * j) x)) [0..<8]"

definition from_le_bytes :: "u8 list \<Rightarrow> u64" where
  "from_le_bytes bs = foldr (\<lambda>b acc. push_bit 8 acc OR ucast b) bs 0"


section \<open>Counted loops\<close>

text \<open>
  \<open>for i in 0..n\<close> and \<open>for i in (0..n).rev()\<close> over a mutable state: the body is a function of
  the index and the state.
\<close>

definition for_up :: "nat \<Rightarrow> (nat \<Rightarrow> 's \<Rightarrow> 's) \<Rightarrow> 's \<Rightarrow> 's" where
  "for_up n f s = fold f [0..<n] s"

definition for_down :: "nat \<Rightarrow> (nat \<Rightarrow> 's \<Rightarrow> 's) \<Rightarrow> 's \<Rightarrow> 's" where
  "for_down n f s = fold f (rev [0..<n]) s"

lemma for_up_0 [simp]: "for_up 0 f s = s"
  by (simp add: for_up_def)

lemma for_up_Suc [simp]: "for_up (Suc n) f s = f n (for_up n f s)"
  by (simp add: for_up_def)

lemma for_down_0 [simp]: "for_down 0 f s = s"
  by (simp add: for_down_def)

lemma for_down_Suc [simp]: "for_down (Suc n) f s = for_down n f (f n s)"
  by (simp add: for_down_def)

text \<open>The invariant rules of the two loops.\<close>

lemma for_up_inv:
  assumes "I 0 s" and "\<And>i s. i < n \<Longrightarrow> I i s \<Longrightarrow> I (Suc i) (f i s)"
  shows "I n (for_up n f s)"
proof -
  have "m \<le> n \<Longrightarrow> I m (for_up m f s)" for m
    by (induction m) (auto simp: assms)
  then show ?thesis by simp
qed

lemma for_down_inv:
  assumes "I n s" and "\<And>i s. i < n \<Longrightarrow> I (Suc i) s \<Longrightarrow> I i (f i s)"
  shows "I 0 (for_down n f s)"
  using assms
proof (induction n arbitrary: s)
  case 0
  then show ?case by simp
next
  case (Suc n)
  have "I n (f n s)" using Suc.prems by simp
  then have "I 0 (for_down n f (f n s))"
    by (rule Suc.IH) (simp add: Suc.prems)
  then show ?case by simp
qed


section \<open>Lists\<close>

lemma take_Suc_update [simp]:
  "i < length r \<Longrightarrow> take (Suc i) (r[i := x]) = take i r @ [x]"
  by (simp add: take_Suc_conv_app_nth)

lemma take_update_ge [simp]: "n \<le> i \<Longrightarrow> take n (r[i := x]) = take n r"
  by simp

lemma take_Suc_snoc: "i < length a \<Longrightarrow> take (Suc i) a = take i a @ [a ! i]"
  by (simp add: take_Suc_conv_app_nth)

lemma takeWhile_length_eqI:
  assumes "k \<le> length xs" "\<And>i. i < k \<Longrightarrow> P (xs ! i)" "k < length xs \<Longrightarrow> \<not> P (xs ! k)"
  shows "length (takeWhile P xs) = k"
proof (cases "k < length xs")
  case True
  then have "takeWhile P xs = take k xs"
    using assms by (intro takeWhile_eq_take_P_nth) auto
  then show ?thesis using assms(1) by simp
next
  case False
  then have "takeWhile P xs = take k xs"
    using assms by (intro takeWhile_eq_take_P_nth) auto
  then show ?thesis using assms(1) by simp
qed


section \<open>Division and bits\<close>

lemma add_split_64: "(i::nat) + s = (i mod 64 + s mod 64) + (i div 64 + s div 64) * 64"
  by (simp add: algebra_simps)

lemma div_add_64:
  "(i + s) div 64 = i div 64 + s div 64 + (if i mod 64 + s mod 64 < 64 then 0 else (1::nat))"
proof -
  have "(i + s) div 64 = ((i mod 64 + s mod 64) + (i div 64 + s div 64) * 64) div 64"
    by (simp only: add_split_64 [symmetric])
  also have "\<dots> = (i div 64 + s div 64) + (i mod 64 + s mod 64) div 64"
    by (rule div_mult_self1) simp
  finally have "(i + s) div 64 = (i div 64 + s div 64) + (i mod 64 + s mod 64) div 64" .
  moreover have "(i mod 64 + s mod 64) div 64 = (if i mod 64 + s mod 64 < 64 then 0 else 1)"
    using mod_less_divisor [of 64 i] mod_less_divisor [of 64 s]
    by (auto simp: not_less le_div_geq)
  ultimately show ?thesis by simp
qed

lemma mod_add_64:
  "(i + s) mod 64 = (if i mod 64 + s mod 64 < 64 then i mod 64 + s mod 64
                     else i mod 64 + s mod 64 - (64::nat))"
proof -
  have "(i + s) mod 64 = (i mod 64 + s mod 64) mod 64" by (simp add: mod_simps)
  then show ?thesis
    using mod_less_divisor [of 64 i] mod_less_divisor [of 64 s]
    by (auto simp: not_less le_mod_geq)
qed

lemma bit_nat_less: "(a::nat) < 2 ^ w \<Longrightarrow> bit a i \<Longrightarrow> i < w"
  by (metis bit_take_bit_iff take_bit_nat_eq_self)

lemma less_power_bits: "(\<And>i. bit (a::nat) i \<Longrightarrow> i < w) \<Longrightarrow> a < 2 ^ w"
  by (metis bit_eqI bit_take_bit_iff take_bit_nat_eq_self_iff)

lemma bit_unat: "bit (unat (x::'a::len word)) i = bit x i"
  by (simp add: bit_unsigned_iff)


section \<open>Zero counts\<close>

lemma leading_zeros_props:
  assumes "(x::'a::len word) \<noteq> 0"
  shows "leading_zeros x < LENGTH('a)" "bit x (LENGTH('a) - 1 - leading_zeros x)"
    "\<And>i. LENGTH('a) - 1 - leading_zeros x < i \<Longrightarrow> \<not> bit x i"
proof -
  define P where "P = (\<lambda>i. \<not> bit x i)"
  define xs where "xs = rev [0..<LENGTH('a)]"
  define k where "k = length (takeWhile P xs)"
  have k: "leading_zeros x = k" by (simp add: leading_zeros_def k_def P_def xs_def)
  have nth: "xs ! j = LENGTH('a) - 1 - j" if "j < LENGTH('a)" for j
    using that by (simp add: xs_def rev_nth)
  obtain i where i: "bit x i" using assms by (auto simp: bit_eq_iff)
  then have i64: "i < LENGTH('a)" using bit_imp_le_length by fastforce
  have "\<exists>y\<in>set xs. \<not> P y" using i i64 by (auto simp: P_def xs_def)
  then have "takeWhile P xs \<noteq> xs" by (metis set_takeWhileD)
  then have lt: "k < length xs"
    using k_def by (metis le_neq_implies_less length_takeWhile_le takeWhile_eq_take take_all_iff order_refl)
  then have k64: "k < LENGTH('a)" by (simp add: xs_def)
  show "leading_zeros x < LENGTH('a)" using k64 k by simp
  have "\<not> P (xs ! k)" using lt unfolding k_def by (rule nth_length_takeWhile)
  then show "bit x (LENGTH('a) - 1 - leading_zeros x)" using k64 k by (simp add: P_def nth)
  fix j assume j: "LENGTH('a) - 1 - leading_zeros x < j"
  show "\<not> bit x j"
  proof (cases "j < LENGTH('a)")
    case True
    then have "LENGTH('a) - 1 - j < k" using j k by linarith
    then have "P (xs ! (LENGTH('a) - 1 - j))"
      unfolding k_def by (metis nth_mem set_takeWhileD takeWhile_nth)
    then show ?thesis using True by (simp add: P_def nth)
  next
    case False
    then show ?thesis using bit_imp_le_length [of x j] by auto
  qed
qed

lemma trailing_zeros_props:
  assumes "(x::'a::len word) \<noteq> 0"
  shows "trailing_zeros x < LENGTH('a)" "bit x (trailing_zeros x)"
    "\<And>i. i < trailing_zeros x \<Longrightarrow> \<not> bit x i"
proof -
  define P where "P = (\<lambda>i. \<not> bit x i)"
  define xs where "xs = [0..<LENGTH('a)]"
  define k where "k = length (takeWhile P xs)"
  have k: "trailing_zeros x = k" by (simp add: trailing_zeros_def k_def P_def xs_def)
  have nth: "xs ! j = j" if "j < LENGTH('a)" for j
    using that by (simp add: xs_def)
  obtain i where i: "bit x i" using assms by (auto simp: bit_eq_iff)
  then have i64: "i < LENGTH('a)" using bit_imp_le_length by fastforce
  have "\<exists>y\<in>set xs. \<not> P y" using i i64 by (auto simp: P_def xs_def)
  then have "takeWhile P xs \<noteq> xs" by (metis set_takeWhileD)
  then have lt: "k < length xs"
    using k_def by (metis le_neq_implies_less length_takeWhile_le takeWhile_eq_take take_all_iff order_refl)
  then have k64: "k < LENGTH('a)" by (simp add: xs_def)
  show "trailing_zeros x < LENGTH('a)" using k64 k by simp
  have "\<not> P (xs ! k)" using lt unfolding k_def by (rule nth_length_takeWhile)
  then show "bit x (trailing_zeros x)" using k64 k by (simp add: P_def nth)
  fix j assume j: "j < trailing_zeros x"
  then have "P (xs ! j)" using k
    unfolding k_def by (metis nth_mem set_takeWhileD takeWhile_nth)
  then show "\<not> bit x j" using j k k64 by (simp add: P_def nth)
qed

end
