(* ===== verification/Ops.thy ===== *)
theory Ops
  imports BW_Prelude
begin

text \<open>
  Operator kinds (\<open>bitwright/src/ops.rs\<close>): the unary, binary and comparison operators, the
  names the expression syntax gives them, which of them commute, the negation of a predicate,
  and the reduction of the ten comparison predicates to the six stored ones.
\<close>

datatype UnOp = UNot | UNeg | UPopcnt | UClz | UCtz | UBswap | UBitRev

datatype BinOp =
    BAdd | BSub | BMul | BUMulHi | BSMulHi | BUDiv | BURem | BSDiv | BSRem
  | BAnd | BOr | BXor | BShl | BLShr | BAShr | BRotL | BRotR | BPdep | BPext

datatype CmpOp = CEq | CNe | CUlt | CUle | CSlt | CSle

datatype CmpOpExt = XEq | XNe | XUlt | XUle | XUgt | XUge | XSlt | XSle | XSgt | XSge

definition UnOp_ALL :: "UnOp list" where
  "UnOp_ALL = [UNot, UNeg, UPopcnt, UClz, UCtz, UBswap, UBitRev]"

definition BinOp_ALL :: "BinOp list" where
  "BinOp_ALL =
    [BAdd, BSub, BMul, BUMulHi, BSMulHi, BUDiv, BURem, BSDiv, BSRem,
     BAnd, BOr, BXor, BShl, BLShr, BAShr, BRotL, BRotR, BPdep, BPext]"

definition CmpOp_ALL :: "CmpOp list" where
  "CmpOp_ALL = [CEq, CNe, CUlt, CUle, CSlt, CSle]"

definition CmpOpExt_ALL :: "CmpOpExt list" where
  "CmpOpExt_ALL = [XEq, XNe, XUlt, XUle, XUgt, XUge, XSlt, XSle, XSgt, XSge]"

fun un_name :: "UnOp \<Rightarrow> string" where
  "un_name UNot = ''not''"
| "un_name UNeg = ''neg''"
| "un_name UPopcnt = ''popcnt''"
| "un_name UClz = ''clz''"
| "un_name UCtz = ''ctz''"
| "un_name UBswap = ''bswap''"
| "un_name UBitRev = ''bitrev''"

fun bin_name :: "BinOp \<Rightarrow> string" where
  "bin_name BAdd = ''add''"
| "bin_name BSub = ''sub''"
| "bin_name BMul = ''mul''"
| "bin_name BUMulHi = ''umulhi''"
| "bin_name BSMulHi = ''smulhi''"
| "bin_name BUDiv = ''udiv''"
| "bin_name BURem = ''urem''"
| "bin_name BSDiv = ''sdiv''"
| "bin_name BSRem = ''srem''"
| "bin_name BAnd = ''and''"
| "bin_name BOr = ''or''"
| "bin_name BXor = ''xor''"
| "bin_name BShl = ''shl''"
| "bin_name BLShr = ''lshr''"
| "bin_name BAShr = ''ashr''"
| "bin_name BRotL = ''rotl''"
| "bin_name BRotR = ''rotr''"
| "bin_name BPdep = ''pdep''"
| "bin_name BPext = ''pext''"

definition bin_is_commutative :: "BinOp \<Rightarrow> bool" where
  "bin_is_commutative op \<longleftrightarrow>
     op = BAdd \<or> op = BMul \<or> op = BUMulHi \<or> op = BSMulHi \<or> op = BAnd \<or> op = BOr \<or> op = BXor"

definition cmp_is_commutative :: "CmpOp \<Rightarrow> bool" where
  "cmp_is_commutative op \<longleftrightarrow> op = CEq \<or> op = CNe"

fun negated :: "CmpOp \<Rightarrow> CmpOpExt" where
  "negated CEq = XNe"
| "negated CNe = XEq"
| "negated CUlt = XUge"
| "negated CUle = XUgt"
| "negated CSlt = XSge"
| "negated CSle = XSgt"

fun canonical :: "CmpOpExt \<Rightarrow> CmpOp \<times> bool" where
  "canonical XEq = (CEq, False)"
| "canonical XNe = (CNe, False)"
| "canonical XUlt = (CUlt, False)"
| "canonical XUle = (CUle, False)"
| "canonical XUgt = (CUlt, True)"
| "canonical XUge = (CUle, True)"
| "canonical XSlt = (CSlt, False)"
| "canonical XSle = (CSle, False)"
| "canonical XSgt = (CSlt, True)"
| "canonical XSge = (CSle, True)"

fun cmp_symbol :: "CmpOpExt \<Rightarrow> string" where
  "cmp_symbol XEq = ''==''"
| "cmp_symbol XNe = ''!=''"
| "cmp_symbol XUlt = ''<u''"
| "cmp_symbol XUle = ''<=u''"
| "cmp_symbol XUgt = ''>u''"
| "cmp_symbol XUge = ''>=u''"
| "cmp_symbol XSlt = ''<s''"
| "cmp_symbol XSle = ''<=s''"
| "cmp_symbol XSgt = ''>s''"
| "cmp_symbol XSge = ''>=s''"

text \<open>\<open>impl From<CmpOp> for CmpOpExt\<close>.\<close>

fun ext_of_cmp :: "CmpOp \<Rightarrow> CmpOpExt" where
  "ext_of_cmp CEq = XEq"
| "ext_of_cmp CNe = XNe"
| "ext_of_cmp CUlt = XUlt"
| "ext_of_cmp CUle = XUle"
| "ext_of_cmp CSlt = XSlt"
| "ext_of_cmp CSle = XSle"

lemma UnOp_ALL_complete: "set UnOp_ALL = UNIV" "distinct UnOp_ALL"
proof -
  have "op \<in> set UnOp_ALL" for op by (cases op) (auto simp: UnOp_ALL_def)
  then show "set UnOp_ALL = UNIV" by blast
qed (simp add: UnOp_ALL_def)

lemma BinOp_ALL_complete: "set BinOp_ALL = UNIV" "distinct BinOp_ALL"
proof -
  have "op \<in> set BinOp_ALL" for op by (cases op) (auto simp: BinOp_ALL_def)
  then show "set BinOp_ALL = UNIV" by blast
qed (simp add: BinOp_ALL_def)

lemma CmpOp_ALL_complete: "set CmpOp_ALL = UNIV" "distinct CmpOp_ALL"
proof -
  have "op \<in> set CmpOp_ALL" for op by (cases op) (auto simp: CmpOp_ALL_def)
  then show "set CmpOp_ALL = UNIV" by blast
qed (simp add: CmpOp_ALL_def)

lemma CmpOpExt_ALL_complete: "set CmpOpExt_ALL = UNIV" "distinct CmpOpExt_ALL"
proof -
  have "op \<in> set CmpOpExt_ALL" for op by (cases op) (auto simp: CmpOpExt_ALL_def)
  then show "set CmpOpExt_ALL = UNIV" by blast
qed (simp add: CmpOpExt_ALL_def)

lemma canonical_ext_of_cmp [simp]: "canonical (ext_of_cmp op) = (op, False)"
  by (cases op) simp_all

end
