(* ===== verification/Semantics.thy ===== *)
theory Semantics
  imports Ops
begin

unbundle bit_operations_syntax

text \<open>
  The abstract specification of every operator: the total SMT-LIB \<open>QF_BV\<close> semantics of
  \<open>docs/design.md\<close> section 3.2, on natural numbers below \<open>2 ^ w\<close>. It is the contract the
  two kernels of \<open>bitwright/src/value\<close> and the reference evaluator of
  \<open>bitwright-ref\<close> are each proved to implement; it is not a translation of any of them.
\<close>

text \<open>The two's-complement reading of a \<open>w\<close>-bit value, and its inverse.\<close>

definition sem_signed :: "nat \<Rightarrow> nat \<Rightarrow> int" where
  "sem_signed w a = (if bit a (w - 1) then int a - 2 ^ w else int a)"

definition sem_of_int :: "nat \<Rightarrow> int \<Rightarrow> nat" where
  "sem_of_int w x = nat (x mod 2 ^ w)"

text \<open>Truncating division (SMT-LIB \<open>bvsdiv\<close> and \<open>bvsrem\<close> away from a zero divisor).\<close>

definition trunc_div :: "int \<Rightarrow> int \<Rightarrow> int" where
  "trunc_div a b = sgn a * sgn b * (\<bar>a\<bar> div \<bar>b\<bar>)"

definition trunc_rem :: "int \<Rightarrow> int \<Rightarrow> int" where
  "trunc_rem a b = a - b * trunc_div a b"

text \<open>The number of set bits of \<open>m\<close> below position \<open>i\<close>.\<close>

definition rank_below :: "nat \<Rightarrow> nat \<Rightarrow> nat" where
  "rank_below m i = length (filter (bit m) [0..<i])"

text \<open>A number from a predicate on its first \<open>w\<close> bits.\<close>

definition of_bits :: "nat \<Rightarrow> (nat \<Rightarrow> bool) \<Rightarrow> nat" where
  "of_bits w f = horner_sum of_bool 2 (map f [0..<w])"

definition sem_un :: "UnOp \<Rightarrow> nat \<Rightarrow> nat \<Rightarrow> nat" where
  "sem_un op w a = (case op of
     UNot \<Rightarrow> 2 ^ w - 1 - a
   | UNeg \<Rightarrow> (2 ^ w - a) mod 2 ^ w
   | UPopcnt \<Rightarrow> rank_below a w
   | UClz \<Rightarrow> length (takeWhile (\<lambda>i. \<not> bit a i) (rev [0..<w]))
   | UCtz \<Rightarrow> length (takeWhile (\<lambda>i. \<not> bit a i) [0..<w])
   | UBswap \<Rightarrow> of_bits w (\<lambda>i. bit a ((w div 8 - 1 - i div 8) * 8 + i mod 8))
   | UBitRev \<Rightarrow> of_bits w (\<lambda>i. bit a (w - 1 - i)))"

definition sem_bin :: "BinOp \<Rightarrow> nat \<Rightarrow> nat \<Rightarrow> nat \<Rightarrow> nat" where
  "sem_bin op w a b = (case op of
     BAdd \<Rightarrow> (a + b) mod 2 ^ w
   | BSub \<Rightarrow> (a + (2 ^ w - b)) mod 2 ^ w
   | BMul \<Rightarrow> (a * b) mod 2 ^ w
   | BUMulHi \<Rightarrow> (a * b) div 2 ^ w
   | BSMulHi \<Rightarrow> sem_of_int w ((sem_signed w a * sem_signed w b) div 2 ^ w)
   | BUDiv \<Rightarrow> (if b = 0 then 2 ^ w - 1 else a div b)
   | BURem \<Rightarrow> (if b = 0 then a else a mod b)
   | BSDiv \<Rightarrow>
       (if b = 0 then (if bit a (w - 1) then 1 else 2 ^ w - 1)
        else sem_of_int w (trunc_div (sem_signed w a) (sem_signed w b)))
   | BSRem \<Rightarrow>
       (if b = 0 then a
        else sem_of_int w (trunc_rem (sem_signed w a) (sem_signed w b)))
   | BAnd \<Rightarrow> a AND b
   | BOr \<Rightarrow> a OR b
   | BXor \<Rightarrow> a XOR b
   | BShl \<Rightarrow> (if b < w then (a * 2 ^ b) mod 2 ^ w else 0)
   | BLShr \<Rightarrow> (if b < w then a div 2 ^ b else 0)
   | BAShr \<Rightarrow>
       sem_of_int w (if b < w then sem_signed w a div 2 ^ b
                     else if bit a (w - 1) then - 1 else 0)
   | BRotL \<Rightarrow> of_bits w (\<lambda>i. bit a ((i + (w - b mod w)) mod w))
   | BRotR \<Rightarrow> of_bits w (\<lambda>i. bit a ((i + b mod w) mod w))
   | BPdep \<Rightarrow> of_bits w (\<lambda>i. bit b i \<and> bit a (rank_below b i))
   | BPext \<Rightarrow> of_bits w (\<lambda>k. \<exists>i\<in>set [0..<w]. bit b i \<and> rank_below b i = k \<and> bit a i))"

definition sem_cmp :: "CmpOp \<Rightarrow> nat \<Rightarrow> nat \<Rightarrow> nat \<Rightarrow> bool" where
  "sem_cmp op w a b = (case op of
     CEq \<Rightarrow> a = b
   | CNe \<Rightarrow> a \<noteq> b
   | CUlt \<Rightarrow> a < b
   | CUle \<Rightarrow> a \<le> b
   | CSlt \<Rightarrow> sem_signed w a < sem_signed w b
   | CSle \<Rightarrow> sem_signed w a \<le> sem_signed w b)"

definition sem_zext :: "nat \<Rightarrow> nat" where "sem_zext a = a"

definition sem_sext :: "nat \<Rightarrow> nat \<Rightarrow> nat \<Rightarrow> nat" where
  "sem_sext w to a = sem_of_int to (sem_signed w a)"

definition sem_extract :: "nat \<Rightarrow> nat \<Rightarrow> nat \<Rightarrow> nat" where
  "sem_extract lo n a = (a div 2 ^ lo) mod 2 ^ n"

definition sem_concat :: "nat \<Rightarrow> nat \<Rightarrow> nat \<Rightarrow> nat" where
  "sem_concat lo_w hi lo = hi * 2 ^ lo_w + lo"


section \<open>Bits of the specification\<close>

lemma bit_of_bits [simp]: "bit (of_bits w f) i \<longleftrightarrow> i < w \<and> f i"
  by (auto simp: of_bits_def bit_horner_sum_bit_iff)

lemma of_bits_less [simp]: "of_bits w f < 2 ^ w"
  by (rule less_power_bits) simp

lemma sem_of_int_less [simp]: "sem_of_int w x < 2 ^ w"
  by (simp add: sem_of_int_def nat_less_iff)

lemma int_sem_of_int: "int (sem_of_int w x) = x mod 2 ^ w"
  by (simp add: sem_of_int_def)

lemma bit_sem_of_int [simp]: "bit (sem_of_int w x) i \<longleftrightarrow> i < w \<and> bit x i"
proof -
  have "bit (int (sem_of_int w x)) i = bit (take_bit w x) i"
    by (simp only: int_sem_of_int take_bit_eq_mod)
  then show ?thesis by (simp only: bit_of_nat_iff_bit bit_take_bit_iff)
qed

lemma msb_iff:
  assumes "0 < w" "a < 2 ^ w"
  shows "bit a (w - 1) \<longleftrightarrow> 2 ^ (w - 1) \<le> (a::nat)"
proof -
  obtain v where w: "w = Suc v" using assms by (cases w) auto
  have "a div 2 ^ v < 2" using assms w
    by (simp add: less_mult_imp_div_less)
  then have "odd (a div 2 ^ v) \<longleftrightarrow> a div 2 ^ v \<noteq> 0" by (cases "a div 2 ^ v") auto
  then show ?thesis using w by (auto simp: bit_iff_odd div_eq_0_iff not_less)
qed

lemma sem_signed_range:
  assumes "0 < w" "a < 2 ^ w"
  shows "- (2 ^ (w - 1)) \<le> sem_signed w a" "sem_signed w a < 2 ^ (w - 1)"
proof -
  obtain v where w: "w = Suc v" using assms by (cases w) auto
  have "int a < 2 * 2 ^ v" using assms w
    by (metis of_nat_less_iff of_nat_numeral of_nat_power power_Suc)
  moreover have "bit a v \<longleftrightarrow> 2 ^ v \<le> int a"
    using msb_iff [OF assms] w
    by (metis diff_Suc_1 of_nat_le_iff of_nat_numeral of_nat_power)
  moreover have "0 \<le> int a" by simp
  ultimately show "- (2 ^ (w - 1)) \<le> sem_signed w a" "sem_signed w a < 2 ^ (w - 1)"
    by (simp_all add: sem_signed_def w)
qed

lemma sem_of_int_signed [simp]: "a < 2 ^ w \<Longrightarrow> sem_of_int w (sem_signed w a) = a"
  by (auto simp: sem_of_int_def sem_signed_def)

lemma sem_signed_mod: "(sem_signed w a) mod 2 ^ w = int a mod 2 ^ w"
  by (auto simp: sem_signed_def)

lemma sem_signed_of_int:
  assumes "0 < w" "- (2 ^ (w - 1)) \<le> x" "x < 2 ^ (w - 1)"
  shows "sem_signed w (sem_of_int w x) = x"
proof -
  obtain v where w: "w = Suc v" using assms by (cases w) auto
  have "bit (sem_of_int w x) (w - 1) \<longleftrightarrow> bit x v" by (simp add: w)
  moreover have "bit x v \<longleftrightarrow> x < 0"
  proof (cases "x < 0")
    case True
    have "x div 2 ^ v = -1"
      using assms True w by (intro int_div_pos_eq [where r = "x + 2 ^ v"]) auto
    then show ?thesis using True by (simp add: bit_iff_odd)
  next
    case False
    then have "x div 2 ^ v = 0" using assms w by simp
    then show ?thesis using False by (simp add: bit_iff_odd)
  qed
  moreover have "x mod 2 ^ w = (if x < 0 then x + 2 ^ w else x)"
  proof (cases "x < 0")
    case True
    have "(x + 2 ^ w) mod 2 ^ w = x + 2 ^ w"
      using True assms w by (intro mod_pos_pos_trivial) auto
    then show ?thesis using True by simp
  next
    case False
    then show ?thesis using assms w by (simp add: mod_pos_pos_trivial)
  qed
  ultimately show ?thesis by (simp add: sem_signed_def int_sem_of_int)
qed

lemma sem_signed_eq_signed_take_bit:
  assumes "0 < w" "a < 2 ^ w"
  shows "sem_signed w a = signed_take_bit (w - 1) (int a)"
proof -
  have "signed_take_bit (w - 1) (sem_signed w a) = sem_signed w a"
    using sem_signed_range [OF assms] by (simp add: signed_take_bit_int_eq_self)
  moreover have "take_bit (Suc (w - 1)) (sem_signed w a) = take_bit (Suc (w - 1)) (int a)"
    using assms sem_signed_mod [of w a] by (simp add: take_bit_eq_mod)
  ultimately show ?thesis by (metis signed_take_bit_eq_iff_take_bit_eq)
qed

lemma bit_sem_signed:
  assumes "0 < w" "a < 2 ^ w"
  shows "bit (sem_signed w a) j \<longleftrightarrow> (if j < w then bit a j else bit a (w - 1))"
proof -
  have "min (w - 1) j = (if j < w then j else w - 1)" using assms(1) by auto
  then show ?thesis
    by (simp add: sem_signed_eq_signed_take_bit [OF assms] bit_signed_take_bit_iff bit_of_nat_iff_bit)
qed

lemma sem_signed_sext:
  assumes "0 < w" "a < 2 ^ w" "w \<le> to"
  shows "sem_signed to (sem_sext w to a) = sem_signed w a"
proof (rule bit_eqI)
  fix j
  have t: "0 < to" "sem_sext w to a < 2 ^ to" using assms by (simp_all add: sem_sext_def)
  have "to - 1 < w \<Longrightarrow> to = w" using assms by simp
  then show "bit (sem_signed to (sem_sext w to a)) j = bit (sem_signed w a) j"
    using assms t(1) unfolding bit_sem_signed [OF t] by (auto simp: sem_sext_def bit_sem_signed)
qed

lemma bit_sem_not:
  assumes "a < 2 ^ w"
  shows "bit (2 ^ w - Suc a) i \<longleftrightarrow> i < w \<and> \<not> bit a i"
proof -
  have t: "take_bit w a = a" using assms by (simp add: take_bit_nat_eq_self)
  have "int (2 ^ w - Suc a) = mask w - take_bit w (int a)"
    using assms t by (simp add: mask_eq_exp_minus_1 of_nat_diff flip: of_nat_take_bit)
  also have "\<dots> = take_bit w (NOT (int a))"
    by (simp only: take_bit_not_eq_mask_diff)
  finally have "bit (int (2 ^ w - Suc a)) i = (i < w \<and> \<not> bit (int a) i)"
    by (simp only: bit_take_bit_iff bit_not_int_iff)
  then show ?thesis by (simp only: bit_of_nat_iff_bit)
qed

lemma bit_sem_shl: "bit ((a * 2 ^ b) mod 2 ^ w :: nat) i \<longleftrightarrow> i < w \<and> b \<le> i \<and> bit a (i - b)"
  by (simp add: bit_take_bit_iff bit_push_bit_iff flip: take_bit_eq_mod push_bit_eq_mult)

lemma bit_sem_lshr: "bit (a div 2 ^ b :: nat) i \<longleftrightarrow> bit a (i + b)"
  by (simp add: bit_drop_bit_eq add.commute flip: drop_bit_eq_div)

lemma bit_div_int: "bit (x div 2 ^ b :: int) i \<longleftrightarrow> bit x (i + b)"
  by (simp add: bit_drop_bit_eq add.commute flip: drop_bit_eq_div)

lemma bit_sem_concat: "lo < 2 ^ n \<Longrightarrow> bit (hi * 2 ^ n + lo :: nat) i \<longleftrightarrow> (if i < n then bit lo i else bit hi (i - n))"
proof -
  assume lo: "lo < 2 ^ n"
  have "push_bit n hi AND lo = 0"
    by (rule bit_eqI) (auto simp: bit_simps dest: bit_nat_less [OF lo])
  then have "hi * 2 ^ n + lo = push_bit n hi OR lo"
    by (simp add: disjunctive_add_eq_or push_bit_eq_mult)
  then show ?thesis by (auto simp: bit_simps dest: bit_nat_less [OF lo])
qed

text \<open>Ranks: the position a set bit of a mask has among its set bits.\<close>

lemma rank_below_Suc: "rank_below m (Suc i) = rank_below m i + (if bit m i then 1 else 0)"
  by (simp add: rank_below_def)

lemma rank_below_0 [simp]: "rank_below m 0 = 0"
  by (simp add: rank_below_def)

lemma rank_below_add: "rank_below m (i + j) = rank_below m i + rank_below (drop_bit i m) j"
  by (induction j) (simp_all add: rank_below_Suc bit_drop_bit_eq)

lemma rank_below_cong: "(\<And>j. j < i \<Longrightarrow> bit m j = bit m' j) \<Longrightarrow> rank_below m i = rank_below m' i"
  by (induction i) (simp_all add: rank_below_Suc)

lemma rank_below_le: "rank_below m i \<le> i"
  by (induction i) (simp_all add: rank_below_Suc)

lemma rank_below_mono: "i \<le> j \<Longrightarrow> rank_below m i \<le> rank_below m j"
  by (induction j) (auto simp: rank_below_Suc le_Suc_eq)

lemma rank_below_strict: "i < j \<Longrightarrow> bit m i \<Longrightarrow> rank_below m i < rank_below m j"
  using rank_below_mono [of "Suc i" j m] by (simp add: rank_below_Suc)

lemma rank_below_less_width:
  "a < 2 ^ w \<Longrightarrow> rank_below a (w + k) = rank_below a w"
  by (induction k) (auto simp: rank_below_Suc dest: bit_nat_less)

lemma rank_below_inj: "bit m i \<Longrightarrow> bit m j \<Longrightarrow> rank_below m i = rank_below m j \<Longrightarrow> i = j"
  using rank_below_strict [of _ _ m] by (metis less_irrefl linorder_neqE_nat)

text \<open>The widths of the library: 1 to 512 bits.\<close>

definition width_ok :: "nat \<Rightarrow> bool" where
  "width_ok w \<longleftrightarrow> 0 < w \<and> w \<le> 512"

lemma width_okD: "width_ok w \<Longrightarrow> 0 < w" "width_ok w \<Longrightarrow> w \<le> 512"
  by (simp_all add: width_ok_def)

end
