(* ===== verification/Limbs.thy ===== *)
theory Limbs
  imports Semantics
begin

unbundle bit_operations_syntax

text \<open>
  The limb kernels of \<open>bitwright/src/value/wide.rs\<close> that move bits: a value of up to 512 bits
  is an array of eight little-endian \<open>u64\<close> limbs whose bits at and above the width are clear.
  \<open>lval\<close> reads an array as a number; \<open>limbs_ok w\<close> is the canonical-padding invariant every
  kernel keeps. Arithmetic is in \<open>Limbs_Arith\<close>, long division in \<open>Limbs_Div\<close>.
\<close>

type_synonym limbs = "u64 list"

definition MAX_LIMBS :: nat where "MAX_LIMBS = 8"

abbreviation zero_limbs :: limbs where "zero_limbs \<equiv> replicate MAX_LIMBS 0"

definition nlimbs :: "nat \<Rightarrow> nat" where
  "nlimbs w = (w + 63) div 64"

definition mask_top :: "limbs \<Rightarrow> nat \<Rightarrow> limbs" where
  "mask_top l w =
     (let n = nlimbs w;
          l = take n l @ map (\<lambda>_. 0) (drop n l);
          r = w mod 64
      in if r \<noteq> 0 then l[n - 1 := l ! (n - 1) AND (push_bit r 1 - 1)] else l)"

definition wide_ones :: "nat \<Rightarrow> limbs" where
  "wide_ones w = mask_top (replicate MAX_LIMBS (- 1)) w"

definition wide_is_zero :: "limbs \<Rightarrow> bool" where
  "wide_is_zero a \<longleftrightarrow> list_all (\<lambda>x. x = 0) a"

definition wide_bit :: "limbs \<Rightarrow> nat \<Rightarrow> bool" where
  "wide_bit a i \<longleftrightarrow> drop_bit (i mod 64) (a ! (i div 64)) AND 1 = 1"

definition wide_set_bit :: "limbs \<Rightarrow> nat \<Rightarrow> limbs" where
  "wide_set_bit a i = a[i div 64 := a ! (i div 64) OR push_bit (i mod 64) 1]"

definition wide_msb :: "limbs \<Rightarrow> nat \<Rightarrow> bool" where
  "wide_msb a w = wide_bit a (w - 1)"

definition small :: "u64 \<Rightarrow> limbs" where
  "small v = zero_limbs[0 := v]"

text \<open>\<open>src.get(j).copied().unwrap_or(0)\<close>.\<close>

definition get_or_zero :: "limbs \<Rightarrow> nat \<Rightarrow> u64" where
  "get_or_zero src j = (if j < length src then src ! j else 0)"

definition shr_bits :: "limbs \<Rightarrow> nat \<Rightarrow> limbs" where
  "shr_bits src s =
     (let ls = s div 64; bs = s mod 64
      in map (\<lambda>i. let lo = get_or_zero src (i + ls); hi = get_or_zero src (i + ls + 1)
                  in if bs = 0 then lo else drop_bit bs lo OR push_bit (64 - bs) hi)
           [0..<MAX_LIMBS])"

definition shl_bits :: "limbs \<Rightarrow> nat \<Rightarrow> limbs" where
  "shl_bits src s =
     (let ls = s div 64; bs = s mod 64
      in map (\<lambda>i. let lo = (if i \<ge> ls then src ! (i - ls) else 0);
                      lower = (if i > ls then src ! (i - ls - 1) else 0)
                  in if bs = 0 then lo else push_bit bs lo OR drop_bit (64 - bs) lower)
           [0..<MAX_LIMBS])"

definition small_count :: "limbs \<Rightarrow> nat option" where
  "small_count b =
     (if list_ex (\<lambda>x. x \<noteq> 0) (tl b) then None
      else if unat (b ! 0) < 2 ^ 32 then Some (unat (b ! 0)) else None)"

definition mod_small :: "limbs \<Rightarrow> nat \<Rightarrow> nat \<Rightarrow> nat" where
  "mod_small b w m =
     unat (for_down (nlimbs w)
       (\<lambda>i rem. (push_bit 64 rem OR ucast (b ! i)) mod (word_of_nat m :: u128)) 0)"

definition wide_not :: "nat \<Rightarrow> limbs \<Rightarrow> limbs" where
  "wide_not w a = mask_top (for_up (nlimbs w) (\<lambda>i r. r[i := NOT (a ! i)]) zero_limbs) w"

definition shift_amount :: "nat \<Rightarrow> limbs \<Rightarrow> nat option" where
  "shift_amount w b =
     (case small_count b of Some c \<Rightarrow> if c < w then Some c else None | None \<Rightarrow> None)"

definition wide_shl :: "nat \<Rightarrow> limbs \<Rightarrow> limbs \<Rightarrow> limbs" where
  "wide_shl w a b = (case shift_amount w b of
     None \<Rightarrow> zero_limbs
   | Some s \<Rightarrow> mask_top (shl_bits a s) w)"

definition wide_lshr :: "nat \<Rightarrow> limbs \<Rightarrow> limbs \<Rightarrow> limbs" where
  "wide_lshr w a b = (case shift_amount w b of None \<Rightarrow> zero_limbs | Some s \<Rightarrow> shr_bits a s)"

definition wide_ashr :: "nat \<Rightarrow> limbs \<Rightarrow> limbs \<Rightarrow> limbs" where
  "wide_ashr w a b =
     (let negative = wide_msb a w
      in case shift_amount w b of
           None \<Rightarrow> if negative then wide_ones w else zero_limbs
         | Some s \<Rightarrow>
             let r = shr_bits a s
             in if negative
                then let fill = mask_top (shl_bits (wide_ones w) (w - s)) w
                     in map2 (\<lambda>x f. x OR f) r fill
                else r)"

definition wide_rotl_by :: "nat \<Rightarrow> limbs \<Rightarrow> nat \<Rightarrow> limbs" where
  "wide_rotl_by w a r =
     (if r = 0 then a
      else let hi = mask_top (shl_bits a r) w;
               lo = shr_bits a (w - r)
           in map (\<lambda>i. hi ! i OR lo ! i) [0..<MAX_LIMBS])"

definition wide_rotl :: "nat \<Rightarrow> limbs \<Rightarrow> limbs \<Rightarrow> limbs" where
  "wide_rotl w a b = wide_rotl_by w a (mod_small b w w)"

definition wide_rotr :: "nat \<Rightarrow> limbs \<Rightarrow> limbs \<Rightarrow> limbs" where
  "wide_rotr w a b = (let r = mod_small b w w in wide_rotl_by w a ((w - r) mod w))"

definition wide_popcnt :: "limbs \<Rightarrow> limbs" where
  "wide_popcnt a = small (sum_list (map (\<lambda>x. word_of_nat (count_ones x)) a))"

fun clz_loop :: "nat \<Rightarrow> limbs \<Rightarrow> nat \<Rightarrow> nat \<Rightarrow> nat \<Rightarrow> limbs" where
  \<comment> \<open>the limbs still to look at, from the top; \<open>n\<close>, the padding and the width\<close>
  "clz_loop 0 a n pad w = small (word_of_nat w)"
| "clz_loop (Suc i) a n pad w =
     (if a ! i \<noteq> 0
      then small (word_of_nat ((n - 1 - i) * 64 + leading_zeros (a ! i) - pad))
      else clz_loop i a n pad w)"

definition wide_clz :: "nat \<Rightarrow> limbs \<Rightarrow> limbs" where
  "wide_clz w a = (let n = nlimbs w; pad = n * 64 - w in clz_loop n a n pad w)"

fun ctz_loop :: "limbs \<Rightarrow> nat \<Rightarrow> nat \<Rightarrow> limbs" where
  "ctz_loop [] i w = small (word_of_nat w)"
| "ctz_loop (x # xs) i w =
     (if x \<noteq> 0 then small (word_of_nat (i * 64 + trailing_zeros x)) else ctz_loop xs (i + 1) w)"

definition wide_ctz :: "nat \<Rightarrow> limbs \<Rightarrow> limbs" where
  "wide_ctz w a = ctz_loop (take (nlimbs w) a) 0 w"

definition wide_bswap :: "nat \<Rightarrow> limbs \<Rightarrow> limbs" where
  "wide_bswap w a =
     (let nbytes = w div 8;
          bytes = concat (map to_le_bytes a);
          bytes = rev (take nbytes bytes) @ drop nbytes bytes
      in mask_top (map (\<lambda>i. from_le_bytes (take 8 (drop (i * 8) bytes))) [0..<MAX_LIMBS]) w)"

definition wide_bitrev :: "nat \<Rightarrow> limbs \<Rightarrow> limbs" where
  "wide_bitrev w a =
     (let n = nlimbs w;
          rev = for_up n (\<lambda>i rev. rev[i := reverse_bits (a ! (n - 1 - i))]) zero_limbs
      in mask_top (shr_bits (take n rev) (n * 64 - w)) w)"

fun ult_loop :: "nat \<Rightarrow> limbs \<Rightarrow> limbs \<Rightarrow> bool" where
  "ult_loop 0 a b = False"
| "ult_loop (Suc i) a b = (if a ! i \<noteq> b ! i then a ! i < b ! i else ult_loop i a b)"

definition wide_ult :: "nat \<Rightarrow> limbs \<Rightarrow> limbs \<Rightarrow> bool" where
  "wide_ult w a b = ult_loop (nlimbs w) a b"

definition wide_slt :: "nat \<Rightarrow> limbs \<Rightarrow> limbs \<Rightarrow> bool" where
  "wide_slt w a b = (case (wide_msb a w, wide_msb b w) of
     (True, False) \<Rightarrow> True
   | (False, True) \<Rightarrow> False
   | _ \<Rightarrow> wide_ult w a b)"

definition wide_cmp :: "CmpOp \<Rightarrow> nat \<Rightarrow> limbs \<Rightarrow> limbs \<Rightarrow> bool" where
  "wide_cmp op w a b = (case op of
     CEq \<Rightarrow> a = b
   | CNe \<Rightarrow> a \<noteq> b
   | CUlt \<Rightarrow> wide_ult w a b
   | CUle \<Rightarrow> \<not> wide_ult w b a
   | CSlt \<Rightarrow> wide_slt w a b
   | CSle \<Rightarrow> \<not> wide_slt w b a)"

definition wide_sext :: "limbs \<Rightarrow> nat \<Rightarrow> nat \<Rightarrow> limbs" where
  "wide_sext a from to =
     (if wide_msb a from
      then let hi = wide_ones to; lo = wide_ones from
           in map (\<lambda>i. a ! i OR (hi ! i AND NOT (lo ! i))) [0..<MAX_LIMBS]
      else a)"

definition wide_extract :: "limbs \<Rightarrow> nat \<Rightarrow> nat \<Rightarrow> limbs" where
  "wide_extract a lo n = mask_top (shr_bits a lo) n"

definition wide_concat :: "limbs \<Rightarrow> limbs \<Rightarrow> nat \<Rightarrow> limbs" where
  "wide_concat hi lo lo_w =
     (let h = shl_bits hi lo_w in map (\<lambda>i. h ! i OR lo ! i) [0..<MAX_LIMBS])"


section \<open>Parallel deposit and extract\<close>

text \<open>
  The inner loop \<open>while mm != 0\<close> clears the lowest set bit of the mask word each round, so the
  mask word is its own measure.
\<close>

lemma clear_lowest_less: "mm \<noteq> 0 \<Longrightarrow> unat (mm AND (mm - 1)) < unat (mm::'a::len word)"
proof -
  assume "mm \<noteq> 0"
  have "mm AND (mm - 1) \<le> mm - 1" by (simp add: word_and_le1 word_and_le2)
  moreover have "mm - 1 < mm" using \<open>mm \<noteq> 0\<close>
    by (simp add: word_less_nat_alt unat_minus_one unat_gt_0)
  ultimately show ?thesis by (simp add: word_less_nat_alt [symmetric])
qed

function pdep_word :: "limbs \<Rightarrow> nat \<Rightarrow> u64 \<Rightarrow> limbs \<Rightarrow> nat \<Rightarrow> limbs \<times> nat" where
  "pdep_word x li mm out k =
     (if mm \<noteq> 0
      then let p = trailing_zeros mm;
               out = (if wide_bit x k then out[li := out ! li OR push_bit p 1] else out)
           in pdep_word x li (mm AND (mm - 1)) out (k + 1)
      else (out, k))"
  by pat_completeness auto
termination
  by (relation "measure (\<lambda>(x, li, mm, out, k). unat mm)") (auto simp: clear_lowest_less)

definition wide_pdep :: "nat \<Rightarrow> limbs \<Rightarrow> limbs \<Rightarrow> limbs" where
  "wide_pdep w x m =
     fst (for_up (nlimbs w) (\<lambda>li (out, k). pdep_word x li (m ! li) out k) (zero_limbs, 0))"

function pext_word :: "limbs \<Rightarrow> nat \<Rightarrow> u64 \<Rightarrow> limbs \<Rightarrow> nat \<Rightarrow> limbs \<times> nat" where
  "pext_word x li mm out k =
     (if mm \<noteq> 0
      then let p = trailing_zeros mm;
               out = (if drop_bit p (x ! li) AND 1 = 1 then wide_set_bit out k else out)
           in pext_word x li (mm AND (mm - 1)) out (k + 1)
      else (out, k))"
  by pat_completeness auto
termination
  by (relation "measure (\<lambda>(x, li, mm, out, k). unat mm)") (auto simp: clear_lowest_less)

definition wide_pext :: "nat \<Rightarrow> limbs \<Rightarrow> limbs \<Rightarrow> limbs" where
  "wide_pext w x m =
     fst (for_up (nlimbs w) (\<lambda>li (out, k). pext_word x li (m ! li) out k) (zero_limbs, 0))"

declare pdep_word.simps [simp del] pext_word.simps [simp del]


section \<open>Limbs as numbers\<close>

text \<open>The base, kept opaque to arithmetic.\<close>

definition B64 :: nat where "B64 = 2 ^ 64"

primrec lval :: "limbs \<Rightarrow> nat" where
  "lval [] = 0"
| "lval (x # xs) = unat x + B64 * lval xs"

definition limbs_ok :: "nat \<Rightarrow> limbs \<Rightarrow> bool" where
  "limbs_ok w a \<longleftrightarrow> length a = MAX_LIMBS \<and> lval a < 2 ^ w"

lemma B64_pos [simp]: "0 < B64" "B64 \<noteq> 0" "1 < B64" "Suc 0 < B64"
  by (simp_all add: B64_def)

lemma B64_power: "B64 ^ n = 2 ^ (64 * n)"
  by (simp only: B64_def power_mult)

lemma unat_less_B64: "unat (x::u64) < B64"
  using unsigned_less [of x] by (simp add: B64_def)

lemma lval_append: "lval (xs @ ys) = lval xs + B64 ^ length xs * lval ys"
  by (induction xs) (simp_all add: algebra_simps)

lemma lval_less: "lval xs < B64 ^ length xs"
proof (induction xs)
  case Nil
  then show ?case by simp
next
  case (Cons x xs)
  have "B64 * (lval xs + 1) \<le> B64 * B64 ^ length xs"
    using Cons by (intro mult_le_mono2) simp
  then show ?case using unat_less_B64 [of x] by (simp add: algebra_simps)
qed

lemma lval_Cons_bits: "lval (x # xs) = unat x OR push_bit 64 (lval xs)"
proof -
  have "unat x AND push_bit 64 (lval xs) = 0"
    by (rule bit_eqI) (auto simp: bit_simps bit_unat dest: bit_imp_le_length)
  then have "unat x + push_bit 64 (lval xs) = unat x OR push_bit 64 (lval xs)"
    by (rule disjunctive_add_eq_or)
  then show ?thesis by (simp add: push_bit_eq_mult B64_def)
qed

lemma bit_lval:
  "bit (lval xs) i \<longleftrightarrow> i div 64 < length xs \<and> bit (xs ! (i div 64)) (i mod 64)"
proof (induction xs arbitrary: i)
  case Nil
  then show ?case by simp
next
  case (Cons x xs)
  show ?case
  proof (cases "i < 64")
    case True
    then show ?thesis by (simp only: lval_Cons_bits) (simp add: bit_simps bit_unat)
  next
    case False
    then obtain j where i: "i = j + 64" by (metis add.commute le_Suc_ex not_less)
    have "\<not> bit x (j + 64)" by (auto dest: bit_imp_le_length)
    moreover have "(j + 64) div 64 = Suc (j div 64)" by presburger
    ultimately show ?thesis
      using Cons.IH [of j] by (simp only: lval_Cons_bits i) (simp add: bit_simps bit_unat)
  qed
qed

lemma lval_zeros [simp]: "lval (replicate n 0) = 0"
  by (induction n) simp_all

lemma lval_take: "lval (take n a) = lval a mod 2 ^ (64 * n)"
proof (rule bit_eqI)
  fix i
  have "i div 64 < n \<longleftrightarrow> i < 64 * n" by (auto simp: div_less_iff_less_mult algebra_simps)
  then show "bit (lval (take n a)) i = bit (lval a mod 2 ^ (64 * n)) i"
    by (auto simp: bit_lval bit_take_bit_iff simp flip: take_bit_eq_mod)
qed

lemma lval_take_all:
  assumes "\<And>i. n \<le> i \<Longrightarrow> i < length a \<Longrightarrow> a ! i = 0"
  shows "lval (take n a) = lval a"
proof -
  have "drop n a = replicate (length a - n) 0"
    by (rule nth_equalityI) (auto simp: assms)
  then have "lval (drop n a) = 0" by simp
  then show ?thesis using lval_append [of "take n a" "drop n a"] by simp
qed

lemma limbs_eqI: "length a = length b \<Longrightarrow> lval a = lval b \<Longrightarrow> a = b"
proof (induction a b rule: list_induct2)
  case Nil
  then show ?case by simp
next
  case (Cons x xs y ys)
  have "unat x = unat y"
    using arg_cong [OF Cons.prems, of "\<lambda>v. v mod B64"]
    by (simp add: unat_less_B64)
  then show ?case using Cons by (simp add: word_unat_eq_iff)
qed

end
