(* ===== verification/Limbs_Bits.thy ===== *)
theory Limbs_Bits
  imports Limbs
begin

unbundle bit_operations_syntax

text \<open>
  Correctness of the bit-moving limb kernels: each is the operation of \<open>Semantics\<close> on the
  number its limbs represent, for every width from 1 to 512.
\<close>

section \<open>Limb positions and masking\<close>

lemma wide_bit_lval: "i div 64 < length a \<Longrightarrow> wide_bit a i \<longleftrightarrow> bit (lval a) i"
  by (simp only: wide_bit_def bit_lval bit_iff_and_drop_bit_eq_1 [symmetric]) simp

lemma nlimbs_le: "nlimbs w \<le> m \<longleftrightarrow> w \<le> 64 * m"
proof -
  have "nlimbs w < Suc m \<longleftrightarrow> w + 63 < Suc m * 64"
    unfolding nlimbs_def by (rule div_less_iff_less_mult) simp
  then show ?thesis by (simp add: less_Suc_eq_le) arith
qed

lemma nlimbs_div_mod: "nlimbs w = w div 64 + (if w mod 64 = 0 then 0 else 1)"
proof -
  have w: "w + 63 = (w mod 64 + 63) + w div 64 * 64" by simp
  have "nlimbs w = w div 64 + (w mod 64 + 63) div 64"
    unfolding nlimbs_def by (subst w, rule div_mult_self1) simp
  moreover have "(w mod 64 + 63) div 64 = (if w mod 64 = 0 then 0 else 1)"
    using mod_less_divisor [of 64 w] by (auto intro: div_nat_eqI)
  ultimately show ?thesis by simp
qed

lemma nlimbs_split:
  assumes "0 < w"
  shows "0 < nlimbs w" "64 * (nlimbs w - 1) + (if w mod 64 = 0 then 64 else w mod 64) = w"
proof -
  define q r where "q = w div 64" and "r = w mod 64"
  have w: "64 * q + r = w" by (simp add: q_def r_def)
  have n: "nlimbs w = q + (if r = 0 then 0 else 1)"
    by (simp add: nlimbs_div_mod q_def r_def)
  have q: "r = 0 \<Longrightarrow> 0 < q" using w assms by (cases q) auto
  show "0 < nlimbs w" using n q by auto
  have "64 * (q + (if r = 0 then 0 else 1) - 1) + (if r = 0 then 64 else r) = 64 * q + r"
    using q by (cases q) auto
  then show "64 * (nlimbs w - 1) + (if w mod 64 = 0 then 64 else w mod 64) = w"
    using w by (simp only: n r_def)
qed

lemma le_nlimbs: "w \<le> 64 * nlimbs w"
  using nlimbs_le [of w "nlimbs w"] by simp

lemma nlimbs_le_8: "w \<le> 512 \<Longrightarrow> nlimbs w \<le> 8"
  using nlimbs_le [of w 8] by simp

lemma less_width_iff:
  assumes "0 < w"
  shows "i < w \<longleftrightarrow> i div 64 < nlimbs w - 1 \<or>
           (i div 64 = nlimbs w - 1 \<and> (w mod 64 = 0 \<or> i mod 64 < w mod 64))"
proof -
  define n where "n = nlimbs w - 1"
  define t where "t = (if w mod 64 = 0 then 64 else w mod 64)"
  have w: "w = 64 * n + t" and t: "0 < t" "t \<le> 64"
    using nlimbs_split [OF assms] by (auto simp: n_def t_def)
  have i: "i = 64 * (i div 64) + i mod 64" by simp
  have "i < w \<longleftrightarrow> i div 64 < n \<or> (i div 64 = n \<and> i mod 64 < t)"
  proof (cases "i div 64" n rule: linorder_cases)
    case less
    then have "64 * (i div 64) + 64 \<le> 64 * n" by arith
    then show ?thesis using less w t i mod_less_divisor [of 64 i] by linarith
  next
    case equal
    then show ?thesis using w i by linarith
  next
    case greater
    then have "64 * n + 64 \<le> 64 * (i div 64)" by arith
    then show ?thesis using greater w t i by linarith
  qed
  then show ?thesis by (auto simp: n_def t_def split: if_splits)
qed

lemma push_minus_one_mask: "push_bit r 1 - 1 = (mask r :: 'a::len word)"
  by (simp only: mask_eq_exp_minus_1 push_bit_eq_mult mult_1)

lemma length_mask_top [simp]: "length (mask_top l w) = length l"
  by (simp add: mask_top_def Let_def min_def)

lemma nth_mask_top:
  assumes "0 < w" "w \<le> 64 * length l" "j < length l"
  shows "mask_top l w ! j =
    (if j < nlimbs w - 1 then l ! j
     else if j = nlimbs w - 1 then (if w mod 64 = 0 then l ! j else l ! j AND mask (w mod 64))
     else 0)"
proof -
  have "0 < nlimbs w" "nlimbs w \<le> length l"
    using assms nlimbs_split(1) nlimbs_le by auto
  then show ?thesis using assms(3)
    by (auto simp: mask_top_def Let_def mask_eq_exp_minus_1 nth_append nth_list_update)
qed

lemma bit_lval_mask_top:
  assumes "0 < w" "w \<le> 64 * length l"
  shows "bit (lval (mask_top l w)) i \<longleftrightarrow> i < w \<and> bit (lval l) i"
proof (cases "i div 64 < length l")
  case True
  show ?thesis
    unfolding bit_lval length_mask_top less_width_iff [OF assms(1)]
    using True by (auto simp: nth_mask_top [OF assms True] bit_simps)
next
  case False
  then show ?thesis by (simp add: bit_lval)
qed

lemma lval_mask_top:
  assumes "0 < w" "w \<le> 64 * length l"
  shows "lval (mask_top l w) = lval l mod 2 ^ w"
  by (rule bit_eqI)
    (simp add: bit_lval_mask_top [OF assms] bit_take_bit_iff flip: take_bit_eq_mod)

lemma limbs_ok_length: "limbs_ok w a \<Longrightarrow> length a = 8"
  by (simp add: limbs_ok_def MAX_LIMBS_def)

lemma limbs_ok_less: "limbs_ok w a \<Longrightarrow> lval a < 2 ^ w"
  by (simp add: limbs_ok_def)

lemma limbs_ok_bit: "limbs_ok w a \<Longrightarrow> bit (lval a) i \<Longrightarrow> i < w"
  by (auto simp: limbs_ok_def dest: bit_nat_less)

lemma limbs_okI: "length a = 8 \<Longrightarrow> (\<And>i. bit (lval a) i \<Longrightarrow> i < w) \<Longrightarrow> limbs_ok w a"
  by (auto simp: limbs_ok_def MAX_LIMBS_def intro: less_power_bits)

lemma limbs_ok_mask_top:
  "0 < w \<Longrightarrow> w \<le> 512 \<Longrightarrow> length l = 8 \<Longrightarrow> limbs_ok w (mask_top l w)"
  by (rule limbs_okI) (auto simp: bit_lval_mask_top)

lemma lval_inject: "limbs_ok w a \<Longrightarrow> limbs_ok w b \<Longrightarrow> lval a = lval b \<longleftrightarrow> a = b"
  by (auto simp: limbs_ok_def intro: limbs_eqI)

lemma div_64_less_8: "i < 512 \<Longrightarrow> i div 64 < (8::nat)"
  by auto

lemma wide_bit_ok: "limbs_ok w a \<Longrightarrow> i < 512 \<Longrightarrow> wide_bit a i \<longleftrightarrow> bit (lval a) i"
  by (simp add: wide_bit_lval limbs_ok_length)

lemma bit_wide_ones: "0 < w \<Longrightarrow> w \<le> 512 \<Longrightarrow> bit (lval (wide_ones w)) i \<longleftrightarrow> i < w"
  by (auto simp: wide_ones_def bit_lval_mask_top MAX_LIMBS_def bit_lval [of "replicate 8 (- 1)"]
      bit_simps)

lemma lval_wide_ones: "0 < w \<Longrightarrow> w \<le> 512 \<Longrightarrow> lval (wide_ones w) = 2 ^ w - 1"
  by (rule bit_eqI) (simp only: bit_wide_ones bit_mask_iff mask_eq_exp_minus_1 [symmetric], simp)

lemma wide_is_zero_iff: "wide_is_zero a \<longleftrightarrow> lval a = 0"
  by (induction a) (auto simp: wide_is_zero_def unat_eq_0)

lemma bit_get_or_zero: "bit (get_or_zero src j) k \<longleftrightarrow> j < length src \<and> bit (src ! j) k"
  by (simp add: get_or_zero_def)

lemma bit_shr_bits: "bit (lval (shr_bits src s)) i \<longleftrightarrow> i < 512 \<and> bit (lval src) (i + s)"
proof (cases "i < 512")
  case True
  then have "i div 64 < 8" by auto
  moreover have "i mod 64 < 64" "s mod 64 < 64" by auto
  ultimately show ?thesis using True
    unfolding bit_lval div_add_64 mod_add_64
    by (auto simp: shr_bits_def Let_def MAX_LIMBS_def bit_simps bit_get_or_zero
        add.commute [of "s mod 64" "i mod 64"] dest: bit_imp_le_length)
next
  case False
  then have "\<not> i div 64 < 8" by auto
  then show ?thesis using False by (simp add: bit_lval shr_bits_def Let_def MAX_LIMBS_def)
qed


lemma length_shr_bits [simp]: "length (shr_bits src s) = 8"
  by (simp add: shr_bits_def Let_def MAX_LIMBS_def)

lemma length_shl_bits [simp]: "length (shl_bits src s) = 8"
  by (simp add: shl_bits_def Let_def MAX_LIMBS_def)

lemma sub_split_64:
  assumes "s \<le> (i::nat)"
  shows "(i - s) div 64 = (if s mod 64 \<le> i mod 64 then i div 64 - s div 64 else i div 64 - s div 64 - 1)"
    "(i - s) mod 64 = (if s mod 64 \<le> i mod 64 then i mod 64 - s mod 64 else 64 + i mod 64 - s mod 64)"
    "s div 64 \<le> i div 64" "\<not> s mod 64 \<le> i mod 64 \<Longrightarrow> s div 64 < i div 64"
proof -
  obtain d where i: "i = d + s" using assms by (metis le_Suc_ex add.commute)
  have m: "d mod 64 < 64" "s mod 64 < 64" by auto
  show "(i - s) div 64 = (if s mod 64 \<le> i mod 64 then i div 64 - s div 64 else i div 64 - s div 64 - 1)"
    "(i - s) mod 64 = (if s mod 64 \<le> i mod 64 then i mod 64 - s mod 64 else 64 + i mod 64 - s mod 64)"
    "s div 64 \<le> i div 64" "\<not> s mod 64 \<le> i mod 64 \<Longrightarrow> s div 64 < i div 64"
    using m by (auto simp: i div_add_64 mod_add_64)
qed

lemma shl_split_iff:
  "s \<le> (i::nat) \<longleftrightarrow> s div 64 < i div 64 \<or> (s div 64 = i div 64 \<and> s mod 64 \<le> i mod 64)"
proof -
  have lex: "64 * c + d \<le> 64 * a + b \<longleftrightarrow> c < a \<or> (c = a \<and> d \<le> b)"
    if "b < 64" "d < 64" for a b c d :: nat
    using that by linarith
  show ?thesis
    using lex [of "i mod 64" "s mod 64" "s div 64" "i div 64"] by simp
qed

lemma nth_shl_bits:
  "j < 8 \<Longrightarrow> shl_bits src s ! j =
     (if s mod 64 = 0 then (if s div 64 \<le> j then src ! (j - s div 64) else 0)
      else push_bit (s mod 64) (if s div 64 \<le> j then src ! (j - s div 64) else 0)
           OR drop_bit (64 - s mod 64) (if s div 64 < j then src ! (j - s div 64 - 1) else 0))"
  by (simp add: shl_bits_def Let_def MAX_LIMBS_def)

lemma bit_shl_limb:
  assumes "j < 8" "k < 64"
  shows "bit (shl_bits src s ! j) k \<longleftrightarrow>
    (if s mod 64 \<le> k then s div 64 \<le> j \<and> bit (src ! (j - s div 64)) (k - s mod 64)
     else s div 64 < j \<and> bit (src ! (j - s div 64 - 1)) (64 + k - s mod 64))"
proof -
  have "s mod 64 < 64" by simp
  then have "64 - s mod 64 + k = 64 + k - s mod 64" by simp
  moreover have "\<not> bit (x::u64) (64 + k - s mod 64)" if "s mod 64 \<le> k" for x
    using that by (auto dest!: bit_imp_le_length)
  ultimately show ?thesis using assms
    by (auto simp: nth_shl_bits bit_or_iff bit_push_bit_iff bit_drop_bit_eq)
qed

lemma bit_shl_bits:
  assumes "length src = 8"
  shows "bit (lval (shl_bits src s)) i \<longleftrightarrow> i < 512 \<and> s \<le> i \<and> bit (lval src) (i - s)"
proof (cases "i < 512 \<and> s \<le> i")
  case True
  then have i: "i div 64 < 8" "s \<le> i" by auto
  then have b: "bit (lval (shl_bits src s)) i = bit (shl_bits src s ! (i div 64)) (i mod 64)"
    by (simp add: bit_lval)
  have r: "bit (lval src) (i - s) \<longleftrightarrow> bit (src ! ((i - s) div 64)) ((i - s) mod 64)"
    using le_less_trans [OF div_le_mono [OF diff_le_self] i(1)] by (simp add: bit_lval assms)
  have "bit (lval (shl_bits src s)) i = bit (lval src) (i - s)"
    unfolding b r bit_shl_limb [OF i(1) mod_less_divisor [OF zero_less_numeral]] sub_split_64(1,2) [OF i(2)]
    using sub_split_64(3,4) [OF i(2)] by simp
  then show ?thesis using True by simp
next
  case False
  have "\<not> bit (lval (shl_bits src s)) i"
  proof (cases "i div 64 < 8")
    case True
    then have "i < 512" by (simp add: div_less_iff_less_mult)
    then have "\<not> bit (shl_bits src s ! (i div 64)) (i mod 64)"
      using False
      unfolding bit_shl_limb [OF True mod_less_divisor [OF zero_less_numeral]]
      by (auto simp: shl_split_iff [of s i])
    then show ?thesis by (simp add: bit_lval)
  qed (simp add: bit_lval)
  then show ?thesis using False by auto
qed

lemma lval_small: "lval (small v) = unat v"
  by (simp add: small_def MAX_LIMBS_def numeral_eq_Suc)

lemma length_small [simp]: "length (small v) = 8"
  by (simp add: small_def MAX_LIMBS_def)

lemma small_count_eq:
  assumes "length b = 8"
  shows "small_count b = (if lval b < 2 ^ 32 then Some (lval b) else None)"
proof -
  obtain x xs where b: "b = x # xs" using assms by (cases b) auto
  have ex: "list_ex (\<lambda>x. x \<noteq> 0) xs \<longleftrightarrow> lval xs \<noteq> 0"
    using wide_is_zero_iff [of xs] unfolding wide_is_zero_def list_ex_iff list_all_iff by metis
  show ?thesis
  proof (cases "lval xs = 0")
    case True
    then show ?thesis using ex by (simp add: b small_count_def)
  next
    case False
    then have "B64 * 1 \<le> B64 * lval xs" by (intro mult_le_mono2) simp
    then have "\<not> lval b < 2 ^ 32" by (simp add: b B64_def)
    then show ?thesis using False ex by (simp add: b small_count_def)
  qed
qed

lemma shift_amount_eq:
  assumes "length b = 8" "w \<le> 512"
  shows "shift_amount w b = (if lval b < w then Some (lval b) else None)"
  using assms by (auto simp: shift_amount_def small_count_eq)


section \<open>Complement and shifts\<close>

lemma div_less_8 [simp]: "i div 64 < 8 \<longleftrightarrow> i < (512::nat)"
  by (simp add: div_less_iff_less_mult)

lemma bit_lval8: "length a = 8 \<Longrightarrow> bit (lval a) i \<longleftrightarrow> i < 512 \<and> bit (a ! (i div 64)) (i mod 64)"
  by (simp add: bit_lval)

lemma for_up_update:
  assumes "n \<le> 8"
  shows "length (for_up n (\<lambda>i r. r[i := f i]) (replicate 8 (0::u64))) = 8"
    "i < 8 \<Longrightarrow> for_up n (\<lambda>i r. r[i := f i]) (replicate 8 (0::u64)) ! i = (if i < n then f i else 0)"
proof -
  have "length (for_up n (\<lambda>i r. r[i := f i]) (replicate 8 (0::u64))) = 8 \<and>
    (\<forall>i<8. for_up n (\<lambda>i r. r[i := f i]) (replicate 8 (0::u64)) ! i = (if i < n then f i else 0))"
    using assms by (induction n) (auto simp: nth_list_update)
  then show "length (for_up n (\<lambda>i r. r[i := f i]) (replicate 8 (0::u64))) = 8"
    "i < 8 \<Longrightarrow> for_up n (\<lambda>i r. r[i := f i]) (replicate 8 (0::u64)) ! i = (if i < n then f i else 0)"
    by auto
qed

lemma bit_lval_for_up:
  assumes "n \<le> 8"
  shows "bit (lval (for_up n (\<lambda>i r. r[i := f i]) (replicate 8 (0::u64)))) i \<longleftrightarrow>
         i div 64 < n \<and> bit (f (i div 64)) (i mod 64)"
proof (cases "i < 512")
  case True
  then show ?thesis by (simp add: bit_lval8 for_up_update [OF assms])
next
  case False
  then have "\<not> i div 64 < n" using assms div_less_8 [of i] by linarith
  then show ?thesis using False by (simp add: bit_lval8 for_up_update [OF assms])
qed

lemma less_width_div: "width_ok w \<Longrightarrow> i < w \<Longrightarrow> i div 64 < nlimbs w"
  using less_width_iff [of w i] nlimbs_split(1) [of w] by (auto simp: width_ok_def)

lemma width_ok_nlimbs: "width_ok w \<Longrightarrow> nlimbs w \<le> 8"
  by (simp add: nlimbs_le width_ok_def)

lemma mask_top_ok [intro]: "width_ok w \<Longrightarrow> length l = 8 \<Longrightarrow> limbs_ok w (mask_top l w)"
  by (simp add: limbs_ok_mask_top width_ok_def)

lemma bit_mask_top: "width_ok w \<Longrightarrow> length l = 8 \<Longrightarrow> bit (lval (mask_top l w)) i \<longleftrightarrow> i < w \<and> bit (lval l) i"
  by (simp add: bit_lval_mask_top width_ok_def)

lemma zero_limbs_ok [simp]: "limbs_ok w (replicate 8 0)"
  by (simp add: limbs_ok_def MAX_LIMBS_def)

lemma wide_not_ok: "width_ok w \<Longrightarrow> limbs_ok w (wide_not w a)"
  by (auto simp: wide_not_def MAX_LIMBS_def for_up_update width_ok_nlimbs)

lemma bit_wide_not:
  assumes "width_ok w" "limbs_ok w a"
  shows "bit (lval (wide_not w a)) i \<longleftrightarrow> i < w \<and> \<not> bit (lval a) i"
  using less_width_div [OF assms(1), of i] width_okD [OF assms(1)]
  by (auto simp: wide_not_def MAX_LIMBS_def bit_mask_top [OF assms(1)] for_up_update
      bit_lval_for_up width_ok_nlimbs [OF assms(1)] bit_lval8 [OF limbs_ok_length [OF assms(2)]]
      bit_not_iff)

lemma wide_not_correct:
  assumes "width_ok w" "limbs_ok w a"
  shows "lval (wide_not w a) = sem_un UNot w (lval a)"
  by (rule bit_eqI)
    (simp add: bit_wide_not assms sem_un_def bit_sem_not limbs_ok_less [OF assms(2)])

lemma wide_shl_ok: "width_ok w \<Longrightarrow> limbs_ok w (wide_shl w a b)"
  by (auto simp: wide_shl_def MAX_LIMBS_def split: option.split)

lemma shift_amount_ok:
  "width_ok w \<Longrightarrow> limbs_ok w b \<Longrightarrow> shift_amount w b = (if lval b < w then Some (lval b) else None)"
  by (rule shift_amount_eq) (simp_all add: limbs_ok_def MAX_LIMBS_def width_ok_def)

lemma bit_wide_shl:
  assumes "width_ok w" "limbs_ok w a" "limbs_ok w b"
  shows "bit (lval (wide_shl w a b)) i \<longleftrightarrow> lval b < w \<and> i < w \<and> lval b \<le> i \<and> bit (lval a) (i - lval b)"
  using width_okD [OF assms(1)]
  by (auto simp: wide_shl_def shift_amount_ok [OF assms(1,3)] bit_mask_top [OF assms(1)]
      bit_shl_bits limbs_ok_length [OF assms(2)])

lemma wide_shl_correct:
  assumes "width_ok w" "limbs_ok w a" "limbs_ok w b"
  shows "lval (wide_shl w a b) = sem_bin BShl w (lval a) (lval b)"
  by (rule bit_eqI) (auto simp: bit_wide_shl assms sem_bin_def bit_sem_shl)

lemma bit_wide_lshr:
  assumes "width_ok w" "limbs_ok w a" "limbs_ok w b"
  shows "bit (lval (wide_lshr w a b)) i \<longleftrightarrow> lval b < w \<and> bit (lval a) (i + lval b)"
  using limbs_ok_bit [OF assms(2), of "i + lval b"] width_okD [OF assms(1)]
  by (auto simp: wide_lshr_def shift_amount_ok [OF assms(1,3)] bit_shr_bits)

lemma wide_lshr_correct:
  assumes "width_ok w" "limbs_ok w a" "limbs_ok w b"
  shows "lval (wide_lshr w a b) = sem_bin BLShr w (lval a) (lval b)"
  by (rule bit_eqI) (simp add: bit_wide_lshr assms sem_bin_def bit_sem_lshr)

lemma wide_lshr_ok:
  assumes "width_ok w" "limbs_ok w a" "limbs_ok w b"
  shows "limbs_ok w (wide_lshr w a b)"
proof (rule limbs_okI)
  show "length (wide_lshr w a b) = 8"
    by (simp add: wide_lshr_def MAX_LIMBS_def split: option.split)
  show "bit (lval (wide_lshr w a b)) i \<Longrightarrow> i < w" for i
    using limbs_ok_bit [OF assms(2), of "i + lval b"] by (auto simp: bit_wide_lshr assms)
qed

lemma wide_msb_ok: "width_ok w \<Longrightarrow> limbs_ok w a \<Longrightarrow> wide_msb a w \<longleftrightarrow> bit (lval a) (w - 1)"
  unfolding wide_msb_def by (rule wide_bit_ok) (auto simp: width_ok_def)

lemma bit_lval_map2_or:
  "length a = length b \<Longrightarrow> bit (lval (map2 (\<lambda>x f. x OR f) a b)) i \<longleftrightarrow> bit (lval a) i \<or> bit (lval b) i"
  by (auto simp: bit_lval bit_simps)

lemma bit_lval_map_or:
  "length a = 8 \<Longrightarrow> length b = 8 \<Longrightarrow>
   bit (lval (map (\<lambda>i. a ! i OR b ! i) [0..<8])) i \<longleftrightarrow> bit (lval a) i \<or> bit (lval b) i"
  by (auto simp: bit_lval8 bit_simps)

lemma length_wide_ones [simp]: "length (wide_ones w) = 8"
  by (simp add: wide_ones_def MAX_LIMBS_def)

lemma bit_wide_ashr:
  assumes "width_ok w" "limbs_ok w a" "limbs_ok w b"
  shows "bit (lval (wide_ashr w a b)) i \<longleftrightarrow> i < w \<and>
    (if lval b < w \<and> i + lval b < w then bit (lval a) (i + lval b) else bit (lval a) (w - 1))"
proof -
  note w = width_okD [OF assms(1)]
  have fill: "bit (lval (mask_top (shl_bits (wide_ones w) (w - s)) w)) i \<longleftrightarrow> i < w \<and> w \<le> i + s"
    if "s < w" for s
    using that w by (auto simp: bit_mask_top [OF assms(1)] bit_shl_bits bit_wide_ones)
  show ?thesis
    using w limbs_ok_bit [OF assms(2), of i] limbs_ok_bit [OF assms(2), of "i + lval b"]
    by (auto simp: wide_ashr_def Let_def shift_amount_ok [OF assms(1,3)] wide_msb_ok [OF assms(1,2)]
        bit_lval_map2_or fill bit_wide_ones bit_shr_bits MAX_LIMBS_def)
qed

lemma wide_ashr_ok:
  assumes "width_ok w" "limbs_ok w a" "limbs_ok w b"
  shows "limbs_ok w (wide_ashr w a b)"
proof (rule limbs_okI)
  show "length (wide_ashr w a b) = 8"
    by (simp add: wide_ashr_def MAX_LIMBS_def Let_def split: option.split)
  show "bit (lval (wide_ashr w a b)) i \<Longrightarrow> i < w" for i
    by (simp add: bit_wide_ashr assms)
qed

lemma wide_ashr_correct:
  assumes "width_ok w" "limbs_ok w a" "limbs_ok w b"
  shows "lval (wide_ashr w a b) = sem_bin BAShr w (lval a) (lval b)"
proof (rule bit_eqI)
  fix i
  show "bit (lval (wide_ashr w a b)) i = bit (sem_bin BAShr w (lval a) (lval b)) i"
    using assms limbs_ok_less [OF assms(2)]
    by (auto simp: bit_wide_ashr sem_bin_def bit_div_int bit_sem_signed width_okD)
qed

end
