(* ===== verification/Limbs_Perm.thy ===== *)
theory Limbs_Perm
  imports Limbs_Bits
begin

unbundle bit_operations_syntax

text \<open>
  Correctness of the limb kernels that permute, count and compare bits: rotations, population
  and zero counts, byte and bit reversal, comparisons, width changes, and parallel deposit and
  extract.
\<close>

section \<open>Rotations\<close>

lemma unat_or_push_64: "unat (y::u64) OR push_bit 64 n = unat y + B64 * n"
proof -
  have "unat y AND push_bit 64 n = 0"
    by (rule bit_eqI) (auto simp: bit_simps bit_unat dest: bit_imp_le_length)
  then have "unat y + push_bit 64 n = unat y OR push_bit 64 n"
    by (rule disjunctive_add_eq_or)
  then show ?thesis by (simp add: push_bit_eq_mult B64_def)
qed

lemma unat_push_64_or:
  assumes "unat (x::u128) < B64"
  shows "unat (push_bit 64 x OR ucast (y::u64)) = unat x * B64 + unat y"
proof -
  have "push_bit 64 (unat x) < 2 ^ 128"
    using assms by (simp add: push_bit_eq_mult B64_def)
  then have "unat (push_bit 64 x) = push_bit 64 (unat x)"
    by (simp add: unsigned_push_bit_eq take_bit_nat_eq_self)
  moreover have "unat (ucast y :: u128) = unat y"
    by (rule unsigned_ucast_eq [THEN trans]) (simp add: take_bit_nat_eq_self order_less_le_trans [OF unsigned_less])
  ultimately show ?thesis
    by (simp add: unsigned_or_eq or.commute [of _ "unat y"] unat_or_push_64)
qed

lemma unat_word_of_nat_u128: "m < 2 ^ 64 \<Longrightarrow> unat (word_of_nat m :: u128) = m"
  by (simp add: unsigned_of_nat take_bit_nat_eq_self)

lemma mod_small_eq:
  assumes "limbs_ok w b" "width_ok w" "0 < m" "m < 2 ^ 16"
  shows "mod_small b w m = lval b mod m"
proof -
  define n where "n = nlimbs w"
  have n: "n \<le> 8" and l: "length b = 8"
    using assms by (simp_all add: n_def width_ok_nlimbs limbs_ok_length)
  have m: "unat (word_of_nat m :: u128) = m" "m < B64"
    using assms by (simp_all add: unat_word_of_nat_u128 B64_def)
  have "unat (for_down n (\<lambda>i rem. (push_bit 64 rem OR ucast (b ! i)) mod (word_of_nat m :: u128)) 0)
      = lval (drop 0 (take n b)) mod m"
  proof (rule for_down_inv [where I = "\<lambda>i rem. unat rem = lval (drop i (take n b)) mod m"])
    fix i rem assume i: "i < n" and I: "unat (rem :: u128) = lval (drop (Suc i) (take n b)) mod m"
    have r: "unat rem < B64" using I m assms(3) by (simp add: less_trans [OF mod_less_divisor])
    have d: "drop i (take n b) = b ! i # drop (Suc i) (take n b)"
      using i n l by (simp add: Cons_nth_drop_Suc [symmetric])
    have "(L mod m * B64 + y) mod m = (y + B64 * L) mod m" for L y
      by (metis add.commute mod_add_left_eq mod_mult_left_eq mult.commute)
    then show "unat ((push_bit 64 rem OR ucast (b ! i)) mod (word_of_nat m :: u128))
        = lval (drop i (take n b)) mod m"
      unfolding d by (simp add: unat_mod_distrib m unat_push_64_or [OF r] I)
  qed simp
  moreover have "lval (take n b) = lval b"
    unfolding lval_take using assms le_nlimbs [of w] limbs_ok_less [OF assms(1)]
    by (simp add: n_def) (meson mod_less order_less_le_trans power_increasing one_le_numeral)
  ultimately show ?thesis by (simp add: mod_small_def n_def)
qed

lemma rotl_by_length: "length a = 8 \<Longrightarrow> length (wide_rotl_by w a r) = 8"
  by (simp add: wide_rotl_by_def MAX_LIMBS_def Let_def)

lemma bit_rotl_by:
  assumes "width_ok w" "limbs_ok w a" "r < w"
  shows "bit (lval (wide_rotl_by w a r)) i \<longleftrightarrow> i < w \<and> bit (lval a) ((i + (w - r)) mod w)"
proof (cases "r = 0")
  case True
  then show ?thesis using limbs_ok_bit [OF assms(2), of i] by (auto simp: wide_rotl_by_def)
next
  case False
  note w = width_okD [OF assms(1)]
  have h: "bit (lval (mask_top (shl_bits a r) w)) i \<longleftrightarrow> i < w \<and> r \<le> i \<and> bit (lval a) (i - r)"
    using w by (auto simp: bit_mask_top [OF assms(1)] bit_shl_bits limbs_ok_length [OF assms(2)])
  have l: "bit (lval (shr_bits a (w - r))) i \<longleftrightarrow> i < r \<and> bit (lval a) (i + (w - r))"
    using w assms(3) limbs_ok_bit [OF assms(2), of "i + (w - r)"] by (auto simp: bit_shr_bits)
  have "bit (lval (wide_rotl_by w a r)) i \<longleftrightarrow>
      (i < w \<and> r \<le> i \<and> bit (lval a) (i - r)) \<or> (i < r \<and> bit (lval a) (i + (w - r)))"
    using False by (simp add: wide_rotl_by_def Let_def MAX_LIMBS_def bit_lval_map_or h l
        limbs_ok_length [OF assms(2)])
  moreover have "(i + (w - r)) mod w = (if r \<le> i then i - r else i + (w - r))" if "i < w"
    using that assms(3) False by (auto simp: le_mod_geq)
  ultimately show ?thesis using assms(3) by (cases "i < w"; cases "r \<le> i") simp_all
qed

lemma width_ok_16: "width_ok w \<Longrightarrow> w < 2 ^ 16"
  by (simp add: width_ok_def)

lemma rotl_by_ok: "width_ok w \<Longrightarrow> limbs_ok w a \<Longrightarrow> r < w \<Longrightarrow> limbs_ok w (wide_rotl_by w a r)"
  by (rule limbs_okI) (simp_all add: rotl_by_length limbs_ok_length bit_rotl_by)

lemma wide_rotl_correct:
  assumes "width_ok w" "limbs_ok w a" "limbs_ok w b"
  shows "lval (wide_rotl w a b) = sem_bin BRotL w (lval a) (lval b)"
  using width_okD [OF assms(1)]
  by (intro bit_eqI)
    (simp add: wide_rotl_def mod_small_eq [OF assms(3,1)] width_ok_16 [OF assms(1)]
      bit_rotl_by [OF assms(1,2)] sem_bin_def)

lemma wide_rotr_correct:
  assumes "width_ok w" "limbs_ok w a" "limbs_ok w b"
  shows "lval (wide_rotr w a b) = sem_bin BRotR w (lval a) (lval b)"
proof (rule bit_eqI)
  fix i
  note w = width_okD [OF assms(1)]
  define r where "r = lval b mod w"
  have r: "r < w" using w by (simp add: r_def)
  have m: "(i + w - (w - r) mod w) mod w = (i + r) mod w"
    using r by (cases "r = 0") simp_all
  show "bit (lval (wide_rotr w a b)) i = bit (sem_bin BRotR w (lval a) (lval b)) i"
    using w
    by (simp add: wide_rotr_def Let_def mod_small_eq [OF assms(3,1)] width_ok_16 [OF assms(1)]
      bit_rotl_by [OF assms(1,2)] sem_bin_def m flip: r_def)
qed

lemma wide_rot_ok:
  assumes "width_ok w" "limbs_ok w a" "limbs_ok w b"
  shows "limbs_ok w (wide_rotl w a b)" "limbs_ok w (wide_rotr w a b)"
  using width_okD [OF assms(1)]
  by (simp_all add: wide_rotl_def wide_rotr_def Let_def mod_small_eq [OF assms(3,1)]
      width_ok_16 [OF assms(1)] rotl_by_ok assms)


section \<open>Population count\<close>

lemma count_ones_rank: "count_ones (x::'a::len word) = rank_below (unat x) LENGTH('a)"
proof -
  have "bit (unat x) = bit x" by (rule ext) (rule bit_unat)
  then show ?thesis by (simp add: count_ones_def rank_below_def)
qed

lemma drop_bit_lval_Cons: "drop_bit 64 (lval (x # xs)) = lval xs"
  by (rule bit_eqI) (auto simp: lval_Cons_bits bit_simps bit_unat simp del: lval.simps dest: bit_imp_le_length)

lemma rank_below_Cons: "rank_below (lval (x # xs)) (64 + j) = count_ones x + rank_below (lval xs) j"
proof -
  have "rank_below (lval (x # xs)) 64 = rank_below (unat x) 64"
    by (rule rank_below_cong) (auto simp: lval_Cons_bits bit_simps bit_unat simp del: lval.simps)
  then show ?thesis
    unfolding rank_below_add drop_bit_lval_Cons count_ones_rank by simp
qed

lemma sum_count_ones: "sum_list (map count_ones xs) = rank_below (lval xs) (64 * length xs)"
proof (induction xs)
  case Nil
  then show ?case by simp
next
  case (Cons x xs)
  have "64 * length (x # xs) = 64 + 64 * length xs" by simp
  then show ?case using Cons by (simp only: rank_below_Cons) simp
qed

lemma sum_list_of_nat: "sum_list (map (\<lambda>x. word_of_nat (f x)) xs) = word_of_nat (sum_list (map f xs))"
  by (induction xs) simp_all

lemma small_ok: "v < 2 ^ w \<Longrightarrow> v < 2 ^ 64 \<Longrightarrow> limbs_ok w (small (word_of_nat v)) \<and> lval (small (word_of_nat v)) = v"
  by (simp add: limbs_ok_def lval_small MAX_LIMBS_def unsigned_of_nat take_bit_nat_eq_self)

lemma width_less_power: "w < 2 ^ w"
  by simp

lemma small_width_ok:
  assumes "width_ok w" "v \<le> w"
  shows "limbs_ok w (small (word_of_nat v))" "lval (small (word_of_nat v)) = v"
proof -
  have "v < 2 ^ w" using assms(2) width_less_power [of w] by (rule le_less_trans)
  moreover have "v < 2 ^ 64" using assms by (simp add: width_ok_def)
  ultimately show "limbs_ok w (small (word_of_nat v))" "lval (small (word_of_nat v)) = v"
    using small_ok by blast+
qed

lemma wide_popcnt_correct:
  assumes "width_ok w" "limbs_ok w a"
  shows "lval (wide_popcnt a) = sem_un UPopcnt w (lval a) \<and> limbs_ok w (wide_popcnt a)"
proof -
  have "rank_below (lval a) 512 = rank_below (lval a) w"
    using rank_below_less_width [OF limbs_ok_less [OF assms(2)], of "512 - w"] width_okD [OF assms(1)]
    by simp
  then have "wide_popcnt a = small (word_of_nat (rank_below (lval a) w))"
    by (simp add: wide_popcnt_def sum_list_of_nat sum_count_ones limbs_ok_length [OF assms(2)])
  then show ?thesis
    using small_width_ok [OF assms(1) rank_below_le] by (simp add: sem_un_def)
qed


section \<open>Zero counts\<close>

lemma leading_zeros_bit:
  assumes "(x::u64) \<noteq> 0"
  shows "leading_zeros x < 64" "bit x (63 - leading_zeros x)"
    "\<And>i. 63 - leading_zeros x < i \<Longrightarrow> \<not> bit x i"
  using leading_zeros_props [OF assms] by simp_all

lemma trailing_zeros_bit:
  assumes "(x::u64) \<noteq> 0"
  shows "trailing_zeros x < 64" "bit x (trailing_zeros x)"
    "\<And>i. i < trailing_zeros x \<Longrightarrow> \<not> bit x i"
  using trailing_zeros_props [OF assms] by simp_all

text \<open>The two counts of the specification, from the position of the extreme set bit.\<close>

lemma sem_clz_eqI:
  assumes "p < w" "bit a p" "\<And>i. p < i \<Longrightarrow> i < w \<Longrightarrow> \<not> bit a i"
  shows "sem_un UClz w a = w - 1 - p"
  unfolding sem_un_def UnOp.case
proof (rule takeWhile_length_eqI)
  show "\<not> bit a (rev [0..<w] ! i)" if "i < w - 1 - p" for i
    using that assms(1) assms(3) [of "w - Suc i"] by (auto simp: rev_nth)
  show "\<not> \<not> bit a (rev [0..<w] ! (w - 1 - p))" if "w - 1 - p < length (rev [0..<w])"
    using assms by (simp add: rev_nth Suc_diff_Suc)
qed simp

lemma sem_ctz_eqI:
  assumes "p < w" "bit a p" "\<And>i. i < p \<Longrightarrow> \<not> bit a i"
  shows "sem_un UCtz w a = p"
  unfolding sem_un_def UnOp.case
  using assms by (intro takeWhile_length_eqI) auto

lemma sem_clz_0: "sem_un UClz w 0 = w"
  unfolding sem_un_def UnOp.case by (rule takeWhile_length_eqI) auto

lemma sem_ctz_0: "sem_un UCtz w 0 = w"
  unfolding sem_un_def UnOp.case by (rule takeWhile_length_eqI) auto


lemma bit_limb: "i < length a \<Longrightarrow> k < 64 \<Longrightarrow> bit (lval a) (64 * i + k) \<longleftrightarrow> bit (a ! i) k"
  by (simp add: bit_lval)

lemma div_mod_64_cases: obtains q r where "(j::nat) = 64 * q + r" "r < 64"
  by (rule that [of "j div 64" "j mod 64"]) simp_all

lemma limb_zero_iff:
  assumes "i < length a"
  shows "a ! i = 0 \<longleftrightarrow> (\<forall>k<64. \<not> bit (lval a) (64 * i + k))"
proof -
  have "a ! i = 0 \<longleftrightarrow> (\<forall>k<64. \<not> bit (a ! i) k)"
    by (auto simp: bit_eq_iff possible_bit_word)
  then show ?thesis using assms by (simp add: bit_limb)
qed

lemma clz_loop_correct:
  assumes "width_ok w" "limbs_ok w a"
  shows "i \<le> nlimbs w \<Longrightarrow> (\<And>j. 64 * i \<le> j \<Longrightarrow> \<not> bit (lval a) j) \<Longrightarrow>
    lval (clz_loop i a (nlimbs w) (nlimbs w * 64 - w) w) = sem_un UClz w (lval a) \<and>
    limbs_ok w (clz_loop i a (nlimbs w) (nlimbs w * 64 - w) w)"
proof (induction i)
  case 0
  then have "lval a = 0" by (intro bit_eqI) auto
  then show ?case using small_width_ok [OF assms(1) order_refl] by (simp add: sem_clz_0)
next
  case (Suc i)
  have i8: "i < length a" using Suc.prems(1) width_ok_nlimbs [OF assms(1)] limbs_ok_length [OF assms(2)] by simp
  show ?case
  proof (cases "a ! i = 0")
    case True
    then have z: "\<not> bit (lval a) (64 * i + k)" if "k < 64" for k using that limb_zero_iff [OF i8] by blast
    have "\<not> bit (lval a) j" if "64 * i \<le> j" for j
    proof (cases "64 * Suc i \<le> j")
      case False
      then show ?thesis using z [of "j - 64 * i"] that by simp
    qed (rule Suc.prems(2))
    then show ?thesis using Suc True by simp
  next
    case False
    define z where "z = leading_zeros (a ! i)"
    note lz = leading_zeros_bit [OF False, folded z_def]
    define p where "p = 64 * i + (63 - z)"
    have p: "bit (lval a) p" using lz(2) bit_limb [OF i8, of "63 - z"] by (simp add: p_def)
    then have pw: "p < w" by (rule limbs_ok_bit [OF assms(2)])
    have above: "\<not> bit (lval a) j" if "p < j" for j
    proof (cases "64 * Suc i \<le> j")
      case False
      define k where "k = j - 64 * i"
      have k: "j = 64 * i + k" "k < 64" "63 - z < k" using False that by (auto simp: k_def p_def)
      then show ?thesis using lz(3) i8 by (simp add: bit_limb)
    qed (rule Suc.prems(2))
    have "sem_un UClz w (lval a) = w - 1 - p"
      using pw p above by (intro sem_clz_eqI) auto
    moreover have "(nlimbs w - 1 - i) * 64 + z - (nlimbs w * 64 - w) = w - 1 - p"
      using lz(1) pw Suc.prems(1) le_nlimbs [of w] unfolding p_def by (simp add: diff_mult_distrib)
    ultimately show ?thesis
      using False small_width_ok [OF assms(1), of "w - 1 - p"] by (simp add: z_def)
  qed
qed

lemma wide_clz_correct:
  assumes "width_ok w" "limbs_ok w a"
  shows "lval (wide_clz w a) = sem_un UClz w (lval a) \<and> limbs_ok w (wide_clz w a)"
  unfolding wide_clz_def Let_def
proof (rule clz_loop_correct [OF assms order_refl])
  show "\<not> bit (lval a) j" if "64 * nlimbs w \<le> j" for j
    using that le_nlimbs [of w] limbs_ok_bit [OF assms(2), of j] by auto
qed

lemma ctz_loop_correct:
  assumes "width_ok w" "limbs_ok w a"
  shows "i + length xs = nlimbs w \<Longrightarrow> xs = drop i (take (nlimbs w) a) \<Longrightarrow>
    (\<And>j. j < 64 * i \<Longrightarrow> \<not> bit (lval a) j) \<Longrightarrow>
    lval (ctz_loop xs i w) = sem_un UCtz w (lval a) \<and> limbs_ok w (ctz_loop xs i w)"
proof (induction xs arbitrary: i)
  case Nil
  have "lval a = 0"
  proof (rule bit_eqI)
    show "bit (lval a) j = bit (0::nat) j" for j
      using Nil le_nlimbs [of w] limbs_ok_bit [OF assms(2), of j] by fastforce
  qed
  then show ?case using small_width_ok [OF assms(1) order_refl] by (simp add: sem_ctz_0)
next
  case (Cons x xs)
  have i: "i < nlimbs w" using Cons.prems(1) by simp
  then have i8: "i < length a" using width_ok_nlimbs [OF assms(1)] limbs_ok_length [OF assms(2)] by simp
  have "drop i (take (nlimbs w) a) = a ! i # drop (Suc i) (take (nlimbs w) a)"
    using i i8 by (simp add: Cons_nth_drop_Suc [symmetric])
  then have x: "x = a ! i" "xs = drop (i + 1) (take (nlimbs w) a)" using Cons.prems(2) by simp_all
  show ?case
  proof (cases "a ! i = 0")
    case True
    then have z: "\<not> bit (lval a) (64 * i + k)" if "k < 64" for k using that limb_zero_iff [OF i8] by blast
    have "\<not> bit (lval a) j" if "j < 64 * (i + 1)" for j
      using z [of "j - 64 * i"] that Cons.prems(3) [of j] by (cases "64 * i \<le> j") auto
    then show ?thesis using Cons.IH [of "i + 1"] Cons.prems(1) x True by simp
  next
    case False
    define z where "z = trailing_zeros (a ! i)"
    note tz = trailing_zeros_bit [OF False, folded z_def]
    have p: "bit (lval a) (64 * i + z)" using tz i8 by (simp add: bit_limb)
    then have pw: "64 * i + z < w" by (rule limbs_ok_bit [OF assms(2)])
    have "\<not> bit (lval a) j" if "j < 64 * i + z" for j
    proof (cases "64 * i \<le> j")
      case True
      then have "\<not> bit (a ! i) (j - 64 * i)" "j - 64 * i < 64" using that tz by auto
      then show ?thesis using bit_limb [OF i8, of "j - 64 * i"] True by simp
    qed (use Cons.prems(3) in auto)
    then have "sem_un UCtz w (lval a) = 64 * i + z"
      using pw p by (intro sem_ctz_eqI) auto
    then show ?thesis
      using False x pw small_width_ok [OF assms(1), of "64 * i + z"]
      by (simp add: z_def mult.commute)
  qed
qed

lemma wide_ctz_correct:
  assumes "width_ok w" "limbs_ok w a"
  shows "lval (wide_ctz w a) = sem_un UCtz w (lval a) \<and> limbs_ok w (wide_ctz w a)"
  unfolding wide_ctz_def
  by (rule ctz_loop_correct [OF assms])
    (use width_ok_nlimbs [OF assms(1)] limbs_ok_length [OF assms(2)] in auto)


section \<open>Byte and bit reversal\<close>

lemma bit_reverse_bits: "bit (reverse_bits (x::u64)) k \<longleftrightarrow> k < 64 \<and> bit x (63 - k)"
  by (auto simp: reverse_bits_def bit_horner_sum_bit_word_iff)

lemma wide_bitrev_correct:
  assumes "width_ok w" "limbs_ok w a"
  shows "lval (wide_bitrev w a) = sem_un UBitRev w (lval a) \<and> limbs_ok w (wide_bitrev w a)"
proof
  define n where "n = nlimbs w"
  define f where "f = (\<lambda>i. reverse_bits (a ! (n - 1 - i)))"
  define rv where "rv = for_up n (\<lambda>i r. r[i := f i]) (replicate 8 (0::u64))"
  note w = width_okD [OF assms(1)]
  have n: "n \<le> 8" "w \<le> 64 * n" "0 < n"
    using width_ok_nlimbs [OF assms(1)] le_nlimbs [of w] w by (auto simp: n_def)
  have a: "length a = 8" by (rule limbs_ok_length [OF assms(2)])
  have def: "wide_bitrev w a = mask_top (shr_bits (take n rv) (n * 64 - w)) w"
    by (simp add: wide_bitrev_def Let_def rv_def f_def n_def MAX_LIMBS_def)
  have rv: "bit (lval (take n rv)) j \<longleftrightarrow> bit (lval a) (64 * n - 1 - j)" if j: "j < 64 * n" for j
  proof -
    obtain q r where qr: "j = 64 * q + r" "r < 64" by (rule div_mod_64_cases)
    then have q: "q < n" using j by simp
    have "length rv = 8" using for_up_update(1) [OF n(1)] by (simp add: rv_def)
    then have "bit (lval (take n rv)) j \<longleftrightarrow> bit (rv ! q) r"
      using q n(1) qr by (simp add: bit_limb)
    also have "\<dots> \<longleftrightarrow> bit (f q) r"
      using for_up_update(2) [OF n(1), of q f] q n(1) by (simp add: rv_def)
    also have "\<dots> \<longleftrightarrow> bit (a ! (n - 1 - q)) (63 - r)"
      using qr by (simp add: f_def bit_reverse_bits)
    also have "\<dots> \<longleftrightarrow> bit (lval a) (64 * (n - 1 - q) + (63 - r))"
      by (rule bit_limb [symmetric]) (use a n q in auto)
    also have "64 * (n - 1 - q) + (63 - r) = 64 * n - 1 - j"
      using q qr by (simp add: diff_mult_distrib2)
    finally show ?thesis .
  qed
  show "lval (wide_bitrev w a) = sem_un UBitRev w (lval a)"
  proof (rule bit_eqI)
    fix i
    show "bit (lval (wide_bitrev w a)) i = bit (sem_un UBitRev w (lval a)) i"
    proof (cases "i < w")
      case True
      have "i + (n * 64 - w) < 64 * n" "64 * n - 1 - (i + (n * 64 - w)) = w - 1 - i" "i < 512"
        using True n w by auto
      then show ?thesis using True
        by (simp add: def bit_mask_top [OF assms(1)] bit_shr_bits rv sem_un_def)
    qed (simp add: def bit_mask_top [OF assms(1)] sem_un_def)
  qed
  show "limbs_ok w (wide_bitrev w a)" unfolding def using assms(1) by (rule mask_top_ok) simp
qed

lemma length_to_le_bytes [simp]: "length (to_le_bytes x) = 8"
  by (simp add: to_le_bytes_def)

lemma bit_to_le_bytes: "j < 8 \<Longrightarrow> bit (to_le_bytes x ! j) k \<longleftrightarrow> k < 8 \<and> bit x (8 * j + k)"
  by (auto simp: to_le_bytes_def bit_simps add.commute)

lemma bit_from_le_bytes:
  "length bs \<le> 8 \<Longrightarrow> bit (from_le_bytes bs) i \<longleftrightarrow> i div 8 < length bs \<and> bit (bs ! (i div 8)) (i mod 8)"
proof (induction bs arbitrary: i)
  case Nil
  then show ?case by (simp add: from_le_bytes_def)
next
  case (Cons b bs)
  have st: "from_le_bytes (b # bs) = push_bit 8 (from_le_bytes bs) OR ucast b"
    by (simp add: from_le_bytes_def)
  show ?case
  proof (cases "i < 8")
    case True
    then show ?thesis by (simp add: st bit_simps)
  next
    case False
    then obtain j where i: "i = j + 8" by (metis add.commute le_Suc_ex not_less)
    have d: "(j + 8) div 8 = Suc (j div 8)" by presburger
    have "\<not> bit b (j + 8)" by (auto dest: bit_imp_le_length)
    moreover have "j + 8 < 64" if "j div 8 < length bs"
    proof -
      have "j div 8 < 7" using that Cons.prems by simp
      then show ?thesis by (simp add: div_less_iff_less_mult)
    qed
    ultimately show ?thesis
      using Cons.IH [of j] Cons.prems by (auto simp: i st d bit_simps)
  qed
qed


lemma concat_to_le_bytes:
  "length (concat (map to_le_bytes a)) = 8 * length a"
  "j < 8 * length a \<Longrightarrow> concat (map to_le_bytes a) ! j = to_le_bytes (a ! (j div 8)) ! (j mod 8)"
proof -
  show l: "length (concat (map to_le_bytes a)) = 8 * length a" for a
    by (induction a) simp_all
  show "j < 8 * length a \<Longrightarrow> concat (map to_le_bytes a) ! j = to_le_bytes (a ! (j div 8)) ! (j mod 8)"
  proof (induction a arbitrary: j)
    case (Cons x a)
    show ?case
    proof (cases "j < 8")
      case False
      then obtain i where i: "j = i + 8" by (metis add.commute le_Suc_ex not_less)
      then show ?thesis using Cons by (simp add: nth_append div_add_self2)
    qed (simp add: nth_append)
  qed simp
qed

lemma byte_split: "8 * (j::nat) + k = 64 * (j div 8) + (8 * (j mod 8) + k)"
proof -
  have "j = 8 * (j div 8) + j mod 8" by simp
  then show ?thesis by linarith
qed

lemma bit_byte_of_limbs:
  assumes "j < 8 * length a" "k < 8"
  shows "bit (concat (map to_le_bytes a) ! j) k \<longleftrightarrow> bit (lval a) (8 * j + k)"
proof -
  have "j div 8 < length a" using assms(1) by (simp add: div_less_iff_less_mult mult.commute)
  moreover have "8 * (j mod 8) + k < 64" using mod_less_divisor [of 8 j] assms(2) by linarith
  ultimately show ?thesis
    unfolding byte_split [of j k]
    using assms by (simp add: concat_to_le_bytes(2) bit_to_le_bytes bit_limb)
qed

lemma bit_chunks:
  assumes "length bs = 64" "i < 512"
  shows "bit (lval (map (\<lambda>i. from_le_bytes (take 8 (drop (i * 8) bs))) [0..<8])) i \<longleftrightarrow>
    bit (bs ! (i div 8)) (i mod 8)"
proof -
  obtain q r where qr: "i = 64 * q + r" "r < 64" by (rule div_mod_64_cases)
  then have q: "q < 8" using assms(2) by simp
  have r: "r div 8 < 8" using qr(2) by (simp add: div_less_iff_less_mult)
  have "i = r + 8 * (8 * q)" using qr(1) by simp
  then have d: "i div 8 = 8 * q + r div 8" "i mod 8 = r mod 8"
    by (simp_all only: div_mult_self2 mod_mult_self2)
  have lt: "q * 8 + r div 8 < 64" using q r by linarith
  have l: "length (take 8 (drop (q * 8) bs)) = 8" using assms(1) q by simp
  have "bit (lval (map (\<lambda>i. from_le_bytes (take 8 (drop (i * 8) bs))) [0..<8])) i \<longleftrightarrow>
      bit (from_le_bytes (take 8 (drop (q * 8) bs))) r"
    unfolding qr(1) using q qr(2) by (simp add: bit_limb)
  also have "\<dots> \<longleftrightarrow> bit (take 8 (drop (q * 8) bs) ! (r div 8)) (r mod 8)"
    using bit_from_le_bytes [of "take 8 (drop (q * 8) bs)" r] r unfolding l by simp
  also have "take 8 (drop (q * 8) bs) ! (r div 8) = bs ! (q * 8 + r div 8)"
    using r lt assms(1) by simp
  finally show ?thesis by (simp add: d mult.commute)
qed

lemma wide_bswap_correct:
  assumes "width_ok w" "limbs_ok w a" "w mod 8 = 0"
  shows "lval (wide_bswap w a) = sem_un UBswap w (lval a) \<and> limbs_ok w (wide_bswap w a)"
proof
  define bs where "bs = concat (map to_le_bytes a)"
  define n where "n = w div 8"
  define out where "out = rev (take n bs) @ drop n bs"
  note w = width_okD [OF assms(1)]
  have a: "length a = 8" by (rule limbs_ok_length [OF assms(2)])
  have wn: "w = 8 * n" using assms(3) mult_div_mod_eq [of 8 w] by (simp add: n_def)
  have n: "n \<le> 64" using w wn by simp
  have bs: "length bs = 64" by (simp add: bs_def concat_to_le_bytes a)
  have lo: "length out = 64" using bs by (simp add: out_def)
  have def: "wide_bswap w a = mask_top (map (\<lambda>i. from_le_bytes (take 8 (drop (i * 8) out))) [0..<8]) w"
    by (simp add: wide_bswap_def Let_def bs_def n_def out_def MAX_LIMBS_def)
  show "lval (wide_bswap w a) = sem_un UBswap w (lval a)"
  proof (rule bit_eqI)
    fix i
    show "bit (lval (wide_bswap w a)) i = bit (sem_un UBswap w (lval a)) i"
    proof (cases "i < w")
      case True
      define q r where "q = i div 8" and "r = i mod 8"
      have q: "q < n" "r < 8" using True wn by (auto simp: q_def r_def div_less_iff_less_mult mult.commute)
      have "out ! q = bs ! (n - 1 - q)"
        using q n bs by (simp add: out_def nth_append rev_nth)
      then have "bit (lval (wide_bswap w a)) i \<longleftrightarrow> bit (bs ! (n - 1 - q)) r"
        using True w bit_chunks [OF lo, of i] by (simp add: def bit_mask_top [OF assms(1)] q_def r_def)
      also have "\<dots> \<longleftrightarrow> bit (lval a) (8 * (n - 1 - q) + r)"
        unfolding bs_def using q n a by (intro bit_byte_of_limbs) auto
      finally show ?thesis using True by (simp add: sem_un_def n_def q_def r_def mult.commute)
    qed (simp add: def bit_mask_top [OF assms(1)] sem_un_def)
  qed
  show "limbs_ok w (wide_bswap w a)" unfolding def using assms(1) by (rule mask_top_ok) simp
qed


section \<open>Comparisons\<close>

lemma ult_loop_correct:
  "length a = length b \<Longrightarrow> i \<le> length a \<Longrightarrow> ult_loop i a b \<longleftrightarrow> lval (take i a) < lval (take i b)"
proof (induction i)
  case (Suc i)
  have d: "lval (take (Suc i) c) = lval (take i c) + B64 ^ i * unat (c ! i)" if "i < length c" for c
    using that by (simp add: take_Suc_snoc lval_append min_def)
  have l: "lval (take i c) < B64 ^ i" if "i < length c" for c
    using lval_less [of "take i c"] that by (simp add: min_def)
  have lex: "x + B64 ^ i * u < y + B64 ^ i * v" if "u < v" "x < B64 ^ i" for x y u v :: nat
  proof -
    have "B64 ^ i * (u + 1) \<le> B64 ^ i * v" using that(1) by (intro mult_le_mono2) simp
    then show ?thesis using that(2) by (simp add: algebra_simps)
  qed
  have i: "i < length a" "i < length b" using Suc.prems by auto
  show ?case
  proof (cases "a ! i = b ! i")
    case True
    then show ?thesis using Suc by (simp add: d i)
  next
    case False
    then have "unat (a ! i) \<noteq> unat (b ! i)" by (simp add: word_unat_eq_iff)
    then show ?thesis
      using False lex [OF _ l [OF i(1)]] lex [OF _ l [OF i(2)]] i
      by (auto simp: d word_less_nat_alt linorder_neq_iff dest: order.asym)
  qed
qed simp

lemma lval_take_nlimbs:
  assumes "limbs_ok w a"
  shows "lval (take (nlimbs w) a) = lval a"
  unfolding lval_take using le_nlimbs [of w] limbs_ok_less [OF assms]
  by (meson mod_less order_less_le_trans power_increasing one_le_numeral)

lemma wide_ult_correct:
  "width_ok w \<Longrightarrow> limbs_ok w a \<Longrightarrow> limbs_ok w b \<Longrightarrow> wide_ult w a b \<longleftrightarrow> lval a < lval b"
  by (simp add: wide_ult_def ult_loop_correct limbs_ok_length width_ok_nlimbs lval_take_nlimbs)

lemma wide_slt_correct:
  assumes "width_ok w" "limbs_ok w a" "limbs_ok w b"
  shows "wide_slt w a b \<longleftrightarrow> sem_signed w (lval a) < sem_signed w (lval b)"
proof -
  have lex: "(if p then x - P else x) < (if q then y - P else y) \<longleftrightarrow>
      (case (p, q) of (True, False) \<Rightarrow> True | (False, True) \<Rightarrow> False | _ \<Rightarrow> x < y)"
    if "x < P" "y < P" "0 \<le> x" "0 \<le> y" for x y P :: int and p q
    using that by (auto split: bool.splits)
  have "int (lval a) < 2 ^ w" "int (lval b) < 2 ^ w"
    using limbs_ok_less [OF assms(2)] limbs_ok_less [OF assms(3)] by simp_all
  then show ?thesis
    unfolding sem_signed_def wide_slt_def wide_msb_ok [OF assms(1,2)] wide_msb_ok [OF assms(1,3)]
      wide_ult_correct [OF assms]
    by (subst lex) (auto split: bool.splits)
qed

lemma wide_cmp_correct:
  assumes "width_ok w" "limbs_ok w a" "limbs_ok w b"
  shows "wide_cmp op w a b \<longleftrightarrow> sem_cmp op w (lval a) (lval b)"
  using lval_inject [OF assms(2,3)]
  by (cases op) (auto simp: wide_cmp_def sem_cmp_def wide_ult_correct assms wide_slt_correct)


section \<open>Width changes\<close>

lemma wide_zext_ok: "limbs_ok w a \<Longrightarrow> w \<le> to \<Longrightarrow> limbs_ok to a"
  by (auto simp: limbs_ok_def intro: order_less_le_trans power_increasing)

lemma wide_sext_correct:
  assumes "width_ok from" "width_ok to" "from \<le> to" "limbs_ok from a"
  shows "lval (wide_sext a from to) = sem_sext from to (lval a) \<and> limbs_ok to (wide_sext a from to)"
proof -
  note w = width_okD [OF assms(1)] width_okD [OF assms(2)]
  have a: "length a = 8" by (rule limbs_ok_length [OF assms(4)])
  have b: "bit (lval (wide_sext a from to)) i \<longleftrightarrow> i < to \<and> (if i < from then bit (lval a) i else bit (lval a) (from - 1))" for i
  proof -
    have "bit (lval (map (\<lambda>i. a ! i OR (wide_ones to ! i AND NOT (wide_ones from ! i))) [0..<8])) i \<longleftrightarrow>
        bit (lval a) i \<or> (bit (lval (wide_ones to)) i \<and> \<not> bit (lval (wide_ones from)) i)"
      by (auto simp: bit_lval8 a bit_simps)
    then show ?thesis
      using limbs_ok_bit [OF assms(4), of i] w assms(3)
      by (auto simp: wide_sext_def Let_def MAX_LIMBS_def wide_msb_ok [OF assms(1,4)] bit_wide_ones)
  qed
  have "lval (wide_sext a from to) = sem_sext from to (lval a)"
    by (rule bit_eqI) (simp add: b sem_sext_def bit_sem_signed w limbs_ok_less [OF assms(4)])
  moreover have "limbs_ok to (wide_sext a from to)"
    by (rule limbs_okI) (use a in \<open>simp_all add: b\<close>, simp add: wide_sext_def Let_def MAX_LIMBS_def)
  ultimately show ?thesis ..
qed

lemma wide_extract_correct:
  assumes "width_ok n" "limbs_ok w a"
  shows "lval (wide_extract a lo n) = sem_extract lo n (lval a) \<and> limbs_ok n (wide_extract a lo n)"
proof
  show "lval (wide_extract a lo n) = sem_extract lo n (lval a)"
    using width_okD [OF assms(1)]
    by (intro bit_eqI)
      (auto simp: wide_extract_def bit_mask_top [OF assms(1)] bit_shr_bits sem_extract_def
        bit_take_bit_iff bit_sem_lshr simp flip: take_bit_eq_mod)
  show "limbs_ok n (wide_extract a lo n)"
    unfolding wide_extract_def using assms(1) by (rule mask_top_ok) simp
qed

lemma wide_concat_correct:
  assumes "width_ok (hi_w + lo_w)" "limbs_ok hi_w hi" "limbs_ok lo_w lo"
  shows "lval (wide_concat hi lo lo_w) = sem_concat lo_w (lval hi) (lval lo) \<and>
    limbs_ok (hi_w + lo_w) (wide_concat hi lo lo_w)"
proof -
  note a = limbs_ok_length [OF assms(2)] limbs_ok_length [OF assms(3)]
  have b: "bit (lval (wide_concat hi lo lo_w)) i \<longleftrightarrow>
      (if i < lo_w then bit (lval lo) i else bit (lval hi) (i - lo_w))" for i
    using width_okD [OF assms(1)] limbs_ok_bit [OF assms(2), of "i - lo_w"] limbs_ok_bit [OF assms(3), of i]
    by (auto simp: wide_concat_def MAX_LIMBS_def Let_def bit_lval_map_or a bit_shl_bits)
  have "lval (wide_concat hi lo lo_w) = sem_concat lo_w (lval hi) (lval lo)"
    by (rule bit_eqI) (simp add: b sem_concat_def bit_sem_concat limbs_ok_less [OF assms(3)])
  moreover have "i < hi_w + lo_w" if "bit (lval (wide_concat hi lo lo_w)) i" for i
    using that limbs_ok_bit [OF assms(2), of "i - lo_w"] limbs_ok_bit [OF assms(3), of i]
    by (auto simp: b split: if_splits)
  then have "limbs_ok (hi_w + lo_w) (wide_concat hi lo lo_w)"
    by (intro limbs_okI) (simp_all add: wide_concat_def Let_def MAX_LIMBS_def)
  ultimately show ?thesis by simp
qed


section \<open>Parallel deposit and extract\<close>


section \<open>Parallel deposit and extract\<close>

lemma bit_clear_lowest_nat:
  assumes "bit (n::nat) p" "\<And>i. i < p \<Longrightarrow> \<not> bit n i"
  shows "bit (n AND (n - 1)) i \<longleftrightarrow> bit n i \<and> i \<noteq> p"
proof -
  define k where "k = n div 2 ^ p"
  have "take_bit p n = 0" by (rule bit_eqI) (auto simp: bit_take_bit_iff assms(2))
  then have "n mod 2 ^ p = 0" by (simp add: take_bit_eq_mod)
  then have n: "n = k * 2 ^ p + 0" using div_mult_mod_eq [of n "2 ^ p"] by (simp add: k_def)
  have "odd k" using assms(1) by (simp add: k_def bit_iff_odd)
  then obtain m where m: "k = 1 + 2 * m" by (auto elim: oddE)
  have n1: "n - 1 = (2 * m) * 2 ^ p + (2 ^ p - 1)" by (simp add: n m algebra_simps)
  have b: "bit n i \<longleftrightarrow> p \<le> i \<and> bit k (i - p)"
    unfolding n by (subst bit_sem_concat) auto
  have b1: "bit (n - 1) i \<longleftrightarrow> (if i < p then True else bit (2 * m) (i - p))"
    unfolding n1 by (subst bit_sem_concat) (simp, simp only: mask_eq_exp_minus_1 [symmetric] bit_mask_iff, simp)
  have "bit k (i - p) \<longleftrightarrow> bit (2 * m) (i - p) \<or> i - p = 0"
    unfolding m by (subst even_bit_succ_iff) auto
  then show ?thesis unfolding bit_and_iff b b1 by (auto simp: bit_double_iff)
qed

lemma bit_clear_lowest:
  assumes "(mm::'a::len word) \<noteq> 0"
  shows "bit (mm AND (mm - 1)) i \<longleftrightarrow> bit mm i \<and> i \<noteq> trailing_zeros mm"
proof -
  have "bit (unat mm AND (unat mm - 1)) i \<longleftrightarrow> bit (unat mm) i \<and> i \<noteq> trailing_zeros mm"
    by (rule bit_clear_lowest_nat) (simp_all add: bit_unat trailing_zeros_props assms)
  moreover have "unat mm - 1 = unat (mm - 1)" using assms by (simp add: unat_minus_one)
  ultimately show ?thesis by (simp only: bit_and_iff bit_unat)
qed

lemma rank_clear_lowest:
  assumes "(mm::'a::len word) \<noteq> 0"
  shows "rank_below (unat mm) q =
    (if trailing_zeros mm < q then Suc (rank_below (unat (mm AND (mm - 1))) q)
     else rank_below (unat (mm AND (mm - 1))) q)"
  by (induction q)
    (auto simp: rank_below_Suc bit_unat bit_clear_lowest [OF assms] trailing_zeros_props [OF assms] less_Suc_eq
      simp del: bit_and_iff)

lemma rank_lowest: "mm \<noteq> 0 \<Longrightarrow> q \<le> trailing_zeros mm \<Longrightarrow> rank_below (unat (mm::'a::len word)) q = 0"
  by (induction q) (simp_all add: rank_below_Suc bit_unat trailing_zeros_props)

lemma pdep_word_correct:
  assumes "length x = 8" "li < 8"
  shows "length out = 8 \<Longrightarrow> k + rank_below (unat mm) 64 \<le> 512 \<Longrightarrow>
    pdep_word x li mm out k = (out', k') \<Longrightarrow>
    length out' = 8 \<and> k' = k + rank_below (unat mm) 64 \<and> (\<forall>j. j \<noteq> li \<longrightarrow> out' ! j = out ! j) \<and>
    (\<forall>p. bit (out' ! li) p \<longleftrightarrow>
      bit (out ! li) p \<or> (bit mm p \<and> bit (lval x) (k + rank_below (unat mm) p)))"
  using assms
proof (induction x li mm out k rule: pdep_word.induct)
  case (1 x li mm out k)
  show ?case
  proof (cases "mm = 0")
    case True
    then have "rank_below (unat mm) 64 = 0" by (simp add: rank_below_def)
    then show ?thesis using 1 True by (simp add: pdep_word.simps [of x li 0])
  next
    case False
    define p where "p = trailing_zeros mm"
    define mm' where "mm' = mm AND (mm - 1)"
    define o1 where "o1 = (if wide_bit x k then out[li := out ! li OR push_bit p 1] else out)"
    note tz = trailing_zeros_bit [OF False, folded p_def]
    note rk = rank_clear_lowest [OF False, folded p_def mm'_def]
    note bm = bit_clear_lowest [OF False, folded p_def mm'_def]
    have r64: "rank_below (unat mm) 64 = Suc (rank_below (unat mm') 64)" using tz rk by simp
    have st: "pdep_word x li mm' o1 (k + 1) = (out', k')"
      using 1(4) False unfolding p_def mm'_def o1_def
      by (simp add: pdep_word.simps [of x li mm] Let_def split del: if_split)
    have IH: "length out' = 8 \<and> k' = k + 1 + rank_below (unat mm') 64 \<and> (\<forall>j. j \<noteq> li \<longrightarrow> out' ! j = o1 ! j) \<and>
      (\<forall>q. bit (out' ! li) q \<longleftrightarrow>
        bit (o1 ! li) q \<or> (bit mm' q \<and> bit (lval x) (k + 1 + rank_below (unat mm') q)))"
      using 1(1) [OF False p_def, of o1] False r64 1(2-) st by (simp add: o1_def mm'_def p_def)
    have wb: "wide_bit x k \<longleftrightarrow> bit (lval x) k"
      using 1(3) 1(5) r64 by (subst wide_bit_lval) simp_all
    have o1: "bit (o1 ! li) q \<longleftrightarrow> bit (out ! li) q \<or> (q = p \<and> bit (lval x) k)" for q
      using 1(2) 1(6) tz(1) by (auto simp: o1_def wb bit_simps possible_bit_word)
    have "bit (out' ! li) q \<longleftrightarrow> bit (out ! li) q \<or> (bit mm q \<and> bit (lval x) (k + rank_below (unat mm) q))" for q
    proof (cases "q = p")
      case True
      then show ?thesis using IH o1 bm tz rank_lowest [OF False, of p] by (simp add: p_def)
    next
      case ne: False
      then have "bit mm q \<Longrightarrow> p < q" using tz(3) [of q] by (metis linorder_neqE_nat)
      then show ?thesis using IH o1 bm rk [of q] ne by auto
    qed
    then show ?thesis using IH r64 by (auto simp: o1_def)
  qed
qed

lemma bit_wide_set_bit:
  assumes "length a = 8" "k < 512"
  shows "bit (lval (wide_set_bit a k)) j \<longleftrightarrow> bit (lval a) j \<or> j = k"
proof -
  have k: "k div 64 < 8" "k mod 64 < 64" using assms(2) by simp_all
  have e: "j = k \<longleftrightarrow> j div 64 = k div 64 \<and> j mod 64 = k mod 64"
    by (metis div_mult_mod_eq)
  have "j div 64 = k div 64 \<Longrightarrow> j < 512" using k(1) div_less_8 by metis
  then show ?thesis
    using assms k unfolding e
    by (auto simp: wide_set_bit_def bit_lval8 nth_list_update bit_simps possible_bit_word)
qed

lemma pext_word_correct:
  assumes "length x = 8" "li < 8"
  shows "length out = 8 \<Longrightarrow> k + rank_below (unat mm) 64 \<le> 512 \<Longrightarrow>
    pext_word x li mm out k = (out', k') \<Longrightarrow>
    length out' = 8 \<and> k' = k + rank_below (unat mm) 64 \<and>
    (\<forall>j. bit (lval out') j \<longleftrightarrow>
      bit (lval out) j \<or> (\<exists>p. bit mm p \<and> k + rank_below (unat mm) p = j \<and> bit (x ! li) p))"
  using assms
proof (induction x li mm out k rule: pext_word.induct)
  case (1 x li mm out k)
  show ?case
  proof (cases "mm = 0")
    case True
    then have "rank_below (unat mm) 64 = 0" by (simp add: rank_below_def)
    then show ?thesis using 1 True by (simp add: pext_word.simps [of x li 0])
  next
    case False
    define p where "p = trailing_zeros mm"
    define mm' where "mm' = mm AND (mm - 1)"
    define o1 where "o1 = (if drop_bit p (x ! li) AND 1 = 1 then wide_set_bit out k else out)"
    note tz = trailing_zeros_bit [OF False, folded p_def]
    note rk = rank_clear_lowest [OF False, folded p_def mm'_def]
    note bm = bit_clear_lowest [OF False, folded p_def mm'_def]
    have r64: "rank_below (unat mm) 64 = Suc (rank_below (unat mm') 64)" using tz rk by simp
    have l1: "length o1 = 8" using 1(2) by (simp add: o1_def wide_set_bit_def)
    have st: "pext_word x li mm' o1 (k + 1) = (out', k')"
      using 1(4) False unfolding p_def mm'_def o1_def
      by (simp add: pext_word.simps [of x li mm] Let_def split del: if_split)
    have IH: "length out' = 8 \<and> k' = k + 1 + rank_below (unat mm') 64 \<and>
      (\<forall>j. bit (lval out') j \<longleftrightarrow>
        bit (lval o1) j \<or> (\<exists>p. bit mm' p \<and> k + 1 + rank_below (unat mm') p = j \<and> bit (x ! li) p))"
      using 1(1) [OF False p_def, of o1] l1 r64 1(3-) st by (simp add: o1_def mm'_def p_def)
    have o1: "bit (lval o1) j \<longleftrightarrow> bit (lval out) j \<or> (j = k \<and> bit (x ! li) p)" for j
      using 1(2) 1(3) r64
      by (auto simp: o1_def bit_wide_set_bit simp flip: bit_iff_and_drop_bit_eq_1)
    have s: "rank_below (unat mm) q = Suc (rank_below (unat mm') q)" if "bit mm q" "q \<noteq> p" for q
      using tz(3) [of q] rk [of q] that by (metis linorder_neqE_nat)
    have z: "rank_below (unat mm) p = 0" using rank_lowest [OF False, of p] by (simp add: p_def)
    have sp: "(\<exists>q. A q) \<longleftrightarrow> A p \<or> (\<exists>q. q \<noteq> p \<and> A q)" for A by metis
    have "(\<exists>q. bit mm q \<and> k + rank_below (unat mm) q = j \<and> bit (x ! li) q) \<longleftrightarrow>
        (j = k \<and> bit (x ! li) p) \<or>
        (\<exists>q. bit mm' q \<and> k + 1 + rank_below (unat mm') q = j \<and> bit (x ! li) q)" for j
      by (subst sp) (auto simp: bm tz(2) z s)
    then show ?thesis using IH r64 o1 by auto
  qed
qed

lemma rank_limb:
  assumes "li < length m" "p \<le> 64"
  shows "rank_below (lval m) (64 * li + p) = rank_below (lval m) (64 * li) + rank_below (unat (m ! li)) p"
proof -
  have "rank_below (drop_bit (64 * li) (lval m)) p = rank_below (unat (m ! li)) p"
  proof (rule rank_below_cong)
    fix j assume "j < p"
    then have "j < 64" using assms(2) by simp
    then show "bit (drop_bit (64 * li) (lval m)) j = bit (unat (m ! li)) j"
      by (simp only: bit_drop_bit_eq o_apply bit_limb [OF assms(1)] bit_unat)
  qed
  then show ?thesis by (simp add: rank_below_add)
qed

lemma wide_pdep_bits:
  assumes "length x = 8" "length m = 8" "n \<le> 8"
  shows "for_up n (\<lambda>li (out, k). pdep_word x li (m ! li) out k) (zero_limbs, 0) = (out, k) \<Longrightarrow>
    length out = 8 \<and> k = rank_below (lval m) (64 * n) \<and>
    (\<forall>j. bit (lval out) j \<longleftrightarrow> j < 64 * n \<and> bit (lval m) j \<and> bit (lval x) (rank_below (lval m) j))"
  using assms(3)
proof (induction n arbitrary: out k)
  case 0
  then show ?case by (auto simp: MAX_LIMBS_def)
next
  case (Suc n)
  obtain o0 k0 where st: "for_up n (\<lambda>li (out, k). pdep_word x li (m ! li) out k) (zero_limbs, 0) = (o0, k0)"
    by fastforce
  have n: "n < 8" using Suc.prems by simp
  note IH = Suc.IH [OF st less_imp_le [OF n]]
  have k0: "rank_below (lval m) (64 * n + 64) = k0 + rank_below (unat (m ! n)) 64"
    using rank_limb [of n m 64] n assms IH by simp
  have b: "k0 + rank_below (unat (m ! n)) 64 \<le> 512"
    using rank_below_le [of "lval m" "64 * n + 64"] n k0 by linarith
  have w: "pdep_word x n (m ! n) o0 k0 = (out, k)" using Suc.prems(1) st by simp
  note pd = pdep_word_correct [OF assms(1) n _ b w]
  have "bit (lval out) j \<longleftrightarrow> j < 64 * Suc n \<and> bit (lval m) j \<and> bit (lval x) (rank_below (lval m) j)" for j
  proof -
    obtain q r where j: "j = 64 * q + r" "r < 64" by (rule div_mod_64_cases)
    show ?thesis
    proof (cases "q < 8")
      case True
      show ?thesis
      proof (cases "q = n")
        case True
        have "\<not> bit (o0 ! n) r" using IH j n by (auto simp: True simp flip: bit_limb)
        then show ?thesis
          using pd IH j n assms by (simp add: True bit_limb rank_limb)
      next
        case False
        then have "bit (lval out) j = bit (lval o0) j"
          using bit_limb [of q out r] bit_limb [of q o0 r] pd IH j(2) True unfolding j(1) by metis
        moreover have "j < 64 * Suc n \<longleftrightarrow> j < 64 * n" using j False by auto
        ultimately show ?thesis using IH by simp
      qed
    next
      case False
      then have "\<not> j < 512" using j by simp
      then show ?thesis using pd IH n by (simp add: bit_lval8)
    qed
  qed
  then show ?case using pd IH k0 by (simp add: algebra_simps)
qed

lemma wide_pext_bits:
  assumes "length x = 8" "length m = 8" "n \<le> 8"
  shows "for_up n (\<lambda>li (out, k). pext_word x li (m ! li) out k) (zero_limbs, 0) = (out, k) \<Longrightarrow>
    length out = 8 \<and> k = rank_below (lval m) (64 * n) \<and>
    (\<forall>j. bit (lval out) j \<longleftrightarrow> (\<exists>i<64 * n. bit (lval m) i \<and> rank_below (lval m) i = j \<and> bit (lval x) i))"
  using assms(3)
proof (induction n arbitrary: out k)
  case 0
  then show ?case by (auto simp: MAX_LIMBS_def)
next
  case (Suc n)
  obtain o0 k0 where st: "for_up n (\<lambda>li (out, k). pext_word x li (m ! li) out k) (zero_limbs, 0) = (o0, k0)"
    by fastforce
  have n: "n < 8" using Suc.prems by simp
  note IH = Suc.IH [OF st less_imp_le [OF n]]
  have k0: "rank_below (lval m) (64 * n + 64) = k0 + rank_below (unat (m ! n)) 64"
    using rank_limb [of n m 64] n assms IH by simp
  have b: "k0 + rank_below (unat (m ! n)) 64 \<le> 512"
    using rank_below_le [of "lval m" "64 * n + 64"] n k0 by linarith
  have w: "pext_word x n (m ! n) o0 k0 = (out, k)" using Suc.prems(1) st by simp
  note pe = pext_word_correct [OF assms(1) n _ b w]
  have lim: "(\<exists>p. bit (m ! n) p \<and> k0 + rank_below (unat (m ! n)) p = j \<and> bit (x ! n) p) \<longleftrightarrow>
      (\<exists>i. 64 * n \<le> i \<and> i < 64 * Suc n \<and> bit (lval m) i \<and> rank_below (lval m) i = j \<and> bit (lval x) i)"
    (is "?L \<longleftrightarrow> ?R") for j
  proof
    assume ?L
    then obtain p where p: "bit (m ! n) p" "k0 + rank_below (unat (m ! n)) p = j" "bit (x ! n) p" by auto
    have "p < 64" using bit_imp_le_length [OF p(1)] by simp
    then show ?R using p IH assms n by (intro exI [of _ "64 * n + p"]) (simp add: bit_limb rank_limb)
  next
    assume ?R
    then obtain i where i: "64 * n \<le> i" "i < 64 * Suc n" "bit (lval m) i" "rank_below (lval m) i = j"
      "bit (lval x) i" by auto
    define p where "p = i - 64 * n"
    have "i = 64 * n + p" "p < 64" using i by (auto simp: p_def)
    then show ?L using i IH assms n by (intro exI [of _ p]) (simp add: bit_limb rank_limb)
  qed
  have "(\<exists>i<64 * Suc n. P i) \<longleftrightarrow> (\<exists>i<64 * n. P i) \<or> (\<exists>i. 64 * n \<le> i \<and> i < 64 * Suc n \<and> P i)"
    for P :: "nat \<Rightarrow> bool"
  proof -
    have "i < 64 * n \<Longrightarrow> i < 64 * Suc n" for i by simp
    then show ?thesis by (metis not_less)
  qed
  then show ?case using pe IH k0 lim by (simp add: algebra_simps)
qed


lemma wide_pdep_correct:
  assumes "width_ok w" "limbs_ok w x" "limbs_ok w m"
  shows "lval (wide_pdep w x m) = sem_bin BPdep w (lval x) (lval m) \<and> limbs_ok w (wide_pdep w x m)"
proof -
  obtain out k where st:
    "for_up (nlimbs w) (\<lambda>li (out, k). pdep_word x li (m ! li) out k) (zero_limbs, 0) = (out, k)"
    by fastforce
  note pd = wide_pdep_bits [OF limbs_ok_length [OF assms(2)] limbs_ok_length [OF assms(3)]
      width_ok_nlimbs [OF assms(1)] st]
  have b: "bit (lval out) j \<longleftrightarrow> j < w \<and> bit (lval m) j \<and> bit (lval x) (rank_below (lval m) j)" for j
    using pd limbs_ok_bit [OF assms(3), of j] order_less_le_trans [OF _ le_nlimbs [of w], of j] by blast
  have "lval out = sem_bin BPdep w (lval x) (lval m)"
    by (rule bit_eqI) (simp add: b sem_bin_def)
  moreover have "limbs_ok w out" using pd by (intro limbs_okI) (auto simp: b)
  ultimately show ?thesis by (simp add: wide_pdep_def st)
qed

lemma wide_pext_correct:
  assumes "width_ok w" "limbs_ok w x" "limbs_ok w m"
  shows "lval (wide_pext w x m) = sem_bin BPext w (lval x) (lval m) \<and> limbs_ok w (wide_pext w x m)"
proof -
  obtain out k where st:
    "for_up (nlimbs w) (\<lambda>li (out, k). pext_word x li (m ! li) out k) (zero_limbs, 0) = (out, k)"
    by fastforce
  note pe = wide_pext_bits [OF limbs_ok_length [OF assms(2)] limbs_ok_length [OF assms(3)]
      width_ok_nlimbs [OF assms(1)] st]
  have b: "bit (lval out) j \<longleftrightarrow> j < w \<and> (\<exists>i<w. bit (lval m) i \<and> rank_below (lval m) i = j \<and> bit (lval x) i)" for j
  proof
    assume "bit (lval out) j"
    then obtain i where i: "bit (lval m) i" "rank_below (lval m) i = j" "bit (lval x) i" using pe by auto
    have "i < w" by (rule limbs_ok_bit [OF assms(3) i(1)])
    then show "j < w \<and> (\<exists>i<w. bit (lval m) i \<and> rank_below (lval m) i = j \<and> bit (lval x) i)"
      using i rank_below_le [of "lval m" i] by auto
  next
    assume "j < w \<and> (\<exists>i<w. bit (lval m) i \<and> rank_below (lval m) i = j \<and> bit (lval x) i)"
    then show "bit (lval out) j" using pe order_less_le_trans [OF _ le_nlimbs [of w]] by blast
  qed
  have "lval out = sem_bin BPext w (lval x) (lval m)"
    by (rule bit_eqI) (auto simp: b sem_bin_def)
  moreover have "limbs_ok w out" using pe by (intro limbs_okI) (auto simp: b)
  ultimately show ?thesis by (simp add: wide_pext_def st)
qed

end
