(* ===== verification/Limbs_Arith.thy ===== *)
theory Limbs_Arith
  imports Limbs_Perm
begin

unbundle bit_operations_syntax

text \<open>
  The arithmetic limb kernels of \<open>bitwright/src/value/wide.rs\<close> (carry chains and schoolbook
  products) and their correctness against \<open>Semantics\<close>.
\<close>

section \<open>Definitions\<close>

text \<open>The body of each counted loop is a definition of its own: a round maps the loop state.\<close>

definition add_round :: "limbs \<Rightarrow> limbs \<Rightarrow> nat \<Rightarrow> limbs \<times> bool \<Rightarrow> limbs \<times> bool" where
  "add_round a b i s =
     (let (r, carry) = s;
          (s1, c1) = overflowing_add (a ! i) (b ! i);
          (s2, c2) = overflowing_add s1 (of_bool carry)
      in (r[i := s2], c1 \<or> c2))"

definition wide_add :: "nat \<Rightarrow> limbs \<Rightarrow> limbs \<Rightarrow> limbs" where
  "wide_add w a b =
     (let (r, carry) = for_up (nlimbs w) (add_round a b) (zero_limbs, False)
      in mask_top r w)"

definition sub_round :: "limbs \<Rightarrow> limbs \<Rightarrow> nat \<Rightarrow> limbs \<times> bool \<Rightarrow> limbs \<times> bool" where
  "sub_round a b i s =
     (let (r, borrow) = s;
          (d1, b1) = overflowing_sub (a ! i) (b ! i);
          (d2, b2) = overflowing_sub d1 (of_bool borrow)
      in (r[i := d2], b1 \<or> b2))"

definition wide_sub :: "nat \<Rightarrow> limbs \<Rightarrow> limbs \<Rightarrow> limbs" where
  "wide_sub w a b =
     (let (r, borrow) = for_up (nlimbs w) (sub_round a b) (zero_limbs, False)
      in mask_top r w)"

definition wide_neg :: "nat \<Rightarrow> limbs \<Rightarrow> limbs" where
  "wide_neg w a = wide_sub w zero_limbs a"

definition significant :: "limbs \<Rightarrow> nat" where
  "significant a = (case find (\<lambda>i. a ! i \<noteq> 0) (rev [0..<length a]) of None \<Rightarrow> 0 | Some i \<Rightarrow> i + 1)"

text \<open>One row of the schoolbook product: \<open>p += a\<^sub>i * b << (64 * i)\<close> over the first \<open>top_j\<close> limbs of \<open>b\<close>.\<close>

definition mac_round :: "nat \<Rightarrow> limbs \<Rightarrow> limbs \<Rightarrow> nat \<Rightarrow> limbs \<times> u128 \<Rightarrow> limbs \<times> u128" where
  "mac_round i a b j s =
     (let (p, carry) = s;
          t = ucast (p ! (i + j)) + ucast (a ! i) * ucast (b ! j) + carry
      in (p[i + j := ucast t], drop_bit 64 t))"

definition mac_row :: "nat \<Rightarrow> nat \<Rightarrow> limbs \<Rightarrow> limbs \<Rightarrow> limbs \<Rightarrow> limbs \<times> u128" where
  "mac_row i top_j a b p = for_up top_j (mac_round i a b) (p, 0)"

definition mul_full :: "nat \<Rightarrow> limbs \<Rightarrow> limbs \<Rightarrow> limbs" where
  "mul_full n a b =
     (let la = min (significant a) n; lb = min (significant b) n
      in for_up la
           (\<lambda>i p. let (p, carry) = mac_row i lb a b p in p[i + lb := ucast carry])
           (replicate (2 * MAX_LIMBS) 0))"

definition wide_mul :: "nat \<Rightarrow> limbs \<Rightarrow> limbs \<Rightarrow> limbs" where
  "wide_mul w a b =
     (let n = nlimbs w;
          la = min (significant a) n; lb = min (significant b) n;
          r = for_up la
                (\<lambda>i r.
                   let top_j = min lb (n - i);
                       (r, carry) = mac_row i top_j a b r
                   in if i + top_j < n then r[i + top_j := ucast carry] else r)
                zero_limbs
      in mask_top r w)"

definition wide_umulhi :: "nat \<Rightarrow> limbs \<Rightarrow> limbs \<Rightarrow> limbs" where
  "wide_umulhi w a b =
     (let n = nlimbs w; p = mul_full n a b
      in mask_top (shr_bits (take (2 * n) p) w) w)"

definition wide_smulhi :: "nat \<Rightarrow> limbs \<Rightarrow> limbs \<Rightarrow> limbs" where
  "wide_smulhi w a b =
     (let r = wide_umulhi w a b;
          r = (if wide_msb a w then wide_sub w r b else r)
      in if wide_msb b w then wide_sub w r a else r)"


section \<open>Carry chains\<close>

lemma lval_mask_top_take:
  assumes "width_ok w" "length l = 8"
  shows "lval (mask_top l w) = lval (take (nlimbs w) l) mod 2 ^ w"
proof -
  have "(2::nat) ^ w dvd 2 ^ (64 * nlimbs w)" by (rule le_imp_power_dvd) (rule le_nlimbs)
  then show ?thesis
    using assms by (simp add: lval_mask_top width_ok_def lval_take mod_mod_cancel)
qed

lemma dvd_B64_nlimbs: "(2::nat) ^ w dvd B64 ^ nlimbs w"
  unfolding B64_power by (rule le_imp_power_dvd) (rule le_nlimbs)

lemma lval_snoc: "lval (xs @ [x]) = lval xs + B64 ^ length xs * unat x"
  by (simp add: lval_append)

lemma lval_take_Suc: "i < length a \<Longrightarrow> lval (take (Suc i) a) = lval (take i a) + B64 ^ i * unat (a ! i)"
  by (simp add: take_Suc_snoc lval_snoc min_def)

lemma lval_take_Suc_update:
  "i < length r \<Longrightarrow> lval (take (Suc i) (r[i := x])) = lval (take i r) + B64 ^ i * unat x"
  by (simp add: lval_snoc min_def)

lemma add_limb:
  assumes "overflowing_add (x::u64) y = (s1, c1)" "overflowing_add s1 (of_bool c) = (s2, c2)"
  shows "unat s2 + of_bool (c1 \<or> c2) * B64 = unat x + unat y + of_bool c"
proof -
  have b: "unat x < B64" "unat y < B64" by (rule unat_less_B64)+
  have u: "unat (u + v) = (if unat u + unat v < B64 then unat u + unat v else unat u + unat v - B64)"
    for u v :: u64
  proof -
    have "unat u < B64" "unat v < B64" by (rule unat_less_B64)+
    then have "(unat u + unat v) mod B64 =
        (if unat u + unat v < B64 then unat u + unat v else unat u + unat v - B64)"
      by (auto simp: le_mod_geq not_less)
    then show ?thesis by (simp add: unat_word_ariths B64_def)
  qed
  have s1: "s1 = x + y" "c1 \<longleftrightarrow> B64 \<le> unat x + unat y"
    using assms(1) by (auto simp: overflowing_add_def B64_def)
  have s2: "s2 = s1 + of_bool c" "c2 \<longleftrightarrow> B64 \<le> unat s1 + of_bool c"
    using assms(2) by (auto simp: overflowing_add_def B64_def)
  have o: "unat (of_bool c :: u64) = of_bool c" by simp
  show ?thesis
    using b unfolding s2 s1 u o by (cases c) (auto simp: not_less not_le)
qed

lemma sub_limb:
  assumes "overflowing_sub (x::u64) y = (d1, b1)" "overflowing_sub d1 (of_bool c) = (d2, b2)"
  shows "unat d2 + unat y + of_bool c = unat x + of_bool (b1 \<or> b2) * B64"
proof -
  have b: "unat x < B64" "unat y < B64" by (rule unat_less_B64)+
  have u: "unat (u - v) = (if unat v \<le> unat u then unat u - unat v else unat u + B64 - unat v)"
    for u v :: u64
    by (simp add: unat_sub_if' B64_def)
  have d1: "d1 = x - y" "b1 \<longleftrightarrow> unat x < unat y"
    using assms(1) by (auto simp: overflowing_sub_def)
  have d2: "d2 = d1 - of_bool c" "b2 \<longleftrightarrow> unat d1 < of_bool c"
    using assms(2) by (auto simp: overflowing_sub_def)
  have o: "unat (of_bool c :: u64) = of_bool c" by simp
  show ?thesis
    using b unfolding d2 d1 u o by (cases c) (auto simp: not_less not_le)
qed

text \<open>The two chains, as one statement about the state after \<open>n\<close> rounds.\<close>

lemma add_chain:
  assumes "n \<le> 8" "length a = 8" "length b = 8"
    and "for_up n (add_round a b) (zero_limbs, False) = (r, c)"
  shows "length r = 8 \<and> lval (take n r) + of_bool c * B64 ^ n = lval (take n a) + lval (take n b)"
  using assms
proof (induction n arbitrary: r c)
  case 0
  then show ?case by (auto simp: MAX_LIMBS_def)
next
  case (Suc n)
  obtain r0 c0 where st: "for_up n (add_round a b) (zero_limbs, False) = (r0, c0)" by fastforce
  have IH: "length r0 = 8" "lval (take n r0) + of_bool c0 * B64 ^ n = lval (take n a) + lval (take n b)"
    using Suc.IH [OF _ Suc.prems(2,3) st] Suc.prems(1) by auto
  obtain s1 c1 where o1: "overflowing_add (a ! n) (b ! n) = (s1, c1)" by fastforce
  obtain s2 c2 where o2: "overflowing_add s1 (of_bool c0) = (s2, c2)" by fastforce
  have "add_round a b n (r0, c0) = (r0[n := s2], c1 \<or> c2)" by (simp add: add_round_def o1 o2)
  then have r: "r = r0[n := s2]" "c = (c1 \<or> c2)" using Suc.prems(4) st by simp_all
  have "B64 ^ n * unat s2 + B64 ^ n * (of_bool (c1 \<or> c2) * B64) =
      B64 ^ n * unat (a ! n) + B64 ^ n * unat (b ! n) + B64 ^ n * of_bool c0"
    using add_limb [OF o1 o2] by (metis distrib_left)
  then show ?case
    using IH Suc.prems(1-3) by (simp add: r lval_take_Suc lval_take_Suc_update algebra_simps del: take_Suc_update)
qed

lemma sub_chain:
  assumes "n \<le> 8" "length a = 8" "length b = 8"
    and "for_up n (sub_round a b) (zero_limbs, False) = (r, c)"
  shows "length r = 8 \<and> lval (take n r) + lval (take n b) = lval (take n a) + of_bool c * B64 ^ n"
  using assms
proof (induction n arbitrary: r c)
  case 0
  then show ?case by (auto simp: MAX_LIMBS_def)
next
  case (Suc n)
  obtain r0 c0 where st: "for_up n (sub_round a b) (zero_limbs, False) = (r0, c0)" by fastforce
  have IH: "length r0 = 8" "lval (take n r0) + lval (take n b) = lval (take n a) + of_bool c0 * B64 ^ n"
    using Suc.IH [OF _ Suc.prems(2,3) st] Suc.prems(1) by auto
  obtain d1 b1 where o1: "overflowing_sub (a ! n) (b ! n) = (d1, b1)" by fastforce
  obtain d2 b2 where o2: "overflowing_sub d1 (of_bool c0) = (d2, b2)" by fastforce
  have "sub_round a b n (r0, c0) = (r0[n := d2], b1 \<or> b2)" by (simp add: sub_round_def o1 o2)
  then have r: "r = r0[n := d2]" "c = (b1 \<or> b2)" using Suc.prems(4) st by simp_all
  have "B64 ^ n * unat d2 + B64 ^ n * unat (b ! n) + B64 ^ n * of_bool c0 =
      B64 ^ n * unat (a ! n) + B64 ^ n * (of_bool (b1 \<or> b2) * B64)"
    using sub_limb [OF o1 o2] by (metis distrib_left)
  then show ?case
    using IH Suc.prems(1-3) by (simp add: r lval_take_Suc lval_take_Suc_update algebra_simps del: take_Suc_update)
qed

lemma mod_carry: "(2::nat) ^ w dvd d \<Longrightarrow> (x + c * d) mod 2 ^ w = x mod 2 ^ w"
  by (metis dvd_mult mod_add_right_eq dvd_imp_mod_0 add_0_right)

lemma wide_add_correct:
  assumes "width_ok w" "limbs_ok w a" "limbs_ok w b"
  shows "lval (wide_add w a b) = sem_bin BAdd w (lval a) (lval b) \<and> limbs_ok w (wide_add w a b)"
proof -
  obtain r c where rc: "for_up (nlimbs w) (add_round a b) (zero_limbs, False) = (r, c)" by fastforce
  have I: "length r = 8" "lval (take (nlimbs w) r) + of_bool c * B64 ^ nlimbs w = lval a + lval b"
    using add_chain [OF width_ok_nlimbs [OF assms(1)] limbs_ok_length [OF assms(2)]
        limbs_ok_length [OF assms(3)] rc] lval_take_nlimbs assms by simp_all
  have "lval (take (nlimbs w) r) mod 2 ^ w = (lval a + lval b) mod 2 ^ w"
    by (simp only: I(2) [symmetric] mod_carry [OF dvd_B64_nlimbs])
  then show ?thesis
    using mask_top_ok [OF assms(1) I(1)]
    by (simp add: wide_add_def rc lval_mask_top_take [OF assms(1) I(1)] sem_bin_def)
qed

lemma wide_sub_correct:
  assumes "width_ok w" "limbs_ok w a" "limbs_ok w b"
  shows "lval (wide_sub w a b) = sem_bin BSub w (lval a) (lval b) \<and> limbs_ok w (wide_sub w a b)"
proof -
  obtain r c where rc: "for_up (nlimbs w) (sub_round a b) (zero_limbs, False) = (r, c)" by fastforce
  have I: "length r = 8" "lval (take (nlimbs w) r) + lval b = lval a + of_bool c * B64 ^ nlimbs w"
    using sub_chain [OF width_ok_nlimbs [OF assms(1)] limbs_ok_length [OF assms(2)]
        limbs_ok_length [OF assms(3)] rc] lval_take_nlimbs assms by simp_all
  have b: "lval b < 2 ^ w" by (rule limbs_ok_less [OF assms(3)])
  have "lval (take (nlimbs w) r) mod 2 ^ w = (lval (take (nlimbs w) r) + 2 ^ w) mod 2 ^ w" by simp
  also have "lval (take (nlimbs w) r) + 2 ^ w = lval (take (nlimbs w) r) + lval b + (2 ^ w - lval b)"
    using b by simp
  also have "lval (take (nlimbs w) r) + lval b + (2 ^ w - lval b) =
      lval a + (2 ^ w - lval b) + of_bool c * B64 ^ nlimbs w"
    unfolding I(2) by simp
  also have "\<dots> mod 2 ^ w = (lval a + (2 ^ w - lval b)) mod 2 ^ w"
    by (rule mod_carry [OF dvd_B64_nlimbs])
  finally have "lval (take (nlimbs w) r) mod 2 ^ w = (lval a + (2 ^ w - lval b)) mod 2 ^ w" .
  then show ?thesis
    using mask_top_ok [OF assms(1) I(1)]
    by (simp add: wide_sub_def rc lval_mask_top_take [OF assms(1) I(1)] sem_bin_def)
qed

lemma wide_neg_correct:
  assumes "width_ok w" "limbs_ok w a"
  shows "lval (wide_neg w a) = sem_un UNeg w (lval a) \<and> limbs_ok w (wide_neg w a)"
  using wide_sub_correct [OF assms(1) zero_limbs_ok assms(2)]
  by (simp add: wide_neg_def MAX_LIMBS_def sem_un_def sem_bin_def)


section \<open>Products\<close>

lemma significant_cases:
  obtains "significant a = 0" "\<And>i. i < length a \<Longrightarrow> a ! i = 0"
  | k where "significant a = Suc k" "k < length a" "a ! k \<noteq> 0" "\<And>i. k < i \<Longrightarrow> i < length a \<Longrightarrow> a ! i = 0"
proof (cases "find (\<lambda>i. a ! i \<noteq> 0) (rev [0..<length a])")
  case None
  then have "\<And>i. i < length a \<Longrightarrow> a ! i = 0" by (auto simp: find_None_iff)
  moreover have "significant a = 0" unfolding significant_def None by simp
  ultimately have "significant a = 0" "\<And>i. i < length a \<Longrightarrow> a ! i = 0" by blast+
  then show ?thesis by (rule that(1))
next
  case (Some k)
  then obtain p where p: "p < length a" "k = rev [0..<length a] ! p" "a ! k \<noteq> 0"
    "\<forall>q<p. a ! (rev [0..<length a] ! q) = 0" by (auto simp: find_Some_iff)
  then have k: "k = length a - 1 - p" by (simp add: rev_nth)
  have "a ! i = 0" if "k < i" "i < length a" for i
  proof -
    have "length a - 1 - i < p" "rev [0..<length a] ! (length a - 1 - i) = i"
      using that k p(1) by (simp_all add: rev_nth)
    then show ?thesis using p(4) by metis
  qed
  then show ?thesis using that(2) [of k] Some p(1,3) k by (simp add: significant_def)
qed

lemma significant_le: "significant a \<le> length a"
  by (rule significant_cases [of a]) auto

lemma significant_zero: "significant a \<le> i \<Longrightarrow> i < length a \<Longrightarrow> a ! i = 0"
  by (rule significant_cases [of a]) auto

lemma lval_take_significant: "significant a \<le> k \<Longrightarrow> lval (take k a) = lval a"
  by (rule lval_take_all) (auto intro: significant_zero)

lemma significant_min:
  assumes "width_ok w" "limbs_ok w a"
  shows "lval (take (min (significant a) (nlimbs w)) a) = lval a"
  using lval_take_nlimbs [OF assms(2)] lval_take_significant [of a] by (simp add: min_def)

lemma mac_no_overflow:
  assumes "x < B64" "y < B64" "z < B64" "c < B64"
  shows "x + y * z + c < B64 * B64"
proof -
  have "y * z \<le> (B64 - 1) * (B64 - 1)" using assms by (intro mult_le_mono) auto
  then have "x + y * z + c \<le> (B64 - 1) + (B64 - 1) * (B64 - 1) + (B64 - 1)" using assms by linarith
  also have "\<dots> < B64 * B64" by (simp add: B64_def)
  finally show ?thesis .
qed

lemma unat_ucast_u128 [simp]: "unat (ucast (x::u64) :: u128) = unat x"
  by (rule unsigned_ucast_eq [THEN trans]) (simp add: take_bit_nat_eq_self order_less_le_trans [OF unsigned_less])

lemma unat_ucast_u64: "unat (ucast (t::u128) :: u64) = unat t mod B64"
  by (simp only: unsigned_ucast_eq take_bit_eq_mod B64_def) simp

lemma unat_drop_64: "unat (drop_bit 64 (t::u128)) = unat t div B64"
proof -
  have "take_bit 128 (unat t) = unat t"
    using unsigned_less [of t] by (intro take_bit_nat_eq_self) simp
  then have "unat (drop_bit 64 t) = drop_bit 64 (unat t)"
    by (simp only: unsigned_drop_bit_eq) simp
  then show ?thesis by (simp only: drop_bit_eq_div B64_def)
qed

lemma unat_add_u128: "unat x + unat y < B64 * B64 \<Longrightarrow> unat (x + y :: u128) = unat x + unat y"
  by (simp add: unat_word_ariths B64_def)

lemma unat_mult_u128: "unat x * unat y < B64 * B64 \<Longrightarrow> unat (x * y :: u128) = unat x * unat y"
  by (simp add: unat_word_ariths B64_def)

lemma unat_mac:
  assumes "unat (c::u128) < B64"
  shows "unat (ucast (x::u64) + ucast (y::u64) * ucast (z::u64) + c) = unat x + unat y * unat z + unat c"
    "unat (drop_bit 64 (ucast (x::u64) + ucast (y::u64) * ucast (z::u64) + c)) < B64"
proof -
  note b = mac_no_overflow [OF unat_less_B64 [of x] unat_less_B64 [of y] unat_less_B64 [of z] assms]
  have m: "unat (ucast y * ucast z :: u128) = unat y * unat z"
    using b by (subst unat_mult_u128) simp_all
  have s: "unat (ucast x + ucast y * ucast z :: u128) = unat x + unat y * unat z"
    using b by (subst unat_add_u128) (simp_all add: m)
  show "unat (ucast x + ucast y * ucast z + c) = unat x + unat y * unat z + unat c"
    using b by (subst unat_add_u128) (simp_all add: s)
  then show "unat (drop_bit 64 (ucast x + ucast y * ucast z + c)) < B64"
    using b by (simp add: unat_drop_64 div_less_iff_less_mult)
qed

lemma lval_update: "k < length p \<Longrightarrow> lval (p[k := x]) + B64 ^ k * unat (p ! k) = lval p + B64 ^ k * unat x"
proof (induction p arbitrary: k)
  case (Cons y p)
  then show ?case by (cases k) (auto simp: algebra_simps, metis distrib_left)
qed simp

lemma mac_row_correct:
  assumes "mac_row i t a b p = (p', c)" "i + t \<le> length p" "i < length a" "t \<le> length b"
  shows "length p' = length p \<and> unat c < B64 \<and> (\<forall>k. i + t \<le> k \<longrightarrow> p' ! k = p ! k) \<and>
    lval p' + unat c * B64 ^ (i + t) = lval p + B64 ^ i * unat (a ! i) * lval (take t b)"
  using assms unfolding mac_row_def
proof (induction t arbitrary: p' c)
  case 0
  then show ?case by auto
next
  case (Suc t)
  obtain p0 c0 where st: "for_up t (mac_round i a b) (p, 0) = (p0, c0)" by fastforce
  have IH: "length p0 = length p" "unat c0 < B64" "\<And>k. i + t \<le> k \<Longrightarrow> p0 ! k = p ! k"
    "lval p0 + unat c0 * B64 ^ (i + t) = lval p + B64 ^ i * unat (a ! i) * lval (take t b)"
    using Suc.IH [OF st] Suc.prems by auto
  define v :: u128 where "v = ucast (p0 ! (i + t)) + ucast (a ! i) * ucast (b ! t) + c0"
  have "mac_round i a b t (p0, c0) = (p0[i + t := ucast v], drop_bit 64 v)"
    by (simp add: mac_round_def v_def Let_def)
  then have r: "p' = p0[i + t := ucast v]" "c = drop_bit 64 v" using Suc.prems(1) st by simp_all
  have v: "unat v = unat (p0 ! (i + t)) + unat (a ! i) * unat (b ! t) + unat c0" "unat c < B64"
    using unat_mac [OF IH(2), of "p0 ! (i + t)" "a ! i" "b ! t"] by (simp_all add: v_def r)
  have k: "i + t < length p0" using Suc.prems(2) IH(1) by simp
  have "unat (ucast v :: u64) + B64 * unat c = unat v"
    unfolding r unat_ucast_u64 unat_drop_64 by simp
  then have "B64 ^ (i + t) * unat (ucast v :: u64) + B64 ^ (i + t) * (B64 * unat c) =
      B64 ^ (i + t) * unat (p0 ! (i + t)) + B64 ^ (i + t) * (unat (a ! i) * unat (b ! t)) + B64 ^ (i + t) * unat c0"
    unfolding v by (metis distrib_left)
  then have "lval p' + unat c * B64 ^ (i + Suc t) = lval p + B64 ^ i * unat (a ! i) * lval (take (Suc t) b)"
    using lval_update [OF k, of "ucast v"] IH(4) Suc.prems(4)
    by (simp add: r lval_take_Suc power_add algebra_simps)
  then show ?case using IH v(2) by (simp add: r)
qed


lemma unat_ucast_small: "unat (c::u128) < B64 \<Longrightarrow> unat (ucast c :: u64) = unat c"
  by (simp add: unat_ucast_u64)

lemma mul_full_correct:
  assumes "length a = 8" "length b = 8" "n \<le> 8"
  shows "length (mul_full n a b) = 16 \<and>
    lval (mul_full n a b) = lval (take (min (significant a) n) a) * lval (take (min (significant b) n) b)"
proof -
  define la lb where "la = min (significant a) n" and "lb = min (significant b) n"
  define f where "f = (\<lambda>i p. let (p, carry) = mac_row i lb a b p in p[i + lb := ucast carry])"
  have l: "la \<le> 8" "lb \<le> 8" using assms by (auto simp: la_def lb_def)
  have "length (for_up k f (replicate 16 0)) = 16 \<and>
      lval (for_up k f (replicate 16 0)) = lval (take k a) * lval (take lb b) \<and>
      (\<forall>j. k + lb \<le> j \<longrightarrow> j < 16 \<longrightarrow> for_up k f (replicate 16 0) ! j = 0)"
    if "k \<le> la" for k
    using that
  proof (induction k)
    case (Suc k)
    define p where "p = for_up k f (replicate 16 0)"
    have IH: "length p = 16" "lval p = lval (take k a) * lval (take lb b)"
      "\<And>j. k + lb \<le> j \<Longrightarrow> j < 16 \<Longrightarrow> p ! j = 0"
      using Suc by (auto simp: p_def)
    have k: "k < 8" "k + lb < 16" using Suc.prems l by auto
    obtain p' c where st: "mac_row k lb a b p = (p', c)" by fastforce
    have row: "length p' = 16" "unat c < B64" "\<And>j. k + lb \<le> j \<Longrightarrow> p' ! j = p ! j"
      "lval p' + unat c * B64 ^ (k + lb) = lval p + B64 ^ k * unat (a ! k) * lval (take lb b)"
      using mac_row_correct [OF st] k assms l IH(1) by auto
    have "p' ! (k + lb) = 0" using row(3) IH(3) k by simp
    then have "lval (p'[k + lb := ucast c]) = lval p' + unat c * B64 ^ (k + lb)"
      using lval_update [of "k + lb" p' "ucast c"] k(2) row(1,2) by (simp add: unat_ucast_small mult.commute)
    then have "lval (p'[k + lb := ucast c]) = lval (take (Suc k) a) * lval (take lb b)"
      using row(4) IH(2) k(1) assms(1) by (simp add: lval_take_Suc algebra_simps)
    moreover have "for_up (Suc k) f (replicate 16 0) = p'[k + lb := ucast c]"
      unfolding for_up_Suc p_def [symmetric] by (simp add: f_def st)
    ultimately show ?case using row IH k by simp
  qed (simp add: nth_replicate)
  from this [of la] have "length (for_up la f (replicate 16 0)) = 16 \<and>
      lval (for_up la f (replicate 16 0)) = lval (take la a) * lval (take lb b)" by simp
  then show ?thesis by (simp add: mul_full_def Let_def la_def lb_def f_def MAX_LIMBS_def)
qed

lemma mul_row_mod:
  assumes "t = min l (n - i)" "i < n" "l \<le> length b"
  shows "(B64 ^ i * u * lval (take t b)) mod B64 ^ n = (B64 ^ i * u * lval (take l b)) mod B64 ^ n"
proof (cases "l \<le> n - i")
  case True
  then show ?thesis using assms by simp
next
  case False
  then have t: "t = n - i" "i + t = n" using assms by simp_all
  define d where "d = take (l - t) (drop t b)"
  have "take l b = take t b @ d"
    using False t take_add [of t "l - t" b] by (simp add: d_def)
  then have "lval (take l b) = lval (take t b) + B64 ^ t * lval d"
    using False t assms(3) by (simp add: lval_append min_def)
  then have "B64 ^ i * u * lval (take l b) =
      B64 ^ i * u * lval (take t b) + B64 ^ n * (u * lval d)"
    unfolding t(2) [symmetric] power_add by (simp add: algebra_simps)
  then show ?thesis by simp
qed

lemma wide_mul_correct:
  assumes "width_ok w" "limbs_ok w a" "limbs_ok w b"
  shows "lval (wide_mul w a b) = sem_bin BMul w (lval a) (lval b) \<and> limbs_ok w (wide_mul w a b)"
proof -
  define n where "n = nlimbs w"
  define la lb where "la = min (significant a) n" and "lb = min (significant b) n"
  define f where "f = (\<lambda>i r. let top_j = min lb (n - i); (r, carry) = mac_row i top_j a b r
                   in if i + top_j < n then r[i + top_j := ucast carry] else r)"
  note len = limbs_ok_length [OF assms(2)] limbs_ok_length [OF assms(3)]
  have n: "n \<le> 8" using width_ok_nlimbs [OF assms(1)] by (simp add: n_def)
  have l: "la \<le> n" "lb \<le> n" by (auto simp: la_def lb_def)
  have "length (for_up k f (replicate 8 0)) = 8 \<and>
      lval (for_up k f (replicate 8 0)) mod B64 ^ n = (lval (take k a) * lval (take lb b)) mod B64 ^ n \<and>
      (\<forall>j. k + lb \<le> j \<longrightarrow> j < 8 \<longrightarrow> for_up k f (replicate 8 0) ! j = 0)"
    if "k \<le> la" for k
    using that
  proof (induction k)
    case (Suc k)
    define r where "r = for_up k f (replicate 8 0)"
    define t where "t = min lb (n - k)"
    have IH: "length r = 8" "lval r mod B64 ^ n = (lval (take k a) * lval (take lb b)) mod B64 ^ n"
      "\<And>j. k + lb \<le> j \<Longrightarrow> j < 8 \<Longrightarrow> r ! j = 0"
      using Suc by (auto simp: r_def)
    have k: "k < n" "k + t \<le> n" using Suc.prems l by (auto simp: t_def)
    obtain r' c where st: "mac_row k t a b r = (r', c)" by fastforce
    have row: "length r' = 8" "unat c < B64" "\<And>j. k + t \<le> j \<Longrightarrow> r' ! j = r ! j"
      "lval r' + unat c * B64 ^ (k + t) = lval r + B64 ^ k * unat (a ! k) * lval (take t b)"
      using mac_row_correct [OF st] k n len l IH(1) by (auto simp: t_def)
    define r2 where "r2 = (if k + t < n then r'[k + t := ucast c] else r')"
    have "lval r2 mod B64 ^ n = (lval r' + unat c * B64 ^ (k + t)) mod B64 ^ n"
    proof (cases "k + t < n")
      case True
      then have "t = lb" by (auto simp: t_def)
      then have "r' ! (k + t) = 0" using row(3) IH(3) True n by simp
      then show ?thesis
        using lval_update [of "k + t" r' "ucast c"] True n row(1,2)
        by (simp add: r2_def unat_ucast_small mult.commute)
    next
      case False
      then have "k + t = n" using k by simp
      then show ?thesis by (simp add: r2_def)
    qed
    also have "\<dots> = (lval r mod B64 ^ n + (B64 ^ k * unat (a ! k) * lval (take t b)) mod B64 ^ n) mod B64 ^ n"
      unfolding row(4) by (simp add: mod_simps)
    also have "\<dots> = (lval (take k a) * lval (take lb b) + B64 ^ k * unat (a ! k) * lval (take lb b)) mod B64 ^ n"
      unfolding IH(2) using mul_row_mod [OF t_def k(1), of b "unat (a ! k)"] l n len by (simp add: mod_simps)
    also have "lval (take k a) * lval (take lb b) + B64 ^ k * unat (a ! k) * lval (take lb b) =
        lval (take (Suc k) a) * lval (take lb b)"
      using k n len by (simp add: lval_take_Suc algebra_simps)
    finally have "lval r2 mod B64 ^ n = (lval (take (Suc k) a) * lval (take lb b)) mod B64 ^ n" .
    moreover have "for_up (Suc k) f (replicate 8 0) = r2"
      unfolding for_up_Suc r_def [symmetric] by (simp add: f_def Let_def t_def [symmetric] st r2_def)
    moreover have "r2 ! j = 0" if "Suc k + lb \<le> j" "j < 8" for j
      using row(3) [of j] IH(3) [of j] that by (auto simp: r2_def t_def)
    ultimately show ?case using row(1) by (simp add: r2_def)
  qed simp
  from this [of la] have I: "length (for_up la f (replicate 8 0)) = 8"
      "lval (for_up la f (replicate 8 0)) mod B64 ^ n = (lval a * lval b) mod B64 ^ n"
    using significant_min [OF assms(1,2)] significant_min [OF assms(1,3)]
    by (simp_all add: la_def lb_def n_def)
  have "lval (take n (for_up la f (replicate 8 0))) mod 2 ^ w = (lval a * lval b) mod 2 ^ w"
    unfolding lval_take B64_power [symmetric] I(2)
    using dvd_B64_nlimbs [of w] by (simp add: mod_mod_cancel n_def)
  moreover have "wide_mul w a b = mask_top (for_up la f (replicate 8 0)) w"
    by (simp add: wide_mul_def Let_def la_def lb_def f_def n_def MAX_LIMBS_def)
  ultimately show ?thesis
    using mask_top_ok [OF assms(1) I(1)]
    by (simp add: lval_mask_top_take [OF assms(1) I(1)] sem_bin_def n_def)
qed

lemma wide_umulhi_correct:
  assumes "width_ok w" "limbs_ok w a" "limbs_ok w b"
  shows "lval (wide_umulhi w a b) = sem_bin BUMulHi w (lval a) (lval b) \<and> limbs_ok w (wide_umulhi w a b)"
proof -
  define n p where "n = nlimbs w" and "p = mul_full n a b"
  have n: "n \<le> 8" using width_ok_nlimbs [OF assms(1)] by (simp add: n_def)
  have p: "length p = 16" "lval p = lval a * lval b"
    using mul_full_correct [OF limbs_ok_length [OF assms(2)] limbs_ok_length [OF assms(3)] n]
      significant_min [OF assms(1,2)] significant_min [OF assms(1,3)] by (simp_all add: p_def n_def)
  have lt: "lval a * lval b < 2 ^ w * 2 ^ w"
    using limbs_ok_less [OF assms(2)] limbs_ok_less [OF assms(3)] by (intro mult_strict_mono) auto
  also have "(2::nat) ^ w * 2 ^ w \<le> 2 ^ (64 * (2 * n))"
    using le_nlimbs [of w] by (simp add: n_def power_increasing flip: power_add)
  finally have tk: "lval (take (2 * n) p) = lval a * lval b"
    by (simp add: lval_take p)
  have "(lval a * lval b) div 2 ^ w < 2 ^ w" using lt by (simp add: div_less_iff_less_mult)
  then have "lval (wide_umulhi w a b) = (lval a * lval b) div 2 ^ w"
    using width_okD [OF assms(1)]
    by (intro bit_eqI)
      (auto simp: wide_umulhi_def Let_def bit_mask_top [OF assms(1)] bit_shr_bits tk bit_sem_lshr
        simp flip: n_def p_def dest: bit_nat_less)
  moreover have "limbs_ok w (wide_umulhi w a b)"
    unfolding wide_umulhi_def Let_def using assms(1) by (rule mask_top_ok) simp
  ultimately show ?thesis by (simp add: sem_bin_def)
qed


lemma sem_of_int_eqI: "x mod 2 ^ w = y mod 2 ^ w \<Longrightarrow> sem_of_int w x = sem_of_int w y"
  by (simp add: sem_of_int_def)

lemma sem_of_int_of_nat: "sem_of_int w (int a) = a mod 2 ^ w"
  by (simp add: sem_of_int_def nat_mod_distrib nat_power_eq)

lemma sem_sub_int:
  assumes "b < 2 ^ w"
  shows "sem_bin BSub w a b = sem_of_int w (int a - int b)"
proof -
  have "int (a + (2 ^ w - b)) = int a - int b + 2 ^ w" using assms by (simp add: of_nat_diff)
  then have "sem_of_int w (int a - int b) = sem_of_int w (int (a + (2 ^ w - b)))"
    by (simp only: sem_of_int_def mod_add_self2)
  then show ?thesis by (simp only: sem_of_int_of_nat sem_bin_def BinOp.case)
qed

lemma sem_sub_of_int:
  assumes "b < 2 ^ w"
  shows "sem_bin BSub w (sem_of_int w x) b = sem_of_int w (x - int b)"
  unfolding sem_sub_int [OF assms]
  by (rule sem_of_int_eqI) (simp add: int_sem_of_int mod_simps)

text \<open>Subtracting the other operand per set sign bit turns the unsigned high half into the signed one.\<close>

lemma smulhi_split:
  assumes "a < 2 ^ w" "b < 2 ^ w"
  shows "(sem_signed w a * sem_signed w b) div 2 ^ w =
    int ((a * b) div 2 ^ w) - (if bit a (w - 1) then int b else 0) - (if bit b (w - 1) then int a else 0)
      + (if bit a (w - 1) \<and> bit b (w - 1) then 2 ^ w else 0)"
proof -
  define P :: int where "P = 2 ^ w"
  have P: "0 < P" by (simp add: P_def)
  have sh: "(x + P * k) div P = k + x div P" for x k using P by simp
  have "(if bit a (w - 1) then int a - P else int a) * (if bit b (w - 1) then int b - P else int b) =
     int a * int b + P * (- (if bit a (w - 1) then int b else 0) - (if bit b (w - 1) then int a else 0)
      + (if bit a (w - 1) \<and> bit b (w - 1) then P else 0))"
    by (simp add: algebra_simps)
  then show ?thesis
    unfolding sem_signed_def P_def [symmetric] by (simp add: sh of_nat_div P_def del: mult_minus_right)
qed

lemma wide_smulhi_correct:
  assumes "width_ok w" "limbs_ok w a" "limbs_ok w b"
  shows "lval (wide_smulhi w a b) = sem_bin BSMulHi w (lval a) (lval b) \<and> limbs_ok w (wide_smulhi w a b)"
proof -
  define A B where "A = lval a" and "B = lval b"
  have lt: "A < 2 ^ w" "B < 2 ^ w"
    using limbs_ok_less [OF assms(2)] limbs_ok_less [OF assms(3)] by (simp_all add: A_def B_def)
  define H where "H = (A * B) div 2 ^ w"
  have "H < 2 ^ w" using lt by (simp add: H_def div_less_iff_less_mult mult_strict_mono)
  then have H: "sem_of_int w (int H) = H" by (simp add: sem_of_int_of_nat)
  define r1 where "r1 = (if wide_msb a w then wide_sub w (wide_umulhi w a b) b else wide_umulhi w a b)"
  have hi: "lval (wide_umulhi w a b) = H" "limbs_ok w (wide_umulhi w a b)"
    using wide_umulhi_correct [OF assms] by (simp_all add: sem_bin_def A_def B_def H_def)
  have r1: "limbs_ok w r1" "lval r1 = sem_of_int w (int H - (if bit A (w - 1) then int B else 0))"
    using hi wide_sub_correct [OF assms(1) hi(2) assms(3)] lt
    by (auto simp: r1_def wide_msb_ok assms A_def [symmetric] B_def [symmetric] H sem_sub_int)
  have r: "wide_smulhi w a b = (if wide_msb b w then wide_sub w r1 a else r1)"
    by (simp add: wide_smulhi_def Let_def r1_def)
  have "lval (wide_smulhi w a b) = sem_of_int w (int H - (if bit A (w - 1) then int B else 0)
      - (if bit B (w - 1) then int A else 0)) \<and> limbs_ok w (wide_smulhi w a b)"
    using r1 wide_sub_correct [OF assms(1) r1(1) assms(2)] lt
    by (auto simp: r wide_msb_ok assms A_def [symmetric] B_def [symmetric] sem_sub_of_int)
  moreover have "sem_bin BSMulHi w A B = sem_of_int w (int H - (if bit A (w - 1) then int B else 0)
      - (if bit B (w - 1) then int A else 0))"
    unfolding sem_bin_def BinOp.case smulhi_split [OF lt] H_def [symmetric]
    by (rule sem_of_int_eqI) simp
  ultimately show ?thesis by (simp add: A_def B_def)
qed

end
