(* ===== verification/Limbs_Div.thy ===== *)
theory Limbs_Div
  imports Limbs_Arith
begin

unbundle bit_operations_syntax

text \<open>
  Division of \<open>bitwright/src/value/wide.rs\<close>: Knuth's algorithm D (TAOCP vol. 2, 4.3.1) on
  64-bit limbs, the signed operators built on it, and the proof that quotient and remainder are
  the specification's for every width and every operand.
\<close>

section \<open>Definitions\<close>

text \<open>Long division by a single limb.\<close>

definition short_round :: "limbs \<Rightarrow> u128 \<Rightarrow> nat \<Rightarrow> limbs \<times> u128 \<Rightarrow> limbs \<times> u128" where
  "short_round a d i s =
     (let (q, r) = s; cur = push_bit 64 r OR ucast (a ! i)
      in (q[i := ucast (cur div d)], cur mod d))"

text \<open>Limb \<open>i\<close> of \<open>x << s\<close>, and limb \<open>i\<close> of \<open>u >> s\<close>.\<close>

definition shl_limb :: "nat \<Rightarrow> limbs \<Rightarrow> nat \<Rightarrow> u64" where
  "shl_limb s x i =
     (let lo = (if i > 0 \<and> s > 0 then drop_bit (64 - s) (x ! (i - 1)) else 0)
      in push_bit s (get_or_zero x i) OR lo)"

definition shr_limb :: "nat \<Rightarrow> limbs \<Rightarrow> nat \<Rightarrow> u64" where
  "shr_limb s u i =
     (if s = 0 then u ! i else drop_bit s (u ! i) OR push_bit (64 - s) (u ! (i + 1)))"

definition BASE :: u128 where "BASE = push_bit 64 1"

text \<open>The estimate from the top two limbs, clamped to \<open>BASE - 1\<close>.\<close>

definition qhat_start :: "u128 \<Rightarrow> u128 \<Rightarrow> u128 \<times> u128" where
  "qhat_start num tp =
     (let qhat = num div tp; rhat = num mod tp
      in if qhat \<ge> BASE then (BASE - 1, rhat + (qhat - (BASE - 1)) * tp) else (qhat, rhat))"

text \<open>\<open>while rhat < BASE && qhat * next > ((rhat << 64) | u)\<close>: each round lowers \<open>qhat\<close>.\<close>

function qhat_adjust :: "u128 \<Rightarrow> u128 \<Rightarrow> u64 \<Rightarrow> u128 \<Rightarrow> u128 \<Rightarrow> u128 \<times> u128" where
  "qhat_adjust tp nxt u0 qhat rhat =
     (if rhat < BASE \<and> qhat * nxt > (push_bit 64 rhat OR ucast u0)
      then qhat_adjust tp nxt u0 (qhat - 1) (rhat + tp)
      else (qhat, rhat))"
  by pat_completeness auto
termination
proof (relation "measure (\<lambda>(tp, nxt, u0, qhat, rhat). unat qhat)")
  fix tp nxt qhat rhat :: u128 and u0 :: u64
  assume "rhat < BASE \<and> qhat * nxt > (push_bit 64 rhat OR ucast u0)"
  then have "qhat \<noteq> 0" by auto
  then have "unat (qhat - 1) < unat qhat"
    by (simp add: unat_minus_one unat_gt_0)
  then show "((tp, nxt, u0, qhat - 1, rhat + tp), (tp, nxt, u0, qhat, rhat))
      \<in> measure (\<lambda>(tp, nxt, u0, qhat, rhat). unat qhat)" by simp
qed simp

declare qhat_adjust.simps [simp del]

definition submul_round :: "u128 \<Rightarrow> limbs \<Rightarrow> nat \<Rightarrow> nat \<Rightarrow> limbs \<times> u128 \<times> bool \<Rightarrow> limbs \<times> u128 \<times> bool" where
  "submul_round qhat v j i s =
     (let (u, carry, borrow) = s;
          p = qhat * ucast (v ! i) + carry;
          (d1, b1) = overflowing_sub (u ! (i + j)) (ucast p);
          (d2, b2) = overflowing_sub d1 (of_bool borrow)
      in (u[i + j := d2], drop_bit 64 p, b1 \<or> b2))"

definition addback_round :: "limbs \<Rightarrow> nat \<Rightarrow> nat \<Rightarrow> limbs \<times> u128 \<Rightarrow> limbs \<times> u128" where
  "addback_round v j i s =
     (let (u, c) = s;
          t = ucast (u ! (i + j)) + ucast (v ! i) + c
      in (u[i + j := ucast t], drop_bit 64 t))"

text \<open>One digit of the quotient: estimate, multiply and subtract, add back.\<close>

definition div_round :: "nat \<Rightarrow> limbs \<Rightarrow> nat \<Rightarrow> limbs \<times> limbs \<Rightarrow> limbs \<times> limbs" where
  "div_round n v j s =
     (let (q, u) = s;
          tp = ucast (v ! (n - 1)); nxt = ucast (v ! (n - 2));
          num = push_bit 64 (ucast (u ! (j + n))) OR ucast (u ! (j + n - 1));
          (qhat, rhat) = qhat_start num tp;
          (qhat, rhat) = qhat_adjust tp nxt (u ! (j + n - 2)) qhat rhat;
          (u, carry, borrow) = for_up n (submul_round qhat v j) (u, 0, False);
          (d1, b1) = overflowing_sub (u ! (j + n)) (ucast carry);
          (d2, b2) = overflowing_sub d1 (of_bool borrow);
          u = u[j + n := d2];
          (qhat, u) =
            (if b1 \<or> b2
             then let qhat = qhat - 1;
                      (u, c) = for_up n (addback_round v j) (u, 0)
                  in (qhat, u[j + n := u ! (j + n) + ucast c])
             else (qhat, u))
      in (q[j := ucast qhat], u))"

text \<open>The normalised division of an \<open>m\<close>-limb dividend by an \<open>n\<close>-limb divisor, \<open>2 \<le> n \<le> m\<close>.\<close>

definition long_div :: "nat \<Rightarrow> nat \<Rightarrow> limbs \<Rightarrow> limbs \<Rightarrow> limbs \<times> limbs" where
  "long_div m n a b =
     (let s = leading_zeros (b ! (n - 1));
          v = map (\<lambda>i. if i < n then shl_limb s (take n b) i else 0) [0..<MAX_LIMBS];
          u = map (\<lambda>i. if i < m + 1 then shl_limb s (take m a) i else 0) [0..<MAX_LIMBS + 1];
          (q, u) = for_down (m - n + 1) (div_round n v) (zero_limbs, u)
      in (q, map (\<lambda>i. if i < n then shr_limb s u i else 0) [0..<MAX_LIMBS]))"

definition wide_udivrem :: "nat \<Rightarrow> limbs \<Rightarrow> limbs \<Rightarrow> limbs \<times> limbs" where
  "wide_udivrem w a b =
     (if wide_is_zero b then (wide_ones w, a)
      else let m = significant a; n = significant b
           in if m < n then (zero_limbs, a)
              else if n = 1
              then let (q, r) = for_down m (short_round a (ucast (b ! 0))) (zero_limbs, 0)
                   in (q, small (ucast r))
              else long_div m n a b)"

definition wide_sdiv :: "nat \<Rightarrow> limbs \<Rightarrow> limbs \<Rightarrow> limbs" where
  "wide_sdiv w a b =
     (let udiv = (\<lambda>a b. fst (wide_udivrem w a b))
      in case (wide_msb a w, wide_msb b w) of
           (False, False) \<Rightarrow> udiv a b
         | (True, False) \<Rightarrow> wide_neg w (udiv (wide_neg w a) b)
         | (False, True) \<Rightarrow> wide_neg w (udiv a (wide_neg w b))
         | (True, True) \<Rightarrow> udiv (wide_neg w a) (wide_neg w b))"

definition wide_srem :: "nat \<Rightarrow> limbs \<Rightarrow> limbs \<Rightarrow> limbs" where
  "wide_srem w a b =
     (let urem = (\<lambda>a b. snd (wide_udivrem w a b))
      in case (wide_msb a w, wide_msb b w) of
           (False, False) \<Rightarrow> urem a b
         | (True, False) \<Rightarrow> wide_neg w (urem (wide_neg w a) b)
         | (False, True) \<Rightarrow> urem a (wide_neg w b)
         | (True, True) \<Rightarrow> wide_neg w (urem (wide_neg w a) (wide_neg w b)))"


section \<open>The estimate of a quotient digit\<close>

lemma estimate_ge:
  fixes B vt vr num ur :: nat
  assumes "q * (vt * P + vr) \<le> num * P + ur" "ur < P" 
  shows "q * vt \<le> num"
proof (rule ccontr)
  assume "\<not> q * vt \<le> num"
  then have "(num + 1) * P \<le> q * vt * P" by (intro mult_le_mono1) simp
  moreover have "q * (vt * P + vr) = q * vt * P + q * vr" by (simp add: algebra_simps)
  ultimately have "(num + 1) * P \<le> num * P + ur" using assms(1) by linarith
  then show False using assms(2) by simp
qed

text \<open>\<open>num\<close> holds the top two digits of the remainder, \<open>u0\<close> the third, \<open>ur\<close> the rest.\<close>

lemma estimate_too_big:
  fixes B vt vn vr num u0 ur :: nat
  assumes eq: "qh * vt + rh = num" and big: "rh * B + u0 < qh * vn" and ur: "ur < P"
    and q: "q * ((vt * B + vn) * P + vr) \<le> (num * B + u0) * P + ur"
  shows "q < qh"
proof (rule ccontr)
  assume "\<not> q < qh"
  then have "qh * ((vt * B + vn) * P + vr) \<le> q * ((vt * B + vn) * P + vr)"
    by (intro mult_le_mono1) simp
  moreover have "(qh * vt * B + qh * vn) * P \<le> qh * ((vt * B + vn) * P + vr)"
    by (simp add: algebra_simps)
  moreover have "(num * B + u0 + 1) * P \<le> (qh * vt * B + qh * vn) * P"
    using big by (intro mult_le_mono1) (simp add: eq [symmetric] algebra_simps)
  ultimately have "(num * B + u0 + 1) * P \<le> (num * B + u0) * P + ur" using q by linarith
  then show False using ur by simp
qed

lemma estimate_close:
  fixes B vt vn vr num u0 ur :: nat
  assumes eq: "qh * vt + rh = num" and qh: "qh < B" and vr: "vr < P" and vn: "vn < B" and vt: "0 < vt"
    and exit: "B \<le> rh \<or> qh * vn \<le> rh * B + u0"
  shows "(qh - 1) * ((vt * B + vn) * P + vr) \<le> (num * B + u0) * P + ur"
  using exit
proof
  assume rh: "B \<le> rh"
  have "qh * ((vt * B + vn) * P + vr) \<le> (qh * vt * B + qh * B) * P"
  proof -
    have "(vt * B + vn) * P + vr \<le> (vt * B + vn) * P + P" using vr by simp
    also have "\<dots> = (vt * B + (vn + 1)) * P" by (simp add: algebra_simps)
    also have "\<dots> \<le> (vt * B + B) * P" using vn by (intro mult_le_mono1) simp
    finally have "qh * ((vt * B + vn) * P + vr) \<le> qh * ((vt * B + B) * P)" by (rule mult_le_mono2)
    then show ?thesis by (simp add: algebra_simps)
  qed
  also have "qh * vt * B + qh * B \<le> num * B"
  proof -
    have "qh * vt + qh \<le> num" using eq rh qh by linarith
    then have "(qh * vt + qh) * B \<le> num * B" by (rule mult_le_mono1)
    then show ?thesis by (simp add: algebra_simps)
  qed
  then have "(qh * vt * B + qh * B) * P \<le> (num * B + u0) * P" by (intro mult_le_mono1) simp
  finally have "qh * ((vt * B + vn) * P + vr) \<le> (num * B + u0) * P" .
  moreover have "(qh - 1) * ((vt * B + vn) * P + vr) \<le> qh * ((vt * B + vn) * P + vr)"
    by (intro mult_le_mono1) simp
  ultimately show ?thesis by linarith
next
  assume small: "qh * vn \<le> rh * B + u0"
  show ?thesis
  proof (cases "qh = 0")
    case False
    define V where "V = (vt * B + vn) * P + vr"
    have "(qh * vt * B + qh * vn) * P \<le> (num * B + u0) * P"
      using small by (intro mult_le_mono1) (simp add: eq [symmetric] algebra_simps)
    moreover have "qh * V = (qh * vt * B + qh * vn) * P + qh * vr"
      by (simp add: V_def algebra_simps)
    moreover have "qh * vr \<le> V"
    proof -
      have "qh * vr \<le> B * P" using qh vr by (intro mult_le_mono) auto
      also have "B * P \<le> V"
      proof -
        have "1 * (B * P) \<le> vt * (B * P)" using vt by (intro mult_le_mono1) simp
        moreover have "V = vt * (B * P) + vn * P + vr" by (simp add: V_def algebra_simps)
        ultimately show ?thesis by linarith
      qed
      finally show ?thesis .
    qed
    moreover have "qh * V = (qh - 1) * V + V" using False by (cases qh) auto
    ultimately show ?thesis unfolding V_def [symmetric] by linarith
  qed simp
qed


section \<open>The estimate on words\<close>

lemma unat_BASE: "unat BASE = B64"
  by (simp add: BASE_def B64_def)

lemma unat_BASE_minus_1: "unat (BASE - 1) = B64 - 1"
  by (simp add: BASE_def B64_def)

lemma less_BASE: "x < BASE \<longleftrightarrow> unat x < B64"
  by (simp add: word_less_nat_alt unat_BASE)

lemma unat_sub_u128: "unat y \<le> unat x \<Longrightarrow> unat (x - y :: u128) = unat x - unat y"
  by (simp add: unat_sub_if')

lemma qhat_start_correct:
  assumes "unat tp < B64" "B64 \<le> 2 * unat tp" "unat num < (unat tp + 1) * B64"
    and "qhat_start num tp = (qh, rh)"
  shows "unat qh * unat tp + unat rh = unat num \<and> unat qh < B64 \<and>
    (\<forall>q. q < B64 \<longrightarrow> q * unat tp \<le> unat num \<longrightarrow> q \<le> unat qh)"
proof -
  have tp: "0 < unat tp" using assms(2) B64_pos by linarith
  define Q R where "Q = unat num div unat tp" and "R = unat num mod unat tp"
  have QR: "Q * unat tp + R = unat num" "R < unat tp" using tp by (simp_all add: Q_def R_def)
  have d: "unat (num div tp) = Q" "unat (num mod tp) = R"
    by (simp_all add: unat_div_distrib unat_mod_distrib Q_def R_def)
  have cl: "BASE \<le> num div tp \<longleftrightarrow> B64 \<le> Q" by (simp add: word_le_nat_alt unat_BASE d)
  have mx: "q \<le> Q" if "q * unat tp \<le> unat num" for q
    using that tp unfolding Q_def by (simp add: less_eq_div_iff_mult_less_eq)
  show ?thesis
  proof (cases "Q < B64")
    case True
    then have "qh = num div tp" "rh = num mod tp"
      using assms(4) by (auto simp: qhat_start_def Let_def cl)
    then show ?thesis using True QR mx by (auto simp: d)
  next
    case False
    then have r: "qh = BASE - 1" "rh = num mod tp + (num div tp - (BASE - 1)) * tp"
      using assms(4) by (auto simp: qhat_start_def Let_def cl)
    have le: "unat (BASE - 1) \<le> unat (num div tp)" using False by (simp add: unat_BASE_minus_1 d)
    have two: "Q - (B64 - 1) \<le> 2"
    proof -
      have "Q < B64 + 2"
      proof (rule ccontr)
        assume "\<not> Q < B64 + 2"
        then have "(B64 + 2) * unat tp \<le> Q * unat tp" by (intro mult_le_mono1) simp
        then have "(B64 + 2) * unat tp \<le> unat num" using QR(1) by linarith
        moreover have "(unat tp + 1) * B64 \<le> (B64 + 2) * unat tp" using assms(2) by (simp add: algebra_simps)
        ultimately show False using assms(3) by linarith
      qed
      then show ?thesis by simp
    qed
    have m: "(Q - (B64 - 1)) * unat tp \<le> 2 * unat tp" using two by (rule mult_le_mono1)
    moreover have "2 * unat tp + unat tp < B64 * B64" using assms(1) by (simp add: B64_def)
    ultimately have m2: "(Q - (B64 - 1)) * unat tp < B64 * B64 - unat tp" by linarith
    have "unat ((num div tp - (BASE - 1)) * tp) = (Q - (B64 - 1)) * unat tp"
      using m2 by (subst unat_mult_u128) (simp_all add: unat_sub_u128 [OF le] d unat_BASE_minus_1)
    then have rh: "unat rh = R + (Q - (B64 - 1)) * unat tp"
      unfolding r using m2 QR(2) by (subst unat_add_u128) (simp_all add: d)
    have "Q = (B64 - 1) + (Q - (B64 - 1))" using False by simp
    then have "Q * unat tp = (B64 - 1) * unat tp + (Q - (B64 - 1)) * unat tp"
      by (metis distrib_right)
    then show ?thesis using rh QR(1) by (auto simp: r unat_BASE_minus_1)
  qed
qed

lemma qhat_adjust_correct:
  assumes "unat tp < B64" "unat nxt < B64" "unat tp > 0"
    and U: "q * ((unat tp * B64 + unat nxt) * P + vr) \<le> (num * B64 + unat u0) * P + ur" "ur < P"
  shows "qhat_adjust tp nxt u0 qh rh = (qh', rh') \<Longrightarrow>
    unat qh * unat tp + unat rh = num \<Longrightarrow> unat qh < B64 \<Longrightarrow> q \<le> unat qh \<Longrightarrow>
    unat qh' * unat tp + unat rh' = num \<and> unat qh' < B64 \<and> q \<le> unat qh' \<and>
    (B64 \<le> unat rh' \<or> unat qh' * unat nxt \<le> unat rh' * B64 + unat u0)"
  using assms
proof (induction tp nxt u0 qh rh rule: qhat_adjust.induct)
  case (1 tp nxt u0 qh rh)
  note tp = 1(6) and nxt = 1(7)
  have lt: "unat qh * unat nxt < B64 * B64" using 1(4) nxt by (intro mult_strict_mono) auto
  have cond: "rh < BASE \<and> qh * nxt > (push_bit 64 rh OR ucast u0) \<longleftrightarrow>
      unat rh < B64 \<and> unat rh * B64 + unat u0 < unat qh * unat nxt"
  proof -
    have "qh * nxt > (push_bit 64 rh OR ucast u0) \<longleftrightarrow> unat rh * B64 + unat u0 < unat qh * unat nxt"
      if "unat rh < B64"
      by (simp add: word_less_nat_alt unat_push_64_or [OF that] unat_mult_u128 [OF lt])
    then show ?thesis by (auto simp: less_BASE)
  qed
  show ?case
  proof (cases "unat rh < B64 \<and> unat rh * B64 + unat u0 < unat qh * unat nxt")
    case True
    have q: "q < unat qh"
      using estimate_too_big [OF 1(3) conjunct2 [OF True] 1(10) 1(9)] .
    then have "1 \<le> qh" by (simp add: word_le_nat_alt)
    then have q1: "unat (qh - 1) = unat qh - 1" by (simp add: unat_sub)
    have r1: "unat (rh + tp) = unat rh + unat tp"
      using True tp by (intro unat_add_u128) (simp add: B64_def)
    have eq: "unat (qh - 1) * unat tp + unat (rh + tp) = num"
      using q 1(3) by (cases "unat qh") (simp_all add: q1 r1 algebra_simps)
    have st: "qhat_adjust tp nxt u0 (qh - 1) (rh + tp) = (qh', rh')"
      using 1(2) True cond by (simp add: qhat_adjust.simps [of tp nxt u0 qh rh])
    show ?thesis
      by (rule 1(1) [OF _ st eq _ _ 1(6-)]) (use True cond q q1 1(4) in auto)
  next
    case False
    then have "qh' = qh" "rh' = rh"
      using 1(2) cond by (auto simp: qhat_adjust.simps [of tp nxt u0 qh rh])
    then show ?thesis using False 1(3-5) by (auto simp: not_less)
  qed
qed


section \<open>Multiply-subtract and add-back\<close>

lemma submul_limb:
  assumes p: "unat (p::u128) = Q * y + c" and o1: "overflowing_sub (x::u64) (ucast p) = (d1, b1)"
    and o2: "overflowing_sub d1 (of_bool br) = (d2, b2)"
  shows "unat d2 + Q * y + c + of_bool br = unat x + (unat (drop_bit 64 p) + of_bool (b1 \<or> b2)) * B64"
proof -
  have "unat p = unat (ucast p :: u64) + unat (drop_bit 64 p) * B64"
    by (simp add: unat_ucast_u64 unat_drop_64)
  then show ?thesis using sub_limb [OF o1 o2] p by (simp add: algebra_simps)
qed

lemma submul_correct:
  assumes "for_up n (submul_round qh v j) (u, 0, False) = (u', c, br)"
    and "n + j \<le> length u" "n \<le> length v" "unat qh < B64"
  shows "length u' = length u \<and> unat c < B64 \<and> (\<forall>k. n + j \<le> k \<longrightarrow> u' ! k = u ! k) \<and>
    lval u' + B64 ^ j * (unat qh * lval (take n v)) =
      lval u + (unat c + of_bool br) * B64 ^ (n + j)"
  using assms
proof (induction n arbitrary: u' c br)
  case 0
  then show ?case by auto
next
  case (Suc n)
  obtain u0 c0 br0 where st: "for_up n (submul_round qh v j) (u, 0, False) = (u0, c0, br0)"
    by (metis prod_cases3)
  have IH: "length u0 = length u" "unat c0 < B64" "\<And>k. n + j \<le> k \<Longrightarrow> u0 ! k = u ! k"
    "lval u0 + B64 ^ j * (unat qh * lval (take n v)) = lval u + (unat c0 + of_bool br0) * B64 ^ (n + j)"
    using Suc.IH [OF st] Suc.prems by auto
  define p where "p = qh * ucast (v ! n) + c0"
  obtain d1 b1 where o1: "overflowing_sub (u0 ! (n + j)) (ucast p) = (d1, b1)" by fastforce
  obtain d2 b2 where o2: "overflowing_sub d1 (of_bool br0) = (d2, b2)" by fastforce
  have "submul_round qh v j n (u0, c0, br0) = (u0[n + j := d2], drop_bit 64 p, b1 \<or> b2)"
    by (simp add: submul_round_def p_def [symmetric] o1 o2 Let_def)
  then have r: "u' = u0[n + j := d2]" "c = drop_bit 64 p" "br = (b1 \<or> b2)"
    using Suc.prems(1) st by simp_all
  have ov: "unat qh * unat (v ! n) + unat c0 < B64 * B64"
    using mac_no_overflow [of 0 "unat qh" "unat (v ! n)" "unat c0"] Suc.prems(4) IH(2) unat_less_B64 by simp
  have m: "unat (qh * ucast (v ! n)) = unat qh * unat (v ! n)"
    using ov by (subst unat_mult_u128) simp_all
  have p: "unat p = unat qh * unat (v ! n) + unat c0"
    unfolding p_def using ov by (subst unat_add_u128) (simp_all add: m)
  have k: "n + j < length u0" using Suc.prems(2) IH(1) by simp
  have c: "unat c < B64" using ov by (simp add: r unat_drop_64 p div_less_iff_less_mult)
  have "B64 ^ (n + j) * (unat d2 + unat qh * unat (v ! n) + unat c0 + of_bool br0) =
      B64 ^ (n + j) * (unat (u0 ! (n + j)) + (unat c + of_bool br) * B64)"
    using submul_limb [OF p o1 o2] unfolding r by simp
  moreover have "lval u' + B64 ^ (n + j) * unat (u0 ! (n + j)) = lval u0 + B64 ^ (n + j) * unat d2"
    unfolding r by (rule lval_update [OF k])
  moreover have "lval (take (Suc n) v) = lval (take n v) + B64 ^ n * unat (v ! n)"
    using Suc.prems(3) by (simp add: lval_take_Suc)
  ultimately have "lval u' + B64 ^ j * (unat qh * lval (take (Suc n) v)) =
      lval u + (unat c + of_bool br) * B64 ^ (Suc n + j)"
    using IH(4) by (simp add: power_add algebra_simps)
  then show ?case using IH c by (simp add: r)
qed

lemma addback_correct:
  assumes "for_up n (addback_round v j) (u, 0) = (u', c)"
    and "n + j \<le> length u" "n \<le> length v"
  shows "length u' = length u \<and> unat c < B64 \<and> (\<forall>k. n + j \<le> k \<longrightarrow> u' ! k = u ! k) \<and>
    lval u' + unat c * B64 ^ (n + j) = lval u + B64 ^ j * lval (take n v)"
  using assms
proof (induction n arbitrary: u' c)
  case 0
  then show ?case by auto
next
  case (Suc n)
  obtain u0 c0 where st: "for_up n (addback_round v j) (u, 0) = (u0, c0)" by fastforce
  have IH: "length u0 = length u" "unat c0 < B64" "\<And>k. n + j \<le> k \<Longrightarrow> u0 ! k = u ! k"
    "lval u0 + unat c0 * B64 ^ (n + j) = lval u + B64 ^ j * lval (take n v)"
    using Suc.IH [OF st] Suc.prems by auto
  define t where "t = ucast (u0 ! (n + j)) + ucast (v ! n) + c0"
  have "addback_round v j n (u0, c0) = (u0[n + j := ucast t], drop_bit 64 t)"
    by (simp add: addback_round_def t_def Let_def)
  then have r: "u' = u0[n + j := ucast t]" "c = drop_bit 64 t" using Suc.prems(1) st by simp_all
  have t: "unat t = unat (u0 ! (n + j)) + unat (v ! n) + unat c0" "unat c < B64"
    using unat_mac [OF IH(2), of "u0 ! (n + j)" 1 "v ! n"] by (simp_all add: t_def r)
  have k: "n + j < length u0" using Suc.prems(2) IH(1) by simp
  have "unat (ucast t :: u64) + unat c * B64 = unat t"
    by (simp add: r unat_ucast_u64 unat_drop_64)
  then have "B64 ^ (n + j) * (unat (ucast t :: u64) + unat c * B64) =
      B64 ^ (n + j) * (unat (u0 ! (n + j)) + unat (v ! n) + unat c0)"
    using t(1) by simp
  moreover have "lval u' + B64 ^ (n + j) * unat (u0 ! (n + j)) = lval u0 + B64 ^ (n + j) * unat (ucast t :: u64)"
    unfolding r by (rule lval_update [OF k])
  moreover have "lval (take (Suc n) v) = lval (take n v) + B64 ^ n * unat (v ! n)"
    using Suc.prems(3) by (simp add: lval_take_Suc)
  ultimately have "lval u' + unat c * B64 ^ (Suc n + j) = lval u + B64 ^ j * lval (take (Suc n) v)"
    using IH(4) by (simp add: power_add algebra_simps)
  then show ?case using IH t(2) by (simp add: r)
qed


section \<open>One digit\<close>

lemma lval_take_top2:
  assumes "2 \<le> n" "n \<le> length x"
  shows "lval (take n x) = (unat (x ! (n - 1)) * B64 + unat (x ! (n - 2))) * B64 ^ (n - 2) + lval (take (n - 2) x)"
proof -
  obtain k where n: "n = Suc (Suc k)" using assms(1) by (metis add_2_eq_Suc le_Suc_ex)
  show ?thesis using assms(2) by (simp add: n lval_take_Suc algebra_simps)
qed

lemma lval_take_top3:
  assumes "2 \<le> n" "n < length x"
  shows "lval (take (Suc n) x) =
    ((unat (x ! n) * B64 + unat (x ! (n - 1))) * B64 + unat (x ! (n - 2))) * B64 ^ (n - 2) + lval (take (n - 2) x)"
proof -
  have "B64 ^ n = B64 ^ (n - 2) * B64 * B64"
    using assms(1) by (metis le_add_diff_inverse2 mult.assoc power2_eq_square power_add)
  then show ?thesis
    using assms lval_take_top2 [of n x] by (simp add: lval_take_Suc algebra_simps)
qed

lemma lval_take_less: "k \<le> length x \<Longrightarrow> lval (take k x) < B64 ^ k"
  using lval_less [of "take k x"] by (simp add: min.absorb2)

lemma lval_take_id: "lval x < B64 ^ k \<Longrightarrow> lval (take k x) = lval x"
  by (simp add: lval_take B64_power)

lemma lval_drop: "j \<le> length x \<Longrightarrow> lval x = lval (take j x) + B64 ^ j * lval (drop j x)"
  using lval_append [of "take j x" "drop j x"] by (simp add: min_def)

text \<open>The estimate is the digit or one more.\<close>

lemma qhat_correct:
  assumes n: "2 \<le> n" "n < length x" "n \<le> length v" and top: "B64 \<le> 2 * unat (v ! (n - 1))"
    and X: "lval x < lval (take n v) * B64"
    and st: "qhat_start (push_bit 64 (ucast (x ! n)) OR ucast (x ! (n - 1))) (ucast (v ! (n - 1))) = (qh0, rh0)"
    and ad: "qhat_adjust (ucast (v ! (n - 1))) (ucast (v ! (n - 2))) (x ! (n - 2)) qh0 rh0 = (qh, rh)"
  shows "unat qh < B64 \<and> lval x div lval (take n v) \<le> unat qh \<and> unat qh \<le> lval x div lval (take n v) + 1"
proof -
  define P vt vn vr where "P = B64 ^ (n - 2)" and "vt = unat (v ! (n - 1))" and "vn = unat (v ! (n - 2))"
    and "vr = lval (take (n - 2) v)"
  define num u0 ur where "num = unat (x ! n) * B64 + unat (x ! (n - 1))" and "u0 = unat (x ! (n - 2))"
    and "ur = lval (take (n - 2) x)"
  define V X' where "V = lval (take n v)" and "X' = lval x"
  have b: "vt < B64" "vn < B64" "vr < P" "ur < P" "u0 < B64" "unat (x ! n) < B64"
    using n lval_take_less [of "n - 2"]
    by (simp_all add: vt_def vn_def vr_def P_def ur_def u0_def unat_less_B64)
  have V: "V = (vt * B64 + vn) * P + vr"
    using lval_take_top2 [OF n(1,3)] by (simp add: V_def vt_def vn_def vr_def P_def)
  have "V \<le> B64 ^ n" using lval_take_less [OF n(3)] by (simp add: V_def)
  then have "X' < B64 ^ Suc n" using X unfolding V_def [symmetric] X'_def [symmetric]
    by (metis less_le_trans mult.commute mult_le_mono2 power_Suc)
  then have X': "X' = (num * B64 + u0) * P + ur"
    using lval_take_id [of x "Suc n"] lval_take_top3 [OF n(1,2)]
    by (simp add: X'_def num_def u0_def ur_def P_def)
  have P: "0 < P" by (simp add: P_def)
  have vt: "0 < vt" using top B64_pos(1) unfolding vt_def by linarith
  have "1 * 1 \<le> vt * B64 * P" using vt P by (intro mult_le_mono) (simp_all add: Suc_le_eq)
  then have Vpos: "0 < V" by (simp add: V algebra_simps)
  have num: "num < (vt + 1) * B64"
  proof -
    have "V \<le> (vt * B64 + vn) * P + P" using b(3) by (simp add: V)
    also have "\<dots> = (vt * B64 + (vn + 1)) * P" by (simp add: algebra_simps)
    also have "\<dots> \<le> (vt * B64 + B64) * P" using b(2) by (intro mult_le_mono1) simp
    finally have "V * B64 \<le> (vt * B64 + B64) * P * B64" by (rule mult_le_mono1)
    then have "V * B64 \<le> (vt + 1) * B64 * P * B64" by (simp add: distrib_right)
    moreover have "num * B64 * P \<le> X'" by (simp add: X' algebra_simps)
    ultimately have "num * B64 * P < (vt + 1) * B64 * P * B64"
      using X unfolding V_def [symmetric] X'_def [symmetric] by linarith
    then have "num * (B64 * P) < (vt + 1) * B64 * (B64 * P)" by (simp only: ac_simps)
    then show ?thesis by (simp only: mult_less_cancel2)
  qed
  have nw: "unat (push_bit 64 (ucast (x ! n)) OR ucast (x ! (n - 1)) :: u128) = num"
    using b(6) by (simp add: unat_push_64_or num_def)
  define Q where "Q = X' div V"
  have QV: "Q * V \<le> X'" by (simp add: Q_def)
  have Qlt: "Q < B64" using X Vpos unfolding Q_def V_def [symmetric] X'_def [symmetric]
    by (simp add: div_less_iff_less_mult mult.commute)
  have s: "unat qh0 * vt + unat rh0 = num" "unat qh0 < B64" "\<And>q. q < B64 \<Longrightarrow> q * vt \<le> num \<Longrightarrow> q \<le> unat qh0"
    using qhat_start_correct [OF _ _ _ st, unfolded nw unat_ucast_u128, folded vt_def] b(1) top num
    by (auto simp: vt_def)
  have Qnum: "Q * vt \<le> num"
  proof (rule estimate_ge)
    show "Q * (vt * (B64 * P) + (vn * P + vr)) \<le> num * (B64 * P) + (u0 * P + ur)"
      using QV by (simp add: V X' algebra_simps)
    have "(u0 + 1) * P \<le> B64 * P" using b(5) by (intro mult_le_mono1) simp
    then show "u0 * P + ur < B64 * P" using b(4) by (simp add: algebra_simps)
  qed
  have QV': "Q * ((vt * B64 + vn) * P + vr) \<le> (num * B64 + u0) * P + ur"
    using QV unfolding V X' .
  have a: "unat qh * vt + unat rh = num" "unat qh < B64" "Q \<le> unat qh"
    "B64 \<le> unat rh \<or> unat qh * vn \<le> unat rh * B64 + u0"
    using qhat_adjust_correct [OF _ _ _ _ b(4) ad, of Q vr num] s(1,2) s(3) [OF Qlt Qnum] b vt QV'
    by (auto simp: vt_def vn_def u0_def)
  have "(unat qh - 1) * V \<le> X'"
    using estimate_close [OF a(1,2) b(3,2) vt a(4), of ur] by (simp only: V X')
  then have "unat qh - 1 \<le> Q" using Vpos by (simp add: Q_def less_eq_div_iff_mult_less_eq)
  then show ?thesis using a by (simp add: Q_def V_def X'_def)
qed


text \<open>The digit of the quotient and the new remainder.\<close>

lemma div_round_correct:
  assumes n: "2 \<le> n" "n + j \<le> 8" and len: "length v = 8" "length u = 9" "length q = 8"
    and top: "B64 \<le> 2 * unat (v ! (n - 1))"
    and U: "lval u < lval (take n v) * B64 ^ Suc j" and q0: "q ! j = 0"
    and st: "div_round n v j (q, u) = (q', u')"
  shows "length u' = 9 \<and> length q' = 8 \<and> (\<forall>k. k \<noteq> j \<longrightarrow> q' ! k = q ! k) \<and>
    lval u' + lval q' * lval (take n v) = lval u + lval q * lval (take n v) \<and>
    lval u' < lval (take n v) * B64 ^ j"
proof -
  define V L W where "V = lval (take n v)" and "L = lval (take j u)" and "W = lval (drop j u)"
  define x where "x = drop j u"
  have L: "L < B64 ^ j" using n len by (simp add: L_def lval_take_less)
  have u: "lval u = L + B64 ^ j * W" using n len lval_drop [of j u] by (simp add: L_def W_def)
  have "V * B64 ^ Suc j = B64 ^ j * (V * B64)" by simp
  then have "B64 ^ j * W < B64 ^ j * (V * B64)" using U u unfolding V_def [symmetric] by linarith
  then have W: "W < V * B64" by (simp only: mult_less_cancel1)
  have Vn: "V < B64 ^ n" using lval_take_less [of n v] n len by (simp add: V_def)
  have Vpos: "0 < V" using W by (cases V) auto
  have ix: "u ! (j + n) = x ! n" "u ! (j + n - 1) = x ! (n - 1)" "u ! (j + n - 2) = x ! (n - 2)"
    using n len by (simp_all add: x_def)
  obtain qh0 rh0 where q1: "qhat_start (push_bit 64 (ucast (u ! (j + n))) OR ucast (u ! (j + n - 1)))
      (ucast (v ! (n - 1))) = (qh0, rh0)" by fastforce
  obtain qh rh where q2: "qhat_adjust (ucast (v ! (n - 1))) (ucast (v ! (n - 2))) (u ! (j + n - 2)) qh0 rh0
      = (qh, rh)" by fastforce
  have xl: "n < length x" "n \<le> length v" using n len by (simp_all add: x_def)
  have xV: "lval x < lval (take n v) * B64" using W by (simp add: x_def W_def V_def)
  define D where "D = W div V"
  have qh: "unat qh < B64" "D \<le> unat qh" "unat qh \<le> D + 1"
    using qhat_correct [OF n(1) xl top xV q1 [unfolded ix] q2 [unfolded ix]]
    by (simp_all add: D_def W_def V_def x_def)
  define R where "R = W mod V"
  have DR: "W = D * V + R" "R < V" using Vpos by (simp_all add: D_def R_def)
  obtain u1 c br where s1: "for_up n (submul_round qh v j) (u, 0, False) = (u1, c, br)" by (metis prod_cases3)
  have u1: "length u1 = 9" "unat c < B64" "\<And>k. n + j \<le> k \<Longrightarrow> u1 ! k = u ! k"
    "lval u1 + B64 ^ j * (unat qh * V) = lval u + (unat c + of_bool br) * B64 ^ (n + j)"
    using submul_correct [OF s1 _ xl(2) qh(1)] n len by (auto simp: V_def)
  obtain d1 b1 where o1: "overflowing_sub (u1 ! (j + n)) (ucast c) = (d1, b1)" by fastforce
  obtain d2 b2 where o2: "overflowing_sub d1 (of_bool br) = (d2, b2)" by fastforce
  define u2 where "u2 = u1[j + n := d2]"
  have k: "j + n < length u1" using n u1(1) by simp
  have "B64 ^ (n + j) * (unat d2 + unat c + of_bool br) =
      B64 ^ (n + j) * (unat (u1 ! (j + n)) + of_bool (b1 \<or> b2) * B64)"
    using sub_limb [OF o1 o2] u1(2) by (simp add: unat_ucast_small)
  moreover have "lval u2 + B64 ^ (n + j) * unat (u1 ! (j + n)) = lval u1 + B64 ^ (n + j) * unat d2"
    using lval_update [OF k, of d2] by (simp add: u2_def add.commute)
  ultimately have u2: "lval u2 + B64 ^ j * (unat qh * V) = lval u + of_bool (b1 \<or> b2) * B64 ^ Suc (n + j)"
    using u1(4) by (simp add: algebra_simps)
  have top_zero: "lval y < B64 ^ Suc (n + j)" if "length y = 9" "\<And>k. Suc (n + j) \<le> k \<Longrightarrow> y ! k = u ! k" for y
  proof -
    have "V * B64 ^ Suc j \<le> B64 ^ n * B64 ^ Suc j" using Vn by (intro mult_le_mono1) simp
    moreover have "B64 ^ n * B64 ^ Suc j = B64 ^ Suc (n + j)" by (simp add: power_add)
    ultimately have "lval u < B64 ^ Suc (n + j)" using U unfolding V_def [symmetric] by linarith
    then have "lval (drop (Suc (n + j)) u) = 0"
      using lval_drop [of "Suc (n + j)" u] lval_take_id [of u "Suc (n + j)"] n len by simp
    moreover have "drop (Suc (n + j)) y = drop (Suc (n + j)) u"
      using that len n by (intro nth_equalityI) auto
    ultimately have "lval y = lval (take (Suc (n + j)) y)"
      using lval_drop [of "Suc (n + j)" y] that n by simp
    then show ?thesis using lval_take_less [of "Suc (n + j)" y] that n by simp
  qed
  have u2l: "length u2 = 9" by (simp add: u2_def u1)
  have u2lt: "lval u2 < B64 ^ Suc (n + j)" by (rule top_zero) (simp_all add: u2_def u1)
  have final: "lval u' + D * V * B64 ^ j = lval u \<Longrightarrow> lval u' < V * B64 ^ j" for u' :: limbs
  proof -
    assume "lval u' + D * V * B64 ^ j = lval u"
    then have "lval u' = L + B64 ^ j * R" by (simp add: u DR(1) algebra_simps)
    moreover have "B64 ^ j * (R + 1) \<le> B64 ^ j * V" using DR(2) by (intro mult_le_mono2) simp
    ultimately show ?thesis using L by (simp add: algebra_simps)
  qed
  have digit: ?thesis if "q' = q[j := ucast d]" "unat (d::u128) = D" "length u' = 9"
    "lval u' + D * V * B64 ^ j = lval u" for d
  proof -
    have "D < B64" using qh by simp
    then have "lval q' = lval q + B64 ^ j * D"
      using lval_update [of j q "ucast d"] n len q0 that(1,2) by (simp add: unat_ucast_small)
    then have "lval u' + lval q' * V = lval u + lval q * V"
      unfolding that(4) [symmetric] by (simp add: algebra_simps)
    then show ?thesis using final [OF that(4)] that(1,3) len by (simp add: V_def)
  qed
  show ?thesis
  proof (cases "b1 \<or> b2")
    case False
    have "unat qh = D"
    proof (rule ccontr)
      assume "unat qh \<noteq> D"
      then have "unat qh = D + 1" using qh by simp
      then have "W + 1 \<le> unat qh * V" using DR by (simp add: algebra_simps)
      then have "B64 ^ j * (W + 1) \<le> B64 ^ j * (unat qh * V)" by (rule mult_le_mono2)
      then show False using u2 False L u by simp
    qed
    moreover have "q' = q[j := ucast qh]" "u' = u2"
      using st q1 q2 s1 o1 o2 False by (auto simp: div_round_def Let_def u2_def)
    ultimately show ?thesis using u2 u2l False by (intro digit [of qh]) (simp_all add: ac_simps)
  next
    case True
    have qD: "unat qh = D + 1"
    proof (rule ccontr)
      assume "unat qh \<noteq> D + 1"
      then have "unat qh = D" using qh by simp
      then have "lval u2 = L + B64 ^ j * R + B64 ^ Suc (n + j)"
        using u2 True DR(1) u by (simp add: algebra_simps)
      then show False using u2lt by simp
    qed
    have "1 \<le> qh" using qD by (simp add: word_le_nat_alt)
    then have q1D: "unat (qh - 1) = D" using qD by (simp add: unat_sub)
    obtain u3 c3 where s3: "for_up n (addback_round v j) (u2, 0) = (u3, c3)" by fastforce
    have u3: "length u3 = 9" "unat c3 < B64" "\<And>k. n + j \<le> k \<Longrightarrow> u3 ! k = u2 ! k"
      "lval u3 + unat c3 * B64 ^ (n + j) = lval u2 + B64 ^ j * V"
      using addback_correct [OF s3 _ xl(2)] n u2l by (auto simp: V_def)
    define u4 where "u4 = u3[j + n := u3 ! (j + n) + ucast c3]"
    have u': "q' = q[j := ucast (qh - 1)]" "u' = u4"
      using st q1 q2 s1 o1 o2 True s3 by (auto simp: div_round_def Let_def u2_def u4_def)
    have lt: "lval u4 < B64 ^ Suc (n + j)"
      by (rule top_zero) (simp_all add: u4_def u3 u2_def u1)
    define e where "e = (unat (u3 ! (j + n)) + unat c3) div B64"
    have "unat (u3 ! (j + n) + ucast c3) = (unat (u3 ! (j + n)) + unat c3) mod B64"
      using u3(2) by (simp add: unat_word_ariths unat_ucast_small) (simp add: B64_def)
    then have "unat (u3 ! (j + n)) + unat c3 = unat (u3 ! (j + n) + ucast c3) + e * B64"
      by (simp add: e_def)
    then have "B64 ^ (n + j) * (unat (u3 ! (j + n)) + unat c3) =
        B64 ^ (n + j) * (unat (u3 ! (j + n) + ucast c3) + e * B64)" by simp
    moreover have "lval u4 + B64 ^ (n + j) * unat (u3 ! (j + n)) =
        lval u3 + B64 ^ (n + j) * unat (u3 ! (j + n) + ucast c3)"
      using lval_update [of "j + n" u3 "u3 ! (j + n) + ucast c3"] n u3(1) by (simp add: u4_def add.commute)
    ultimately have "lval u4 + e * B64 ^ Suc (n + j) = lval u2 + B64 ^ j * V"
      using u3(4) by (simp add: algebra_simps)
    moreover have "lval u2 + B64 ^ j * V = L + B64 ^ j * R + B64 ^ Suc (n + j)"
      using u2 True DR(1) u by (simp add: qD algebra_simps)
    ultimately have eq: "lval u4 + e * B64 ^ Suc (n + j) = L + B64 ^ j * R + 1 * B64 ^ Suc (n + j)"
      by simp
    have "L + B64 ^ j * R < B64 ^ Suc (n + j)"
    proof -
      have "B64 ^ j * (R + 1) \<le> B64 ^ j * B64 ^ n" using DR(2) Vn by (intro mult_le_mono2) simp
      then have "L + B64 ^ j * R < B64 ^ (n + j)" using L by (simp add: power_add algebra_simps)
      also have "\<dots> \<le> B64 ^ Suc (n + j)" by (simp add: Suc_le_eq)
      finally show ?thesis .
    qed
    then have "lval u4 = L + B64 ^ j * R"
      using arg_cong [OF eq, of "\<lambda>t. t mod B64 ^ Suc (n + j)"] lt by (simp only: mod_mult_self1 mod_less)
    then have "lval u4 + D * V * B64 ^ j = lval u" by (simp add: u DR(1) algebra_simps)
    then show ?thesis using u3(1) u' q1D by (intro digit [of "qh - 1"]) (simp_all add: u4_def)
  qed
qed


section \<open>Shifting the operands\<close>

lemma shl_limb_split:
  assumes "s < 64"
  shows "unat (push_bit s (x::u64)) + unat (drop_bit (64 - s) x) * B64 = unat x * 2 ^ s"
    "unat (drop_bit (64 - s) x) < 2 ^ s"
proof -
  have B: "B64 = 2 ^ (64 - s) * 2 ^ s" using assms by (simp add: B64_def flip: power_add)
  have p: "unat (push_bit s x) = (unat x * 2 ^ s) mod B64"
  proof -
    have "unat (push_bit s x) = take_bit 64 (push_bit s (unat x))" by (simp only: unsigned_push_bit_eq) simp
    then show ?thesis by (simp only: take_bit_eq_mod push_bit_eq_mult B64_def)
  qed
  have t: "take_bit 64 (unat x) = unat x"
    using unsigned_less [of x] by (intro take_bit_nat_eq_self) simp
  have "unat (drop_bit (64 - s) x) = drop_bit (64 - s) (unat x)"
    by (simp only: unsigned_drop_bit_eq len_bit0 len_num1) (simp add: t)
  then have d: "unat (drop_bit (64 - s) x) = unat x div 2 ^ (64 - s)" by (simp only: drop_bit_eq_div)
  also have "\<dots> = (unat x * 2 ^ s) div B64" unfolding B by (subst div_mult_mult2) simp_all
  finally show "unat (push_bit s x) + unat (drop_bit (64 - s) x) * B64 = unat x * 2 ^ s"
    unfolding p by simp
  have "unat x < 2 ^ s * 2 ^ (64 - s)" using unat_less_B64 [of x] unfolding B by (simp add: mult.commute)
  then show "unat (drop_bit (64 - s) x) < 2 ^ s" unfolding d by (simp add: div_less_iff_less_mult)
qed

lemma unat_shl_limb:
  assumes "s < 64" "unat (lo::u64) < 2 ^ s"
  shows "unat (push_bit s (x::u64) OR lo) = unat (push_bit s x) + unat lo"
proof -
  have "push_bit s x AND lo = 0"
  proof (rule bit_word_eqI)
    fix i
    have "bit lo i \<Longrightarrow> i < s" using bit_nat_less [OF assms(2), of i] by (simp add: bit_unat)
    then show "bit (push_bit s x AND lo) i = bit (0::u64) i" by (auto simp: bit_simps)
  qed
  then have d: "push_bit s x OR lo = push_bit s x + lo" by (simp add: disjunctive_add_eq_or)
  have "unat (push_bit s x) AND unat lo = 0"
    using \<open>push_bit s x AND lo = 0\<close> by (metis unsigned_and_eq unsigned_0)
  then show ?thesis by (simp add: unsigned_or_eq disjunctive_add_eq_or)
qed

definition shl_carry :: "nat \<Rightarrow> limbs \<Rightarrow> nat \<Rightarrow> u64" where
  "shl_carry s x i = (if i > 0 \<and> s > 0 then drop_bit (64 - s) (x ! (i - 1)) else 0)"

lemma lval_shl_limbs:
  assumes "s < 64" "k \<le> length x"
  shows "lval (map (shl_limb s x) [0..<k]) + B64 ^ k * unat (shl_carry s x k) = lval (take k x) * 2 ^ s"
  using assms(2)
proof (induction k)
  case 0
  then show ?case by (simp add: shl_carry_def)
next
  case (Suc k)
  have lo: "unat (shl_carry s x k) < 2 ^ s"
    using shl_limb_split(2) [OF assms(1)] by (simp add: shl_carry_def)
  have "shl_limb s x k = push_bit s (x ! k) OR shl_carry s x k"
    using Suc.prems by (simp add: shl_limb_def shl_carry_def get_or_zero_def)
  then have l: "unat (shl_limb s x k) = unat (push_bit s (x ! k)) + unat (shl_carry s x k)"
    using unat_shl_limb [OF assms(1) lo] by simp
  have c: "unat (push_bit s (x ! k)) + unat (shl_carry s x (Suc k)) * B64 = unat (x ! k) * 2 ^ s"
    using shl_limb_split(1) [OF assms(1), of "x ! k"] by (auto simp: shl_carry_def)
  have "B64 ^ k * (unat (push_bit s (x ! k)) + unat (shl_carry s x (Suc k)) * B64) =
      B64 ^ k * (unat (x ! k) * 2 ^ s)" unfolding c ..
  then show ?case using Suc by (simp add: lval_snoc l lval_take_Suc algebra_simps)
qed

lemma lval_pad: "k \<le> m \<Longrightarrow> lval (map (\<lambda>i. if i < k then f i else 0) [0..<m]) = lval (map f [0..<k])"
proof -
  assume "k \<le> m"
  then have "[0..<m] = [0..<k] @ [k..<m]" by (metis le_add_diff_inverse upt_add_eq_append zero_le)
  moreover have "map (\<lambda>i. if i < k then f i else 0) [k..<m] = replicate (m - k) (0::u64)"
    by (rule nth_equalityI) auto
  moreover have "map (\<lambda>i. if i < k then f i else 0) [0..<k] = map f [0..<k]"
    by (rule map_cong) auto
  ultimately have "map (\<lambda>i. if i < k then f i else 0) [0..<m] = map f [0..<k] @ replicate (m - k) 0"
    by (simp only: map_append)
  then show ?thesis by (simp add: lval_append)
qed

lemma lval_dividend:
  assumes "s < 64" "length x = m"
  shows "lval (map (shl_limb s x) [0..<m + 1]) = lval x * 2 ^ s"
proof -
  have "shl_limb s x m = shl_carry s x m"
    using assms by (simp add: shl_limb_def shl_carry_def get_or_zero_def)
  then show ?thesis using lval_shl_limbs [OF assms(1), of m x] assms(2) by (simp add: lval_snoc)
qed

lemma lval_divisor:
  assumes "s < 64" "length x = n" "0 < n" "unat (x ! (n - 1)) * 2 ^ s < B64"
  shows "lval (map (shl_limb s x) [0..<n]) = lval x * 2 ^ s"
proof -
  have "unat (drop_bit (64 - s) (x ! (n - 1))) * B64 < 1 * B64"
    using shl_limb_split(1) [OF assms(1), of "x ! (n - 1)"] assms(4) by linarith
  then have "unat (drop_bit (64 - s) (x ! (n - 1))) < 1" by (simp only: mult_less_cancel2)
  then have "shl_carry s x n = 0" using assms(3) by (simp add: shl_carry_def unat_eq_0)
  then show ?thesis using lval_shl_limbs [OF assms(1), of n x] assms(2) by simp
qed

lemma lval_remainder:
  assumes "s < 64" "length u = 9" "n \<le> 8" "lval u < B64 ^ n"
  shows "lval (map (\<lambda>i. if i < n then shr_limb s u i else 0) [0..<8]) = lval u div 2 ^ s"
proof (rule bit_eqI)
  fix k :: nat
  have lt: "bit (lval u) i \<Longrightarrow> i < 64 * n" for i
    using assms(4) by (auto simp: B64_power dest: bit_nat_less)
  have eq: "shr_limb s u i = shr_bits u s ! i" if "i < 8" for i
    using assms(1,2) that by (simp add: shr_limb_def shr_bits_def get_or_zero_def MAX_LIMBS_def Let_def)
  obtain q r where k: "k = 64 * q + r" "r < 64" by (rule div_mod_64_cases)
  have sh: "bit (lval (shr_bits u s)) k \<longleftrightarrow> bit (lval u) (k + s)"
    using lt [of "k + s"] assms(3) by (auto simp: bit_shr_bits)
  show "bit (lval (map (\<lambda>i. if i < n then shr_limb s u i else 0) [0..<8])) k = bit (lval u div 2 ^ s) k"
  proof (cases "q < n")
    case True
    then have "bit (lval (map (\<lambda>i. if i < n then shr_limb s u i else 0) [0..<8])) k = bit (lval (shr_bits u s)) k"
      using k assms(3) by (simp add: bit_limb eq)
    then show ?thesis by (simp add: sh bit_sem_lshr)
  next
    case False
    then have "\<not> k + s < 64 * n" using k by simp
    then have "\<not> bit (lval u) (k + s)" using lt by blast
    moreover have "\<not> bit (lval (map (\<lambda>i. if i < n then shr_limb s u i else 0) [0..<8])) k"
      using False k by (simp add: bit_lval)
    ultimately show ?thesis by (simp add: bit_sem_lshr)
  qed
qed


section \<open>Unsigned division\<close>

lemma short_division:
  assumes d: "0 < unat d" "unat d < B64" and a: "length a = 8" "m \<le> 8"
    and st: "for_down m (short_round a d) (replicate 8 0, 0) = (q, r)"
  shows "length q = 8 \<and> lval q * unat d + unat r = lval (take m a) \<and> unat r < unat d"
proof -
  define I where "I = (\<lambda>i (q :: limbs, r :: u128). length q = 8 \<and> unat r < unat d \<and> (\<forall>k<i. q ! k = 0) \<and>
      lval q * unat d + unat r * B64 ^ i + lval (take i a) = lval (take m a))"
  have "I 0 (for_down m (short_round a d) (replicate 8 0, 0))"
  proof (rule for_down_inv)
    show "I m (replicate 8 0, 0)" using a d(1) by (simp add: I_def)
    fix i s
    assume i: "i < m" and "I (Suc i) s"
    obtain q r where s: "s = (q, r)" by fastforce
    have I: "length q = 8" "unat r < unat d" "\<And>k. k < Suc i \<Longrightarrow> q ! k = 0"
      "lval q * unat d + unat r * B64 ^ Suc i + lval (take (Suc i) a) = lval (take m a)"
      using \<open>I (Suc i) s\<close> by (auto simp: I_def s)
    define cur where "cur = push_bit 64 r OR ucast (a ! i)"
    have cur: "unat cur = unat r * B64 + unat (a ! i)"
      unfolding cur_def using I(2) d by (intro unat_push_64_or) simp
    have "(unat r + 1) * B64 \<le> unat d * B64" using I(2) by (intro mult_le_mono1) simp
    then have lt: "unat cur < unat d * B64" using unat_less_B64 [of "a ! i"] by (simp add: cur)
    define D R where "D = unat cur div unat d" and "R = unat cur mod unat d"
    have DR: "D * unat d + R = unat cur" "R < unat d" "D < B64"
      using d lt by (simp_all add: D_def R_def div_less_iff_less_mult mult.commute)
    have u: "unat (cur div d) = D" "unat (cur mod d) = R"
      by (simp_all add: unat_div_distrib unat_mod_distrib D_def R_def)
    then have uq: "unat (ucast (cur div d) :: u64) = D" using DR(3) by (simp add: unat_ucast_small)
    have f: "short_round a d i s = (q[i := ucast (cur div d)], cur mod d)"
      by (simp add: short_round_def s cur_def Let_def)
    have q: "lval (q[i := ucast (cur div d)]) = lval q + B64 ^ i * D"
      using lval_update [of i q "ucast (cur div d)"] i a(2) I(1,3) by (simp add: uq)
    have "B64 ^ i * (D * unat d + R) = B64 ^ i * (unat r * B64 + unat (a ! i))"
      using DR(1) cur by simp
    then have "(lval q + B64 ^ i * D) * unat d + R * B64 ^ i + lval (take i a) = lval (take m a)"
      using I(4) i a by (simp add: lval_take_Suc algebra_simps)
    then show "I i (short_round a d i s)" using I q DR(2) i a by (simp add: I_def f u nth_list_update)
  qed
  then show ?thesis by (simp add: st I_def)
qed

lemma significant_pos: "lval a \<noteq> 0 \<Longrightarrow> 0 < significant a"
  using lval_take_significant [of a 0] by (cases "significant a") auto

lemma significant_top: "0 < significant a \<Longrightarrow> a ! (significant a - 1) \<noteq> 0"
  by (rule significant_cases [of a]) auto

lemma lval_significant_less: "lval a < B64 ^ significant a"
  using lval_take_less [OF significant_le [of a]] lval_take_significant [of a "significant a"] by simp

lemma lval_significant_ge: "0 < significant a \<Longrightarrow> B64 ^ (significant a - 1) \<le> lval a"
proof -
  assume p: "0 < significant a"
  define k where "k = significant a - 1"
  have k: "significant a = Suc k" "k < length a" using p significant_le [of a] by (auto simp: k_def)
  have "lval a = lval (take k a) + B64 ^ k * unat (a ! k)"
    using lval_take_significant [of a "Suc k"] k by (simp add: lval_take_Suc)
  moreover have "1 \<le> unat (a ! k)" using significant_top [OF p] by (simp add: k_def Suc_le_eq unat_gt_0)
  then have "B64 ^ k * 1 \<le> B64 ^ k * unat (a ! k)" by (rule mult_le_mono2)
  ultimately have "B64 ^ k \<le> lval a" by linarith
  then show ?thesis by (simp add: k_def)
qed

lemma leading_zeros_norm:
  assumes "(x::u64) \<noteq> 0"
  shows "leading_zeros x < 64" "unat x * 2 ^ leading_zeros x < B64" "B64 \<le> 2 * (unat x * 2 ^ leading_zeros x)"
proof -
  define z where "z = leading_zeros x"
  note b = leading_zeros_bit [OF assms, folded z_def]
  show "leading_zeros x < 64" using b(1) by (simp add: z_def)
  have B: "B64 = 2 ^ (64 - z) * 2 ^ z" using b(1) by (simp add: B64_def flip: power_add)
  have "unat x < 2 ^ (64 - z)"
  proof (rule less_power_bits)
    fix i assume "bit (unat x) i"
    then have "\<not> 63 - z < i" using b(3) [of i] by (auto simp: bit_unat)
    then show "i < 64 - z" using b(1) by linarith
  qed
  then have "unat x * 2 ^ z < 2 ^ (64 - z) * 2 ^ z" by (rule mult_strict_right_mono) simp
  then show "unat x * 2 ^ leading_zeros x < B64" by (simp only: B z_def)
  have "2 ^ (63 - z) \<le> unat x"
  proof (rule ccontr)
    assume "\<not> 2 ^ (63 - z) \<le> unat x"
    then show False using bit_nat_less [of "unat x" "63 - z" "63 - z"] b(2) by (simp add: bit_unat not_le)
  qed
  then have "2 ^ (63 - z) * (2 * 2 ^ z) \<le> unat x * (2 * 2 ^ z)" by (rule mult_le_mono1)
  moreover have "2 ^ (63 - z) * (2 * 2 ^ z) = B64"
  proof -
    have "63 - z + Suc z = 64" using b(1) by simp
    then show ?thesis by (simp only: power_Suc [symmetric] power_add [symmetric] B64_def)
  qed
  ultimately show "B64 \<le> 2 * (unat x * 2 ^ leading_zeros x)" unfolding z_def [symmetric] by linarith
qed


lemma long_division:
  assumes v: "length v = 8" "2 \<le> n" "n + k \<le> 8" "B64 \<le> 2 * unat (v ! (n - 1))"
    and u: "length u = 9" "lval u < lval (take n v) * B64 ^ (k + 1)"
    and st: "for_down (k + 1) (div_round n v) (replicate 8 0, u) = (q, r)"
  shows "length q = 8 \<and> length r = 9 \<and> lval r < lval (take n v) \<and> lval r + lval q * lval (take n v) = lval u"
proof -
  define I where "I = (\<lambda>i (q :: limbs, r :: limbs). length q = 8 \<and> length r = 9 \<and> (\<forall>j<i. q ! j = 0) \<and>
      lval r < lval (take n v) * B64 ^ i \<and> lval r + lval q * lval (take n v) = lval u)"
  have "I 0 (for_down (k + 1) (div_round n v) (replicate 8 0, u))"
  proof (rule for_down_inv)
    show "I (k + 1) (replicate 8 0, u)" using u v by (simp add: I_def)
    fix i s
    assume i: "i < k + 1" and I: "I (Suc i) s"
    obtain q r where s: "s = (q, r)" by fastforce
    obtain q' r' where f: "div_round n v i (q, r) = (q', r')" by fastforce
    show "I i (div_round n v i s)"
      using div_round_correct [OF v(2) _ v(1) _ _ v(4) _ _ f] I i v(3) by (auto simp: I_def s f)
  qed
  then show ?thesis unfolding st I_def by simp
qed

theorem wide_udivrem_nonzero:
  assumes a: "length a = 8" and b: "length b = 8" "lval b \<noteq> 0"
  shows "length (fst (wide_udivrem w a b)) = 8 \<and> length (snd (wide_udivrem w a b)) = 8 \<and>
    lval (fst (wide_udivrem w a b)) = lval a div lval b \<and>
    lval (snd (wide_udivrem w a b)) = lval a mod lval b"
proof -
  define m n where "m = significant a" and "n = significant b"
  have n0: "0 < n" using significant_pos b(2) by (simp add: n_def)
  have mn8: "m \<le> 8" "n \<le> 8" using significant_le [of a] significant_le [of b] a b by (simp_all add: m_def n_def)
  have am: "lval a < B64 ^ m" "lval (take m a) = lval a"
    by (simp_all add: m_def lval_significant_less lval_take_significant)
  have bn: "B64 ^ (n - 1) \<le> lval b" "lval (take n b) = lval b"
    using n0 by (simp_all add: n_def lval_significant_ge [simplified] lval_take_significant)
  have z: "\<not> wide_is_zero b" using b(2) by (simp add: wide_is_zero_iff)
  have fin: ?thesis if "wide_udivrem w a b = (q, r)" "length q = 8" "length r = 8"
    "lval q * lval b + lval r = lval a" "lval r < lval b" for q r
    using that(1-3,5) b(2) by (simp add: that(4) [symmetric])
  consider (lt) "m < n" | (one) "\<not> m < n" "n = 1" | (long) "n \<le> m" "2 \<le> n" using n0 by linarith
  then show ?thesis
  proof cases
    case lt
    have "B64 ^ m \<le> B64 ^ (n - 1)" using lt by (intro power_increasing) (auto simp: Suc_le_eq)
    then have "lval a < lval b" using am bn by linarith
    then show ?thesis using lt a
      by (intro fin [of zero_limbs a]) (simp_all add: wide_udivrem_def z m_def n_def Let_def MAX_LIMBS_def)
  next
    case one
    have b0: "lval b = unat (b ! 0)" using bn(2) b(1) one by (cases b) simp_all
    obtain q r where st: "for_down m (short_round a (ucast (b ! 0))) (replicate 8 0, 0) = (q, r)" by fastforce
    have "length q = 8 \<and> lval q * lval b + unat r = lval a \<and> unat r < lval b"
      using short_division [OF _ _ a mn8(1) st] b(2) unat_less_B64 [of "b ! 0"] am by (simp add: b0)
    moreover have "wide_udivrem w a b = (q, small (ucast r))"
      using one st by (simp add: wide_udivrem_def z m_def n_def Let_def MAX_LIMBS_def)
    moreover have "unat r < lval b \<Longrightarrow> unat (ucast r :: u64) = unat r"
      using unat_less_B64 [of "b ! 0"] by (intro unat_ucast_small) (simp add: b0)
    ultimately show ?thesis by (intro fin [of q "small (ucast r)"]) (simp_all add: lval_small)
  next
    case long
    define s where "s = leading_zeros (b ! (n - 1))"
    define v where "v = map (\<lambda>i. if i < n then shl_limb s (take n b) i else 0) [0..<8]"
    define u where "u = map (\<lambda>i. if i < m + 1 then shl_limb s (take m a) i else 0) [0..<9]"
    have "b ! (n - 1) \<noteq> 0" using significant_top [of b] n0 by (simp add: n_def)
    note s = leading_zeros_norm [OF this, folded s_def]
    have V: "lval v = lval b * 2 ^ s"
      using lval_divisor [OF s(1), of "take n b" n] lval_pad [OF mn8(2)] n0 b(1) mn8 s(2) bn(2)
      by (simp add: v_def min.absorb2)
    have U: "lval u = lval a * 2 ^ s"
      using lval_dividend [OF s(1), of "take m a" m] lval_pad [of "m + 1" 9] a mn8 am(2)
      by (simp add: u_def min.absorb2 del: upt_Suc)
    have tn: "lval (take n v) = lval v" by (rule lval_take_all) (simp add: v_def)
    have vn: "B64 \<le> 2 * unat (v ! (n - 1))"
    proof -
      have "v ! (n - 1) = shl_limb s (take n b) (n - 1)" using n0 mn8 by (simp add: v_def)
      then have "unat (push_bit s (b ! (n - 1))) \<le> unat (v ! (n - 1))"
        using n0 b(1) mn8 shl_limb_split(2) [OF s(1)]
        by (auto simp: shl_limb_def get_or_zero_def Let_def unat_shl_limb [OF s(1)])
      moreover have "unat (push_bit s (b ! (n - 1))) = unat (b ! (n - 1)) * 2 ^ s"
      proof -
        have "unat (drop_bit (64 - s) (b ! (n - 1))) * B64 < 1 * B64"
          using shl_limb_split(1) [OF s(1), of "b ! (n - 1)"] s(2) by linarith
        then have "unat (drop_bit (64 - s) (b ! (n - 1))) < 1" by (simp only: mult_less_cancel2)
        then show ?thesis using shl_limb_split(1) [OF s(1), of "b ! (n - 1)"] by simp
      qed
      ultimately show ?thesis using s(3) by linarith
    qed
    have lt: "lval u < lval (take n v) * B64 ^ (m - n + 1)"
    proof -
      have "B64 ^ (n - 1) * B64 ^ (m - n + 1) = B64 ^ m"
      proof -
        have "n - 1 + (m - n + 1) = m" using long n0 by simp
        then show ?thesis by (simp only: power_add [symmetric])
      qed
      then have "B64 ^ m \<le> lval b * B64 ^ (m - n + 1)" using bn(1) by (metis mult_le_mono1)
      then have "lval a < lval b * B64 ^ (m - n + 1)" using am(1) by linarith
      then have "lval a * 2 ^ s < lval b * B64 ^ (m - n + 1) * 2 ^ s" by simp
      then show ?thesis by (simp only: tn U V ac_simps)
    qed
    obtain q r where st: "for_down (m - n + 1) (div_round n v) (replicate 8 0, u) = (q, r)" by fastforce
    have D: "length q = 8" "length r = 9" "lval r < lval b * 2 ^ s" "lval r + lval q * (lval b * 2 ^ s) = lval a * 2 ^ s"
      using long_division [OF _ long(2) _ vn _ lt st] mn8 long by (auto simp: tn U V) (simp_all add: v_def u_def)
    have "lval r < B64 ^ n" using D(3) tn V lval_take_less [of n v] mn8 by (simp add: v_def [THEN arg_cong [where f = length]])
    then have R: "lval (map (\<lambda>i. if i < n then shr_limb s r i else 0) [0..<8]) = lval r div 2 ^ s"
      using lval_remainder [OF s(1) D(2) mn8(2)] by simp
    define R where "R = lval r div 2 ^ s"
    have "2 ^ s dvd lval r" using D(4) by (metis dvd_add_left_iff dvd_mult dvd_triv_right)
    then have r: "lval r = R * 2 ^ s" by (simp add: R_def)
    have "long_div m n a b = (q, map (\<lambda>i. if i < n then shr_limb s r i else 0) [0..<8])"
    proof -
      have M: "MAX_LIMBS = 8" "8 + 1 = (9::nat)" by (simp_all add: MAX_LIMBS_def)
      show ?thesis
        unfolding long_div_def Let_def by (simp only: M s_def [symmetric] v_def [symmetric] u_def [symmetric] st prod.case)
    qed
    then have "wide_udivrem w a b = (q, map (\<lambda>i. if i < n then shr_limb s r i else 0) [0..<8])"
      using long z by (simp add: wide_udivrem_def Let_def flip: m_def n_def)
    moreover have "(lval q * lval b + R) * 2 ^ s = lval a * 2 ^ s"
      using D(4) r by (simp add: algebra_simps)
    then have "lval q * lval b + R = lval a" by simp
    moreover have "R < lval b" using D(3) r by simp
    ultimately show ?thesis using D(1) R
      by (intro fin [of q "map (\<lambda>i. if i < n then shr_limb s r i else 0) [0..<8]"]) (simp_all add: R_def)
  qed
qed


text \<open>Both results, with the zero-divisor conventions.\<close>

lemma wide_udivrem_correct:
  assumes "width_ok w" "limbs_ok w a" "limbs_ok w b"
  shows "lval (fst (wide_udivrem w a b)) = sem_bin BUDiv w (lval a) (lval b) \<and>
    lval (snd (wide_udivrem w a b)) = sem_bin BURem w (lval a) (lval b) \<and>
    limbs_ok w (fst (wide_udivrem w a b)) \<and> limbs_ok w (snd (wide_udivrem w a b))"
proof (cases "lval b = 0")
  case True
  then have "wide_udivrem w a b = (wide_ones w, a)" by (simp add: wide_udivrem_def wide_is_zero_iff)
  moreover have "limbs_ok w (wide_ones w)"
    unfolding wide_ones_def using assms(1) by (rule mask_top_ok) (simp add: MAX_LIMBS_def)
  ultimately show ?thesis
    using assms True width_okD [OF assms(1)] by (simp add: sem_bin_def lval_wide_ones)
next
  case False
  note d = wide_udivrem_nonzero [OF limbs_ok_length [OF assms(2)] limbs_ok_length [OF assms(3)] False]
  have "lval a div lval b < 2 ^ w" "lval a mod lval b < 2 ^ w"
    using limbs_ok_less [OF assms(2)] limbs_ok_less [OF assms(3)] False
    by (auto intro: le_less_trans [OF div_le_dividend] less_trans [OF mod_less_divisor])
  then show ?thesis using d False by (simp add: sem_bin_def limbs_ok_def MAX_LIMBS_def)
qed


section \<open>Signed division\<close>

lemma sem_neg_int: "a < 2 ^ w \<Longrightarrow> sem_un UNeg w a = sem_of_int w (- int a)"
proof -
  assume a: "a < 2 ^ w"
  have "sem_bin BSub w 0 a = sem_of_int w (int 0 - int a)" by (rule sem_sub_int [OF a])
  then show ?thesis by (simp add: sem_bin_def sem_un_def)
qed

text \<open>The magnitude of a value, as the signed operators compute it.\<close>

lemma sem_neg_abs:
  assumes "0 < w" "a < 2 ^ w"
  shows "int (if bit a (w - 1) then sem_un UNeg w a else a) = \<bar>sem_signed w a\<bar>"
proof -
  have "int a < 2 ^ w" using assms(2) by simp
  moreover have "0 < a" if "bit a (w - 1)" using that by (cases a) auto
  ultimately show ?thesis
    using assms(2) by (auto simp: sem_signed_def sem_un_def of_nat_diff)
qed

lemma sem_signed_neg_iff: "a < 2 ^ w \<Longrightarrow> sem_signed w a < 0 \<longleftrightarrow> bit a (w - 1)"
proof -
  assume "a < 2 ^ w"
  then have "int a < 2 ^ w" by simp
  then show ?thesis by (simp add: sem_signed_def)
qed

lemma sem_signed_eq_0: "a < 2 ^ w \<Longrightarrow> sem_signed w a = 0 \<longleftrightarrow> a = 0"
  using sem_of_int_signed [of a w] by (cases a) (auto simp: sem_of_int_def sem_signed_def)

lemma sem_neg_of_int: "sem_un UNeg w (sem_of_int w x) = sem_of_int w (- x)"
  unfolding sem_neg_int [OF sem_of_int_less]
  by (rule sem_of_int_eqI) (simp add: int_sem_of_int mod_minus_eq)

lemma trunc_div_cases:
  "trunc_div x y = (if x < 0 \<longleftrightarrow> y < 0 then \<bar>x\<bar> div \<bar>y\<bar> else - (\<bar>x\<bar> div \<bar>y\<bar>))"
  by (cases x "0::int" rule: linorder_cases; cases y "0::int" rule: linorder_cases)
    (simp_all add: trunc_div_def)

lemma trunc_rem_cases:
  "trunc_rem x y = (if x < 0 then - (\<bar>x\<bar> mod \<bar>y\<bar>) else \<bar>x\<bar> mod \<bar>y\<bar>)"
proof -
  have "\<bar>x\<bar> mod \<bar>y\<bar> = \<bar>x\<bar> - \<bar>y\<bar> * (\<bar>x\<bar> div \<bar>y\<bar>)" by (simp add: minus_mult_div_eq_mod)
  then show ?thesis unfolding trunc_rem_def trunc_div_cases by (auto simp: abs_if)
qed

text \<open>The signed operators as the kernels compute them: on magnitudes, then negated.\<close>

definition sem_abs :: "nat \<Rightarrow> nat \<Rightarrow> nat" where
  "sem_abs w a = (if bit a (w - 1) then sem_un UNeg w a else a)"

lemma sem_abs_eq: "0 < w \<Longrightarrow> a < 2 ^ w \<Longrightarrow> int (sem_abs w a) = \<bar>sem_signed w a\<bar>"
  unfolding sem_abs_def by (rule sem_neg_abs)

lemma sem_abs_eq_0: "0 < w \<Longrightarrow> a < 2 ^ w \<Longrightarrow> sem_abs w a = 0 \<longleftrightarrow> a = 0"
  using sem_abs_eq [of w a] sem_signed_eq_0 [of a w] by auto

lemma sem_abs_less: "a < 2 ^ w \<Longrightarrow> sem_abs w a < 2 ^ w"
  by (simp add: sem_abs_def sem_un_def)

lemma sem_sdiv_parts:
  assumes "0 < w" "a < 2 ^ w" "b < 2 ^ w"
  shows "sem_bin BSDiv w a b =
    (let q = sem_bin BUDiv w (sem_abs w a) (sem_abs w b)
     in if bit a (w - 1) = bit b (w - 1) then q else sem_un UNeg w q)"
proof (cases "b = 0")
  case True
  then show ?thesis
    using one_less_power [of "2::nat" w] assms(1) by (simp add: sem_bin_def sem_abs_def sem_un_def)
next
  case False
  define q where "q = sem_abs w a div sem_abs w b"
  have "sem_abs w b \<noteq> 0" using sem_abs_eq_0 [OF assms(1,3)] False by simp
  then have u: "sem_bin BUDiv w (sem_abs w a) (sem_abs w b) = q" by (simp add: sem_bin_def q_def)
  have q: "int q = \<bar>sem_signed w a\<bar> div \<bar>sem_signed w b\<bar>" "q < 2 ^ w"
    using sem_abs_eq [OF assms(1,2)] sem_abs_eq [OF assms(1,3)] sem_abs_less [OF assms(2)]
    by (simp_all add: q_def zdiv_int le_less_trans [OF div_le_dividend])
  have "q = sem_of_int w (\<bar>sem_signed w a\<bar> div \<bar>sem_signed w b\<bar>)"
    using q(2) by (simp add: sem_of_int_of_nat flip: q(1))
  then show ?thesis
    unfolding u Let_def sem_neg_int [OF q(2)] q(1)
    using False assms by (simp add: sem_bin_def trunc_div_cases sem_signed_neg_iff)
qed

lemma sem_srem_parts:
  assumes "0 < w" "a < 2 ^ w" "b < 2 ^ w"
  shows "sem_bin BSRem w a b =
    (let r = sem_bin BURem w (sem_abs w a) (sem_abs w b)
     in if bit a (w - 1) then sem_un UNeg w r else r)"
proof (cases "b = 0")
  case True
  have a: "a = sem_of_int w (sem_signed w a)" using assms by simp
  have "sem_abs w a = a \<or> bit a (w - 1)" by (simp add: sem_abs_def)
  moreover have "sem_un UNeg w (sem_abs w a) = sem_of_int w (- \<bar>sem_signed w a\<bar>)"
    using sem_abs_eq [OF assms(1,2)] sem_abs_less [OF assms(2)] by (simp add: sem_neg_int)
  ultimately show ?thesis
    using True a sem_signed_neg_iff [OF assms(2)] by (auto simp: sem_bin_def sem_abs_def abs_if)
next
  case False
  define r where "r = sem_abs w a mod sem_abs w b"
  have "sem_abs w b \<noteq> 0" using sem_abs_eq_0 [OF assms(1,3)] False by simp
  then have u: "sem_bin BURem w (sem_abs w a) (sem_abs w b) = r" by (simp add: sem_bin_def r_def)
  have r: "int r = \<bar>sem_signed w a\<bar> mod \<bar>sem_signed w b\<bar>" "r < 2 ^ w"
    using sem_abs_eq [OF assms(1,2)] sem_abs_eq [OF assms(1,3)] sem_abs_less [OF assms(2)]
    by (simp_all add: r_def zmod_int le_less_trans [OF mod_less_eq_dividend])
  have "r = sem_of_int w (\<bar>sem_signed w a\<bar> mod \<bar>sem_signed w b\<bar>)"
    using r(2) by (simp add: sem_of_int_of_nat flip: r(1))
  then show ?thesis
    unfolding u Let_def sem_neg_int [OF r(2)] r(1)
    using False assms by (simp add: sem_bin_def trunc_rem_cases sem_signed_neg_iff)
qed

lemma wide_abs:
  assumes "width_ok w" "limbs_ok w a"
  shows "lval (if bit (lval a) (w - 1) then wide_neg w a else a) = sem_abs w (lval a)"
    "limbs_ok w (if bit (lval a) (w - 1) then wide_neg w a else a)"
  using wide_neg_correct [OF assms] assms by (simp_all add: sem_abs_def)

lemma wide_sdiv_correct:
  assumes "width_ok w" "limbs_ok w a" "limbs_ok w b"
  shows "lval (wide_sdiv w a b) = sem_bin BSDiv w (lval a) (lval b) \<and> limbs_ok w (wide_sdiv w a b)"
proof -
  define q where "q = fst (wide_udivrem w (if bit (lval a) (w - 1) then wide_neg w a else a)
    (if bit (lval b) (w - 1) then wide_neg w b else b))"
  have q: "lval q = sem_bin BUDiv w (sem_abs w (lval a)) (sem_abs w (lval b))" "limbs_ok w q"
    using wide_udivrem_correct [OF assms(1) wide_abs(2) wide_abs(2)] wide_abs(1) assms
    by (simp_all add: q_def)
  have "wide_sdiv w a b = (if bit (lval a) (w - 1) = bit (lval b) (w - 1) then q else wide_neg w q)"
    by (auto simp: wide_sdiv_def Let_def wide_msb_ok assms q_def split: bool.splits)
  then show ?thesis
    using q wide_neg_correct [OF assms(1) q(2)] assms
    by (simp add: sem_sdiv_parts width_okD limbs_ok_less Let_def)
qed

lemma wide_srem_correct:
  assumes "width_ok w" "limbs_ok w a" "limbs_ok w b"
  shows "lval (wide_srem w a b) = sem_bin BSRem w (lval a) (lval b) \<and> limbs_ok w (wide_srem w a b)"
proof -
  define r where "r = snd (wide_udivrem w (if bit (lval a) (w - 1) then wide_neg w a else a)
    (if bit (lval b) (w - 1) then wide_neg w b else b))"
  have r: "lval r = sem_bin BURem w (sem_abs w (lval a)) (sem_abs w (lval b))" "limbs_ok w r"
    using wide_udivrem_correct [OF assms(1) wide_abs(2) wide_abs(2)] wide_abs(1) assms
    by (simp_all add: r_def)
  have "wide_srem w a b = (if bit (lval a) (w - 1) then wide_neg w r else r)"
    by (auto simp: wide_srem_def Let_def wide_msb_ok assms r_def split: bool.splits)
  then show ?thesis
    using r wide_neg_correct [OF assms(1) r(2)] assms
    by (simp add: sem_srem_parts width_okD limbs_ok_less Let_def)
qed


section \<open>Property\<close>

text \<open>
  C1: the multi-limb division (short division, or Knuth's algorithm D with its estimate,
  correction and add-back) returns the exact quotient and remainder in canonical limbs, and
  all ones with the dividend for a zero divisor.
\<close>

theorem udivrem_is_division:
  assumes "width_ok w" "limbs_ok w a" "limbs_ok w b"
  shows "case wide_udivrem w a b of (q, r) \<Rightarrow> limbs_ok w q \<and> limbs_ok w r \<and>
    (if lval b = 0 then lval q = 2 ^ w - 1 \<and> lval r = lval a
     else lval q = lval a div lval b \<and> lval r = lval a mod lval b)"
  using wide_udivrem_correct [OF assms] by (auto simp: sem_bin_def split_def)

theorem udivrem_is_division_witness:
  "case wide_udivrem 192 [0, 0, 7, 0, 0, 0, 0, 0] [1, 3, 0, 0, 0, 0, 0, 0] of (q, r) \<Rightarrow>
     lval q = 43042402838655620436 \<and> lval r = 30744573456182586028"
  using udivrem_is_division [of 192 "[0, 0, 7, 0, 0, 0, 0, 0]" "[1, 3, 0, 0, 0, 0, 0, 0]"]
  by (simp add: width_ok_def limbs_ok_def MAX_LIMBS_def B64_def split_def)

end
