(* ===== verification/Kernel.thy ===== *)
theory Kernel
  imports Semantics
begin

unbundle bit_operations_syntax

text \<open>
  The contract of an evaluator of the bit-vector operators, as a locale: a family of
  representations with an invariant per width and a value, whose operators compute the
  specification of \<open>Semantics\<close>. The limb kernel (\<open>value/wide.rs\<close>), the native kernel
  (\<open>value/narrow.rs\<close>), the dispatching \<open>BitVec\<close> operators (\<open>value/mod.rs\<close>) and the
  bit-serial reference evaluator (\<open>bitwright-ref\<close>) each interpret it; the algebraic laws
  their clients rely on are proved once, here.
\<close>

section \<open>Algebra of the specification\<close>

lemma sem_bin_commute: "bin_is_commutative op \<Longrightarrow> sem_bin op w a b = sem_bin op w b a"
  by (cases op) (simp_all add: bin_is_commutative_def sem_bin_def ac_simps)

lemma sem_cmp_commute: "cmp_is_commutative op \<Longrightarrow> sem_cmp op w a b = sem_cmp op w b a"
  by (cases op) (auto simp: cmp_is_commutative_def sem_cmp_def)

lemma sem_not_not: "a < 2 ^ w \<Longrightarrow> sem_un UNot w (sem_un UNot w a) = a"
  by (simp add: sem_un_def)

lemma sem_neg_neg: "a < 2 ^ w \<Longrightarrow> sem_un UNeg w (sem_un UNeg w a) = a"
  by (cases "a = 0") (simp_all add: sem_un_def)

lemma sem_bitrev_bitrev: "a < 2 ^ w \<Longrightarrow> sem_un UBitRev w (sem_un UBitRev w a) = a"
  by (rule bit_eqI) (auto simp: sem_un_def dest: bit_nat_less)

lemma sem_bswap_bswap:
  assumes "a < 2 ^ w" "w mod 8 = 0"
  shows "sem_un UBswap w (sem_un UBswap w a) = a"
proof (rule bit_eqI)
  fix i :: nat
  obtain k where w: "w = 8 * k" using assms(2) by auto
  have k: "w div 8 = k" using w by simp
  have j: "i < w \<Longrightarrow> (k - 1 - i div 8) * 8 + i mod 8 < w"
    "i < w \<Longrightarrow> ((k - 1 - i div 8) * 8 + i mod 8) div 8 = k - 1 - i div 8"
    "((k - 1 - i div 8) * 8 + i mod 8) mod 8 = i mod 8"
    "i < w \<Longrightarrow> (k - 1 - (k - 1 - i div 8)) * 8 + i mod 8 = i"
  proof -
    assume i: "i < w"
    have q: "i div 8 < k" using i w by (simp add: less_mult_imp_div_less mult.commute)
    have "(k - 1 - i div 8) * 8 + i mod 8 < Suc (k - 1 - i div 8) * 8" by simp
    also have "\<dots> \<le> k * 8" using q by (intro mult_le_mono1) simp
    finally show "(k - 1 - i div 8) * 8 + i mod 8 < w" using w by (simp add: mult.commute)
    show "((k - 1 - i div 8) * 8 + i mod 8) div 8 = k - 1 - i div 8" by simp
    show "(k - 1 - (k - 1 - i div 8)) * 8 + i mod 8 = i" using q by simp
  qed simp
  show "bit (sem_un UBswap w (sem_un UBswap w a)) i = bit a i"
    using j assms(1) by (auto simp: sem_un_def k dest: bit_nat_less)
qed

lemma sem_sub_add:
  assumes "a < 2 ^ w" "b < 2 ^ w"
  shows "sem_bin BAdd w (sem_bin BSub w a b) b = a"
proof -
  have "sem_bin BAdd w (sem_bin BSub w a b) b = (a + (2 ^ w - b) + b) mod 2 ^ w"
    by (simp add: sem_bin_def mod_simps)
  also have "a + (2 ^ w - b) + b = a + 2 ^ w" using assms by simp
  finally show ?thesis using assms by simp
qed

lemma sem_sub_neg: "sem_bin BSub w a b = sem_bin BAdd w a (sem_un UNeg w b)"
  by (simp add: sem_bin_def sem_un_def mod_simps)

lemma sem_de_morgan:
  assumes "a < 2 ^ w" "b < 2 ^ w"
  shows "sem_un UNot w (sem_bin BAnd w a b) = sem_bin BOr w (sem_un UNot w a) (sem_un UNot w b)"
proof (rule bit_eqI)
  fix i :: nat
  have "a AND b < 2 ^ w" using assms(1) by (intro less_power_bits) (auto simp: bit_simps dest: bit_nat_less)
  then show "bit (sem_un UNot w (sem_bin BAnd w a b)) i = bit (sem_bin BOr w (sem_un UNot w a) (sem_un UNot w b)) i"
    using assms by (auto simp: sem_un_def bit_sem_not sem_bin_def bit_simps)
qed

lemma sem_xor_cancel: "sem_bin BXor w (sem_bin BXor w a b) b = a"
  by (simp add: sem_bin_def xor.assoc)

lemma sem_udiv_urem:
  assumes "a < 2 ^ w"
  shows "sem_bin BAdd w (sem_bin BMul w (sem_bin BUDiv w a b) b) (sem_bin BURem w a b) = a"
  using assms by (simp add: sem_bin_def mod_simps)

lemma sem_of_int_add_mul:
  "sem_bin BAdd w (sem_bin BMul w (sem_of_int w x) (sem_of_int w y)) (sem_of_int w z) = sem_of_int w (x * y + z)"
proof -
  have "int (sem_bin BAdd w (sem_bin BMul w (sem_of_int w x) (sem_of_int w y)) (sem_of_int w z)) =
      int (sem_of_int w (x * y + z))"
    by (simp only: sem_bin_def BinOp.case int_sem_of_int zmod_int of_nat_add of_nat_mult of_nat_power of_nat_numeral)
      (simp only: mod_add_left_eq mod_add_right_eq mod_mult_eq)
  then show ?thesis by simp
qed

lemma sem_sdiv_srem:
  assumes "0 < w" "a < 2 ^ w" "b < 2 ^ w"
  shows "sem_bin BAdd w (sem_bin BMul w (sem_bin BSDiv w a b) b) (sem_bin BSRem w a b) = a"
proof (cases "b = 0")
  case True
  then show ?thesis using assms by (simp add: sem_bin_def)
next
  case False
  then have "sem_bin BAdd w (sem_bin BMul w (sem_bin BSDiv w a b) (sem_of_int w (sem_signed w b)))
      (sem_bin BSRem w a b) =
    sem_of_int w (trunc_div (sem_signed w a) (sem_signed w b) * sem_signed w b +
      trunc_rem (sem_signed w a) (sem_signed w b))"
    by (subst sem_of_int_add_mul [symmetric]) (simp add: sem_bin_def)
  then show ?thesis using assms by (simp add: trunc_rem_def algebra_simps)
qed

lemma sem_rotr_rotl:
  assumes "0 < w" "a < 2 ^ w"
  shows "sem_bin BRotR w (sem_bin BRotL w a b) b = a"
proof (rule bit_eqI)
  fix i :: nat
  have "((i + b mod w) mod w + (w - b mod w)) mod w = i" if "i < w"
  proof -
    have "b mod w \<le> w" using assms(1) by (simp add: less_imp_le)
    then have "((i + b mod w) mod w + (w - b mod w)) mod w = (i + w) mod w"
      by (subst mod_add_left_eq) (simp only: add.assoc le_add_diff_inverse)
    then show ?thesis using that by simp
  qed
  then show "bit (sem_bin BRotR w (sem_bin BRotL w a b) b) i = bit a i"
    using assms by (auto simp: sem_bin_def dest: bit_nat_less)
qed

lemma sem_pdep_pext:
  assumes "a < 2 ^ w" "m < 2 ^ w"
  shows "sem_bin BPdep w (sem_bin BPext w a m) m = a AND m"
proof (rule bit_eqI)
  fix i :: nat
  have "rank_below m i < w" if "i < w" using rank_below_le [of m i] that by simp
  moreover have "(\<exists>j\<in>{0..<w}. bit m j \<and> rank_below m j = rank_below m i \<and> bit a j) \<longleftrightarrow> bit a i"
    if "bit m i"
    using that bit_nat_less [OF assms(2) that] by (auto dest: rank_below_inj)
  ultimately show "bit (sem_bin BPdep w (sem_bin BPext w a m) m) i = bit (a AND m) i"
    using assms by (auto simp: sem_bin_def bit_and_iff dest: bit_nat_less)
qed

lemma sem_cmp_total:
  "sem_cmp CUle w a b \<longleftrightarrow> \<not> sem_cmp CUlt w b a" "sem_cmp CSle w a b \<longleftrightarrow> \<not> sem_cmp CSlt w b a"
  "sem_cmp CNe w a b \<longleftrightarrow> \<not> sem_cmp CEq w a b"
  by (auto simp: sem_cmp_def)

section \<open>The contract\<close>

locale bv_kernel =
  fixes widths :: "nat \<Rightarrow> bool"
    and ok :: "nat \<Rightarrow> 'a \<Rightarrow> bool"
    and val :: "'a \<Rightarrow> nat"
    and un :: "UnOp \<Rightarrow> nat \<Rightarrow> 'a \<Rightarrow> 'a"
    and bin :: "BinOp \<Rightarrow> nat \<Rightarrow> 'a \<Rightarrow> 'a \<Rightarrow> 'a"
    and supported :: "BinOp \<Rightarrow> nat \<Rightarrow> bool"
    and cmp :: "CmpOp \<Rightarrow> nat \<Rightarrow> 'a \<Rightarrow> 'a \<Rightarrow> bool"
  assumes widths: "widths w \<Longrightarrow> width_ok w"
    and val_less: "widths w \<Longrightarrow> ok w a \<Longrightarrow> val a < 2 ^ w"
    and val_inj: "widths w \<Longrightarrow> ok w a \<Longrightarrow> ok w b \<Longrightarrow> val a = val b \<Longrightarrow> a = b"
    and un_law: "widths w \<Longrightarrow> ok w a \<Longrightarrow> (uop = UBswap \<longrightarrow> w mod 8 = 0) \<Longrightarrow>
      ok w (un uop w a) \<and> val (un uop w a) = sem_un uop w (val a)"
    and bin_law: "widths w \<Longrightarrow> ok w a \<Longrightarrow> ok w b \<Longrightarrow> supported op w \<Longrightarrow>
      ok w (bin op w a b) \<and> val (bin op w a b) = sem_bin op w (val a) (val b)"
    and cmp_law: "widths w \<Longrightarrow> ok w a \<Longrightarrow> ok w b \<Longrightarrow>
      cmp cop w a b = sem_cmp cop w (val a) (val b)"
begin

lemma width_pos: "widths w \<Longrightarrow> 0 < w"
  by (simp add: widths width_okD)

lemmas un_ok = un_law [THEN conjunct1]
lemmas un_val = un_law [THEN conjunct2]
lemmas bin_ok = bin_law [THEN conjunct1]
lemmas bin_val = bin_law [THEN conjunct2]

lemma bin_commute:
  assumes "widths w" "ok w a" "ok w b" "supported op w" "bin_is_commutative op"
  shows "bin op w a b = bin op w b a"
  using assms by (intro val_inj [OF assms(1)]) (simp_all add: bin_ok bin_val sem_bin_commute)

lemma un_involutive:
  assumes "widths w" "ok w a" "op \<in> {UNot, UNeg, UBitRev} \<or> op = UBswap \<and> w mod 8 = 0"
  shows "un op w (un op w a) = a"
  using assms val_less [OF assms(1,2)]
  by (intro val_inj [OF assms(1)])
    (auto simp: un_ok un_val sem_not_not sem_neg_neg sem_bitrev_bitrev sem_bswap_bswap)

lemma sub_add:
  assumes "widths w" "ok w a" "ok w b" "supported BAdd w" "supported BSub w"
  shows "bin BAdd w (bin BSub w a b) b = a" "bin BSub w a b = bin BAdd w a (un UNeg w b)"
  using assms val_less [OF assms(1)]
  by (auto intro!: val_inj [OF assms(1)] simp: un_ok un_val bin_ok bin_val sem_sub_add simp flip: sem_sub_neg)

lemma de_morgan:
  assumes "widths w" "ok w a" "ok w b" "supported BAnd w" "supported BOr w"
  shows "un UNot w (bin BAnd w a b) = bin BOr w (un UNot w a) (un UNot w b)"
  using assms val_less [OF assms(1)]
  by (intro val_inj [OF assms(1)]) (auto simp: un_ok un_val bin_ok bin_val sem_de_morgan)

lemma xor_cancel:
  assumes "widths w" "ok w a" "ok w b" "supported BXor w"
  shows "bin BXor w (bin BXor w a b) b = a"
  using assms by (intro val_inj [OF assms(1)]) (auto simp: bin_ok bin_val sem_xor_cancel)

lemma div_rem:
  assumes "widths w" "ok w a" "ok w b" "supported BAdd w" "supported BMul w"
    and "supported dv w" "supported rm w" "(dv, rm) \<in> {(BUDiv, BURem), (BSDiv, BSRem)}"
  shows "bin BAdd w (bin BMul w (bin dv w a b) b) (bin rm w a b) = a"
  using assms val_less [OF assms(1)] width_pos [OF assms(1)]
  by (intro val_inj [OF assms(1)]) (auto simp: bin_ok bin_val sem_udiv_urem sem_sdiv_srem)

lemma rotr_rotl:
  assumes "widths w" "ok w a" "ok w b" "supported BRotL w" "supported BRotR w"
  shows "bin BRotR w (bin BRotL w a b) b = a"
  using assms val_less [OF assms(1)] width_pos [OF assms(1)]
  by (intro val_inj [OF assms(1)]) (auto simp: bin_ok bin_val sem_rotr_rotl)

lemma pdep_pext:
  assumes "widths w" "ok w a" "ok w m" "supported BPdep w" "supported BPext w" "supported BAnd w"
  shows "bin BPdep w (bin BPext w a m) m = bin BAnd w a m"
  using assms val_less [OF assms(1)] sem_pdep_pext [of "val a" w "val m"]
  by (intro val_inj [OF assms(1)]) (auto simp: bin_ok bin_val sem_bin_def [of BAnd])

lemma cmp_total:
  assumes "widths w" "ok w a" "ok w b"
  shows "cmp CUle w a b \<longleftrightarrow> \<not> cmp CUlt w b a" "cmp CSle w a b \<longleftrightarrow> \<not> cmp CSlt w b a"
    "cmp CNe w a b \<longleftrightarrow> \<not> cmp CEq w a b" "cmp CEq w a b \<longleftrightarrow> a = b"
  using assms val_inj [OF assms(1)] by (auto simp: cmp_law sem_cmp_total) (auto simp: sem_cmp_def)

end

text \<open>Two evaluators of the same contract agree wherever both are defined.\<close>

locale bv_kernel_pair = k1: bv_kernel widths1 ok1 val1 un1 bin1 supported1 cmp1 +
    k2: bv_kernel widths2 ok2 val2 un2 bin2 supported2 cmp2
  for widths1 widths2 :: "nat \<Rightarrow> bool"
    and ok1 :: "nat \<Rightarrow> 'a \<Rightarrow> bool" and ok2 :: "nat \<Rightarrow> 'b \<Rightarrow> bool"
    and val1 val2 un1 un2 bin1 bin2 supported1 supported2 cmp1 cmp2
begin

lemma un_agree:
  assumes "widths1 w" "widths2 w" "ok1 w a" "ok2 w x" "val1 a = val2 x" "op = UBswap \<longrightarrow> w mod 8 = 0"
  shows "val1 (un1 op w a) = val2 (un2 op w x)"
  using assms by (simp add: k1.un_val k2.un_val)

lemma bin_agree:
  assumes "widths1 w" "widths2 w" "ok1 w a" "ok1 w b" "ok2 w x" "ok2 w y"
    and "val1 a = val2 x" "val1 b = val2 y" "supported1 op w" "supported2 op w"
  shows "val1 (bin1 op w a b) = val2 (bin2 op w x y)"
  using assms by (simp add: k1.bin_val k2.bin_val)

lemma cmp_agree:
  assumes "widths1 w" "widths2 w" "ok1 w a" "ok1 w b" "ok2 w x" "ok2 w y"
    and "val1 a = val2 x" "val1 b = val2 y"
  shows "cmp1 op w a b = cmp2 op w x y"
  using assms by (simp add: k1.cmp_law k2.cmp_law)

end

end
