(* ===== verification/Wide.thy ===== *)
theory Wide
  imports Limbs_Div Kernel
begin

unbundle bit_operations_syntax

text \<open>
  The dispatch of \<open>bitwright/src/value/wide.rs\<close>: the limb kernel of every operator, and the
  theorem that each is the SMT-LIB operator on the number the limbs hold.
\<close>

definition wide_un :: "UnOp \<Rightarrow> nat \<Rightarrow> limbs \<Rightarrow> limbs" where
  "wide_un op w a = (case op of
     UNot \<Rightarrow> wide_not w a
   | UNeg \<Rightarrow> wide_neg w a
   | UPopcnt \<Rightarrow> wide_popcnt a
   | UClz \<Rightarrow> wide_clz w a
   | UCtz \<Rightarrow> wide_ctz w a
   | UBswap \<Rightarrow> wide_bswap w a
   | UBitRev \<Rightarrow> wide_bitrev w a)"

definition wide_bin :: "BinOp \<Rightarrow> nat \<Rightarrow> limbs \<Rightarrow> limbs \<Rightarrow> limbs" where
  "wide_bin op w a b = (case op of
     BAdd \<Rightarrow> wide_add w a b
   | BSub \<Rightarrow> wide_sub w a b
   | BMul \<Rightarrow> wide_mul w a b
   | BUMulHi \<Rightarrow> wide_umulhi w a b
   | BSMulHi \<Rightarrow> wide_smulhi w a b
   | BUDiv \<Rightarrow> fst (wide_udivrem w a b)
   | BURem \<Rightarrow> snd (wide_udivrem w a b)
   | BSDiv \<Rightarrow> wide_sdiv w a b
   | BSRem \<Rightarrow> wide_srem w a b
   | BAnd \<Rightarrow> map (\<lambda>i. a ! i AND b ! i) [0..<MAX_LIMBS]
   | BOr \<Rightarrow> map (\<lambda>i. a ! i OR b ! i) [0..<MAX_LIMBS]
   | BXor \<Rightarrow> map (\<lambda>i. a ! i XOR b ! i) [0..<MAX_LIMBS]
   | BShl \<Rightarrow> wide_shl w a b
   | BLShr \<Rightarrow> wide_lshr w a b
   | BAShr \<Rightarrow> wide_ashr w a b
   | BRotL \<Rightarrow> wide_rotl w a b
   | BRotR \<Rightarrow> wide_rotr w a b
   | BPdep \<Rightarrow> wide_pdep w a b
   | BPext \<Rightarrow> wide_pext w a b)"

lemma wide_bitwise:
  assumes "limbs_ok w a" "limbs_ok w b"
  shows "lval (map (\<lambda>i. a ! i AND b ! i) [0..<MAX_LIMBS]) = lval a AND lval b"
    "lval (map (\<lambda>i. a ! i OR b ! i) [0..<MAX_LIMBS]) = lval a OR lval b"
    "lval (map (\<lambda>i. a ! i XOR b ! i) [0..<MAX_LIMBS]) = lval a XOR lval b"
    "limbs_ok w (map (\<lambda>i. a ! i AND b ! i) [0..<MAX_LIMBS])"
    "limbs_ok w (map (\<lambda>i. a ! i OR b ! i) [0..<MAX_LIMBS])"
    "limbs_ok w (map (\<lambda>i. a ! i XOR b ! i) [0..<MAX_LIMBS])"
proof -
  note l = limbs_ok_length [OF assms(1)] limbs_ok_length [OF assms(2)]
  have v: "lval (map (\<lambda>i. a ! i AND b ! i) [0..<8]) = lval a AND lval b"
    "lval (map (\<lambda>i. a ! i OR b ! i) [0..<8]) = lval a OR lval b"
    "lval (map (\<lambda>i. a ! i XOR b ! i) [0..<8]) = lval a XOR lval b"
    by (rule bit_eqI, auto simp: bit_lval8 l bit_simps)+
  then show "lval (map (\<lambda>i. a ! i AND b ! i) [0..<MAX_LIMBS]) = lval a AND lval b"
    "lval (map (\<lambda>i. a ! i OR b ! i) [0..<MAX_LIMBS]) = lval a OR lval b"
    "lval (map (\<lambda>i. a ! i XOR b ! i) [0..<MAX_LIMBS]) = lval a XOR lval b"
    by (simp_all add: MAX_LIMBS_def)
  show "limbs_ok w (map (\<lambda>i. a ! i AND b ! i) [0..<MAX_LIMBS])"
    "limbs_ok w (map (\<lambda>i. a ! i OR b ! i) [0..<MAX_LIMBS])"
    "limbs_ok w (map (\<lambda>i. a ! i XOR b ! i) [0..<MAX_LIMBS])"
    using limbs_ok_bit [OF assms(1)] limbs_ok_bit [OF assms(2)]
    by (auto intro!: limbs_okI simp: MAX_LIMBS_def v bit_simps)
qed

theorem wide_un_correct:
  assumes "width_ok w" "limbs_ok w a" "op = UBswap \<longrightarrow> w mod 8 = 0"
  shows "lval (wide_un op w a) = sem_un op w (lval a) \<and> limbs_ok w (wide_un op w a)"
  using assms wide_not_ok wide_not_correct wide_neg_correct wide_popcnt_correct wide_clz_correct
    wide_ctz_correct wide_bswap_correct wide_bitrev_correct
  by (cases op) (simp_all add: wide_un_def)

theorem wide_bin_correct:
  assumes "width_ok w" "limbs_ok w a" "limbs_ok w b"
  shows "lval (wide_bin op w a b) = sem_bin op w (lval a) (lval b) \<and> limbs_ok w (wide_bin op w a b)"
  using wide_add_correct [OF assms] wide_sub_correct [OF assms] wide_mul_correct [OF assms]
    wide_umulhi_correct [OF assms] wide_smulhi_correct [OF assms] wide_udivrem_correct [OF assms]
    wide_sdiv_correct [OF assms] wide_srem_correct [OF assms] wide_bitwise [OF assms(2,3)]
    wide_shl_correct [OF assms] wide_shl_ok [OF assms(1)] wide_lshr_correct [OF assms] wide_lshr_ok [OF assms]
    wide_ashr_correct [OF assms] wide_ashr_ok [OF assms] wide_rotl_correct [OF assms]
    wide_rotr_correct [OF assms] wide_rot_ok [OF assms] wide_pdep_correct [OF assms] wide_pext_correct [OF assms]
  by (cases op) (simp_all add: wide_bin_def, simp_all add: sem_bin_def)


interpretation wide: bv_kernel width_ok limbs_ok lval wide_un wide_bin "\<lambda>op w. True" wide_cmp
proof
  fix w :: nat and a b :: limbs
  assume a: "limbs_ok w a" and b: "limbs_ok w b"
  show "lval a = lval b \<Longrightarrow> a = b" by (simp add: lval_inject [OF a b])
qed (use wide_un_correct wide_bin_correct wide_cmp_correct in \<open>auto simp: limbs_ok_less\<close>)


section \<open>Property\<close>

text \<open>
  C2: every operator and comparison of the limb kernel computes its specified value at every
  width from 1 to 512, and its result is in canonical limbs again.
\<close>

theorem limb_kernel_exact:
  assumes "width_ok w" "limbs_ok w a" "limbs_ok w b" "uop = UBswap \<longrightarrow> w mod 8 = 0"
  shows "limbs_ok w (wide_un uop w a) \<and> lval (wide_un uop w a) = sem_un uop w (lval a) \<and>
    limbs_ok w (wide_bin op w a b) \<and> lval (wide_bin op w a b) = sem_bin op w (lval a) (lval b) \<and>
    wide_cmp cop w a b = sem_cmp cop w (lval a) (lval b)"
  using wide_un_correct [OF assms(1,2,4)] wide_bin_correct [OF assms(1-3)] wide_cmp_correct [OF assms(1-3)]
  by blast

theorem limb_kernel_exact_witness:
  "lval (wide_un UNeg 70 [1, 0, 0, 0, 0, 0, 0, 0]) = 1180591620717411303423 \<and>
   lval (wide_bin BUMulHi 70 [0, 9, 0, 0, 0, 0, 0, 0] [0, 20, 0, 0, 0, 0, 0, 0]) = 51881467707308113920 \<and>
   wide_cmp CUlt 70 [0, 9, 0, 0, 0, 0, 0, 0] [0, 20, 0, 0, 0, 0, 0, 0]"
  using limb_kernel_exact [of 70 "[1, 0, 0, 0, 0, 0, 0, 0]" "[0, 20, 0, 0, 0, 0, 0, 0]" UNeg]
    limb_kernel_exact [of 70 "[0, 9, 0, 0, 0, 0, 0, 0]" "[0, 20, 0, 0, 0, 0, 0, 0]" UNeg BUMulHi CUlt]
  by (simp add: width_ok_def limbs_ok_def MAX_LIMBS_def B64_def sem_un_def sem_bin_def sem_cmp_def)

end
