(* ===== verification/Narrow.thy ===== *)
theory Narrow
  imports Wide Kernel
begin

unbundle bit_operations_syntax

text \<open>
  The native fast path of \<open>bitwright/src/value/narrow.rs\<close>: a value of at most 128 bits is one
  \<open>u128\<close> whose bits at and above the width are clear. An \<open>i128\<close> is the same word read by
  \<open>sint\<close>; its arithmetic shift is \<open>signed_drop_bit\<close>.
\<close>

section \<open>Definitions\<close>

definition narrow_mask :: "nat \<Rightarrow> u128" where
  "narrow_mask w = (if w \<ge> 128 then - 1 else push_bit w 1 - 1)"

definition narrow_msb :: "u128 \<Rightarrow> nat \<Rightarrow> bool" where
  "narrow_msb a w \<longleftrightarrow> drop_bit (w - 1) a AND 1 = 1"

definition narrow_signed :: "u128 \<Rightarrow> nat \<Rightarrow> u128" where
  "narrow_signed a w = (let sh = 128 - w in signed_drop_bit sh (push_bit sh a))"

definition narrow_count :: "u128 \<Rightarrow> nat \<Rightarrow> nat option" where
  "narrow_count b w = (if b < word_of_nat w then Some (unat b mod 2 ^ 32) else None)"

definition narrow_udiv :: "u128 \<Rightarrow> u128 \<Rightarrow> nat \<Rightarrow> u128" where
  "narrow_udiv a b w = (if b = 0 then narrow_mask w else a div b)"

definition narrow_urem :: "u128 \<Rightarrow> u128 \<Rightarrow> u128" where
  "narrow_urem a b = (if b = 0 then a else a mod b)"

definition narrow_neg :: "u128 \<Rightarrow> nat \<Rightarrow> u128" where
  "narrow_neg a w = (- a) AND narrow_mask w"

definition narrow_rotl_by :: "u128 \<Rightarrow> nat \<Rightarrow> nat \<Rightarrow> u128" where
  "narrow_rotl_by a r w =
     (if r = 0 then a else (push_bit r a OR drop_bit (w - r) a) AND narrow_mask w)"

definition narrow_un :: "UnOp \<Rightarrow> nat \<Rightarrow> u128 \<Rightarrow> u128" where
  "narrow_un op w a =
     (let m = narrow_mask w
      in case op of
           UNot \<Rightarrow> NOT a AND m
         | UNeg \<Rightarrow> narrow_neg a w
         | UPopcnt \<Rightarrow> word_of_nat (count_ones a)
         | UClz \<Rightarrow> word_of_nat (leading_zeros a - (128 - w))
         | UCtz \<Rightarrow> if a = 0 then word_of_nat w else word_of_nat (trailing_zeros a)
         | UBswap \<Rightarrow> drop_bit (128 - w) (swap_bytes a)
         | UBitRev \<Rightarrow> drop_bit (128 - w) (reverse_bits a))"

function narrow_pdep :: "u128 \<Rightarrow> u128 \<Rightarrow> u128 \<Rightarrow> nat \<Rightarrow> u128" where
  "narrow_pdep a out mm k =
     (if mm \<noteq> 0
      then let p = trailing_zeros mm;
               out = (if drop_bit k a AND 1 = 1 then out OR push_bit p 1 else out)
           in narrow_pdep a out (mm AND (mm - 1)) (k + 1)
      else out)"
  by pat_completeness auto
termination
  by (relation "measure (\<lambda>(a, out, mm, k). unat mm)") (auto simp: clear_lowest_less)

function narrow_pext :: "u128 \<Rightarrow> u128 \<Rightarrow> u128 \<Rightarrow> nat \<Rightarrow> u128" where
  "narrow_pext a out mm k =
     (if mm \<noteq> 0
      then let p = trailing_zeros mm;
               out = (if drop_bit p a AND 1 = 1 then out OR push_bit k 1 else out)
           in narrow_pext a out (mm AND (mm - 1)) (k + 1)
      else out)"
  by pat_completeness auto
termination
  by (relation "measure (\<lambda>(a, out, mm, k). unat mm)") (auto simp: clear_lowest_less)

declare narrow_pdep.simps [simp del] narrow_pext.simps [simp del]

definition narrow_bin :: "BinOp \<Rightarrow> nat \<Rightarrow> u128 \<Rightarrow> u128 \<Rightarrow> u128" where
  "narrow_bin op w a b =
     (let m = narrow_mask w
      in case op of
           BAdd \<Rightarrow> (a + b) AND m
         | BSub \<Rightarrow> (a - b) AND m
         | BMul \<Rightarrow> (a * b) AND m
         | BUMulHi \<Rightarrow> drop_bit w (a * b)
         | BSMulHi \<Rightarrow> signed_drop_bit w (narrow_signed a w * narrow_signed b w) AND m
         | BUDiv \<Rightarrow> narrow_udiv a b w
         | BURem \<Rightarrow> narrow_urem a b
         | BSDiv \<Rightarrow>
             (case (narrow_msb a w, narrow_msb b w) of
                (False, False) \<Rightarrow> narrow_udiv a b w
              | (True, False) \<Rightarrow> narrow_neg (narrow_udiv (narrow_neg a w) b w) w
              | (False, True) \<Rightarrow> narrow_neg (narrow_udiv a (narrow_neg b w) w) w
              | (True, True) \<Rightarrow> narrow_udiv (narrow_neg a w) (narrow_neg b w) w)
         | BSRem \<Rightarrow>
             (case (narrow_msb a w, narrow_msb b w) of
                (False, False) \<Rightarrow> narrow_urem a b
              | (True, False) \<Rightarrow> narrow_neg (narrow_urem (narrow_neg a w) b) w
              | (False, True) \<Rightarrow> narrow_urem a (narrow_neg b w)
              | (True, True) \<Rightarrow> narrow_neg (narrow_urem (narrow_neg a w) (narrow_neg b w)) w)
         | BAnd \<Rightarrow> a AND b
         | BOr \<Rightarrow> a OR b
         | BXor \<Rightarrow> a XOR b
         | BShl \<Rightarrow> (case narrow_count b w of None \<Rightarrow> 0 | Some c \<Rightarrow> push_bit c a AND m)
         | BLShr \<Rightarrow> (case narrow_count b w of None \<Rightarrow> 0 | Some c \<Rightarrow> drop_bit c a)
         | BAShr \<Rightarrow>
             (let c = (case narrow_count b w of None \<Rightarrow> w - 1 | Some c \<Rightarrow> c)
              in signed_drop_bit c (narrow_signed a w) AND m)
         | BRotL \<Rightarrow> narrow_rotl_by a (unat (b mod word_of_nat w)) w
         | BRotR \<Rightarrow>
             (let r = unat (b mod word_of_nat w) in narrow_rotl_by a ((w - r) mod w) w)
         | BPdep \<Rightarrow> narrow_pdep a 0 b 0
         | BPext \<Rightarrow> narrow_pext a 0 b 0)"

definition narrow_bin_supported :: "BinOp \<Rightarrow> nat \<Rightarrow> bool" where
  "narrow_bin_supported op w \<longleftrightarrow> w \<le> 64 \<or> \<not> (op = BUMulHi \<or> op = BSMulHi)"

definition narrow_cmp :: "CmpOp \<Rightarrow> nat \<Rightarrow> u128 \<Rightarrow> u128 \<Rightarrow> bool" where
  "narrow_cmp op w a b = (case op of
     CEq \<Rightarrow> a = b
   | CNe \<Rightarrow> a \<noteq> b
   | CUlt \<Rightarrow> a < b
   | CUle \<Rightarrow> a \<le> b
   | CSlt \<Rightarrow> sint (narrow_signed a w) < sint (narrow_signed b w)
   | CSle \<Rightarrow> sint (narrow_signed a w) \<le> sint (narrow_signed b w))"

definition narrow_ok :: "nat \<Rightarrow> u128 \<Rightarrow> bool" where
  "narrow_ok w a \<longleftrightarrow> unat a < 2 ^ w"

definition width_narrow :: "nat \<Rightarrow> bool" where
  "width_narrow w \<longleftrightarrow> 0 < w \<and> w \<le> 128"


section \<open>Masks, signs and counts\<close>

lemma width_narrowD: "width_narrow w \<Longrightarrow> 0 < w" "width_narrow w \<Longrightarrow> w \<le> 128"
  by (simp_all add: width_narrow_def)

lemma width_narrow_ok: "width_narrow w \<Longrightarrow> width_ok w"
  by (simp add: width_narrow_def width_ok_def)

lemma bit_narrow_mask: "bit (narrow_mask w) i \<longleftrightarrow> i < w \<and> i < 128"
proof (cases "w < 128")
  case True
  then have "narrow_mask w = mask w"
    by (simp add: narrow_mask_def mask_eq_exp_minus_1 push_bit_eq_mult)
  then show ?thesis by (simp only: bit_mask_iff) auto
qed (auto simp: narrow_mask_def)

lemma and_narrow_mask: "x AND narrow_mask w = take_bit w x"
  by (rule bit_word_eqI) (auto simp: bit_and_iff bit_narrow_mask bit_take_bit_iff)

lemma unat_take_bit: "unat (take_bit w (x::u128)) = unat x mod 2 ^ w"
proof -
  have "unat (take_bit w x) = take_bit w (unat x)" by (rule unsigned_take_bit_eq)
  then show ?thesis by (simp only: take_bit_eq_mod)
qed

lemma narrow_mask_ok: "narrow_ok w (x AND narrow_mask w)"
  unfolding narrow_ok_def and_narrow_mask unat_take_bit by simp

lemma narrow_okI: "(\<And>i. bit x i \<Longrightarrow> i < w) \<Longrightarrow> narrow_ok w x"
  unfolding narrow_ok_def by (rule less_power_bits) (simp add: bit_unat)

lemma narrow_ok_bit: "narrow_ok w x \<Longrightarrow> bit x i \<Longrightarrow> i < w"
  using bit_nat_less [of "unat x" w i] by (simp add: narrow_ok_def bit_unat)

lemma unat_narrow_mask: "w \<le> 128 \<Longrightarrow> unat (narrow_mask w) = 2 ^ w - 1"
proof -
  assume "w \<le> 128"
  show ?thesis
  proof (rule bit_eqI)
    fix i
    show "bit (unat (narrow_mask w)) i = bit (2 ^ w - 1 :: nat) i"
      unfolding mask_eq_exp_minus_1 [symmetric] bit_mask_iff bit_unat bit_narrow_mask
      using \<open>w \<le> 128\<close> by auto
  qed
qed

lemma narrow_msb_iff: "narrow_msb a w \<longleftrightarrow> bit (unat a) (w - 1)"
  unfolding narrow_msb_def bit_iff_and_drop_bit_eq_1 [symmetric] bit_unat ..

lemma bit_narrow_signed:
  assumes "width_narrow w"
  shows "bit (narrow_signed a w) i \<longleftrightarrow> i < 128 \<and> (if i < w then bit a i else bit a (w - 1))"
proof -
  have w: "0 < w" "w \<le> 128" using assms by (simp_all add: width_narrow_def)
  have "bit (narrow_signed a w) i \<longleftrightarrow>
      bit (push_bit (128 - w) a) (if w \<le> i \<and> i < 128 then 127 else 128 - w + i)"
    using w by (simp add: narrow_signed_def Let_def bit_signed_drop_bit_iff)
  moreover have "127 - (128 - w) = w - 1" using w by simp
  ultimately show ?thesis using w by (auto simp: bit_push_bit_iff dest: bit_imp_le_length)
qed

lemma sint_narrow_signed:
  assumes "width_narrow w" "narrow_ok w a"
  shows "sint (narrow_signed a w) = sem_signed w (unat a)"
proof (rule bit_eqI)
  fix i
  show "bit (sint (narrow_signed a w)) i = bit (sem_signed w (unat a)) i"
    using assms
    by (cases "w = 128") (auto simp: bit_sint_iff bit_narrow_signed bit_sem_signed narrow_ok_def width_narrow_def bit_unat
        not_le)
qed

lemma unat_word_of_nat_128: "n \<le> 128 \<Longrightarrow> unat (word_of_nat n :: u128) = n"
  by (simp add: unsigned_of_nat take_bit_nat_eq_self)

lemma narrow_count_eq:
  assumes "width_narrow w"
  shows "narrow_count b w = (if unat b < w then Some (unat b) else None)"
  using assms by (auto simp: narrow_count_def word_less_nat_alt unat_word_of_nat_128 width_narrow_def)


section \<open>Words as residues\<close>

lemma sem_of_int_mod: "w \<le> n \<Longrightarrow> sem_of_int w (x mod 2 ^ n) = sem_of_int w x"
  by (simp add: sem_of_int_def mod_mod_cancel le_imp_power_dvd)

lemma unat_mod_uint: "w \<le> 128 \<Longrightarrow> unat (x::u128) mod 2 ^ w = sem_of_int w (uint x)"
  by (simp only: sem_of_int_of_nat [symmetric]) simp

lemma unat_masked_uint:
  "w \<le> 128 \<Longrightarrow> unat (x AND narrow_mask w) = sem_of_int w (uint x)"
  by (simp only: and_narrow_mask unat_take_bit unat_mod_uint)

lemma unat_masked_sint:
  assumes "w \<le> 128"
  shows "unat (x AND narrow_mask w) = sem_of_int w (sint x)"
proof -
  have "uint x mod 2 ^ 128 = sint x mod 2 ^ 128"
    by (simp add: uint_sint take_bit_eq_mod)
  then have "sem_of_int w (uint x) = sem_of_int w (sint x)"
    by (metis assms sem_of_int_mod)
  then show ?thesis by (simp add: unat_masked_uint assms)
qed

lemma uint_arith:
  "uint (x + y :: u128) = (int (unat x) + int (unat y)) mod 2 ^ 128"
  "uint (x - y :: u128) = (int (unat x) - int (unat y)) mod 2 ^ 128"
  "uint (x * y :: u128) = (int (unat x) * int (unat y)) mod 2 ^ 128"
  "uint (- x :: u128) = (- int (unat x)) mod 2 ^ 128"
  by (simp_all add: uint_word_ariths)

lemma narrow_neg_correct:
  assumes "width_narrow w" "narrow_ok w a"
  shows "unat (narrow_neg a w) = sem_un UNeg w (unat a)" "narrow_ok w (narrow_neg a w)"
  using assms
  by (simp_all only: narrow_neg_def narrow_mask_ok unat_masked_uint width_narrowD uint_arith
      sem_of_int_mod narrow_ok_def sem_neg_int sem_of_int_less)

lemma narrow_arith:
  assumes "width_narrow w" "narrow_ok w b"
  shows "unat ((a + b) AND narrow_mask w) = sem_bin BAdd w (unat a) (unat b)"
    "unat ((a - b) AND narrow_mask w) = sem_bin BSub w (unat a) (unat b)"
    "unat ((a * b) AND narrow_mask w) = sem_bin BMul w (unat a) (unat b)"
proof -
  have w: "w \<le> 128" by (rule width_narrowD(2) [OF assms(1)])
  have b: "unat b < 2 ^ w" using assms(2) by (simp add: narrow_ok_def)
  show "unat ((a + b) AND narrow_mask w) = sem_bin BAdd w (unat a) (unat b)"
    "unat ((a * b) AND narrow_mask w) = sem_bin BMul w (unat a) (unat b)"
    by (simp_all only: unat_masked_uint [OF w] uint_arith sem_of_int_mod [OF w] sem_bin_def BinOp.case
        sem_of_int_of_nat flip: of_nat_add of_nat_mult)
  show "unat ((a - b) AND narrow_mask w) = sem_bin BSub w (unat a) (unat b)"
    by (simp only: unat_masked_uint [OF w] uint_arith sem_of_int_mod [OF w] sem_sub_int [OF b])
qed

lemma narrow_umulhi_correct:
  assumes "w \<le> 64" "narrow_ok w a" "narrow_ok w b"
  shows "unat (drop_bit w (a * b)) = sem_bin BUMulHi w (unat a) (unat b)"
    "narrow_ok w (drop_bit w (a * b))"
proof -
  have ab: "unat a < 2 ^ w" "unat b < 2 ^ w" using assms by (simp_all add: narrow_ok_def)
  have lt: "unat a * unat b < 2 ^ w * 2 ^ w" using ab by (intro mult_strict_mono) auto
  also have ww: "(2::nat) ^ w * 2 ^ w \<le> 2 ^ 128"
    unfolding power_add [symmetric] by (rule power_increasing) (use assms(1) in auto)
  finally have "unat (a * b) = unat a * unat b" by (simp add: unat_word_ariths)
  then have "unat (drop_bit w (a * b)) = drop_bit w (take_bit 128 (unat a * unat b))"
    using unsigned_drop_bit_eq [where ?'a = nat, of w "a * b"] by simp
  also have "take_bit 128 (unat a * unat b) = unat a * unat b"
    using lt ww by (intro take_bit_nat_eq_self) linarith
  finally have "unat (drop_bit w (a * b)) = (unat a * unat b) div 2 ^ w" by (simp only: drop_bit_eq_div)
  then show "unat (drop_bit w (a * b)) = sem_bin BUMulHi w (unat a) (unat b)"
    "narrow_ok w (drop_bit w (a * b))"
    using lt by (simp_all add: sem_bin_def narrow_ok_def div_less_iff_less_mult)
qed

lemma narrow_smulhi_correct:
  assumes "width_narrow w" "w \<le> 64" "narrow_ok w a" "narrow_ok w b"
  shows "unat (signed_drop_bit w (narrow_signed a w * narrow_signed b w) AND narrow_mask w) =
    sem_bin BSMulHi w (unat a) (unat b)"
proof -
  define x y where "x = sem_signed w (unat a)" and "y = sem_signed w (unat b)"
  have w: "0 < w" "w \<le> 128" using assms(1) by (simp_all add: width_narrow_def)
  have r: "- (2 ^ (w - 1)) \<le> x" "x < 2 ^ (w - 1)" "- (2 ^ (w - 1)) \<le> y" "y < 2 ^ (w - 1)"
    using sem_signed_range [OF w(1)] assms(3,4) by (auto simp: x_def y_def narrow_ok_def)
  have "(2::int) ^ (w - 1) \<le> 2 ^ 63" using assms(2) by (intro power_increasing) auto
  then have "\<bar>x\<bar> \<le> 2 ^ 63" "\<bar>y\<bar> \<le> 2 ^ 63" using r by linarith+
  then have "\<bar>x\<bar> * \<bar>y\<bar> \<le> 2 ^ 63 * 2 ^ 63" by (intro mult_mono) auto
  then have "\<bar>x * y\<bar> \<le> 2 ^ 126" by (simp add: abs_mult)
  then have "signed_take_bit 127 (x * y) = x * y"
    by (intro signed_take_bit_int_eq_self) auto
  then have "sint (narrow_signed a w * narrow_signed b w) = x * y"
    using sint_narrow_signed [OF assms(1)] assms(3,4)
    by (simp add: sint_word_ariths x_def y_def)
  then show ?thesis
    by (simp add: unat_masked_sint [OF w(2)] sint_signed_drop_bit_eq drop_bit_eq_div sem_bin_def
        flip: x_def y_def)
qed

lemma narrow_udiv_correct:
  assumes "width_narrow w" "narrow_ok w a" "narrow_ok w b"
  shows "unat (narrow_udiv a b w) = sem_bin BUDiv w (unat a) (unat b)" "narrow_ok w (narrow_udiv a b w)"
    "unat (narrow_urem a b) = sem_bin BURem w (unat a) (unat b)" "narrow_ok w (narrow_urem a b)"
proof -
  have ab: "unat a < 2 ^ w" "unat b < 2 ^ w" using assms by (simp_all add: narrow_ok_def)
  show "unat (narrow_udiv a b w) = sem_bin BUDiv w (unat a) (unat b)"
    "unat (narrow_urem a b) = sem_bin BURem w (unat a) (unat b)"
    using assms(1) by (auto simp: narrow_udiv_def narrow_urem_def sem_bin_def unat_narrow_mask
        width_narrow_def unat_div_distrib unat_mod_distrib unat_eq_0)
  then show "narrow_ok w (narrow_udiv a b w)" "narrow_ok w (narrow_urem a b)"
    using ab by (auto simp: narrow_ok_def sem_bin_def le_less_trans [OF div_le_dividend]
        le_less_trans [OF mod_less_eq_dividend])
qed


lemma narrow_abs:
  assumes "width_narrow w" "narrow_ok w a"
  shows "unat (if narrow_msb a w then narrow_neg a w else a) = sem_abs w (unat a)"
    "narrow_ok w (if narrow_msb a w then narrow_neg a w else a)"
  using narrow_neg_correct [OF assms] assms by (simp_all add: sem_abs_def narrow_msb_iff)

lemma narrow_sdiv_correct:
  assumes "width_narrow w" "narrow_ok w a" "narrow_ok w b"
  shows "unat (narrow_bin BSDiv w a b) = sem_bin BSDiv w (unat a) (unat b)"
    "narrow_ok w (narrow_bin BSDiv w a b)"
proof -
  define q where "q = narrow_udiv (if narrow_msb a w then narrow_neg a w else a)
    (if narrow_msb b w then narrow_neg b w else b) w"
  have q: "unat q = sem_bin BUDiv w (sem_abs w (unat a)) (sem_abs w (unat b))" "narrow_ok w q"
    using narrow_udiv_correct [OF assms(1) narrow_abs(2) narrow_abs(2)] narrow_abs(1) assms
    by (simp_all add: q_def)
  have "narrow_bin BSDiv w a b = (if narrow_msb a w = narrow_msb b w then q else narrow_neg q w)"
    by (auto simp: narrow_bin_def Let_def q_def split: bool.splits)
  then show "unat (narrow_bin BSDiv w a b) = sem_bin BSDiv w (unat a) (unat b)"
    "narrow_ok w (narrow_bin BSDiv w a b)"
    using q narrow_neg_correct [OF assms(1) q(2)] assms
    by (simp_all add: sem_sdiv_parts width_narrowD narrow_ok_def narrow_msb_iff Let_def)
qed

lemma narrow_srem_correct:
  assumes "width_narrow w" "narrow_ok w a" "narrow_ok w b"
  shows "unat (narrow_bin BSRem w a b) = sem_bin BSRem w (unat a) (unat b)"
    "narrow_ok w (narrow_bin BSRem w a b)"
proof -
  define r where "r = narrow_urem (if narrow_msb a w then narrow_neg a w else a)
    (if narrow_msb b w then narrow_neg b w else b)"
  have r: "unat r = sem_bin BURem w (sem_abs w (unat a)) (sem_abs w (unat b))" "narrow_ok w r"
    using narrow_udiv_correct [OF assms(1) narrow_abs(2) narrow_abs(2)] narrow_abs(1) assms
    by (simp_all add: r_def)
  have "narrow_bin BSRem w a b = (if narrow_msb a w then narrow_neg r w else r)"
    by (auto simp: narrow_bin_def Let_def r_def split: bool.splits)
  then show "unat (narrow_bin BSRem w a b) = sem_bin BSRem w (unat a) (unat b)"
    "narrow_ok w (narrow_bin BSRem w a b)"
    using r narrow_neg_correct [OF assms(1) r(2)] assms
    by (simp_all add: sem_srem_parts width_narrowD narrow_ok_def narrow_msb_iff Let_def)
qed


section \<open>Shifts, rotations and permutations\<close>

lemma narrow_ok_bits:
  assumes "w \<le> 128" "\<And>i. i < 128 \<Longrightarrow> bit x i \<longleftrightarrow> bit n i" "n < 2 ^ w"
  shows "unat (x::u128) = n" "narrow_ok w x"
proof -
  have "bit x i \<longleftrightarrow> bit n i" for i
    using assms(1) assms(2) [of i] bit_nat_less [OF assms(3), of i] bit_imp_le_length [of x i]
    by (cases "i < 128") auto
  then show "unat x = n" by (intro bit_eqI) (simp add: bit_unat)
  then show "narrow_ok w x" using assms(3) by (simp add: narrow_ok_def)
qed

lemma narrow_shl_correct:
  assumes "width_narrow w"
  shows "unat (case narrow_count b w of None \<Rightarrow> 0 | Some c \<Rightarrow> push_bit c a AND narrow_mask w) =
    sem_bin BShl w (unat a) (unat b)"
proof (cases "unat b < w")
  case True
  have "unat (push_bit (unat b) a AND narrow_mask w) = (unat a * 2 ^ unat b) mod 2 ^ w"
    using width_narrowD(2) [OF assms]
    by (intro bit_eqI) (auto simp: bit_unat bit_and_iff bit_narrow_mask bit_push_bit_iff bit_sem_shl)
  then show ?thesis using True by (simp add: narrow_count_eq assms sem_bin_def)
qed (simp add: narrow_count_eq assms sem_bin_def)

lemma narrow_lshr_correct:
  assumes "width_narrow w"
  shows "unat (case narrow_count b w of None \<Rightarrow> 0 | Some c \<Rightarrow> drop_bit c a) = sem_bin BLShr w (unat a) (unat b)"
proof (cases "unat b < w")
  case True
  have "unat (drop_bit (unat b) a) = unat a div 2 ^ unat b"
    by (intro bit_eqI) (simp add: bit_unat bit_drop_bit_eq bit_sem_lshr add.commute)
  then show ?thesis using True by (simp add: narrow_count_eq assms sem_bin_def)
qed (simp add: narrow_count_eq assms sem_bin_def)

lemma sem_lshr_less: "a < 2 ^ w \<Longrightarrow> sem_bin BLShr w a b < 2 ^ w"
  by (auto simp: sem_bin_def le_less_trans [OF div_le_dividend])

lemma narrow_ashr_correct:
  assumes "width_narrow w" "narrow_ok w a"
  shows "unat (narrow_bin BAShr w a b) = sem_bin BAShr w (unat a) (unat b)"
proof -
  define S where "S = sem_signed w (unat a)"
  have w: "0 < w" "w \<le> 128" and a: "unat a < 2 ^ w"
    using assms by (simp_all add: width_narrow_def narrow_ok_def)
  have s: "sint (narrow_signed a w) = S" by (simp add: sint_narrow_signed assms S_def)
  have last: "S div 2 ^ (w - 1) = (if bit (unat a) (w - 1) then - 1 else 0)"
  proof -
    have r: "- (2 ^ (w - 1)) \<le> S" "S < 2 ^ (w - 1)"
      using sem_signed_range [OF w(1) a] by (simp_all add: S_def)
    show ?thesis
    proof (cases "S < 0")
      case True
      have "S div 2 ^ (w - 1) = - 1"
        using True r by (intro int_div_pos_eq [where r = "S + 2 ^ (w - 1)"]) auto
      then show ?thesis using True a by (simp add: S_def sem_signed_neg_iff)
    next
      case False
      then have "S div 2 ^ (w - 1) = 0" using r by (intro div_pos_pos_trivial) auto
      then show ?thesis using False a by (simp add: S_def sem_signed_neg_iff)
    qed
  qed
  show ?thesis
    by (simp add: narrow_bin_def Let_def narrow_count_eq assms unat_masked_sint [OF w(2)]
        sint_signed_drop_bit_eq drop_bit_eq_div s sem_bin_def last [unfolded One_nat_def] flip: S_def)
qed

lemma bit_narrow_rotl_by:
  assumes "width_narrow w" "narrow_ok w a" "r < w"
  shows "bit (narrow_rotl_by a r w) i \<longleftrightarrow> i < w \<and> bit a ((i + (w - r)) mod w)"
proof (cases "r = 0")
  case True
  then show ?thesis using narrow_ok_bit [OF assms(2), of i] by (auto simp: narrow_rotl_by_def)
next
  case False
  note w = width_narrowD [OF assms(1)]
  have "bit (narrow_rotl_by a r w) i \<longleftrightarrow> i < w \<and> ((r \<le> i \<and> bit a (i - r)) \<or> bit a (i + (w - r)))"
    using False w by (auto simp: narrow_rotl_by_def bit_and_iff bit_or_iff bit_narrow_mask bit_push_bit_iff
        bit_drop_bit_eq add.commute)
  moreover have "(i + (w - r)) mod w = (if r \<le> i then i - r else i + (w - r))" if "i < w"
    using that assms(3) False by (auto simp: le_mod_geq)
  moreover have "\<not> bit a (i + (w - r))" if "r \<le> i"
    using narrow_ok_bit [OF assms(2), of "i + (w - r)"] that assms(3) by auto
  ultimately show ?thesis using assms(3) by (cases "i < w"; cases "r \<le> i") simp_all
qed

lemma unat_mod_width: "width_narrow w \<Longrightarrow> unat (b mod word_of_nat w :: u128) = unat b mod w"
  by (simp add: unat_mod_distrib unat_word_of_nat_128 width_narrow_def)

lemma narrow_rot_correct:
  assumes "width_narrow w" "narrow_ok w a"
  shows "unat (narrow_bin BRotL w a b) = sem_bin BRotL w (unat a) (unat b)"
    "unat (narrow_bin BRotR w a b) = sem_bin BRotR w (unat a) (unat b)"
proof -
  note w = width_narrowD [OF assms(1)]
  define r where "r = unat b mod w"
  have r: "r < w" using w by (simp add: r_def)
  have m: "(i + w - (w - r) mod w) mod w = (i + r) mod w" for i
    using r by (cases "r = 0") simp_all
  show "unat (narrow_bin BRotL w a b) = sem_bin BRotL w (unat a) (unat b)"
    using w by (intro bit_eqI) (simp add: narrow_bin_def Let_def unat_mod_width assms bit_unat
        bit_narrow_rotl_by sem_bin_def)
  show "unat (narrow_bin BRotR w a b) = sem_bin BRotR w (unat a) (unat b)"
    using w by (intro bit_eqI) (simp add: narrow_bin_def Let_def unat_mod_width assms bit_unat
        bit_narrow_rotl_by sem_bin_def m flip: r_def)
qed


lemma narrow_pdep_correct:
  "k + rank_below (unat mm) 128 \<le> 128 \<Longrightarrow>
   bit (narrow_pdep a out mm k) q \<longleftrightarrow> bit out q \<or> (bit mm q \<and> bit a (k + rank_below (unat mm) q))"
proof (induction a out mm k arbitrary: q rule: narrow_pdep.induct)
  case (1 a out mm k)
  show ?case
  proof (cases "mm = 0")
    case True
    then show ?thesis by (simp add: narrow_pdep.simps [of a out 0])
  next
    case False
    define p where "p = trailing_zeros mm"
    define mm' where "mm' = mm AND (mm - 1)"
    define o1 where "o1 = (if drop_bit k a AND 1 = 1 then out OR push_bit p 1 else out)"
    note tz = trailing_zeros_props [OF False, folded p_def]
    note rk = rank_clear_lowest [OF False, folded p_def mm'_def]
    note bm = bit_clear_lowest [OF False, folded p_def mm'_def]
    have st: "narrow_pdep a out mm k = narrow_pdep a o1 mm' (k + 1)"
      using False unfolding p_def mm'_def o1_def
      by (simp add: narrow_pdep.simps [of a out mm] Let_def split del: if_split)
    have "rank_below (unat mm) 128 = Suc (rank_below (unat mm') 128)" using tz rk by simp
    then have IH: "bit (narrow_pdep a o1 mm' (k + 1)) q \<longleftrightarrow>
        bit o1 q \<or> (bit mm' q \<and> bit a (k + 1 + rank_below (unat mm') q))"
      using 1(1) [OF False p_def, of o1 q] 1(2) False by (simp add: o1_def mm'_def p_def)
    have o1: "bit o1 q \<longleftrightarrow> bit out q \<or> (q = p \<and> bit a k)"
      using tz(1) unfolding o1_def bit_iff_and_drop_bit_eq_1 [symmetric]
      by (auto simp: bit_simps possible_bit_word)
    show ?thesis
    proof (cases "q = p")
      case True
      then show ?thesis using IH o1 bm tz rank_lowest [OF False, of p] by (simp add: p_def st)
    next
      case ne: False
      then have "bit mm q \<Longrightarrow> p < q" using tz(3) [of q] by (metis linorder_neqE_nat)
      then show ?thesis using IH o1 bm rk [of q] ne by (auto simp: st)
    qed
  qed
qed

lemma narrow_pext_correct:
  "k + rank_below (unat mm) 128 \<le> 128 \<Longrightarrow>
   bit (narrow_pext a out mm k) j \<longleftrightarrow>
     bit out j \<or> (\<exists>p. bit mm p \<and> k + rank_below (unat mm) p = j \<and> bit a p)"
proof (induction a out mm k arbitrary: j rule: narrow_pext.induct)
  case (1 a out mm k)
  show ?case
  proof (cases "mm = 0")
    case True
    then show ?thesis by (simp add: narrow_pext.simps [of a out 0])
  next
    case False
    define p where "p = trailing_zeros mm"
    define mm' where "mm' = mm AND (mm - 1)"
    define o1 where "o1 = (if drop_bit p a AND 1 = 1 then out OR push_bit k 1 else out)"
    note tz = trailing_zeros_props [OF False, folded p_def]
    note rk = rank_clear_lowest [OF False, folded p_def mm'_def]
    note bm = bit_clear_lowest [OF False, folded p_def mm'_def]
    have st: "narrow_pext a out mm k = narrow_pext a o1 mm' (k + 1)"
      using False unfolding p_def mm'_def o1_def
      by (simp add: narrow_pext.simps [of a out mm] Let_def split del: if_split)
    have r: "rank_below (unat mm) 128 = Suc (rank_below (unat mm') 128)" using tz rk by simp
    then have IH: "bit (narrow_pext a o1 mm' (k + 1)) j \<longleftrightarrow>
        bit o1 j \<or> (\<exists>p. bit mm' p \<and> k + 1 + rank_below (unat mm') p = j \<and> bit a p)"
      using 1(1) [OF False p_def, of o1 j] 1(2) False by (simp add: o1_def mm'_def p_def)
    have o1: "bit o1 j \<longleftrightarrow> bit out j \<or> (j = k \<and> bit a p)"
      using r 1(2) unfolding o1_def bit_iff_and_drop_bit_eq_1 [symmetric]
      by (auto simp: bit_simps possible_bit_word)
    have s: "rank_below (unat mm) q = Suc (rank_below (unat mm') q)" if "bit mm q" "q \<noteq> p" for q
      using tz(3) [of q] rk [of q] that by (metis linorder_neqE_nat)
    have z: "rank_below (unat mm) p = 0" using rank_lowest [OF False, of p] by (simp add: p_def)
    have sp: "(\<exists>q. A q) \<longleftrightarrow> A p \<or> (\<exists>q. q \<noteq> p \<and> A q)" for A by metis
    have "(\<exists>q. bit mm q \<and> k + rank_below (unat mm) q = j \<and> bit a q) \<longleftrightarrow>
        (j = k \<and> bit a p) \<or>
        (\<exists>q. bit mm' q \<and> k + 1 + rank_below (unat mm') q = j \<and> bit a q)"
      by (subst sp) (auto simp: bm tz(2) z s)
    then show ?thesis using IH o1 by (auto simp: st)
  qed
qed

lemma narrow_scatter_correct:
  assumes "width_narrow w" "narrow_ok w b"
  shows "unat (narrow_pdep a 0 b 0) = sem_bin BPdep w (unat a) (unat b)"
    "unat (narrow_pext a 0 b 0) = sem_bin BPext w (unat a) (unat b)"
proof -
  have r: "0 + rank_below (unat b) 128 \<le> 128" using rank_below_le [of "unat b" 128] by simp
  note lt = narrow_ok_bit [OF assms(2)]
  show "unat (narrow_pdep a 0 b 0) = sem_bin BPdep w (unat a) (unat b)"
    by (rule bit_eqI) (auto simp: bit_unat narrow_pdep_correct [OF r] sem_bin_def dest: lt)
  show "unat (narrow_pext a 0 b 0) = sem_bin BPext w (unat a) (unat b)"
  proof (rule bit_eqI)
    fix j
    have "rank_below (unat b) i < w" if "bit b i" for i
      using rank_below_le [of "unat b" i] lt [OF that] by simp
    moreover have "(\<exists>p. bit b p \<and> rank_below (unat b) p = j \<and> bit a p) \<longleftrightarrow>
        (\<exists>p<w. bit b p \<and> rank_below (unat b) p = j \<and> bit a p)" using lt by blast
    ultimately show "bit (unat (narrow_pext a 0 b 0)) j = bit (sem_bin BPext w (unat a) (unat b)) j"
      by (auto simp: bit_unat narrow_pext_correct [OF r] sem_bin_def)
  qed
qed


section \<open>The fast path is the specification\<close>

lemma sem_bin_less:
  assumes "width_ok w" "a < 2 ^ w" "b < 2 ^ w"
  shows "sem_bin op w a b < 2 ^ w"
proof -
  have less: "x AND y < 2 ^ w" "x OR y < 2 ^ w" "x XOR y < 2 ^ w" if "x < 2 ^ w" "y < 2 ^ w" for x y :: nat
    using bit_nat_less [OF that(1)] bit_nat_less [OF that(2)]
    by (auto intro!: less_power_bits simp: bit_and_iff bit_or_iff bit_xor_iff)
  have mul: "a * b div 2 ^ w < 2 ^ w"
    using assms(2,3) by (simp add: div_less_iff_less_mult mult_strict_mono)
  show ?thesis
    using assms width_okD [OF assms(1)] less mul one_less_power [of "2::nat" w]
    by (cases op) (auto simp: sem_bin_def le_less_trans [OF div_le_dividend]
        le_less_trans [OF mod_less_eq_dividend])
qed

lemma sem_un_less: "0 < w \<Longrightarrow> a < 2 ^ w \<Longrightarrow> sem_un op w a < 2 ^ w"
proof -
  assume w: "0 < w" "a < 2 ^ w"
  have "length (takeWhile P xs) < 2 ^ w" if "length xs = w" for P and xs :: "nat list"
    using length_takeWhile_le [of P xs] that width_less_power [of w] by (meson le_less_trans order_refl order_trans)
  moreover have "rank_below a w < 2 ^ w" using rank_below_le [of a w] width_less_power [of w] by (rule le_less_trans)
  ultimately show ?thesis using w by (cases op) (simp_all add: sem_un_def)
qed

theorem narrow_bin_correct:
  assumes "width_narrow w" "narrow_ok w a" "narrow_ok w b" "narrow_bin_supported op w"
  shows "unat (narrow_bin op w a b) = sem_bin op w (unat a) (unat b)"
proof -
  have bw: "unat (a AND b) = unat a AND unat b" "unat (a OR b) = unat a OR unat b"
    "unat (a XOR b) = unat a XOR unat b"
    by (simp_all add: unsigned_and_eq unsigned_or_eq unsigned_xor_eq)
  have direct: ?thesis if "op \<in> {BSDiv, BSRem, BAShr, BRotL, BRotR}"
    using that narrow_sdiv_correct(1) [OF assms(1-3)] narrow_srem_correct(1) [OF assms(1-3)]
      narrow_ashr_correct [OF assms(1,2)] narrow_rot_correct [OF assms(1,2)] by auto
  have logic: ?thesis if "op \<in> {BAnd, BOr, BXor}"
    using that bw by (auto simp: narrow_bin_def sem_bin_def)
  have native: ?thesis if "op \<in> {BAdd, BSub, BMul, BUMulHi, BSMulHi, BUDiv, BURem, BShl, BLShr, BPdep, BPext}"
    using that assms(4) narrow_arith [OF assms(1,3)] narrow_umulhi_correct(1) [OF _ assms(2,3)]
      narrow_smulhi_correct [OF assms(1) _ assms(2,3)] narrow_udiv_correct(1,3) [OF assms(1-3)]
      narrow_shl_correct [OF assms(1)] narrow_lshr_correct [OF assms(1)]
      narrow_scatter_correct [OF assms(1,3)]
    by (auto simp: narrow_bin_def narrow_bin_supported_def Let_def)
  show ?thesis using direct logic native by (cases op) simp_all
qed

theorem narrow_bin_ok:
  assumes "width_narrow w" "narrow_ok w a" "narrow_ok w b" "narrow_bin_supported op w"
  shows "narrow_ok w (narrow_bin op w a b)"
  using sem_bin_less [OF width_narrow_ok [OF assms(1)]] assms(2,3)
  by (simp add: narrow_ok_def narrow_bin_correct assms)

theorem narrow_cmp_correct:
  assumes "width_narrow w" "narrow_ok w a" "narrow_ok w b"
  shows "narrow_cmp op w a b = sem_cmp op w (unat a) (unat b)"
  by (cases op) (simp_all add: narrow_cmp_def sem_cmp_def sint_narrow_signed assms word_less_nat_alt
      word_le_nat_alt word_unat_eq_iff)


lemma leading_zeros_0: "leading_zeros (0::'a::len word) = LENGTH('a)"
  unfolding leading_zeros_def by (rule takeWhile_length_eqI) auto

lemma narrow_clz_correct:
  assumes "width_narrow w" "narrow_ok w a"
  shows "leading_zeros a - (128 - w) = sem_un UClz w (unat a)"
proof (cases "a = 0")
  case True
  then show ?thesis using assms by (simp add: leading_zeros_0 sem_clz_0 width_narrow_def)
next
  case False
  define p where "p = 127 - leading_zeros a"
  have z: "leading_zeros a < 128" "bit a p" "\<And>i. p < i \<Longrightarrow> \<not> bit a i"
    using leading_zeros_props [OF False] by (simp_all add: p_def)
  have "p < w" by (rule narrow_ok_bit [OF assms(2) z(2)])
  then have "sem_un UClz w (unat a) = w - 1 - p"
    using z by (intro sem_clz_eqI) (simp_all add: bit_unat)
  then show ?thesis using z(1) \<open>p < w\<close> width_narrowD [OF assms(1)] by (simp add: p_def)
qed

lemma narrow_ctz_correct:
  assumes "narrow_ok w a"
  shows "(if a = 0 then w else trailing_zeros a) = sem_un UCtz w (unat a)"
proof (cases "a = 0")
  case False
  note z = trailing_zeros_props [OF False]
  have "sem_un UCtz w (unat a) = trailing_zeros a"
    using z narrow_ok_bit [OF assms z(2)] by (intro sem_ctz_eqI) (simp_all add: bit_unat)
  then show ?thesis using False by simp
qed (simp add: sem_ctz_0)

lemma bit_reverse_bits_128: "bit (reverse_bits (x::u128)) k \<longleftrightarrow> k < 128 \<and> bit x (127 - k)"
  by (auto simp: reverse_bits_def bit_horner_sum_bit_word_iff)

lemma bit_swap_bytes_128: "bit (swap_bytes (x::u128)) k \<longleftrightarrow> k < 128 \<and> bit x ((15 - k div 8) * 8 + k mod 8)"
  by (auto simp: swap_bytes_def bit_horner_sum_bit_word_iff)

lemma narrow_rev_correct:
  fixes a :: u128
  assumes "width_narrow w"
  shows "unat (drop_bit (128 - w) (reverse_bits a)) = sem_un UBitRev w (unat a)"
    "w mod 8 = 0 \<Longrightarrow> unat (drop_bit (128 - w) (swap_bytes a)) = sem_un UBswap w (unat a)"
proof -
  note w = width_narrowD [OF assms]
  show "unat (drop_bit (128 - w) (reverse_bits a)) = sem_un UBitRev w (unat a)"
  proof (rule bit_eqI)
    fix i
    have "128 - w + i < 128 \<longleftrightarrow> i < w" using w by auto
    moreover have "i < w \<Longrightarrow> 127 - (128 - w + i) = w - 1 - i" using w by simp
    ultimately show "bit (unat (drop_bit (128 - w) (reverse_bits a))) i = bit (sem_un UBitRev w (unat a)) i"
      by (auto simp: bit_unat bit_drop_bit_eq bit_reverse_bits_128 sem_un_def)
  qed
  assume "w mod 8 = 0"
  then obtain n where n: "w = 8 * n" by auto
  then have n16: "n \<le> 16" using w by simp
  show "unat (drop_bit (128 - w) (swap_bytes a)) = sem_un UBswap w (unat a)"
  proof (rule bit_eqI)
    fix i
    have lt: "128 - w + i < 128 \<longleftrightarrow> i < w" using w by auto
    have "128 - w + i = i + 8 * (16 - n)" using n n16 by simp
    then have d: "(128 - w + i) div 8 = i div 8 + (16 - n)" "(128 - w + i) mod 8 = i mod 8"
      by (simp_all only: div_mult_self2 mod_mult_self2)
    have "15 - (i div 8 + (16 - n)) = n - 1 - i div 8" using n16 by simp
    then have "bit (unat (drop_bit (128 - w) (swap_bytes a))) i \<longleftrightarrow> i < w \<and> bit a ((n - 1 - i div 8) * 8 + i mod 8)"
      unfolding bit_unat bit_drop_bit_eq o_apply bit_swap_bytes_128 d lt by simp
    then show "bit (unat (drop_bit (128 - w) (swap_bytes a))) i = bit (sem_un UBswap w (unat a)) i"
      using n by (simp add: sem_un_def bit_unat)
  qed
qed

theorem narrow_un_correct:
  assumes "width_narrow w" "narrow_ok w a" "op = UBswap \<longrightarrow> w mod 8 = 0"
  shows "unat (narrow_un op w a) = sem_un op w (unat a)"
proof -
  note w = width_narrowD [OF assms(1)]
  have a: "unat a < 2 ^ w" using assms(2) by (simp add: narrow_ok_def)
  have s: "unat (word_of_nat n :: u128) = n" if "n \<le> w" for n
    using that w by (intro unat_word_of_nat_128) simp
  have tl: "length (takeWhile P xs) \<le> length xs" for P and xs :: "nat list" by (rule length_takeWhile_le)
  have n: "unat (NOT a AND narrow_mask w) = 2 ^ w - 1 - unat a"
    by (rule bit_eqI)
      (use w in \<open>auto simp: bit_unat bit_and_iff bit_not_iff bit_narrow_mask bit_sem_not [OF a, simplified]\<close>)
  have p: "count_ones a = rank_below (unat a) w"
    using rank_below_less_width [OF a, of "128 - w"] w by (simp add: count_ones_rank)
  have c: "leading_zeros a - (128 - w) \<le> w" "\<not> a = 0 \<Longrightarrow> trailing_zeros a \<le> w"
    using narrow_clz_correct [OF assms(1,2)] narrow_ctz_correct [OF assms(2)] tl [of _ "[0..<w]"] tl [of _ "rev [0..<w]"]
    by (simp_all add: sem_un_def)
  show ?thesis
  proof (cases op)
    case UNot
    then show ?thesis using n by (simp add: narrow_un_def sem_un_def)
  next
    case UNeg
    then show ?thesis using narrow_neg_correct [OF assms(1,2)] by (simp add: narrow_un_def)
  next
    case UPopcnt
    then show ?thesis using s [OF rank_below_le] by (simp add: narrow_un_def p sem_un_def)
  next
    case UClz
    then show ?thesis using s [OF c(1)] narrow_clz_correct [OF assms(1,2)] by (simp add: narrow_un_def)
  next
    case UCtz
    then show ?thesis using s [OF c(2)] s [of w] narrow_ctz_correct [OF assms(2)]
      by (simp add: narrow_un_def split: if_splits)
  next
    case UBswap
    then show ?thesis using narrow_rev_correct(2) [OF assms(1)] assms(3) by (simp add: narrow_un_def)
  next
    case UBitRev
    then show ?thesis using narrow_rev_correct(1) [OF assms(1)] by (simp add: narrow_un_def)
  qed
qed

theorem narrow_un_ok:
  assumes "width_narrow w" "narrow_ok w a" "op = UBswap \<longrightarrow> w mod 8 = 0"
  shows "narrow_ok w (narrow_un op w a)"
  using sem_un_less [OF width_narrowD(1) [OF assms(1)]] assms(2)
  by (simp add: narrow_ok_def narrow_un_correct assms)


interpretation narrow: bv_kernel width_narrow narrow_ok unat narrow_un narrow_bin narrow_bin_supported narrow_cmp
proof
  fix a b :: u128 and w
  show "unat a = unat b \<Longrightarrow> a = b" by (rule unsigned_word_eqI)
  show "width_narrow w \<Longrightarrow> width_ok w" by (simp add: width_narrow_def width_ok_def)
  show "narrow_ok w a \<Longrightarrow> unat a < 2 ^ w" by (simp add: narrow_ok_def)
qed (simp_all add: narrow_un_correct narrow_un_ok narrow_bin_correct narrow_bin_ok narrow_cmp_correct)

end
