(* ===== verification/Errors.thy ===== *)
theory Errors
  imports BW_Prelude
begin

text \<open>
  The error values of \<open>bitwright/src/error.rs\<close> that the modelled operations return, with the
  text \<open>Display\<close> prints for each. A fallible operation returns a sum: \<open>Inl\<close> the error,
  \<open>Inr\<close> the result.
\<close>

section \<open>Numbers as text\<close>

text \<open>\<open>char::from_digit\<close> in lower case, and the digits of a number without leading zeros.\<close>

definition digit_char :: "nat \<Rightarrow> char" where
  "digit_char d = char_of (if d < 10 then 48 + d else 87 + d)"

fun to_radix :: "nat \<Rightarrow> nat \<Rightarrow> string" where
  "to_radix r n =
     (if n < r \<or> r < 2 then [digit_char n] else to_radix r (n div r) @ [digit_char (n mod r)])"

declare to_radix.simps [simp del]

abbreviation dec :: "nat \<Rightarrow> string" where "dec \<equiv> to_radix 10"


section \<open>Errors\<close>

datatype WidthError =
    Invalid nat
  | Mismatch nat nat
  | NotByteMultiple nat
  | NotWider nat nat
  | ExtractRange nat nat nat
  | ConcatTooWide nat nat
  | ConditionWidth nat
  | FpFormat nat nat

datatype ValueError = VWidth WidthError | VDoesNotFit nat

datatype ParseError =
    MissingWidth
  | BadWidth WidthError
  | BadDigit nat
  | PDoesNotFit nat

definition width_error_text :: "WidthError \<Rightarrow> string" where
  "width_error_text e = (case e of
     Invalid bits \<Rightarrow> ''width '' @ dec bits @ '' is outside 1..=512''
   | Mismatch l r \<Rightarrow>
       ''operand widths differ ('' @ dec l @ '' vs '' @ dec r @
       ''); insert an explicit zext/sext/trunc''
   | NotByteMultiple bits \<Rightarrow>
       ''bswap needs a width that is a multiple of 8, got '' @ dec bits
   | NotWider from to \<Rightarrow>
       ''extension from '' @ dec from @ '' bits to '' @ dec to @ '' bits does not widen''
   | ExtractRange width lo len \<Rightarrow>
       ''extract of bits ['' @ dec lo @ '', '' @ dec lo @ ''+'' @ dec len @
       '') does not fit in a '' @ dec width @ ''-bit value''
   | ConcatTooWide hi lo \<Rightarrow>
       ''concatenation of '' @ dec hi @ '' and '' @ dec lo @ '' bits exceeds 512 bits''
   | ConditionWidth bits \<Rightarrow>
       ''select condition must be 1 bit wide, got '' @ dec bits
   | FpFormat eb sb \<Rightarrow>
       ''floating-point format ('' @ dec eb @ '', '' @ dec sb @
       '') is outside 2 <= eb <= 31, sb >= 2, eb + sb <= 512'')"

definition value_error_text :: "ValueError \<Rightarrow> string" where
  "value_error_text e = (case e of
     VWidth we \<Rightarrow> width_error_text we
   | VDoesNotFit width \<Rightarrow>
       ''value does not fit in '' @ dec width @ '' bits; use a wrapping constructor to truncate'')"

definition parse_error_text :: "ParseError \<Rightarrow> string" where
  "parse_error_text e = (case e of
     MissingWidth \<Rightarrow> ''literal needs a width, e.g. `0xff:8`''
   | BadWidth we \<Rightarrow> width_error_text we
   | BadDigit at \<Rightarrow> ''invalid digit at byte '' @ dec at
   | PDoesNotFit width \<Rightarrow> ''literal does not fit in '' @ dec width @ '' bits'')"


section \<open>Reading digits back\<close>

text \<open>\<open>char::to_digit\<close> for a radix of at most 36.\<close>

definition to_digit :: "nat \<Rightarrow> char \<Rightarrow> nat option" where
  "to_digit radix ch =
     (let c = of_char ch;
          d = (if 48 \<le> c \<and> c \<le> 57 then Some (c - 48)
               else if 97 \<le> c \<and> c \<le> 122 then Some (c - 87)
               else if 65 \<le> c \<and> c \<le> 90 then Some (c - 55)
               else None)
      in case d of None \<Rightarrow> None | Some d \<Rightarrow> if d < radix then Some d else None)"

definition radix_value :: "nat \<Rightarrow> nat list \<Rightarrow> nat" where
  "radix_value r ds = foldl (\<lambda>acc d. acc * r + d) 0 ds"

lemma radix_value_snoc [simp]: "radix_value r (ds @ [d]) = radix_value r ds * r + d"
  by (simp add: radix_value_def)

lemma radix_value_Nil [simp]: "radix_value r [] = 0"
  by (simp add: radix_value_def)

lemma radix_value_append: "radix_value r (xs @ ys) = radix_value r xs * r ^ length ys + radix_value r ys"
proof (induction ys rule: rev_induct)
  case (snoc y ys)
  then show ?case by (simp add: append_assoc [symmetric] algebra_simps del: append_assoc)
qed simp

lemma to_digit_char: "d < r \<Longrightarrow> r \<le> 36 \<Longrightarrow> to_digit r (digit_char d) = Some d"
  by (auto simp: to_digit_def digit_char_def Let_def)

text \<open>Printing a number gives digits whose value is the number, with no leading zero.\<close>

lemma to_radix_correct:
  assumes "2 \<le> r" "r \<le> 36"
  shows "map (to_digit r) (to_radix r n) = map Some (map (the \<circ> to_digit r) (to_radix r n)) \<and>
    radix_value r (map (the \<circ> to_digit r) (to_radix r n)) = n \<and> to_radix r n \<noteq> []"
  using assms
proof (induction r n rule: to_radix.induct)
  case (1 r n)
  show ?case
  proof (cases "n < r")
    case True
    then show ?thesis using "1.prems" by (simp add: to_radix.simps [of r n] to_digit_char radix_value_def)
  next
    case False
    then have s: "to_radix r n = to_radix r (n div r) @ [digit_char (n mod r)]"
      using "1.prems" by (simp add: to_radix.simps [of r n])
    have "n mod r < r" using "1.prems" by simp
    then have "to_digit r (digit_char (n mod r)) = Some (n mod r)" using "1.prems" by (simp add: to_digit_char)
    then show ?thesis using "1.IH" "1.prems" False by (simp add: s)
  qed
qed

lemma to_radix_digits: "2 \<le> r \<Longrightarrow> r \<le> 36 \<Longrightarrow> c \<in> set (to_radix r n) \<Longrightarrow> \<exists>d<r. c = digit_char d"
proof (induction r n rule: to_radix.induct)
  case (1 r n)
  show ?case
  proof (cases "n < r")
    case True
    then show ?thesis using "1.prems" by (auto simp: to_radix.simps [of r n])
  next
    case False
    have "n mod r < r" using "1.prems" by simp
    then have "\<exists>d<r. digit_char (n mod r) = digit_char d" by blast
    then show ?thesis using "1.IH" "1.prems" False by (auto simp: to_radix.simps [of r n])
  qed
qed

end
