(* ===== verification/BitVec.thy ===== *)
theory BitVec
  imports Narrow Errors
begin

unbundle bit_operations_syntax

text \<open>
  The exact bit-vector value of \<open>bitwright/src/value/mod.rs\<close>: construction, inspection, the
  dispatch of every operator between the native path and the limb path, and the conversions
  between widths with their errors. A \<open>Width\<close> is the number it wraps; \<open>Width::new\<close> is
  \<open>Width_new\<close>, and \<open>width_ok\<close> holds of every width it returns.
\<close>

section \<open>Widths\<close>

definition MAX_BITS :: nat where "MAX_BITS = 512"

definition Width_new :: "nat \<Rightarrow> WidthError + nat" where
  "Width_new bits = (if bits \<noteq> 0 \<and> bits \<le> MAX_BITS then Inr bits else Inl (Invalid bits))"

definition is_narrow :: "nat \<Rightarrow> bool" where "is_narrow w \<longleftrightarrow> w \<le> 128"


section \<open>Construction and inspection\<close>

record BitVec =
  bv_width :: nat
  bv_limbs :: limbs

definition from_canonical :: "nat \<Rightarrow> limbs \<Rightarrow> BitVec" where
  "from_canonical w l = \<lparr>bv_width = w, bv_limbs = l\<rparr>"

definition from_canonical_u64 :: "nat \<Rightarrow> u64 \<Rightarrow> BitVec" where
  "from_canonical_u64 w x = \<lparr>bv_width = w, bv_limbs = zero_limbs[0 := x]\<rparr>"

definition from_u128_masked :: "nat \<Rightarrow> u128 \<Rightarrow> BitVec" where
  "from_u128_masked w v =
     (let limbs = zero_limbs[0 := ucast v, 1 := ucast (drop_bit 64 v)]
      in \<lparr>bv_width = w, bv_limbs = mask_top limbs w\<rparr>)"

definition bv_zero :: "nat \<Rightarrow> BitVec" where
  "bv_zero w = \<lparr>bv_width = w, bv_limbs = zero_limbs\<rparr>"

definition bv_one :: "nat \<Rightarrow> BitVec" where "bv_one w = from_u128_masked w 1"

definition bv_ones :: "nat \<Rightarrow> BitVec" where
  "bv_ones w = \<lparr>bv_width = w, bv_limbs = wide_ones w\<rparr>"

definition bv_smin :: "nat \<Rightarrow> BitVec" where
  "bv_smin w =
     (let tp = w - 1
      in \<lparr>bv_width = w, bv_limbs = zero_limbs[tp div 64 := push_bit (tp mod 64) 1]\<rparr>)"

definition bv_smax :: "nat \<Rightarrow> BitVec" where
  "bv_smax w =
     (let v = bv_limbs (bv_ones w); tp = w - 1
      in \<lparr>bv_width = w,
          bv_limbs = v[tp div 64 := v ! (tp div 64) AND NOT (push_bit (tp mod 64) 1)]\<rparr>)"

definition low_u128 :: "BitVec \<Rightarrow> u128" where
  "low_u128 v = ucast (bv_limbs v ! 0) OR push_bit 64 (ucast (bv_limbs v ! 1))"

definition to_u128 :: "BitVec \<Rightarrow> u128 option" where
  "to_u128 v =
     (if list_ex (\<lambda>x. x \<noteq> 0) (drop 2 (bv_limbs v)) then None
      else Some (ucast (bv_limbs v ! 0) OR push_bit 64 (ucast (bv_limbs v ! 1))))"

definition to_u64 :: "BitVec \<Rightarrow> u64 option" where
  "to_u64 v =
     (case to_u128 v of None \<Rightarrow> None
      | Some x \<Rightarrow> if unat x < 2 ^ 64 then Some (ucast x) else None)"

definition bit_unchecked :: "BitVec \<Rightarrow> nat \<Rightarrow> bool" where
  "bit_unchecked v i = wide_bit (bv_limbs v) i"

definition to_i128 :: "BitVec \<Rightarrow> int option" where
  "to_i128 v =
     (let w = bv_width v
      in if w \<le> 128 then Some (sint (narrow_signed (low_u128 v) w))
         else let sign = bit_unchecked v 127;
                  fits = list_all (\<lambda>i. bit_unchecked v i = sign) [128..<w]
              in if fits then Some (sint (low_u128 v)) else None)"

definition from_u128 :: "nat \<Rightarrow> u128 \<Rightarrow> ValueError + BitVec" where
  "from_u128 w v =
     (let r = from_u128_masked w v
      in if to_u128 r = Some v then Inr r else Inl (VDoesNotFit w))"

definition from_u64 :: "nat \<Rightarrow> u64 \<Rightarrow> ValueError + BitVec" where
  "from_u64 w v = from_u128 w (ucast v)"

definition wrapping_from_u64 :: "nat \<Rightarrow> u64 \<Rightarrow> BitVec" where
  "wrapping_from_u64 w v = from_u128_masked w (ucast v)"

definition wrapping_from_u128 :: "nat \<Rightarrow> u128 \<Rightarrow> BitVec" where
  "wrapping_from_u128 w v = from_u128_masked w v"

definition wrapping_from_i128 :: "nat \<Rightarrow> u128 \<Rightarrow> BitVec" where
  "wrapping_from_i128 w v =
     (let fill = (if sint v < 0 then - 1 else 0);
          limbs = (replicate MAX_LIMBS fill)[0 := ucast v, 1 := ucast (signed_drop_bit 64 v)]
      in \<lparr>bv_width = w, bv_limbs = mask_top limbs w\<rparr>)"

definition from_i128 :: "nat \<Rightarrow> u128 \<Rightarrow> ValueError + BitVec" where
  "from_i128 w v =
     (let r = wrapping_from_i128 w v
      in if to_i128 r = Some (sint v) then Inr r else Inl (VDoesNotFit w))"

definition wrapping_from_limbs :: "nat \<Rightarrow> limbs \<Rightarrow> BitVec" where
  "wrapping_from_limbs w limbs =
     (let l = take MAX_LIMBS limbs @ replicate (MAX_LIMBS - length limbs) 0
      in \<lparr>bv_width = w, bv_limbs = mask_top l w\<rparr>)"

definition from_limbs :: "nat \<Rightarrow> limbs \<Rightarrow> ValueError + BitVec" where
  "from_limbs w limbs =
     (let r = wrapping_from_limbs w limbs;
          fits = list_all (\<lambda>i. limbs ! i = (if i < MAX_LIMBS then bv_limbs r ! i else 0))
                   [0..<length limbs]
      in if fits then Inr r else Inl (VDoesNotFit w))"

definition active_limbs :: "BitVec \<Rightarrow> limbs" where
  "active_limbs v = take (nlimbs (bv_width v)) (bv_limbs v)"

definition bv_bit :: "BitVec \<Rightarrow> nat \<Rightarrow> bool option" where
  "bv_bit v i = (if i < bv_width v then Some (bit_unchecked v i) else None)"

definition bv_msb :: "BitVec \<Rightarrow> bool" where
  "bv_msb v = wide_msb (bv_limbs v) (bv_width v)"

definition bv_is_zero :: "BitVec \<Rightarrow> bool" where
  "bv_is_zero v = wide_is_zero (bv_limbs v)"

definition bv_is_ones :: "BitVec \<Rightarrow> bool" where
  "bv_is_ones v \<longleftrightarrow> bv_limbs v = wide_ones (bv_width v)"


section \<open>Operators\<close>

definition un_unchecked :: "UnOp \<Rightarrow> BitVec \<Rightarrow> BitVec" where
  "un_unchecked op a =
     (let w = bv_width a
      in if w \<le> 128 then from_u128_masked w (narrow_un op w (low_u128 a))
         else from_canonical w (wide_un op w (bv_limbs a)))"

definition apply_un :: "UnOp \<Rightarrow> BitVec \<Rightarrow> WidthError + BitVec" where
  "apply_un op a =
     (let w = bv_width a
      in if op = UBswap \<and> w mod 8 \<noteq> 0 then Inl (NotByteMultiple w) else Inr (un_unchecked op a))"

definition same_width :: "BitVec \<Rightarrow> BitVec \<Rightarrow> WidthError + unit" where
  "same_width a b =
     (if bv_width a \<noteq> bv_width b then Inl (Mismatch (bv_width a) (bv_width b)) else Inr ())"

definition bin_unchecked :: "BinOp \<Rightarrow> BitVec \<Rightarrow> BitVec \<Rightarrow> BitVec" where
  "bin_unchecked op a b =
     (let w = bv_width a
      in if w \<le> 128 \<and> narrow_bin_supported op w
         then from_u128_masked w (narrow_bin op w (low_u128 a) (low_u128 b))
         else from_canonical w (wide_bin op w (bv_limbs a) (bv_limbs b)))"

definition apply_bin :: "BinOp \<Rightarrow> BitVec \<Rightarrow> BitVec \<Rightarrow> WidthError + BitVec" where
  "apply_bin op a b =
     (case same_width a b of Inl e \<Rightarrow> Inl e | Inr _ \<Rightarrow> Inr (bin_unchecked op a b))"

definition cmp_unchecked :: "CmpOp \<Rightarrow> BitVec \<Rightarrow> BitVec \<Rightarrow> bool" where
  "cmp_unchecked op a b =
     (let w = bv_width a
      in if w \<le> 128 then narrow_cmp op w (low_u128 a) (low_u128 b)
         else wide_cmp op w (bv_limbs a) (bv_limbs b))"

definition apply_cmp :: "CmpOpExt \<Rightarrow> BitVec \<Rightarrow> BitVec \<Rightarrow> WidthError + bool" where
  "apply_cmp op a b =
     (case same_width a b of
        Inl e \<Rightarrow> Inl e
      | Inr _ \<Rightarrow>
          let (op, swap) = canonical op;
              (a, b) = (if swap then (b, a) else (a, b))
          in Inr (cmp_unchecked op a b))"

definition check_widen :: "BitVec \<Rightarrow> nat \<Rightarrow> WidthError + unit" where
  "check_widen v to = (if to < bv_width v then Inl (NotWider (bv_width v) to) else Inr ())"

definition bv_zext :: "BitVec \<Rightarrow> nat \<Rightarrow> WidthError + BitVec" where
  "bv_zext v to =
     (case check_widen v to of
        Inl e \<Rightarrow> Inl e | Inr _ \<Rightarrow> Inr \<lparr>bv_width = to, bv_limbs = bv_limbs v\<rparr>)"

definition bv_sext :: "BitVec \<Rightarrow> nat \<Rightarrow> WidthError + BitVec" where
  "bv_sext v to =
     (case check_widen v to of
        Inl e \<Rightarrow> Inl e
      | Inr _ \<Rightarrow> Inr \<lparr>bv_width = to, bv_limbs = wide_sext (bv_limbs v) (bv_width v) to\<rparr>)"

definition bv_extract :: "BitVec \<Rightarrow> nat \<Rightarrow> nat \<Rightarrow> WidthError + BitVec" where
  "bv_extract v lo n =
     (let w = bv_width v
      in if lo + n > w then Inl (ExtractRange w lo n)
         else Inr \<lparr>bv_width = n, bv_limbs = wide_extract (bv_limbs v) lo n\<rparr>)"

definition bv_trunc :: "BitVec \<Rightarrow> nat \<Rightarrow> WidthError + BitVec" where
  "bv_trunc v to = bv_extract v 0 to"

definition bv_concat :: "BitVec \<Rightarrow> BitVec \<Rightarrow> WidthError + BitVec" where
  "bv_concat hi lo =
     (let total = bv_width hi + bv_width lo
      in case (if total < 2 ^ 16 then Width_new total else Inl (Invalid total)) of
           Inl _ \<Rightarrow> Inl (ConcatTooWide (bv_width hi) (bv_width lo))
         | Inr w \<Rightarrow> Inr \<lparr>bv_width = w, bv_limbs = wide_concat (bv_limbs hi) (bv_limbs lo) (bv_width lo)\<rparr>)"

definition bv_select :: "BitVec \<Rightarrow> BitVec \<Rightarrow> BitVec \<Rightarrow> WidthError + BitVec" where
  "bv_select c t f =
     (if bv_width c \<noteq> 1 then Inl (ConditionWidth (bv_width c))
      else case same_width t f of
             Inl e \<Rightarrow> Inl e
           | Inr _ \<Rightarrow> Inr (if bv_is_zero c then f else t))"

definition from_bool :: "bool \<Rightarrow> BitVec" where
  "from_bool b = from_u128_masked 1 (of_bool b)"

text \<open>\<open>Ord for BitVec\<close>: by width, then by the limbs from the top.\<close>

datatype ordering = Less | Equal | Greater

definition ord_of :: "'a::linorder \<Rightarrow> 'a \<Rightarrow> ordering" where
  "ord_of x y = (if x < y then Less else if x = y then Equal else Greater)"

fun iter_cmp :: "u64 list \<Rightarrow> u64 list \<Rightarrow> ordering" where
  "iter_cmp [] [] = Equal"
| "iter_cmp [] (y # ys) = Less"
| "iter_cmp (x # xs) [] = Greater"
| "iter_cmp (x # xs) (y # ys) = (case ord_of x y of Equal \<Rightarrow> iter_cmp xs ys | o1 \<Rightarrow> o1)"

definition bv_cmp :: "BitVec \<Rightarrow> BitVec \<Rightarrow> ordering" where
  "bv_cmp a b =
     (case ord_of (bv_width a) (bv_width b) of
        Equal \<Rightarrow> iter_cmp (rev (bv_limbs a)) (rev (bv_limbs b))
      | o1 \<Rightarrow> o1)"


section \<open>The invariant and the abstraction\<close>

definition bv_ok :: "BitVec \<Rightarrow> bool" where
  "bv_ok v \<longleftrightarrow> width_ok (bv_width v) \<and> limbs_ok (bv_width v) (bv_limbs v)"

definition bv_val :: "BitVec \<Rightarrow> nat" where
  "bv_val v = lval (bv_limbs v)"

lemma bv_okD: "bv_ok v \<Longrightarrow> width_ok (bv_width v)" "bv_ok v \<Longrightarrow> limbs_ok (bv_width v) (bv_limbs v)"
  "bv_ok v \<Longrightarrow> bv_val v < 2 ^ bv_width v" "bv_ok v \<Longrightarrow> length (bv_limbs v) = 8"
  by (auto simp: bv_ok_def bv_val_def limbs_ok_less dest: limbs_ok_length)

text \<open>Derived equality is exact: same width and same value is the same record.\<close>

theorem bv_eqI: "bv_ok a \<Longrightarrow> bv_ok b \<Longrightarrow> bv_width a = bv_width b \<Longrightarrow> bv_val a = bv_val b \<Longrightarrow> a = b"
  by (cases a, cases b) (auto simp: bv_ok_def bv_val_def lval_inject)

lemma lval_two: "lval (zero_limbs[0 := ucast v, 1 := ucast (drop_bit 64 v)]) = unat (v::u128)"
proof -
  have "lval (zero_limbs[0 := ucast v, 1 := ucast (drop_bit 64 v)]) =
      unat (ucast v :: u64) + B64 * unat (ucast (drop_bit 64 v) :: u64)"
    by (simp add: MAX_LIMBS_def numeral_eq_Suc)
  also have "unat v div B64 < B64"
    using unsigned_less [of v] by (simp add: div_less_iff_less_mult B64_def)
  then have "unat (ucast (drop_bit 64 v) :: u64) = unat v div B64"
    by (simp add: unat_ucast_u64 unat_drop_64)
  finally show ?thesis by (simp add: unat_ucast_u64)
qed

lemma from_u128_masked_correct:
  assumes "width_ok w"
  shows "bv_ok (from_u128_masked w v)" "bv_width (from_u128_masked w v) = w"
    "bv_val (from_u128_masked w v) = unat v mod 2 ^ w"
proof -
  have l: "length (zero_limbs[0 := ucast v, 1 := ucast (drop_bit 64 v)]) = 8" by (simp add: MAX_LIMBS_def)
  show "bv_ok (from_u128_masked w v)" "bv_width (from_u128_masked w v) = w"
    using mask_top_ok [OF assms l] assms by (simp_all add: from_u128_masked_def bv_ok_def Let_def)
  show "bv_val (from_u128_masked w v) = unat v mod 2 ^ w"
    using lval_mask_top [of w "zero_limbs[0 := ucast v, 1 := ucast (drop_bit 64 v)]"] assms l lval_two [of v]
    by (simp add: from_u128_masked_def bv_val_def width_ok_def Let_def)
qed

lemma unat_low_u128:
  assumes "length (bv_limbs v) = 8"
  shows "unat (low_u128 v) = bv_val v mod 2 ^ 128"
proof -
  have "unat (low_u128 v) = unat (bv_limbs v ! 1) * B64 + unat (bv_limbs v ! 0)"
    unfolding low_u128_def or.commute [of "ucast (bv_limbs v ! 0)"]
    by (subst unat_push_64_or) (simp_all add: unat_less_B64)
  also have "\<dots> = lval (take 2 (bv_limbs v))"
    using assms by (simp add: numeral_2_eq_2 lval_take_Suc)
  finally show ?thesis by (simp add: lval_take bv_val_def)
qed

lemma low_u128_narrow:
  assumes "bv_ok v" "bv_width v \<le> 128"
  shows "unat (low_u128 v) = bv_val v" "narrow_ok (bv_width v) (low_u128 v)"
proof -
  have "bv_val v < 2 ^ bv_width v" using bv_okD(3) [OF assms(1)] .
  moreover have "(2::nat) ^ bv_width v \<le> 2 ^ 128" using assms(2) by (rule power_increasing) simp
  ultimately show "unat (low_u128 v) = bv_val v" "narrow_ok (bv_width v) (low_u128 v)"
    using unat_low_u128 [OF bv_okD(4) [OF assms(1)]] by (simp_all add: narrow_ok_def)
qed



section \<open>Constructors\<close>

lemma wide_ones_ok: "width_ok w \<Longrightarrow> limbs_ok w (wide_ones w)"
  unfolding wide_ones_def by (rule mask_top_ok) (simp_all add: MAX_LIMBS_def)

lemma bv_width_const [simp]:
  "bv_width (bv_zero w) = w" "bv_width (bv_one w) = w" "bv_width (bv_ones w) = w"
  by (simp_all add: bv_zero_def bv_one_def bv_ones_def from_u128_masked_def Let_def)

lemma bv_const:
  assumes "width_ok w"
  shows "bv_ok (bv_zero w)" "bv_val (bv_zero w) = 0"
    "bv_ok (bv_one w)" "bv_val (bv_one w) = 1 mod 2 ^ w"
    "bv_ok (bv_ones w)" "bv_val (bv_ones w) = 2 ^ w - 1"
  using assms width_okD [OF assms] from_u128_masked_correct [OF assms, of 1]
  by (auto simp: bv_zero_def bv_one_def bv_ones_def bv_ok_def bv_val_def lval_wide_ones MAX_LIMBS_def
      wide_ones_ok)

lemma lval_single_bit:
  assumes "i < 512"
  shows "lval ((replicate 8 0)[i div 64 := push_bit (i mod 64) 1]) = 2 ^ i"
proof (rule bit_eqI)
  fix j
  have i: "i div 64 < 8" "i mod 64 < 64" using assms by auto
  have e: "j = i \<longleftrightarrow> j div 64 = i div 64 \<and> j mod 64 = i mod 64" by (metis div_mult_mod_eq)
  have "j div 64 = i div 64 \<Longrightarrow> j < 512" using i(1) div_less_8 by metis
  then show "bit (lval ((replicate 8 0)[i div 64 := push_bit (i mod 64) 1])) j = bit ((2::nat) ^ i) j"
    using i e by (auto simp: bit_lval8 nth_list_update bit_simps possible_bit_word bit_exp_iff)
qed

lemma bv_smin_correct:
  assumes "width_ok w"
  shows "bv_ok (bv_smin w)" "bv_val (bv_smin w) = 2 ^ (w - 1)"
proof -
  show v: "bv_val (bv_smin w) = 2 ^ (w - 1)"
    using lval_single_bit [OF less_le_trans [OF diff_less [OF zero_less_one width_okD(1) [OF assms]] width_okD(2) [OF assms]]]
    by (simp add: bv_smin_def bv_val_def MAX_LIMBS_def Let_def width_ok_def del: push_bit_of_1)
  show "bv_ok (bv_smin w)"
    using v assms by (simp add: bv_ok_def bv_smin_def bv_val_def limbs_ok_def MAX_LIMBS_def Let_def width_ok_def
        del: push_bit_of_1)
qed

lemma bit_clear:
  assumes "length l = 8" "i < 512"
  shows "bit (lval (l[i div 64 := l ! (i div 64) AND NOT (push_bit (i mod 64) 1)])) j \<longleftrightarrow> bit (lval l) j \<and> j \<noteq> i"
proof -
  have i: "i div 64 < 8" "i mod 64 < 64" using assms(2) by auto
  have e: "j = i \<longleftrightarrow> j div 64 = i div 64 \<and> j mod 64 = i mod 64" by (metis div_mult_mod_eq)
  show ?thesis
    using i assms(1) unfolding e by (auto simp: bit_lval8 nth_list_update bit_simps possible_bit_word dest: bit_imp_le_length)
qed

lemma bv_smax_correct:
  assumes "width_ok w"
  shows "bv_ok (bv_smax w)" "bv_val (bv_smax w) = 2 ^ (w - 1) - 1"
proof -
  note w = width_okD [OF assms]
  have b: "bit (bv_val (bv_smax w)) j \<longleftrightarrow> j < w - 1" for j
    using w by (auto simp: bv_smax_def bv_val_def bv_ones_def Let_def bit_clear bit_wide_ones simp del: push_bit_of_1)
  show "bv_val (bv_smax w) = 2 ^ (w - 1) - 1"
    by (rule bit_eqI) (simp only: b bit_mask_iff mask_eq_exp_minus_1 [symmetric], simp)
  have "limbs_ok w (bv_limbs (bv_smax w))"
  proof (rule limbs_okI)
    show "length (bv_limbs (bv_smax w)) = 8" by (simp add: bv_smax_def bv_ones_def Let_def)
    show "i < w" if "bit (lval (bv_limbs (bv_smax w))) i" for i using that b [of i] by (simp add: bv_val_def)
  qed
  moreover have "bv_width (bv_smax w) = w" by (simp add: bv_smax_def Let_def)
  ultimately show "bv_ok (bv_smax w)" using assms by (simp add: bv_ok_def)
qed

lemma any_high_limb: "length l = 8 \<Longrightarrow> list_ex (\<lambda>x. x \<noteq> 0) (drop 2 l) \<longleftrightarrow> 2 ^ 128 \<le> lval l"
proof -
  assume l: "length l = 8"
  have "list_ex (\<lambda>x. x \<noteq> 0) (drop 2 l) \<longleftrightarrow> lval (drop 2 l) \<noteq> 0"
    using wide_is_zero_iff [of "drop 2 l"] unfolding wide_is_zero_def list_ex_iff list_all_iff by metis
  also have "lval l = lval (take 2 l) + B64 ^ 2 * lval (drop 2 l)" using l lval_drop [of 2 l] by simp
  then have "lval (drop 2 l) \<noteq> 0 \<longleftrightarrow> B64 ^ 2 \<le> lval l"
    using lval_take_less [of 2 l] l by (cases "lval (drop 2 l)") auto
  finally show ?thesis by (simp add: B64_power)
qed

lemma to_u128_correct:
  assumes "bv_ok v"
  shows "to_u128 v = (if bv_val v < 2 ^ 128 then Some (word_of_nat (bv_val v)) else None)"
proof -
  have "low_u128 v = word_of_nat (bv_val v)" if "bv_val v < 2 ^ 128"
    using that unat_low_u128 [OF bv_okD(4) [OF assms]]
    by (simp add: word_unat_eq_iff unsigned_of_nat take_bit_nat_eq_self)
  then show ?thesis
    using any_high_limb [OF bv_okD(4) [OF assms]] by (simp add: to_u128_def low_u128_def bv_val_def not_le [symmetric])
qed

lemma to_u64_correct:
  assumes "bv_ok v"
  shows "to_u64 v = (if bv_val v < 2 ^ 64 then Some (word_of_nat (bv_val v)) else None)"
proof (cases "bv_val v < 2 ^ 128")
  case True
  then have "unat (word_of_nat (bv_val v) :: u128) = bv_val v"
    by (simp add: unsigned_of_nat take_bit_nat_eq_self)
  then show ?thesis using True by (auto simp: to_u64_def to_u128_correct assms unsigned_ucast_eq word_unat_eq_iff
      unsigned_of_nat take_bit_nat_eq_self)
next
  case False
  then have "\<not> bv_val v < 2 ^ 64" by simp
  then show ?thesis using False by (simp add: to_u64_def to_u128_correct assms)
qed

lemma from_u128_correct:
  assumes "width_ok w"
  shows "from_u128 w v = (if unat v < 2 ^ w then Inr (from_u128_masked w v) else Inl (VDoesNotFit w))"
proof -
  note m = from_u128_masked_correct [OF assms, of v]
  have v: "unat v < 2 ^ 128" using unsigned_less [of v] by simp
  then have lt: "unat v mod 2 ^ w < 2 ^ 128" by (rule le_less_trans [OF mod_less_eq_dividend])
  have "to_u128 (from_u128_masked w v) = Some v \<longleftrightarrow> unat v mod 2 ^ w = unat v"
    using lt by (simp add: to_u128_correct m word_unat_eq_iff unsigned_of_nat take_bit_nat_eq_self)
  also have "\<dots> \<longleftrightarrow> unat v < 2 ^ w" by (metis mod_less mod_less_divisor zero_less_power zero_less_numeral)
  finally show ?thesis by (simp add: from_u128_def Let_def)
qed

lemma wrapping_from_limbs_correct:
  assumes "width_ok w"
  shows "bv_ok (wrapping_from_limbs w l)" "bv_width (wrapping_from_limbs w l) = w"
    "bv_val (wrapping_from_limbs w l) = lval l mod 2 ^ w"
proof -
  define p where "p = take MAX_LIMBS l @ replicate (MAX_LIMBS - length l) (0::u64)"
  have p: "length p = 8" by (simp add: p_def MAX_LIMBS_def min_def)
  have "lval p = lval l mod 2 ^ 512"
    by (simp add: p_def lval_append lval_take MAX_LIMBS_def)
  moreover have "(2::nat) ^ w dvd 2 ^ 512" using assms by (intro le_imp_power_dvd) (simp add: width_ok_def)
  ultimately have "lval p mod 2 ^ w = lval l mod 2 ^ w" by (simp add: mod_mod_cancel)
  then show "bv_val (wrapping_from_limbs w l) = lval l mod 2 ^ w"
    using assms p lval_mask_top [of w p]
    by (simp add: wrapping_from_limbs_def bv_val_def Let_def width_ok_def flip: p_def)
  show "bv_ok (wrapping_from_limbs w l)" "bv_width (wrapping_from_limbs w l) = w"
    using mask_top_ok [OF assms p] assms by (simp_all add: wrapping_from_limbs_def bv_ok_def Let_def flip: p_def)
qed

lemma lval_eq_iff: "length a = length b \<Longrightarrow> lval a = lval b \<longleftrightarrow> a = b"
  using limbs_eqI by auto

lemma from_limbs_correct:
  assumes "width_ok w"
  shows "from_limbs w l = (if lval l < 2 ^ w then Inr (wrapping_from_limbs w l) else Inl (VDoesNotFit w))"
proof -
  define r where "r = bv_limbs (wrapping_from_limbs w l)"
  note c = wrapping_from_limbs_correct [OF assms, of l]
  have r: "length r = 8" "lval r = lval l mod 2 ^ w"
    using bv_okD(4) [OF c(1)] c(3) by (simp_all add: r_def bv_val_def)
  define k where "k = map (\<lambda>i. if i < 8 then r ! i else 0) [0..<length l]"
  have k0: "k = take (length l) r @ replicate (length l - 8) 0"
    by (rule nth_equalityI) (auto simp: k_def r nth_append)
  have fit: "list_all (\<lambda>i. l ! i = (if i < MAX_LIMBS then r ! i else 0)) [0..<length l] \<longleftrightarrow> l = k"
  proof -
    have "length k = length l" "\<And>i. i < length l \<Longrightarrow> k ! i = (if i < 8 then r ! i else 0)"
      by (simp_all add: k_def)
    then show ?thesis unfolding list_eq_iff_nth_eq [of l k] list_all_length MAX_LIMBS_def by simp
  qed
  have "l = k \<longleftrightarrow> lval l < 2 ^ w"
  proof
    assume lk: "l = k"
    have "lval k = lval r mod 2 ^ (64 * length l)" by (simp add: k0 lval_append lval_take)
    then have "lval k \<le> lval r" by (simp add: mod_less_eq_dividend)
    then have "lval l \<le> lval r" using arg_cong [OF lk, of lval] by simp
    moreover have "lval r < 2 ^ w" by (simp add: r)
    ultimately show "lval l < 2 ^ w" by simp
  next
    assume "lval l < 2 ^ w"
    then have "lval r = lval l" using r by simp
    moreover have "lval l < B64 ^ length l" by (rule lval_less)
    ultimately have "lval k = lval l"
      by (simp add: k0 lval_append lval_take B64_power)
    then show "l = k" by (intro limbs_eqI) (simp_all add: k_def)
  qed
  then show ?thesis unfolding from_limbs_def Let_def r_def [symmetric] fit by simp
qed


section \<open>Operators are the specification\<close>

theorem un_unchecked_correct:
  assumes "bv_ok a" "op = UBswap \<longrightarrow> bv_width a mod 8 = 0"
  shows "bv_ok (un_unchecked op a)" "bv_width (un_unchecked op a) = bv_width a"
    "bv_val (un_unchecked op a) = sem_un op (bv_width a) (bv_val a)"
proof -
  define w where "w = bv_width a"
  have w: "width_ok w" "0 < w" and a: "bv_val a < 2 ^ w"
    using bv_okD [OF assms(1)] by (simp_all add: w_def width_okD)
  have "bv_ok (un_unchecked op a) \<and> bv_width (un_unchecked op a) = w \<and>
      bv_val (un_unchecked op a) = sem_un op w (bv_val a)"
  proof (cases "w \<le> 128")
    case True
    have n: "width_narrow w" using True w by (simp add: width_narrow_def)
    have l: "unat (low_u128 a) = bv_val a" "narrow_ok w (low_u128 a)"
      using low_u128_narrow [OF assms(1)] True by (simp_all add: w_def)
    have "unat (narrow_un op w (low_u128 a)) = sem_un op w (bv_val a)"
      using narrow_un_correct [OF n l(2)] assms(2) l(1) by (simp add: w_def)
    then show ?thesis
      using True from_u128_masked_correct [OF w(1)] sem_un_less [OF w(2) a]
      by (simp add: un_unchecked_def Let_def flip: w_def)
  next
    case False
    then show ?thesis
      using wide_un_correct [of w "bv_limbs a" op] assms w
      by (simp add: un_unchecked_def Let_def from_canonical_def bv_ok_def bv_val_def flip: w_def)
  qed
  then show "bv_ok (un_unchecked op a)" "bv_width (un_unchecked op a) = bv_width a"
    "bv_val (un_unchecked op a) = sem_un op (bv_width a) (bv_val a)" by (simp_all add: w_def)
qed

theorem bin_unchecked_correct:
  assumes "bv_ok a" "bv_ok b" "bv_width a = bv_width b"
  shows "bv_ok (bin_unchecked op a b)" "bv_width (bin_unchecked op a b) = bv_width a"
    "bv_val (bin_unchecked op a b) = sem_bin op (bv_width a) (bv_val a) (bv_val b)"
proof -
  define w where "w = bv_width a"
  have w: "width_ok w" and a: "bv_val a < 2 ^ w" "bv_val b < 2 ^ w" and wb: "bv_width b = w"
    using bv_okD [OF assms(1)] bv_okD [OF assms(2)] assms(3) by (simp_all add: w_def)
  have "bv_ok (bin_unchecked op a b) \<and> bv_width (bin_unchecked op a b) = w \<and>
      bv_val (bin_unchecked op a b) = sem_bin op w (bv_val a) (bv_val b)"
  proof (cases "w \<le> 128 \<and> narrow_bin_supported op w")
    case True
    have n: "width_narrow w" using True w by (simp add: width_narrow_def width_ok_def)
    have l: "unat (low_u128 a) = bv_val a" "narrow_ok w (low_u128 a)"
      "unat (low_u128 b) = bv_val b" "narrow_ok w (low_u128 b)"
      using low_u128_narrow [OF assms(1)] low_u128_narrow [OF assms(2)] True wb by (simp_all add: w_def)
    have "unat (narrow_bin op w (low_u128 a) (low_u128 b)) = sem_bin op w (bv_val a) (bv_val b)"
      using narrow_bin_correct [OF n l(2,4)] True l by simp
    then show ?thesis
      using True from_u128_masked_correct [OF w] sem_bin_less [OF w a]
      by (simp add: bin_unchecked_def Let_def flip: w_def)
  next
    case False
    have "limbs_ok w (bv_limbs a)" "limbs_ok w (bv_limbs b)"
      using bv_okD(2) [OF assms(1)] bv_okD(2) [OF assms(2)] wb by (simp_all add: w_def)
    then show ?thesis
      using wide_bin_correct [OF w] w False
      by (auto simp: bin_unchecked_def Let_def from_canonical_def bv_ok_def bv_val_def simp flip: w_def)
  qed
  then show "bv_ok (bin_unchecked op a b)" "bv_width (bin_unchecked op a b) = bv_width a"
    "bv_val (bin_unchecked op a b) = sem_bin op (bv_width a) (bv_val a) (bv_val b)" by (simp_all add: w_def)
qed

theorem cmp_unchecked_correct:
  assumes "bv_ok a" "bv_ok b" "bv_width a = bv_width b"
  shows "cmp_unchecked op a b = sem_cmp op (bv_width a) (bv_val a) (bv_val b)"
proof -
  define w where "w = bv_width a"
  have w: "width_ok w" and wb: "bv_width b = w"
    using bv_okD [OF assms(1)] assms(3) by (simp_all add: w_def)
  have ok: "limbs_ok w (bv_limbs a)" "limbs_ok w (bv_limbs b)"
    using bv_okD(2) [OF assms(1)] bv_okD(2) [OF assms(2)] wb by (simp_all add: w_def)
  show ?thesis
  proof (cases "w \<le> 128")
    case True
    have n: "width_narrow w" using True w by (simp add: width_narrow_def width_ok_def)
    have l: "unat (low_u128 a) = bv_val a" "narrow_ok w (low_u128 a)"
      "unat (low_u128 b) = bv_val b" "narrow_ok w (low_u128 b)"
      using low_u128_narrow [OF assms(1)] low_u128_narrow [OF assms(2)] True wb by (simp_all add: w_def)
    show ?thesis using True narrow_cmp_correct [OF n l(2,4)] l by (simp add: cmp_unchecked_def Let_def flip: w_def)
  next
    case False
    then show ?thesis using wide_cmp_correct [OF w ok] by (simp add: cmp_unchecked_def Let_def bv_val_def flip: w_def)
  qed
qed


text \<open>The fallible entry points: the errors are exactly the width rules.\<close>

theorem apply_un_correct:
  assumes "bv_ok a"
  shows "case apply_un op a of
      Inl e \<Rightarrow> op = UBswap \<and> bv_width a mod 8 \<noteq> 0 \<and> e = NotByteMultiple (bv_width a)
    | Inr r \<Rightarrow> bv_ok r \<and> bv_width r = bv_width a \<and> bv_val r = sem_un op (bv_width a) (bv_val a)"
  using un_unchecked_correct [OF assms, of op] by (auto simp: apply_un_def Let_def)

theorem apply_bin_correct:
  assumes "bv_ok a" "bv_ok b"
  shows "case apply_bin op a b of
      Inl e \<Rightarrow> bv_width a \<noteq> bv_width b \<and> e = Mismatch (bv_width a) (bv_width b)
    | Inr r \<Rightarrow> bv_width a = bv_width b \<and> bv_ok r \<and> bv_width r = bv_width a \<and>
        bv_val r = sem_bin op (bv_width a) (bv_val a) (bv_val b)"
  using bin_unchecked_correct [OF assms, of op] by (simp add: apply_bin_def same_width_def)

text \<open>The ten comparisons of \<open>CmpOpExt\<close> on numbers.\<close>

definition sem_cmp_ext :: "CmpOpExt \<Rightarrow> nat \<Rightarrow> nat \<Rightarrow> nat \<Rightarrow> bool" where
  "sem_cmp_ext op w a b = (case op of
     XEq \<Rightarrow> a = b | XNe \<Rightarrow> a \<noteq> b
   | XUlt \<Rightarrow> a < b | XUle \<Rightarrow> a \<le> b | XUgt \<Rightarrow> a > b | XUge \<Rightarrow> a \<ge> b
   | XSlt \<Rightarrow> sem_signed w a < sem_signed w b | XSle \<Rightarrow> sem_signed w a \<le> sem_signed w b
   | XSgt \<Rightarrow> sem_signed w a > sem_signed w b | XSge \<Rightarrow> sem_signed w a \<ge> sem_signed w b)"

lemma canonical_correct:
  "(case canonical op of (c, swap) \<Rightarrow> sem_cmp c w (if swap then b else a) (if swap then a else b)) =
   sem_cmp_ext op w a b"
  by (cases op) (auto simp: sem_cmp_def sem_cmp_ext_def)

theorem apply_cmp_correct:
  assumes "bv_ok a" "bv_ok b"
  shows "apply_cmp op a b =
    (if bv_width a \<noteq> bv_width b then Inl (Mismatch (bv_width a) (bv_width b))
     else Inr (sem_cmp_ext op (bv_width a) (bv_val a) (bv_val b)))"
proof (cases "bv_width a = bv_width b")
  case True
  obtain c s where c: "canonical op = (c, s)" by fastforce
  have "cmp_unchecked c (if s then b else a) (if s then a else b) =
      sem_cmp c (bv_width a) (if s then bv_val b else bv_val a) (if s then bv_val a else bv_val b)"
    using assms True by (simp add: cmp_unchecked_correct)
  then show ?thesis
    using True canonical_correct [where op = op and w = "bv_width a" and a = "bv_val a" and b = "bv_val b"]
    by (cases s) (simp_all add: apply_cmp_def same_width_def c)
qed (simp add: apply_cmp_def same_width_def)

theorem bv_zext_correct:
  assumes "bv_ok v" "width_ok to"
  shows "case bv_zext v to of
      Inl e \<Rightarrow> to < bv_width v \<and> e = NotWider (bv_width v) to
    | Inr r \<Rightarrow> bv_width v \<le> to \<and> bv_ok r \<and> bv_width r = to \<and> bv_val r = sem_zext (bv_val v)"
  using assms wide_zext_ok [of "bv_width v" "bv_limbs v" to]
  by (auto simp: bv_zext_def check_widen_def bv_ok_def bv_val_def sem_zext_def)

theorem bv_sext_correct:
  assumes "bv_ok v" "width_ok to"
  shows "case bv_sext v to of
      Inl e \<Rightarrow> to < bv_width v \<and> e = NotWider (bv_width v) to
    | Inr r \<Rightarrow> bv_width v \<le> to \<and> bv_ok r \<and> bv_width r = to \<and>
        bv_val r = sem_sext (bv_width v) to (bv_val v)"
  using assms wide_sext_correct [of "bv_width v" to "bv_limbs v"]
  by (auto simp: bv_sext_def check_widen_def bv_ok_def bv_val_def)

theorem bv_extract_correct:
  assumes "bv_ok v" "width_ok n"
  shows "case bv_extract v lo n of
      Inl e \<Rightarrow> bv_width v < lo + n \<and> e = ExtractRange (bv_width v) lo n
    | Inr r \<Rightarrow> lo + n \<le> bv_width v \<and> bv_ok r \<and> bv_width r = n \<and> bv_val r = sem_extract lo n (bv_val v)"
  using assms wide_extract_correct [of n "bv_width v" "bv_limbs v" lo]
  by (auto simp: bv_extract_def Let_def bv_ok_def bv_val_def)

theorem bv_concat_correct:
  assumes "bv_ok hi" "bv_ok lo"
  shows "case bv_concat hi lo of
      Inl e \<Rightarrow> 512 < bv_width hi + bv_width lo \<and> e = ConcatTooWide (bv_width hi) (bv_width lo)
    | Inr r \<Rightarrow> bv_width hi + bv_width lo \<le> 512 \<and> bv_ok r \<and> bv_width r = bv_width hi + bv_width lo \<and>
        bv_val r = sem_concat (bv_width lo) (bv_val hi) (bv_val lo)"
proof (cases "bv_width hi + bv_width lo \<le> 512")
  case True
  then have w: "width_ok (bv_width hi + bv_width lo)"
    using assms by (auto simp: bv_ok_def width_ok_def)
  show ?thesis
    using wide_concat_correct [OF w bv_okD(2) [OF assms(1)] bv_okD(2) [OF assms(2)]] True w
    by (auto simp: bv_concat_def Let_def Width_new_def MAX_BITS_def bv_ok_def bv_val_def width_ok_def)
next
  case False
  then show ?thesis by (simp add: bv_concat_def Let_def Width_new_def MAX_BITS_def)
qed

theorem bv_select_correct:
  assumes "bv_ok c"
  shows "bv_select c t f =
    (if bv_width c \<noteq> 1 then Inl (ConditionWidth (bv_width c))
     else if bv_width t \<noteq> bv_width f then Inl (Mismatch (bv_width t) (bv_width f))
     else Inr (if bv_val c = 1 then t else f))"
proof -
  have "bv_width c = 1 \<Longrightarrow> bv_val c < 2" using bv_okD(3) [OF assms] by simp
  then have "bv_width c = 1 \<Longrightarrow> bv_val c = 0 \<longleftrightarrow> bv_val c \<noteq> 1" by auto
  then show ?thesis
    by (auto simp: bv_select_def same_width_def bv_is_zero_def wide_is_zero_iff bv_val_def)
qed

lemma from_bool_correct: "bv_ok (from_bool b)" "bv_width (from_bool b) = 1" "bv_val (from_bool b) = of_bool b"
  using from_u128_masked_correct [of 1 "of_bool b"] by (simp_all add: from_bool_def width_ok_def)


section \<open>Inspection\<close>

theorem bv_inspect:
  assumes "bv_ok v"
  shows "bv_bit v i = (if i < bv_width v then Some (bit (bv_val v) i) else None)"
    "bv_msb v = bit (bv_val v) (bv_width v - 1)"
    "bv_is_zero v \<longleftrightarrow> bv_val v = 0"
    "bv_is_ones v \<longleftrightarrow> bv_val v = 2 ^ bv_width v - 1"
proof -
  have w: "width_ok (bv_width v)" and l: "limbs_ok (bv_width v) (bv_limbs v)"
    using assms by (simp_all add: bv_ok_def)
  show "bv_bit v i = (if i < bv_width v then Some (bit (bv_val v) i) else None)"
    using wide_bit_ok [OF l, of i] w by (simp add: bv_bit_def bit_unchecked_def bv_val_def width_ok_def)
  show "bv_msb v = bit (bv_val v) (bv_width v - 1)"
    using wide_msb_ok [OF w l] by (simp add: bv_msb_def bv_val_def)
  show "bv_is_zero v \<longleftrightarrow> bv_val v = 0" by (simp add: bv_is_zero_def wide_is_zero_iff bv_val_def)
  show "bv_is_ones v \<longleftrightarrow> bv_val v = 2 ^ bv_width v - 1"
    using lval_inject [OF l wide_ones_ok [OF w]] lval_wide_ones width_okD [OF w]
    by (auto simp: bv_is_ones_def bv_val_def)
qed

text \<open>The order: by width, then by unsigned value.\<close>

lemma iter_cmp_rev:
  "length a = length b \<Longrightarrow> iter_cmp (rev a) (rev b) = ord_of (lval a) (lval b)"
proof (induction a arbitrary: b rule: rev_induct)
  case Nil
  then show ?case by (simp add: ord_of_def)
next
  case (snoc x a)
  then obtain c y where b: "b = c @ [y]" by (cases b rule: rev_cases) auto
  then have l: "length a = length c" using snoc.prems by simp
  have lex: "u + P * m < v + P * n" if "m < n" "u < P" for u v m n P :: nat
  proof -
    have "P * (m + 1) \<le> P * n" using that(1) by (intro mult_le_mono2) simp
    then show ?thesis using that(2) by (simp add: algebra_simps)
  qed
  have lt: "lval a < B64 ^ length c" "lval c < B64 ^ length c" using lval_less [of a] lval_less [of c] l by simp_all
  show ?case
  proof (cases x y rule: linorder_cases)
    case less
    then have "unat x < unat y" by (simp add: word_less_nat_alt)
    from lex [OF this lt(1)] show ?thesis using less by (simp add: b ord_of_def lval_append l)
  next
    case equal
    then show ?thesis using snoc.IH [OF l] by (simp add: b ord_of_def lval_append l)
  next
    case greater
    then have "unat y < unat x" by (simp add: word_less_nat_alt)
    from lex [OF this lt(2), of "lval a"] show ?thesis using greater by (auto simp: b ord_of_def lval_append l)
  qed
qed

theorem bv_cmp_correct:
  assumes "bv_ok a" "bv_ok b"
  shows "bv_cmp a b =
    (if bv_width a < bv_width b then Less else if bv_width b < bv_width a then Greater
     else ord_of (bv_val a) (bv_val b))"
  using iter_cmp_rev [of "bv_limbs a" "bv_limbs b"] bv_okD(4) [OF assms(1)] bv_okD(4) [OF assms(2)]
  by (auto simp: bv_cmp_def ord_of_def [of "bv_width a"] bv_val_def)

text \<open>Signed conversion: exactly the two's-complement value, when an \<open>i128\<close> can hold it.\<close>

theorem to_i128_correct:
  assumes "bv_ok v"
  shows "to_i128 v =
    (let s = sem_signed (bv_width v) (bv_val v)
     in if - (2 ^ 127) \<le> s \<and> s < 2 ^ 127 then Some s else None)"
proof -
  define w a where "w = bv_width v" and "a = bv_val v"
  have w: "0 < w" "w \<le> 512" and a: "a < 2 ^ w"
    using bv_okD [OF assms] by (simp_all add: w_def a_def width_ok_def)
  note r = sem_signed_range [OF w(1) a]
  show ?thesis
  proof (cases "w \<le> 128")
    case True
    have "(2::int) ^ (w - 1) \<le> 2 ^ 127" using True by (intro power_increasing) auto
    then have "- (2 ^ 127) \<le> sem_signed w a \<and> sem_signed w a < 2 ^ 127" using r by linarith
    moreover have "sint (narrow_signed (low_u128 v) w) = sem_signed w a"
      using sint_narrow_signed [of w "low_u128 v"] low_u128_narrow [OF assms] True w
      by (simp add: w_def a_def width_narrow_def)
    ultimately show ?thesis using True by (simp add: to_i128_def Let_def flip: w_def a_def)
  next
    case False
    have b: "bit_unchecked v i \<longleftrightarrow> bit a i" if "i < 512" for i
      using wide_bit_ok [OF bv_okD(2) [OF assms] that] by (simp add: bit_unchecked_def a_def bv_val_def)
    have fits: "list_all (\<lambda>i. bit_unchecked v i = bit_unchecked v 127) [128..<w] \<longleftrightarrow>
        (\<forall>i\<in>{128..<w}. bit a i = bit a 127)"
      using w b by (auto simp: list_all_iff)
    have sl: "sint (low_u128 v) = signed_take_bit 127 (sem_signed w a)"
    proof (rule bit_eqI)
      fix i :: nat
      have "unat (low_u128 v) = take_bit 128 a"
        by (simp only: unat_low_u128 [OF bv_okD(4) [OF assms]] take_bit_eq_mod a_def)
      then have "bit (low_u128 v) j \<longleftrightarrow> j < 128 \<and> bit a j" for j
        by (metis bit_unat bit_take_bit_iff)
      note low = this
      define j where "j = min 127 i"
      have j: "j < 128" "j < w" using False by (auto simp: j_def)
      have "bit (sint (low_u128 v)) i \<longleftrightarrow> bit (low_u128 v) j"
        by (cases "i = 127") (auto simp: bit_sint_iff j_def min_def dest: bit_imp_le_length)
      moreover have "bit (signed_take_bit 127 (sem_signed w a)) i \<longleftrightarrow> bit (sem_signed w a) j"
        by (simp add: bit_signed_take_bit_iff j_def)
      ultimately show "bit (sint (low_u128 v)) i = bit (signed_take_bit 127 (sem_signed w a)) i"
        using low [of j] j by (simp add: bit_sem_signed [OF w(1) a])
    qed
    have "(\<forall>i\<in>{128..<w}. bit a i = bit a 127) \<longleftrightarrow> signed_take_bit 127 (sem_signed w a) = sem_signed w a"
    proof
      assume h: "\<forall>i\<in>{128..<w}. bit a i = bit a 127"
      show "signed_take_bit 127 (sem_signed w a) = sem_signed w a"
      proof (rule bit_eqI)
        fix i
        have "bit a (w - 1) = bit a 127" using h False by (cases "w - 1 \<in> {128..<w}") auto
        moreover have "127 < i \<Longrightarrow> i < w \<Longrightarrow> bit a i = bit a 127" using h by auto
        ultimately show "bit (signed_take_bit 127 (sem_signed w a)) i = bit (sem_signed w a) i"
          using False by (cases "i = 127") (auto simp: bit_signed_take_bit_iff bit_sem_signed [OF w(1) a] min_def)
      qed
    next
      assume h: "signed_take_bit 127 (sem_signed w a) = sem_signed w a"
      show "\<forall>i\<in>{128..<w}. bit a i = bit a 127"
      proof
        fix i assume "i \<in> {128..<w}"
        then show "bit a i = bit a 127"
          using arg_cong [OF h, of "\<lambda>x. bit x i"] False
          by (simp add: bit_signed_take_bit_iff bit_sem_signed [OF w(1) a] min_def split: if_splits)
      qed
    qed
    then have "list_all (\<lambda>i. bit_unchecked v i = bit_unchecked v 127) [128..<w] \<longleftrightarrow>
        signed_take_bit 127 (sem_signed w a) = sem_signed w a"
      using fits by simp
    then have "to_i128 v = (if signed_take_bit 127 (sem_signed w a) = sem_signed w a
        then Some (sem_signed w a) else None)"
      using False sl by (simp add: to_i128_def Let_def flip: w_def)
    moreover have "signed_take_bit 127 (sem_signed w a) = sem_signed w a \<longleftrightarrow>
        - (2 ^ 127) \<le> sem_signed w a \<and> sem_signed w a < 2 ^ 127"
      by (rule signed_take_bit_int_eq_self_iff)
    ultimately show ?thesis unfolding Let_def w_def a_def by simp
  qed
qed



section \<open>The contract\<close>

interpretation bitvec: bv_kernel width_ok "\<lambda>w a. bv_ok a \<and> bv_width a = w" bv_val "\<lambda>op w. un_unchecked op"
  "\<lambda>op w. bin_unchecked op" "\<lambda>op w. True" "\<lambda>op w. cmp_unchecked op"
proof
  fix w :: nat and a b :: BitVec
  assume "bv_ok a \<and> bv_width a = w" "bv_ok b \<and> bv_width b = w" "bv_val a = bv_val b"
  then show "a = b" by (auto intro: bv_eqI)
qed (use un_unchecked_correct bin_unchecked_correct cmp_unchecked_correct in \<open>auto dest: bv_okD\<close>)


section \<open>Properties\<close>

text \<open>
  C4: a binary operator succeeds exactly on operands of one width, with a canonical value of
  that width equal to the specified one, and otherwise reports both widths; the only other
  failure is a byte swap at a width that is not a multiple of eight.
\<close>

theorem operators_exact_or_error:
  assumes "bv_ok a" "bv_ok b"
  shows "(case apply_bin op a b of
      Inl e \<Rightarrow> bv_width a \<noteq> bv_width b \<and> e = Mismatch (bv_width a) (bv_width b)
    | Inr r \<Rightarrow> bv_width a = bv_width b \<and> bv_ok r \<and> bv_width r = bv_width a \<and>
        bv_val r = sem_bin op (bv_width a) (bv_val a) (bv_val b)) \<and>
    (case apply_un uop a of
      Inl e \<Rightarrow> uop = UBswap \<and> bv_width a mod 8 \<noteq> 0 \<and> e = NotByteMultiple (bv_width a)
    | Inr r \<Rightarrow> bv_ok r \<and> bv_width r = bv_width a \<and> bv_val r = sem_un uop (bv_width a) (bv_val a)) \<and>
    apply_cmp cop a b =
      (if bv_width a \<noteq> bv_width b then Inl (Mismatch (bv_width a) (bv_width b))
       else Inr (sem_cmp_ext cop (bv_width a) (bv_val a) (bv_val b)))"
  using apply_bin_correct [OF assms] apply_un_correct [OF assms(1)] apply_cmp_correct [OF assms] by blast

theorem operators_exact_or_error_witness:
  "apply_cmp XSlt (bv_ones 200) (bv_zero 200) = Inr True \<and>
   apply_cmp XSlt (bv_ones 200) (bv_zero 8) = Inl (Mismatch 200 8)"
  using operators_exact_or_error [of "bv_ones 200" "bv_zero 200" BAdd UNot XSlt]
    operators_exact_or_error [of "bv_ones 200" "bv_zero 8" BAdd UNot XSlt]
    bv_const [of 200] bv_const [of 8]
  by (simp add: width_ok_def sem_cmp_ext_def sem_signed_def bit_iff_odd)

text \<open>
  C6: zero and sign extension, extraction, concatenation and selection return the specified
  value at the requested width, or the error that names the widths, and nothing else fails.
\<close>

theorem conversions_exact_or_error:
  assumes "bv_ok v" "bv_ok u" "width_ok to"
  shows "(case bv_zext v to of Inl e \<Rightarrow> to < bv_width v \<and> e = NotWider (bv_width v) to
      | Inr r \<Rightarrow> bv_width v \<le> to \<and> bv_ok r \<and> bv_width r = to \<and> bv_val r = bv_val v) \<and>
    (case bv_sext v to of Inl e \<Rightarrow> to < bv_width v \<and> e = NotWider (bv_width v) to
      | Inr r \<Rightarrow> bv_width v \<le> to \<and> bv_ok r \<and> bv_width r = to \<and>
          sem_signed to (bv_val r) = sem_signed (bv_width v) (bv_val v)) \<and>
    (case bv_extract v lo to of Inl e \<Rightarrow> bv_width v < lo + to \<and> e = ExtractRange (bv_width v) lo to
      | Inr r \<Rightarrow> lo + to \<le> bv_width v \<and> bv_ok r \<and> bv_width r = to \<and>
          bv_val r = (bv_val v div 2 ^ lo) mod 2 ^ to) \<and>
    (case bv_concat v u of
        Inl e \<Rightarrow> 512 < bv_width v + bv_width u \<and> e = ConcatTooWide (bv_width v) (bv_width u)
      | Inr r \<Rightarrow> bv_width v + bv_width u \<le> 512 \<and> bv_ok r \<and> bv_width r = bv_width v + bv_width u \<and>
          bv_val r = bv_val v * 2 ^ bv_width u + bv_val u)"
proof -
  have "sem_signed to (sem_sext (bv_width v) to (bv_val v)) = sem_signed (bv_width v) (bv_val v)"
    if "bv_width v \<le> to"
    using sem_signed_sext [OF _ bv_okD(3) [OF assms(1)] that] bv_okD(1) [OF assms(1)] by (simp add: width_ok_def)
  then show ?thesis
    using bv_zext_correct [OF assms(1,3)] bv_sext_correct [OF assms(1,3)] bv_extract_correct [OF assms(1,3), of lo]
      bv_concat_correct [OF assms(1,2)]
    by (auto simp: sem_zext_def sem_extract_def sem_concat_def split: sum.splits)
qed

theorem conversions_exact_or_error_witness:
  "bv_zext (bv_ones 200) 8 = Inl (NotWider 200 8) \<and> bv_extract (bv_ones 8) 3 8 = Inl (ExtractRange 8 3 8)"
  using conversions_exact_or_error [of "bv_ones 200" "bv_ones 200" 8 0]
    conversions_exact_or_error [of "bv_ones 8" "bv_ones 8" 8 3] bv_const [of 200] bv_const [of 8]
  by (auto simp: width_ok_def split: sum.splits)

text \<open>
  C11: the order of values is a total order that agrees with equality: by width, then by value.
\<close>

theorem ordering_is_total:
  assumes "bv_ok a" "bv_ok b" "bv_ok c"
  shows "(bv_cmp a b = Equal \<longleftrightarrow> a = b) \<and> (bv_cmp a b = Less \<longleftrightarrow> bv_cmp b a = Greater) \<and>
    (bv_cmp a b = Less \<longrightarrow> bv_cmp b c = Less \<longrightarrow> bv_cmp a c = Less) \<and>
    (bv_width a = bv_width b \<longrightarrow> (bv_cmp a b = Less \<longleftrightarrow> bv_val a < bv_val b))"
  using bv_eqI [OF assms(1,2)]
  by (auto simp: bv_cmp_correct assms ord_of_def split: if_splits)

theorem ordering_is_total_witness:
  "bv_cmp (bv_zero 8) (bv_ones 8) = Less"
  using ordering_is_total [of "bv_zero 8" "bv_ones 8" "bv_ones 8"] bv_const [of 8]
  by (simp add: width_ok_def)

text \<open>
  C12: reading a value as \<open>i128\<close> returns its signed value exactly when that fits, at every width.
\<close>

theorem to_i128_exact:
  assumes "bv_ok v"
  shows "to_i128 v = (let s = sem_signed (bv_width v) (bv_val v)
     in if - (2 ^ 127) \<le> s \<and> s < 2 ^ 127 then Some s else None)"
  by (rule to_i128_correct [OF assms])

theorem to_i128_exact_witness: "to_i128 (bv_ones 300) = Some (- 1)"
  using to_i128_exact [of "bv_ones 300"] bv_const [of 300]
  by (simp add: width_ok_def sem_signed_def bit_iff_odd)

end
