(* ===== verification/BitVec_Text.thy ===== *)
theory BitVec_Text
  imports BitVec
begin

unbundle bit_operations_syntax

text \<open>
  The literal syntax of bit-vector values: \<open>BitVec::parse\<close> and \<open>Display\<close> of
  \<open>bitwright/src/value/mod.rs\<close>, over ASCII text (a byte offset is a character position), and
  the round trip \<open>parse (display v) = v\<close>.
\<close>

section \<open>Strings\<close>

definition is_whitespace :: "char \<Rightarrow> bool" where
  "is_whitespace c \<longleftrightarrow> (of_char c :: nat) \<in> {9, 10, 11, 12, 13, 32}"

definition trim :: "string \<Rightarrow> string" where
  "trim s = rev (dropWhile is_whitespace (rev (dropWhile is_whitespace s)))"

definition str_find :: "char \<Rightarrow> string \<Rightarrow> nat option" where
  "str_find c s = find (\<lambda>i. s ! i = c) [0..<length s]"

definition str_rfind :: "char \<Rightarrow> string \<Rightarrow> nat option" where
  "str_rfind c s = find (\<lambda>i. s ! i = c) (rev [0..<length s])"

definition strip_prefix :: "string \<Rightarrow> string \<Rightarrow> string option" where
  "strip_prefix p s = (if take (length p) s = p then Some (drop (length p) s) else None)"

definition is_ascii_digit :: "char \<Rightarrow> bool" where
  "is_ascii_digit c \<longleftrightarrow> 48 \<le> (of_char c :: nat) \<and> (of_char c :: nat) \<le> 57"


section \<open>Parsing\<close>

text \<open>The width: a \<open>u32\<close> in decimal, then a \<open>u16\<close>, then a \<open>Width\<close>.\<close>

definition parse_width :: "string \<Rightarrow> ParseError + nat" where
  "parse_width s =
     (if s = [] \<or> \<not> list_all is_ascii_digit s then Inl (BadWidth (Invalid 0))
      else let bits = radix_value 10 (map (\<lambda>c. of_char c - 48) s)
           in if bits \<ge> 2 ^ 32 then Inl (BadWidth (Invalid (2 ^ 32 - 1)))
              else if bits \<ge> 2 ^ 16 then Inl (BadWidth (Invalid bits))
              else case Width_new bits of Inl e \<Rightarrow> Inl (BadWidth e) | Inr w \<Rightarrow> Inr w)"

text \<open>One digit: \<open>acc * radix + carry\<close> over the nine limbs.\<close>

fun mul_add_limbs :: "u128 \<Rightarrow> u128 \<Rightarrow> limbs \<Rightarrow> limbs \<times> u128" where
  "mul_add_limbs radix carry [] = ([], carry)"
| "mul_add_limbs radix carry (x # xs) =
     (let t = ucast x * radix + carry;
          (ys, c) = mul_add_limbs radix (drop_bit 64 t) xs
      in (ucast t # ys, c))"

text \<open>The loop over the digits; \<open>i\<close> is the position in the digit string.\<close>

fun digits_loop :: "nat \<Rightarrow> nat \<Rightarrow> nat \<Rightarrow> nat \<Rightarrow> string \<Rightarrow> limbs \<Rightarrow> bool \<Rightarrow> ParseError + limbs \<times> bool" where
  "digits_loop radix offset width i [] acc any = Inr (acc, any)"
| "digits_loop radix offset width i (ch # chs) acc any =
     (if ch = CHR ''_'' then digits_loop radix offset width (i + 1) chs acc any
      else case to_digit radix ch of
             None \<Rightarrow> Inl (BadDigit (offset + i))
           | Some d \<Rightarrow>
               let (acc, carry) = mul_add_limbs (word_of_nat radix) (word_of_nat d) acc
               in if carry \<noteq> 0 \<or> acc ! MAX_LIMBS \<noteq> 0 then Inl (PDoesNotFit width)
                  else digits_loop radix offset width (i + 1) chs acc True)"

definition parse_magnitude :: "string \<Rightarrow> nat \<Rightarrow> nat \<Rightarrow> nat \<Rightarrow> bool \<Rightarrow> ParseError + BitVec" where
  "parse_magnitude digits radix offset width negative =
     (case digits_loop radix offset width 0 digits (replicate (MAX_LIMBS + 1) 0) False of
        Inl e \<Rightarrow> Inl e
      | Inr (acc, any) \<Rightarrow>
          if \<not> any then Inl (BadDigit offset)
          else case from_limbs width (take MAX_LIMBS acc) of
                 Inl _ \<Rightarrow> Inl (PDoesNotFit width)
               | Inr magnitude \<Rightarrow>
                   if \<not> negative then Inr magnitude
                   else let smin = bv_smin width
                        in if \<not> bv_is_zero magnitude \<and> cmp_unchecked CUlt smin magnitude
                           then Inl (PDoesNotFit width)
                           else Inr (un_unchecked UNeg magnitude))"

definition parse :: "string \<Rightarrow> ParseError + BitVec" where
  "parse s =
     (let s = trim s
      in case str_find (CHR 0x27) s of
           Some q \<Rightarrow>
             (case parse_width (take q s) of
                Inl e \<Rightarrow> Inl e
              | Inr width \<Rightarrow>
                  let rest = drop (q + 1) s;
                      radix =
                        (if rest \<noteq> [] \<and> hd rest \<in> {CHR ''h'', CHR ''H''} then Some 16
                         else if rest \<noteq> [] \<and> hd rest \<in> {CHR ''d'', CHR ''D''} then Some 10
                         else if rest \<noteq> [] \<and> hd rest \<in> {CHR ''b'', CHR ''B''} then Some 2
                         else None)
                  in case radix of
                       None \<Rightarrow> Inl (BadDigit (q + 1))
                     | Some radix \<Rightarrow> parse_magnitude (drop 1 rest) radix (q + 2) width False)
         | None \<Rightarrow>
             (case str_rfind (CHR '':'') s of
                None \<Rightarrow> Inl MissingWidth
              | Some colon \<Rightarrow>
                  (case parse_width (drop (colon + 1) s) of
                     Inl e \<Rightarrow> Inl e
                   | Inr width \<Rightarrow>
                       let body = take colon s;
                           (neg, body, off) =
                             (case strip_prefix ''-'' body of
                                Some rest \<Rightarrow> (True, rest, 1) | None \<Rightarrow> (False, body, 0));
                           (radix, digits, off) =
                             (case strip_prefix ''0x'' body of
                                Some d \<Rightarrow> (16, d, off + 2)
                              | None \<Rightarrow>
                                  (case strip_prefix ''0b'' body of
                                     Some d \<Rightarrow> (2, d, off + 2)
                                   | None \<Rightarrow> (10, body, off)))
                       in parse_magnitude digits radix off width neg)))"


section \<open>Printing\<close>

text \<open>\<open>{:x}\<close> and \<open>{:016x}\<close> of a limb.\<close>

abbreviation hex :: "u64 \<Rightarrow> string" where "hex x \<equiv> to_radix 16 (unat x)"

definition hex16 :: "u64 \<Rightarrow> string" where
  "hex16 x = replicate (16 - length (hex x)) CHR ''0'' @ hex x"

definition display :: "BitVec \<Rightarrow> string" where
  "display v =
     (let n = nlimbs (bv_width v);
          tp = find (\<lambda>i. bv_limbs v ! i \<noteq> 0) (rev [0..<n])
      in case tp of
           None \<Rightarrow> ''0x0:'' @ dec (bv_width v)
         | Some t \<Rightarrow>
             ''0x'' @ hex (bv_limbs v ! t) @
             concat (map (\<lambda>i. hex16 (bv_limbs v ! i)) (rev [0..<t])) @
             '':'' @ dec (bv_width v))"


section \<open>The value of a digit string\<close>

lemma mul_add_limbs_correct:
  assumes "unat radix < B64"
  shows "unat carry < B64 \<Longrightarrow> mul_add_limbs radix carry xs = (ys, c) \<Longrightarrow>
    length ys = length xs \<and> unat c < B64 \<and> lval ys + B64 ^ length xs * unat c = lval xs * unat radix + unat carry"
proof (induction xs arbitrary: carry ys c)
  case (Cons x xs)
  define t where "t = ucast x * radix + carry"
  have "unat x * unat radix + unat carry < B64 * B64"
    using mac_no_overflow [of 0 "unat x" "unat radix" "unat carry"] Cons.prems(1) assms unat_less_B64 by simp
  then have m: "unat (ucast x * radix) = unat x * unat radix"
    by (subst unat_mult_u128) simp_all
  have t: "unat t = unat x * unat radix + unat carry"
    using \<open>unat x * unat radix + unat carry < B64 * B64\<close> unfolding t_def
    by (subst unat_add_u128) (simp_all add: m)
  have c: "unat (drop_bit 64 t) < B64"
    using \<open>unat x * unat radix + unat carry < B64 * B64\<close> by (simp add: unat_drop_64 t div_less_iff_less_mult)
  obtain zs c' where z: "mul_add_limbs radix (drop_bit 64 t) xs = (zs, c')" by fastforce
  have y: "ys = ucast t # zs" "c = c'" using Cons.prems(2) z by (simp_all add: t_def [symmetric] Let_def)
  note IH = Cons.IH [OF c z]
  have "unat (ucast t :: u64) + B64 * unat (drop_bit 64 t) = unat t"
    by (simp add: unat_ucast_u64 unat_drop_64)
  moreover have "B64 * (lval zs + B64 ^ length xs * unat c') = B64 * (lval xs * unat radix + unat (drop_bit 64 t))"
    using IH by simp
  ultimately show ?case using IH t by (simp add: y algebra_simps)
qed simp

lemma digits_loop_correct:
  assumes "2 \<le> radix" "radix \<le> 16"
  shows "\<forall>c\<in>set s. c \<noteq> CHR ''_'' \<and> to_digit radix c \<noteq> None \<Longrightarrow> length acc = 9 \<Longrightarrow>
    lval acc * radix ^ length s + radix_value radix (map (the \<circ> to_digit radix) s) < 2 ^ 512 \<Longrightarrow>
    \<exists>acc'. digits_loop radix off w i s acc any = Inr (acc', any \<or> s \<noteq> []) \<and> length acc' = 9 \<and>
      lval acc' = lval acc * radix ^ length s + radix_value radix (map (the \<circ> to_digit radix) s)"
proof (induction s arbitrary: i acc any)
  case (Cons ch s)
  define r :: u128 where "r = word_of_nat radix"
  obtain d where d: "to_digit radix ch = Some d" and c: "ch \<noteq> CHR ''_''" using Cons.prems(1) by auto
  have dr: "d < radix" using d by (auto simp: to_digit_def Let_def split: option.splits if_splits)
  have r: "unat r = radix" "unat (word_of_nat d :: u128) = d"
    using assms dr by (simp_all add: r_def unat_word_of_nat_128)
  have rB: "unat r < B64" "unat (word_of_nat d :: u128) < B64" using r dr assms by (simp_all add: B64_def)
  obtain a1 c1 where m: "mul_add_limbs r (word_of_nat d) acc = (a1, c1)" by fastforce
  have a1: "length a1 = 9" "lval a1 + B64 ^ 9 * unat c1 = lval acc * radix + d"
    using mul_add_limbs_correct [OF rB(1) rB(2) m] Cons.prems(2) r by simp_all
  have rv: "radix_value radix (d # ds) = d * radix ^ length ds + radix_value radix ds" for ds
    using radix_value_append [of radix "[d]" ds] by (simp add: radix_value_def)
  define L where "L = map (the \<circ> to_digit radix) s"
  have eq: "lval acc * radix ^ length (ch # s) + radix_value radix (map (the \<circ> to_digit radix) (ch # s)) =
      (lval acc * radix + d) * radix ^ length s + radix_value radix L"
    by (simp add: d rv L_def algebra_simps)
  have lt: "(lval acc * radix + d) * radix ^ length s + radix_value radix L < 2 ^ 512"
    using Cons.prems(3) by (simp only: eq)
  have "(lval acc * radix + d) * 1 \<le> (lval acc * radix + d) * radix ^ length s"
    using assms by (intro mult_le_mono2) simp
  then have "lval acc * radix + d \<le> (lval acc * radix + d) * radix ^ length s" by (simp only: mult_1_right)
  then have small: "lval acc * radix + d < 2 ^ 512" using add_lessD1 [OF lt] by (rule le_less_trans)
  have c1: "c1 = 0"
  proof (rule ccontr)
    assume "c1 \<noteq> 0"
    then have "B64 ^ 9 * 1 \<le> B64 ^ 9 * unat c1" by (intro mult_le_mono2) (simp add: Suc_le_eq unat_gt_0)
    moreover have "(2::nat) ^ 512 \<le> B64 ^ 9" by (simp add: B64_power)
    ultimately show False using a1(2) small by linarith
  qed
  then have v: "lval a1 = lval acc * radix + d" using a1(2) by simp
  have top0: "a1 ! 8 = 0"
  proof -
    have "lval a1 = lval (take 8 a1) + B64 ^ 8 * unat (a1 ! 8)"
      using a1(1) lval_take_Suc [of 8 a1] by simp
    then have "B64 ^ 8 * unat (a1 ! 8) < B64 ^ 8 * 1" using small v by (simp add: B64_power)
    then have "unat (a1 ! 8) < 1" by (simp only: mult_less_cancel1)
    then show ?thesis by (simp add: unat_eq_0)
  qed
  have "digits_loop radix off w i (ch # s) acc any = digits_loop radix off w (i + 1) s a1 True"
    using c d m c1 top0 by (simp add: r_def MAX_LIMBS_def)
  moreover have "\<exists>acc'. digits_loop radix off w (i + 1) s a1 True = Inr (acc', True \<or> s \<noteq> []) \<and> length acc' = 9 \<and>
      lval acc' = lval a1 * radix ^ length s + radix_value radix L"
    unfolding L_def by (rule Cons.IH) (use Cons.prems(1) a1(1) lt v in \<open>simp_all only: L_def list.set ball_simps length_Cons\<close>, auto)
  ultimately show ?case unfolding eq using v by (simp del: digits_loop.simps)
qed simp

text \<open>A string of digits parses to its value, or is too wide.\<close>

lemma parse_magnitude_correct:
  assumes "2 \<le> radix" "radix \<le> 16" "width_ok w" "s \<noteq> []"
    and "\<forall>c\<in>set s. c \<noteq> CHR ''_'' \<and> to_digit radix c \<noteq> None"
    and "radix_value radix (map (the \<circ> to_digit radix) s) < 2 ^ w"
  shows "\<exists>v. parse_magnitude s radix off w False = Inr v \<and> bv_ok v \<and> bv_width v = w \<and>
    bv_val v = radix_value radix (map (the \<circ> to_digit radix) s)"
proof -
  define V where "V = radix_value radix (map (the \<circ> to_digit radix) s)"
  have "(2::nat) ^ w \<le> 2 ^ 512" using assms(3) by (intro power_increasing) (simp_all add: width_ok_def)
  then have V: "V < 2 ^ 512" using assms(6) unfolding V_def by linarith
  obtain acc where acc: "digits_loop radix off w 0 s (replicate 9 0) False = Inr (acc, True)" "length acc = 9" "lval acc = V"
    using digits_loop_correct [OF assms(1,2,5), of "replicate 9 0" off w 0 False] V assms(4) by (auto simp: V_def)
  have t: "lval (take 8 acc) = V" using acc(3) V by (simp add: lval_take)
  note c = wrapping_from_limbs_correct [OF assms(3), of "take 8 acc"]
  have "parse_magnitude s radix off w False = Inr (wrapping_from_limbs w (take 8 acc))"
    using acc(1) from_limbs_correct [OF assms(3), of "take 8 acc"] t assms(6)
    by (simp add: parse_magnitude_def MAX_LIMBS_def V_def)
  then show ?thesis using c t assms(6) by (simp add: V_def)
qed



section \<open>Printing then parsing\<close>

lemma digit_char_0: "digit_char 0 = CHR ''0''"
proof -
  have "of_char (digit_char 0) = (of_char CHR ''0'' :: nat)" by (simp add: digit_char_def)
  then show ?thesis by (simp only: of_char_eq_iff)
qed

definition is_hex_char :: "char \<Rightarrow> bool" where
  "is_hex_char c \<longleftrightarrow> (\<exists>d\<in>set [0..<16]. c = digit_char d)"

lemma is_hex_charD: "is_hex_char c \<Longrightarrow> \<exists>d<16. c = digit_char d"
  by (auto simp: is_hex_char_def)

lemma is_hex_char_0 [simp]: "is_hex_char CHR ''0''"
  unfolding is_hex_char_def by (rule bexI [of _ 0]) (simp_all add: digit_char_0)

lemma digit_char_props:
  assumes "d < 16"
  shows "digit_char d \<noteq> CHR ''_''" "digit_char d \<noteq> CHR 0x27" "digit_char d \<noteq> CHR '':''"
    "digit_char d \<noteq> CHR ''-''" "\<not> is_whitespace (digit_char d)"
    "d < 10 \<Longrightarrow> is_ascii_digit (digit_char d) \<and> of_char (digit_char d) - 48 = d"
proof -
  have c: "of_char (digit_char d) = (if d < 10 then 48 + d else 87 + d)"
    using assms by (simp add: digit_char_def)
  have ne: "digit_char d \<noteq> ch" if "of_char ch \<notin> {48..57} \<union> {97..(102::nat)}" for ch
    using that c assms by (auto split: if_splits)
  show "digit_char d \<noteq> CHR ''_''" "digit_char d \<noteq> CHR 0x27" "digit_char d \<noteq> CHR '':''" "digit_char d \<noteq> CHR ''-''"
    by (rule ne; simp)+
  show "\<not> is_whitespace (digit_char d)" using c assms by (auto simp: is_whitespace_def)
  show "d < 10 \<Longrightarrow> is_ascii_digit (digit_char d) \<and> of_char (digit_char d) - 48 = d"
    using c by (simp add: is_ascii_digit_def)
qed

lemma hex_digits: "c \<in> set (hex x) \<Longrightarrow> is_hex_char c"
  using to_radix_digits [of 16 c "unat x"] by (auto simp: is_hex_char_def)

lemma hex16_digits: "c \<in> set (hex16 x) \<Longrightarrow> is_hex_char c"
  using hex_digits [of c x] by (auto simp: hex16_def)

lemma length_to_radix: "2 \<le> r \<Longrightarrow> n < r ^ k \<Longrightarrow> 0 < k \<Longrightarrow> length (to_radix r n) \<le> k"
proof (induction r n arbitrary: k rule: to_radix.induct)
  case (1 r n)
  show ?case
  proof (cases "n < r")
    case True
    then show ?thesis using "1.prems" by (simp add: to_radix.simps [of r n] Suc_le_eq)
  next
    case False
    then obtain j where k: "k = Suc j" using "1.prems" by (cases k) auto
    then have j: "0 < j" using "1.prems" False by (cases j) auto
    have "n div r < r ^ j" using "1.prems" k by (simp add: div_less_iff_less_mult mult.commute)
    then have "length (to_radix r (n div r)) \<le> j" using "1.IH" False "1.prems"(1) j by auto
    then show ?thesis using False "1.prems"(1) k by (simp add: to_radix.simps [of r n])
  qed
qed

definition hex_value :: "string \<Rightarrow> nat" where
  "hex_value s = radix_value 16 (map (the \<circ> to_digit 16) s)"

lemma hex_value_append: "hex_value (s @ t) = hex_value s * 16 ^ length t + hex_value t"
  by (simp add: hex_value_def radix_value_append)

lemma hex_value_Nil [simp]: "hex_value [] = 0"
  by (simp add: hex_value_def)

lemma hex_value_zeros: "hex_value (replicate n CHR ''0'') = 0"
proof (induction n)
  case (Suc n)
  have "hex_value [CHR ''0''] = 0" by (simp add: hex_value_def to_digit_def radix_value_def)
  moreover have "replicate (Suc n) CHR ''0'' = [CHR ''0''] @ replicate n CHR ''0''" by simp
  ultimately show ?case using Suc by (simp only: hex_value_append)
qed simp

lemma hex16_value: "length (hex16 x) = 16" "hex_value (hex16 x) = unat x" "hex_value (hex x) = unat x" "hex x \<noteq> []"
proof -
  have "(2::nat) ^ 64 = 16 ^ 16" by simp
  then have "unat x < 16 ^ 16" using unsigned_less [of x] by simp
  then have "length (hex x) \<le> 16" by (intro length_to_radix) simp_all
  then show "length (hex16 x) = 16" by (simp add: hex16_def)
  show h: "hex_value (hex x) = unat x" "hex x \<noteq> []" using to_radix_correct [of 16 "unat x"] by (simp_all add: hex_value_def)
  then show "hex_value (hex16 x) = unat x"
    by (simp add: hex16_def hex_value_append hex_value_zeros)
qed

lemma limbs_hex_value:
  "hex_value (concat (map (\<lambda>i. hex16 (l ! i)) (rev [0..<t]))) = lval (take t l) \<and>
   length (concat (map (\<lambda>i. hex16 (l ! i)) (rev [0..<t]))) = 16 * t" if "t \<le> length l" for l t
  using that
proof (induction t)
  case (Suc t)
  have "(16::nat) ^ (16 * t) = B64 ^ t" by (simp add: B64_def power_mult)
  then show ?case using Suc by (simp add: hex_value_append hex16_value lval_take_Suc)
qed simp

text \<open>What \<open>Display\<close> prints: \<open>0x\<close>, digits whose value is the value, a colon and the width.\<close>

lemma display_shape:
  assumes "bv_ok v"
  obtains ds where "display v = ''0x'' @ ds @ '':'' @ dec (bv_width v)" "ds \<noteq> []"
    "\<forall>c\<in>set ds. is_hex_char c" "hex_value ds = bv_val v"
proof -
  define l n where "l = bv_limbs v" and "n = nlimbs (bv_width v)"
  have l: "length l = 8" "n \<le> 8" "lval (take n l) = bv_val v"
    using bv_okD [OF assms] width_ok_nlimbs lval_take_nlimbs by (simp_all add: l_def n_def bv_val_def)
  show ?thesis
  proof (cases "find (\<lambda>i. l ! i \<noteq> 0) (rev [0..<n])")
    case None
    then have "\<forall>i<n. l ! i = 0" by (auto simp: find_None_iff)
    then have "lval (take 0 (take n l)) = lval (take n l)" using l by (intro lval_take_all) auto
    then have "bv_val v = 0" using l by simp
    moreover have "display v = ''0x'' @ ''0'' @ '':'' @ dec (bv_width v)"
      using None by (simp add: display_def Let_def l_def n_def)
    ultimately show ?thesis by (intro that [of "''0''"]) (auto simp: hex_value_zeros [of 1, simplified])
  next
    case (Some t)
    define ds where "ds = hex (l ! t) @ concat (map (\<lambda>i. hex16 (l ! i)) (rev [0..<t]))"
    from Some obtain p where p: "p < n" "t = rev [0..<n] ! p" "\<forall>q<p. l ! (rev [0..<n] ! q) = 0"
      by (auto simp: find_Some_iff)
    then have t: "t < n" "t = n - 1 - p" by (simp_all add: rev_nth)
    have z: "l ! i = 0" if "t < i" "i < n" for i
    proof -
      have "n - 1 - i < p" "rev [0..<n] ! (n - 1 - i) = i" using that t p(1) by (simp_all add: rev_nth)
      then show ?thesis using p(3) by metis
    qed
    have "lval (take (Suc t) (take n l)) = lval (take n l)" using l z by (intro lval_take_all) auto
    then have v: "lval (take (Suc t) l) = bv_val v" using l t by (simp add: min_def)
    have P: "(16::nat) ^ (16 * t) = B64 ^ t" by (simp add: B64_def power_mult)
    have "hex_value ds = bv_val v"
      using limbs_hex_value [of t l] l t v P hex16_value(3) [of "l ! t"]
      by (simp add: ds_def hex_value_append lval_take_Suc mult.commute)
    moreover have "display v = ''0x'' @ ds @ '':'' @ dec (bv_width v)"
      using Some by (simp add: display_def Let_def l_def n_def ds_def)
    moreover have "\<forall>c\<in>set ds. is_hex_char c"
      using hex_digits [of _ "l ! t"] hex16_digits by (auto simp: ds_def)
    ultimately show ?thesis using hex16_value(4) by (intro that [of ds]) (simp_all add: ds_def)
  qed
qed

lemma trim_id: "\<forall>c\<in>set s. \<not> is_whitespace c \<Longrightarrow> trim s = s"
proof -
  have d: "dropWhile is_whitespace t = t" if "\<forall>c\<in>set t. \<not> is_whitespace c" for t
    using that by (cases t) auto
  assume "\<forall>c\<in>set s. \<not> is_whitespace c"
  then show ?thesis unfolding trim_def by (simp add: d)
qed

lemma str_find_None: "c \<notin> set s \<Longrightarrow> str_find c s = None"
  by (auto simp: str_find_def find_None_iff in_set_conv_nth)

lemma str_rfind_snoc: "str_rfind c (s @ [y]) = (if y = c then Some (length s) else str_rfind c s)"
proof -
  have "find (\<lambda>i. (s @ [y]) ! i = c) (rev [0..<length s]) = find (\<lambda>i. s ! i = c) (rev [0..<length s])"
    by (rule find_cong) (auto simp: nth_append)
  then show ?thesis by (simp add: str_rfind_def)
qed

lemma str_rfind_last: "c \<notin> set t \<Longrightarrow> str_rfind c (s @ c # t) = Some (length s)"
proof (induction t rule: rev_induct)
  case Nil
  then show ?case by (simp add: str_rfind_snoc)
next
  case (snoc y t)
  have "s @ c # t @ [y] = (s @ c # t) @ [y]" by simp
  then show ?case using snoc by (simp only: str_rfind_snoc) auto
qed

lemma dec_digits: "c \<in> set (dec n) \<Longrightarrow> \<exists>d<10. c = digit_char d"
  by (rule to_radix_digits) simp_all

lemma parse_width_dec:
  assumes "width_ok w"
  shows "parse_width (dec w) = Inr w"
proof -
  have dig: "is_ascii_digit c \<and> of_char c - 48 = the (to_digit 10 c)" if c: "c \<in> set (dec w)" for c
  proof -
    obtain d where "d < 10" "c = digit_char d" using dec_digits [OF c] by blast
    then show ?thesis using digit_char_props(6) [of d] by (simp add: to_digit_char)
  qed
  have "map (\<lambda>c. of_char c - 48) (dec w) = map (the \<circ> to_digit 10) (dec w)"
    by (rule map_cong) (use dig in auto)
  then have "radix_value 10 (map (\<lambda>c. of_char c - 48) (dec w)) = w"
    using to_radix_correct [of 10 w] by (simp only:)
  moreover have "dec w \<noteq> []" using to_radix_correct [of 10 w] by simp
  moreover have "list_all is_ascii_digit (dec w)" using dig by (simp add: list_all_iff)
  ultimately show ?thesis
    using assms by (simp add: parse_width_def Let_def Width_new_def MAX_BITS_def width_ok_def)
qed

theorem parse_display:
  assumes "bv_ok v"
  shows "parse (display v) = Inr v"
proof -
  obtain ds where ds: "display v = ''0x'' @ ds @ '':'' @ dec (bv_width v)" "ds \<noteq> []"
    "\<forall>c\<in>set ds. is_hex_char c" "hex_value ds = bv_val v"
    by (rule display_shape [OF assms])
  define body where "body = ''0x'' @ ds"
  have s: "display v = body @ CHR '':'' # dec (bv_width v)" by (simp add: ds(1) body_def)
  have chars: "is_hex_char c \<or> c = CHR ''x'' \<or> c = CHR '':''" if "c \<in> set (display v)" for c
  proof -
    have "c \<in> set (dec (bv_width v)) \<Longrightarrow> is_hex_char c"
      using dec_digits [of c "bv_width v"] by (force simp: is_hex_char_def)
    then show ?thesis using that ds(3) by (auto simp: ds(1))
  qed
  have tr: "trim (display v) = display v"
    by (rule trim_id) (auto dest!: chars is_hex_charD simp: digit_char_props(5), simp_all add: is_whitespace_def)
  have q: "str_find CHR 0x27 (display v) = None"
    by (rule str_find_None) (use chars is_hex_charD digit_char_props(2) in fastforce)
  have colon: "str_rfind CHR '':'' (display v) = Some (length body)"
  proof -
    have "CHR '':'' \<noteq> digit_char d" if "d < 10" for d using digit_char_props(3) [of d] that by simp
    then have "CHR '':'' \<notin> set (dec (bv_width v))" using dec_digits by blast
    then show ?thesis unfolding s by (rule str_rfind_last)
  qed
  have valid: "\<forall>c\<in>set ds. c \<noteq> CHR ''_'' \<and> to_digit 16 c \<noteq> None"
  proof
    fix c assume "c \<in> set ds"
    then obtain d where "d < 16" "c = digit_char d" using ds(3) is_hex_charD by blast
    then show "c \<noteq> CHR ''_'' \<and> to_digit 16 c \<noteq> None"
      using digit_char_props(1) [of d] by (simp add: to_digit_char)
  qed
  have w: "width_ok (bv_width v)" and lt: "bv_val v < 2 ^ bv_width v" using bv_okD [OF assms] by simp_all
  obtain r where r: "parse_magnitude ds 16 2 (bv_width v) False = Inr r" "bv_ok r" "bv_width r = bv_width v"
    "bv_val r = bv_val v"
    using parse_magnitude_correct [of 16 "bv_width v" ds 2] w ds(2,4) valid lt by (auto simp: hex_value_def)
  have tk: "take (length body) (display v) = body"
    "drop (Suc (length body)) (display v) = dec (bv_width v)" by (simp_all add: s)
  have sp: "strip_prefix ''-'' body = None" "strip_prefix ''0x'' body = Some ds"
    by (simp_all add: strip_prefix_def body_def)
  have "r = v" using bv_eqI [OF r(2) assms r(3,4)] .
  then show ?thesis
    by (simp add: parse_def Let_def tr q colon tk parse_width_dec [OF w] sp r(1) [unfolded numeral_2_eq_2])
qed


text \<open>
  C7: parsing the text that \<open>Display\<close> prints for a value gives back that value, at every width.
\<close>

theorem display_then_parse:
  assumes "bv_ok v"
  shows "parse (display v) = Inr v"
  by (rule parse_display [OF assms])

theorem display_then_parse_witness: "parse (display (bv_ones 300)) = Inr (bv_ones 300)"
  using display_then_parse [of "bv_ones 300"] bv_const [of 300] by (simp add: width_ok_def)

end
