(* ===== verification/Ref_Bits.thy ===== *)
theory Ref_Bits
  imports BitVec
begin

unbundle bit_operations_syntax

text \<open>
  Lists of bits, least significant first, as numbers, and the arithmetic on them: for each
  primitive of the reference evaluator the list it computes when none of its assertions fails,
  with its value as a number. \<open>Ref_Eval\<close> holds the program itself, with its panics, and
  refines each of its functions to the one of this theory.
\<close>

section \<open>Values\<close>

type_synonym bits = "bool list"

definition bval :: "bits \<Rightarrow> nat" where
  "bval bs = horner_sum of_bool 2 bs"

definition REF_MAX_WIDTH :: nat where "REF_MAX_WIDTH = 1024"

definition zeros :: "nat \<Rightarrow> bits" where "zeros w = replicate w False"
definition ones :: "nat \<Rightarrow> bits" where "ones w = replicate w True"
definition top_bit :: "bits \<Rightarrow> bool" where "top_bit a = a ! (length a - 1)"
definition ref_is_zero :: "bits \<Rightarrow> bool" where "ref_is_zero a = list_all Not a"


section \<open>The values of the primitives\<close>

fun ripple :: "bits \<Rightarrow> bits \<Rightarrow> bool \<Rightarrow> bits \<times> bool" where
  "ripple (x # a) (y # b) carry =
     (let (out, c) = ripple a b ((x \<and> y) \<or> (carry \<and> (x \<noteq> y)))
      in (((x \<noteq> y) \<noteq> carry) # out, c))"
| "ripple _ _ carry = ([], carry)"

definition val_not :: "bits \<Rightarrow> bits" where "val_not a = map Not a"

definition val_add :: "bits \<Rightarrow> bits \<Rightarrow> bits" where
  "val_add a b = fst (ripple a b False)"

definition val_neg :: "bits \<Rightarrow> bits" where
  "val_neg a = fst (ripple (val_not a) (zeros (length a)) True)"

definition val_sub :: "bits \<Rightarrow> bits \<Rightarrow> bits" where
  "val_sub a b = fst (ripple a (val_not b) True)"

definition val_shl :: "bits \<Rightarrow> nat \<Rightarrow> bits" where
  "val_shl a k = map (\<lambda>i. i \<ge> k \<and> a ! (i - k)) [0..<length a]"

definition val_lshr :: "bits \<Rightarrow> nat \<Rightarrow> bits" where
  "val_lshr a k = (let n = length a in map (\<lambda>i. i + k < n \<and> a ! (i + k)) [0..<n])"

definition val_ashr :: "bits \<Rightarrow> nat \<Rightarrow> bits" where
  "val_ashr a k =
     (let n = length a; sign = top_bit a
      in map (\<lambda>i. if i + k < n then a ! (i + k) else sign) [0..<n])"

definition val_mul :: "bits \<Rightarrow> bits \<Rightarrow> bits" where
  "val_mul a b =
     for_up (length b) (\<lambda>i acc. if b ! i then val_add acc (val_shl a i) else acc)
       (zeros (length a))"

fun val_ult_from :: "nat \<Rightarrow> bits \<Rightarrow> bits \<Rightarrow> bool" where
  "val_ult_from 0 a b = False"
| "val_ult_from (Suc i) a b = (if a ! i \<noteq> b ! i then b ! i else val_ult_from i a b)"

definition val_ult :: "bits \<Rightarrow> bits \<Rightarrow> bool" where
  "val_ult a b = val_ult_from (length a) a b"

definition val_slt :: "bits \<Rightarrow> bits \<Rightarrow> bool" where
  "val_slt a b = (case (top_bit a, top_bit b) of
     (True, False) \<Rightarrow> True
   | (False, True) \<Rightarrow> False
   | _ \<Rightarrow> val_ult a b)"

definition val_zext :: "bits \<Rightarrow> nat \<Rightarrow> bits" where
  "val_zext a to = a @ replicate (to - length a) False"

definition val_sext :: "bits \<Rightarrow> nat \<Rightarrow> bits" where
  "val_sext a to = a @ replicate (to - length a) (top_bit a)"

definition val_extract :: "bits \<Rightarrow> nat \<Rightarrow> nat \<Rightarrow> bits" where
  "val_extract a lo n = take n (drop lo a)"

definition val_div_bit :: "bits \<Rightarrow> bits \<Rightarrow> nat \<Rightarrow> bits \<times> bits \<Rightarrow> bits \<times> bits" where
  "val_div_bit a divisor i s =
     (let (rem, quot) = s;
          rem = (val_shl rem 1)[0 := a ! i]
      in if \<not> val_ult rem divisor then (val_sub rem divisor, quot[i := True]) else (rem, quot))"

definition val_udivrem :: "bits \<Rightarrow> bits \<Rightarrow> bits \<times> bits" where
  "val_udivrem a b =
     (let n = length a;
          (rem, quot) = for_down n (val_div_bit a (val_zext b (n + 1))) (zeros (n + 1), replicate n False)
      in (quot, val_extract rem 0 n))"

definition val_udiv :: "bits \<Rightarrow> bits \<Rightarrow> bits" where
  "val_udiv a b = (if ref_is_zero b then ones (length a) else fst (val_udivrem a b))"

definition val_urem :: "bits \<Rightarrow> bits \<Rightarrow> bits" where
  "val_urem a b = (if ref_is_zero b then a else snd (val_udivrem a b))"

definition val_sdiv :: "bits \<Rightarrow> bits \<Rightarrow> bits" where
  "val_sdiv a b = (case (top_bit a, top_bit b) of
     (False, False) \<Rightarrow> val_udiv a b
   | (True, False) \<Rightarrow> val_neg (val_udiv (val_neg a) b)
   | (False, True) \<Rightarrow> val_neg (val_udiv a (val_neg b))
   | (True, True) \<Rightarrow> val_udiv (val_neg a) (val_neg b))"

definition val_srem :: "bits \<Rightarrow> bits \<Rightarrow> bits" where
  "val_srem a b = (case (top_bit a, top_bit b) of
     (False, False) \<Rightarrow> val_urem a b
   | (True, False) \<Rightarrow> val_neg (val_urem (val_neg a) b)
   | (False, True) \<Rightarrow> val_urem a (val_neg b)
   | (True, True) \<Rightarrow> val_neg (val_urem (val_neg a) (val_neg b)))"

definition val_mulhi :: "bits \<Rightarrow> bits \<Rightarrow> bool \<Rightarrow> bits" where
  "val_mulhi a b sgnd =
     (let n = length a;
          ext = (\<lambda>x. if sgnd then val_sext x (2 * n) else val_zext x (2 * n))
      in val_extract (val_mul (ext a) (ext b)) n n)"

fun val_count_from :: "nat \<Rightarrow> bits \<Rightarrow> nat \<Rightarrow> nat \<Rightarrow> nat option" where
  "val_count_from 0 a limit v = Some v"
| "val_count_from (Suc i) a limit v =
     (let v = 2 * v + of_bool (a ! i)
      in if v \<ge> limit then None else val_count_from i a limit v)"

definition val_count :: "bits \<Rightarrow> nat \<Rightarrow> nat option" where
  "val_count a limit = val_count_from (length a) a limit 0"

definition val_mod :: "bits \<Rightarrow> nat \<Rightarrow> nat" where
  "val_mod a m = for_down (length a) (\<lambda>i r. (2 * r + of_bool (a ! i)) mod m) 0"

definition val_count_bits :: "nat \<Rightarrow> nat \<Rightarrow> bits" where
  "val_count_bits width count = map (\<lambda>i. i < 64 \<and> bit count i) [0..<width]"

definition val_rotl :: "bits \<Rightarrow> nat \<Rightarrow> bits" where
  "val_rotl a c = (let n = length a in map (\<lambda>i. a ! ((i + n - c) mod n)) [0..<n])"

definition val_rotr :: "bits \<Rightarrow> nat \<Rightarrow> bits" where
  "val_rotr a c = (let n = length a in map (\<lambda>i. a ! ((i + c) mod n)) [0..<n])"

definition val_pdep :: "bits \<Rightarrow> bits \<Rightarrow> bits" where
  "val_pdep x m =
     fst (for_up (length m) (\<lambda>i (out, k). if m ! i then (out[i := x ! k], k + 1) else (out, k))
       (replicate (length x) False, 0))"

definition val_pext :: "bits \<Rightarrow> bits \<Rightarrow> bits" where
  "val_pext x m =
     fst (for_up (length m) (\<lambda>i (out, k). if m ! i then (out[k := x ! i], k + 1) else (out, k))
       (replicate (length x) False, 0))"


section \<open>Operators\<close>

definition val_un :: "UnOp \<Rightarrow> bits \<Rightarrow> bits option" where
  "val_un op a =
     (let n = length a
      in case op of
           UNot \<Rightarrow> Some (val_not a)
         | UNeg \<Rightarrow> Some (val_neg a)
         | UPopcnt \<Rightarrow> Some (val_count_bits n (length (filter id a)))
         | UClz \<Rightarrow> Some (val_count_bits n (length (takeWhile Not (rev a))))
         | UCtz \<Rightarrow> Some (val_count_bits n (length (takeWhile Not a)))
         | UBswap \<Rightarrow>
             if n mod 8 \<noteq> 0 then None
             else let bytes = n div 8
                  in Some (map (\<lambda>i. a ! ((bytes - 1 - i div 8) * 8 + i mod 8)) [0..<n])
         | UBitRev \<Rightarrow> Some (map (\<lambda>i. a ! (n - 1 - i)) [0..<n]))"

definition val_bin :: "BinOp \<Rightarrow> bits \<Rightarrow> bits \<Rightarrow> bits" where
  "val_bin op a b =
     (let n = length a
           in (case op of
                BAdd \<Rightarrow> val_add a b
              | BSub \<Rightarrow> val_sub a b
              | BMul \<Rightarrow> val_mul a b
              | BUMulHi \<Rightarrow> val_mulhi a b False
              | BSMulHi \<Rightarrow> val_mulhi a b True
              | BUDiv \<Rightarrow> val_udiv a b
              | BURem \<Rightarrow> val_urem a b
              | BSDiv \<Rightarrow> val_sdiv a b
              | BSRem \<Rightarrow> val_srem a b
              | BAnd \<Rightarrow> map2 (\<and>) a b
              | BOr \<Rightarrow> map2 (\<or>) a b
              | BXor \<Rightarrow> map2 (\<noteq>) a b
              | BShl \<Rightarrow> (case val_count b n of Some c \<Rightarrow> val_shl a c | None \<Rightarrow> zeros n)
              | BLShr \<Rightarrow> (case val_count b n of Some c \<Rightarrow> val_lshr a c | None \<Rightarrow> zeros n)
              | BAShr \<Rightarrow>
                  (case val_count b n of
                     Some c \<Rightarrow> val_ashr a c | None \<Rightarrow> replicate n (top_bit a))
              | BRotL \<Rightarrow> val_rotl a (val_mod b n)
              | BRotR \<Rightarrow> val_rotr a (val_mod b n)
              | BPdep \<Rightarrow> val_pdep a b
              | BPext \<Rightarrow> val_pext a b))"

definition val_cmp :: "CmpOpExt \<Rightarrow> bits \<Rightarrow> bits \<Rightarrow> bool" where
  "val_cmp op a b =
     (case op of
             XEq \<Rightarrow> a = b
           | XNe \<Rightarrow> a \<noteq> b
           | XUlt \<Rightarrow> val_ult a b
           | XUle \<Rightarrow> \<not> val_ult b a
           | XUgt \<Rightarrow> val_ult b a
           | XUge \<Rightarrow> \<not> val_ult a b
           | XSlt \<Rightarrow> val_slt a b
           | XSle \<Rightarrow> \<not> val_slt b a
           | XSgt \<Rightarrow> val_slt b a
           | XSge \<Rightarrow> \<not> val_slt a b)"

section \<open>Bit lists as numbers\<close>

lemma bit_bval: "bit (bval bs) i \<longleftrightarrow> i < length bs \<and> bs ! i"
  by (simp add: bval_def bit_horner_sum_bit_iff)

lemma bval_Nil [simp]: "bval [] = 0"
  by (simp add: bval_def)

lemma bval_Cons [simp]: "bval (b # bs) = of_bool b + 2 * bval bs"
  by (simp add: bval_def)

lemma bval_less: "bval bs < 2 ^ length bs"
  by (rule less_power_bits) (simp add: bit_bval)

lemma bval_eq_iff: "length a = length b \<Longrightarrow> bval a = bval b \<longleftrightarrow> a = b"
proof
  assume l: "length a = length b" and v: "bval a = bval b"
  have "a ! i = b ! i" if "i < length a" for i
    using arg_cong [OF v, of "\<lambda>n. bit n i"] that l by (simp add: bit_bval)
  then show "a = b" using l by (rule nth_equalityI [rotated])
qed simp

lemma bval_zeros [simp]: "bval (zeros n) = 0" "length (zeros n) = n" "length (ones n) = n"
  by (auto simp: zeros_def ones_def bit_bval intro!: bit_eqI)

lemma bval_ones [simp]: "bval (ones n) = 2 ^ n - 1"
proof (induction n)
  case (Suc n)
  then show ?case by (cases "(2::nat) ^ n") (simp_all add: ones_def)
qed (simp add: ones_def)

lemma top_bit_bit: "a \<noteq> [] \<Longrightarrow> top_bit a \<longleftrightarrow> bit (bval a) (length a - 1)"
  by (simp add: top_bit_def bit_bval)

lemma ref_is_zero_iff: "ref_is_zero a \<longleftrightarrow> bval a = 0"
  by (induction a) (auto simp: ref_is_zero_def)

lemma bval_append: "bval (a @ b) = bval a + 2 ^ length a * bval b"
  by (induction a) (simp_all add: algebra_simps)

lemma length_ripple: "length a = length b \<Longrightarrow> length (fst (ripple a b c)) = length a"
  by (induction a b arbitrary: c rule: list_induct2) (simp_all add: Let_def split_def)

lemma ripple_correct:
  "length a = length b \<Longrightarrow> ripple a b c = (out, c') \<Longrightarrow>
   bval out + 2 ^ length a * of_bool c' = bval a + bval b + of_bool c"
proof (induction a b arbitrary: c out rule: list_induct2)
  case (Cons x xs y ys)
  obtain o1 c1 where r: "ripple xs ys ((x \<and> y) \<or> (c \<and> (x \<noteq> y))) = (o1, c1)" by fastforce
  then have "c' = c1" using Cons.prems r by simp
  then have "2 * (bval o1 + 2 ^ length xs * of_bool c1) = 2 * (bval xs + bval ys + of_bool ((x \<and> y) \<or> (c \<and> (x \<noteq> y))))"
    using Cons.IH r by simp
  moreover have "out = ((x \<noteq> y) \<noteq> c) # o1" "c' = c1" using Cons.prems r by simp_all
  ultimately show ?case by (cases x; cases y; cases c) (simp_all add: algebra_simps)
qed simp

lemma bval_add_mod:
  assumes "length a = length b"
  shows "bval (fst (ripple a b c)) = (bval a + bval b + of_bool c) mod 2 ^ length a"
proof -
  obtain out c' where r: "ripple a b c = (out, c')" by fastforce
  have "length out = length a" using length_ripple [OF assms, of c] r by simp
  then have "bval out < 2 ^ length a" using bval_less [of out] by simp
  then have "(bval out + 2 ^ length a * of_bool c') mod 2 ^ length a = bval out" by simp
  then show ?thesis using ripple_correct [OF assms r] r by simp
qed

lemma bval_not: "bval (val_not a) = 2 ^ length a - 1 - bval a" "length (val_not a) = length a"
proof -
  show "length (val_not a) = length a" by (simp add: val_not_def)
  show "bval (val_not a) = 2 ^ length a - 1 - bval a"
    by (rule bit_eqI) (auto simp: bit_bval val_not_def bit_sem_not [OF bval_less, simplified])
qed

lemma bval_add: "length a = length b \<Longrightarrow> bval (val_add a b) = (bval a + bval b) mod 2 ^ length a"
  "length a = length b \<Longrightarrow> length (val_add a b) = length a"
  by (simp_all add: val_add_def bval_add_mod length_ripple)

lemma bval_sub:
  assumes "length a = length b"
  shows "bval (val_sub a b) = (bval a + (2 ^ length a - bval b)) mod 2 ^ length a"
    "length (val_sub a b) = length a"
proof -
  have "bval b < 2 ^ length a" using bval_less [of b] assms by simp
  then show "bval (val_sub a b) = (bval a + (2 ^ length a - bval b)) mod 2 ^ length a"
    using assms by (simp add: val_sub_def bval_add_mod bval_not Suc_diff_Suc)
  show "length (val_sub a b) = length a"
    using assms by (simp add: val_sub_def length_ripple bval_not)
qed

lemma bval_neg: "bval (val_neg a) = sem_un UNeg (length a) (bval a)" "length (val_neg a) = length a"
proof -
  have "bval a < 2 ^ length a" by (rule bval_less)
  then show "bval (val_neg a) = sem_un UNeg (length a) (bval a)"
    by (simp add: val_neg_def bval_add_mod bval_not sem_un_def Suc_diff_Suc)
  show "length (val_neg a) = length a"
    by (simp add: val_neg_def length_ripple bval_not)
qed

lemma bval_shl: "bval (val_shl a k) = (bval a * 2 ^ k) mod 2 ^ length a" "length (val_shl a k) = length a"
proof -
  show "bval (val_shl a k) = (bval a * 2 ^ k) mod 2 ^ length a"
    by (rule bit_eqI) (auto simp: bit_bval val_shl_def bit_sem_shl)
qed (simp add: val_shl_def)

lemma bval_mul:
  assumes "length a = length b"
  shows "bval (val_mul a b) = (bval a * bval b) mod 2 ^ length a" "length (val_mul a b) = length a"
proof -
  define f where "f = (\<lambda>i acc. if b ! i then val_add acc (val_shl a i) else acc)"
  have "length (for_up n f (zeros (length a))) = length a \<and>
      bval (for_up n f (zeros (length a))) = (bval a * bval (take n b)) mod 2 ^ length a"
    if "n \<le> length b" for n
    using that
  proof (induction n)
    case (Suc n)
    define acc where "acc = for_up n f (zeros (length a))"
    have t: "bval (take (Suc n) b) = bval (take n b) + 2 ^ n * of_bool (b ! n)"
      using Suc.prems by (simp add: take_Suc_snoc bval_append min_def)
    have IH: "length acc = length a" "bval acc = (bval a * bval (take n b)) mod 2 ^ length a"
      using Suc by (simp_all add: acc_def)
    have "bval (f n acc) = (bval a * bval (take (Suc n) b)) mod 2 ^ length a"
      by (cases "b ! n") (simp_all add: f_def t IH bval_add bval_shl mod_simps algebra_simps)
    moreover have "length (f n acc) = length a" using IH by (simp add: f_def bval_add bval_shl)
    ultimately show ?case by (simp add: acc_def)
  qed simp
  from this [of "length b"] show "bval (val_mul a b) = (bval a * bval b) mod 2 ^ length a"
    "length (val_mul a b) = length a" by (simp_all add: val_mul_def f_def)
qed

lemma val_ult_from_correct:
  "length a = length b \<Longrightarrow> i \<le> length a \<Longrightarrow> val_ult_from i a b \<longleftrightarrow> bval (take i a) < bval (take i b)"
proof (induction i)
  case (Suc i)
  have d: "bval (take (Suc i) c) = bval (take i c) + 2 ^ i * of_bool (c ! i)" if "i < length c" for c
    using that by (simp add: take_Suc_snoc bval_append min_def)
  have l: "bval (take i c) < 2 ^ i" if "i < length c" for c
    using bval_less [of "take i c"] that by (simp add: min_def)
  show ?case
    using Suc l [of a] l [of b] by (cases "a ! i"; cases "b ! i") (simp_all add: d not_less)
qed simp

lemma val_ult_correct: "length a = length b \<Longrightarrow> val_ult a b \<longleftrightarrow> bval a < bval b"
  by (simp add: val_ult_def val_ult_from_correct)

lemma val_slt_correct:
  assumes "length a = length b" "a \<noteq> []"
  shows "val_slt a b \<longleftrightarrow> sem_signed (length a) (bval a) < sem_signed (length a) (bval b)"
proof -
  have b: "b \<noteq> []" using assms by auto
  define W where "W = (2::int) ^ length a"
  have "int (bval a) < W" "int (bval b) < W"
    unfolding W_def using bval_less [of a] bval_less [of b] assms(1)
    by (metis of_nat_less_iff of_nat_numeral of_nat_power)+
  moreover have "sem_signed (length a) (bval a) = (if top_bit a then int (bval a) - W else int (bval a))"
    "sem_signed (length a) (bval b) = (if top_bit b then int (bval b) - W else int (bval b))"
    using top_bit_bit [OF assms(2)] top_bit_bit [OF b] assms(1) by (simp_all add: sem_signed_def W_def)
  ultimately show ?thesis
    using assms(1) by (simp add: val_slt_def val_ult_correct split: bool.splits)
qed

lemma bval_zext: "bval (val_zext a to) = bval a" "length (val_zext a to) = max (length a) to"
proof -
  have "bval (replicate n False) = 0" for n by (induction n) simp_all
  then show "bval (val_zext a to) = bval a" by (simp add: val_zext_def bval_append)
qed (simp add: val_zext_def)

lemma bval_sext:
  assumes "a \<noteq> []" "length a \<le> to"
  shows "bval (val_sext a to) = sem_sext (length a) to (bval a)" "length (val_sext a to) = to"
proof -
  have w: "0 < length a" using assms(1) by simp
  show "bval (val_sext a to) = sem_sext (length a) to (bval a)"
    by (rule bit_eqI) (use assms in \<open>auto simp: bit_bval val_sext_def sem_sext_def bit_sem_signed [OF w bval_less]
        nth_append top_bit_bit\<close>)
qed (use assms in \<open>simp add: val_sext_def\<close>)

lemma bval_extract: "bval (val_extract a lo n) = sem_extract lo n (bval a)"
  "lo + n \<le> length a \<Longrightarrow> length (val_extract a lo n) = n"
proof -
  show "bval (val_extract a lo n) = sem_extract lo n (bval a)"
    by (rule bit_eqI) (auto simp: bit_bval val_extract_def sem_extract_def bit_take_bit_iff bit_drop_bit_eq
        add.commute simp flip: take_bit_eq_mod drop_bit_eq_div)
qed (simp add: val_extract_def)



section \<open>Division\<close>

text \<open>The invariant of the restoring division after the bits from \<open>i\<close> up.\<close>

definition div_inv :: "bits \<Rightarrow> bits \<Rightarrow> nat \<Rightarrow> bits \<times> bits \<Rightarrow> bool" where
  "div_inv a b i s \<longleftrightarrow>
     (let (rem, quot) = s; d = drop i a
      in length rem = length a + 1 \<and> length quot = length a \<and> (\<forall>j<i. \<not> quot ! j) \<and>
         bval rem < bval b \<and> bval d = bval (drop i quot) * bval b + bval rem)"

lemma bval_drop_Suc: "i < length a \<Longrightarrow> bval (drop i a) = of_bool (a ! i) + 2 * bval (drop (Suc i) a)"
  by (simp flip: Cons_nth_drop_Suc)

lemma bval_update_0: "0 < length r \<Longrightarrow> \<not> r ! 0 \<Longrightarrow> bval (r[0 := x]) = bval r + of_bool x"
  by (cases r) simp_all

lemma val_div_bit_step:
  assumes "length b = length a" "i < length a" "div_inv a b (Suc i) s"
  shows "div_inv a b i (val_div_bit a (val_zext b (length a + 1)) i s)"
proof -
  define n where "n = length a"
  obtain rem quot where s: "s = (rem, quot)" by fastforce
  have I: "length rem = n + 1" "length quot = n" "\<forall>j<Suc i. \<not> quot ! j" "bval rem < bval b"
    "bval (drop (Suc i) a) = bval (drop (Suc i) quot) * bval b + bval rem"
    using assms(3) by (simp_all add: div_inv_def s n_def)
  have b: "bval b < 2 ^ n" using bval_less [of b] assms(1) by (simp add: n_def)
  define r where "r = (val_shl rem 1)[0 := a ! i]"
  have lr: "length r = n + 1" by (simp add: r_def bval_shl I)
  have r: "bval r = 2 * bval rem + of_bool (a ! i)"
  proof -
    have "bval (val_shl rem 1) = 2 * bval rem"
      using I(1,4) b by (simp add: bval_shl)
    moreover have "\<not> val_shl rem 1 ! 0" "0 < length (val_shl rem 1)" using I(1) by (simp_all add: val_shl_def del: upt_Suc)
    ultimately show ?thesis by (simp add: r_def bval_update_0)
  qed
  have z: "length (val_zext b (n + 1)) = n + 1" "bval (val_zext b (n + 1)) = bval b"
    using assms(1) by (simp_all add: bval_zext n_def)
  have a: "bval (drop i a) = 2 * (bval (drop (Suc i) quot) * bval b) + bval r"
    using bval_drop_Suc [OF assms(2)] I(5) r by simp
  have q: "bval (drop i (quot[i := x])) = of_bool x + 2 * bval (drop (Suc i) quot)" for x
    using I(2) assms(2) bval_drop_Suc [of i "quot[i := x]"] by (simp add: n_def)
  have q0: "bval (drop i quot) = 2 * bval (drop (Suc i) quot)"
    using I(2,3) assms(2) bval_drop_Suc [of i quot] by (simp add: n_def)
  have u: "val_ult r (val_zext b (n + 1)) \<longleftrightarrow> bval r < bval b"
    using z lr by (simp add: val_ult_correct)
  have st: "val_div_bit a (val_zext b (length a + 1)) i s =
      (if val_ult r (val_zext b (n + 1)) then (r, quot) else (val_sub r (val_zext b (n + 1)), quot[i := True]))"
    by (simp add: val_div_bit_def s r_def n_def)
  show ?thesis
    unfolding st
  proof (cases "bval r < bval b")
    case True
    then show "div_inv a b i (if val_ult r (val_zext b (n + 1)) then (r, quot)
        else (val_sub r (val_zext b (n + 1)), quot[i := True]))"
      using I(2,3) a q0 lr u by (simp add: div_inv_def n_def)
  next
    case False
    have "bval r < 2 ^ (n + 1)" using bval_less [of r] lr by simp
    moreover have "(2::nat) ^ n \<le> 2 ^ (n + 1)" by simp
    then have "bval r + (2 ^ (n + 1) - bval b) = (bval r - bval b) + 2 ^ (n + 1)" using False b by linarith
    ultimately have "(bval r + (2 ^ (n + 1) - bval b)) mod 2 ^ (n + 1) = bval r - bval b"
      by (simp only: mod_add_self2) simp
    then have sb: "bval (val_sub r (val_zext b (n + 1))) = bval r - bval b"
      "length (val_sub r (val_zext b (n + 1))) = n + 1"
      using bval_sub [of r "val_zext b (n + 1)"] lr z by (simp_all only:)
    then show "div_inv a b i (if val_ult r (val_zext b (n + 1)) then (r, quot)
        else (val_sub r (val_zext b (n + 1)), quot[i := True]))"
      using I(2,3,4) a q [of True] lr u False r
      by (cases "a ! i") (simp_all add: div_inv_def n_def [symmetric] algebra_simps)
  qed
qed

lemma val_udivrem_correct:
  assumes "length b = length a" "bval b \<noteq> 0"
  shows "bval (fst (val_udivrem a b)) = bval a div bval b"
    "bval (snd (val_udivrem a b)) = bval a mod bval b"
    "length (fst (val_udivrem a b)) = length a" "length (snd (val_udivrem a b)) = length a"
proof -
  define n where "n = length a"
  obtain rem quot where rq: "for_down n (val_div_bit a (val_zext b (n + 1))) (zeros (n + 1), replicate n False) = (rem, quot)"
    by fastforce
  have "div_inv a b n (zeros (n + 1), replicate n False)"
    using assms by (simp add: div_inv_def n_def)
  then have "div_inv a b 0 (rem, quot)"
    unfolding rq [symmetric] n_def by (rule for_down_inv) (rule val_div_bit_step [OF assms(1)])
  then have I: "length rem = n + 1" "length quot = n" "bval rem < bval b" "bval a = bval quot * bval b + bval rem"
    by (simp_all add: div_inv_def n_def)
  have "bval rem < 2 ^ n" using I(3) bval_less [of b] assms(1) by (simp add: n_def)
  then have x: "bval (val_extract rem 0 n) = bval rem" "length (val_extract rem 0 n) = n"
    using I(1) by (simp_all add: bval_extract sem_extract_def)
  have u: "val_udivrem a b = (quot, val_extract rem 0 n)"
    using rq by (simp add: val_udivrem_def n_def)
  show "bval (fst (val_udivrem a b)) = bval a div bval b"
    "bval (snd (val_udivrem a b)) = bval a mod bval b"
    "length (fst (val_udivrem a b)) = length a" "length (snd (val_udivrem a b)) = length a"
    using I x u by (simp_all add: n_def)
qed

lemma bval_udiv:
  assumes "length b = length a"
  shows "bval (val_udiv a b) = sem_bin BUDiv (length a) (bval a) (bval b)" "length (val_udiv a b) = length a"
    "bval (val_urem a b) = sem_bin BURem (length a) (bval a) (bval b)" "length (val_urem a b) = length a"
  using val_udivrem_correct [OF assms]
  by (auto simp: val_udiv_def val_urem_def ref_is_zero_iff sem_bin_def)

lemma bval_abs: "a \<noteq> [] \<Longrightarrow> bval (if top_bit a then val_neg a else a) = sem_abs (length a) (bval a)"
  by (simp add: sem_abs_def top_bit_bit bval_neg)

lemma bval_sdiv:
  assumes "length b = length a" "a \<noteq> []"
  shows "bval (val_sdiv a b) = sem_bin BSDiv (length a) (bval a) (bval b)" "length (val_sdiv a b) = length a"
    "bval (val_srem a b) = sem_bin BSRem (length a) (bval a) (bval b)" "length (val_srem a b) = length a"
proof -
  have b: "b \<noteq> []" "0 < length a" using assms by auto
  have lt: "bval a < 2 ^ length a" "bval b < 2 ^ length a" using bval_less [of a] bval_less [of b] assms(1) by simp_all
  note p = bval_abs [OF assms(2)] bval_abs [OF b(1)] top_bit_bit [OF assms(2)] top_bit_bit [OF b(1)]
  show "bval (val_sdiv a b) = sem_bin BSDiv (length a) (bval a) (bval b)"
    using p assms(1) unfolding sem_sdiv_parts [OF b(2) lt] Let_def
    by (cases "top_bit a"; cases "top_bit b") (simp_all add: val_sdiv_def bval_neg bval_udiv)
  show "bval (val_srem a b) = sem_bin BSRem (length a) (bval a) (bval b)"
    using p assms(1) unfolding sem_srem_parts [OF b(2) lt] Let_def
    by (cases "top_bit a"; cases "top_bit b") (simp_all add: val_srem_def bval_neg bval_udiv)
  show "length (val_sdiv a b) = length a" "length (val_srem a b) = length a"
    using assms(1) by (auto simp: val_sdiv_def val_srem_def bval_neg bval_udiv split: bool.splits)
qed



section \<open>The other operators\<close>

lemma sem_of_int_mult: "(sem_of_int w x * sem_of_int w y) mod 2 ^ w = sem_of_int w (x * y)"
proof -
  have "int ((sem_of_int w x * sem_of_int w y) mod 2 ^ w) = int (sem_of_int w (x * y))"
    by (simp only: int_sem_of_int zmod_int of_nat_mult of_nat_power of_nat_numeral mod_mult_eq)
  then show ?thesis by simp
qed

lemma bit_sem_extract: "bit (sem_extract lo n a) i \<longleftrightarrow> i < n \<and> bit a (lo + i)"
  by (auto simp: sem_extract_def bit_take_bit_iff bit_drop_bit_eq add.commute
      simp flip: take_bit_eq_mod drop_bit_eq_div)

lemma bval_mulhi:
  assumes "length b = length a" "a \<noteq> []"
  shows "bval (val_mulhi a b False) = sem_bin BUMulHi (length a) (bval a) (bval b)"
    "bval (val_mulhi a b True) = sem_bin BSMulHi (length a) (bval a) (bval b)"
    "length (val_mulhi a b c) = length a"
proof -
  define n where "n = length a"
  have n: "0 < n" "b \<noteq> []" using assms by (auto simp: n_def)
  have lt: "bval a < 2 ^ n" "bval b < 2 ^ n" using bval_less [of a] bval_less [of b] assms(1) by (simp_all add: n_def)
  have l: "length (val_zext a (2 * n)) = 2 * n" "length (val_zext b (2 * n)) = 2 * n"
    "length (val_sext a (2 * n)) = 2 * n" "length (val_sext b (2 * n)) = 2 * n"
    using assms n by (simp_all add: bval_zext bval_sext n_def)
  show "length (val_mulhi a b c) = length a"
    using l by (simp add: val_mulhi_def Let_def bval_extract bval_mul n_def [symmetric])
  have "bval a * bval b < 2 ^ n * 2 ^ n" using lt by (intro mult_strict_mono) auto
  then have p: "bval a * bval b < 2 ^ (2 * n)" by (simp add: mult_2 power_add)
  have d: "bval a * bval b div 2 ^ n < 2 ^ n"
    using p by (intro less_mult_imp_div_less) (simp add: mult_2 power_add)
  show "bval (val_mulhi a b False) = sem_bin BUMulHi (length a) (bval a) (bval b)"
    using l p d by (simp add: val_mulhi_def Let_def bval_extract bval_mul bval_zext sem_bin_def sem_extract_def n_def [symmetric])
  have "bval (val_mulhi a b True) = sem_extract n n (sem_of_int (2 * n) (sem_signed n (bval a) * sem_signed n (bval b)))"
    using l assms n by (simp add: val_mulhi_def Let_def bval_extract bval_mul bval_sext sem_sext_def sem_of_int_mult n_def [symmetric])
  also have "\<dots> = sem_bin BSMulHi n (bval a) (bval b)"
    by (rule bit_eqI) (auto simp: sem_bin_def bit_sem_extract bit_div_int add.commute)
  finally show "bval (val_mulhi a b True) = sem_bin BSMulHi (length a) (bval a) (bval b)"
    by (simp add: n_def)
qed

lemma val_count_from_correct:
  "i \<le> length a \<Longrightarrow> v < limit \<Longrightarrow> val_count_from i a limit v =
    (let t = v * 2 ^ i + bval (take i a) in if t < limit then Some t else None)"
proof (induction i arbitrary: v)
  case (Suc i)
  define v' where "v' = 2 * v + of_bool (a ! i)"
  have t: "v * 2 ^ Suc i + bval (take (Suc i) a) = v' * 2 ^ i + bval (take i a)"
    using Suc.prems by (simp add: take_Suc_snoc bval_append min_def v'_def algebra_simps)
  show ?case
  proof (cases "v' < limit")
    case True
    then show ?thesis using Suc.IH [of v'] Suc.prems(1) unfolding t by (simp add: Let_def v'_def)
  next
    case False
    have "limit \<le> v' * 2 ^ i" using False by (metis le_trans mult.right_neutral mult_le_mono2 not_less one_le_numeral one_le_power)
    then show ?thesis using False unfolding t by (simp add: Let_def v'_def)
  qed
qed simp

lemma val_count_correct:
  "0 < limit \<Longrightarrow> val_count a limit = (if bval a < limit then Some (bval a) else None)"
  by (simp add: val_count_def val_count_from_correct)

lemma val_mod_correct: "val_mod a m = bval a mod m"
proof -
  have "(\<lambda>i r. r = bval (drop i a) mod m) 0 (val_mod a m)"
    unfolding val_mod_def
  proof (rule for_down_inv)
    fix i r assume "i < length a" "r = bval (drop (Suc i) a) mod m"
    then show "(2 * r + of_bool (a ! i)) mod m = bval (drop i a) mod m"
      by (simp only: bval_drop_Suc) (metis add.commute mod_add_right_eq mod_mult_right_eq)
  qed simp
  then show ?thesis by simp
qed

lemma val_count_bits_correct:
  assumes "c < 2 ^ n" "c < 2 ^ 64"
  shows "bval (val_count_bits n c) = c" "length (val_count_bits n c) = n"
proof -
  show "bval (val_count_bits n c) = c"
    by (rule bit_eqI) (use bit_nat_less [OF assms(1)] bit_nat_less [OF assms(2)] in
      \<open>auto simp: bit_bval val_count_bits_def\<close>)
qed (simp add: val_count_bits_def)

lemma bval_shifts:
  assumes "a \<noteq> []"
  shows "bval (val_lshr a k) = bval a div 2 ^ k" "length (val_lshr a k) = length a"
    "k < length a \<Longrightarrow> bval (val_ashr a k) = sem_of_int (length a) (sem_signed (length a) (bval a) div 2 ^ k)"
    "length (val_ashr a k) = length a"
    "bval (replicate (length a) (top_bit a)) = sem_of_int (length a) (if bit (bval a) (length a - 1) then - 1 else 0)"
proof -
  have w: "0 < length a" using assms by simp
  show "bval (val_lshr a k) = bval a div 2 ^ k"
    by (rule bit_eqI) (auto simp: bit_bval val_lshr_def Let_def bit_sem_lshr)
  show "bval (val_ashr a k) = sem_of_int (length a) (sem_signed (length a) (bval a) div 2 ^ k)"
    by (rule bit_eqI) (auto simp: bit_bval val_ashr_def Let_def bit_div_int bit_sem_signed [OF w bval_less]
        top_bit_bit [OF assms])
  show "bval (replicate (length a) (top_bit a)) = sem_of_int (length a) (if bit (bval a) (length a - 1) then - 1 else 0)"
    by (rule bit_eqI) (auto simp: bit_bval top_bit_bit [OF assms])
qed (simp_all add: val_lshr_def val_ashr_def Let_def)

lemma bval_rot:
  assumes "a \<noteq> []" "c < length a"
  shows "bval (val_rotl a c) = of_bits (length a) (\<lambda>i. bit (bval a) ((i + (length a - c)) mod length a))"
    "bval (val_rotr a c) = of_bits (length a) (\<lambda>i. bit (bval a) ((i + c) mod length a))"
    "length (val_rotl a c) = length a" "length (val_rotr a c) = length a"
proof -
  show "bval (val_rotl a c) = of_bits (length a) (\<lambda>i. bit (bval a) ((i + (length a - c)) mod length a))"
    "bval (val_rotr a c) = of_bits (length a) (\<lambda>i. bit (bval a) ((i + c) mod length a))"
    by (rule bit_eqI, use assms in \<open>auto simp: bit_bval val_rotl_def val_rotr_def Let_def\<close>)+
qed (simp_all add: val_rotl_def val_rotr_def Let_def)

lemma filter_bits: "length (filter id a) = rank_below (bval a) (length a)"
proof -
  have "filter id a = map ((!) a) (filter (\<lambda>i. a ! i) [0..<length a])"
    by (subst map_nth [of a, symmetric], subst filter_map) (simp add: o_def)
  moreover have "filter (\<lambda>i. a ! i) [0..<length a] = filter (bit (bval a)) [0..<length a]"
    by (rule filter_cong) (simp_all add: bit_bval)
  ultimately show ?thesis by (simp add: rank_below_def)
qed

lemma takeWhile_bits:
  "length (takeWhile Not a) = length (takeWhile (\<lambda>i. \<not> bit (bval a) i) [0..<length a])"
  "length (takeWhile Not (rev a)) = length (takeWhile (\<lambda>i. \<not> bit (bval a) i) (rev [0..<length a]))"
proof -
  have "takeWhile Not a = map ((!) a) (takeWhile (\<lambda>i. \<not> a ! i) [0..<length a])"
    by (subst map_nth [of a, symmetric], subst takeWhile_map) (simp add: o_def)
  moreover have "takeWhile Not (rev a) = map ((!) a) (takeWhile (\<lambda>i. \<not> a ! i) (rev [0..<length a]))"
    by (subst map_nth [of a, symmetric], subst rev_map, subst takeWhile_map) (simp add: o_def)
  moreover have "takeWhile (\<lambda>i. \<not> a ! i) xs = takeWhile (\<lambda>i. \<not> bit (bval a) i) xs"
    if "set xs = {0..<length a}" for xs
    by (rule takeWhile_cong) (use that in \<open>auto simp: bit_bval\<close>)
  ultimately show "length (takeWhile Not a) = length (takeWhile (\<lambda>i. \<not> bit (bval a) i) [0..<length a])"
    "length (takeWhile Not (rev a)) = length (takeWhile (\<lambda>i. \<not> bit (bval a) i) (rev [0..<length a]))"
    by simp_all
qed



lemma pdep_pext_shape:
  assumes "length m = length x"
  shows "length (val_pdep x m) = length x" "length (val_pext x m) = length x"
    "j < length x \<Longrightarrow> val_pdep x m ! j \<longleftrightarrow> m ! j \<and> x ! (rank_below (bval m) j)"
    "j < length x \<Longrightarrow> val_pext x m ! j \<longleftrightarrow>
      (\<exists>i<length x. m ! i \<and> rank_below (bval m) i = j \<and> x ! i)"
proof -
  define n where "n = length x"
  define f where "f = (\<lambda>i (out, k). if m ! i then (out[i := x ! k], k + 1) else (out, k))"
  define g where "g = (\<lambda>i (out, k). if m ! i then (out[k := x ! i], k + 1) else (out, k))"
  define I where "I = (\<lambda>i (out, k). k = rank_below (bval m) i \<and> length out = n \<and>
      (\<forall>j<n. out ! j \<longleftrightarrow> j < i \<and> m ! j \<and> x ! (rank_below (bval m) j)))"
  define J where "J = (\<lambda>i (out, k). k = rank_below (bval m) i \<and> length out = n \<and>
      (\<forall>j<n. out ! j \<longleftrightarrow> (\<exists>l<i. m ! l \<and> rank_below (bval m) l = j \<and> x ! l)))"
  have b: "i < n \<Longrightarrow> bit (bval m) i \<longleftrightarrow> m ! i" for i using assms by (simp add: bit_bval n_def)
  have "I n (for_up n f (replicate n False, 0))"
  proof (rule for_up_inv)
    fix i s assume "i < n" "I i s"
    then show "I (Suc i) (f i s)"
      by (cases s) (auto simp: I_def f_def rank_below_Suc b nth_list_update less_Suc_eq)
  qed (simp add: I_def)
  then show "length (val_pdep x m) = length x"
    "j < length x \<Longrightarrow> val_pdep x m ! j \<longleftrightarrow> m ! j \<and> x ! (rank_below (bval m) j)"
    using assms unfolding val_pdep_def f_def I_def n_def by (auto split: prod.splits)
  have "J n (for_up n g (replicate n False, 0))"
  proof (rule for_up_inv)
    fix i s assume i: "i < n" "J i s"
    obtain out k where s: "s = (out, k)" by fastforce
    have J: "k = rank_below (bval m) i" "length out = n"
      "\<And>j. j < n \<Longrightarrow> out ! j \<longleftrightarrow> (\<exists>l<i. m ! l \<and> rank_below (bval m) l = j \<and> x ! l)"
      using i(2) by (simp_all add: J_def s)
    have k: "k < n" using J(1) rank_below_le [of "bval m" i] i(1) by simp
    have "m ! l \<Longrightarrow> l < i \<Longrightarrow> rank_below (bval m) l \<noteq> k" for l
      using rank_below_strict [of l i "bval m"] b [of l] i(1) J(1) by auto
    then show "J (Suc i) (g i s)"
      using J k i(1) by (auto simp: J_def g_def s rank_below_Suc b nth_list_update less_Suc_eq)
  qed (simp add: J_def)
  then show "length (val_pext x m) = length x"
    "j < length x \<Longrightarrow> val_pext x m ! j \<longleftrightarrow>
      (\<exists>i<length x. m ! i \<and> rank_below (bval m) i = j \<and> x ! i)"
    using assms unfolding val_pext_def g_def J_def n_def by (auto split: prod.splits)
qed

lemma bval_pdep_pext:
  assumes "length m = length x"
  shows "bval (val_pdep x m) = sem_bin BPdep (length x) (bval x) (bval m)"
    "bval (val_pext x m) = sem_bin BPext (length x) (bval x) (bval m)"
proof -
  have r: "j < length x \<Longrightarrow> rank_below (bval m) j < length x" for j
    using rank_below_le [of "bval m" j] by simp
  show "bval (val_pdep x m) = sem_bin BPdep (length x) (bval x) (bval m)"
    by (rule bit_eqI) (auto simp: bit_bval sem_bin_def pdep_pext_shape [OF assms] assms r)
  show "bval (val_pext x m) = sem_bin BPext (length x) (bval x) (bval m)"
  proof (rule bit_eqI)
    fix j :: nat
    have "(\<exists>i\<in>{0..<length x}. P i) \<longleftrightarrow> (\<exists>i<length x. P i)" for P by auto
    moreover have "bit (bval m) i \<and> rank_below (bval m) i = j \<and> bit (bval x) i \<longleftrightarrow>
        m ! i \<and> rank_below (bval m) i = j \<and> x ! i" if "i < length x" for i
      using that assms by (auto simp: bit_bval)
    ultimately have "bit (sem_bin BPext (length x) (bval x) (bval m)) j \<longleftrightarrow>
        j < length x \<and> (\<exists>i<length x. m ! i \<and> rank_below (bval m) i = j \<and> x ! i)"
      by (simp add: sem_bin_def cong: conj_cong)
    then show "bit (bval (val_pext x m)) j = bit (sem_bin BPext (length x) (bval x) (bval m)) j"
      using pdep_pext_shape [OF assms] by (auto simp: bit_bval)
  qed
qed

text \<open>The widths at which the counts of the evaluator are exact.\<close>

definition ref_width :: "nat \<Rightarrow> bool" where
  "ref_width w \<longleftrightarrow> 1 \<le> w \<and> w \<le> REF_MAX_WIDTH"

lemma val_un_correct:
  assumes "ref_width (length a)"
  shows "val_un op a = Some r \<Longrightarrow> length r = length a \<and> bval r = sem_un op (length a) (bval a)"
    "val_un op a = None \<longleftrightarrow> op = UBswap \<and> length a mod 8 \<noteq> 0"
proof -
  define n where "n = length a"
  have n: "0 < n" "n < 2 ^ n" "n < 2 ^ 64" "a \<noteq> []" using assms by (auto simp: ref_width_def REF_MAX_WIDTH_def n_def)
  have c: "bval (val_count_bits n c) = c" "length (val_count_bits n c) = n" if "c \<le> n" for c
    using val_count_bits_correct [OF le_less_trans [OF that n(2)] le_less_trans [OF that n(3)]] .
  have "length (filter id a) \<le> n" "length (takeWhile Not (rev a)) \<le> n" "length (takeWhile Not a) \<le> n"
    unfolding n_def by (simp_all, metis length_rev length_takeWhile_le, rule length_takeWhile_le)
  note k = this [THEN c(1)] this [THEN c(2)]
  have br: "bval (map (\<lambda>i. a ! (n - 1 - i)) [0..<n]) = sem_un UBitRev n (bval a)"
    by (rule bit_eqI) (auto simp: bit_bval sem_un_def n_def)
  have bs: "bval (map (\<lambda>i. a ! ((n div 8 - 1 - i div 8) * 8 + i mod 8)) [0..<n]) = sem_un UBswap n (bval a)"
    if "n mod 8 = 0"
  proof (rule bit_eqI)
    fix i :: nat
    have "(n div 8 - 1 - i div 8) * 8 + i mod 8 < n" if "i < n"
    proof -
      have "(n div 8 - 1 - i div 8) * 8 + i mod 8 < Suc (n div 8 - 1 - i div 8) * 8" by simp
      also have "\<dots> \<le> n div 8 * 8" using n(1) \<open>n mod 8 = 0\<close> by (intro mult_le_mono1) (cases "n div 8", auto)
      also have "n div 8 * 8 = n" using \<open>n mod 8 = 0\<close> by (metis add_0_right div_mult_mod_eq)
      finally show ?thesis .
    qed
    then show "bit (bval (map (\<lambda>i. a ! ((n div 8 - 1 - i div 8) * 8 + i mod 8)) [0..<n])) i =
        bit (sem_un UBswap n (bval a)) i"
      by (auto simp: bit_bval sem_un_def n_def)
  qed
  show "val_un op a = Some r \<Longrightarrow> length r = length a \<and> bval r = sem_un op (length a) (bval a)"
    using k br bs by (cases op) (auto simp: val_un_def Let_def n_def bval_not bval_neg filter_bits takeWhile_bits(1) [of a]
        takeWhile_bits(2) [of a] sem_un_def [of UNot] sem_un_def [of UPopcnt] sem_un_def [of UClz] sem_un_def [of UCtz] split: if_splits)
  show "val_un op a = None \<longleftrightarrow> op = UBswap \<and> length a mod 8 \<noteq> 0"
    by (cases op) (auto simp: val_un_def Let_def)
qed


lemma bval_map2:
  assumes "length a = length b"
  shows "bval (map2 (\<and>) a b) = bval a AND bval b" "bval (map2 (\<or>) a b) = bval a OR bval b"
    "bval (map2 (\<noteq>) a b) = bval a XOR bval b"
  using assms by (auto intro!: bit_eqI simp: bit_bval bit_simps)

lemma val_bin_correct:
  assumes "length a = length b" "a \<noteq> []"
  shows "length (val_bin op a b) = length a" "bval (val_bin op a b) = sem_bin op (length a) (bval a) (bval b)"
proof -
  define n where "n = length a"
  have n: "0 < n" "length b = n" "length a = n" using assms by (auto simp: n_def)
  have m: "bval b mod n < n" using n by simp
  have sh: "bval (val_ashr a (bval b)) = sem_of_int n (sem_signed n (bval a) div 2 ^ bval b)" if "bval b < n"
    using bval_shifts(3) [OF assms(2), of "bval b"] that by (simp add: n)
  have rp: "bval (replicate n (top_bit a)) = sem_of_int n (if bit (bval a) (n - 1) then - 1 else 0)"
    using bval_shifts(5) [OF assms(2)] by (simp add: n)
  have x: "bval (map2 (\<lambda>x y. x = (\<not> y)) a b) = bval a XOR bval b"
    using bval_map2(3) [OF assms(1)] by simp
  note [simp] = rp x bval_add bval_sub bval_mul bval_udiv bval_sdiv [OF assms(1) [symmetric] assms(2)]
    bval_mulhi [OF assms(1) [symmetric] assms(2)] bval_map2 bval_shl bval_shifts [OF assms(2)]
    val_count_correct [OF n(1)] val_mod_correct bval_rot [OF assms(2)] bval_pdep_pext pdep_pext_shape sh n m
  have "length (val_bin op a b) = n \<and> bval (val_bin op a b) = sem_bin op n (bval a) (bval b)"
    by (cases op) (simp_all add: val_bin_def Let_def sem_bin_def)
  then show "length (val_bin op a b) = length a" "bval (val_bin op a b) = sem_bin op (length a) (bval a) (bval b)"
    unfolding n_def by blast+
qed


lemma val_cmp_correct:
  assumes "length a = length b" "a \<noteq> []"
  shows "val_cmp op a b = sem_cmp_ext op (length a) (bval a) (bval b)"
proof -
  have b: "b \<noteq> []" using assms by auto
  have s: "val_slt b a \<longleftrightarrow> sem_signed (length a) (bval b) < sem_signed (length a) (bval a)"
    using val_slt_correct [OF assms(1) [symmetric] b] assms(1) by simp
  show ?thesis
    using assms(1) bval_eq_iff [OF assms(1)] val_slt_correct [OF assms] s
    by (cases op) (auto simp: val_cmp_def sem_cmp_ext_def sem_cmp_def val_ult_correct)
qed


end
