(* ===== verification/Vectors.thy ===== *)
theory Vectors
  imports Main "HOL-Library.Monad_Syntax"
begin

text \<open>
  Vectors with the bounds check of the Rust code: reading and writing at an index, \<open>None\<close> being
  the panic of an index out of range.
\<close>

text \<open>Indexing a vector: out of range it panics.\<close>

definition at :: "'a list \<Rightarrow> nat \<Rightarrow> 'a option" where
  "at xs i = (if i < length xs then Some (xs ! i) else None)"

definition put :: "'a list \<Rightarrow> nat \<Rightarrow> 'a \<Rightarrow> 'a list option" where
  "put xs i x = (if i < length xs then Some (xs[i := x]) else None)"

lemma at_eq_Some: "at xs i = Some x \<longleftrightarrow> i < length xs \<and> xs ! i = x"
  by (auto simp: at_def)

lemma at_less: "i < length xs \<Longrightarrow> at xs i = Some (xs ! i)"
  by (simp add: at_def)

lemma at_append: "i < length xs \<Longrightarrow> at (xs @ ys) i = at xs i"
  by (simp add: at_def nth_append)

end
