(* ===== verification/Ref_Eval.thy ===== *)
theory Ref_Eval
  imports Ref_Bits Vectors
begin

unbundle bit_operations_syntax

text \<open>
  The bit-serial reference evaluator of \<open>bitwright-ref/src/lib.rs\<close>, the oracle the library is
  tested against: a value is its list of bits, least significant first, and every operator is
  spelled out over single bits. Inside the evaluator \<open>None\<close> is a panic: a failed \<open>assert!\<close> or
  \<open>debug_assert!\<close>, an index out of range, a subtraction that underflows, or a remainder by zero.
  The entry points turn it into \<open>Inl Panic\<close>, so that it is not confused with the \<open>None\<close> that
  \<open>un\<close> returns for a byte swap.
\<close>

section \<open>Panics\<close>

datatype panic = Panic

definition outcome :: "'a option \<Rightarrow> panic + 'a" where
  "outcome m = (case m of None \<Rightarrow> Inl Panic | Some x \<Rightarrow> Inr x)"

definition ensure :: "bool \<Rightarrow> unit option" where
  "ensure b = (if b then Some () else None)"

definition sub_ok :: "nat \<Rightarrow> nat \<Rightarrow> nat option" where
  "sub_ok a b = (if b \<le> a then Some (a - b) else None)"

definition mod_ok :: "nat \<Rightarrow> nat \<Rightarrow> nat option" where
  "mod_ok a m = (if m = 0 then None else Some (a mod m))"

text \<open>The loops \<open>(0..n).map(f).collect()\<close>, \<open>for i in 0..n\<close> and \<open>for i in (0..n).rev()\<close> over bodies
  that may panic.\<close>

definition map_collect :: "nat \<Rightarrow> (nat \<Rightarrow> 'a option) \<Rightarrow> 'a list option" where
  "map_collect n f = those (map f [0..<n])"

definition loop_up :: "nat \<Rightarrow> (nat \<Rightarrow> 's \<Rightarrow> 's option) \<Rightarrow> 's \<Rightarrow> 's option" where
  "loop_up n f s = for_up n (\<lambda>i m. Option.bind m (f i)) (Some s)"

definition loop_down :: "nat \<Rightarrow> (nat \<Rightarrow> 's \<Rightarrow> 's option) \<Rightarrow> 's \<Rightarrow> 's option" where
  "loop_down n f s = for_down n (\<lambda>i m. Option.bind m (f i)) (Some s)"


section \<open>Values\<close>

definition check_width :: "nat \<Rightarrow> unit option" where
  "check_width width = ensure (1 \<le> width \<and> width \<le> REF_MAX_WIDTH)"

definition raw :: "bits \<Rightarrow> bits option" where
  "raw bs = do { ensure (bs \<noteq> []); Some bs }"

definition raw_zero :: "nat \<Rightarrow> bits option" where "raw_zero w = raw (replicate w False)"
definition raw_ones :: "nat \<Rightarrow> bits option" where "raw_ones w = raw (replicate w True)"

definition ref_msb :: "bits \<Rightarrow> bool option" where
  "ref_msb a = do { i \<leftarrow> sub_ok (length a) 1; at a i }"

definition bits_zero :: "nat \<Rightarrow> panic + bits" where
  "bits_zero w = outcome (do { check_width w; raw_zero w })"

definition bits_from_u128 :: "nat \<Rightarrow> u128 \<Rightarrow> panic + bits" where
  "bits_from_u128 w v = outcome (do {
     check_width w;
     raw (map (\<lambda>i. i < 128 \<and> drop_bit i v AND 1 = 1) [0..<w]) })"

definition bits_from_i128 :: "nat \<Rightarrow> u128 \<Rightarrow> panic + bits" where
  "bits_from_i128 w v = outcome (do {
     check_width w;
     raw (map (\<lambda>i. if i < 128 then signed_drop_bit i v AND 1 = 1 else sint v < 0) [0..<w]) })"

definition bits_from_limbs :: "nat \<Rightarrow> limbs \<Rightarrow> panic + bits" where
  "bits_from_limbs w l = outcome (do {
     check_width w;
     raw (map (\<lambda>i. i div 64 < length l \<and> drop_bit (i mod 64) (l ! (i div 64)) AND 1 = 1) [0..<w]) })"

definition bits_from_bools :: "bool list \<Rightarrow> panic + bits" where
  "bits_from_bools bs = outcome (do { check_width (length bs); raw bs })"

definition bits_to_limbs :: "bits \<Rightarrow> panic + limbs" where
  "bits_to_limbs bs = outcome (loop_up (length bs)
     (\<lambda>i l. do {
        b \<leftarrow> at bs i;
        if b then do { x \<leftarrow> at l (i div 64); put l (i div 64) (x OR push_bit (i mod 64) 1) }
        else Some l })
     (replicate ((length bs + 63) div 64) 0))"

definition ref_bit :: "bits \<Rightarrow> nat \<Rightarrow> panic + bool" where
  "ref_bit a i = outcome (do { ensure (i < length a); at a i })"


section \<open>Bit-serial primitives\<close>

text \<open>\<open>ripple\<close> is the loop of \<open>add_with_carry\<close> over the zipped bits.\<close>

definition same_len :: "bits \<Rightarrow> bits \<Rightarrow> unit option" where
  "same_len a b = ensure (length a = length b)"

definition add_with_carry :: "bits \<Rightarrow> bits \<Rightarrow> bool \<Rightarrow> (bits \<times> bool) option" where
  "add_with_carry a b carry_in = do {
     same_len a b;
     let (out, carry) = ripple a b carry_in;
     out \<leftarrow> raw out;
     Some (out, carry) }"

definition not_bits :: "bits \<Rightarrow> bits option" where "not_bits a = raw (map Not a)"

definition add_bits :: "bits \<Rightarrow> bits \<Rightarrow> bits option" where
  "add_bits a b = do { (s, _) \<leftarrow> add_with_carry a b False; Some s }"

definition neg_bits :: "bits \<Rightarrow> bits option" where
  "neg_bits a = do {
     x \<leftarrow> not_bits a;
     z \<leftarrow> raw_zero (length a);
     (s, _) \<leftarrow> add_with_carry x z True;
     Some s }"

definition sub_bits :: "bits \<Rightarrow> bits \<Rightarrow> bits option" where
  "sub_bits a b = do { x \<leftarrow> not_bits b; (s, _) \<leftarrow> add_with_carry a x True; Some s }"

definition shl_by :: "bits \<Rightarrow> nat \<Rightarrow> bits option" where
  "shl_by a k = do {
     bs \<leftarrow> map_collect (length a) (\<lambda>i. if i \<ge> k then do { j \<leftarrow> sub_ok i k; at a j } else Some False);
     raw bs }"

definition lshr_by :: "bits \<Rightarrow> nat \<Rightarrow> bits option" where
  "lshr_by a k = do {
     let n = length a;
     bs \<leftarrow> map_collect n (\<lambda>i. if i + k < n then at a (i + k) else Some False);
     raw bs }"

definition ashr_by :: "bits \<Rightarrow> nat \<Rightarrow> bits option" where
  "ashr_by a k = do {
     let n = length a;
     sign \<leftarrow> ref_msb a;
     bs \<leftarrow> map_collect n (\<lambda>i. if i + k < n then at a (i + k) else Some sign);
     raw bs }"

definition mul_bits :: "bits \<Rightarrow> bits \<Rightarrow> bits option" where
  "mul_bits a b = do {
     same_len a b;
     acc \<leftarrow> raw_zero (length a);
     loop_up (length b)
       (\<lambda>i acc. do { bi \<leftarrow> at b i; if bi then do { s \<leftarrow> shl_by a i; add_bits acc s } else Some acc })
       acc }"

fun ult_from :: "nat \<Rightarrow> bits \<Rightarrow> bits \<Rightarrow> bool option" where
  "ult_from 0 a b = Some False"
| "ult_from (Suc i) a b = do {
     x \<leftarrow> at a i;
     y \<leftarrow> at b i;
     if x \<noteq> y then Some y else ult_from i a b }"

definition ult_bits :: "bits \<Rightarrow> bits \<Rightarrow> bool option" where
  "ult_bits a b = do { same_len a b; ult_from (length a) a b }"

definition slt_bits :: "bits \<Rightarrow> bits \<Rightarrow> bool option" where
  "slt_bits a b = do {
     same_len a b;
     x \<leftarrow> ref_msb a;
     y \<leftarrow> ref_msb b;
     case (x, y) of
       (True, False) \<Rightarrow> Some True
     | (False, True) \<Rightarrow> Some False
     | _ \<Rightarrow> ult_bits a b }"

definition zext_raw :: "bits \<Rightarrow> nat \<Rightarrow> bits option" where
  "zext_raw a to = do {
     ensure (to \<ge> length a);
     raw (a @ replicate (to - length a) False) }"

definition sext_raw :: "bits \<Rightarrow> nat \<Rightarrow> bits option" where
  "sext_raw a to = do {
     ensure (to \<ge> length a);
     sign \<leftarrow> ref_msb a;
     raw (a @ replicate (to - length a) sign) }"

definition extract_raw :: "bits \<Rightarrow> nat \<Rightarrow> nat \<Rightarrow> bits option" where
  "extract_raw a lo n = do {
     ensure (n \<ge> 1);
     ensure (lo + n \<le> length a);
     raw (take n (drop lo a)) }"

definition div_bit :: "bits \<Rightarrow> bits \<Rightarrow> nat \<Rightarrow> bits \<times> bits \<Rightarrow> (bits \<times> bits) option" where
  "div_bit a divisor i s = do {
     let (rem, quot) = s;
     rem \<leftarrow> shl_by rem 1;
     x \<leftarrow> at a i;
     rem \<leftarrow> put rem 0 x;
     lt \<leftarrow> ult_bits rem divisor;
     if \<not> lt then do { rem \<leftarrow> sub_bits rem divisor; quot \<leftarrow> put quot i True; Some (rem, quot) }
     else Some (rem, quot) }"

definition udivrem_nonzero :: "bits \<Rightarrow> bits \<Rightarrow> (bits \<times> bits) option" where
  "udivrem_nonzero a b = do {
     same_len a b;
     ensure (\<not> ref_is_zero b);
     let n = length a;
     divisor \<leftarrow> zext_raw b (n + 1);
     rem \<leftarrow> raw_zero (n + 1);
     (rem, quot) \<leftarrow> loop_down n (div_bit a divisor) (rem, replicate n False);
     quot \<leftarrow> raw quot;
     rem \<leftarrow> extract_raw rem 0 n;
     Some (quot, rem) }"

definition udiv_bits :: "bits \<Rightarrow> bits \<Rightarrow> bits option" where
  "udiv_bits a b = do {
     same_len a b;
     if ref_is_zero b then raw_ones (length a)
     else do { (q, _) \<leftarrow> udivrem_nonzero a b; Some q } }"

definition urem_bits :: "bits \<Rightarrow> bits \<Rightarrow> bits option" where
  "urem_bits a b = do {
     same_len a b;
     if ref_is_zero b then Some a
     else do { (_, r) \<leftarrow> udivrem_nonzero a b; Some r } }"

definition sdiv_bits :: "bits \<Rightarrow> bits \<Rightarrow> bits option" where
  "sdiv_bits a b = do {
     x \<leftarrow> ref_msb a;
     y \<leftarrow> ref_msb b;
     case (x, y) of
       (False, False) \<Rightarrow> udiv_bits a b
     | (True, False) \<Rightarrow> do { a \<leftarrow> neg_bits a; q \<leftarrow> udiv_bits a b; neg_bits q }
     | (False, True) \<Rightarrow> do { b \<leftarrow> neg_bits b; q \<leftarrow> udiv_bits a b; neg_bits q }
     | (True, True) \<Rightarrow> do { a \<leftarrow> neg_bits a; b \<leftarrow> neg_bits b; udiv_bits a b } }"

definition srem_bits :: "bits \<Rightarrow> bits \<Rightarrow> bits option" where
  "srem_bits a b = do {
     x \<leftarrow> ref_msb a;
     y \<leftarrow> ref_msb b;
     case (x, y) of
       (False, False) \<Rightarrow> urem_bits a b
     | (True, False) \<Rightarrow> do { a \<leftarrow> neg_bits a; r \<leftarrow> urem_bits a b; neg_bits r }
     | (False, True) \<Rightarrow> do { b \<leftarrow> neg_bits b; urem_bits a b }
     | (True, True) \<Rightarrow> do { a \<leftarrow> neg_bits a; b \<leftarrow> neg_bits b; r \<leftarrow> urem_bits a b; neg_bits r } }"

definition mulhi_bits :: "bits \<Rightarrow> bits \<Rightarrow> bool \<Rightarrow> bits option" where
  "mulhi_bits a b sgnd = do {
     same_len a b;
     let n = length a;
     let ext = (\<lambda>x. if sgnd then sext_raw x (2 * n) else zext_raw x (2 * n));
     x \<leftarrow> ext a;
     y \<leftarrow> ext b;
     p \<leftarrow> mul_bits x y;
     extract_raw p n n }"

text \<open>\<open>count_below\<close> returns \<open>None\<close> of its own when the count reaches the limit: the outer
  \<open>option\<close> is the panic.\<close>

fun count_below_from :: "nat \<Rightarrow> bits \<Rightarrow> nat \<Rightarrow> nat \<Rightarrow> nat option option" where
  "count_below_from 0 a limit v = Some (Some v)"
| "count_below_from (Suc i) a limit v = do {
     b \<leftarrow> at a i;
     let v = 2 * v + of_bool b;
     if v \<ge> limit then Some None else count_below_from i a limit v }"

definition count_below :: "bits \<Rightarrow> nat \<Rightarrow> nat option option" where
  "count_below a limit = count_below_from (length a) a limit 0"

definition value_mod :: "bits \<Rightarrow> nat \<Rightarrow> nat option" where
  "value_mod a m = loop_down (length a) (\<lambda>i r. do { b \<leftarrow> at a i; mod_ok (2 * r + of_bool b) m }) 0"

definition count_to_bits :: "nat \<Rightarrow> nat \<Rightarrow> bits option" where
  "count_to_bits width count = do {
     out \<leftarrow> raw (map (\<lambda>i. i < 64 \<and> drop_bit i count AND 1 = 1) [0..<width]);
     ensure (width \<ge> 64 \<or> drop_bit width count = 0);
     Some out }"

definition ref_rotl_by :: "bits \<Rightarrow> nat \<Rightarrow> bits option" where
  "ref_rotl_by a c = do {
     let n = length a;
     bs \<leftarrow> map_collect n (\<lambda>i. do { d \<leftarrow> sub_ok (i + n) c; j \<leftarrow> mod_ok d n; at a j });
     raw bs }"

definition ref_rotr_by :: "bits \<Rightarrow> nat \<Rightarrow> bits option" where
  "ref_rotr_by a c = do {
     let n = length a;
     bs \<leftarrow> map_collect n (\<lambda>i. do { j \<leftarrow> mod_ok (i + c) n; at a j });
     raw bs }"

definition pdep_bits :: "bits \<Rightarrow> bits \<Rightarrow> bits option" where
  "pdep_bits x m = do {
     same_len x m;
     (out, _) \<leftarrow> loop_up (length m)
       (\<lambda>i (out, k). do {
          mi \<leftarrow> at m i;
          if mi then do { b \<leftarrow> at x k; out \<leftarrow> put out i b; Some (out, k + 1) } else Some (out, k) })
       (replicate (length x) False, 0);
     raw out }"

definition pext_bits :: "bits \<Rightarrow> bits \<Rightarrow> bits option" where
  "pext_bits x m = do {
     same_len x m;
     (out, _) \<leftarrow> loop_up (length m)
       (\<lambda>i (out, k). do {
          mi \<leftarrow> at m i;
          if mi then do { b \<leftarrow> at x i; out \<leftarrow> put out k b; Some (out, k + 1) } else Some (out, k) })
       (replicate (length x) False, 0);
     raw out }"


section \<open>Operators\<close>

definition ref_un :: "UnOp \<Rightarrow> bits \<Rightarrow> panic + bits option" where
  "ref_un op a = outcome (
     let n = length a; some = map_option Some
     in case op of
          UNot \<Rightarrow> some (not_bits a)
        | UNeg \<Rightarrow> some (neg_bits a)
        | UPopcnt \<Rightarrow> some (count_to_bits n (length (filter id a)))
        | UClz \<Rightarrow> some (count_to_bits n (length (takeWhile Not (rev a))))
        | UCtz \<Rightarrow> some (count_to_bits n (length (takeWhile Not a)))
        | UBswap \<Rightarrow>
            if n mod 8 \<noteq> 0 then Some None
            else do {
              let bytes = n div 8;
              bs \<leftarrow> map_collect n (\<lambda>i. do {
                j \<leftarrow> sub_ok bytes 1;
                j \<leftarrow> sub_ok j (i div 8);
                at a (j * 8 + i mod 8) });
              some (raw bs) }
        | UBitRev \<Rightarrow> do {
              bs \<leftarrow> map_collect n (\<lambda>i. do { j \<leftarrow> sub_ok n 1; j \<leftarrow> sub_ok j i; at a j });
              some (raw bs) })"

definition ref_bin :: "BinOp \<Rightarrow> bits \<Rightarrow> bits \<Rightarrow> panic + bits" where
  "ref_bin op a b = outcome (do {
     same_len a b;
     let n = length a;
     case op of
       BAdd \<Rightarrow> add_bits a b
     | BSub \<Rightarrow> sub_bits a b
     | BMul \<Rightarrow> mul_bits a b
     | BUMulHi \<Rightarrow> mulhi_bits a b False
     | BSMulHi \<Rightarrow> mulhi_bits a b True
     | BUDiv \<Rightarrow> udiv_bits a b
     | BURem \<Rightarrow> urem_bits a b
     | BSDiv \<Rightarrow> sdiv_bits a b
     | BSRem \<Rightarrow> srem_bits a b
     | BAnd \<Rightarrow> raw (map2 (\<and>) a b)
     | BOr \<Rightarrow> raw (map2 (\<or>) a b)
     | BXor \<Rightarrow> raw (map2 (\<noteq>) a b)
     | BShl \<Rightarrow> do { c \<leftarrow> count_below b n; case c of Some c \<Rightarrow> shl_by a c | None \<Rightarrow> raw_zero n }
     | BLShr \<Rightarrow> do { c \<leftarrow> count_below b n; case c of Some c \<Rightarrow> lshr_by a c | None \<Rightarrow> raw_zero n }
     | BAShr \<Rightarrow> do {
         c \<leftarrow> count_below b n;
         case c of Some c \<Rightarrow> ashr_by a c | None \<Rightarrow> do { s \<leftarrow> ref_msb a; raw (replicate n s) } }
     | BRotL \<Rightarrow> do { c \<leftarrow> value_mod b n; ref_rotl_by a c }
     | BRotR \<Rightarrow> do { c \<leftarrow> value_mod b n; ref_rotr_by a c }
     | BPdep \<Rightarrow> pdep_bits a b
     | BPext \<Rightarrow> pext_bits a b })"

definition ref_cmp :: "CmpOpExt \<Rightarrow> bits \<Rightarrow> bits \<Rightarrow> panic + bool" where
  "ref_cmp op a b = outcome (do {
     same_len a b;
     case op of
       XEq \<Rightarrow> Some (a = b)
     | XNe \<Rightarrow> Some (a \<noteq> b)
     | XUlt \<Rightarrow> ult_bits a b
     | XUle \<Rightarrow> map_option Not (ult_bits b a)
     | XUgt \<Rightarrow> ult_bits b a
     | XUge \<Rightarrow> map_option Not (ult_bits a b)
     | XSlt \<Rightarrow> slt_bits a b
     | XSle \<Rightarrow> map_option Not (slt_bits b a)
     | XSgt \<Rightarrow> slt_bits b a
     | XSge \<Rightarrow> map_option Not (slt_bits a b) })"

definition ref_zext :: "bits \<Rightarrow> nat \<Rightarrow> panic + bits" where
  "ref_zext a to = outcome (do { check_width to; zext_raw a to })"

definition ref_sext :: "bits \<Rightarrow> nat \<Rightarrow> panic + bits" where
  "ref_sext a to = outcome (do { check_width to; sext_raw a to })"

definition ref_extract :: "bits \<Rightarrow> nat \<Rightarrow> nat \<Rightarrow> panic + bits" where
  "ref_extract a lo n = outcome (extract_raw a lo n)"

definition ref_concat :: "bits \<Rightarrow> bits \<Rightarrow> panic + bits" where
  "ref_concat hi lo = outcome (do {
     let bits = lo @ hi;
     check_width (length bits);
     raw bits })"

definition ref_select :: "bits \<Rightarrow> bits \<Rightarrow> bits \<Rightarrow> panic + bits" where
  "ref_select c t f = outcome (do {
     ensure (length c = 1);
     same_len t f;
     b \<leftarrow> at c 0;
     Some (if b then t else f) })"


section \<open>No panic on operands of one width\<close>

text \<open>Each function refines the value \<open>Ref_Bits\<close> gives it, where its operands have one width
  and the width is not zero: no assertion fails and no index is out of range.\<close>

named_theorems ref_ok \<open>functions of the reference evaluator that return\<close>

lemma ensure_simps [simp]: "ensure True = Some ()" "ensure False = None"
  by (simp_all add: ensure_def)

lemma outcome_simps [simp]: "outcome (Some x) = Inr x" "outcome None = Inl Panic"
  by (simp_all add: outcome_def)

lemma raw_ok [ref_ok]: "bs \<noteq> [] \<Longrightarrow> raw bs = Some bs"
  by (simp add: raw_def)

lemma raw_Nil [simp]: "raw [] = None"
  by (simp add: raw_def)

lemma sub_ok_eq [ref_ok]: "b \<le> a \<Longrightarrow> sub_ok a b = Some (a - b)"
  by (simp add: sub_ok_def)

lemma mod_ok_eq [ref_ok]: "0 < m \<Longrightarrow> mod_ok a m = Some (a mod m)"
  by (simp add: mod_ok_def)

lemmas at_ok [ref_ok] = at_less

lemma put_ok [ref_ok]: "i < length xs \<Longrightarrow> put xs i x = Some (xs[i := x])"
  by (simp add: put_def)

lemma those_map: "(\<And>x. x \<in> set xs \<Longrightarrow> f x = Some (g x)) \<Longrightarrow> those (map f xs) = Some (map g xs)"
  by (induction xs) simp_all

lemma map_collect_ok: "(\<And>i. i < n \<Longrightarrow> f i = Some (g i)) \<Longrightarrow> map_collect n f = Some (map g [0..<n])"
  unfolding map_collect_def by (rule those_map) simp

lemma loop_up_ok:
  assumes "I 0 s" "\<And>i s. i < n \<Longrightarrow> I i s \<Longrightarrow> f i s = Some (g i s) \<and> I (Suc i) (g i s)"
  shows "loop_up n f s = Some (for_up n g s) \<and> I n (for_up n g s)"
  using assms(2) unfolding loop_up_def by (induction n) (simp_all add: assms(1))

lemma loop_down_ok:
  assumes "I n s" "\<And>i s. i < n \<Longrightarrow> I (Suc i) s \<Longrightarrow> f i s = Some (g i s) \<and> I i (g i s)"
  shows "loop_down n f s = Some (for_down n g s) \<and> I 0 (for_down n g s)"
  using assms unfolding loop_down_def
proof (induction n arbitrary: s)
  case (Suc n)
  have "f n s = Some (g n s)" "I n (g n s)" using Suc.prems by auto
  then show ?case using Suc.IH [of "g n s"] Suc.prems(2) by simp
qed simp

lemma raw_consts [ref_ok]: "0 < n \<Longrightarrow> raw_zero n = Some (zeros n)" "0 < n \<Longrightarrow> raw_ones n = Some (ones n)"
  by (simp_all add: raw_zero_def raw_ones_def zeros_def ones_def ref_ok)

lemma ref_msb_ok [ref_ok]: "0 < length a \<Longrightarrow> ref_msb a = Some (top_bit a)"
  by (simp add: ref_msb_def top_bit_def ref_ok Suc_le_eq)

lemma same_len_ok [ref_ok]: "length a = length b \<Longrightarrow> same_len a b = Some ()"
  by (simp add: same_len_def)

lemma add_with_carry_ok [ref_ok]:
  "0 < length a \<Longrightarrow> length a = length b \<Longrightarrow> add_with_carry a b c = Some (ripple a b c)"
  using length_ripple [of a b c]
  by (cases "ripple a b c"; cases "fst (ripple a b c)") (auto simp: add_with_carry_def ref_ok)

lemma not_bits_ok [ref_ok]: "0 < length a \<Longrightarrow> not_bits a = Some (val_not a)"
  by (simp add: not_bits_def val_not_def ref_ok)

lemma add_bits_ok [ref_ok]: "0 < length a \<Longrightarrow> length a = length b \<Longrightarrow> add_bits a b = Some (val_add a b)"
  by (simp add: add_bits_def val_add_def ref_ok split_def)

lemma neg_bits_ok [ref_ok]: "0 < length a \<Longrightarrow> neg_bits a = Some (val_neg a)"
  by (simp add: neg_bits_def val_neg_def ref_ok split_def bval_not(2))

lemma sub_bits_ok [ref_ok]: "0 < length a \<Longrightarrow> length a = length b \<Longrightarrow> sub_bits a b = Some (val_sub a b)"
  by (simp add: sub_bits_def val_sub_def ref_ok split_def bval_not(2))

lemma shl_by_ok [ref_ok]:
  assumes "0 < length a" shows "shl_by a k = Some (val_shl a k)"
proof -
  have "map_collect (length a) (\<lambda>i. if i \<ge> k then do { j \<leftarrow> sub_ok i k; at a j } else Some False) =
      Some (map (\<lambda>i. i \<ge> k \<and> a ! (i - k)) [0..<length a])"
    by (rule map_collect_ok) (simp add: ref_ok)
  then show ?thesis using assms by (simp add: shl_by_def val_shl_def ref_ok)
qed

lemma lshr_by_ok [ref_ok]:
  assumes "0 < length a" shows "lshr_by a k = Some (val_lshr a k)"
proof -
  have "map_collect (length a) (\<lambda>i. if i + k < length a then at a (i + k) else Some False) =
      Some (map (\<lambda>i. i + k < length a \<and> a ! (i + k)) [0..<length a])"
    by (rule map_collect_ok) (simp add: ref_ok)
  then show ?thesis using assms by (simp add: lshr_by_def val_lshr_def ref_ok Let_def)
qed

lemma ashr_by_ok [ref_ok]:
  assumes "0 < length a" shows "ashr_by a k = Some (val_ashr a k)"
proof -
  have "map_collect (length a) (\<lambda>i. if i + k < length a then at a (i + k) else Some (top_bit a)) =
      Some (map (\<lambda>i. if i + k < length a then a ! (i + k) else top_bit a) [0..<length a])"
    by (rule map_collect_ok) (simp add: ref_ok)
  then show ?thesis using assms by (simp add: ashr_by_def val_ashr_def ref_ok Let_def)
qed

lemma mul_bits_ok [ref_ok]:
  assumes "0 < length a" "length a = length b" shows "mul_bits a b = Some (val_mul a b)"
proof -
  let ?f = "\<lambda>i acc. do { bi \<leftarrow> at b i; if bi then do { s \<leftarrow> shl_by a i; add_bits acc s } else Some acc }"
  let ?g = "\<lambda>i acc. if b ! i then val_add acc (val_shl a i) else acc"
  have "loop_up (length b) ?f (zeros (length a)) = Some (for_up (length b) ?g (zeros (length a))) \<and>
      length (for_up (length b) ?g (zeros (length a))) = length a"
    by (rule loop_up_ok [where I = "\<lambda>_ acc. length acc = length a"])
      (use assms in \<open>auto simp: ref_ok bval_shl(2) bval_add(2) bval_zeros\<close>)
  then show ?thesis using assms by (simp add: mul_bits_def val_mul_def ref_ok)
qed

lemma ult_from_ok: "i \<le> length a \<Longrightarrow> i \<le> length b \<Longrightarrow> ult_from i a b = Some (val_ult_from i a b)"
  by (induction i) (simp_all add: ref_ok)

lemma ult_bits_ok [ref_ok]: "length a = length b \<Longrightarrow> ult_bits a b = Some (val_ult a b)"
  by (simp add: ult_bits_def val_ult_def ref_ok ult_from_ok)

lemma slt_bits_ok [ref_ok]: "0 < length a \<Longrightarrow> length a = length b \<Longrightarrow> slt_bits a b = Some (val_slt a b)"
  by (simp add: slt_bits_def val_slt_def ref_ok split: bool.splits)

lemma zext_raw_ok [ref_ok]: "0 < length a \<Longrightarrow> length a \<le> to \<Longrightarrow> zext_raw a to = Some (val_zext a to)"
  by (simp add: zext_raw_def val_zext_def ref_ok)

lemma sext_raw_ok [ref_ok]: "0 < length a \<Longrightarrow> length a \<le> to \<Longrightarrow> sext_raw a to = Some (val_sext a to)"
  by (simp add: sext_raw_def val_sext_def ref_ok)

lemma extract_raw_ok [ref_ok]: "0 < n \<Longrightarrow> lo + n \<le> length a \<Longrightarrow> extract_raw a lo n = Some (val_extract a lo n)"
  by (simp add: extract_raw_def val_extract_def ref_ok Suc_le_eq)

text \<open>The restoring division: the lengths and the bound on the partial remainder that keep every
  step inside its assertions.\<close>

lemma div_bit_ok:
  assumes "0 < length a" "length b = length a" "i < length a" "div_inv a b (Suc i) s"
  shows "div_bit a (val_zext b (length a + 1)) i s = Some (val_div_bit a (val_zext b (length a + 1)) i s)"
proof -
  obtain rem quot where s: "s = (rem, quot)" by fastforce
  have l: "length rem = length a + 1" "length quot = length a"
    using assms(4) by (simp_all add: div_inv_def s)
  have z: "length (val_zext b (length a + 1)) = length a + 1" using assms(2) by (simp add: bval_zext)
  have l1: "length (val_shl rem 1) = length a + 1" using l by (simp add: bval_shl)
  have l2: "length ((val_shl rem 1)[0 := a ! i]) = length a + 1" using l1 by simp
  have q: "shl_by rem 1 = Some (val_shl rem 1)" "at a i = Some (a ! i)"
    "put (val_shl rem 1) 0 (a ! i) = Some ((val_shl rem 1)[0 := a ! i])"
    "ult_bits ((val_shl rem 1)[0 := a ! i]) (val_zext b (length a + 1)) =
      Some (val_ult ((val_shl rem 1)[0 := a ! i]) (val_zext b (length a + 1)))"
    "sub_bits ((val_shl rem 1)[0 := a ! i]) (val_zext b (length a + 1)) =
      Some (val_sub ((val_shl rem 1)[0 := a ! i]) (val_zext b (length a + 1)))"
    "put quot i True = Some (quot[i := True])"
    using assms(1,3) l l1 l2 z by (simp_all add: ref_ok del: length_list_update)
  show ?thesis by (simp add: div_bit_def val_div_bit_def s q [unfolded One_nat_def Suc_eq_plus1 [symmetric]] q [simplified] Let_def)
qed

lemma udivrem_nonzero_ok [ref_ok]:
  assumes "0 < length a" "length a = length b" "\<not> ref_is_zero b"
  shows "udivrem_nonzero a b = Some (val_udivrem a b)"
proof -
  define n where "n = length a"
  let ?g = "val_div_bit a (val_zext b (n + 1))"
  let ?s = "(zeros (n + 1), replicate n False)"
  have "loop_down n (div_bit a (val_zext b (n + 1))) ?s = Some (for_down n ?g ?s) \<and> div_inv a b 0 (for_down n ?g ?s)"
  proof (rule loop_down_ok)
    have "bval b \<noteq> 0" using assms(3) by (simp add: ref_is_zero_iff)
    then show "div_inv a b n ?s" by (simp add: div_inv_def n_def)
    fix i s assume "i < n" "div_inv a b (Suc i) s"
    then show "div_bit a (val_zext b (n + 1)) i s = Some (?g i s) \<and> div_inv a b i (?g i s)"
      unfolding n_def
      using div_bit_ok [OF assms(1) assms(2) [symmetric]] val_div_bit_step [OF assms(2) [symmetric]] by blast
  qed
  moreover obtain rem quot where rq: "for_down n ?g ?s = (rem, quot)" by fastforce
  ultimately have d: "loop_down n (div_bit a (val_zext b (n + 1))) ?s = Some (rem, quot)"
    "length rem = n + 1" "length quot = n"
    by (simp_all add: div_inv_def n_def)
  have v: "val_udivrem a b = (quot, val_extract rem 0 n)" using rq by (simp add: val_udivrem_def n_def)
  have n: "0 < n" "length a = n" "length b = n" using assms by (simp_all add: n_def)
  have "quot \<noteq> []" using n d by auto
  then show ?thesis using n assms(3) d by (simp add: udivrem_nonzero_def v ref_ok)
qed

lemma div_ok [ref_ok]:
  assumes "0 < length a" "length a = length b"
  shows "udiv_bits a b = Some (val_udiv a b)" "urem_bits a b = Some (val_urem a b)"
  using assms by (simp_all add: udiv_bits_def urem_bits_def val_udiv_def val_urem_def ref_ok split_def)

lemma sdiv_ok [ref_ok]:
  assumes "0 < length a" "length a = length b"
  shows "sdiv_bits a b = Some (val_sdiv a b)" "srem_bits a b = Some (val_srem a b)"
  using assms by (auto simp: sdiv_bits_def srem_bits_def val_sdiv_def val_srem_def ref_ok bval_neg(2) bval_udiv(2,4)
      split: bool.splits)

lemma mulhi_ok [ref_ok]:
  assumes "0 < length a" "length a = length b"
  shows "mulhi_bits a b sgnd = Some (val_mulhi a b sgnd)"
proof -
  have "a \<noteq> []" "b \<noteq> []" using assms by auto
  then show ?thesis
    using assms by (auto simp: mulhi_bits_def val_mulhi_def ref_ok bval_zext(2) bval_sext(2) bval_mul(2) Let_def)
qed

lemma count_below_from_ok: "i \<le> length a \<Longrightarrow> count_below_from i a limit v = Some (val_count_from i a limit v)"
  by (induction i arbitrary: v) (simp_all add: ref_ok Let_def)

lemma count_below_ok [ref_ok]: "count_below a limit = Some (val_count a limit)"
  by (simp add: count_below_def val_count_def count_below_from_ok)

lemma value_mod_ok [ref_ok]:
  assumes "0 < m" shows "value_mod a m = Some (val_mod a m)"
  using loop_down_ok [of "\<lambda>_ _. True" "length a" 0 "\<lambda>i r. do { b \<leftarrow> at a i; mod_ok (2 * r + of_bool b) m }"
      "\<lambda>i r. (2 * r + of_bool (a ! i)) mod m"] assms
  by (simp add: value_mod_def val_mod_def ref_ok)

lemma count_to_bits_ok:
  assumes "0 < n" "c < 2 ^ n" shows "count_to_bits n c = Some (val_count_bits n c)"
proof -
  have "drop_bit n c = 0" using assms(2) by (simp add: drop_bit_eq_div)
  moreover have "drop_bit i c AND 1 = 1 \<longleftrightarrow> bit c i" for i
    by (simp add: bit_iff_odd_drop_bit and_one_eq odd_iff_mod_2_eq_one)
  ultimately show ?thesis using assms(1) by (simp add: count_to_bits_def val_count_bits_def ref_ok)
qed

lemma rot_ok [ref_ok]:
  assumes "c < length a"
  shows "ref_rotl_by a c = Some (val_rotl a c)" "ref_rotr_by a c = Some (val_rotr a c)"
proof -
  let ?n = "length a"
  have n: "0 < ?n" using assms by linarith
  have "map_collect ?n (\<lambda>i. do { d \<leftarrow> sub_ok (i + ?n) c; j \<leftarrow> mod_ok d ?n; at a j }) =
      Some (map (\<lambda>i. a ! ((i + ?n - c) mod ?n)) [0..<?n])"
    by (rule map_collect_ok) (use assms n in \<open>simp add: ref_ok\<close>)
  then show "ref_rotl_by a c = Some (val_rotl a c)"
    using n by (simp add: ref_rotl_by_def val_rotl_def ref_ok Let_def)
  have "map_collect ?n (\<lambda>i. do { j \<leftarrow> mod_ok (i + c) ?n; at a j }) = Some (map (\<lambda>i. a ! ((i + c) mod ?n)) [0..<?n])"
    by (rule map_collect_ok) (use n in \<open>simp add: ref_ok\<close>)
  then show "ref_rotr_by a c = Some (val_rotr a c)"
    using n by (simp add: ref_rotr_by_def val_rotr_def ref_ok Let_def)
qed

lemma pdep_pext_ok [ref_ok]:
  assumes "0 < length x" "length x = length m"
  shows "pdep_bits x m = Some (val_pdep x m)" "pext_bits x m = Some (val_pext x m)"
proof -
  let ?n = "length m"
  let ?I = "\<lambda>i (out, k). k \<le> i \<and> length out = length x"
  let ?f = "\<lambda>i (out, k). do { mi \<leftarrow> at m i;
      if mi then do { b \<leftarrow> at x k; out \<leftarrow> put out i b; Some (out, k + 1) } else Some (out, k) }"
  let ?F = "\<lambda>i (out, k). if m ! i then (out[i := x ! k], k + 1) else (out, k)"
  let ?g = "\<lambda>i (out, k). do { mi \<leftarrow> at m i;
      if mi then do { b \<leftarrow> at x i; out \<leftarrow> put out k b; Some (out, k + 1) } else Some (out, k) }"
  let ?G = "\<lambda>i (out, k). if m ! i then (out[k := x ! i], k + 1) else (out, k)"
  let ?s = "(replicate (length x) False, 0::nat)"
  have d: "loop_up ?n ?f ?s = Some (for_up ?n ?F ?s) \<and> ?I ?n (for_up ?n ?F ?s)"
    by (rule loop_up_ok [where I = ?I]) (use assms in \<open>auto simp: ref_ok split: prod.splits\<close>)
  have e: "loop_up ?n ?g ?s = Some (for_up ?n ?G ?s) \<and> ?I ?n (for_up ?n ?G ?s)"
    by (rule loop_up_ok [where I = ?I]) (use assms in \<open>auto simp: ref_ok split: prod.splits\<close>)
  obtain o1 k1 o2 k2 where p: "for_up ?n ?F ?s = (o1, k1)" "for_up ?n ?G ?s = (o2, k2)" by fastforce
  then have l: "o1 \<noteq> []" "o2 \<noteq> []" using d e assms by auto
  show "pdep_bits x m = Some (val_pdep x m)"
    using d l(1) unfolding pdep_bits_def val_pdep_def p same_len_ok [OF assms(2)] by (simp add: ref_ok)
  show "pext_bits x m = Some (val_pext x m)"
    using e l(2) unfolding pext_bits_def val_pext_def p same_len_ok [OF assms(2)] by (simp add: ref_ok)
qed

lemma ref_un_ok:
  assumes "ref_width (length a)"
  shows "ref_un op a = Inr (val_un op a)"
proof -
  define n where "n = length a"
  have n: "0 < n" "n < 2 ^ n" "length a = n" using assms by (auto simp: ref_width_def n_def)
  have "length (filter id a) \<le> n" "length (takeWhile Not (rev a)) \<le> n" "length (takeWhile Not a) \<le> n"
    unfolding n_def by (simp_all, metis length_rev length_takeWhile_le, rule length_takeWhile_le)
  note c = this [THEN le_less_trans, OF n(2), THEN count_to_bits_ok [OF n(1)]]
  have br: "map_collect n (\<lambda>i. do { j \<leftarrow> sub_ok n 1; j \<leftarrow> sub_ok j i; at a j }) =
      Some (map (\<lambda>i. a ! (n - 1 - i)) [0..<n])"
    by (rule map_collect_ok) (use n in \<open>simp add: ref_ok Suc_le_eq\<close>)
  have bs: "map_collect n (\<lambda>i. do { j \<leftarrow> sub_ok (n div 8) 1; j \<leftarrow> sub_ok j (i div 8); at a (j * 8 + i mod 8) }) =
      Some (map (\<lambda>i. a ! ((n div 8 - 1 - i div 8) * 8 + i mod 8)) [0..<n])" if "n mod 8 = 0"
  proof (rule map_collect_ok)
    fix i assume i: "i < n"
    have m: "n div 8 * 8 = n" using that by (metis add_0_right div_mult_mod_eq)
    then have d: "i div 8 < n div 8" using i by (simp add: less_mult_imp_div_less)
    then have "(n div 8 - 1 - i div 8) * 8 + i mod 8 < Suc (n div 8 - 1 - i div 8) * 8" by simp
    also have "\<dots> \<le> n div 8 * 8" using d by (intro mult_le_mono1) simp
    finally have "(n div 8 - 1 - i div 8) * 8 + i mod 8 < n" using m by simp
    then show "do { j \<leftarrow> sub_ok (n div 8) 1; j \<leftarrow> sub_ok j (i div 8); at a (j * 8 + i mod 8) } =
        Some (a ! ((n div 8 - 1 - i div 8) * 8 + i mod 8))"
      using d n(3) by (simp add: ref_ok)
  qed
  show ?thesis
    using n c br bs by (cases op) (auto simp: ref_un_def val_un_def Let_def ref_ok)
qed

lemma ref_bin_ok:
  assumes "length a = length b" "a \<noteq> []"
  shows "ref_bin op a b = Inr (val_bin op a b)"
proof -
  define n where "n = length a"
  have n: "0 < n" "length a = n" "length b = n" using assms by (auto simp: n_def)
  have m: "val_mod b n < n" using n by (simp add: val_mod_correct)
  have z: "zip a b \<noteq> []" using n by (cases a; cases b) auto
  show ?thesis
    using m n z by (cases op) (simp_all add: ref_bin_def val_bin_def ref_ok Let_def split: option.splits)
qed

lemma ref_cmp_ok:
  assumes "length a = length b" "a \<noteq> []"
  shows "ref_cmp op a b = Inr (val_cmp op a b)"
proof -
  have l: "0 < length a" "0 < length b" using assms by auto
  note ok = same_len_ok [OF assms(1)] ult_bits_ok [OF assms(1)] ult_bits_ok [OF assms(1) [symmetric]]
    slt_bits_ok [OF l(1) assms(1)] slt_bits_ok [OF l(2) assms(1) [symmetric]]
  show ?thesis by (cases op) (simp_all add: ref_cmp_def val_cmp_def ok)
qed

lemma ref_un_correct:
  assumes "ref_width (length a)"
  shows "ref_un op a = Inr (Some r) \<Longrightarrow> length r = length a \<and> bval r = sem_un op (length a) (bval a)"
    "ref_un op a = Inr None \<longleftrightarrow> op = UBswap \<and> length a mod 8 \<noteq> 0"
    "op = UBswap \<longrightarrow> length a mod 8 = 0 \<Longrightarrow> \<exists>r. ref_un op a = Inr (Some r)"
proof -
  note ok = ref_un_ok [OF assms, of op]
  show "length r = length a \<and> bval r = sem_un op (length a) (bval a)" if "ref_un op a = Inr (Some r)"
    by (rule val_un_correct(1) [OF assms]) (use that ok in simp)
  show iff: "ref_un op a = Inr None \<longleftrightarrow> op = UBswap \<and> length a mod 8 \<noteq> 0"
    unfolding val_un_correct(2) [OF assms, symmetric] ok by simp
  show "\<exists>r. ref_un op a = Inr (Some r)" if "op = UBswap \<longrightarrow> length a mod 8 = 0"
    using iff that ok by (cases "val_un op a") auto
qed

lemma ref_bin_correct:
  assumes "length a = length b" "a \<noteq> []"
  shows "\<exists>r. ref_bin op a b = Inr r \<and> length r = length a \<and> bval r = sem_bin op (length a) (bval a) (bval b)"
  using ref_bin_ok [OF assms] val_bin_correct [OF assms] by simp

lemma ref_cmp_correct:
  assumes "length a = length b" "a \<noteq> []"
  shows "ref_cmp op a b = Inr (sem_cmp_ext op (length a) (bval a) (bval b))"
  using ref_cmp_ok [OF assms] val_cmp_correct [OF assms] by simp

lemma ref_convert_correct:
  assumes "a \<noteq> []"
  shows "ref_width to \<Longrightarrow> length a \<le> to \<Longrightarrow>
      ref_zext a to = Inr (val_zext a to) \<and> ref_sext a to = Inr (val_sext a to)"
    "0 < n \<Longrightarrow> lo + n \<le> length a \<Longrightarrow> ref_extract a lo n = Inr (val_extract a lo n)"
    "ref_width (length a + length b) \<Longrightarrow> ref_concat b a = Inr (a @ b)"
    "bval (a @ b) = sem_concat (length a) (bval b) (bval a)"
  using assms by (auto simp: ref_zext_def ref_sext_def ref_extract_def ref_concat_def check_width_def ref_width_def
      sem_concat_def bval_append ref_ok)

text \<open>The constructors return the value they are given, truncated or extended to the width.\<close>

lemma shift_and_one: "drop_bit i (x::'a::len word) AND 1 = 1 \<longleftrightarrow> bit x i"
  by (simp add: bit_iff_odd_drop_bit and_one_eq odd_iff_mod_2_eq_one)

lemma bits_from_ok:
  assumes "ref_width w"
  shows "bits_from_u128 w v = Inr (map (\<lambda>i. i < 128 \<and> bit v i) [0..<w])"
    "bits_from_limbs w l = Inr (map (\<lambda>i. i div 64 < length l \<and> bit (l ! (i div 64)) (i mod 64)) [0..<w])"
    "bits_from_bools (replicate w x) = Inr (replicate w x)"
  using assms
  by (simp_all add: bits_from_u128_def bits_from_limbs_def bits_from_bools_def check_width_def ref_width_def
      shift_and_one ref_ok)

lemma bits_from_u128_correct:
  assumes "ref_width w"
  shows "\<exists>r. bits_from_u128 w v = Inr r \<and> length r = w \<and> bval r = unat v mod 2 ^ w"
proof -
  have "bval (map (\<lambda>i. i < 128 \<and> bit v i) [0..<w]) = take_bit w (unat v)"
    using bit_imp_le_length [of v] by (intro bit_eqI) (auto simp: bit_bval bit_take_bit_iff bit_unat)
  then show ?thesis using assms by (simp add: bits_from_ok take_bit_eq_mod)
qed

text \<open>Operands of two widths make every binary operator and comparison panic.\<close>

lemma ref_mismatch:
  assumes "length a \<noteq> length b"
  shows "ref_bin op a b = Inl Panic" "ref_cmp cop a b = Inl Panic"
  using assms by (simp_all add: ref_bin_def ref_cmp_def same_len_def)


section \<open>Terms\<close>

text \<open>\<open>Term\<close> and its evaluation: a panic, \<open>None\<close> for a byte swap at an odd width, or a value.\<close>

datatype Term =
    TConst bits
  | TVar nat nat
  | TUn UnOp Term
  | TBin BinOp Term Term
  | TCmp CmpOpExt Term Term
  | TZext Term nat
  | TSext Term nat
  | TExtract Term nat nat
  | TConcat Term Term
  | TSelect Term Term Term

fun term_width :: "Term \<Rightarrow> nat" where
  "term_width (TConst b) = length b"
| "term_width (TVar i w) = w"
| "term_width (TUn op a) = term_width a"
| "term_width (TBin op a b) = term_width a"
| "term_width (TCmp op a b) = 1"
| "term_width (TZext a w) = w"
| "term_width (TSext a w) = w"
| "term_width (TExtract a lo n) = n"
| "term_width (TConcat hi lo) = term_width hi + term_width lo"
| "term_width (TSelect c t f) = term_width t"

definition andThen :: "panic + bits option \<Rightarrow> (bits \<Rightarrow> panic + bits option) \<Rightarrow> panic + bits option" where
  "andThen m f = (case m of Inl p \<Rightarrow> Inl p | Inr None \<Rightarrow> Inr None | Inr (Some x) \<Rightarrow> f x)"

definition some_of :: "panic + bits \<Rightarrow> panic + bits option" where
  "some_of m = (case m of Inl p \<Rightarrow> Inl p | Inr x \<Rightarrow> Inr (Some x))"

lemma andThen_simps [simp]: "andThen (Inr (Some x)) f = f x" "andThen (Inr None) f = Inr None"
  "andThen (Inl p) f = Inl p" "some_of (Inr x) = Inr (Some x)" "some_of (Inl p) = Inl p"
  by (simp_all add: andThen_def some_of_def)

fun term_eval :: "bits list \<Rightarrow> Term \<Rightarrow> panic + bits option" where
  "term_eval env (TConst b) = Inr (Some b)"
| "term_eval env (TVar i w) =
     (if i < length env \<and> length (env ! i) = w then Inr (Some (env ! i)) else Inl Panic)"
| "term_eval env (TUn op a) = andThen (term_eval env a) (ref_un op)"
| "term_eval env (TBin op a b) =
     andThen (term_eval env a) (\<lambda>x. andThen (term_eval env b) (\<lambda>y. some_of (ref_bin op x y)))"
| "term_eval env (TCmp op a b) =
     andThen (term_eval env a) (\<lambda>x. andThen (term_eval env b) (\<lambda>y.
       case ref_cmp op x y of Inl p \<Rightarrow> Inl p | Inr r \<Rightarrow> Inr (Some [r])))"
| "term_eval env (TZext a w) = andThen (term_eval env a) (\<lambda>x. some_of (ref_zext x w))"
| "term_eval env (TSext a w) = andThen (term_eval env a) (\<lambda>x. some_of (ref_sext x w))"
| "term_eval env (TExtract a lo n) = andThen (term_eval env a) (\<lambda>x. some_of (ref_extract x lo n))"
| "term_eval env (TConcat hi lo) =
     andThen (term_eval env hi) (\<lambda>x. andThen (term_eval env lo) (\<lambda>y. some_of (ref_concat x y)))"
| "term_eval env (TSelect c t f) =
     andThen (term_eval env c) (\<lambda>x. andThen (term_eval env t) (\<lambda>y. andThen (term_eval env f) (\<lambda>z.
       some_of (ref_select x y z))))"

text \<open>The typing of terms over the widths of the environment, and their specified value.\<close>

fun term_ok :: "nat list \<Rightarrow> Term \<Rightarrow> bool" where
  "term_ok ws (TConst b) \<longleftrightarrow> ref_width (length b)"
| "term_ok ws (TVar i w) \<longleftrightarrow> i < length ws \<and> ws ! i = w \<and> ref_width w"
| "term_ok ws (TUn op a) \<longleftrightarrow> term_ok ws a \<and> (op = UBswap \<longrightarrow> term_width a mod 8 = 0)"
| "term_ok ws (TBin op a b) \<longleftrightarrow> term_ok ws a \<and> term_ok ws b \<and> term_width a = term_width b"
| "term_ok ws (TCmp op a b) \<longleftrightarrow> term_ok ws a \<and> term_ok ws b \<and> term_width a = term_width b"
| "term_ok ws (TZext a w) \<longleftrightarrow> term_ok ws a \<and> term_width a \<le> w \<and> ref_width w"
| "term_ok ws (TSext a w) \<longleftrightarrow> term_ok ws a \<and> term_width a \<le> w \<and> ref_width w"
| "term_ok ws (TExtract a lo n) \<longleftrightarrow> term_ok ws a \<and> 1 \<le> n \<and> lo + n \<le> term_width a"
| "term_ok ws (TConcat hi lo) \<longleftrightarrow> term_ok ws hi \<and> term_ok ws lo \<and> ref_width (term_width hi + term_width lo)"
| "term_ok ws (TSelect c t f) \<longleftrightarrow> term_ok ws c \<and> term_ok ws t \<and> term_ok ws f \<and> term_width c = 1 \<and>
     term_width t = term_width f"

fun sem_term :: "nat list \<Rightarrow> Term \<Rightarrow> nat" where
  "sem_term vs (TConst b) = bval b"
| "sem_term vs (TVar i w) = vs ! i"
| "sem_term vs (TUn op a) = sem_un op (term_width a) (sem_term vs a)"
| "sem_term vs (TBin op a b) = sem_bin op (term_width a) (sem_term vs a) (sem_term vs b)"
| "sem_term vs (TCmp op a b) = of_bool (sem_cmp_ext op (term_width a) (sem_term vs a) (sem_term vs b))"
| "sem_term vs (TZext a w) = sem_zext (sem_term vs a)"
| "sem_term vs (TSext a w) = sem_sext (term_width a) w (sem_term vs a)"
| "sem_term vs (TExtract a lo n) = sem_extract lo n (sem_term vs a)"
| "sem_term vs (TConcat hi lo) = sem_concat (term_width lo) (sem_term vs hi) (sem_term vs lo)"
| "sem_term vs (TSelect c t f) = (if sem_term vs c = 1 then sem_term vs t else sem_term vs f)"

lemma ref_width_pos: "ref_width (length a) \<Longrightarrow> a \<noteq> []"
  by (auto simp: ref_width_def)

text \<open>Progress, preservation and adequacy of evaluation.\<close>

lemma term_eval_correct:
  "term_ok (map length env) t \<Longrightarrow>
   \<exists>r. term_eval env t = Inr (Some r) \<and> length r = term_width t \<and> ref_width (length r) \<and>
     bval r = sem_term (map bval env) t"
proof (induction t)
  case (TUn op a)
  then obtain x where x: "term_eval env a = Inr (Some x)" "length x = term_width a" "ref_width (length x)"
    "bval x = sem_term (map bval env) a" by auto
  obtain r where "ref_un op x = Inr (Some r)" using ref_un_correct(3) [OF x(3), of op] TUn.prems x(2) by auto
  then show ?case using ref_un_correct(1) [OF x(3), of op r] x by auto
next
  case (TBin op a b)
  then obtain x y where x: "term_eval env a = Inr (Some x)" "length x = term_width a" "ref_width (length x)"
    "bval x = sem_term (map bval env) a"
    and y: "term_eval env b = Inr (Some y)" "length y = term_width b" "bval y = sem_term (map bval env) b" by auto
  have "length x = length y" using x y TBin.prems by simp
  then show ?case using ref_bin_correct [OF _ ref_width_pos [OF x(3)], of y op] x y by auto
next
  case (TCmp op a b)
  then obtain x y where x: "term_eval env a = Inr (Some x)" "length x = term_width a" "ref_width (length x)"
    "bval x = sem_term (map bval env) a"
    and y: "term_eval env b = Inr (Some y)" "length y = term_width b" "bval y = sem_term (map bval env) b" by auto
  have "length x = length y" using x y TCmp.prems by simp
  then show ?case
    using ref_cmp_correct [OF _ ref_width_pos [OF x(3)], of y op] x y by (auto simp: ref_width_def REF_MAX_WIDTH_def)
next
  case (TZext a w)
  then obtain x where x: "term_eval env a = Inr (Some x)" "length x = term_width a" "ref_width (length x)"
    "bval x = sem_term (map bval env) a" by auto
  then show ?case
    using ref_convert_correct(1) [OF ref_width_pos [OF x(3)], of w] TZext.prems
    by (auto simp: bval_zext sem_zext_def max_def)
next
  case (TSext a w)
  then obtain x where x: "term_eval env a = Inr (Some x)" "length x = term_width a" "ref_width (length x)"
    "bval x = sem_term (map bval env) a" by auto
  then show ?case
    using ref_convert_correct(1) [OF ref_width_pos [OF x(3)], of w] TSext.prems
      bval_sext [OF ref_width_pos [OF x(3)], of w] by auto
next
  case (TExtract a lo n)
  then obtain x where x: "term_eval env a = Inr (Some x)" "length x = term_width a" "ref_width (length x)"
    "bval x = sem_term (map bval env) a" by auto
  then show ?case
    using ref_convert_correct(2) [OF ref_width_pos [OF x(3)], of n lo] TExtract.prems
    by (auto simp: bval_extract ref_width_def)
next
  case (TConcat hi lo)
  then obtain x y where x: "term_eval env hi = Inr (Some x)" "length x = term_width hi"
    "bval x = sem_term (map bval env) hi"
    and y: "term_eval env lo = Inr (Some y)" "length y = term_width lo" "ref_width (length y)"
    "bval y = sem_term (map bval env) lo" by auto
  then show ?case
    using ref_convert_correct(3,4) [OF ref_width_pos [OF y(3)], of x] TConcat.prems by (auto simp: add.commute)
next
  case (TSelect c t f)
  then obtain x y z where x: "term_eval env c = Inr (Some x)" "length x = 1" "bval x = sem_term (map bval env) c"
    and y: "term_eval env t = Inr (Some y)" "length y = term_width t" "ref_width (length y)"
      "bval y = sem_term (map bval env) t"
    and z: "term_eval env f = Inr (Some z)" "length z = term_width t" "bval z = sem_term (map bval env) f" by auto
  have "bval x = 1 \<longleftrightarrow> x ! 0" using x(2) by (cases x) auto
  then show ?case using x y z by (auto simp: ref_select_def same_len_def at_def)
qed auto


section \<open>The contract\<close>

interpretation ref: bv_kernel width_ok "\<lambda>w a. length a = w" bval "\<lambda>op w a. the (projr (ref_un op a))"
  "\<lambda>op w a b. projr (ref_bin op a b)" "\<lambda>op w. True" "\<lambda>op w a b. projr (ref_cmp (ext_of_cmp op) a b)"
proof
  fix w :: nat and a b :: bits and uop bop cop
  assume w: "width_ok w" and a: "length a = w"
  then have rw: "ref_width (length a)" "a \<noteq> []"
    by (auto simp: width_ok_def ref_width_def REF_MAX_WIDTH_def)
  show "bval a < 2 ^ w" using bval_less [of a] a by simp
  show "uop = UBswap \<longrightarrow> w mod 8 = 0 \<Longrightarrow> length (the (projr (ref_un uop a))) = w \<and>
      bval (the (projr (ref_un uop a))) = sem_un uop w (bval a)"
    using ref_un_correct(1,3) [OF rw(1), of uop] a by fastforce
  assume b: "length b = w"
  show "bval a = bval b \<Longrightarrow> a = b" using bval_eq_iff [of a b] a b by simp
  show "length (projr (ref_bin bop a b)) = w \<and> bval (projr (ref_bin bop a b)) = sem_bin bop w (bval a) (bval b)"
    using ref_bin_correct [OF _ rw(2), of b bop] a b by auto
  show "projr (ref_cmp (ext_of_cmp cop) a b) = sem_cmp cop w (bval a) (bval b)"
    using ref_cmp_correct [OF _ rw(2), of b "ext_of_cmp cop"] a b
    by (cases cop) (simp_all add: sem_cmp_ext_def sem_cmp_def)
qed simp_all


section \<open>Property\<close>

text \<open>
  C8: evaluating a well-typed term in an environment of the right widths never panics: it
  returns a value of the width the term declares, equal to the term's specified value.
\<close>

theorem terms_evaluate:
  assumes "term_ok (map length env) t"
  shows "\<exists>r. term_eval env t = Inr (Some r) \<and> length r = term_width t \<and> bval r = sem_term (map bval env) t"
  using term_eval_correct [OF assms] by blast

theorem terms_evaluate_witness:
  "\<exists>r. term_eval [[True, True, False]] (TZext (TBin BUDiv (TVar 0 3) (TConst [False, True, False])) 4) = Inr (Some r) \<and>
    length r = 4 \<and> bval r = 1"
  using terms_evaluate [of "[[True, True, False]]" "TZext (TBin BUDiv (TVar 0 3) (TConst [False, True, False])) 4"]
  by (simp add: ref_width_def REF_MAX_WIDTH_def sem_zext_def sem_bin_def flip: numeral_2_eq_2 numeral_3_eq_3)

end
