(* ===== verification/Agreement.thy ===== *)
theory Agreement
  imports BitVec_Text Ref_Eval
begin

unbundle bit_operations_syntax

text \<open>
  The evaluators of the program agree: the native kernel with the limb kernel, and the
  library's values with the bit-serial reference evaluator, through the conversion
  \<open>Bits::from_limbs\<close> the tests use. Each pair interprets the locale of two evaluators of one
  contract.
\<close>

interpretation narrow_wide: bv_kernel_pair width_narrow width_ok narrow_ok limbs_ok unat lval
  narrow_un wide_un narrow_bin wide_bin narrow_bin_supported "\<lambda>op w. True" narrow_cmp wide_cmp
  by unfold_locales

interpretation bitvec_ref: bv_kernel_pair width_ok width_ok "\<lambda>w a. bv_ok a \<and> bv_width a = w"
  "\<lambda>w a. length a = w" bv_val bval "\<lambda>op w. un_unchecked op" "\<lambda>op w a. the (projr (ref_un op a))"
  "\<lambda>op w. bin_unchecked op" "\<lambda>op w a b. projr (ref_bin op a b)" "\<lambda>op w. True" "\<lambda>op w. True"
  "\<lambda>op w. cmp_unchecked op" "\<lambda>op w a b. projr (ref_cmp (ext_of_cmp op) a b)"
  by unfold_locales

text \<open>The bits of a library value, as the tests hand them to the reference evaluator.\<close>

definition bits_of :: "BitVec \<Rightarrow> panic + bits" where
  "bits_of v = bits_from_limbs (bv_width v) (active_limbs v)"

lemma bits_of_correct:
  assumes "bv_ok v"
  shows "\<exists>x. bits_of v = Inr x \<and> length x = bv_width v \<and> bval x = bv_val v"
proof -
  define w where "w = bv_width v"
  define x where "x = map (\<lambda>i. i div 64 < length (active_limbs v) \<and> bit (active_limbs v ! (i div 64)) (i mod 64)) [0..<w]"
  have l: "length (bv_limbs v) = 8" and lt: "bv_val v < 2 ^ w" and w: "width_ok w"
    using bv_okD [OF assms] by (simp_all add: w_def)
  have n: "i < w \<Longrightarrow> i div 64 < nlimbs w" for i by (auto simp: nlimbs_def)
  have n8: "nlimbs w \<le> 8" using w by (auto simp: nlimbs_def width_ok_def)
  have "bval x = bv_val v"
  proof (rule bit_eqI)
    fix i :: nat
    have "bit (bval x) i \<longleftrightarrow> i < w \<and> bit (bv_limbs v ! (i div 64)) (i mod 64)"
      using n [of i] n8 l by (auto simp: bit_bval x_def active_limbs_def w_def [symmetric])
    also have "\<dots> \<longleftrightarrow> bit (bv_val v) i"
      using bit_nat_less [OF lt, of i] l n [of i] n8 by (auto simp: bv_val_def bit_lval)
    finally show "bit (bval x) i = bit (bv_val v) i" .
  qed
  moreover have "ref_width w" using w by (auto simp: ref_width_def REF_MAX_WIDTH_def width_ok_def)
  then have "bits_of v = Inr x" by (simp add: bits_of_def bits_from_ok x_def w_def)
  ultimately show ?thesis by (simp add: x_def w_def)
qed

lemma bits_of_eqI:
  assumes "bv_ok v" "length r = bv_width v" "bval r = bv_val v"
  shows "bits_of v = Inr r"
  using bits_of_correct [OF assms(1)] bval_eq_iff [of _ r] assms(2,3) by fastforce


section \<open>Properties\<close>

text \<open>
  C3: the native \<open>u128\<close> kernel and the limb kernel compute the same value for every operator
  the native kernel supports, at every width up to 128, whatever the operands.
\<close>

theorem native_equals_limbs:
  assumes "0 < w" "w \<le> 128" "narrow_ok w a" "narrow_ok w b" "limbs_ok w x" "limbs_ok w y"
    and "unat a = lval x" "unat b = lval y"
  shows "(narrow_bin_supported op w \<longrightarrow> unat (narrow_bin op w a b) = lval (wide_bin op w x y)) \<and>
    ((uop = UBswap \<longrightarrow> w mod 8 = 0) \<longrightarrow> unat (narrow_un uop w a) = lval (wide_un uop w x)) \<and>
    narrow_cmp cop w a b = wide_cmp cop w x y"
  using assms narrow_wide.bin_agree [of w a b x y op] narrow_wide.un_agree [of w a x uop]
    narrow_wide.cmp_agree [of w a b x y cop]
  by (simp add: width_narrow_def width_ok_def)

theorem native_equals_limbs_witness:
  "unat (narrow_bin BSRem 100 7 1267650600228229401496703205373) =
     lval (wide_bin BSRem 100 [7, 0, 0, 0, 0, 0, 0, 0] [18446744073709551613, 68719476735, 0, 0, 0, 0, 0, 0])"
  using native_equals_limbs [of 100 7 1267650600228229401496703205373 "[7, 0, 0, 0, 0, 0, 0, 0]"
      "[18446744073709551613, 68719476735, 0, 0, 0, 0, 0, 0]" BSRem UNot CEq]
  by (simp add: narrow_ok_def limbs_ok_def MAX_LIMBS_def B64_def narrow_bin_supported_def)

text \<open>
  C5: the bits of the library's values are never refused by the reference evaluator, and every
  unary and binary operator and every comparison of the library returns, bit for bit, what the
  reference evaluator returns on them. Where the library reports two widths that differ, the
  evaluator panics; where it reports a byte swap at an odd width, the evaluator returns
  \<open>None\<close>; elsewhere none of the evaluator's own assertions fails.
\<close>

theorem library_agrees_with_reference:
  assumes "bv_ok a" "bv_ok b"
  shows "\<exists>x y. bits_of a = Inr x \<and> bits_of b = Inr y \<and>
    (case apply_bin op a b of
      Inl e \<Rightarrow> ref_bin op x y = Inl Panic
    | Inr r \<Rightarrow> \<exists>z. bits_of r = Inr z \<and> ref_bin op x y = Inr z) \<and>
    (case apply_un uop a of
      Inl e \<Rightarrow> ref_un uop x = Inr None
    | Inr r \<Rightarrow> \<exists>z. bits_of r = Inr z \<and> ref_un uop x = Inr (Some z)) \<and>
    (case apply_cmp cop a b of
      Inl e \<Rightarrow> ref_cmp cop x y = Inl Panic
    | Inr t \<Rightarrow> ref_cmp cop x y = Inr t)"
proof -
  obtain x y where x: "bits_of a = Inr x" "length x = bv_width a" "bval x = bv_val a"
    and y: "bits_of b = Inr y" "length y = bv_width b" "bval y = bv_val b"
    using bits_of_correct assms by blast
  have w: "width_ok (bv_width a)" using bv_okD(1) [OF assms(1)] .
  then have ne: "x \<noteq> []" and rw: "ref_width (length x)"
    using x(2) by (auto simp: width_ok_def ref_width_def REF_MAX_WIDTH_def)
  have un: "case apply_un uop a of
      Inl e \<Rightarrow> ref_un uop x = Inr None
    | Inr r \<Rightarrow> \<exists>z. bits_of r = Inr z \<and> ref_un uop x = Inr (Some z)"
    using ref_un_correct [OF rw, of uop] un_unchecked_correct [OF assms(1), of uop] x(2,3)
    by (auto simp: apply_un_def Let_def intro!: bits_of_eqI)
  show ?thesis
  proof (cases "bv_width a = bv_width b")
    case True
    then have l: "length x = length y" using x(2) y(2) by simp
    obtain r where r: "ref_bin op x y = Inr r" "length r = bv_width a"
      "bval r = sem_bin op (bv_width a) (bv_val a) (bv_val b)"
      using ref_bin_correct [OF l ne, of op] x y by auto
    have "bits_of (bin_unchecked op a b) = Inr r"
      using bin_unchecked_correct [OF assms True, of op] r by (intro bits_of_eqI) auto
    then show ?thesis
      using x y un r True ref_cmp_correct [OF l ne, of cop] apply_cmp_correct [OF assms, of cop]
      by (simp add: apply_bin_def same_width_def)
  next
    case False
    then have "length x \<noteq> length y" using x(2) y(2) by simp
    then show ?thesis
      using x(1) y(1) un False ref_mismatch [of x y] by (simp add: apply_bin_def apply_cmp_def same_width_def)
  qed
qed

theorem library_agrees_with_reference_witness:
  "(\<exists>x y. bits_of (bv_ones 8) = Inr x \<and> bits_of (bv_zero 16) = Inr y \<and> ref_bin BAdd x y = Inl Panic) \<and>
   (\<exists>x y z. bits_of (bv_ones 200) = Inr x \<and> bits_of (bv_zero 200) = Inr y \<and>
      bits_of (bin_unchecked BUDiv (bv_ones 200) (bv_zero 200)) = Inr z \<and> ref_bin BUDiv x y = Inr z)"
proof (rule conjI)
  have ok: "bv_ok (bv_ones w)" "bv_ok (bv_zero w)" "bv_width (bv_ones w) = w" "bv_width (bv_zero w) = w"
    if "w \<in> {8, 16, 200}" for w
    using bv_const [of w] that by (auto simp: width_ok_def)
  have e: "apply_bin BAdd (bv_ones 8) (bv_zero 16) = Inl (Mismatch 8 16)"
    "apply_bin BUDiv (bv_ones 200) (bv_zero 200) = Inr (bin_unchecked BUDiv (bv_ones 200) (bv_zero 200))"
    using ok by (simp_all add: apply_bin_def same_width_def)
  show "\<exists>x y. bits_of (bv_ones 8) = Inr x \<and> bits_of (bv_zero 16) = Inr y \<and> ref_bin BAdd x y = Inl Panic"
    using library_agrees_with_reference [of "bv_ones 8" "bv_zero 16" BAdd UNot XEq] ok unfolding e(1) by auto
  show "\<exists>x y z. bits_of (bv_ones 200) = Inr x \<and> bits_of (bv_zero 200) = Inr y \<and>
      bits_of (bin_unchecked BUDiv (bv_ones 200) (bv_zero 200)) = Inr z \<and> ref_bin BUDiv x y = Inr z"
    using library_agrees_with_reference [of "bv_ones 200" "bv_zero 200" BUDiv UNot XEq] ok unfolding e(2) by auto
qed

text \<open>
  C9: for values of one width the quotient times the divisor plus the remainder is the
  dividend, signed and unsigned, for every divisor (a zero divisor included).
\<close>

theorem division_identity:
  assumes "bv_ok a" "bv_ok b" "bv_width a = bv_width b"
  shows "bin_unchecked BAdd (bin_unchecked BMul (bin_unchecked BUDiv a b) b) (bin_unchecked BURem a b) = a \<and>
    bin_unchecked BAdd (bin_unchecked BMul (bin_unchecked BSDiv a b) b) (bin_unchecked BSRem a b) = a"
proof -
  have k: "width_ok (bv_width a)" "bv_ok a \<and> bv_width a = bv_width a" "bv_ok b \<and> bv_width b = bv_width a"
    using assms bv_okD(1) [OF assms(1)] by simp_all
  have "(BUDiv, BURem) \<in> {(BUDiv, BURem), (BSDiv, BSRem)}" "(BSDiv, BSRem) \<in> {(BUDiv, BURem), (BSDiv, BSRem)}"
    by simp_all
  note p = bitvec.div_rem [OF k TrueI TrueI TrueI TrueI this(1)] bitvec.div_rem [OF k TrueI TrueI TrueI TrueI this(2)]
  show ?thesis using p by (rule conjI)
qed

theorem division_identity_witness:
  "bin_unchecked BAdd (bin_unchecked BMul (bin_unchecked BSDiv (bv_ones 200) (bv_zero 200)) (bv_zero 200))
     (bin_unchecked BSRem (bv_ones 200) (bv_zero 200)) = bv_ones 200"
  using division_identity [of "bv_ones 200" "bv_zero 200"] bv_const [of 200] by (simp add: width_ok_def)

text \<open>
  The operators that \<open>is_commutative\<close> reports commute, exactly, on values of one width.
\<close>

theorem commutative_flags_sound:
  assumes "bv_ok a" "bv_ok b" "bv_width a = bv_width b" "bin_is_commutative op"
  shows "apply_bin op a b = apply_bin op b a"
proof -
  have k: "width_ok (bv_width a)" "bv_ok a \<and> bv_width a = bv_width a" "bv_ok b \<and> bv_width b = bv_width a"
    using assms bv_okD(1) [OF assms(1)] by simp_all
  have "bin_unchecked op a b = bin_unchecked op b a"
    by (rule bitvec.bin_commute [OF k TrueI assms(4)])
  then show ?thesis using assms(3) unfolding apply_bin_def same_width_def by simp
qed

theorem commutative_flags_sound_witness:
  "apply_bin BSMulHi (bv_ones 200) (bv_one 200) = apply_bin BSMulHi (bv_one 200) (bv_ones 200)"
  using commutative_flags_sound [of "bv_ones 200" "bv_one 200" BSMulHi] bv_const [of 200]
  by (simp add: width_ok_def bin_is_commutative_def)

text \<open>
  C10: depositing the bits that were extracted under a mask restores exactly the masked bits,
  rotating back undoes a rotation by any amount, and negation, complement and bit reversal
  are involutions.
\<close>

theorem permutations_invert:
  assumes "bv_ok a" "bv_ok b" "bv_width a = bv_width b" "op \<in> {UNot, UNeg, UBitRev}"
  shows "bin_unchecked BPdep (bin_unchecked BPext a b) b = bin_unchecked BAnd a b \<and>
    bin_unchecked BRotR (bin_unchecked BRotL a b) b = a \<and>
    un_unchecked op (un_unchecked op a) = a"
proof -
  have k: "width_ok (bv_width a)" "bv_ok a \<and> bv_width a = bv_width a" "bv_ok b \<and> bv_width b = bv_width a"
    using assms bv_okD(1) [OF assms(1)] by simp_all
  show ?thesis
    using bitvec.pdep_pext [OF k TrueI TrueI TrueI] bitvec.rotr_rotl [OF k TrueI TrueI]
      bitvec.un_involutive [OF k(1,2) disjI1, OF assms(4)] by blast
qed

theorem permutations_invert_witness:
  "bin_unchecked BRotR (bin_unchecked BRotL (bv_one 200) (bv_ones 200)) (bv_ones 200) = bv_one 200"
  using permutations_invert [of "bv_one 200" "bv_ones 200" UNot] bv_const [of 200] by (simp add: width_ok_def)

end
