(* ===== verification/Facts_Domain.thy ===== *)
theory Facts_Domain
  imports BitVec
begin

text \<open>
  The contract of the three abstract domains of \<open>bitwright/src/facts\<close> (known bits, strided
  unsigned intervals, signed intervals) as a locale: every description stands for a set of
  values of its width, the meet contains the intersection and fails only on disjoint sets, and
  the hull contains the union. The consequences their clients use, joins and meets over a
  whole list of cases, are proved once here; each domain interprets the locale in its theory.
\<close>

locale abs_domain =
  fixes ok :: "nat \<Rightarrow> 'f \<Rightarrow> bool"
    and mem :: "nat \<Rightarrow> 'f \<Rightarrow> nat \<Rightarrow> bool"
    and full :: "nat \<Rightarrow> 'f"
    and single :: "BitVec \<Rightarrow> 'f"
    and meet :: "'f \<Rightarrow> 'f \<Rightarrow> 'f option"
    and hull :: "'f \<Rightarrow> 'f \<Rightarrow> 'f"
  assumes full: "width_ok w \<Longrightarrow> ok w (full w) \<and> (\<forall>x<2 ^ w. mem w (full w) x)"
    and single: "bv_ok v \<Longrightarrow> bv_width v = w \<Longrightarrow>
      ok w (single v) \<and> (\<forall>x<2 ^ w. mem w (single v) x \<longleftrightarrow> x = bv_val v)"
    and meet: "ok w f \<Longrightarrow> ok w g \<Longrightarrow> (case meet f g of
        None \<Rightarrow> \<forall>x<2 ^ w. \<not> (mem w f x \<and> mem w g x)
      | Some m \<Rightarrow> ok w m \<and> (\<forall>x<2 ^ w. mem w f x \<and> mem w g x \<longrightarrow> mem w m x))"
    and hull: "ok w f \<Longrightarrow> ok w g \<Longrightarrow>
      ok w (hull f g) \<and> (\<forall>x<2 ^ w. mem w f x \<or> mem w g x \<longrightarrow> mem w (hull f g) x)"
begin

text \<open>Folding the hull over cases covers every case.\<close>

lemma hull_fold:
  assumes "ok w f" "\<forall>g\<in>set gs. ok w g"
  shows "ok w (fold (\<lambda>g acc. hull acc g) gs f) \<and>
    (\<forall>x<2 ^ w. (\<exists>g\<in>set (f # gs). mem w g x) \<longrightarrow> mem w (fold (\<lambda>g acc. hull acc g) gs f) x)"
  using assms
proof (induction gs arbitrary: f)
  case (Cons g gs)
  have h: "ok w (hull f g)" "\<forall>x<2 ^ w. mem w f x \<or> mem w g x \<longrightarrow> mem w (hull f g) x"
    using hull [of w f g] Cons.prems by auto
  have IH: "ok w (fold (\<lambda>g acc. hull acc g) gs (hull f g))"
    "\<And>x g'. x < 2 ^ w \<Longrightarrow> g' \<in> set (hull f g # gs) \<Longrightarrow> mem w g' x \<Longrightarrow>
      mem w (fold (\<lambda>g acc. hull acc g) gs (hull f g)) x"
    using Cons.IH [OF h(1)] Cons.prems(2) by auto
  have "mem w (fold (\<lambda>g acc. hull acc g) gs (hull f g)) x"
    if x: "x < 2 ^ w" and k: "k \<in> set (f # g # gs)" "mem w k x" for x k
  proof (cases "k \<in> set gs")
    case True
    then show ?thesis using IH(2) [OF x, of k] k(2) by simp
  next
    case False
    then have "mem w (hull f g) x" using h(2) x k by auto
    then show ?thesis using IH(2) [OF x, of "hull f g"] by simp
  qed
  then show ?case using IH(1) by simp blast
qed simp

lemma hull_singles:
  assumes "bv_ok v" "bv_width v = w" "\<forall>u\<in>set vs. bv_ok u \<and> bv_width u = w" "u \<in> set (v # vs)"
  shows "mem w (fold (\<lambda>g acc. hull acc g) (map single vs) (single v)) (bv_val u)"
proof -
  have "ok w (single v)" "\<forall>g\<in>set (map single vs). ok w g" using single assms(1-3) by auto
  moreover have "bv_ok u" "bv_width u = w" using assms by auto
  then have "mem w (single u) (bv_val u)" "bv_val u < 2 ^ w" using single [of u w] bv_okD(3) [of u] by auto
  moreover have "\<exists>g\<in>set (single v # map single vs). mem w g (bv_val u)"
    using calculation(3) assms(4) by auto
  ultimately show ?thesis using hull_fold [of w "single v" "map single vs"] by blast
qed

text \<open>Meeting a list of constraints keeps every value that satisfies them all.\<close>

primrec meet_list :: "'f list \<Rightarrow> 'f \<Rightarrow> 'f option" where
  "meet_list [] f = Some f"
| "meet_list (g # gs) f = (case meet f g of None \<Rightarrow> None | Some m \<Rightarrow> meet_list gs m)"

lemma meet_list_sound:
  assumes "ok w f" "\<forall>g\<in>set gs. ok w g" "x < 2 ^ w" "mem w f x" "\<forall>g\<in>set gs. mem w g x"
  shows "\<exists>m. meet_list gs f = Some m \<and> ok w m \<and> mem w m x"
  using assms
proof (induction gs arbitrary: f)
  case (Cons g gs)
  have og: "ok w g" "mem w g x" using Cons.prems(2,5) by simp_all
  obtain m where m: "meet f g = Some m" "ok w m" "mem w m x"
    using meet [OF Cons.prems(1) og(1)] Cons.prems(3,4) og(2) by (cases "meet f g") auto
  have "\<forall>g\<in>set gs. ok w g" "\<forall>g\<in>set gs. mem w g x" using Cons.prems(2,5) by simp_all
  from Cons.IH [OF m(2) this(1) Cons.prems(3) m(3) this(2)] show ?case using m(1) by simp
qed simp

end

text \<open>A domain whose meet is exactly the intersection.\<close>

locale exact_domain = abs_domain +
  assumes exact: "ok w f \<Longrightarrow> ok w g \<Longrightarrow> meet f g = Some m \<Longrightarrow> x < 2 ^ w \<Longrightarrow> mem w m x \<Longrightarrow>
    mem w f x \<and> mem w g x"
begin

lemma meet_iff:
  assumes "ok w f" "ok w g" "meet f g = Some m" "x < 2 ^ w"
  shows "mem w m x \<longleftrightarrow> mem w f x \<and> mem w g x"
proof
  assume "mem w m x"
  from exact [OF assms this] show "mem w f x \<and> mem w g x" .
next
  assume "mem w f x \<and> mem w g x"
  moreover have "\<forall>x<2 ^ w. mem w f x \<and> mem w g x \<longrightarrow> mem w m x"
    using meet [OF assms(1,2)] unfolding assms(3) option.case by (rule conjunct2)
  ultimately show "mem w m x" using assms(4) by blast
qed

text \<open>Absorption: meeting with a hull of the same description loses nothing.\<close>

lemma meet_hull:
  assumes "ok w f" "ok w g" "meet f (hull f g) = Some m" "x < 2 ^ w"
  shows "mem w m x \<longleftrightarrow> mem w f x"
proof -
  have h: "ok w (hull f g)" "mem w f x \<Longrightarrow> mem w (hull f g) x"
    using hull [OF assms(1,2)] assms(4) by simp_all
  show ?thesis using meet_iff [OF assms(1) h(1) assms(3,4)] h(2) by metis
qed

lemma meet_list_exact:
  assumes "ok w f" "\<forall>g\<in>set gs. ok w g" "meet_list gs f = Some m" "x < 2 ^ w"
  shows "mem w m x \<longleftrightarrow> mem w f x \<and> (\<forall>g\<in>set gs. mem w g x)"
  using assms
proof (induction gs arbitrary: f)
  case (Cons g gs)
  from Cons.prems(3) obtain n where n: "meet f g = Some n" "meet_list gs n = Some m"
    by (cases "meet f g") simp_all
  have g: "ok w g" "\<forall>g\<in>set gs. ok w g" using Cons.prems(2) by simp_all
  have "ok w n" using meet [OF Cons.prems(1) g(1)] n(1) by simp
  from Cons.IH [OF this g(2) n(2) Cons.prems(4)]
  show ?case using meet_iff [OF Cons.prems(1) g(1) n(1) Cons.prems(4)] by simp
qed simp

end

end
