(* ===== verification/Facts_Known.thy ===== *)
theory Facts_Known
  imports Facts_Domain
begin

unbundle bit_operations_syntax

text \<open>
  Known bits (\<open>bitwright/src/facts/known.rs\<close>): a pair of disjoint masks, the bits that are
  certainly 0 and those that are certainly 1, with the set of values it allows, its lattice
  operations, bounds, enumeration, and the nearest member above or below a value.
\<close>

section \<open>Bits of values\<close>

abbreviation vbit :: "BitVec \<Rightarrow> nat \<Rightarrow> bool" where "vbit v i \<equiv> bit (bv_val v) i"

definition okw :: "nat \<Rightarrow> BitVec \<Rightarrow> bool" where
  "okw w v \<longleftrightarrow> bv_ok v \<and> bv_width v = w"

lemma okwD: "okw w v \<Longrightarrow> bv_ok v" "okw w v \<Longrightarrow> bv_width v = w" "okw w v \<Longrightarrow> width_ok w"
  "okw w v \<Longrightarrow> bv_val v < 2 ^ w" "okw w v \<Longrightarrow> 0 < w"
  by (auto simp: okw_def width_ok_def dest: bv_okD)

lemma okw_bit: "okw w v \<Longrightarrow> vbit v i \<Longrightarrow> i < w"
  using bit_nat_less okwD(4) by blast

lemma okw_eqI: "okw w a \<Longrightarrow> okw w b \<Longrightarrow> bv_val a = bv_val b \<Longrightarrow> a = b"
  by (rule bv_eqI) (auto simp: okw_def)

lemma okw_bit_eqI: "okw w a \<Longrightarrow> okw w b \<Longrightarrow> (\<And>i. i < w \<Longrightarrow> vbit a i = vbit b i) \<Longrightarrow> a = b"
  by (rule okw_eqI) (auto intro!: bit_eqI dest: okw_bit)

lemma okw_bin: "okw w a \<Longrightarrow> okw w b \<Longrightarrow> okw w (bin_unchecked op a b)"
  "okw w a \<Longrightarrow> okw w b \<Longrightarrow> bv_val (bin_unchecked op a b) = sem_bin op w (bv_val a) (bv_val b)"
  by (auto simp: okw_def bin_unchecked_correct)

lemma okw_un: "okw w a \<Longrightarrow> op \<noteq> UBswap \<Longrightarrow> okw w (un_unchecked op a)"
  "okw w a \<Longrightarrow> op \<noteq> UBswap \<Longrightarrow> bv_val (un_unchecked op a) = sem_un op w (bv_val a)"
  by (auto simp: okw_def un_unchecked_correct)

lemma okw_const:
  assumes "width_ok w"
  shows "okw w (bv_zero w)" "okw w (bv_one w)" "okw w (bv_ones w)" "okw w (bv_smin w)" "okw w (bv_smax w)"
  using bv_const [OF assms] bv_smin_correct [OF assms] bv_smax_correct [OF assms]
  by (simp_all add: okw_def bv_smin_def bv_smax_def Let_def)

lemma const_val:
  assumes "width_ok w"
  shows "bv_val (bv_zero w) = 0" "bv_val (bv_one w) = 1" "bv_val (bv_ones w) = 2 ^ w - 1"
    "bv_val (bv_smin w) = 2 ^ (w - 1)"
  using bv_const [OF assms] bv_smin_correct [OF assms] one_less_power [of "2::nat" w] width_okD(1) [OF assms]
  by simp_all

lemma vbit_const [simp]:
  assumes "width_ok w"
  shows "\<not> vbit (bv_zero w) i" "vbit (bv_one w) i \<longleftrightarrow> i = 0" "vbit (bv_ones w) i \<longleftrightarrow> i < w"
    "vbit (bv_smin w) i \<longleftrightarrow> i = w - 1"
  using bit_sem_not [of 0 w i] by (auto simp: const_val [OF assms] bit_exp_iff bit_Suc_0_iff)

text \<open>The helper operations of \<open>known.rs\<close>.\<close>

definition bv_and :: "BitVec \<Rightarrow> BitVec \<Rightarrow> BitVec" where "bv_and a b = bin_unchecked BAnd a b"
definition bv_or :: "BitVec \<Rightarrow> BitVec \<Rightarrow> BitVec" where "bv_or a b = bin_unchecked BOr a b"
definition bv_xor :: "BitVec \<Rightarrow> BitVec \<Rightarrow> BitVec" where "bv_xor a b = bin_unchecked BXor a b"
definition bv_not :: "BitVec \<Rightarrow> BitVec" where "bv_not a = un_unchecked UNot a"
definition bv_add :: "BitVec \<Rightarrow> BitVec \<Rightarrow> BitVec" where "bv_add a b = bin_unchecked BAdd a b"

definition bv_shl :: "BitVec \<Rightarrow> nat \<Rightarrow> BitVec" where
  "bv_shl a k =
     (let c = wrapping_from_u64 (bv_width a) (word_of_nat k)
      in if k \<ge> bv_width a then bv_zero (bv_width a) else bin_unchecked BShl a c)"

definition bv_lshr :: "BitVec \<Rightarrow> nat \<Rightarrow> BitVec" where
  "bv_lshr a k =
     (if k \<ge> bv_width a then bv_zero (bv_width a)
      else let c = wrapping_from_u64 (bv_width a) (word_of_nat k) in bin_unchecked BLShr a c)"

definition low_mask :: "nat \<Rightarrow> nat \<Rightarrow> BitVec" where
  "low_mask w k = (if k \<ge> w then bv_ones w else bv_not (bv_shl (bv_ones w) k))"

definition high_mask :: "nat \<Rightarrow> nat \<Rightarrow> BitVec" where
  "high_mask w k = (if k \<ge> w then bv_ones w else bv_not (bv_lshr (bv_ones w) k))"

definition bv_count_ones :: "BitVec \<Rightarrow> nat" where
  "bv_count_ones a = sum_list (map count_ones (active_limbs a))"

definition bv_leading_zeros :: "BitVec \<Rightarrow> nat" where
  "bv_leading_zeros a =
     (let c = un_unchecked UClz a in case to_u64 c of Some x \<Rightarrow> unat x mod 2 ^ 32 | None \<Rightarrow> 0)"

definition bv_trailing_zeros :: "BitVec \<Rightarrow> nat" where
  "bv_trailing_zeros a =
     (let c = un_unchecked UCtz a in case to_u64 c of Some x \<Rightarrow> unat x mod 2 ^ 32 | None \<Rightarrow> 0)"

lemma wrapping_from_u64_val:
  assumes "width_ok w"
  shows "okw w (wrapping_from_u64 w c)" "bv_val (wrapping_from_u64 w c) = unat c mod 2 ^ w"
  using from_u128_masked_correct [OF assms, of "ucast c"]
  by (simp_all add: okw_def wrapping_from_u64_def unsigned_ucast_eq take_bit_nat_eq_self unsigned_less)

lemma small_count_val:
  assumes "width_ok w" "k < w"
  shows "bv_val (wrapping_from_u64 w (word_of_nat k)) = k"
proof -
  have "k < 2 ^ w" using assms(2) less_exp [of w] by (rule less_trans)
  moreover have "k < 2 ^ 64" using assms by (simp add: width_ok_def)
  ultimately show ?thesis
    using wrapping_from_u64_val(2) [OF assms(1), of "word_of_nat k"] by (simp add: unsigned_of_nat take_bit_nat_eq_self)
qed

lemma okw_bits:
  assumes "okw w a"
  shows "okw w (bv_not a)" "vbit (bv_not a) i \<longleftrightarrow> i < w \<and> \<not> vbit a i"
    "okw w (bv_shl a k)" "vbit (bv_shl a k) i \<longleftrightarrow> i < w \<and> k \<le> i \<and> vbit a (i - k)"
    "okw w (bv_lshr a k)" "vbit (bv_lshr a k) i \<longleftrightarrow> vbit a (i + k)"
    "okw w b \<Longrightarrow> okw w (bv_and a b)" "okw w b \<Longrightarrow> vbit (bv_and a b) i \<longleftrightarrow> vbit a i \<and> vbit b i"
    "okw w b \<Longrightarrow> okw w (bv_or a b)" "okw w b \<Longrightarrow> vbit (bv_or a b) i \<longleftrightarrow> vbit a i \<or> vbit b i"
    "okw w b \<Longrightarrow> okw w (bv_xor a b)" "okw w b \<Longrightarrow> vbit (bv_xor a b) i \<longleftrightarrow> vbit a i \<noteq> vbit b i"
proof -
  note w = okwD [OF assms]
  show "okw w (bv_not a)" "vbit (bv_not a) i \<longleftrightarrow> i < w \<and> \<not> vbit a i"
    using okw_un [OF assms, of UNot] bit_sem_not [OF w(4)] by (simp_all add: bv_not_def sem_un_def)
  show "okw w (bv_shl a k)" "vbit (bv_shl a k) i \<longleftrightarrow> i < w \<and> k \<le> i \<and> vbit a (i - k)"
    using okw_bin [OF assms wrapping_from_u64_val(1) [OF w(3)], of BShl] w small_count_val [OF w(3), of k]
      okw_const [OF w(3)]
    by (auto simp: bv_shl_def Let_def sem_bin_def bit_sem_shl)
  show "okw w (bv_lshr a k)" "vbit (bv_lshr a k) i \<longleftrightarrow> vbit a (i + k)"
    using okw_bin [OF assms wrapping_from_u64_val(1) [OF w(3)], of BLShr] w small_count_val [OF w(3), of k]
      okw_const [OF w(3)] okw_bit [OF assms, of "i + k"]
    by (auto simp: bv_lshr_def Let_def sem_bin_def bit_sem_lshr)
  assume b: "okw w b"
  show "okw w (bv_and a b)" "vbit (bv_and a b) i \<longleftrightarrow> vbit a i \<and> vbit b i"
    "okw w (bv_or a b)" "vbit (bv_or a b) i \<longleftrightarrow> vbit a i \<or> vbit b i"
    "okw w (bv_xor a b)" "vbit (bv_xor a b) i \<longleftrightarrow> vbit a i \<noteq> vbit b i"
    using okw_bin [OF assms b] by (simp_all add: bv_and_def bv_or_def bv_xor_def sem_bin_def bit_simps)
qed

lemma okw_masks:
  assumes "width_ok w"
  shows "okw w (low_mask w k)" "vbit (low_mask w k) i \<longleftrightarrow> i < w \<and> i < k"
    "okw w (high_mask w k)" "vbit (high_mask w k) i \<longleftrightarrow> i < w \<and> w \<le> i + k"
proof -
  note o = okw_const(3) [OF assms]
  note s = okw_bits(3) [OF o, of k] and l = okw_bits(5) [OF o, of k]
  show "okw w (low_mask w k)" by (simp add: low_mask_def o okw_bits(1) [OF s])
  show "okw w (high_mask w k)" by (simp add: high_mask_def o okw_bits(1) [OF l])
  show "vbit (low_mask w k) i \<longleftrightarrow> i < w \<and> i < k"
    by (cases "w \<le> k") (auto simp: low_mask_def assms okw_bits(2) [OF s] okw_bits(4) [OF o])
  show "vbit (high_mask w k) i \<longleftrightarrow> i < w \<and> w \<le> i + k"
    by (cases "w \<le> k") (auto simp: high_mask_def assms okw_bits(2) [OF l] okw_bits(6) [OF o])
qed

lemma bv_is_zero_bits: "okw w a \<Longrightarrow> bv_is_zero a \<longleftrightarrow> (\<forall>i<w. \<not> vbit a i)"
  using bv_inspect(3) [of a] okw_bit [of w a]
  by (auto simp: okw_def intro!: bit_eqI)

lemma bv_is_ones_bits: "okw w a \<Longrightarrow> bv_is_ones a \<longleftrightarrow> (\<forall>i<w. vbit a i)"
proof -
  assume a: "okw w a"
  note w = okwD [OF a]
  have "bv_is_ones a \<longleftrightarrow> a = bv_ones w"
    using bv_inspect(4) [OF w(1)] w const_val [OF w(3)] okw_eqI [OF a okw_const(3) [OF w(3)]] by auto
  then show ?thesis
    using okw_bit_eqI [OF a okw_const(3) [OF w(3)]] w(3) by auto
qed

text \<open>Counting zeros from either end finds the extreme set bit.\<close>

lemma to_u64_small: "okw w c \<Longrightarrow> bv_val c \<le> w \<Longrightarrow>
  (case to_u64 c of Some x \<Rightarrow> unat x mod 2 ^ 32 | None \<Rightarrow> 0) = bv_val c"
proof -
  assume c: "okw w c" "bv_val c \<le> w"
  then have "bv_val c < 2 ^ 32" using okwD(3) [OF c(1)] by (simp add: width_ok_def)
  then show ?thesis
    using to_u64_correct [OF okwD(1) [OF c(1)]] by (simp add: unsigned_of_nat take_bit_nat_eq_self)
qed

lemma bv_trailing_zeros:
  assumes "okw w a"
  shows "bv_trailing_zeros a \<le> w" "i < bv_trailing_zeros a \<Longrightarrow> \<not> vbit a i"
    "bv_trailing_zeros a < w \<Longrightarrow> vbit a (bv_trailing_zeros a)"
    "bv_trailing_zeros a = w \<longleftrightarrow> bv_is_zero a"
proof -
  define xs where "xs = takeWhile (\<lambda>i. \<not> vbit a i) [0..<w]"
  have v: "bv_val (un_unchecked UCtz a) = length xs" "okw w (un_unchecked UCtz a)"
    using okw_un [OF assms, of UCtz] by (simp_all add: sem_un_def xs_def)
  have l: "length xs \<le> w" by (metis length_takeWhile_le length_upt minus_nat.diff_0 xs_def)
  have t: "bv_trailing_zeros a = length xs"
    using to_u64_small [OF v(2)] v(1) l by (simp add: bv_trailing_zeros_def)
  then show "bv_trailing_zeros a \<le> w" using l by simp
  have low: "\<not> vbit a i" if "i < length xs" for i
    using that nth_mem [of i xs] takeWhile_nth [of i "\<lambda>i. \<not> vbit a i" "[0..<w]"] l
    by (metis add_0 nth_upt order_less_le_trans set_takeWhileD xs_def)
  then show "i < bv_trailing_zeros a \<Longrightarrow> \<not> vbit a i" using t by simp
  have top: "vbit a (length xs)" if "length xs < w"
    using nth_length_takeWhile [of "\<lambda>i. \<not> vbit a i" "[0..<w]"] that by (simp add: xs_def)
  then show "bv_trailing_zeros a < w \<Longrightarrow> vbit a (bv_trailing_zeros a)" using t by simp
  show "bv_trailing_zeros a = w \<longleftrightarrow> bv_is_zero a"
    using low top l t by (metis bv_is_zero_bits [OF assms] le_neq_implies_less)
qed

lemma bv_leading_zeros:
  assumes "okw w a"
  shows "bv_leading_zeros a \<le> w" "w \<le> i + bv_leading_zeros a \<Longrightarrow> \<not> vbit a i"
    "bv_leading_zeros a < w \<Longrightarrow> vbit a (w - 1 - bv_leading_zeros a)"
    "bv_leading_zeros a = w \<longleftrightarrow> bv_is_zero a"
proof -
  define xs where "xs = takeWhile (\<lambda>i. \<not> vbit a i) (rev [0..<w])"
  have v: "bv_val (un_unchecked UClz a) = length xs" "okw w (un_unchecked UClz a)"
    using okw_un [OF assms, of UClz] by (simp_all add: sem_un_def xs_def)
  have l: "length xs \<le> w" by (metis length_rev length_takeWhile_le length_upt minus_nat.diff_0 xs_def)
  have t: "bv_leading_zeros a = length xs"
    using to_u64_small [OF v(2)] v(1) l by (simp add: bv_leading_zeros_def)
  then show "bv_leading_zeros a \<le> w" using l by simp
  have rn: "rev [0..<w] ! j = w - 1 - j" if "j < w" for j using that by (simp add: rev_nth)
  have low: "\<not> vbit a (w - 1 - j)" if "j < length xs" for j
    using that nth_mem [of j xs] takeWhile_nth [of j "\<lambda>i. \<not> vbit a i" "rev [0..<w]"] l rn [of j]
    by (metis order_less_le_trans set_takeWhileD xs_def)
  have up: "\<not> vbit a i" if "w \<le> i + length xs" for i
  proof (cases "i < w")
    case True
    then show ?thesis using low [of "w - 1 - i"] that by simp
  next
    case False
    then show ?thesis using okw_bit [OF assms] by blast
  qed
  then show "w \<le> i + bv_leading_zeros a \<Longrightarrow> \<not> vbit a i" using t by simp
  have top: "vbit a (w - 1 - length xs)" if "length xs < w"
    using nth_length_takeWhile [of "\<lambda>i. \<not> vbit a i" "rev [0..<w]"] that rn [of "length xs"] by (simp add: xs_def)
  then show "bv_leading_zeros a < w \<Longrightarrow> vbit a (w - 1 - bv_leading_zeros a)" using t by simp
  show "bv_leading_zeros a = w \<longleftrightarrow> bv_is_zero a"
    using up top l t okwD(5) [OF assms] unfolding bv_is_zero_bits [OF assms]
    by (metis diff_less diff_less_Suc le_add2 le_neq_implies_less less_Suc_eq less_imp_diff_less zero_less_one)
qed


section \<open>Known bits\<close>

record KnownBits =
  kb_zero :: BitVec
  kb_one :: BitVec

definition kb_make :: "BitVec \<Rightarrow> BitVec \<Rightarrow> KnownBits" where
  "kb_make zero one = \<lparr>kb_zero = zero, kb_one = one\<rparr>"

definition kb_unknown :: "nat \<Rightarrow> KnownBits" where
  "kb_unknown w = kb_make (bv_zero w) (bv_zero w)"

definition kb_constant :: "BitVec \<Rightarrow> KnownBits" where
  "kb_constant v = kb_make (bv_not v) v"

definition kb_new :: "BitVec \<Rightarrow> BitVec \<Rightarrow> KnownBits option" where
  "kb_new zero one =
     (if bv_width zero = bv_width one \<and> bv_is_zero (bv_and zero one) then Some (kb_make zero one) else None)"

definition kb_width :: "KnownBits \<Rightarrow> nat" where
  "kb_width k = bv_width (kb_zero k)"

definition kb_fit :: "KnownBits \<Rightarrow> BitVec \<Rightarrow> BitVec" where
  "kb_fit k v = bv_or (bv_and v (bv_not (kb_zero k))) (kb_one k)"

definition kb_known :: "KnownBits \<Rightarrow> BitVec" where
  "kb_known k = bv_or (kb_zero k) (kb_one k)"

definition kb_unknown_mask :: "KnownBits \<Rightarrow> BitVec" where
  "kb_unknown_mask k = bv_not (kb_known k)"

definition kb_maybe_one :: "KnownBits \<Rightarrow> BitVec" where
  "kb_maybe_one k = bv_not (kb_zero k)"

definition kb_msb :: "KnownBits \<Rightarrow> bool option" where
  "kb_msb k = (if bv_msb (kb_one k) then Some True else if bv_msb (kb_zero k) then Some False else None)"

definition kb_as_constant :: "KnownBits \<Rightarrow> BitVec option" where
  "kb_as_constant k = (if bv_is_ones (kb_known k) then Some (kb_one k) else None)"

definition kb_contains :: "KnownBits \<Rightarrow> BitVec \<Rightarrow> bool" where
  "kb_contains k v \<longleftrightarrow>
     bv_width v = kb_width k \<and> bv_is_zero (bv_and v (kb_zero k)) \<and> bv_and v (kb_one k) = kb_one k"

definition kb_meet :: "KnownBits \<Rightarrow> KnownBits \<Rightarrow> KnownBits option" where
  "kb_meet k l =
     (if kb_width k \<noteq> kb_width l then None
      else let zero = bv_or (kb_zero k) (kb_zero l); one = bv_or (kb_one k) (kb_one l)
           in if bv_is_zero (bv_and zero one) then Some (kb_make zero one) else None)"

text \<open>\<open>hull\<close> asserts, in debug builds, that the widths agree; \<open>join\<close> checks it.\<close>

definition kb_hull :: "KnownBits \<Rightarrow> KnownBits \<Rightarrow> KnownBits" where
  "kb_hull k l = kb_make (bv_and (kb_zero k) (kb_zero l)) (bv_and (kb_one k) (kb_one l))"

definition kb_join :: "KnownBits \<Rightarrow> KnownBits \<Rightarrow> KnownBits option" where
  "kb_join k l = (if kb_width k = kb_width l then Some (kb_hull k l) else None)"

definition kb_bit :: "KnownBits \<Rightarrow> nat \<Rightarrow> bool option" where
  "kb_bit k i =
     (case bv_bit (kb_one k) i of
        None \<Rightarrow> None
      | Some True \<Rightarrow> Some True
      | Some False \<Rightarrow>
          (case bv_bit (kb_zero k) i of
             None \<Rightarrow> None | Some True \<Rightarrow> Some False | Some False \<Rightarrow> None))"

definition kb_umin :: "KnownBits \<Rightarrow> BitVec" where "kb_umin k = kb_one k"
definition kb_umax :: "KnownBits \<Rightarrow> BitVec" where "kb_umax k = bv_not (kb_zero k)"

definition kb_smin :: "KnownBits \<Rightarrow> BitVec" where
  "kb_smin k =
     (let sign = bv_smin (kb_width k)
      in if bv_is_zero (bv_and (kb_zero k) sign) then bv_or (kb_one k) sign else kb_one k)"

definition kb_smax :: "KnownBits \<Rightarrow> BitVec" where
  "kb_smax k =
     (let sign = bv_smin (kb_width k); mx = bv_not (kb_zero k)
      in if bv_is_zero (bv_and (kb_one k) sign) then bv_and mx (bv_not sign) else mx)"

definition kb_trailing_known_zeros :: "KnownBits \<Rightarrow> nat" where
  "kb_trailing_known_zeros k = bv_trailing_zeros (bv_not (kb_zero k))"

definition kb_leading_known_zeros :: "KnownBits \<Rightarrow> nat" where
  "kb_leading_known_zeros k = bv_leading_zeros (bv_not (kb_zero k))"

definition kb_known_low_prefix :: "KnownBits \<Rightarrow> nat" where
  "kb_known_low_prefix k = bv_trailing_zeros (kb_unknown_mask k)"

definition kb_conflict :: "KnownBits \<Rightarrow> BitVec \<Rightarrow> BitVec" where
  "kb_conflict k v = bv_or (bv_and v (kb_zero k)) (bv_and (bv_not v) (kb_one k))"

definition kb_raise :: "KnownBits \<Rightarrow> BitVec \<Rightarrow> nat \<Rightarrow> BitVec" where
  "kb_raise k lo p =
     (let w = kb_width k;
          above = bv_and lo (high_mask w (w - 1 - p));
          below = bv_and (kb_one k) (low_mask w p)
      in bv_or (bv_or above (bv_shl (bv_one w) p)) below)"

definition kb_next_member :: "KnownBits \<Rightarrow> BitVec \<Rightarrow> BitVec option" where
  "kb_next_member k lo =
     (let w = kb_width k; bad = kb_conflict k lo
      in if bv_is_zero bad then Some lo
         else let i = w - 1 - bv_leading_zeros bad
              in if bv_bit lo i = Some False then Some (kb_raise k lo i)
                 else let free = bv_not (kb_known k);
                          room = bv_and (bv_and (bv_not lo) free) (high_mask w (w - 1 - i))
                      in if bv_is_zero room then None else Some (kb_raise k lo (bv_trailing_zeros room)))"

definition kb_lower :: "KnownBits \<Rightarrow> BitVec \<Rightarrow> nat \<Rightarrow> BitVec" where
  "kb_lower k hi p =
     (let w = kb_width k; above = bv_and hi (high_mask w (w - 1 - p))
      in bv_or above (bv_and (bv_not (kb_zero k)) (low_mask w p)))"

definition kb_prev_member :: "KnownBits \<Rightarrow> BitVec \<Rightarrow> BitVec option" where
  "kb_prev_member k hi =
     (let w = kb_width k; bad = kb_conflict k hi
      in if bv_is_zero bad then Some hi
         else let i = w - 1 - bv_leading_zeros bad
              in if bv_bit hi i = Some True then Some (kb_lower k hi i)
                 else let free = bv_not (kb_known k);
                          room = bv_and (bv_and hi free) (high_mask w (w - 1 - i))
                      in if bv_is_zero room then None else Some (kb_lower k hi (bv_trailing_zeros room)))"

definition kb_sign_flipped :: "KnownBits \<Rightarrow> KnownBits" where
  "kb_sign_flipped k =
     (let sign = bv_smin (kb_width k); keep = bv_not sign
      in kb_make (bv_or (bv_and (kb_zero k) keep) (bv_and (kb_one k) sign))
                 (bv_or (bv_and (kb_one k) keep) (bv_and (kb_zero k) sign)))"

definition kb_low_bits_of :: "BitVec \<Rightarrow> nat \<Rightarrow> KnownBits" where
  "kb_low_bits_of v k =
     (let m = low_mask (bv_width v) k in kb_make (bv_and (bv_not v) m) (bv_and v m))"

definition kb_enumerate :: "KnownBits \<Rightarrow> nat \<Rightarrow> BitVec list option" where
  "kb_enumerate k max_unknown_bits =
     (let unknown = kb_unknown_mask k; n = bv_count_ones unknown
      in if n > min max_unknown_bits 20 then None
         else let positions = filter (\<lambda>i. bv_bit unknown i = Some True) [0..<kb_width k]
              in Some (map (\<lambda>c.
                   wrapping_from_limbs (kb_width k)
                     (fold (\<lambda>(j, p) limbs.
                        if bit c j then limbs[p div 64 := limbs ! (p div 64) OR push_bit (p mod 64) 1] else limbs)
                      (zip [0..<length positions] positions) (active_limbs (kb_one k))))
                   [0..<2 ^ n]))"

definition kb_debug :: "KnownBits \<Rightarrow> string" where
  "kb_debug k =
     ''KnownBits('' @
     map (\<lambda>i. case kb_bit k i of Some True \<Rightarrow> CHR ''1'' | Some False \<Rightarrow> CHR ''0'' | None \<Rightarrow> CHR ''?'')
       (rev [0..<kb_width k]) @ '')''"


section \<open>The values it allows\<close>

definition kb_ok :: "nat \<Rightarrow> KnownBits \<Rightarrow> bool" where
  "kb_ok w k \<longleftrightarrow> okw w (kb_zero k) \<and> okw w (kb_one k) \<and> bv_val (kb_zero k) AND bv_val (kb_one k) = 0"

definition kb_allows :: "KnownBits \<Rightarrow> nat \<Rightarrow> bool" where
  "kb_allows k x \<longleftrightarrow> x AND bv_val (kb_zero k) = 0 \<and> x AND bv_val (kb_one k) = bv_val (kb_one k)"

lemma nat_and_eq_0: "(a::nat) AND b = 0 \<longleftrightarrow> (\<forall>i. \<not> (bit a i \<and> bit b i))"
  by (metis bit_0_eq bit_and_iff bit_eq_iff bot_apply bot_bool_def)

lemma nat_and_eq_r: "(a::nat) AND b = b \<longleftrightarrow> (\<forall>i. bit b i \<longrightarrow> bit a i)"
  by (auto simp: bit_eq_iff bit_and_iff)

lemma kb_allows_bits:
  "kb_allows k x \<longleftrightarrow> (\<forall>i. (vbit (kb_zero k) i \<longrightarrow> \<not> bit x i) \<and> (vbit (kb_one k) i \<longrightarrow> bit x i))"
  by (auto simp: kb_allows_def nat_and_eq_0 nat_and_eq_r)

lemma kb_ok_bits:
  "kb_ok w k \<longleftrightarrow> okw w (kb_zero k) \<and> okw w (kb_one k) \<and> (\<forall>i. \<not> (vbit (kb_zero k) i \<and> vbit (kb_one k) i))"
  by (auto simp: kb_ok_def nat_and_eq_0)

lemma kb_okD:
  assumes "kb_ok w k"
  shows "okw w (kb_zero k)" "okw w (kb_one k)" "width_ok w" "kb_width k = w"
    "vbit (kb_zero k) i \<Longrightarrow> \<not> vbit (kb_one k) i"
  using assms by (auto simp: kb_ok_bits kb_width_def okw_def dest: bv_okD)

lemma kb_sel [simp]: "kb_zero (kb_make z n) = z" "kb_one (kb_make z n) = n"
  by (simp_all add: kb_make_def)

lemma bv_is_zero_iff: "okw w a \<Longrightarrow> bv_is_zero a \<longleftrightarrow> (\<forall>i. \<not> vbit a i)"
  using bv_is_zero_bits okw_bit by blast

lemma kb_contains_iff:
  assumes "kb_ok w k" "bv_ok v"
  shows "kb_contains k v \<longleftrightarrow> bv_width v = w \<and> kb_allows k (bv_val v)"
proof (cases "bv_width v = w")
  case True
  then have v: "okw w v" using assms(2) by (simp add: okw_def)
  note k = kb_okD(1-4) [OF assms(1)]
  have "bv_and v (kb_one k) = kb_one k \<longleftrightarrow> (\<forall>i. vbit (kb_one k) i \<longrightarrow> vbit v i)"
    using okw_bit_eqI [OF okw_bits(7) [OF v k(2)] k(2)] okw_bits(8) [OF v k(2)] okw_bit [OF k(2)] by metis
  moreover have "bv_is_zero (bv_and v (kb_zero k)) \<longleftrightarrow> (\<forall>i. \<not> (vbit v i \<and> vbit (kb_zero k) i))"
    by (simp add: bv_is_zero_iff [OF okw_bits(7) [OF v k(1)]] okw_bits(8) [OF v k(1)])
  ultimately show ?thesis using True k(4) by (auto simp: kb_contains_def kb_allows_bits)
qed (simp add: kb_contains_def kb_okD(4) [OF assms(1)])


section \<open>Comparing by the highest different bit\<close>

lemma less_by_bit:
  assumes "\<not> bit a p" "bit b p" "\<forall>j>p. bit a j = bit (b::nat) j"
  shows "a < b"
proof -
  have d: "drop_bit (Suc p) a = drop_bit (Suc p) b"
    by (rule bit_eqI) (simp add: bit_drop_bit_eq assms(3))
  have "take_bit (Suc p) a < 2 ^ p" "2 ^ p \<le> take_bit (Suc p) b"
    using assms(1,2) take_bit_nat_less_exp [of p a] by (simp_all add: take_bit_Suc_from_most)
  then have "take_bit (Suc p) a < take_bit (Suc p) b" by simp
  then show ?thesis using bits_ident [of "Suc p" a] bits_ident [of "Suc p" b] d by simp
qed

lemma highest_difference:
  assumes "a \<noteq> (b::nat)"
  obtains p where "bit a p \<noteq> bit b p" "\<forall>j>p. bit a j = bit b j"
proof -
  define D where "D = {i. bit a i \<noteq> bit b i}"
  have "D \<subseteq> {..<max a b}"
  proof
    fix i assume "i \<in> D"
    then have "bit a i \<or> bit b i" by (auto simp: D_def)
    moreover have "a < 2 ^ max a b" "b < 2 ^ max a b"
      using less_exp [of a] less_exp [of b] power_increasing [of a "max a b" "2::nat"]
        power_increasing [of b "max a b" "2::nat"] by linarith+
    ultimately show "i \<in> {..<max a b}" using bit_nat_less by blast
  qed
  then have f: "finite D" by (rule finite_subset) simp
  define m where "m = Max D"
  have "D \<noteq> {}" using assms by (auto simp: D_def bit_eq_iff)
  then have "m \<in> D" using f by (simp add: m_def)
  then have "bit a m \<noteq> bit b m" by (simp add: D_def)
  moreover have "bit a j = bit b j" if "j > m" for j
  proof -
    have "j \<notin> D" using Max_ge [OF f] that leD unfolding m_def by blast
    then show ?thesis by (simp add: D_def)
  qed
  ultimately show thesis using that by blast
qed

lemma less_bit_iff:
  "(a::nat) < b \<longleftrightarrow> (\<exists>p. \<not> bit a p \<and> bit b p \<and> (\<forall>j>p. bit a j = bit b j))"
proof
  assume l: "a < b"
  then obtain p where p: "bit a p \<noteq> bit b p" "\<forall>j>p. bit a j = bit b j"
    using highest_difference [of a b] by blast
  then show "\<exists>p. \<not> bit a p \<and> bit b p \<and> (\<forall>j>p. bit a j = bit b j)"
    using less_by_bit [of b p a] l by (cases "bit a p") auto
qed (use less_by_bit in blast)

lemma le_by_bits: "(\<And>i. bit a i \<Longrightarrow> bit (b::nat) i) \<Longrightarrow> a \<le> b"
  using less_bit_iff [of b a] by (meson not_less)


section \<open>Lattice operations and bounds\<close>

lemma kb_allowsD:
  "kb_allows k x \<Longrightarrow> vbit (kb_zero k) i \<Longrightarrow> \<not> bit x i" "kb_allows k x \<Longrightarrow> vbit (kb_one k) i \<Longrightarrow> bit x i"
  by (simp_all add: kb_allows_bits)

lemma kb_unknown_correct: "width_ok w \<Longrightarrow> kb_ok w (kb_unknown w) \<and> kb_allows (kb_unknown w) x"
  by (simp add: kb_unknown_def kb_ok_bits kb_allows_bits okw_const)

lemma kb_constant_correct:
  assumes "okw w v"
  shows "kb_ok w (kb_constant v)" "x < 2 ^ w \<Longrightarrow> kb_allows (kb_constant v) x \<longleftrightarrow> x = bv_val v"
proof -
  show "kb_ok w (kb_constant v)" by (simp add: kb_constant_def kb_ok_bits okw_bits [OF assms] assms)
  assume x: "x < 2 ^ w"
  have "(\<forall>i. (i < w \<longrightarrow> vbit v i \<or> \<not> bit x i) \<and> (vbit v i \<longrightarrow> bit x i)) \<longleftrightarrow> (\<forall>i. bit x i = vbit v i)"
    using bit_nat_less [OF x] by blast
  then show "kb_allows (kb_constant v) x \<longleftrightarrow> x = bv_val v"
    by (auto simp: kb_constant_def kb_allows_bits okw_bits [OF assms] bit_eq_iff)
qed

lemma kb_meet_correct:
  assumes "kb_ok w k" "kb_ok w l"
  shows "case kb_meet k l of
      None \<Rightarrow> \<forall>x. \<not> (kb_allows k x \<and> kb_allows l x)
    | Some m \<Rightarrow> kb_ok w m \<and> (\<forall>x. kb_allows m x \<longleftrightarrow> kb_allows k x \<and> kb_allows l x)"
proof -
  note k = kb_okD(1,2) [OF assms(1)] and l = kb_okD(1,2) [OF assms(2)]
  define z n where "z = bv_or (kb_zero k) (kb_zero l)" and "n = bv_or (kb_one k) (kb_one l)"
  have z: "okw w z" "\<And>i. vbit z i \<longleftrightarrow> vbit (kb_zero k) i \<or> vbit (kb_zero l) i"
    by (simp_all add: z_def okw_bits(9,10) [OF k(1) l(1)])
  have n: "okw w n" "\<And>i. vbit n i \<longleftrightarrow> vbit (kb_one k) i \<or> vbit (kb_one l) i"
    by (simp_all add: n_def okw_bits(9,10) [OF k(2) l(2)])
  have m: "kb_meet k l = (if bv_is_zero (bv_and z n) then Some (kb_make z n) else None)"
    using kb_okD(4) [OF assms(1)] kb_okD(4) [OF assms(2)] by (simp add: kb_meet_def z_def n_def)
  have e: "bv_is_zero (bv_and z n) \<longleftrightarrow> (\<forall>i. \<not> (vbit z i \<and> vbit n i))"
    by (simp add: bv_is_zero_iff [OF okw_bits(7) [OF z(1) n(1)]] okw_bits(8) [OF z(1) n(1)])
  show ?thesis
  proof (cases "bv_is_zero (bv_and z n)")
    case True
    have "kb_allows (kb_make z n) x \<longleftrightarrow> kb_allows k x \<and> kb_allows l x" for x
      by (simp add: kb_allows_bits z(2) n(2) imp_disjL imp_conjL all_conj_distrib conj_ac)
    moreover have "kb_ok w (kb_make z n)" using True e z(1) n(1) by (simp add: kb_ok_bits)
    ultimately show ?thesis using True by (simp add: m)
  next
    case False
    then obtain i where "vbit z i" "vbit n i" using e by blast
    then show ?thesis using False z n by (auto simp: m kb_allows_bits)
  qed
qed

lemma kb_hull_correct:
  assumes "kb_ok w k" "kb_ok w l"
  shows "kb_ok w (kb_hull k l)" "kb_allows k x \<or> kb_allows l x \<Longrightarrow> kb_allows (kb_hull k l) x"
proof -
  note k = kb_okD(1,2) [OF assms(1)] and l = kb_okD(1,2) [OF assms(2)]
  note b = okw_bits(7,8) [OF k(1) l(1)] okw_bits(7,8) [OF k(2) l(2)]
  show "kb_ok w (kb_hull k l)" using assms by (auto simp: kb_hull_def kb_ok_bits b)
  show "kb_allows k x \<or> kb_allows l x \<Longrightarrow> kb_allows (kb_hull k l) x"
    by (auto simp: kb_hull_def kb_allows_bits b)
qed

lemma kb_umin_allowed: "kb_ok w k \<Longrightarrow> kb_allows k (bv_val (kb_umin k))"
  by (auto simp: kb_umin_def kb_allows_bits kb_ok_bits)

lemma kb_umax_allowed:
  assumes "kb_ok w k"
  shows "okw w (kb_umax k)" "kb_allows k (bv_val (kb_umax k))"
  using kb_okD [OF assms] okw_bit [OF kb_okD(2) [OF assms]]
  by (auto simp: kb_umax_def kb_allows_bits okw_bits(1,2) [OF kb_okD(1) [OF assms]])

lemma kb_bounds:
  assumes "kb_ok w k" "kb_allows k x" "x < 2 ^ w"
  shows "bv_val (kb_umin k) \<le> x" "x \<le> bv_val (kb_umax k)"
  using kb_allowsD [OF assms(2)] bit_nat_less [OF assms(3)]
  by (auto intro!: le_by_bits simp: kb_umin_def kb_umax_def okw_bits(2) [OF kb_okD(1) [OF assms(1)]])

text \<open>The hull is the smallest description of the union.\<close>

lemma kb_hull_least:
  assumes "kb_ok w k" "kb_ok w l" "kb_ok w h"
    and "\<And>x. x < 2 ^ w \<Longrightarrow> kb_allows k x \<or> kb_allows l x \<Longrightarrow> kb_allows h x"
    and "kb_allows (kb_hull k l) x"
  shows "kb_allows h x"
proof -
  note k = kb_okD(1,2) [OF assms(1)] and l = kb_okD(1,2) [OF assms(2)]
  note b = okw_bits(7,8) [OF k(1) l(1)] okw_bits(7,8) [OF k(2) l(2)]
  have lo: "kb_allows h (bv_val (kb_one k))" "kb_allows h (bv_val (kb_one l))"
    using assms(4) kb_umin_allowed [OF assms(1)] kb_umin_allowed [OF assms(2)] okwD(4) [OF k(2)] okwD(4) [OF l(2)]
    by (simp_all add: kb_umin_def)
  have hi: "kb_allows h (bv_val (kb_umax k))" "kb_allows h (bv_val (kb_umax l))"
    using assms(4) kb_umax_allowed [OF assms(1)] kb_umax_allowed [OF assms(2)] okwD(4) by blast+
  have "vbit (kb_one (kb_hull k l)) i" if "vbit (kb_one h) i" for i
    using kb_allowsD(2) [OF lo(1) that] kb_allowsD(2) [OF lo(2) that] by (simp add: kb_hull_def b)
  moreover have "vbit (kb_zero (kb_hull k l)) i" if "vbit (kb_zero h) i" for i
    using kb_allowsD(1) [OF hi(1) that] kb_allowsD(1) [OF hi(2) that] okw_bit [OF kb_okD(1) [OF assms(3)] that]
    by (simp add: kb_hull_def b kb_umax_def okw_bits(2) [OF k(1)] okw_bits(2) [OF l(1)])
  ultimately show ?thesis using assms(5) unfolding kb_allows_bits by blast
qed

section \<open>The nearest member\<close>

lemma kb_raise_bits:
  assumes "kb_ok w k" "okw w lo" "p < w"
  shows "okw w (kb_raise k lo p)"
    "vbit (kb_raise k lo p) i \<longleftrightarrow> (if i < p then vbit (kb_one k) i else i = p \<or> vbit lo i)"
proof -
  note k = kb_okD(1-4) [OF assms(1)]
  note m = okw_masks [OF k(3)]
  note a = okw_bits(7,8) [OF assms(2) m(3)] and b = okw_bits(7,8) [OF k(2) m(1)]
    and s = okw_bits(3,4) [OF okw_const(2) [OF k(3)], of p]
  note c = okw_bits(9,10) [OF a(1) s(1)]
  note d = okw_bits(9,10) [OF c(1) b(1)]
  show "okw w (kb_raise k lo p)" by (simp add: kb_raise_def Let_def k(4) d(1))
  show "vbit (kb_raise k lo p) i \<longleftrightarrow> (if i < p then vbit (kb_one k) i else i = p \<or> vbit lo i)"
    using assms(3) okw_bit [OF assms(2), of i] okw_bit [OF k(2), of i]
    by (auto simp: kb_raise_def Let_def k(4) d(2) c(2) a(2) b(2) s(2) m k(3))
qed

lemma kb_conflict_bits:
  assumes "kb_ok w k" "okw w v"
  shows "okw w (kb_conflict k v)"
    "vbit (kb_conflict k v) i \<longleftrightarrow> vbit v i \<and> vbit (kb_zero k) i \<or> \<not> vbit v i \<and> vbit (kb_one k) i"
proof -
  note k = kb_okD(1-4) [OF assms(1)]
  note n = okw_bits(1,2) [OF assms(2)]
  note a = okw_bits(7,8) [OF assms(2) k(1)] and b = okw_bits(7,8) [OF n(1) k(2)]
  show "okw w (kb_conflict k v)"
    "vbit (kb_conflict k v) i \<longleftrightarrow> vbit v i \<and> vbit (kb_zero k) i \<or> \<not> vbit v i \<and> vbit (kb_one k) i"
    using okw_bits(9,10) [OF a(1) b(1)] a(2) b(2) n(2) okw_bit [OF k(2), of i] by (auto simp: kb_conflict_def)
qed

lemma kb_raise_least:
  assumes k: "kb_ok w k" "okw w lo" "p < w" and p: "\<not> vbit lo p" "\<not> vbit (kb_zero k) p"
    and above: "\<forall>j>p. \<not> vbit (kb_conflict k lo) j"
  shows "kb_allows k (bv_val (kb_raise k lo p))" "bv_val lo \<le> bv_val (kb_raise k lo p)"
    "kb_allows k x \<Longrightarrow> bit x q \<Longrightarrow> \<not> vbit lo q \<Longrightarrow> \<forall>j>q. bit x j = vbit lo j \<Longrightarrow> p \<le> q \<Longrightarrow>
      bv_val (kb_raise k lo p) \<le> x"
proof -
  note b = kb_raise_bits(2) [OF k]
  note c = above [unfolded kb_conflict_bits(2) [OF k(1,2)], rule_format]
  show "kb_allows k (bv_val (kb_raise k lo p))"
    unfolding kb_allows_bits b
  proof (intro allI conjI impI)
    fix i
    show "vbit (kb_zero k) i \<Longrightarrow> \<not> (if i < p then vbit (kb_one k) i else i = p \<or> vbit lo i)"
      using kb_okD(5) [OF k(1), of i] p(2) c [of i] by (cases i p rule: linorder_cases) auto
    show "vbit (kb_one k) i \<Longrightarrow> if i < p then vbit (kb_one k) i else i = p \<or> vbit lo i"
      using c [of i] by (cases i p rule: linorder_cases) auto
  qed
  have "bv_val lo < bv_val (kb_raise k lo p)"
    by (rule less_by_bit [of _ p]) (auto simp: b p(1))
  then show "bv_val lo \<le> bv_val (kb_raise k lo p)" by simp
  assume x: "kb_allows k x" "bit x q" "\<not> vbit lo q" "\<forall>j>q. bit x j = vbit lo j" "p \<le> q"
  show "bv_val (kb_raise k lo p) \<le> x"
  proof (cases "p = q")
    case True
    show ?thesis
    proof (rule le_by_bits)
      fix i assume "vbit (kb_raise k lo p) i"
      then show "bit x i"
        using x(2,4) [folded True] kb_allowsD(2) [OF x(1), of i]
        by (cases i p rule: linorder_cases) (auto simp: b)
    qed
  next
    case False
    have "bv_val (kb_raise k lo p) < x"
      by (rule less_by_bit [of _ q]) (use False x in \<open>auto simp: b\<close>)
    then show ?thesis by simp
  qed
qed

lemma kb_next_member_correct:
  assumes k: "kb_ok w k" "okw w lo"
  shows "case kb_next_member k lo of
      None \<Rightarrow> \<forall>x<2 ^ w. kb_allows k x \<longrightarrow> x < bv_val lo
    | Some v \<Rightarrow> okw w v \<and> kb_allows k (bv_val v) \<and> bv_val lo \<le> bv_val v \<and>
        (\<forall>x<2 ^ w. kb_allows k x \<longrightarrow> bv_val lo \<le> x \<longrightarrow> bv_val v \<le> x)"
proof -
  note kw = kb_okD(1-4) [OF k(1)]
  define bad where "bad = kb_conflict k lo"
  define i where "i = w - 1 - bv_leading_zeros bad"
  define room where "room = bv_and (bv_and (bv_not lo) (bv_not (kb_known k))) (high_mask w (w - 1 - i))"
  have eq: "kb_next_member k lo =
      (if bv_is_zero bad then Some lo
       else if bv_bit lo i = Some False then Some (kb_raise k lo i)
       else if bv_is_zero room then None else Some (kb_raise k lo (bv_trailing_zeros room)))"
    by (simp only: kb_next_member_def Let_def kw(4) bad_def i_def room_def)
  note bad = kb_conflict_bits [OF k, folded bad_def]
  show ?thesis
  proof (cases "bv_is_zero bad")
    case True
    then have "kb_allows k (bv_val lo)"
      using bad by (auto simp: kb_allows_bits bv_is_zero_iff [OF bad(1)])
    then show ?thesis using True k(2) by (simp add: eq)
  next
    case False
    have lz: "bv_leading_zeros bad < w"
      using bv_leading_zeros(1,4) [OF bad(1)] False by (metis le_neq_implies_less)
    have iw: "i < w" and bi: "vbit bad i" and hi: "\<And>j. i < j \<Longrightarrow> \<not> vbit bad j"
      using lz bv_leading_zeros(2,3) [OF bad(1)] by (auto simp: i_def)
    \<comment> \<open>An allowed value at or above \<open>lo\<close> first differs from it at a bit it sets, at \<open>i\<close> or higher.\<close>
    have diff: "\<exists>q\<ge>i. bit x q \<and> \<not> vbit lo q \<and> (\<forall>j>q. bit x j = vbit lo j)"
      if x: "kb_allows k x" "bv_val lo \<le> x" for x
    proof -
      have d: "bit x i \<noteq> vbit lo i" using bi kb_allowsD [OF x(1), of i] bad(2) by blast
      then have "bv_val lo < x" using x(2) by (metis le_neq_implies_less)
      then obtain q where q: "\<not> vbit lo q" "bit x q" "\<forall>j>q. vbit lo j = bit x j" using less_bit_iff by blast
      then have "i \<le> q" using d by (metis not_less)
      then show ?thesis using q by auto
    qed
    have bl: "bv_bit lo i = Some (vbit lo i)"
      using bv_inspect(1) [OF okwD(1) [OF k(2)]] okwD(2) [OF k(2)] iw by simp
    show ?thesis
    proof (cases "vbit lo i")
      case lo0: False
      have nz: "\<not> vbit (kb_zero k) i" using bi lo0 bad(2) kb_okD(5) [OF k(1)] by blast
      have ab: "\<forall>j>i. \<not> vbit (kb_conflict k lo) j" using hi bad_def by simp
      note r = kb_raise_least [OF k iw lo0 nz ab] kb_raise_bits(1) [OF k iw]
      have "bv_val (kb_raise k lo i) \<le> x" if "kb_allows k x" "bv_val lo \<le> x" for x
        using diff [OF that] r(3) [OF that(1)] by blast
      then show ?thesis using r(1,2,4) False bl lo0 by (simp add: eq)
    next
      case lo1: True
      note kn = okw_bits(9,10) [OF kw(1,2), folded kb_known_def]
      note m = okw_masks(3,4) [OF kw(3), of "w - 1 - i"]
      note a = okw_bits(7,8) [OF okw_bits(1) [OF k(2)] okw_bits(1) [OF kn(1)]]
      note ro = okw_bits(7,8) [OF a(1) m(1), folded room_def]
      have rb: "vbit room q \<longleftrightarrow> i < q \<and> q < w \<and> \<not> vbit lo q \<and> \<not> vbit (kb_zero k) q \<and> \<not> vbit (kb_one k) q" for q
        using iw unfolding ro(2) a(2) m(2) kn(2) okw_bits(2) [OF k(2)] okw_bits(2) [OF kn(1)] by auto
      have inroom: "\<exists>q. vbit room q \<and> bit x q \<and> \<not> vbit lo q \<and> (\<forall>j>q. bit x j = vbit lo j)"
        if x: "x < 2 ^ w" "kb_allows k x" "bv_val lo \<le> x" for x
      proof -
        obtain q where q: "i \<le> q" "bit x q" "\<not> vbit lo q" "\<forall>j>q. bit x j = vbit lo j"
          using diff [OF x(2,3)] by blast
        have "i < q" using q(1,3) lo1 by (metis le_neq_implies_less)
        moreover have "\<not> vbit (kb_zero k) q" using kb_allowsD(1) [OF x(2)] q(2) by blast
        moreover have "\<not> vbit (kb_one k) q" using hi [OF \<open>i < q\<close>] q(3) bad(2) by blast
        ultimately have "vbit room q" using bit_nat_less [OF x(1) q(2)] q(3) by (simp add: rb)
        then show ?thesis using q by blast
      qed
      show ?thesis
      proof (cases "bv_is_zero room")
        case True
        then have "\<not> (kb_allows k x \<and> bv_val lo \<le> x)" if "x < 2 ^ w" for x
          using inroom [OF that] bv_is_zero_iff [OF ro(1)] by blast
        then show ?thesis using False True bl lo1 by (auto simp: eq not_le)
      next
        case nr: False
        define t where "t = bv_trailing_zeros room"
        have t: "vbit room t" "\<And>q. vbit room q \<Longrightarrow> t \<le> q"
          using bv_trailing_zeros [OF ro(1)] nr unfolding t_def by (metis le_neq_implies_less, metis not_less)
        then have t': "t < w" "\<not> vbit lo t" "\<not> vbit (kb_zero k) t" "i < t" by (simp_all add: rb)
        have ab: "\<forall>j>t. \<not> vbit (kb_conflict k lo) j" using hi t'(4) bad_def by simp
        note r = kb_raise_least [OF k t'(1-3) ab] kb_raise_bits(1) [OF k t'(1)]
        have "bv_val (kb_raise k lo t) \<le> x" if "x < 2 ^ w" "kb_allows k x" "bv_val lo \<le> x" for x
          using inroom [OF that] r(3) [OF that(2)] t(2) by blast
        then show ?thesis using r(1,2,4) False bl lo1 nr by (simp add: eq t_def)
      qed
    qed
  qed
qed

text \<open>The search downwards is the search upwards on the complement.\<close>

definition kb_swap :: "KnownBits \<Rightarrow> KnownBits" where
  "kb_swap k = kb_make (kb_one k) (kb_zero k)"

lemma kb_swap_sel [simp]: "kb_zero (kb_swap k) = kb_one k" "kb_one (kb_swap k) = kb_zero k"
  by (simp_all add: kb_swap_def)

lemma kb_swap:
  assumes "kb_ok w k"
  shows "kb_ok w (kb_swap k)" "x < 2 ^ w \<Longrightarrow> kb_allows (kb_swap k) (2 ^ w - 1 - x) \<longleftrightarrow> kb_allows k x"
proof -
  note k = kb_okD(1-4) [OF assms]
  show "kb_ok w (kb_swap k)" using assms by (auto simp: kb_ok_bits)
  assume "x < 2 ^ w"
  then show "kb_allows (kb_swap k) (2 ^ w - 1 - x) \<longleftrightarrow> kb_allows k x"
    using okw_bit [OF k(1)] okw_bit [OF k(2)]
    by (simp add: kb_allows_bits bit_sem_not) blast
qed

lemma bv_not_not: "okw w v \<Longrightarrow> bv_not (bv_not v) = v"
proof (rule okw_bit_eqI)
  assume v: "okw w v"
  note n = okw_bits(1,2) [OF v]
  show "okw w (bv_not (bv_not v))" "okw w v" using okw_bits(1) [OF n(1)] v by simp_all
  show "vbit (bv_not (bv_not v)) i = vbit v i" if "i < w" for i
    using that by (simp add: okw_bits(2) [OF n(1)] n(2))
qed

lemma kb_prev_as_next:
  assumes k: "kb_ok w k" "okw w hi"
  shows "kb_prev_member k hi = map_option bv_not (kb_next_member (kb_swap k) (bv_not hi))"
proof -
  note kw = kb_okD(1-4) [OF k(1)] and sk = kb_swap(1) [OF k(1)] and nh = okw_bits(1) [OF k(2)]
  note sw = kb_okD(1-4) [OF sk]
  have bad: "kb_conflict (kb_swap k) (bv_not hi) = kb_conflict k hi"
    by (rule okw_bit_eqI [OF kb_conflict_bits(1) [OF sk nh] kb_conflict_bits(1) [OF k]])
      (auto simp: kb_conflict_bits(2) [OF sk nh] kb_conflict_bits(2) [OF k] okw_bits(2) [OF k(2)])
  have known: "kb_known (kb_swap k) = kb_known k"
    using okw_bits(9,10) [OF kw(1,2)] okw_bits(9,10) [OF kw(2,1)]
    by (auto simp: kb_known_def intro: okw_bit_eqI)
  have low: "bv_not (kb_raise (kb_swap k) (bv_not hi) p) = kb_lower k hi p" if p: "p < w" for p
  proof -
    note r = kb_raise_bits [OF sk nh p]
    note m = okw_masks [OF kw(3)]
    note z = okw_bits(1,2) [OF kw(1)]
    note a = okw_bits(7,8) [OF k(2) m(3)] and b = okw_bits(7,8) [OF z(1) m(1)]
    note c = okw_bits(9,10) [OF a(1) b(1)]
    show ?thesis
      unfolding kb_lower_def Let_def kw(4)
      by (rule okw_bit_eqI [OF okw_bits(1) [OF r(1)] c(1)])
        (use p in \<open>auto simp: okw_bits(2) [OF r(1)] r(2) c(2) a(2) b(2) m z(2) okw_bits(2) [OF k(2)]\<close>)
  qed
  define bad where "bad = kb_conflict k hi"
  define i where "i = w - 1 - bv_leading_zeros bad"
  define room where "room = bv_and (bv_and hi (bv_not (kb_known k))) (high_mask w (w - 1 - i))"
  have eq: "kb_prev_member k hi =
      (if bv_is_zero bad then Some hi
       else if bv_bit hi i = Some True then Some (kb_lower k hi i)
       else if bv_is_zero room then None else Some (kb_lower k hi (bv_trailing_zeros room)))"
    by (simp only: kb_prev_member_def Let_def kw(4) bad_def i_def room_def)
  have eq2: "kb_next_member (kb_swap k) (bv_not hi) =
      (if bv_is_zero bad then Some (bv_not hi)
       else if bv_bit (bv_not hi) i = Some False then Some (kb_raise (kb_swap k) (bv_not hi) i)
       else if bv_is_zero room then None else Some (kb_raise (kb_swap k) (bv_not hi) (bv_trailing_zeros room)))"
    by (simp only: kb_next_member_def Let_def sw(4) bad known bv_not_not [OF k(2)] bad_def i_def room_def)
  have iw: "i < w" using okwD(5) [OF k(2)] by (simp add: i_def)
  have "bv_bit (bv_not hi) i = Some False \<longleftrightarrow> bv_bit hi i = Some True"
    using bv_inspect(1) [OF okwD(1) [OF k(2)]] bv_inspect(1) [OF okwD(1) [OF nh]] okwD(2) [OF k(2)]
      okwD(2) [OF nh] okw_bits(2) [OF k(2), of i] iw by simp
  moreover have "bv_trailing_zeros room < w" if "\<not> bv_is_zero room"
  proof -
    note kn = okw_bits(9) [OF kw(1,2), folded kb_known_def]
    have "okw w room" unfolding room_def
      by (intro okw_bits(7) okw_bits(1) [OF kn] k(2) okw_masks(3) [OF kw(3)])
    then show ?thesis using bv_trailing_zeros(1,4) that by (metis le_neq_implies_less)
  qed
  ultimately show ?thesis by (simp add: eq eq2 bv_not_not [OF k(2)] low [OF iw] low)
qed

lemma bv_not_val: "okw w v \<Longrightarrow> bv_val (bv_not v) = 2 ^ w - 1 - bv_val v"
  using okw_un(2) [of w v UNot] by (simp add: bv_not_def sem_un_def)

lemma kb_prev_member_correct:
  assumes k: "kb_ok w k" "okw w hi"
  shows "case kb_prev_member k hi of
      None \<Rightarrow> \<forall>x<2 ^ w. kb_allows k x \<longrightarrow> bv_val hi < x
    | Some v \<Rightarrow> okw w v \<and> kb_allows k (bv_val v) \<and> bv_val v \<le> bv_val hi \<and>
        (\<forall>x<2 ^ w. kb_allows k x \<longrightarrow> x \<le> bv_val hi \<longrightarrow> x \<le> bv_val v)"
proof -
  note nh = okw_bits(1) [OF k(2)] and h = okwD(4) [OF k(2)] and nv = bv_not_val [OF k(2)]
  note N = kb_next_member_correct [OF kb_swap(1) [OF k(1)] nh] and P = kb_prev_as_next [OF k]
  have all: "kb_allows (kb_swap k) (2 ^ w - 1 - x)" if "x < 2 ^ w" "kb_allows k x" for x
    using kb_swap(2) [OF k(1) that(1)] that(2) by simp
  show ?thesis
  proof (cases "kb_next_member (kb_swap k) (bv_not hi)")
    case None
    have "bv_val hi < x" if "x < 2 ^ w" "kb_allows k x" for x
    proof -
      have "2 ^ w - 1 - x < 2 ^ w - 1 - bv_val hi" using None N all [OF that] nv by simp
      then show ?thesis by linarith
    qed
    then show ?thesis using None P by simp
  next
    case (Some u)
    then have u: "okw w u" "kb_allows (kb_swap k) (bv_val u)" "bv_val (bv_not hi) \<le> bv_val u"
      "\<And>x. x < 2 ^ w \<Longrightarrow> kb_allows (kb_swap k) x \<Longrightarrow> bv_val (bv_not hi) \<le> x \<Longrightarrow> bv_val u \<le> x"
      using N by auto
    have "bv_val u < 2 ^ w" using okwD(4) [OF u(1)] .
    then have c: "2 ^ w - 1 - bv_val (bv_not u) = bv_val u" "bv_val (bv_not u) < 2 ^ w"
      by (simp_all add: bv_not_val [OF u(1)])
    have "kb_allows k (bv_val (bv_not u))" using kb_swap(2) [OF k(1) c(2)] u(2) c(1) by simp
    moreover have "bv_val (bv_not u) \<le> bv_val hi" using u(3) h nv by (simp add: bv_not_val [OF u(1)])
    moreover have "x \<le> bv_val (bv_not u)" if "x < 2 ^ w" "kb_allows k x" "x \<le> bv_val hi" for x
    proof -
      have "bv_val u \<le> 2 ^ w - 1 - x"
        by (rule u(4)) (use that all [OF that(1,2)] nv in auto)
      then show ?thesis using that(1) by (simp add: bv_not_val [OF u(1)])
    qed
    ultimately show ?thesis using Some P okw_bits(1) [OF u(1)] by simp
  qed
qed


section \<open>Signed bounds\<close>

lemma signed_flip:
  assumes "0 < w" "x < 2 ^ w"
  shows "sem_signed w x = int (x XOR 2 ^ (w - 1)) - 2 ^ (w - 1)"
proof -
  have b: "bit (2 ^ (w - 1) :: nat) i \<longleftrightarrow> i = w - 1" for i by (auto simp: bit_exp_iff)
  show ?thesis
  proof (cases "bit x (w - 1)")
    case True
    have "(x XOR 2 ^ (w - 1)) AND 2 ^ (w - 1) = 0" using True unfolding nat_and_eq_0 bit_xor_iff b by auto
    then have "(x XOR 2 ^ (w - 1)) + 2 ^ (w - 1) = (x XOR 2 ^ (w - 1)) OR 2 ^ (w - 1)"
      by (rule disjunctive_add_eq_or)
    also have "\<dots> = x"
    proof (rule bit_eqI)
      fix i :: nat
      show "bit ((x XOR 2 ^ (w - 1)) OR 2 ^ (w - 1)) i = bit x i"
        using True unfolding bit_or_iff bit_xor_iff b by auto
    qed
    finally have "int x = int (x XOR 2 ^ (w - 1)) + 2 ^ (w - 1)"
      by (metis of_nat_add of_nat_numeral of_nat_power)
    moreover have "(2::int) ^ w = 2 * 2 ^ (w - 1)" using assms(1) by (cases w) simp_all
    ultimately show ?thesis using True by (simp add: sem_signed_def)
  next
    case False
    have "x AND 2 ^ (w - 1) = 0" using False unfolding nat_and_eq_0 b by auto
    then have "x + 2 ^ (w - 1) = x OR 2 ^ (w - 1)" by (rule disjunctive_add_eq_or)
    also have "\<dots> = x XOR 2 ^ (w - 1)" by (rule bit_eqI) (use False in \<open>auto simp: bit_simps b [simplified]\<close>)
    finally have "int (x XOR 2 ^ (w - 1)) = int x + 2 ^ (w - 1)"
      by (metis of_nat_add of_nat_numeral of_nat_power)
    then show ?thesis using False by (simp add: sem_signed_def)
  qed
qed

lemma signed_le_by_bits:
  assumes "0 < w" "x < 2 ^ w" "y < 2 ^ w" "\<And>i. i \<noteq> w - 1 \<Longrightarrow> bit x i \<Longrightarrow> bit y i"
    and "bit y (w - 1) \<Longrightarrow> bit x (w - 1)"
  shows "sem_signed w x \<le> sem_signed w y"
proof -
  have "x XOR 2 ^ (w - 1) \<le> y XOR 2 ^ (w - 1)"
    by (rule le_by_bits) (use assms(4,5) in \<open>auto simp: bit_xor_iff bit_exp_iff\<close>)
  then show ?thesis using assms(1-3) by (simp add: signed_flip)
qed

lemma kb_sign_test:
  assumes "kb_ok w k"
  shows "bv_is_zero (bv_and (kb_zero k) (bv_smin w)) \<longleftrightarrow> \<not> vbit (kb_zero k) (w - 1)"
    "bv_is_zero (bv_and (kb_one k) (bv_smin w)) \<longleftrightarrow> \<not> vbit (kb_one k) (w - 1)"
proof -
  note k = kb_okD(1-4) [OF assms] and s = okw_const(4) [OF kb_okD(3) [OF assms]]
  show "bv_is_zero (bv_and (kb_zero k) (bv_smin w)) \<longleftrightarrow> \<not> vbit (kb_zero k) (w - 1)"
    "bv_is_zero (bv_and (kb_one k) (bv_smin w)) \<longleftrightarrow> \<not> vbit (kb_one k) (w - 1)"
    using okw_bits(7,8) [OF k(1) s] okw_bits(7,8) [OF k(2) s] k(3) by (auto simp: bv_is_zero_iff)
qed

lemma kb_smin_bits:
  assumes "kb_ok w k"
  shows "okw w (kb_smin k)"
    "vbit (kb_smin k) i \<longleftrightarrow> (if i = w - 1 then \<not> vbit (kb_zero k) i else vbit (kb_one k) i)"
proof -
  note k = kb_okD(1-4) [OF assms] and s = okw_const(4) [OF kb_okD(3) [OF assms]]
  show "okw w (kb_smin k)" using okw_bits(9) [OF k(2) s] k by (simp add: kb_smin_def Let_def)
  show "vbit (kb_smin k) i \<longleftrightarrow> (if i = w - 1 then \<not> vbit (kb_zero k) i else vbit (kb_one k) i)"
    using okw_bits(10) [OF k(2) s] k kb_sign_test(1) [OF assms] kb_okD(5) [OF assms, of "w - 1"]
    by (auto simp: kb_smin_def Let_def)
qed

lemma kb_smax_bits:
  assumes "kb_ok w k"
  shows "okw w (kb_smax k)"
    "vbit (kb_smax k) i \<longleftrightarrow> i < w \<and> (if i = w - 1 then vbit (kb_one k) i else \<not> vbit (kb_zero k) i)"
proof -
  note k = kb_okD(1-4) [OF assms] and s = okw_const(4) [OF kb_okD(3) [OF assms]]
  note n = okw_bits(1,2) [OF k(1)] and m = okw_bits(1,2) [OF s]
  note a = okw_bits(7,8) [OF n(1) m(1)]
  show "okw w (kb_smax k)" using a n k by (simp add: kb_smax_def Let_def)
  show "vbit (kb_smax k) i \<longleftrightarrow> i < w \<and> (if i = w - 1 then vbit (kb_one k) i else \<not> vbit (kb_zero k) i)"
    using k kb_sign_test(2) [OF assms] kb_okD(5) [OF assms, of "w - 1"] okwD(5) [OF k(1)]
    by (auto simp: kb_smax_def Let_def a(2) n(2) m(2))
qed

lemma kb_signed_bounds:
  assumes "kb_ok w k" "kb_allows k x" "x < 2 ^ w"
  shows "sem_signed w (bv_val (kb_smin k)) \<le> sem_signed w x" "sem_signed w x \<le> sem_signed w (bv_val (kb_smax k))"
proof -
  have w: "0 < w" using okwD(5) kb_okD(1) [OF assms(1)] by blast
  show "sem_signed w (bv_val (kb_smin k)) \<le> sem_signed w x"
    by (rule signed_le_by_bits [OF w okwD(4) [OF kb_smin_bits(1) [OF assms(1)]] assms(3)])
      (use kb_allowsD [OF assms(2)] in \<open>auto simp: kb_smin_bits(2) [OF assms(1)] split: if_splits\<close>)
  show "sem_signed w x \<le> sem_signed w (bv_val (kb_smax k))"
    by (rule signed_le_by_bits [OF w assms(3) okwD(4) [OF kb_smax_bits(1) [OF assms(1)]]])
      (use kb_allowsD [OF assms(2)] bit_nat_less [OF assms(3)] w in
        \<open>auto simp: kb_smax_bits(2) [OF assms(1)] split: if_splits\<close>)
qed

lemma kb_signed_bounds_allowed:
  assumes "kb_ok w k"
  shows "kb_allows k (bv_val (kb_smin k))" "kb_allows k (bv_val (kb_smax k))"
  using kb_okD(5) [OF assms] okw_bit [OF kb_okD(2) [OF assms]]
  by (auto simp: kb_allows_bits kb_smin_bits(2) [OF assms] kb_smax_bits(2) [OF assms])

lemma kb_sign_flipped_correct:
  assumes "kb_ok w k"
  shows "kb_ok w (kb_sign_flipped k)"
    "kb_allows (kb_sign_flipped k) (x XOR 2 ^ (w - 1)) \<longleftrightarrow> kb_allows k x"
proof -
  note k = kb_okD(1-4) [OF assms] and s = okw_const(4) [OF kb_okD(3) [OF assms]]
  note n = okw_bits(1,2) [OF s]
  note z1 = okw_bits(7,8) [OF k(1) n(1)] and z2 = okw_bits(7,8) [OF k(2) s]
    and o1 = okw_bits(7,8) [OF k(2) n(1)] and o2 = okw_bits(7,8) [OF k(1) s]
  note z = okw_bits(9,10) [OF z1(1) z2(1)] and o' = okw_bits(9,10) [OF o1(1) o2(1)]
  have zb: "vbit (kb_zero (kb_sign_flipped k)) i \<longleftrightarrow> (if i = w - 1 then vbit (kb_one k) i else vbit (kb_zero k) i)"
    and ob: "vbit (kb_one (kb_sign_flipped k)) i \<longleftrightarrow> (if i = w - 1 then vbit (kb_zero k) i else vbit (kb_one k) i)" for i
    using okw_bit [OF k(1), of i] okw_bit [OF k(2), of i] k(3)
    by (auto simp: kb_sign_flipped_def Let_def k(4) z(2) z1(2) z2(2) n(2) o'(2) o1(2) o2(2))
  have "okw w (kb_zero (kb_sign_flipped k))" "okw w (kb_one (kb_sign_flipped k))"
    by (simp_all add: kb_sign_flipped_def Let_def k(4) z(1) o'(1))
  then show "kb_ok w (kb_sign_flipped k)"
    using kb_okD(5) [OF assms] by (auto simp: kb_ok_bits zb ob)
  have x: "bit (x XOR 2 ^ (w - 1)) i \<longleftrightarrow> (if i = w - 1 then \<not> bit x i else bit x i)" for i
    by (auto simp: bit_xor_iff bit_exp_iff)
  have "(vbit (kb_zero (kb_sign_flipped k)) i \<longrightarrow> \<not> bit (x XOR 2 ^ (w - 1)) i) \<and>
      (vbit (kb_one (kb_sign_flipped k)) i \<longrightarrow> bit (x XOR 2 ^ (w - 1)) i) \<longleftrightarrow>
      (vbit (kb_zero k) i \<longrightarrow> \<not> bit x i) \<and> (vbit (kb_one k) i \<longrightarrow> bit x i)" for i
    unfolding zb ob x by auto
  then show "kb_allows (kb_sign_flipped k) (x XOR 2 ^ (w - 1)) \<longleftrightarrow> kb_allows k x"
    unfolding kb_allows_bits by simp
qed


section \<open>Constants, prefixes and single bits\<close>

lemma kb_as_constant_correct:
  assumes "kb_ok w k"
  shows "kb_as_constant k = (if \<exists>v. okw w v \<and> (\<forall>x<2 ^ w. kb_allows k x \<longleftrightarrow> x = bv_val v)
      then Some (kb_one k) else None)"
    "kb_as_constant k = Some v \<Longrightarrow> x < 2 ^ w \<Longrightarrow> kb_allows k x \<longleftrightarrow> x = bv_val v"
proof -
  note k = kb_okD(1-4) [OF assms]
  note kn = okw_bits(9,10) [OF k(1,2), folded kb_known_def]
  have c: "kb_as_constant k = (if \<forall>i<w. vbit (kb_zero k) i \<or> vbit (kb_one k) i then Some (kb_one k) else None)"
    by (simp add: kb_as_constant_def bv_is_ones_bits [OF kn(1)] kn(2))
  have only: "kb_allows k x \<longleftrightarrow> x = bv_val (kb_one k)"
    if "\<forall>i<w. vbit (kb_zero k) i \<or> vbit (kb_one k) i" "x < 2 ^ w" for x
  proof
    assume a: "kb_allows k x"
    show "x = bv_val (kb_one k)"
    proof (rule bit_eqI)
      fix i :: nat
      show "bit x i = vbit (kb_one k) i"
        using kb_allowsD [OF a, of i] that(1) bit_nat_less [OF that(2), of i] by blast
    qed
  next
    show "x = bv_val (kb_one k) \<Longrightarrow> kb_allows k x" using kb_umin_allowed [OF assms] by (simp add: kb_umin_def)
  qed
  have "\<forall>i<w. vbit (kb_zero k) i \<or> vbit (kb_one k) i" if "\<forall>x<2 ^ w. kb_allows k x \<longleftrightarrow> x = y" for y
  proof -
    have "bv_val (kb_one k) = y" "bv_val (kb_umax k) = y"
      using that kb_umin_allowed [OF assms] kb_umax_allowed [OF assms] okwD(4) [OF k(2)] okwD(4)
      by (auto simp: kb_umin_def)
    then have "\<forall>i. vbit (kb_one k) i = vbit (kb_umax k) i" by simp
    then show ?thesis using okw_bits(2) [OF k(1)] by (simp add: kb_umax_def)
  qed
  then show "kb_as_constant k = (if \<exists>v. okw w v \<and> (\<forall>x<2 ^ w. kb_allows k x \<longleftrightarrow> x = bv_val v)
      then Some (kb_one k) else None)"
    unfolding c using only k(2) by (metis (no_types, lifting))
  show "kb_as_constant k = Some v \<Longrightarrow> x < 2 ^ w \<Longrightarrow> kb_allows k x \<longleftrightarrow> x = bv_val v"
    using only by (auto simp: c split: if_splits)
qed

lemma kb_low_bits_of_correct:
  assumes "okw w v"
  shows "kb_ok w (kb_low_bits_of v n)"
    "x < 2 ^ w \<Longrightarrow> kb_allows (kb_low_bits_of v n) x \<longleftrightarrow> x mod 2 ^ n = bv_val v mod 2 ^ n"
proof -
  note v = okwD [OF assms] and nv = okw_bits(1,2) [OF assms]
  note m = okw_masks(1,2) [OF v(3), of n]
  note a = okw_bits(7,8) [OF nv(1) m(1)] and b = okw_bits(7,8) [OF assms m(1)]
  show "kb_ok w (kb_low_bits_of v n)"
    by (auto simp: kb_low_bits_of_def Let_def v(2) kb_ok_bits a b nv(2))
  assume x: "x < 2 ^ w"
  have "kb_allows (kb_low_bits_of v n) x \<longleftrightarrow> (\<forall>i<n. bit x i = vbit v i)"
    using bit_nat_less [OF x] okw_bit [OF assms]
    by (auto simp: kb_low_bits_of_def Let_def v(2) kb_allows_bits a b nv(2) m(2))
  also have "\<dots> \<longleftrightarrow> take_bit n x = take_bit n (bv_val v)"
    by (auto simp: bit_eq_iff bit_take_bit_iff)
  finally show "kb_allows (kb_low_bits_of v n) x \<longleftrightarrow> x mod 2 ^ n = bv_val v mod 2 ^ n"
    by (simp add: take_bit_eq_mod)
qed

lemma kb_fit_correct:
  assumes "kb_ok w k" "okw w v"
  shows "okw w (kb_fit k v)" "kb_allows k (bv_val (kb_fit k v))" "kb_allows k (bv_val v) \<Longrightarrow> kb_fit k v = v"
proof -
  note k = kb_okD(1-4) [OF assms(1)]
  note n = okw_bits(1,2) [OF k(1)]
  note a = okw_bits(7,8) [OF assms(2) n(1)]
  note f = okw_bits(9,10) [OF a(1) k(2), folded kb_fit_def]
  show "okw w (kb_fit k v)" by (rule f(1))
  show "kb_allows k (bv_val (kb_fit k v))"
    using kb_okD(5) [OF assms(1)] by (auto simp: kb_allows_bits f(2) a(2) n(2))
  show "kb_fit k v = v" if "kb_allows k (bv_val v)"
    by (rule okw_bit_eqI [OF f(1) assms(2)]) (use kb_allowsD [OF that] in \<open>auto simp: f(2) a(2) n(2)\<close>)
qed

lemma kb_bit_correct:
  assumes "kb_ok w k" "i < w"
  shows "kb_bit k i = Some b \<longleftrightarrow> (\<forall>x<2 ^ w. kb_allows k x \<longrightarrow> bit x i = b)"
proof -
  note k = kb_okD(1-4) [OF assms(1)]
  have s: "bv_bit (kb_one k) i = Some (vbit (kb_one k) i)" "bv_bit (kb_zero k) i = Some (vbit (kb_zero k) i)"
    using bv_inspect(1) [OF okwD(1) [OF k(1)]] bv_inspect(1) [OF okwD(1) [OF k(2)]] okwD(2) [OF k(1)]
      okwD(2) [OF k(2)] assms(2) by simp_all
  have e: "kb_bit k i = (if vbit (kb_one k) i then Some True else if vbit (kb_zero k) i then Some False else None)"
    by (simp add: kb_bit_def s split: bool.splits)
  have "bv_val (kb_one k) < 2 ^ w" "bv_val (kb_umax k) < 2 ^ w"
    using okwD(4) [OF k(2)] okwD(4) [OF kb_umax_allowed(1) [OF assms(1)]] .
  then have "vbit (kb_one k) i = b \<and> vbit (kb_umax k) i = b" if "\<forall>x<2 ^ w. kb_allows k x \<longrightarrow> bit x i = b"
    using that kb_umin_allowed [OF assms(1)] kb_umax_allowed(2) [OF assms(1)] by (simp add: kb_umin_def)
  then show ?thesis
    using kb_allowsD [of k _ i] assms(2) by (auto simp: e kb_umax_def okw_bits(2) [OF k(1)])
qed

lemma kb_trailing_known_zeros_correct:
  assumes "kb_ok w k" "kb_allows k x"
  shows "2 ^ kb_trailing_known_zeros k dvd x"
proof -
  note n = okw_bits(1,2) [OF kb_okD(1) [OF assms(1)]]
  have "\<not> bit x i" if "i < kb_trailing_known_zeros k" for i
  proof -
    have "i < w" using that bv_trailing_zeros(1) [OF n(1)] by (simp add: kb_trailing_known_zeros_def)
    then show ?thesis
      using bv_trailing_zeros(2) [OF n(1), of i] that kb_allowsD(1) [OF assms(2), of i] n(2)
      by (simp add: kb_trailing_known_zeros_def)
  qed
  then have "bit (take_bit (kb_trailing_known_zeros k) x) i = bit 0 i" for i
    by (auto simp: bit_take_bit_iff)
  then have "take_bit (kb_trailing_known_zeros k) x = 0" by (rule bit_eqI)
  then show ?thesis by (simp add: take_bit_eq_0_iff)
qed

lemma kb_leading_known_zeros_correct:
  assumes "kb_ok w k" "kb_allows k x" "x < 2 ^ w"
  shows "x < 2 ^ (w - kb_leading_known_zeros k)"
proof (rule less_power_bits)
  fix i assume b: "bit x i"
  note n = okw_bits(1,2) [OF kb_okD(1) [OF assms(1)]]
  have "vbit (bv_not (kb_zero k)) i" "i < w"
    using b kb_allowsD(1) [OF assms(2), of i] bit_nat_less [OF assms(3) b] n(2) [of i] by blast+
  then have "\<not> w \<le> i + kb_leading_known_zeros k"
    using bv_leading_zeros(2) [OF n(1), of i] unfolding kb_leading_known_zeros_def by blast
  then show "i < w - kb_leading_known_zeros k" by simp
qed

section \<open>Enumeration\<close>

lemma bit_lval_set:
  assumes "p div 64 < length l"
  shows "bit (lval (l[p div 64 := l ! (p div 64) OR push_bit (p mod 64) 1])) i \<longleftrightarrow> bit (lval l) i \<or> i = p"
proof -
  have "i = p \<longleftrightarrow> i div 64 = p div 64 \<and> i mod 64 = p mod 64" by (metis div_mult_mod_eq)
  then show ?thesis
    using assms by (auto simp: bit_lval nth_list_update bit_simps possible_bit_word)
qed

definition put_bits :: "nat \<Rightarrow> (nat \<times> nat) list \<Rightarrow> limbs \<Rightarrow> limbs" where
  "put_bits c = fold (\<lambda>(j, p) limbs.
     if bit c j then limbs[p div 64 := limbs ! (p div 64) OR push_bit (p mod 64) 1] else limbs)"

lemma bit_put_bits:
  "\<forall>(j, p)\<in>set zs. p div 64 < length l \<Longrightarrow>
   bit (lval (put_bits c zs l)) i \<longleftrightarrow> bit (lval l) i \<or> (\<exists>(j, p)\<in>set zs. bit c j \<and> i = p)"
proof (induction zs arbitrary: l)
  case (Cons z zs)
  obtain j p where z: "z = (j, p)" by fastforce
  define l' where "l' = (if bit c j then l[p div 64 := l ! (p div 64) OR push_bit (p mod 64) 1] else l)"
  have "bit (lval l') i \<longleftrightarrow> bit (lval l) i \<or> bit c j \<and> i = p"
    using Cons.prems bit_lval_set [of p l i] by (simp add: l'_def z)
  moreover have "length l' = length l" by (simp add: l'_def)
  ultimately show ?case using Cons.IH [of l'] Cons.prems by (auto simp: put_bits_def z l'_def)
qed (simp add: put_bits_def)

lemma div_less_nlimbs: "i < w \<Longrightarrow> i div 64 < nlimbs w"
  by (auto simp: nlimbs_def)

lemma lval_active_limbs:
  assumes "okw w v"
  shows "lval (active_limbs v) = bv_val v" "length (active_limbs v) = nlimbs w"
proof -
  note v = okwD [OF assms]
  have n8: "nlimbs w \<le> 8" using v(3) by (simp add: nlimbs_le width_ok_def)
  then show l: "length (active_limbs v) = nlimbs w"
    using v(2) bv_okD(4) [OF v(1)] by (simp add: active_limbs_def)
  note div_less_nlimbs [of _ w]
  then show "lval (active_limbs v) = bv_val v"
    using okw_bit [OF assms] n8 bv_okD(4) [OF v(1)] v(2)
    by (intro bit_eqI) (auto simp: bit_lval active_limbs_def bv_val_def)
qed

lemma bv_count_ones_rank:
  assumes "okw w v"
  shows "bv_count_ones v = rank_below (bv_val v) w"
proof -
  have "w \<le> 64 * nlimbs w" using nlimbs_le [of w "nlimbs w"] by simp
  then obtain k where "64 * nlimbs w = w + k" using le_Suc_ex by blast
  then show ?thesis
    using sum_count_ones [of "active_limbs v"] lval_active_limbs [OF assms]
      rank_below_less_width [OF okwD(4) [OF assms], of k] by (simp add: bv_count_ones_def)
qed

lemma kb_enumerate_correct:
  assumes k: "kb_ok w k" and e: "kb_enumerate k m = Some vs"
  shows "length vs = 2 ^ bv_count_ones (kb_unknown_mask k)" "v \<in> set vs \<Longrightarrow> okw w v"
    "x < 2 ^ w \<Longrightarrow> kb_allows k x \<longleftrightarrow> x \<in> bv_val ` set vs"
proof -
  note kw = kb_okD(1-4) [OF k]
  note kn = okw_bits(9,10) [OF kw(1,2), folded kb_known_def]
  note u = okw_bits(1,2) [OF kn(1), folded kb_unknown_mask_def]
  define ps where "ps = filter (\<lambda>i. bv_bit (kb_unknown_mask k) i = Some True) [0..<w]"
  define n where "n = bv_count_ones (kb_unknown_mask k)"
  define g where "g = (\<lambda>c. wrapping_from_limbs w (put_bits c (zip [0..<length ps] ps) (active_limbs (kb_one k))))"
  have vs: "vs = map g [0..<2 ^ n]"
    using e by (simp add: kb_enumerate_def Let_def kw(4) g_def n_def ps_def put_bits_def split: if_splits)
  then show "length vs = 2 ^ bv_count_ones (kb_unknown_mask k)" by (simp add: n_def)
  have pf: "ps = filter (\<lambda>i. vbit (kb_unknown_mask k) i) [0..<w]"
    unfolding ps_def using bv_inspect(1) [OF okwD(1) [OF u(1)]] okwD(2) [OF u(1)] by (intro filter_cong) auto
  have ps: "set ps = {i. i < w \<and> \<not> vbit (kb_zero k) i \<and> \<not> vbit (kb_one k) i}" "distinct ps" "length ps = n"
  proof -
    show "set ps = {i. i < w \<and> \<not> vbit (kb_zero k) i \<and> \<not> vbit (kb_one k) i}" by (auto simp: pf u(2) kn(2))
    show "distinct ps" by (simp add: pf)
    show "length ps = n" by (simp only: pf n_def bv_count_ones_rank [OF u(1)] rank_below_def)
  qed
  have gok: "okw w (g c)" for c
    unfolding g_def okw_def by (intro conjI wrapping_from_limbs_correct [OF kw(3)])
  then show "v \<in> set vs \<Longrightarrow> okw w v" by (auto simp: vs)
  have "p div 64 < nlimbs w" if "p \<in> set ps" for p using that ps(1) div_less_nlimbs by blast
  then have zb: "\<forall>(j, p)\<in>set (zip [0..<length ps] ps). p div 64 < length (active_limbs (kb_one k))"
    unfolding lval_active_limbs(2) [OF kw(2)] by (auto dest: set_zip_rightD)
  have zs: "(\<exists>(j, p)\<in>set (zip [0..<length ps] ps). bit c j \<and> i = p) \<longleftrightarrow> (\<exists>j<length ps. bit c j \<and> i = ps ! j)" for c i :: nat
    by (auto simp: set_zip)
  have gb: "vbit (g c) i \<longleftrightarrow> vbit (kb_one k) i \<or> (\<exists>j<n. bit c j \<and> i = ps ! j)" for c i
  proof -
    have "vbit (g c) i \<longleftrightarrow> i < w \<and> bit (lval (put_bits c (zip [0..<length ps] ps) (active_limbs (kb_one k)))) i"
      unfolding g_def wrapping_from_limbs_correct(3) [OF kw(3)]
      by (simp only: bit_take_bit_iff flip: take_bit_eq_mod)
    also have "\<dots> \<longleftrightarrow> i < w \<and> (vbit (kb_one k) i \<or> (\<exists>j<n. bit c j \<and> i = ps ! j))"
      unfolding bit_put_bits [OF zb] zs lval_active_limbs(1) [OF kw(2)] unfolding ps(3) ..
    also have "\<dots> \<longleftrightarrow> vbit (kb_one k) i \<or> (\<exists>j<n. bit c j \<and> i = ps ! j)"
      using okw_bit [OF kw(2), of i] ps(1,3) nth_mem [of _ ps] by auto
    finally show ?thesis .
  qed
  assume x: "x < 2 ^ w"
  show "kb_allows k x \<longleftrightarrow> x \<in> bv_val ` set vs"
  proof
    assume a: "kb_allows k x"
    define c where "c = of_bits n (\<lambda>j. bit x (ps ! j))"
    have "bv_val (g c) = x"
    proof (rule bit_eqI)
      fix i :: nat
      have "i \<in> set ps \<longleftrightarrow> (\<exists>j<n. i = ps ! j)" using ps(3) by (auto simp: in_set_conv_nth)
      moreover have "vbit (g c) i \<longleftrightarrow> vbit (kb_one k) i \<or> (\<exists>j<n. i = ps ! j) \<and> bit x i"
        unfolding gb c_def by auto
      ultimately show "vbit (g c) i = bit x i"
        using kb_allowsD [OF a, of i] bit_nat_less [OF x, of i] ps(1) by auto
    qed
    moreover have "c < 2 ^ n" by (simp add: c_def)
    ultimately show "x \<in> bv_val ` set vs" unfolding vs by force
  next
    assume "x \<in> bv_val ` set vs"
    then obtain c where c: "x = bv_val (g c)" by (auto simp: vs)
    have "i \<in> set ps" if "j < n" "i = ps ! j" for i j using that ps(3) by simp
    then show "kb_allows k x"
      unfolding c kb_allows_bits gb using kb_okD(5) [OF k] ps(1) by blast
  qed
qed

section \<open>The domain contract\<close>

interpretation kb: exact_domain kb_ok "\<lambda>_. kb_allows" kb_unknown kb_constant kb_meet kb_hull
proof (unfold_locales, goal_cases)
  case (1 w) then show ?case using kb_unknown_correct by blast
next
  case (2 v w)
  then have "okw w v" by (simp add: okw_def)
  then show ?case using kb_constant_correct by blast
next
  case (3 w f g) then show ?case using kb_meet_correct [OF 3] by (cases "kb_meet f g") simp_all
next
  case (4 w f g) then show ?case using kb_hull_correct by blast
next
  case (5 w f g m x) then show ?case using kb_meet_correct [OF 5(1,2)] by simp
qed


section \<open>Properties\<close>

text \<open>Literals for the closed instances.\<close>

definition kb_literal :: "nat \<Rightarrow> u64 \<Rightarrow> u64 \<Rightarrow> KnownBits" where
  "kb_literal w z n = kb_make (wrapping_from_u64 w z) (wrapping_from_u64 w n)"

lemma kb_literal_ok:
  assumes "width_ok w" "(unat z mod 2 ^ w) AND (unat n mod 2 ^ w) = 0"
  shows "kb_ok w (kb_literal w z n)"
    "kb_allows (kb_literal w z n) x \<longleftrightarrow>
      x AND (unat z mod 2 ^ w) = 0 \<and> x AND (unat n mod 2 ^ w) = unat n mod 2 ^ w"
  using wrapping_from_u64_val [OF assms(1)] assms(2) by (simp_all add: kb_literal_def kb_ok_def kb_allows_def)

text \<open>
  C13: the known-bits domain is a lattice of value sets: the meet of two descriptions stands for
  exactly the values both allow and reports an empty set exactly when there are none; the hull
  allows everything either allows, and every description that does so allows the hull.
\<close>

theorem known_bits_lattice:
  assumes "kb_ok w k" "kb_ok w l"
  shows "(case kb_meet k l of
      None \<Rightarrow> \<forall>x. \<not> (kb_allows k x \<and> kb_allows l x)
    | Some m \<Rightarrow> kb_ok w m \<and> (\<forall>x. kb_allows m x \<longleftrightarrow> kb_allows k x \<and> kb_allows l x)) \<and>
    kb_ok w (kb_hull k l) \<and> (\<forall>x. kb_allows k x \<or> kb_allows l x \<longrightarrow> kb_allows (kb_hull k l) x) \<and>
    (\<forall>h x. kb_ok w h \<and> (\<forall>y<2 ^ w. kb_allows k y \<or> kb_allows l y \<longrightarrow> kb_allows h y) \<longrightarrow>
       kb_allows (kb_hull k l) x \<longrightarrow> kb_allows h x)"
proof (intro conjI allI impI)
  show "case kb_meet k l of
      None \<Rightarrow> \<forall>x. \<not> (kb_allows k x \<and> kb_allows l x)
    | Some m \<Rightarrow> kb_ok w m \<and> (\<forall>x. kb_allows m x \<longleftrightarrow> kb_allows k x \<and> kb_allows l x)"
    by (rule kb_meet_correct [OF assms])
  show "kb_ok w (kb_hull k l)" by (rule kb_hull_correct(1) [OF assms])
  show "kb_allows (kb_hull k l) x" if "kb_allows k x \<or> kb_allows l x" for x
    by (rule kb_hull_correct(2) [OF assms that])
  fix h x
  assume h: "kb_ok w h \<and> (\<forall>y<2 ^ w. kb_allows k y \<or> kb_allows l y \<longrightarrow> kb_allows h y)"
    and x: "kb_allows (kb_hull k l) x"
  show "kb_allows h x" by (rule kb_hull_least [OF assms _ _ x]) (use h in blast)+
qed

theorem known_bits_lattice_witness:
  "kb_ok 8 (kb_hull (kb_literal 8 3 4) (kb_literal 8 1 16)) \<and>
   kb_allows (kb_hull (kb_literal 8 3 4) (kb_literal 8 1 16)) 4"
proof -
  have k: "kb_ok 8 (kb_literal 8 3 4)" "kb_ok 8 (kb_literal 8 1 16)" "kb_allows (kb_literal 8 3 4) 4"
    using kb_literal_ok(1) [of 8 3 4] kb_literal_ok(1) [of 8 1 16] kb_literal_ok(2) [of 8 3 4 4]
    by (simp_all add: width_ok_def)
  then show ?thesis using known_bits_lattice [OF k(1,2)] by blast
qed

text \<open>
  C14: the search for the nearest allowed value is exact: \<open>next_member\<close> returns the least value at
  or above the bound that fits the known bits, \<open>prev_member\<close> the greatest at or below it, and
  either gives nothing only when no such value exists.
\<close>

theorem nearest_members_exact:
  assumes "kb_ok w k" "okw w b"
  shows "(case kb_next_member k b of
      None \<Rightarrow> \<forall>x<2 ^ w. kb_allows k x \<longrightarrow> x < bv_val b
    | Some v \<Rightarrow> okw w v \<and> kb_allows k (bv_val v) \<and> bv_val b \<le> bv_val v \<and>
        (\<forall>x<2 ^ w. kb_allows k x \<longrightarrow> bv_val b \<le> x \<longrightarrow> bv_val v \<le> x)) \<and>
    (case kb_prev_member k b of
      None \<Rightarrow> \<forall>x<2 ^ w. kb_allows k x \<longrightarrow> bv_val b < x
    | Some v \<Rightarrow> okw w v \<and> kb_allows k (bv_val v) \<and> bv_val v \<le> bv_val b \<and>
        (\<forall>x<2 ^ w. kb_allows k x \<longrightarrow> x \<le> bv_val b \<longrightarrow> x \<le> bv_val v))"
  by (rule conjI [OF kb_next_member_correct [OF assms] kb_prev_member_correct [OF assms]])

theorem nearest_members_exact_witness:
  "case kb_next_member (kb_literal 8 3 4) (wrapping_from_u64 8 9) of
     None \<Rightarrow> False | Some v \<Rightarrow> 9 \<le> bv_val v \<and> bv_val v \<le> 12"
proof -
  have k: "kb_ok 8 (kb_literal 8 3 4)" "kb_allows (kb_literal 8 3 4) 12"
    using kb_literal_ok(1) [of 8 3 4] kb_literal_ok(2) [of 8 3 4 12] by (simp_all add: width_ok_def)
  have b: "okw 8 (wrapping_from_u64 8 9)" "bv_val (wrapping_from_u64 8 9) = 9"
    using wrapping_from_u64_val [of 8 9] by (simp_all add: width_ok_def)
  have "(12::nat) < 2 ^ 8" by simp
  then show ?thesis
    using conjunct1 [OF nearest_members_exact [OF k(1) b(1)]] k(2) unfolding b(2)
    by (cases "kb_next_member (kb_literal 8 3 4) (wrapping_from_u64 8 9)") (auto dest: spec [of _ "12::nat"])
qed

text \<open>
  C15: the extremes read off the known bits are tight: \<open>umin\<close>, \<open>umax\<close>, \<open>smin\<close> and \<open>smax\<close> are allowed
  values, and every allowed value lies between them in the unsigned and in the signed order.
\<close>

theorem known_bits_extremes:
  assumes "kb_ok w k"
  shows "kb_allows k (bv_val (kb_umin k)) \<and> kb_allows k (bv_val (kb_umax k)) \<and>
    kb_allows k (bv_val (kb_smin k)) \<and> kb_allows k (bv_val (kb_smax k)) \<and>
    (\<forall>x<2 ^ w. kb_allows k x \<longrightarrow> bv_val (kb_umin k) \<le> x \<and> x \<le> bv_val (kb_umax k) \<and>
       sem_signed w (bv_val (kb_smin k)) \<le> sem_signed w x \<and> sem_signed w x \<le> sem_signed w (bv_val (kb_smax k)))"
  using kb_umin_allowed [OF assms] kb_umax_allowed(2) [OF assms] kb_signed_bounds_allowed [OF assms]
    kb_bounds [OF assms] kb_signed_bounds [OF assms]
  by blast

theorem known_bits_extremes_witness:
  "4 \<le> bv_val (kb_umax (kb_literal 8 3 4)) \<and> sem_signed 8 (bv_val (kb_smin (kb_literal 8 3 4))) \<le> - 124"
proof -
  have "kb_allows (kb_literal 8 3 4) 4" "kb_allows (kb_literal 8 3 4) 132"
    using kb_literal_ok(2) [of 8 3 4] by (simp_all add: width_ok_def)
  moreover have "kb_ok 8 (kb_literal 8 3 4)" using kb_literal_ok(1) [of 8 3 4] by (simp add: width_ok_def)
  moreover have "sem_signed 8 132 = - 124" by (simp add: sem_signed_def bit_iff_odd)
  moreover have "(4::nat) < 2 ^ 8" "(132::nat) < 2 ^ 8" by simp_all
  ultimately show ?thesis using known_bits_extremes [of 8 "kb_literal 8 3 4"] by metis
qed

text \<open>
  C16: when \<open>enumerate\<close> succeeds it lists exactly the allowed values, each of the right width, two
  to the power of the number of unknown bits of them.
\<close>

theorem enumerate_lists_all:
  assumes "kb_ok w k" "kb_enumerate k m = Some vs"
  shows "length vs = 2 ^ bv_count_ones (kb_unknown_mask k) \<and> (\<forall>v\<in>set vs. okw w v) \<and>
    (\<forall>x<2 ^ w. kb_allows k x \<longleftrightarrow> x \<in> bv_val ` set vs)"
  using kb_enumerate_correct [OF assms] by blast

theorem enumerate_lists_all_witness: "kb_allows (kb_literal 8 252 2) 3 \<and> \<not> kb_allows (kb_literal 8 252 2) 5"
proof -
  have k: "kb_ok 8 (kb_literal 8 252 2)" using kb_literal_ok(1) [of 8 252 2] by (simp add: width_ok_def)
  have e: "kb_enumerate (kb_literal 8 252 2) 4 = Some [wrapping_from_u64 8 2, wrapping_from_u64 8 3]"
    by code_simp
  have "\<forall>x<2 ^ 8. kb_allows (kb_literal 8 252 2) x \<longleftrightarrow> x = 2 \<or> x = 3"
    using enumerate_lists_all [OF k e] wrapping_from_u64_val(2) [of 8 2] wrapping_from_u64_val(2) [of 8 3]
    by (auto simp: width_ok_def)
  then show ?thesis by simp
qed

end
