(* ===== verification/Facts_Range.thy ===== *)
theory Facts_Range
  imports Facts_Known
begin

unbundle bit_operations_syntax

text \<open>
  Unsigned strided intervals and signed intervals (\<open>bitwright/src/facts/range.rs\<close>), with the
  residue arithmetic they rest on. A \<open>u64\<close> stride, modulus or residue is a \<open>nat\<close> and an
  \<open>i128\<close> an \<open>int\<close>: no operation on them wraps (products are taken in \<open>u128\<close> below \<open>2 ^ 128\<close>,
  the coefficients of the extended Euclidean algorithm stay below the modulus).
\<close>

section \<open>Comparisons\<close>

definition bv_ult :: "BitVec \<Rightarrow> BitVec \<Rightarrow> bool" where "bv_ult a b = cmp_unchecked CUlt a b"
definition bv_ule :: "BitVec \<Rightarrow> BitVec \<Rightarrow> bool" where "bv_ule a b = cmp_unchecked CUle a b"
definition bv_slt :: "BitVec \<Rightarrow> BitVec \<Rightarrow> bool" where "bv_slt a b = cmp_unchecked CSlt a b"
definition bv_sle :: "BitVec \<Rightarrow> BitVec \<Rightarrow> bool" where "bv_sle a b = cmp_unchecked CSle a b"

definition bv_umin :: "BitVec \<Rightarrow> BitVec \<Rightarrow> BitVec" where "bv_umin a b = (if bv_ult a b then a else b)"
definition bv_umax :: "BitVec \<Rightarrow> BitVec \<Rightarrow> BitVec" where "bv_umax a b = (if bv_ult a b then b else a)"
definition bv_smin2 :: "BitVec \<Rightarrow> BitVec \<Rightarrow> BitVec" where "bv_smin2 a b = (if bv_slt a b then a else b)"
definition bv_smax2 :: "BitVec \<Rightarrow> BitVec \<Rightarrow> BitVec" where "bv_smax2 a b = (if bv_slt a b then b else a)"

section \<open>Residue arithmetic\<close>

definition bv_rem :: "BitVec \<Rightarrow> nat \<Rightarrow> nat" where
  "bv_rem v m =
     (if m = 1 then 0
      else fold (\<lambda>limb r. (r * 2 ^ 64 + unat limb) mod m) (rev (active_limbs v)) 0)"

fun gcd_loop :: "nat \<Rightarrow> nat \<Rightarrow> nat" where
  "gcd_loop a b = (if b = 0 then a else gcd_loop b (a mod b))"

declare gcd_loop.simps [simp del]

function inverse_loop :: "int \<Rightarrow> int \<Rightarrow> int \<Rightarrow> int \<Rightarrow> int \<times> int" where
  "inverse_loop t nt r nr =
     (if nr = 0 then (t, r)
      else let q = r div nr in inverse_loop nt (t - q * nt) nr (r - q * nr))"
  by pat_completeness auto
termination
proof (relation "measure (\<lambda>(t, nt, r, nr). nat \<bar>nr\<bar>)")
  fix t nt r nr q :: int
  assume "nr \<noteq> 0" "q = r div nr"
  then have "r - q * nr = r mod nr" by (simp add: minus_div_mult_eq_mod)
  then show "((nt, t - q * nt, nr, r - q * nr), t, nt, r, nr) \<in> measure (\<lambda>(t, nt, r, nr). nat \<bar>nr\<bar>)"
    using \<open>nr \<noteq> 0\<close> abs_mod_less [of nr r] by simp
qed simp

declare inverse_loop.simps [simp del]

definition mod_inverse :: "nat \<Rightarrow> nat \<Rightarrow> nat option" where
  "mod_inverse a n =
     (let (t, r) = inverse_loop 0 1 (int n) (int (a mod n))
      in if r = 1 then Some (nat (t mod int n)) else None)"

definition crt :: "nat \<Rightarrow> nat \<Rightarrow> nat \<Rightarrow> nat \<Rightarrow> (nat \<times> nat) option option" where
  "crt r1 m1 r2 m2 =
     (let r1 = r1 mod m1; r2 = r2 mod m2; g = gcd_loop m1 m2
      in if r1 mod g \<noteq> r2 mod g then None
         else let l = (m1 div g) * m2
              in if l \<ge> 2 ^ 64 then Some None
                 else let n = m2 div g
                      in case (if n = 1 then Some 0
                               else let d = ((int r2 - int r1) div int g) mod int n
                                    in case mod_inverse (m1 div g) n of
                                         None \<Rightarrow> None | Some iv \<Rightarrow> Some ((nat d * iv) mod n)) of
                           None \<Rightarrow> None
                         | Some k \<Rightarrow> Some (Some ((r1 + m1 * k) mod l, l)))"

definition add_small :: "BitVec \<Rightarrow> nat \<Rightarrow> BitVec option" where
  "add_small v d =
     (let w = bv_width v
      in if w < 64 \<and> d div 2 ^ w \<noteq> 0 then None
         else let r = bin_unchecked BAdd v (wrapping_from_u64 w (word_of_nat d))
              in if bv_ule v r then Some r else None)"

definition sub_small :: "BitVec \<Rightarrow> nat \<Rightarrow> BitVec option" where
  "sub_small v d =
     (let w = bv_width v
      in if w < 64 \<and> d div 2 ^ w \<noteq> 0 then None
         else let r = bin_unchecked BSub v (wrapping_from_u64 w (word_of_nat d))
              in if bv_ule r v then Some r else None)"

definition snap_up :: "BitVec \<Rightarrow> nat \<Rightarrow> nat \<Rightarrow> BitVec option" where
  "snap_up lo r m =
     (if m \<le> 1 then Some lo else let d = (r mod m + m - bv_rem lo m) mod m in add_small lo d)"

definition snap_down :: "BitVec \<Rightarrow> nat \<Rightarrow> nat \<Rightarrow> BitVec option" where
  "snap_down hi r m =
     (if m \<le> 1 then Some hi else let d = (bv_rem hi m + m - r mod m) mod m in sub_small hi d)"

definition stride_of :: "BitVec \<Rightarrow> nat" where
  "stride_of d =
     (case to_u64 d of
        Some v \<Rightarrow> if v > 0 then unat v else 2 ^ min (bv_trailing_zeros d) 63
      | None \<Rightarrow> 2 ^ min (bv_trailing_zeros d) 63)"


section \<open>Unsigned strided intervals\<close>

record URange =
  ur_lo :: BitVec
  ur_hi :: BitVec
  ur_stride :: nat

definition ur_full :: "nat \<Rightarrow> URange" where
  "ur_full w = \<lparr>ur_lo = bv_zero w, ur_hi = bv_ones w, ur_stride = 1\<rparr>"

definition ur_constant :: "BitVec \<Rightarrow> URange" where
  "ur_constant v = \<lparr>ur_lo = v, ur_hi = v, ur_stride = 0\<rparr>"

text \<open>
  The debug assertions of \<open>from_parts\<close> (one width, ordered bounds, a stride that divides their
  distance) are the invariant of its result, which \<open>ur_from_parts_correct\<close> gives wherever it is
  called.
\<close>

definition ur_from_parts :: "BitVec \<Rightarrow> BitVec \<Rightarrow> nat \<Rightarrow> URange" where
  "ur_from_parts lo hi stride =
     (let stride = (if lo = hi then 0 else max stride 1) in \<lparr>ur_lo = lo, ur_hi = hi, ur_stride = stride\<rparr>)"

text \<open>The cached form: the parts as they are, and \<open>None\<close> where the debug assertion fails.\<close>

definition ur_from_raw :: "BitVec \<Rightarrow> BitVec \<Rightarrow> nat \<Rightarrow> URange option" where
  "ur_from_raw lo hi stride =
     (if ur_stride (ur_from_parts lo hi stride) = stride then Some \<lparr>ur_lo = lo, ur_hi = hi, ur_stride = stride\<rparr>
      else None)"

definition ur_new :: "BitVec \<Rightarrow> BitVec \<Rightarrow> URange option" where
  "ur_new lo hi =
     (if bv_width lo = bv_width hi \<and> bv_ule lo hi then Some (ur_from_parts lo hi 1) else None)"

definition ur_strided :: "BitVec \<Rightarrow> BitVec \<Rightarrow> nat \<Rightarrow> URange option" where
  "ur_strided lo hi stride =
     (if bv_width lo \<noteq> bv_width hi \<or> \<not> bv_ule lo hi then None
      else if lo = hi then Some (ur_constant lo)
      else let span = bin_unchecked BSub hi lo
           in if stride \<ge> 1 \<and> bv_rem span stride = 0
              then Some \<lparr>ur_lo = lo, ur_hi = hi, ur_stride = stride\<rparr> else None)"

definition ur_width :: "URange \<Rightarrow> nat" where "ur_width u = bv_width (ur_lo u)"

definition ur_contains :: "URange \<Rightarrow> BitVec \<Rightarrow> bool" where
  "ur_contains u v \<longleftrightarrow>
     bv_width v = ur_width u \<and> bv_ule (ur_lo u) v \<and> bv_ule v (ur_hi u) \<and>
     (ur_stride u \<le> 1 \<or> bv_rem (bin_unchecked BSub v (ur_lo u)) (ur_stride u) = 0)"

definition ur_within :: "URange \<Rightarrow> URange \<Rightarrow> bool" where
  "ur_within u v =
     (if \<not> bv_ule (ur_lo v) (ur_lo u) \<or> \<not> bv_ule (ur_hi u) (ur_hi v) then False
      else if ur_stride v \<le> 1 then True
      else let offset = bv_rem (bin_unchecked BSub (ur_lo u) (ur_lo v)) (ur_stride v)
           in offset = 0 \<and> (ur_stride u = 0 \<or> ur_stride u mod ur_stride v = 0))"

definition ur_is_full :: "URange \<Rightarrow> bool" where
  "ur_is_full u \<longleftrightarrow> bv_is_zero (ur_lo u) \<and> bv_is_ones (ur_hi u) \<and> ur_stride u = 1"

definition ur_as_constant :: "URange \<Rightarrow> BitVec option" where
  "ur_as_constant u = (if ur_lo u = ur_hi u then Some (ur_lo u) else None)"

definition ur_snapped :: "BitVec \<Rightarrow> BitVec \<Rightarrow> nat \<Rightarrow> nat \<Rightarrow> URange option" where
  "ur_snapped lo hi r m =
     (case snap_up lo r m of
        None \<Rightarrow> None
      | Some lo \<Rightarrow>
          (case snap_down hi r m of
             None \<Rightarrow> None
           | Some hi \<Rightarrow> if bv_ule lo hi then Some (ur_from_parts lo hi m) else None))"

definition ur_meet :: "URange \<Rightarrow> URange \<Rightarrow> URange option" where
  "ur_meet u v =
     (if ur_width u \<noteq> ur_width v then None
      else if ur_stride u = 0 then (if ur_contains v (ur_lo u) then Some u else None)
      else if ur_stride v = 0 then (if ur_contains u (ur_lo v) then Some v else None)
      else let lo = bv_umax (ur_lo u) (ur_lo v); hi = bv_umin (ur_hi u) (ur_hi v)
           in if bv_ult hi lo then None
              else let r1 = bv_rem (ur_lo u) (ur_stride u); r2 = bv_rem (ur_lo v) (ur_stride v)
                   in case crt r1 (ur_stride u) r2 (ur_stride v) of
                        None \<Rightarrow> None
                      | Some c \<Rightarrow>
                          let (r, m) = (case c of
                                Some class \<Rightarrow> class
                              | None \<Rightarrow> if ur_stride u \<ge> ur_stride v then (r1, ur_stride u) else (r2, ur_stride v))
                          in ur_snapped lo hi r m)"

definition ur_meet_class :: "URange \<Rightarrow> nat \<Rightarrow> nat \<Rightarrow> URange option" where
  "ur_meet_class u r m =
     (if m \<le> 1 then Some u
      else if ur_stride u = 0 then (if bv_rem (ur_lo u) m = r mod m then Some u else None)
      else let own = bv_rem (ur_lo u) (ur_stride u)
           in case crt own (ur_stride u) r m of
                None \<Rightarrow> None
              | Some c \<Rightarrow>
                  let (r, m) = (case c of Some class \<Rightarrow> class | None \<Rightarrow> (own, ur_stride u))
                  in ur_snapped (ur_lo u) (ur_hi u) r m)"

definition ur_hull :: "URange \<Rightarrow> URange \<Rightarrow> URange" where
  "ur_hull u v =
     (let lo = bv_umin (ur_lo u) (ur_lo v); hi = bv_umax (ur_hi u) (ur_hi v)
      in if lo = hi then ur_constant lo
         else let apart = bin_unchecked BSub (bv_umax (ur_lo u) (ur_lo v)) lo;
                  g = gcd_loop (ur_stride u) (ur_stride v);
                  stride = (if g = 0 then stride_of apart else gcd_loop g (bv_rem apart g))
              in ur_from_parts lo hi stride)"

definition ur_join :: "URange \<Rightarrow> URange \<Rightarrow> URange option" where
  "ur_join u v = (if ur_width u = ur_width v then Some (ur_hull u v) else None)"


section \<open>Signed intervals\<close>

record SRange =
  sr_lo :: BitVec
  sr_hi :: BitVec

definition sr_full :: "nat \<Rightarrow> SRange" where
  "sr_full w = \<lparr>sr_lo = bv_smin w, sr_hi = bv_smax w\<rparr>"

definition sr_constant :: "BitVec \<Rightarrow> SRange" where
  "sr_constant v = \<lparr>sr_lo = v, sr_hi = v\<rparr>"

definition sr_new :: "BitVec \<Rightarrow> BitVec \<Rightarrow> SRange option" where
  "sr_new lo hi =
     (if bv_width lo = bv_width hi \<and> bv_sle lo hi then Some \<lparr>sr_lo = lo, sr_hi = hi\<rparr> else None)"

definition sr_from_bounds :: "BitVec \<Rightarrow> BitVec \<Rightarrow> SRange option" where
  "sr_from_bounds lo hi =
     (if bv_width lo = bv_width hi \<and> bv_sle lo hi then Some \<lparr>sr_lo = lo, sr_hi = hi\<rparr> else None)"

definition sr_width :: "SRange \<Rightarrow> nat" where "sr_width s = bv_width (sr_lo s)"

definition sr_contains :: "SRange \<Rightarrow> BitVec \<Rightarrow> bool" where
  "sr_contains s v \<longleftrightarrow> bv_width v = sr_width s \<and> bv_sle (sr_lo s) v \<and> bv_sle v (sr_hi s)"

definition sr_is_full :: "SRange \<Rightarrow> bool" where
  "sr_is_full s \<longleftrightarrow> sr_lo s = bv_smin (sr_width s) \<and> sr_hi s = bv_smax (sr_width s)"

definition sr_as_constant :: "SRange \<Rightarrow> BitVec option" where
  "sr_as_constant s = (if sr_lo s = sr_hi s then Some (sr_lo s) else None)"

definition sr_meet :: "SRange \<Rightarrow> SRange \<Rightarrow> SRange option" where
  "sr_meet s t =
     (if sr_width s \<noteq> sr_width t then None
      else sr_new (bv_smax2 (sr_lo s) (sr_lo t)) (bv_smin2 (sr_hi s) (sr_hi t)))"

definition sr_hull :: "SRange \<Rightarrow> SRange \<Rightarrow> SRange" where
  "sr_hull s t = \<lparr>sr_lo = bv_smin2 (sr_lo s) (sr_lo t), sr_hi = bv_smax2 (sr_hi s) (sr_hi t)\<rparr>"

definition sr_join :: "SRange \<Rightarrow> SRange \<Rightarrow> SRange option" where
  "sr_join s t = (if sr_width s = sr_width t then Some (sr_hull s t) else None)"


section \<open>Correctness of the residue arithmetic\<close>

lemma gcd_loop_correct: "gcd_loop a b = gcd a b"
proof (induction a b rule: gcd_loop.induct)
  case (1 a b)
  then show ?case by (subst gcd_loop.simps) (simp add: gcd_red_nat [symmetric])
qed

lemma bv_rem_correct:
  assumes "okw w v" "0 < m"
  shows "bv_rem v m = bv_val v mod m"
proof (cases "m = 1")
  case False
  have "fold (\<lambda>limb r. (r * 2 ^ 64 + unat limb) mod m) (rev ls) 0 = lval ls mod m" for ls
  proof (induction ls)
    case (Cons l ls)
    have "(lval ls mod m * 2 ^ 64 + unat l) mod m = (lval ls * 2 ^ 64 + unat l) mod m"
      by (metis mod_add_left_eq mod_mult_left_eq)
    then show ?case using Cons by (simp add: B64_def algebra_simps)
  qed simp
  then show ?thesis using False lval_active_limbs(1) [OF assms(1)] by (simp add: bv_rem_def)
qed (simp add: bv_rem_def)

lemma inverse_loop_correct:
  assumes "inverse_loop t nt r nr = (t', r')" "0 < r" "0 \<le> nr"
    and "n dvd r - t * a" "n dvd nr - nt * a"
  shows "r' = gcd r nr \<and> n dvd r' - t' * a"
  using assms
proof (induction t nt r nr arbitrary: t' r' rule: inverse_loop.induct)
  case (1 t nt r nr)
  show ?case
  proof (cases "nr = 0")
    case True
    then show ?thesis using "1.prems" by (simp add: inverse_loop.simps)
  next
    case False
    define q where "q = r div nr"
    have m: "r - q * nr = r mod nr" by (simp add: q_def minus_div_mult_eq_mod)
    have e: "inverse_loop nt (t - q * nt) nr (r - q * nr) = (t', r')"
      using "1.prems"(1) False by (simp add: inverse_loop.simps [of t] Let_def q_def)
    have d: "n dvd (r - q * nr) - (t - q * nt) * a"
    proof -
      have "(r - q * nr) - (t - q * nt) * a = (r - t * a) - q * (nr - nt * a)" by (simp add: algebra_simps)
      then show ?thesis using "1.prems"(4,5) by (metis dvd_diff dvd_mult)
    qed
    have p: "0 < nr" "0 \<le> r - q * nr" using "1.prems"(3) False m by simp_all
    have "r' = gcd nr (r mod nr)" "n dvd r' - t' * a"
      using "1.IH" [OF False q_def e p "1.prems"(5) d] unfolding m by blast+
    then show ?thesis using gcd_red_int [of r nr] by metis
  qed
qed


text \<open>The coefficients stay within the modulus, so the \<open>i128\<close> arithmetic does not overflow.\<close>

definition inverse_bounded :: "int \<Rightarrow> int \<Rightarrow> int \<Rightarrow> int \<Rightarrow> int \<Rightarrow> bool" where
  "inverse_bounded n t nt r nr \<longleftrightarrow> 0 \<le> nr \<and> nr < r \<and> r * \<bar>nt\<bar> + nr * \<bar>t\<bar> \<le> n \<and> t * nt \<le> 0"

lemma inverse_step_bounded:
  assumes "inverse_bounded n t nt r nr" "nr \<noteq> 0"
  shows "inverse_bounded n nt (t - (r div nr) * nt) nr (r - (r div nr) * nr)"
    "\<bar>(r div nr) * nt\<bar> \<le> n" "\<bar>t - (r div nr) * nt\<bar> \<le> n"
proof -
  define q where "q = r div nr"
  have nr: "0 < nr" using assms by (simp add: inverse_bounded_def)
  have q: "1 \<le> q" using assms nr pos_imp_zdiv_pos_iff [of nr r] by (simp add: q_def inverse_bounded_def)
  have m: "r - q * nr = r mod nr" by (simp add: q_def minus_div_mult_eq_mod)
  have s: "\<bar>t - q * nt\<bar> = \<bar>t\<bar> + q * \<bar>nt\<bar>"
  proof -
    have "t \<le> 0 \<and> 0 \<le> nt \<or> 0 \<le> t \<and> nt \<le> 0"
      using assms(1) by (auto simp: inverse_bounded_def mult_le_0_iff)
    then show ?thesis
    proof
      assume "t \<le> 0 \<and> 0 \<le> nt"
      moreover then have "0 \<le> q * nt" using q by simp
      ultimately show ?thesis by simp
    next
      assume "0 \<le> t \<and> nt \<le> 0"
      moreover then have "q * nt \<le> 0" using q by (simp add: mult_le_0_iff)
      ultimately show ?thesis by simp
    qed
  qed
  have "nr * \<bar>t - q * nt\<bar> + (r - q * nr) * \<bar>nt\<bar> = r * \<bar>nt\<bar> + nr * \<bar>t\<bar>"
    unfolding s by (simp add: algebra_simps)
  moreover have "nt * (t - q * nt) \<le> 0"
  proof -
    have "nt * (t - q * nt) = t * nt - q * (nt * nt)" by (simp add: algebra_simps)
    moreover have "0 \<le> q * (nt * nt)" using q by simp
    ultimately show ?thesis using assms(1) by (simp add: inverse_bounded_def)
  qed
  ultimately show "inverse_bounded n nt (t - (r div nr) * nt) nr (r - (r div nr) * nr)"
    using assms(1) m nr unfolding q_def [symmetric] by (simp add: inverse_bounded_def)
  have "0 \<le> (r - q * nr) * \<bar>nt\<bar>" using m nr by simp
  then have "nr * \<bar>t - q * nt\<bar> \<le> n"
    using assms(1) \<open>nr * \<bar>t - q * nt\<bar> + (r - q * nr) * \<bar>nt\<bar> = r * \<bar>nt\<bar> + nr * \<bar>t\<bar>\<close>
    by (simp add: inverse_bounded_def)
  moreover have "\<bar>t - q * nt\<bar> \<le> nr * \<bar>t - q * nt\<bar>" using nr mult_right_mono [of 1 nr "\<bar>t - q * nt\<bar>"] by simp
  ultimately show "\<bar>t - (r div nr) * nt\<bar> \<le> n" unfolding q_def by simp
  then show "\<bar>(r div nr) * nt\<bar> \<le> n"
    using s q unfolding q_def [symmetric] by (simp add: abs_mult)
qed

lemma mod_inverse_correct:
  assumes "2 \<le> n"
  shows "mod_inverse a n = Some t \<Longrightarrow> t < n \<and> (a * t) mod n = 1"
    "mod_inverse a n = None \<Longrightarrow> \<not> coprime a n"
proof -
  obtain t' r' where l: "inverse_loop 0 1 (int n) (int (a mod n)) = (t', r')" by fastforce
  have c: "r' = gcd (int n) (int (a mod n)) \<and> int n dvd r' - t' * int (a mod n)"
    by (rule inverse_loop_correct [OF l]) (use assms in auto)
  have g: "gcd (int n) (int (a mod n)) = int (gcd a n)"
    by (metis gcd.commute gcd_int_int_eq gcd_red_nat)
  show "mod_inverse a n = None \<Longrightarrow> \<not> coprime a n"
    using c g by (auto simp: mod_inverse_def l coprime_iff_gcd_eq_1 split: if_splits)
  assume "mod_inverse a n = Some t"
  then have r: "r' = 1" "t = nat (t' mod int n)" by (auto simp: mod_inverse_def l split: if_splits)
  have "int t = t' mod int n" using r(2) assms by simp
  then have "int ((a * t) mod n) = (int (a mod n) * t') mod int n"
    by (simp add: zmod_int mod_mult_left_eq mod_mult_right_eq)
  also have "\<dots> = 1 mod int n"
    using c r(1) by (simp add: mod_eq_dvd_iff mult.commute dvd_diff_commute)
  also have "\<dots> = 1" using assms by simp
  finally have "(a * t) mod n = 1" by linarith
  moreover have "t < n" using r(2) assms by (simp add: nat_less_iff)
  ultimately show "t < n \<and> (a * t) mod n = 1" by simp
qed


lemma lcm_by_gcd: "0 < m1 \<Longrightarrow> (m1 div gcd m1 m2) * m2 = lcm m1 (m2::nat)"
  by (simp add: lcm_nat_def dvd_div_mult)

lemma crt_step:
  fixes r1 r2 g a n iv :: nat
  assumes "0 < g" "2 \<le> n" "r1 mod g = r2 mod g" "(a * iv) mod n = 1"
    and "k = (nat (((int r2 - int r1) div int g) mod int n) * iv) mod n"
  shows "(r1 + g * a * k) mod (g * n) = r2 mod (g * n)"
proof -
  define e where "e = (int r2 - int r1) div int g"
  have "int g dvd int r2 - int r1"
    using assms(3) by (metis mod_eq_dvd_iff zmod_int)
  then have e: "int r2 - int r1 = int g * e" by (simp add: e_def)
  have n: "0 < int n" using assms(2) by simp
  have "int (a * k) mod int n = (int a * ((e mod int n) * int iv)) mod int n"
    using n by (simp add: assms(5) e_def zmod_int mod_mult_right_eq)
  also have "\<dots> = (e * (int a * int iv)) mod int n"
    by (metis mod_mult_left_eq mult.assoc mult.left_commute)
  also have "\<dots> = (e * 1) mod int n"
  proof -
    have "(int a * int iv) mod int n = 1 mod int n" using assms(2,4) by (metis int_ops(2) of_nat_mult zmod_int mod_mod_trivial)
    then show ?thesis by (metis mod_mult_right_eq)
  qed
  finally have "int n dvd int (a * k) - e" by (simp add: mod_eq_dvd_iff)
  then have "int g * int n dvd int g * (int (a * k) - e)" by (rule mult_dvd_mono [OF dvd_refl])
  moreover have "int g * (int (a * k) - e) = int (r1 + g * a * k) - int r2"
    using e by (simp add: algebra_simps)
  ultimately have "int (g * n) dvd int (r1 + g * a * k) - int r2" by (simp only: of_nat_mult)
  then have "int (r1 + g * a * k) mod int (g * n) = int r2 mod int (g * n)" by (simp only: mod_eq_dvd_iff)
  then show ?thesis by (metis of_nat_eq_iff zmod_int)
qed

lemma crt_correct:
  assumes "1 \<le> m1" "1 \<le> m2"
  shows "case crt r1 m1 r2 m2 of
      None \<Rightarrow> \<forall>x. \<not> (x mod m1 = r1 mod m1 \<and> x mod m2 = r2 mod m2)
    | Some None \<Rightarrow> 2 ^ 64 \<le> lcm m1 m2
    | Some (Some (x, l)) \<Rightarrow> l = lcm m1 m2 \<and> x < l \<and> x mod m1 = r1 mod m1 \<and> x mod m2 = r2 mod m2"
proof -
  define s1 s2 g n where "s1 = r1 mod m1" and "s2 = r2 mod m2" and "g = gcd m1 m2" and "n = m2 div g"
  have g: "0 < g" "g dvd m1" "g dvd m2" using assms by (auto simp: g_def)
  have m: "m1 = g * (m1 div g)" "m2 = g * n" using g by (simp_all add: n_def)
  have n: "1 \<le> n" using m(2) assms(2) by (cases n) auto
  have l: "(m1 div g) * m2 = lcm m1 m2" using lcm_by_gcd [of m1 m2] assms by (simp add: g_def)
  have lp: "0 < lcm m1 m2" using assms by (simp add: lcm_pos_nat)
  have res: "z mod m1 = s1 \<Longrightarrow> (z mod lcm m1 m2) mod m1 = s1" "z mod m2 = s2 \<Longrightarrow> (z mod lcm m1 m2) mod m2 = s2" for z
    by (simp_all add: mod_mod_cancel)
  have s: "s1 mod m1 = s1" "s2 mod m2 = s2" by (simp_all add: s1_def s2_def)
  define k where "k = (if n = 1 then Some 0
      else let d = ((int s2 - int s1) div int g) mod int n
           in case mod_inverse (m1 div g) n of None \<Rightarrow> None | Some iv \<Rightarrow> Some ((nat d * iv) mod n))"
  have u: "crt r1 m1 r2 m2 =
      (if s1 mod g \<noteq> s2 mod g then None
       else if lcm m1 m2 \<ge> 2 ^ 64 then Some None
       else case k of None \<Rightarrow> None | Some k \<Rightarrow> Some (Some ((s1 + m1 * k) mod lcm m1 m2, lcm m1 m2)))"
    unfolding crt_def Let_def s1_def s2_def k_def n_def g_def gcd_loop_correct l [unfolded g_def] by simp
  show ?thesis
  proof (cases "s1 mod g = s2 mod g")
    case False
    have "x mod g = s1 mod g" "x mod g = s2 mod g" if "x mod m1 = s1" "x mod m2 = s2" for x
      using that g(2,3) by (metis mod_mod_cancel)+
    then show ?thesis using False by (auto simp: u s1_def s2_def)
  next
    case eq: True
    have k: "\<exists>k'. k = Some k' \<and> (s1 + m1 * k') mod m2 = s2"
    proof (cases "n = 1")
      case True
      then have "m2 = g" using m(2) by simp
      then show ?thesis using True eq s(2) by (simp add: k_def)
    next
      case False
      then have n2: "2 \<le> n" using n by simp
      have "coprime (m1 div g) n" unfolding n_def g_def using assms by (intro div_gcd_coprime) auto
      then obtain iv where iv: "mod_inverse (m1 div g) n = Some iv" "((m1 div g) * iv) mod n = 1"
        using mod_inverse_correct [OF n2] by (cases "mod_inverse (m1 div g) n") auto
      then show ?thesis
        using crt_step [OF g(1) n2 eq iv(2) refl] m False s(2) by (simp add: k_def)
    qed
    have "(s1 + m1 * k') mod m1 = s1" for k' using s(1) by simp
    then show ?thesis
      using k eq res lp by (auto simp: u s1_def [symmetric] s2_def [symmetric])
  qed
qed


section \<open>Snapping to a residue class\<close>

lemma okw_cmp:
  assumes "okw w a" "okw w b"
  shows "bv_ult a b \<longleftrightarrow> bv_val a < bv_val b" "bv_ule a b \<longleftrightarrow> bv_val a \<le> bv_val b"
    "bv_slt a b \<longleftrightarrow> sem_signed w (bv_val a) < sem_signed w (bv_val b)"
    "bv_sle a b \<longleftrightarrow> sem_signed w (bv_val a) \<le> sem_signed w (bv_val b)"
  using assms cmp_unchecked_correct [of a b]
  by (auto simp: okw_def bv_ult_def bv_ule_def bv_slt_def bv_sle_def sem_cmp_def)

lemma okw_minmax:
  assumes "okw w a" "okw w b"
  shows "okw w (bv_umin a b)" "bv_val (bv_umin a b) = min (bv_val a) (bv_val b)"
    "okw w (bv_umax a b)" "bv_val (bv_umax a b) = max (bv_val a) (bv_val b)"
    "okw w (bv_smin2 a b)"
    "sem_signed w (bv_val (bv_smin2 a b)) = min (sem_signed w (bv_val a)) (sem_signed w (bv_val b))"
    "okw w (bv_smax2 a b)"
    "sem_signed w (bv_val (bv_smax2 a b)) = max (sem_signed w (bv_val a)) (sem_signed w (bv_val b))"
  using assms by (auto simp: bv_umin_def bv_umax_def bv_smin2_def bv_smax2_def okw_cmp [OF assms])

lemma okw_sub:
  assumes "okw w a" "okw w b" "bv_val b \<le> bv_val a"
  shows "okw w (bin_unchecked BSub a b)" "bv_val (bin_unchecked BSub a b) = bv_val a - bv_val b"
proof -
  show "okw w (bin_unchecked BSub a b)" using okw_bin(1) [OF assms(1,2)] .
  have e: "bv_val a + (2 ^ w - bv_val b) = (bv_val a - bv_val b) + 2 ^ w"
    using assms(3) okwD(4) [OF assms(2)] by simp
  have "(bv_val a + (2 ^ w - bv_val b)) mod 2 ^ w = bv_val a - bv_val b"
    unfolding e using okwD(4) [OF assms(1)] by simp
  then show "bv_val (bin_unchecked BSub a b) = bv_val a - bv_val b"
    using okw_bin(2) [OF assms(1,2), of BSub] by (simp only: sem_bin_def BinOp.case)
qed

lemma small_word_val:
  assumes "width_ok w" "d < 2 ^ 64" "d < 2 ^ w"
  shows "bv_val (wrapping_from_u64 w (word_of_nat d)) = d"
  using wrapping_from_u64_val(2) [OF assms(1), of "word_of_nat d"] assms(2,3)
  by (simp add: unsigned_of_nat take_bit_nat_eq_self)

lemma small_guard:
  fixes d :: nat
  assumes "width_ok w" "d < 2 ^ 64"
  shows "w < 64 \<and> d div 2 ^ w \<noteq> 0 \<longleftrightarrow> 2 ^ w \<le> d"
proof (cases "w < 64")
  case True
  then show ?thesis by (auto simp: div_eq_0_iff)
next
  case False
  then have "(2::nat) ^ 64 \<le> 2 ^ w" by (intro power_increasing) auto
  then show ?thesis using False assms(2) by auto
qed

lemma add_small_correct:
  assumes "okw w v" "d < 2 ^ 64"
  shows "case add_small v d of
      None \<Rightarrow> 2 ^ w \<le> bv_val v + d | Some r \<Rightarrow> okw w r \<and> bv_val r = bv_val v + d"
proof (cases "2 ^ w \<le> d")
  case True
  then show ?thesis
    using small_guard [OF okwD(3) [OF assms(1)] assms(2)] okwD(2) [OF assms(1)] by (simp add: add_small_def)
next
  case False
  define c where "c = wrapping_from_u64 w (word_of_nat d)"
  define r where "r = bin_unchecked BAdd v c"
  have c: "okw w c" "bv_val c = d"
    using small_word_val [OF okwD(3) [OF assms(1)] assms(2)] wrapping_from_u64_val(1) [OF okwD(3) [OF assms(1)]] False
    by (simp_all add: c_def)
  have r: "okw w r" "bv_val r = (bv_val v + d) mod 2 ^ w"
    using okw_bin [OF assms(1) c(1), of BAdd] c(2) by (simp_all add: r_def sem_bin_def)
  have e: "add_small v d = (if bv_ule v r then Some r else None)"
    using small_guard [OF okwD(3) [OF assms(1)] assms(2)] okwD(2) [OF assms(1)] False
    by (auto simp: add_small_def Let_def r_def c_def)
  have v: "bv_val v < 2 ^ w" using okwD(4) [OF assms(1)] .
  show ?thesis
  proof (cases "bv_val v + d < 2 ^ w")
    case True
    then show ?thesis using r by (simp add: e okw_cmp(2) [OF assms(1) r(1)])
  next
    case over: False
    then have "(bv_val v + d) mod 2 ^ w = bv_val v + d - 2 ^ w" using v False by (simp add: mod_if)
    then show ?thesis using r over v False by (simp add: e okw_cmp(2) [OF assms(1) r(1)])
  qed
qed

lemma sub_small_correct:
  assumes "okw w v" "d < 2 ^ 64"
  shows "case sub_small v d of
      None \<Rightarrow> bv_val v < d | Some r \<Rightarrow> okw w r \<and> bv_val r + d = bv_val v"
proof (cases "2 ^ w \<le> d")
  case True
  then show ?thesis
    using small_guard [OF okwD(3) [OF assms(1)] assms(2)] okwD(2) [OF assms(1)] okwD(4) [OF assms(1)]
    by (simp add: sub_small_def)
next
  case False
  define c where "c = wrapping_from_u64 w (word_of_nat d)"
  define r where "r = bin_unchecked BSub v c"
  have c: "okw w c" "bv_val c = d"
    using small_word_val [OF okwD(3) [OF assms(1)] assms(2)] wrapping_from_u64_val(1) [OF okwD(3) [OF assms(1)]] False
    by (simp_all add: c_def)
  have r: "okw w r" "bv_val r = (bv_val v + (2 ^ w - d)) mod 2 ^ w"
    using okw_bin [OF assms(1) c(1), of BSub] c(2) by (simp_all add: r_def sem_bin_def)
  have e: "sub_small v d = (if bv_ule r v then Some r else None)"
    using small_guard [OF okwD(3) [OF assms(1)] assms(2)] okwD(2) [OF assms(1)] False
    by (auto simp: sub_small_def Let_def r_def c_def)
  have v: "bv_val v < 2 ^ w" using okwD(4) [OF assms(1)] .
  show ?thesis
  proof (cases "d \<le> bv_val v")
    case True
    have "bv_val r = bv_val v - d"
      using okw_sub(2) [OF assms(1) c(1)] True c(2) by (simp add: r_def)
    then show ?thesis using r True by (simp add: e okw_cmp(2) [OF r(1) assms(1)])
  next
    case under: False
    then have "(bv_val v + (2 ^ w - d)) mod 2 ^ w = bv_val v + (2 ^ w - d)" using v by simp
    then show ?thesis using r under v False by (simp add: e okw_cmp(2) [OF r(1) assms(1)])
  qed
qed

lemma residue_up:
  fixes L r m x :: nat
  assumes "0 < m"
  defines "d \<equiv> (r mod m + m - L mod m) mod m"
  shows "d < m" "(L + d) mod m = r mod m" "L \<le> x \<Longrightarrow> x mod m = r mod m \<Longrightarrow> L + d \<le> x"
proof -
  show "d < m" using assms by simp
  have l: "L mod m \<le> m" using assms(1) by (simp add: less_imp_le)
  have "(L + d) mod m = (L mod m + (r mod m + m - L mod m)) mod m"
    by (simp add: d_def mod_simps)
  also have "L mod m + (r mod m + m - L mod m) = r mod m + m" using l by simp
  finally show ld: "(L + d) mod m = r mod m" by simp
  assume x: "L \<le> x" "x mod m = r mod m"
  show "L + d \<le> x"
  proof (rule ccontr)
    assume "\<not> L + d \<le> x"
    moreover have "m dvd (L + d) - x" if "x \<le> L + d"
      using that x(2) ld by (metis mod_eq_dvd_iff_nat)
    ultimately have "m dvd (L + d) - x" "0 < (L + d) - x" "(L + d) - x \<le> d" using x(1) by auto
    then show False using \<open>d < m\<close> by (meson dvd_imp_le le_less_trans not_le)
  qed
qed

lemma residue_down:
  fixes H r m x :: nat
  assumes "0 < m"
  defines "d \<equiv> (H mod m + m - r mod m) mod m"
  shows "d < m" "d \<le> H \<Longrightarrow> (H - d) mod m = r mod m" "x \<le> H \<Longrightarrow> x mod m = r mod m \<Longrightarrow> x + d \<le> H"
proof -
  show dm: "d < m" using assms by simp
  have "r mod m \<le> m" using assms(1) by (simp add: less_imp_le)
  then have rd: "(y + d) mod m = H mod m" if "y mod m = r mod m" for y
  proof -
    have "(y + d) mod m = (r mod m + (H mod m + m - r mod m)) mod m"
      using that by (metis d_def mod_add_left_eq mod_add_right_eq)
    also have "r mod m + (H mod m + m - r mod m) = H mod m + m" using \<open>r mod m \<le> m\<close> by simp
    finally show ?thesis by simp
  qed
  show "d \<le> H \<Longrightarrow> (H - d) mod m = r mod m"
  proof -
    assume le: "d \<le> H"
    have "(r mod m + d) mod m = (H - d + d) mod m" using rd [of "r mod m"] le by simp
    then have "int (r mod m + d) mod int m = int (H - d + d) mod int m"
      by (simp only: zmod_int [symmetric])
    then have "int m dvd int (r mod m + d) - int (H - d + d)" by (simp only: mod_eq_dvd_iff)
    then have "int m dvd int (r mod m) - int (H - d)" by simp
    then have "int (r mod m) mod int m = int (H - d) mod int m" by (simp only: mod_eq_dvd_iff)
    then show ?thesis by (metis mod_mod_trivial of_nat_eq_iff zmod_int)
  qed
  assume x: "x \<le> H" "x mod m = r mod m"
  show "x + d \<le> H"
  proof (rule ccontr)
    assume "\<not> x + d \<le> H"
    moreover have "m dvd (x + d) - H" if "H \<le> x + d"
      using that rd [OF x(2)] by (metis mod_eq_dvd_iff_nat)
    ultimately have "m dvd (x + d) - H" "0 < (x + d) - H" "(x + d) - H \<le> d" using x(1) by auto
    then show False using dm by (meson dvd_imp_le le_less_trans not_le)
  qed
qed

lemma snap_up_correct:
  assumes "okw w lo" "1 \<le> m" "m < 2 ^ 64"
  shows "case snap_up lo r m of
      None \<Rightarrow> \<forall>x<2 ^ w. bv_val lo \<le> x \<longrightarrow> x mod m \<noteq> r mod m
    | Some v \<Rightarrow> okw w v \<and> bv_val lo \<le> bv_val v \<and> bv_val v mod m = r mod m \<and>
        (\<forall>x. bv_val lo \<le> x \<longrightarrow> x mod m = r mod m \<longrightarrow> bv_val v \<le> x)"
proof (cases "m = 1")
  case False
  define d where "d = (r mod m + m - bv_val lo mod m) mod m"
  have m: "0 < m" using assms(2) by simp
  note R = residue_up [OF m, where r = r and L = "bv_val lo", folded d_def]
  have s: "snap_up lo r m = add_small lo d"
    using False assms(2) bv_rem_correct [OF assms(1) m] by (simp add: snap_up_def d_def)
  have "d < 2 ^ 64" using R(1) assms(3) by simp
  then show ?thesis
    using add_small_correct [OF assms(1), of d] R(2,3) by (fastforce simp: s split: option.splits)
qed (use assms in \<open>simp add: snap_up_def\<close>)

lemma snap_down_correct:
  assumes "okw w hi" "1 \<le> m" "m < 2 ^ 64"
  shows "case snap_down hi r m of
      None \<Rightarrow> \<forall>x. x \<le> bv_val hi \<longrightarrow> x mod m \<noteq> r mod m
    | Some v \<Rightarrow> okw w v \<and> bv_val v \<le> bv_val hi \<and> bv_val v mod m = r mod m \<and>
        (\<forall>x. x \<le> bv_val hi \<longrightarrow> x mod m = r mod m \<longrightarrow> x \<le> bv_val v)"
proof (cases "m = 1")
  case False
  define d where "d = (bv_val hi mod m + m - r mod m) mod m"
  have m: "0 < m" using assms(2) by simp
  note R = residue_down [OF m, where r = r and H = "bv_val hi", folded d_def]
  have s: "snap_down hi r m = sub_small hi d"
    using False assms(2) bv_rem_correct [OF assms(1) m] by (simp add: snap_down_def d_def)
  have d: "d < 2 ^ 64" using R(1) assms(3) by simp
  show ?thesis
  proof (cases "sub_small hi d")
    case None
    then show ?thesis using sub_small_correct [OF assms(1) d] R(3) by (fastforce simp: s)
  next
    case (Some v)
    then have v: "okw w v" "bv_val v + d = bv_val hi" using sub_small_correct [OF assms(1) d] by simp_all
    then have "bv_val v = bv_val hi - d" "d \<le> bv_val hi" by simp_all
    then show ?thesis using Some v R(2,3) by (fastforce simp: s)
  qed
qed (use assms in \<open>simp add: snap_down_def\<close>)


section \<open>Strided intervals as sets\<close>

definition ur_ok :: "nat \<Rightarrow> URange \<Rightarrow> bool" where
  "ur_ok w u \<longleftrightarrow> okw w (ur_lo u) \<and> okw w (ur_hi u) \<and> bv_val (ur_lo u) \<le> bv_val (ur_hi u) \<and>
     (if ur_lo u = ur_hi u then ur_stride u = 0
      else 1 \<le> ur_stride u \<and> ur_stride u < 2 ^ 64 \<and> ur_stride u dvd bv_val (ur_hi u) - bv_val (ur_lo u))"

definition ur_mem :: "URange \<Rightarrow> nat \<Rightarrow> bool" where
  "ur_mem u x \<longleftrightarrow> bv_val (ur_lo u) \<le> x \<and> x \<le> bv_val (ur_hi u) \<and> ur_stride u dvd x - bv_val (ur_lo u)"

lemma ur_okD:
  assumes "ur_ok w u"
  shows "okw w (ur_lo u)" "okw w (ur_hi u)" "bv_val (ur_lo u) \<le> bv_val (ur_hi u)" "ur_width u = w"
    "ur_stride u < 2 ^ 64" "ur_stride u dvd bv_val (ur_hi u) - bv_val (ur_lo u)" "width_ok w"
    "ur_stride u = 0 \<longleftrightarrow> ur_lo u = ur_hi u"
  using assms okwD(2,3) by (auto simp: ur_ok_def ur_width_def split: if_splits)

lemma ur_mem_bounds: "ur_ok w u \<Longrightarrow> ur_mem u (bv_val (ur_lo u)) \<and> ur_mem u (bv_val (ur_hi u))"
  using ur_okD by (auto simp: ur_mem_def)

lemma ur_mem_less: "ur_ok w u \<Longrightarrow> ur_mem u x \<Longrightarrow> x < 2 ^ w"
  using okwD(4) [OF ur_okD(2)] by (fastforce simp: ur_mem_def)

lemma ur_mem_constant:
  assumes "ur_ok w u" "ur_stride u = 0"
  shows "ur_mem u x \<longleftrightarrow> x = bv_val (ur_lo u)"
  using ur_okD(8) [OF assms(1)] assms(2) by (auto simp: ur_mem_def)

lemma ur_mem_class:
  assumes "ur_stride u \<noteq> 0"
  shows "ur_mem u x \<longleftrightarrow> bv_val (ur_lo u) \<le> x \<and> x \<le> bv_val (ur_hi u) \<and>
    x mod ur_stride u = bv_val (ur_lo u) mod ur_stride u"
  using mod_eq_dvd_iff_nat [of "bv_val (ur_lo u)" x "ur_stride u"] by (auto simp: ur_mem_def)

lemma ur_contains_iff:
  assumes "ur_ok w u" "bv_ok v"
  shows "ur_contains u v \<longleftrightarrow> bv_width v = w \<and> ur_mem u (bv_val v)"
proof (cases "bv_width v = w")
  case True
  then have v: "okw w v" using assms(2) by (simp add: okw_def)
  note u = ur_okD [OF assms(1)]
  have "bv_rem (bin_unchecked BSub v (ur_lo u)) (ur_stride u) = 0 \<longleftrightarrow> ur_stride u dvd bv_val v - bv_val (ur_lo u)"
    if "bv_val (ur_lo u) \<le> bv_val v" "1 < ur_stride u"
    using that okw_sub [OF v u(1)] bv_rem_correct [of w _ "ur_stride u"] by (simp add: dvd_eq_mod_eq_0)
  moreover have "ur_stride u = 0 \<Longrightarrow> bv_val (ur_lo u) = bv_val (ur_hi u)" using u(8) by simp
  moreover have "ur_stride u \<le> 1 \<longleftrightarrow> ur_stride u = 0 \<or> ur_stride u = 1" by auto
  ultimately show ?thesis
    using True u(4) okw_cmp(2) [OF u(1) v] okw_cmp(2) [OF v u(2)]
    by (auto simp: ur_contains_def ur_mem_def)
qed (simp add: ur_contains_def ur_okD(4) [OF assms(1)])

lemma ur_full_correct:
  assumes "width_ok w"
  shows "ur_ok w (ur_full w)" "ur_mem (ur_full w) x \<longleftrightarrow> x < 2 ^ w"
proof -
  have "bv_zero w \<noteq> bv_ones w"
    using const_val [OF assms] one_less_power [of "2::nat" w] width_okD(1) [OF assms] by fastforce
  then show "ur_ok w (ur_full w)" using okw_const [OF assms] const_val [OF assms] by (simp add: ur_ok_def ur_full_def)
  show "ur_mem (ur_full w) x \<longleftrightarrow> x < 2 ^ w"
    using const_val [OF assms] by (auto simp: ur_mem_def ur_full_def intro: le_less_trans)
qed

lemma ur_constant_correct:
  assumes "okw w v"
  shows "ur_ok w (ur_constant v)" "ur_mem (ur_constant v) x \<longleftrightarrow> x = bv_val v"
  using assms by (auto simp: ur_ok_def ur_constant_def ur_mem_def)

text \<open>A range survives its cached form.\<close>

lemma ur_from_raw_round: "ur_ok w u \<Longrightarrow> ur_from_raw (ur_lo u) (ur_hi u) (ur_stride u) = Some u"
  by (cases u) (auto simp: ur_ok_def ur_from_raw_def ur_from_parts_def Let_def)

lemma ur_from_parts_correct:
  assumes "okw w lo" "okw w hi" "bv_val lo \<le> bv_val hi" "1 \<le> s" "s < 2 ^ 64" "s dvd bv_val hi - bv_val lo"
  shows "ur_ok w (ur_from_parts lo hi s)"
    "ur_mem (ur_from_parts lo hi s) x \<longleftrightarrow> bv_val lo \<le> x \<and> x \<le> bv_val hi \<and> s dvd x - bv_val lo"
  using assms by (auto simp: ur_ok_def ur_mem_def ur_from_parts_def Let_def max_def)

lemma ur_snapped_correct:
  assumes "okw w lo" "okw w hi" "1 \<le> m" "m < 2 ^ 64"
  shows "case ur_snapped lo hi r m of
      None \<Rightarrow> \<forall>x. \<not> (bv_val lo \<le> x \<and> x \<le> bv_val hi \<and> x mod m = r mod m)
    | Some u \<Rightarrow> ur_ok w u \<and> (\<forall>x. ur_mem u x \<longleftrightarrow> bv_val lo \<le> x \<and> x \<le> bv_val hi \<and> x mod m = r mod m)"
proof (cases "snap_up lo r m")
  case None
  have "x < 2 ^ w" if "x \<le> bv_val hi" for x using that okwD(4) [OF assms(2)] by simp
  then show ?thesis using None snap_up_correct [OF assms(1,3,4), of r] by (auto simp: ur_snapped_def)
next
  case up: (Some l)
  then have l: "okw w l" "bv_val lo \<le> bv_val l" "bv_val l mod m = r mod m"
    "\<And>x. bv_val lo \<le> x \<Longrightarrow> x mod m = r mod m \<Longrightarrow> bv_val l \<le> x"
    using snap_up_correct [OF assms(1,3,4), of r] by auto
  show ?thesis
  proof (cases "snap_down hi r m")
    case None
    then show ?thesis using up snap_down_correct [OF assms(2,3,4), of r] by (auto simp: ur_snapped_def)
  next
    case down: (Some h)
    then have h: "okw w h" "bv_val h \<le> bv_val hi" "bv_val h mod m = r mod m"
      "\<And>x. x \<le> bv_val hi \<Longrightarrow> x mod m = r mod m \<Longrightarrow> x \<le> bv_val h"
      using snap_down_correct [OF assms(2,3,4), of r] by auto
    have e: "ur_snapped lo hi r m = (if bv_val l \<le> bv_val h then Some (ur_from_parts l h m) else None)"
      by (simp add: ur_snapped_def up down okw_cmp(2) [OF l(1) h(1)])
    have mem: "bv_val lo \<le> x \<and> x \<le> bv_val hi \<and> x mod m = r mod m \<longleftrightarrow>
        bv_val l \<le> x \<and> x \<le> bv_val h \<and> x mod m = r mod m" for x
      using l(2,4) h(2,4) by (meson le_trans)
    show ?thesis
    proof (cases "bv_val l \<le> bv_val h")
      case True
      then have "m dvd bv_val h - bv_val l" using l(3) h(3) by (metis mod_eq_dvd_iff_nat)
      note F = ur_from_parts_correct [OF l(1) h(1) True assms(3,4) this]
      have "ur_mem (ur_from_parts l h m) x \<longleftrightarrow> bv_val l \<le> x \<and> x \<le> bv_val h \<and> x mod m = r mod m" for x
        using F(2) mod_eq_dvd_iff_nat [of "bv_val l" x m] l(3) by auto
      then show ?thesis using True F(1) mem by (simp add: e)
    next
      case False
      then show ?thesis using mem by (fastforce simp: e)
    qed
  qed
qed

lemma lcm_residue:
  "(x::nat) mod s = y mod s \<Longrightarrow> x mod t = y mod t \<Longrightarrow> x mod lcm s t = y mod lcm s t"
proof -
  assume "x mod s = y mod s" "x mod t = y mod t"
  then have "int s dvd int x - int y" "int t dvd int x - int y" by (metis mod_eq_dvd_iff zmod_int)+
  then have "lcm (int s) (int t) dvd int x - int y" by (rule lcm_least)
  then have "int x mod int (lcm s t) = int y mod int (lcm s t)" by (simp add: mod_eq_dvd_iff)
  then show ?thesis by (metis of_nat_eq_iff zmod_int)
qed

lemma ur_meet_correct:
  assumes "ur_ok w u" "ur_ok w v"
  shows "case ur_meet u v of
      None \<Rightarrow> \<forall>x. \<not> (ur_mem u x \<and> ur_mem v x)
    | Some m \<Rightarrow> ur_ok w m \<and> (\<forall>x. ur_mem u x \<and> ur_mem v x \<longrightarrow> ur_mem m x) \<and>
        (lcm (ur_stride u) (ur_stride v) < 2 ^ 64 \<longrightarrow> (\<forall>x. ur_mem m x \<longrightarrow> ur_mem u x \<and> ur_mem v x))"
proof -
  note U = ur_okD [OF assms(1)] and V = ur_okD [OF assms(2)]
  have cu: "ur_contains u (ur_lo v) \<longleftrightarrow> ur_mem u (bv_val (ur_lo v))"
    using ur_contains_iff [OF assms(1) okwD(1) [OF V(1)]] okwD(2) [OF V(1)] by simp
  have cv: "ur_contains v (ur_lo u) \<longleftrightarrow> ur_mem v (bv_val (ur_lo u))"
    using ur_contains_iff [OF assms(2) okwD(1) [OF U(1)]] okwD(2) [OF U(1)] by simp
  consider "ur_stride u = 0" | "ur_stride u \<noteq> 0" "ur_stride v = 0" | "ur_stride u \<noteq> 0" "ur_stride v \<noteq> 0" by blast
  then show ?thesis
  proof cases
    case 1
    then show ?thesis
      using cv ur_mem_constant [OF assms(1) 1] assms U(4) V(4) by (auto simp: ur_meet_def)
  next
    case 2
    then show ?thesis
      using cu ur_mem_constant [OF assms(2) 2(2)] assms U(4) V(4) by (auto simp: ur_meet_def)
  next
    case 3
    define lo hi where "lo = bv_umax (ur_lo u) (ur_lo v)" and "hi = bv_umin (ur_hi u) (ur_hi v)"
    note L = okw_minmax(3,4) [OF U(1) V(1), folded lo_def] and H = okw_minmax(1,2) [OF U(2) V(2), folded hi_def]
    define s t where "s = ur_stride u" and "t = ur_stride v"
    have st: "1 \<le> s" "1 \<le> t" "s < 2 ^ 64" "t < 2 ^ 64" using 3 U(5) V(5) by (auto simp: s_def t_def)
    define r1 r2 where "r1 = bv_val (ur_lo u) mod s" and "r2 = bv_val (ur_lo v) mod t"
    have rem: "bv_rem (ur_lo u) s = r1" "bv_rem (ur_lo v) t = r2"
      using bv_rem_correct [OF U(1), of s] bv_rem_correct [OF V(1), of t] st by (simp_all add: r1_def r2_def)
    define cls where "cls = (\<lambda>c. case c of Some class \<Rightarrow> class | None \<Rightarrow> if s \<ge> t then (r1, s) else (r2, t))"
    have e: "ur_meet u v = (if bv_val hi < bv_val lo then None
        else case crt r1 s r2 t of None \<Rightarrow> None | Some c \<Rightarrow> let (r, m) = cls c in ur_snapped lo hi r m)"
      unfolding ur_meet_def Let_def lo_def [symmetric] hi_def [symmetric] s_def [symmetric] t_def [symmetric]
        rem okw_cmp(1) [OF H(1) L(1)] cls_def
      using 3 U(4) V(4) by (simp add: s_def t_def)
    have both: "ur_mem u x \<and> ur_mem v x \<longleftrightarrow> bv_val lo \<le> x \<and> x \<le> bv_val hi \<and> x mod s = r1 mod s \<and> x mod t = r2 mod t" for x
      using ur_mem_class [OF 3(1)] ur_mem_class [OF 3(2)] L(2) H(2) by (auto simp: s_def t_def r1_def r2_def)
    show ?thesis
    proof (cases "bv_val hi < bv_val lo")
      case True
      then show ?thesis using both by (auto simp: e)
    next
      case False
      show ?thesis
      proof (cases "crt r1 s r2 t")
        case None
        then show ?thesis using crt_correct [OF st(1,2), of r1 r2] both False by (auto simp: e)
      next
        case (Some c)
        obtain r m where c: "cls c = (r, m)" by fastforce
        have C: "1 \<le> m \<and> m < 2 ^ 64 \<and>
            (\<forall>x. x mod s = r1 mod s \<and> x mod t = r2 mod t \<longrightarrow> x mod m = r mod m) \<and>
            (lcm s t < 2 ^ 64 \<longrightarrow> (\<forall>x. x mod m = r mod m \<longrightarrow> x mod s = r1 mod s \<and> x mod t = r2 mod t))"
        proof (cases c)
          case None
          then have "2 ^ 64 \<le> lcm s t" using crt_correct [OF st(1,2), of r1 r2] Some by simp
          then show ?thesis using c None st by (auto simp: cls_def split: if_splits)
        next
          case (Some xl)
          obtain x0 l where xl: "xl = (x0, l)" by fastforce
          have K: "l = lcm s t" "x0 < l" "x0 mod s = r1 mod s" "x0 mod t = r2 mod t"
            using crt_correct [OF st(1,2), of r1 r2] \<open>crt r1 s r2 t = Some c\<close> Some xl by simp_all
          have rm: "r = x0" "m = l" using c Some xl by (simp_all add: cls_def)
          have l64: "l < 2 ^ 64"
            using \<open>crt r1 s r2 t = Some c\<close> Some xl lcm_by_gcd [of s t] st K(1)
            by (auto simp: crt_def Let_def gcd_loop_correct split: if_splits option.splits)
          have up: "x mod l = x0 mod l" if "x mod s = r1 mod s" "x mod t = r2 mod t" for x
            using lcm_residue [of x s x0 t] that K by simp
          have dn: "x mod s = r1 mod s \<and> x mod t = r2 mod t" if "x mod l = x0 mod l" for x
            using that K by (metis dvd_lcm1 dvd_lcm2 mod_mod_cancel)
          have "1 \<le> l" using K(2) by simp
          then show ?thesis unfolding rm using l64 up dn by blast
        qed
        then have m: "1 \<le> m" "m < 2 ^ 64" by simp_all
        have R: "ur_meet u v = ur_snapped lo hi r m" using Some c False by (simp add: e)
        note S = ur_snapped_correct [OF L(1) H(1) m, of r]
        show ?thesis
        proof (cases "ur_snapped lo hi r m")
          case None
          then have "\<And>x. \<not> (bv_val lo \<le> x \<and> x \<le> bv_val hi \<and> x mod m = r mod m)" using S by simp
          then have "\<not> (ur_mem u x \<and> ur_mem v x)" for x unfolding both using C by blast
          then show ?thesis using R None by simp
        next
          case (Some y)
          then have y: "ur_ok w y" "\<And>x. ur_mem y x \<longleftrightarrow> bv_val lo \<le> x \<and> x \<le> bv_val hi \<and> x mod m = r mod m"
            using S by simp_all
          have "ur_mem y x" if "ur_mem u x \<and> ur_mem v x" for x using that C unfolding both y(2) by blast
          moreover have "ur_mem u x \<and> ur_mem v x" if l: "lcm s t < 2 ^ 64" and x: "ur_mem y x" for x
          proof -
            have "x mod m = r mod m" "bv_val lo \<le> x" "x \<le> bv_val hi" using x unfolding y(2) by simp_all
            then show ?thesis
              unfolding both using C [THEN conjunct2, THEN conjunct2, THEN conjunct2, rule_format, OF l] by blast
          qed
          ultimately show ?thesis
            unfolding R Some option.case s_def [symmetric] t_def [symmetric] using y(1) by blast
        qed
      qed
    qed
  qed
qed

lemma ur_meet_class_correct:
  assumes "ur_ok w u" "1 \<le> m" "m < 2 ^ 64"
  shows "case ur_meet_class u r m of
      None \<Rightarrow> \<forall>x. \<not> (ur_mem u x \<and> x mod m = r mod m)
    | Some v \<Rightarrow> ur_ok w v \<and> (\<forall>x. ur_mem u x \<and> x mod m = r mod m \<longrightarrow> ur_mem v x) \<and>
        (\<forall>x. ur_mem v x \<longrightarrow> ur_mem u x)"
proof -
  note U = ur_okD [OF assms(1)]
  consider "m = 1" | "1 < m" "ur_stride u = 0" | "1 < m" "ur_stride u \<noteq> 0" using assms(2) by fastforce
  then show ?thesis
  proof cases
    case 1
    then show ?thesis using assms(1) by (simp add: ur_meet_class_def)
  next
    case 2
    then show ?thesis
      using assms(1) ur_mem_constant [OF assms(1) 2(2)] bv_rem_correct [OF U(1), of m] by (auto simp: ur_meet_class_def)
  next
    case 3
    define s where "s = ur_stride u"
    have s: "1 \<le> s" "s < 2 ^ 64" using 3 U(5) by (auto simp: s_def)
    define own where "own = bv_val (ur_lo u) mod s"
    have rem: "bv_rem (ur_lo u) s = own" using bv_rem_correct [OF U(1), of s] s by (simp add: own_def)
    define cls where "cls = (\<lambda>c. case c of Some class \<Rightarrow> class | None \<Rightarrow> (own, s))"
    have e: "ur_meet_class u r m = (case crt own s r m of None \<Rightarrow> None
        | Some c \<Rightarrow> let (r, m) = cls c in ur_snapped (ur_lo u) (ur_hi u) r m)"
      unfolding ur_meet_class_def Let_def s_def [symmetric] rem cls_def using 3 by (simp add: s_def)
    have mem: "ur_mem u x \<longleftrightarrow> bv_val (ur_lo u) \<le> x \<and> x \<le> bv_val (ur_hi u) \<and> x mod s = own mod s" for x
      using ur_mem_class [OF 3(2)] by (simp add: s_def own_def)
    show ?thesis
    proof (cases "crt own s r m")
      case None
      then show ?thesis using crt_correct [OF s(1) assms(2), of own r] mem by (auto simp: e)
    next
      case (Some c)
      obtain r' m' where c: "cls c = (r', m')" by fastforce
      have C: "1 \<le> m' \<and> m' < 2 ^ 64 \<and> (\<forall>x. x mod s = own mod s \<and> x mod m = r mod m \<longrightarrow> x mod m' = r' mod m') \<and>
          (\<forall>x. x mod m' = r' mod m' \<longrightarrow> x mod s = own mod s)"
      proof (cases c)
        case None
        then show ?thesis using c s by (auto simp: cls_def)
      next
        case (Some xl)
        obtain x0 l where xl: "xl = (x0, l)" by fastforce
        have K: "l = lcm s m" "x0 < l" "x0 mod s = own mod s" "x0 mod m = r mod m"
          using crt_correct [OF s(1) assms(2), of own r] \<open>crt own s r m = Some c\<close> Some xl by simp_all
        have l64: "l < 2 ^ 64"
          using \<open>crt own s r m = Some c\<close> Some xl lcm_by_gcd [of s m] s K(1)
          by (auto simp: crt_def Let_def gcd_loop_correct split: if_splits option.splits)
        have up: "x mod l = x0 mod l" if "x mod s = own mod s" "x mod m = r mod m" for x
          using lcm_residue [of x s x0 m] that K by simp
        have dn: "x mod s = own mod s" if "x mod l = x0 mod l" for x
          using that K by (metis dvd_lcm1 mod_mod_cancel)
        have rm: "r' = x0" "m' = l" using c Some xl by (simp_all add: cls_def)
        have "1 \<le> l" using K(2) by simp
        then show ?thesis unfolding rm using l64 up dn by blast
      qed
      then have m: "1 \<le> m'" "m' < 2 ^ 64" by simp_all
      have R: "ur_meet_class u r m = ur_snapped (ur_lo u) (ur_hi u) r' m'" using Some c by (simp add: e)
      note S = ur_snapped_correct [OF U(1,2) m, of r']
      show ?thesis
      proof (cases "ur_snapped (ur_lo u) (ur_hi u) r' m'")
        case None
        then have "\<And>x. \<not> (bv_val (ur_lo u) \<le> x \<and> x \<le> bv_val (ur_hi u) \<and> x mod m' = r' mod m')"
          using S by simp
        then have "\<not> (ur_mem u x \<and> x mod m = r mod m)" for x unfolding mem using C by blast
        then show ?thesis using R None by simp
      next
        case (Some y)
        then have y: "ur_ok w y"
          "\<And>x. ur_mem y x \<longleftrightarrow> bv_val (ur_lo u) \<le> x \<and> x \<le> bv_val (ur_hi u) \<and> x mod m' = r' mod m'"
          using S by simp_all
        have "ur_mem y x" if "ur_mem u x \<and> x mod m = r mod m" for x using that C unfolding mem y(2) by blast
        moreover have "ur_mem u x" if "ur_mem y x" for x using that C unfolding mem y(2) by blast
        ultimately show ?thesis using R Some y(1) by simp
      qed
    qed
  qed
qed

lemma ur_within_correct:
  assumes "ur_ok w u" "ur_ok w v" "ur_within u v" "ur_mem u x"
  shows "ur_mem v x"
proof -
  note U = ur_okD [OF assms(1)] and V = ur_okD [OF assms(2)]
  have b: "bv_val (ur_lo v) \<le> bv_val (ur_lo u)" "bv_val (ur_hi u) \<le> bv_val (ur_hi v)"
    using assms(3) okw_cmp(2) [OF V(1) U(1)] okw_cmp(2) [OF U(2) V(2)] by (auto simp: ur_within_def split: if_splits)
  have x: "bv_val (ur_lo u) \<le> x" "x \<le> bv_val (ur_hi u)" "ur_stride u dvd x - bv_val (ur_lo u)"
    using assms(4) by (simp_all add: ur_mem_def)
  have "ur_stride v dvd x - bv_val (ur_lo v)"
  proof (cases "ur_stride v \<le> 1")
    case True
    then consider "ur_stride v = 1" | "ur_stride v = 0" by linarith
    then show ?thesis
    proof cases
      case 2
      then have "bv_val (ur_lo v) = bv_val (ur_hi v)" using V(8) by simp
      then show ?thesis using x b by simp
    qed simp
  next
    case False
    have "bv_rem (bin_unchecked BSub (ur_lo u) (ur_lo v)) (ur_stride v) = 0"
      and st: "ur_stride u = 0 \<or> ur_stride v dvd ur_stride u"
      using assms(3) False by (auto simp: ur_within_def Let_def split: if_splits)
    then have "ur_stride v dvd bv_val (ur_lo u) - bv_val (ur_lo v)"
      using okw_sub [OF U(1) V(1) b(1)] bv_rem_correct [of w _ "ur_stride v"] False by (simp add: dvd_eq_mod_eq_0)
    moreover have "ur_stride v dvd x - bv_val (ur_lo u)" using st x(3) by (auto intro: dvd_trans)
    moreover have "x - bv_val (ur_lo v) = (x - bv_val (ur_lo u)) + (bv_val (ur_lo u) - bv_val (ur_lo v))"
      using x(1) b(1) by simp
    ultimately show ?thesis by (metis dvd_add)
  qed
  then show ?thesis using x b by (simp add: ur_mem_def)
qed

lemma stride_of_correct:
  assumes "okw w d" "bv_val d \<noteq> 0"
  shows "1 \<le> stride_of d" "stride_of d < 2 ^ 64" "stride_of d dvd bv_val d"
proof -
  have tz: "2 ^ min (bv_trailing_zeros d) 63 dvd bv_val d"
  proof -
    have "bit (take_bit (bv_trailing_zeros d) (bv_val d)) i = bit 0 i" for i
      using bv_trailing_zeros(2) [OF assms(1), of i] by (auto simp: bit_take_bit_iff)
    then have "take_bit (bv_trailing_zeros d) (bv_val d) = 0" by (rule bit_eqI)
    then have "2 ^ bv_trailing_zeros d dvd bv_val d" by (simp add: take_bit_eq_0_iff)
    then show ?thesis using le_imp_power_dvd [of "min (bv_trailing_zeros d) 63" "bv_trailing_zeros d" 2]
      by (meson dvd_trans min.cobounded1)
  qed
  have p: "(2::nat) ^ min (bv_trailing_zeros d) 63 < 2 ^ 64"
    by (rule power_strict_increasing) auto
  have "stride_of d = (if bv_val d < 2 ^ 64 then bv_val d else 2 ^ min (bv_trailing_zeros d) 63)"
    using to_u64_correct [OF okwD(1) [OF assms(1)]] assms(2)
    by (auto simp: stride_of_def unsigned_of_nat take_bit_nat_eq_self word_less_nat_alt)
  then show "1 \<le> stride_of d" "stride_of d < 2 ^ 64" "stride_of d dvd bv_val d"
    using tz p assms(2) by auto
qed

lemma ur_hull_correct:
  assumes "ur_ok w u" "ur_ok w v"
  shows "ur_ok w (ur_hull u v)" "ur_mem u x \<or> ur_mem v x \<Longrightarrow> ur_mem (ur_hull u v) x"
proof -
  note U = ur_okD [OF assms(1)] and V = ur_okD [OF assms(2)]
  define lo hi mx where "lo = bv_umin (ur_lo u) (ur_lo v)" and "hi = bv_umax (ur_hi u) (ur_hi v)"
    and "mx = bv_umax (ur_lo u) (ur_lo v)"
  note L = okw_minmax(1,2) [OF U(1) V(1), folded lo_def] and H = okw_minmax(3,4) [OF U(2) V(2), folded hi_def]
    and M = okw_minmax(3,4) [OF U(1) V(1), folded mx_def]
  define apart where "apart = bin_unchecked BSub mx lo"
  have ap: "okw w apart" "bv_val apart = bv_val mx - bv_val lo"
    using okw_sub [OF M(1) L(1)] L(2) M(2) by (simp_all add: apart_def)
  define g where "g = gcd (ur_stride u) (ur_stride v)"
  define s where "s = (if g = 0 then stride_of apart else gcd g (bv_rem apart g))"
  have e: "ur_hull u v = (if lo = hi then ur_constant lo else ur_from_parts lo hi s)"
    unfolding ur_hull_def Let_def gcd_loop_correct lo_def [symmetric] hi_def [symmetric] mx_def [symmetric]
      apart_def [symmetric] g_def [symmetric] s_def [symmetric] ..
  have le: "bv_val lo \<le> bv_val hi" using L(2) H(2) U(3) V(3) by simp
  have "ur_ok w (ur_hull u v) \<and> (\<forall>x. ur_mem u x \<or> ur_mem v x \<longrightarrow> ur_mem (ur_hull u v) x)"
  proof (cases "lo = hi")
    case True
    have "x = bv_val lo" if "ur_mem u x \<or> ur_mem v x" for x
      using that True L(2) H(2) by (auto simp: ur_mem_def)
    then show ?thesis using True ur_constant_correct [OF L(1)] by (simp add: e)
  next
    case False
    have S: "1 \<le> s \<and> s < 2 ^ 64 \<and> s dvd ur_stride u \<and> s dvd ur_stride v \<and> s dvd bv_val apart"
    proof (cases "g = 0")
      case True
      then have z: "ur_stride u = 0" "ur_stride v = 0" by (simp_all add: g_def)
      then have "bv_val (ur_lo u) = bv_val (ur_hi u)" "bv_val (ur_lo v) = bv_val (ur_hi v)" using U(8) V(8) by simp_all
      moreover have "bv_val lo \<noteq> bv_val hi" using False okw_eqI [OF L(1) H(1)] by blast
      ultimately have "bv_val apart \<noteq> 0" using ap(2) L(2) H(2) M(2) by auto
      then show ?thesis using stride_of_correct [OF ap(1)] True z by (simp add: s_def)
    next
      case g0: False
      have "s = gcd g (bv_val apart)"
        using g0 bv_rem_correct [OF ap(1), of g] gcd_red_nat [of "bv_val apart" g] by (simp add: s_def gcd.commute)
      moreover have "g < 2 ^ 64"
      proof (cases "ur_stride u = 0")
        case True
        then show ?thesis using V(5) by (simp add: g_def)
      next
        case False
        then have "g \<le> ur_stride u" by (simp add: g_def)
        then show ?thesis using U(5) by simp
      qed
      moreover have "gcd g (bv_val apart) \<le> g" using g0 by simp
      moreover have "1 \<le> gcd g (bv_val apart)" using g0 by (simp add: Suc_leI)
      moreover have "gcd g (bv_val apart) dvd ur_stride u" "gcd g (bv_val apart) dvd ur_stride v"
        by (auto simp: g_def intro: dvd_trans)
      ultimately show ?thesis by simp
    qed
    have from_lo: "s dvd bv_val (ur_lo u) - bv_val lo" "s dvd bv_val (ur_lo v) - bv_val lo"
      using S ap(2) L(2) M(2) by (auto simp: min_def max_def split: if_splits)
    have sh: "s dvd x - bv_val lo" if "bv_val l \<le> x" "t dvd x - bv_val l" "s dvd t" "s dvd bv_val l - bv_val lo"
      "bv_val lo \<le> bv_val l" for x t l
    proof -
      have "x - bv_val lo = (x - bv_val l) + (bv_val l - bv_val lo)" using that by simp
      then show ?thesis using that(2-4) by (metis dvd_add dvd_trans)
    qed
    have lo_le: "bv_val lo \<le> bv_val (ur_lo u)" "bv_val lo \<le> bv_val (ur_lo v)" using L(2) by simp_all
    have mem: "s dvd x - bv_val lo" if "ur_mem u x \<or> ur_mem v x" for x
      using that sh [of "ur_lo u" x "ur_stride u"] sh [of "ur_lo v" x "ur_stride v"] S from_lo lo_le
      by (auto simp: ur_mem_def)
    have "bv_val hi = bv_val (ur_hi u) \<or> bv_val hi = bv_val (ur_hi v)" using H(2) by (auto simp: max_def)
    then have "s dvd bv_val hi - bv_val lo" using mem ur_mem_bounds [OF assms(1)] ur_mem_bounds [OF assms(2)] by metis
    note F = ur_from_parts_correct [OF L(1) H(1) le _ _ this]
    have "ur_mem (ur_from_parts lo hi s) x" if "ur_mem u x \<or> ur_mem v x" for x
    proof -
      have "bv_val lo \<le> x" "x \<le> bv_val hi" using that L(2) H(2) by (auto simp: ur_mem_def)
      then show ?thesis using F(2) [of x] S mem [OF that] by blast
    qed
    then show ?thesis using F(1) S False by (simp add: e)
  qed
  then show "ur_ok w (ur_hull u v)" "ur_mem u x \<or> ur_mem v x \<Longrightarrow> ur_mem (ur_hull u v) x" by blast+
qed

section \<open>Signed intervals as sets\<close>

definition sr_ok :: "nat \<Rightarrow> SRange \<Rightarrow> bool" where
  "sr_ok w s \<longleftrightarrow> okw w (sr_lo s) \<and> okw w (sr_hi s) \<and>
     sem_signed w (bv_val (sr_lo s)) \<le> sem_signed w (bv_val (sr_hi s))"

definition sr_mem :: "nat \<Rightarrow> SRange \<Rightarrow> nat \<Rightarrow> bool" where
  "sr_mem w s x \<longleftrightarrow> sem_signed w (bv_val (sr_lo s)) \<le> sem_signed w x \<and>
     sem_signed w x \<le> sem_signed w (bv_val (sr_hi s))"

lemma sr_okD:
  assumes "sr_ok w s"
  shows "okw w (sr_lo s)" "okw w (sr_hi s)" "sr_width s = w"
    "sem_signed w (bv_val (sr_lo s)) \<le> sem_signed w (bv_val (sr_hi s))"
  using assms okwD(2) by (auto simp: sr_ok_def sr_width_def)

lemma sem_signed_inj:
  assumes "x < 2 ^ w" "y < 2 ^ w" "sem_signed w x = sem_signed w y"
  shows "x = y"
  by (metis sem_of_int_signed assms)

lemma signed_const_val:
  assumes "width_ok w"
  shows "sem_signed w (bv_val (bv_smin w)) = - (2 ^ (w - 1))" "sem_signed w (bv_val (bv_smax w)) = 2 ^ (w - 1) - 1"
proof -
  obtain n where n: "w = Suc n" using width_okD(1) [OF assms] by (cases w) auto
  have "\<not> bit ((2::nat) ^ n - 1) n" using bit_nat_less [of "2 ^ n - 1" n n] by auto
  moreover have "bit ((2::nat) ^ n) n" by (simp add: bit_exp_iff)
  ultimately show "sem_signed w (bv_val (bv_smin w)) = - (2 ^ (w - 1))"
    "sem_signed w (bv_val (bv_smax w)) = 2 ^ (w - 1) - 1"
    using const_val [OF assms] bv_smax_correct [OF assms] by (simp_all add: n sem_signed_def of_nat_diff)
qed

lemma sr_contains_iff:
  assumes "sr_ok w s" "bv_ok v"
  shows "sr_contains s v \<longleftrightarrow> bv_width v = w \<and> sr_mem w s (bv_val v)"
proof (cases "bv_width v = w")
  case True
  then have "okw w v" using assms(2) by (simp add: okw_def)
  then show ?thesis
    using True sr_okD(3) [OF assms(1)] okw_cmp(4) [OF sr_okD(1) [OF assms(1)]] okw_cmp(4) [OF _ sr_okD(2) [OF assms(1)]]
    by (auto simp: sr_contains_def sr_mem_def)
qed (simp add: sr_contains_def sr_okD(3) [OF assms(1)])

lemma sr_full_correct:
  assumes "width_ok w"
  shows "sr_ok w (sr_full w) \<and> (x < 2 ^ w \<longrightarrow> sr_mem w (sr_full w) x)"
proof -
  have "0 < w" using width_okD(1) [OF assms] by simp
  from sem_signed_range [OF this]
  have "x < 2 ^ w \<Longrightarrow> sr_mem w (sr_full w) x"
    by (simp add: sr_mem_def sr_full_def signed_const_val [OF assms] zle_diff1_eq)
  moreover have "(1::int) \<le> 2 ^ (w - 1)" by simp
  ultimately show ?thesis
    using okw_const [OF assms] by (simp add: sr_ok_def sr_full_def signed_const_val [OF assms])
qed

lemma sr_constant_correct:
  assumes "okw w v"
  shows "sr_ok w (sr_constant v) \<and> (x < 2 ^ w \<longrightarrow> sr_mem w (sr_constant v) x = (x = bv_val v))"
  using sem_signed_inj [OF _ okwD(4) [OF assms], of x] assms
  by (auto simp: sr_ok_def sr_constant_def sr_mem_def)

lemma sr_new_correct:
  assumes "okw w lo" "okw w hi"
  shows "case sr_new lo hi of
      None \<Rightarrow> \<forall>x. \<not> (sem_signed w (bv_val lo) \<le> sem_signed w x \<and> sem_signed w x \<le> sem_signed w (bv_val hi))
    | Some s \<Rightarrow> sr_ok w s \<and> (\<forall>x. sr_mem w s x \<longleftrightarrow>
        sem_signed w (bv_val lo) \<le> sem_signed w x \<and> sem_signed w x \<le> sem_signed w (bv_val hi))"
proof (cases "bv_sle lo hi")
  case True
  then show ?thesis
    using okw_cmp(4) [OF assms] assms okwD(2) by (auto simp: sr_new_def sr_ok_def sr_mem_def)
next
  case False
  then have "sem_signed w (bv_val hi) < sem_signed w (bv_val lo)" using okw_cmp(4) [OF assms] by simp
  then show ?thesis using False by (fastforce simp: sr_new_def)
qed

lemma sr_meet_correct:
  assumes "sr_ok w s" "sr_ok w t"
  shows "case sr_meet s t of
      None \<Rightarrow> \<forall>x. \<not> (sr_mem w s x \<and> sr_mem w t x)
    | Some m \<Rightarrow> sr_ok w m \<and> (\<forall>x. sr_mem w m x \<longleftrightarrow> sr_mem w s x \<and> sr_mem w t x)"
proof -
  note S = sr_okD [OF assms(1)] and T = sr_okD [OF assms(2)]
  note lo = okw_minmax(7,8) [OF S(1) T(1)] and hi = okw_minmax(5,6) [OF S(2) T(2)]
  have e: "sr_meet s t = sr_new (bv_smax2 (sr_lo s) (sr_lo t)) (bv_smin2 (sr_hi s) (sr_hi t))"
    using S(3) T(3) by (simp add: sr_meet_def)
  have m: "max (sem_signed w (bv_val (sr_lo s))) (sem_signed w (bv_val (sr_lo t))) \<le> sem_signed w x \<and>
      sem_signed w x \<le> min (sem_signed w (bv_val (sr_hi s))) (sem_signed w (bv_val (sr_hi t))) \<longleftrightarrow>
      sr_mem w s x \<and> sr_mem w t x" for x
    by (auto simp: sr_mem_def)
  show ?thesis using sr_new_correct [OF lo(1) hi(1)] unfolding lo(2) hi(2) e m .
qed

lemma sr_hull_correct:
  assumes "sr_ok w s" "sr_ok w t"
  shows "sr_ok w (sr_hull s t) \<and> (sr_mem w s x \<or> sr_mem w t x \<longrightarrow> sr_mem w (sr_hull s t) x)"
proof -
  note S = sr_okD [OF assms(1)] and T = sr_okD [OF assms(2)]
  note lo = okw_minmax(5,6) [OF S(1) T(1)] and hi = okw_minmax(7,8) [OF S(2) T(2)]
  show ?thesis using lo hi S(4) T(4) by (auto simp: sr_hull_def sr_ok_def sr_mem_def)
qed

lemma ur_new_correct:
  assumes "okw w lo" "okw w hi"
  shows "case ur_new lo hi of
      None \<Rightarrow> bv_val hi < bv_val lo
    | Some u \<Rightarrow> ur_ok w u \<and> (\<forall>x. ur_mem u x \<longleftrightarrow> bv_val lo \<le> x \<and> x \<le> bv_val hi)"
  using okw_cmp(2) [OF assms] ur_from_parts_correct [OF assms, of 1] okwD(2) [OF assms(1)] okwD(2) [OF assms(2)]
  by (auto simp: ur_new_def)

lemma ur_strided_correct:
  assumes "okw w lo" "okw w hi" "s < 2 ^ 64"
  shows "case ur_strided lo hi s of
      None \<Rightarrow> bv_val hi < bv_val lo \<or> s = 0 \<or> \<not> s dvd bv_val hi - bv_val lo
    | Some u \<Rightarrow> ur_ok w u \<and> ur_lo u = lo \<and> ur_hi u = hi \<and> (lo = hi \<or> ur_stride u = s)"
proof -
  have "bv_rem (bin_unchecked BSub hi lo) s = 0 \<longleftrightarrow> s dvd bv_val hi - bv_val lo"
    if "bv_val lo \<le> bv_val hi" "1 \<le> s"
    using okw_sub [OF assms(2,1) that(1)] bv_rem_correct [of w _ s] that(2) assms(3) by (simp add: dvd_eq_mod_eq_0)
  then show ?thesis
    using okw_cmp(2) [OF assms(1,2)] ur_constant_correct(1) [OF assms(1)] okwD(2) [OF assms(1)] okwD(2) [OF assms(2)]
      assms
    by (auto simp: ur_strided_def Let_def ur_ok_def ur_constant_def)
qed

section \<open>The domain contract\<close>

interpretation ur: abs_domain ur_ok "\<lambda>_. ur_mem" ur_full ur_constant ur_meet ur_hull
proof (unfold_locales, goal_cases)
  case (1 w) then show ?case using ur_full_correct by blast
next
  case (2 v w)
  then have "okw w v" by (simp add: okw_def)
  then show ?case using ur_constant_correct by blast
next
  case (3 w f g) then show ?case using ur_meet_correct [OF 3] by (cases "ur_meet f g") simp_all
next
  case (4 w f g) then show ?case using ur_hull_correct by blast
qed

interpretation sr: exact_domain sr_ok sr_mem sr_full sr_constant sr_meet sr_hull
proof (unfold_locales, goal_cases)
  case (1 w) then show ?case using sr_full_correct by blast
next
  case (2 v w)
  then have "okw w v" by (simp add: okw_def)
  then show ?case using sr_constant_correct by blast
next
  case (3 w f g) then show ?case using sr_meet_correct [OF 3] by (cases "sr_meet f g") simp_all
next
  case (4 w f g) then show ?case using sr_hull_correct by blast
next
  case (5 w f g m x) then show ?case using sr_meet_correct [OF 5(1,2)] by simp
qed


section \<open>Properties\<close>

text \<open>
  C17: the solver for two congruences is exact: it reports a contradiction only when no number
  satisfies both, gives up only when the combined modulus needs more than 64 bits, and otherwise
  returns the least solution with the least common multiple as its modulus.
\<close>

theorem crt_exact:
  assumes "1 \<le> m1" "1 \<le> m2"
  shows "case crt r1 m1 r2 m2 of
      None \<Rightarrow> \<forall>x. \<not> (x mod m1 = r1 mod m1 \<and> x mod m2 = r2 mod m2)
    | Some None \<Rightarrow> 2 ^ 64 \<le> lcm m1 m2
    | Some (Some (x, l)) \<Rightarrow> l = lcm m1 m2 \<and> x < l \<and> x mod m1 = r1 mod m1 \<and> x mod m2 = r2 mod m2"
  by (rule crt_correct [OF assms])

theorem crt_exact_witness: "crt 2 3 3 5 = Some (Some (8, 15)) \<and> (8::nat) mod 3 = 2 mod 3"
proof
  show e: "crt 2 3 3 5 = Some (Some (8, 15))"
    by (simp add: crt_def gcd_loop.simps Let_def mod_inverse_def inverse_loop.simps)
  show "(8::nat) mod 3 = 2 mod 3" using crt_exact [of 3 5 2 3] unfolding e by simp
qed

text \<open>
  C18: the meet of two strided intervals keeps every common value, is empty only when there is
  none, and stands for exactly the common values whenever the combined stride fits 64 bits.
\<close>

theorem strided_meet_sound:
  assumes "ur_ok w u" "ur_ok w v"
  shows "case ur_meet u v of
      None \<Rightarrow> \<forall>x. \<not> (ur_mem u x \<and> ur_mem v x)
    | Some m \<Rightarrow> ur_ok w m \<and> (\<forall>x. ur_mem u x \<and> ur_mem v x \<longrightarrow> ur_mem m x) \<and>
        (lcm (ur_stride u) (ur_stride v) < 2 ^ 64 \<longrightarrow> (\<forall>x. ur_mem m x \<longrightarrow> ur_mem u x \<and> ur_mem v x))"
  by (rule ur_meet_correct [OF assms])

theorem strided_meet_sound_witness:
  "\<exists>m. ur_meet (ur_full 200) (ur_constant (bv_one 200)) = Some m \<and> ur_mem m 1"
proof -
  have "ur_mem (ur_full 200) 1" "ur_mem (ur_constant (bv_one 200)) 1"
    using ur_full_correct(2) [of 200 1] ur_constant_correct(2) [of 200 "bv_one 200" 1] okw_const [of 200] const_val [of 200]
    by (simp_all add: width_ok_def)
  then show ?thesis
    using strided_meet_sound [of 200 "ur_full 200" "ur_constant (bv_one 200)"] ur_full_correct(1) [of 200]
      ur_constant_correct(1) [of 200 "bv_one 200"] okw_const [of 200]
    by (cases "ur_meet (ur_full 200) (ur_constant (bv_one 200))") (auto simp: width_ok_def)
qed

text \<open>
  C19: every operation keeps the representation invariant of a strided interval (ordered ends of
  one width, stride zero exactly for a constant, the span a multiple of the stride): the
  constructors, the hull, the meet, and the restriction to a residue class.
\<close>

theorem strided_invariant:
  assumes "ur_ok w u" "ur_ok w v" "okw w lo" "okw w hi" "s < 2 ^ 64" "1 \<le> m" "m < 2 ^ 64"
  shows "ur_ok w (ur_full w) \<and> ur_ok w (ur_constant lo) \<and> ur_ok w (ur_hull u v) \<and>
    (\<forall>r. ur_new lo hi = Some r \<longrightarrow> ur_ok w r) \<and> (\<forall>r. ur_strided lo hi s = Some r \<longrightarrow> ur_ok w r) \<and>
    (\<forall>r. ur_meet u v = Some r \<longrightarrow> ur_ok w r) \<and> (\<forall>r. ur_meet_class u c m = Some r \<longrightarrow> ur_ok w r)"
  using ur_full_correct(1) [OF ur_okD(7) [OF assms(1)]] ur_constant_correct(1) [OF assms(3)]
    ur_hull_correct(1) [OF assms(1,2)] ur_new_correct [OF assms(3,4)] ur_strided_correct [OF assms(3,4,5)]
    ur_meet_correct [OF assms(1,2)] ur_meet_class_correct [OF assms(1,6,7), of c]
  by (auto split: option.splits)

theorem strided_invariant_witness: "ur_ok 8 (ur_hull (ur_constant (bv_one 8)) (ur_full 8))"
  using strided_invariant [of 8 "ur_constant (bv_one 8)" "ur_full 8" "bv_one 8" "bv_ones 8" 3 2]
    ur_full_correct(1) [of 8] ur_constant_correct(1) [of 8 "bv_one 8"] okw_const [of 8]
  by (simp add: width_ok_def)

text \<open>
  The hull of two strided intervals covers both, and restricting an interval to a residue
  class keeps exactly values of the interval, every one of the class among them.
\<close>

theorem strided_hull_and_class:
  assumes "ur_ok w u" "ur_ok w v" "1 \<le> m" "m < 2 ^ 64"
  shows "(\<forall>x. ur_mem u x \<or> ur_mem v x \<longrightarrow> ur_mem (ur_hull u v) x) \<and>
    (case ur_meet_class u r m of
      None \<Rightarrow> \<forall>x. \<not> (ur_mem u x \<and> x mod m = r mod m)
    | Some c \<Rightarrow> (\<forall>x. ur_mem u x \<and> x mod m = r mod m \<longrightarrow> ur_mem c x) \<and> (\<forall>x. ur_mem c x \<longrightarrow> ur_mem u x))"
  using ur_hull_correct(2) [OF assms(1,2)] ur_meet_class_correct [OF assms(1,3,4), of r]
  by (auto split: option.splits)

theorem strided_hull_and_class_witness: "ur_mem (ur_hull (ur_constant (bv_one 8)) (ur_full 8)) 77"
  using strided_hull_and_class [of 8 "ur_constant (bv_one 8)" "ur_full 8" 3]
    ur_full_correct [of 8] ur_constant_correct(1) [of 8 "bv_one 8"] okw_const [of 8]
  by (simp add: width_ok_def)

text \<open>
  C20: signed intervals: the meet is exactly the intersection, empty only when there is no common
  value, and the hull covers both intervals, in the signed order of the width.
\<close>

theorem signed_ranges_exact:
  assumes "sr_ok w s" "sr_ok w t"
  shows "(case sr_meet s t of
      None \<Rightarrow> \<forall>x. \<not> (sr_mem w s x \<and> sr_mem w t x)
    | Some m \<Rightarrow> sr_ok w m \<and> (\<forall>x. sr_mem w m x \<longleftrightarrow> sr_mem w s x \<and> sr_mem w t x)) \<and>
    sr_ok w (sr_hull s t) \<and> (\<forall>x. sr_mem w s x \<or> sr_mem w t x \<longrightarrow> sr_mem w (sr_hull s t) x)"
  using sr_meet_correct [OF assms] sr_hull_correct [OF assms] by blast

theorem signed_ranges_exact_witness:
  "\<exists>m. sr_meet (sr_full 70) (sr_constant (bv_ones 70)) = Some m"
proof -
  have "sr_mem 70 (sr_full 70) (bv_val (bv_ones 70))" "sr_mem 70 (sr_constant (bv_ones 70)) (bv_val (bv_ones 70))"
    using sr_full_correct [of 70 "bv_val (bv_ones 70)"] sr_constant_correct [of 70 "bv_ones 70" "bv_val (bv_ones 70)"]
      okw_const [of 70] okwD(4) [of 70 "bv_ones 70"]
    by (simp_all add: width_ok_def)
  then show ?thesis
    using signed_ranges_exact [of 70 "sr_full 70" "sr_constant (bv_ones 70)"] sr_full_correct [of 70]
      sr_constant_correct [of 70 "bv_ones 70"] okw_const [of 70]
    by (cases "sr_meet (sr_full 70) (sr_constant (bv_ones 70))") (auto simp: width_ok_def)
qed

end
