(* ===== verification/Aig.thy ===== *)
theory Aig
  imports Ref_Eval "HOL-Library.Monad_Syntax"
begin

unbundle bit_operations_syntax

text \<open>
  The and-inverter graph of the prover (\<open>bitwright/src/prove/aig.rs\<close>): nodes, structural
  hashing, the gates built from conjunctions with their local simplifications, and evaluation.
  The graph is threaded through explicitly, in the option monad: every operation returns its
  result with the new graph, and \<open>None\<close> is a panic (an index out of range, or a failed
  \<open>expect\<close>). A \<open>u32\<close> literal is a \<open>nat\<close>: literals are twice a node index plus a sign, so no
  operation on them wraps while the graph has fewer than \<open>2 ^ 31\<close> nodes.
\<close>

section \<open>Literals and nodes\<close>

type_synonym L = nat

abbreviation (input) FALSE :: L where "FALSE \<equiv> 0"
abbreviation (input) TRUE :: L where "TRUE \<equiv> 1"

text \<open>\<open>l & !1\<close>: the positive literal of the same node.\<close>

definition plain :: "L \<Rightarrow> L" where "plain l = 2 * (l div 2)"

datatype node = NConst | NInput | NAnd L L

record Aig =
  nodes :: "node list"
  hash :: "L \<times> L \<Rightarrow> L option"

text \<open>Indexing a node by a literal panics out of range.\<close>

definition node_at :: "Aig \<Rightarrow> L \<Rightarrow> node option" where
  "node_at g l = (if l div 2 < length (nodes g) then Some (nodes g ! (l div 2)) else None)"

definition aig_new :: Aig where
  "aig_new = \<lparr>nodes = [NConst], hash = (\<lambda>_. None)\<rparr>"

definition aig_len :: "Aig \<Rightarrow> nat" where "aig_len g = length (nodes g)"

definition aig_is_empty :: "Aig \<Rightarrow> bool" where "aig_is_empty g \<longleftrightarrow> length (nodes g) = 1"

definition aig_input :: "Aig \<Rightarrow> L \<times> Aig" where
  "aig_input g =
     (let ns = nodes g @ [NInput] in ((length ns - 1) * 2, g\<lparr>nodes := ns\<rparr>))"


section \<open>Gates\<close>

definition aig_and :: "L \<Rightarrow> L \<Rightarrow> Aig \<Rightarrow> (L \<times> Aig) option" where
  "aig_and a b g =
     (let (a, b) = (if a \<le> b then (a, b) else (b, a))
      in if a = FALSE \<or> a = b XOR 1 then Some (FALSE, g)
         else if a = TRUE \<or> a = b then Some (b, g)
         else case hash g (a, b) of
             Some l \<Rightarrow> Some (l, g)
           | None \<Rightarrow>
               let ns = nodes g @ [NAnd a b]; l = (length ns - 1) * 2
               in Some (l, \<lparr>nodes = ns, hash = (hash g)((a, b) := Some l)\<rparr>))"

definition aig_or :: "L \<Rightarrow> L \<Rightarrow> Aig \<Rightarrow> (L \<times> Aig) option" where
  "aig_or a b g = do { (r, g) \<leftarrow> aig_and (a XOR 1) (b XOR 1) g; Some (r XOR 1, g) }"

definition xor_raw :: "L \<Rightarrow> L \<Rightarrow> Aig \<Rightarrow> (L \<times> Aig) option" where
  "xor_raw a b g =
     (let phase = (a XOR b) AND 1; a = plain a; b = plain b
      in if a = FALSE then Some (b XOR phase, g)
         else if b = FALSE then Some (a XOR phase, g)
         else if a = b then Some (phase, g)
         else do {
           (p, g) \<leftarrow> aig_and a (b XOR 1) g;
           (q, g) \<leftarrow> aig_and (a XOR 1) b g;
           (r, g) \<leftarrow> aig_or p q g;
           Some (r XOR phase, g) })"

definition aig_xor :: "L \<Rightarrow> L \<Rightarrow> Aig \<Rightarrow> (L \<times> Aig) option" where
  "aig_xor a b g = xor_raw a b g"

definition xor_phase :: "L \<Rightarrow> L \<Rightarrow> Aig \<Rightarrow> (L \<times> Aig) option" where
  "xor_phase a b g =
     do { (r, g) \<leftarrow> xor_raw (plain a) (plain b) g; Some (r XOR ((a XOR b) AND 1), g) }"

definition aig_xnor :: "L \<Rightarrow> L \<Rightarrow> Aig \<Rightarrow> (L \<times> Aig) option" where
  "aig_xnor a b g = do { (r, g) \<leftarrow> aig_xor a b g; Some (r XOR 1, g) }"

definition aig_mux :: "L \<Rightarrow> L \<Rightarrow> L \<Rightarrow> Aig \<Rightarrow> (L \<times> Aig) option" where
  "aig_mux c t e g =
     (if c = TRUE \<or> t = e then Some (t, g)
      else if c = FALSE then Some (e, g)
      else do {
        (p, g) \<leftarrow> aig_and c t g;
        (q, g) \<leftarrow> aig_and (c XOR 1) e g;
        aig_or p q g })"

fun maj_cases :: "(L \<times> L \<times> L) list \<Rightarrow> Aig \<Rightarrow> (L option \<times> Aig) option" where
  "maj_cases [] g = Some (None, g)"
| "maj_cases ((k, x, y) # cs) g =
     (if k = FALSE then do { (r, g) \<leftarrow> aig_and x y g; Some (Some r, g) }
      else if k = TRUE then do { (r, g) \<leftarrow> aig_or x y g; Some (Some r, g) }
      else if x = y then Some (Some x, g)
      else if x = y XOR 1 then Some (Some k, g)
      else maj_cases cs g)"

definition aig_maj :: "L \<Rightarrow> L \<Rightarrow> L \<Rightarrow> Aig \<Rightarrow> (L \<times> Aig) option" where
  "aig_maj a b c g = do {
     (r, g) \<leftarrow> maj_cases [(a, b, c), (b, a, c), (c, a, b)] g;
     case r of
       Some r \<Rightarrow> Some (r, g)
     | None \<Rightarrow> do {
         (ab, g) \<leftarrow> aig_and a b g;
         (ac, g) \<leftarrow> aig_and a c g;
         (bc, g) \<leftarrow> aig_and b c g;
         (t, g) \<leftarrow> aig_or ab ac g;
         aig_or t bc g } }"


section \<open>Recognising gates\<close>

definition xor_children :: "Aig \<Rightarrow> L \<Rightarrow> (L \<times> L) option option" where
  "xor_children g l = do {
     n \<leftarrow> node_at g l;
     case n of
       NAnd a b \<Rightarrow>
         if a AND 1 = 0 \<or> b AND 1 = 0 then Some None
         else do {
           m \<leftarrow> node_at g a;
           k \<leftarrow> node_at g b;
           case (m, k) of
             (NAnd p q, NAnd r s) \<Rightarrow>
               if (r = p XOR 1 \<and> s = q XOR 1) \<or> (r = q XOR 1 \<and> s = p XOR 1)
               then Some (Some (p, q XOR (l AND 1))) else Some None
           | _ \<Rightarrow> Some None }
     | _ \<Rightarrow> Some None }"

definition mux_children :: "Aig \<Rightarrow> L \<Rightarrow> (L \<times> L \<times> L) option option" where
  "mux_children g l = do {
     n \<leftarrow> node_at g l;
     case n of
       NAnd a b \<Rightarrow>
         if a AND 1 = 0 \<or> b AND 1 = 0 then Some None
         else do {
           m \<leftarrow> node_at g a;
           k \<leftarrow> node_at g b;
           case (m, k) of
             (NAnd p q, NAnd r s) \<Rightarrow>
               (case find (\<lambda>(c, t, d, e). c = d XOR 1) [(p, q, r, s), (p, q, s, r), (q, p, r, s), (q, p, s, r)] of
                  None \<Rightarrow> Some None
                | Some (c, t, d, e) \<Rightarrow>
                    let invert = (l AND 1) XOR 1; t = t XOR invert; e = e XOR invert
                    in Some (Some (if c AND 1 = 0 then (c, t, e) else (c XOR 1, e, t))))
           | _ \<Rightarrow> Some None }
     | _ \<Rightarrow> Some None }"


section \<open>Parity cones\<close>

text \<open>Iterating over a list with an accumulator and the graph.\<close>

primrec build_fold :: "('a \<Rightarrow> 'b \<Rightarrow> Aig \<Rightarrow> ('b \<times> Aig) option) \<Rightarrow> 'a list \<Rightarrow> 'b \<Rightarrow> Aig \<Rightarrow> ('b \<times> Aig) option" where
  "build_fold f [] acc g = Some (acc, g)"
| "build_fold f (x # xs) acc g = do { (acc, g) \<leftarrow> f x acc g; build_fold f xs acc g }"

function xor_inputs :: "Aig \<Rightarrow> (L \<times> nat) list \<Rightarrow> L list \<Rightarrow> L list option" where
  "xor_inputs g [] ins = Some ins"
| "xor_inputs g ((l, depth) # stack) ins = do {
     ch \<leftarrow> (if depth < 5 then xor_children g l else Some None);
     case ch of
       Some (x, y) \<Rightarrow>
         if length stack + 2 > 32 then None
         else xor_inputs g ((y, depth + 1) # (x, depth + 1) # stack) ins
     | None \<Rightarrow> do {
         n \<leftarrow> node_at g l;
         if n = NInput
         then (if length ins \<ge> 32 then None else xor_inputs g stack (ins @ [plain l]))
         else xor_inputs g stack ins } }"
  by pat_completeness auto
termination
  by (relation "measure (\<lambda>(g, stack, ins). \<Sum>(l, d)\<leftarrow>stack. 3 ^ (6 - d))")
    (auto simp: Suc_diff_Suc split: if_splits, simp add: numeral_eq_Suc Suc_diff_le)


text \<open>The descent of the code counts the depth up to five; here the remaining depth counts down.\<close>

fun xor_without_input :: "nat \<Rightarrow> L \<Rightarrow> L \<Rightarrow> Aig \<Rightarrow> (L option \<times> Aig) option" where
  "xor_without_input n l target g =
     (if plain l = target then Some (Some (l AND 1), g)
      else case n of
        0 \<Rightarrow> Some (None, g)
      | Suc n \<Rightarrow> do {
          ch \<leftarrow> xor_children g l;
          case ch of
            None \<Rightarrow> Some (None, g)
          | Some (a, b) \<Rightarrow> do {
              (r, g) \<leftarrow> xor_without_input n a target g;
              case r of
                Some a \<Rightarrow> do {
                  (x, g) \<leftarrow> xor_raw (plain a) (plain b) g;
                  Some (Some (x XOR ((a XOR b) AND 1)), g) }
              | None \<Rightarrow> do {
                  (r, g) \<leftarrow> xor_without_input n b target g;
                  case r of
                    None \<Rightarrow> Some (None, g)
                  | Some b \<Rightarrow> do {
                      (x, g) \<leftarrow> xor_raw (plain a) (plain b) g;
                      Some (Some (x XOR ((a XOR b) AND 1)), g) } } } })"

declare xor_without_input.simps [simp del]

definition xor_cancel_input :: "L \<Rightarrow> L \<Rightarrow> Aig \<Rightarrow> (L \<times> Aig) option" where
  "xor_cancel_input a b g =
     (if a \<le> TRUE \<or> b \<le> TRUE \<or> a div 2 = b div 2 then xor_raw a b g
      else do {
        ia \<leftarrow> xor_inputs g [(a, 0)] [];
        ib \<leftarrow> xor_inputs g [(b, 0)] [];
        case filter (\<lambda>l. l \<in> set ib) ia of
          [] \<Rightarrow> xor_raw a b g
        | l # ls \<Rightarrow>
            let target = fold max ls l
            in do {
              (ra, g) \<leftarrow> xor_without_input 5 a target g;
              a \<leftarrow> ra;
              (rb, g) \<leftarrow> xor_without_input 5 b target g;
              b \<leftarrow> rb;
              xor_raw a b g } })"

function cancel_loop :: "Aig \<Rightarrow> L list \<Rightarrow> L list \<Rightarrow> L \<Rightarrow> nat \<Rightarrow> (L list \<times> L) option option" where
  "cancel_loop g [] leaves polarity visits = Some (Some (leaves, polarity))"
| "cancel_loop g (l # stack) leaves polarity visits =
     (let visits = visits + 1
      in if visits > 64 then Some None
         else do {
           ch \<leftarrow> xor_children g l;
           case ch of
             Some (x, y) \<Rightarrow>
               if length stack + 2 > 32 then Some None
               else cancel_loop g (y # x # stack) leaves polarity visits
           | None \<Rightarrow>
               if length leaves = 16 then Some None
               else cancel_loop g stack (leaves @ [plain l]) (polarity XOR (l AND 1)) visits })"
  by pat_completeness auto
termination by (relation "measure (\<lambda>(g, stack, leaves, polarity, visits). 64 - visits)") auto

text \<open>One of every run of an odd number of equal leaves survives.\<close>

function keep_odd :: "L list \<Rightarrow> L list" where
  "keep_odd [] = []"
| "keep_odd (l # ls) =
     (let run = length (takeWhile (\<lambda>x. x = l) (l # ls)); rest = keep_odd (dropWhile (\<lambda>x. x = l) ls)
      in if run AND 1 = 1 \<and> l \<noteq> FALSE then l # rest else rest)"
  by pat_completeness auto
termination by (relation "measure length") (auto simp: le_imp_less_Suc length_dropWhile_le)

definition cancel_xor :: "L \<Rightarrow> L \<Rightarrow> Aig \<Rightarrow> (L option \<times> Aig) option" where
  "cancel_xor a b g = do {
     ca \<leftarrow> xor_children g a;
     cb \<leftarrow> xor_children g b;
     if ca = None \<and> cb = None then Some (None, g)
     else do {
       r \<leftarrow> cancel_loop g [b, a] [] FALSE 0;
       case r of
         None \<Rightarrow> Some (None, g)
       | Some (leaves, polarity) \<Rightarrow>
           let kept = keep_odd (sort leaves)
           in if length kept = length leaves \<and> polarity = FALSE then Some (None, g)
              else do {
                (out, g) \<leftarrow> build_fold (\<lambda>l out g. xor_raw out l g) kept FALSE g;
                Some (Some (out XOR polarity), g) } } }"

definition xor_simplified :: "L \<Rightarrow> L \<Rightarrow> Aig \<Rightarrow> (L \<times> Aig) option" where
  "xor_simplified a b g = do {
     (reduced, g) \<leftarrow> (if a > TRUE \<and> b > TRUE \<and> a div 2 \<noteq> b div 2 then cancel_xor a b g else Some (None, g));
     case reduced of
       Some reduced \<Rightarrow> Some (reduced, g)
     | None \<Rightarrow>
         if a \<le> TRUE \<or> b \<le> TRUE then xor_raw a b g
         else do {
           (r, g) \<leftarrow> xor_raw (plain a) (plain b) g;
           Some (r XOR ((a XOR b) AND 1), g) } }"


section \<open>Factoring disjunctions of parities\<close>

text \<open>The two orders in which a pair of operands is tried.\<close>

definition both_ways :: "L \<times> L \<Rightarrow> (L \<times> L) list" where
  "both_ways p = (case p of (x, y) \<Rightarrow> [(x, y), (y, x)])"

definition factor_shared :: "L \<times> L \<Rightarrow> L \<times> L \<Rightarrow> Aig \<Rightarrow> (L option \<times> Aig) option" where
  "factor_shared xy uv g =
     (case find (\<lambda>((control, other), second, other2). plain control = plain second)
             (List.product (both_ways xy) (both_ways uv)) of
        None \<Rightarrow> Some (None, g)
      | Some ((control, other), second, other2) \<Rightarrow>
          let p = other XOR (control AND 1); q = other2 XOR (second AND 1)
          in do {
            (t, g) \<leftarrow> aig_and p q g;
            (e, g) \<leftarrow> aig_or p q g;
            (r, g) \<leftarrow> aig_mux (plain control) (t XOR 1) e g;
            Some (Some r, g) })"

definition factor_along :: "L \<Rightarrow> L \<Rightarrow> Aig \<Rightarrow> (L option \<times> Aig) option" where
  "factor_along first second g = do {
     m \<leftarrow> mux_children g first;
     case m of
       None \<Rightarrow> Some (None, g)
     | Some (c, t, e) \<Rightarrow> do {
         x \<leftarrow> xor_children g second;
         case (case x of None \<Rightarrow> None | Some xy \<Rightarrow> find (\<lambda>(control, other). plain control = c) (both_ways xy)) of
           Some (control, other) \<Rightarrow>
             let other = other XOR (control AND 1)
             in do {
               (t, g) \<leftarrow> aig_or t (other XOR 1) g;
               (e, g) \<leftarrow> aig_or e other g;
               (r, g) \<leftarrow> aig_mux c t e g;
               Some (Some r, g) }
         | None \<Rightarrow> do {
             n \<leftarrow> mux_children g second;
             case n of
               None \<Rightarrow> Some (None, g)
             | Some (d, u, v) \<Rightarrow>
                 if c = d then do {
                   (t, g) \<leftarrow> aig_or t u g;
                   (e, g) \<leftarrow> aig_or e v g;
                   (r, g) \<leftarrow> aig_mux c t e g;
                   Some (Some r, g) }
                 else Some (None, g) } } }"

definition factor_xor_or :: "L \<Rightarrow> L \<Rightarrow> Aig \<Rightarrow> (L option \<times> Aig) option" where
  "factor_xor_or a b g = do {
     xa \<leftarrow> xor_children g a;
     xb \<leftarrow> xor_children g b;
     (r, g) \<leftarrow> (case (xa, xb) of
         (Some xy, Some uv) \<Rightarrow> factor_shared xy uv g
       | _ \<Rightarrow> Some (None, g));
     case r of
       Some r \<Rightarrow> Some (Some r, g)
     | None \<Rightarrow> do {
         (r, g) \<leftarrow> factor_along a b g;
         case r of
           Some r \<Rightarrow> Some (Some r, g)
         | None \<Rightarrow> factor_along b a g } }"

fun factor_positive_or :: "L \<Rightarrow> nat \<Rightarrow> Aig \<Rightarrow> (L \<times> Aig) option" where
  "factor_positive_or l 0 g = Some (l, g)"
| "factor_positive_or l (Suc depth) g =
     (if l AND 1 = 0 then Some (l, g)
      else do {
        x \<leftarrow> xor_children g l;
        m \<leftarrow> mux_children g l;
        if x \<noteq> None \<or> m \<noteq> None then Some (l, g)
        else do {
          n \<leftarrow> node_at g l;
          case n of
            NAnd a b \<Rightarrow> do {
              (a, g) \<leftarrow> factor_positive_or (a XOR 1) depth g;
              (b, g) \<leftarrow> factor_positive_or (b XOR 1) depth g;
              (r, g) \<leftarrow> factor_xor_or a b g;
              case r of
                Some r \<Rightarrow> Some (r, g)
              | None \<Rightarrow> aig_or a b g }
          | _ \<Rightarrow> Some (l, g) } })"

definition and_all :: "L list \<Rightarrow> Aig \<Rightarrow> (L \<times> Aig) option" where
  "and_all ls g = build_fold (\<lambda>l acc g. aig_and acc l g) ls TRUE g"

definition or_all :: "L list \<Rightarrow> Aig \<Rightarrow> (L \<times> Aig) option" where
  "or_all ls g = build_fold (\<lambda>l acc g. aig_or acc l g) ls FALSE g"


section \<open>Evaluation\<close>

definition aig_value :: "bool list \<Rightarrow> L \<Rightarrow> bool" where
  "aig_value vals l \<longleftrightarrow> vals ! (l div 2) \<noteq> (l AND 1 = 1)"

primrec eval_nodes :: "(nat \<Rightarrow> bool) \<Rightarrow> node list \<Rightarrow> nat \<Rightarrow> bool list \<Rightarrow> bool list" where
  "eval_nodes input [] k vals = vals"
| "eval_nodes input (n # ns) k vals =
     (case n of
        NConst \<Rightarrow> eval_nodes input ns k (vals @ [False])
      | NInput \<Rightarrow> eval_nodes input ns (k + 1) (vals @ [input k])
      | NAnd a b \<Rightarrow> eval_nodes input ns k (vals @ [aig_value vals a \<and> aig_value vals b]))"

definition eval_all :: "Aig \<Rightarrow> (nat \<Rightarrow> bool) \<Rightarrow> bool list" where
  "eval_all g input = eval_nodes input (nodes g) 0 []"

definition aig_word :: "u64 list \<Rightarrow> L \<Rightarrow> u64" where
  "aig_word vals l = (let x = vals ! (l div 2) in if l AND 1 = 1 then NOT x else x)"

primrec eval_word_nodes :: "(nat \<Rightarrow> u64) \<Rightarrow> node list \<Rightarrow> nat \<Rightarrow> u64 list \<Rightarrow> u64 list" where
  "eval_word_nodes input [] k vals = vals"
| "eval_word_nodes input (n # ns) k vals =
     (case n of
        NConst \<Rightarrow> eval_word_nodes input ns k (vals @ [0])
      | NInput \<Rightarrow> eval_word_nodes input ns (k + 1) (vals @ [input k])
      | NAnd a b \<Rightarrow> eval_word_nodes input ns k (vals @ [aig_word vals a AND aig_word vals b]))"

definition eval_words :: "Aig \<Rightarrow> (nat \<Rightarrow> u64) \<Rightarrow> u64 list" where
  "eval_words g input = eval_word_nodes input (nodes g) 0 []"

end
