(* ===== verification/Aig_Inv.thy ===== *)
theory Aig_Inv
  imports Aig
begin

unbundle bit_operations_syntax

text \<open>
  The invariant of the graph, the value of a literal under an assignment of the inputs, and a
  small calculus for operations that grow the graph: \<open>gives g r P\<close> states that from a graph
  satisfying the invariant the operation does not panic, keeps the invariant, only adds nodes,
  and returns a result satisfying \<open>P\<close>.
\<close>

declare One_nat_def [simp del]

section \<open>Literals\<close>

lemma less_two: "(k::nat) < 2 \<longleftrightarrow> k = 0 \<or> k = 1" by linarith

lemma lit_flip [simp]: "(l XOR 1) div 2 = (l::nat) div 2" "(l XOR 1) XOR 1 = l"
  by (simp_all add: xor_one_eq even_two_times_div_two xor.assoc) (auto elim!: oddE evenE)

lemma lit_phase: "k < 2 \<Longrightarrow> (l XOR k) div 2 = (l::nat) div 2"
  by (cases "k = 0") (auto simp: less_two)

lemma and_one_cases: "(l::nat) AND 1 = 0 \<or> l AND 1 = 1"
  by (simp add: and_one_eq) presburger

lemma and_one_less [simp]: "(l::nat) AND 1 < 2" using and_one_cases [of l] by auto

lemma flip_sign [simp]: "((l::nat) XOR 1) AND 1 = 1 \<longleftrightarrow> l AND 1 = 0"
  "((l::nat) XOR 1) AND 1 = 0 \<longleftrightarrow> l AND 1 = 1"
  by (auto simp: and_one_eq xor_one_eq) presburger+

lemma xor_sign: "((a::nat) XOR b) AND 1 = (if (a AND 1) = (b AND 1) then 0 else 1)"
  by (rule bit_eqI) (auto simp: bit_simps bit_eq_iff [of "a AND 1" "b AND 1"])

lemma plain_props [simp]: "plain l div 2 = l div 2" "plain l AND 1 = 0"
  by (simp_all add: plain_def and_one_eq)

lemma plain_eq: "plain l XOR (l AND 1) = l"
proof -
  have "2 * (l div 2) + (l AND 1) = l" by (simp add: and_one_eq)
  then show ?thesis using and_one_cases [of l] by (auto simp: plain_def xor_one_eq)
qed

lemma lit_eqI: "a div 2 = b div 2 \<Longrightarrow> a AND 1 = b AND 1 \<Longrightarrow> a = (b::nat)"
  by (metis and_one_eq div_mult_mod_eq)

section \<open>Evaluation\<close>

lemma eval_nodes_append:
  "eval_nodes inp (ns @ ms) k vals =
     eval_nodes inp ms (k + length (filter (\<lambda>n. n = NInput) ns)) (eval_nodes inp ns k vals)"
  by (induction ns arbitrary: k vals) (auto simp: One_nat_def split: node.splits)

lemma eval_nodes_extends: "\<exists>ws. eval_nodes inp ns k vals = vals @ ws \<and> length ws = length ns"
proof (induction ns arbitrary: k vals)
  case (Cons n ns)
  show ?case
  proof (cases n)
    case NConst then show ?thesis using Cons [of k "vals @ [False]"] by auto
  next
    case NInput then show ?thesis using Cons [of "k + 1" "vals @ [inp k]"] by auto
  next
    case (NAnd a b)
    then show ?thesis using Cons [of k "vals @ [aig_value vals a \<and> aig_value vals b]"] by auto
  qed
qed simp

lemma length_eval_nodes [simp]: "length (eval_nodes inp ns k vals) = length vals + length ns"
  using eval_nodes_extends [of inp ns k vals] by auto

lemma length_eval_all [simp]: "length (eval_all g inp) = length (nodes g)"
  by (simp add: eval_all_def)

definition valid :: "Aig \<Rightarrow> L \<Rightarrow> bool" where "valid g l \<longleftrightarrow> l div 2 < length (nodes g)"

definition val :: "(nat \<Rightarrow> bool) \<Rightarrow> Aig \<Rightarrow> L \<Rightarrow> bool" where "val \<rho> g l = aig_value (eval_all g \<rho>) l"

definition lit :: "(nat \<Rightarrow> bool) \<Rightarrow> Aig \<Rightarrow> L \<Rightarrow> bool \<Rightarrow> bool" where
  "lit \<rho> g l b \<longleftrightarrow> valid g l \<and> val \<rho> g l = b"

definition aig_le :: "Aig \<Rightarrow> Aig \<Rightarrow> bool" where
  "aig_le g g' \<longleftrightarrow> (\<exists>ms. nodes g' = nodes g @ ms)"

lemma aig_le_refl [simp]: "aig_le g g" by (simp add: aig_le_def)

lemma aig_le_trans: "aig_le g g' \<Longrightarrow> aig_le g' g'' \<Longrightarrow> aig_le g g''"
  by (auto simp: aig_le_def)

lemma eval_all_prefix:
  assumes "aig_le g g'"
  shows "\<exists>ws. eval_all g' inp = eval_all g inp @ ws"
  using assms eval_nodes_extends by (fastforce simp: aig_le_def eval_all_def eval_nodes_append)

lemma valid_mono: "aig_le g g' \<Longrightarrow> valid g l \<Longrightarrow> valid g' l"
  by (auto simp: aig_le_def valid_def)

lemma val_mono: "aig_le g g' \<Longrightarrow> valid g l \<Longrightarrow> val \<rho> g' l = val \<rho> g l"
  using eval_all_prefix [of g g' \<rho>] by (auto simp: val_def aig_value_def valid_def nth_append)

lemma lit_mono: "lit \<rho> g l b \<Longrightarrow> aig_le g g' \<Longrightarrow> lit \<rho> g' l b"
  by (auto simp: lit_def valid_mono val_mono)

lemma lit_not [simp]: "lit \<rho> g (l XOR 1) b \<longleftrightarrow> lit \<rho> g l (\<not> b)"
  using and_one_cases [of l] by (auto simp: lit_def valid_def val_def aig_value_def)

lemma lit_xor_sign:
  assumes "lit \<rho> g l b" "k < 2"
  shows "lit \<rho> g (l XOR k) (b \<noteq> (k = 1))"
  using assms by (cases "k = 0") (auto simp: less_two)

lemma lit_plain: "lit \<rho> g l b \<Longrightarrow> lit \<rho> g (plain l) (b \<noteq> (l AND 1 = 1))"
  by (auto simp: lit_def valid_def val_def aig_value_def)

lemma lit_inj: "lit \<rho> g l p \<Longrightarrow> lit \<rho> g l q \<Longrightarrow> p = q" by (simp add: lit_def)

lemma eval_node_split:
  assumes "i < length (nodes g)"
  obtains pre where "length pre = i" "take i (eval_all g \<rho>) = pre"
    "eval_all g \<rho> ! i = (case nodes g ! i of
       NConst \<Rightarrow> False
     | NInput \<Rightarrow> \<rho> (length (filter (\<lambda>n. n = NInput) (take i (nodes g))))
     | NAnd a b \<Rightarrow> aig_value pre a \<and> aig_value pre b)"
proof -
  define k where "k = length (filter (\<lambda>n. n = NInput) (take i (nodes g)))"
  define pre where "pre = eval_nodes \<rho> (take i (nodes g)) 0 []"
  have l: "length pre = i" using assms by (simp add: pre_def)
  have "nodes g = take i (nodes g) @ nodes g ! i # drop (Suc i) (nodes g)"
    using assms by (simp add: id_take_nth_drop)
  then have e: "eval_all g \<rho> = eval_nodes \<rho> (nodes g ! i # drop (Suc i) (nodes g)) k pre"
    unfolding eval_all_def k_def pre_def by (metis add_0 eval_nodes_append)
  define v where "v = (case nodes g ! i of NConst \<Rightarrow> False | NInput \<Rightarrow> \<rho> k
     | NAnd a b \<Rightarrow> aig_value pre a \<and> aig_value pre b)"
  have "\<exists>k'. eval_all g \<rho> = eval_nodes \<rho> (drop (Suc i) (nodes g)) k' (pre @ [v])"
    unfolding e v_def by (cases "nodes g ! i") auto
  then obtain ws where "eval_all g \<rho> = (pre @ [v]) @ ws" by (metis eval_nodes_extends)
  then have "take i (eval_all g \<rho>) = pre" "eval_all g \<rho> ! i = v" using l by (simp_all add: nth_append)
  then show ?thesis using that [of pre] l unfolding v_def k_def by simp
qed

text \<open>What a literal says about its node.\<close>

lemma val_and_node:
  assumes "valid g l" "nodes g ! (l div 2) = NAnd a b" "a div 2 < l div 2" "b div 2 < l div 2"
  shows "val \<rho> g l = ((val \<rho> g a \<and> val \<rho> g b) \<noteq> (l AND 1 = 1))"
proof -
  obtain pre where "length pre = l div 2" "take (l div 2) (eval_all g \<rho>) = pre"
    "eval_all g \<rho> ! (l div 2) = (aig_value pre a \<and> aig_value pre b)"
    using eval_node_split [of "l div 2" g \<rho>] assms(1,2) by (auto simp: valid_def)
  moreover from this have "aig_value pre a = val \<rho> g a" "aig_value pre b = val \<rho> g b"
    using assms(3,4) by (auto simp: val_def aig_value_def)
  ultimately show ?thesis by (simp add: val_def aig_value_def)
qed

section \<open>The invariant\<close>

text \<open>
  The constant is the first node and the only one; a gate joins two distinct, ordered,
  non-constant literals of earlier nodes that are not each other's negation; and the hash table
  is exactly the set of gates, so no two gates have the same operands.
\<close>

definition gate_ok :: "Aig \<Rightarrow> nat \<Rightarrow> bool" where
  "gate_ok g i \<longleftrightarrow> (case nodes g ! i of
     NConst \<Rightarrow> i = 0 | NInput \<Rightarrow> True
   | NAnd a b \<Rightarrow> 1 < a \<and> a < b \<and> b \<noteq> a XOR 1 \<and> b div 2 < i \<and> hash g (a, b) = Some (2 * i))"

definition aig_inv :: "Aig \<Rightarrow> bool" where
  "aig_inv g \<longleftrightarrow> nodes g \<noteq> [] \<and> nodes g ! 0 = NConst \<and> (\<forall>i<length (nodes g). gate_ok g i) \<and>
     (\<forall>a b l. hash g (a, b) = Some l \<longrightarrow> l AND 1 = 0 \<and> valid g l \<and> nodes g ! (l div 2) = NAnd a b)"

lemma aig_invD:
  assumes "aig_inv g"
  shows "valid g FALSE" "valid g TRUE" "nodes g ! 0 = NConst"
    "i < length (nodes g) \<Longrightarrow> gate_ok g i"
    "hash g (a, b) = Some l \<Longrightarrow> l AND 1 = 0 \<and> valid g l \<and> nodes g ! (l div 2) = NAnd a b"
  using assms by (auto simp: aig_inv_def valid_def)

lemma aig_inv_and:
  assumes "aig_inv g" "valid g l" "nodes g ! (l div 2) = NAnd a b"
  shows "a div 2 < l div 2" "b div 2 < l div 2" "valid g a" "valid g b" "1 < a" "a < b"
    "val \<rho> g l = ((val \<rho> g a \<and> val \<rho> g b) \<noteq> (l AND 1 = 1))"
proof -
  have g: "1 < a" "a < b" "b div 2 < l div 2"
    using aig_invD(4) [OF assms(1), of "l div 2"] assms(2,3) by (auto simp: valid_def gate_ok_def)
  then have a: "a div 2 < l div 2" by (meson div_le_mono le_less_trans less_imp_le_nat)
  show "a div 2 < l div 2" "b div 2 < l div 2" "1 < a" "a < b" using a g by auto
  show "valid g a" "valid g b" using a g(3) assms(2) by (auto simp: valid_def)
  show "val \<rho> g l = ((val \<rho> g a \<and> val \<rho> g b) \<noteq> (l AND 1 = 1))"
    by (rule val_and_node [OF assms(2,3) a g(3)])
qed

lemma lit_const:
  assumes "aig_inv g"
  shows "lit \<rho> g FALSE b \<longleftrightarrow> \<not> b" "lit \<rho> g TRUE b \<longleftrightarrow> b"
proof -
  have "0 < length (nodes g)" using assms by (simp add: aig_inv_def)
  from eval_node_split [OF this] have "\<not> eval_all g \<rho> ! 0" using aig_invD(3) [OF assms] by (metis node.simps(8))
  then show "lit \<rho> g FALSE b \<longleftrightarrow> \<not> b" "lit \<rho> g TRUE b \<longleftrightarrow> b"
    using aig_invD(1,2) [OF assms] by (auto simp: lit_def val_def aig_value_def)
qed

lemma lit_le_true:
  assumes "aig_inv g" "lit \<rho> g l b" "l \<le> TRUE"
  shows "b = (l = TRUE)"
proof -
  have "l = FALSE \<or> l = TRUE" using assms(3) by auto
  then show ?thesis using assms(2) lit_const [OF assms(1)] by auto
qed

lemma aig_new_inv: "aig_inv aig_new"
  by (auto simp: aig_inv_def aig_new_def gate_ok_def)

lemma aig_input_inv:
  assumes "aig_inv g" "aig_input g = (l, g')"
  shows "aig_inv g'" "aig_le g g'" "lit \<rho> g' l (\<rho> (length (filter (\<lambda>n. n = NInput) (nodes g))))"
proof -
  have e: "nodes g' = nodes g @ [NInput]" "hash g' = hash g" "l div 2 = length (nodes g)" "l AND 1 = 0"
    using assms(2) by (auto simp: aig_input_def Let_def and_one_eq)
  have "gate_ok g' i" if "i < length (nodes g')" for i
    using that aig_invD(4) [OF assms(1), of i] by (cases "i = length (nodes g)") (auto simp: e gate_ok_def nth_append split: node.splits)
  moreover have "l' AND 1 = 0 \<and> valid g' l' \<and> nodes g' ! (l' div 2) = NAnd a b" if "hash g' (a, b) = Some l'" for a b l'
    using aig_invD(5) [OF assms(1), of a b l'] that by (simp add: e valid_def nth_append)
  moreover have "nodes g' \<noteq> []" "nodes g' ! 0 = NConst" using assms(1) by (simp_all add: e aig_inv_def nth_append)
  ultimately show "aig_inv g'" unfolding aig_inv_def by simp
  show "aig_le g g'" by (simp add: aig_le_def e)
  have "length (nodes g) < length (nodes g')" by (simp add: e)
  moreover have "nodes g' ! length (nodes g) = NInput" "take (length (nodes g)) (nodes g') = nodes g"
    by (simp_all add: e)
  ultimately have "eval_all g' \<rho> ! (l div 2) = \<rho> (length (filter (\<lambda>n. n = NInput) (nodes g)))"
    unfolding e(3) by (elim eval_node_split [of _ _ \<rho>]) (simp del: length_eval_all)
  then show "lit \<rho> g' l (\<rho> (length (filter (\<lambda>n. n = NInput) (nodes g))))"
    by (simp add: lit_def valid_def val_def aig_value_def e)
qed

end
