(* ===== verification/Aig_Gates.thy ===== *)
theory Aig_Gates
  imports Aig_Inv
begin

unbundle bit_operations_syntax

text \<open>
  Correctness of the gates of the graph: every operation computes its Boolean function of the
  values of its operands, whatever simplification or structural hashing it applies.
\<close>

section \<open>The calculus\<close>

definition gives :: "Aig \<Rightarrow> ('a \<times> Aig) option \<Rightarrow> (Aig \<Rightarrow> 'a \<Rightarrow> bool) \<Rightarrow> bool" where
  "gives g r P \<longleftrightarrow> (aig_inv g \<longrightarrow> (\<exists>x g'. r = Some (x, g') \<and> aig_inv g' \<and> aig_le g g' \<and> P g' x))"

lemma gives_inv: "(aig_inv g \<Longrightarrow> gives g r P) \<Longrightarrow> gives g r P"
  by (auto simp: gives_def)

lemma gives_return: "P g x \<Longrightarrow> gives g (Some (x, g)) P"
  by (auto simp: gives_def)

lemma gives_bind:
  assumes "gives g r P" "\<And>x g'. aig_le g g' \<Longrightarrow> P g' x \<Longrightarrow> gives g' (f (x, g')) Q"
  shows "gives g (Option.bind r f) Q"
  unfolding gives_def
proof
  assume "aig_inv g"
  then obtain x g' where 1: "r = Some (x, g')" "aig_inv g'" "aig_le g g'" "P g' x"
    using assms(1) by (auto simp: gives_def)
  moreover obtain y g'' where "f (x, g') = Some (y, g'')" "aig_inv g''" "aig_le g' g''" "Q g'' y"
    using assms(2) [OF 1(3,4)] 1(2) by (auto simp: gives_def)
  ultimately show "\<exists>x g'. Option.bind r f = Some (x, g') \<and> aig_inv g' \<and> aig_le g g' \<and> Q g' x"
    using aig_le_trans by (intro exI [of _ y] exI [of _ g'']) auto
qed

lemma gives_weaken:
  assumes "gives g r P" "\<And>g' x. aig_inv g' \<Longrightarrow> aig_le g g' \<Longrightarrow> P g' x \<Longrightarrow> Q g' x"
  shows "gives g r Q"
  using assms by (fastforce simp: gives_def)

text \<open>A pure lookup that does not panic, in front of an operation.\<close>

lemma gives_pure: "r = Some x \<Longrightarrow> gives g (f x) Q \<Longrightarrow> gives g (Option.bind r f) Q"
  by simp

lemma gives_all: "(\<And>\<rho>. gives g r (P \<rho>)) \<Longrightarrow> gives g r (\<lambda>g x. \<forall>\<rho>. P \<rho> g x)"
  unfolding gives_def by (cases r) fastforce+

lemma lit_cong: "lit \<rho> g l p \<Longrightarrow> p = q \<Longrightarrow> lit \<rho> g l q" by simp

section \<open>Conjunction, disjunction, parity, selection and majority\<close>

lemma aig_and_gives:
  assumes "lit \<rho> g a p" "lit \<rho> g b q"
  shows "gives g (aig_and a b g) (\<lambda>g' r. lit \<rho> g' r (p \<and> q))"
proof (rule gives_inv)
  assume inv: "aig_inv g"
  have main: "gives g (if a = FALSE \<or> a = b XOR 1 then Some (FALSE, g)
         else if a = TRUE \<or> a = b then Some (b, g)
         else case hash g (a, b) of
             Some l \<Rightarrow> Some (l, g)
           | None \<Rightarrow>
               let ns = nodes g @ [NAnd a b]; l = (length ns - 1) * 2
               in Some (l, \<lparr>nodes = ns, hash = (hash g)((a, b) := Some l)\<rparr>))
      (\<lambda>g' r. lit \<rho> g' r (p \<and> q))"
    if ab: "a \<le> b" and l: "lit \<rho> g a p" "lit \<rho> g b q" for a b p q
  proof -
    consider "a = FALSE" | "a = b XOR 1" | "a = TRUE" | "a = b" | (gate) "a \<noteq> FALSE" "a \<noteq> b XOR 1" "a \<noteq> TRUE" "a \<noteq> b"
      by blast
    then show ?thesis
    proof cases
      case 1
      then have "\<not> p" using l(1) lit_const(1) [OF inv] by simp
      then show ?thesis using 1 by (auto intro!: gives_return simp: lit_const [OF inv])
    next
      case 2
      then have "p = (\<not> q)" using l lit_inj by (metis lit_not)
      then show ?thesis using 2 by (auto intro!: gives_return simp: lit_const [OF inv])
    next
      case 3
      then have p using l(1) lit_const(2) [OF inv] by simp
      moreover have "b XOR 1 \<noteq> 1" using 3 ab by (metis lit_flip(2) not_one_le_zero xor_self_eq)
      ultimately show ?thesis using 3 l(2) by (auto intro!: gives_return)
    next
      case 4
      then have "p = q" using l lit_inj by metis
      moreover have "b \<noteq> b XOR 1" by (metis and_one_cases flip_sign(1) zero_neq_one)
      ultimately show ?thesis using 4 l(2) lit_const(1) [OF inv] by (auto intro!: gives_return)
    next
      case gate
      then have a1: "1 < a" "a < b" using ab by auto
      have ne: "b \<noteq> a XOR 1" using gate(2) lit_flip(2) by metis
      show ?thesis
      proof (cases "hash g (a, b)")
        case (Some h)
        then have h: "h AND 1 = 0" "valid g h" "nodes g ! (h div 2) = NAnd a b"
          using aig_invD(5) [OF inv] by auto
        have "val \<rho> g h = (p \<and> q)" using aig_inv_and(7) [OF inv h(2,3), of \<rho>] h(1) l by (simp add: lit_def)
        then show ?thesis using gate Some h(2) by (auto intro!: gives_return simp: lit_def)
      next
        case None
        define n where "n = length (nodes g)"
        define g' where "g' = \<lparr>nodes = nodes g @ [NAnd a b], hash = (hash g)((a, b) := Some (n * 2))\<rparr>"
        have e: "nodes g' = nodes g @ [NAnd a b]" "hash g' = (hash g)((a, b) := Some (n * 2))" by (simp_all add: g'_def)
        have le: "aig_le g g'" by (simp add: aig_le_def e)
        have bn: "b div 2 < n" using l(2) by (simp add: lit_def valid_def n_def)
        have "gate_ok g' i" if "i < length (nodes g')" for i
        proof (cases "i = n")
          case True
          then show ?thesis using a1 ne bn by (simp add: gate_ok_def e n_def nth_append)
        next
          case False
          then have i: "i < length (nodes g)" using that by (simp add: e n_def)
          have "hash g (a', b') = Some (2 * i) \<Longrightarrow> (a', b') \<noteq> (a, b)" for a' b' using None by auto
          then show ?thesis using aig_invD(4) [OF inv i] i by (auto simp: gate_ok_def e nth_append split: node.splits)
        qed
        moreover have "k AND 1 = 0 \<and> valid g' k \<and> nodes g' ! (k div 2) = NAnd a' b'"
          if "hash g' (a', b') = Some k" for a' b' k
        proof (cases "(a', b') = (a, b)")
          case True
          then show ?thesis using that by (auto simp: e n_def valid_def nth_append and_one_eq)
        next
          case False
          then have "hash g (a', b') = Some k" using that by (auto simp: e split: if_splits)
          then show ?thesis using aig_invD(5) [OF inv, of a' b' k] by (simp add: e valid_def nth_append)
        qed
        moreover have "nodes g' \<noteq> []" "nodes g' ! 0 = NConst" using inv by (simp_all add: e aig_inv_def nth_append)
        ultimately have inv': "aig_inv g'" unfolding aig_inv_def by simp
        have v: "valid g' (n * 2)" "nodes g' ! (n * 2 div 2) = NAnd a b" by (simp_all add: valid_def e n_def)
        have "lit \<rho> g' a p" "lit \<rho> g' b q" using l lit_mono le by blast+
        then have "lit \<rho> g' (n * 2) (p \<and> q)"
          using aig_inv_and(7) [OF inv' v, of \<rho>] v(1) by (simp add: lit_def and_one_eq)
        then show ?thesis using gate None inv' le by (auto simp: gives_def g'_def n_def Let_def)
      qed
    qed
  qed
  show "gives g (aig_and a b g) (\<lambda>g' r. lit \<rho> g' r (p \<and> q))"
  proof (cases "a \<le> b")
    case True
    then show ?thesis using main [OF True assms] by (simp add: aig_and_def)
  next
    case False
    then show ?thesis using main [of b a q p] assms by (simp add: aig_and_def conj_commute)
  qed
qed

lemma aig_or_gives:
  assumes "lit \<rho> g a p" "lit \<rho> g b q"
  shows "gives g (aig_or a b g) (\<lambda>g' r. lit \<rho> g' r (p \<or> q))"
  unfolding aig_or_def
  by (rule gives_bind, rule aig_and_gives [where p = "\<not> p" and q = "\<not> q"])
    (use assms in \<open>auto intro!: gives_return\<close>)

lemma xor_raw_gives:
  assumes "lit \<rho> g a p" "lit \<rho> g b q"
  shows "gives g (xor_raw a b g) (\<lambda>g' r. lit \<rho> g' r (p \<noteq> q))"
proof (rule gives_inv)
  assume inv: "aig_inv g"
  define pa pb k where "pa = (p \<noteq> (a AND 1 = 1))" and "pb = (q \<noteq> (b AND 1 = 1))" and "k = (a XOR b) AND 1"
  have k: "k < 2" "k = 1 \<longleftrightarrow> (a AND 1 = 1) \<noteq> (b AND 1 = 1)"
    using and_one_cases [of a] and_one_cases [of b] by (auto simp: k_def xor_sign)
  have a: "lit \<rho> g (plain a) pa" and b: "lit \<rho> g (plain b) pb"
    using assms lit_plain by (simp_all add: pa_def pb_def)
  have goal: "lit \<rho> g' (r XOR k) (p \<noteq> q)" if "lit \<rho> g' r (pa \<noteq> pb)" for g' r
    by (rule lit_cong [OF lit_xor_sign [OF that k(1)]]) (use k(2) in \<open>auto simp: pa_def pb_def\<close>)
  have e: "xor_raw a b g = (if plain a = FALSE then Some (plain b XOR k, g)
         else if plain b = FALSE then Some (plain a XOR k, g)
         else if plain a = plain b then Some (k, g)
         else do {
           (p, g) \<leftarrow> aig_and (plain a) (plain b XOR 1) g;
           (q, g) \<leftarrow> aig_and (plain a XOR 1) (plain b) g;
           (r, g) \<leftarrow> aig_or p q g;
           Some (r XOR k, g) })"
    by (simp add: xor_raw_def Let_def k_def)
  consider "plain a = FALSE" | "plain a \<noteq> FALSE" "plain b = FALSE" | "plain a \<noteq> FALSE" "plain b \<noteq> FALSE" "plain a = plain b"
    | "plain a \<noteq> FALSE" "plain b \<noteq> FALSE" "plain a \<noteq> plain b" by blast
  then show "gives g (xor_raw a b g) (\<lambda>g' r. lit \<rho> g' r (p \<noteq> q))"
  proof cases
    case 1
    then have "\<not> pa" using a lit_const(1) [OF inv] by simp
    then show ?thesis unfolding e using 1 b goal [of g "plain b"] by (simp add: gives_return)
  next
    case 2
    then have "\<not> pb" using b lit_const(1) [OF inv] by simp
    then show ?thesis unfolding e using 2 a goal [of g "plain a"] by (simp add: gives_return)
  next
    case 3
    then have "pa = pb" using a b lit_inj by metis
    then have "lit \<rho> g FALSE (pa \<noteq> pb)" by (simp add: lit_const [OF inv])
    then show ?thesis unfolding e using 3 goal [of g FALSE] by (simp add: gives_return)
  next
    case 4
    have "gives g (do {
           (p, g) \<leftarrow> aig_and (plain a) (plain b XOR 1) g;
           (q, g) \<leftarrow> aig_and (plain a XOR 1) (plain b) g;
           (r, g) \<leftarrow> aig_or p q g;
           Some (r XOR k, g) }) (\<lambda>g' r. lit \<rho> g' r (p \<noteq> q))"
    proof (rule gives_bind, rule aig_and_gives [OF a, where q = "\<not> pb"], goal_cases)
      case (2 x g1)
      show ?case unfolding prod.case
      proof (rule gives_bind, rule aig_and_gives [where \<rho> = \<rho> and p = "\<not> pa" and q = pb], goal_cases)
        case (3 y g2)
        show ?case unfolding prod.case
        proof (rule gives_bind, rule aig_or_gives [OF lit_mono [OF 2(2) 3(1)] 3(2)], goal_cases)
          case (1 z g3)
          show ?case unfolding prod.case by (rule gives_return, rule goal, rule lit_cong [OF 1(2)]) blast
        qed
      qed (use a b lit_mono 2 in auto)
    qed (use b in simp)
    then show ?thesis unfolding e using 4 by simp
  qed
qed

lemma aig_xor_gives:
  assumes "lit \<rho> g a p" "lit \<rho> g b q"
  shows "gives g (aig_xor a b g) (\<lambda>g' r. lit \<rho> g' r (p \<noteq> q))"
  unfolding aig_xor_def by (rule xor_raw_gives [OF assms])

text \<open>Parity over the positive literals, with the sign put back.\<close>

lemma xor_plain_gives:
  assumes "lit \<rho> g a p" "lit \<rho> g b q"
  shows "gives g (do { (r, g) \<leftarrow> xor_raw (plain a) (plain b) g; Some (f (r XOR ((a XOR b) AND 1)), g) })
    (\<lambda>g' r. \<exists>x. r = f x \<and> lit \<rho> g' x (p \<noteq> q))"
proof (rule gives_bind, rule xor_raw_gives [OF lit_plain [OF assms(1)] lit_plain [OF assms(2)]], goal_cases)
  case (1 x g')
  have "lit \<rho> g' (x XOR ((a XOR b) AND 1)) (p \<noteq> q)"
    by (rule lit_cong [OF lit_xor_sign [OF 1(2)]])
      (use and_one_cases [of a] and_one_cases [of b] in \<open>auto simp: xor_sign\<close>)
  then show ?case by (auto intro: gives_return)
qed

lemma xor_phase_gives:
  assumes "lit \<rho> g a p" "lit \<rho> g b q"
  shows "gives g (xor_phase a b g) (\<lambda>g' r. lit \<rho> g' r (p \<noteq> q))"
  unfolding xor_phase_def using xor_plain_gives [OF assms, where f = "\<lambda>x. x"] by simp

lemma aig_xnor_gives:
  assumes "lit \<rho> g a p" "lit \<rho> g b q"
  shows "gives g (aig_xnor a b g) (\<lambda>g' r. lit \<rho> g' r (p = q))"
  unfolding aig_xnor_def
  by (rule gives_bind, rule aig_xor_gives [OF assms]) (auto intro!: gives_return)

lemma aig_mux_gives:
  assumes "lit \<rho> g c p" "lit \<rho> g t q" "lit \<rho> g e r"
  shows "gives g (aig_mux c t e g) (\<lambda>g' x. lit \<rho> g' x (if p then q else r))"
proof (rule gives_inv)
  assume inv: "aig_inv g"
  consider "c = TRUE" | "t = e" | "c \<noteq> TRUE" "t \<noteq> e" "c = FALSE" | (gate) "c \<noteq> TRUE" "t \<noteq> e" "c \<noteq> FALSE" by blast
  then show ?thesis
  proof cases
    case 1
    then have p using assms(1) lit_const [OF inv] by simp
    then show ?thesis using 1 assms by (simp add: aig_mux_def gives_return)
  next
    case 2
    then have "q = r" using assms lit_inj by metis
    then show ?thesis using 2 assms by (simp add: aig_mux_def gives_return)
  next
    case 3
    then have "\<not> p" using assms(1) lit_const [OF inv] by simp
    then show ?thesis using 3 assms by (simp add: aig_mux_def gives_return)
  next
    case gate
    have "gives g (do { (p, g) \<leftarrow> aig_and c t g; (q, g) \<leftarrow> aig_and (c XOR 1) e g; aig_or p q g })
        (\<lambda>g' x. lit \<rho> g' x (if p then q else r))"
    proof (rule gives_bind, rule aig_and_gives [OF assms(1,2)], goal_cases)
      case (1 x g1)
      show ?case unfolding prod.case
      proof (rule gives_bind, rule aig_and_gives [where \<rho> = \<rho> and p = "\<not> p" and q = r], goal_cases)
        case (3 y g2)
        show ?case unfolding prod.case
          by (rule gives_weaken [OF aig_or_gives [OF lit_mono [OF 1(2) 3(1)] 3(2)]]) (auto elim: lit_cong)
      qed (use assms lit_mono 1 in auto)
    qed
    then show ?thesis using gate by (simp add: aig_mux_def)
  qed
qed

lemma maj_cases_gives:
  assumes "\<forall>(k, x, y)\<in>set cs. \<exists>p q r. lit \<rho> g k p \<and> lit \<rho> g x q \<and> lit \<rho> g y r \<and>
    m = ((p \<and> q) \<or> (p \<and> r) \<or> (q \<and> r))"
  shows "gives g (maj_cases cs g) (\<lambda>g' x. case x of None \<Rightarrow> True | Some x \<Rightarrow> lit \<rho> g' x m)"
  using assms
proof (induction cs)
  case Nil
  then show ?case by (simp add: gives_return)
next
  case (Cons kxy cs)
  obtain k x y where e: "kxy = (k, x, y)" by (cases kxy)
  then obtain p q r where l: "lit \<rho> g k p" "lit \<rho> g x q" "lit \<rho> g y r" and m: "m = ((p \<and> q) \<or> (p \<and> r) \<or> (q \<and> r))"
    using Cons.prems by auto
  have IH: "gives g (maj_cases cs g) (\<lambda>g' x. case x of None \<Rightarrow> True | Some x \<Rightarrow> lit \<rho> g' x m)"
    using Cons by auto
  show ?case
  proof (rule gives_inv)
    assume inv: "aig_inv g"
    have m0: "k = FALSE \<Longrightarrow> m = (q \<and> r)" "k = TRUE \<Longrightarrow> m = (q \<or> r)" using l(1) lit_const [OF inv] m by auto
    have m1: "x = y \<Longrightarrow> m = q" using l(2,3) lit_inj m by metis
    have m2: "x = y XOR 1 \<Longrightarrow> m = p" using l(2,3) lit_inj m lit_not by metis
    let ?P = "\<lambda>g' x. case x of None \<Rightarrow> True | Some x \<Rightarrow> lit \<rho> g' x m"
    have "k = FALSE \<Longrightarrow> gives g (do { (r, g) \<leftarrow> aig_and x y g; Some (Some r, g) }) ?P"
      by (rule gives_bind [OF aig_and_gives [OF l(2,3)]]) (simp add: gives_return m0)
    moreover have "k = TRUE \<Longrightarrow> gives g (do { (r, g) \<leftarrow> aig_or x y g; Some (Some r, g) }) ?P"
      by (rule gives_bind [OF aig_or_gives [OF l(2,3)]]) (simp add: gives_return m0)
    moreover have "x = y \<Longrightarrow> gives g (Some (Some x, g)) ?P" using l(2) by (intro gives_return) (simp add: m1)
    moreover have "x = y XOR 1 \<Longrightarrow> gives g (Some (Some k, g)) ?P" using l(1) by (intro gives_return) (simp add: m2)
    ultimately show "gives g (maj_cases (kxy # cs) g) ?P" unfolding e maj_cases.simps using IH by presburger
  qed
qed

lemma aig_maj_gives:
  assumes "lit \<rho> g a p" "lit \<rho> g b q" "lit \<rho> g c r"
  shows "gives g (aig_maj a b c g) (\<lambda>g' x. lit \<rho> g' x ((p \<and> q) \<or> (p \<and> r) \<or> (q \<and> r)))"
proof -
  define m where "m = ((p \<and> q) \<or> (p \<and> r) \<or> (q \<and> r))"
  have "gives g (aig_maj a b c g) (\<lambda>g' x. lit \<rho> g' x m)"
    unfolding aig_maj_def
  proof (rule gives_bind, rule maj_cases_gives [where \<rho> = \<rho> and m = m], goal_cases)
    case 1
    show ?case using assms by (auto simp: m_def)
  next
    case (2 x g1)
    note l = lit_mono [OF assms(1) 2(1)] lit_mono [OF assms(2) 2(1)] lit_mono [OF assms(3) 2(1)]
    show ?case
    proof (cases x)
      case (Some y)
      then show ?thesis using 2(2) by (simp add: gives_return)
    next
      case None
      have "gives g1 (do {
         (ab, g) \<leftarrow> aig_and a b g1;
         (ac, g) \<leftarrow> aig_and a c g;
         (bc, g) \<leftarrow> aig_and b c g;
         (t, g) \<leftarrow> aig_or ab ac g;
         aig_or t bc g }) (\<lambda>g' x. lit \<rho> g' x m)"
      proof (rule gives_bind, rule aig_and_gives [OF l(1,2)], goal_cases)
        case (1 ab g2)
        note l2 = l [THEN lit_mono, OF 1(1)]
        show ?case unfolding prod.case
        proof (rule gives_bind, rule aig_and_gives [OF l2(1,3)], goal_cases)
          case (1 ac g3)
          note l3 = l2 [THEN lit_mono, OF 1(1)] and ab = \<open>lit \<rho> g2 ab (p \<and> q)\<close> [THEN lit_mono, OF 1(1)]
          show ?case unfolding prod.case
          proof (rule gives_bind, rule aig_and_gives [OF l3(2,3)], goal_cases)
            case (1 bc g4)
            note ab4 = ab [THEN lit_mono, OF 1(1)] and ac4 = \<open>lit \<rho> g3 ac (p \<and> r)\<close> [THEN lit_mono, OF 1(1)]
            show ?case unfolding prod.case
            proof (rule gives_bind, rule aig_or_gives [OF ab4 ac4], goal_cases)
              case (1 t g5)
              show ?case unfolding prod.case
                by (rule gives_weaken [OF aig_or_gives [OF 1(2) \<open>lit \<rho> g4 bc (q \<and> r)\<close> [THEN lit_mono, OF 1(1)]]])
                  (simp add: m_def)
            qed
          qed
        qed
      qed
      then show ?thesis using None by simp
    qed
  qed
  then show ?thesis by (simp add: m_def)
qed

end
