(* ===== verification/Aig_Parity.thy ===== *)
theory Aig_Parity
  imports Aig_Gates
begin

unbundle bit_operations_syntax

text \<open>
  The larger simplifications of the graph: recognising parities and multiplexers in the nodes,
  cancelling shared parity terms and inputs, and factoring disjunctions of parities. Each leaves
  the value of its result that of the plain gate, and none of the bounded work arrays overflows.
\<close>

section \<open>Recognised gates\<close>

lemma node_at_valid: "valid g l \<Longrightarrow> node_at g l = Some (nodes g ! (l div 2))"
  by (simp add: node_at_def valid_def)

lemma odd_inner:
  assumes "aig_inv g" "valid g a" "a AND 1 \<noteq> 0" "nodes g ! (a div 2) = NAnd p q"
  shows "val \<rho> g a = (\<not> (val \<rho> g p \<and> val \<rho> g q))"
  using aig_inv_and(7) [OF assms(1,2,4), of \<rho>] assms(3) and_one_cases [of a] by auto

lemma val_flip: "valid g l \<Longrightarrow> val \<rho> g (l XOR 1) = (\<not> val \<rho> g l)"
  using lit_not [of \<rho> g l "\<not> val \<rho> g l"] by (auto simp: lit_def)

lemma valid_flip [simp]: "valid g (l XOR 1) = valid g l"
  by (simp add: valid_def)

lemma valid_xor_sign: "k < 2 \<Longrightarrow> valid g (l XOR k) = valid g l"
  by (simp add: valid_def lit_phase)

lemma val_xor_sign: "valid g l \<Longrightarrow> k < 2 \<Longrightarrow> val \<rho> g (l XOR k) = (val \<rho> g l \<noteq> (k = 1))"
  using lit_xor_sign [of \<rho> g l "val \<rho> g l" k] by (auto simp: lit_def)

lemma xor_children_cases:
  assumes "aig_inv g" "valid g l"
  shows "\<exists>r. xor_children g l = Some r \<and> (case r of
      None \<Rightarrow> True
    | Some (x, y) \<Rightarrow> valid g x \<and> valid g y \<and> x div 2 < l div 2 \<and> y div 2 < l div 2 \<and>
        nodes g ! (l div 2) \<noteq> NInput \<and> (\<forall>\<rho>. val \<rho> g l = (val \<rho> g x \<noteq> val \<rho> g y)))"
proof (cases "nodes g ! (l div 2)")
  case (NAnd a b)
  note ab = aig_inv_and [OF assms NAnd]
  show ?thesis
  proof (cases "a AND 1 = 0 \<or> b AND 1 = 0")
    case True
    then show ?thesis using NAnd by (simp add: xor_children_def node_at_valid [OF assms(2)])
  next
    case odd: False
    show ?thesis
    proof (cases "\<exists>p q r s. nodes g ! (a div 2) = NAnd p q \<and> nodes g ! (b div 2) = NAnd r s \<and>
        ((r = p XOR 1 \<and> s = q XOR 1) \<or> (r = q XOR 1 \<and> s = p XOR 1))")
      case False
      then have "xor_children g l = Some None"
        using NAnd odd ab(3,4)
        by (auto simp: xor_children_def node_at_valid assms(2) split: node.splits)
      then show ?thesis by simp
    next
      case True
      then obtain p q r s where n: "nodes g ! (a div 2) = NAnd p q" "nodes g ! (b div 2) = NAnd r s"
        and rs: "(r = p XOR 1 \<and> s = q XOR 1) \<or> (r = q XOR 1 \<and> s = p XOR 1)" by blast
      have e: "xor_children g l = Some (Some (p, q XOR (l AND 1)))"
        using NAnd odd ab(3,4) n rs by (simp add: xor_children_def node_at_valid assms(2))
      note A = aig_inv_and [OF assms(1) ab(3) n(1)] and B = aig_inv_and [OF assms(1) ab(4) n(2)]
      have pq: "valid g p" "valid g q" "p div 2 < l div 2" "q div 2 < l div 2"
        using A(1-4) ab(1) by auto
      have "val \<rho> g l = (val \<rho> g p \<noteq> val \<rho> g (q XOR (l AND 1)))" for \<rho>
      proof -
        have "val \<rho> g a = (\<not> (val \<rho> g p \<and> val \<rho> g q))" "val \<rho> g b = (\<not> (val \<rho> g r \<and> val \<rho> g s))"
          using odd_inner [OF assms(1) ab(3) _ n(1)] odd_inner [OF assms(1) ab(4) _ n(2)] odd by auto
        moreover have "(val \<rho> g r \<and> val \<rho> g s) = (\<not> val \<rho> g p \<and> \<not> val \<rho> g q)"
          using rs val_flip pq(1,2) by auto
        ultimately show ?thesis
          unfolding ab(7) val_xor_sign [OF pq(2) and_one_less] by auto
      qed
      then show ?thesis unfolding e using pq NAnd by (simp add: valid_xor_sign lit_phase)
    qed
  qed
qed (simp_all add: xor_children_def node_at_valid [OF assms(2)])

lemma xor_children_lit:
  assumes "aig_inv g" "lit \<rho> g l b" "xor_children g l = Some (Some (x, y))"
  shows "\<exists>p q. lit \<rho> g x p \<and> lit \<rho> g y q \<and> b = (p \<noteq> q)"
  using xor_children_cases [of g l] assms by (auto simp: lit_def)

lemma xor_children_some:
  assumes "aig_inv g" "valid g l"
  obtains r where "xor_children g l = Some r"
  using xor_children_cases [OF assms] by blast

lemma find_some: "find P xs = Some x \<Longrightarrow> P x \<and> x \<in> set xs"
  by (auto simp: find_Some_iff in_set_conv_nth)

lemma mux_children_cases:
  assumes "aig_inv g" "valid g l"
  shows "\<exists>r. mux_children g l = Some r \<and> (case r of
      None \<Rightarrow> True
    | Some (c, t, e) \<Rightarrow> valid g c \<and> valid g t \<and> valid g e \<and>
        (\<forall>\<rho>. val \<rho> g l = (if val \<rho> g c then val \<rho> g t else val \<rho> g e)))"
proof (cases "nodes g ! (l div 2)")
  case (NAnd a b)
  note ab = aig_inv_and [OF assms NAnd]
  show ?thesis
  proof (cases "a AND 1 = 0 \<or> b AND 1 = 0")
    case True
    then show ?thesis using NAnd by (simp add: mux_children_def node_at_valid [OF assms(2)])
  next
    case odd: False
    show ?thesis
    proof (cases "\<exists>p q r s. nodes g ! (a div 2) = NAnd p q \<and> nodes g ! (b div 2) = NAnd r s")
      case False
      then have "mux_children g l = Some None"
        using NAnd odd ab(3,4)
        by (auto simp: mux_children_def node_at_valid assms(2) split: node.splits)
      then show ?thesis by simp
    next
      case True
      then obtain p q r s where n: "nodes g ! (a div 2) = NAnd p q" "nodes g ! (b div 2) = NAnd r s" by blast
      note A = aig_inv_and [OF assms(1) ab(3) n(1)] and B = aig_inv_and [OF assms(1) ab(4) n(2)]
      define cs where "cs = [(p, q, r, s), (p, q, s, r), (q, p, r, s), (q, p, s, r)]"
      define f where "f = find (\<lambda>(c, t, d, e). c = d XOR 1) cs"
      have e: "mux_children g l = (case f of
           None \<Rightarrow> Some None
         | Some (c, t, d, e) \<Rightarrow>
             let invert = (l AND 1) XOR 1; t = t XOR invert; e = e XOR invert
             in Some (Some (if c AND 1 = 0 then (c, t, e) else (c XOR 1, e, t))))"
        unfolding f_def cs_def using NAnd odd ab(3,4) n by (simp add: mux_children_def node_at_valid assms(2))
      show ?thesis
      proof (cases f)
        case None
        then show ?thesis unfolding e by simp
      next
        case (Some x)
        obtain c t d u where x: "x = (c, t, d, u)" by (cases x)
        have "c = d XOR 1" and "(c, t, d, u) \<in> set cs" using Some x find_some unfolding f_def by fastforce+
        then have cd: "(c = p \<and> t = q) \<or> (c = q \<and> t = p)" "(d = r \<and> u = s) \<or> (d = s \<and> u = r)"
          by (auto simp: cs_def)
        have v: "valid g c" "valid g t" "valid g d" "valid g u" using cd A(3,4) B(3,4) by auto
        define k where "k = (l AND 1) XOR 1"
        have k: "k < 2" "k = 1 \<longleftrightarrow> l AND 1 = 0" using and_one_cases [of l] by (auto simp: k_def)
        have m: "val \<rho> g l = (if val \<rho> g c then val \<rho> g (t XOR k) else val \<rho> g (u XOR k))" for \<rho>
        proof -
          have "val \<rho> g a = (\<not> (val \<rho> g c \<and> val \<rho> g t))" "val \<rho> g b = (\<not> (val \<rho> g d \<and> val \<rho> g u))"
            using odd_inner [OF assms(1) ab(3) _ n(1)] odd_inner [OF assms(1) ab(4) _ n(2)] odd cd by auto
          moreover have "val \<rho> g c = (\<not> val \<rho> g d)" using \<open>c = d XOR 1\<close> val_flip [OF v(3)] by simp
          ultimately show ?thesis
            unfolding ab(7) val_xor_sign [OF v(2) k(1)] val_xor_sign [OF v(4) k(1)] k(2)
            using and_one_cases [of l] by auto
        qed
        have "mux_children g l = Some (Some (if c AND 1 = 0 then (c, t XOR k, u XOR k) else (c XOR 1, u XOR k, t XOR k)))"
          unfolding e Some x by (simp add: Let_def k_def)
        then show ?thesis using v m k(1) val_flip [OF v(1)] by (auto simp: valid_xor_sign)
      qed
    qed
  qed
qed (simp_all add: mux_children_def node_at_valid [OF assms(2)])

lemma mux_children_lit:
  assumes "aig_inv g" "lit \<rho> g l b" "mux_children g l = Some (Some (c, t, e))"
  shows "\<exists>p q r. lit \<rho> g c p \<and> lit \<rho> g t q \<and> lit \<rho> g e r \<and> b = (if p then q else r)"
  using mux_children_cases [of g l] assms by (auto simp: lit_def)

lemma mux_children_some:
  assumes "aig_inv g" "valid g l"
  obtains r where "mux_children g l = Some r"
  using mux_children_cases [OF assms] by blast

lemma xor_children_mono:
  assumes "aig_inv g" "aig_le g g'" "valid g l"
  shows "xor_children g' l = xor_children g l"
proof -
  have n: "node_at g' k = node_at g k" if "valid g k" for k
    using that assms(2) by (auto simp: node_at_def valid_def aig_le_def nth_append)
  show ?thesis
  proof (cases "nodes g ! (l div 2)")
    case (NAnd a b)
    then show ?thesis
      using n [OF assms(3)] n [OF aig_inv_and(3) [OF assms(1,3) NAnd]] n [OF aig_inv_and(4) [OF assms(1,3) NAnd]]
      by (simp add: xor_children_def node_at_valid [OF assms(3)])
  qed (use n [OF assms(3)] in \<open>simp_all add: xor_children_def node_at_valid [OF assms(3)]\<close>)
qed


section \<open>Cancelling a shared input\<close>

text \<open>\<open>leaf g n l t\<close>: \<open>t\<close> is a leaf of the parity tree of \<open>l\<close>, at most \<open>n\<close> levels down.\<close>

primrec leaf :: "Aig \<Rightarrow> nat \<Rightarrow> L \<Rightarrow> L \<Rightarrow> bool" where
  "leaf g 0 l t \<longleftrightarrow> plain l = t"
| "leaf g (Suc n) l t \<longleftrightarrow> plain l = t \<or>
     (\<exists>x y. xor_children g l = Some (Some (x, y)) \<and> (leaf g n x t \<or> leaf g n y t))"

lemma leaf_mono:
  assumes "aig_inv g" "aig_le g g'" "valid g l"
  shows "leaf g' n l t = leaf g n l t"
  using assms(3)
proof (induction n arbitrary: l)
  case (Suc n)
  have "leaf g' n x t = leaf g n x t" "leaf g' n y t = leaf g n y t" if "xor_children g l = Some (Some (x, y))" for x y
    using that xor_children_cases [OF assms(1) Suc.prems] Suc.IH by auto
  then show ?case by (auto simp: xor_children_mono [OF assms(1,2) Suc.prems])
qed simp

lemma xor_inputs_correct:
  assumes "aig_inv g" "\<forall>(l, d)\<in>set stack. valid g l \<and> d \<le> 5"
    "(\<Sum>(l, d)\<leftarrow>stack. 2 ^ (5 - d)) + length ins \<le> 32"
  shows "\<exists>out. xor_inputs g stack ins = Some out \<and>
    (\<forall>t\<in>set out. t \<in> set ins \<or> valid g t \<and> t AND 1 = 0 \<and> (\<exists>(l, d)\<in>set stack. leaf g (5 - d) l t))"
  using assms
proof (induction g stack ins rule: xor_inputs.induct)
  case (2 g l d stack ins)
  note inv = 2(4)
  have l: "valid g l" "d \<le> 5" and st: "\<forall>(l, d)\<in>set stack. valid g l \<and> d \<le> 5" using 2(5) by auto
  have sum: "2 ^ (5 - d) + (\<Sum>(l, d)\<leftarrow>stack. 2 ^ (5 - d)) + length ins \<le> 32" using 2(6) by simp
  have len: "length stack \<le> (\<Sum>(l, d)\<leftarrow>stack. 2 ^ (5 - d))" for stack :: "(L \<times> nat) list"
  proof (induction stack)
    case (Cons x stack)
    have "(1::nat) \<le> 2 ^ (5 - snd x)" by simp
    from add_mono [OF this Cons.IH] show ?case by (simp add: split_def One_nat_def)
  qed simp
  obtain r where r: "(if d < 5 then xor_children g l else Some None) = Some r"
    by (cases "d < 5") (auto elim: xor_children_some [OF inv l(1)])
  show ?case
  proof (cases r)
    case None
    obtain n where n: "node_at g l = Some n" using node_at_valid [OF l(1)] by simp
    have one: "(1::nat) \<le> 2 ^ (5 - d)" by simp
    show ?thesis
    proof (cases "n = NInput")
      case True
      have "length ins < 32" using sum one by linarith
      moreover have "(\<Sum>(l, d)\<leftarrow>stack. 2 ^ (5 - d)) + length (ins @ [plain l]) \<le> 32"
      proof -
        have "length (ins @ [plain l]) = length ins + 1" by (simp add: One_nat_def)
        then show ?thesis using sum one by linarith
      qed
      ultimately obtain out where "xor_inputs g ((l, d) # stack) ins = Some out"
        "\<forall>t\<in>set out. t \<in> set (ins @ [plain l]) \<or> valid g t \<and> t AND 1 = 0 \<and> (\<exists>(l, d)\<in>set stack. leaf g (5 - d) l t)"
        using 2(1) [OF r None n True _ inv st] None n True r by auto
      moreover have "leaf g (5 - d) l (plain l)" by (cases "5 - d") simp_all
      moreover have "valid g (plain l)" using l(1) by (simp add: valid_def)
      ultimately show ?thesis by auto
    next
      case False
      have "(\<Sum>(l, d)\<leftarrow>stack. 2 ^ (5 - d)) + length ins \<le> 32" using sum by simp
      then obtain out where "xor_inputs g ((l, d) # stack) ins = Some out"
        "\<forall>t\<in>set out. t \<in> set ins \<or> valid g t \<and> t AND 1 = 0 \<and> (\<exists>(l, d)\<in>set stack. leaf g (5 - d) l t)"
        using 2(2) [OF r None n False inv st] None n False r by auto
      then show ?thesis by auto
    qed
  next
    case (Some xy)
    obtain x y where xy: "xy = (x, y)" by (cases xy)
    have d: "d < 5" and ch: "xor_children g l = Some (Some (x, y))" using r Some xy by (auto split: if_splits)
    have v: "valid g x" "valid g y" using xor_children_cases [OF inv l(1)] ch by auto
    have p: "(2::nat) ^ (5 - d) = 2 ^ (5 - (d + 1)) + 2 ^ (5 - (d + 1))" "(1::nat) \<le> 2 ^ (5 - (d + 1))"
      using d by (simp_all add: Suc_diff_Suc flip: power_Suc mult_2)
    have "length stack + 2 \<le> 32" using len [of stack] sum p by linarith
    moreover have "(\<Sum>(l, d)\<leftarrow>(y, d + 1) # (x, d + 1) # stack. 2 ^ (5 - d)) + length ins \<le> 32" using sum p by simp
    moreover have "\<forall>(l, d)\<in>set ((y, d + 1) # (x, d + 1) # stack). valid g l \<and> d \<le> 5" using v d st by auto
    ultimately obtain out where "xor_inputs g ((l, d) # stack) ins = Some out"
      "\<forall>t\<in>set out. t \<in> set ins \<or> valid g t \<and> t AND 1 = 0 \<and>
        (\<exists>(l, d)\<in>set ((y, d + 1) # (x, d + 1) # stack). leaf g (5 - d) l t)"
      using 2(3) [OF r Some xy [symmetric] _ inv] Some xy r by auto
    moreover have "leaf g (5 - d) l t" if "leaf g (5 - (d + 1)) x t \<or> leaf g (5 - (d + 1)) y t" for t
    proof -
      have "5 - d = Suc (5 - (d + 1))" using d by simp
      then show ?thesis using that ch by auto
    qed
    ultimately show ?thesis by (auto 4 3)
  qed
qed simp


lemma xor_without_gives:
  assumes "lit \<rho> g l b" "lit \<rho> g t q"
  shows "gives g (xor_without_input n l t g)
    (\<lambda>g' r. case r of None \<Rightarrow> g' = g \<and> \<not> leaf g n l t | Some x \<Rightarrow> lit \<rho> g' x (b \<noteq> q))"
proof (rule gives_inv)
  assume inv: "aig_inv g"
  have hit: "gives g (xor_without_input n l t g)
      (\<lambda>g' r. case r of None \<Rightarrow> g' = g \<and> \<not> leaf g n l t | Some x \<Rightarrow> lit \<rho> g' x (b \<noteq> q))"
    if "plain l = t" "lit \<rho> g l b" for n l b
  proof -
    have "(b \<noteq> q) = (l AND 1 = 1)" using lit_inj [OF assms(2)] lit_plain [OF that(2)] that(1) by blast
    then have "lit \<rho> g (l AND 1) (b \<noteq> q)" using and_one_cases [of l] lit_const [OF inv] by auto
    then show ?thesis using that(1) by (simp add: xor_without_input.simps gives_return)
  qed
  show "gives g (xor_without_input n l t g)
      (\<lambda>g' r. case r of None \<Rightarrow> g' = g \<and> \<not> leaf g n l t | Some x \<Rightarrow> lit \<rho> g' x (b \<noteq> q))"
    using assms(1)
  proof (induction n arbitrary: l b)
    case (0 l b)
    show ?case
    proof (cases "plain l = t")
      case False
      then show ?thesis by (simp add: xor_without_input.simps gives_return)
    qed (rule hit [OF _ 0])
  next
    case (Suc n l b)
    show ?case
    proof (cases "plain l = t")
      case miss: False
      have vl: "valid g l" using Suc.prems by (simp add: lit_def)
      obtain r where r: "xor_children g l = Some r" using xor_children_some [OF inv vl] .
      show ?thesis
      proof (cases r)
        case None
        then show ?thesis using miss r by (simp add: xor_without_input.simps gives_return)
      next
        case (Some xy)
        obtain x y where "xy = (x, y)" by (cases xy)
        then have ch: "xor_children g l = Some (Some (x, y))" using r Some by simp
        obtain px py where c: "lit \<rho> g x px" "lit \<rho> g y py" "b = (px \<noteq> py)"
          using xor_children_lit [OF inv Suc.prems ch] by blast
        let ?P = "\<lambda>g' r. case r of None \<Rightarrow> g' = g \<and> \<not> leaf g (Suc n) l t | Some x \<Rightarrow> lit \<rho> g' x (b \<noteq> q)"
        have second: "gives g (do {
              (r, g) \<leftarrow> xor_without_input n y t g;
              case r of
                None \<Rightarrow> Some (None, g)
              | Some b \<Rightarrow> do {
                  (z, g) \<leftarrow> xor_raw (plain x) (plain b) g;
                  Some (Some (z XOR ((x XOR b) AND 1)), g) } }) ?P" if nx: "\<not> leaf g n x t"
        proof (rule gives_bind, rule Suc.IH [OF c(2)], goal_cases)
          case (1 r2 g2)
          show ?case
          proof (cases r2)
            case None
            then show ?thesis using 1 nx miss ch by (auto intro!: gives_return)
          next
            case (Some z)
            then have z: "lit \<rho> g2 z (py \<noteq> q)" using 1 by simp
            show ?thesis unfolding Some prod.case option.case
              by (rule gives_weaken [OF xor_plain_gives [OF lit_mono [OF c(1) 1(1)] z, where f = Some]])
                (auto simp: c(3) elim: lit_cong)
          qed
        qed
        have "gives g (do {
              (r, g) \<leftarrow> xor_without_input n x t g;
              case r of
                Some a \<Rightarrow> do {
                  (z, g) \<leftarrow> xor_raw (plain a) (plain y) g;
                  Some (Some (z XOR ((a XOR y) AND 1)), g) }
              | None \<Rightarrow> do {
                  (r, g) \<leftarrow> xor_without_input n y t g;
                  case r of
                    None \<Rightarrow> Some (None, g)
                  | Some b \<Rightarrow> do {
                      (z, g) \<leftarrow> xor_raw (plain x) (plain b) g;
                      Some (Some (z XOR ((x XOR b) AND 1)), g) } } }) ?P"
        proof (rule gives_bind, rule Suc.IH [OF c(1)], goal_cases)
          case (1 r1 g1)
          show ?case
          proof (cases r1)
            case None
            then have "g1 = g" "\<not> leaf g n x t" using 1 by simp_all
            then show ?thesis unfolding None prod.case option.case by (simp only: second [OF \<open>\<not> leaf g n x t\<close>])
          next
            case (Some z)
            then have z: "lit \<rho> g1 z (px \<noteq> q)" using 1 by simp
            show ?thesis unfolding Some prod.case option.case
              by (rule gives_weaken [OF xor_plain_gives [OF z lit_mono [OF c(2) 1(1)], where f = Some]])
                (auto simp: c(3) elim: lit_cong)
          qed
        qed
        then show ?thesis
          unfolding xor_without_input.simps [of "Suc n"] ch
          by (simp only: miss if_False nat.case Option.bind.simps option.case prod.case)
      qed
    qed (rule hit [OF _ Suc.prems])
  qed
qed

lemma fold_max_mem: "fold max ls (l::nat) \<in> set (l # ls)"
proof (induction ls arbitrary: l)
  case (Cons a ls)
  then show ?case using Cons.IH [of "max a l"] by (auto simp: max_def split: if_splits)
qed simp

lemma xor_cancel_input_gives:
  assumes "lit \<rho> g a p" "lit \<rho> g b q"
  shows "gives g (xor_cancel_input a b g) (\<lambda>g' r. lit \<rho> g' r (p \<noteq> q))"
proof (rule gives_inv)
  assume inv: "aig_inv g"
  have va: "valid g a" "valid g b" using assms by (simp_all add: lit_def)
  have inputs: "\<exists>out. xor_inputs g [(l, 0)] [] = Some out \<and> (\<forall>t\<in>set out. valid g t \<and> t AND 1 = 0 \<and> leaf g 5 l t)"
    if "valid g l" for l
    using xor_inputs_correct [OF inv, of "[(l, 0)]" "[]"] that by simp
  show ?thesis
  proof (cases "a \<le> TRUE \<or> b \<le> TRUE \<or> a div 2 = b div 2")
    case True
    then show ?thesis using xor_raw_gives [OF assms] by (simp add: xor_cancel_input_def)
  next
    case False
    obtain ia where ia: "xor_inputs g [(a, 0)] [] = Some ia" "\<forall>t\<in>set ia. valid g t \<and> t AND 1 = 0 \<and> leaf g 5 a t"
      using inputs [OF va(1)] by blast
    obtain ib where ib: "xor_inputs g [(b, 0)] [] = Some ib" "\<forall>t\<in>set ib. valid g t \<and> t AND 1 = 0 \<and> leaf g 5 b t"
      using inputs [OF va(2)] by blast
    show ?thesis
    proof (cases "filter (\<lambda>l. l \<in> set ib) ia")
      case Nil
      then show ?thesis using False ia(1) ib(1) xor_raw_gives [OF assms] by (simp add: xor_cancel_input_def)
    next
      case (Cons l ls)
      define t where "t = fold max ls l"
      have "t \<in> set (filter (\<lambda>l. l \<in> set ib) ia)" unfolding Cons t_def by (rule fold_max_mem)
      then have lf: "leaf g 5 a t" "leaf g 5 b t" and vt: "valid g t" using ia(2) ib(2) by auto
      define c where "c = val \<rho> g t"
      have lt: "lit \<rho> g t c" using vt by (simp add: lit_def c_def)
      have "gives g (do {
              (ra, g) \<leftarrow> xor_without_input 5 a t g;
              a \<leftarrow> ra;
              (rb, g) \<leftarrow> xor_without_input 5 b t g;
              b \<leftarrow> rb;
              xor_raw a b g }) (\<lambda>g' r. lit \<rho> g' r (p \<noteq> q))"
      proof (rule gives_bind, rule xor_without_gives [OF assms(1) lt], goal_cases)
        case (1 ra g1)
        then obtain x where x: "ra = Some x" "lit \<rho> g1 x (p \<noteq> c)" using lf(1) by (cases ra) auto
        have "gives g1 (do {
              (rb, g) \<leftarrow> xor_without_input 5 b t g1;
              b \<leftarrow> rb;
              xor_raw x b g }) (\<lambda>g' r. lit \<rho> g' r (p \<noteq> q))"
        proof (rule gives_bind, rule xor_without_gives [OF lit_mono [OF assms(2) 1(1)] lit_mono [OF lt 1(1)]], goal_cases)
          case (1 rb g2)
          have "leaf g1 5 b t" using leaf_mono [OF inv \<open>aig_le g g1\<close> va(2)] lf(2) by simp
          then obtain y where y: "rb = Some y" "lit \<rho> g2 y (q \<noteq> c)" using 1(2) by (cases rb) auto
          show ?case unfolding y(1) prod.case Option.bind.simps
            by (rule gives_weaken [OF xor_raw_gives [OF lit_mono [OF x(2) 1(1)] y(2)]]) (auto elim: lit_cong)
        qed
        then show ?case using x(1) by simp
      qed
      then show ?thesis using False ia(1) ib(1) Cons by (simp add: xor_cancel_input_def t_def [symmetric] Let_def)
    qed
  qed
qed

end
