(* ===== verification/Aig_Cancel.thy ===== *)
theory Aig_Cancel
  imports Aig_Parity
begin

unbundle bit_operations_syntax

section \<open>Cancelling shared parity terms\<close>

text \<open>The parity of a list of literals.\<close>

primrec par :: "(nat \<Rightarrow> bool) \<Rightarrow> Aig \<Rightarrow> L list \<Rightarrow> bool" where
  "par \<rho> g [] = False"
| "par \<rho> g (l # ls) = (val \<rho> g l \<noteq> par \<rho> g ls)"

lemma par_append: "par \<rho> g (ls @ ms) = (par \<rho> g ls \<noteq> par \<rho> g ms)"
  by (induction ls) auto

lemma par_replicate: "par \<rho> g (replicate n l) = (val \<rho> g l \<and> odd n)"
  by (induction n) auto

lemma par_insort: "par \<rho> g (insort l ls) = (val \<rho> g l \<noteq> par \<rho> g ls)"
  by (induction ls) auto

lemma par_sort: "par \<rho> g (sort ls) = par \<rho> g ls"
  by (induction ls) (auto simp: par_insort)

lemma keep_odd_par:
  assumes "\<not> val \<rho> g FALSE"
  shows "par \<rho> g (keep_odd ls) = par \<rho> g ls"
proof (induction ls rule: keep_odd.induct)
  case (2 l ls)
  define n where "n = length (takeWhile (\<lambda>x. x = l) ls)"
  define rest where "rest = dropWhile (\<lambda>x. x = l) ls"
  have IH: "par \<rho> g (keep_odd rest) = par \<rho> g rest" using 2 by (simp add: rest_def)
  have "replicate n l = takeWhile (\<lambda>x. x = l) ls"
    unfolding n_def by (rule replicate_length_same) (auto dest: set_takeWhileD)
  then have "ls = replicate n l @ rest" by (simp add: rest_def)
  then have "par \<rho> g (l # ls) = ((val \<rho> g l \<and> odd (Suc n)) \<noteq> par \<rho> g rest)"
    by (auto simp: par_append par_replicate)
  moreover have "keep_odd (l # ls) = (if odd (Suc n) \<and> l \<noteq> FALSE then l # keep_odd rest else keep_odd rest)"
  proof -
    have "(k AND 1 = 1) = odd k" for k :: nat by (simp add: and_one_eq odd_iff_mod_2_eq_one)
    then show ?thesis by (simp add: n_def rest_def Let_def)
  qed
  ultimately show ?case using IH assms by auto
qed simp

lemma keep_odd_set: "set (keep_odd ls) \<subseteq> set ls"
proof (induction ls rule: keep_odd.induct)
  case (2 l ls)
  have "set (dropWhile (\<lambda>x. x = l) ls) \<subseteq> set ls" by (auto dest: set_dropWhileD)
  then show ?case using 2 by (auto simp: Let_def)
qed simp

lemma cancel_loop_correct:
  assumes "aig_inv g" "\<forall>l\<in>set stack. valid g l" "\<forall>l\<in>set leaves. valid g l" "polarity < 2"
  shows "\<exists>r. cancel_loop g stack leaves polarity visits = Some r \<and> (case r of
      None \<Rightarrow> True
    | Some (ls, k) \<Rightarrow> (\<forall>l\<in>set ls. valid g l) \<and> k < 2 \<and>
        (par \<rho> g ls \<noteq> (k = 1)) = (par \<rho> g stack \<noteq> (par \<rho> g leaves \<noteq> (polarity = 1))))"
  using assms
proof (induction g stack leaves polarity visits rule: cancel_loop.induct)
  case (2 g l stack leaves k visits)
  note inv = 2(3)
  have l: "valid g l" using 2(4) by simp
  obtain r where r: "xor_children g l = Some r" using xor_children_some [OF inv l] .
  show ?case
  proof (cases "visits + 1 > 64")
    case False
    show ?thesis
    proof (cases r)
      case None
      show ?thesis
      proof (cases "length leaves = 16")
        case True
        then show ?thesis using False r None by (simp add: Let_def)
      next
        case short: False
        have k: "k XOR (l AND 1) < 2" "(k XOR (l AND 1) = 1) = ((k = 1) \<noteq> (l AND 1 = 1))"
          using 2(6) and_one_cases [of l] by (auto simp: less_two)
        have e: "cancel_loop g (l # stack) leaves k visits =
            cancel_loop g stack (leaves @ [plain l]) (k XOR (l AND 1)) (visits + 1)"
          using False r None short by (simp add: Let_def)
        have "val \<rho> g (plain l) = (val \<rho> g l \<noteq> (l AND 1 = 1))"
          using lit_plain [of \<rho> g l "val \<rho> g l"] l by (simp add: lit_def)
        then have eq: "(par \<rho> g stack \<noteq> (par \<rho> g (leaves @ [plain l]) \<noteq> (k XOR (l AND 1) = 1))) =
            (par \<rho> g (l # stack) \<noteq> (par \<rho> g leaves \<noteq> (k = 1)))"
          unfolding k(2) by (auto simp: par_append)
        have "\<forall>l\<in>set stack. valid g l" "\<forall>l\<in>set (leaves @ [plain l]). valid g l"
          using 2(4,5) l by (auto simp: valid_def)
        from 2(1) [OF refl False r None short inv this k(1)] show ?thesis unfolding e eq .
      qed
    next
      case (Some xy)
      obtain x y where xy: "xy = (x, y)" by (cases xy)
      then have ch: "xor_children g l = Some (Some (x, y))" using r Some by simp
      have v: "valid g x" "valid g y" "val \<rho> g l = (val \<rho> g x \<noteq> val \<rho> g y)"
        using xor_children_cases [OF inv l] ch by auto
      show ?thesis
      proof (cases "length stack + 2 > 32")
        case True
        then show ?thesis using False ch by (simp add: Let_def)
      next
        case room: False
        have e: "cancel_loop g (l # stack) leaves k visits = cancel_loop g (y # x # stack) leaves k (visits + 1)"
          using False ch room by (simp add: Let_def)
        have eq: "(par \<rho> g (y # x # stack) \<noteq> (par \<rho> g leaves \<noteq> (k = 1))) =
            (par \<rho> g (l # stack) \<noteq> (par \<rho> g leaves \<noteq> (k = 1)))"
          using v(3) by auto
        have "\<forall>l\<in>set (y # x # stack). valid g l" using 2(4) v by simp
        from 2(2) [OF refl False r Some xy [symmetric] room inv this 2(5,6)] show ?thesis unfolding e eq .
      qed
    qed
  qed (simp add: Let_def)
qed simp

lemma xor_fold_gives:
  assumes "\<forall>l\<in>set ls. valid g l" "lit \<rho> g acc b"
  shows "gives g (build_fold (\<lambda>l out g. xor_raw out l g) ls acc g) (\<lambda>g' r. lit \<rho> g' r (b \<noteq> par \<rho> g ls))"
  using assms
proof (induction ls arbitrary: acc b g)
  case Nil
  then show ?case by (auto intro: gives_return)
next
  case (Cons l ls)
  have l: "lit \<rho> g l (val \<rho> g l)" using Cons.prems(1) by (simp add: lit_def)
  show ?case unfolding build_fold.simps
  proof (rule gives_bind, rule xor_raw_gives [OF Cons.prems(2) l], goal_cases)
    case (1 x g1)
    have "\<forall>l\<in>set ls. valid g1 l" using Cons.prems(1) valid_mono [OF 1(1)] by simp
    moreover have "par \<rho> g1 ls = par \<rho> g ls"
      using Cons.prems(1) val_mono [OF 1(1)] by (induction ls) auto
    ultimately show ?case unfolding prod.case
      by (intro gives_weaken [OF Cons.IH [OF _ 1(2)]]) (auto elim: lit_cong)
  qed
qed

lemma cancel_xor_gives:
  assumes "lit \<rho> g a p" "lit \<rho> g b q"
  shows "gives g (cancel_xor a b g) (\<lambda>g' r. case r of None \<Rightarrow> g' = g | Some x \<Rightarrow> lit \<rho> g' x (p \<noteq> q))"
proof (rule gives_inv)
  assume inv: "aig_inv g"
  have v: "valid g a" "valid g b" using assms by (simp_all add: lit_def)
  obtain ca where ca: "xor_children g a = Some ca" using xor_children_some [OF inv v(1)] .
  obtain cb where cb: "xor_children g b = Some cb" using xor_children_some [OF inv v(2)] .
  let ?P = "\<lambda>g' r. case r of None \<Rightarrow> g' = g | Some x \<Rightarrow> lit \<rho> g' x (p \<noteq> q)"
  have "\<forall>l\<in>set [b, a]. valid g l" "\<forall>l\<in>set []. valid g l" "FALSE < 2" using v by simp_all
  from cancel_loop_correct [OF inv this, where \<rho> = \<rho> and visits = 0]
  obtain r where r: "cancel_loop g [b, a] [] FALSE 0 = Some r" "case r of
      None \<Rightarrow> True
    | Some (ls, k) \<Rightarrow> (\<forall>l\<in>set ls. valid g l) \<and> k < 2 \<and>
        (par \<rho> g ls \<noteq> (k = 1)) = (par \<rho> g [b, a] \<noteq> (par \<rho> g [] \<noteq> (FALSE = 1)))"
    by blast
  have ba: "par \<rho> g [b, a] = (q \<noteq> p)" using assms by (simp add: lit_def)
  show "gives g (cancel_xor a b g) ?P"
  proof (cases "ca = None \<and> cb = None")
    case True
    then show ?thesis using ca cb by (simp add: cancel_xor_def gives_return)
  next
    case some: False
    note unfold = cancel_xor_def ca cb Option.bind.simps some if_False r(1)
    show ?thesis
    proof (cases r)
      case None
      show ?thesis unfolding unfold unfolding None option.case by (simp add: gives_return)
    next
      case (Some lk)
      obtain ls k where lk: "lk = (ls, k)" by (cases lk)
      have ls: "\<forall>l\<in>set ls. valid g l" "k < 2" "(par \<rho> g ls \<noteq> (k = 1)) = (q \<noteq> p)"
        using r(2) unfolding Some lk option.case prod.case ba by simp_all
      define kept where "kept = keep_odd (sort ls)"
      have kv: "\<forall>l\<in>set kept. valid g l" using keep_odd_set [of "sort ls"] ls(1) by (auto simp: kept_def)
      have f: "lit \<rho> g FALSE False" by (simp add: lit_const [OF inv])
      then have pk: "par \<rho> g kept = par \<rho> g ls"
        using keep_odd_par [of \<rho> g "sort ls"] by (simp add: kept_def par_sort lit_def)
      have "gives g (do { (out, g) \<leftarrow> build_fold (\<lambda>l out g. xor_raw out l g) kept FALSE g; Some (Some (out XOR k), g) }) ?P"
      proof (rule gives_bind, rule xor_fold_gives [OF kv f], goal_cases)
        case (1 x g1)
        have "lit \<rho> g1 (x XOR k) (p \<noteq> q)"
          by (rule lit_cong [OF lit_xor_sign [OF 1(2) ls(2)]]) (use ls(3) pk in auto)
        then show ?case by (simp add: gives_return)
      qed
      then have "gives g (if length kept = length ls \<and> k = FALSE then Some (None, g)
          else do { (out, g) \<leftarrow> build_fold (\<lambda>l out g. xor_raw out l g) kept FALSE g; Some (Some (out XOR k), g) }) ?P"
        by (simp add: gives_return)
      then show ?thesis
        unfolding unfold unfolding Some lk option.case prod.case Let_def kept_def [symmetric] if_not_P [OF some] .
    qed
  qed
qed

lemma xor_simplified_gives:
  assumes "lit \<rho> g a p" "lit \<rho> g b q"
  shows "gives g (xor_simplified a b g) (\<lambda>g' r. lit \<rho> g' r (p \<noteq> q))"
proof -
  let ?P = "\<lambda>g' r. case r of None \<Rightarrow> g' = g | Some x \<Rightarrow> lit \<rho> g' x (p \<noteq> q)"
  have "gives g (if a > TRUE \<and> b > TRUE \<and> a div 2 \<noteq> b div 2 then cancel_xor a b g else Some (None, g)) ?P"
    using cancel_xor_gives [OF assms] by (simp add: gives_return)
  then show ?thesis unfolding xor_simplified_def
  proof (rule gives_bind, goal_cases)
    case (1 r g1)
    show ?case
    proof (cases r)
      case (Some x)
      then show ?thesis using 1 by (simp add: gives_return)
    next
      case None
      then have "g1 = g" using 1 by simp
      then show ?thesis using None xor_raw_gives [OF assms]
          gives_weaken [OF xor_plain_gives [OF assms, where f = "\<lambda>x. x"], where Q = "\<lambda>g' r. lit \<rho> g' r (p \<noteq> q)"]
        by simp
    qed
  qed
qed

end
