(* ===== verification/Aig_Factor.thy ===== *)
theory Aig_Factor
  imports Aig_Cancel
begin

unbundle bit_operations_syntax

text \<open>
  Factoring disjunctions of parities into multiplexers, the conjunction and disjunction of many
  literals, and the word-parallel evaluation of the graph.
\<close>

section \<open>Factoring\<close>

text \<open>Two gates and the selection between them along a control literal.\<close>

lemma select_gives:
  assumes "lit \<rho> g c p" "\<And>g'. aig_le g g' \<Longrightarrow> gives g' (f g') (\<lambda>g' r. lit \<rho> g' r q)"
    "\<And>g'. aig_le g g' \<Longrightarrow> gives g' (h g') (\<lambda>g' r. lit \<rho> g' r s)" "k < 2"
  shows "gives g (do { (t, g) \<leftarrow> f g; (e, g) \<leftarrow> h g; (r, g) \<leftarrow> aig_mux c (t XOR k) e g; Some (Some r, g) })
    (\<lambda>g' r. case r of None \<Rightarrow> False | Some r \<Rightarrow> lit \<rho> g' r (if p then q \<noteq> (k = 1) else s))"
proof (rule gives_bind, rule assms(2), goal_cases)
  case (2 t g1)
  show ?case unfolding prod.case
  proof (rule gives_bind, rule assms(3), goal_cases)
    case (2 e g2)
    have t: "lit \<rho> g2 (t XOR k) (q \<noteq> (k = 1))"
      by (rule lit_xor_sign [OF lit_mono [OF \<open>lit \<rho> g1 t q\<close> 2(1)] assms(4)])
    have c: "lit \<rho> g2 c p" using assms(1) lit_mono \<open>aig_le g g1\<close> 2(1) by blast
    show ?case unfolding prod.case
      by (rule gives_bind, rule aig_mux_gives [OF c t 2(2)]) (simp add: gives_return)
  qed (use \<open>aig_le g g1\<close> in simp)
qed simp

lemma both_ways_set [simp]: "set (both_ways (x, y)) = {(x, y), (y, x)}"
  by (simp add: both_ways_def)

lemma factor_shared_gives:
  assumes "lit \<rho> g x px" "lit \<rho> g y py" "lit \<rho> g u pu" "lit \<rho> g v pv"
  shows "gives g (factor_shared (x, y) (u, v) g)
    (\<lambda>g' r. case r of None \<Rightarrow> g' = g | Some r \<Rightarrow> lit \<rho> g' r ((px \<noteq> py) \<or> (pu \<noteq> pv)))"
proof (cases "find (\<lambda>((control, other), second, other2). plain control = plain second)
    (List.product (both_ways (x, y)) (both_ways (u, v)))")
  case None
  then show ?thesis by (simp add: factor_shared_def gives_return)
next
  case (Some m)
  obtain c t d e where m: "m = ((c, t), d, e)" by (cases m) auto
  have "plain c = plain d" "((c, t), d, e) \<in> set (List.product (both_ways (x, y)) (both_ways (u, v)))"
    using find_some [OF Some] m by auto
  then have cd: "plain c = plain d" "(c = x \<and> t = y) \<or> (c = y \<and> t = x)" "(d = u \<and> e = v) \<or> (d = v \<and> e = u)"
    by auto
  obtain pc pt where c: "lit \<rho> g c pc" "lit \<rho> g t pt" "(pc \<noteq> pt) = (px \<noteq> py)" using cd(2) assms by blast
  obtain pd pe where d: "lit \<rho> g d pd" "lit \<rho> g e pe" "(pd \<noteq> pe) = (pu \<noteq> pv)" using cd(3) assms by blast
  define P Q C where "P = (pt \<noteq> (c AND 1 = 1))" and "Q = (pe \<noteq> (d AND 1 = 1))" and "C = (pc \<noteq> (c AND 1 = 1))"
  have p: "lit \<rho> g (t XOR (c AND 1)) P" and q: "lit \<rho> g (e XOR (d AND 1)) Q"
    using lit_xor_sign [OF c(2) and_one_less] lit_xor_sign [OF d(2) and_one_less] by (simp_all add: P_def Q_def)
  have C: "lit \<rho> g (plain c) C" using lit_plain [OF c(1)] by (simp add: C_def)
  have "C = (pd \<noteq> (d AND 1 = 1))" using lit_inj [OF C] lit_plain [OF d(1)] cd(1) by simp
  then have v: "(if C then (P \<and> Q) \<noteq> (1 = (1::nat)) else P \<or> Q) = ((px \<noteq> py) \<or> (pu \<noteq> pv))"
    unfolding c(3) [symmetric] d(3) [symmetric] by (auto simp: P_def Q_def C_def)
  have "gives g (do {
            (r1, g) \<leftarrow> aig_and (t XOR (c AND 1)) (e XOR (d AND 1)) g;
            (r2, g) \<leftarrow> aig_or (t XOR (c AND 1)) (e XOR (d AND 1)) g;
            (r, g) \<leftarrow> aig_mux (plain c) (r1 XOR 1) r2 g;
            Some (Some r, g) })
    (\<lambda>g' r. case r of None \<Rightarrow> False | Some r \<Rightarrow> lit \<rho> g' r (if C then (P \<and> Q) \<noteq> (1 = (1::nat)) else P \<or> Q))"
    by (rule select_gives [OF C]) (auto intro: aig_and_gives aig_or_gives lit_mono p q)
  then have "gives g (factor_shared (x, y) (u, v) g)
    (\<lambda>g' r. case r of None \<Rightarrow> False | Some r \<Rightarrow> lit \<rho> g' r (if C then (P \<and> Q) \<noteq> (1 = (1::nat)) else P \<or> Q))"
    using Some m by (simp add: factor_shared_def Let_def)
  then show ?thesis unfolding v by (rule gives_weaken) (auto split: option.splits)
qed

lemma factor_along_gives:
  assumes "lit \<rho> g a p" "lit \<rho> g b q"
  shows "gives g (factor_along a b g) (\<lambda>g' r. case r of None \<Rightarrow> g' = g | Some r \<Rightarrow> lit \<rho> g' r (p \<or> q))"
proof (rule gives_inv)
  assume inv: "aig_inv g"
  have va: "valid g a" "valid g b" using assms by (simp_all add: lit_def)
  obtain m where m: "mux_children g a = Some m" using mux_children_some [OF inv va(1)] .
  obtain xb where xb: "xor_children g b = Some xb" using xor_children_some [OF inv va(2)] .
  obtain n where n: "mux_children g b = Some n" using mux_children_some [OF inv va(2)] .
  let ?P = "\<lambda>g' r. case r of None \<Rightarrow> g' = g | Some r \<Rightarrow> lit \<rho> g' r (p \<or> q)"
  show "gives g (factor_along a b g) ?P"
  proof (cases m)
    case None
    then show ?thesis using m by (simp add: factor_along_def gives_return)
  next
    case (Some cte)
    obtain c t e where "cte = (c, t, e)" by (cases cte)
    then have mux: "mux_children g a = Some (Some (c, t, e))" using m Some by simp
    obtain pc pt pe where M: "lit \<rho> g c pc" "lit \<rho> g t pt" "lit \<rho> g e pe" "p = (if pc then pt else pe)"
      using mux_children_lit [OF inv assms(1) mux] by blast
    have select: "gives g (do { (t, g) \<leftarrow> aig_or t u g; (e, g) \<leftarrow> aig_or e v g; (r, g) \<leftarrow> aig_mux c t e g; Some (Some r, g) }) ?P"
      if "lit \<rho> g u pu" "lit \<rho> g v pv" "q = (if pc then pu else pv)" for u v pu pv
    proof -
      have step: "gives g (do { (t, g) \<leftarrow> aig_or t u g; (e, g) \<leftarrow> aig_or e v g; (r, g) \<leftarrow> aig_mux c (t XOR 0) e g; Some (Some r, g) })
         (\<lambda>g' r. case r of None \<Rightarrow> False | Some r \<Rightarrow> lit \<rho> g' r (if pc then (pt \<or> pu) \<noteq> (0 = (1::nat)) else pe \<or> pv))"
        by (rule select_gives [OF M(1)]) (auto intro: aig_or_gives lit_mono M that)
      have v: "(if pc then (pt \<or> pu) \<noteq> (0 = (1::nat)) else pe \<or> pv) = (p \<or> q)" using M(4) that(3) by simp
      show ?thesis using step unfolding v xor.right_neutral by (rule gives_weaken) (auto split: option.splits)
    qed
    define f where "f = (case xb of None \<Rightarrow> None | Some xy \<Rightarrow> find (\<lambda>(control, other). plain control = c) (both_ways xy))"
    have e: "factor_along a b g = (case f of
           Some (control, other) \<Rightarrow>
             let other = other XOR (control AND 1)
             in do {
               (t, g) \<leftarrow> aig_or t (other XOR 1) g;
               (e, g) \<leftarrow> aig_or e other g;
               (r, g) \<leftarrow> aig_mux c t e g;
               Some (Some r, g) }
         | None \<Rightarrow> do {
             n \<leftarrow> mux_children g b;
             case n of
               None \<Rightarrow> Some (None, g)
             | Some (d, u, v) \<Rightarrow>
                 if c = d then do {
                   (t, g) \<leftarrow> aig_or t u g;
                   (e, g) \<leftarrow> aig_or e v g;
                   (r, g) \<leftarrow> aig_mux c t e g;
                   Some (Some r, g) }
                 else Some (None, g) })"
      unfolding factor_along_def mux xb f_def by simp
    show ?thesis
    proof (cases f)
      case (Some co)
      obtain k l where co: "co = (k, l)" by (cases co)
      obtain x y where xy: "xb = Some (x, y)" using Some by (cases xb) (auto simp: f_def)
      have kl: "plain k = c" "(k = x \<and> l = y) \<or> (k = y \<and> l = x)"
        using find_some [of _ "both_ways (x, y)" "(k, l)"] Some co xy by (auto simp: f_def)
      obtain px py where "lit \<rho> g x px" "lit \<rho> g y py" "q = (px \<noteq> py)"
        using xor_children_lit [OF inv assms(2)] xb xy by blast
      then obtain pk pl where K: "lit \<rho> g k pk" "lit \<rho> g l pl" "q = (pk \<noteq> pl)" using kl(2) by blast
      define ol where "ol = (pl \<noteq> (k AND 1 = 1))"
      have o: "lit \<rho> g (l XOR (k AND 1)) ol" "lit \<rho> g ((l XOR (k AND 1)) XOR 1) (\<not> ol)"
        using lit_xor_sign [OF K(2) and_one_less] by (simp_all add: ol_def)
      have "pc = (pk \<noteq> (k AND 1 = 1))" using lit_inj [OF M(1)] lit_plain [OF K(1)] kl(1) by simp
      then have "q = (if pc then \<not> ol else ol)" using K(3) by (auto simp: ol_def)
      from select [OF o(2,1) this] show ?thesis unfolding e Some co by (simp add: Let_def)
    next
      case None
      show ?thesis
      proof (cases "\<exists>u v. n = Some (c, u, v)")
        case True
        then obtain u v where u: "n = Some (c, u, v)" by blast
        obtain pc' pu pv where U: "lit \<rho> g c pc'" "lit \<rho> g u pu" "lit \<rho> g v pv" "q = (if pc' then pu else pv)"
          using mux_children_lit [OF inv assms(2)] n u by blast
        then have "q = (if pc then pu else pv)" using lit_inj [OF M(1)] by simp
        from select [OF U(2,3) this] show ?thesis unfolding e None n by (simp add: u)
      next
        case False
        then show ?thesis unfolding e None n by (auto intro!: gives_return split: option.splits)
      qed
    qed
  qed
qed

lemma factor_xor_or_gives:
  assumes "lit \<rho> g a p" "lit \<rho> g b q"
  shows "gives g (factor_xor_or a b g) (\<lambda>g' r. case r of None \<Rightarrow> g' = g | Some r \<Rightarrow> lit \<rho> g' r (p \<or> q))"
proof (rule gives_inv)
  assume inv: "aig_inv g"
  let ?P = "\<lambda>g' r. case r of None \<Rightarrow> g' = g | Some r \<Rightarrow> lit \<rho> g' r (p \<or> q)"
  have va: "valid g a" "valid g b" using assms by (simp_all add: lit_def)
  obtain xa where xa: "xor_children g a = Some xa" using xor_children_some [OF inv va(1)] .
  obtain xb where xb: "xor_children g b = Some xb" using xor_children_some [OF inv va(2)] .
  have first: "gives g (case (xa, xb) of (Some xy, Some uv) \<Rightarrow> factor_shared xy uv g | _ \<Rightarrow> Some (None, g)) ?P"
  proof (cases "\<exists>xy uv. xa = Some xy \<and> xb = Some uv")
    case True
    then obtain x y u v where e: "xa = Some (x, y)" "xb = Some (u, v)" by auto
    obtain px py where 1: "lit \<rho> g x px" "lit \<rho> g y py" "p = (px \<noteq> py)"
      using xor_children_lit [OF inv assms(1)] xa e by blast
    obtain pu pv where 2: "lit \<rho> g u pu" "lit \<rho> g v pv" "q = (pu \<noteq> pv)"
      using xor_children_lit [OF inv assms(2)] xb e by blast
    show ?thesis
      unfolding 1(3) 2(3) e prod.case option.case by (rule factor_shared_gives [OF 1(1,2) 2(1,2)])
  next
    case False
    then have "(case (xa, xb) of (Some xy, Some uv) \<Rightarrow> factor_shared xy uv g | _ \<Rightarrow> Some (None, g)) = Some (None, g)"
      by (auto split: option.splits)
    then show ?thesis by (simp add: gives_return)
  qed
  have second: "gives g (do {
         (r, g) \<leftarrow> factor_along a b g;
         case r of Some r \<Rightarrow> Some (Some r, g) | None \<Rightarrow> factor_along b a g }) ?P"
  proof (rule gives_bind, rule factor_along_gives [OF assms], goal_cases)
    case (1 r g1)
    show ?case
    proof (cases r)
      case None
      then have "g1 = g" using 1 by simp
      show ?thesis
        unfolding None prod.case option.case \<open>g1 = g\<close> disj_commute [of p q] by (rule factor_along_gives [OF assms(2,1)])
    next
      case (Some x)
      then show ?thesis using 1 by (simp add: gives_return)
    qed
  qed
  have "gives g (do {
     (r, g) \<leftarrow> (case (xa, xb) of (Some xy, Some uv) \<Rightarrow> factor_shared xy uv g | _ \<Rightarrow> Some (None, g));
     case r of
       Some r \<Rightarrow> Some (Some r, g)
     | None \<Rightarrow> do {
         (r, g) \<leftarrow> factor_along a b g;
         case r of Some r \<Rightarrow> Some (Some r, g) | None \<Rightarrow> factor_along b a g } }) ?P"
  proof (rule gives_bind, rule first, goal_cases)
    case (1 r g1)
    show ?case
    proof (cases r)
      case None
      then have "g1 = g" using 1 by simp
      then show ?thesis using second None by simp
    next
      case (Some x)
      then show ?thesis using 1 by (simp add: gives_return)
    qed
  qed
  then show "gives g (factor_xor_or a b g) ?P" unfolding factor_xor_or_def xa xb Option.bind.simps .
qed

lemma factor_positive_or_gives:
  assumes "lit \<rho> g l p"
  shows "gives g (factor_positive_or l depth g) (\<lambda>g' r. lit \<rho> g' r p)"
  using assms
proof (induction depth arbitrary: l g p)
  case 0
  then show ?case by (simp add: gives_return)
next
  case (Suc depth)
  note prems = Suc.prems
  show ?case
  proof (rule gives_inv)
    assume inv: "aig_inv g"
    have v: "valid g l" using prems by (simp add: lit_def)
    obtain x where x: "xor_children g l = Some x" using xor_children_some [OF inv v] .
    obtain m where m: "mux_children g l = Some m" using mux_children_some [OF inv v] .
    have stop: "gives g (Some (l, g)) (\<lambda>g' r. lit \<rho> g' r p)" using prems by (rule gives_return)
    show "gives g (factor_positive_or l (Suc depth) g) (\<lambda>g' r. lit \<rho> g' r p)"
    proof (cases "l AND 1 = 0 \<or> x \<noteq> None \<or> m \<noteq> None \<or> (\<forall>a b. nodes g ! (l div 2) \<noteq> NAnd a b)")
      case True
      then show ?thesis using x m stop node_at_valid [OF v] by (auto split: node.splits)
    next
      case False
      then obtain a b where ab: "l AND 1 \<noteq> 0" "x = None" "m = None" "nodes g ! (l div 2) = NAnd a b" by blast
      note N = aig_inv_and [OF inv v ab(4)]
      have na: "node_at g l = Some (NAnd a b)" using node_at_valid [OF v] ab(4) by simp
      define pa pb where "pa = (\<not> val \<rho> g a)" and "pb = (\<not> val \<rho> g b)"
      have A: "lit \<rho> g (a XOR 1) pa" and B: "lit \<rho> g (b XOR 1) pb"
        using N(3,4) by (simp_all add: lit_def pa_def pb_def val_flip)
      have p: "p = (pa \<or> pb)" using prems N(7) [of \<rho>] ab(1) and_one_cases [of l] by (auto simp: lit_def pa_def pb_def)
      have "gives g (do {
              (a, g) \<leftarrow> factor_positive_or (a XOR 1) depth g;
              (b, g) \<leftarrow> factor_positive_or (b XOR 1) depth g;
              (r, g) \<leftarrow> factor_xor_or a b g;
              case r of Some r \<Rightarrow> Some (r, g) | None \<Rightarrow> aig_or a b g }) (\<lambda>g' r. lit \<rho> g' r p)"
      proof (rule gives_bind, rule Suc.IH [OF A], goal_cases)
        case (1 u g1)
        note u = 1
        show ?case unfolding prod.case
        proof (rule gives_bind, rule Suc.IH [OF lit_mono [OF B u(1)]], goal_cases)
          case (1 w g2)
          note uw = lit_mono [OF u(2) 1(1)] 1(2)
          show ?case unfolding prod.case
          proof (rule gives_bind, rule factor_xor_or_gives [OF uw], goal_cases)
            case (1 r g3)
            show ?case
            proof (cases r)
              case None
              then have "g3 = g2" using 1 by simp
              then show ?thesis using aig_or_gives [OF uw] None p by simp
            next
              case (Some z)
              then show ?thesis using 1 p by (simp add: gives_return)
            qed
          qed
        qed
      qed
      then show ?thesis using ab x m na by simp
    qed
  qed
qed


section \<open>Many literals\<close>

text \<open>The literals of a list read as the bits of a list, in one graph and in every later one.\<close>

definition lits :: "(nat \<Rightarrow> bool) \<Rightarrow> Aig \<Rightarrow> L list \<Rightarrow> bool list \<Rightarrow> bool" where
  "lits \<rho> g = list_all2 (lit \<rho> g)"

lemma lits_mono: "lits \<rho> g ls bs \<Longrightarrow> aig_le g g' \<Longrightarrow> lits \<rho> g' ls bs"
  by (auto simp: lits_def intro: list_all2_mono lit_mono)

lemma lits_Nil [simp]: "lits \<rho> g [] bs \<longleftrightarrow> bs = []" "lits \<rho> g ls [] \<longleftrightarrow> ls = []"
  by (simp_all add: lits_def)

lemma lits_Cons [simp]: "lits \<rho> g (l # ls) (b # bs) \<longleftrightarrow> lit \<rho> g l b \<and> lits \<rho> g ls bs"
  by (simp add: lits_def)

lemma lits_ConsE: "lits \<rho> g (l # ls) bs \<Longrightarrow> (\<And>c cs. bs = c # cs \<Longrightarrow> lit \<rho> g l c \<Longrightarrow> lits \<rho> g ls cs \<Longrightarrow> P) \<Longrightarrow> P"
  by (cases bs) auto

lemma lits_length: "lits \<rho> g ls bs \<Longrightarrow> length ls = length bs"
  by (simp add: lits_def list_all2_lengthD)

lemma lits_nth: "lits \<rho> g ls bs \<Longrightarrow> i < length ls \<Longrightarrow> lit \<rho> g (ls ! i) (bs ! i)"
  by (simp add: lits_def list_all2_nthD)

lemma lits_iff: "lits \<rho> g ls bs \<longleftrightarrow> length ls = length bs \<and> (\<forall>i<length ls. lit \<rho> g (ls ! i) (bs ! i))"
  by (auto simp: lits_def list_all2_conv_all_nth)

lemma lits_append: "lits \<rho> g ls bs \<Longrightarrow> lits \<rho> g ms cs \<Longrightarrow> lits \<rho> g (ls @ ms) (bs @ cs)"
  by (simp add: lits_def list_all2_appendI)

lemma and_all_gives:
  assumes "lits \<rho> g ls bs"
  shows "gives g (and_all ls g) (\<lambda>g' r. lit \<rho> g' r (\<forall>b\<in>set bs. b))"
proof -
  have "gives g (build_fold (\<lambda>l acc g. aig_and acc l g) ls acc g) (\<lambda>g' r. lit \<rho> g' r (p \<and> (\<forall>b\<in>set bs. b)))"
    if "lits \<rho> g ls bs" "lit \<rho> g acc p" for acc p g ls
    using that
  proof (induction bs arbitrary: acc p g ls)
    case Nil
    then show ?case by (simp add: gives_return)
  next
    case (Cons b bs)
    then obtain l ms where ls: "ls = l # ms" "lit \<rho> g l b" "lits \<rho> g ms bs" by (cases ls) (auto elim: lits_ConsE)
    show ?case unfolding ls(1) build_fold.simps
    proof (rule gives_bind, rule aig_and_gives [OF Cons.prems(2) ls(2)], goal_cases)
      case (1 x g1)
      show ?case unfolding prod.case
        by (rule gives_weaken [OF Cons.IH [OF lits_mono [OF ls(3) 1(1)] 1(2)]]) (auto elim: lit_cong)
    qed
  qed
  note main = this
  show ?thesis
  proof (rule gives_inv)
    assume "aig_inv g"
    then have "lit \<rho> g TRUE True" by (simp add: lit_const)
    from main [OF assms this] show ?thesis by (simp add: and_all_def)
  qed
qed

lemma or_all_gives:
  assumes "lits \<rho> g ls bs"
  shows "gives g (or_all ls g) (\<lambda>g' r. lit \<rho> g' r (\<exists>b\<in>set bs. b))"
proof -
  have "gives g (build_fold (\<lambda>l acc g. aig_or acc l g) ls acc g) (\<lambda>g' r. lit \<rho> g' r (p \<or> (\<exists>b\<in>set bs. b)))"
    if "lits \<rho> g ls bs" "lit \<rho> g acc p" for acc p g ls
    using that
  proof (induction bs arbitrary: acc p g ls)
    case Nil
    then show ?case by (simp add: gives_return)
  next
    case (Cons b bs)
    then obtain l ms where ls: "ls = l # ms" "lit \<rho> g l b" "lits \<rho> g ms bs" by (cases ls) (auto elim: lits_ConsE)
    show ?case unfolding ls(1) build_fold.simps
    proof (rule gives_bind, rule aig_or_gives [OF Cons.prems(2) ls(2)], goal_cases)
      case (1 x g1)
      show ?case unfolding prod.case
        by (rule gives_weaken [OF Cons.IH [OF lits_mono [OF ls(3) 1(1)] 1(2)]]) (auto elim: lit_cong)
    qed
  qed
  note main = this
  show ?thesis
  proof (rule gives_inv)
    assume "aig_inv g"
    then have "lit \<rho> g FALSE False" by (simp add: lit_const)
    from main [OF assms this] show ?thesis by (simp add: or_all_def)
  qed
qed

section \<open>Word-parallel evaluation\<close>

lemma eval_word_nodes_bits:
  assumes "\<And>i. input' i = bit (input i) j" "j < 64" "vals' = map (\<lambda>w. bit w j) vals"
    "\<And>i a b. i < length ns \<Longrightarrow> ns ! i = NAnd a b \<Longrightarrow> a div 2 < length vals + i \<and> b div 2 < length vals + i"
  shows "eval_nodes input' ns k vals' = map (\<lambda>w. bit w j) (eval_word_nodes input ns k vals)"
  using assms(3,4)
proof (induction ns arbitrary: k vals vals')
  case (Cons n ns)
  have rest: "a div 2 < length (vals @ [v]) + i \<and> b div 2 < length (vals @ [v]) + i"
    if "i < length ns" "ns ! i = NAnd a b" for i a b v
    using Cons.prems(2) [of "Suc i" a b] that by simp
  have lit: "aig_value vals' a = bit (aig_word vals a) j" if "a div 2 < length vals" for a
    using that assms(2) Cons.prems(1) and_one_cases [of a]
    by (auto simp: aig_value_def aig_word_def Let_def bit_not_iff)
  show ?case
  proof (cases n)
    case NConst
    then show ?thesis using Cons.IH [of "vals' @ [False]" "vals @ [0]" k] Cons.prems(1) rest by simp
  next
    case NInput
    then show ?thesis
      using Cons.IH [of "vals' @ [input' k]" "vals @ [input k]" "k + 1"] Cons.prems(1) rest assms(1) by simp
  next
    case (NAnd a b)
    then have ab: "a div 2 < length vals" "b div 2 < length vals" using Cons.prems(2) [of 0 a b] by simp_all
    have "eval_nodes input' ns k (vals' @ [aig_value vals' a \<and> aig_value vals' b]) =
        map (\<lambda>w. bit w j) (eval_word_nodes input ns k (vals @ [aig_word vals a AND aig_word vals b]))"
    proof (rule Cons.IH)
      show "vals' @ [aig_value vals' a \<and> aig_value vals' b] =
          map (\<lambda>w. bit w j) (vals @ [aig_word vals a AND aig_word vals b])"
        using lit [OF ab(1)] lit [OF ab(2)] Cons.prems(1) by (simp add: bit_and_iff)
    qed (rule rest)
    then show ?thesis by (simp add: NAnd)
  qed
qed simp

lemma eval_words_bit:
  assumes "aig_inv g" "j < 64" "valid g l"
  shows "bit (aig_word (eval_words g input) l) j = val (\<lambda>i. bit (input i) j) g l"
proof -
  have "a div 2 < i \<and> b div 2 < i" if "i < length (nodes g)" "nodes g ! i = NAnd a b" for i a b
    using aig_inv_and(1,2) [OF assms(1), of "2 * i" a b] that by (simp add: valid_def)
  then have e: "eval_all g (\<lambda>i. bit (input i) j) = map (\<lambda>w. bit w j) (eval_words g input)"
    unfolding eval_all_def eval_words_def by (intro eval_word_nodes_bits assms(2)) simp_all
  have "length (eval_all g (\<lambda>i. bit (input i) j)) = length (nodes g)" by simp
  then have n: "l div 2 < length (eval_words g input)" unfolding e using assms(3) by (simp add: valid_def)
  show ?thesis
    unfolding val_def e aig_value_def aig_word_def Let_def nth_map [OF n]
    using assms(2) by (cases "l AND 1 = 1") (simp_all add: bit_not_iff)
qed

end
