(* ===== verification/Aig_Correct.thy ===== *)
theory Aig_Correct
  imports Aig_Factor
begin

unbundle bit_operations_syntax

text \<open>
  What the graph promises its callers: the graphs that sequences of calls build, their
  invariant, and the function every gate computes, read through the evaluators of the code.
\<close>

declare One_nat_def [simp del]

section \<open>Graphs the operations build\<close>

text \<open>One call on literals of the graph, and the graphs reachable from the empty one.\<close>

inductive aig_step :: "Aig \<Rightarrow> Aig \<Rightarrow> bool" where
  step_input: "aig_input g = (l, g') \<Longrightarrow> aig_step g g'"
| step_and: "valid g a \<Longrightarrow> valid g b \<Longrightarrow> aig_and a b g = Some (l, g') \<Longrightarrow> aig_step g g'"
| step_or: "valid g a \<Longrightarrow> valid g b \<Longrightarrow> aig_or a b g = Some (l, g') \<Longrightarrow> aig_step g g'"
| step_xor: "valid g a \<Longrightarrow> valid g b \<Longrightarrow> aig_xor a b g = Some (l, g') \<Longrightarrow> aig_step g g'"
| step_phase: "valid g a \<Longrightarrow> valid g b \<Longrightarrow> xor_phase a b g = Some (l, g') \<Longrightarrow> aig_step g g'"
| step_simplified: "valid g a \<Longrightarrow> valid g b \<Longrightarrow> xor_simplified a b g = Some (l, g') \<Longrightarrow> aig_step g g'"
| step_cancel: "valid g a \<Longrightarrow> valid g b \<Longrightarrow> xor_cancel_input a b g = Some (l, g') \<Longrightarrow> aig_step g g'"
| step_xnor: "valid g a \<Longrightarrow> valid g b \<Longrightarrow> aig_xnor a b g = Some (l, g') \<Longrightarrow> aig_step g g'"
| step_mux: "valid g a \<Longrightarrow> valid g b \<Longrightarrow> valid g c \<Longrightarrow> aig_mux a b c g = Some (l, g') \<Longrightarrow> aig_step g g'"
| step_maj: "valid g a \<Longrightarrow> valid g b \<Longrightarrow> valid g c \<Longrightarrow> aig_maj a b c g = Some (l, g') \<Longrightarrow> aig_step g g'"
| step_factor: "valid g a \<Longrightarrow> factor_positive_or a depth g = Some (l, g') \<Longrightarrow> aig_step g g'"
| step_and_all: "list_all (valid g) ls \<Longrightarrow> and_all ls g = Some (l, g') \<Longrightarrow> aig_step g g'"
| step_or_all: "list_all (valid g) ls \<Longrightarrow> or_all ls g = Some (l, g') \<Longrightarrow> aig_step g g'"

inductive aig_reachable :: "Aig \<Rightarrow> bool" where
  reach_new: "aig_reachable aig_new"
| reach_step: "aig_reachable g \<Longrightarrow> aig_step g g' \<Longrightarrow> aig_reachable g'"

lemma valid_lit: "valid g l \<Longrightarrow> lit \<rho> g l (val \<rho> g l)" by (simp add: lit_def)

lemma valid_lits: "list_all (valid g) ls \<Longrightarrow> lits \<rho> g ls (map (val \<rho> g) ls)"
  by (simp add: lits_iff list_all_length valid_lit)

lemma gives_keeps: "r = Some (x, g') \<Longrightarrow> gives g r P \<Longrightarrow> aig_inv g \<Longrightarrow> aig_inv g'"
  by (auto simp: gives_def)

lemma aig_step_inv: "aig_step g g' \<Longrightarrow> aig_inv g \<Longrightarrow> aig_inv g'"
proof (induction rule: aig_step.induct)
  case (step_input g l g') then show ?case using aig_input_inv(1) by blast
next
  case (step_and g a b l g')
  show ?case by (rule gives_keeps [OF step_and(3) aig_and_gives [OF valid_lit [OF step_and(1)] valid_lit [OF step_and(2)]] step_and(4)])
next
  case (step_or g a b l g')
  show ?case by (rule gives_keeps [OF step_or(3) aig_or_gives [OF valid_lit [OF step_or(1)] valid_lit [OF step_or(2)]] step_or(4)])
next
  case (step_xor g a b l g')
  show ?case by (rule gives_keeps [OF step_xor(3) aig_xor_gives [OF valid_lit [OF step_xor(1)] valid_lit [OF step_xor(2)]] step_xor(4)])
next
  case (step_phase g a b l g')
  show ?case by (rule gives_keeps [OF step_phase(3) xor_phase_gives [OF valid_lit [OF step_phase(1)] valid_lit [OF step_phase(2)]] step_phase(4)])
next
  case (step_simplified g a b l g')
  show ?case by (rule gives_keeps [OF step_simplified(3) xor_simplified_gives [OF valid_lit [OF step_simplified(1)] valid_lit [OF step_simplified(2)]] step_simplified(4)])
next
  case (step_cancel g a b l g')
  show ?case by (rule gives_keeps [OF step_cancel(3) xor_cancel_input_gives [OF valid_lit [OF step_cancel(1)] valid_lit [OF step_cancel(2)]] step_cancel(4)])
next
  case (step_xnor g a b l g')
  show ?case by (rule gives_keeps [OF step_xnor(3) aig_xnor_gives [OF valid_lit [OF step_xnor(1)] valid_lit [OF step_xnor(2)]] step_xnor(4)])
next
  case (step_mux g a b c l g')
  show ?case by (rule gives_keeps [OF step_mux(4) aig_mux_gives [OF valid_lit [OF step_mux(1)] valid_lit [OF step_mux(2)] valid_lit [OF step_mux(3)]] step_mux(5)])
next
  case (step_maj g a b c l g')
  show ?case by (rule gives_keeps [OF step_maj(4) aig_maj_gives [OF valid_lit [OF step_maj(1)] valid_lit [OF step_maj(2)] valid_lit [OF step_maj(3)]] step_maj(5)])
next
  case (step_factor g a depth l g')
  show ?case by (rule gives_keeps [OF step_factor(2) factor_positive_or_gives [OF valid_lit [OF step_factor(1)]] step_factor(3)])
next
  case (step_and_all g ls l g')
  show ?case by (rule gives_keeps [OF step_and_all(2) and_all_gives [OF valid_lits [OF step_and_all(1)]] step_and_all(3)])
next
  case (step_or_all g ls l g')
  show ?case by (rule gives_keeps [OF step_or_all(2) or_all_gives [OF valid_lits [OF step_or_all(1)]] step_or_all(3)])
qed

lemma aig_reachable_inv: "aig_reachable g \<Longrightarrow> aig_inv g"
  by (induction rule: aig_reachable.induct) (auto simp: aig_new_inv intro: aig_step_inv)

text \<open>
  C21: in every graph that calls of the interface build, gates are in topological order with
  ordered, non-constant, non-complementary operands, and structural hashing leaves no two gates
  with the same operands.
\<close>
theorem aig_reachable_hashed:
  assumes "aig_reachable g" "i < length (nodes g)" "nodes g ! i = NAnd a b"
  shows "1 < a \<and> a < b \<and> b \<noteq> a XOR 1 \<and> b div 2 < i \<and> hash g (a, b) = Some (2 * i) \<and>
    (\<forall>j<length (nodes g). nodes g ! j = NAnd a b \<longrightarrow> j = i)"
proof -
  have ok: "gate_ok g i" if "i < length (nodes g)" for i
    by (rule aig_invD(4) [OF aig_reachable_inv [OF assms(1)] that])
  have 1: "1 < a \<and> a < b \<and> b \<noteq> a XOR 1 \<and> b div 2 < i \<and> hash g (a, b) = Some (2 * i)"
    using ok [OF assms(2)] assms(3) by (simp add: gate_ok_def)
  have "j = i" if "j < length (nodes g)" "nodes g ! j = NAnd a b" for j
    using ok [OF that(1)] that(2) 1 by (simp add: gate_ok_def)
  then show ?thesis using 1 by blast
qed

definition graph2 :: Aig where
  "graph2 = \<lparr>nodes = [NConst, NInput, NInput, NAnd 2 4], hash = (\<lambda>_. None)((2, 4) \<mapsto> 6)\<rparr>"

lemma graph2_reachable: "aig_reachable graph2"
proof -
  have 1: "aig_reachable \<lparr>nodes = [NConst, NInput], hash = (\<lambda>_. None)\<rparr>"
    by (rule reach_step [OF reach_new], rule step_input [where l = 2]) (simp add: aig_input_def aig_new_def)
  have 2: "aig_reachable \<lparr>nodes = [NConst, NInput, NInput], hash = (\<lambda>_. None)\<rparr>"
    by (rule reach_step [OF 1], rule step_input [where l = 4]) (simp add: aig_input_def)
  show ?thesis
    by (rule reach_step [OF 2], rule step_and [where a = 4 and b = 2 and l = 6])
      (simp_all add: aig_and_def valid_def graph2_def)
qed

text \<open>A reachable graph: two inputs and their conjunction.\<close>

theorem aig_reachable_hashed_witness:
  "hash graph2 (2, 4) = Some (2 * 3) \<and> {j. j < 4 \<and> nodes graph2 ! j = NAnd 2 4} = {3}"
proof -
  have n: "3 < length (nodes graph2)" "nodes graph2 ! 3 = NAnd 2 4" by (simp_all add: graph2_def)
  have l: "length (nodes graph2) = 4" by (simp add: graph2_def)
  show ?thesis
    using aig_reachable_hashed [OF graph2_reachable n] n(2) unfolding l by auto
qed

section \<open>The function of every gate\<close>

text \<open>
  A call computes a Boolean function: it returns, extends the graph by nodes only, and its
  result reads as that function under every assignment of the inputs.
\<close>

definition computes :: "Aig \<Rightarrow> (L \<times> Aig) option \<Rightarrow> ((nat \<Rightarrow> bool) \<Rightarrow> bool) \<Rightarrow> bool" where
  "computes g r f \<longleftrightarrow> (\<exists>l g'. r = Some (l, g') \<and> aig_inv g' \<and> (\<exists>ns. nodes g' = nodes g @ ns) \<and>
     l div 2 < length (nodes g') \<and> (\<forall>\<rho>. aig_value (eval_all g' \<rho>) l = f \<rho>))"

lemma gives_computes:
  assumes "aig_inv g" "\<And>\<rho>. gives g r (\<lambda>g' l. lit \<rho> g' l (f \<rho>))"
  shows "computes g r f"
  using gives_all [of g r "\<lambda>\<rho> g' l. lit \<rho> g' l (f \<rho>)"] assms
  by (fastforce simp: gives_def computes_def lit_def valid_def val_def aig_le_def)

abbreviation value_in :: "Aig \<Rightarrow> (nat \<Rightarrow> bool) \<Rightarrow> L \<Rightarrow> bool" where
  "value_in g \<rho> l \<equiv> aig_value (eval_all g \<rho>) l"

lemma valid_value: "valid g l \<Longrightarrow> lit \<rho> g l (value_in g \<rho> l)" by (simp add: lit_def val_def)

text \<open>
  C22: every gate returns, on any two or three literals of a reachable graph, a literal that
  computes its Boolean function, whatever hashing, phase normalisation, parity cancellation or
  bounded rewriting was applied on the way.
\<close>
theorem gates_compute:
  assumes "aig_reachable g" "a div 2 < length (nodes g)" "b div 2 < length (nodes g)" "c div 2 < length (nodes g)"
  shows "computes g (aig_and a b g) (\<lambda>\<rho>. value_in g \<rho> a \<and> value_in g \<rho> b) \<and>
    computes g (aig_or a b g) (\<lambda>\<rho>. value_in g \<rho> a \<or> value_in g \<rho> b) \<and>
    computes g (aig_xor a b g) (\<lambda>\<rho>. value_in g \<rho> a \<noteq> value_in g \<rho> b) \<and>
    computes g (xor_phase a b g) (\<lambda>\<rho>. value_in g \<rho> a \<noteq> value_in g \<rho> b) \<and>
    computes g (xor_simplified a b g) (\<lambda>\<rho>. value_in g \<rho> a \<noteq> value_in g \<rho> b) \<and>
    computes g (xor_cancel_input a b g) (\<lambda>\<rho>. value_in g \<rho> a \<noteq> value_in g \<rho> b) \<and>
    computes g (aig_xnor a b g) (\<lambda>\<rho>. value_in g \<rho> a = value_in g \<rho> b) \<and>
    computes g (aig_mux a b c g) (\<lambda>\<rho>. if value_in g \<rho> a then value_in g \<rho> b else value_in g \<rho> c) \<and>
    computes g (aig_maj a b c g) (\<lambda>\<rho>. (value_in g \<rho> a \<and> value_in g \<rho> b) \<or> (value_in g \<rho> a \<and> value_in g \<rho> c) \<or>
       (value_in g \<rho> b \<and> value_in g \<rho> c))"
proof -
  have inv: "aig_inv g" by (rule aig_reachable_inv [OF assms(1)])
  have v: "valid g a" "valid g b" "valid g c" using assms(2-4) by (simp_all add: valid_def)
  note la = valid_value [OF v(1)] and lb = valid_value [OF v(2)] and lc = valid_value [OF v(3)]
  have c1: "computes g (aig_and a b g) (\<lambda>\<rho>. value_in g \<rho> a \<and> value_in g \<rho> b)"
    by (rule gives_computes [OF inv aig_and_gives [OF la lb]])
  have c2: "computes g (aig_or a b g) (\<lambda>\<rho>. value_in g \<rho> a \<or> value_in g \<rho> b)"
    by (rule gives_computes [OF inv aig_or_gives [OF la lb]])
  have c3: "computes g (aig_xor a b g) (\<lambda>\<rho>. value_in g \<rho> a \<noteq> value_in g \<rho> b)"
    by (rule gives_computes [OF inv aig_xor_gives [OF la lb]])
  have c4: "computes g (xor_phase a b g) (\<lambda>\<rho>. value_in g \<rho> a \<noteq> value_in g \<rho> b)"
    by (rule gives_computes [OF inv xor_phase_gives [OF la lb]])
  have c5: "computes g (xor_simplified a b g) (\<lambda>\<rho>. value_in g \<rho> a \<noteq> value_in g \<rho> b)"
    by (rule gives_computes [OF inv xor_simplified_gives [OF la lb]])
  have c6: "computes g (xor_cancel_input a b g) (\<lambda>\<rho>. value_in g \<rho> a \<noteq> value_in g \<rho> b)"
    by (rule gives_computes [OF inv xor_cancel_input_gives [OF la lb]])
  have c7: "computes g (aig_xnor a b g) (\<lambda>\<rho>. value_in g \<rho> a = value_in g \<rho> b)"
    by (rule gives_computes [OF inv aig_xnor_gives [OF la lb]])
  have c8: "computes g (aig_mux a b c g) (\<lambda>\<rho>. if value_in g \<rho> a then value_in g \<rho> b else value_in g \<rho> c)"
    by (rule gives_computes [OF inv gives_weaken [OF aig_mux_gives [OF la lb lc]]]) (auto elim: lit_cong)
  have c9: "computes g (aig_maj a b c g) (\<lambda>\<rho>. (value_in g \<rho> a \<and> value_in g \<rho> b) \<or> (value_in g \<rho> a \<and> value_in g \<rho> c) \<or>
       (value_in g \<rho> b \<and> value_in g \<rho> c))"
    by (rule gives_computes [OF inv gives_weaken [OF aig_maj_gives [OF la lb lc]]]) (auto elim: lit_cong)
  show ?thesis by (intro conjI c1 c2 c3 c4 c5 c6 c7 c8 c9)
qed

theorem gates_compute_witness:
  "computes graph2 (aig_maj 2 5 6 graph2) (\<lambda>\<rho>. (value_in graph2 \<rho> 2 \<and> value_in graph2 \<rho> 5) \<or>
     (value_in graph2 \<rho> 2 \<and> value_in graph2 \<rho> 6) \<or> (value_in graph2 \<rho> 5 \<and> value_in graph2 \<rho> 6))"
  proof -
  have "2 div 2 < length (nodes graph2)" "5 div 2 < length (nodes graph2)" "6 div 2 < length (nodes graph2)"
    by (simp_all add: graph2_def)
  from gates_compute [OF graph2_reachable this] show ?thesis by blast
qed

text \<open>
  C23: the bounded factoring of an or of parities and multiplexers rewrites a literal without
  changing its function, at every depth, and never indexes out of the graph.
\<close>
theorem factoring_sound:
  assumes "aig_reachable g" "l div 2 < length (nodes g)"
  shows "computes g (factor_positive_or l depth g) (\<lambda>\<rho>. value_in g \<rho> l)"
  by (rule gives_computes [OF aig_reachable_inv [OF assms(1)]
        factor_positive_or_gives [OF valid_value]]) (simp add: valid_def assms(2))

theorem factoring_sound_witness: "computes graph2 (factor_positive_or 7 2 graph2) (\<lambda>\<rho>. value_in graph2 \<rho> 7)"
  by (rule factoring_sound [OF graph2_reachable]) (simp add: graph2_def)

text \<open>
  The conjunction and the disjunction of a list of literals hold exactly when all, or some,
  of them do; the empty lists give true and false.
\<close>
theorem folds_compute:
  assumes "aig_reachable g" "\<forall>l\<in>set ls. l div 2 < length (nodes g)"
  shows "computes g (and_all ls g) (\<lambda>\<rho>. \<forall>l\<in>set ls. value_in g \<rho> l) \<and>
    computes g (or_all ls g) (\<lambda>\<rho>. \<exists>l\<in>set ls. value_in g \<rho> l)"
proof -
  have inv: "aig_inv g" by (rule aig_reachable_inv [OF assms(1)])
  have ls: "lits \<rho> g ls (map (value_in g \<rho>) ls)" for \<rho>
  proof -
    have "val \<rho> g = value_in g \<rho>" by (rule ext) (simp add: val_def)
    then show ?thesis using valid_lits [of g ls \<rho>] assms(2) by (simp add: list_all_iff valid_def)
  qed
  have 1: "computes g (and_all ls g) (\<lambda>\<rho>. \<forall>l\<in>set ls. value_in g \<rho> l)"
    by (rule gives_computes [OF inv gives_weaken [OF and_all_gives [OF ls]]]) (auto elim: lit_cong)
  have 2: "computes g (or_all ls g) (\<lambda>\<rho>. \<exists>l\<in>set ls. value_in g \<rho> l)"
    by (rule gives_computes [OF inv gives_weaken [OF or_all_gives [OF ls]]]) (auto elim: lit_cong)
  show ?thesis by (rule conjI [OF 1 2])
qed

theorem folds_compute_witness:
  "computes graph2 (and_all [2, 7] graph2) (\<lambda>\<rho>. value_in graph2 \<rho> 2 \<and> value_in graph2 \<rho> 7)"
proof -
  have "\<forall>l\<in>set [2, 7]. l div 2 < length (nodes graph2)" by (simp add: graph2_def)
  from conjunct1 [OF folds_compute [OF graph2_reachable this]] show ?thesis by simp
qed

text \<open>
  C24: evaluating 64 assignments at once agrees, lane by lane, with evaluating one.
\<close>
theorem eval_words_lanes:
  assumes "aig_reachable g" "j < 64" "l div 2 < length (nodes g)"
  shows "bit (aig_word (eval_words g input) l) j = aig_value (eval_all g (\<lambda>k. bit (input k) j)) l"
  using eval_words_bit [OF aig_reachable_inv [OF assms(1)] assms(2), of l input] assms(3)
  by (simp add: valid_def val_def)

theorem eval_words_lanes_witness:
  "bit (aig_word (eval_words graph2 (\<lambda>k. if k = 0 then 12 else 10)) 7) 3 =
     aig_value (eval_all graph2 (\<lambda>k. bit (if k = 0 then 12 else 10 :: u64) 3)) 7"
  by (rule eval_words_lanes [OF graph2_reachable]) (simp_all add: graph2_def)

end
