(* ===== verification/Drup.thy ===== *)
theory Drup
  imports Vectors
begin

unbundle bit_operations_syntax

text \<open>
  The checker of unsatisfiability proofs (\<open>bitwright/src/prove/drup.rs\<close>) and the literals of
  clauses (\<open>bitwright/src/prove/sat.rs\<close>). The database is threaded through as a record. A clause
  index or a variable out of range panics: \<open>None\<close>. The propagation loop is a partial function,
  so a run that never ends would be \<open>None\<close> too.
\<close>

section \<open>Literals\<close>

text \<open>\<open>2 * var\<close> for the positive literal of a variable, \<open>2 * var + 1\<close> for the negative.\<close>

type_synonym Lit = nat

definition lit_pos :: "nat \<Rightarrow> Lit" where "lit_pos v = push_bit 1 v"
definition lit_neg :: "nat \<Rightarrow> Lit" where "lit_neg v = push_bit 1 v OR 1"
definition lit_new :: "nat \<Rightarrow> bool \<Rightarrow> Lit" where "lit_new v positive = push_bit 1 v OR of_bool (\<not> positive)"
definition lit_var :: "Lit \<Rightarrow> nat" where "lit_var l = drop_bit 1 l"
definition is_neg :: "Lit \<Rightarrow> bool" where "is_neg l \<longleftrightarrow> l AND 1 = 1"
definition lit_not :: "Lit \<Rightarrow> Lit" where "lit_not l = l XOR 1"

datatype proof_step = Add "Lit list" | Delete "Lit list"

section \<open>The database\<close>

datatype V = VT | VF | VU

record Db =
  clauses :: "Lit list list"
  alive :: "bool list"
  index :: "Lit list \<Rightarrow> nat list option"
  watches :: "nat list list"
  vals :: "V list"
  reason :: "nat option list"
  trail :: "Lit list"
  qhead :: nat
  units :: "nat list"
  top_conflict :: bool

definition db_val :: "Db \<Rightarrow> Lit \<Rightarrow> V" where
  "db_val db l = (case (if lit_var l < length (vals db) then vals db ! lit_var l else VU) of
     VU \<Rightarrow> VU
   | v \<Rightarrow> if (v = VT) \<noteq> is_neg l then VT else VF)"

function db_grow :: "nat \<Rightarrow> Db \<Rightarrow> Db" where
  "db_grow v db = (if length (vals db) \<le> v
     then db_grow v (db\<lparr>vals := vals db @ [VU], reason := reason db @ [None], watches := watches db @ [[], []]\<rparr>)
     else db)"
  by pat_completeness auto
termination by (relation "measure (\<lambda>(v, db). v + 1 - length (vals db))") auto

declare db_grow.simps [simp del]

definition db_set :: "Lit \<Rightarrow> nat option \<Rightarrow> Db \<Rightarrow> Db option" where
  "db_set l r db = (let db = db_grow (lit_var l) db in do {
     vs \<leftarrow> put (vals db) (lit_var l) (if is_neg l then VF else VT);
     rs \<leftarrow> put (reason db) (lit_var l) r;
     Some (db\<lparr>vals := vs, reason := rs, trail := trail db @ [l]\<rparr>) })"

definition watch_push :: "Lit \<Rightarrow> nat \<Rightarrow> Db \<Rightarrow> Db option" where
  "watch_push l i db = do {
     ws \<leftarrow> at (watches db) l;
     Some (db\<lparr>watches := (watches db)[l := ws @ [i]]\<rparr>) }"

definition sorted_clause :: "Lit list \<Rightarrow> Lit list" where "sorted_clause c = remdups_adj (sort c)"

definition db_add :: "Lit list \<Rightarrow> Db \<Rightarrow> (nat \<times> Db) option" where
  "db_add c db =
     (let c = sorted_clause c;
          db = fold (\<lambda>l. db_grow (lit_var l)) c db;
          i = length (clauses db);
          db = db\<lparr>index := (index db)(c \<mapsto> (case index db c of Some is \<Rightarrow> is | None \<Rightarrow> []) @ [i])\<rparr>
      in do {
        db \<leftarrow> (if length c \<ge> 2 then do {
                db \<leftarrow> watch_push (lit_not (c ! 0)) i db;
                watch_push (lit_not (c ! 1)) i db }
              else Some (db\<lparr>units := units db @ [i]\<rparr>));
        Some (i, db\<lparr>clauses := clauses db @ [c], alive := alive db @ [True]\<rparr>) })"

section \<open>Propagation\<close>

definition swapped :: "nat \<Rightarrow> nat \<Rightarrow> 'a list \<Rightarrow> 'a list" where
  "swapped i j xs = xs[i := xs ! j, j := xs ! i]"

text \<open>
  The clauses that watch a literal that became false, one after the other: a satisfied clause
  keeps its watch, one with another literal that is not false moves it, and the last literal of
  the others is assigned. At a conflict the rest keep their watches.
\<close>

primrec visit :: "Lit \<Rightarrow> nat list \<Rightarrow> nat list \<Rightarrow> Db \<Rightarrow> ((bool \<times> nat list) \<times> Db) option" where
  "visit p [] keep db = Some ((False, keep), db)"
| "visit p (ci # ws) keep db = do {
     live \<leftarrow> at (alive db) ci;
     if \<not> live then visit p ws keep db
     else do {
       c \<leftarrow> at (clauses db) ci;
       let false_lit = lit_not p;
       l0 \<leftarrow> at c 0;
       l1 \<leftarrow> at c 1;
       let c = (if l0 = false_lit then swapped 0 1 c else c);
       let db = db\<lparr>clauses := (clauses db)[ci := c]\<rparr>;
       if c ! 1 \<noteq> false_lit then visit p ws keep db
       else let first = c ! 0
            in if db_val db first = VT then visit p ws (keep @ [ci]) db
               else (case find (\<lambda>k. db_val db (c ! k) \<noteq> VF) [2..<length c] of
                   Some k \<Rightarrow> do {
                     db \<leftarrow> watch_push (lit_not (c ! k)) ci (db\<lparr>clauses := (clauses db)[ci := swapped 1 k c]\<rparr>);
                     visit p ws keep db }
                 | None \<Rightarrow> (case db_val db first of
                       VF \<Rightarrow> Some ((True, keep @ ci # ws), db)
                     | VU \<Rightarrow> do { db \<leftarrow> db_set first (Some ci) db; visit p ws (keep @ [ci]) db }
                     | VT \<Rightarrow> visit p ws (keep @ [ci]) db)) } }"

partial_function (option) propagate :: "Db \<Rightarrow> (bool \<times> Db) option" where
  "propagate db =
     (if qhead db < length (trail db) then do {
        let p = trail db ! qhead db;
        let db = db\<lparr>qhead := qhead db + 1\<rparr>;
        ws \<leftarrow> at (watches db) p;
        r \<leftarrow> visit p ws [] (db\<lparr>watches := (watches db)[p := []]\<rparr>);
        let conflict = fst (fst r);
        let keep = snd (fst r);
        let db = snd r;
        kept \<leftarrow> at (watches db) p;
        let db = db\<lparr>watches := (watches db)[p := kept @ keep]\<rparr>;
        if conflict then Some (True, db) else propagate db }
      else Some (False, db))"

text \<open>Takes back assignments (the drained part of the trail).\<close>

fun unassign :: "Lit list \<Rightarrow> Db \<Rightarrow> Db option" where
  "unassign [] db = Some db"
| "unassign (l # ls) db = do {
     vs \<leftarrow> put (vals db) (lit_var l) VU;
     rs \<leftarrow> put (reason db) (lit_var l) None;
     unassign ls (db\<lparr>vals := vs, reason := rs\<rparr>) }"

text \<open>Assigns the live unit clauses; the flag tells that two of them contradict.\<close>

fun assign_units :: "nat list \<Rightarrow> Db \<Rightarrow> (bool \<times> Db) option" where
  "assign_units [] db = Some (False, db)"
| "assign_units (i # is) db = do {
     c \<leftarrow> at (clauses db) i;
     l \<leftarrow> at c 0;
     case db_val db l of
       VF \<Rightarrow> Some (True, db)
     | VU \<Rightarrow> do { db \<leftarrow> db_set l (Some i) db; assign_units is db }
     | VT \<Rightarrow> assign_units is db }"

definition reset_top :: "Db \<Rightarrow> Db option" where
  "reset_top db = do {
     db \<leftarrow> unassign (trail db) (db\<lparr>trail := []\<rparr>);
     let db = db\<lparr>qhead := 0, top_conflict := False\<rparr>;
     live \<leftarrow> those (map (\<lambda>i. map_option (\<lambda>b. (i, b)) (at (alive db) i)) (units db));
     (contradiction, db) \<leftarrow> assign_units (map fst (filter snd live)) db;
     if contradiction then Some (db\<lparr>top_conflict := True\<rparr>)
     else do {
       (conflict, db) \<leftarrow> propagate db;
       Some (if conflict then db\<lparr>top_conflict := True\<rparr> else db) } }"

section \<open>Reverse unit propagation\<close>

text \<open>Assigns the literals of a clause false; the flag tells that one of them was true.\<close>

fun assume_false :: "Lit list \<Rightarrow> Db \<Rightarrow> (bool \<times> Db) option" where
  "assume_false [] db = Some (False, db)"
| "assume_false (l # ls) db =
     (case db_val db l of
        VT \<Rightarrow> Some (True, db)
      | VU \<Rightarrow> do { db \<leftarrow> db_set (lit_not l) None db; assume_false ls db }
      | VF \<Rightarrow> assume_false ls db)"

definition rup :: "Lit list \<Rightarrow> Db \<Rightarrow> (bool \<times> Db) option" where
  "rup c db =
     (if top_conflict db then Some (True, db)
      else let mark = length (trail db) in do {
        (conflict, db) \<leftarrow> assume_false c db;
        (conflict, db) \<leftarrow> (if \<not> conflict then propagate db else Some (conflict, db));
        db \<leftarrow> (if mark \<le> length (trail db) then unassign (drop mark (trail db)) (db\<lparr>trail := take mark (trail db)\<rparr>)
              else None);
        Some (conflict, db\<lparr>qhead := mark\<rparr>) })"

section \<open>Checking a proof\<close>

datatype drup_error = StepFails nat "Lit list" | NoEmptyClause

definition db_new :: Db where
  "db_new = \<lparr>clauses = [], alive = [], index = (\<lambda>_. None), watches = [], vals = [], reason = [],
     trail = [], qhead = 0, units = [], top_conflict = False\<rparr>"

text \<open>Loads the clauses; the flag tells that one of them is empty.\<close>

fun load :: "Lit list list \<Rightarrow> Db \<Rightarrow> (bool \<times> Db) option" where
  "load [] db = Some (False, db)"
| "load (c # cs) db = (if c = [] then Some (True, db) else do { (_, db) \<leftarrow> db_add c db; load cs db })"

definition add_step :: "Lit list \<Rightarrow> Db \<Rightarrow> Db option" where
  "add_step c db = do {
     (i, db) \<leftarrow> db_add c db;
     ci \<leftarrow> at (clauses db) i;
     if length c = 1 \<or> length ci = 1 then reset_top db
     else if \<not> top_conflict db then do {
       a \<leftarrow> at ci 0;
       b \<leftarrow> at ci 1;
       if db_val db a = VF \<or> db_val db b = VF then reset_top db else Some db }
     else Some db }"

definition delete_step :: "Lit list \<Rightarrow> Db \<Rightarrow> Db option" where
  "delete_step c db =
     (let key = sorted_clause c
      in case index db key of
           Some is \<Rightarrow> if is = [] then Some db
             else let i = last is; db = db\<lparr>index := (index db)(key \<mapsto> butlast is)\<rparr> in do {
               live \<leftarrow> put (alive db) i False;
               let db = db\<lparr>alive := live\<rparr>;
               if Some i \<in> set (reason db) then reset_top db else Some db }
         | None \<Rightarrow> Some db)"

text \<open>The steps from number \<open>n\<close> on.\<close>

fun run_steps :: "nat \<Rightarrow> proof_step list \<Rightarrow> bool \<Rightarrow> Db \<Rightarrow> (drup_error + unit) option" where
  "run_steps n [] complete db = Some (if complete then Inl NoEmptyClause else Inr ())"
| "run_steps n (Add c # steps) complete db = do {
     (follows, db) \<leftarrow> rup c db;
     if \<not> follows then Some (Inl (StepFails n c))
     else if c = [] then Some (Inr ())
     else do { db \<leftarrow> add_step c db; run_steps (n + 1) steps complete db } }"
| "run_steps n (Delete c # steps) complete db = do {
     db \<leftarrow> delete_step c db;
     run_steps (n + 1) steps complete db }"

definition check_steps :: "Lit list list \<Rightarrow> proof_step list \<Rightarrow> bool \<Rightarrow> (drup_error + unit) option" where
  "check_steps cnf steps complete = do {
     (empty, db) \<leftarrow> load cnf db_new;
     if empty then Some (Inr ())
     else do { db \<leftarrow> reset_top db; run_steps 0 steps complete db } }"

definition check :: "Lit list list \<Rightarrow> proof_step list \<Rightarrow> (drup_error + unit) option" where
  "check cnf steps = check_steps cnf steps True"

end
