(* ===== verification/Cnf.thy ===== *)
theory Cnf
  imports Aig_Correct Drup
begin

unbundle bit_operations_syntax

text \<open>
  The clauses of a graph (\<open>Cnf\<close> in \<open>bitwright/src/prove/aig.rs\<close>): which nodes get a variable and
  how each is encoded, and the clauses of every gate. \<open>None\<close> is a panic. Of the solver, the
  encoding uses the number of its variables and hands it clauses: \<open>Port\<close> records both.
\<close>

section \<open>Recognising gates\<close>

datatype Gate = GXor L L | GXor3 L L L | GNotMux L L L | GNotMaj L L L | GAnd nat nat

definition count_use :: "nat \<Rightarrow> L \<Rightarrow> nat list \<Rightarrow> nat list option" where
  "count_use k l uses = do { u \<leftarrow> at uses (l div 2); put uses (l div 2) (u + k) }"

fun count_roots :: "L list \<Rightarrow> nat list \<Rightarrow> nat list option" where
  "count_roots [] uses = Some uses"
| "count_roots (r # rs) uses = do { uses \<leftarrow> count_use 2 r uses; count_roots rs uses }"

text \<open>Uses within the cone, from the top node down.\<close>

fun count_gates :: "Aig \<Rightarrow> nat list \<Rightarrow> nat list \<Rightarrow> nat list option" where
  "count_gates g [] uses = Some uses"
| "count_gates g (i # is) uses = do {
     u \<leftarrow> at uses i;
     uses \<leftarrow> (if u > 0 then (case nodes g ! i of
                 NAnd a b \<Rightarrow> do { uses \<leftarrow> count_use 1 a uses; count_use 1 b uses }
               | _ \<Rightarrow> Some uses) else Some uses);
     count_gates g is uses }"

definition count_uses :: "Aig \<Rightarrow> L list \<Rightarrow> nat list option" where
  "count_uses g roots = do {
     uses \<leftarrow> count_roots roots (replicate (length (nodes g)) 0);
     count_gates g (rev [1..<length (nodes g)]) uses }"

definition inner :: "Aig \<Rightarrow> L \<Rightarrow> (L \<times> L) option option" where
  "inner g l = do { n \<leftarrow> node_at g l; Some (case n of NAnd a b \<Rightarrow> Some (a, b) | _ \<Rightarrow> None) }"

definition private_inner :: "Aig \<Rightarrow> nat list \<Rightarrow> L \<Rightarrow> (L \<times> L) option option" where
  "private_inner g uses l = do {
     n \<leftarrow> node_at g l;
     case n of
       NAnd a b \<Rightarrow> do { u \<leftarrow> at uses (l div 2); Some (if u = 1 then Some (a, b) else None) }
     | _ \<Rightarrow> Some None }"

definition first_of :: "'a option list \<Rightarrow> 'a option" where
  "first_of xs = (case filter (\<lambda>x. x \<noteq> None) xs of [] \<Rightarrow> None | x # _ \<Rightarrow> x)"

definition mux_candidate :: "L \<times> L \<Rightarrow> L \<times> L \<Rightarrow> Gate option" where
  "mux_candidate ct de = (if fst de = fst ct XOR 1 then Some (GNotMux (fst ct) (snd ct) (snd de)) else None)"

definition gate2 :: "Aig \<Rightarrow> L \<Rightarrow> L \<Rightarrow> Gate option option" where
  "gate2 g a b =
     (if a AND 1 = 0 \<or> b AND 1 = 0 then Some None
      else do {
        p \<leftarrow> inner g a;
        case p of None \<Rightarrow> Some None
        | Some (p0, p1) \<Rightarrow> do {
            q \<leftarrow> inner g b;
            case q of None \<Rightarrow> Some None
            | Some (q0, q1) \<Rightarrow>
                if (q0 = p0 XOR 1 \<and> q1 = p1 XOR 1) \<or> (q0 = p1 XOR 1 \<and> q1 = p0 XOR 1)
                then Some (Some (GXor p0 p1))
                else Some (first_of [mux_candidate (p0, p1) (q0, q1), mux_candidate (p0, p1) (q1, q0),
                                     mux_candidate (p1, p0) (q0, q1), mux_candidate (p1, p0) (q1, q0)]) } })"

definition maj_candidate :: "L \<times> L \<Rightarrow> L \<times> L \<Rightarrow> L \<times> L \<Rightarrow> Gate option" where
  "maj_candidate xy q r =
     (case (if fst q = fst xy then Some (snd q) else if snd q = fst xy then Some (fst q) else None) of
        None \<Rightarrow> None
      | Some z \<Rightarrow>
          if (fst r = snd xy \<and> snd r = z) \<or> (fst r = z \<and> snd r = snd xy)
          then Some (GNotMaj (fst xy) (snd xy) z) else None)"

definition maj_split :: "Aig \<Rightarrow> L \<Rightarrow> L \<Rightarrow> Gate option option" where
  "maj_split g tree pair =
     (if tree AND 1 \<noteq> 0 \<or> pair AND 1 = 0 then Some None
      else do {
        t \<leftarrow> inner g tree;
        case t of None \<Rightarrow> Some None
        | Some (p, q) \<Rightarrow>
            if p AND 1 = 0 \<or> q AND 1 = 0 then Some None
            else do {
              p \<leftarrow> inner g p;
              q \<leftarrow> inner g q;
              r \<leftarrow> inner g pair;
              Some (case (p, q, r) of
                  (Some (p0, p1), Some q, Some r) \<Rightarrow> first_of [maj_candidate (p0, p1) q r, maj_candidate (p1, p0) q r]
                | _ \<Rightarrow> None) } })"

definition majority :: "Aig \<Rightarrow> L \<Rightarrow> L \<Rightarrow> Gate option option" where
  "majority g a b = do { m \<leftarrow> maj_split g a b; case m of Some _ \<Rightarrow> Some m | None \<Rightarrow> maj_split g b a }"

definition special :: "Aig \<Rightarrow> L \<Rightarrow> L \<Rightarrow> Gate option option" where
  "special g a b = do { m \<leftarrow> gate2 g a b; case m of Some _ \<Rightarrow> Some m | None \<Rightarrow> majority g a b }"

text \<open>A parity whose operand is a parity used only by it.\<close>

fun xor_triple :: "Aig \<Rightarrow> nat list \<Rightarrow> (L \<times> L) list \<Rightarrow> Gate option option" where
  "xor_triple g uses [] = Some None"
| "xor_triple g uses ((operand, other) # rest) = do {
     u \<leftarrow> at uses (operand div 2);
     if u \<noteq> 2 then xor_triple g uses rest
     else do {
       n \<leftarrow> node_at g operand;
       case n of
         NAnd p q \<Rightarrow> do {
           m \<leftarrow> gate2 g p q;
           case m of
             Some (GXor u v) \<Rightarrow> Some (Some (GXor3 u (v XOR (operand AND 1)) other))
           | _ \<Rightarrow> xor_triple g uses rest }
       | _ \<Rightarrow> xor_triple g uses rest } }"

definition detect :: "Aig \<Rightarrow> nat list \<Rightarrow> bool \<Rightarrow> nat \<Rightarrow> L \<Rightarrow> L \<Rightarrow> Gate option option" where
  "detect g uses xor3 i a b = do {
     m \<leftarrow> special g a b;
     case m of
       Some (GXor x y) \<Rightarrow> do {
         u \<leftarrow> at uses i;
         if xor3 \<and> u > 1 then do {
           t \<leftarrow> xor_triple g uses [(x, y), (y, x)];
           Some (case t of Some _ \<Rightarrow> t | None \<Rightarrow> m) }
         else Some m }
     | _ \<Rightarrow> Some m }"

text \<open>The inputs of a tree of private conjunctions; the top of the stack comes first.\<close>

partial_function (option) collect :: "Aig \<Rightarrow> nat list \<Rightarrow> L list \<Rightarrow> L list \<Rightarrow> L list option" where
  "collect g uses stack leaves =
     (case stack of [] \<Rightarrow> Some leaves
      | l # stack \<Rightarrow> do {
          m \<leftarrow> private_inner g uses l;
          case m of
            None \<Rightarrow> collect g uses stack (leaves @ [l])
          | Some p \<Rightarrow>
              if l AND 1 = 0 then do {
                s \<leftarrow> special g (fst p) (snd p);
                if s = None then collect g uses (fst p # snd p # stack) leaves
                else collect g uses stack (leaves @ [l]) }
              else collect g uses stack (leaves @ [l]) })"

section \<open>Choosing the gates\<close>

text \<open>The nodes that need a variable, the gates chosen so far, and the leaves of their trees.\<close>

record Choice =
  ch_need :: "bool list"
  ch_gates :: "(nat \<times> Gate) list"
  ch_leaves :: "L list"

fun mark_need :: "L list \<Rightarrow> bool list \<Rightarrow> bool list option" where
  "mark_need [] need = Some need"
| "mark_need (l # ls) need = do { need \<leftarrow> put need (l div 2) True; mark_need ls need }"

fun operands :: "L list \<Rightarrow> Gate \<Rightarrow> L list" where
  "operands leaves (GXor x y) = [x, y]"
| "operands leaves (GXor3 x y z) = [x, y, z]"
| "operands leaves (GNotMux c t e) = [c, t, e]"
| "operands leaves (GNotMaj x y z) = [x, y, z]"
| "operands leaves (GAnd s e) = take (e - s) (drop s leaves)"

definition choose_gate :: "Aig \<Rightarrow> nat list \<Rightarrow> bool \<Rightarrow> nat \<Rightarrow> Choice \<Rightarrow> Choice option" where
  "choose_gate g uses xor3 i c = do {
     needed \<leftarrow> at (ch_need c) i;
     if \<not> needed then Some c
     else (case nodes g ! i of
         NAnd a b \<Rightarrow> do {
           detected \<leftarrow> detect g uses xor3 i a b;
           (gate, ls) \<leftarrow> (case detected of
               Some gate \<Rightarrow> Some (gate, ch_leaves c)
             | None \<Rightarrow> do {
                 ls \<leftarrow> collect g uses [a, b] (ch_leaves c);
                 Some (GAnd (length (ch_leaves c)) (length ls), ls) });
           need \<leftarrow> mark_need (operands ls gate) (ch_need c);
           Some \<lparr>ch_need = need, ch_gates = ch_gates c @ [(i, gate)], ch_leaves = ls\<rparr> }
       | _ \<Rightarrow> Some c) }"

fun choose_gates :: "Aig \<Rightarrow> nat list \<Rightarrow> bool \<Rightarrow> nat list \<Rightarrow> Choice \<Rightarrow> Choice option" where
  "choose_gates g uses xor3 [] c = Some c"
| "choose_gates g uses xor3 (i # is) c = do {
     c \<leftarrow> choose_gate g uses xor3 i c;
     choose_gates g uses xor3 is c }"

section \<open>The clauses\<close>

text \<open>What the encoding asks of the solver: variables, and clauses with their first watches.\<close>

record Port =
  num_vars :: nat
  given :: "(Lit list \<times> (Lit \<times> Lit) option) list"

record Cnf =
  var :: "nat list"
  kept :: "Lit list list"
  keep :: bool
  emitted :: nat

definition NONE :: nat where "NONE = 2 ^ 32 - 1"

definition new_var :: "Port \<Rightarrow> nat \<times> Port" where
  "new_var p = (num_vars p, p\<lparr>num_vars := num_vars p + 1\<rparr>)"

definition push_clause :: "Lit list \<Rightarrow> (Lit \<times> Lit) option \<Rightarrow> Cnf \<times> Port \<Rightarrow> Cnf \<times> Port" where
  "push_clause c w s = (case s of (cnf, p) \<Rightarrow>
     ((let cnf = cnf\<lparr>emitted := emitted cnf + 1\<rparr> in if keep cnf then cnf\<lparr>kept := kept cnf @ [c]\<rparr> else cnf),
      p\<lparr>given := given p @ [(c, w)]\<rparr>))"

definition cnf_lit :: "Cnf \<Rightarrow> L \<Rightarrow> Lit option" where
  "cnf_lit cnf l = do { v \<leftarrow> at (var cnf) (l div 2); Some (lit_new v (l AND 1 = 0)) }"

definition mapped_lit :: "Cnf \<Rightarrow> L \<Rightarrow> Lit option" where
  "mapped_lit cnf l = do { v \<leftarrow> at (var cnf) (l div 2); if v \<noteq> NONE then Some (lit_new v (l AND 1 = 0)) else None }"

fun number_nodes :: "nat \<Rightarrow> bool list \<Rightarrow> nat list \<times> Port \<Rightarrow> nat list \<times> Port" where
  "number_nodes i [] s = s"
| "number_nodes i (b # bs) (vs, p) =
     number_nodes (i + 1) bs (if b then (let (v, p) = new_var p in (vs[i := v], p)) else (vs, p))"

definition push_all :: "Lit list list \<Rightarrow> Cnf \<times> Port \<Rightarrow> Cnf \<times> Port" where
  "push_all cs s = fold (\<lambda>c. push_clause c None) cs s"

definition xor3_clause :: "Lit \<Rightarrow> Lit \<Rightarrow> Lit \<Rightarrow> Lit \<Rightarrow> nat \<Rightarrow> Lit list" where
  "xor3_clause g x y z assignment =
     [if (of_bool (bit assignment 0) + of_bool (bit assignment 1) + of_bool (bit assignment 2) :: nat) AND 1 = 1
        then g else lit_not g,
      if assignment AND 1 = 0 then x else lit_not x,
      if assignment AND 2 = 0 then y else lit_not y,
      if assignment AND 4 = 0 then z else lit_not z]"

definition emit_gate :: "L list \<Rightarrow> nat \<times> Gate \<Rightarrow> Cnf \<times> Port \<Rightarrow> (Cnf \<times> Port) option" where
  "emit_gate leaves ig s = do {
     let cnf = fst s;
     v \<leftarrow> at (var cnf) (fst ig);
     let g = lit_pos v;
     case snd ig of
       GXor x y \<Rightarrow> do {
         x \<leftarrow> cnf_lit cnf x; y \<leftarrow> cnf_lit cnf y;
         Some (push_all [[lit_not g, x, y], [lit_not g, lit_not x, lit_not y], [g, lit_not x, y], [g, x, lit_not y]] s) }
     | GXor3 x y z \<Rightarrow> do {
         x \<leftarrow> cnf_lit cnf x; y \<leftarrow> cnf_lit cnf y; z \<leftarrow> cnf_lit cnf z;
         Some (fold (\<lambda>assignment. let c = xor3_clause g x y z assignment in push_clause c (Some (c ! 0, c ! 3))) [0..<8] s) }
     | GNotMux c t e \<Rightarrow> do {
         c \<leftarrow> cnf_lit cnf c; t \<leftarrow> cnf_lit cnf t; e \<leftarrow> cnf_lit cnf e;
         Some (push_all [[lit_not c, lit_not t, lit_not g], [lit_not c, t, g], [c, lit_not e, lit_not g], [c, e, g]] s) }
     | GNotMaj x y z \<Rightarrow> do {
         x \<leftarrow> cnf_lit cnf x; y \<leftarrow> cnf_lit cnf y; z \<leftarrow> cnf_lit cnf z;
         Some (push_all [[lit_not x, lit_not y, lit_not g], [x, y, g], [lit_not x, lit_not z, lit_not g], [x, z, g],
           [lit_not y, lit_not z, lit_not g], [y, z, g]] s) }
     | GAnd _ _ \<Rightarrow> do {
         xs \<leftarrow> those (map (cnf_lit cnf) (operands leaves (snd ig)));
         Some (push_clause (g # map lit_not xs) None (push_all (map (\<lambda>x. [lit_not g, x]) xs) s)) } }"

fun emit_gates :: "L list \<Rightarrow> (nat \<times> Gate) list \<Rightarrow> Cnf \<times> Port \<Rightarrow> (Cnf \<times> Port) option" where
  "emit_gates leaves [] s = Some s"
| "emit_gates leaves (ig # igs) s = do { s \<leftarrow> emit_gate leaves ig s; emit_gates leaves igs s }"

definition encode_with_xor3 :: "Aig \<Rightarrow> L list \<Rightarrow> Port \<Rightarrow> bool \<Rightarrow> bool \<Rightarrow> (Cnf \<times> Port) option" where
  "encode_with_xor3 g roots solver keeping xor3 =
     (let n = length (nodes g) in do {
        uses \<leftarrow> count_uses g roots;
        need \<leftarrow> mark_need roots (replicate n False);
        c \<leftarrow> choose_gates g uses xor3 (rev [1..<n]) \<lparr>ch_need = need, ch_gates = [], ch_leaves = []\<rparr>;
        let (vs, solver) = number_nodes 0 (ch_need c) (replicate n NONE, solver);
        let cnf = \<lparr>var = vs, kept = [], keep = keeping, emitted = 0\<rparr>;
        needed0 \<leftarrow> at (ch_need c) 0;
        s \<leftarrow> (if needed0 then do { f \<leftarrow> cnf_lit cnf FALSE; Some (push_clause [lit_not f] None (cnf, solver)) }
              else Some (cnf, solver));
        emit_gates (ch_leaves c) (rev (ch_gates c)) s })"

definition encode :: "Aig \<Rightarrow> L list \<Rightarrow> Port \<Rightarrow> bool \<Rightarrow> (Cnf \<times> Port) option" where
  "encode g roots solver keeping = encode_with_xor3 g roots solver keeping False"

definition cnf_assert :: "L \<Rightarrow> Cnf \<times> Port \<Rightarrow> (Cnf \<times> Port) option" where
  "cnf_assert l s = do { x \<leftarrow> cnf_lit (fst s) l; Some (push_clause [x] None s) }"

definition cnf_value :: "Cnf \<Rightarrow> L \<Rightarrow> bool list \<Rightarrow> bool" where
  "cnf_value cnf l model =
     (let v = (if l div 2 < length (var cnf) then var cnf ! (l div 2) else NONE);
          b = (if v \<noteq> NONE then (if v < length model then model ! v else False) else False)
      in b \<noteq> (l AND 1 = 1))"

end
