(* ===== verification/Drup_Sound.thy ===== *)
theory Drup_Sound
  imports Drup
begin

unbundle bit_operations_syntax

declare One_nat_def [simp del]

text \<open>
  The invariant of the checker's database, what propagation keeps of it, and its two promises:
  an accepted proof shows the clauses unsatisfiable, and every run returns.
\<close>

section \<open>Assignments and clauses\<close>

definition lit_holds :: "(nat \<Rightarrow> bool) \<Rightarrow> Lit \<Rightarrow> bool" where
  "lit_holds m l \<longleftrightarrow> m (lit_var l) \<noteq> is_neg l"

definition satisfies :: "(nat \<Rightarrow> bool) \<Rightarrow> Lit list \<Rightarrow> bool" where
  "satisfies m c \<longleftrightarrow> (\<exists>l\<in>set c. lit_holds m l)"

definition models :: "Lit list list \<Rightarrow> (nat \<Rightarrow> bool) set" where
  "models cnf = {m. \<forall>c\<in>set cnf. satisfies m c}"

lemma lit_var_not [simp]: "lit_var (lit_not l) = lit_var l"
  by (rule bit_eqI) (simp add: lit_var_def lit_not_def bit_simps)

lemma lit_var_div: "lit_var l = l div 2"
  by (simp add: lit_var_def drop_bit_Suc One_nat_def)

lemma is_neg_odd: "is_neg l \<longleftrightarrow> odd l"
  by (simp add: is_neg_def and_one_eq odd_iff_mod_2_eq_one)

lemma is_neg_not [simp]: "is_neg (lit_not l) \<longleftrightarrow> \<not> is_neg l"
  by (simp add: is_neg_odd lit_not_def even_xor_iff)

lemma holds_not [simp]: "lit_holds m (lit_not l) \<longleftrightarrow> \<not> lit_holds m l"
  by (auto simp: lit_holds_def)

lemma sat_lit_eqI: "lit_var l = lit_var k \<Longrightarrow> is_neg l = is_neg k \<Longrightarrow> l = k"
  unfolding lit_var_div is_neg_odd by presburger

lemma lit_not_not [simp]: "lit_not (lit_not l) = l"
  by (rule sat_lit_eqI) simp_all

lemma lit_not_bound: "lit_var l < n \<Longrightarrow> l < 2 * n"
  by (simp add: lit_var_div)

lemma satisfies_set: "set c = set d \<Longrightarrow> satisfies m c \<longleftrightarrow> satisfies m d"
  by (simp add: satisfies_def)

section \<open>The invariant\<close>

definition clauses_ok :: "Db \<Rightarrow> bool" where
  "clauses_ok db \<longleftrightarrow> length (alive db) = length (clauses db) \<and>
     (\<forall>c\<in>set (clauses db). c \<noteq> [] \<and> (\<forall>l\<in>set c. lit_var l < length (vals db)))"

definition watched_ok :: "Db \<Rightarrow> nat list \<Rightarrow> bool" where
  "watched_ok db is \<longleftrightarrow> (\<forall>i\<in>set is. i < length (clauses db) \<and> 2 \<le> length (clauses db ! i))"

definition trail_ok :: "Db \<Rightarrow> bool" where
  "trail_ok db \<longleftrightarrow> (\<forall>l\<in>set (trail db). lit_var l < length (vals db) \<and> db_val db l = VT) \<and>
     distinct (map lit_var (trail db)) \<and>
     (\<forall>v<length (vals db). vals db ! v \<noteq> VU \<longrightarrow> v \<in> lit_var ` set (trail db)) \<and>
     qhead db \<le> length (trail db)"

definition indices_ok :: "Db \<Rightarrow> bool" where
  "indices_ok db \<longleftrightarrow> (\<forall>i\<in>set (units db). i < length (clauses db) \<and> length (clauses db ! i) = 1) \<and>
     (\<forall>k is. index db k = Some is \<longrightarrow> (\<forall>i\<in>set is. i < length (clauses db)))"

definition db_ok :: "Db \<Rightarrow> bool" where
  "db_ok db \<longleftrightarrow> length (reason db) = length (vals db) \<and> length (watches db) = 2 * length (vals db) \<and>
     clauses_ok db \<and> (\<forall>ws\<in>set (watches db). watched_ok db ws) \<and> indices_ok db \<and> trail_ok db"

lemma db_val_other [simp]:
  "db_val (db\<lparr>clauses := cs\<rparr>) = db_val db" "db_val (db\<lparr>alive := as\<rparr>) = db_val db" "db_val (db\<lparr>index := ix\<rparr>) = db_val db"
  "db_val (db\<lparr>watches := ws\<rparr>) = db_val db" "db_val (db\<lparr>reason := rs\<rparr>) = db_val db" "db_val (db\<lparr>trail := tr\<rparr>) = db_val db"
  "db_val (db\<lparr>qhead := q\<rparr>) = db_val db" "db_val (db\<lparr>units := us\<rparr>) = db_val db" "db_val (db\<lparr>top_conflict := t\<rparr>) = db_val db"
  by (simp_all add: fun_eq_iff db_val_def)

text \<open>Every model in a set satisfies the clauses and the assigned literals.\<close>

definition sound_for :: "(nat \<Rightarrow> bool) set \<Rightarrow> Db \<Rightarrow> bool" where
  "sound_for M db \<longleftrightarrow> (\<forall>m\<in>M. (\<forall>c\<in>set (clauses db). satisfies m c) \<and> (\<forall>l\<in>set (trail db). lit_holds m l))"

text \<open>What propagation leaves alone: the clauses as sets, and the trail it extends.\<close>

definition keeps :: "Db \<Rightarrow> Db \<Rightarrow> bool" where
  "keeps db db' \<longleftrightarrow> length (vals db) \<le> length (vals db') \<and> length (clauses db') = length (clauses db) \<and>
     (\<forall>i<length (clauses db). set (clauses db' ! i) = set (clauses db ! i) \<and> length (clauses db' ! i) = length (clauses db ! i)) \<and>
     alive db' = alive db \<and> index db' = index db \<and> units db' = units db \<and> top_conflict db' = top_conflict db \<and>
     (\<exists>ts. trail db' = trail db @ ts) \<and> (\<forall>l. db_val db l \<noteq> VU \<longrightarrow> db_val db' l = db_val db l)"

lemma keeps_refl [simp]: "keeps db db" by (simp add: keeps_def)

lemma keeps_trans [trans]: "keeps a b \<Longrightarrow> keeps b c \<Longrightarrow> keeps a c"
  unfolding keeps_def by (auto; metis)

lemma keeps_watched: "keeps db db' \<Longrightarrow> watched_ok db is \<Longrightarrow> watched_ok db' is"
  by (auto simp: keeps_def watched_ok_def)

lemma val_true_trail:
  assumes "trail_ok db" "db_val db l = VT"
  shows "l \<in> set (trail db)"
proof -
  have v: "lit_var l < length (vals db)" "vals db ! lit_var l \<noteq> VU"
    using assms(2) by (auto simp: db_val_def split: if_splits V.splits)
  then obtain k where k: "k \<in> set (trail db)" "lit_var k = lit_var l"
    using assms(1) unfolding trail_ok_def by (metis imageE)
  have "is_neg k = is_neg l"
    using assms k v unfolding trail_ok_def by (fastforce simp: db_val_def split: if_splits V.splits)
  then show ?thesis using k sat_lit_eqI by blast
qed

lemma val_not: "db_val db (lit_not l) = (case db_val db l of VT \<Rightarrow> VF | VF \<Rightarrow> VT | VU \<Rightarrow> VU)"
  by (auto simp: db_val_def split: V.splits if_splits)

lemma val_false_trail: "trail_ok db \<Longrightarrow> db_val db l = VF \<Longrightarrow> lit_not l \<in> set (trail db)"
  by (rule val_true_trail) (simp_all add: val_not)

lemma sound_val:
  assumes "sound_for M db" "trail_ok db" "m \<in> M"
  shows "db_val db l = VT \<Longrightarrow> lit_holds m l" "db_val db l = VF \<Longrightarrow> \<not> lit_holds m l"
  using assms val_true_trail val_false_trail unfolding sound_for_def by (blast, fastforce)

section \<open>Growing and assigning\<close>

lemma db_grow_unfold: "db_grow v db = (let k = v + 1 - length (vals db) in
   db\<lparr>vals := vals db @ replicate k VU, reason := reason db @ replicate k None, watches := watches db @ replicate (2 * k) []\<rparr>)"
proof (induction v db rule: db_grow.induct)
  case (1 v db)
  show ?case
  proof (cases "length (vals db) \<le> v")
    case True
    define k where "k = v - length (vals db)"
    have "v + 1 - length (vals db) = Suc k" "v + 1 - (length (vals db) + 1) = k" using True by (auto simp: k_def)
    then show ?thesis using 1 [OF True] True by (subst db_grow.simps) (simp add: Let_def numeral_2_eq_2 One_nat_def)
  qed (subst db_grow.simps, simp)
qed

lemma db_grow_simps [simp]:
  "clauses (db_grow v db) = clauses db" "alive (db_grow v db) = alive db" "index (db_grow v db) = index db"
  "trail (db_grow v db) = trail db" "qhead (db_grow v db) = qhead db" "units (db_grow v db) = units db"
  "top_conflict (db_grow v db) = top_conflict db" "length (vals (db_grow v db)) = max (length (vals db)) (v + 1)"
  "length (reason (db_grow v db)) = length (reason db) + (v + 1 - length (vals db))"
  "length (watches (db_grow v db)) = length (watches db) + 2 * (v + 1 - length (vals db))"
  by (simp_all add: db_grow_unfold Let_def)

lemma db_val_grow [simp]: "db_val (db_grow v db) l = db_val db l"
  by (auto simp: db_val_def db_grow_unfold Let_def nth_append)

lemma db_grow_in: "v < length (vals db) \<Longrightarrow> db_grow v db = db"
  by (simp add: db_grow_unfold)

lemma trail_ok_grow: "trail_ok db \<Longrightarrow> trail_ok (db_grow v db)"
  by (auto simp: trail_ok_def less_max_iff_disj) (auto simp: db_grow_unfold Let_def nth_append split: if_splits)

lemma db_grow_ok:
  assumes "db_ok db"
  shows "db_ok (db_grow v db)"
proof -
  have "clauses_ok (db_grow v db)" "indices_ok (db_grow v db)" "\<forall>ws\<in>set (watches (db_grow v db)). watched_ok (db_grow v db) ws"
    using assms by (fastforce simp: db_ok_def clauses_ok_def, simp add: db_ok_def indices_ok_def,
        auto simp: db_ok_def watched_ok_def db_grow_unfold Let_def)
  then show ?thesis using assms trail_ok_grow by (auto simp: db_ok_def max_def)
qed

lemma keeps_grow: "keeps db (db_grow v db)" by (simp add: keeps_def)

lemma sound_grow: "sound_for M (db_grow v db) \<longleftrightarrow> sound_for M db" by (simp add: sound_for_def)

lemma db_set_in:
  assumes ok: "db_ok db" and l: "lit_var l < length (vals db)" "db_val db l = VU"
  shows "\<exists>db'. db_set l r db = Some db' \<and> db_ok db' \<and> keeps db db' \<and> trail db' = trail db @ [l] \<and> qhead db' = qhead db \<and>
    clauses db' = clauses db \<and> watches db' = watches db \<and> length (vals db') = length (vals db)"
proof -
  let ?db = "db\<lparr>vals := (vals db)[lit_var l := (if is_neg l then VF else VT)], reason := (reason db)[lit_var l := r],
     trail := trail db @ [l]\<rparr>"
  have u: "vals db ! lit_var l = VU" using l by (auto simp: db_val_def split: V.splits if_splits)
  have tr: "trail_ok db" and len: "length (reason db) = length (vals db)" using ok by (simp_all add: db_ok_def)
  have fresh: "lit_var l \<notin> lit_var ` set (trail db)"
    using tr u by (fastforce simp: trail_ok_def db_val_def split: if_splits V.splits)
  have val: "db_val (db\<lparr>vals := (vals db)[lit_var l := (if is_neg l then VF else VT)]\<rparr>) k = (if lit_var k = lit_var l then (if is_neg k = is_neg l then VT else VF) else db_val db k)" for k
    using l(1) by (auto simp: db_val_def)
  have "trail_ok ?db"
    using tr fresh l(1) by (auto simp: trail_ok_def val nth_list_update image_iff)
  then have "db_ok ?db" using ok by (simp add: db_ok_def clauses_ok_def indices_ok_def watched_ok_def)
  moreover have unset: "db_val db k = VU" if "lit_var k = lit_var l" for k
    using u that by (simp add: db_val_def)
  then have "keeps db ?db" using unset by (auto simp: keeps_def val)
  moreover have "db_set l r db = Some ?db"
    using l(1) len by (simp add: db_set_def db_grow_in put_def)
  ultimately show ?thesis by auto
qed

lemma db_set_any:
  assumes "db_ok db" "db_val db l = VU"
  shows "\<exists>db'. db_set l r db = Some db' \<and> db_ok db' \<and> keeps db db' \<and> trail db' = trail db @ [l] \<and> qhead db' = qhead db \<and>
    clauses db' = clauses db"
proof -
  have "db_set l r db = db_set l r (db_grow (lit_var l) db)"
    unfolding db_set_def by (simp add: db_grow_in)
  moreover obtain db' where d: "db_set l r (db_grow (lit_var l) db) = Some db'" "db_ok db'" "keeps (db_grow (lit_var l) db) db'"
      "trail db' = trail db @ [l]" "qhead db' = qhead db" "clauses db' = clauses db"
  proof -
    have "lit_var l < length (vals (db_grow (lit_var l) db))" "db_val (db_grow (lit_var l) db) l = VU"
      using assms(2) by simp_all
    from db_set_in [OF db_grow_ok [OF assms(1)] this] that show ?thesis by (auto simp del: db_grow_simps(8) simp: db_grow_simps(1,4,5))
  qed
  ultimately show ?thesis using keeps_trans [OF keeps_grow d(3)] by auto
qed

lemma sound_extend: "sound_for M db \<Longrightarrow> clauses db' = clauses db \<Longrightarrow> trail db' = trail db @ [l] \<Longrightarrow>
    (\<And>m. m \<in> M \<Longrightarrow> lit_holds m l) \<Longrightarrow> sound_for M db'"
  by (auto simp: sound_for_def)

section \<open>Visiting watches\<close>

lemma set_swapped: "i < length c \<Longrightarrow> j < length c \<Longrightarrow> set (swapped i j c) = set c"
  by (simp add: swapped_def set_swap)

lemma length_swapped [simp]: "length (swapped i j c) = length c" by (simp add: swapped_def)

text \<open>Replacing a clause by one with the same literals.\<close>

abbreviation reclause :: "nat \<Rightarrow> Lit list \<Rightarrow> Db \<Rightarrow> Db" where
  "reclause ci c db \<equiv> db\<lparr>clauses := (clauses db)[ci := c]\<rparr>"

lemma reclause_ok:
  assumes ok: "db_ok db" and ci: "ci < length (clauses db)" "set c = set (clauses db ! ci)" "length c = length (clauses db ! ci)"
  shows "db_ok (reclause ci c db)" "keeps db (reclause ci c db)" "sound_for M db \<Longrightarrow> sound_for M (reclause ci c db)"
proof -
  have mem: "clauses db ! ci \<in> set (clauses db)" using ci(1) by simp
  have sub: "d \<in> set (clauses db) \<or> d = c" if "d \<in> set ((clauses db)[ci := c])" for d
    using that set_update_subset_insert [of "clauses db" ci c] by auto
  have ne: "c \<noteq> []" "\<forall>l\<in>set c. lit_var l < length (vals db)"
    using ok mem ci by (auto simp: db_ok_def clauses_ok_def)
  have "clauses_ok (reclause ci c db)" using ok ne sub by (fastforce simp: db_ok_def clauses_ok_def)
  moreover have "watched_ok (reclause ci c db) js \<longleftrightarrow> watched_ok db js" for js
    using ci by (auto simp: watched_ok_def nth_list_update)
  moreover have "trail_ok (reclause ci c db) \<longleftrightarrow> trail_ok db" by (simp add: trail_ok_def db_val_def)
  ultimately show "db_ok (reclause ci c db)" using ok ci by (simp add: db_ok_def indices_ok_def nth_list_update)
  show "keeps db (reclause ci c db)" using ci by (auto simp: keeps_def nth_list_update db_val_def)
  show "sound_for M (reclause ci c db)" if "sound_for M db"
  proof -
    have "satisfies m c" if "m \<in> M" for m
      using \<open>sound_for M db\<close> mem satisfies_set [OF ci(2)] that by (auto simp: sound_for_def)
    then show ?thesis using that sub unfolding sound_for_def by fastforce
  qed
qed

lemma watch_push_ok:
  assumes "db_ok db" "lit_var l < length (vals db)" "i < length (clauses db)" "2 \<le> length (clauses db ! i)"
  shows "\<exists>db'. watch_push l i db = Some db' \<and> db_ok db' \<and> keeps db db' \<and> trail db' = trail db \<and> qhead db' = qhead db \<and>
    clauses db' = clauses db \<and> length (vals db') = length (vals db)"
proof -
  have l: "l < length (watches db)" using assms(1,2) lit_not_bound by (simp add: db_ok_def)
  let ?db = "db\<lparr>watches := (watches db)[l := watches db ! l @ [i]]\<rparr>"
  have "watched_ok db ws" if "ws \<in> set ((watches db)[l := watches db ! l @ [i]])" for ws
    using that l assms set_update_subset_insert [of "watches db" l "watches db ! l @ [i]"]
    by (force simp: db_ok_def watched_ok_def)
  moreover have "trail_ok ?db \<longleftrightarrow> trail_ok db" "watched_ok ?db ws \<longleftrightarrow> watched_ok db ws" for ws
    by (simp_all add: trail_ok_def db_val_def watched_ok_def)
  ultimately have "db_ok ?db" using assms(1) by (simp add: db_ok_def clauses_ok_def indices_ok_def)
  then show ?thesis using l by (simp add: watch_push_def at_def keeps_def db_val_def)
qed

lemma sound_same: "sound_for M db \<Longrightarrow> clauses db' = clauses db \<Longrightarrow> trail db' = trail db \<Longrightarrow> sound_for M db'"
  by (simp add: sound_for_def)

lemma find_none_false:
  assumes "find (\<lambda>k. db_val db (c ! k) \<noteq> VF) [2..<length c] = None" "2 \<le> length c" "l \<in> set c" "l \<noteq> c ! 0" "l \<noteq> c ! 1"
  shows "db_val db l = VF"
proof -
  obtain k where k: "k < length c" "l = c ! k" using assms(3) by (auto simp: in_set_conv_nth)
  then have "2 \<le> k" using assms(4,5) by (cases k; cases "k - 1") (auto simp: One_nat_def)
  then show ?thesis using assms(1) k by (auto simp: find_None_iff)
qed

text \<open>
  What visiting the watches of a true literal keeps, and what a conflict shows: no model at all.
\<close>

definition visited :: "(nat \<Rightarrow> bool) set \<Rightarrow> Db \<Rightarrow> bool \<Rightarrow> Db \<Rightarrow> bool" where
  "visited M db conflict db' \<longleftrightarrow> db_ok db' \<and> keeps db db' \<and> qhead db' = qhead db \<and> length (vals db') = length (vals db) \<and>
     (sound_for M db \<longrightarrow> sound_for M db' \<and> (conflict \<longrightarrow> M = {}))"

lemma visited_trans: "visited M a cf b \<Longrightarrow> \<not> cf \<Longrightarrow> visited M b cf' c \<Longrightarrow> visited M a cf' c"
  by (auto simp: visited_def intro: keeps_trans)

lemma visited_refl: "db_ok db \<Longrightarrow> visited M db False db" by (simp add: visited_def)

lemma keeps_val: "keeps db db' \<Longrightarrow> db_val db l = VT \<Longrightarrow> db_val db' l = VT" by (auto simp: keeps_def)

lemma visit_ok:
  assumes "db_ok db" "db_val db p = VT" "watched_ok db ws" "watched_ok db keep"
  shows "\<exists>cf keep' db'. visit p ws keep db = Some ((cf, keep'), db') \<and> visited M db cf db' \<and> watched_ok db' keep'"
  using assms
proof (induction ws arbitrary: keep db)
  case Nil
  then show ?case using visited_refl by auto
next
  case (Cons ci ws)
  note ok = Cons.prems(1)
  have go: "\<exists>cf keep' db2. visit p ws k db1 = Some ((cf, keep'), db2) \<and> visited M db cf db2 \<and> watched_ok db2 keep'"
    if "visited M db False db1" "watched_ok db1 k" for db1 k
  proof -
    have k: "keeps db db1" "db_ok db1" using that(1) by (simp_all add: visited_def)
    have "watched_ok db ws" using Cons.prems(3) by (simp add: watched_ok_def)
    from Cons.IH [OF k(2) keeps_val [OF k(1) Cons.prems(2)] keeps_watched [OF k(1) this] that(2)]
    show ?thesis using visited_trans [OF that(1)] by blast
  qed
  have ci: "ci < length (clauses db)" "2 \<le> length (clauses db ! ci)" using Cons.prems(3) by (simp_all add: watched_ok_def)
  have live: "at (alive db) ci = Some (alive db ! ci)" "at (clauses db) ci = Some (clauses db ! ci)"
    using ci ok by (simp_all add: at_def db_ok_def clauses_ok_def)
  define c0 where "c0 = clauses db ! ci"
  have heads: "at c0 0 = Some (c0 ! 0)" "at c0 1 = Some (c0 ! 1)" using ci(2) by (auto simp: at_def c0_def)
  define c where "c = (if c0 ! 0 = lit_not p then swapped 0 1 c0 else c0)"
  have c: "set c = set (clauses db ! ci)" "length c = length (clauses db ! ci)"
  proof -
    have "set (swapped 0 1 c0) = set c0" by (rule set_swapped) (use ci(2) in \<open>auto simp: c0_def\<close>)
    then show "set c = set (clauses db ! ci)" by (simp add: c_def c0_def)
  qed (simp add: c_def c0_def)
  note re = reclause_ok [OF ok ci(1) c]
  define db1 where "db1 = reclause ci c db"
  have v1: "visited M db False db1" using re by (auto simp: visited_def db1_def)
  have keep1: "watched_ok db1 keep" using keeps_watched [OF re(2) Cons.prems(4)] by (simp add: db1_def)
  have ci1: "ci < length (clauses db1)" "clauses db1 ! ci = c" "2 \<le> length c" using ci c by (simp_all add: db1_def)
  have keepci: "watched_ok db1 (keep @ [ci])" using keep1 ci1 by (simp add: watched_ok_def)
  have ok1: "db_ok db1" using v1 by (simp add: visited_def)
  have inb: "lit_var l < length (vals db1)" if "l \<in> set c" for l
    using ok1 ci1 that by (force simp: db_ok_def clauses_ok_def)
  have step: "visit p (ci # ws) keep db = (if \<not> alive db ! ci then visit p ws keep db
      else if c ! 1 \<noteq> lit_not p then visit p ws keep db1
      else if db_val db1 (c ! 0) = VT then visit p ws (keep @ [ci]) db1
      else (case find (\<lambda>k. db_val db1 (c ! k) \<noteq> VF) [2..<length c] of
          Some k \<Rightarrow> do {
            db \<leftarrow> watch_push (lit_not (c ! k)) ci (reclause ci (swapped 1 k c) db1);
            visit p ws keep db }
        | None \<Rightarrow> (case db_val db1 (c ! 0) of
              VF \<Rightarrow> Some ((True, keep @ ci # ws), db1)
            | VU \<Rightarrow> do { db \<leftarrow> db_set (c ! 0) (Some ci) db1; visit p ws (keep @ [ci]) db }
            | VT \<Rightarrow> visit p ws (keep @ [ci]) db1)))"
    unfolding visit.simps live bind.bind_lunit c0_def [symmetric] heads Let_def c_def [symmetric] db1_def [symmetric]
    by simp
  show ?case
  proof (cases "alive db ! ci \<and> c ! 1 = lit_not p \<and> db_val db1 (c ! 0) \<noteq> VT")
    case False
    then show ?thesis unfolding step using go [OF visited_refl [OF ok] Cons.prems(4)] go [OF v1 keep1] go [OF v1 keepci] by auto
  next
    case True
    show ?thesis
    proof (cases "find (\<lambda>k. db_val db1 (c ! k) \<noteq> VF) [2..<length c]")
      case (Some k)
      then have k: "1 < length c" "k < length c" by (auto simp: find_Some_iff)
      note re2 = reclause_ok [OF ok1 ci1(1), of "swapped 1 k c", unfolded ci1(2), OF set_swapped [OF k] length_swapped]
      let ?db2 = "reclause ci (swapped 1 k c) db1"
      have "lit_var (lit_not (c ! k)) < length (vals ?db2)" using inb k by simp
      from watch_push_ok [OF re2(1) this, of ci] ci1 obtain db3 where
        d: "watch_push (lit_not (c ! k)) ci ?db2 = Some db3" "db_ok db3" "keeps ?db2 db3" "trail db3 = trail db1"
          "qhead db3 = qhead db1" "clauses db3 = clauses ?db2" "length (vals db3) = length (vals db1)" by auto
      have kd: "keeps db1 db3" by (rule keeps_trans [OF re2(2) d(3)])
      have "visited M db1 False db3"
        using re2(3) [of M] d kd sound_same [of M ?db2 db3] by (simp add: visited_def)
      then have "visited M db False db3" by (rule visited_trans [OF v1, simplified])
      from go [OF this keeps_watched [OF kd keep1]] show ?thesis using True Some d(1) unfolding step by simp
    next
      case None
      have others: "\<not> lit_holds m l" if "sound_for M db1" "m \<in> M" "l \<in> set c" "l \<noteq> c ! 0" for m l
      proof (cases "l = c ! 1")
        case True2: True
        have "db_val db1 p = VT" using v1 Cons.prems(2) keeps_val by (auto simp: visited_def)
        then show ?thesis using True True2 sound_val(1) [OF that(1) _ that(2)] ok1 by (simp add: db_ok_def)
      next
        case False
        from find_none_false [OF None ci1(3) that(3,4) False] show ?thesis
          using sound_val(2) [OF that(1) _ that(2)] ok1 by (simp add: db_ok_def)
      qed
      have first: "lit_holds m (c ! 0)" if "sound_for M db1" "m \<in> M" for m
      proof -
        have "satisfies m c" using that ci1 by (force simp: sound_for_def)
        then show ?thesis using others [OF that] unfolding satisfies_def by blast
      qed
      show ?thesis
      proof (cases "db_val db1 (c ! 0)")
        case VT then show ?thesis using True by simp
      next
        case VF
        have "M = {}" if "sound_for M db1"
          using sound_val(2) [OF that _ _ VF] first [OF that] ok1 by (auto simp: db_ok_def)
        then have "visited M db True db1" using v1 by (auto simp: visited_def)
        moreover have "watched_ok db1 (keep @ ci # ws)"
        proof -
          have w: "watched_ok db ws" using Cons.prems(3) by (simp add: watched_ok_def)
          have "watched_ok db1 ws" using keeps_watched [OF re(2) w] unfolding db1_def .
          then show ?thesis using keepci by (auto simp: watched_ok_def)
        qed
        ultimately show ?thesis using True None VF unfolding step by auto
      next
        case VU
        have "c ! 0 \<in> set c" by (rule nth_mem) (use ci1(3) in linarith)
        from db_set_in [OF ok1 inb [OF this] VU, of "Some ci"] obtain db2 where
          d: "db_set (c ! 0) (Some ci) db1 = Some db2" "db_ok db2" "keeps db1 db2" "trail db2 = trail db1 @ [c ! 0]"
            "qhead db2 = qhead db1" "clauses db2 = clauses db1" "length (vals db2) = length (vals db1)" by auto
        have "visited M db1 False db2" using d sound_extend [OF _ d(6,4)] first by (simp add: visited_def)
        then have "visited M db False db2" by (rule visited_trans [OF v1, simplified])
        from go [OF this keeps_watched [OF d(3) keepci]] show ?thesis using True None VU d(1) unfolding step by simp
      qed
    qed
  qed
qed

section \<open>Propagation\<close>

declare propagate.simps [code]

text \<open>Propagation ends: every round passes one literal of a trail without repetitions.\<close>

lemma trail_bound:
  assumes "trail_ok db"
  shows "length (trail db) \<le> length (vals db)"
proof -
  have "lit_var ` set (trail db) \<subseteq> {..<length (vals db)}" using assms by (auto simp: trail_ok_def)
  from card_mono [OF _ this] have "card (lit_var ` set (trail db)) \<le> length (vals db)" by simp
  moreover have "card (lit_var ` set (trail db)) = length (trail db)"
    using assms distinct_card [of "map lit_var (trail db)"] by (simp add: trail_ok_def)
  ultimately show ?thesis by simp
qed

definition propagated :: "(nat \<Rightarrow> bool) set \<Rightarrow> Db \<Rightarrow> bool \<Rightarrow> Db \<Rightarrow> bool" where
  "propagated M db conflict db' \<longleftrightarrow> db_ok db' \<and> keeps db db' \<and> length (vals db') = length (vals db) \<and>
     (sound_for M db \<longrightarrow> sound_for M db' \<and> (conflict \<longrightarrow> M = {}))"

lemma watches_ok:
  assumes "db_ok db" "\<forall>ws\<in>set W. watched_ok db ws" "length W = length (watches db)"
  shows "db_ok (db\<lparr>watches := W\<rparr>)"
proof -
  have "trail_ok (db\<lparr>watches := W\<rparr>) \<longleftrightarrow> trail_ok db" "watched_ok (db\<lparr>watches := W\<rparr>) ws \<longleftrightarrow> watched_ok db ws" for ws
    by (simp_all add: trail_ok_def db_val_def watched_ok_def)
  then show ?thesis using assms by (simp add: db_ok_def clauses_ok_def indices_ok_def)
qed

lemma keeps_watches [simp]: "keeps db (db\<lparr>watches := W\<rparr>)" "keeps db (db\<lparr>qhead := n\<rparr>)"
  by (simp_all add: keeps_def db_val_def)

lemma watched_update: "\<forall>ws\<in>set W. watched_ok db ws \<Longrightarrow> watched_ok db x \<Longrightarrow> \<forall>ws\<in>set (W[p := x]). watched_ok db ws"
  using set_update_subset_insert [of W p x] by fastforce

lemma watches_update_ok:
  assumes "db_ok db" "watched_ok db x"
  shows "db_ok (db\<lparr>watches := (watches db)[p := x]\<rparr>)"
  by (rule watches_ok [OF assms(1) watched_update [OF _ assms(2)]]) (use assms(1) in \<open>simp_all add: db_ok_def\<close>)

lemma propagate_ok:
  assumes "db_ok db"
  shows "\<exists>cf db'. propagate db = Some (cf, db') \<and> propagated M db cf db'"
  using assms
proof (induction "length (vals db) - qhead db" arbitrary: db rule: less_induct)
  case less
  note ok = less.prems
  show ?case
  proof (cases "qhead db < length (trail db)")
    case False
    then show ?thesis using ok by (auto simp: propagate.simps [of db] propagated_def)
  next
    case True
    define p where "p = trail db ! qhead db"
    define db1 where "db1 = db\<lparr>qhead := qhead db + 1\<rparr>"
    have tr: "trail_ok db" using ok by (simp add: db_ok_def)
    have p: "db_val db p = VT" "lit_var p < length (vals db)" using tr True by (simp_all add: trail_ok_def p_def)
    have "trail_ok db1" using tr True by (simp add: trail_ok_def db1_def)
    then have ok1: "db_ok db1" using ok by (simp add: db_ok_def clauses_ok_def indices_ok_def watched_ok_def db1_def)
    have pw: "p < length (watches db1)" using lit_not_bound [OF p(2)] ok by (simp add: db_ok_def db1_def)
    define ws where "ws = watches db1 ! p"
    have ws: "watched_ok db1 ws" using ok1 pw by (simp add: db_ok_def ws_def)
    define db2 where "db2 = db1\<lparr>watches := (watches db1)[p := []]\<rparr>"
    have "watched_ok db1 []" by (simp add: watched_ok_def)
    then have ok2: "db_ok db2" unfolding db2_def by (rule watches_update_ok [OF ok1])
    have k2: "keeps db db2" by (rule keeps_trans [of _ db1]) (simp_all add: db1_def db2_def)
    have p2: "db_val db2 p = VT" using p(1) by (simp add: db1_def db2_def db_val_def)
    have w2: "watched_ok db2 ws" using ws by (simp add: db2_def watched_ok_def)
    from visit_ok [OF ok2 p2 w2, of "[]" M] obtain cf keep db3 where
      v: "visit p ws [] db2 = Some ((cf, keep), db3)" "visited M db2 cf db3" "watched_ok db3 keep" by (auto simp: watched_ok_def)
    have ok3: "db_ok db3" and len3: "length (vals db3) = length (vals db)" and q3: "qhead db3 = qhead db + 1"
      using v(2) by (simp_all add: visited_def db2_def db1_def)
    have p3: "p < length (watches db3)" using pw ok1 ok3 len3 by (simp add: db_ok_def db1_def)
    define db4 where "db4 = db3\<lparr>watches := (watches db3)[p := watches db3 ! p @ keep]\<rparr>"
    have "watched_ok db3 (watches db3 ! p @ keep)" using ok3 p3 v(3) by (auto simp: db_ok_def watched_ok_def)
    then have ok4: "db_ok db4" unfolding db4_def by (rule watches_update_ok [OF ok3])
    have "keeps db db4" using k2 v(2) by (auto simp: visited_def db4_def intro: keeps_trans keeps_watches)
    moreover have "sound_for M db \<longrightarrow> sound_for M db4 \<and> (cf \<longrightarrow> M = {})"
      using v(2) by (auto simp: visited_def sound_for_def db4_def db2_def db1_def)
    ultimately have pr: "propagated M db cf db4" using ok4 len3 by (simp add: propagated_def db4_def)
    have step: "propagate db = (if cf then Some (True, db4) else propagate db4)"
      using True pw p3 v(1)
      by (simp add: propagate.simps [of db] Let_def at_def flip: p_def db1_def ws_def db2_def db4_def)
    show ?thesis
    proof (cases cf)
      case True
      then show ?thesis using pr step by auto
    next
      case False
      have "length (vals db4) - qhead db4 < length (vals db) - qhead db"
        using len3 q3 True trail_bound [OF tr] by (simp add: db4_def)
      from less.hyps [OF this ok4] obtain cf' db' where "propagate db4 = Some (cf', db')" "propagated M db4 cf' db'" by blast
      then show ?thesis using pr step False by (auto simp: propagated_def intro: keeps_trans)
    qed
  qed
qed

section \<open>Taking assignments back\<close>

lemma unassign_ok:
  assumes "\<forall>l\<in>set ls. lit_var l < length (vals db)" "length (reason db) = length (vals db)"
  shows "\<exists>vs rs. unassign ls db = Some (db\<lparr>vals := vs, reason := rs\<rparr>) \<and> length vs = length (vals db) \<and>
    length rs = length (vals db) \<and> (\<forall>v<length (vals db). vs ! v = (if v \<in> lit_var ` set ls then VU else vals db ! v))"
  using assms
proof (induction ls arbitrary: db)
  case Nil
  then show ?case by (intro exI [of _ "vals db"] exI [of _ "reason db"]) simp
next
  case (Cons l ls)
  let ?db = "db\<lparr>vals := (vals db)[lit_var l := VU], reason := (reason db)[lit_var l := None]\<rparr>"
  from Cons.IH [of ?db] Cons.prems obtain vs rs where
    "unassign ls ?db = Some (?db\<lparr>vals := vs, reason := rs\<rparr>)" "length vs = length (vals db)" "length rs = length (vals db)"
    "\<forall>v<length (vals db). vs ! v = (if v \<in> lit_var ` set ls then VU else vals ?db ! v)" by auto
  then show ?case using Cons.prems
    by (intro exI [of _ vs] exI [of _ rs]) (auto simp: put_def nth_list_update)
qed

text \<open>Cutting the trail at a mark gives the database that had this trail.\<close>

lemma cut_trail_ok:
  assumes ok: "db_ok db" and q: "q \<le> length (take mark (trail db))"
  shows "\<exists>db'. unassign (drop mark (trail db)) (db\<lparr>trail := take mark (trail db)\<rparr>) = Some db' \<and> db_ok (db'\<lparr>qhead := q\<rparr>) \<and>
    trail db' = take mark (trail db) \<and> clauses db' = clauses db \<and> alive db' = alive db \<and> index db' = index db \<and>
    units db' = units db \<and> top_conflict db' = top_conflict db \<and> qhead db' = qhead db"
proof -
  let ?tr = "take mark (trail db)" and ?dr = "drop mark (trail db)"
  let ?db = "db\<lparr>trail := ?tr\<rparr>"
  have tr: "trail_ok db" using ok by (simp add: db_ok_def)
  have split: "set (trail db) = set ?tr \<union> set ?dr" by (metis append_take_drop_id set_append)
  have dis: "lit_var ` set ?tr \<inter> lit_var ` set ?dr = {}" "distinct (map lit_var ?tr)"
  proof -
    have "distinct (map lit_var ?tr @ map lit_var ?dr)"
      using tr by (simp add: trail_ok_def flip: map_append)
    then show "lit_var ` set ?tr \<inter> lit_var ` set ?dr = {}" "distinct (map lit_var ?tr)" by auto
  qed
  have "\<forall>l\<in>set ?dr. lit_var l < length (vals ?db)" "length (reason ?db) = length (vals ?db)"
    using tr split ok by (auto simp: trail_ok_def db_ok_def)
  from unassign_ok [OF this] obtain vs rs where
    u: "unassign ?dr ?db = Some (?db\<lparr>vals := vs, reason := rs\<rparr>)" "length vs = length (vals db)" "length rs = length (vals db)"
      "\<forall>v<length (vals db). vs ! v = (if v \<in> lit_var ` set ?dr then VU else vals db ! v)" by auto
  let ?new = "?db\<lparr>vals := vs, reason := rs, qhead := q\<rparr>"
  have val: "db_val ?new l = (if lit_var l \<in> lit_var ` set ?dr then VU else db_val db l)" for l
    using u(2,4) by (auto simp: db_val_def)
  have t1: "lit_var l < length (vals db)" "db_val ?new l = VT" if "l \<in> set ?tr" for l
  proof -
    have "lit_var l \<notin> lit_var ` set ?dr" using dis(1) that by blast
    moreover have "l \<in> set (trail db)" using that split by blast
    ultimately show "lit_var l < length (vals db)" "db_val ?new l = VT" using tr val by (auto simp: trail_ok_def)
  qed
  have t2: "v \<in> lit_var ` set ?tr" if "v < length (vals db)" "vs ! v \<noteq> VU" for v
  proof -
    have "vals db ! v \<noteq> VU" "v \<notin> lit_var ` set ?dr" using that u(4) by (auto split: if_splits)
    then show ?thesis using tr that(1) split unfolding trail_ok_def by blast
  qed
  have "trail_ok ?new"
    unfolding trail_ok_def using t1 t2 dis(2) q u(2) by simp
  moreover have "watched_ok ?new ws \<longleftrightarrow> watched_ok db ws" for ws by (simp add: watched_ok_def)
  ultimately have "db_ok ?new"
    using ok u(2,3) by (simp add: db_ok_def clauses_ok_def indices_ok_def)
  then show ?thesis using u(1) by simp
qed

section \<open>Reverse unit propagation\<close>

lemma assume_false_ok:
  assumes "db_ok db"
  shows "\<exists>cf db'. assume_false c db = Some (cf, db') \<and> db_ok db' \<and> keeps db db' \<and>
    (sound_for M db \<and> (\<forall>m\<in>M. \<not> satisfies m c) \<longrightarrow> sound_for M db' \<and> (cf \<longrightarrow> M = {}))"
  using assms
proof (induction c arbitrary: db)
  case (Cons l ls)
  note ok = Cons.prems
  have tr: "trail_ok db" using ok by (simp add: db_ok_def)
  have sub: "\<not> satisfies m ls" "\<not> lit_holds m l" if "\<not> satisfies m (l # ls)" for m
    using that by (auto simp: satisfies_def)
  show ?case
  proof (cases "db_val db l")
    case VT
    have "M = {}" if "sound_for M db" "\<forall>m\<in>M. \<not> satisfies m (l # ls)"
      using sound_val(1) [OF that(1) tr _ VT] sub(2) that(2) by blast
    then show ?thesis using ok VT by auto
  next
    case VF
    from Cons.IH [OF ok] sub(1) VF show ?thesis by (auto; blast)
  next
    case VU
    have "db_val db (lit_not l) = VU" using VU by (simp add: val_not)
    from db_set_any [OF ok this, of None] obtain db1 where d: "db_set (lit_not l) None db = Some db1" "db_ok db1" "keeps db db1"
      "trail db1 = trail db @ [lit_not l]" "clauses db1 = clauses db" by blast
    have s: "sound_for M db1" if "sound_for M db" "\<forall>m\<in>M. \<not> satisfies m (l # ls)"
      by (rule sound_extend [OF that(1) d(5,4)]) (use that(2) sub(2) in auto)
    from Cons.IH [OF d(2)] obtain cf db' where r: "assume_false ls db1 = Some (cf, db')" "db_ok db'" "keeps db1 db'"
      "sound_for M db1 \<and> (\<forall>m\<in>M. \<not> satisfies m ls) \<longrightarrow> sound_for M db' \<and> (cf \<longrightarrow> M = {})" by blast
    show ?thesis using VU d(1) r s sub(1) keeps_trans [OF d(3) r(3)] by (auto 4 3)
  qed
qed auto

lemma keeps_sound:
  assumes "keeps db db'" "sound_for M db" "trail db'' = trail db" "clauses db'' = clauses db'"
  shows "sound_for M db''"
proof -
  have sat: "satisfies m c" if "m \<in> M" "c \<in> set (clauses db')" for m c
  proof -
    from that(2) assms(1) obtain i where i: "i < length (clauses db)" "c = clauses db' ! i"
      by (auto simp: in_set_conv_nth keeps_def)
    then have "set c = set (clauses db ! i)" using assms(1) by (simp add: keeps_def)
    moreover have "satisfies m (clauses db ! i)" using assms(2) that(1) i(1) by (simp add: sound_for_def)
    ultimately show ?thesis using satisfies_set by blast
  qed
  then show ?thesis using assms(2-4) sat by (simp add: sound_for_def)
qed

lemma sound_subset: "sound_for M db \<Longrightarrow> N \<subseteq> M \<Longrightarrow> sound_for N db" by (auto simp: sound_for_def)

text \<open>The state of the checker between two steps.\<close>

definition level_ok :: "(nat \<Rightarrow> bool) set \<Rightarrow> Db \<Rightarrow> bool" where
  "level_ok M db \<longleftrightarrow> db_ok db \<and> sound_for M db \<and> (top_conflict db \<longrightarrow> M = {})"

lemma rup_ok:
  assumes "level_ok M db"
  shows "\<exists>follows db'. rup c db = Some (follows, db') \<and> level_ok M db' \<and> (follows \<longrightarrow> (\<forall>m\<in>M. satisfies m c))"
proof (cases "top_conflict db")
  case True
  then show ?thesis using assms by (auto simp: rup_def level_ok_def)
next
  case False
  define N where "N = {m \<in> M. \<not> satisfies m c}"
  let ?mark = "length (trail db)"
  have ok: "db_ok db" and snd: "sound_for M db" using assms by (simp_all add: level_ok_def)
  have sN: "sound_for N db" using sound_subset [OF snd] by (auto simp: N_def)
  from assume_false_ok [OF ok, of c N] obtain cf1 db1 where
    a: "assume_false c db = Some (cf1, db1)" "db_ok db1" "keeps db db1" "sound_for N db1" "cf1 \<longrightarrow> N = {}"
    using sN by (auto simp: N_def)
  obtain cf db2 where
    b: "(if \<not> cf1 then propagate db1 else Some (cf1, db1)) = Some (cf, db2)" "db_ok db2" "keeps db db2" "cf \<longrightarrow> N = {}"
  proof (cases cf1)
    case True then show ?thesis using that a by simp
  next
    case False
    from propagate_ok [OF a(2), of N] a(4) obtain cf db2 where "propagate db1 = Some (cf, db2)" "db_ok db2" "keeps db1 db2" "cf \<longrightarrow> N = {}"
      by (auto simp: propagated_def)
    then show ?thesis using that False keeps_trans [OF a(3)] by simp
  qed
  have mark: "?mark \<le> length (trail db2)" "take ?mark (trail db2) = trail db" using b(3) by (auto simp: keeps_def)
  from cut_trail_ok [OF b(2), of ?mark ?mark] mark obtain db3 where
    c: "unassign (drop ?mark (trail db2)) (db2\<lparr>trail := take ?mark (trail db2)\<rparr>) = Some db3" "db_ok (db3\<lparr>qhead := ?mark\<rparr>)"
      "trail db3 = trail db" "clauses db3 = clauses db2" "top_conflict db3 = top_conflict db2" by auto
  have "rup c db = Some (cf, db3\<lparr>qhead := ?mark\<rparr>)"
    unfolding rup_def Let_def using False a(1) b(1) c(1) mark by simp
  moreover have "sound_for M (db3\<lparr>qhead := ?mark\<rparr>)"
    by (rule keeps_sound [OF b(3) snd]) (simp_all add: c)
  moreover have "\<not> top_conflict db3" using False b(3) c(5) by (simp add: keeps_def)
  ultimately show ?thesis using c(2) b(4) by (auto simp: level_ok_def N_def)
qed

section \<open>Level zero\<close>

lemma assign_units_ok:
  assumes "db_ok db" "sound_for M db" "\<forall>i\<in>set js. i < length (clauses db) \<and> length (clauses db ! i) = 1"
  shows "\<exists>cf db'. assign_units js db = Some (cf, db') \<and> db_ok db' \<and> keeps db db' \<and> sound_for M db' \<and> (cf \<longrightarrow> M = {})"
  using assms
proof (induction js arbitrary: db)
  case (Cons i js)
  note ok = Cons.prems(1)
  have i: "i < length (clauses db)" "length (clauses db ! i) = 1" using Cons.prems(3) by simp_all
  then obtain l where l: "clauses db ! i = [l]" by (auto simp: One_nat_def length_Suc_conv)
  have mem: "[l] \<in> set (clauses db)" using i(1) l nth_mem by fastforce
  have lv: "lit_var l < length (vals db)" using ok mem by (fastforce simp: db_ok_def clauses_ok_def)
  have holds: "lit_holds m l" if "m \<in> M" for m using Cons.prems(2) mem that by (fastforce simp: sound_for_def satisfies_def)
  have ix: "at (clauses db) i = Some [l]" "at [l] 0 = Some l" using i(1) l by (simp_all add: at_def)
  have tr: "trail_ok db" using ok by (simp add: db_ok_def)
  show ?case
  proof (cases "db_val db l")
    case VT
    then show ?thesis using Cons.IH [OF ok Cons.prems(2)] Cons.prems(3) ix by simp
  next
    case VF
    then have "M = {}" using sound_val(2) [OF Cons.prems(2) tr _ VF] holds by blast
    then show ?thesis using VF ix ok Cons.prems(2) by auto
  next
    case VU
    from db_set_in [OF ok lv VU, of "Some i"] obtain db1 where d: "db_set l (Some i) db = Some db1" "db_ok db1"
      "trail db1 = trail db @ [l]" "clauses db1 = clauses db" and k: "keeps db db1" by blast
    have "sound_for M db1" by (rule sound_extend [OF Cons.prems(2) d(4,3) holds])
    from Cons.IH [OF d(2) this] Cons.prems(3) d VU ix show ?thesis using keeps_trans [OF k] by auto
  qed
qed auto

lemma those_some: "(\<And>x. x \<in> set xs \<Longrightarrow> f x = Some (g x)) \<Longrightarrow> those (map f xs) = Some (map g xs)"
  by (induction xs) auto

lemma reset_top_ok:
  assumes ok: "db_ok db" and cs: "\<forall>m\<in>M. \<forall>c\<in>set (clauses db). satisfies m c"
  shows "\<exists>db'. reset_top db = Some db' \<and> level_ok M db'"
proof -
  from cut_trail_ok [OF ok, of 0 0] obtain db1 where
    u: "unassign (trail db) (db\<lparr>trail := []\<rparr>) = Some db1" "db_ok (db1\<lparr>qhead := 0\<rparr>)" "trail db1 = []" "clauses db1 = clauses db"
      "alive db1 = alive db" "units db1 = units db" by auto
  define db2 where "db2 = db1\<lparr>qhead := 0, top_conflict := False\<rparr>"
  have ok2: "db_ok db2"
    using u(2) by (simp add: db2_def db_ok_def clauses_ok_def indices_ok_def trail_ok_def watched_ok_def)
  have s2: "sound_for M db2" using cs u by (simp add: sound_for_def db2_def)
  have un: "i < length (alive db2) \<and> i < length (clauses db2) \<and> length (clauses db2 ! i) = 1" if "i \<in> set (units db2)" for i
    using ok2 that by (auto simp: db_ok_def indices_ok_def clauses_ok_def)
  define live where "live = map (\<lambda>i. (i, alive db2 ! i)) (units db2)"
  have live: "those (map (\<lambda>i. map_option (\<lambda>b. (i, b)) (at (alive db2) i)) (units db2)) = Some live"
    unfolding live_def by (rule those_some) (use un in \<open>auto simp: at_def\<close>)
  have js: "\<forall>i\<in>set (map fst (filter snd live)). i < length (clauses db2) \<and> length (clauses db2 ! i) = 1"
    using un by (auto simp: live_def)
  from assign_units_ok [OF ok2 s2 js] obtain cf db3 where
    a: "assign_units (map fst (filter snd live)) db2 = Some (cf, db3)" "db_ok db3" "sound_for M db3" "cf \<longrightarrow> M = {}" "keeps db2 db3"
    by blast
  from propagate_ok [OF a(2), of M] a(3) obtain pf db4 where
    p: "propagate db3 = Some (pf, db4)" "db_ok db4" "sound_for M db4" "pf \<longrightarrow> M = {}" "keeps db3 db4" by (auto simp: propagated_def)
  have top: "db_ok (d\<lparr>top_conflict := True\<rparr>)" if "db_ok d" for d
    using that by (simp add: db_ok_def clauses_ok_def indices_ok_def trail_ok_def watched_ok_def)
  have run: "reset_top db = (if cf then Some (db3\<lparr>top_conflict := True\<rparr>)
      else Some (if pf then db4\<lparr>top_conflict := True\<rparr> else db4))"
    unfolding reset_top_def u(1) bind.bind_lunit Let_def db2_def [symmetric] live
    by (simp add: a(1) p(1))
  have "\<not> top_conflict db4" using keeps_trans [OF a(5) p(5)] by (simp add: keeps_def db2_def)
  then show ?thesis unfolding run using a p top by (auto simp: level_ok_def sound_for_def)
qed

section \<open>Adding and deleting clauses\<close>

lemma set_sorted_clause [simp]: "set (sorted_clause c) = set c" by (simp add: sorted_clause_def)

lemma sorted_clause_Nil [simp]: "sorted_clause c = [] \<longleftrightarrow> c = []"
  using set_sorted_clause [of c] by (metis set_empty)

lemma grow_all:
  assumes "db_ok db"
  shows "db_ok (fold (\<lambda>l. db_grow (lit_var l)) c db) \<and> keeps db (fold (\<lambda>l. db_grow (lit_var l)) c db) \<and>
    clauses (fold (\<lambda>l. db_grow (lit_var l)) c db) = clauses db \<and> trail (fold (\<lambda>l. db_grow (lit_var l)) c db) = trail db \<and>
    (\<forall>l\<in>set c. lit_var l < length (vals (fold (\<lambda>l. db_grow (lit_var l)) c db)))"
  using assms
proof (induction c arbitrary: db)
  case (Cons l c)
  from Cons.IH [OF db_grow_ok [OF Cons.prems], of "lit_var l"]
  show ?case using keeps_trans [OF keeps_grow] by (fastforce simp: keeps_def)
qed simp

lemma index_ok:
  assumes "db_ok db" "\<forall>k js. ix k = Some js \<longrightarrow> (\<forall>i\<in>set js. i < length (clauses db))"
  shows "db_ok (db\<lparr>index := ix\<rparr>)"
proof -
  have "trail_ok (db\<lparr>index := ix\<rparr>) \<longleftrightarrow> trail_ok db" by (simp add: trail_ok_def)
  then show ?thesis using assms by (simp add: db_ok_def clauses_ok_def indices_ok_def watched_ok_def)
qed

text \<open>
  A new clause joins with the number it will have: until then its watches point past the end, so
  the invariant is stated for the database that holds the clause already.
\<close>

lemma append_clause_ok:
  assumes ok: "db_ok db" and c: "c \<noteq> []" "\<forall>l\<in>set c. lit_var l < length (vals db)"
  shows "db_ok (db\<lparr>clauses := clauses db @ [c], alive := alive db @ [True]\<rparr>)"
proof -
  let ?db = "db\<lparr>clauses := clauses db @ [c], alive := alive db @ [True]\<rparr>"
  have "watched_ok db ws \<Longrightarrow> watched_ok ?db ws" for ws by (auto simp: watched_ok_def nth_append)
  moreover have "trail_ok ?db \<longleftrightarrow> trail_ok db" by (simp add: trail_ok_def)
  moreover have "indices_ok ?db" using ok by (fastforce simp: db_ok_def indices_ok_def nth_append)
  ultimately show ?thesis using ok c by (auto simp: db_ok_def clauses_ok_def)
qed

lemma units_ok:
  assumes "db_ok db" "i < length (clauses db)" "length (clauses db ! i) = 1"
  shows "db_ok (db\<lparr>units := units db @ [i]\<rparr>)"
proof -
  have "trail_ok (db\<lparr>units := units db @ [i]\<rparr>) \<longleftrightarrow> trail_ok db" by (simp add: trail_ok_def)
  then show ?thesis using assms by (auto simp: db_ok_def clauses_ok_def indices_ok_def watched_ok_def)
qed

lemma watch_push_append:
  "watch_push l i (db\<lparr>clauses := cs, alive := as\<rparr>) = map_option (\<lambda>db. db\<lparr>clauses := cs, alive := as\<rparr>) (watch_push l i db)"
  by (auto simp: watch_push_def split: option.splits bind_splits)

lemma db_add_ok:
  assumes lv: "level_ok M db" and c: "c \<noteq> []" "\<forall>m\<in>M. satisfies m c"
  shows "\<exists>i db'. db_add c db = Some (i, db') \<and> level_ok M db' \<and> i < length (clauses db') \<and>
    clauses db' ! i = sorted_clause c"
proof -
  let ?c = "sorted_clause c"
  define db1 where "db1 = fold (\<lambda>l. db_grow (lit_var l)) ?c db"
  have ok: "db_ok db" using lv by (simp add: level_ok_def)
  have g: "db_ok db1" "keeps db db1" "clauses db1 = clauses db" "trail db1 = trail db" "\<forall>l\<in>set ?c. lit_var l < length (vals db1)"
    using grow_all [OF ok, of ?c] by (simp_all add: db1_def)
  define i where "i = length (clauses db1)"
  define js where "js = (case index db1 ?c of Some is \<Rightarrow> is | None \<Rightarrow> []) @ [i]"
  let ?join = "\<lambda>db :: Db. db\<lparr>clauses := clauses db1 @ [?c], alive := alive db1 @ [True]\<rparr>"
  define db2 where "db2 = db1\<lparr>index := (index db1)(?c \<mapsto> js)\<rparr>"
  have ok1: "db_ok (?join db1)" by (rule append_clause_ok [OF g(1)]) (use c(1) g(5) in auto)
  have ix2: "\<forall>k js'. ((index db1)(?c \<mapsto> js)) k = Some js' \<longrightarrow> (\<forall>j\<in>set js'. j < length (clauses (?join db1)))"
  proof (intro allI impI ballI)
    fix k js' j
    assume a: "((index db1)(?c \<mapsto> js)) k = Some js'" "j \<in> set js'"
    have ix: "index db1 k = Some js' \<Longrightarrow> j \<in> set js' \<Longrightarrow> j < length (clauses db1)" for k js' j
      using g(1) unfolding db_ok_def indices_ok_def by blast
    show "j < length (clauses (?join db1))"
    proof (cases "k = ?c \<and> j \<noteq> i")
      case True
      then show ?thesis using a ix by (auto simp: js_def less_Suc_eq split: option.splits)
    next
      case False
      then show ?thesis using a ix by (auto simp: js_def i_def less_Suc_eq split: if_splits)
    qed
  qed
  have ok2: "db_ok (?join db2)"
  proof -
    have "?join db2 = (?join db1)\<lparr>index := (index db1)(?c \<mapsto> js)\<rparr>" unfolding db2_def by (cases db1) simp
    then show ?thesis using index_ok [OF ok1 ix2] by (simp only: )
  qed
  have snd1: "sound_for M db1" using lv g(3,4) by (simp add: level_ok_def sound_for_def)
  have sc: "satisfies m ?c" if "m \<in> M" for m using c(2) that satisfies_set [of ?c c] by simp
  have i: "i < length (clauses (?join db2))" "clauses (?join db2) ! i = ?c" by (simp_all add: i_def)
  have "\<exists>db3. (if length ?c \<ge> 2 then do { db \<leftarrow> watch_push (lit_not (?c ! 0)) i db2; watch_push (lit_not (?c ! 1)) i db }
      else Some (db2\<lparr>units := units db2 @ [i]\<rparr>)) = Some db3 \<and> db_ok (?join db3) \<and> trail db3 = trail db1 \<and>
      clauses db3 = clauses db1 \<and> alive db3 = alive db1 \<and> top_conflict db3 = top_conflict db1"
  proof (cases "length ?c \<ge> 2")
    case True
    have "0 < length ?c" "1 < length ?c" using True by linarith+
    note h = nth_mem [OF this(1)] nth_mem [OF this(2)]
    have v: "lit_var (lit_not (?c ! 0)) < length (vals (?join db2))" "lit_var (lit_not (?c ! 1)) < length (vals (?join db2))"
      using g(5) h by (simp_all add: db2_def)
    have len: "2 \<le> length (clauses (?join db2) ! i)" using True i by simp
    from watch_push_ok [OF ok2 v(1) i(1) len] obtain j1 where
      j1: "watch_push (lit_not (?c ! 0)) i (?join db2) = Some j1" "db_ok j1" "clauses j1 = clauses (?join db2)"
        "length (vals j1) = length (vals (?join db2))" by blast
    from j1(1) obtain e1 where e1: "watch_push (lit_not (?c ! 0)) i db2 = Some e1" "j1 = ?join e1"
      by (auto simp: watch_push_append)
    have v1: "lit_var (lit_not (?c ! 1)) < length (vals j1)" using v(2) j1(4) by simp
    have "i < length (clauses j1)" "2 \<le> length (clauses j1 ! i)" using i(1) len j1(3) by simp_all
    from watch_push_ok [OF j1(2) v1 this] obtain j2 where
      j2: "watch_push (lit_not (?c ! 1)) i j1 = Some j2" "db_ok j2" by blast
    from j2(1) obtain e2 where e2: "watch_push (lit_not (?c ! 1)) i e1 = Some e2" "j2 = ?join e2"
      unfolding e1(2) by (auto simp: watch_push_append)
    have "trail e2 = trail db1 \<and> clauses e2 = clauses db1 \<and> alive e2 = alive db1 \<and> top_conflict e2 = top_conflict db1"
      using e1(1) e2(1) by (auto simp: watch_push_def at_def db2_def split: if_splits)
    then show ?thesis using True e1(1) e2(1) j2(2) unfolding e2(2) by auto
  next
    case False
    have "0 < length ?c" using c(1) by simp
    then have "length ?c = 1" using False by linarith
    then have "length (clauses (?join db2) ! i) = 1" using i by simp
    note un = units_ok [OF ok2 i(1) this]
    have "(?join db2)\<lparr>units := units (?join db2) @ [i]\<rparr> = ?join (db2\<lparr>units := units db2 @ [i]\<rparr>)" by simp
    with un have "db_ok (?join (db2\<lparr>units := units db2 @ [i]\<rparr>))" by (simp only: )
    then show ?thesis using False by (simp add: db2_def)
  qed
  then obtain db3 where d: "(if length ?c \<ge> 2 then do { db \<leftarrow> watch_push (lit_not (?c ! 0)) i db2; watch_push (lit_not (?c ! 1)) i db }
      else Some (db2\<lparr>units := units db2 @ [i]\<rparr>)) = Some db3" "db_ok (?join db3)" "trail db3 = trail db1"
      "clauses db3 = clauses db1" "alive db3 = alive db1" "top_conflict db3 = top_conflict db1" by blast
  have "db_add c db = Some (i, ?join db3)"
    unfolding db_add_def Let_def db1_def [symmetric] i_def [symmetric] js_def [symmetric] db2_def [symmetric] d(1)
    by (simp add: d(4,5))
  moreover have "level_ok M (?join db3)"
    using d(2,3,6) snd1 sc lv g(2) by (auto simp: level_ok_def sound_for_def keeps_def)
  ultimately show ?thesis using i by (auto simp: i_def)
qed

lemma add_step_ok:
  assumes "level_ok M db" "c \<noteq> []" "\<forall>m\<in>M. satisfies m c"
  shows "\<exists>db'. add_step c db = Some db' \<and> level_ok M db'"
proof -
  from db_add_ok [OF assms] obtain i db1 where
    a: "db_add c db = Some (i, db1)" "level_ok M db1" "i < length (clauses db1)" "clauses db1 ! i = sorted_clause c" by blast
  have "\<exists>db'. reset_top db1 = Some db' \<and> level_ok M db'"
    by (rule reset_top_ok) (use a(2) in \<open>auto simp: level_ok_def sound_for_def\<close>)
  then obtain db2 where r: "reset_top db1 = Some db2" "level_ok M db2" by blast
  have ci: "at (clauses db1) i = Some (sorted_clause c)" using a(3,4) by (simp add: at_def)
  define d where "d = sorted_clause c"
  have "d \<noteq> []" using assms(2) by (simp add: d_def)
  then have d: "length d = 1 \<or> 1 < length d" "0 < length d" by (cases "length d"; auto simp: One_nat_def)+
  show ?thesis using a(1,2) r ci d by (auto simp: add_step_def at_def simp flip: d_def)
qed

lemma delete_step_ok:
  assumes "level_ok M db"
  shows "\<exists>db'. delete_step c db = Some db' \<and> level_ok M db'"
proof (cases "index db (sorted_clause c)")
  case None
  then show ?thesis using assms by (simp add: delete_step_def)
next
  case (Some js)
  show ?thesis
  proof (cases "js = []")
    case True
    then show ?thesis using Some assms by (simp add: delete_step_def)
  next
    case False
    have ok: "db_ok db" using assms by (simp add: level_ok_def)
    have js: "\<forall>i\<in>set js. i < length (clauses db)" using ok Some by (auto simp: db_ok_def indices_ok_def)
    define ix where "ix = (index db)(sorted_clause c \<mapsto> butlast js)"
    define db1 where "db1 = db\<lparr>index := ix\<rparr>"
    have ok1: "db_ok db1" unfolding db1_def
    proof (rule index_ok [OF ok], intro allI impI ballI)
      fix k js' i assume "ix k = Some js'" "i \<in> set js'"
      then show "i < length (clauses db)"
        using ok js by (auto simp: ix_def db_ok_def indices_ok_def split: if_splits dest: in_set_butlastD)
    qed
    have last: "last js < length (alive db1)" using js False ok by (simp add: db1_def db_ok_def clauses_ok_def)
    define db2 where "db2 = db1\<lparr>alive := (alive db1)[last js := False]\<rparr>"
    have "trail_ok db2 \<longleftrightarrow> trail_ok db1" "watched_ok db2 ws \<longleftrightarrow> watched_ok db1 ws" for ws
      by (simp_all add: trail_ok_def watched_ok_def db2_def)
    then have ok2: "db_ok db2" using ok1 by (simp add: db_ok_def clauses_ok_def indices_ok_def db2_def)
    then have lv: "level_ok M db2" using assms by (simp add: level_ok_def sound_for_def db2_def db1_def)
    have "\<exists>db'. reset_top db2 = Some db' \<and> level_ok M db'"
      by (rule reset_top_ok) (use lv in \<open>auto simp: level_ok_def sound_for_def\<close>)
    moreover have "delete_step c db = (if Some (last js) \<in> set (reason db2) then reset_top db2 else Some db2)"
      using Some False last
      by (simp add: delete_step_def Let_def put_def flip: ix_def) (simp add: db1_def db2_def)
    ultimately show ?thesis using lv by auto
  qed
qed

lemma run_steps_ok:
  assumes "level_ok M db"
  shows "\<exists>r. run_steps n steps complete db = Some r \<and> (r = Inr () \<and> complete \<longrightarrow> M = {})"
  using assms
proof (induction steps arbitrary: n db)
  case (Cons s steps)
  show ?case
  proof (cases s)
    case (Add c)
    from rup_ok [OF Cons.prems] obtain f db1 where
      r: "rup c db = Some (f, db1)" "level_ok M db1" "f \<longrightarrow> (\<forall>m\<in>M. satisfies m c)" by blast
    show ?thesis
    proof (cases "f \<and> c \<noteq> []")
      case True
      from add_step_ok [OF r(2), of c] True r(3) obtain db2 where "add_step c db1 = Some db2" "level_ok M db2" by blast
      then show ?thesis using Cons.IH [of db2 "n + 1"] True r Add by simp
    next
      case False
      moreover have "M = {}" if "f" "c = []" using r(3) that by (auto simp: satisfies_def)
      ultimately show ?thesis using r(1) Add by auto
    qed
  next
    case (Delete c)
    from delete_step_ok [OF Cons.prems, of c] obtain db1 where "delete_step c db = Some db1" "level_ok M db1" by blast
    then show ?thesis using Cons.IH [of db1 "n + 1"] Delete by simp
  qed
qed simp

lemma load_ok:
  assumes "level_ok M db" "\<forall>m\<in>M. \<forall>c\<in>set cs. satisfies m c"
  shows "\<exists>e db'. load cs db = Some (e, db') \<and> level_ok M db' \<and> (e \<longrightarrow> M = {})"
  using assms
proof (induction cs arbitrary: db)
  case (Cons c cs)
  show ?case
  proof (cases "c = []")
    case True
    then have "M = {}" using Cons.prems(2) by (auto simp: satisfies_def)
    then show ?thesis using True Cons.prems(1) by auto
  next
    case False
    from db_add_ok [OF Cons.prems(1) False] Cons.prems(2) obtain i db1 where "db_add c db = Some (i, db1)" "level_ok M db1" by auto
    then show ?thesis using Cons.IH [of db1] Cons.prems(2) False by simp
  qed
qed auto

lemma db_new_ok: "level_ok M db_new"
  by (simp add: level_ok_def db_new_def db_ok_def clauses_ok_def indices_ok_def trail_ok_def sound_for_def)

lemma check_steps_ok: "\<exists>r. check_steps cnf steps complete = Some r \<and> (r = Inr () \<and> complete \<longrightarrow> models cnf = {})"
proof -
  have "\<forall>m\<in>models cnf. \<forall>c\<in>set cnf. satisfies m c" by (simp add: models_def)
  from load_ok [OF db_new_ok this] obtain e db1 where
    l: "load cnf db_new = Some (e, db1)" "level_ok (models cnf) db1" "e \<longrightarrow> models cnf = {}" by blast
  have "\<exists>db'. reset_top db1 = Some db' \<and> level_ok (models cnf) db'"
    by (rule reset_top_ok) (use l(2) in \<open>auto simp: level_ok_def sound_for_def\<close>)
  then obtain db2 where r: "reset_top db1 = Some db2" "level_ok (models cnf) db2" by blast
  from run_steps_ok [OF r(2), of 0 steps complete] l r(1) show ?thesis by (cases e) (auto simp: check_steps_def)
qed

section \<open>The promises of the checker\<close>

text \<open>
  C30: an accepted proof shows the clauses unsatisfiable: whatever the steps, watches and
  deletions, no assignment satisfies every clause.
\<close>
theorem drup_sound: "check cnf steps = Some (Inr ()) \<Longrightarrow> models cnf = {}"
  using check_steps_ok [of cnf steps True] by (auto simp: check_def)

text \<open>
  C31: the checker returns on every list of clauses and every list of steps: propagation ends, and
  no index is out of range.
\<close>
theorem drup_returns: "\<exists>r. check_steps cnf steps complete = Some r"
  using check_steps_ok by blast

theorem drup_sound_witness: "models [[0, 2], [1, 2], [0, 3], [1, 3]] = {}"
  by (rule drup_sound [where steps = "[Add [2], Delete [0, 2], Add []]"]) code_simp

end
