(* ===== verification/Cnf_Gates.thy ===== *)
theory Cnf_Gates
  imports Cnf Drup_Sound
begin

unbundle bit_operations_syntax

declare One_nat_def [simp del]

text \<open>
  The gates the encoding recognises compute the function of their node, whatever the operands.
\<close>

section \<open>The function of a gate\<close>

fun gate_val :: "(L \<Rightarrow> bool) \<Rightarrow> L list \<Rightarrow> Gate \<Rightarrow> bool" where
  "gate_val f ls (GXor x y) \<longleftrightarrow> f x \<noteq> f y"
| "gate_val f ls (GXor3 x y z) \<longleftrightarrow> (f x \<noteq> f y) \<noteq> f z"
| "gate_val f ls (GNotMux c t e) \<longleftrightarrow> \<not> (if f c then f t else f e)"
| "gate_val f ls (GNotMaj x y z) \<longleftrightarrow> \<not> ((f x \<and> f y) \<or> (f x \<and> f z) \<or> (f y \<and> f z))"
| "gate_val f ls (GAnd s e) \<longleftrightarrow> (\<forall>l\<in>set (operands ls (GAnd s e)). f l)"

fun is_tree :: "Gate \<Rightarrow> bool" where "is_tree (GAnd s e) = True" | "is_tree _ = False"

lemma val_not_lit [simp]: "val \<rho> g (l XOR 1) \<longleftrightarrow> \<not> val \<rho> g l"
  using and_one_cases [of l] by (auto simp: val_def aig_value_def)

text \<open>A recognised gate for the conjunction of two literals, over operands below a bound.\<close>

definition conj_gate :: "Aig \<Rightarrow> nat \<Rightarrow> L \<Rightarrow> L \<Rightarrow> Gate \<Rightarrow> bool" where
  "conj_gate g k a b gt \<longleftrightarrow> \<not> is_tree gt \<and>
     (\<forall>\<rho>. gate_val (val \<rho> g) [] gt \<longleftrightarrow> val \<rho> g a \<and> val \<rho> g b) \<and>
     (\<forall>l\<in>set (operands [] gt). l div 2 < k)"

lemma inner_cases:
  assumes "aig_inv g" "valid g l"
  obtains "inner g l = Some None"
  | a b where "inner g l = Some (Some (a, b))" "nodes g ! (l div 2) = NAnd a b"
    "a div 2 < l div 2" "b div 2 < l div 2" "valid g a" "valid g b"
    "\<And>\<rho>. val \<rho> g l = ((val \<rho> g a \<and> val \<rho> g b) \<noteq> (l AND 1 = 1))"
proof -
  have n: "node_at g l = Some (nodes g ! (l div 2))" using assms(2) by (simp add: node_at_def valid_def)
  show ?thesis
  proof (cases "nodes g ! (l div 2)")
    case (NAnd a b)
    show ?thesis using that(2) [OF _ NAnd] aig_inv_and [OF assms NAnd] n NAnd by (simp add: inner_def)
  qed (use that(1) n in \<open>simp_all add: inner_def\<close>)
qed

lemma first_of_cases:
  "first_of [a, b] = Some x \<Longrightarrow> a = Some x \<or> b = Some x"
  "first_of [a, b, c, d] = Some x \<Longrightarrow> a = Some x \<or> b = Some x \<or> c = Some x \<or> d = Some x"
  by (cases a; cases b; simp add: first_of_def) (cases a; cases b; cases c; cases d; simp add: first_of_def)

lemma sign_cases: "(l::nat) AND 1 \<noteq> 0 \<longleftrightarrow> l AND 1 = 1" using and_one_cases [of l] by auto

lemma flip_div [simp]: "((l::nat) XOR 1) div 2 = l div 2" by simp

lemma gate2_ok:
  assumes inv: "aig_inv g" and v: "valid g a" "valid g b" and k: "a div 2 \<le> k" "b div 2 \<le> k"
  shows "\<exists>r. gate2 g a b = Some r \<and> (\<forall>gt. r = Some gt \<longrightarrow> conj_gate g k a b gt)"
proof (cases "a AND 1 = 0 \<or> b AND 1 = 0")
  case True
  then show ?thesis by (simp add: gate2_def)
next
  case False
  then have s: "a AND 1 = 1" "b AND 1 = 1" using and_one_cases [of a] and_one_cases [of b] by auto
  show ?thesis
  proof (rule inner_cases [OF inv v(1)], goal_cases)
    case 1 then show ?case using False by (simp add: gate2_def)
  next
    case p: (2 p0 p1)
    show ?case
    proof (rule inner_cases [OF inv v(2)], goal_cases)
      case 1 then show ?case using False p(1) by (simp add: gate2_def)
    next
      case q: (2 q0 q1)
      have av: "val \<rho> g a \<longleftrightarrow> \<not> (val \<rho> g p0 \<and> val \<rho> g p1)" and bv: "val \<rho> g b \<longleftrightarrow> \<not> (val \<rho> g q0 \<and> val \<rho> g q1)" for \<rho>
        using p(7) [of \<rho>] q(7) [of \<rho>] s by auto
      have lt: "p0 div 2 < k" "p1 div 2 < k" "q0 div 2 < k" "q1 div 2 < k"
        using p(3,4) q(3,4) k by linarith+
      show ?case
      proof (cases "(q0 = p0 XOR 1 \<and> q1 = p1 XOR 1) \<or> (q0 = p1 XOR 1 \<and> q1 = p0 XOR 1)")
        case True
        then have "conj_gate g k a b (GXor p0 p1)"
          unfolding conj_gate_def using av bv lt by auto
        then show ?thesis using False p(1) q(1) True by (simp add: gate2_def)
      next
        case no: False
        have cand: "conj_gate g k a b gt"
          if "mux_candidate ct de = Some gt" "(ct = (p0, p1) \<or> ct = (p1, p0)) \<and> (de = (q0, q1) \<or> de = (q1, q0))" for ct de gt
        proof -
          have g: "gt = GNotMux (fst ct) (snd ct) (snd de)" "fst de = fst ct XOR 1"
            using that(1) by (auto simp: mux_candidate_def split: if_splits)
          have d: "val \<rho> g (fst de) \<longleftrightarrow> \<not> val \<rho> g (fst ct)" for \<rho> unfolding g(2) by (rule val_not_lit)
          have a: "val \<rho> g a \<longleftrightarrow> \<not> (val \<rho> g (fst ct) \<and> val \<rho> g (snd ct))"
            and b: "val \<rho> g b \<longleftrightarrow> \<not> (val \<rho> g (fst de) \<and> val \<rho> g (snd de))" for \<rho>
            using that(2) av [of \<rho>] bv [of \<rho>] by (metis fst_conv snd_conv)+
          have "fst ct div 2 < k" "snd ct div 2 < k" "snd de div 2 < k" using that(2) lt by (metis fst_conv snd_conv)+
          then show ?thesis unfolding conj_gate_def g(1) using a b d by simp
        qed
        let ?M = "first_of [mux_candidate (p0, p1) (q0, q1), mux_candidate (p0, p1) (q1, q0),
          mux_candidate (p1, p0) (q0, q1), mux_candidate (p1, p0) (q1, q0)]"
        have "conj_gate g k a b gt" if "?M = Some gt" for gt
          using first_of_cases(2) [OF that] by (elim disjE) (erule cand, simp)+
        moreover have "gate2 g a b = Some ?M" using False p(1) q(1) no by (auto simp: gate2_def)
        ultimately show ?thesis by blast
      qed
    qed
  qed
qed

lemma maj_split_ok:
  assumes inv: "aig_inv g" and v: "valid g a" "valid g b" and k: "a div 2 \<le> k" "b div 2 \<le> k"
  shows "\<exists>r. maj_split g a b = Some r \<and> (\<forall>gt. r = Some gt \<longrightarrow> conj_gate g k a b gt)"
proof (cases "a AND 1 \<noteq> 0 \<or> b AND 1 = 0")
  case True
  then show ?thesis by (simp add: maj_split_def)
next
  case False
  then have s: "a AND 1 = 0" "b AND 1 = 1" using and_one_cases [of b] by auto
  show ?thesis
  proof (rule inner_cases [OF inv v(1)], goal_cases)
    case 1 then show ?case using False by (simp add: maj_split_def)
  next
    case t: (2 p q)
    show ?case
    proof (cases "p AND 1 = 0 \<or> q AND 1 = 0")
      case True
      then show ?thesis using False t(1) by (simp add: maj_split_def)
    next
      case odd: False
      then have so: "p AND 1 = 1" "q AND 1 = 1" using and_one_cases [of p] and_one_cases [of q] by auto
      have ex: "\<exists>r. inner g l = Some r" if "valid g l" for l using that by (auto simp: inner_def node_at_def valid_def)
      obtain pi qi ri where i: "inner g p = Some pi" "inner g q = Some qi" "inner g b = Some ri"
        using ex t(5,6) v(2) by metis
      have run: "maj_split g a b = Some (case (pi, qi, ri) of
          (Some (p0, p1), Some q, Some r) \<Rightarrow> first_of [maj_candidate (p0, p1) q r, maj_candidate (p1, p0) q r] | _ \<Rightarrow> None)"
        using False odd t(1) i by (simp add: maj_split_def)
      show ?thesis
      proof (cases "\<exists>p0 p1 q0 q1 r0 r1. pi = Some (p0, p1) \<and> qi = Some (q0, q1) \<and> ri = Some (r0, r1)")
        case False
        then show ?thesis unfolding run by (auto split: option.splits)
      next
        case True
        then obtain p0 p1 q0 q1 r0 r1 where e: "pi = Some (p0, p1)" "qi = Some (q0, q1)" "ri = Some (r0, r1)" by blast
        have P: "p0 div 2 < p div 2 \<and> p1 div 2 < p div 2 \<and> (\<forall>\<rho>. val \<rho> g p = (\<not> (val \<rho> g p0 \<and> val \<rho> g p1)))"
          by (rule inner_cases [OF inv t(5)]) (use i(1) e(1) so in auto)
        have Q: "q0 div 2 < q div 2 \<and> q1 div 2 < q div 2 \<and> (\<forall>\<rho>. val \<rho> g q = (\<not> (val \<rho> g q0 \<and> val \<rho> g q1)))"
          by (rule inner_cases [OF inv t(6)]) (use i(2) e(2) so in auto)
        have R: "r0 div 2 < b div 2 \<and> r1 div 2 < b div 2 \<and> (\<forall>\<rho>. val \<rho> g b = (\<not> (val \<rho> g r0 \<and> val \<rho> g r1)))"
          by (rule inner_cases [OF inv v(2)]) (use i(3) e(3) s in auto)
        have A: "val \<rho> g a = (val \<rho> g p \<and> val \<rho> g q)" for \<rho> using t(7) [of \<rho>] s by simp
        have cand: "conj_gate g k a b gt"
          if "maj_candidate xy (q0, q1) (r0, r1) = Some gt" "xy = (p0, p1) \<or> xy = (p1, p0)" for xy gt
        proof -
          obtain x y where xy: "xy = (x, y)" by fastforce
          from that(1) obtain z where z: "gt = GNotMaj x y z" "(q0 = x \<and> z = q1) \<or> (q1 = x \<and> z = q0)" "(r0 = y \<and> r1 = z) \<or> (r0 = z \<and> r1 = y)"
            by (auto simp: maj_candidate_def xy split: if_splits option.splits)
          have p: "val \<rho> g p = (\<not> (val \<rho> g x \<and> val \<rho> g y))" for \<rho> using P that(2) xy by auto
          have q: "val \<rho> g q = (\<not> (val \<rho> g x \<and> val \<rho> g z))" for \<rho> using Q z(2) by auto
          have r: "val \<rho> g b = (\<not> (val \<rho> g y \<and> val \<rho> g z))" for \<rho> using R z(3) by auto
          have "gate_val (val \<rho> g) [] gt \<longleftrightarrow> val \<rho> g a \<and> val \<rho> g b" for \<rho>
            unfolding z(1) A p q r by auto
          moreover have "p0 div 2 < k" "p1 div 2 < k" "q0 div 2 < k" "q1 div 2 < k"
            using P Q t(3,4) k by linarith+
          then have "x div 2 < k" "y div 2 < k" "z div 2 < k" using z(2) that(2) xy by auto
          ultimately show ?thesis using z(1) by (simp add: conj_gate_def)
        qed
        let ?M = "first_of [maj_candidate (p0, p1) (q0, q1) (r0, r1), maj_candidate (p1, p0) (q0, q1) (r0, r1)]"
        have "conj_gate g k a b gt" if "?M = Some gt" for gt
          using first_of_cases(1) [OF that] by (elim disjE) (erule cand, simp)+
        moreover have "maj_split g a b = Some ?M" unfolding run e by simp
        ultimately show ?thesis by blast
      qed
    qed
  qed
qed

lemma conj_gate_swap: "conj_gate g k a b gt \<longleftrightarrow> conj_gate g k b a gt" by (auto simp: conj_gate_def)

lemma special_ok:
  assumes inv: "aig_inv g" and v: "valid g a" "valid g b" and k: "a div 2 \<le> k" "b div 2 \<le> k"
  shows "\<exists>r. special g a b = Some r \<and> (\<forall>gt. r = Some gt \<longrightarrow> conj_gate g k a b gt)"
proof -
  obtain r1 where r1: "gate2 g a b = Some r1" "\<forall>gt. r1 = Some gt \<longrightarrow> conj_gate g k a b gt" using gate2_ok [OF assms] by blast
  obtain r2 where r2: "maj_split g a b = Some r2" "\<forall>gt. r2 = Some gt \<longrightarrow> conj_gate g k a b gt" using maj_split_ok [OF assms] by blast
  obtain r3 where r3: "maj_split g b a = Some r3" "\<forall>gt. r3 = Some gt \<longrightarrow> conj_gate g k a b gt"
    using maj_split_ok [OF inv v(2,1) k(2,1)] conj_gate_swap by blast
  show ?thesis using r1 r2 r3 by (auto simp: special_def majority_def split: option.splits)
qed

end
