(* ===== verification/Cnf_Choice.thy ===== *)
theory Cnf_Choice
  imports Cnf_Gates
begin

unbundle bit_operations_syntax

declare One_nat_def [simp del]

text \<open>
  Choosing the gates: every node that needs a variable gets a gate that computes its function
  from operands that have variables themselves, and the search returns.
\<close>

section \<open>Gates of nodes\<close>

definition fun_gate :: "Aig \<Rightarrow> nat \<Rightarrow> ((nat \<Rightarrow> bool) \<Rightarrow> bool) \<Rightarrow> L list \<Rightarrow> Gate \<Rightarrow> bool" where
  "fun_gate g k F ls gt \<longleftrightarrow> (\<forall>\<rho>. gate_val (val \<rho> g) ls gt \<longleftrightarrow> F \<rho>) \<and> (\<forall>l\<in>set (operands ls gt). l div 2 < k) \<and>
     (case gt of GAnd s e \<Rightarrow> s \<le> e \<and> e \<le> length ls | _ \<Rightarrow> True)"

lemma operands_flat: "\<not> is_tree gt \<Longrightarrow> operands ls gt = operands [] gt" by (cases gt) auto

lemma gate_val_flat: "\<not> is_tree gt \<Longrightarrow> gate_val f ls gt = gate_val f [] gt" by (cases gt) auto

lemma conj_fun_gate: "conj_gate g k a b gt \<Longrightarrow> fun_gate g k (\<lambda>\<rho>. val \<rho> g a \<and> val \<rho> g b) ls gt"
  by (cases gt) (auto simp: conj_gate_def fun_gate_def)

lemma operands_append:
  assumes "fun_gate g k F ls gt"
  shows "operands (ls @ ms) gt = operands ls gt"
  using assms by (cases gt) (auto simp: fun_gate_def)

lemma fun_gate_append:
  assumes "fun_gate g k F ls gt"
  shows "fun_gate g k F (ls @ ms) gt"
  using assms operands_append [OF assms, of ms] by (cases gt) (auto simp: fun_gate_def)

lemma val_xor_and: "val \<rho> g (l XOR (k AND 1)) \<longleftrightarrow> (val \<rho> g l \<noteq> (k AND 1 = 1))"
  using and_one_cases [of k] by (auto simp: val_not_lit)

lemma xor_triple_ok:
  assumes inv: "aig_inv g" and len: "length uses = length (nodes g)"
    and ps: "\<forall>(x, y)\<in>set ps. valid g x \<and> x div 2 < i \<and> y div 2 < i \<and> (\<forall>\<rho>. F \<rho> \<longleftrightarrow> val \<rho> g x \<noteq> val \<rho> g y)"
  shows "\<exists>r. xor_triple g uses ps = Some r \<and> (\<forall>gt. r = Some gt \<longrightarrow> \<not> is_tree gt \<and> fun_gate g i F [] gt)"
  using ps
proof (induction ps)
  case (Cons xy ps)
  obtain x y where xy: "xy = (x, y)" by fastforce
  have h: "valid g x" "x div 2 < i" "y div 2 < i" and F: "\<And>\<rho>. F \<rho> \<longleftrightarrow> val \<rho> g x \<noteq> val \<rho> g y" using Cons.prems xy by auto
  from Cons.IH Cons.prems obtain r where r: "xor_triple g uses ps = Some r"
    "\<forall>gt. r = Some gt \<longrightarrow> \<not> is_tree gt \<and> fun_gate g i F [] gt" by auto
  have u: "at uses (x div 2) = Some (uses ! (x div 2))" "node_at g x = Some (nodes g ! (x div 2))"
    using h(1) len by (simp_all add: at_def valid_def node_at_def)
  show ?case
  proof (cases "uses ! (x div 2) = 2 \<and> (\<exists>p q. nodes g ! (x div 2) = NAnd p q)")
    case False
    then show ?thesis using r u by (auto simp: xy split: node.splits)
  next
    case True
    then obtain p q where n: "nodes g ! (x div 2) = NAnd p q" by blast
    note pq = aig_inv_and [OF inv h(1) n]
    have "p div 2 \<le> x div 2" "q div 2 \<le> x div 2" using pq(1,2) by linarith+
    from gate2_ok [OF inv pq(3,4) this] obtain m where
      m: "gate2 g p q = Some m" "\<forall>gt. m = Some gt \<longrightarrow> conj_gate g (x div 2) p q gt" by blast
    show ?thesis
    proof (cases "\<exists>a b. m = Some (GXor a b)")
      case False
      then show ?thesis using r u n m True by (auto simp: xy split: option.splits Gate.splits)
    next
      case True2: True
      then obtain a b where ab: "m = Some (GXor a b)" by blast
      from m(2) ab have c: "conj_gate g (x div 2) p q (GXor a b)" by blast
      have X: "val \<rho> g x \<longleftrightarrow> (val \<rho> g a \<noteq> val \<rho> g b) \<noteq> (x AND 1 = 1)" for \<rho>
        using c unfolding conj_gate_def pq(7) by auto
      have "a div 2 < i" "b div 2 < i" using c h(2) by (auto simp: conj_gate_def)
      then have "fun_gate g i F [] (GXor3 a (b XOR (x AND 1)) y)"
        unfolding fun_gate_def F X using h(3) lit_phase [of "x AND 1" b] by (auto simp: val_xor_and)
      then show ?thesis using u n m True ab by (simp add: xy)
    qed
  qed
qed simp

lemma detect_ok:
  assumes inv: "aig_inv g" and len: "length uses = length (nodes g)" and i: "i < length (nodes g)" "nodes g ! i = NAnd a b"
  shows "\<exists>r. detect g uses xor3 i a b = Some r \<and>
    (\<forall>gt. r = Some gt \<longrightarrow> \<not> is_tree gt \<and> fun_gate g i (\<lambda>\<rho>. val \<rho> g a \<and> val \<rho> g b) [] gt)"
proof -
  have l: "valid g (2 * i)" "nodes g ! (2 * i div 2) = NAnd a b" using i by (simp_all add: valid_def)
  note ab = aig_inv_and [OF inv l]
  have "a div 2 \<le> i" "b div 2 \<le> i" using ab(1,2) by simp_all
  from special_ok [OF inv ab(3,4) this] obtain m where
    m: "special g a b = Some m" "\<forall>gt. m = Some gt \<longrightarrow> conj_gate g i a b gt" by blast
  have g: "\<not> is_tree gt \<and> fun_gate g i (\<lambda>\<rho>. val \<rho> g a \<and> val \<rho> g b) [] gt" if "m = Some gt" for gt
    using m(2) that conj_fun_gate by (auto simp: conj_gate_def)
  have u: "at uses i = Some (uses ! i)" using i len by (simp add: at_def)
  show ?thesis
  proof (cases "\<exists>x y. m = Some (GXor x y)")
    case False
    then show ?thesis using m(1) g by (auto simp: detect_def split: option.splits Gate.splits)
  next
    case True
    then obtain x y where xy: "m = Some (GXor x y)" by blast
    from g [OF xy] have f: "x div 2 < i" "y div 2 < i" "\<And>\<rho>. (val \<rho> g a \<and> val \<rho> g b) \<longleftrightarrow> val \<rho> g x \<noteq> val \<rho> g y"
      by (auto simp: fun_gate_def)
    have "\<forall>(x, y)\<in>set [(x, y), (y, x)]. valid g x \<and> x div 2 < i \<and> y div 2 < i \<and>
        (\<forall>\<rho>. (val \<rho> g a \<and> val \<rho> g b) \<longleftrightarrow> val \<rho> g x \<noteq> val \<rho> g y)"
      using f i(1) by (auto simp: valid_def)
    from xor_triple_ok [OF inv len this] obtain t where
      t: "xor_triple g uses [(x, y), (y, x)] = Some t"
        "\<forall>gt. t = Some gt \<longrightarrow> \<not> is_tree gt \<and> fun_gate g i (\<lambda>\<rho>. val \<rho> g a \<and> val \<rho> g b) [] gt" by blast
    show ?thesis using m(1) xy t g [OF xy] u by (auto simp: detect_def split: option.splits)
  qed
qed

section \<open>Trees of conjunctions\<close>

lemma pow3_children: "x < n \<Longrightarrow> y < n \<Longrightarrow> (3::nat) ^ x + 3 ^ y < 3 ^ n"
proof -
  assume "x < n" "y < n"
  then obtain k where k: "n = Suc k" "x \<le> k" "y \<le> k" by (cases n) auto
  have "(3::nat) ^ x \<le> 3 ^ k" "(3::nat) ^ y \<le> 3 ^ k" "(0::nat) < 3 ^ k" using k by (simp_all add: power_increasing)
  then show ?thesis unfolding k(1) power_Suc by linarith
qed

lemma private_inner_cases:
  assumes "aig_inv g" "length uses = length (nodes g)" "valid g l"
  obtains "private_inner g uses l = Some None"
  | a b where "private_inner g uses l = Some (Some (a, b))" "nodes g ! (l div 2) = NAnd a b"
proof (cases "nodes g ! (l div 2)")
  case (NAnd a b)
  show ?thesis
    using that NAnd assms by (cases "uses ! (l div 2) = 1") (auto simp: private_inner_def node_at_def valid_def at_def)
qed (use that assms in \<open>auto simp: private_inner_def node_at_def valid_def\<close>)

lemma collect_ok:
  assumes inv: "aig_inv g" and len: "length uses = length (nodes g)"
    and st: "\<forall>l\<in>set stack. valid g l \<and> l div 2 < i"
  shows "\<exists>more. collect g uses stack ls = Some (ls @ more) \<and> (\<forall>l\<in>set more. l div 2 < i) \<and>
    (\<forall>\<rho>. (\<forall>l\<in>set more. val \<rho> g l) \<longleftrightarrow> (\<forall>l\<in>set stack. val \<rho> g l))"
  using st
proof (induction "\<Sum>l\<leftarrow>stack. (3::nat) ^ (l div 2)" arbitrary: stack ls rule: less_induct)
  case less
  show ?case
  proof (cases stack)
    case Nil
    then show ?thesis by (simp add: collect.simps)
  next
    case (Cons l rest)
    have l: "valid g l" "l div 2 < i" and rest: "\<forall>l\<in>set rest. valid g l \<and> l div 2 < i" using less.prems Cons by auto
    have "(\<Sum>l\<leftarrow>rest. (3::nat) ^ (l div 2)) < (\<Sum>l\<leftarrow>stack. 3 ^ (l div 2))" using Cons by simp
    from less.hyps [OF this rest, of "ls @ [l]"] obtain more where
      m: "collect g uses rest (ls @ [l]) = Some (ls @ l # more)" "\<forall>l\<in>set more. l div 2 < i"
        "\<And>\<rho>. (\<forall>l\<in>set more. val \<rho> g l) \<longleftrightarrow> (\<forall>l\<in>set rest. val \<rho> g l)" by auto
    have leaf: ?thesis if "collect g uses stack ls = collect g uses rest (ls @ [l])"
      unfolding that using m l Cons by (intro exI [of _ "l # more"]) auto
    show ?thesis
    proof (rule private_inner_cases [OF inv len l(1)], goal_cases)
      case 1
      then have "collect g uses stack ls = collect g uses rest (ls @ [l])"
        unfolding Cons by (subst collect.simps) simp
      then show ?case by (rule leaf)
    next
      case (2 a b)
      note ab = aig_inv_and [OF inv l(1) 2(2)]
      have "a div 2 \<le> l div 2" "b div 2 \<le> l div 2" using ab(1,2) by linarith+
      from special_ok [OF inv ab(3,4) this] obtain s where s: "special g a b = Some s" by blast
      show ?case
      proof (cases "l AND 1 = 0 \<and> s = None")
        case False
        then have "collect g uses stack ls = collect g uses rest (ls @ [l])"
          unfolding Cons by (subst collect.simps) (auto simp: 2 s)
        then show ?thesis by (rule leaf)
      next
        case True
        have step: "collect g uses stack ls = collect g uses (a # b # rest) ls"
          unfolding Cons by (subst collect.simps) (simp add: 2 s True)
        have "(\<Sum>l\<leftarrow>a # b # rest. (3::nat) ^ (l div 2)) < (\<Sum>l\<leftarrow>stack. 3 ^ (l div 2))"
          using pow3_children [OF ab(1,2)] Cons by simp
        moreover have "\<forall>l\<in>set (a # b # rest). valid g l \<and> l div 2 < i" using rest ab l by auto
        ultimately obtain more where
          m: "collect g uses (a # b # rest) ls = Some (ls @ more)" "\<forall>l\<in>set more. l div 2 < i"
            "\<And>\<rho>. (\<forall>l\<in>set more. val \<rho> g l) \<longleftrightarrow> (\<forall>l\<in>set (a # b # rest). val \<rho> g l)"
          using less.hyps [of "a # b # rest" ls] by blast
        have "val \<rho> g l \<longleftrightarrow> val \<rho> g a \<and> val \<rho> g b" for \<rho> using ab(7) True by simp
        then show ?thesis unfolding step using m Cons by auto
      qed
    qed
  qed
qed

section \<open>Choosing the gates\<close>

lemma mark_need_ok:
  assumes "\<forall>l\<in>set ls. l div 2 < length nd"
  shows "\<exists>nd'. mark_need ls nd = Some nd' \<and> length nd' = length nd \<and>
    (\<forall>i<length nd. nd' ! i \<longleftrightarrow> nd ! i \<or> i \<in> (\<lambda>l. l div 2) ` set ls)"
  using assms
proof (induction ls arbitrary: nd)
  case (Cons l ls)
  from Cons.prems Cons.IH [of "nd[l div 2 := True]"] obtain nd' where
    "mark_need ls (nd[l div 2 := True]) = Some nd'" "length nd' = length nd"
    "\<forall>i<length nd. nd' ! i \<longleftrightarrow> nd[l div 2 := True] ! i \<or> i \<in> (\<lambda>l. l div 2) ` set ls" by auto
  then show ?case using Cons.prems by (auto simp: put_def nth_list_update)
qed simp

text \<open>
  The nodes from \<open>k\<close> up are decided: every one that needs a variable and is a gate has an entry,
  and every entry computes its node from operands that need a variable.
\<close>

definition choice_ok :: "Aig \<Rightarrow> nat \<Rightarrow> Choice \<Rightarrow> bool" where
  "choice_ok g k c \<longleftrightarrow> length (ch_need c) = length (nodes g) \<and>
     (\<forall>(i, gt)\<in>set (ch_gates c). i < length (nodes g) \<and> ch_need c ! i \<and>
        fun_gate g i (\<lambda>\<rho>. val \<rho> g (2 * i)) (ch_leaves c) gt \<and>
        (\<forall>l\<in>set (operands (ch_leaves c) gt). ch_need c ! (l div 2))) \<and>
     (\<forall>i a b. k \<le> i \<and> i < length (nodes g) \<and> ch_need c ! i \<and> nodes g ! i = NAnd a b \<longrightarrow> i \<in> fst ` set (ch_gates c))"

lemma choose_gate_ok:
  assumes inv: "aig_inv g" and len: "length uses = length (nodes g)" and i: "i < length (nodes g)"
    and c: "choice_ok g (Suc i) c"
  shows "\<exists>c'. choose_gate g uses xor3 i c = Some c' \<and> choice_ok g i c' \<and> (\<forall>j<length (nodes g). ch_need c ! j \<longrightarrow> ch_need c' ! j)"
proof -
  let ?n = "length (nodes g)"
  have nl: "length (ch_need c) = ?n" using c by (simp add: choice_ok_def)
  have at: "at (ch_need c) i = Some (ch_need c ! i)" using i nl by (simp add: at_def)
  have unchanged: "choice_ok g i c" if "\<not> (ch_need c ! i \<and> (\<exists>a b. nodes g ! i = NAnd a b))"
  proof -
    have "j \<in> fst ` set (ch_gates c)"
      if "i \<le> j" "j < ?n" "ch_need c ! j" "nodes g ! j = NAnd a b" for j a b
    proof -
      have "Suc i \<le> j" using that \<open>\<not> (ch_need c ! i \<and> (\<exists>a b. nodes g ! i = NAnd a b))\<close> by (cases "j = i") auto
      then show ?thesis using c that(2-4) unfolding choice_ok_def by blast
    qed
    then show ?thesis using c unfolding choice_ok_def by blast
  qed
  show ?thesis
  proof (cases "ch_need c ! i \<and> (\<exists>a b. nodes g ! i = NAnd a b)")
    case False
    then have "choose_gate g uses xor3 i c = Some c" by (auto simp: choose_gate_def at split: node.splits)
    then show ?thesis using unchanged [OF False] by blast
  next
    case True
    then obtain a b where n: "nodes g ! i = NAnd a b" by blast
    have l: "valid g (2 * i)" "nodes g ! (2 * i div 2) = NAnd a b" using i n by (simp_all add: valid_def)
    note ab = aig_inv_and [OF inv l]
    have F: "val \<rho> g (2 * i) \<longleftrightarrow> val \<rho> g a \<and> val \<rho> g b" for \<rho> using ab(7) [of \<rho>] by (simp add: and_one_eq)
    have pick: "\<exists>gt ls. (case r of Some gt \<Rightarrow> Some (gt, ch_leaves c)
          | None \<Rightarrow> do { ls \<leftarrow> collect g uses [a, b] (ch_leaves c); Some (GAnd (length (ch_leaves c)) (length ls), ls) }) = Some (gt, ls) \<and>
        fun_gate g i (\<lambda>\<rho>. val \<rho> g (2 * i)) ls gt \<and> (\<exists>more. ls = ch_leaves c @ more)"
      if r: "\<forall>gt. r = Some gt \<longrightarrow> \<not> is_tree gt \<and> fun_gate g i (\<lambda>\<rho>. val \<rho> g a \<and> val \<rho> g b) [] gt" for r
    proof (cases r)
      case None
      have "\<forall>l\<in>set [a, b]. valid g l \<and> l div 2 < i" using ab by simp
      from collect_ok [OF inv len this, of "ch_leaves c"] obtain more where
        m: "collect g uses [a, b] (ch_leaves c) = Some (ch_leaves c @ more)" "\<forall>l\<in>set more. l div 2 < i"
          "\<And>\<rho>. (\<forall>l\<in>set more. val \<rho> g l) \<longleftrightarrow> val \<rho> g a \<and> val \<rho> g b" by auto
      then show ?thesis using None F by (simp add: fun_gate_def)
    next
      case (Some gt)
      from fun_gate_append [of g i _ "[]" gt "ch_leaves c"] r Some F show ?thesis by simp
    qed
    from detect_ok [OF inv len i n, of xor3] obtain r where
      d: "detect g uses xor3 i a b = Some r"
        "\<forall>gt. r = Some gt \<longrightarrow> \<not> is_tree gt \<and> fun_gate g i (\<lambda>\<rho>. val \<rho> g a \<and> val \<rho> g b) [] gt" by blast
    from pick [OF d(2)] obtain gt ls more where
      r: "(case r of Some gt \<Rightarrow> Some (gt, ch_leaves c)
          | None \<Rightarrow> do { ls \<leftarrow> collect g uses [a, b] (ch_leaves c); Some (GAnd (length (ch_leaves c)) (length ls), ls) }) = Some (gt, ls)"
      and f: "fun_gate g i (\<lambda>\<rho>. val \<rho> g (2 * i)) ls gt" and ls: "ls = ch_leaves c @ more" by blast
    have "\<forall>l\<in>set (operands ls gt). l div 2 < length (ch_need c)" using f i nl by (fastforce simp: fun_gate_def)
    from mark_need_ok [OF this] obtain nd where
      nd: "mark_need (operands ls gt) (ch_need c) = Some nd" "length nd = length (ch_need c)"
        "\<forall>j<length (ch_need c). nd ! j \<longleftrightarrow> ch_need c ! j \<or> j \<in> (\<lambda>l. l div 2) ` set (operands ls gt)" by blast
    define c' where "c' = \<lparr>ch_need = nd, ch_gates = ch_gates c @ [(i, gt)], ch_leaves = ls\<rparr>"
    have run: "choose_gate g uses xor3 i c = Some c'"
      unfolding choose_gate_def at bind.bind_lunit using True n d(1) r nd(1) by (simp add: c'_def)
    have old: "fun_gate g j F (ch_leaves c) gt' \<Longrightarrow> fun_gate g j F ls gt' \<and> operands ls gt' = operands (ch_leaves c) gt'" for j F gt'
      unfolding ls using fun_gate_append operands_append by blast
    have below: "l div 2 < length (ch_need c)" if "fun_gate g j F ls' gt'" "l \<in> set (operands ls' gt')" "j < ?n" for j F ls' gt' l
      using that nl by (fastforce simp: fun_gate_def)
    have entries: "j < ?n \<and> nd ! j \<and> fun_gate g j (\<lambda>\<rho>. val \<rho> g (2 * j)) ls gt' \<and> (\<forall>l\<in>set (operands ls gt'). nd ! (l div 2))"
      if "(j, gt') \<in> set (ch_gates c @ [(i, gt)])" for j gt'
    proof (cases "(j, gt') = (i, gt)")
      case True2: True
      show ?thesis using True2 i f nd(3) True nl below [OF f _ i] by auto
    next
      case False
      then have "(j, gt') \<in> set (ch_gates c)" using that by auto
      then have e: "j < ?n" "ch_need c ! j" "fun_gate g j (\<lambda>\<rho>. val \<rho> g (2 * j)) (ch_leaves c) gt'"
          "\<forall>l\<in>set (operands (ch_leaves c) gt'). ch_need c ! (l div 2)"
        using c unfolding choice_ok_def by auto
      show ?thesis using e old [OF e(3)] nd(3) nl below [OF e(3) _ e(1)] by auto
    qed
    have done': "j \<in> fst ` set (ch_gates c @ [(i, gt)])"
      if "i \<le> j" "j < ?n" "nd ! j" "nodes g ! j = NAnd x y" for j x y
    proof (cases "j = i")
      case False
      have "\<not> j \<in> (\<lambda>l. l div 2) ` set (operands ls gt)" using f that(1) by (auto simp: fun_gate_def)
      then have "ch_need c ! j" using nd(3) that(2,3) nl by simp
      moreover have "Suc i \<le> j" using that(1) False by simp
      ultimately have "j \<in> fst ` set (ch_gates c)" using c that(2,4) unfolding choice_ok_def by blast
      then show ?thesis by auto
    qed simp
    have "choice_ok g i c'"
      unfolding choice_ok_def c'_def using entries done' nd(2) nl by auto
    then show ?thesis using run nd(3) nl by (simp add: c'_def)
  qed
qed

lemma choose_gates_ok:
  assumes inv: "aig_inv g" and len: "length uses = length (nodes g)" and k: "k \<le> length (nodes g)"
    and c: "choice_ok g k c"
  shows "\<exists>c'. choose_gates g uses xor3 (rev [1..<k]) c = Some c' \<and> choice_ok g 1 c' \<and>
    (\<forall>j<length (nodes g). ch_need c ! j \<longrightarrow> ch_need c' ! j)"
  using k c
proof (induction k arbitrary: c)
  case 0
  then show ?case by (auto simp: choice_ok_def)
next
  case (Suc k)
  show ?case
  proof (cases "k = 0")
    case True
    then show ?thesis using Suc.prems(2) by (simp add: One_nat_def)
  next
    case False
    have "k < length (nodes g)" using Suc.prems(1) by simp
    from choose_gate_ok [OF inv len this Suc.prems(2), of xor3] obtain c1 where
      c1: "choose_gate g uses xor3 k c = Some c1" "choice_ok g k c1" "\<forall>j<length (nodes g). ch_need c ! j \<longrightarrow> ch_need c1 ! j" by blast
    from Suc.IH [OF _ c1(2)] Suc.prems(1) obtain c2 where
      c2: "choose_gates g uses xor3 (rev [1..<k]) c1 = Some c2" "choice_ok g 1 c2" "\<forall>j<length (nodes g). ch_need c1 ! j \<longrightarrow> ch_need c2 ! j" by auto
    have "rev [1..<Suc k] = k # rev [1..<k]" using False by (simp add: One_nat_def)
    then show ?thesis using c1 c2 by simp
  qed
qed

section \<open>Counting uses\<close>

lemma count_use_ok: "l div 2 < length uses \<Longrightarrow> \<exists>uses'. count_use k l uses = Some uses' \<and> length uses' = length uses"
  by (simp add: count_use_def at_def put_def)

lemma count_roots_ok:
  "\<forall>l\<in>set rs. l div 2 < length uses \<Longrightarrow> \<exists>uses'. count_roots rs uses = Some uses' \<and> length uses' = length uses"
proof (induction rs arbitrary: uses)
  case (Cons r rs)
  from count_use_ok [of r uses 2] Cons.prems obtain u where "count_use 2 r uses = Some u" "length u = length uses" by auto
  then show ?case using Cons.IH [of u] Cons.prems by auto
qed simp

lemma count_gates_ok:
  assumes inv: "aig_inv g"
  shows "\<forall>i\<in>set js. i < length (nodes g) \<Longrightarrow> length uses = length (nodes g) \<Longrightarrow>
    \<exists>uses'. count_gates g js uses = Some uses' \<and> length uses' = length (nodes g)"
proof (induction js arbitrary: uses)
  case (Cons i js)
  have u: "at uses i = Some (uses ! i)" using Cons.prems by (simp add: at_def)
  have "\<exists>u'. (if uses ! i > 0 then (case nodes g ! i of
                 NAnd a b \<Rightarrow> do { uses \<leftarrow> count_use 1 a uses; count_use 1 b uses }
               | _ \<Rightarrow> Some uses) else Some uses) = Some u' \<and> length u' = length (nodes g)"
  proof (cases "nodes g ! i")
    case (NAnd a b)
    have "valid g (2 * i)" "nodes g ! (2 * i div 2) = NAnd a b" using Cons.prems NAnd by (simp_all add: valid_def)
    from aig_inv_and(3,4) [OF inv this] have ab: "a div 2 < length uses" "b div 2 < length uses"
      using Cons.prems(2) by (simp_all add: valid_def)
    from count_use_ok [OF ab(1), of 1] obtain u1 where u1: "count_use 1 a uses = Some u1" "length u1 = length uses" by blast
    from count_use_ok [of b u1 1] ab(2) u1 obtain u2 where "count_use 1 b u1 = Some u2" "length u2 = length uses" by auto
    then show ?thesis using u1 NAnd Cons.prems(2) by simp
  qed (use Cons.prems(2) in auto)
  then show ?case using Cons.IH Cons.prems u by auto
qed simp

lemma count_uses_ok:
  assumes "aig_inv g" "\<forall>l\<in>set roots. valid g l"
  shows "\<exists>uses. count_uses g roots = Some uses \<and> length uses = length (nodes g)"
proof -
  from count_roots_ok [of roots "replicate (length (nodes g)) 0"] assms(2) obtain u where
    "count_roots roots (replicate (length (nodes g)) 0) = Some u" "length u = length (nodes g)" by (auto simp: valid_def)
  then show ?thesis using count_gates_ok [OF assms(1), of "rev [1..<length (nodes g)]" u] by (auto simp: count_uses_def)
qed

end
