(* ===== verification/Blast.thy ===== *)
theory Blast
  imports Aig_Factor BitVec
begin

unbundle bit_operations_syntax

text \<open>
  Bit-blasting (\<open>bitwright/src/prove/blast.rs\<close>): constants, bitwise operators, selection, adders and comparisons as circuits over the
  bits of its operands, least significant first. The graph is threaded through as in \<open>Aig\<close>. A
  \<open>usize\<close> is a \<open>nat\<close>, a \<open>u64\<close> a 64-bit word; \<open>None\<close> is a panic (a slice out of range).
\<close>

section \<open>Iteration\<close>

text \<open>Collecting a mapped iterator, the graph threaded through.\<close>

primrec build_map :: "('a \<Rightarrow> Aig \<Rightarrow> ('b \<times> Aig) option) \<Rightarrow> 'a list \<Rightarrow> Aig \<Rightarrow> ('b list \<times> Aig) option" where
  "build_map f [] g = Some ([], g)"
| "build_map f (x # xs) g = do { (y, g) \<leftarrow> f x g; (ys, g) \<leftarrow> build_map f xs g; Some (y # ys, g) }"

section \<open>Constants and bitwise operators\<close>

definition konst :: "BitVec \<Rightarrow> L list" where
  "konst v = map (\<lambda>i. if bv_bit v i = Some True then TRUE else FALSE) [0..<bv_width v]"

definition small_bits :: "nat \<Rightarrow> u64 \<Rightarrow> L list" where
  "small_bits w v = map (\<lambda>i. if i < 64 \<and> bit v i then TRUE else FALSE) [0..<w]"

definition blast_not :: "L list \<Rightarrow> L list" where "blast_not a = map (\<lambda>x. x XOR 1) a"

definition blast_and :: "L list \<Rightarrow> L list \<Rightarrow> Aig \<Rightarrow> (L list \<times> Aig) option" where
  "blast_and a b g = build_map (\<lambda>(x, y) g. aig_and x y g) (zip a b) g"

definition blast_or :: "L list \<Rightarrow> L list \<Rightarrow> Aig \<Rightarrow> (L list \<times> Aig) option" where
  "blast_or a b g = build_map (\<lambda>(x, y) g. aig_or x y g) (zip a b) g"

definition xor_bits :: "L list \<Rightarrow> L list \<Rightarrow> bool \<Rightarrow> Aig \<Rightarrow> (L list \<times> Aig) option" where
  "xor_bits a b cancel_input g =
     build_map (\<lambda>(i, x, y) g.
        if i < 2 then xor_simplified x y g
        else if cancel_input then xor_cancel_input x y g
        else aig_xor x y g) (enumerate 0 (zip a b)) g"

definition blast_xor :: "L list \<Rightarrow> L list \<Rightarrow> Aig \<Rightarrow> (L list \<times> Aig) option" where
  "blast_xor a b g = xor_bits a b False g"

definition blast_xor_cancel :: "L list \<Rightarrow> L list \<Rightarrow> Aig \<Rightarrow> (L list \<times> Aig) option" where
  "blast_xor_cancel a b g = xor_bits a b True g"

definition blast_mux :: "L \<Rightarrow> L list \<Rightarrow> L list \<Rightarrow> Aig \<Rightarrow> (L list \<times> Aig) option" where
  "blast_mux c t e g = build_map (\<lambda>(x, y) g. aig_mux c x y g) (zip t e) g"

section \<open>Addition and comparison\<close>

definition add_carry :: "L list \<Rightarrow> L list \<Rightarrow> L \<Rightarrow> Aig \<Rightarrow> ((L list \<times> L) \<times> Aig) option" where
  "add_carry a b cin g =
     build_fold (\<lambda>(x, y) (out, c) g. do {
         (s, g) \<leftarrow> aig_xor x y g;
         (o1, g) \<leftarrow> aig_xor s c g;
         (c, g) \<leftarrow> aig_maj x y c g;
         Some ((out @ [o1], c), g) })
       (zip a b) ([], cin) g"

definition add_wrapping :: "L list \<Rightarrow> L list \<Rightarrow> L \<Rightarrow> Aig \<Rightarrow> (L list \<times> Aig) option" where
  "add_wrapping a b cin g = do {
     ((out, carry), g) \<leftarrow> build_fold (\<lambda>(i, x, y) (out, carry) g.
         if i + 1 = length a then do {
           (s, g) \<leftarrow> xor_phase x y g;
           (o1, g) \<leftarrow> xor_phase s carry g;
           Some ((out @ [o1], carry), g) }
         else do {
           (s, g) \<leftarrow> aig_xor x y g;
           (o1, g) \<leftarrow> aig_xor s carry g;
           (carry, g) \<leftarrow> aig_maj x y carry g;
           Some ((out @ [o1], carry), g) })
       (enumerate 0 (zip a b)) ([], cin) g;
     Some (out, g) }"

definition blast_add :: "L list \<Rightarrow> L list \<Rightarrow> Aig \<Rightarrow> (L list \<times> Aig) option" where
  "blast_add a b g = add_wrapping a b FALSE g"

definition blast_sub :: "L list \<Rightarrow> L list \<Rightarrow> Aig \<Rightarrow> (L list \<times> Aig) option" where
  "blast_sub a b g = (let nb = blast_not b in add_wrapping a nb TRUE g)"

definition blast_neg :: "L list \<Rightarrow> Aig \<Rightarrow> (L list \<times> Aig) option" where
  "blast_neg a g = (let z = replicate (length a) FALSE in blast_sub z a g)"

definition blast_ult :: "L list \<Rightarrow> L list \<Rightarrow> Aig \<Rightarrow> (L \<times> Aig) option" where
  "blast_ult a b g = do {
     ((_, carry), g) \<leftarrow> add_carry a (blast_not b) TRUE g;
     Some (carry XOR 1, g) }"

definition blast_ule :: "L list \<Rightarrow> L list \<Rightarrow> Aig \<Rightarrow> (L \<times> Aig) option" where
  "blast_ule a b g = do { (r, g) \<leftarrow> blast_ult b a g; Some (r XOR 1, g) }"

definition flip_last :: "L list \<Rightarrow> L list" where
  "flip_last a = (if a = [] then [] else butlast a @ [last a XOR 1])"

definition blast_slt :: "L list \<Rightarrow> L list \<Rightarrow> Aig \<Rightarrow> (L \<times> Aig) option" where
  "blast_slt a b g =
     (let (a2, b2) = (if a \<noteq> [] \<and> b \<noteq> [] then (flip_last a, flip_last b) else (a, b))
      in blast_ult a2 b2 g)"

definition blast_sle :: "L list \<Rightarrow> L list \<Rightarrow> Aig \<Rightarrow> (L \<times> Aig) option" where
  "blast_sle a b g = do { (r, g) \<leftarrow> blast_slt b a g; Some (r XOR 1, g) }"

definition eq_bits :: "L list \<Rightarrow> L list \<Rightarrow> bool \<Rightarrow> Aig \<Rightarrow> (L \<times> Aig) option" where
  "eq_bits a b factor_joins g = do {
     (bits, g) \<leftarrow> build_map (\<lambda>(x, y) g.
         if factor_joins \<and> y = TRUE then factor_positive_or x 2 g
         else if factor_joins \<and> x = TRUE then factor_positive_or y 2 g
         else aig_xnor x y g) (zip a b) g;
     and_all bits g }"

definition blast_eq :: "L list \<Rightarrow> L list \<Rightarrow> Aig \<Rightarrow> (L \<times> Aig) option" where
  "blast_eq a b g = eq_bits a b False g"

definition eq_factored :: "L list \<Rightarrow> L list \<Rightarrow> Aig \<Rightarrow> (L \<times> Aig) option" where
  "eq_factored a b g = eq_bits a b True g"

end
