(* ===== verification/Blast_Mul.thy ===== *)
theory Blast_Mul
  imports Blast
begin

unbundle bit_operations_syntax

text \<open>
  Products (\<open>bitwright/src/prove/blast.rs\<close>): shift and add, signed digits of a constant, the search
  for a factorization of a constant, and column compression with carry-save adders.
\<close>

section \<open>Multiplication\<close>

definition binary_factor :: "L list \<Rightarrow> L list \<Rightarrow> (L \<times> L list) option" where
  "binary_factor a b =
     (if a \<noteq> [] \<and> list_all (\<lambda>x. x = FALSE) (tl a) then Some (hd a, b)
      else if b \<noteq> [] \<and> list_all (\<lambda>x. x = FALSE) (tl b) then Some (hd b, a)
      else None)"

definition is_const :: "L list \<Rightarrow> bool" where "is_const = list_all (\<lambda>x. x \<le> TRUE)"

text \<open>One row of a product: \<open>w\<close> columns, \<open>i\<close> zeros below the row.\<close>

definition mul_rows :: "L list \<Rightarrow> L list \<Rightarrow> Aig \<Rightarrow> (L list \<times> Aig) option" where
  "mul_rows a b g =
     (let w = length a
      in build_fold (\<lambda>(i, bi) acc g.
           if bi = FALSE then Some (acc, g)
           else if i > w then None
           else do {
             (row, g) \<leftarrow> build_map (\<lambda>x g. aig_and x bi g) (take (w - i) a) g;
             blast_add acc (replicate i FALSE @ row) g })
         (enumerate 0 b) (replicate w FALSE) g)"

text \<open>The signed digits of a constant: a bit position and whether the digit is negative.\<close>

fun signed_digits :: "nat \<Rightarrow> bool \<Rightarrow> L list \<Rightarrow> (nat \<times> bool) list" where
  "signed_digits i carry [] = []"
| "signed_digits i carry (x # xs) =
     (if x \<noteq> TRUE \<and> \<not> carry then signed_digits (i + 1) False xs
      else if x = TRUE \<and> carry then signed_digits (i + 1) True xs
      else let negative = (xs \<noteq> [] \<and> hd xs = TRUE) in (i, negative) # signed_digits (i + 1) negative xs)"

definition mul_constant_unfactored :: "L list \<Rightarrow> L list \<Rightarrow> Aig \<Rightarrow> (L list \<times> Aig) option" where
  "mul_constant_unfactored a constant g =
     (let digits = signed_digits 0 False constant;
          cost = length digits + (if digits \<noteq> [] \<and> snd (last digits) then 1 else 0);
          ordinary = length (filter (\<lambda>x. x = TRUE) constant)
      in if cost \<ge> ordinary then mul_rows a constant g
         else do {
           (acc, g) \<leftarrow> build_fold (\<lambda>(shift, negative) acc g.
               if shift > length a then None
               else let part = replicate shift FALSE @ take (length a - shift) a
                    in do {
                      (r, g) \<leftarrow> (case acc of
                          None \<Rightarrow> if negative then blast_neg part g else Some (part, g)
                        | Some acc \<Rightarrow> if negative then blast_sub acc part g else blast_add acc part g);
                      Some (Some r, g) })
             (rev digits) None g;
           Some (case acc of Some r \<Rightarrow> r | None \<Rightarrow> replicate (length a) FALSE, g) })"

function weighted_columns_from :: "u64 \<Rightarrow> nat \<Rightarrow> nat" where
  "weighted_columns_from columns work =
     (if columns = 0 then work
      else weighted_columns_from (columns AND (columns - 1)) (work + (64 - trailing_zeros columns)))"
  by pat_completeness auto
termination
proof (relation "measure (\<lambda>(columns, work). unat columns)")
  fix columns :: u64 and work :: nat
  assume "columns \<noteq> 0"
  then have "columns - 1 < columns" by (simp add: word_less_nat_alt measure_unat)
  moreover have "columns AND (columns - 1) \<le> columns - 1" by (rule word_and_le1)
  ultimately show "((columns AND (columns - 1), work + (64 - trailing_zeros columns)), columns, work)
      \<in> measure (\<lambda>(columns, work). unat columns)"
    by (simp add: word_less_nat_alt word_le_nat_alt)
qed simp

declare weighted_columns_from.simps [simp del]

definition weighted_columns :: "u64 \<Rightarrow> nat" where
  "weighted_columns columns = weighted_columns_from columns 0"

text \<open>
  The columns of active carries of a constant multiplication, an estimate that only chooses
  between correct circuits. The scan over a width other than 64 keeps its state in a record.
\<close>

record work_scan =
  ws_carry :: bool
  ws_digits :: nat
  ws_signed_work :: nat
  ws_last :: "nat \<times> bool"
  ws_ordinary_work :: nat

definition constant_work_step :: "u64 \<Rightarrow> nat \<Rightarrow> nat \<Rightarrow> work_scan \<Rightarrow> work_scan" where
  "constant_work_step value width i s =
     (let b = bit value i;
          s = (if b then s\<lparr>ws_ordinary_work := ws_ordinary_work s + (width - i)\<rparr> else s)
      in if \<not> b \<and> \<not> ws_carry s then s\<lparr>ws_carry := False\<rparr>
         else if b \<and> ws_carry s then s\<lparr>ws_carry := True\<rparr>
         else let negative = (i + 1 < width \<and> bit value (i + 1))
              in s\<lparr>ws_digits := ws_digits s + 1, ws_signed_work := ws_signed_work s + (width - i),
                   ws_last := (i, negative), ws_carry := negative\<rparr>)"

definition constant_work :: "u64 \<Rightarrow> nat \<Rightarrow> nat" where
  "constant_work value width =
     (if value = 0 then 0
      else if width = 64 then
        let half = drop_bit 1 value;
            added = value + half;
            changed = added XOR half;
            positive = added AND changed;
            negative = half AND changed;
            digits = positive OR negative;
            highest = 63 - leading_zeros digits;
            initial_negative = bit negative highest;
            (columns, free) =
              (if count_ones digits + (if initial_negative then 1 else 0) \<ge> count_ones value
               then (value, 64 - trailing_zeros value)
               else (digits, if initial_negative then 0 else 64 - highest))
        in weighted_columns columns - free
      else
        let s = for_up width (constant_work_step value width)
              \<lparr>ws_carry = False, ws_digits = 0, ws_signed_work = 0, ws_last = (0, False), ws_ordinary_work = 0\<rparr>
        in if ws_digits s + (if snd (ws_last s) then 1 else 0) \<ge> count_ones value
           then ws_ordinary_work s - (width - trailing_zeros value)
           else ws_signed_work s - (if snd (ws_last s) then 0 else width - fst (ws_last s)))"


text \<open>Data whose product may be factored: variable at both ends, half of it distinct literals.\<close>

definition factorable_data :: "L list \<Rightarrow> bool" where
  "factorable_data data =
     (if length data \<noteq> 64 \<or> data ! 0 \<le> TRUE \<or> data ! 63 = FALSE then False
      else 32 \<le> length (remdups (filter (\<lambda>x. x \<noteq> FALSE) (map plain data))))"

definition correct_product :: "L list \<Rightarrow> L list \<Rightarrow> int \<Rightarrow> Aig \<Rightarrow> (L list \<times> Aig) option" where
  "correct_product product source correction g =
     (if correction = 1 then blast_add product source g
      else if correction = - 1 then blast_sub product source g
      else Some (product, g))"

text \<open>The value of a constant, unless some bit of it is not one.\<close>

definition constant_value :: "L list \<Rightarrow> u64 option" where
  "constant_value constant =
     fold (\<lambda>(i, x) v. case v of None \<Rightarrow> None
         | Some v \<Rightarrow> if x \<le> TRUE then Some (v OR push_bit i (of_bool (x = TRUE))) else None)
       (enumerate 0 constant) (Some 0)"

definition newton_step :: "u64 \<Rightarrow> u64 \<Rightarrow> u64" where
  "newton_step factor x = x * (2 - factor * x)"

definition factor_candidate :: "u64 \<Rightarrow> nat \<Rightarrow> u64 \<Rightarrow> int \<Rightarrow> nat \<times> (u64 \<times> u64 \<times> int) option \<Rightarrow>
    nat \<times> (u64 \<times> u64 \<times> int) option" where
  "factor_candidate value width factor correction state =
     (case state of (best, factors) \<Rightarrow>
        let inv1 = for_up 6 (\<lambda>_. newton_step factor) 1;
            first_work = constant_work factor width;
            adjusted = value + word_of_int (- correction);
            other = adjusted * inv1;
            correction_work = (if correction = 1 \<and> other \<noteq> 0 then width - trailing_zeros other
                               else if correction = 0 then 0 else width);
            work = first_work + constant_work other width + correction_work
        in if work < best \<or> (work = best \<and> correction = 0 \<and>
                (case factors of None \<Rightarrow> False | Some (_, _, previous) \<Rightarrow> previous \<noteq> 0))
           then (work, Some (factor, other, correction)) else (best, factors))"

definition constant_factors :: "L list \<Rightarrow> (u64 \<times> u64 \<times> int) option" where
  "constant_factors constant =
     (let width = length constant
      in if width \<noteq> 64 \<or> constant ! 0 \<noteq> TRUE then None
         else case constant_value constant of
             None \<Rightarrow> None
           | Some value \<Rightarrow>
               let original = constant_work value width
               in if original \<le> 2 * width then None
                  else let (best, factors) =
                         fold (\<lambda>k state.
                             fold (\<lambda>correction. factor_candidate value width (word_of_nat (2 * k + 3)) correction)
                               [0, 1, - 1] state)
                           [0..<127] (original, None)
                       in if best * 10 \<le> original * 9 then factors else None)"

definition mul_constant :: "L list \<Rightarrow> L list \<Rightarrow> Aig \<Rightarrow> (L list \<times> Aig) option" where
  "mul_constant a constant g =
     (case (if factorable_data a then constant_factors constant else None) of
        Some (factor, other, correction) \<Rightarrow>
          let first = small_bits (length a) factor; second = small_bits (length a) other
          in do {
            (intermediate, g) \<leftarrow> mul_constant_unfactored a first g;
            (product, g) \<leftarrow> mul_constant_unfactored intermediate second g;
            correct_product product a correction g }
      | None \<Rightarrow> mul_constant_unfactored a constant g)"

definition blast_mul :: "L list \<Rightarrow> L list \<Rightarrow> Aig \<Rightarrow> (L list \<times> Aig) option" where
  "blast_mul a b g =
     (case binary_factor a b of
        Some (b0, data) \<Rightarrow> build_map (\<lambda>x g. aig_and b0 x g) data g
      | None \<Rightarrow>
          if is_const b then mul_constant a b g
          else if is_const a then mul_constant b a g
          else mul_rows a b g)"

section \<open>Carry-save multiplication\<close>

text \<open>\<open>columns[i].push(l)\<close>; out of range it panics.\<close>

definition push_column :: "nat \<Rightarrow> L \<Rightarrow> L list list \<Rightarrow> L list list option" where
  "push_column i l columns =
     (if i < length columns then Some (columns[i := columns ! i @ [l]]) else None)"

definition push_bit_column :: "nat \<Rightarrow> L \<Rightarrow> L list list \<Rightarrow> L list list option" where
  "push_bit_column i l columns = (if l \<noteq> FALSE then push_column i l columns else Some columns)"

definition constant_rows :: "L list \<Rightarrow> L list \<Rightarrow> L list list \<Rightarrow> L list list option" where
  "constant_rows data constant columns =
     (let w = length columns;
          digits = signed_digits 0 False constant;
          digits = (if length digits \<ge> length (filter (\<lambda>l. l = TRUE) constant)
                    then map (\<lambda>(i, l). (i, False)) (filter (\<lambda>(i, l). l = TRUE) (enumerate 0 constant))
                    else digits)
      in fold (\<lambda>(shift, negative) cols. do {
            cols \<leftarrow> cols;
            cols \<leftarrow> (if negative then push_column shift TRUE cols else Some cols);
            if w < shift then None
            else fold (\<lambda>j cols. do {
                cols \<leftarrow> cols;
                if j < length data then push_bit_column (shift + j) (data ! j XOR of_bool negative) cols else None })
              [0..<w - shift] (Some cols) })
          digits (Some columns))"

definition product_rows :: "L list \<Rightarrow> L list \<Rightarrow> L list list \<Rightarrow> Aig \<Rightarrow> (L list list \<times> Aig) option" where
  "product_rows a b columns g =
     (let w = length columns
      in build_fold (\<lambda>(i, bi) columns g.
           if w < i then None
           else build_fold (\<lambda>j columns g.
               if j < length a then do {
                 (x, g) \<leftarrow> aig_and (a ! j) bi g;
                 columns \<leftarrow> push_bit_column (i + j) x columns;
                 Some (columns, g) }
               else None) [0..<w - i] columns g)
         (enumerate 0 b) columns g)"

text \<open>
  Compressing one column: three bits become a sum at the end of the column's queue and a carry
  for the next column. The queue is what is left from \<open>head\<close> on.
\<close>

function compress :: "bool \<Rightarrow> L list \<Rightarrow> L list \<Rightarrow> Aig \<Rightarrow> ((L list \<times> L list) \<times> Aig) option" where
  "compress lastcol queue carries g =
     (case queue of
        x # y # z # rest \<Rightarrow> do {
          (s, g) \<leftarrow> (if lastcol then do { (xy, g) \<leftarrow> xor_phase x y g; xor_phase xy z g }
                     else do { (xy, g) \<leftarrow> aig_xor x y g; aig_xor xy z g });
          (carries, g) \<leftarrow> (if lastcol then Some (carries, g)
                         else do { (c, g) \<leftarrow> aig_maj x y z g; Some (if c \<noteq> FALSE then carries @ [c] else carries, g) });
          compress lastcol (if s \<noteq> FALSE then rest @ [s] else rest) carries g }
      | _ \<Rightarrow> Some ((queue, carries), g))"
  by pat_completeness auto
termination by (relation "measure (\<lambda>(lastcol, queue, carries, g). length queue)") auto

declare compress.simps [simp del]

definition compress_columns :: "L list list \<Rightarrow> Aig \<Rightarrow> ((L list \<times> L list) \<times> Aig) option" where
  "compress_columns columns g =
     (let w = length columns
      in do {
        ((_, first, second), g) \<leftarrow> build_fold (\<lambda>i (columns, first, second) g. do {
            ((queue, carries), g) \<leftarrow> compress (i + 1 = w) (columns ! i) (if i + 1 < w then columns ! (i + 1) else []) g;
            Some ((if i + 1 < w then columns[i + 1 := carries] else columns,
                   first[i := (case queue of l # _ \<Rightarrow> l | _ \<Rightarrow> first ! i)],
                   second[i := (case queue of _ # l # _ \<Rightarrow> l | _ \<Rightarrow> second ! i)]), g) })
          [0..<w] (columns, replicate w FALSE, replicate w FALSE) g;
        Some ((first, second), g) })"

definition mul_carry_save_unfactored :: "L list \<Rightarrow> L list \<Rightarrow> Aig \<Rightarrow> (L list \<times> Aig) option" where
  "mul_carry_save_unfactored a b g =
     (let w = length a; columns = replicate w [];
          constant = (if is_const b then Some (a, b) else if is_const a then Some (b, a) else None)
      in do {
        (columns, g) \<leftarrow> (case constant of
            Some (data, constant) \<Rightarrow> do { columns \<leftarrow> constant_rows data constant columns; Some (columns, g) }
          | None \<Rightarrow> product_rows a b columns g);
        ((first, second), g) \<leftarrow> compress_columns columns g;
        blast_add first second g })"

definition mul_carry_save :: "L list \<Rightarrow> L list \<Rightarrow> Aig \<Rightarrow> (L list \<times> Aig) option" where
  "mul_carry_save a b g =
     (case binary_factor a b of
        Some (b0, data) \<Rightarrow> build_map (\<lambda>x g. aig_and b0 x g) data g
      | None \<Rightarrow>
          let constant = (if is_const b then Some (a, b) else if is_const a then Some (b, a) else None)
          in case (case constant of
                 None \<Rightarrow> None
               | Some (data, constant) \<Rightarrow>
                   if factorable_data data
                   then (case constant_factors constant of None \<Rightarrow> None | Some f \<Rightarrow> Some (data, f)) else None) of
               Some (data, factor, other, correction) \<Rightarrow>
                 let first = small_bits (length data) factor; second = small_bits (length data) other
                 in do {
                   (intermediate, g) \<leftarrow> mul_carry_save_unfactored data first g;
                   (product, g) \<leftarrow> mul_carry_save_unfactored intermediate second g;
                   correct_product product data correction g }
             | None \<Rightarrow> mul_carry_save_unfactored a b g)"

end
