(* ===== verification/Blast_Shift.thy ===== *)
theory Blast_Shift
  imports Blast_Mul
begin

unbundle bit_operations_syntax

text \<open>
  Division, shifts, rotations, counts, permutations, deposit and extract
  (\<open>bitwright/src/prove/blast.rs\<close>).
\<close>

section \<open>Division\<close>

definition blast_udivrem :: "L list \<Rightarrow> L list \<Rightarrow> Aig \<Rightarrow> ((L list \<times> L list) \<times> Aig) option" where
  "blast_udivrem a b g =
     (let w = length a; bw = b @ [FALSE]
      in do {
        ((r, q), g) \<leftarrow> build_fold (\<lambda>i (r, q) g. do {
            let shifted = a ! i # take w r;
            (lt, g) \<leftarrow> blast_ult shifted bw g;
            (diff, g) \<leftarrow> blast_sub shifted bw g;
            (r, g) \<leftarrow> blast_mux (lt XOR 1) diff shifted g;
            Some ((r, q[i := lt XOR 1]), g) })
          (rev [0..<w]) (replicate (w + 1) FALSE, replicate w FALSE) g;
        Some ((q, take w r), g) })"

definition last_or_false :: "L list \<Rightarrow> L" where
  "last_or_false a = (if a = [] then FALSE else last a)"

definition blast_abs :: "L list \<Rightarrow> Aig \<Rightarrow> ((L list \<times> L) \<times> Aig) option" where
  "blast_abs a g = do {
     let s = last_or_false a;
     (n, g) \<leftarrow> blast_neg a g;
     (r, g) \<leftarrow> blast_mux s n a g;
     Some ((r, s), g) }"

definition blast_sdiv :: "L list \<Rightarrow> L list \<Rightarrow> Aig \<Rightarrow> (L list \<times> Aig) option" where
  "blast_sdiv a b g = do {
     ((ua, sa), g) \<leftarrow> blast_abs a g;
     ((ub, sb), g) \<leftarrow> blast_abs b g;
     ((q, _), g) \<leftarrow> blast_udivrem ua ub g;
     (differ, g) \<leftarrow> aig_xor sa sb g;
     (nq, g) \<leftarrow> blast_neg q g;
     blast_mux differ nq q g }"

definition blast_srem :: "L list \<Rightarrow> L list \<Rightarrow> Aig \<Rightarrow> (L list \<times> Aig) option" where
  "blast_srem a b g = do {
     ((ua, sa), g) \<leftarrow> blast_abs a g;
     ((ub, _), g) \<leftarrow> blast_abs b g;
     ((_, r), g) \<leftarrow> blast_udivrem ua ub g;
     (nr, g) \<leftarrow> blast_neg r g;
     blast_mux sa nr r g }"

section \<open>Shifts and rotations\<close>

definition at_least :: "L list \<Rightarrow> nat \<Rightarrow> Aig \<Rightarrow> (L \<times> Aig) option" where
  "at_least s w g =
     (let k = small_bits (length s) (word_of_nat w)
      in if length s < 64 \<and> drop_bit (length s) (word_of_nat w :: u64) \<noteq> 0 then Some (FALSE, g)
         else do { (r, g) \<leftarrow> blast_ult s k g; Some (r XOR 1, g) })"

text \<open>
  Folding outputs of a shift by a small count: the selectors are the at most four nodes of the
  count, and an output all of whose sources are constants or selectors is tabulated.
\<close>

definition shift_selectors :: "L list \<Rightarrow> L list option" where
  "shift_selectors s =
     fold (\<lambda>l sel. case sel of None \<Rightarrow> None
         | Some sel \<Rightarrow>
             let base = plain l
             in if base \<in> set sel then Some sel
                else if length sel = 4 then None else Some (sel @ [base]))
       (filter (\<lambda>l. l > TRUE) s) (Some [])"

definition selector_value :: "L list \<Rightarrow> L \<Rightarrow> nat \<Rightarrow> bool option" where
  "selector_value sel l assignment =
     (if l \<le> TRUE then Some (l = TRUE)
      else case find (\<lambda>i. sel ! i = plain l) [0..<length sel] of
          None \<Rightarrow> None
        | Some i \<Rightarrow> Some (bit assignment i \<noteq> (l AND 1 \<noteq> 0)))"

fun count_of :: "L list \<Rightarrow> nat \<Rightarrow> nat \<Rightarrow> (nat \<times> L) list \<Rightarrow> nat \<Rightarrow> nat" where
  "count_of sel w assignment [] c = c"
| "count_of sel w assignment ((i, l) # ls) c =
     (if selector_value sel l assignment = Some True
      then if i \<ge> 64 \<or> w \<le> 2 ^ i then w else count_of sel w assignment ls (c OR 2 ^ i)
      else count_of sel w assignment ls c)"

text \<open>The table of an output over the assignments, or nothing when some source is opaque.\<close>

definition output_table :: "L list \<Rightarrow> L list \<Rightarrow> nat list \<Rightarrow> bool \<Rightarrow> L \<Rightarrow> nat \<Rightarrow> bool list option" where
  "output_table sel a counts left fill i =
     those (map (\<lambda>(assignment, c).
         let source = (if left then (if c \<le> i then a ! (i - c) else FALSE)
                       else (if i + c < length a then a ! (i + c) else fill))
         in selector_value sel source assignment)
       (enumerate 0 counts))"

definition fold_output :: "L list \<Rightarrow> nat \<Rightarrow> bool list option \<Rightarrow> L \<Rightarrow> L" where
  "fold_output sel assignments table output =
     (case table of
        None \<Rightarrow> output
      | Some t \<Rightarrow>
          if list_all Not t then FALSE
          else if list_all id t then TRUE
          else case find (\<lambda>k. let positive = map (\<lambda>j. bit j k) [0..<assignments]
                              in t = positive \<or> t = map Not positive) [0..<length sel] of
              None \<Rightarrow> output
            | Some k \<Rightarrow>
                let positive = map (\<lambda>j. bit j k) [0..<assignments]
                in sel ! k XOR of_bool (t \<noteq> positive))"

definition fold_shift_correlations :: "L list \<Rightarrow> L list \<Rightarrow> bool \<Rightarrow> L \<Rightarrow> L list \<Rightarrow> L list" where
  "fold_shift_correlations a s left fill result =
     (case shift_selectors s of
        None \<Rightarrow> result
      | Some sel \<Rightarrow>
          if sel = [] \<or> \<not> list_ex (\<lambda>l. l > TRUE \<and> plain l \<in> set sel) (a @ [fill]) then result
          else let assignments = 2 ^ length sel;
                   counts = map (\<lambda>assignment. count_of sel (length a) assignment (enumerate 0 s) 0) [0..<assignments]
               in map (\<lambda>(i, output). fold_output sel assignments (output_table sel a counts left fill i) output)
                    (enumerate 0 result))"

definition moved_bits :: "L list \<Rightarrow> bool \<Rightarrow> L \<Rightarrow> nat \<Rightarrow> L list" where
  "moved_bits cur left fill amt =
     map (\<lambda>i. if left then (if i \<ge> amt then cur ! (i - amt) else FALSE)
              else if i + amt < length cur then cur ! (i + amt) else fill) [0..<length cur]"

definition blast_shift :: "L list \<Rightarrow> L list \<Rightarrow> bool \<Rightarrow> L \<Rightarrow> Aig \<Rightarrow> (L list \<times> Aig) option" where
  "blast_shift a s left fill g =
     (let w = length a
      in do {
        (cur, g) \<leftarrow> build_fold (\<lambda>k cur g. blast_mux (s ! k) (moved_bits cur left fill (2 ^ k)) cur g)
          (takeWhile (\<lambda>k. 2 ^ k < w) [0..<length s]) a g;
        (over, g) \<leftarrow> at_least s w g;
        (result, g) \<leftarrow> blast_mux over (replicate w (if left then FALSE else fill)) cur g;
        Some (fold_shift_correlations a s left fill result, g) })"

text \<open>The bits of \<open>cur\<close> rotated by a fixed amount below its length.\<close>

definition rotated_bits :: "L list \<Rightarrow> bool \<Rightarrow> nat \<Rightarrow> L list" where
  "rotated_bits cur left amt =
     (let w = length cur
      in map (\<lambda>i. if left then cur ! ((i + w - amt) mod w) else cur ! ((i + amt) mod w)) [0..<w])"

text \<open>\<open>Vec::resize\<close>.\<close>

definition resize :: "nat \<Rightarrow> L \<Rightarrow> L list \<Rightarrow> L list" where
  "resize n fill v = take n v @ replicate (n - length v) fill"

definition is_power_of_two :: "nat \<Rightarrow> bool" where
  "is_power_of_two w \<longleftrightarrow> count_ones (word_of_nat w :: u64) = 1"

definition blast_rotate :: "L list \<Rightarrow> L list \<Rightarrow> bool \<Rightarrow> Aig \<Rightarrow> (L list \<times> Aig) option" where
  "blast_rotate a s left g =
     (let w = length a
      in do {
        (r, g) \<leftarrow> (if is_power_of_two w then
            let k = trailing_zeros (word_of_nat w :: u64)
            in Some (resize (max k 1) FALSE (take k s), g)
          else do {
            ((_, r), g) \<leftarrow> blast_udivrem s (small_bits (length s) (word_of_nat w)) g;
            Some (r, g) });
        build_fold (\<lambda>k cur g.
            let amt = 2 ^ k mod w
            in if amt = 0 then Some (cur, g) else blast_mux (r ! k) (rotated_bits cur left amt) cur g)
          (takeWhile (\<lambda>k. k < 64 \<and> 2 ^ k < 2 * w) [0..<length r]) a g })"

section \<open>Counts and permutations\<close>

function adder_pairs :: "L list list \<Rightarrow> Aig \<Rightarrow> (L list list \<times> Aig) option" where
  "adder_pairs [] g = Some ([], g)"
| "adder_pairs [x] g = Some ([x], g)"
| "adder_pairs (x # y # rest) g = do {
     (s, g) \<leftarrow> blast_add x y g;
     (ss, g) \<leftarrow> adder_pairs rest g;
     Some (s # ss, g) }"
  by pat_completeness auto
termination by (relation "measure (\<lambda>(vals, g). length vals)") auto

text \<open>The levels of the adder tree: one level halves the list, so its length is fuel enough.\<close>

fun adder_tree :: "nat \<Rightarrow> L list list \<Rightarrow> Aig \<Rightarrow> (L list list \<times> Aig) option" where
  "adder_tree 0 vals g = Some (vals, g)"
| "adder_tree (Suc n) vals g =
     (if length vals > 1 then do { (vals, g) \<leftarrow> adder_pairs vals g; adder_tree n vals g }
      else Some (vals, g))"

definition blast_count :: "L list \<Rightarrow> nat \<Rightarrow> Aig \<Rightarrow> (L list \<times> Aig) option" where
  "blast_count bits w g =
     (let vals = map (\<lambda>b. if w > 0 then (replicate w FALSE)[0 := b] else []) bits
      in if vals = [] then Some (replicate w FALSE, g)
         else do {
           (vals, g) \<leftarrow> adder_tree (length vals) vals g;
           Some (if vals = [] then [] else last vals, g) })"

definition blast_popcnt :: "L list \<Rightarrow> Aig \<Rightarrow> (L list \<times> Aig) option" where
  "blast_popcnt a g = blast_count a (length a) g"

definition zero_prefixes :: "L list \<Rightarrow> Aig \<Rightarrow> (L list \<times> Aig) option" where
  "zero_prefixes bs g = do {
     ((flags, _), g) \<leftarrow> build_fold (\<lambda>b (flags, all_zero) g. do {
         (all_zero, g) \<leftarrow> aig_and all_zero (b XOR 1) g;
         Some ((flags @ [all_zero], all_zero), g) })
       bs ([], TRUE) g;
     Some (flags, g) }"

definition blast_clz :: "L list \<Rightarrow> Aig \<Rightarrow> (L list \<times> Aig) option" where
  "blast_clz a g = do { (flags, g) \<leftarrow> zero_prefixes (rev a) g; blast_count flags (length a) g }"

definition blast_ctz :: "L list \<Rightarrow> Aig \<Rightarrow> (L list \<times> Aig) option" where
  "blast_ctz a g = do { (flags, g) \<leftarrow> zero_prefixes a g; blast_count flags (length a) g }"

definition blast_bswap :: "L list \<Rightarrow> L list" where
  "blast_bswap a = (let w = length a in map (\<lambda>k. a ! ((w div 8 - 1 - k div 8) * 8 + k mod 8)) [0..<w])"

definition blast_bitrev :: "L list \<Rightarrow> L list" where "blast_bitrev a = rev a"

definition blast_mulhi :: "L list \<Rightarrow> L list \<Rightarrow> bool \<Rightarrow> Aig \<Rightarrow> (L list \<times> Aig) option" where
  "blast_mulhi a b is_signed g =
     (let w = length a;
          ext = (\<lambda>x. resize (2 * w) (if is_signed then last_or_false x else FALSE) x)
      in do {
        (p, g) \<leftarrow> blast_mul (ext a) (ext b) g;
        Some (drop w p, g) })"

text \<open>The width of the running count of a parallel deposit or extract.\<close>

definition count_width :: "nat \<Rightarrow> nat" where
  "count_width w = (64 - leading_zeros (word_of_nat w :: u64)) + 1"

definition blast_pdep :: "L list \<Rightarrow> L list \<Rightarrow> Aig \<Rightarrow> (L list \<times> Aig) option" where
  "blast_pdep x m g =
     (let w = length x; cw = count_width w
      in do {
        ((out, c), g) \<leftarrow> build_fold (\<lambda>mi (out, c) g. do {
            (pick, g) \<leftarrow> build_fold (\<lambda>(j, xj) pick g. do {
                (at, g) \<leftarrow> blast_eq c (small_bits cw (word_of_nat j)) g;
                (t, g) \<leftarrow> aig_and at xj g;
                aig_or pick t g }) (enumerate 0 x) FALSE g;
            (o1, g) \<leftarrow> aig_and mi pick g;
            (c, g) \<leftarrow> blast_add c ((small_bits cw 0)[0 := mi]) g;
            Some ((out @ [o1], c), g) })
          (take w m) ([], replicate cw FALSE) g;
        Some (out, g) })"

definition blast_pext :: "L list \<Rightarrow> L list \<Rightarrow> Aig \<Rightarrow> (L list \<times> Aig) option" where
  "blast_pext x m g =
     (let w = length x; cw = count_width w
      in do {
        ((out, c), g) \<leftarrow> build_fold (\<lambda>i (out, c) g. do {
            (src, g) \<leftarrow> aig_and (x ! i) (m ! i) g;
            (out, g) \<leftarrow> build_map (\<lambda>(j, o1) g. do {
                (at, g) \<leftarrow> blast_eq c (small_bits cw (word_of_nat j)) g;
                (t, g) \<leftarrow> aig_and at src g;
                aig_or o1 t g }) (enumerate 0 out) g;
            (c, g) \<leftarrow> blast_add c ((small_bits cw 0)[0 := m ! i]) g;
            Some ((out, c), g) })
          [0..<w] (replicate w FALSE, replicate cw FALSE) g;
        Some (out, g) })"

end
