(* ===== verification/Blast_Word.thy ===== *)
theory Blast_Word
  imports Blast Facts_Known
begin

unbundle bit_operations_syntax

declare One_nat_def [simp del]

text \<open>
  Words in the graph: a list of literals reads as a number under an assignment of the inputs.
  The iteration rules, and the bitwise operators, selection, addition and comparison.
\<close>

section \<open>Numbers read from literals\<close>

definition num :: "(nat \<Rightarrow> bool) \<Rightarrow> Aig \<Rightarrow> nat \<Rightarrow> L list \<Rightarrow> nat \<Rightarrow> bool" where
  "num \<rho> g w ls n \<longleftrightarrow> length ls = w \<and> n < 2 ^ w \<and> (\<forall>i<w. lit \<rho> g (ls ! i) (bit n i))"

lemma numI: "length ls = w \<Longrightarrow> n < 2 ^ w \<Longrightarrow> (\<And>i. i < w \<Longrightarrow> lit \<rho> g (ls ! i) (bit n i)) \<Longrightarrow> num \<rho> g w ls n"
  by (simp add: num_def)

lemma numD:
  assumes "num \<rho> g w ls n"
  shows "length ls = w" "n < 2 ^ w" "i < w \<Longrightarrow> lit \<rho> g (ls ! i) (bit n i)"
  using assms by (auto simp: num_def)

lemma num_mono: "num \<rho> g w ls n \<Longrightarrow> aig_le g g' \<Longrightarrow> num \<rho> g' w ls n"
  by (auto simp: num_def intro: lit_mono)

lemma num_cong: "num \<rho> g w ls n \<Longrightarrow> n = m \<Longrightarrow> num \<rho> g w ls m" by simp

text \<open>A word from a bit predicate.\<close>

lemma num_of_bits: "length ls = w \<Longrightarrow> (\<And>i. i < w \<Longrightarrow> lit \<rho> g (ls ! i) (f i)) \<Longrightarrow> num \<rho> g w ls (of_bits w f)"
  by (simp add: num_def)

lemma of_bits_eq: "n < 2 ^ w \<Longrightarrow> (\<And>i. i < w \<Longrightarrow> f i = bit n i) \<Longrightarrow> of_bits w f = n"
  by (rule bit_eqI) (auto dest: bit_nat_less)

lemma num_bits_mod: "length ls = w \<Longrightarrow> (\<And>i. i < w \<Longrightarrow> lit \<rho> g (ls ! i) (bit n i)) \<Longrightarrow> num \<rho> g w ls (n mod 2 ^ w)"
  by (simp add: num_def flip: take_bit_eq_mod) (simp add: bit_take_bit_iff)

lemma num_append:
  assumes "num \<rho> g v ls n" "num \<rho> g w ms m"
  shows "num \<rho> g (v + w) (ls @ ms) (m * 2 ^ v + n)"
proof (rule numI)
  have "m * 2 ^ v + n < (m + 1) * 2 ^ v" using numD(2) [OF assms(1)] by (simp add: distrib_right)
  also have "\<dots> \<le> 2 ^ w * 2 ^ v" using numD(2) [OF assms(2)] by (intro mult_right_mono) simp_all
  finally show "m * 2 ^ v + n < 2 ^ (v + w)" by (simp add: power_add mult.commute)
  show "lit \<rho> g ((ls @ ms) ! i) (bit (m * 2 ^ v + n) i)" if "i < v + w" for i
    using that numD(3) [OF assms(1), of i] numD(3) [OF assms(2), of "i - v"]
    unfolding bit_sem_concat [OF numD(2) [OF assms(1)], of m i] by (simp add: nth_append numD(1) [OF assms(1)])
qed (simp add: numD(1) [OF assms(1)] numD(1) [OF assms(2)])

lemma num_take:
  assumes "num \<rho> g w ls n" "v \<le> w"
  shows "num \<rho> g v (take v ls) (n mod 2 ^ v)"
  using assms by (intro num_bits_mod) (auto simp: num_def)

lemma num_drop:
  assumes "num \<rho> g w ls n" "v \<le> w"
  shows "num \<rho> g (w - v) (drop v ls) (n div 2 ^ v)"
proof (rule numI)
  have "n < 2 ^ (w - v) * 2 ^ v" using numD(2) [OF assms(1)] assms(2) by (simp flip: power_add)
  then show "n div 2 ^ v < 2 ^ (w - v)" by (simp add: less_mult_imp_div_less)
qed (use assms in \<open>auto simp: num_def bit_sem_lshr add.commute\<close>)

lemma num_Nil [simp]: "num \<rho> g 0 ls n \<longleftrightarrow> ls = [] \<and> n = 0"
  by (auto simp: num_def)

lemma num_Cons:
  assumes "lit \<rho> g l b" "num \<rho> g w ls n"
  shows "num \<rho> g (Suc w) (l # ls) (of_bool b + 2 * n)"
proof (rule numI)
  show "of_bool b + 2 * n < 2 ^ Suc w" using numD(2) [OF assms(2)] by auto
  show "lit \<rho> g ((l # ls) ! i) (bit (of_bool b + 2 * n) i)" if "i < Suc w" for i
  proof (cases i)
    case 0
    then show ?thesis using assms(1) by (simp add: bit_0)
  next
    case (Suc j)
    have "bit (of_bool b + 2 * n) (Suc j) = bit n j" by (cases b) (simp_all add: bit_Suc)
    then show ?thesis using that Suc numD(3) [OF assms(2)] by simp
  qed
qed (simp add: numD(1) [OF assms(2)])

text \<open>A word of literals that are all constants.\<close>

lemma num_const:
  assumes "aig_inv g" "n < 2 ^ w" "length ls = w" "\<And>i. i < w \<Longrightarrow> ls ! i = (if bit n i then TRUE else FALSE)"
  shows "num \<rho> g w ls n"
  using assms by (intro numI) (auto simp: lit_const)

lemma num_zero:
  assumes "aig_inv g"
  shows "num \<rho> g w (replicate w FALSE) 0"
  by (rule num_const [OF assms]) simp_all

lemma num_small_bits:
  assumes "aig_inv g"
  shows "num \<rho> g w (small_bits w v) (unat v mod 2 ^ w)"
  by (rule num_bits_mod)
    (auto simp: small_bits_def lit_const [OF assms] bit_unat dest: bit_imp_le_length)

lemma num_konst:
  assumes "aig_inv g" "bv_ok v"
  shows "num \<rho> g (bv_width v) (konst v) (bv_val v)"
proof (rule num_const [OF assms(1)])
  show "konst v ! i = (if bit (bv_val v) i then TRUE else FALSE)" if "i < bv_width v" for i
    using that bv_inspect(1) [OF assms(2), of i] by (simp add: konst_def)
qed (use assms(2) in \<open>simp_all add: konst_def bv_okD\<close>)

section \<open>Iteration rules\<close>

lemma build_map_gives:
  assumes "\<And>i g'. i < length xs \<Longrightarrow> aig_le g g' \<Longrightarrow> gives g' (f (xs ! i) g') (\<lambda>g'' y. lit \<rho> g'' y (b i))"
  shows "gives g (build_map f xs g) (\<lambda>g' ys. length ys = length xs \<and> (\<forall>i<length xs. lit \<rho> g' (ys ! i) (b i)))"
  using assms
proof (induction xs arbitrary: g b)
  case Nil
  then show ?case by (simp add: gives_return)
next
  case (Cons x xs)
  show ?case unfolding build_map.simps
  proof (rule gives_bind, rule Cons.prems [of 0 g, simplified], goal_cases)
    case (1 y g1)
    have "gives g1 (build_map f xs g1) (\<lambda>g' ys. length ys = length xs \<and> (\<forall>i<length xs. lit \<rho> g' (ys ! i) (b (Suc i))))"
    proof (rule Cons.IH)
      fix i g'
      assume "i < length xs" "aig_le g1 g'"
      then show "gives g' (f (xs ! i) g') (\<lambda>g'' y. lit \<rho> g'' y (b (Suc i)))"
        using Cons.prems [of "Suc i" g'] aig_le_trans [OF 1(1)] by simp
    qed
    then show ?case unfolding prod.case
    proof (rule gives_bind, goal_cases)
      case (1 ys g2)
      have "lit \<rho> g2 y (b 0)" using \<open>lit \<rho> g1 y (b 0)\<close> lit_mono 1(1) by blast
      then show ?case using 1(2) by (auto intro!: gives_return simp: nth_Cons split: nat.split)
    qed
  qed
qed

lemma build_map_num:
  assumes "length xs = w" "n < 2 ^ w"
    "\<And>i g'. i < w \<Longrightarrow> aig_le g g' \<Longrightarrow> gives g' (f (xs ! i) g') (\<lambda>g'' y. lit \<rho> g'' y (bit n i))"
  shows "gives g (build_map f xs g) (\<lambda>g' ys. num \<rho> g' w ys n)"
  using assms by (intro gives_weaken [OF build_map_gives [where b = "bit n" and \<rho> = \<rho>]]) (auto simp: num_def)

lemma build_fold_gives:
  assumes "I g 0 acc"
    "\<And>i acc g'. i < length xs \<Longrightarrow> aig_le g g' \<Longrightarrow> I g' i acc \<Longrightarrow> gives g' (f (xs ! i) acc g') (\<lambda>g'' acc. I g'' (Suc i) acc)"
  shows "gives g (build_fold f xs acc g) (\<lambda>g' acc. I g' (length xs) acc)"
  using assms
proof (induction xs arbitrary: g acc I)
  case Nil
  then show ?case by (simp add: gives_return)
next
  case (Cons x xs)
  have "gives g (f x acc g) (\<lambda>g'' acc. I g'' (Suc 0) acc)" using Cons.prems(2) [of 0 g acc] Cons.prems(1) by simp
  then show ?case unfolding build_fold.simps
  proof (rule gives_bind, goal_cases)
    case (1 acc1 g1)
    have "gives g1 (build_fold f xs acc1 g1) (\<lambda>g' acc. I g' (Suc (length xs)) acc)"
    proof (rule Cons.IH [where I = "\<lambda>g i acc. I g (Suc i) acc"])
      show "I g1 (Suc 0) acc1" by (rule 1(2))
      show "gives g' (f (xs ! i) acc g') (\<lambda>g'' acc. I g'' (Suc (Suc i)) acc)"
        if "i < length xs" "aig_le g1 g'" "I g' (Suc i) acc" for i acc g'
        using Cons.prems(2) [of "Suc i" g' acc] that aig_le_trans [OF 1(1) that(2)] by simp
    qed
    then show ?case by simp
  qed
qed

section \<open>Bitwise operators and selection\<close>

lemma num_not: "num \<rho> g w a n \<Longrightarrow> num \<rho> g w (blast_not a) (2 ^ w - 1 - n)"
proof (rule numI)
  assume a: "num \<rho> g w a n"
  have "2 ^ w - 1 - n = 2 ^ w - Suc n" by (simp add: One_nat_def)
  then show "lit \<rho> g (blast_not a ! i) (bit (2 ^ w - 1 - n) i)" if "i < w" for i
    using that numD(1,3) [OF a] bit_sem_not [OF numD(2) [OF a], of i] by (simp add: blast_not_def)
qed (simp_all add: blast_not_def num_def less_imp_diff_less)

text \<open>Operators on two words, bit by bit.\<close>

lemma build_zip_num:
  assumes "num \<rho> g w a n" "num \<rho> g w b m" "r < 2 ^ w"
    "\<And>i g' x y. i < w \<Longrightarrow> aig_le g g' \<Longrightarrow> lit \<rho> g' x (bit n i) \<Longrightarrow> lit \<rho> g' y (bit m i) \<Longrightarrow>
      gives g' (f x y g') (\<lambda>g'' z. lit \<rho> g'' z (bit r i))"
  shows "gives g (build_map (\<lambda>(x, y) g. f x y g) (zip a b) g) (\<lambda>g' ys. num \<rho> g' w ys r)"
proof (rule build_map_num [OF _ assms(3)])
  show l: "length (zip a b) = w" using assms(1,2) by (simp add: num_def)
  show "gives g' ((case zip a b ! i of (x, y) \<Rightarrow> f x y) g') (\<lambda>g'' z. lit \<rho> g'' z (bit r i))" if "i < w" "aig_le g g'" for i g'
    using assms(4) [OF that numD(3) [OF num_mono [OF assms(1) that(2)] that(1)] numD(3) [OF num_mono [OF assms(2) that(2)] that(1)]]
      that(1) numD(1) [OF assms(1)] numD(1) [OF assms(2)] by simp
qed

lemma build_enum_num:
  assumes "num \<rho> g w a n" "num \<rho> g w b m" "r < 2 ^ w"
    "\<And>i g' x y. i < w \<Longrightarrow> aig_le g g' \<Longrightarrow> lit \<rho> g' x (bit n i) \<Longrightarrow> lit \<rho> g' y (bit m i) \<Longrightarrow>
      gives g' (f i x y g') (\<lambda>g'' z. lit \<rho> g'' z (bit r i))"
  shows "gives g (build_map (\<lambda>(i, x, y) g. f i x y g) (enumerate 0 (zip a b)) g) (\<lambda>g' ys. num \<rho> g' w ys r)"
proof (rule build_map_num [OF _ assms(3)])
  show l: "length (enumerate 0 (zip a b)) = w" using assms(1,2) by (simp add: num_def)
  show "gives g' ((case enumerate 0 (zip a b) ! i of (i, x, y) \<Rightarrow> f i x y) g') (\<lambda>g'' z. lit \<rho> g'' z (bit r i))"
    if "i < w" "aig_le g g'" for i g'
    using assms(4) [OF that numD(3) [OF num_mono [OF assms(1) that(2)] that(1)] numD(3) [OF num_mono [OF assms(2) that(2)] that(1)]]
      that(1) numD(1) [OF assms(1)] numD(1) [OF assms(2)] by (simp add: nth_enumerate_eq)
qed

lemma bitop_less:
  assumes "n < 2 ^ w" "m < 2 ^ w"
  shows "n AND m < (2::nat) ^ w" "n OR m < (2::nat) ^ w" "n XOR m < (2::nat) ^ w"
  using assms by (auto intro!: less_power_bits simp: bit_simps dest: bit_nat_less)

lemma blast_and_gives:
  assumes "num \<rho> g w a n" "num \<rho> g w b m"
  shows "gives g (blast_and a b g) (\<lambda>g' r. num \<rho> g' w r (n AND m))"
  unfolding blast_and_def
  by (rule build_zip_num [OF assms]) (auto intro: aig_and_gives simp: bit_and_iff bitop_less assms [THEN numD(2)])

lemma blast_or_gives:
  assumes "num \<rho> g w a n" "num \<rho> g w b m"
  shows "gives g (blast_or a b g) (\<lambda>g' r. num \<rho> g' w r (n OR m))"
  unfolding blast_or_def
  by (rule build_zip_num [OF assms]) (auto intro: aig_or_gives simp: bit_or_iff bitop_less assms [THEN numD(2)])

lemma xor_bits_gives:
  assumes "num \<rho> g w a n" "num \<rho> g w b m"
  shows "gives g (xor_bits a b cancel g) (\<lambda>g' r. num \<rho> g' w r (n XOR m))"
  unfolding xor_bits_def
proof (rule build_enum_num [OF assms], goal_cases)
  case (2 i g' x y)
  show ?case
  proof (cases "i < 2")
    case True
    show ?thesis unfolding bit_xor_iff if_P [OF True] by (rule xor_simplified_gives [OF 2(3,4)])
  next
    case False
    show ?thesis
    proof (cases cancel)
      case True
      show ?thesis unfolding bit_xor_iff if_not_P [OF False] if_P [OF True] by (rule xor_cancel_input_gives [OF 2(3,4)])
    next
      case nc: False
      show ?thesis unfolding bit_xor_iff if_not_P [OF False] if_not_P [OF nc] by (rule aig_xor_gives [OF 2(3,4)])
    qed
  qed
qed (rule bitop_less(3) [OF numD(2) [OF assms(1)] numD(2) [OF assms(2)]])

lemma blast_mux_gives:
  assumes "lit \<rho> g c p" "num \<rho> g w t n" "num \<rho> g w e m"
  shows "gives g (blast_mux c t e g) (\<lambda>g' r. num \<rho> g' w r (if p then n else m))"
  unfolding blast_mux_def
proof (rule build_zip_num [OF assms(2,3)], goal_cases)
  case (2 i g' x y)
  show ?case
    by (rule gives_weaken [OF aig_mux_gives [OF lit_mono [OF assms(1) 2(2)] 2(3,4)]]) (auto elim: lit_cong)
qed (use assms(2,3) [THEN numD(2)] in auto)

section \<open>Addition\<close>

text \<open>The carry into column \<open>i\<close> of \<open>n + m + c\<close>.\<close>

definition carry_into :: "nat \<Rightarrow> nat \<Rightarrow> bool \<Rightarrow> nat \<Rightarrow> bool" where
  "carry_into n m c i \<longleftrightarrow> 2 ^ i \<le> n mod 2 ^ i + m mod 2 ^ i + of_bool c"

lemma mod_Suc_power: "(n::nat) mod 2 ^ Suc i = n mod 2 ^ i + 2 ^ i * of_bool (bit n i)"
  using take_bit_Suc_from_most [of i n] by (simp add: take_bit_eq_mod)

lemma carry_0: "carry_into n m c 0 = c" by (simp add: carry_into_def)

lemma carry_Suc:
  "carry_into n m c (Suc i) = ((bit n i \<and> bit m i) \<or> (bit n i \<and> carry_into n m c i) \<or> (bit m i \<and> carry_into n m c i))"
proof -
  have aux: "2 * p \<le> a + p * of_bool x + (b + p * of_bool y) + of_bool c \<longleftrightarrow>
      (x \<and> y) \<or> (x \<and> p \<le> a + b + of_bool c) \<or> (y \<and> p \<le> a + b + of_bool c)"
    if "a < p" "b < p" for a b p :: nat and x y
    using that by (cases x; cases y; cases c) auto
  have "n mod 2 ^ i < 2 ^ i" "m mod 2 ^ i < 2 ^ i" by simp_all
  from aux [OF this, of "bit n i" "bit m i"] show ?thesis
    unfolding carry_into_def mod_Suc_power unfolding power_Suc .
qed

lemma bit_sum_carry: "bit (n + m + of_bool c) i = ((bit n i \<noteq> bit m i) \<noteq> carry_into n m c i)"
proof -
  define s where "s = n mod 2 ^ i + m mod 2 ^ i + of_bool c"
  have "s < 2 * 2 ^ i"
  proof -
    have "n mod 2 ^ i < 2 ^ i" "m mod 2 ^ i < 2 ^ i" "of_bool c \<le> (1::nat)" by simp_all
    then show ?thesis unfolding s_def by linarith
  qed
  then have q: "s div 2 ^ i = of_bool (2 ^ i \<le> s)"
    by (cases "2 ^ i \<le> s") (simp_all add: div_nat_eqI)
  have "n + m + of_bool c = s + 2 ^ i * (n div 2 ^ i + m div 2 ^ i)"
    unfolding s_def by (simp add: distrib_left)
  then have "(n + m + of_bool c) div 2 ^ i = s div 2 ^ i + (n div 2 ^ i + m div 2 ^ i)"
    by simp
  then show ?thesis unfolding carry_into_def s_def [symmetric] by (auto simp: bit_iff_odd q)
qed

lemma carry_top: "n < 2 ^ w \<Longrightarrow> m < 2 ^ w \<Longrightarrow> carry_into n m c w \<longleftrightarrow> 2 ^ w \<le> n + m + of_bool c"
  by (simp add: carry_into_def)

text \<open>The state of an adder after \<open>i\<close> columns.\<close>

definition adder_state :: "(nat \<Rightarrow> bool) \<Rightarrow> nat \<Rightarrow> nat \<Rightarrow> bool \<Rightarrow> nat \<Rightarrow> Aig \<Rightarrow> nat \<Rightarrow> L list \<times> L \<Rightarrow> bool" where
  "adder_state \<rho> n m c lim g i s \<longleftrightarrow> length (fst s) = i \<and>
     (\<forall>j<i. lit \<rho> g (fst s ! j) (bit (n + m + of_bool c) j)) \<and> (i < lim \<longrightarrow> lit \<rho> g (snd s) (carry_into n m c i))"

lemma adder_state_snoc:
  assumes "adder_state \<rho> n m c lim g i (out, k)" "aig_le g g'" "lit \<rho> g' s (bit (n + m + of_bool c) i)"
    "Suc i < lim \<Longrightarrow> lit \<rho> g' k' (carry_into n m c (Suc i))"
  shows "adder_state \<rho> n m c lim g' (Suc i) (out @ [s], k')"
proof -
  have "lit \<rho> g' (out ! j) (bit (n + m + of_bool c) j)" if "j < i" for j
    using assms(1) that by (auto simp: adder_state_def intro: lit_mono [OF _ assms(2)])
  then show ?thesis using assms(1,3,4) by (auto simp: adder_state_def nth_append less_Suc_eq)
qed

lemma add_carry_gives:
  assumes "num \<rho> g w a n" "num \<rho> g w b m" "lit \<rho> g cin c"
  shows "gives g (add_carry a b cin g)
    (\<lambda>g' (out, k). num \<rho> g' w out ((n + m + of_bool c) mod 2 ^ w) \<and> lit \<rho> g' k (2 ^ w \<le> n + m + of_bool c))"
proof -
  have l: "length (zip a b) = w" using assms by (simp add: num_def)
  have "gives g (add_carry a b cin g) (\<lambda>g' s. adder_state \<rho> n m c (Suc w) g' (length (zip a b)) s)"
    unfolding add_carry_def
  proof (rule build_fold_gives, goal_cases)
    case 1
    show ?case using assms(3) by (simp add: adder_state_def carry_0)
  next
    case (2 i acc g1)
    obtain out k where acc: "acc = (out, k)" by (cases acc)
    obtain x y where xy: "zip a b ! i = (x, y)" by (cases "zip a b ! i")
    have i: "i < w" using 2(1) unfolding l .
    have x: "lit \<rho> g1 x (bit n i)" "lit \<rho> g1 y (bit m i)"
      using xy numD(3) [OF num_mono [OF assms(1) 2(2)] i] numD(3) [OF num_mono [OF assms(2) 2(2)] i]
        i numD(1) [OF assms(1)] numD(1) [OF assms(2)] by auto
    have k: "lit \<rho> g1 k (carry_into n m c i)" using 2(3) i by (simp add: acc adder_state_def)
    show ?case unfolding acc xy prod.case
    proof (rule gives_bind, rule aig_xor_gives [OF x], goal_cases)
      case (1 s g2)
      note x2 = x [THEN lit_mono, OF 1(1)] and k2 = lit_mono [OF k 1(1)]
      show ?case unfolding prod.case
      proof (rule gives_bind, rule aig_xor_gives [OF 1(2) k2], goal_cases)
        case (1 s' g3)
        note x3 = x2 [THEN lit_mono, OF 1(1)] and k3 = lit_mono [OF k2 1(1)]
        show ?case unfolding prod.case
        proof (rule gives_bind, rule aig_maj_gives [OF x3 k3], goal_cases)
          case (1 k' g4)
          have le: "aig_le g1 g4" using \<open>aig_le g1 g2\<close> \<open>aig_le g2 g3\<close> 1(1) aig_le_trans by blast
          show ?case unfolding prod.case
          proof (rule gives_return, rule adder_state_snoc [OF 2(3) [unfolded acc] le])
            show "lit \<rho> g4 s' (bit (n + m + of_bool c) i)"
              using \<open>lit \<rho> g3 s' _\<close> [THEN lit_mono, OF 1(1)] by (simp add: bit_sum_carry)
            show "lit \<rho> g4 k' (carry_into n m c (Suc i))" using 1(2) by (simp add: carry_Suc)
          qed
        qed
      qed
    qed
  qed
  then show ?thesis
  proof (rule gives_weaken, goal_cases)
    case (1 g' s)
    then show ?case
      using num_bits_mod [of "fst s" w \<rho> g' "n + m + of_bool c"] l carry_top [OF assms(1,2) [THEN numD(2)], of c]
      by (auto simp: adder_state_def split_def)
  qed
qed

lemma add_wrapping_gives:
  assumes "num \<rho> g w a n" "num \<rho> g w b m" "lit \<rho> g cin c"
  shows "gives g (add_wrapping a b cin g) (\<lambda>g' r. num \<rho> g' w r ((n + m + of_bool c) mod 2 ^ w))"
proof -
  have l: "length (enumerate 0 (zip a b)) = w" "length a = w" using assms by (simp_all add: num_def)
  show ?thesis unfolding add_wrapping_def
  proof (rule gives_bind, rule build_fold_gives [where I = "adder_state \<rho> n m c w"], goal_cases)
    case 1
    show ?case using assms(3) by (simp add: adder_state_def carry_0)
  next
    case (2 i acc g1)
    obtain out k where acc: "acc = (out, k)" by (cases acc)
    obtain x y where xy: "enumerate 0 (zip a b) ! i = (i, x, y)" using 2(1) by (simp add: nth_enumerate_eq)
    have i: "i < w" using 2(1) unfolding l(1) .
    have x: "lit \<rho> g1 x (bit n i)" "lit \<rho> g1 y (bit m i)"
      using xy numD(3) [OF num_mono [OF assms(1) 2(2)] i] numD(3) [OF num_mono [OF assms(2) 2(2)] i]
        i numD(1) [OF assms(1)] numD(1) [OF assms(2)] by (auto simp: nth_enumerate_eq)
    have k: "lit \<rho> g1 k (carry_into n m c i)" using 2(3) i by (simp add: acc adder_state_def)
    show ?case
    proof (cases "i + 1 = length a")
      case True
      have "gives g1 (do { (s, g) \<leftarrow> xor_phase x y g1; (o1, g) \<leftarrow> xor_phase s k g; Some ((out @ [o1], k), g) })
          (\<lambda>g' s. adder_state \<rho> n m c w g' (Suc i) s)"
      proof (rule gives_bind, rule xor_phase_gives [OF x], goal_cases)
        case (1 s g2)
        show ?case unfolding prod.case
        proof (rule gives_bind, rule xor_phase_gives [OF 1(2) lit_mono [OF k 1(1)]], goal_cases)
          case (1 s' g3)
          show ?case unfolding prod.case
          proof (rule gives_return, rule adder_state_snoc [OF 2(3) [unfolded acc]])
            show "aig_le g1 g3" using \<open>aig_le g1 g2\<close> 1(1) aig_le_trans by blast
            show "lit \<rho> g3 s' (bit (n + m + of_bool c) i)" using 1(2) by (simp add: bit_sum_carry)
          qed (use True l in simp)
        qed
      qed
      then show ?thesis using True xy acc by simp
    next
      case False
      have "gives g1 (do { (s, g) \<leftarrow> aig_xor x y g1; (o1, g) \<leftarrow> aig_xor s k g; (k', g) \<leftarrow> aig_maj x y k g;
            Some ((out @ [o1], k'), g) })
          (\<lambda>g' s. adder_state \<rho> n m c w g' (Suc i) s)"
      proof (rule gives_bind, rule aig_xor_gives [OF x], goal_cases)
        case (1 s g2)
        note x2 = x [THEN lit_mono, OF 1(1)] and k2 = lit_mono [OF k 1(1)]
        show ?case unfolding prod.case
        proof (rule gives_bind, rule aig_xor_gives [OF 1(2) k2], goal_cases)
          case (1 s' g3)
          note x3 = x2 [THEN lit_mono, OF 1(1)] and k3 = lit_mono [OF k2 1(1)]
          show ?case unfolding prod.case
          proof (rule gives_bind, rule aig_maj_gives [OF x3 k3], goal_cases)
            case (1 k' g4)
            have le: "aig_le g1 g4" using \<open>aig_le g1 g2\<close> \<open>aig_le g2 g3\<close> 1(1) aig_le_trans by blast
            show ?case unfolding prod.case
            proof (rule gives_return, rule adder_state_snoc [OF 2(3) [unfolded acc] le])
              show "lit \<rho> g4 s' (bit (n + m + of_bool c) i)"
                using \<open>lit \<rho> g3 s' _\<close> [THEN lit_mono, OF 1(1)] by (simp add: bit_sum_carry)
              show "lit \<rho> g4 k' (carry_into n m c (Suc i))" using 1(2) by (simp add: carry_Suc)
            qed
          qed
        qed
      qed
      then show ?thesis using False xy acc by simp
    qed
  next
    case (3 s g1)
    then have "num \<rho> g1 w (fst s) ((n + m + of_bool c) mod 2 ^ w)"
      using l by (intro num_bits_mod) (auto simp: adder_state_def)
    then show ?case by (auto intro!: gives_return simp: split_def)
  qed
qed


lemma blast_add_gives:
  assumes "num \<rho> g w a n" "num \<rho> g w b m"
  shows "gives g (blast_add a b g) (\<lambda>g' r. num \<rho> g' w r ((n + m) mod 2 ^ w))"
proof (rule gives_inv)
  assume "aig_inv g"
  then have "lit \<rho> g FALSE False" by (simp add: lit_const)
  from add_wrapping_gives [OF assms this] show ?thesis by (simp add: blast_add_def)
qed

lemma complement_plus:
  assumes "m < (2::nat) ^ w"
  shows "n + (2 ^ w - 1 - m) + of_bool True = n + (2 ^ w - m)"
  using assms by simp

lemma blast_sub_gives:
  assumes "num \<rho> g w a n" "num \<rho> g w b m"
  shows "gives g (blast_sub a b g) (\<lambda>g' r. num \<rho> g' w r ((n + (2 ^ w - m)) mod 2 ^ w))"
proof (rule gives_inv)
  assume "aig_inv g"
  then have "lit \<rho> g TRUE True" by (simp add: lit_const)
  from add_wrapping_gives [OF assms(1) num_not [OF assms(2)] this] show ?thesis
    unfolding complement_plus [OF numD(2) [OF assms(2)]] by (simp add: blast_sub_def)
qed

lemma blast_neg_gives:
  assumes "num \<rho> g w a n"
  shows "gives g (blast_neg a g) (\<lambda>g' r. num \<rho> g' w r ((2 ^ w - n) mod 2 ^ w))"
proof (rule gives_inv)
  assume "aig_inv g"
  from blast_sub_gives [OF num_zero [OF this] assms] show ?thesis
    by (simp add: blast_neg_def numD(1) [OF assms])
qed

section \<open>Comparison\<close>

lemma blast_ult_gives:
  assumes "num \<rho> g w a n" "num \<rho> g w b m"
  shows "gives g (blast_ult a b g) (\<lambda>g' r. lit \<rho> g' r (n < m))"
proof (rule gives_inv)
  assume "aig_inv g"
  then have t: "lit \<rho> g TRUE True" by (simp add: lit_const)
  have "2 ^ w \<le> n + (2 ^ w - m) \<longleftrightarrow> \<not> n < m" using numD(2) [OF assms(2)] by auto
  then show ?thesis
    unfolding blast_ult_def
    by (intro gives_bind [OF add_carry_gives [OF assms(1) num_not [OF assms(2)] t,
            unfolded complement_plus [OF numD(2) [OF assms(2)]]]])
      (auto intro!: gives_return)
qed

lemma blast_ule_gives:
  assumes "num \<rho> g w a n" "num \<rho> g w b m"
  shows "gives g (blast_ule a b g) (\<lambda>g' r. lit \<rho> g' r (n \<le> m))"
  unfolding blast_ule_def
  by (rule gives_bind [OF blast_ult_gives [OF assms(2,1)]]) (auto intro!: gives_return simp flip: not_less)

lemma num_flip_last:
  assumes "num \<rho> g w a n" "0 < w"
  shows "num \<rho> g w (flip_last a) (n XOR 2 ^ (w - 1))" "flip_last a \<noteq> []"
proof -
  have ne: "a \<noteq> []" "length a = w" using assms by (auto simp: num_def)
  then show "flip_last a \<noteq> []" by (simp add: flip_last_def)
  have "(2::nat) ^ (w - 1) < 2 ^ w" using assms(2) by simp
  show "num \<rho> g w (flip_last a) (n XOR 2 ^ (w - 1))"
  proof (rule numI)
    show "n XOR 2 ^ (w - 1) < 2 ^ w" by (rule bitop_less(3) [OF numD(2) [OF assms(1)]]) fact
    show "lit \<rho> g (flip_last a ! i) (bit (n XOR 2 ^ (w - 1)) i)" if "i < w" for i
    proof (cases "i = w - 1")
      case True
      then show ?thesis using ne assms(2) numD(3) [OF assms(1), of i]
        by (simp add: flip_last_def nth_append bit_xor_iff bit_exp_iff last_conv_nth)
    next
      case False
      then have "i < w - 1" using that by simp
      then show ?thesis using that ne numD(3) [OF assms(1) that]
        by (simp add: flip_last_def nth_append bit_xor_iff bit_exp_iff nth_butlast)
    qed
  qed (use ne assms(2) in \<open>simp add: flip_last_def\<close>)
qed

lemma blast_slt_gives:
  assumes "num \<rho> g w a n" "num \<rho> g w b m" "0 < w"
  shows "gives g (blast_slt a b g) (\<lambda>g' r. lit \<rho> g' r (sem_signed w n < sem_signed w m))"
proof -
  have "a \<noteq> []" "b \<noteq> []" using assms by (auto simp: num_def)
  then have e: "blast_slt a b g = blast_ult (flip_last a) (flip_last b) g" by (simp add: blast_slt_def)
  have "sem_signed w n < sem_signed w m \<longleftrightarrow> n XOR 2 ^ (w - 1) < m XOR 2 ^ (w - 1)"
    using signed_flip [OF assms(3) numD(2) [OF assms(1)]] signed_flip [OF assms(3) numD(2) [OF assms(2)]] by simp
  then show ?thesis
    unfolding e using blast_ult_gives [OF num_flip_last(1) [OF assms(1,3)] num_flip_last(1) [OF assms(2,3)]] by simp
qed

lemma blast_sle_gives:
  assumes "num \<rho> g w a n" "num \<rho> g w b m" "0 < w"
  shows "gives g (blast_sle a b g) (\<lambda>g' r. lit \<rho> g' r (sem_signed w n \<le> sem_signed w m))"
  unfolding blast_sle_def
  by (rule gives_bind [OF blast_slt_gives [OF assms(2,1,3)]]) (auto intro!: gives_return simp flip: not_less)

lemma eq_bits_gives:
  assumes "num \<rho> g w a n" "num \<rho> g w b m"
  shows "gives g (eq_bits a b factor g) (\<lambda>g' r. lit \<rho> g' r (n = m))"
proof -
  define f where "f = (\<lambda>x y g. if factor \<and> y = TRUE then factor_positive_or x 2 g
         else if factor \<and> x = TRUE then factor_positive_or y 2 g
         else aig_xnor x y g)"
  define r where "r = of_bits w (\<lambda>i. bit n i = bit m i)"
  have eq: "n = m \<longleftrightarrow> (\<forall>i<w. bit n i = bit m i)"
    using numD(2) [OF assms(1)] numD(2) [OF assms(2)] by (auto simp: bit_eq_iff dest: bit_nat_less)
  have "gives g (build_map (\<lambda>(x, y) g. f x y g) (zip a b) g) (\<lambda>g' ys. num \<rho> g' w ys r)"
  proof (rule build_zip_num [OF assms], goal_cases)
    case (2 i g' x y)
    show ?case
    proof (rule gives_inv)
      assume inv: "aig_inv g'"
      have "y = TRUE \<Longrightarrow> bit m i" "x = TRUE \<Longrightarrow> bit n i" using 2(3,4) lit_const(2) [OF inv] by auto
      then have rb: "bit r i = (if y = TRUE then bit n i else if x = TRUE then bit m i else bit n i = bit m i)"
        "bit r i = (bit n i = bit m i)"
        using 2(1) by (auto simp: r_def)
      consider "factor" "y = TRUE" | "factor" "y \<noteq> TRUE" "x = TRUE" | "\<not> factor \<or> (y \<noteq> TRUE \<and> x \<noteq> TRUE)" by blast
      then show "gives g' (f x y g') (\<lambda>g'' z. lit \<rho> g'' z (bit r i))"
      proof cases
        case 1
        then show ?thesis using factor_positive_or_gives [OF 2(3)] rb(1) by (simp add: f_def)
      next
        case 2
        then show ?thesis using factor_positive_or_gives [OF \<open>lit \<rho> g' y (bit m i)\<close>] rb(1) by (simp add: f_def)
      next
        case 3
        then have "f x y g' = aig_xnor x y g'" by (auto simp: f_def)
        then show ?thesis using aig_xnor_gives [OF 2(3,4)] rb(2) by simp
      qed
    qed
  qed (simp add: r_def)
  then have "gives g (do { (bits, g) \<leftarrow> build_map (\<lambda>(x, y) g. f x y g) (zip a b) g; and_all bits g })
     (\<lambda>g' r. lit \<rho> g' r (n = m))"
  proof (rule gives_bind, goal_cases)
    case (1 ls g1)
    have "lits \<rho> g1 ls (map (bit r) [0..<w])" using 1(2) by (auto simp: lits_iff num_def)
    from and_all_gives [OF this] show ?case unfolding prod.case
      by (rule gives_weaken) (auto simp: eq r_def elim: lit_cong)
  qed
  then show ?thesis by (simp add: eq_bits_def f_def)
qed

end
