(* ===== verification/Divide_Correct.thy ===== *)
theory Divide_Correct
  imports Blast_Shift Blast_Word
begin

unbundle bit_operations_syntax

declare One_nat_def [simp del]

text \<open>Correctness of restoring division and of the signed division built on it.\<close>

section \<open>Unsigned division\<close>

definition quotient :: "nat \<Rightarrow> nat \<Rightarrow> nat \<Rightarrow> nat" where
  "quotient w n m = (if m = 0 then 2 ^ w - 1 else n div m)"

lemma quotient_sem: "quotient w n m = sem_bin BUDiv w n m" "n mod m = sem_bin BURem w n m"
  by (simp_all add: quotient_def sem_bin_def)

text \<open>One step of restoring division: the next remainder and quotient bit.\<close>

lemma remainder_step:
  assumes "s = of_bool (bit n i) + 2 * (n div 2 ^ Suc i mod m)"
  shows "(n div 2 ^ i) mod m = (if s < m \<or> m = 0 then s else s - m)"
    "i < w \<Longrightarrow> n < 2 ^ w \<Longrightarrow> bit (quotient w n m) i \<longleftrightarrow> \<not> s < m"
    "m \<noteq> 0 \<Longrightarrow> s < 2 * m"
proof -
  define N where "N = n div 2 ^ Suc i"
  have N: "n div 2 ^ i = of_bool (bit n i) + 2 * N"
  proof -
    have "N = n div 2 ^ i div 2" unfolding N_def power_Suc2 by (rule div_mult2_eq)
    then show ?thesis unfolding bit_iff_odd by (cases "odd (n div 2 ^ i)") (simp_all add: One_nat_def)
  qed
  have e: "of_bool (bit n i) + 2 * N = s + m * (2 * (N div m))"
    unfolding assms N_def [symmetric] by (metis (no_types, lifting) add.assoc distrib_left mod_mult_div_eq mult.left_commute)
  show lt: "s < 2 * m" if "m \<noteq> 0"
  proof -
    have "N mod m + 1 \<le> m" using that by (simp add: Suc_leI One_nat_def)
    then show ?thesis unfolding assms N_def [symmetric] by (cases "bit n i") simp_all
  qed
  have md: "(n div 2 ^ i) mod m = s mod m" unfolding N e by simp
  then show "(n div 2 ^ i) mod m = (if s < m \<or> m = 0 then s else s - m)"
    using lt by (cases "s < m \<or> m = 0") (auto simp: mod_if [of s m])
  show "bit (quotient w n m) i \<longleftrightarrow> \<not> s < m" if "i < w" "n < 2 ^ w"
  proof (cases "m = 0")
    case True
    then show ?thesis using that by (simp add: quotient_def bit_mask_iff flip: mask_eq_exp_minus_1)
  next
    case False
    have "n div m div 2 ^ i = (n div 2 ^ i) div m" by (simp add: div_mult2_eq [symmetric] mult.commute)
    also have "\<dots> = 2 * (N div m) + s div m" unfolding N e using False by simp
    also have "s div m = of_bool (\<not> s < m)"
      using lt [OF False] False by (cases "s < m") (simp_all add: div_nat_eqI)
    finally show ?thesis using False by (simp add: quotient_def bit_iff_odd)
  qed
qed

definition dividing :: "(nat \<Rightarrow> bool) \<Rightarrow> nat \<Rightarrow> nat \<Rightarrow> nat \<Rightarrow> Aig \<Rightarrow> nat \<Rightarrow> L list \<times> L list \<Rightarrow> bool" where
  "dividing \<rho> w n m g k s = (case s of (r, q) \<Rightarrow>
     num \<rho> g (w + 1) r (n div 2 ^ (w - k) mod m) \<and> length q = w \<and>
     (\<forall>j<w. w - k \<le> j \<longrightarrow> lit \<rho> g (q ! j) (bit (quotient w n m) j)))"

lemma divide_step:
  assumes a: "num \<rho> g w a n" and b: "num \<rho> g w b m" and s: "dividing \<rho> w n m g k (r, q)" and k: "k < w"
    and i: "i = w - Suc k"
  shows "gives g (do {
            (lt, g) \<leftarrow> blast_ult (a ! i # take w r) (b @ [FALSE]) g;
            (diff, g) \<leftarrow> blast_sub (a ! i # take w r) (b @ [FALSE]) g;
            (r, g) \<leftarrow> blast_mux (lt XOR 1) diff (a ! i # take w r) g;
            Some ((r, q[i := lt XOR 1]), g) }) (\<lambda>g' s. dividing \<rho> w n m g' (Suc k) s)"
proof (rule gives_inv)
  assume inv: "aig_inv g"
  have iw: "i < w" "w - k = Suc i" using k i by simp_all
  have r: "num \<rho> g (w + 1) r (n div 2 ^ Suc i mod m)" and lq: "length q = w"
    and q: "\<And>j. j < w \<Longrightarrow> Suc i \<le> j \<Longrightarrow> lit \<rho> g (q ! j) (bit (quotient w n m) j)"
    using s by (simp_all add: dividing_def iw)
  define R where "R = n div 2 ^ Suc i mod m"
  have R: "R < 2 ^ w"
    using numD(2) [OF a] div_le_dividend [of n "2 ^ Suc i"] mod_less_eq_dividend [of "n div 2 ^ Suc i" m] unfolding R_def by linarith
  define S where "S = of_bool (bit n i) + 2 * R"
  define x where "x = a ! i # take w r"
  have x: "num \<rho> g (w + 1) x S"
    using num_Cons [OF numD(3) [OF a iw(1)] num_take [OF r, of w]] R by (simp add: x_def S_def R_def One_nat_def)
  have y: "num \<rho> g (w + 1) (b @ [FALSE]) m"
    using num_append [OF b num_zero [OF inv, of \<rho> 1]] by (simp add: One_nat_def)
  note st = remainder_step [OF S_def [unfolded R_def]]
  have nxt: "(if \<not> S < m then (S + (2 ^ (w + 1) - m)) mod 2 ^ (w + 1) else S) = n div 2 ^ i mod m"
  proof (cases "S < m")
    case False
    have "m \<le> 2 ^ (w + 1)" "S < 2 ^ (w + 1)" using numD(2) [OF y] numD(2) [OF x] by simp_all
    moreover have "S + (P - m) = (S - m) + P" if "m \<le> P" for P using that False by simp
    ultimately have "(S + (2 ^ (w + 1) - m)) mod 2 ^ (w + 1) = (S - m) mod 2 ^ (w + 1)" by (metis mod_add_self2)
    also have "\<dots> = S - m" using \<open>S < 2 ^ (w + 1)\<close> by (intro mod_less) linarith
    finally show ?thesis using False st(1) by auto
  qed (use st(1) in auto)
  show "gives g (do {
            (lt, g) \<leftarrow> blast_ult (a ! i # take w r) (b @ [FALSE]) g;
            (diff, g) \<leftarrow> blast_sub (a ! i # take w r) (b @ [FALSE]) g;
            (r, g) \<leftarrow> blast_mux (lt XOR 1) diff (a ! i # take w r) g;
            Some ((r, q[i := lt XOR 1]), g) }) (\<lambda>g' s. dividing \<rho> w n m g' (Suc k) s)"
    unfolding x_def [symmetric]
  proof (rule gives_bind [OF blast_ult_gives [OF x y]], goal_cases)
    case (1 lt g1)
    note x1 = num_mono [OF x 1(1)] and y1 = num_mono [OF y 1(1)] and lt1 = 1(2) and le1 = 1(1)
    show ?case unfolding prod.case
    proof (rule gives_bind [OF blast_sub_gives [OF x1 y1]], goal_cases)
      case (1 diff g2)
      note x2 = num_mono [OF x1 1(1)] and lt2 = lit_mono [OF lt1 1(1)] and le2 = aig_le_trans [OF le1 1(1)]
      have c: "lit \<rho> g2 (lt XOR 1) (\<not> S < m)" unfolding lit_not using lt2 by simp
      show ?case unfolding prod.case
      proof (rule gives_bind [OF blast_mux_gives [OF c 1(2) x2]], goal_cases)
        case (1 r' g3)
        have le: "aig_le g g3" by (rule aig_le_trans [OF le2 1(1)])
        have "lit \<rho> g3 (q[i := lt XOR 1] ! j) (bit (quotient w n m) j)" if "j < w" "i \<le> j" for j
        proof (cases "j = i")
          case True
          show ?thesis using lit_mono [OF c 1(1)] st(2) [OF iw(1) numD(2) [OF a]] True iw(1) lq by simp
        next
          case False
          then show ?thesis using lit_mono [OF q [OF that(1)] le] that(2) by simp
        qed
        moreover have "w - Suc k = i" by (simp add: i)
        ultimately show ?case unfolding prod.case
          using 1(2) lq unfolding nxt by (intro gives_return) (simp add: dividing_def)
      qed
    qed
  qed
qed

lemma blast_udivrem_gives:
  assumes "num \<rho> g w a n" "num \<rho> g w b m"
  shows "gives g (blast_udivrem a b g) (\<lambda>g' (q, r). num \<rho> g' w q (quotient w n m) \<and> num \<rho> g' w r (n mod m))"
proof (rule gives_inv)
  assume inv: "aig_inv g"
  have la: "length a = w" by (rule numD(1) [OF assms(1)])
  have n: "n div 2 ^ w = 0" using numD(2) [OF assms(1)] by simp
  show ?thesis unfolding blast_udivrem_def Let_def la
  proof (rule gives_bind, rule build_fold_gives [where I = "dividing \<rho> w n m"], goal_cases)
    case 1
    show ?case using num_zero [OF inv, of \<rho> "w + 1"] by (simp add: dividing_def n)
  next
    case (2 k s g1)
    obtain r q where s: "s = (r, q)" by (cases s)
    have k: "k < w" "rev [0..<w] ! k = w - Suc k" using 2(1) by (simp_all add: rev_nth)
    show ?case unfolding k(2) s prod.case
      by (rule divide_step [OF num_mono [OF assms(1) 2(2)] num_mono [OF assms(2) 2(2)] 2(3) [unfolded s] k(1) refl])
  next
    case (3 s g1)
    obtain r q where s: "s = (r, q)" by (cases s)
    have d: "num \<rho> g1 (w + 1) r (n mod m)" "length q = w" "\<And>j. j < w \<Longrightarrow> lit \<rho> g1 (q ! j) (bit (quotient w n m) j)"
      using 3(2) by (simp_all add: dividing_def s)
    have "n mod m < 2 ^ w" using numD(2) [OF assms(1)] mod_less_eq_dividend [of n m] by linarith
    then have "num \<rho> g1 w (take w r) (n mod m)" using num_take [OF d(1), of w] by simp
    moreover have "num \<rho> g1 w q (quotient w n m)"
    proof (rule numI)
      show "quotient w n m < 2 ^ w"
        using numD(2) [OF assms(1)] le_less_trans [OF div_le_dividend [of n m]] by (simp add: quotient_def)
    qed (use d in auto)
    ultimately show ?case unfolding s prod.case by (intro gives_return) simp
  qed
qed

section \<open>Signed division\<close>

lemma blast_abs_gives:
  assumes "num \<rho> g w a n" "0 < w"
  shows "gives g (blast_abs a g) (\<lambda>g' (r, s). num \<rho> g' w r (sem_abs w n) \<and> lit \<rho> g' s (bit n (w - 1)))"
proof -
  have s: "lit \<rho> g (last_or_false a) (bit n (w - 1))"
    using numD(3) [OF assms(1), of "w - 1"] assms(2) numD(1) [OF assms(1)]
    by (auto simp: last_or_false_def last_conv_nth)
  show ?thesis unfolding blast_abs_def Let_def
  proof (rule gives_bind [OF blast_neg_gives [OF assms(1)]], goal_cases)
    case (1 x g1)
    show ?case unfolding prod.case
    proof (rule gives_bind [OF blast_mux_gives [OF lit_mono [OF s 1(1)] 1(2) num_mono [OF assms(1) 1(1)]]], goal_cases)
      case (1 y g2)
      have "lit \<rho> g2 (last_or_false a) (bit n (w - 1))" by (rule lit_mono [OF lit_mono [OF s \<open>aig_le g g1\<close>] 1(1)])
      then show ?case unfolding prod.case using 1(2) by (intro gives_return) (auto simp: sem_abs_def sem_un_def split: if_splits)
    qed
  qed
qed

lemma blast_sdiv_gives:
  assumes "num \<rho> g w a n" "num \<rho> g w b m" "0 < w"
  shows "gives g (blast_sdiv a b g) (\<lambda>g' r. num \<rho> g' w r (sem_bin BSDiv w n m))"
  unfolding blast_sdiv_def
proof (rule gives_bind [OF blast_abs_gives [OF assms(1,3)]], goal_cases)
  case (1 us g1)
  obtain ua sa where us: "us = (ua, sa)" by (cases us)
  have a1: "num \<rho> g1 w ua (sem_abs w n)" "lit \<rho> g1 sa (bit n (w - 1))" using 1(2) by (simp_all add: us)
  show ?case unfolding us prod.case
  proof (rule gives_bind [OF blast_abs_gives [OF num_mono [OF assms(2) 1(1)] assms(3)]], goal_cases)
    case (1 vs g2)
    obtain ub sb where vs: "vs = (ub, sb)" by (cases vs)
    have b2: "num \<rho> g2 w ub (sem_abs w m)" "lit \<rho> g2 sb (bit m (w - 1))" using 1(2) by (simp_all add: vs)
    note sa2 = lit_mono [OF a1(2) 1(1)]
    show ?case unfolding vs prod.case
    proof (rule gives_bind [OF blast_udivrem_gives [OF num_mono [OF a1(1) 1(1)] b2(1)]], goal_cases)
      case (1 qr g3)
      obtain q r where qr: "qr = (q, r)" by (cases qr)
      have q: "num \<rho> g3 w q (sem_bin BUDiv w (sem_abs w n) (sem_abs w m))" using 1(2) by (simp add: qr quotient_sem(1))
      show ?case unfolding qr prod.case
      proof (rule gives_bind [OF aig_xor_gives [OF lit_mono [OF sa2 1(1)] lit_mono [OF b2(2) 1(1)]]], goal_cases)
        case (1 d g4)
        note q4 = num_mono [OF q 1(1)] and d4 = 1(2)
        show ?case unfolding prod.case
        proof (rule gives_bind [OF blast_neg_gives [OF q4]], goal_cases)
          case (1 nq g5)
          show ?case unfolding prod.case
            by (rule gives_weaken [OF blast_mux_gives [OF lit_mono [OF d4 1(1)] 1(2) num_mono [OF q4 1(1)]]])
              (use sem_sdiv_parts [OF assms(3) numD(2) [OF assms(1)] numD(2) [OF assms(2)]]
               in \<open>auto simp: Let_def sem_un_def split: if_splits\<close>)
        qed
      qed
    qed
  qed
qed

lemma blast_srem_gives:
  assumes "num \<rho> g w a n" "num \<rho> g w b m" "0 < w"
  shows "gives g (blast_srem a b g) (\<lambda>g' r. num \<rho> g' w r (sem_bin BSRem w n m))"
  unfolding blast_srem_def
proof (rule gives_bind [OF blast_abs_gives [OF assms(1,3)]], goal_cases)
  case (1 us g1)
  obtain ua sa where us: "us = (ua, sa)" by (cases us)
  have a1: "num \<rho> g1 w ua (sem_abs w n)" "lit \<rho> g1 sa (bit n (w - 1))" using 1(2) by (simp_all add: us)
  show ?case unfolding us prod.case
  proof (rule gives_bind [OF blast_abs_gives [OF num_mono [OF assms(2) 1(1)] assms(3)]], goal_cases)
    case (1 vs g2)
    obtain ub sb where vs: "vs = (ub, sb)" by (cases vs)
    have b2: "num \<rho> g2 w ub (sem_abs w m)" using 1(2) by (simp add: vs)
    note sa2 = lit_mono [OF a1(2) 1(1)]
    show ?case unfolding vs prod.case
    proof (rule gives_bind [OF blast_udivrem_gives [OF num_mono [OF a1(1) 1(1)] b2]], goal_cases)
      case (1 qr g3)
      obtain q r where qr: "qr = (q, r)" by (cases qr)
      have r: "num \<rho> g3 w r (sem_bin BURem w (sem_abs w n) (sem_abs w m))" using 1(2) by (simp add: qr flip: quotient_sem(2) [where w = w])
      note sa3 = lit_mono [OF sa2 1(1)]
      show ?case unfolding qr prod.case
      proof (rule gives_bind [OF blast_neg_gives [OF r]], goal_cases)
        case (1 nr g4)
        show ?case unfolding prod.case
          by (rule gives_weaken [OF blast_mux_gives [OF lit_mono [OF sa3 1(1)] 1(2) num_mono [OF r 1(1)]]])
            (use sem_srem_parts [OF assms(3) numD(2) [OF assms(1)] numD(2) [OF assms(2)]]
             in \<open>auto simp: Let_def sem_un_def split: if_splits\<close>)
      qed
    qed
  qed
qed

end
