(* ===== verification/Shift_Correct.thy ===== *)
theory Shift_Correct
  imports Blast_Shift Divide_Correct
begin

unbundle bit_operations_syntax

declare One_nat_def [simp del]

text \<open>
  Correctness of the barrel shifter, of the folding of outputs that the count determines, and of
  the rotations.
\<close>

section \<open>The shifted word\<close>

definition shifted :: "bool \<Rightarrow> bool \<Rightarrow> nat \<Rightarrow> nat \<Rightarrow> nat \<Rightarrow> nat" where
  "shifted left fill w n c =
     of_bits w (\<lambda>i. if left then c \<le> i \<and> bit n (i - c) else if i + c < w then bit n (i + c) else fill)"

lemma shifted_less [simp]: "shifted left fill w n c < 2 ^ w" by (simp add: shifted_def)

lemma shifted_0: "n < 2 ^ w \<Longrightarrow> shifted left fill w n 0 = n"
  by (auto simp: shifted_def intro: of_bits_eq)

lemma bit_shifted: "bit (shifted left fill w n c) i \<longleftrightarrow>
    i < w \<and> (if left then c \<le> i \<and> bit n (i - c) else if i + c < w then bit n (i + c) else fill)"
  by (simp add: shifted_def)

lemma shifted_shifted: "shifted left fill w (shifted left fill w n c) d = shifted left fill w n (c + d)"
proof (rule bit_eqI)
  fix i
  have "c + d \<le> i \<longleftrightarrow> d \<le> i \<and> c \<le> i - d" "i - (c + d) = i - d - c" by auto
  then show "bit (shifted left fill w (shifted left fill w n c) d) i = bit (shifted left fill w n (c + d)) i"
    unfolding bit_shifted by (cases left) (auto simp: add.assoc add.commute add.left_commute)
qed

lemma shifted_all: "w \<le> c \<Longrightarrow> shifted left fill w n c = (if left \<or> \<not> fill then 0 else 2 ^ w - 1)"
  by (rule bit_eqI) (auto simp: bit_shifted bit_mask_iff simp flip: mask_eq_exp_minus_1)

text \<open>The three shifts of the specification.\<close>

lemma shifted_sem:
  assumes "n < 2 ^ w" "0 < w"
  shows "shifted True False w n c = sem_bin BShl w n c"
    "shifted False False w n c = sem_bin BLShr w n c"
    "shifted False (bit n (w - 1)) w n c = sem_bin BAShr w n c"
proof -
  show "shifted True False w n c = sem_bin BShl w n c"
    by (rule bit_eqI) (auto simp: bit_shifted sem_bin_def bit_sem_shl)
  show "shifted False False w n c = sem_bin BLShr w n c"
    by (rule bit_eqI) (auto simp: bit_shifted sem_bin_def bit_sem_lshr dest: bit_nat_less [OF assms(1)])
  show "shifted False (bit n (w - 1)) w n c = sem_bin BAShr w n c"
    by (rule bit_eqI) (auto simp: bit_shifted sem_bin_def bit_div_int bit_sem_signed [OF assms(2,1)])
qed

lemma moved_bits_num:
  assumes "num \<rho> g w a n" "lit \<rho> g f fill"
    and inv: "aig_inv g"
  shows "num \<rho> g w (moved_bits a left f amt) (shifted left fill w n amt)"
proof (rule numI)
  have la: "length a = w" by (rule numD(1) [OF assms(1)])
  show "lit \<rho> g (moved_bits a left f amt ! i) (bit (shifted left fill w n amt) i)" if "i < w" for i
    using that numD(3) [OF assms(1), of "i - amt"] numD(3) [OF assms(1), of "i + amt"] assms(2) lit_const(1) [OF inv, of \<rho> False]
    by (auto simp: moved_bits_def la bit_shifted)
qed (simp_all add: moved_bits_def numD(1) [OF assms(1)])

section \<open>The barrel shifter\<close>

text \<open>The rounds: powers of two below the word, as far as the count has bits.\<close>

lemma takeWhile_upt:
  assumes "\<And>i j. i \<le> j \<Longrightarrow> P j \<Longrightarrow> P i"
  obtains k where "takeWhile P [0..<n] = [0..<k]" "k \<le> n" "\<And>i. i < k \<Longrightarrow> P i" "k = n \<or> \<not> P k"
proof -
  define k where "k = length (takeWhile P [0..<n])"
  have kn: "k \<le> n" using length_takeWhile_le [of P "[0..<n]"] by (simp add: k_def)
  have e: "takeWhile P [0..<n] = take k [0..<n]" unfolding k_def by (rule takeWhile_eq_take)
  have t: "take k [0..<n] = [0..<k]" using kn by simp
  have p: "P i" if "i < k" for i
    using that e t by (metis atLeastLessThan_iff le0 set_takeWhileD set_upt)
  have "k = n \<or> \<not> P k"
    using nth_length_takeWhile [of P "[0..<n]"] kn by (fold k_def) auto
  then show ?thesis using that [of k] e t kn p by simp
qed

lemma barrel_gives:
  assumes "num \<rho> g w a n" "num \<rho> g v s c" "lit \<rho> g f fill" "k \<le> v"
  shows "gives g (build_fold (\<lambda>k cur g. blast_mux (s ! k) (moved_bits cur left f (2 ^ k)) cur g) [0..<k] a g)
    (\<lambda>g' r. num \<rho> g' w r (shifted left fill w n (c mod 2 ^ k)))"
proof -
  have "gives g (build_fold (\<lambda>k cur g. blast_mux (s ! k) (moved_bits cur left f (2 ^ k)) cur g) [0..<k] a g)
    (\<lambda>g' r. num \<rho> g' w r (shifted left fill w n (c mod 2 ^ length [0..<k])))"
  proof (rule build_fold_gives, goal_cases)
    case 1
    show ?case using assms(1) shifted_0 [OF numD(2) [OF assms(1)]] by simp
  next
    case (2 i cur g1)
    have i: "i < k" "[0..<k] ! i = i" using 2(1) by simp_all
    have si: "lit \<rho> g1 (s ! i) (bit c i)" using i assms(4) by (intro numD(3) [OF num_mono [OF assms(2) 2(2)]]) simp
    show ?case unfolding i(2)
    proof (rule gives_inv)
      assume inv: "aig_inv g1"
      have m: "num \<rho> g1 w (moved_bits cur left f (2 ^ i)) (shifted left fill w n (c mod 2 ^ i + 2 ^ i))"
        using moved_bits_num [OF 2(3) lit_mono [OF assms(3) 2(2)] inv, of left "2 ^ i"] by (simp add: shifted_shifted)
      have e: "(if bit c i then shifted left fill w n (c mod 2 ^ i + 2 ^ i) else shifted left fill w n (c mod 2 ^ i)) =
          shifted left fill w n (c mod 2 ^ Suc i)"
        unfolding mod_Suc_power by simp
      from blast_mux_gives [OF si m 2(3)] show "gives g1 (blast_mux (s ! i) (moved_bits cur left f (2 ^ i)) cur g1)
          (\<lambda>g'' acc. num \<rho> g'' w acc (shifted left fill w n (c mod 2 ^ Suc i)))"
        unfolding e .
    qed
  qed
  then show ?thesis by simp
qed

lemma small_width_bits:
  assumes "aig_inv g" "w < 2 ^ 64"
  shows "num \<rho> g v (small_bits v (word_of_nat w)) (w mod 2 ^ v)"
  using num_small_bits [OF assms(1), of \<rho> v "word_of_nat w"] assms(2)
  by (simp add: unat_of_nat)

lemma at_least_gives:
  assumes "num \<rho> g v s c" "w < 2 ^ 64"
  shows "gives g (at_least s w g) (\<lambda>g' r. lit \<rho> g' r (w \<le> c))"
proof (rule gives_inv)
  assume inv: "aig_inv g"
  have ls: "length s = v" by (rule numD(1) [OF assms(1)])
  have wv: "unat (word_of_nat w :: u64) = w" using assms(2) by (simp add: unat_of_nat)
  have d: "drop_bit v (word_of_nat w :: u64) = 0 \<longleftrightarrow> w < 2 ^ v"
  proof -
    have "drop_bit v (word_of_nat w :: u64) = 0 \<longleftrightarrow> unat (drop_bit v (word_of_nat w :: u64)) = 0" by (simp only: unsigned_eq_0_iff)
    also have "unat (drop_bit v (word_of_nat w :: u64)) = w div 2 ^ v"
      unfolding unat_drop_bit_eq wv by (simp add: drop_bit_eq_div)
    finally show ?thesis by (simp add: div_eq_0_iff)
  qed
  show ?thesis
  proof (cases "v < 64 \<and> drop_bit v (word_of_nat w :: u64) \<noteq> 0")
    case True
    then have "\<not> w \<le> c" using d numD(2) [OF assms(1)] by auto
    then show ?thesis using True lit_const(1) [OF inv]
      by (simp add: at_least_def ls gives_return)
  next
    case False
    have "(2::nat) ^ 64 \<le> 2 ^ v" if "\<not> v < 64" using that by (intro power_increasing) simp_all
    then have "w < 2 ^ v" using False d assms(2) by (cases "v < 64") auto
    then have k: "num \<rho> g v (small_bits v (word_of_nat w)) w" using small_width_bits [OF inv assms(2), of \<rho> v] by simp
    have "at_least s w g = do { (r, g) \<leftarrow> blast_ult s (small_bits v (word_of_nat w)) g; Some (r XOR 1, g) }"
      unfolding at_least_def Let_def ls if_not_P [OF False] ..
    moreover have "gives g (do { (r, g) \<leftarrow> blast_ult s (small_bits v (word_of_nat w)) g; Some (r XOR 1, g) })
        (\<lambda>g' r. lit \<rho> g' r (w \<le> c))"
      by (rule gives_bind [OF blast_ult_gives [OF assms(1) k]]) (auto intro!: gives_return simp flip: not_less)
    ultimately show ?thesis by simp
  qed
qed

section \<open>Folding correlated outputs\<close>

text \<open>The selectors are the nodes of the variable bits of the count, their literals positive.\<close>

lemma shift_selectors_correct:
  assumes "shift_selectors s = Some sel" "l \<in> set s" "l > TRUE"
  shows "plain l \<in> set sel"
proof -
  define step where "step = (\<lambda>l sel. case sel of None \<Rightarrow> None
         | Some sel \<Rightarrow> let base = plain l in if base \<in> set sel then Some sel
                else if length sel = 4 then None else Some (sel @ [base]))"
  have none: "fold step ls None = None" for ls by (induction ls) (simp_all add: step_def)
  have mono: "fold step ls (Some s0) = Some s1 \<Longrightarrow> set s0 \<union> plain ` set ls \<subseteq> set s1" for ls s0 s1
  proof (induction ls arbitrary: s0)
    case (Cons x ls)
    then obtain s2 where s2: "step x (Some s0) = Some s2" using none by (cases "step x (Some s0)") auto
    then have "set s0 \<union> {plain x} \<subseteq> set s2" by (auto simp: step_def Let_def split: if_splits)
    moreover have "set s2 \<union> plain ` set ls \<subseteq> set s1" using Cons.IH [of s2] Cons.prems s2 by simp
    ultimately show ?case by auto
  qed simp
  have "fold step (filter (\<lambda>l. l > TRUE) s) (Some []) = Some sel"
    using assms(1) by (simp add: shift_selectors_def step_def)
  from mono [OF this] show ?thesis using assms(2,3) by auto
qed

lemma shift_selectors_plain:
  assumes "shift_selectors s = Some sel"
  shows "set sel \<subseteq> plain ` set s"
proof -
  define step where "step = (\<lambda>l sel. case sel of None \<Rightarrow> None
         | Some sel \<Rightarrow> let base = plain l in if base \<in> set sel then Some sel
                else if length sel = 4 then None else Some (sel @ [base]))"
  have none: "fold step ls None = None" for ls by (induction ls) (simp_all add: step_def)
  have sub: "fold step ls (Some s0) = Some s1 \<Longrightarrow> set s1 \<subseteq> set s0 \<union> plain ` set ls" for ls s0 s1
  proof (induction ls arbitrary: s0)
    case (Cons x ls)
    then obtain s2 where s2: "step x (Some s0) = Some s2" using none by (cases "step x (Some s0)") auto
    then have "set s2 \<subseteq> set s0 \<union> {plain x}" by (auto simp: step_def Let_def split: if_splits)
    moreover have "set s1 \<subseteq> set s2 \<union> plain ` set ls" using Cons.IH [of s2] Cons.prems s2 by simp
    ultimately show ?case by auto
  qed simp
  have "fold step (filter (\<lambda>l. l > TRUE) s) (Some []) = Some sel"
    using assms(1) by (simp add: shift_selectors_def step_def)
  from sub [OF this] show ?thesis by auto
qed

text \<open>Under the assignment that holds, the tabulated value of a literal is its value.\<close>

definition assigned :: "(nat \<Rightarrow> bool) \<Rightarrow> Aig \<Rightarrow> L list \<Rightarrow> nat \<Rightarrow> bool" where
  "assigned \<rho> g sel asg \<longleftrightarrow> asg < 2 ^ length sel \<and> (\<forall>k<length sel. lit \<rho> g (sel ! k) (bit asg k))"

lemma lit_of_plain: "lit \<rho> g (plain l) p \<Longrightarrow> lit \<rho> g l (p \<noteq> (l AND 1 = 1))"
  using lit_xor_sign [of \<rho> g "plain l" p "l AND 1"] by (simp only: plain_eq and_one_less)

lemma selector_value_lit:
  assumes "aig_inv g" "assigned \<rho> g sel asg" "selector_value sel l asg = Some b"
  shows "lit \<rho> g l b"
proof (cases "l \<le> TRUE")
  case True
  then have "l = FALSE \<or> l = TRUE" by auto
  then show ?thesis using assms(1,3) by (auto simp: selector_value_def lit_const)
next
  case False
  then obtain i where i: "find (\<lambda>i. sel ! i = plain l) [0..<length sel] = Some i" "b = (bit asg i \<noteq> (l AND 1 \<noteq> 0))"
    using assms(3) by (auto simp: selector_value_def split: option.splits)
  then have "i < length sel" "sel ! i = plain l" by (auto simp: find_Some_iff)
  then have "lit \<rho> g (plain l) (bit asg i)" using assms(2) by (metis assigned_def)
  from lit_of_plain [OF this] show ?thesis using i(2) and_one_cases [of l] by (auto elim!: lit_cong)
qed

lemma selector_value_known:
  assumes "l \<le> TRUE \<or> plain l \<in> set sel"
  shows "selector_value sel l asg \<noteq> None"
proof (cases "l \<le> TRUE")
  case False
  then obtain i where "i < length sel" "sel ! i = plain l" using assms by (auto simp: in_set_conv_nth)
  then have "find (\<lambda>i. sel ! i = plain l) [0..<length sel] \<noteq> None" by (auto simp: find_None_iff)
  then show ?thesis using False by (auto simp: selector_value_def)
qed (simp add: selector_value_def)

text \<open>The tabulated count is the count, or past the word as the count is.\<close>

lemma count_of_correct:
  assumes "w < 2 ^ 64" "\<And>i. i < length ls \<Longrightarrow> selector_value sel (ls ! i) asg = Some (bit c (j + i))"
    "acc = c mod 2 ^ j"
  shows "count_of sel w asg (enumerate j ls) acc = c mod 2 ^ (j + length ls) \<or>
    (w \<le> count_of sel w asg (enumerate j ls) acc \<and> w \<le> c)"
  using assms(2,3)
proof (induction ls arbitrary: j acc)
  case Nil
  then show ?case by simp
next
  case (Cons l ls)
  have l: "selector_value sel l asg = Some (bit c j)" using Cons.prems(1) [of 0] by simp
  have rest: "selector_value sel (ls ! i) asg = Some (bit c (Suc j + i))" if "i < length ls" for i
    using Cons.prems(1) [of "Suc i"] that by simp
  show ?case
  proof (cases "bit c j")
    case True
    show ?thesis
    proof (cases "j \<ge> 64 \<or> w \<le> 2 ^ j")
      case big: True
      have "(2::nat) ^ 64 \<le> 2 ^ j" if "j \<ge> 64" using that by (intro power_increasing) simp_all
      then have "w \<le> 2 ^ j" using big assms(1) by auto
      moreover have "2 ^ j \<le> c" using True by (metis bit_nat_less leI less_irrefl)
      ultimately show ?thesis using big True l by auto
    next
      case False
      have "acc OR 2 ^ j = c mod 2 ^ Suc j"
        unfolding Cons.prems(2) take_bit_eq_mod [symmetric]
        by (rule bit_eqI) (use True in \<open>auto simp: bit_or_iff bit_take_bit_iff bit_exp_iff less_Suc_eq\<close>)
      then show ?thesis using Cons.IH [OF rest, of "acc OR 2 ^ j"] False True l by simp
    qed
  next
    case False
    then have "acc = c mod 2 ^ Suc j" unfolding Cons.prems(2) mod_Suc_power by simp
    then show ?thesis using Cons.IH [OF rest, of acc] False l by simp
  qed
qed


lemma fold_output_lit:
  assumes "aig_inv g" "assigned \<rho> g sel asg" "lit \<rho> g output b"
    "\<And>t. table = Some t \<Longrightarrow> length t = 2 ^ length sel \<and> t ! asg = b"
  shows "lit \<rho> g (fold_output sel (2 ^ length sel) table output) b"
proof (cases table)
  case None
  then show ?thesis using assms(3) by (simp add: fold_output_def)
next
  case (Some t)
  have t: "length t = 2 ^ length sel" "t ! asg = b" "asg < 2 ^ length sel"
    using assms(4) [OF Some] assms(2) by (simp_all add: assigned_def)
  consider "list_all Not t" | "\<not> list_all Not t" "list_all id t" | "\<not> list_all Not t" "\<not> list_all id t" by blast
  then show ?thesis
  proof cases
    case 1
    then have "\<not> b" using t by (auto simp: list_all_length)
    then show ?thesis using 1 Some lit_const(1) [OF assms(1)] by (simp add: fold_output_def)
  next
    case 2
    then have b using t by (auto simp: list_all_length)
    then show ?thesis using 2 Some lit_const(2) [OF assms(1)] by (simp add: fold_output_def)
  next
    case 3
    define pos where "pos = (\<lambda>k. map (\<lambda>j. bit j k) [0..<(2::nat) ^ length sel])"
    have e: "fold_output sel (2 ^ length sel) table output = (case find (\<lambda>k. t = pos k \<or> t = map Not (pos k)) [0..<length sel] of
          None \<Rightarrow> output | Some k \<Rightarrow> sel ! k XOR of_bool (t \<noteq> pos k))"
      unfolding fold_output_def Some option.case if_not_P [OF 3(1)] if_not_P [OF 3(2)] Let_def pos_def ..
    show ?thesis
    proof (cases "find (\<lambda>k. t = pos k \<or> t = map Not (pos k)) [0..<length sel]")
      case None
      then show ?thesis using assms(3) by (simp add: e)
    next
      case (Some k)
      then have k: "k < length sel" "t = pos k \<or> t = map Not (pos k)" by (auto simp: find_Some_iff)
      have l: "lit \<rho> g (sel ! k) (bit asg k)" using assms(2) k(1) by (simp add: assigned_def)
      have p: "pos k ! asg = bit asg k" "map Not (pos k) ! asg = (\<not> bit asg k)" using t(3) by (simp_all add: pos_def)
      have "(bit asg k \<noteq> (t \<noteq> pos k)) = b" using k(2) p t(2) by metis
      moreover have "lit \<rho> g (sel ! k XOR of_bool (t \<noteq> pos k)) (bit asg k \<noteq> (of_bool (t \<noteq> pos k) = (1::nat)))"
        by (rule lit_xor_sign [OF l]) simp
      ultimately show ?thesis unfolding e Some option.case by (auto elim!: lit_cong)
    qed
  qed
qed

lemma those_length: "those xs = Some ys \<Longrightarrow> length ys = length xs \<and> (\<forall>i<length xs. xs ! i = Some (ys ! i))"
proof (induction xs arbitrary: ys)
  case (Cons x xs)
  then obtain y zs where "x = Some y" "those xs = Some zs" "ys = y # zs" by (auto split: option.splits)
  then show ?case using Cons.IH by (auto simp: nth_Cons split: nat.splits)
qed simp

lemma fold_correlations_num:
  assumes inv: "aig_inv g" and a: "num \<rho> g w a n" and s: "num \<rho> g v s c" and f: "lit \<rho> g f fill" and w: "w < 2 ^ 64"
    and r: "num \<rho> g w result (shifted left fill w n c)"
  shows "num \<rho> g w (fold_shift_correlations a s left f result) (shifted left fill w n c)"
proof (cases "shift_selectors s")
  case None
  then show ?thesis using r by (simp add: fold_shift_correlations_def)
next
  case (Some sel)
  have la: "length a = w" "length s = v" "length result = w" using numD(1) [OF a] numD(1) [OF s] numD(1) [OF r] by simp_all
  define asg where "asg = of_bits (length sel) (\<lambda>k. val \<rho> g (sel ! k))"
  have asg: "assigned \<rho> g sel asg"
  proof -
    have "valid g (sel ! k)" if "k < length sel" for k
    proof -
      have "sel ! k \<in> plain ` set s" using shift_selectors_plain [OF Some] that by auto
      then obtain l where "l \<in> set s" "sel ! k = plain l" by auto
      moreover then have "valid g l" using numD(3) [OF s] la(2) by (auto simp: in_set_conv_nth lit_def)
      ultimately show ?thesis by (simp add: valid_def)
    qed
    then show ?thesis by (simp add: assigned_def asg_def lit_def)
  qed
  define counts where "counts = map (\<lambda>assignment. count_of sel w assignment (enumerate 0 s) 0) [0..<(2::nat) ^ length sel]"
  have "count_of sel w asg (enumerate 0 s) 0 = c mod 2 ^ (0 + length s) \<or> (w \<le> count_of sel w asg (enumerate 0 s) 0 \<and> w \<le> c)"
  proof (rule count_of_correct [OF w])
    fix i
    assume i: "i < length s"
    have "s ! i \<le> TRUE \<or> plain (s ! i) \<in> set sel"
      using shift_selectors_correct [OF Some, of "s ! i"] i by (meson leI nth_mem)
    from selector_value_known [OF this, of asg] obtain b where b: "selector_value sel (s ! i) asg = Some b" by auto
    moreover have "b = bit c i"
      by (rule lit_inj [OF selector_value_lit [OF inv asg b] numD(3) [OF s]]) (use i la in simp)
    ultimately show "selector_value sel (s ! i) asg = Some (bit c (0 + i))" by simp
  qed simp
  then have cnt: "counts ! asg = c \<or> (w \<le> counts ! asg \<and> w \<le> c)"
    using asg numD(2) [OF s] by (simp add: counts_def assigned_def la(2))
  have table: "length t = 2 ^ length sel \<and> t ! asg = bit (shifted left fill w n c) i"
    if i: "i < w" and t: "output_table sel a counts left f i = Some t" for i t
  proof -
    define source where "source = (\<lambda>c. if left then (if c \<le> i then a ! (i - c) else FALSE)
                       else (if i + c < w then a ! (i + c) else f))"
    have lc: "length counts = 2 ^ length sel" by (simp add: counts_def)
    have al: "asg < length counts" using asg by (simp add: assigned_def lc)
    have "those (map (\<lambda>(assignment, c). selector_value sel (source c) assignment) (enumerate 0 counts)) = Some t"
      using t unfolding output_table_def source_def la(1) Let_def .
    from those_length [OF this] have tt: "length t = length counts" "selector_value sel (source (counts ! asg)) asg = Some (t ! asg)"
      using al by (auto simp: nth_enumerate_eq)
    have "lit \<rho> g (source (counts ! asg)) (bit (shifted left fill w n (counts ! asg)) i)"
      using i numD(3) [OF a, of "i - counts ! asg"] numD(3) [OF a, of "i + counts ! asg"] f lit_const(1) [OF inv, of \<rho> False]
      by (auto simp: source_def bit_shifted)
    then have "t ! asg = bit (shifted left fill w n (counts ! asg)) i"
      using lit_inj [OF selector_value_lit [OF inv asg tt(2)]] by blast
    also have "shifted left fill w n (counts ! asg) = shifted left fill w n c"
      using cnt shifted_all [of w "counts ! asg"] shifted_all [of w c] by auto
    finally show ?thesis using tt(1) lc by simp
  qed
  show ?thesis
  proof (cases "sel = [] \<or> \<not> list_ex (\<lambda>l. l > TRUE \<and> plain l \<in> set sel) (a @ [f])")
    case True
    then have "fold_shift_correlations a s left f result = result"
      unfolding fold_shift_correlations_def Some option.case by (rule if_P)
    then show ?thesis using r by simp
  next
    case False
    have e: "fold_shift_correlations a s left f result =
        map (\<lambda>(i, output). fold_output sel (2 ^ length sel) (output_table sel a counts left f i) output) (enumerate 0 result)"
      unfolding fold_shift_correlations_def Some option.case if_not_P [OF False] Let_def counts_def la(1) ..
    show ?thesis
    proof (rule numI)
      show "lit \<rho> g (fold_shift_correlations a s left f result ! i) (bit (shifted left fill w n c) i)" if "i < w" for i
        unfolding e using that la(3) fold_output_lit [OF inv asg numD(3) [OF r that], of "output_table sel a counts left f i"] table [OF that]
        by (simp add: nth_enumerate_eq)
    qed (simp_all add: e la(3))
  qed
qed

lemma blast_shift_gives:
  assumes a: "num \<rho> g w a n" and s: "num \<rho> g v s c" and f: "lit \<rho> g f fill" and w: "w < 2 ^ 64"
  shows "gives g (blast_shift a s left f g) (\<lambda>g' r. num \<rho> g' w r (shifted left fill w n c))"
proof -
  have la: "length a = w" "length s = v" using numD(1) [OF a] numD(1) [OF s] by simp_all
  obtain k where k: "takeWhile (\<lambda>k. 2 ^ k < w) [0..<v] = [0..<k]" "k \<le> v" "k = v \<or> \<not> 2 ^ k < w"
    by (rule takeWhile_upt [of "\<lambda>k. 2 ^ k < w" v]) (auto intro: le_less_trans [OF power_increasing])
  have low: "shifted left fill w n (c mod 2 ^ k) = shifted left fill w n c" if "c < w"
  proof -
    have "c < 2 ^ k" using k(3) numD(2) [OF s] that by auto
    then show ?thesis by simp
  qed
  show ?thesis unfolding blast_shift_def Let_def la k(1)
  proof (rule gives_bind [OF barrel_gives [OF a s f k(2)]], goal_cases)
    case (1 cur g1)
    note cur = 1(2) and le1 = 1(1)
    show ?case unfolding prod.case
    proof (rule gives_bind [OF at_least_gives [OF num_mono [OF s 1(1)] w]], goal_cases)
      case (1 ov g2)
      note le2 = aig_le_trans [OF le1 1(1)]
      show ?case unfolding prod.case
      proof (rule gives_inv)
        assume inv2: "aig_inv g2"
        have all: "num \<rho> g2 w (replicate w (if left then FALSE else f)) (if left \<or> \<not> fill then 0 else 2 ^ w - 1)"
          by (rule numI)
            (use lit_mono [OF f le2] lit_const(1) [OF inv2, of \<rho> False] in \<open>auto simp: bit_mask_iff simp flip: mask_eq_exp_minus_1\<close>)
        have e: "(if w \<le> c then (if left \<or> \<not> fill then 0 else 2 ^ w - 1) else shifted left fill w n (c mod 2 ^ k)) = shifted left fill w n c"
          using shifted_all [of w c left fill n] low by (cases "w \<le> c") simp_all
        show "gives g2 (do { (result, g) \<leftarrow> blast_mux ov (replicate w (if left then FALSE else f)) cur g2;
              Some (fold_shift_correlations a s left f result, g) }) (\<lambda>g' r. num \<rho> g' w r (shifted left fill w n c))"
        proof (rule gives_bind [OF blast_mux_gives [OF 1(2) all num_mono [OF cur 1(1)], unfolded e]], goal_cases)
          case (1 r g3)
          note le3 = aig_le_trans [OF le2 1(1)]
          show ?case unfolding prod.case
          proof (rule gives_inv)
            assume inv3: "aig_inv g3"
            show "gives g3 (Some (fold_shift_correlations a s left f r, g3)) (\<lambda>g' r. num \<rho> g' w r (shifted left fill w n c))"
              by (intro gives_return [where P = "\<lambda>g' r. num \<rho> g' w r (shifted left fill w n c)"]
                  fold_correlations_num [OF inv3 num_mono [OF a le3] num_mono [OF s le3] lit_mono [OF f le3] w 1(2)])
          qed
        qed
      qed
    qed
  qed
qed

end
