(* ===== verification/Mul_Rows.thy ===== *)
theory Mul_Rows
  imports Blast_Mul Blast_Word
begin

unbundle bit_operations_syntax

declare One_nat_def [simp del]

text \<open>
  Correctness of the products that add shifted rows: shift and add, signed digits, and constants
  split into two factors. Words are read modulo \<open>2 ^ w\<close> as integers, so that sums, differences
  and shifted copies of a word are the integer operations.
\<close>

section \<open>Words modulo a power of two\<close>

definition numz :: "(nat \<Rightarrow> bool) \<Rightarrow> Aig \<Rightarrow> nat \<Rightarrow> L list \<Rightarrow> int \<Rightarrow> bool" where
  "numz \<rho> g w ls z \<longleftrightarrow> num \<rho> g w ls (sem_of_int w z)"

lemma numz_num: "num \<rho> g w ls n \<Longrightarrow> numz \<rho> g w ls (int n)"
  using numD(2) [of \<rho> g w ls n] by (simp add: numz_def sem_of_int_of_nat)

lemma num_numz: "numz \<rho> g w ls (int n) \<Longrightarrow> num \<rho> g w ls (n mod 2 ^ w)"
  by (simp add: numz_def sem_of_int_of_nat)

lemma numz_mono: "numz \<rho> g w ls z \<Longrightarrow> aig_le g g' \<Longrightarrow> numz \<rho> g' w ls z"
  by (simp add: numz_def num_mono)

lemma numz_cong: "numz \<rho> g w ls x \<Longrightarrow> x mod 2 ^ w = y mod 2 ^ w \<Longrightarrow> numz \<rho> g w ls y"
  by (simp add: numz_def sem_of_int_def)

lemma numz_length: "numz \<rho> g w ls x \<Longrightarrow> length ls = w"
  by (simp add: numz_def numD(1))

lemma sem_of_int_add: "(sem_of_int w x + sem_of_int w y) mod 2 ^ w = sem_of_int w (x + y)"
proof -
  have "int ((sem_of_int w x + sem_of_int w y) mod 2 ^ w) = int (sem_of_int w (x + y))"
    by (simp only: int_sem_of_int zmod_int of_nat_add of_nat_power of_nat_numeral mod_add_eq)
  then show ?thesis by simp
qed

lemma sem_of_int_sub: "(sem_of_int w x + (2 ^ w - sem_of_int w y)) mod 2 ^ w = sem_of_int w (x - y)"
proof -
  have e: "int (a + (2 ^ w - b)) = int a - int b + 2 ^ w" if "b \<le> 2 ^ w" for a b
    using that by (simp add: of_nat_diff)
  have "int ((sem_of_int w x + (2 ^ w - sem_of_int w y)) mod 2 ^ w) = (x mod 2 ^ w - y mod 2 ^ w + 2 ^ w) mod 2 ^ w"
    unfolding zmod_int e [OF less_imp_le [OF sem_of_int_less]] int_sem_of_int by simp
  also have "\<dots> = int (sem_of_int w (x - y))" unfolding int_sem_of_int mod_add_self2 by (rule mod_diff_eq)
  finally show ?thesis by simp
qed

lemma blast_add_numz:
  "numz \<rho> g w a x \<Longrightarrow> numz \<rho> g w b y \<Longrightarrow> gives g (blast_add a b g) (\<lambda>g' r. numz \<rho> g' w r (x + y))"
  unfolding numz_def sem_of_int_add [symmetric] by (rule blast_add_gives)

lemma blast_sub_numz:
  "numz \<rho> g w a x \<Longrightarrow> numz \<rho> g w b y \<Longrightarrow> gives g (blast_sub a b g) (\<lambda>g' r. numz \<rho> g' w r (x - y))"
  unfolding numz_def sem_of_int_sub [symmetric] by (rule blast_sub_gives)

lemma numz_zero: "aig_inv g \<Longrightarrow> numz \<rho> g w (replicate w FALSE) 0"
  using numz_num [OF num_zero] by fastforce

lemma blast_neg_numz:
  assumes "numz \<rho> g w a x"
  shows "gives g (blast_neg a g) (\<lambda>g' r. numz \<rho> g' w r (- x))"
proof (rule gives_inv)
  assume "aig_inv g"
  from blast_sub_numz [OF numz_zero [OF this] assms] show ?thesis
    by (simp add: blast_neg_def numz_length [OF assms])
qed

text \<open>A copy of a word moved up by \<open>i\<close> columns.\<close>

lemma shifted_row:
  assumes "aig_inv g" "num \<rho> g (w - i) ls n" "i \<le> w"
  shows "num \<rho> g w (replicate i FALSE @ ls) (n * 2 ^ i)"
  using num_append [OF num_zero [OF assms(1), of \<rho> i] assms(2)] assms(3) by simp

lemma shifted_numz:
  assumes "aig_inv g" "numz \<rho> g w a x" "i \<le> w"
  shows "numz \<rho> g w (replicate i FALSE @ take (w - i) a) (x * 2 ^ i)"
proof -
  have n: "num \<rho> g w a (sem_of_int w x)" using assms(2) by (simp add: numz_def)
  have "num \<rho> g w (replicate i FALSE @ take (w - i) a) (sem_of_int w x mod 2 ^ (w - i) * 2 ^ i)"
    by (rule shifted_row [OF assms(1) num_take [OF n] assms(3)]) simp
  then show ?thesis
  proof (rule numz_num [THEN numz_cong])
    have "(2::int) ^ w = 2 ^ i * 2 ^ (w - i)" using assms(3) by (simp flip: power_add)
    then have "int (sem_of_int w x mod 2 ^ (w - i) * 2 ^ i) mod 2 ^ w = (int (sem_of_int w x) * 2 ^ i) mod 2 ^ w"
      by (simp add: zmod_int mult.commute flip: mult_mod_right)
    then show "int (sem_of_int w x mod 2 ^ (w - i) * 2 ^ i) mod 2 ^ w = (x * 2 ^ i) mod 2 ^ w"
      by (simp add: int_sem_of_int mod_simps)
  qed
qed

section \<open>Shift and add\<close>

lemma mul_rows_gives:
  assumes "num \<rho> g w a n" "num \<rho> g w b m"
  shows "gives g (mul_rows a b g) (\<lambda>g' r. numz \<rho> g' w r (int n * int m))"
proof (rule gives_inv)
  assume inv: "aig_inv g"
  have l: "length a = w" "length (enumerate 0 b) = w" "length b = w" using numD(1) [OF assms(1)] numD(1) [OF assms(2)] by simp_all
  have "gives g (mul_rows a b g)
      (\<lambda>g' r. numz \<rho> g' w r (int n * int (m mod 2 ^ length (enumerate 0 b))))"
    unfolding mul_rows_def Let_def l(1)
  proof (rule build_fold_gives, goal_cases)
    case 1
    show ?case using numz_zero [OF inv] by simp
  next
    case (2 i acc g1)
    have i: "i < w" using 2(1) l(2) by simp
    have e: "enumerate 0 b ! i = (i, b ! i)" using i l(3) by (simp add: nth_enumerate_eq)
    have bi: "lit \<rho> g1 (b ! i) (bit m i)" by (rule numD(3) [OF num_mono [OF assms(2) 2(2)] i])
    show ?case unfolding e prod.case
    proof (cases "b ! i = FALSE")
      case True
      show "gives g1 (if b ! i = FALSE then Some (acc, g1) else if i > w then None else do {
             (row, g) \<leftarrow> build_map (\<lambda>x g. aig_and x (b ! i) g) (take (w - i) a) g1;
             blast_add acc (replicate i FALSE @ row) g }) (\<lambda>g' r. numz \<rho> g' w r (int n * int (m mod 2 ^ Suc i)))"
        unfolding if_P [OF True]
      proof (rule gives_inv)
        assume "aig_inv g1"
        then have "\<not> bit m i" using bi True by (simp add: lit_const)
        then show "gives g1 (Some (acc, g1)) (\<lambda>g' r. numz \<rho> g' w r (int n * int (m mod 2 ^ Suc i)))"
          using 2(3) unfolding mod_Suc_power by (intro gives_return) simp
      qed
    next
      case False
      have ni: "\<not> w < i" using i by simp
      define row where "row = (if bit m i then n mod 2 ^ (w - i) else 0)"
      have "gives g1 (build_map (\<lambda>x g. aig_and x (b ! i) g) (take (w - i) a) g1) (\<lambda>g' ys. num \<rho> g' (w - i) ys row)"
      proof (rule build_map_num, goal_cases)
        case (3 j g2)
        have "lit \<rho> g2 (a ! j) (bit n j)" using 3(1) by (intro numD(3) [OF num_mono [OF num_mono [OF assms(1) 2(2)] 3(2)]]) simp
        from aig_and_gives [OF this lit_mono [OF bi 3(2)]]
        have "gives g2 (aig_and (a ! j) (b ! i) g2) (\<lambda>g' r. lit \<rho> g' r (bit row j))"
          using 3(1) by (auto elim!: gives_weaken lit_cong simp: row_def bit_take_bit_iff simp flip: take_bit_eq_mod)
        then show ?case using 3(1) l(1) by simp
      qed (use l(1) in \<open>auto simp: row_def\<close>)
      then have "gives g1 (do { (row, g) \<leftarrow> build_map (\<lambda>x g. aig_and x (b ! i) g) (take (w - i) a) g1;
             blast_add acc (replicate i FALSE @ row) g })
          (\<lambda>g' r. numz \<rho> g' w r (int n * int (m mod 2 ^ i) + int (row * 2 ^ i)))"
      proof (rule gives_bind, goal_cases)
        case (1 ls g2)
        show ?case unfolding prod.case
        proof (rule gives_inv)
          assume "aig_inv g2"
          from numz_num [OF shifted_row [OF this 1(2)]] i
          show "gives g2 (blast_add acc (replicate i FALSE @ ls) g2)
              (\<lambda>g' r. numz \<rho> g' w r (int n * int (m mod 2 ^ i) + int (row * 2 ^ i)))"
            by (intro blast_add_numz numz_mono [OF 2(3) 1(1)]) simp
        qed
      qed
      moreover have "(int n * int (m mod 2 ^ i) + int (row * 2 ^ i)) mod 2 ^ w = (int n * int (m mod 2 ^ Suc i)) mod 2 ^ w"
      proof -
        have "(2::nat) ^ w = 2 ^ i * 2 ^ (w - i)" using i by (simp flip: power_add)
        then have "(row * 2 ^ i) mod 2 ^ w = (n * of_bool (bit m i) * 2 ^ i) mod 2 ^ w"
          by (cases "bit m i") (simp_all add: row_def mult.commute flip: mult_mod_right)
        then have "int (row * 2 ^ i) mod 2 ^ w = int (n * of_bool (bit m i) * 2 ^ i) mod 2 ^ w"
          by (metis of_nat_numeral of_nat_power zmod_int)
        then have "(int n * int (m mod 2 ^ i) + int (row * 2 ^ i)) mod 2 ^ w =
            (int n * int (m mod 2 ^ i) + int (n * of_bool (bit m i) * 2 ^ i)) mod 2 ^ w"
          by (rule mod_add_cong [OF refl])
        also have "int n * int (m mod 2 ^ i) + int (n * of_bool (bit m i) * 2 ^ i) = int n * int (m mod 2 ^ Suc i)"
          unfolding mod_Suc_power by (simp add: algebra_simps)
        finally show ?thesis .
      qed
      ultimately show "gives g1 (if b ! i = FALSE then Some (acc, g1) else if i > w then None else do {
             (row, g) \<leftarrow> build_map (\<lambda>x g. aig_and x (b ! i) g) (take (w - i) a) g1;
             blast_add acc (replicate i FALSE @ row) g }) (\<lambda>g' r. numz \<rho> g' w r (int n * int (m mod 2 ^ Suc i)))"
        unfolding if_not_P [OF False] if_not_P [OF ni] by (auto elim!: gives_weaken intro: numz_cong)
    qed
  qed
  moreover have "m mod 2 ^ w = m" using numD(2) [OF assms(2)] by simp
  ultimately show ?thesis unfolding l(2) by simp
qed

end
