(* ===== verification/Mul_Constant.thy ===== *)
theory Mul_Constant
  imports Mul_Rows
begin

unbundle bit_operations_syntax

declare One_nat_def [simp del]

text \<open>
  Multiplication by a constant: its signed digits add up to it, and its factors multiply to it
  up to the correction.
\<close>

section \<open>Signed digits\<close>

definition digit_value :: "nat \<times> bool \<Rightarrow> int" where
  "digit_value d = (if snd d then - 1 else 1) * 2 ^ fst d"

definition digits_value :: "(nat \<times> bool) list \<Rightarrow> int" where
  "digits_value ds = sum_list (map digit_value ds)"

lemma digits_value_simps [simp]: "digits_value [] = 0" "digits_value (d # ds) = digit_value d + digits_value ds"
  "digits_value (ds @ es) = digits_value ds + digits_value es"
  by (simp_all add: digits_value_def)

lemma digits_value_rev [simp]: "digits_value (rev ds) = digits_value ds"
  by (induction ds) simp_all

text \<open>The number the literals \<open>TRUE\<close> of a list spell.\<close>

primrec true_value :: "L list \<Rightarrow> int" where
  "true_value [] = 0"
| "true_value (l # ls) = of_bool (l = TRUE) + 2 * true_value ls"

lemma signed_digits_value:
  "digits_value (signed_digits i carry ls) mod 2 ^ (i + length ls) =
     (2 ^ i * (true_value ls + of_bool carry)) mod 2 ^ (i + length ls)"
proof (induction i carry ls rule: signed_digits.induct)
  case (1 i carry)
  then show ?case by simp
next
  case (2 i carry x xs)
  have len: "i + length (x # xs) = i + 1 + length xs" by simp
  consider "x \<noteq> TRUE" "\<not> carry" | "x = TRUE" "carry" | "(x = TRUE) \<noteq> carry" by blast
  then show ?case
  proof cases
    case 1
    then show ?thesis using "2.IH"(1) unfolding len by (simp add: power_add ac_simps)
  next
    case 2
    then show ?thesis using "2.IH"(2) unfolding len by (simp add: power_add algebra_simps)
  next
    case 3
    define neg where "neg = (xs \<noteq> [] \<and> hd xs = TRUE)"
    have ih: "digits_value (signed_digits (i + 1) neg xs) mod 2 ^ (i + 1 + length xs) =
        (2 ^ (i + 1) * (true_value xs + of_bool neg)) mod 2 ^ (i + 1 + length xs)"
      using "2.IH"(3) 3 unfolding neg_def by blast
    have e: "signed_digits i carry (x # xs) = (i, neg) # signed_digits (i + 1) neg xs"
      using 3 unfolding neg_def by (auto simp: Let_def)
    have s: "digit_value (i, neg) + 2 ^ (i + 1) * (true_value xs + of_bool neg) =
        2 ^ i * (true_value (x # xs) + of_bool carry)"
      using 3 by (cases neg; cases carry) (simp_all add: digit_value_def power_add algebra_simps)
    show ?thesis unfolding len e digits_value_simps s [symmetric] by (rule mod_add_cong [OF refl ih])
  qed
qed

lemma signed_digits_range: "(k, neg) \<in> set (signed_digits i carry ls) \<Longrightarrow> i \<le> k \<and> k < i + length ls"
  by (induction i carry ls rule: signed_digits.induct) (fastforce simp: Let_def split: if_splits)+

lemma true_value_num:
  assumes "aig_inv g" "num \<rho> g w ls m" "is_const ls"
  shows "true_value ls = int m"
  using assms(2,3)
proof (induction ls arbitrary: w m)
  case Nil
  then have "w = 0" by (auto simp: num_def)
  then show ?case using Nil by simp
next
  case (Cons l ls)
  obtain v where w: "w = Suc v" using Cons.prems(1) by (cases w) (auto simp: num_def)
  have l0: "lit \<rho> g l (bit m 0)" using numD(3) [OF Cons.prems(1), of 0] w by simp
  have lt: "l \<le> TRUE" using Cons.prems(2) by (simp add: is_const_def)
  have "num \<rho> g v ls (m div 2)"
    using num_drop [OF Cons.prems(1), of 1] w by (simp add: One_nat_def)
  then have "true_value ls = int (m div 2)" using Cons by (auto simp: is_const_def)
  moreover have "of_bool (l = TRUE) = int (m mod 2)"
    using lit_le_true [OF assms(1) l0 lt] by (simp add: bit_0 mod_2_eq_odd)
  moreover have "int (m mod 2) + 2 * int (m div 2) = int m" by (metis add.commute mult_div_mod_eq of_nat_add of_nat_mult of_nat_numeral)
  ultimately show ?case by simp
qed

lemma mul_constant_unfactored_gives:
  assumes "numz \<rho> g w a x" "num \<rho> g w c m" "is_const c"
  shows "gives g (mul_constant_unfactored a c g) (\<lambda>g' r. numz \<rho> g' w r (x * int m))"
proof (rule gives_inv)
  assume inv: "aig_inv g"
  have n: "num \<rho> g w a (sem_of_int w x)" using assms(1) by (simp add: numz_def)
  have la: "length a = w" by (rule numz_length [OF assms(1)])
  have lc: "length c = w" by (rule numD(1) [OF assms(2)])
  define ds where "ds = signed_digits 0 False c"
  have dv: "digits_value ds mod 2 ^ w = int m mod 2 ^ w"
    using signed_digits_value [of 0 False c] true_value_num [OF inv assms(2,3)] lc by (simp add: ds_def)
  define step where "step = (\<lambda>(shift, negative) acc g.
               if shift > length a then None
               else let part = replicate shift FALSE @ take (length a - shift) a
                    in do {
                      (r, g) \<leftarrow> (case acc of
                          None \<Rightarrow> if negative then blast_neg part g else Some (part, g)
                        | Some acc \<Rightarrow> if negative then blast_sub acc part g else blast_add acc part g);
                      Some (Some r, g) })"
  define I where "I = (\<lambda>g k acc. case acc of None \<Rightarrow> k = 0 | Some r \<Rightarrow> numz \<rho> g w r (x * digits_value (take k (rev ds))))"
  have rows: "gives g (build_fold step (rev ds) None g) (\<lambda>g' acc. I g' (length (rev ds)) acc)"
  proof (rule build_fold_gives, goal_cases)
    case 1
    show ?case by (simp add: I_def)
  next
    case (2 i acc g1)
    obtain k neg where d: "rev ds ! i = (k, neg)" by (cases "rev ds ! i")
    then have "(k, neg) \<in> set ds" using 2(1) by (metis nth_mem set_rev)
    then have k: "k < w" using signed_digits_range [of k neg 0 False c] lc by (simp add: ds_def)
    define part where "part = replicate k FALSE @ take (length a - k) a"
    have nk: "\<not> length a < k" using k la by simp
    have tk: "x * digits_value (take (Suc i) (rev ds)) = x * digits_value (take i (rev ds)) + x * digit_value (k, neg)"
      using 2(1) by (simp add: take_Suc_conv_app_nth d distrib_left)
    show ?case unfolding d step_def prod.case if_not_P [OF nk] Let_def part_def [symmetric]
    proof (rule gives_inv)
      assume inv1: "aig_inv g1"
      have p: "numz \<rho> g1 w part (x * 2 ^ k)"
        unfolding part_def la using shifted_numz [OF inv1 numz_mono [OF assms(1) 2(2)]] k by simp
      have "gives g1 (case acc of None \<Rightarrow> if neg then blast_neg part g1 else Some (part, g1)
                        | Some acc \<Rightarrow> if neg then blast_sub acc part g1 else blast_add acc part g1)
          (\<lambda>g' r. numz \<rho> g' w r (x * digits_value (take (Suc i) (rev ds))))"
      proof (cases acc)
        case None
        then have "i = 0" using 2(3) by (simp add: I_def)
        then show ?thesis unfolding tk
          using blast_neg_numz [OF p] gives_return [of "\<lambda>g' r. numz \<rho> g' w r (x * 2 ^ k)", OF p]
          by (simp add: None digit_value_def)
      next
        case (Some r)
        then have r: "numz \<rho> g1 w r (x * digits_value (take i (rev ds)))" using 2(3) by (simp add: I_def)
        show ?thesis unfolding tk
          using blast_sub_numz [OF r p] blast_add_numz [OF r p] by (simp add: Some digit_value_def)
      qed
      then show "gives g1 (do { (r, g) \<leftarrow> (case acc of None \<Rightarrow> if neg then blast_neg part g1 else Some (part, g1)
                        | Some acc \<Rightarrow> if neg then blast_sub acc part g1 else blast_add acc part g1);
                      Some (Some r, g) }) (\<lambda>g'' acc. I g'' (Suc i) acc)"
        by (rule gives_bind) (auto intro!: gives_return simp: I_def)
    qed
  qed
  have weigh: "numz \<rho> g' w r (x * digits_value ds) \<Longrightarrow> numz \<rho> g' w r (x * int m)" for g' r
    by (erule numz_cong) (rule mod_mult_cong [OF refl dv])
  show ?thesis
  proof (cases "length ds + (if ds \<noteq> [] \<and> snd (last ds) then 1 else 0) \<ge> length (filter (\<lambda>x. x = TRUE) c)")
    case True
    then have "mul_constant_unfactored a c g = mul_rows a c g"
      by (simp add: mul_constant_unfactored_def Let_def ds_def)
    then show ?thesis
      by (auto intro!: gives_weaken [OF mul_rows_gives [OF n assms(2)]] elim!: numz_cong simp: int_sem_of_int mod_mult_left_eq)
  next
    case False
    then have "mul_constant_unfactored a c g = do {
        (acc, g) \<leftarrow> build_fold step (rev ds) None g;
        Some (case acc of Some r \<Rightarrow> r | None \<Rightarrow> replicate (length a) FALSE, g) }"
      unfolding mul_constant_unfactored_def Let_def ds_def step_def by simp
    moreover have "gives g (do { (acc, g) \<leftarrow> build_fold step (rev ds) None g;
        Some (case acc of Some r \<Rightarrow> r | None \<Rightarrow> replicate (length a) FALSE, g) }) (\<lambda>g' r. numz \<rho> g' w r (x * int m))"
    proof (rule gives_bind [OF rows], goal_cases)
      case (1 acc g')
      show ?case unfolding prod.case
      proof (rule gives_inv)
        assume inv': "aig_inv g'"
        have "numz \<rho> g' w (case acc of Some r \<Rightarrow> r | None \<Rightarrow> replicate (length a) FALSE) (x * digits_value ds)"
          using 1(2) numz_zero [OF inv', of \<rho> w] la by (cases acc) (simp_all add: I_def)
        then show "gives g' (Some (case acc of Some r \<Rightarrow> r | None \<Rightarrow> replicate (length a) FALSE, g'))
            (\<lambda>g' r. numz \<rho> g' w r (x * int m))"
          by (intro gives_return [where P = "\<lambda>g' r. numz \<rho> g' w r (x * int m)"] weigh)
      qed
    qed
    ultimately show ?thesis by simp
  qed
qed

section \<open>Factors of a constant\<close>

text \<open>Each Newton step squares the distance to the inverse, which is even for an odd factor.\<close>

lemma newton_step_error: "1 - f * newton_step f x = (1 - f * x) * (1 - f * x)"
  by (simp add: newton_step_def algebra_simps)

lemma newton_steps_error: "1 - f * for_up n (\<lambda>_. newton_step f) x = (1 - f * x) ^ (2 ^ n)"
  by (induction n) (simp_all add: newton_step_error power2_eq_square [symmetric] mult_2 power_add)

lemma even_power_zero: "even (x :: u64) \<Longrightarrow> x ^ 64 = 0"
proof -
  assume "even x"
  then obtain y where "x = 2 * y" by (elim evenE)
  then have "x ^ 64 = 2 ^ 64 * y ^ 64" by (simp add: power_mult_distrib)
  also have "(2 :: u64) ^ 64 = 0"
  proof -
    have "LENGTH(64) = 64" by simp
    from word_exp_length_eq_0 [where 'a = 64, unfolded this] show ?thesis .
  qed
  finally show ?thesis by simp
qed

lemma newton_inverse:
  assumes "odd (f :: u64)"
  shows "f * for_up 6 (\<lambda>_. newton_step f) 1 = 1"
proof -
  have "even (1 - f * 1)" using assms by simp
  from even_power_zero [OF this] have "(1 - f * 1) ^ (2 ^ 6) = 0" by simp
  then have "1 - f * for_up 6 (\<lambda>_. newton_step f) 1 = 0" unfolding newton_steps_error .
  then show ?thesis by simp
qed

definition factors_ok :: "u64 \<Rightarrow> (u64 \<times> u64 \<times> int) option \<Rightarrow> bool" where
  "factors_ok value s \<longleftrightarrow> (case s of None \<Rightarrow> True
     | Some (f, other, c) \<Rightarrow> f * other + word_of_int c = value \<and> c \<in> {0, 1, - 1})"

lemma factor_candidate_ok:
  assumes "odd f" "c \<in> {0, 1, - 1}" "factors_ok value (snd s)"
  shows "factors_ok value (snd (factor_candidate value width f c s))"
proof -
  obtain best fs where s: "s = (best, fs)" by (cases s)
  define other where "other = (value + word_of_int (- c)) * for_up 6 (\<lambda>_. newton_step f) 1"
  have "f * other + word_of_int c = (value + word_of_int (- c)) * (f * for_up 6 (\<lambda>_. newton_step f) 1) + word_of_int c"
    by (simp add: other_def ac_simps)
  also have "\<dots> = value" unfolding newton_inverse [OF assms(1)] by (simp add: word_of_int_minus)
  finally have "factors_ok value (Some (f, other, c))" using assms(2) by (simp add: factors_ok_def)
  then show ?thesis using assms(3) unfolding factor_candidate_def s prod.case Let_def other_def [symmetric]
    by (auto split: if_splits)
qed

lemma odd_candidate: "odd (word_of_nat (2 * k + 3) :: u64)"
  by (simp flip: of_nat_mult)

lemma constant_factors_ok:
  assumes "constant_factors c = Some (f, other, corr)" "constant_value c = Some value"
  shows "f * other + word_of_int corr = value \<and> corr \<in> {0, 1, - 1}" "length c = 64"
proof -
  have all: "factors_ok value (snd (fold (\<lambda>k state. fold (\<lambda>correction. factor_candidate value 64
      (word_of_nat (2 * k + 3)) correction) [0, 1, - 1] state) ks s))" if "factors_ok value (snd s)" for ks s
    using that
  proof (induction ks arbitrary: s)
    case (Cons k ks)
    have "factors_ok value (snd (fold (\<lambda>correction. factor_candidate value 64
        (word_of_nat (2 * k + 3)) correction) [0, 1, - 1] s))"
      unfolding fold_simps o_apply by (intro factor_candidate_ok odd_candidate Cons.prems) simp_all
    then show ?case unfolding fold_simps(2) [of _ k ks] o_apply by (rule Cons.IH)
  qed simp
  show len: "length c = 64" using assms(1) by (auto simp: constant_factors_def Let_def split: if_splits)
  define st where "st = fold (\<lambda>k state. fold (\<lambda>correction. factor_candidate value 64
      (word_of_nat (2 * k + 3)) correction) [0, 1, - 1] state) [0..<127] (constant_work value 64, None)"
  have "(case st of (best, factors) \<Rightarrow> if best * 10 \<le> constant_work value 64 * 9 then factors else None) = Some (f, other, corr)"
    using assms(1) unfolding constant_factors_def Let_def len assms(2) option.case st_def [symmetric]
    by (simp split: if_splits)
  then have "snd st = Some (f, other, corr)" by (cases st) (simp split: if_splits)
  moreover have "factors_ok value (snd st)" unfolding st_def by (rule all) (simp add: factors_ok_def)
  ultimately show "f * other + word_of_int corr = value \<and> corr \<in> {0, 1, - 1}" by (simp add: factors_ok_def)
qed

lemma constant_value_bits:
  assumes "constant_value c = Some v" "length c \<le> 64"
  shows "is_const c \<and> (\<forall>i<64. bit v i = (i < length c \<and> c ! i = TRUE))"
  using assms
proof (induction c arbitrary: v rule: rev_induct)
  case Nil
  then show ?case by (simp add: constant_value_def is_const_def)
next
  case (snoc x xs)
  have e: "constant_value (xs @ [x]) = (case constant_value xs of None \<Rightarrow> None
         | Some v \<Rightarrow> if x \<le> TRUE then Some (v OR push_bit (length xs) (of_bool (x = TRUE))) else None)"
    by (simp add: constant_value_def enumerate_append_eq)
  then obtain u where u: "constant_value xs = Some u" "x \<le> TRUE" "v = u OR push_bit (length xs) (of_bool (x = TRUE))"
    using snoc.prems(1) by (auto split: option.splits if_splits)
  have l: "length xs < 64" using snoc.prems(2) by simp
  have IH: "is_const xs" "i < 64 \<Longrightarrow> bit u i = (i < length xs \<and> xs ! i = TRUE)" for i
    using snoc.IH [OF u(1)] l by auto
  have "bit v i = (i < length (xs @ [x]) \<and> (xs @ [x]) ! i = TRUE)" if "i < 64" for i
  proof -
    have "bit v i = ((i < length xs \<and> xs ! i = TRUE) \<or> (i = length xs \<and> x = TRUE))"
    proof -
      have "bit (push_bit (length xs) (of_bool (x = TRUE) :: u64)) i = (i = length xs \<and> x = TRUE)"
        using that by (cases "x = TRUE") (auto simp: bit_push_bit_iff bit_1_iff bit_exp_iff)
      then show ?thesis unfolding u(3) bit_or_iff IH(2) [OF that] by blast
    qed
    then show ?thesis by (auto simp: nth_append less_Suc_eq)
  qed
  then show ?case using IH(1) u(2) by (simp add: is_const_def)
qed

lemma constant_value_num:
  assumes "aig_inv g" "num \<rho> g 64 c m" "constant_value c = Some v"
  shows "unat v = m"
proof (rule bit_eqI)
  fix i
  have l: "length c = 64" by (rule numD(1) [OF assms(2)])
  have b: "is_const c" "i < 64 \<Longrightarrow> bit v i = (c ! i = TRUE)"
    using constant_value_bits [OF assms(3)] l by auto
  show "bit (unat v) i = bit m i"
  proof (cases "i < 64")
    case True
    have "c ! i \<le> TRUE" using b(1) True l by (simp add: is_const_def list_all_length)
    from lit_le_true [OF assms(1) numD(3) [OF assms(2) True] this] show ?thesis
      using b(2) True by (simp add: bit_unat)
  next
    case False
    then show ?thesis using bit_nat_less [OF numD(2) [OF assms(2)], of i] by (auto simp: bit_unat dest: bit_imp_le_length)
  qed
qed

lemma correct_product_gives:
  assumes "numz \<rho> g w p x" "numz \<rho> g w a y" "c \<in> {0, 1, - 1}"
  shows "gives g (correct_product p a c g) (\<lambda>g' r. numz \<rho> g' w r (x + c * y))"
  using assms(3) blast_add_numz [OF assms(1,2)] blast_sub_numz [OF assms(1,2)]
    gives_return [of "\<lambda>g' r. numz \<rho> g' w r x", OF assms(1)]
  by (auto simp: correct_product_def)

lemma unat_lt2p_64: "unat (v :: u64) < 2 ^ 64"
  using unsigned_less [of v] by simp

lemma small_bits_const:
  assumes "aig_inv g"
  shows "num \<rho> g 64 (small_bits 64 v) (unat v)" "is_const (small_bits 64 v)"
  using num_small_bits [OF assms, of \<rho> 64 v] unat_lt2p_64 [of v]
  by (simp_all add: is_const_def small_bits_def list_all_length)

lemma factored_value:
  assumes "(f :: u64) * other + word_of_int c = v"
  shows "(x * int (unat f) * int (unat other) + c * x) mod 2 ^ 64 = (x * int (unat v)) mod 2 ^ 64"
proof -
  have "int (unat v) = uint v" by simp
  also have "\<dots> = (uint f * uint other + c) mod 2 ^ 64"
    unfolding assms [symmetric] by (simp add: uint_word_ariths uint_word_of_int mod_simps)
  finally have "(x * int (unat v)) mod 2 ^ 64 = (x * (uint f * uint other + c)) mod 2 ^ 64"
    by (simp add: mod_simps)
  then show ?thesis by (simp add: algebra_simps)
qed

lemma mul_constant_gives:
  assumes "num \<rho> g w a n" "num \<rho> g w c m" "is_const c"
  shows "gives g (mul_constant a c g) (\<lambda>g' r. numz \<rho> g' w r (int n * int m))"
proof (rule gives_inv)
  assume inv: "aig_inv g"
  show ?thesis
  proof (cases "if factorable_data a then constant_factors c else None")
    case None
    then show ?thesis unfolding mul_constant_def
      using mul_constant_unfactored_gives [OF numz_num [OF assms(1)] assms(2,3)] by simp
  next
    case (Some t)
    then obtain f other corr where t: "constant_factors c = Some (f, other, corr)" "t = (f, other, corr)"
      and fd: "factorable_data a"
      by (cases t) (auto split: if_splits)
    then have w: "w = 64" "length a = 64" using numD(1) [OF assms(1)] by (auto simp: factorable_data_def split: if_splits)
    from t(1) obtain v where v: "constant_value c = Some v"
      by (auto simp: constant_factors_def Let_def split: if_splits option.splits)
    note fok = constant_factors_ok(1) [OF t(1) v]
    have vm: "unat v = m" using constant_value_num [OF inv _ v] assms(2) w(1) by blast
    have a: "numz \<rho> g 64 a (int n)" using numz_num [OF assms(1)] w(1) by simp
    have "gives g (do {
            (intermediate, g) \<leftarrow> mul_constant_unfactored a (small_bits 64 f) g;
            (product, g) \<leftarrow> mul_constant_unfactored intermediate (small_bits 64 other) g;
            correct_product product a corr g })
       (\<lambda>g' r. numz \<rho> g' 64 r (int n * int (unat f) * int (unat other) + corr * int n))"
    proof (rule gives_bind [OF mul_constant_unfactored_gives [OF a small_bits_const [OF inv]]], goal_cases)
      case (1 im g1)
      show ?case unfolding prod.case
      proof (rule gives_inv)
        assume inv1: "aig_inv g1"
        show "gives g1 (do { (product, g) \<leftarrow> mul_constant_unfactored im (small_bits 64 other) g1; correct_product product a corr g })
            (\<lambda>g' r. numz \<rho> g' 64 r (int n * int (unat f) * int (unat other) + corr * int n))"
        proof (rule gives_bind [OF mul_constant_unfactored_gives [OF 1(2) small_bits_const [OF inv1]]], goal_cases)
          case (1 p g2)
          have "numz \<rho> g2 64 a (int n)" by (rule numz_mono [OF numz_mono [OF a \<open>aig_le g g1\<close>] 1(1)])
          from correct_product_gives [OF 1(2) this, of corr] show ?case unfolding prod.case using fok by blast
        qed
      qed
    qed
    then have "gives g (do {
            (intermediate, g) \<leftarrow> mul_constant_unfactored a (small_bits 64 f) g;
            (product, g) \<leftarrow> mul_constant_unfactored intermediate (small_bits 64 other) g;
            correct_product product a corr g })
       (\<lambda>g' r. numz \<rho> g' w r (int n * int m))"
      using factored_value [of f other corr v "int n"] fok unfolding w(1) vm
      by (elim gives_weaken numz_cong) blast
    then show ?thesis unfolding mul_constant_def Some t(2) by (simp add: w(2) Let_def)
  qed
qed

section \<open>Products\<close>

text \<open>A word with one possibly nonzero bit selects the other word.\<close>

lemma zero_tail:
  assumes "aig_inv g" "num \<rho> g w a n" "a \<noteq> []" "list_all (\<lambda>x. x = FALSE) (tl a)"
  shows "lit \<rho> g (hd a) (n = 1)" "n = 0 \<or> n = 1"
proof -
  have w: "0 < w" using assms(2,3) by (auto simp: num_def)
  have z: "\<not> bit n i" if "0 < i" "i < w" for i
  proof -
    have "a ! i = FALSE" using that assms(3,4) numD(1) [OF assms(2)]
      by (cases a; cases i) (auto simp: list_all_length)
    then show ?thesis using numD(3) [OF assms(2) that(2)] lit_const(1) [OF assms(1)] by simp
  qed
  have "n = of_bool (bit n 0)"
  proof (rule bit_eqI)
    show "bit n i = bit (of_bool (bit n 0) :: nat) i" for i
      using z [of i] bit_nat_less [OF numD(2) [OF assms(2)], of i] by (cases "i = 0") (auto simp: bit_0 bit_1_iff)
  qed
  then show "n = 0 \<or> n = 1" by (cases "bit n 0") simp_all
  then show "lit \<rho> g (hd a) (n = 1)"
    using numD(3) [OF assms(2) w] assms(3) by (auto simp: hd_conv_nth bit_0)
qed

lemma select_word_gives:
  assumes "lit \<rho> g c (k = 1)" "k = 0 \<or> k = 1" "num \<rho> g w a n"
  shows "gives g (build_map (\<lambda>x g. aig_and c x g) a g) (\<lambda>g' r. numz \<rho> g' w r (int k * int n))"
proof -
  have "gives g (build_map (\<lambda>x g. aig_and c x g) a g) (\<lambda>g' r. num \<rho> g' w r (if k = 1 then n else 0))"
  proof (rule build_map_num [OF numD(1) [OF assms(3)]], goal_cases)
    case (2 i g')
    from aig_and_gives [OF lit_mono [OF assms(1) 2(2)] numD(3) [OF num_mono [OF assms(3) 2(2)] 2(1)]]
    show ?case by (rule gives_weaken) (auto elim: lit_cong)
  qed (use numD(2) [OF assms(3)] in simp)
  then show ?thesis
    using assms(2) by (elim gives_weaken) (auto dest!: numz_num)
qed

lemma binary_factor_gives:
  assumes "num \<rho> g w a n" "num \<rho> g w b m" "binary_factor a b = Some (c, data)"
  shows "gives g (build_map (\<lambda>x g. aig_and c x g) data g) (\<lambda>g' r. numz \<rho> g' w r (int n * int m))"
proof (rule gives_inv)
  assume inv: "aig_inv g"
  consider "a \<noteq> []" "list_all (\<lambda>x. x = FALSE) (tl a)" "c = hd a" "data = b"
    | "b \<noteq> []" "list_all (\<lambda>x. x = FALSE) (tl b)" "c = hd b" "data = a"
    using assms(3) by (auto simp: binary_factor_def split: if_splits)
  then show ?thesis
  proof cases
    case 1
    from select_word_gives [OF zero_tail [OF inv assms(1) 1(1,2)] assms(2)] show ?thesis by (simp add: 1)
  next
    case 2
    from select_word_gives [OF zero_tail [OF inv assms(2) 2(1,2)] assms(1)] show ?thesis by (simp add: 2 mult.commute)
  qed
qed

lemma blast_mul_gives:
  assumes "num \<rho> g w a n" "num \<rho> g w b m"
  shows "gives g (blast_mul a b g) (\<lambda>g' r. num \<rho> g' w r (n * m mod 2 ^ w))"
proof -
  have "gives g (blast_mul a b g) (\<lambda>g' r. numz \<rho> g' w r (int n * int m))"
  proof (cases "binary_factor a b")
    case None
    then show ?thesis
      using mul_constant_gives [OF assms] mul_constant_gives [OF assms(2,1)] mul_rows_gives [OF assms]
      by (simp add: blast_mul_def mult.commute)
  next
    case (Some t)
    then show ?thesis using binary_factor_gives [OF assms] by (cases t) (simp add: blast_mul_def)
  qed
  then show ?thesis by (rule gives_weaken) (use num_numz [of _ _ w _ "n * m"] in simp)
qed

end
