(* ===== verification/Rotate_Correct.thy ===== *)
theory Rotate_Correct
  imports Shift_Correct Mul_Constant
begin

unbundle bit_operations_syntax

declare One_nat_def [simp del]

text \<open>Correctness of the rotations by a variable count.\<close>

section \<open>Rotations\<close>

definition rotated :: "bool \<Rightarrow> nat \<Rightarrow> nat \<Rightarrow> nat \<Rightarrow> nat" where
  "rotated left w n c = of_bits w (\<lambda>i. bit n (if left then (i + (w - c mod w)) mod w else (i + c) mod w))"

lemma bit_rotated: "bit (rotated left w n c) i \<longleftrightarrow> i < w \<and> bit n (if left then (i + (w - c mod w)) mod w else (i + c) mod w)"
  by (simp add: rotated_def)

lemma rotated_mod: "rotated left w n (c mod w) = rotated left w n c"
  by (rule bit_eqI) (simp add: bit_rotated mod_simps)

lemma rotated_0: "n < 2 ^ w \<Longrightarrow> rotated left w n 0 = n"
  by (rule bit_eqI) (auto simp: bit_rotated dest: bit_nat_less)

lemma int_sub_mod: "0 < w \<Longrightarrow> int ((i + (w - x mod w)) mod w) = (int i - int x) mod int w"
proof -
  assume "0 < w"
  then have e: "int (w - x mod w) = int w - int x mod int w" by (simp add: of_nat_diff zmod_int)
  have a: "int i + (int w - y) = (int i - y) + int w" for y by simp
  have "int ((i + (w - x mod w)) mod w) = ((int i - int x mod int w) + int w) mod int w"
    unfolding zmod_int of_nat_add e a ..
  then show ?thesis by (simp only: mod_add_self2 mod_diff_right_eq)
qed

lemma sub_mod_add:
  assumes "0 < (w::nat)"
  shows "(i + (w - (c + d) mod w)) mod w = ((i + (w - d mod w)) mod w + (w - c mod w)) mod w"
proof -
  have "int ((i + (w - (c + d) mod w)) mod w) = int (((i + (w - d mod w)) mod w + (w - c mod w)) mod w)"
    unfolding int_sub_mod [OF assms] mod_diff_left_eq of_nat_add by (simp only: diff_diff_eq add.commute)
  then show ?thesis by simp
qed

lemma rotated_rotated: "rotated left w (rotated left w n c) d = rotated left w n (c + d)"
proof (rule bit_eqI)
  fix i
  show "bit (rotated left w (rotated left w n c) d) i = bit (rotated left w n (c + d)) i"
  proof (cases "i < w")
    case True
    then show ?thesis
      using sub_mod_add [of w i c d] by (cases left) (simp_all add: bit_rotated mod_simps ac_simps)
  qed (simp add: bit_rotated)
qed

lemma rotated_sem:
  "rotated True w n c = sem_bin BRotL w n c" "rotated False w n c = sem_bin BRotR w n c"
  by (simp_all add: rotated_def sem_bin_def mod_simps)

lemma rotated_bits_num:
  assumes "num \<rho> g w a n" "c < w"
  shows "num \<rho> g w (rotated_bits a left c) (rotated left w n c)"
proof (rule numI)
  have la: "length a = w" by (rule numD(1) [OF assms(1)])
  show "lit \<rho> g (rotated_bits a left c ! i) (bit (rotated left w n c) i)" if "i < w" for i
  proof -
    define k where "k = (if left then (i + w - c) mod w else (i + c) mod w)"
    have k: "k < w" using that by (simp add: k_def)
    have "i + w - c = i + (w - c mod w)" using assms(2) by simp
    then have "bit (rotated left w n c) i = bit n k" using that unfolding bit_rotated k_def by simp
    moreover have "rotated_bits a left c ! i = a ! k" using that unfolding rotated_bits_def la k_def Let_def by simp
    ultimately show ?thesis using numD(3) [OF assms(1) k] by simp
  qed
qed (simp_all add: rotated_bits_def numD(1) [OF assms(1)] rotated_def)

lemma rotate_rounds:
  assumes a: "num \<rho> g w a n" and r: "num \<rho> g v r R" and k: "k \<le> v" and w: "0 < w"
  shows "gives g (build_fold (\<lambda>k cur g. let amt = 2 ^ k mod w
            in if amt = 0 then Some (cur, g) else blast_mux (r ! k) (rotated_bits cur left amt) cur g) [0..<k] a g)
    (\<lambda>g' x. num \<rho> g' w x (rotated left w n (R mod 2 ^ k)))"
proof -
  have "gives g (build_fold (\<lambda>k cur g. let amt = 2 ^ k mod w
            in if amt = 0 then Some (cur, g) else blast_mux (r ! k) (rotated_bits cur left amt) cur g) [0..<k] a g)
    (\<lambda>g' x. num \<rho> g' w x (rotated left w n (R mod 2 ^ length [0..<k])))"
  proof (rule build_fold_gives, goal_cases)
    case 1
    show ?case using a rotated_0 [OF numD(2) [OF a]] by simp
  next
    case (2 i cur g1)
    have i: "i < k" "[0..<k] ! i = i" using 2(1) by simp_all
    define amt where "amt = (2::nat) ^ i mod w"
    have ri: "lit \<rho> g1 (r ! i) (bit R i)" using i k by (intro numD(3) [OF num_mono [OF r 2(2)]]) simp
    have e: "rotated left w n (R mod 2 ^ Suc i) = (if bit R i then rotated left w n (R mod 2 ^ i + amt) else rotated left w n (R mod 2 ^ i))"
    proof (cases "bit R i")
      case True
      have "rotated left w n (R mod 2 ^ i + amt) = rotated left w n (R mod 2 ^ i + 2 ^ i)"
        unfolding amt_def by (subst (1 2) rotated_mod [symmetric]) (simp add: mod_simps)
      then show ?thesis using True unfolding mod_Suc_power by simp
    qed (simp add: mod_Suc_power del: power_Suc)
    show ?case unfolding i(2) Let_def amt_def [symmetric]
    proof (cases "amt = 0")
      case True
      have "num \<rho> g1 w cur (rotated left w n (R mod 2 ^ Suc i))" using 2(3) unfolding e True by simp
      then show "gives g1 (if amt = 0 then Some (cur, g1) else blast_mux (r ! i) (rotated_bits cur left amt) cur g1)
          (\<lambda>g'' acc. num \<rho> g'' w acc (rotated left w n (R mod 2 ^ Suc i)))"
        using True by (simp add: gives_return)
    next
      case False
      have "amt < w" using w by (simp add: amt_def)
      from blast_mux_gives [OF ri rotated_bits_num [OF 2(3) this, of left] 2(3), unfolded rotated_rotated]
      show "gives g1 (if amt = 0 then Some (cur, g1) else blast_mux (r ! i) (rotated_bits cur left amt) cur g1)
          (\<lambda>g'' acc. num \<rho> g'' w acc (rotated left w n (R mod 2 ^ Suc i)))"
        using False unfolding e by (simp only: if_False)
    qed
  qed
  then show ?thesis by simp
qed

lemma rank_one:
  assumes "rank_below n v = 1"
  obtains k where "k < v" "bit n k" "\<forall>i<v. bit n i \<longrightarrow> i = k"
proof -
  obtain k where "filter (bit n) [0..<v] = [k]"
    using assms by (auto simp: rank_below_def One_nat_def length_Suc_conv)
  then have "set (filter (bit n) [0..<v]) = {k}" by simp
  then have "i < v \<and> bit n i \<longleftrightarrow> i = k" for i by (auto simp: set_eq_iff)
  then show ?thesis using that [of k] by auto
qed

lemma power_of_two:
  assumes "is_power_of_two w" "w < 2 ^ 64"
  shows "w = 2 ^ trailing_zeros (word_of_nat w :: u64)"
proof -
  define x where "x = (word_of_nat w :: u64)"
  have ux: "unat x = w" using assms(2) by (simp add: x_def unat_of_nat)
  have r: "rank_below w 64 = 1" using assms(1) by (simp add: is_power_of_two_def count_ones_rank ux flip: x_def)
  have "x \<noteq> 0" using r ux by (auto simp: rank_below_def)
  note tz = trailing_zeros_bit [OF this]
  obtain k where k: "k < 64" "bit w k" "\<forall>i<64. bit w i \<longrightarrow> i = k" by (rule rank_one [OF r])
  have "bit w (trailing_zeros x)" using tz(2) by (simp add: bit_unat flip: ux)
  then have "trailing_zeros x = k" using k(3) tz(1) by blast
  moreover have "w = 2 ^ k"
  proof (rule bit_eqI)
    fix i
    have "bit w i \<longleftrightarrow> i = k" using k(2,3) bit_nat_less [OF assms(2), of i] by blast
    then show "bit w i = bit (2 ^ k :: nat) i" by (auto simp: bit_exp_iff)
  qed
  ultimately show ?thesis by (simp add: x_def)
qed

lemma resize_num:
  assumes "num \<rho> g v a n" "v \<le> w" "aig_inv g"
  shows "num \<rho> g w (resize w FALSE a) n"
  using num_append [OF assms(1) num_zero [OF assms(3), of \<rho> "w - v"]] numD(1) [OF assms(1)] assms(2)
  by (simp add: resize_def)

lemma blast_rotate_gives:
  assumes a: "num \<rho> g w a n" and s: "num \<rho> g v s c" and w: "0 < w" "w < 2 ^ 64" "w < 2 ^ v"
  shows "gives g (blast_rotate a s left g) (\<lambda>g' r. num \<rho> g' w r (rotated left w n c))"
proof (rule gives_inv)
  assume inv: "aig_inv g"
  have la: "length a = w" "length s = v" using numD(1) [OF a] numD(1) [OF s] by simp_all
  have count: "gives g (if is_power_of_two w then
            let k = trailing_zeros (word_of_nat w :: u64) in Some (resize (max k 1) FALSE (take k s), g)
          else do { ((_, r), g) \<leftarrow> blast_udivrem s (small_bits (length s) (word_of_nat w)) g; Some (r, g) })
      (\<lambda>g' r. \<exists>u. num \<rho> g' u r (c mod w))"
  proof (cases "is_power_of_two w")
    case True
    define k where "k = trailing_zeros (word_of_nat w :: u64)"
    have wk: "w = 2 ^ k" unfolding k_def by (rule power_of_two [OF True w(2)])
    then have "k \<le> v" using w(3) by simp
    then have "num \<rho> g (max k 1) (resize (max k 1) FALSE (take k s)) (c mod 2 ^ k)"
      by (intro resize_num [OF num_take [OF s] _ inv]) simp_all
    then show ?thesis using True unfolding k_def [symmetric] Let_def wk [symmetric] by (auto intro!: gives_return)
  next
    case False
    have k: "num \<rho> g v (small_bits v (word_of_nat w)) w" using small_width_bits [OF inv w(2), of \<rho> v] w(3) by simp
    have "gives g (do { ((_, r), g) \<leftarrow> blast_udivrem s (small_bits v (word_of_nat w)) g; Some (r, g) })
        (\<lambda>g' r. \<exists>u. num \<rho> g' u r (c mod w))"
      by (rule gives_bind [OF blast_udivrem_gives [OF s k]]) (auto intro!: gives_return)
    then show ?thesis using False by (simp add: la)
  qed
  show "gives g (blast_rotate a s left g) (\<lambda>g' r. num \<rho> g' w r (rotated left w n c))"
    unfolding blast_rotate_def Let_def [of w] la(1)
    unfolding Let_def [of "length a"] la(1)
  proof (rule gives_bind [OF count], goal_cases)
    case (1 r g1)
    then obtain u where u: "num \<rho> g1 u r (c mod w)" by auto
    obtain k where k: "takeWhile (\<lambda>k. k < 64 \<and> 2 ^ k < 2 * w) [0..<length r] = [0..<k]" "k \<le> length r"
      "k = length r \<or> \<not> (k < 64 \<and> 2 ^ k < 2 * w)"
      by (rule takeWhile_upt [of "\<lambda>k. k < 64 \<and> 2 ^ k < 2 * w" "length r"])
        (auto intro: le_less_trans [OF power_increasing])
    have cw: "c mod w < w" using w(1) by simp
    have "c mod w < 2 ^ k"
    proof -
      consider "k = length r" | "64 \<le> k" | "2 * w \<le> 2 ^ k" using k(3) by linarith
      then show ?thesis
      proof cases
        case 1
        then show ?thesis using numD(1,2) [OF u] by simp
      next
        case 2
        then have "(2::nat) ^ 64 \<le> 2 ^ k" by (intro power_increasing) simp_all
        then show ?thesis using cw w(2) by linarith
      next
        case 3
        then show ?thesis using cw by linarith
      qed
    qed
    then have e: "rotated left w n (c mod w mod 2 ^ k) = rotated left w n c" by (simp add: rotated_mod)
    have ku: "k \<le> u" using k(2) numD(1) [OF u] by simp
    show ?case unfolding prod.case k(1)
      using rotate_rounds [OF num_mono [OF a 1(1)] u ku w(1), of left] unfolding e .
  qed
qed

end
