(* ===== verification/Count_Correct.thy ===== *)
theory Count_Correct
  imports Rotate_Correct Mul_Constant
begin

unbundle bit_operations_syntax

declare One_nat_def [simp del]

text \<open>Correctness of the counts, the permutations, the high products.\<close>

section \<open>The adder tree\<close>

definition nums :: "(nat \<Rightarrow> bool) \<Rightarrow> Aig \<Rightarrow> nat \<Rightarrow> L list list \<Rightarrow> nat list \<Rightarrow> bool" where
  "nums \<rho> g w = list_all2 (num \<rho> g w)"

lemma nums_simps [simp]: "nums \<rho> g w [] ns \<longleftrightarrow> ns = []"
  "nums \<rho> g w (v # vs) ns \<longleftrightarrow> (\<exists>m ms. ns = m # ms \<and> num \<rho> g w v m \<and> nums \<rho> g w vs ms)"
  by (auto simp: nums_def list_all2_Cons1)

lemma nums_mono: "nums \<rho> g w vs ns \<Longrightarrow> aig_le g g' \<Longrightarrow> nums \<rho> g' w vs ns"
  unfolding nums_def by (erule list_all2_mono) (rule num_mono)

lemma adder_pairs_gives:
  assumes "nums \<rho> g w vs ns"
  shows "gives g (adder_pairs vs g) (\<lambda>g' us. length us = (length vs + 1) div 2 \<and>
     (\<exists>ms. nums \<rho> g' w us ms \<and> sum_list ms mod 2 ^ w = sum_list ns mod 2 ^ w))"
  using assms
proof (induction "length vs" arbitrary: vs ns g rule: less_induct)
  case less
  consider "vs = []" | x where "vs = [x]" | x y rest where "vs = x # y # rest"
    by (cases vs; cases "tl vs") auto
  then show ?case
  proof cases
    case 1
    then show ?thesis using less.prems by (simp add: gives_return)
  next
    case 2
    then obtain m where m: "ns = [m]" "nums \<rho> g w vs [m]" using less.prems by auto
    then have "length vs = (length vs + 1) div 2 \<and> (\<exists>ms. nums \<rho> g w vs ms \<and> sum_list ms mod 2 ^ w = sum_list ns mod 2 ^ w)"
      using 2 by (intro conjI exI [of _ "[m]"]) (simp_all add: One_nat_def)
    then show ?thesis using 2 by (simp add: gives_return)
  next
    case 3
    then obtain n m ms where ns: "ns = n # m # ms" "num \<rho> g w x n" "num \<rho> g w y m" "nums \<rho> g w rest ms"
      using less.prems by auto
    show ?thesis unfolding 3 adder_pairs.simps
    proof (rule gives_bind [OF blast_add_gives [OF ns(2,3)]], goal_cases)
      case (1 s g1)
      note s1 = 1(2)
      have "length rest < length vs" by (simp add: 3)
      from less.hyps [OF this nums_mono [OF ns(4) 1(1)]] show ?case unfolding prod.case
      proof (rule gives_bind, goal_cases)
        case (1 ss g2)
        then obtain ks where ks: "nums \<rho> g2 w ss ks" "sum_list ks mod 2 ^ w = sum_list ms mod 2 ^ w" by auto
        have "((n + m) mod 2 ^ w + sum_list ks) mod 2 ^ w = (n + m + sum_list ms) mod 2 ^ w"
          unfolding mod_add_left_eq by (rule mod_add_cong [OF refl ks(2)])
        then have "nums \<rho> g2 w (s # ss) (((n + m) mod 2 ^ w) # ks) \<and>
            sum_list (((n + m) mod 2 ^ w) # ks) mod 2 ^ w = sum_list ns mod 2 ^ w"
          using num_mono [OF s1 1(1)] ks(1) by (simp add: ns(1) add.assoc)
        moreover have "length (s # ss) = (length (x # y # rest) + 1) div 2" using 1(2) by simp
        ultimately show ?case unfolding prod.case by (intro gives_return) blast
      qed
    qed
  qed
qed

text \<open>Halving a list of at least one word ends with one word before the fuel does.\<close>

lemma adder_tree_gives:
  assumes "nums \<rho> g w vs ns" "vs \<noteq> []" "length vs \<le> fuel"
  shows "gives g (adder_tree fuel vs g) (\<lambda>g' us. \<exists>u. us = [u] \<and> num \<rho> g' w u (sum_list ns mod 2 ^ w))"
  using assms
proof (induction fuel arbitrary: vs ns g)
  case 0
  then show ?case by simp
next
  case (Suc fuel)
  show ?case
  proof (cases "length vs > 1")
    case False
    then obtain x where "vs = [x]" using Suc.prems(2) by (cases vs) (auto simp: One_nat_def)
    moreover then obtain m where "ns = [m]" "num \<rho> g w x m" using Suc.prems(1) by auto
    moreover then have "m mod 2 ^ w = m" using numD(2) by simp
    ultimately show ?thesis by (auto intro!: gives_return)
  next
    case True
    have "gives g (do { (vals, g) \<leftarrow> adder_pairs vs g; adder_tree fuel vals g })
        (\<lambda>g' us. \<exists>u. us = [u] \<and> num \<rho> g' w u (sum_list ns mod 2 ^ w))"
    proof (rule gives_bind [OF adder_pairs_gives [OF Suc.prems(1)]], goal_cases)
      case (1 us g1)
      then obtain ms where ms: "length us = (length vs + 1) div 2" "nums \<rho> g1 w us ms"
        "sum_list ms mod 2 ^ w = sum_list ns mod 2 ^ w" by auto
      have "us \<noteq> []" "length us \<le> fuel" using ms(1) True Suc.prems(3) by auto
      from Suc.IH [OF ms(2) this] show ?case unfolding prod.case ms(3) .
    qed
    then show ?thesis using True by simp
  qed
qed

definition trues :: "bool list \<Rightarrow> nat" where "trues bs = length (filter id bs)"

lemma blast_count_gives:
  assumes "lits \<rho> g ls bs" "0 < w"
  shows "gives g (blast_count ls w g) (\<lambda>g' r. num \<rho> g' w r (trues bs mod 2 ^ w))"
proof (rule gives_inv)
  assume inv: "aig_inv g"
  define f where "f = (\<lambda>b. if w > 0 then (replicate w FALSE)[0 := b] else [])"
  have one: "num \<rho> g w (f l) (of_bool b)" if "lit \<rho> g l b" for l b
  proof (rule numI)
    show "lit \<rho> g (f l ! i) (bit (of_bool b :: nat) i)" if "i < w" for i
      using that \<open>lit \<rho> g l b\<close> lit_const(1) [OF inv] assms(2)
      by (cases "i = 0"; cases b) (auto simp: f_def bit_0 bit_1_iff)
  qed (use assms(2) in \<open>auto simp: f_def\<close>)
  have n: "nums \<rho> g w (map f ls) (map of_bool bs)"
    using assms(1) one by (auto simp: nums_def list_all2_conv_all_nth lits_iff)
  have s: "sum_list (map of_bool bs) = trues bs" by (induction bs) (auto simp: trues_def)
  show "gives g (blast_count ls w g) (\<lambda>g' r. num \<rho> g' w r (trues bs mod 2 ^ w))"
  proof (cases "ls = []")
    case True
    then have "bs = []" using assms(1) by (auto simp: lits_iff)
    then show ?thesis using True num_zero [OF inv] by (simp add: blast_count_def trues_def gives_return)
  next
    case False
    then have ne: "map f ls \<noteq> []" by simp
    have "gives g (do { (vals, g) \<leftarrow> adder_tree (length (map f ls)) (map f ls) g;
           Some (if vals = [] then [] else last vals, g) }) (\<lambda>g' r. num \<rho> g' w r (trues bs mod 2 ^ w))"
      by (rule gives_bind [OF adder_tree_gives [OF n ne order_refl]]) (auto intro!: gives_return simp: s)
    then show ?thesis using ne unfolding blast_count_def Let_def f_def [symmetric] by simp
  qed
qed

section \<open>Counts\<close>

lemma lits_num: "num \<rho> g w a n \<Longrightarrow> lits \<rho> g a (map (bit n) [0..<w])"
  by (auto simp: lits_iff num_def)

lemma less_two_power: "k \<le> w \<Longrightarrow> 0 < w \<Longrightarrow> k < (2::nat) ^ w"
  using less_exp [of w] by linarith

lemma blast_popcnt_gives:
  assumes "num \<rho> g w a n" "0 < w"
  shows "gives g (blast_popcnt a g) (\<lambda>g' r. num \<rho> g' w r (sem_un UPopcnt w n))"
proof -
  have "trues (map (bit n) [0..<w]) = rank_below n w" by (simp add: trues_def rank_below_def filter_map o_def)
  moreover have "rank_below n w < 2 ^ w" by (rule less_two_power [OF rank_below_le assms(2)])
  ultimately show ?thesis
    using blast_count_gives [OF lits_num [OF assms(1)] assms(2)]
    by (simp add: blast_popcnt_def numD(1) [OF assms(1)] sem_un_def)
qed

text \<open>The flags of the all-zero prefixes, as many as the leading run.\<close>

primrec prefix_flags :: "bool \<Rightarrow> bool list \<Rightarrow> bool list" where
  "prefix_flags z [] = []"
| "prefix_flags z (b # bs) = (let z' = (z \<and> \<not> b) in z' # prefix_flags z' bs)"

lemma trues_prefix_flags: "trues (prefix_flags z bs) = (if z then length (takeWhile Not bs) else 0)"
  by (induction bs arbitrary: z) (auto simp: trues_def Let_def)

lemma zero_prefixes_gives:
  assumes "lits \<rho> g ls bs"
  shows "gives g (zero_prefixes ls g) (\<lambda>g' fs. lits \<rho> g' fs (prefix_flags True bs))"
proof -
  have main: "gives g (build_fold (\<lambda>b (flags, all_zero) g. do {
         (all_zero, g) \<leftarrow> aig_and all_zero (b XOR 1) g;
         Some ((flags @ [all_zero], all_zero), g) }) ls (flags, az) g)
      (\<lambda>g' (fs, _). lits \<rho> g' fs (done @ prefix_flags z bs))"
    if "lits \<rho> g ls bs" "lits \<rho> g flags done" "lit \<rho> g az z" for ls bs flags "done" az z g
    using that
  proof (induction ls arbitrary: bs flags "done" az z g)
    case Nil
    then show ?case by (auto intro!: gives_return)
  next
    case (Cons l ls)
    obtain b bs' where bs: "bs = b # bs'" "lit \<rho> g l b" "lits \<rho> g ls bs'" using Cons.prems(1) by (auto elim: lits_ConsE)
    have nb: "lit \<rho> g (l XOR 1) (\<not> b)" using bs(2) by simp
    show ?case unfolding build_fold.simps prod.case Option.bind_assoc
    proof (rule gives_bind [OF aig_and_gives [OF Cons.prems(3) nb]], goal_cases)
      case (1 x g1)
      have "lits \<rho> g1 (flags @ [x]) (done @ [z \<and> \<not> b])"
        using lits_mono [OF Cons.prems(2) 1(1)] 1(2) by (simp add: lits_append)
      from Cons.IH [OF lits_mono [OF bs(3) 1(1)] this 1(2)] show ?case by (simp add: bs(1) Let_def)
    qed
  qed
  show ?thesis
  proof (rule gives_inv)
    assume inv: "aig_inv g"
    have "lits \<rho> g [] []" "lit \<rho> g TRUE True" using lit_const(2) [OF inv] by simp_all
    from main [OF assms this] show ?thesis unfolding zero_prefixes_def
      by (rule gives_bind) (auto intro!: gives_return)
  qed
qed

lemma takeWhile_map_bits: "length (takeWhile Not (map (bit n) is)) = length (takeWhile (\<lambda>i. \<not> bit n i) is)"
  by (simp add: takeWhile_map o_def)

lemma zero_count_gives:
  assumes "lits \<rho> g ls (map (bit n) is)" "length is = w" "0 < w"
  shows "gives g (do { (flags, g) \<leftarrow> zero_prefixes ls g; blast_count flags w g })
    (\<lambda>g' r. num \<rho> g' w r (length (takeWhile (\<lambda>i. \<not> bit n i) is)))"
proof (rule gives_bind [OF zero_prefixes_gives [OF assms(1)]], goal_cases)
  case (1 fs g1)
  have t: "trues (prefix_flags True (map (bit n) is)) = length (takeWhile (\<lambda>i. \<not> bit n i) is)"
    unfolding trues_prefix_flags takeWhile_map_bits by simp
  have "length (takeWhile (\<lambda>i. \<not> bit n i) is) < 2 ^ w"
    using length_takeWhile_le [of "\<lambda>i. \<not> bit n i" "is"] assms(2,3) by (intro less_two_power) simp_all
  then show ?case unfolding prod.case using blast_count_gives [OF 1(2) assms(3)] by (simp add: t)
qed

lemma blast_clz_gives:
  assumes "num \<rho> g w a n" "0 < w"
  shows "gives g (blast_clz a g) (\<lambda>g' r. num \<rho> g' w r (sem_un UClz w n))"
proof -
  have "lits \<rho> g (rev a) (map (bit n) (rev [0..<w]))"
    using numD(1,3) [OF assms(1)] by (auto simp: lits_iff rev_nth)
  from zero_count_gives [OF this _ assms(2)] show ?thesis
    by (simp add: blast_clz_def numD(1) [OF assms(1)] sem_un_def)
qed

lemma blast_ctz_gives:
  assumes "num \<rho> g w a n" "0 < w"
  shows "gives g (blast_ctz a g) (\<lambda>g' r. num \<rho> g' w r (sem_un UCtz w n))"
  using zero_count_gives [OF lits_num [OF assms(1)] _ assms(2)]
  by (simp add: blast_ctz_def numD(1) [OF assms(1)] sem_un_def)

section \<open>Permutations\<close>

lemma blast_bswap_num:
  assumes "num \<rho> g w a n" "w mod 8 = 0"
  shows "num \<rho> g w (blast_bswap a) (sem_un UBswap w n)"
proof (rule numI)
  have la: "length a = w" by (rule numD(1) [OF assms(1)])
  show "lit \<rho> g (blast_bswap a ! i) (bit (sem_un UBswap w n) i)" if "i < w" for i
  proof -
    obtain v where v: "w = 8 * v" using assms(2) by (auto simp: dvd_def)
    have "i div 8 < v" "i mod 8 < 8" using that v by (simp_all add: less_mult_imp_div_less mult.commute)
    then have "(v - 1 - i div 8) * 8 + i mod 8 < 8 * v" by linarith
    then have "(w div 8 - 1 - i div 8) * 8 + i mod 8 < w" by (simp add: v)
    from numD(3) [OF assms(1) this] show ?thesis using that by (simp add: blast_bswap_def la sem_un_def)
  qed
qed (simp_all add: blast_bswap_def sem_un_def numD(1) [OF assms(1)])

lemma blast_bitrev_num:
  assumes "num \<rho> g w a n"
  shows "num \<rho> g w (blast_bitrev a) (sem_un UBitRev w n)"
proof (rule numI)
  have la: "length a = w" by (rule numD(1) [OF assms])
  show "lit \<rho> g (blast_bitrev a ! i) (bit (sem_un UBitRev w n) i)" if "i < w" for i
    using that numD(3) [OF assms, of "w - 1 - i"] by (simp add: blast_bitrev_def rev_nth la sem_un_def One_nat_def)
qed (simp_all add: blast_bitrev_def sem_un_def numD(1) [OF assms])

section \<open>High products\<close>

lemma zext_num:
  assumes "num \<rho> g w a n" "aig_inv g"
  shows "num \<rho> g (2 * w) (resize (2 * w) FALSE a) n"
  by (rule resize_num [OF assms(1) _ assms(2)]) simp

lemma sext_num:
  assumes "num \<rho> g w a n" "0 < w" "w \<le> v"
  shows "num \<rho> g v (resize v (last_or_false a) a) (sem_sext w v n)"
proof (rule numI)
  have la: "length a = w" by (rule numD(1) [OF assms(1)])
  have s: "lit \<rho> g (last_or_false a) (bit n (w - 1))"
    using numD(3) [OF assms(1), of "w - 1"] assms(2) la by (auto simp: last_or_false_def last_conv_nth)
  show "lit \<rho> g (resize v (last_or_false a) a ! i) (bit (sem_sext w v n) i)" if "i < v" for i
    using that s assms(2,3) numD(3) [OF assms(1), of i]
    by (auto simp: resize_def la nth_append sem_sext_def bit_sem_signed [OF assms(2) numD(2) [OF assms(1)]])
qed (use assms(3) in \<open>simp_all add: resize_def numD(1) [OF assms(1)] sem_sext_def\<close>)

lemma high_half:
  "sem_of_int (2 * w) x div 2 ^ w = sem_of_int w (x div 2 ^ w)"
proof -
  have "int (sem_of_int (2 * w) x div 2 ^ w) = (x mod (2 ^ w * 2 ^ w)) div 2 ^ w"
    by (simp add: zdiv_int int_sem_of_int mult_2 power_add)
  also have "\<dots> = (x div 2 ^ w) mod 2 ^ w" by (simp add: mod_mult2_eq' zmod_zmult2_eq)
  finally show ?thesis by (simp flip: int_sem_of_int)
qed

lemma blast_mulhi_gives:
  assumes "num \<rho> g w a n" "num \<rho> g w b m" "0 < w"
  shows "gives g (blast_mulhi a b sgd g) (\<lambda>g' r. num \<rho> g' w r (sem_bin (if sgd then BSMulHi else BUMulHi) w n m))"
proof (rule gives_inv)
  assume inv: "aig_inv g"
  have la: "length a = w" by (rule numD(1) [OF assms(1)])
  define x where "x = (if sgd then sem_sext w (2 * w) n else n)"
  define y where "y = (if sgd then sem_sext w (2 * w) m else m)"
  have ext: "num \<rho> g (2 * w) (resize (2 * w) (if sgd then last_or_false a else FALSE) a) x"
    "num \<rho> g (2 * w) (resize (2 * w) (if sgd then last_or_false b else FALSE) b) y"
    using zext_num [OF assms(1) inv] zext_num [OF assms(2) inv] sext_num [OF assms(1,3), of "2 * w"]
      sext_num [OF assms(2,3), of "2 * w"] by (simp_all add: x_def y_def)
  have e: "(x * y mod 2 ^ (2 * w)) div 2 ^ w = sem_bin (if sgd then BSMulHi else BUMulHi) w n m"
  proof (cases sgd)
    case True
    have "x * y mod 2 ^ (2 * w) = sem_of_int (2 * w) (int (x * y))" by (simp only: sem_of_int_of_nat)
    also have "\<dots> = sem_of_int (2 * w) (sem_signed w n * sem_signed w m)"
      by (rule sem_of_int_eqI) (simp add: x_def y_def True sem_sext_def int_sem_of_int mod_mult_eq)
    finally show ?thesis by (simp add: high_half True sem_bin_def)
  next
    case False
    have "n * m < 2 ^ w * 2 ^ w" using numD(2) [OF assms(1)] numD(2) [OF assms(2)] by (intro mult_strict_mono) simp_all
    then show ?thesis using False by (simp add: x_def y_def sem_bin_def mult_2 power_add)
  qed
  show "gives g (blast_mulhi a b sgd g) (\<lambda>g' r. num \<rho> g' w r (sem_bin (if sgd then BSMulHi else BUMulHi) w n m))"
    unfolding blast_mulhi_def Let_def la
  proof (rule gives_bind [OF blast_mul_gives [OF ext]], goal_cases)
    case (1 p g1)
    have "num \<rho> g1 (2 * w - w) (drop w p) ((x * y mod 2 ^ (2 * w)) div 2 ^ w)" by (rule num_drop [OF 1(2)]) simp
    then show ?case unfolding prod.case e by (intro gives_return) simp
  qed
qed

end
