(* ===== verification/Scatter_Correct.thy ===== *)
theory Scatter_Correct
  imports Count_Correct
begin

unbundle bit_operations_syntax

declare One_nat_def [simp del]

text \<open>Correctness of the parallel deposit and extract: a running count of the mask's set bits.\<close>

section \<open>The running count\<close>

lemma count_width_pos: "0 < count_width w" by (simp add: count_width_def)

lemma count_width_bound:
  assumes "w < 2 ^ 64"
  shows "w < 2 ^ count_width w"
proof (cases "w = 0")
  case False
  define x where "x = (word_of_nat w :: u64)"
  have ux: "unat x = w" using assms by (simp add: x_def unat_of_nat)
  then have "x \<noteq> 0" using False by auto
  note lz = leading_zeros_bit [OF this]
  have "w < 2 ^ (64 - leading_zeros x)"
  proof (rule less_power_bits)
    fix i
    assume "bit w i"
    then have "bit x i" by (simp add: bit_unat flip: ux)
    then have "\<not> 63 - leading_zeros x < i" using lz(3) by blast
    then show "i < 64 - leading_zeros x" using lz(1) by linarith
  qed
  also have "\<dots> \<le> 2 ^ count_width w" unfolding count_width_def x_def by (intro power_increasing) simp_all
  finally show ?thesis .
qed simp

lemma rank_bound: "i \<le> w \<Longrightarrow> w < 2 ^ v \<Longrightarrow> rank_below m i < 2 ^ v"
  using rank_below_le [of m i] by linarith

lemma one_num:
  assumes "lit \<rho> g l b" "0 < v" "aig_inv g"
  shows "num \<rho> g v ((small_bits v 0)[0 := l]) (of_bool b)"
proof (rule numI)
  show "lit \<rho> g ((small_bits v 0)[0 := l] ! i) (bit (of_bool b :: nat) i)" if "i < v" for i
    using that assms(1) lit_const(1) [OF assms(3)]
    by (cases "i = 0"; cases b) (auto simp: small_bits_def bit_0 bit_1_iff)
qed (use assms(2) in \<open>simp_all add: small_bits_def\<close>)

lemma count_step_gives:
  assumes "num \<rho> g v c (rank_below M i)" "lit \<rho> g l (bit M i)" "0 < v" "i < w" "w < 2 ^ v"
  shows "gives g (blast_add c ((small_bits v 0)[0 := l]) g) (\<lambda>g' r. num \<rho> g' v r (rank_below M (Suc i)))"
proof (rule gives_inv)
  assume inv: "aig_inv g"
  have "(rank_below M i + of_bool (bit M i)) mod 2 ^ v = rank_below M (Suc i)"
    using rank_bound [of "Suc i" w v M] assms(4,5) by (cases "bit M i") (simp_all add: rank_below_Suc)
  then show ?thesis using blast_add_gives [OF assms(1) one_num [OF assms(2,3) inv]] by simp
qed

text \<open>Comparing the running count with an index.\<close>

lemma count_eq_gives:
  assumes "num \<rho> g v c r" "j < w" "w < 2 ^ 64" "w < 2 ^ v"
  shows "gives g (blast_eq c (small_bits v (word_of_nat j)) g) (\<lambda>g' e. lit \<rho> g' e (r = j))"
proof (rule gives_inv)
  assume inv: "aig_inv g"
  have "num \<rho> g v (small_bits v (word_of_nat j)) j"
    using small_width_bits [OF inv, of j \<rho> v] assms(2-4) by simp
  from eq_bits_gives [OF assms(1) this] show ?thesis by (simp add: blast_eq_def)
qed

section \<open>Deposit\<close>

lemma pick_gives:
  assumes x: "num \<rho> g w x n" and c: "num \<rho> g v c r" and b: "w < 2 ^ 64" "w < 2 ^ v" "r < w"
  shows "gives g (build_fold (\<lambda>(j, xj) pick g. do {
                (at, g) \<leftarrow> blast_eq c (small_bits v (word_of_nat j)) g;
                (t, g) \<leftarrow> aig_and at xj g;
                aig_or pick t g }) (enumerate 0 x) FALSE g) (\<lambda>g' p. lit \<rho> g' p (bit n r))"
proof -
  have lx: "length x = w" by (rule numD(1) [OF x])
  have "gives g (build_fold (\<lambda>(j, xj) pick g. do {
                (at, g) \<leftarrow> blast_eq c (small_bits v (word_of_nat j)) g;
                (t, g) \<leftarrow> aig_and at xj g;
                aig_or pick t g }) (enumerate 0 x) FALSE g) (\<lambda>g' p. lit \<rho> g' p (\<exists>k<length (enumerate 0 x). r = k \<and> bit n k))"
  proof (rule gives_inv, rule build_fold_gives, goal_cases)
    case 1
    then show ?case by (simp add: lit_const)
  next
    case (2 j p g1)
    have j: "j < w" "enumerate 0 x ! j = (j, x ! j)" using 2(2) lx by (simp_all add: nth_enumerate_eq)
    have xj: "lit \<rho> g1 (x ! j) (bit n j)" by (rule numD(3) [OF num_mono [OF x 2(3)] j(1)])
    show ?case unfolding j(2) prod.case
    proof (rule gives_bind [OF count_eq_gives [OF num_mono [OF c 2(3)] j(1) b(1,2)]], goal_cases)
      case (1 at g2)
      note xj2 = lit_mono [OF xj 1(1)] and p2 = lit_mono [OF 2(4) 1(1)]
      show ?case unfolding prod.case
      proof (rule gives_bind [OF aig_and_gives [OF 1(2) xj2]], goal_cases)
        case (1 t g3)
        have e: "((\<exists>k<j. r = k \<and> bit n k) \<or> (r = j \<and> bit n j)) = (\<exists>k<Suc j. r = k \<and> bit n k)"
          by (auto simp: less_Suc_eq)
        show ?case unfolding prod.case e [symmetric] by (rule aig_or_gives [OF lit_mono [OF p2 1(1)] 1(2)])
      qed
    qed
  qed
  then show ?thesis by (rule gives_weaken) (use b(3) lx in \<open>auto elim!: lit_cong\<close>)
qed

lemma blast_pdep_gives:
  assumes x: "num \<rho> g w x n" and m: "num \<rho> g w m M" and w: "w < 2 ^ 64"
  shows "gives g (blast_pdep x m g) (\<lambda>g' r. num \<rho> g' w r (sem_bin BPdep w n M))"
proof (rule gives_inv)
  assume inv: "aig_inv g"
  have l: "length x = w" "length m = w" using numD(1) [OF x] numD(1) [OF m] by simp_all
  define v where "v = count_width w"
  have v: "0 < v" "w < 2 ^ v" using count_width_pos count_width_bound [OF w] by (simp_all add: v_def)
  define I where "I = (\<lambda>g i s. case s of (out, c) \<Rightarrow> length out = i \<and>
     (\<forall>k<i. lit \<rho> g (out ! k) (bit M k \<and> bit n (rank_below M k))) \<and> num \<rho> g v c (rank_below M i))"
  show "gives g (blast_pdep x m g) (\<lambda>g' r. num \<rho> g' w r (sem_bin BPdep w n M))"
    unfolding blast_pdep_def Let_def l(1) v_def [symmetric]
  proof (rule gives_bind, rule build_fold_gives [where I = I], goal_cases)
    case 1
    show ?case using num_zero [OF inv, of \<rho> v] by (simp add: I_def)
  next
    case (2 i s g1)
    obtain out c where s: "s = (out, c)" by (cases s)
    have I: "length out = i" "\<And>k. k < i \<Longrightarrow> lit \<rho> g1 (out ! k) (bit M k \<and> bit n (rank_below M k))"
      "num \<rho> g1 v c (rank_below M i)" using 2(3) by (simp_all add: I_def s)
    have i: "i < w" "take w m ! i = m ! i" using 2(1) l by simp_all
    have mi: "lit \<rho> g1 (m ! i) (bit M i)" by (rule numD(3) [OF num_mono [OF m 2(2)] i(1)])
    have r: "rank_below M i < w" using rank_below_le [of M i] i(1) by linarith
    show ?case unfolding s prod.case i(2)
    proof (rule gives_bind [OF pick_gives [OF num_mono [OF x 2(2)] I(3) w v(2) r]], goal_cases)
      case (1 p g2)
      note mi2 = lit_mono [OF mi 1(1)] and c2 = num_mono [OF I(3) 1(1)] and le2 = 1(1)
      show ?case unfolding prod.case
      proof (rule gives_bind [OF aig_and_gives [OF mi2 1(2)]], goal_cases)
        case (1 o1 g3)
        note le3 = aig_le_trans [OF le2 1(1)] and o3 = 1(2)
        show ?case unfolding prod.case
        proof (rule gives_bind [OF count_step_gives [OF num_mono [OF c2 1(1)] lit_mono [OF mi2 1(1)] v(1) i(1) v(2)]], goal_cases)
          case (1 c' g4)
          note le4 = aig_le_trans [OF le3 1(1)]
          have "lit \<rho> g4 ((out @ [o1]) ! k) (bit M k \<and> bit n (rank_below M k))" if "k < Suc i" for k
          proof (cases "k = i")
            case True
            then show ?thesis using lit_mono [OF o3 1(1)] I(1) by (simp add: nth_append)
          next
            case False
            then show ?thesis using that lit_mono [OF I(2) le4] I(1) by (simp add: nth_append)
          qed
          then show ?case unfolding prod.case using 1(2) I(1) by (intro gives_return) (simp add: I_def)
        qed
      qed
    qed
  next
    case (3 s g1)
    obtain out c where s: "s = (out, c)" by (cases s)
    have "num \<rho> g1 w out (sem_bin BPdep w n M)"
      using 3(2) l by (auto simp: I_def s sem_bin_def intro!: num_of_bits)
    then show ?case unfolding s prod.case by (rule gives_return)
  qed
qed

section \<open>Extract\<close>

lemma scatter_gives:
  assumes o: "length out = w" "\<And>j. j < w \<Longrightarrow> lit \<rho> g (out ! j) (f j)" and c: "num \<rho> g v c r" and s: "lit \<rho> g src p"
    and b: "w < 2 ^ 64" "w < 2 ^ v"
  shows "gives g (build_map (\<lambda>(j, o1) g. do {
                (at, g) \<leftarrow> blast_eq c (small_bits v (word_of_nat j)) g;
                (t, g) \<leftarrow> aig_and at src g;
                aig_or o1 t g }) (enumerate 0 out) g)
     (\<lambda>g' ys. length ys = w \<and> (\<forall>j<w. lit \<rho> g' (ys ! j) (f j \<or> (r = j \<and> p))))"
proof -
  have le: "length (enumerate 0 out) = w" using o(1) by simp
  have "gives g (build_map (\<lambda>(j, o1) g. do {
                (at, g) \<leftarrow> blast_eq c (small_bits v (word_of_nat j)) g;
                (t, g) \<leftarrow> aig_and at src g;
                aig_or o1 t g }) (enumerate 0 out) g)
     (\<lambda>g' ys. length ys = length (enumerate 0 out) \<and> (\<forall>j<length (enumerate 0 out). lit \<rho> g' (ys ! j) (f j \<or> (r = j \<and> p))))"
  proof (rule build_map_gives, goal_cases)
    case (1 j g1)
    have j: "j < w" "enumerate 0 out ! j = (j, out ! j)" using 1(1) o(1) by (simp_all add: nth_enumerate_eq)
    note o1 = lit_mono [OF o(2) [OF j(1)] 1(2)] and s1 = lit_mono [OF s 1(2)]
    show ?case unfolding j(2) prod.case
    proof (rule gives_bind [OF count_eq_gives [OF num_mono [OF c 1(2)] j(1) b]], goal_cases)
      case (1 at g2)
      note o2 = lit_mono [OF o1 1(1)]
      show ?case unfolding prod.case
      proof (rule gives_bind [OF aig_and_gives [OF 1(2) lit_mono [OF s1 1(1)]]], goal_cases)
        case (1 t g3)
        show ?case unfolding prod.case by (rule aig_or_gives [OF lit_mono [OF o2 1(1)] 1(2)])
      qed
    qed
  qed
  then show ?thesis unfolding le .
qed

lemma blast_pext_gives:
  assumes x: "num \<rho> g w x n" and m: "num \<rho> g w m M" and w: "w < 2 ^ 64"
  shows "gives g (blast_pext x m g) (\<lambda>g' r. num \<rho> g' w r (sem_bin BPext w n M))"
proof (rule gives_inv)
  assume inv: "aig_inv g"
  have l: "length x = w" "length m = w" using numD(1) [OF x] numD(1) [OF m] by simp_all
  define v where "v = count_width w"
  have v: "0 < v" "w < 2 ^ v" using count_width_pos count_width_bound [OF w] by (simp_all add: v_def)
  define I where "I = (\<lambda>g i s. case s of (out, c) \<Rightarrow> length out = w \<and>
     (\<forall>j<w. lit \<rho> g (out ! j) (\<exists>k<i. bit M k \<and> rank_below M k = j \<and> bit n k)) \<and> num \<rho> g v c (rank_below M i))"
  show "gives g (blast_pext x m g) (\<lambda>g' r. num \<rho> g' w r (sem_bin BPext w n M))"
    unfolding blast_pext_def Let_def l(1) v_def [symmetric]
  proof (rule gives_bind, rule build_fold_gives [where I = I], goal_cases)
    case 1
    show ?case using num_zero [OF inv, of \<rho> v] lit_const(1) [OF inv] by (simp add: I_def)
  next
    case (2 i s g1)
    obtain out c where s: "s = (out, c)" by (cases s)
    have I: "length out = w" "\<And>j. j < w \<Longrightarrow> lit \<rho> g1 (out ! j) (\<exists>k<i. bit M k \<and> rank_below M k = j \<and> bit n k)"
      "num \<rho> g1 v c (rank_below M i)" using 2(3) by (simp_all add: I_def s)
    have i: "i < w" "[0..<w] ! i = i" using 2(1) by simp_all
    have xi: "lit \<rho> g1 (x ! i) (bit n i)" by (rule numD(3) [OF num_mono [OF x 2(2)] i(1)])
    have mi: "lit \<rho> g1 (m ! i) (bit M i)" by (rule numD(3) [OF num_mono [OF m 2(2)] i(1)])
    show ?case unfolding s prod.case i(2)
    proof (rule gives_bind [OF aig_and_gives [OF xi mi]], goal_cases)
      case (1 src g2)
      note mi2 = lit_mono [OF mi 1(1)] and c2 = num_mono [OF I(3) 1(1)]
      have o2: "lit \<rho> g2 (out ! j) (\<exists>k<i. bit M k \<and> rank_below M k = j \<and> bit n k)" if "j < w" for j
        by (rule lit_mono [OF I(2) [OF that] 1(1)])
      show ?case unfolding prod.case
      proof (rule gives_bind [OF scatter_gives [OF I(1) o2 c2 1(2) w v(2)]], goal_cases)
        case (2 out' g3)
        show ?case unfolding prod.case
        proof (rule gives_bind [OF count_step_gives [OF num_mono [OF c2 2(1)] lit_mono [OF mi2 2(1)] v(1) i(1) v(2)]], goal_cases)
          case (1 c' g4)
          have "lit \<rho> g4 (out' ! j) (\<exists>k<Suc i. bit M k \<and> rank_below M k = j \<and> bit n k)" if "j < w" for j
          proof (rule lit_cong [OF lit_mono [OF _ 1(1)]])
            show "lit \<rho> g3 (out' ! j) ((\<exists>k<i. bit M k \<and> rank_below M k = j \<and> bit n k) \<or> (rank_below M i = j \<and> (bit n i \<and> bit M i)))"
              using 2(2) that by blast
          qed (auto simp: less_Suc_eq)
          then show ?case unfolding prod.case using 1(2) 2(2) by (intro gives_return) (simp add: I_def)
        qed
      qed simp
    qed
  next
    case (3 s g1)
    obtain out c where s: "s = (out, c)" by (cases s)
    have e: "(\<exists>k<w. bit M k \<and> rank_below M k = j \<and> bit n k) = (\<exists>i\<in>set [0..<w]. bit M i \<and> rank_below M i = j \<and> bit n i)" for j
      by auto
    have "num \<rho> g1 w out (sem_bin BPext w n M)"
      using 3(2) unfolding I_def s prod.case sem_bin_def BinOp.case length_upt diff_zero e by (intro num_of_bits) blast+
    then show ?case unfolding s prod.case by (rule gives_return)
  qed
qed

end
