(* ===== verification/Mul_Save.thy ===== *)
theory Mul_Save
  imports Mul_Constant
begin

unbundle bit_operations_syntax

declare One_nat_def [simp del]

text \<open>
  Correctness of the carry-save product: the weighted sum of the columns is the product modulo
  \<open>2 ^ w\<close>, and compression preserves it.
\<close>

section \<open>Columns\<close>

definition ones_in :: "(nat \<Rightarrow> bool) \<Rightarrow> Aig \<Rightarrow> L list \<Rightarrow> nat" where
  "ones_in \<rho> g ls = (\<Sum>l\<leftarrow>ls. of_bool (val \<rho> g l))"

lemma ones_in_simps [simp]: "ones_in \<rho> g [] = 0" "ones_in \<rho> g (l # ls) = of_bool (val \<rho> g l) + ones_in \<rho> g ls"
  "ones_in \<rho> g (ls @ ms) = ones_in \<rho> g ls + ones_in \<rho> g ms"
  by (simp_all add: ones_in_def)

lemma ones_in_mono: "aig_le g g' \<Longrightarrow> list_all (valid g) ls \<Longrightarrow> ones_in \<rho> g' ls = ones_in \<rho> g ls"
  by (induction ls) (auto simp: val_mono)

lemma list_all_valid_mono: "aig_le g g' \<Longrightarrow> list_all (valid g) ls \<Longrightarrow> list_all (valid g') ls"
  by (auto simp: list_all_iff valid_mono)

text \<open>The weighted sum of the columns from column \<open>i\<close> on.\<close>

definition columns_sum :: "(nat \<Rightarrow> bool) \<Rightarrow> Aig \<Rightarrow> L list list \<Rightarrow> nat" where
  "columns_sum \<rho> g cs = (\<Sum>i<length cs. 2 ^ i * ones_in \<rho> g (cs ! i))"

definition columns_ok :: "Aig \<Rightarrow> nat \<Rightarrow> L list list \<Rightarrow> bool" where
  "columns_ok g w cs \<longleftrightarrow> length cs = w \<and> (\<forall>i<w. list_all (valid g) (cs ! i))"

lemma columns_mono:
  assumes "columns_ok g w cs" "aig_le g g'"
  shows "columns_ok g' w cs" "columns_sum \<rho> g' cs = columns_sum \<rho> g cs"
  using assms list_all_valid_mono [OF assms(2)] ones_in_mono [OF assms(2)]
  by (auto simp: columns_ok_def columns_sum_def intro!: sum.cong)

lemma columns_sum_update:
  assumes "i < length cs"
  shows "columns_sum \<rho> g (cs[i := ls]) + 2 ^ i * ones_in \<rho> g (cs ! i) = columns_sum \<rho> g cs + 2 ^ i * ones_in \<rho> g ls"
proof -
  have e: "columns_sum \<rho> g ds = 2 ^ i * ones_in \<rho> g (ds ! i) + (\<Sum>j\<in>{..<length cs} - {i}. 2 ^ j * ones_in \<rho> g (ds ! j))"
    if "length ds = length cs" for ds
    using that assms by (simp add: columns_sum_def sum.remove [of "{..<length cs}" i])
  have "(\<Sum>j\<in>{..<length cs} - {i}. 2 ^ j * ones_in \<rho> g (cs[i := ls] ! j)) =
      (\<Sum>j\<in>{..<length cs} - {i}. 2 ^ j * ones_in \<rho> g (cs ! j))"
    by (rule sum.cong) auto
  then show ?thesis using e [of "cs[i := ls]"] e [of cs] assms by simp
qed

lemma push_column_ok:
  assumes "columns_ok g w cs" "valid g l" "i < w"
  obtains cs' where "push_column i l cs = Some cs'" "columns_ok g w cs'"
    "columns_sum \<rho> g cs' = columns_sum \<rho> g cs + 2 ^ i * of_bool (val \<rho> g l)"
proof -
  have i: "i < length cs" using assms(1,3) by (simp add: columns_ok_def)
  have "columns_sum \<rho> g (cs[i := cs ! i @ [l]]) = columns_sum \<rho> g cs + 2 ^ i * of_bool (val \<rho> g l)"
    using columns_sum_update [OF i, of \<rho> g "cs ! i @ [l]"] by (simp add: distrib_left)
  moreover have "columns_ok g w (cs[i := cs ! i @ [l]])"
    using assms by (auto simp: columns_ok_def nth_list_update)
  ultimately show ?thesis using that i by (simp add: push_column_def)
qed

lemma push_bit_column_ok:
  assumes "aig_inv g" "columns_ok g w cs" "lit \<rho> g l b" "i < w"
  obtains cs' where "push_bit_column i l cs = Some cs'" "columns_ok g w cs'"
    "columns_sum \<rho> g cs' = columns_sum \<rho> g cs + 2 ^ i * of_bool b"
proof (cases "l = FALSE")
  case True
  then show ?thesis using that [of cs] assms(2,3) lit_const(1) [OF assms(1)] by (simp add: push_bit_column_def)
next
  case False
  have "valid g l" "val \<rho> g l = b" using assms(3) by (simp_all add: lit_def)
  obtain cs' where "push_column i l cs = Some cs'" "columns_ok g w cs'"
    "columns_sum \<rho> g cs' = columns_sum \<rho> g cs + 2 ^ i * of_bool (val \<rho> g l)"
    by (rule push_column_ok [OF assms(2) \<open>valid g l\<close> assms(4)])
  then show ?thesis using that [of cs'] False \<open>val \<rho> g l = b\<close> by (simp add: push_bit_column_def)
qed

section \<open>Rows of a constant\<close>

text \<open>A row pushed column by column adds its number, cut off at the word.\<close>

lemma bits_sum: "(\<Sum>j<k. 2 ^ j * of_bool (bit n j)) = (n::nat) mod 2 ^ k"
proof (induction k)
  case (Suc k)
  show ?case unfolding mod_Suc_power sum.lessThan_Suc Suc.IH ..
qed simp

definition push_row :: "nat \<Rightarrow> (nat \<Rightarrow> L) \<Rightarrow> nat \<Rightarrow> L list list option \<Rightarrow> L list list option" where
  "push_row shift f k cols = fold (\<lambda>j cols. do { cols \<leftarrow> cols; push_bit_column (shift + j) (f j) cols }) [0..<k] cols"

lemma push_row_ok:
  assumes "aig_inv g" "columns_ok g w cs" "\<And>j. j < k \<Longrightarrow> lit \<rho> g (f j) (b j)" "shift + k \<le> w"
  obtains cs' where "push_row shift f k (Some cs) = Some cs'" "columns_ok g w cs'"
    "columns_sum \<rho> g cs' = columns_sum \<rho> g cs + 2 ^ shift * (\<Sum>j<k. 2 ^ j * of_bool (b j))"
proof -
  have "\<exists>cs'. push_row shift f k (Some cs) = Some cs' \<and> columns_ok g w cs' \<and>
      columns_sum \<rho> g cs' = columns_sum \<rho> g cs + 2 ^ shift * (\<Sum>j<k. 2 ^ j * of_bool (b j))"
    using assms(3,4)
  proof (induction k)
    case 0
    then show ?case using assms(2) by (simp add: push_row_def)
  next
    case (Suc k)
    then obtain ds where ds: "push_row shift f k (Some cs) = Some ds" "columns_ok g w ds"
      "columns_sum \<rho> g ds = columns_sum \<rho> g cs + 2 ^ shift * (\<Sum>j<k. 2 ^ j * of_bool (b j))" by auto
    have k: "shift + k < w" using Suc.prems(2) by simp
    obtain es where es: "push_bit_column (shift + k) (f k) ds = Some es" "columns_ok g w es"
      "columns_sum \<rho> g es = columns_sum \<rho> g ds + 2 ^ (shift + k) * of_bool (b k)"
      using push_bit_column_ok [OF assms(1) ds(2) Suc.prems(1) [of k] k] by auto
    have "push_row shift f (Suc k) (Some cs) = Some es" using ds(1) es(1) by (simp add: push_row_def)
    moreover have "columns_sum \<rho> g es = columns_sum \<rho> g cs + 2 ^ shift * (\<Sum>j<Suc k. 2 ^ j * of_bool (b j))"
      unfolding es(3) ds(3) by (simp add: power_add distrib_left)
    ultimately show ?case using es(2) by blast
  qed
  then show ?thesis using that by blast
qed

lemma fold_cong_bound: "(\<And>j x. j \<in> set js \<Longrightarrow> f j x = h j x) \<Longrightarrow> fold f js x = fold h js x"
  by (induction js arbitrary: x) auto

lemma complement_row:
  assumes "shift \<le> w"
  shows "(2 ^ shift * int (2 ^ (w - shift) - 1 - n mod 2 ^ (w - shift)) + 2 ^ shift) mod 2 ^ w = (- (2 ^ shift * int n)) mod 2 ^ w"
proof -
  have e: "(2::int) ^ shift * 2 ^ (w - shift) = 2 ^ w" using assms by (simp flip: power_add)
  have c: "int (p - 1 - x) = int p - 1 - int x" if "x < p" for p x :: nat
    using that by (simp add: of_nat_diff One_nat_def)
  have "n mod 2 ^ (w - shift) < 2 ^ (w - shift)" by simp
  from c [OF this] have c1: "int (2 ^ (w - shift) - 1 - n mod 2 ^ (w - shift)) = 2 ^ (w - shift) - 1 - int n mod 2 ^ (w - shift)"
    by (simp add: zmod_int)
  have "2 ^ shift * int (2 ^ (w - shift) - 1 - n mod 2 ^ (w - shift)) + 2 ^ shift =
      2 ^ w - 2 ^ shift * (int n mod 2 ^ (w - shift))"
    unfolding c1 by (simp add: right_diff_distrib e)
  also have "2 ^ shift * (int n mod 2 ^ (w - shift)) = (2 ^ shift * int n) mod 2 ^ w"
    by (simp add: mult_mod_right e)
  finally show ?thesis by (simp add: mod_simps)
qed


definition digit_row :: "L list \<Rightarrow> nat \<Rightarrow> nat \<times> bool \<Rightarrow> L list list option \<Rightarrow> L list list option" where
  "digit_row data w = (\<lambda>(shift, negative) cols. do {
            cols \<leftarrow> cols;
            cols \<leftarrow> (if negative then push_column shift TRUE cols else Some cols);
            if w < shift then None
            else fold (\<lambda>j cols. do {
                cols \<leftarrow> cols;
                if j < length data then push_bit_column (shift + j) (data ! j XOR of_bool negative) cols else None })
              [0..<w - shift] (Some cols) })"

lemma digit_row_ok:
  assumes "aig_inv g" "num \<rho> g w data n" "columns_ok g w cs" "shift < w"
  obtains cs' where "digit_row data w (shift, neg) (Some cs) = Some cs'" "columns_ok g w cs'"
    "int (columns_sum \<rho> g cs') mod 2 ^ w = (int (columns_sum \<rho> g cs) + int n * digit_value (shift, neg)) mod 2 ^ w"
proof -
  define f where "f = (\<lambda>j. data ! j XOR of_bool neg)"
  define b where "b = (\<lambda>j. bit n j \<noteq> neg)"
  define cs1 where "cs1 = (if neg then cs[shift := cs ! shift @ [TRUE]] else cs)"
  have len: "length data = w" by (rule numD(1) [OF assms(2)])
  have t: "valid g TRUE" "val \<rho> g TRUE" using lit_const(2) [OF assms(1), of \<rho> True] by (simp_all add: lit_def)
  have cs1: "(if neg then push_column shift TRUE cs else Some cs) = Some cs1" "columns_ok g w cs1"
    "columns_sum \<rho> g cs1 = columns_sum \<rho> g cs + 2 ^ shift * of_bool neg"
  proof -
    obtain ds where "push_column shift TRUE cs = Some ds" "columns_ok g w ds"
      "columns_sum \<rho> g ds = columns_sum \<rho> g cs + 2 ^ shift * of_bool (val \<rho> g TRUE)"
      by (rule push_column_ok [OF assms(3) t(1) assms(4)])
    then show "(if neg then push_column shift TRUE cs else Some cs) = Some cs1" "columns_ok g w cs1"
      "columns_sum \<rho> g cs1 = columns_sum \<rho> g cs + 2 ^ shift * of_bool neg"
      using t(2) assms(3) by (auto simp: cs1_def push_column_def split: if_splits)
  qed
  have lits: "lit \<rho> g (f j) (b j)" if "j < w - shift" for j
    using numD(3) [OF assms(2), of j] that by (cases neg) (simp_all add: f_def b_def)
  obtain cs2 where cs2: "push_row shift f (w - shift) (Some cs1) = Some cs2" "columns_ok g w cs2"
    "columns_sum \<rho> g cs2 = columns_sum \<rho> g cs1 + 2 ^ shift * (\<Sum>j<w - shift. 2 ^ j * of_bool (b j))"
    by (rule push_row_ok [where f = f and b = b and shift = shift and k = "w - shift" and \<rho> = \<rho>, OF assms(1) cs1(2) lits])
      (use assms(4) in simp_all)
  have "fold (\<lambda>j cols. do { cols \<leftarrow> cols;
                if j < length data then push_bit_column (shift + j) (data ! j XOR of_bool neg) cols else None })
              [0..<w - shift] (Some cs1) = push_row shift f (w - shift) (Some cs1)"
    unfolding push_row_def f_def by (rule fold_cong_bound) (auto simp: len split: bind_splits)
  then have row: "digit_row data w (shift, neg) (Some cs) = Some cs2"
    using assms(4) cs2(1) by (simp add: digit_row_def cs1(1) del: of_bool_eq)
  have s: "(\<Sum>j<k. 2 ^ j * of_bool (b j)) = (if neg then 2 ^ k - 1 - n mod 2 ^ k else n mod 2 ^ k)" for k
  proof (cases neg)
    case True
    have "(\<Sum>j<k. 2 ^ j * of_bool (b j)) + (\<Sum>j<k. 2 ^ j * of_bool (bit n j)) = (\<Sum>j<k. (2::nat) ^ j)"
      unfolding sum.distrib [symmetric] by (rule sum.cong) (auto simp: b_def True)
    also have "(\<Sum>j<k. (2::nat) ^ j) = 2 ^ k - 1" by (induction k) (simp_all add: One_nat_def)
    finally show ?thesis by (simp add: bits_sum True)
  qed (simp add: b_def bits_sum)
  have "int (columns_sum \<rho> g cs2) mod 2 ^ w = (int (columns_sum \<rho> g cs) + int n * digit_value (shift, neg)) mod 2 ^ w"
  proof (cases neg)
    case True
    have "int (columns_sum \<rho> g cs2) = int (columns_sum \<rho> g cs) +
        (2 ^ shift * int (2 ^ (w - shift) - 1 - n mod 2 ^ (w - shift)) + 2 ^ shift)"
      unfolding cs2(3) cs1(3) s by (simp add: True)
    also have "\<dots> mod 2 ^ w = (int (columns_sum \<rho> g cs) + - (2 ^ shift * int n)) mod 2 ^ w"
      by (rule mod_add_cong [OF refl complement_row]) (use assms(4) in simp)
    finally show ?thesis using True by (simp add: digit_value_def ac_simps)
  next
    case False
    have e: "(2::nat) ^ shift * 2 ^ (w - shift) = 2 ^ w" using assms(4) by (simp flip: power_add)
    have "columns_sum \<rho> g cs2 = columns_sum \<rho> g cs + (2 ^ shift * n) mod 2 ^ w"
      unfolding cs2(3) cs1(3) s using False by (simp add: mult_mod_right e)
    then have "columns_sum \<rho> g cs2 mod 2 ^ w = (columns_sum \<rho> g cs + 2 ^ shift * n) mod 2 ^ w" by (simp add: mod_simps)
    then have "int (columns_sum \<rho> g cs2 mod 2 ^ w) = int ((columns_sum \<rho> g cs + 2 ^ shift * n) mod 2 ^ w)" by simp
    then show ?thesis using False by (simp add: zmod_int digit_value_def mult.commute)
  qed
  then show ?thesis by (rule that [OF row cs2(2)])
qed

lemma digit_rows_ok:
  assumes "aig_inv g" "num \<rho> g w data n" "columns_ok g w cs" "\<forall>d\<in>set ds. fst d < w"
  shows "\<exists>cs'. fold (digit_row data w) ds (Some cs) = Some cs' \<and> columns_ok g w cs' \<and>
    int (columns_sum \<rho> g cs') mod 2 ^ w = (int (columns_sum \<rho> g cs) + int n * digits_value ds) mod 2 ^ w"
  using assms(3,4)
proof (induction ds arbitrary: cs)
  case Nil
  then show ?case by simp
next
  case (Cons d ds)
  obtain k neg where d: "d = (k, neg)" by (cases d)
  have "k < w" using Cons.prems(2) d by simp
  from digit_row_ok [OF assms(1,2) Cons.prems(1) this, of neg]
  obtain cs1 where cs1: "digit_row data w (k, neg) (Some cs) = Some cs1" "columns_ok g w cs1"
    "int (columns_sum \<rho> g cs1) mod 2 ^ w = (int (columns_sum \<rho> g cs) + int n * digit_value (k, neg)) mod 2 ^ w" .
  from Cons.IH [OF cs1(2)] Cons.prems(2) obtain cs2 where cs2: "fold (digit_row data w) ds (Some cs1) = Some cs2" "columns_ok g w cs2"
    "int (columns_sum \<rho> g cs2) mod 2 ^ w = (int (columns_sum \<rho> g cs1) + int n * digits_value ds) mod 2 ^ w" by auto
  have "(int (columns_sum \<rho> g cs1) + int n * digits_value ds) mod 2 ^ w =
      (int (columns_sum \<rho> g cs) + int n * digit_value (k, neg) + int n * digits_value ds) mod 2 ^ w"
    by (rule mod_add_cong [OF cs1(3) refl])
  then show ?case using cs1(1) cs2 by (simp add: d distrib_left add.assoc)
qed

lemma positive_digits:
  "digits_value (map (\<lambda>(i, l). (i, False)) (filter (\<lambda>(i, l). l = TRUE) (enumerate k ls))) = 2 ^ k * true_value ls"
  by (induction ls arbitrary: k) (auto simp: digit_value_def algebra_simps One_nat_def)

lemma constant_rows_gives:
  assumes "aig_inv g" "num \<rho> g w data n" "num \<rho> g w c m" "is_const c"
  obtains cs where "constant_rows data c (replicate w []) = Some cs" "columns_ok g w cs"
    "int (columns_sum \<rho> g cs) mod 2 ^ w = (int n * int m) mod 2 ^ w"
proof -
  define ds where "ds = (if length (signed_digits 0 False c) \<ge> length (filter (\<lambda>l. l = TRUE) c)
                    then map (\<lambda>(i, l). (i, False)) (filter (\<lambda>(i, l). l = TRUE) (enumerate 0 c))
                    else signed_digits 0 False c)"
  have lc: "length c = w" by (rule numD(1) [OF assms(3)])
  have tv: "true_value c = int m" by (rule true_value_num [OF assms(1,3,4)])
  have range: "\<forall>d\<in>set ds. fst d < w"
    using signed_digits_range [of _ _ 0 False c] lc
    by (auto simp: ds_def in_set_enumerate_eq split: if_splits)
  have dv: "digits_value ds mod 2 ^ w = int m mod 2 ^ w"
    using signed_digits_value [of 0 False c] positive_digits [of 0 c] tv lc by (simp add: ds_def)
  have z: "columns_ok g w (replicate w [])" "columns_sum \<rho> g (replicate w []) = 0"
    by (simp_all add: columns_ok_def columns_sum_def)
  have e: "constant_rows data c (replicate w []) = fold (digit_row data w) ds (Some (replicate w []))"
    unfolding constant_rows_def Let_def ds_def digit_row_def length_replicate ..
  from digit_rows_ok [OF assms(1,2) z(1) range] obtain cs where cs: "fold (digit_row data w) ds (Some (replicate w [])) = Some cs"
    "columns_ok g w cs" "int (columns_sum \<rho> g cs) mod 2 ^ w = (int n * digits_value ds) mod 2 ^ w" by (auto simp: z(2))
  moreover have "(int n * digits_value ds) mod 2 ^ w = (int n * int m) mod 2 ^ w" by (rule mod_mult_cong [OF refl dv])
  ultimately show ?thesis using that e by simp
qed

end
