(* ===== verification/Mul_Compress.thy ===== *)
theory Mul_Compress
  imports Mul_Save
begin

unbundle bit_operations_syntax

declare One_nat_def [simp del]

text \<open>
  The rows of two variable words, column compression, and the carry-save product.
\<close>

section \<open>Rows of two variable words\<close>

lemma product_row_gives:
  assumes "num \<rho> g w a n" "lit \<rho> g bi q" "columns_ok g w cs" "i < w"
  shows "gives g (build_fold (\<lambda>j columns g.
             if j < length a then do {
                 (x, g) \<leftarrow> aig_and (a ! j) bi g;
                 columns \<leftarrow> push_bit_column (i + j) x columns;
                 Some (columns, g) }
               else None) [0..<w - i] cs g)
     (\<lambda>g' cs'. columns_ok g' w cs' \<and> columns_sum \<rho> g' cs' = columns_sum \<rho> g cs + 2 ^ i * (n mod 2 ^ (w - i) * of_bool q))"
proof -
  define S where "S = columns_sum \<rho> g cs"
  have "gives g (build_fold (\<lambda>j columns g.
             if j < length a then do {
                 (x, g) \<leftarrow> aig_and (a ! j) bi g;
                 columns \<leftarrow> push_bit_column (i + j) x columns;
                 Some (columns, g) }
               else None) [0..<w - i] cs g)
     (\<lambda>g' cs'. columns_ok g' w cs' \<and> columns_sum \<rho> g' cs' = S + 2 ^ i * (n mod 2 ^ length [0..<w - i] * of_bool q))"
  proof (rule build_fold_gives, goal_cases)
    case 1
    show ?case using assms(3) by (simp add: S_def)
  next
    case (2 j cs1 g1)
    have j: "j < w - i" "[0..<w - i] ! j = j" "j < length a" using 2(1) numD(1) [OF assms(1)] by auto
    have aj: "lit \<rho> g1 (a ! j) (bit n j)" using j by (intro numD(3) [OF num_mono [OF assms(1) 2(2)]]) simp
    show ?case unfolding j(2) if_P [OF j(3)]
    proof (rule gives_bind [OF aig_and_gives [OF aj lit_mono [OF assms(2) 2(2)]]], goal_cases)
      case (1 x g2)
      show ?case unfolding prod.case
      proof (rule gives_inv)
        assume inv: "aig_inv g2"
        have c2: "columns_ok g2 w cs1" "columns_sum \<rho> g2 cs1 = S + 2 ^ i * (n mod 2 ^ j * of_bool q)"
          using columns_mono [OF _ 1(1)] 2(3) by auto
        have k: "i + j < w" using j(1) by simp
        obtain cs2 where cs2: "push_bit_column (i + j) x cs1 = Some cs2" "columns_ok g2 w cs2"
          "columns_sum \<rho> g2 cs2 = columns_sum \<rho> g2 cs1 + 2 ^ (i + j) * of_bool (bit n j \<and> q)"
          by (rule push_bit_column_ok [OF inv c2(1) 1(2) k])
        have "columns_sum \<rho> g2 cs2 = S + 2 ^ i * (n mod 2 ^ Suc j * of_bool q)"
          unfolding cs2(3) c2(2) mod_Suc_power by (cases q) (simp_all add: power_add distrib_left)
        then show "gives g2 (Option.bind (push_bit_column (i + j) x cs1) (\<lambda>columns. Some (columns, g2)))
            (\<lambda>g' cs'. columns_ok g' w cs' \<and> columns_sum \<rho> g' cs' = S + 2 ^ i * (n mod 2 ^ Suc j * of_bool q))"
          using cs2(1,2) by (simp add: gives_return)
      qed
    qed
  qed
  then show ?thesis by (simp add: S_def)
qed

lemma product_rows_gives:
  assumes "num \<rho> g w a n" "num \<rho> g w b m"
  shows "gives g (product_rows a b (replicate w []) g)
    (\<lambda>g' cs. columns_ok g' w cs \<and> columns_sum \<rho> g' cs mod 2 ^ w = (n * m) mod 2 ^ w)"
proof -
  have lb: "length b = w" by (rule numD(1) [OF assms(2)])
  have "gives g (product_rows a b (replicate w []) g)
    (\<lambda>g' cs. columns_ok g' w cs \<and> columns_sum \<rho> g' cs mod 2 ^ w = (n * (m mod 2 ^ length (enumerate 0 b))) mod 2 ^ w)"
    unfolding product_rows_def Let_def length_replicate
  proof (rule build_fold_gives, goal_cases)
    case 1
    show ?case by (simp add: columns_ok_def columns_sum_def)
  next
    case (2 i cs1 g1)
    have i: "i < w" "enumerate 0 b ! i = (i, b ! i)" using 2(1) lb by (simp_all add: nth_enumerate_eq)
    have ni: "\<not> w < i" using i by simp
    have bi: "lit \<rho> g1 (b ! i) (bit m i)" by (rule numD(3) [OF num_mono [OF assms(2) 2(2)] i(1)])
    have c1: "columns_ok g1 w cs1" using 2(3) by simp
    show ?case unfolding i(2) prod.case if_not_P [OF ni]
    proof (rule gives_weaken [OF product_row_gives [OF num_mono [OF assms(1) 2(2)] bi c1 i(1)]], goal_cases)
      case (1 g' cs2)
      have e: "(2::nat) ^ i * 2 ^ (w - i) = 2 ^ w" using i(1) by (simp flip: power_add)
      have "columns_sum \<rho> g' cs2 mod 2 ^ w = (columns_sum \<rho> g1 cs1 + (2 ^ i * (n * of_bool (bit m i))) mod 2 ^ w) mod 2 ^ w"
        using 1(3) by (cases "bit m i") (simp_all add: mult_mod_right e)
      also have "\<dots> = (n * (m mod 2 ^ i) mod 2 ^ w + (2 ^ i * (n * of_bool (bit m i))) mod 2 ^ w) mod 2 ^ w"
        using 2(3) by (metis mod_add_left_eq)
      also have "\<dots> = (n * (m mod 2 ^ i) + 2 ^ i * (n * of_bool (bit m i))) mod 2 ^ w" by (simp add: mod_simps)
      also have "n * (m mod 2 ^ i) + 2 ^ i * (n * of_bool (bit m i)) = n * (m mod 2 ^ Suc i)"
        unfolding mod_Suc_power by (simp add: algebra_simps)
      finally show ?case using 1(3) by simp
    qed
  qed
  moreover have "m mod 2 ^ w = m" using numD(2) [OF assms(2)] by simp
  ultimately show ?thesis using lb by simp
qed

section \<open>Compression\<close>

lemma full_adder: "of_bool ((p \<noteq> q) \<noteq> r) + 2 * of_bool ((p \<and> q) \<or> (p \<and> r) \<or> (q \<and> r)) = (of_bool p + of_bool q + of_bool r :: nat)"
  by (cases p; cases q; cases r) simp_all

lemma keep_nonzero:
  assumes "aig_inv g" "lit \<rho> g s b" "list_all (valid g) ls"
  shows "list_all (valid g) (if s \<noteq> FALSE then ls @ [s] else ls)"
    "ones_in \<rho> g (if s \<noteq> FALSE then ls @ [s] else ls) = ones_in \<rho> g ls + of_bool b"
  using assms lit_const(1) [OF assms(1), of \<rho> b] by (auto simp: lit_def)

lemma compress_gives:
  assumes "list_all (valid g) queue" "list_all (valid g) carries"
  shows "gives g (compress lastcol queue carries g) (\<lambda>g' (q, c). length q \<le> 2 \<and> list_all (valid g') q \<and> list_all (valid g') c \<and>
     (if lastcol then c = carries \<and> ones_in \<rho> g' q mod 2 = ones_in \<rho> g queue mod 2
      else ones_in \<rho> g' q + 2 * ones_in \<rho> g' c = ones_in \<rho> g queue + 2 * ones_in \<rho> g carries))"
  using assms
proof (induction "length queue" arbitrary: queue carries g rule: less_induct)
  case less
  let ?P = "\<lambda>g0 queue carries g' (q, c). length q \<le> 2 \<and> list_all (valid g') q \<and> list_all (valid g') c \<and>
     (if lastcol then c = carries \<and> ones_in \<rho> g' q mod 2 = ones_in \<rho> g0 queue mod 2
      else ones_in \<rho> g' q + 2 * ones_in \<rho> g' c = ones_in \<rho> g0 queue + 2 * ones_in \<rho> g0 carries)"
  show ?case
  proof (cases "\<exists>x y z rest. queue = x # y # z # rest")
    case False
    then consider "queue = []" | x where "queue = [x]" | x y where "queue = [x, y]"
      by (metis list.exhaust)
    then have "compress lastcol queue carries g = Some ((queue, carries), g) \<and> length queue \<le> 2"
      by cases (simp_all add: compress.simps One_nat_def)
    then show ?thesis using less.prems by (auto intro!: gives_return)
  next
    case True
    then obtain x y z rest where q: "queue = x # y # z # rest" by blast
    define p where "p = val \<rho> g"
    have l: "lit \<rho> g x (p x)" "lit \<rho> g y (p y)" "lit \<rho> g z (p z)" and rest: "list_all (valid g) rest"
      using less.prems(1) by (simp_all add: q p_def lit_def)
    define sp where "sp = ((p x \<noteq> p y) \<noteq> p z)"
    have ones: "ones_in \<rho> g queue = of_bool (p x) + of_bool (p y) + of_bool (p z) + ones_in \<rho> g rest"
      by (simp add: q p_def)
    have sums: "gives g (if lastcol then do { (xy, g) \<leftarrow> xor_phase x y g; xor_phase xy z g }
                     else do { (xy, g) \<leftarrow> aig_xor x y g; aig_xor xy z g }) (\<lambda>g' s. lit \<rho> g' s sp)"
    proof -
      have "gives g (do { (xy, g) \<leftarrow> xor_phase x y g; xor_phase xy z g }) (\<lambda>g' s. lit \<rho> g' s sp)"
        unfolding sp_def
      proof (rule gives_bind [OF xor_phase_gives [OF l(1,2)]], goal_cases)
        case (1 xy g')
        show ?case unfolding prod.case by (rule xor_phase_gives [OF 1(2) lit_mono [OF l(3) 1(1)]])
      qed
      moreover have "gives g (do { (xy, g) \<leftarrow> aig_xor x y g; aig_xor xy z g }) (\<lambda>g' s. lit \<rho> g' s sp)"
        unfolding sp_def
      proof (rule gives_bind [OF aig_xor_gives [OF l(1,2)]], goal_cases)
        case (1 xy g')
        show ?case unfolding prod.case by (rule aig_xor_gives [OF 1(2) lit_mono [OF l(3) 1(1)]])
      qed
      ultimately show ?thesis by simp
    qed
    show ?thesis unfolding compress.simps [of lastcol queue] unfolding q list.case
    proof (rule gives_bind [OF sums], goal_cases)
      case (1 s g1)
      note le1 = 1(1)
      have carry: "gives g1 (if lastcol then Some (carries, g1)
              else do { (c, g) \<leftarrow> aig_maj x y z g1; Some (if c \<noteq> FALSE then carries @ [c] else carries, g) })
          (\<lambda>g' cs. list_all (valid g') cs \<and> (if lastcol then cs = carries
              else ones_in \<rho> g' cs = ones_in \<rho> g carries + of_bool ((p x \<and> p y) \<or> (p x \<and> p z) \<or> (p y \<and> p z))))"
      proof (cases lastcol)
        case True
        then show ?thesis using list_all_valid_mono [OF le1 less.prems(2)] by (simp add: gives_return)
      next
        case False
        have "gives g1 (do { (c, g) \<leftarrow> aig_maj x y z g1; Some (if c \<noteq> FALSE then carries @ [c] else carries, g) })
          (\<lambda>g' cs. list_all (valid g') cs \<and>
              ones_in \<rho> g' cs = ones_in \<rho> g carries + of_bool ((p x \<and> p y) \<or> (p x \<and> p z) \<or> (p y \<and> p z)))"
        proof (rule gives_bind [OF aig_maj_gives [OF lit_mono [OF l(1) le1] lit_mono [OF l(2) le1] lit_mono [OF l(3) le1]]], goal_cases)
          case (1 c g2)
          have le: "aig_le g g2" by (rule aig_le_trans [OF le1 1(1)])
          show ?case unfolding prod.case
          proof (rule gives_inv)
            assume inv: "aig_inv g2"
            show "gives g2 (Some (if c \<noteq> FALSE then carries @ [c] else carries, g2))
              (\<lambda>g' cs. list_all (valid g') cs \<and>
                ones_in \<rho> g' cs = ones_in \<rho> g carries + of_bool ((p x \<and> p y) \<or> (p x \<and> p z) \<or> (p y \<and> p z)))"
              using keep_nonzero [OF inv 1(2) list_all_valid_mono [OF le less.prems(2)]] ones_in_mono [OF le less.prems(2)]
              by (intro gives_return) simp
          qed
        qed
        then show ?thesis using False by simp
      qed
      show ?case unfolding prod.case
      proof (rule gives_bind [OF carry], goal_cases)
        case (1 cs g2)
        have le2: "aig_le g g2" by (rule aig_le_trans [OF le1 1(1)])
        show ?case unfolding prod.case
        proof (rule gives_inv)
          assume inv: "aig_inv g2"
          define rest' where "rest' = (if s \<noteq> FALSE then rest @ [s] else rest)"
          have r: "list_all (valid g2) rest'" "ones_in \<rho> g2 rest' = ones_in \<rho> g rest + of_bool sp"
            unfolding rest'_def
            using keep_nonzero [OF inv lit_mono [OF \<open>lit \<rho> g1 s sp\<close> 1(1)] list_all_valid_mono [OF le2 rest]]
              ones_in_mono [OF le2 rest] by simp_all
          have sh: "length rest' < length queue" by (simp add: q rest'_def)
          have "gives g2 (compress lastcol rest' cs g2) (?P g2 rest' cs)"
            using less.hyps [OF sh r(1)] 1(2) by blast
          then show "gives g2 (compress lastcol rest' cs g2) (?P g (x # y # z # rest) carries)"
          proof (rule gives_weaken, goal_cases)
            case (1 g' qc)
            have f: "of_bool sp + 2 * of_bool ((p x \<and> p y) \<or> (p x \<and> p z) \<or> (p y \<and> p z)) =
                (of_bool (p x) + of_bool (p y) + of_bool (p z) :: nat)"
              unfolding sp_def by (rule full_adder)
            have "of_bool sp mod 2 = (of_bool (p x) + of_bool (p y) + of_bool (p z) :: nat) mod 2"
              unfolding f [symmetric] by simp
            then have "(ones_in \<rho> g rest + of_bool sp) mod 2 = ones_in \<rho> g queue mod 2"
              unfolding ones by (metis add.commute mod_add_right_eq)
            then show ?case using 1(3) r(2) \<open>list_all (valid g2) cs \<and> _\<close> f
              by (cases lastcol) (auto simp: q p_def)
          qed
        qed
      qed
    qed
  qed
qed

section \<open>All the columns\<close>

text \<open>The columns compressed so far, as pairs, and the remaining ones.\<close>

definition paired :: "nat \<Rightarrow> L list list \<Rightarrow> L list \<Rightarrow> L list \<Rightarrow> L list list" where
  "paired i cs first second = map (\<lambda>k. if k < i then [first ! k, second ! k] else cs ! k) [0..<length cs]"

definition compressed :: "(nat \<Rightarrow> bool) \<Rightarrow> nat \<Rightarrow> nat \<Rightarrow> Aig \<Rightarrow> nat \<Rightarrow> L list list \<times> L list \<times> L list \<Rightarrow> bool" where
  "compressed \<rho> w S g i s = (case s of (cs, first, second) \<Rightarrow>
     length cs = w \<and> length first = w \<and> length second = w \<and>
     (\<forall>k<w. i \<le> k \<longrightarrow> first ! k = FALSE \<and> second ! k = FALSE) \<and>
     columns_ok g w (paired i cs first second) \<and>
     columns_sum \<rho> g (paired i cs first second) mod 2 ^ w = S mod 2 ^ w)"

lemma two_head:
  assumes "aig_inv g" "length q \<le> 2" "list_all (valid g) q"
  shows "list_all (valid g) [case q of l # _ \<Rightarrow> l | _ \<Rightarrow> FALSE, case q of _ # l # _ \<Rightarrow> l | _ \<Rightarrow> FALSE]"
    "ones_in \<rho> g [case q of l # _ \<Rightarrow> l | _ \<Rightarrow> FALSE, case q of _ # l # _ \<Rightarrow> l | _ \<Rightarrow> FALSE] = ones_in \<rho> g q"
proof -
  have f: "valid g FALSE" "\<not> val \<rho> g FALSE" using lit_const(1) [OF assms(1), of \<rho> False] by (simp_all add: lit_def)
  consider "q = []" | x where "q = [x]" | x y where "q = [x, y]"
    using assms(2) by (cases q; cases "tl q") (auto simp: One_nat_def)
  then show "list_all (valid g) [case q of l # _ \<Rightarrow> l | _ \<Rightarrow> FALSE, case q of _ # l # _ \<Rightarrow> l | _ \<Rightarrow> FALSE]"
    "ones_in \<rho> g [case q of l # _ \<Rightarrow> l | _ \<Rightarrow> FALSE, case q of _ # l # _ \<Rightarrow> l | _ \<Rightarrow> FALSE] = ones_in \<rho> g q"
    using assms(3) f by (cases; simp)+
qed

lemma compress_step:
  assumes "compressed \<rho> w S g i (cs, first, second)" "i < w"
  shows "gives g (do {
            ((queue, carries), g) \<leftarrow> compress (i + 1 = w) (cs ! i) (if i + 1 < w then cs ! (i + 1) else []) g;
            Some ((if i + 1 < w then cs[i + 1 := carries] else cs,
                   first[i := (case queue of l # _ \<Rightarrow> l | _ \<Rightarrow> first ! i)],
                   second[i := (case queue of _ # l # _ \<Rightarrow> l | _ \<Rightarrow> second ! i)]), g) })
     (\<lambda>g' s. compressed \<rho> w S g' (Suc i) s)"
proof -
  define P where "P = paired i cs first second"
  have len: "length cs = w" "length first = w" "length second = w" "length P = w"
    and zero: "first ! i = FALSE" "second ! i = FALSE"
    and tail: "\<And>k. k < w \<Longrightarrow> i \<le> k \<Longrightarrow> first ! k = FALSE \<and> second ! k = FALSE"
    and ok: "columns_ok g w P" and sm: "columns_sum \<rho> g P mod 2 ^ w = S mod 2 ^ w"
    using assms by (auto simp: compressed_def P_def paired_def)
  have Pi: "P ! k = cs ! k" if "i \<le> k" "k < w" for k using that len(1) by (simp add: P_def paired_def)
  have v: "list_all (valid g) (cs ! i)" "list_all (valid g) (if i + 1 < w then cs ! (i + 1) else [])"
    using ok Pi [of i] Pi [of "i + 1"] assms(2) by (auto simp: columns_ok_def)
  show ?thesis
  proof (rule gives_bind [OF compress_gives [OF v, where \<rho> = \<rho>]], goal_cases)
    case (1 qc g')
    obtain q c where qc: "qc = (q, c)" by (cases qc)
    have q: "length q \<le> 2" "list_all (valid g') q" "list_all (valid g') c" using 1(2) by (simp_all add: qc)
    define f1 where "f1 = (case q of l # _ \<Rightarrow> l | _ \<Rightarrow> FALSE)"
    define s1 where "s1 = (case q of _ # l # _ \<Rightarrow> l | _ \<Rightarrow> FALSE)"
    define P1 where "P1 = P[i := [f1, s1]]"
    define P2 where "P2 = (if i + 1 < w then P1[i + 1 := c] else P1)"
    have okP: "columns_ok g' w P" "columns_sum \<rho> g' P = columns_sum \<rho> g P" by (rule columns_mono [OF ok 1(1)])+
    have new: "paired (Suc i) (if i + 1 < w then cs[i + 1 := c] else cs) (first[i := f1]) (second[i := s1]) = P2"
    proof (rule nth_equalityI)
      let ?cs = "if i + 1 < w then cs[i + 1 := c] else cs"
      have lc: "length ?cs = w" using len(1) by simp
      show "length (paired (Suc i) ?cs (first[i := f1]) (second[i := s1])) = length P2"
        using len(4) lc by (simp add: paired_def P2_def P1_def)
      fix k
      assume "k < length (paired (Suc i) ?cs (first[i := f1]) (second[i := s1]))"
      then have k: "k < w" using lc by (simp add: paired_def)
      then have l: "paired (Suc i) ?cs (first[i := f1]) (second[i := s1]) ! k =
          (if k < Suc i then [first[i := f1] ! k, second[i := s1] ! k] else ?cs ! k)"
        unfolding paired_def lc by simp
      consider "k < i" | "k = i" | "k = i + 1" | "i + 1 < k" by linarith
      then show "paired (Suc i) ?cs (first[i := f1]) (second[i := s1]) ! k = P2 ! k"
        unfolding l using k len by cases (auto simp: P2_def P1_def P_def paired_def One_nat_def)
    qed
    show ?case unfolding qc prod.case zero f1_def [symmetric] s1_def [symmetric]
    proof (rule gives_inv)
      assume inv: "aig_inv g'"
      have hd2: "list_all (valid g') [f1, s1]" "ones_in \<rho> g' [f1, s1] = ones_in \<rho> g' q"
        unfolding f1_def s1_def by (rule two_head [OF inv q(1,2)])+
      have ok2: "columns_ok g' w P2"
        using okP(1) hd2(1) q(3) len(4) assms(2) by (auto simp: columns_ok_def P2_def P1_def nth_list_update)
      have e1: "columns_sum \<rho> g' P1 + 2 ^ i * ones_in \<rho> g' (cs ! i) = columns_sum \<rho> g' P + 2 ^ i * ones_in \<rho> g' q"
        using columns_sum_update [of i P \<rho> g' "[f1, s1]"] assms(2) len(4) Pi [of i] hd2(2) by (simp only: P1_def)
      have "columns_sum \<rho> g' P2 mod 2 ^ w = columns_sum \<rho> g' P mod 2 ^ w"
      proof (cases "i + 1 < w")
        case True
        then have ne: "i + 1 \<noteq> w" by simp
        have cons: "ones_in \<rho> g' q + 2 * ones_in \<rho> g' c = ones_in \<rho> g' (cs ! i) + 2 * ones_in \<rho> g' (cs ! (i + 1))"
          using 1(2) True ne ones_in_mono [OF 1(1) v(1)] ones_in_mono [OF 1(1) v(2)] by (simp add: qc)
        have P1k: "P1 ! (i + 1) = cs ! (i + 1)" using Pi [of "i + 1"] True by (simp add: P1_def)
        have "columns_sum \<rho> g' P2 + 2 ^ (i + 1) * ones_in \<rho> g' (cs ! (i + 1)) = columns_sum \<rho> g' P1 + 2 ^ (i + 1) * ones_in \<rho> g' c"
          using columns_sum_update [of "i + 1" P1 \<rho> g' c] True len(4) by (simp add: P2_def P1_def P1k [unfolded P1_def])
        moreover have "2 ^ i * ones_in \<rho> g' q + 2 ^ (i + 1) * ones_in \<rho> g' c =
            2 ^ i * ones_in \<rho> g' (cs ! i) + 2 ^ (i + 1) * ones_in \<rho> g' (cs ! (i + 1))"
          using arg_cong [OF cons, of "\<lambda>x. 2 ^ i * x"] by (simp add: distrib_left power_add mult.assoc)
        ultimately have "columns_sum \<rho> g' P2 = columns_sum \<rho> g' P" using e1 by linarith
        then show ?thesis by simp
      next
        case False
        then have w: "w = i + 1" using assms(2) by simp
        have par: "ones_in \<rho> g' q mod 2 = ones_in \<rho> g' (cs ! i) mod 2"
          using 1(2) w ones_in_mono [OF 1(1) v(1)] by (simp add: qc)
        have "(2 ^ i * ones_in \<rho> g' q) mod 2 ^ w = (2 ^ i * ones_in \<rho> g' (cs ! i)) mod 2 ^ w"
          using par unfolding w power_add power_one_right mult_mod_right [symmetric] by simp
        then have "(columns_sum \<rho> g' P1 + 2 ^ i * ones_in \<rho> g' (cs ! i)) mod 2 ^ w =
            (columns_sum \<rho> g' P + 2 ^ i * ones_in \<rho> g' (cs ! i)) mod 2 ^ w"
          unfolding e1 by (rule mod_add_cong [OF refl])
        then have "columns_sum \<rho> g' P1 mod 2 ^ w = columns_sum \<rho> g' P mod 2 ^ w" by (simp add: nat_mod_eq_iff)
        then show ?thesis using w by (simp add: P2_def)
      qed
      then have "compressed \<rho> w S g' (Suc i) (if i + 1 < w then cs[i + 1 := c] else cs, first[i := f1], second[i := s1])"
        unfolding compressed_def prod.case new using ok2 len tail sm okP(2) by (auto simp: nth_list_update)
      then show "gives g' (Some ((if i + 1 < w then cs[i + 1 := c] else cs, first[i := f1], second[i := s1]), g'))
          (\<lambda>g' s. compressed \<rho> w S g' (Suc i) s)"
        by (rule gives_return)
    qed
  qed
qed

text \<open>Reading a valid word as a sum.\<close>

lemma num_of_valid:
  assumes "length ls = w" "list_all (valid g) ls"
  shows "num \<rho> g w ls (\<Sum>k<w. 2 ^ k * of_bool (val \<rho> g (ls ! k)))"
proof -
  define F where "F = of_bits w (\<lambda>k. val \<rho> g (ls ! k))"
  have "(\<Sum>k<w. 2 ^ k * of_bool (val \<rho> g (ls ! k))) = (\<Sum>k<w. 2 ^ k * of_bool (bit F k))"
    by (rule sum.cong) (auto simp: F_def)
  also have "\<dots> = F" unfolding bits_sum by (simp add: F_def)
  finally have "(\<Sum>k<w. 2 ^ k * of_bool (val \<rho> g (ls ! k))) = F" .
  moreover have "num \<rho> g w ls F"
    using assms by (auto simp: F_def lit_def list_all_length intro!: num_of_bits)
  ultimately show ?thesis by simp
qed

lemma compress_columns_gives:
  assumes "columns_ok g w cs"
  shows "gives g (compress_columns cs g) (\<lambda>g' (first, second). \<exists>x y. num \<rho> g' w first x \<and> num \<rho> g' w second y \<and>
     (x + y) mod 2 ^ w = columns_sum \<rho> g cs mod 2 ^ w)"
proof -
  have w: "length cs = w" using assms by (simp add: columns_ok_def)
  have p0: "paired 0 cs (replicate w FALSE) (replicate w FALSE) = cs"
    by (simp add: paired_def map_nth)
  show ?thesis unfolding compress_columns_def Let_def w
  proof (rule gives_bind, rule build_fold_gives [where I = "compressed \<rho> w (columns_sum \<rho> g cs)"], goal_cases)
    case 1
    show ?case using assms w by (simp add: compressed_def p0)
  next
    case (2 i s g1)
    obtain c f t where s: "s = (c, f, t)" by (cases s)
    have i: "i < w" "[0..<w] ! i = i" using 2(1) by simp_all
    show ?case unfolding i(2) s prod.case using compress_step [OF 2(3) [unfolded s] i(1)] by simp
  next
    case (3 s g1)
    obtain c f t where s: "s = (c, f, t)" by (cases s)
    have k: "length c = w" "length f = w" "length t = w" "columns_ok g1 w (paired w c f t)"
      "columns_sum \<rho> g1 (paired w c f t) mod 2 ^ w = columns_sum \<rho> g cs mod 2 ^ w"
      using 3(2) by (simp_all add: compressed_def s)
    have p: "paired w c f t = map (\<lambda>k. [f ! k, t ! k]) [0..<w]" by (simp add: paired_def k(1))
    have v: "list_all (valid g1) f" "list_all (valid g1) t"
    proof -
      have "valid g1 (f ! j) \<and> valid g1 (t ! j)" if "j < w" for j
        using k(4) that by (simp add: columns_ok_def p)
      then show "list_all (valid g1) f" "list_all (valid g1) t" using k(2,3) by (simp_all add: list_all_length)
    qed
    have "columns_sum \<rho> g1 (paired w c f t) =
        (\<Sum>k<w. 2 ^ k * of_bool (val \<rho> g1 (f ! k))) + (\<Sum>k<w. 2 ^ k * of_bool (val \<rho> g1 (t ! k)))"
      unfolding p columns_sum_def sum.distrib [symmetric] by (intro sum.cong) (auto simp: distrib_left)
    then show ?case unfolding s prod.case
      using num_of_valid [OF k(2) v(1), of \<rho>] num_of_valid [OF k(3) v(2), of \<rho>] k(5) by (auto intro!: gives_return)
  qed
qed

section \<open>The carry-save product\<close>

lemma mul_carry_save_unfactored_gives:
  assumes "num \<rho> g w a n" "num \<rho> g w b m"
  shows "gives g (mul_carry_save_unfactored a b g) (\<lambda>g' r. numz \<rho> g' w r (int n * int m))"
proof (rule gives_inv)
  assume inv: "aig_inv g"
  have la: "length a = w" by (rule numD(1) [OF assms(1)])
  define rows where "rows = (case (if is_const b then Some (a, b) else if is_const a then Some (b, a) else None) of
            Some (data, constant) \<Rightarrow> do { columns \<leftarrow> constant_rows data constant (replicate w []); Some (columns, g) }
          | None \<Rightarrow> product_rows a b (replicate w []) g)"
  have const: "gives g (do { columns \<leftarrow> constant_rows x c (replicate w []); Some (columns, g) })
      (\<lambda>g' cs. columns_ok g' w cs \<and> int (columns_sum \<rho> g' cs) mod 2 ^ w = (int p * int q) mod 2 ^ w)"
    if xc: "num \<rho> g w x p" "num \<rho> g w c q" "is_const c" for x c p q
  proof -
    obtain cs where "constant_rows x c (replicate w []) = Some cs" "columns_ok g w cs"
      "int (columns_sum \<rho> g cs) mod 2 ^ w = (int p * int q) mod 2 ^ w"
      by (rule constant_rows_gives [OF inv xc])
    then show ?thesis by (simp add: gives_return)
  qed
  have r: "gives g rows (\<lambda>g' cs. columns_ok g' w cs \<and> int (columns_sum \<rho> g' cs) mod 2 ^ w = (int n * int m) mod 2 ^ w)"
  proof -
    consider "is_const b" | "\<not> is_const b" "is_const a" | "\<not> is_const b" "\<not> is_const a" by blast
    then show ?thesis
    proof cases
      case 1
      then show ?thesis using const [OF assms] by (simp add: rows_def)
    next
      case 2
      then show ?thesis using const [OF assms(2,1)] by (simp add: rows_def mult.commute)
    next
      case 3
      have e: "int (x mod 2 ^ w) = int (y mod 2 ^ w) \<Longrightarrow> int x mod 2 ^ w = int y mod 2 ^ w" for x y
        by (simp add: zmod_int)
      from product_rows_gives [OF assms] show ?thesis
        unfolding rows_def using 3 by (auto elim!: gives_weaken simp flip: of_nat_mult intro!: e)
    qed
  qed
  have "gives g (do { (columns, g) \<leftarrow> rows; ((first, second), g) \<leftarrow> compress_columns columns g; blast_add first second g })
      (\<lambda>g' r. numz \<rho> g' w r (int n * int m))"
  proof (rule gives_bind [OF r], goal_cases)
    case (1 cs g1)
    show ?case unfolding prod.case
    proof (rule gives_bind [OF compress_columns_gives [OF conjunct1 [OF 1(2)], where \<rho> = \<rho>]], goal_cases)
      case (1 fs g2)
      obtain f s where fs: "fs = (f, s)" by (cases fs)
      obtain x y where xy: "num \<rho> g2 w f x" "num \<rho> g2 w s y" "(x + y) mod 2 ^ w = columns_sum \<rho> g1 cs mod 2 ^ w"
        using 1(2) by (auto simp: fs)
      have "int ((x + y) mod 2 ^ w) = int (columns_sum \<rho> g1 cs mod 2 ^ w)" by (simp only: xy(3))
      then have z: "(int x + int y) mod 2 ^ w = (int n * int m) mod 2 ^ w"
        using \<open>columns_ok g1 w cs \<and> _\<close> by (simp add: zmod_int)
      show ?case unfolding fs prod.case
        by (rule gives_weaken [OF blast_add_numz [OF numz_num [OF xy(1)] numz_num [OF xy(2)]]]) (rule numz_cong [OF _ z])
    qed
  qed
  then show ?thesis unfolding mul_carry_save_unfactored_def Let_def la rows_def .
qed
lemma mul_carry_save_gives:
  assumes "num \<rho> g w a n" "num \<rho> g w b m"
  shows "gives g (mul_carry_save a b g) (\<lambda>g' r. num \<rho> g' w r (n * m mod 2 ^ w))"
proof (rule gives_inv)
  assume inv: "aig_inv g"
  define const where "const = (if is_const b then Some (a, b) else if is_const a then Some (b, a) else None)"
  define fs where "fs = (case const of
                 None \<Rightarrow> None
               | Some (data, constant) \<Rightarrow>
                   if factorable_data data
                   then (case constant_factors constant of None \<Rightarrow> None | Some f \<Rightarrow> Some (data, f)) else None)"
  have "gives g (mul_carry_save a b g) (\<lambda>g' r. numz \<rho> g' w r (int n * int m))"
  proof (cases "binary_factor a b")
    case (Some t)
    then show ?thesis using binary_factor_gives [OF assms] by (cases t) (simp add: mul_carry_save_def)
  next
    case None
    show ?thesis
    proof (cases fs)
      case fnone: None
      then have "mul_carry_save a b g = mul_carry_save_unfactored a b g"
        by (simp add: mul_carry_save_def None fs_def const_def)
      then show ?thesis using mul_carry_save_unfactored_gives [OF assms] by simp
    next
      case (Some t)
      then obtain data c f other corr where t: "t = (data, f, other, corr)" "const = Some (data, c)"
        "factorable_data data" "constant_factors c = Some (f, other, corr)"
        by (auto simp: fs_def split: option.splits prod.splits if_splits)
      obtain p q where pq: "num \<rho> g w data p" "num \<rho> g w c q" "int p * int q = int n * int m"
        using t(2) assms by (auto simp: const_def mult.commute split: if_splits)
      have w: "w = 64" "length data = 64" using numD(1) [OF pq(1)] t(3) by (auto simp: factorable_data_def split: if_splits)
      obtain v where v: "constant_value c = Some v"
        using t(4) by (auto simp: constant_factors_def Let_def split: if_splits option.splits)
      note fok = constant_factors_ok(1) [OF t(4) v]
      have vm: "unat v = q" using constant_value_num [OF inv _ v] pq(2) w(1) by blast
      have "gives g (do {
                   (intermediate, g) \<leftarrow> mul_carry_save_unfactored data (small_bits 64 f) g;
                   (product, g) \<leftarrow> mul_carry_save_unfactored intermediate (small_bits 64 other) g;
                   correct_product product data corr g })
          (\<lambda>g' r. numz \<rho> g' 64 r (int p * int (unat f) * int (unat other) + corr * int p))"
      proof (rule gives_bind [OF mul_carry_save_unfactored_gives [OF pq(1) [unfolded w(1)] small_bits_const(1) [OF inv]]], goal_cases)
        case (1 im g1)
        show ?case unfolding prod.case
        proof (rule gives_inv)
          assume inv1: "aig_inv g1"
          have im: "num \<rho> g1 64 im (sem_of_int 64 (int p * int (unat f)))" using 1(2) by (simp add: numz_def)
          have "gives g1 (mul_carry_save_unfactored im (small_bits 64 other) g1)
              (\<lambda>g' r. numz \<rho> g' 64 r (int p * int (unat f) * int (unat other)))"
            by (rule gives_weaken [OF mul_carry_save_unfactored_gives [OF im small_bits_const(1) [OF inv1]]])
              (erule numz_cong, simp add: int_sem_of_int mod_mult_left_eq)
          then show "gives g1 (do { (product, g) \<leftarrow> mul_carry_save_unfactored im (small_bits 64 other) g1; correct_product product data corr g })
              (\<lambda>g' r. numz \<rho> g' 64 r (int p * int (unat f) * int (unat other) + corr * int p))"
          proof (rule gives_bind, goal_cases)
            case (1 pr g2)
            have "numz \<rho> g2 64 data (int p)"
              by (rule numz_mono [OF numz_mono [OF numz_num [OF pq(1) [unfolded w(1)]] \<open>aig_le g g1\<close>] 1(1)])
            from correct_product_gives [OF 1(2) this, of corr] show ?case unfolding prod.case using fok by blast
          qed
        qed
      qed
      then have "gives g (do {
                   (intermediate, g) \<leftarrow> mul_carry_save_unfactored data (small_bits 64 f) g;
                   (product, g) \<leftarrow> mul_carry_save_unfactored intermediate (small_bits 64 other) g;
                   correct_product product data corr g })
          (\<lambda>g' r. numz \<rho> g' w r (int p * int q))"
        using factored_value [of f other corr v "int p"] fok unfolding w(1) vm
        by (elim gives_weaken numz_cong) blast
      moreover have "mul_carry_save a b g = do {
                   (intermediate, g) \<leftarrow> mul_carry_save_unfactored data (small_bits 64 f) g;
                   (product, g) \<leftarrow> mul_carry_save_unfactored intermediate (small_bits 64 other) g;
                   correct_product product data corr g }"
        using Some unfolding mul_carry_save_def None option.case const_def [symmetric] Let_def fs_def [symmetric]
        by (simp add: t(1) w(2))
      ultimately show ?thesis by (simp add: pq(3))
    qed
  qed
  then show ?thesis by (rule gives_weaken) (use num_numz [of _ _ w _ "n * m"] in simp)
qed

end
