(* ===== verification/Blast_Correct.thy ===== *)
theory Blast_Correct
  imports Scatter_Correct Mul_Compress Aig_Correct
begin

unbundle bit_operations_syntax

declare One_nat_def [simp del]

text \<open>
  The dispatch of operators to circuits (\<open>bitwright/src/prove/rule.rs\<close>) and what the bit-blaster
  promises: the circuit of every operator computes the operator, on every word of a reachable
  graph and at every width of the library.
\<close>

section \<open>Dispatch\<close>

definition rule_un :: "UnOp \<Rightarrow> L list \<Rightarrow> Aig \<Rightarrow> (L list \<times> Aig) option" where
  "rule_un op a g = (case op of
     UNot \<Rightarrow> Some (blast_not a, g)
   | UNeg \<Rightarrow> blast_neg a g
   | UPopcnt \<Rightarrow> blast_popcnt a g
   | UClz \<Rightarrow> blast_clz a g
   | UCtz \<Rightarrow> blast_ctz a g
   | UBswap \<Rightarrow> Some (blast_bswap a, g)
   | UBitRev \<Rightarrow> Some (blast_bitrev a, g))"

definition rule_bin :: "BinOp \<Rightarrow> L list \<Rightarrow> L list \<Rightarrow> Aig \<Rightarrow> (L list \<times> Aig) option" where
  "rule_bin op a b g = (case op of
     BAdd \<Rightarrow> blast_add a b g
   | BSub \<Rightarrow> blast_sub a b g
   | BMul \<Rightarrow> blast_mul a b g
   | BUMulHi \<Rightarrow> blast_mulhi a b False g
   | BSMulHi \<Rightarrow> blast_mulhi a b True g
   | BUDiv \<Rightarrow> do { ((q, _), g) \<leftarrow> blast_udivrem a b g; Some (q, g) }
   | BURem \<Rightarrow> do { ((_, r), g) \<leftarrow> blast_udivrem a b g; Some (r, g) }
   | BSDiv \<Rightarrow> blast_sdiv a b g
   | BSRem \<Rightarrow> blast_srem a b g
   | BAnd \<Rightarrow> blast_and a b g
   | BOr \<Rightarrow> blast_or a b g
   | BXor \<Rightarrow> blast_xor a b g
   | BShl \<Rightarrow> blast_shift a b True FALSE g
   | BLShr \<Rightarrow> blast_shift a b False FALSE g
   | BAShr \<Rightarrow> let s = last_or_false a in blast_shift a b False s g
   | BRotL \<Rightarrow> blast_rotate a b True g
   | BRotR \<Rightarrow> blast_rotate a b False g
   | BPdep \<Rightarrow> blast_pdep a b g
   | BPext \<Rightarrow> blast_pext a b g)"

definition rule_cmp :: "CmpOpExt \<Rightarrow> L list \<Rightarrow> L list \<Rightarrow> Aig \<Rightarrow> (L list \<times> Aig) option" where
  "rule_cmp op a b g = do {
     (r, g) \<leftarrow> (case op of
         XEq \<Rightarrow> blast_eq a b g
       | XNe \<Rightarrow> do { (r, g) \<leftarrow> blast_eq a b g; Some (r XOR 1, g) }
       | XUlt \<Rightarrow> blast_ult a b g
       | XUle \<Rightarrow> blast_ule a b g
       | XUgt \<Rightarrow> blast_ult b a g
       | XUge \<Rightarrow> blast_ule b a g
       | XSlt \<Rightarrow> blast_slt a b g
       | XSle \<Rightarrow> blast_sle a b g
       | XSgt \<Rightarrow> blast_slt b a g
       | XSge \<Rightarrow> blast_sle b a g);
     Some ([r], g) }"

section \<open>The circuits of the operators\<close>

lemma width_ok_small: "width_ok w \<Longrightarrow> w < 2 ^ 64" "width_ok w \<Longrightarrow> w < 2 ^ w"
  using less_exp [of w] by (auto simp: width_ok_def)

lemma rule_un_gives:
  assumes "num \<rho> g w a n" "width_ok w" "op = UBswap \<Longrightarrow> w mod 8 = 0"
  shows "gives g (rule_un op a g) (\<lambda>g' r. num \<rho> g' w r (sem_un op w n))"
proof -
  have w: "0 < w" using assms(2) by (simp add: width_ok_def)
  show ?thesis
  proof (cases op)
    case UNot
    then show ?thesis using num_not [OF assms(1)] by (simp add: rule_un_def sem_un_def gives_return)
  next
    case UNeg
    then show ?thesis using blast_neg_gives [OF assms(1)] by (simp add: rule_un_def sem_un_def)
  next
    case UPopcnt
    then show ?thesis using blast_popcnt_gives [OF assms(1) w] by (simp add: rule_un_def)
  next
    case UClz
    then show ?thesis using blast_clz_gives [OF assms(1) w] by (simp add: rule_un_def)
  next
    case UCtz
    then show ?thesis using blast_ctz_gives [OF assms(1) w] by (simp add: rule_un_def)
  next
    case UBswap
    then show ?thesis using blast_bswap_num [OF assms(1)] assms(3) by (simp add: rule_un_def gives_return)
  next
    case UBitRev
    then show ?thesis using blast_bitrev_num [OF assms(1)] by (simp add: rule_un_def gives_return)
  qed
qed

lemma divrem_gives:
  assumes "num \<rho> g w a n" "num \<rho> g w b m"
  shows "gives g (do { ((q, _), g) \<leftarrow> blast_udivrem a b g; Some (q, g) }) (\<lambda>g' r. num \<rho> g' w r (sem_bin BUDiv w n m))"
    "gives g (do { ((_, r), g) \<leftarrow> blast_udivrem a b g; Some (r, g) }) (\<lambda>g' r. num \<rho> g' w r (sem_bin BURem w n m))"
  by (rule gives_bind [OF blast_udivrem_gives [OF assms]], auto intro!: gives_return simp flip: quotient_sem(1) quotient_sem(2) [where w = w])+

lemma shift_sem_gives:
  assumes a: "num \<rho> g w a n" and b: "num \<rho> g w b m" and w: "width_ok w"
  shows "gives g (blast_shift a b True FALSE g) (\<lambda>g' r. num \<rho> g' w r (sem_bin BShl w n m))"
    "gives g (blast_shift a b False FALSE g) (\<lambda>g' r. num \<rho> g' w r (sem_bin BLShr w n m))"
    "gives g (blast_shift a b False (last_or_false a) g) (\<lambda>g' r. num \<rho> g' w r (sem_bin BAShr w n m))"
proof -
  have w0: "0 < w" using w by (simp add: width_ok_def)
  note sem = shifted_sem [OF numD(2) [OF a] w0, of m] and w64 = width_ok_small(1) [OF w]
  have top: "lit \<rho> g (last_or_false a) (bit n (w - 1))"
    using numD(3) [OF a, of "w - 1"] w0 numD(1) [OF a] by (auto simp: last_or_false_def last_conv_nth)
  show "gives g (blast_shift a b True FALSE g) (\<lambda>g' r. num \<rho> g' w r (sem_bin BShl w n m))"
    using blast_shift_gives [OF a b _ w64, of FALSE False True] lit_const(1) sem(1) by (auto intro: gives_inv)
  show "gives g (blast_shift a b False FALSE g) (\<lambda>g' r. num \<rho> g' w r (sem_bin BLShr w n m))"
    using blast_shift_gives [OF a b _ w64, of FALSE False False] lit_const(1) sem(2) by (auto intro: gives_inv)
  show "gives g (blast_shift a b False (last_or_false a) g) (\<lambda>g' r. num \<rho> g' w r (sem_bin BAShr w n m))"
    using blast_shift_gives [OF a b top w64, of False] sem(3) by simp
qed

lemma rule_bin_gives:
  assumes a: "num \<rho> g w a n" and b: "num \<rho> g w b m" and w: "width_ok w"
  shows "gives g (rule_bin op a b g) (\<lambda>g' r. num \<rho> g' w r (sem_bin op w n m))"
proof -
  have w0: "0 < w" using w by (simp add: width_ok_def)
  note w64 = width_ok_small(1) [OF w] and ww = width_ok_small(2) [OF w]
  note rot = blast_rotate_gives [OF a b w0 w64 ww]
  note hi = blast_mulhi_gives [OF a b w0, of False] blast_mulhi_gives [OF a b w0, of True]
  show ?thesis
    by (cases op)
      (use blast_add_gives [OF a b] blast_sub_gives [OF a b] blast_mul_gives [OF a b] hi divrem_gives [OF a b]
        blast_sdiv_gives [OF a b w0] blast_srem_gives [OF a b w0] blast_and_gives [OF a b] blast_or_gives [OF a b]
        xor_bits_gives [OF a b, of False] shift_sem_gives [OF a b w] rot [of True] rot [of False]
        blast_pdep_gives [OF a b w64] blast_pext_gives [OF a b w64]
       in \<open>simp_all add: rule_bin_def Let_def blast_xor_def flip: rotated_sem, simp_all add: sem_bin_def\<close>)
qed

lemma bit_num: "lit \<rho> g r p \<Longrightarrow> num \<rho> g 1 [r] (of_bool p)"
  using num_Cons [of \<rho> g r p 0 "[]" 0] by (simp add: One_nat_def)

lemma rule_cmp_gives:
  assumes a: "num \<rho> g w a n" and b: "num \<rho> g w b m" and w: "0 < w"
  shows "gives g (rule_cmp op a b g) (\<lambda>g' r. num \<rho> g' 1 r (of_bool (sem_cmp_ext op w n m)))"
proof -
  have ne: "gives g (do { (r, g) \<leftarrow> blast_eq a b g; Some (r XOR 1, g) }) (\<lambda>g' r. lit \<rho> g' r (n \<noteq> m))"
    unfolding blast_eq_def by (rule gives_bind [OF eq_bits_gives [OF a b]]) (auto intro!: gives_return)
  have "gives g (case op of
         XEq \<Rightarrow> blast_eq a b g
       | XNe \<Rightarrow> do { (r, g) \<leftarrow> blast_eq a b g; Some (r XOR 1, g) }
       | XUlt \<Rightarrow> blast_ult a b g
       | XUle \<Rightarrow> blast_ule a b g
       | XUgt \<Rightarrow> blast_ult b a g
       | XUge \<Rightarrow> blast_ule b a g
       | XSlt \<Rightarrow> blast_slt a b g
       | XSle \<Rightarrow> blast_sle a b g
       | XSgt \<Rightarrow> blast_slt b a g
       | XSge \<Rightarrow> blast_sle b a g) (\<lambda>g' r. lit \<rho> g' r (sem_cmp_ext op w n m))"
    by (cases op)
      (use ne eq_bits_gives [OF a b, of False] blast_ult_gives [OF a b] blast_ule_gives [OF a b] blast_ult_gives [OF b a]
        blast_ule_gives [OF b a] blast_slt_gives [OF a b w] blast_sle_gives [OF a b w] blast_slt_gives [OF b a w] blast_sle_gives [OF b a w]
       in \<open>simp_all add: sem_cmp_ext_def sem_cmp_def blast_eq_def\<close>)
  then show ?thesis unfolding rule_cmp_def
  proof (rule gives_bind, goal_cases)
    case (1 r g')
    from bit_num [OF 1(2)] show ?case unfolding prod.case by (rule gives_return)
  qed
qed

section \<open>What the bit-blaster promises\<close>

text \<open>
  The number a word of literals denotes, read through the evaluator of the code; and a call that
  computes a function of the inputs: it returns a word of the width, extends the graph by nodes
  only, and the word denotes the function under every assignment.
\<close>

definition circuit_value :: "Aig \<Rightarrow> (nat \<Rightarrow> bool) \<Rightarrow> L list \<Rightarrow> nat" where
  "circuit_value g \<rho> ls = of_bits (length ls) (\<lambda>i. aig_value (eval_all g \<rho>) (ls ! i))"

definition computes_word :: "Aig \<Rightarrow> (L list \<times> Aig) option \<Rightarrow> nat \<Rightarrow> ((nat \<Rightarrow> bool) \<Rightarrow> nat) \<Rightarrow> bool" where
  "computes_word g r w f \<longleftrightarrow> (\<exists>ls g'. r = Some (ls, g') \<and> aig_inv g' \<and> (\<exists>ns. nodes g' = nodes g @ ns) \<and>
     length ls = w \<and> (\<forall>l\<in>set ls. l div 2 < length (nodes g')) \<and> (\<forall>\<rho>. circuit_value g' \<rho> ls = f \<rho>))"

lemma circuit_num:
  assumes "\<forall>l\<in>set ls. l div 2 < length (nodes g)"
  shows "num \<rho> g (length ls) ls (circuit_value g \<rho> ls)"
  unfolding circuit_value_def
  by (rule num_of_bits) (use assms in \<open>auto intro!: valid_value simp: valid_def\<close>)

lemma num_circuit: "num \<rho> g w ls n \<Longrightarrow> circuit_value g \<rho> ls = n"
  unfolding circuit_value_def
  by (rule of_bits_eq) (auto simp: num_def lit_def val_def)

lemma gives_computes_word:
  assumes "aig_inv g" "\<And>\<rho>. gives g r (\<lambda>g' ls. num \<rho> g' w ls (f \<rho>))"
  shows "computes_word g r w f"
proof -
  from gives_all [of g r "\<lambda>\<rho> g' ls. num \<rho> g' w ls (f \<rho>)", OF assms(2)] assms(1)
  obtain ls g' where r: "r = Some (ls, g')" "aig_inv g'" "aig_le g g'" "\<forall>\<rho>. num \<rho> g' w ls (f \<rho>)"
    by (auto simp: gives_def)
  have "l div 2 < length (nodes g')" if "l \<in> set ls" for l
    using that r(4) by (auto simp: in_set_conv_nth num_def lit_def valid_def)
  moreover have "length ls = w" "circuit_value g' \<rho> ls = f \<rho>" for \<rho>
    using r(4) numD(1) num_circuit by blast+
  ultimately show ?thesis using r(1-3) unfolding computes_word_def aig_le_def by auto
qed

abbreviation word_ok :: "Aig \<Rightarrow> nat \<Rightarrow> L list \<Rightarrow> bool" where
  "word_ok g w ls \<equiv> length ls = w \<and> (\<forall>l\<in>set ls. l div 2 < length (nodes g))"

lemma word_num: "word_ok g w ls \<Longrightarrow> num \<rho> g w ls (circuit_value g \<rho> ls)"
  using circuit_num by blast

text \<open>
  C25: the circuit of every binary operator, division by zero and shifts past the width included,
  computes the operator at every width of the library, on any words of the graph, and leaves a
  graph on which the next call can build.
\<close>
theorem bin_circuits_exact:
  assumes "aig_inv g" "width_ok w" "word_ok g w a" "word_ok g w b"
  shows "computes_word g (rule_bin op a b g) w (\<lambda>\<rho>. sem_bin op w (circuit_value g \<rho> a) (circuit_value g \<rho> b))"
  by (rule gives_computes_word [OF assms(1) rule_bin_gives [OF word_num [OF assms(3)] word_num [OF assms(4)] assms(2)]])

text \<open>
  C26: the circuit of every unary operator computes the operator, byte swap on widths of whole
  bytes.
\<close>
theorem un_circuits_exact:
  assumes "aig_inv g" "width_ok w" "word_ok g w a" "op = UBswap \<longrightarrow> w mod 8 = 0"
  shows "computes_word g (rule_un op a g) w (\<lambda>\<rho>. sem_un op w (circuit_value g \<rho> a))"
  by (rule gives_computes_word [OF assms(1) rule_un_gives [OF word_num [OF assms(3)] assms(2)]]) (use assms(4) in simp)

text \<open>
  C27: the circuit of every comparison, the swapped and negated ones included, is one bit that
  holds exactly when the comparison does.
\<close>
theorem cmp_circuits_exact:
  assumes "aig_inv g" "0 < w" "word_ok g w a" "word_ok g w b"
  shows "computes_word g (rule_cmp op a b g) 1
    (\<lambda>\<rho>. of_bool (sem_cmp_ext op w (circuit_value g \<rho> a) (circuit_value g \<rho> b)))"
  by (rule gives_computes_word [OF assms(1) rule_cmp_gives [OF word_num [OF assms(3)] word_num [OF assms(4)] assms(2)]])

text \<open>
  C28: the carry-save multiplier, with its signed digits, its factorizations and its column
  compression, computes the same product as shift and add: the product modulo the width.
\<close>
theorem multipliers_agree:
  assumes "aig_inv g" "word_ok g w a" "word_ok g w b"
  shows "computes_word g (blast_mul a b g) w (\<lambda>\<rho>. circuit_value g \<rho> a * circuit_value g \<rho> b mod 2 ^ w) \<and>
    computes_word g (mul_carry_save a b g) w (\<lambda>\<rho>. circuit_value g \<rho> a * circuit_value g \<rho> b mod 2 ^ w)"
  by (intro conjI gives_computes_word [OF assms(1)]
      blast_mul_gives [OF word_num [OF assms(2)] word_num [OF assms(3)]]
      mul_carry_save_gives [OF word_num [OF assms(2)] word_num [OF assms(3)]])

text \<open>
  A factorization the search returns is exact: the constant has a value, and factor times
  the other factor plus the correction is that value modulo \<open>2 ^ 64\<close>, the correction one of 0, 1
  and -1, whatever the constant.
\<close>
theorem factorization_exact:
  "case constant_factors c of None \<Rightarrow> True
   | Some (f, other, correction) \<Rightarrow> length c = 64 \<and>
       constant_value c = Some (f * other + word_of_int correction) \<and> correction \<in> {0, 1, - 1}"
proof (cases "constant_factors c")
  case (Some t)
  obtain f other correction where t: "t = (f, other, correction)" by (cases t) auto
  from Some have "constant_value c \<noteq> None" unfolding constant_factors_def Let_def
    by (cases "constant_value c") (simp_all split: if_splits)
  then obtain x where v: "constant_value c = Some x" by blast
  from constant_factors_ok [OF Some [unfolded t] v] Some t v show ?thesis by simp
qed simp

text \<open>
  C29: summing words pairwise ends: as many rounds as there are words leave exactly one word,
  their sum modulo the width.
\<close>
theorem adder_tree_ends:
  assumes "aig_inv g" "vs \<noteq> []" "\<forall>v\<in>set vs. word_ok g w v"
  shows "\<exists>u g'. adder_tree (length vs) vs g = Some ([u], g') \<and>
    computes_word g (Some (u, g')) w (\<lambda>\<rho>. (\<Sum>v\<leftarrow>vs. circuit_value g \<rho> v) mod 2 ^ w)"
proof -
  have n: "nums \<rho> g w vs (map (circuit_value g \<rho>) vs)" for \<rho>
    using assms(3) by (auto simp: nums_def list_all2_conv_all_nth intro!: word_num)
  note tree = adder_tree_gives [OF n assms(2) order_refl]
  from tree [of undefined] assms(1) obtain u g' where r: "adder_tree (length vs) vs g = Some ([u], g')"
    by (auto simp: gives_def)
  have "gives g (Some (u, g')) (\<lambda>g' u. num \<rho> g' w u ((\<Sum>v\<leftarrow>vs. circuit_value g \<rho> v) mod 2 ^ w))" for \<rho>
    using tree [of \<rho>] unfolding r gives_def by simp
  from gives_computes_word [OF assms(1) this] r show ?thesis by blast
qed

section \<open>Witnesses\<close>

text \<open>Three inputs: a word of three bits and its operands.\<close>

lemma graph2_inv: "aig_inv graph2" by (rule aig_reachable_inv [OF graph2_reachable])

theorem bin_circuits_exact_witness:
  "computes_word graph2 (rule_bin BSDiv [2, 4, 7] [6, 1, 3] graph2) 3
     (\<lambda>\<rho>. sem_bin BSDiv 3 (circuit_value graph2 \<rho> [2, 4, 7]) (circuit_value graph2 \<rho> [6, 1, 3]))"
  by (rule bin_circuits_exact [OF graph2_inv]) (auto simp: graph2_def width_ok_def One_nat_def)

theorem un_circuits_exact_witness:
  "computes_word graph2 (rule_un UBswap [2, 4, 7, 1, 0, 2, 3, 6] graph2) 8
     (\<lambda>\<rho>. sem_un UBswap 8 (circuit_value graph2 \<rho> [2, 4, 7, 1, 0, 2, 3, 6]))"
  by (rule un_circuits_exact [OF graph2_inv]) (auto simp: graph2_def width_ok_def One_nat_def)

theorem cmp_circuits_exact_witness:
  "computes_word graph2 (rule_cmp XSgt [2, 4] [4, 7] graph2) 1
     (\<lambda>\<rho>. of_bool (sem_cmp_ext XSgt 2 (circuit_value graph2 \<rho> [2, 4]) (circuit_value graph2 \<rho> [4, 7])))"
  by (rule cmp_circuits_exact [OF graph2_inv]) (auto simp: graph2_def One_nat_def)

theorem multipliers_agree_witness:
  "computes_word graph2 (mul_carry_save [2, 4, 6] [4, 7, 2] graph2) 3
     (\<lambda>\<rho>. circuit_value graph2 \<rho> [2, 4, 6] * circuit_value graph2 \<rho> [4, 7, 2] mod 2 ^ 3)"
  by (rule conjunct2 [OF multipliers_agree [OF graph2_inv]]) (auto simp: graph2_def One_nat_def)

theorem adder_tree_ends_witness:
  "\<exists>u g'. adder_tree (length [[2 :: L, 4], [6, 0], [3, 1]]) [[2, 4], [6, 0], [3, 1]] graph2 = Some ([u], g') \<and>
    computes_word graph2 (Some (u, g')) 2 (\<lambda>\<rho>. (\<Sum>v\<leftarrow>[[2, 4], [6, 0], [3, 1]]. circuit_value graph2 \<rho> v) mod 2 ^ 2)"
  by (rule adder_tree_ends [OF graph2_inv]) (auto simp: graph2_def One_nat_def)

end
