(* ===== verification/Cnf_Sound.thy ===== *)
theory Cnf_Sound
  imports Cnf_Choice Blast_Correct "HOL-Library.Code_Target_Nat"
begin

unbundle bit_operations_syntax

declare One_nat_def [simp del]

text \<open>
  The clauses of a graph allow exactly the values the graph takes, so a model of them reads back
  as an input of the circuit and an accepted proof of unsatisfiability decides it.
\<close>

section \<open>Variables of nodes\<close>

lemma number_nodes_spec:
  assumes "i + length bs \<le> length vs" "number_nodes i bs (vs, p) = (vs', p')"
  shows "length vs' = length vs \<and> given p' = given p \<and> num_vars p' = num_vars p + length (filter id bs) \<and>
    (\<forall>j<length vs. vs' ! j = (if i \<le> j \<and> j < i + length bs \<and> bs ! (j - i)
       then num_vars p + length (filter id (take (j - i) bs)) else vs ! j))"
  using assms
proof (induction bs arbitrary: i vs p)
  case (Cons b bs)
  define q where "q = (if b then p\<lparr>num_vars := num_vars p + 1\<rparr> else p)"
  define ws where "ws = (if b then vs[i := num_vars p] else vs)"
  have run: "number_nodes (i + 1) bs (ws, q) = (vs', p')"
    using Cons.prems(2) by (simp add: ws_def q_def new_var_def split: if_splits)
  have "i + 1 + length bs \<le> length ws" using Cons.prems(1) by (simp add: ws_def)
  note ih = Cons.IH [OF this run]
  have "vs' ! j = (if i \<le> j \<and> j < i + length (b # bs) \<and> (b # bs) ! (j - i)
       then num_vars p + length (filter id (take (j - i) (b # bs))) else vs ! j)" if "j < length vs" for j
  proof (cases "j \<le> i")
    case True
    then show ?thesis using ih that by (auto simp: ws_def)
  next
    case False
    then obtain k where k: "j - i = Suc k" "j - (i + 1) = k" by (cases "j - i") (auto simp: One_nat_def)
    have "vs' ! j = (if j < i + 1 + length bs \<and> bs ! k then num_vars q + length (filter id (take k bs)) else ws ! j)"
      using ih that False k(2) by (simp add: ws_def)
    then show ?thesis using False k(1) by (auto simp: ws_def q_def nth_list_update)
  qed
  then show ?case using ih by (simp add: ws_def q_def)
qed simp

lemma filter_take_less:
  assumes "j < k" "k \<le> length bs" "bs ! j"
  shows "length (filter id (take j bs)) < length (filter id (take k bs))"
proof -
  have "take (Suc j + (k - Suc j)) bs = take (Suc j) bs @ take (k - Suc j) (drop (Suc j) bs)" by (rule take_add)
  then have "take k bs = take (Suc j) bs @ take (k - Suc j) (drop (Suc j) bs)" using assms(1) by simp
  moreover have "take (Suc j) bs = take j bs @ [bs ! j]" using assms by (simp add: take_Suc_conv_app_nth)
  ultimately show ?thesis using assms(3) by simp
qed

section \<open>The clauses of a gate\<close>

fun gate_clauses :: "(L \<Rightarrow> Lit) \<Rightarrow> L list \<Rightarrow> Lit \<Rightarrow> Gate \<Rightarrow> Lit list list" where
  "gate_clauses h ls g (GXor x y) =
     [[lit_not g, h x, h y], [lit_not g, lit_not (h x), lit_not (h y)], [g, lit_not (h x), h y], [g, h x, lit_not (h y)]]"
| "gate_clauses h ls g (GXor3 x y z) = map (xor3_clause g (h x) (h y) (h z)) [0..<8]"
| "gate_clauses h ls g (GNotMux c t e) =
     [[lit_not (h c), lit_not (h t), lit_not g], [lit_not (h c), h t, g], [h c, lit_not (h e), lit_not g], [h c, h e, g]]"
| "gate_clauses h ls g (GNotMaj x y z) =
     [[lit_not (h x), lit_not (h y), lit_not g], [h x, h y, g], [lit_not (h x), lit_not (h z), lit_not g], [h x, h z, g],
      [lit_not (h y), lit_not (h z), lit_not g], [h y, h z, g]]"
| "gate_clauses h ls g (GAnd s e) =
     map (\<lambda>l. [lit_not g, h l]) (operands ls (GAnd s e)) @ [g # map (\<lambda>l. lit_not (h l)) (operands ls (GAnd s e))]"

lemma upt_8: "[0..<8] = [0, 1, 2, 3, 4, 5, 6, 7 :: nat]" by (simp add: upt_rec numeral_eq_Suc One_nat_def)

lemma gate_clauses_sat:
  "(\<forall>c\<in>set (gate_clauses h ls g gt). satisfies m c) \<longleftrightarrow> (lit_holds m g \<longleftrightarrow> gate_val (\<lambda>l. lit_holds m (h l)) ls gt)"
proof (cases gt)
  case (GXor3 x y z)
  have "(\<forall>c\<in>set (gate_clauses h ls g gt). satisfies m c) \<longleftrightarrow>
      (\<forall>a\<in>{0, 1, 2, 3, 4, 5, 6, 7 :: nat}. satisfies m (xor3_clause g (h x) (h y) (h z) a))"
    unfolding GXor3 gate_clauses.simps upt_8 by simp
  also have "\<dots> \<longleftrightarrow> (lit_holds m g \<longleftrightarrow> gate_val (\<lambda>l. lit_holds m (h l)) ls gt)"
    unfolding GXor3 by (simp add: xor3_clause_def satisfies_def bit_numeral_rec bit_0 One_nat_def) blast
  finally show ?thesis .
next
  case (GAnd s e)
  show ?thesis unfolding GAnd by (auto simp: satisfies_def)
qed (auto simp: satisfies_def)

section \<open>Emission\<close>

definition emits :: "Cnf \<times> Port \<Rightarrow> Cnf \<times> Port \<Rightarrow> Lit list list \<Rightarrow> bool" where
  "emits s s' cs \<longleftrightarrow> var (fst s') = var (fst s) \<and> keep (fst s') = keep (fst s) \<and>
     kept (fst s') = kept (fst s) @ (if keep (fst s) then cs else []) \<and> emitted (fst s') = emitted (fst s) + length cs \<and>
     num_vars (snd s') = num_vars (snd s) \<and> map fst (given (snd s')) = map fst (given (snd s)) @ cs"

lemma emits_refl [simp]: "emits s s []" by (simp add: emits_def)

lemma emits_trans: "emits a b cs \<Longrightarrow> emits b c ds \<Longrightarrow> emits a c (cs @ ds)" by (auto simp: emits_def)

lemma push_clause_emits [simp]: "emits s (push_clause c w s) [c]"
  by (cases s) (simp add: emits_def push_clause_def Let_def One_nat_def)

lemma push_all_emits: "emits s (push_all cs s) cs"
proof (induction cs arbitrary: s)
  case (Cons c cs)
  from emits_trans [OF push_clause_emits [of s c None] Cons.IH] show ?case by (simp add: push_all_def)
qed (simp add: push_all_def)

lemma push_watched_emits:
  "emits s (fold (\<lambda>a. push_clause (f a) (w a)) as s) (map f as)"
proof (induction as arbitrary: s)
  case (Cons a as)
  from emits_trans [OF push_clause_emits Cons.IH] show ?case by simp
qed simp

abbreviation node_lit :: "nat list \<Rightarrow> L \<Rightarrow> Lit" where
  "node_lit vs l \<equiv> lit_new (vs ! (l div 2)) (l AND 1 = 0)"

lemma cnf_lit_in: "l div 2 < length (var cnf) \<Longrightarrow> cnf_lit cnf l = Some (node_lit (var cnf) l)"
  by (simp add: cnf_lit_def at_def)

lemma emit_gate_ok:
  assumes "i < length (var (fst s))" "\<forall>l\<in>set (operands ls gt). l div 2 < length (var (fst s))"
  shows "\<exists>s'. emit_gate ls (i, gt) s = Some s' \<and>
    emits s s' (gate_clauses (node_lit (var (fst s))) ls (lit_pos (var (fst s) ! i)) gt)"
proof -
  have v: "at (var (fst s)) i = Some (var (fst s) ! i)" using assms(1) by (simp add: at_def)
  note step = emit_gate_def Let_def fst_conv snd_conv v bind.bind_lunit
  show ?thesis
  proof (cases gt)
    case (GXor3 x y z)
    then show ?thesis
      unfolding step using assms(2) push_watched_emits by (simp add: cnf_lit_in)
  next
    case (GAnd b e)
    have "those (map (cnf_lit (fst s)) (operands ls gt)) = Some (map (node_lit (var (fst s))) (operands ls gt))"
      by (rule those_some) (use assms(2) cnf_lit_in in blast)
    then show ?thesis
      unfolding step using emits_trans [OF push_all_emits push_clause_emits]
      by (simp add: GAnd comp_def)
  qed (use assms(2) push_all_emits in \<open>simp_all add: step cnf_lit_in\<close>)
qed

lemma emit_gates_ok:
  assumes "\<forall>(i, gt)\<in>set igs. i < length (var (fst s)) \<and> (\<forall>l\<in>set (operands ls gt). l div 2 < length (var (fst s)))"
  shows "\<exists>s'. emit_gates ls igs s = Some s' \<and>
    emits s s' (concat (map (\<lambda>(i, gt). gate_clauses (node_lit (var (fst s))) ls (lit_pos (var (fst s) ! i)) gt) igs))"
  using assms
proof (induction igs arbitrary: s)
  case (Cons ig igs)
  obtain i gt where ig: "ig = (i, gt)" by fastforce
  from emit_gate_ok [of i s ls gt] Cons.prems obtain s1 where
    s1: "emit_gate ls (i, gt) s = Some s1"
      "emits s s1 (gate_clauses (node_lit (var (fst s))) ls (lit_pos (var (fst s) ! i)) gt)" by (auto simp: ig)
  have v: "var (fst s1) = var (fst s)" using s1(2) by (simp add: emits_def)
  from Cons.IH [of s1] Cons.prems obtain s2 where s2: "emit_gates ls igs s1 = Some s2"
      "emits s1 s2 (concat (map (\<lambda>(i, gt). gate_clauses (node_lit (var (fst s))) ls (lit_pos (var (fst s) ! i)) gt) igs))"
    by (auto simp: v)
  from emits_trans [OF s1(2) s2(2)] s1(1) s2(1) show ?case by (simp add: ig)
qed simp

section \<open>The encoding of a graph\<close>

lemma lit_holds_new: "lit_holds m (lit_new v p) \<longleftrightarrow> (m v = p)"
proof -
  have "lit_var (lit_new v p) = v"
    by (cases p) (simp_all add: lit_var_div lit_new_def or_one_eq push_bit_eq_mult)
  moreover have "is_neg (lit_new v p) \<longleftrightarrow> \<not> p" by (auto simp: is_neg_odd lit_new_def even_or_iff)
  ultimately show ?thesis by (auto simp: lit_holds_def)
qed

lemma lit_holds_pos: "lit_holds m (lit_pos v) \<longleftrightarrow> m v"
  using lit_holds_new [of m v True] by (simp add: lit_pos_def lit_new_def)

text \<open>The clauses given to the solver since a port.\<close>

definition clauses_since :: "Port \<Rightarrow> Port \<Rightarrow> Lit list list" where
  "clauses_since p q = drop (length (given p)) (map fst (given q))"

text \<open>What an encoding consists of: numbered nodes, gates with their functions, and the clauses.\<close>

definition encoding :: "Aig \<Rightarrow> L list \<Rightarrow> Port \<Rightarrow> Cnf \<Rightarrow> Port \<Rightarrow> Choice \<Rightarrow> bool" where
  "encoding g roots p cnf q c \<longleftrightarrow> choice_ok g 1 c \<and> length (var cnf) = length (nodes g) \<and>
     (\<forall>r\<in>set roots. ch_need c ! (r div 2)) \<and>
     (\<forall>i<length (nodes g). if ch_need c ! i then num_vars p \<le> var cnf ! i \<and> var cnf ! i < num_vars q else var cnf ! i = NONE) \<and>
     (\<forall>i<length (nodes g). \<forall>j<length (nodes g). ch_need c ! i \<and> ch_need c ! j \<and> var cnf ! i = var cnf ! j \<longrightarrow> i = j) \<and>
     num_vars q \<le> num_vars p + length (nodes g) \<and> (keep cnf \<longrightarrow> kept cnf = clauses_since p q) \<and>
     (\<forall>m. (\<forall>cl\<in>set (clauses_since p q). satisfies m cl) \<longleftrightarrow> (ch_need c ! 0 \<longrightarrow> \<not> m (var cnf ! 0)) \<and>
       (\<forall>(i, gt)\<in>set (ch_gates c). m (var cnf ! i) \<longleftrightarrow>
          gate_val (\<lambda>l. m (var cnf ! (l div 2)) = (l AND 1 = 0)) (ch_leaves c) gt))"

lemma encode_ok:
  assumes inv: "aig_inv g" and roots: "\<forall>r\<in>set roots. valid g r"
  shows "\<exists>cnf q c. encode_with_xor3 g roots p keeping xor3 = Some (cnf, q) \<and> keep cnf = keeping \<and> encoding g roots p cnf q c"
proof -
  let ?n = "length (nodes g)"
  from count_uses_ok [OF inv roots] obtain uses where u: "count_uses g roots = Some uses" "length uses = ?n" by blast
  from mark_need_ok [of roots "replicate ?n False"] roots obtain nd where
    nd: "mark_need roots (replicate ?n False) = Some nd" "length nd = ?n" "\<forall>i<?n. nd ! i \<longleftrightarrow> i \<in> (\<lambda>l. l div 2) ` set roots"
    by (auto simp: valid_def)
  have "choice_ok g ?n \<lparr>ch_need = nd, ch_gates = [], ch_leaves = []\<rparr>" using nd(2) by (simp add: choice_ok_def)
  from choose_gates_ok [OF inv u(2) order_refl this, of xor3] obtain c where
    c: "choose_gates g uses xor3 (rev [1..<?n]) \<lparr>ch_need = nd, ch_gates = [], ch_leaves = []\<rparr> = Some c" "choice_ok g 1 c"
      "\<forall>j<?n. nd ! j \<longrightarrow> ch_need c ! j" by auto
  have nl: "length (ch_need c) = ?n" using c(2) by (simp add: choice_ok_def)
  obtain vs p1 where num: "number_nodes 0 (ch_need c) (replicate ?n NONE, p) = (vs, p1)" by fastforce
  from number_nodes_spec [OF _ num] nl have
    vs: "length vs = ?n" "given p1 = given p" "num_vars p1 = num_vars p + length (filter id (ch_need c))"
      "\<forall>j<?n. vs ! j = (if ch_need c ! j then num_vars p + length (filter id (take j (ch_need c))) else NONE)" by auto
  define cnf where "cnf = \<lparr>var = vs, kept = [], keep = keeping, emitted = 0\<rparr>"
  have n0: "0 < ?n" using inv by (simp add: aig_inv_def)
  have at0: "at (ch_need c) 0 = Some (ch_need c ! 0)" using n0 nl by (simp add: at_def)
  define cs0 where "cs0 = (if ch_need c ! 0 then [[lit_not (node_lit vs FALSE)]] else [])"
  define s where "s = (if ch_need c ! 0 then push_clause [lit_not (node_lit vs FALSE)] None (cnf, p1) else (cnf, p1))"
  have s: "(if ch_need c ! 0 then do { f \<leftarrow> cnf_lit cnf FALSE; Some (push_clause [lit_not f] None (cnf, p1)) }
              else Some (cnf, p1)) = Some s" "emits (cnf, p1) s cs0"
    using n0 vs(1) by (simp_all add: cs0_def cnf_lit_in cnf_def s_def)
  have sv: "var (fst s) = vs" using s(2) by (simp add: emits_def cnf_def)
  have gates: "\<forall>(i, gt)\<in>set (rev (ch_gates c)). i < length vs \<and> (\<forall>l\<in>set (operands (ch_leaves c) gt). l div 2 < length vs)"
    using c(2) vs(1) by (fastforce simp: choice_ok_def fun_gate_def)
  define cs where "cs = cs0 @ concat (map (\<lambda>(i, gt). gate_clauses (node_lit vs) (ch_leaves c) (lit_pos (vs ! i)) gt) (rev (ch_gates c)))"
  from emit_gates_ok [of "rev (ch_gates c)" s "ch_leaves c"] gates sv obtain t where
    t: "emit_gates (ch_leaves c) (rev (ch_gates c)) s = Some t"
      "emits s t (concat (map (\<lambda>(i, gt). gate_clauses (node_lit vs) (ch_leaves c) (lit_pos (vs ! i)) gt) (rev (ch_gates c))))" by auto
  have em: "emits (cnf, p1) t cs" unfolding cs_def by (rule emits_trans [OF s(2) t(2)])
  have run: "encode_with_xor3 g roots p keeping xor3 = Some t"
    unfolding encode_with_xor3_def Let_def u(1) nd(1) c(1) bind.bind_lunit num prod.case cnf_def [symmetric] at0 s(1) t(1) ..
  have since: "clauses_since p (snd t) = cs"
    using em vs(2) by (simp add: emits_def clauses_since_def)
  have lit0: "lit_holds m (lit_not (node_lit vs FALSE)) \<longleftrightarrow> \<not> m (vs ! 0)" for m by (simp add: lit_holds_new)
  have sat: "(\<forall>cl\<in>set cs. satisfies m cl) \<longleftrightarrow> (ch_need c ! 0 \<longrightarrow> \<not> m (vs ! 0)) \<and>
       (\<forall>(i, gt)\<in>set (ch_gates c). m (vs ! i) \<longleftrightarrow> gate_val (\<lambda>l. m (vs ! (l div 2)) = (l AND 1 = 0)) (ch_leaves c) gt)" for m
  proof -
    have "(\<forall>cl\<in>set cs. satisfies m cl) \<longleftrightarrow> (\<forall>cl\<in>set cs0. satisfies m cl) \<and> (\<forall>(i, gt)\<in>set (ch_gates c).
        \<forall>cl\<in>set (gate_clauses (node_lit vs) (ch_leaves c) (lit_pos (vs ! i)) gt). satisfies m cl)"
      by (auto simp: cs_def)
    also have "\<dots> \<longleftrightarrow> (ch_need c ! 0 \<longrightarrow> \<not> m (vs ! 0)) \<and> (\<forall>(i, gt)\<in>set (ch_gates c). m (vs ! i) \<longleftrightarrow>
        gate_val (\<lambda>l. m (vs ! (l div 2)) = (l AND 1 = 0)) (ch_leaves c) gt)"
      unfolding gate_clauses_sat lit_holds_pos lit_holds_new by (auto simp: cs0_def satisfies_def lit_holds_new)
    finally show ?thesis .
  qed
  have less: "vs ! i < vs ! j" if "i < j" "j < ?n" "ch_need c ! i" "ch_need c ! j" for i j
    using that vs(4) filter_take_less [OF that(1), of "ch_need c"] nl by auto
  have inj: "i = j" if "i < ?n" "j < ?n" "ch_need c ! i \<and> ch_need c ! j \<and> vs ! i = vs ! j" for i j
    using less [of i j] less [of j i] that by (cases i j rule: linorder_cases) auto
  have range: "if ch_need c ! i then num_vars p \<le> vs ! i \<and> vs ! i < num_vars p1 else vs ! i = NONE" if "i < ?n" for i
    using vs(3,4) that nl filter_take_less [of i ?n "ch_need c"] by auto
  have "num_vars p1 \<le> num_vars p + ?n" using vs(3) nl length_filter_le [of id "ch_need c"] by simp
  moreover have "\<forall>r\<in>set roots. ch_need c ! (r div 2)" using roots nd(3) c(3) by (auto simp: valid_def)
  moreover have "var (fst t) = vs" "num_vars (snd t) = num_vars p1" "keep (fst t) = keeping" "keeping \<longrightarrow> kept (fst t) = cs"
    using em by (auto simp: emits_def cnf_def)
  ultimately have "encoding g roots p (fst t) (snd t) c"
    unfolding encoding_def since using sat inj range c(2) vs(1) by auto
  then show ?thesis using run \<open>keep (fst t) = keeping\<close> by (metis prod.collapse)
qed

section \<open>Models and inputs\<close>

definition model_of :: "bool list \<Rightarrow> nat \<Rightarrow> bool" where
  "model_of model v \<longleftrightarrow> v < length model \<and> model ! v"

lemma gate_val_cong: "(\<And>l. l \<in> set (operands ls gt) \<Longrightarrow> f l = f' l) \<Longrightarrow> gate_val f ls gt = gate_val f' ls gt"
  by (cases gt) auto

lemma val_split: "val \<rho> g l \<longleftrightarrow> (val \<rho> g (2 * (l div 2)) = (l AND 1 = 0))"
  using and_one_cases [of l] by (auto simp: val_def aig_value_def and_one_eq)

text \<open>A model of the clauses that agrees with the inputs agrees with every node that has a variable.\<close>

lemma encoding_agrees:
  assumes inv: "aig_inv g" and e: "encoding g roots p cnf q c"
    and sat: "\<forall>cl\<in>set (clauses_since p q). satisfies m cl"
    and inp: "\<And>i. i < length (nodes g) \<Longrightarrow> nodes g ! i = NInput \<Longrightarrow> ch_need c ! i \<Longrightarrow> m (var cnf ! i) = val \<rho> g (2 * i)"
  shows "i < length (nodes g) \<Longrightarrow> ch_need c ! i \<Longrightarrow> m (var cnf ! i) = val \<rho> g (2 * i)"
proof (induction i rule: less_induct)
  case (less i)
  have zero: "ch_need c ! 0 \<Longrightarrow> \<not> m (var cnf ! 0)" and
    gt: "\<And>i gt. (i, gt) \<in> set (ch_gates c) \<Longrightarrow>
      m (var cnf ! i) \<longleftrightarrow> gate_val (\<lambda>l. m (var cnf ! (l div 2)) = (l AND 1 = 0)) (ch_leaves c) gt"
    using e sat unfolding encoding_def by auto
  show ?case
  proof (cases "nodes g ! i")
    case NConst
    then have "i = 0" using aig_invD(4) [OF inv less.prems(1)] by (simp add: gate_ok_def)
    then show ?thesis using zero less.prems(2) lit_const(1) [OF inv, of \<rho> False] by (simp add: lit_def)
  next
    case NInput
    then show ?thesis using inp less.prems by blast
  next
    case (NAnd a b)
    have "i \<noteq> 0" using NAnd aig_invD(3) [OF inv] by (cases i) auto
    then have "i \<in> fst ` set (ch_gates c)"
      using e less.prems NAnd unfolding encoding_def choice_ok_def by (metis less_one not_le)
    then obtain gt' where mem: "(i, gt') \<in> set (ch_gates c)" by auto
    then have f: "fun_gate g i (\<lambda>\<rho>. val \<rho> g (2 * i)) (ch_leaves c) gt'" "\<forall>l\<in>set (operands (ch_leaves c) gt'). ch_need c ! (l div 2)"
      using e unfolding encoding_def choice_ok_def by auto
    have "gate_val (\<lambda>l. m (var cnf ! (l div 2)) = (l AND 1 = 0)) (ch_leaves c) gt' = gate_val (val \<rho> g) (ch_leaves c) gt'"
    proof (rule gate_val_cong)
      fix l assume l: "l \<in> set (operands (ch_leaves c) gt')"
      have "l div 2 < i" using f(1) l by (simp add: fun_gate_def)
      from less.IH [OF this] less.prems(1) this f(2) l
      show "(m (var cnf ! (l div 2)) = (l AND 1 = 0)) = val \<rho> g l" unfolding val_split [of \<rho> g l] by simp
    qed
    then show ?thesis using gt [OF mem] f(1) by (simp add: fun_gate_def)
  qed
qed

text \<open>The ordinal of an input node among the inputs.\<close>

definition ordinal :: "Aig \<Rightarrow> nat \<Rightarrow> nat" where
  "ordinal g i = length (filter (\<lambda>n. n = NInput) (take i (nodes g)))"

lemma val_input: "i < length (nodes g) \<Longrightarrow> nodes g ! i = NInput \<Longrightarrow> val \<rho> g (2 * i) = \<rho> (ordinal g i)"
  using eval_node_split [of i g \<rho>] by (auto simp: val_def aig_value_def ordinal_def and_one_eq)

lemma ordinal_less:
  assumes "i < j" "j < length (nodes g)" "nodes g ! i = NInput"
  shows "ordinal g i < ordinal g j"
  using filter_take_less [of i j "map (\<lambda>n. n = NInput) (nodes g)"] assms
  by (simp add: ordinal_def take_map filter_map comp_def)

lemma ordinal_inj:
  assumes "i < length (nodes g)" "j < length (nodes g)" "nodes g ! i = NInput" "nodes g ! j = NInput" "ordinal g i = ordinal g j"
  shows "i = j"
  using assms ordinal_less [of i j g] ordinal_less [of j i g] by (cases i j rule: linorder_cases) auto

text \<open>The input a model describes: inputs without a variable are false.\<close>

definition input_of :: "Aig \<Rightarrow> Cnf \<Rightarrow> bool list \<Rightarrow> nat \<Rightarrow> bool" where
  "input_of g cnf model k \<longleftrightarrow> (\<exists>i<length (nodes g). nodes g ! i = NInput \<and> ordinal g i = k \<and> cnf_value cnf (2 * i) model)"

definition agrees :: "Aig \<Rightarrow> L list \<Rightarrow> Cnf \<Rightarrow> bool list \<Rightarrow> (nat \<Rightarrow> bool) \<Rightarrow> bool" where
  "agrees g roots cnf model \<rho> \<longleftrightarrow> (\<forall>r\<in>set roots. cnf_value cnf r model = aig_value (eval_all g \<rho>) r)"

lemma cnf_value_var:
  assumes e: "encoding g roots p cnf q c" and bound: "num_vars p + length (nodes g) \<le> NONE"
    and l: "l div 2 < length (nodes g)"
  shows "ch_need c ! (l div 2) \<Longrightarrow> cnf_value cnf l model = (model_of model (var cnf ! (l div 2)) = (l AND 1 = 0))"
    "\<not> ch_need c ! (l div 2) \<Longrightarrow> cnf_value cnf l model = (l AND 1 = 1)"
proof -
  have v: "if ch_need c ! (l div 2) then var cnf ! (l div 2) < num_vars q else var cnf ! (l div 2) = NONE"
    "num_vars q \<le> num_vars p + length (nodes g)" "length (var cnf) = length (nodes g)"
    using e l unfolding encoding_def by (auto split: if_splits)
  show "ch_need c ! (l div 2) \<Longrightarrow> cnf_value cnf l model = (model_of model (var cnf ! (l div 2)) = (l AND 1 = 0))"
    "\<not> ch_need c ! (l div 2) \<Longrightarrow> cnf_value cnf l model = (l AND 1 = 1)"
    using v bound l and_one_cases [of l] by (auto simp: cnf_value_def Let_def model_of_def split: if_splits)
qed

lemma encoding_need: "encoding g roots p cnf q c \<Longrightarrow> r \<in> set roots \<Longrightarrow> ch_need c ! (r div 2)"
  by (simp add: encoding_def)

lemma model_agrees:
  assumes inv: "aig_inv g" and roots: "\<forall>r\<in>set roots. r div 2 < length (nodes g)"
    and bound: "num_vars p + length (nodes g) \<le> NONE" and e: "encoding g roots p cnf q c"
    and sat: "\<forall>cl\<in>set (clauses_since p q). satisfies (model_of model) cl"
    and inp: "\<And>i. i < length (nodes g) \<Longrightarrow> nodes g ! i = NInput \<Longrightarrow> ch_need c ! i \<Longrightarrow> model_of model (var cnf ! i) = val \<rho> g (2 * i)"
  shows "agrees g roots cnf model \<rho>"
  unfolding agrees_def
proof
  fix r assume r: "r \<in> set roots"
  have rl: "r div 2 < length (nodes g)" using roots r by blast
  have "model_of model (var cnf ! (r div 2)) = val \<rho> g (2 * (r div 2))"
    by (rule encoding_agrees [OF inv e sat inp rl encoding_need [OF e r]])
  then show "cnf_value cnf r model = aig_value (eval_all g \<rho>) r"
    unfolding cnf_value_var(1) [OF e bound rl encoding_need [OF e r]] val_def [symmetric] val_split [of \<rho> g r] by simp
qed

lemma model_input:
  assumes inv: "aig_inv g" and roots: "\<forall>r\<in>set roots. r div 2 < length (nodes g)"
    and bound: "num_vars p + length (nodes g) \<le> NONE" and e: "encoding g roots p cnf q c"
    and sat: "\<forall>cl\<in>set (clauses_since p q). satisfies (model_of model) cl"
  shows "agrees g roots cnf model (input_of g cnf model)"
proof (rule model_agrees [OF assms])
  fix i assume i: "i < length (nodes g)" "nodes g ! i = NInput" "ch_need c ! i"
  have "input_of g cnf model (ordinal g i) = cnf_value cnf (2 * i) model"
  proof
    assume "input_of g cnf model (ordinal g i)"
    then obtain j where "j < length (nodes g)" "nodes g ! j = NInput" "ordinal g j = ordinal g i" "cnf_value cnf (2 * j) model"
      unfolding input_of_def by blast
    then show "cnf_value cnf (2 * i) model" using ordinal_inj [of j g i] i by simp
  next
    assume "cnf_value cnf (2 * i) model"
    then show "input_of g cnf model (ordinal g i)" unfolding input_of_def using i by blast
  qed
  then show "model_of model (var cnf ! i) = val (input_of g cnf model) g (2 * i)"
    unfolding val_input [OF i(1,2)] using cnf_value_var(1) [OF e bound, of "2 * i" model] i by (simp add: and_one_eq)
qed

lemma input_model:
  assumes inv: "aig_inv g" and roots: "\<forall>r\<in>set roots. r div 2 < length (nodes g)"
    and bound: "num_vars p + length (nodes g) \<le> NONE" and e: "encoding g roots p cnf q c"
  shows "\<exists>model. length model = num_vars q \<and> (\<forall>cl\<in>set (clauses_since p q). satisfies (model_of model) cl) \<and>
     agrees g roots cnf model \<rho>"
proof -
  define model where "model = map (\<lambda>v. \<exists>i<length (nodes g). ch_need c ! i \<and> var cnf ! i = v \<and> val \<rho> g (2 * i)) [0..<num_vars q]"
  have inj: "\<forall>i<length (nodes g). \<forall>j<length (nodes g). ch_need c ! i \<and> ch_need c ! j \<and> var cnf ! i = var cnf ! j \<longrightarrow> i = j"
    using e unfolding encoding_def by (elim conjE)
  have m: "model_of model (var cnf ! i) = val \<rho> g (2 * i)" if "i < length (nodes g)" "ch_need c ! i" for i
  proof -
    have "var cnf ! i < num_vars q" using e that unfolding encoding_def by auto
    then have "model_of model (var cnf ! i) \<longleftrightarrow> (\<exists>j<length (nodes g). ch_need c ! j \<and> var cnf ! j = var cnf ! i \<and> val \<rho> g (2 * j))"
      by (simp add: model_of_def model_def)
    then show ?thesis using inj that by blast
  qed
  have n0: "0 < length (nodes g)" using inv by (simp add: aig_inv_def)
  have "(ch_need c ! 0 \<longrightarrow> \<not> model_of model (var cnf ! 0))"
    using m [OF n0] lit_const(1) [OF inv, of \<rho> False] by (simp add: lit_def)
  moreover have "model_of model (var cnf ! i) \<longleftrightarrow>
      gate_val (\<lambda>l. model_of model (var cnf ! (l div 2)) = (l AND 1 = 0)) (ch_leaves c) gt"
    if "(i, gt) \<in> set (ch_gates c)" for i gt
  proof -
    have f: "i < length (nodes g)" "ch_need c ! i" "fun_gate g i (\<lambda>\<rho>. val \<rho> g (2 * i)) (ch_leaves c) gt"
      "\<forall>l\<in>set (operands (ch_leaves c) gt). ch_need c ! (l div 2)"
      using e that unfolding encoding_def choice_ok_def by auto
    have "gate_val (\<lambda>l. model_of model (var cnf ! (l div 2)) = (l AND 1 = 0)) (ch_leaves c) gt = gate_val (val \<rho> g) (ch_leaves c) gt"
    proof (rule gate_val_cong)
      fix l assume l: "l \<in> set (operands (ch_leaves c) gt)"
      have "l div 2 < length (nodes g)" using f(1,3) l by (force simp: fun_gate_def)
      from m [OF this] f(4) l
      show "(model_of model (var cnf ! (l div 2)) = (l AND 1 = 0)) = val \<rho> g l" unfolding val_split [of \<rho> g l] by simp
    qed
    then show ?thesis using m [OF f(1,2)] f(3) by (simp add: fun_gate_def)
  qed
  moreover have "\<forall>m. (\<forall>cl\<in>set (clauses_since p q). satisfies m cl) \<longleftrightarrow> (ch_need c ! 0 \<longrightarrow> \<not> m (var cnf ! 0)) \<and>
     (\<forall>(i, gt)\<in>set (ch_gates c). m (var cnf ! i) \<longleftrightarrow>
        gate_val (\<lambda>l. m (var cnf ! (l div 2)) = (l AND 1 = 0)) (ch_leaves c) gt)"
    using e unfolding encoding_def by (elim conjE)
  ultimately have "\<forall>cl\<in>set (clauses_since p q). satisfies (model_of model) cl" by blast
  moreover from model_agrees [OF inv roots bound e this m] have "agrees g roots cnf model \<rho>" by blast
  moreover have "length model = num_vars q" by (simp add: model_def)
  ultimately show ?thesis by blast
qed

text \<open>
  C32: the clauses of a graph allow exactly the values the graph takes. The encoding returns, with
  every gate detection and with parities inlined or not; every model of the clauses gives the
  roots the values they have on the input read back from the model; and every input is part of a
  model that does.
\<close>
theorem cnf_exact:
  assumes "aig_inv g" "\<forall>r\<in>set roots. r div 2 < length (nodes g)" "num_vars p + length (nodes g) \<le> NONE"
  shows "\<exists>cnf q. encode_with_xor3 g roots p keeping xor3 = Some (cnf, q) \<and>
    (keeping \<longrightarrow> kept cnf = clauses_since p q) \<and>
    (\<forall>model. (\<forall>cl\<in>set (clauses_since p q). satisfies (model_of model) cl) \<longrightarrow> agrees g roots cnf model (input_of g cnf model)) \<and>
    (\<forall>\<rho>. \<exists>model. length model = num_vars q \<and> (\<forall>cl\<in>set (clauses_since p q). satisfies (model_of model) cl) \<and>
       agrees g roots cnf model \<rho>)"
proof -
  have rv: "\<forall>r\<in>set roots. valid g r" using assms(2) by (simp add: valid_def)
  from encode_ok [OF assms(1) rv] obtain cnf q c where
    run: "encode_with_xor3 g roots p keeping xor3 = Some (cnf, q)" "keep cnf = keeping" and e: "encoding g roots p cnf q c" by blast
  have "keep cnf \<longrightarrow> kept cnf = clauses_since p q" using e unfolding encoding_def by (elim conjE)
  then show ?thesis using run model_input [OF assms e] input_model [OF assms e] by blast
qed

section \<open>Questions, certificates and counterexamples\<close>

text \<open>
  A question as the prover poses it (\<open>bitwright/src/prove/mod.rs\<close>): the clauses of the goal and of
  the constraints, each constraint asserted, and the goal denied.
\<close>

fun assert_each :: "L list \<Rightarrow> Cnf \<times> Port \<Rightarrow> (Cnf \<times> Port) option" where
  "assert_each [] s = Some s"
| "assert_each (e # es) s = do { s \<leftarrow> cnf_assert e s; assert_each es s }"

definition pose :: "Aig \<Rightarrow> L \<Rightarrow> L list \<Rightarrow> bool \<Rightarrow> bool \<Rightarrow> (Cnf \<times> Port) option" where
  "pose g goal extra certificate xor3 = do {
     s \<leftarrow> encode_with_xor3 g (goal # extra) \<lparr>num_vars = 0, given = []\<rparr> certificate xor3;
     s \<leftarrow> assert_each extra s;
     cnf_assert (goal XOR 1) s }"

lemma cnf_assert_ok:
  assumes "l div 2 < length (var (fst s))"
  shows "\<exists>s'. cnf_assert l s = Some s' \<and> emits s s' [[node_lit (var (fst s)) l]]"
  using assms by (simp add: cnf_assert_def cnf_lit_in)

lemma assert_each_ok:
  assumes "\<forall>l\<in>set ls. l div 2 < length (var (fst s))"
  shows "\<exists>s'. assert_each ls s = Some s' \<and> emits s s' (map (\<lambda>l. [node_lit (var (fst s)) l]) ls)"
  using assms
proof (induction ls arbitrary: s)
  case (Cons l ls)
  from cnf_assert_ok [of l s] Cons.prems obtain s1 where
    s1: "cnf_assert l s = Some s1" "emits s s1 [[node_lit (var (fst s)) l]]" by auto
  have v: "var (fst s1) = var (fst s)" using s1(2) by (simp add: emits_def)
  from Cons.IH [of s1] Cons.prems v obtain s2 where
    "assert_each ls s1 = Some s2" "emits s1 s2 (map (\<lambda>l. [node_lit (var (fst s)) l]) ls)" by auto
  then show ?case using s1 emits_trans [OF s1(2)] by fastforce
qed simp

lemma cnf_value_cong: "var cnf = var cnf' \<Longrightarrow> cnf_value cnf l model = cnf_value cnf' l model"
  by (simp add: cnf_value_def)

text \<open>The clauses of a question: those of the encoding, a unit per constraint, and the denied goal.\<close>

lemma pose_ok:
  assumes inv: "aig_inv g" and roots: "\<forall>r\<in>set (goal # extra). r div 2 < length (nodes g)" and bound: "length (nodes g) \<le> NONE"
  shows "\<exists>cnf q cnf0 q0 c. pose g goal extra certificate xor3 = Some (cnf, q) \<and>
    encoding g (goal # extra) \<lparr>num_vars = 0, given = []\<rparr> cnf0 q0 c \<and> var cnf = var cnf0 \<and> (certificate \<longrightarrow> kept cnf = map fst (given q)) \<and>
    (\<forall>model. (\<forall>cl\<in>set (map fst (given q)). satisfies (model_of model) cl) \<longleftrightarrow>
       (\<forall>cl\<in>set (clauses_since \<lparr>num_vars = 0, given = []\<rparr> q0). satisfies (model_of model) cl) \<and>
       (\<forall>l\<in>set extra. cnf_value cnf l model) \<and> \<not> cnf_value cnf goal model)"
proof -
  let ?p = "\<lparr>num_vars = 0, given = []\<rparr> :: Port"
  have rv: "\<forall>r\<in>set (goal # extra). valid g r" using roots by (simp add: valid_def)
  from encode_ok [OF inv rv, of ?p certificate xor3] obtain cnf0 q0 c where
    run: "encode_with_xor3 g (goal # extra) ?p certificate xor3 = Some (cnf0, q0)" "keep cnf0 = certificate"
    and e: "encoding g (goal # extra) ?p cnf0 q0 c" by blast
  have len: "length (var cnf0) = length (nodes g)" using e unfolding encoding_def by (elim conjE)
  have kept: "keep cnf0 \<longrightarrow> kept cnf0 = clauses_since ?p q0" using e unfolding encoding_def by (elim conjE)
  from assert_each_ok [of extra "(cnf0, q0)"] roots len obtain s1 where
    s1: "assert_each extra (cnf0, q0) = Some s1" "emits (cnf0, q0) s1 (map (\<lambda>l. [node_lit (var cnf0) l]) extra)" by auto
  have v1: "var (fst s1) = var cnf0" using s1(2) by (simp add: emits_def)
  from cnf_assert_ok [of "goal XOR 1" s1] roots len v1 obtain s2 where
    s2: "cnf_assert (goal XOR 1) s1 = Some s2" "emits s1 s2 [[node_lit (var cnf0) (goal XOR 1)]]" by auto
  have em: "emits (cnf0, q0) s2 (map (\<lambda>l. [node_lit (var cnf0) l]) extra @ [[node_lit (var cnf0) (goal XOR 1)]])"
    by (rule emits_trans [OF s1(2) s2(2)])
  define U where "U l = [node_lit (var cnf0) l]" for l
  have given: "map fst (given (snd s2)) = clauses_since ?p q0 @ map U extra @ [U (goal XOR 1)]"
    and v2: "var (fst s2) = var cnf0" and k2: "certificate \<longrightarrow> kept (fst s2) = map fst (given (snd s2))"
    using em kept run(2) by (auto simp: emits_def clauses_since_def U_def)
  have bound': "num_vars ?p + length (nodes g) \<le> NONE" using bound by simp
  have root: "lit_holds (model_of model) (node_lit (var cnf0) l) \<longleftrightarrow> cnf_value (fst s2) l model"
    if "l \<in> set (goal # extra) \<or> l XOR 1 \<in> set (goal # extra)" for l model
  proof -
    from that obtain r where r: "r \<in> set (goal # extra)" "r div 2 = l div 2" using lit_flip(1) [of l] by blast
    have "l div 2 < length (nodes g)" "ch_need c ! (l div 2)"
      using roots r(1) encoding_need [OF e r(1)] unfolding r(2) [symmetric] by blast+
    then have "cnf_value cnf0 l model = (model_of model (var cnf0 ! (l div 2)) = (l AND 1 = 0))"
      by (rule cnf_value_var(1) [OF e bound'])
    then show ?thesis unfolding lit_holds_new cnf_value_cong [OF v2] by simp
  qed
  have neg: "cnf_value (fst s2) (goal XOR 1) model \<longleftrightarrow> \<not> cnf_value (fst s2) goal model" for model
    using and_one_cases [of goal] by (auto simp: cnf_value_def Let_def)
  have "satisfies (model_of model) (U l) \<longleftrightarrow> cnf_value (fst s2) l model"
    if "l \<in> set extra \<or> l = goal XOR 1" for l model
    using root [of l model] that by (auto simp: satisfies_def U_def)
  then have sat: "(\<forall>cl\<in>set (map fst (given (snd s2))). satisfies (model_of model) cl) \<longleftrightarrow>
       (\<forall>cl\<in>set (clauses_since ?p q0). satisfies (model_of model) cl) \<and>
       (\<forall>l\<in>set extra. cnf_value (fst s2) l model) \<and> \<not> cnf_value (fst s2) goal model" for model
    unfolding given neg [symmetric] by auto
  have "pose g goal extra certificate xor3 = Some (fst s2, snd s2)"
    using run(1) s1(1) s2(1) by (simp add: pose_def)
  moreover have "\<forall>model. (\<forall>cl\<in>set (map fst (given (snd s2))). satisfies (model_of model) cl) \<longleftrightarrow>
       (\<forall>cl\<in>set (clauses_since ?p q0). satisfies (model_of model) cl) \<and>
       (\<forall>l\<in>set extra. cnf_value (fst s2) l model) \<and> \<not> cnf_value (fst s2) goal model" using sat by (rule allI)
  ultimately show ?thesis using e v2 k2 by (intro exI conjI)
qed

lemma accepted_proof_decides:
  assumes "aig_inv g" "\<forall>r\<in>set (goal # extra). r div 2 < length (nodes g)" "length (nodes g) \<le> NONE"
    "pose g goal extra True xor3 = Some (cnf, q)" "check (kept cnf) steps = Some (Inr ())"
    "\<forall>e\<in>set extra. aig_value (eval_all g \<rho>) e"
  shows "aig_value (eval_all g \<rho>) goal"
proof (rule ccontr)
  assume no: "\<not> aig_value (eval_all g \<rho>) goal"
  from pose_ok [OF assms(1-3), of True xor3] assms(4) obtain cnf0 q0 c where
    e: "encoding g (goal # extra) \<lparr>num_vars = 0, given = []\<rparr> cnf0 q0 c" and v: "var cnf = var cnf0" and k: "kept cnf = map fst (given q)"
    and sat: "\<And>model. (\<forall>cl\<in>set (map fst (given q)). satisfies (model_of model) cl) \<longleftrightarrow>
       (\<forall>cl\<in>set (clauses_since \<lparr>num_vars = 0, given = []\<rparr> q0). satisfies (model_of model) cl) \<and>
       (\<forall>l\<in>set extra. cnf_value cnf l model) \<and> \<not> cnf_value cnf goal model" by auto
  from input_model [OF assms(1,2) _ e, of \<rho>] assms(3) obtain model where
    m: "\<forall>cl\<in>set (clauses_since \<lparr>num_vars = 0, given = []\<rparr> q0). satisfies (model_of model) cl" "agrees g (goal # extra) cnf0 model \<rho>" by auto
  have "cnf_value cnf r model = aig_value (eval_all g \<rho>) r" if "r \<in> set (goal # extra)" for r
    using m(2) that cnf_value_cong [OF v] by (auto simp: agrees_def)
  then have "\<forall>cl\<in>set (kept cnf). satisfies (model_of model) cl" unfolding k sat using m(1) no assms(6) by simp
  then have "model_of model \<in> models (kept cnf)" by (simp add: models_def)
  then show False using check_steps_ok [of "kept cnf" steps True] assms(5) by (auto simp: check_def)
qed

text \<open>
  C33: a certificate proves its question: when the checker accepts a proof for the kept clauses of
  a question, the goal holds on every input on which the constraints do.
\<close>
theorem certificate_sound:
  assumes "aig_inv g" "\<forall>r\<in>set (goal # extra). r div 2 < length (nodes g)" "length (nodes g) \<le> NONE"
    "pose g goal extra True xor3 = Some (cnf, q)" "check (kept cnf) steps = Some (Inr ())"
    "\<forall>e\<in>set extra. aig_value (eval_all g \<rho>) e"
  shows "aig_value (eval_all g \<rho>) goal"
  by (rule accepted_proof_decides [OF assms])

text \<open>
  C34: a model the solver finds refutes its question: the input read from it satisfies every
  constraint and makes the goal false.
\<close>
theorem model_refutes:
  assumes "aig_inv g" "\<forall>r\<in>set (goal # extra). r div 2 < length (nodes g)" "length (nodes g) \<le> NONE"
    "pose g goal extra certificate xor3 = Some (cnf, q)" "\<forall>cl\<in>set (map fst (given q)). satisfies (model_of model) cl"
  shows "(\<forall>e\<in>set extra. aig_value (eval_all g (input_of g cnf model)) e) \<and>
    \<not> aig_value (eval_all g (input_of g cnf model)) goal"
proof -
  from pose_ok [OF assms(1-3), of certificate xor3] assms(4,5) obtain cnf0 q0 c where
    e: "encoding g (goal # extra) \<lparr>num_vars = 0, given = []\<rparr> cnf0 q0 c" and v: "var cnf = var cnf0"
    and m: "\<forall>cl\<in>set (clauses_since \<lparr>num_vars = 0, given = []\<rparr> q0). satisfies (model_of model) cl"
    and r: "\<forall>l\<in>set extra. cnf_value cnf l model" "\<not> cnf_value cnf goal model" by auto
  have "input_of g cnf model = input_of g cnf0 model" by (rule ext) (simp add: input_of_def cnf_value_cong [OF v])
  moreover have "agrees g (goal # extra) cnf0 model (input_of g cnf0 model)"
    by (rule model_input [OF assms(1,2) _ e m]) (use assms(3) in simp)
  ultimately show ?thesis using r cnf_value_cong [OF v] by (simp add: agrees_def)
qed

section \<open>Witnesses\<close>

declare collect.simps [code]

theorem cnf_exact_witness:
  "encode_with_xor3 graph2 [7, 3] \<lparr>num_vars = 5, given = []\<rparr> True True \<noteq> None"
  using cnf_exact [OF graph2_inv, of "[7, 3]" "\<lparr>num_vars = 5, given = []\<rparr>" True True]
  by (auto simp: graph2_def NONE_def)

text \<open>Under the constraint that the first input is false, the conjunction is false.\<close>

theorem certificate_sound_witness: "aig_value (eval_all graph2 (\<lambda>k. k = 1)) 7"
proof -
  have p: "pose graph2 7 [3] True False \<noteq> None" by code_simp
  then obtain cnf q where pq: "pose graph2 7 [3] True False = Some (cnf, q)" by auto
  have "check (kept (fst (the (pose graph2 7 [3] True False)))) [Add []] = Some (Inr ())" by code_simp
  then have c: "check (kept cnf) [Add []] = Some (Inr ())" by (simp add: pq)
  have r: "\<forall>r\<in>set (7 # [3]). r div 2 < length (nodes graph2)" "length (nodes graph2) \<le> NONE"
    by (simp_all add: graph2_def NONE_def)
  have e: "\<forall>e\<in>set [3]. aig_value (eval_all graph2 (\<lambda>k. k = 1)) e" by code_simp
  show ?thesis by (rule certificate_sound [OF graph2_inv r pq c e])
qed

text \<open>Without it, a model refutes the claim.\<close>

theorem model_refutes_witness:
  "\<not> aig_value (eval_all graph2 (input_of graph2 (fst (the (pose graph2 7 [] False True))) [True, True, True])) 7"
proof -
  have p: "pose graph2 7 [] False True \<noteq> None" by code_simp
  then obtain cnf q where pq: "pose graph2 7 [] False True = Some (cnf, q)" by auto
  have "\<forall>cl\<in>set (map fst (given (snd (the (pose graph2 7 [] False True))))). \<exists>l\<in>set cl. lit_holds (model_of [True, True, True]) l"
    by code_simp
  then have m: "\<forall>cl\<in>set (map fst (given q)). satisfies (model_of [True, True, True]) cl" by (simp add: pq satisfies_def)
  have r: "\<forall>r\<in>set (7 # []). r div 2 < length (nodes graph2)" "length (nodes graph2) \<le> NONE"
    by (simp_all add: graph2_def NONE_def)
  show ?thesis unfolding pq using conjunct2 [OF model_refutes [OF graph2_inv r pq m]] by simp
qed

end
