(* ===== verification/Rules.thy ===== *)
theory Rules
  imports Cnf_Sound Facts_Known "HOL-Library.Product_Lexorder"
begin

unbundle bit_operations_syntax

text \<open>
  Rewrite rules: their representation (\<open>bitwright/src/rules/ir.rs\<close>), the concrete evaluator of
  rule nodes (\<open>bitwright/src/rules/eval.rs\<close>) and the symbolic one that proves a rule
  (\<open>bitwright/src/prove/rule.rs\<close>), for rules without floating-point nodes. \<open>None\<close> is a node that
  is not representable, an error or a panic; in the symbolic evaluator, an error or a panic.
\<close>

section \<open>Width expressions\<close>

text \<open>Signed 64-bit arithmetic, saturating and checked.\<close>

definition i64_fits :: "int \<Rightarrow> bool" where "i64_fits x \<longleftrightarrow> - (2 ^ 63) \<le> x \<and> x < 2 ^ 63"

definition saturated :: "int \<Rightarrow> int" where
  "saturated x = (if x < - (2 ^ 63) then - (2 ^ 63) else if x \<ge> 2 ^ 63 then 2 ^ 63 - 1 else x)"

definition checked :: "int \<Rightarrow> int option" where "checked x = (if i64_fits x then Some x else None)"

record WExpr =
  wx_konst :: int
  wx_terms :: "(nat \<times> int) list"

definition wexpr_konst :: "int \<Rightarrow> WExpr" where "wexpr_konst k = \<lparr>wx_konst = k, wx_terms = []\<rparr>"
definition wexpr_var :: "nat \<Rightarrow> WExpr" where "wexpr_var v = \<lparr>wx_konst = 0, wx_terms = [(v, 1)]\<rparr>"

definition wexpr_as_konst :: "WExpr \<Rightarrow> int option" where
  "wexpr_as_konst e = (if wx_terms e = [] then Some (wx_konst e) else None)"

fun wexpr_sum :: "(nat \<times> int) list \<Rightarrow> nat list \<Rightarrow> int \<Rightarrow> int option" where
  "wexpr_sum [] ws acc = Some acc"
| "wexpr_sum ((v, c) # ts) ws acc = do {
     x \<leftarrow> at ws v;
     wexpr_sum ts ws (saturated (acc + saturated (c * int x))) }"

definition wexpr_eval :: "WExpr \<Rightarrow> nat list \<Rightarrow> int option" where
  "wexpr_eval e ws = wexpr_sum (wx_terms e) ws (wx_konst e)"

definition WLIMIT :: int where "WLIMIT = 2 ^ 24"

definition wexpr_bounded :: "WExpr \<Rightarrow> WExpr option" where
  "wexpr_bounded e =
     (let ok = (\<lambda>v. - WLIMIT \<le> v \<and> v \<le> WLIMIT)
      in if ok (wx_konst e) \<and> list_all (\<lambda>(_, c). ok c) (wx_terms e) then Some e else None)"

text \<open>Adds \<open>c\<close> to the coefficient of a variable, or appends it.\<close>

fun add_term :: "nat \<Rightarrow> int \<Rightarrow> (nat \<times> int) list \<Rightarrow> (nat \<times> int) list option" where
  "add_term v c [] = Some [(v, c)]"
| "add_term v c ((x, k) # ts) =
     (if x = v then do { k \<leftarrow> checked (k + c); Some ((x, k) # ts) }
      else do { ts \<leftarrow> add_term v c ts; Some ((x, k) # ts) })"

fun add_terms :: "int \<Rightarrow> (nat \<times> int) list \<Rightarrow> (nat \<times> int) list \<Rightarrow> (nat \<times> int) list option" where
  "add_terms sign [] ts = Some ts"
| "add_terms sign ((v, c) # os) ts = do {
     c \<leftarrow> checked (sign * c);
     ts \<leftarrow> add_term v c ts;
     add_terms sign os ts }"

definition wexpr_add :: "WExpr \<Rightarrow> WExpr \<Rightarrow> int \<Rightarrow> WExpr option" where
  "wexpr_add e1 e2 sign = do {
     ts \<leftarrow> add_terms sign (wx_terms e2) (wx_terms e1);
     let ts = sort (filter (\<lambda>(_, c). c \<noteq> 0) ts);
     m \<leftarrow> checked (sign * wx_konst e2);
     k \<leftarrow> checked (wx_konst e1 + m);
     wexpr_bounded \<lparr>wx_konst = k, wx_terms = ts\<rparr> }"

fun scale_terms :: "int \<Rightarrow> (nat \<times> int) list \<Rightarrow> (nat \<times> int) list option" where
  "scale_terms k [] = Some []"
| "scale_terms k ((v, c) # ts) = do {
     c \<leftarrow> checked (c * k);
     ts \<leftarrow> scale_terms k ts;
     Some (if c \<noteq> 0 then (v, c) # ts else ts) }"

definition wexpr_scale :: "WExpr \<Rightarrow> int \<Rightarrow> WExpr option" where
  "wexpr_scale e k = do {
     ts \<leftarrow> scale_terms k (wx_terms e);
     c \<leftarrow> checked (wx_konst e * k);
     wexpr_bounded \<lparr>wx_konst = c, wx_terms = ts\<rparr> }"

datatype WCmp = WEq | WNe | WLt | WLe | WGt | WGe

datatype WCons = WCmp WExpr WCmp WExpr | WMod WExpr nat nat

text \<open>The Euclidean remainder panics for a zero divisor.\<close>

fun wcons_holds :: "WCons \<Rightarrow> nat list \<Rightarrow> bool option" where
  "wcons_holds (WCmp a op b) ws = do {
     x \<leftarrow> wexpr_eval a ws;
     y \<leftarrow> wexpr_eval b ws;
     Some (case op of WEq \<Rightarrow> x = y | WNe \<Rightarrow> x \<noteq> y | WLt \<Rightarrow> x < y | WLe \<Rightarrow> x \<le> y | WGt \<Rightarrow> x > y | WGe \<Rightarrow> x \<ge> y) }"
| "wcons_holds (WMod a m r) ws = do {
     x \<leftarrow> wexpr_eval a ws;
     if m = 0 then None else Some (x mod int m = int r) }"

section \<open>Rules\<close>

datatype ParamKind = PAny | PConst | PSym | PNonConst

text \<open>The names of variables, parameters and lets, the documentation and the positions are left out.\<close>

record Param =
  p_kind :: ParamKind
  p_width :: WExpr

datatype Literal = LInt limbs bool | LOnes | LSMin | LSMax | LLowMask WExpr | LBit WExpr | LWidth WExpr

datatype FactPred = ZeroBits | OneBits | NonZero | Disjoint | Proves | FpNotNan | FpFinite | FpNonZero | OneUse

datatype ConstPred = IsPow2 | IsLowMask | IsShiftedMask

type_synonym NodeId = nat

datatype RNode =
    RParam nat | RLet nat | RLit Literal
  | RUn UnOp NodeId | RBin BinOp NodeId NodeId | RCmp CmpOpExt NodeId NodeId
  | RZext NodeId | RSext NodeId | RExtract WExpr NodeId | RConcat NodeId NodeId
  | RSelect NodeId NodeId NodeId
  | RAnd NodeId NodeId | ROr NodeId NodeId | RNot NodeId
  | RFact FactPred NodeId "NodeId option" | RConstP ConstPred NodeId

datatype Sort = SortBv WExpr | SortBool

record Rule =
  r_width_vars :: nat
  r_modes :: nat
  r_constraints :: "WCons list"
  r_params :: "Param list"
  r_lets :: "NodeId list"
  r_nodes :: "RNode list"
  r_sorts :: "Sort list"
  r_lhs :: NodeId
  r_rhs :: NodeId
  r_guard :: "NodeId option"
  r_admitted :: "u64 list option"

text \<open>The operands of a node, in order.\<close>

fun children :: "RNode \<Rightarrow> NodeId list" where
  "children (RUn _ a) = [a]"
| "children (RZext a) = [a]"
| "children (RSext a) = [a]"
| "children (RExtract _ a) = [a]"
| "children (RNot a) = [a]"
| "children (RConstP _ a) = [a]"
| "children (RBin _ a b) = [a, b]"
| "children (RCmp _ a b) = [a, b]"
| "children (RConcat a b) = [a, b]"
| "children (RAnd a b) = [a, b]"
| "children (ROr a b) = [a, b]"
| "children (RSelect a b c) = [a, b, c]"
| "children (RFact _ a m) = a # (case m of Some m \<Rightarrow> [m] | None \<Rightarrow> [])"
| "children _ = []"

section \<open>Concrete evaluation\<close>

datatype Val = VBv BitVec | VBool bool

fun val_truthy :: "Val \<Rightarrow> bool" where
  "val_truthy (VBool b) = b"
| "val_truthy (VBv v) = (\<not> bv_is_zero v)"

fun val_bv :: "Val \<Rightarrow> BitVec option" where
  "val_bv (VBv v) = Some v"
| "val_bv (VBool _) = None"

definition ok_of :: "'e + 'a \<Rightarrow> 'a option" where
  "ok_of r = (case r of Inl _ \<Rightarrow> None | Inr x \<Rightarrow> Some x)"

text \<open>The outer option is a panic, the inner one a node without a valid width.\<close>

definition width_of :: "Rule \<Rightarrow> NodeId \<Rightarrow> nat list \<Rightarrow> nat option option" where
  "width_of rule n ws = do {
     s \<leftarrow> at (r_sorts rule) n;
     case s of
       SortBv w \<Rightarrow> do {
         v \<leftarrow> wexpr_eval w ws;
         Some (if 0 \<le> v \<and> v < 2 ^ 16 then ok_of (Width_new (nat v)) else None) }
     | SortBool \<Rightarrow> Some None }"

text \<open>The width, or failure.\<close>

definition the_width :: "Rule \<Rightarrow> NodeId \<Rightarrow> nat list \<Rightarrow> nat option" where
  "the_width rule n ws = (case width_of rule n ws of Some w \<Rightarrow> w | None \<Rightarrow> None)"

fun literal :: "Literal \<Rightarrow> nat \<Rightarrow> nat list \<Rightarrow> BitVec option" where
  "literal (LInt limbs negative) w ws = do {
     m \<leftarrow> ok_of (from_limbs w limbs);
     if \<not> negative then Some m
     else if \<not> bv_is_zero m \<and> m \<noteq> bv_smin w \<and> bv_msb m then None
     else Some (un_unchecked UNeg m) }"
| "literal LOnes w ws = Some (bv_ones w)"
| "literal LSMin w ws = Some (bv_smin w)"
| "literal LSMax w ws = Some (bv_smax w)"
| "literal (LLowMask k) w ws = do {
     k \<leftarrow> wexpr_eval k ws;
     if 0 \<le> k \<and> k \<le> int w then Some (low_mask w (nat k)) else None }"
| "literal (LBit k) w ws = do {
     k \<leftarrow> wexpr_eval k ws;
     if 0 \<le> k \<and> k < int w
     then let one = bv_one w in Some (bin_unchecked BShl one (wrapping_from_u64 w (word_of_int k))) else None }"
| "literal (LWidth e) w ws = do {
     v \<leftarrow> wexpr_eval e ws;
     if v < 0 then None else ok_of (from_u64 w (word_of_int v)) }"

text \<open>The index of the last limb that is not zero.\<close>

definition top_limb :: "limbs \<Rightarrow> nat option" where
  "top_limb ls = (case filter (\<lambda>i. ls ! i \<noteq> 0) (rev [0..<length ls]) of [] \<Rightarrow> None | t # _ \<Rightarrow> Some t)"

fun literal_fits :: "Literal \<Rightarrow> nat \<Rightarrow> nat list \<Rightarrow> bool option" where
  "literal_fits (LInt limbs negative) w ws =
     (case top_limb limbs of
        None \<Rightarrow> Some True
      | Some t \<Rightarrow>
          let len = 64 * t + 64 - leading_zeros (limbs ! t)
          in if \<not> negative then Some (len \<le> w)
             else let pow2 = count_ones (limbs ! t) = 1 \<and> list_all (\<lambda>x. x = 0) (take t limbs)
                  in Some (len < w \<or> (len = w \<and> pow2)))"
| "literal_fits LOnes w ws = Some True"
| "literal_fits LSMin w ws = Some True"
| "literal_fits LSMax w ws = Some True"
| "literal_fits (LLowMask k) w ws = do { k \<leftarrow> wexpr_eval k ws; Some (0 \<le> k \<and> k \<le> int w) }"
| "literal_fits (LBit k) w ws = do { k \<leftarrow> wexpr_eval k ws; Some (0 \<le> k \<and> k < int w) }"
| "literal_fits (LWidth e) w ws = do { v \<leftarrow> wexpr_eval e ws; Some (v \<ge> 0 \<and> (w \<ge> 63 \<or> v < 2 ^ w)) }"

definition const_pred :: "ConstPred \<Rightarrow> BitVec \<Rightarrow> bool" where
  "const_pred p c =
     (let one = bv_one (bv_width c)
      in case p of
           IsPow2 \<Rightarrow> bv_count_ones c = 1
         | IsLowMask \<Rightarrow> \<not> bv_is_zero c \<and> bv_is_zero (bv_and c (bin_unchecked BAdd c one))
         | IsShiftedMask \<Rightarrow>
             let filled = bv_or c (bin_unchecked BSub c one)
             in \<not> bv_is_zero c \<and> bv_is_zero (bv_and filled (bin_unchecked BAdd filled one)))"

text \<open>A fact predicate about two values; \<open>NonZero\<close>, \<open>Proves\<close> and \<open>OneUse\<close> are read apart.\<close>

fun fact_pred :: "FactPred \<Rightarrow> BitVec \<Rightarrow> BitVec \<Rightarrow> bool" where
  "fact_pred Disjoint x m = bv_is_zero (bv_and x m)"
| "fact_pred ZeroBits x m = bv_is_zero (bv_and x m)"
| "fact_pred OneBits x m = (bv_and x m = m)"
| "fact_pred FpNotNan x m = cmp_unchecked CUle (bv_and x (bv_smax (bv_width x))) m"
| "fact_pred FpFinite x m = cmp_unchecked CUlt (bv_and x (bv_smax (bv_width x))) m"
| "fact_pred _ x m = (\<not> bv_is_zero (bv_and x (bv_smax (bv_width x))))"

text \<open>
  The recursion is at most \<open>d\<close> calls deep. An arena whose nodes follow their operands needs no more
  calls than it has nodes, and one with a cycle overflows the stack of the code.
\<close>

primrec eval_within :: "nat \<Rightarrow> Rule \<Rightarrow> nat list \<Rightarrow> BitVec list \<Rightarrow> BitVec option list \<Rightarrow> NodeId \<Rightarrow> Val option" where
  "eval_within 0 rule ws ps ls n = None"
| "eval_within (Suc d) rule ws ps ls n =
     (let ev = eval_within d rule ws ps ls;
          bv = (\<lambda>m. do { v \<leftarrow> ev m; val_bv v })
      in do {
        node \<leftarrow> at (r_nodes rule) n;
        case node of
          RParam i \<Rightarrow> do { v \<leftarrow> at ps i; Some (VBv v) }
        | RLet i \<Rightarrow> do { v \<leftarrow> at ls i; v \<leftarrow> v; Some (VBv v) }
        | RLit l \<Rightarrow> do { w \<leftarrow> the_width rule n ws; v \<leftarrow> literal l w ws; Some (VBv v) }
        | RUn op a \<Rightarrow> do { x \<leftarrow> bv a; v \<leftarrow> ok_of (apply_un op x); Some (VBv v) }
        | RBin op a b \<Rightarrow> do { x \<leftarrow> bv a; y \<leftarrow> bv b; v \<leftarrow> ok_of (apply_bin op x y); Some (VBv v) }
        | RCmp op a b \<Rightarrow> do { x \<leftarrow> bv a; y \<leftarrow> bv b; r \<leftarrow> ok_of (apply_cmp op x y); Some (VBv (from_bool r)) }
        | RZext a \<Rightarrow> do { x \<leftarrow> bv a; w \<leftarrow> the_width rule n ws; v \<leftarrow> ok_of (bv_zext x w); Some (VBv v) }
        | RSext a \<Rightarrow> do { x \<leftarrow> bv a; w \<leftarrow> the_width rule n ws; v \<leftarrow> ok_of (bv_sext x w); Some (VBv v) }
        | RExtract lo a \<Rightarrow> do {
            lo \<leftarrow> wexpr_eval lo ws;
            if lo < 0 \<or> lo \<ge> 2 ^ 16 then None
            else do { x \<leftarrow> bv a; w \<leftarrow> the_width rule n ws; v \<leftarrow> ok_of (bv_extract x (nat lo) w); Some (VBv v) } }
        | RConcat h l \<Rightarrow> do { x \<leftarrow> bv h; y \<leftarrow> bv l; v \<leftarrow> ok_of (bv_concat x y); Some (VBv v) }
        | RSelect c t f \<Rightarrow> do { x \<leftarrow> bv c; y \<leftarrow> bv t; z \<leftarrow> bv f; v \<leftarrow> ok_of (bv_select x y z); Some (VBv v) }
        | RAnd a b \<Rightarrow> do {
            x \<leftarrow> ev a;
            if \<not> val_truthy x then Some (VBool False) else do { y \<leftarrow> ev b; Some (VBool (val_truthy y)) } }
        | ROr a b \<Rightarrow> do {
            x \<leftarrow> ev a;
            if val_truthy x then Some (VBool True) else do { y \<leftarrow> ev b; Some (VBool (val_truthy y)) } }
        | RNot a \<Rightarrow> do { x \<leftarrow> ev a; Some (VBool (\<not> val_truthy x)) }
        | RFact p x m \<Rightarrow>
            if p = OneUse then Some (VBool True)
            else if p = Proves then do { x \<leftarrow> ev x; Some (VBool (val_truthy x)) }
            else do {
              x \<leftarrow> bv x;
              if p = NonZero then Some (VBool (\<not> bv_is_zero x))
              else do { m \<leftarrow> m; m \<leftarrow> bv m; Some (VBool (fact_pred p x m)) } }
        | RConstP p a \<Rightarrow> do { c \<leftarrow> bv a; Some (VBool (const_pred p c)) } })"

definition rule_eval :: "Rule \<Rightarrow> nat list \<Rightarrow> BitVec list \<Rightarrow> BitVec option list \<Rightarrow> NodeId \<Rightarrow> Val option" where
  "rule_eval rule ws ps ls n = eval_within (length (r_nodes rule)) rule ws ps ls n"

fun eval_lets_from :: "Rule \<Rightarrow> nat list \<Rightarrow> BitVec list \<Rightarrow> NodeId list \<Rightarrow> BitVec option list \<Rightarrow> BitVec option list" where
  "eval_lets_from rule ws ps [] out = out"
| "eval_lets_from rule ws ps (l # ls) out =
     eval_lets_from rule ws ps ls (out @ [Option.bind (rule_eval rule ws ps out l) val_bv])"

definition eval_lets :: "Rule \<Rightarrow> nat list \<Rightarrow> BitVec list \<Rightarrow> BitVec option list" where
  "eval_lets rule ws ps = eval_lets_from rule ws ps (r_lets rule) []"

section \<open>Well-formed nodes and admitted widths\<close>

text \<open>
  The check of one node, false where the code returns \<open>Err(n)\<close>; the loop keeps the stack with its
  top first.
\<close>

definition node_check :: "Rule \<Rightarrow> nat list \<Rightarrow> bool \<Rightarrow> NodeId \<Rightarrow> bool option" where
  "node_check rule ws strict n = do {
     node \<leftarrow> at (r_nodes rule) n;
     s \<leftarrow> at (r_sorts rule) n;
     w \<leftarrow> width_of rule n ws;
     if s \<noteq> SortBool \<and> w = None then Some False
     else case node of
         RLit l \<Rightarrow> (case w of
             None \<Rightarrow> Some False
           | Some w \<Rightarrow> literal_fits l w ws)
       | RUn UBswap _ \<Rightarrow> (case w of
             None \<Rightarrow> Some False
           | Some w \<Rightarrow> Some (w mod 8 = 0))
       | RZext a \<Rightarrow> do {
           wa \<leftarrow> width_of rule a ws;
           Some (case (wa, w) of
               (Some wa, Some wn) \<Rightarrow> \<not> (wa > wn \<or> (strict \<and> wa = wn))
             | _ \<Rightarrow> False) }
       | RSext a \<Rightarrow> do {
           wa \<leftarrow> width_of rule a ws;
           Some (case (wa, w) of
               (Some wa, Some wn) \<Rightarrow> \<not> (wa > wn \<or> (strict \<and> wa = wn))
             | _ \<Rightarrow> False) }
       | RExtract lo a \<Rightarrow> do {
           wa \<leftarrow> width_of rule a ws;
           case wa of
             None \<Rightarrow> Some False
           | Some wa \<Rightarrow> do {
               lo \<leftarrow> wexpr_eval lo ws;
               case w of
                 None \<Rightarrow> Some False
               | Some wn \<Rightarrow>
                   Some (\<not> (lo < 0 \<or> lo + int wn > int wa \<or> (strict \<and> lo = 0 \<and> wn = wa))) } }
       | _ \<Rightarrow> Some True }"

partial_function (option) wf_loop :: "Rule \<Rightarrow> nat list \<Rightarrow> NodeId list \<Rightarrow> bool \<Rightarrow> (NodeId + unit) option" where
  "wf_loop rule ws stack strict = (case stack of
     [] \<Rightarrow> Some (Inr ())
   | n # stack \<Rightarrow> do {
       ok \<leftarrow> node_check rule ws strict n;
       if ok then do {
         node \<leftarrow> at (r_nodes rule) n;
         wf_loop rule ws (rev (children node) @ stack) strict }
       else Some (Inl n) })"

definition well_formed :: "Rule \<Rightarrow> NodeId \<Rightarrow> nat list \<Rightarrow> bool \<Rightarrow> (NodeId + unit) option" where
  "well_formed rule root ws strict = wf_loop rule ws [root] strict"

fun all_hold :: "WCons list \<Rightarrow> nat list \<Rightarrow> bool option" where
  "all_hold [] ws = Some True"
| "all_hold (c # cs) ws = do { h \<leftarrow> wcons_holds c ws; if h then all_hold cs ws else Some False }"

fun all_well_formed :: "Rule \<Rightarrow> nat list \<Rightarrow> NodeId list \<Rightarrow> bool option" where
  "all_well_formed rule ws [] = Some True"
| "all_well_formed rule ws (p # ps) = do {
     r \<leftarrow> well_formed rule p ws False;
     if r = Inr () then all_well_formed rule ws ps else Some False }"

text \<open>
  The check from scratch, with five rounding modes, and the one that reads the table the compiler
  leaves where the rule has one.
\<close>

definition rule_parts :: "Rule \<Rightarrow> NodeId list" where
  "rule_parts rule = r_rhs rule # (case r_guard rule of None \<Rightarrow> [] | Some gd \<Rightarrow> [gd]) @ r_lets rule"

definition admits_anew :: "Rule \<Rightarrow> nat list \<Rightarrow> bool option" where
  "admits_anew rule ws =
     (let n = r_width_vars rule
      in if length ws \<noteq> n + r_modes rule \<or> list_ex (\<lambda>w. w = 0 \<or> w > MAX_BITS) (take n ws) \<or>
           list_ex (\<lambda>m. m \<ge> 5) (drop n ws) then Some False
         else do {
           cs \<leftarrow> all_hold (r_constraints rule) ws;
           if \<not> cs then Some False
           else do {
             r \<leftarrow> well_formed rule (r_lhs rule) ws True;
             if r \<noteq> Inr () then Some False
             else all_well_formed rule ws (rule_parts rule) } })"

definition admitted :: "Rule \<Rightarrow> nat list \<Rightarrow> bool option" where
  "admitted rule ws = (case r_admitted rule of
     Some bits \<Rightarrow>
       (case (if ws = [] \<and> r_width_vars rule = 0 then Some 0
              else if length ws = 1 \<and> r_width_vars rule = 1 then Some (hd ws) else None) of
          None \<Rightarrow> Some False
        | Some i \<Rightarrow>
            if i \<le> MAX_BITS then do { x \<leftarrow> at bits (i div 64); Some (drop_bit (i mod 64) x AND 1 = 1) }
            else Some False)
   | None \<Rightarrow> admits_anew rule ws)"

section \<open>Rules whose width does not matter\<close>

text \<open>
  Whether a node is one the width cannot matter to, from \<open>bitwise_uniform\<close> of
  \<open>bitwright/src/prove/rule.rs\<close>: the operands still to visit, or \<open>None\<close> for any other node. An
  integer literal without limbs has no first limb but all limbs zero.
\<close>

fun uniform_node :: "RNode \<Rightarrow> NodeId list option" where
  "uniform_node (RParam _) = Some []"
| "uniform_node (RLit LOnes) = Some []"
| "uniform_node (RLit (LInt limbs negative)) =
     (if list_all (\<lambda>l. l = 0) limbs \<or>
        (negative \<and> (case limbs of [] \<Rightarrow> False | l # ls \<Rightarrow> l = 1 \<and> list_all (\<lambda>l. l = 0) ls)) then Some [] else None)"
| "uniform_node (RUn UNot a) = Some [a]"
| "uniform_node (RBin BAnd a b) = Some [a, b]"
| "uniform_node (RBin BOr a b) = Some [a, b]"
| "uniform_node (RBin BXor a b) = Some [a, b]"
| "uniform_node _ = None"

partial_function (option) uniform_loop :: "Rule \<Rightarrow> NodeId list \<Rightarrow> bool option" where
  "uniform_loop rule stack = (case stack of
     [] \<Rightarrow> Some True
   | n # stack \<Rightarrow> do {
       node \<leftarrow> at (r_nodes rule) n;
       case uniform_node node of
         None \<Rightarrow> Some False
       | Some ns \<Rightarrow> uniform_loop rule (rev ns @ stack) })"

definition bitwise_uniform :: "Rule \<Rightarrow> bool option" where
  "bitwise_uniform rule =
     (if r_guard rule \<noteq> None \<or> r_lets rule \<noteq> [] \<or> r_modes rule \<noteq> 0 then Some False
      else do {
        u \<leftarrow> uniform_loop rule [r_rhs rule, r_lhs rule];
        Some (u \<and> r_width_vars rule = 1) })"

end
