(* ===== verification/Rule_Widths.thy ===== *)
theory Rule_Widths
  imports Rules
begin

unbundle bit_operations_syntax

declare One_nat_def [simp del]

text \<open>
  The widths at which a rule applies, as the compiler of \<open>bitwright/src/rules/compile.rs\<close> finds
  them: the domain of the width variables, the walk over their assignments, and the validation that
  records, for a rule with at most one width variable and no rounding mode, the table \<open>admitted\<close>
  reads. The table answers as the check from scratch does.
\<close>

section \<open>Assignments of widths\<close>

definition WIDE :: "nat list" where
  "WIDE = [24, 31, 32, 33, 48, 63, 64, 65, 96, 127, 128, 129, 192, 255, 256, 257, 384, 511, 512]"

definition width_domain :: "nat \<Rightarrow> nat list" where
  "width_domain vars =
     (if vars \<ge> 4 then [1..<9] @ [11, 15, 24, 53, 64, 113]
      else let dense = (if vars \<le> 1 then 512 else if vars = 2 then 64 else 16)
           in [1..<dense + 1] @ filter (\<lambda>w. w > dense) WIDE)"

text \<open>The step to the next index of each variable, the first one fastest.\<close>

fun odometer :: "nat \<Rightarrow> nat list \<Rightarrow> nat list option" where
  "odometer len [] = None"
| "odometer len (i # idx) = (if i + 1 < len then Some ((i + 1) # idx) else map_option ((#) 0) (odometer len idx))"

text \<open>The modes are the digits of a number in base 5; the walk calls \<open>f\<close> until it returns false.\<close>

fun mode_digits :: "nat \<Rightarrow> nat \<Rightarrow> nat list" where
  "mode_digits 0 k = []"
| "mode_digits (Suc m) k = k mod 5 # mode_digits m (k div 5)"

fun each_mode :: "(nat list \<Rightarrow> 's \<Rightarrow> (bool \<times> 's) option) \<Rightarrow> nat list \<Rightarrow> nat \<Rightarrow> nat list \<Rightarrow> nat list \<Rightarrow> 's \<Rightarrow>
    (bool \<times> nat list \<times> 's) option" where
  "each_mode f ws m [] modes s = Some (True, modes, s)"
| "each_mode f ws m (k # ks) modes s = do {
     let modes = mode_digits m k;
     (go, s) \<leftarrow> f (ws @ modes) s;
     if go then each_mode f ws m ks modes s else Some (False, modes, s) }"

partial_function (option) each_from :: "(nat list \<Rightarrow> 's \<Rightarrow> (bool \<times> 's) option) \<Rightarrow> WCons list \<Rightarrow> nat \<Rightarrow> nat list \<Rightarrow>
    nat list \<Rightarrow> nat list \<Rightarrow> 's \<Rightarrow> 's option" where
  "each_from f cs m domain idx modes s = do {
     ws \<leftarrow> those (map (at domain) idx);
     ok \<leftarrow> all_hold cs (ws @ modes);
     (go, modes, s) \<leftarrow>
       (if \<not> ok then Some (True, modes, s)
        else if (5::nat) ^ m \<ge> 2 ^ 32 then None
        else each_mode f ws m [0..<5 ^ m] modes s);
     if \<not> go then Some s
     else (case odometer (length domain) idx of
         None \<Rightarrow> Some s
       | Some idx \<Rightarrow> each_from f cs m domain idx modes s) }"

definition for_each_assignment :: "Rule \<Rightarrow> (nat list \<Rightarrow> 's \<Rightarrow> (bool \<times> 's) option) \<Rightarrow> 's \<Rightarrow> 's option" where
  "for_each_assignment rule f s =
     each_from f (r_constraints rule) (r_modes rule) (width_domain (r_width_vars rule))
       (replicate (r_width_vars rule) 0) (replicate (r_modes rule) 0) s"

definition width_assignments :: "Rule \<Rightarrow> nat list list option" where
  "width_assignments rule = for_each_assignment rule (\<lambda>ws out. Some (True, out @ [ws])) []"


section \<open>Validation\<close>

datatype WidthDiag = IllTyped NodeId "nat list" | NeverMatches | TooCostly

text \<open>The first part that is not well formed, with the node at fault.\<close>

fun first_bad :: "Rule \<Rightarrow> nat list \<Rightarrow> NodeId list \<Rightarrow> NodeId option option" where
  "first_bad rule ws [] = Some None"
| "first_bad rule ws (p # ps) = do {
     r \<leftarrow> well_formed rule p ws False;
     case r of Inl bad \<Rightarrow> Some (Some bad) | Inr _ \<Rightarrow> first_bad rule ws ps }"

text \<open>The assignments that match so far, the table, and the failure found.\<close>

type_synonym validation = "nat \<times> u64 list option \<times> WidthDiag option"

definition set_width :: "nat \<Rightarrow> u64 list \<Rightarrow> u64 list option" where
  "set_width i bits = do { x \<leftarrow> at bits (i div 64); put bits (i div 64) (x OR push_bit (i mod 64) 1) }"

definition validate_step :: "Rule \<Rightarrow> nat list \<Rightarrow> validation \<Rightarrow> (bool \<times> validation) option" where
  "validate_step rule ws s = do {
     let (matchable, table, failure) = s;
     r \<leftarrow> well_formed rule (r_lhs rule) ws True;
     if r \<noteq> Inr () then Some (True, s)
     else do {
       table \<leftarrow> (case table of
           None \<Rightarrow> Some None
         | Some bits \<Rightarrow> map_option Some (set_width (case ws of [] \<Rightarrow> 0 | w # _ \<Rightarrow> w) bits));
       bad \<leftarrow> first_bad rule ws (rule_parts rule);
       Some (case bad of
           None \<Rightarrow> (True, (matchable + 1, table, failure))
         | Some n \<Rightarrow> (False, (matchable + 1, table, Some (IllTyped n ws)))) } }"

definition validate_widths :: "Rule \<Rightarrow> (WidthDiag + u64 list option) option" where
  "validate_widths rule = do {
     let table = (if r_width_vars rule \<le> 1 \<and> r_modes rule = 0 then Some (replicate 9 0) else None);
     (matchable, table, failure) \<leftarrow> for_each_assignment rule (validate_step rule) (0, table, None);
     Some (case failure of
         Some d \<Rightarrow> Inl d
       | None \<Rightarrow> if matchable = 0 then Inl NeverMatches else Inr table) }"

text \<open>What the compiler does with a rule it has built: the work it may cost, in saturating 64-bit
  arithmetic, and the validation, left out for the rules of a trusted source over several widths.\<close>

definition sat_u64 :: "nat \<Rightarrow> nat" where "sat_u64 x = min x (2 ^ 64 - 1)"

definition admit_widths :: "bool \<Rightarrow> nat \<Rightarrow> nat \<Rightarrow> Rule \<Rightarrow> (WidthDiag + Rule \<times> nat) option" where
  "admit_widths trusted max_work work rule =
     (if trusted \<and> r_width_vars rule \<ge> 2 then Some (Inr (rule, work))
      else do {
        assignments \<leftarrow> for_each_assignment rule (\<lambda>_ k. Some (True, k + 1)) 0;
        let cost = sat_u64 (length (r_nodes rule) * assignments);
        let work = sat_u64 (work + sat_u64 (cost * 2));
        if work > max_work then Some (Inl TooCostly)
        else do {
          table \<leftarrow> validate_widths rule;
          Some (case table of
              Inl d \<Rightarrow> Inl d
            | Inr table \<Rightarrow> Inr (rule\<lparr>r_admitted := table\<rparr>, work)) } })"

text \<open>
  What the theorems on rules assume of the table: there is none, or it is the one the validation
  leaves. Every rule the compiler returns is of this kind.
\<close>

definition widths_validated :: "Rule \<Rightarrow> bool" where
  "widths_validated rule \<longleftrightarrow> r_admitted rule = None \<or> validate_widths rule = Some (Inr (r_admitted rule))"


section \<open>The table is exact\<close>

text \<open>Nothing of the validation reads the table of the rule.\<close>

lemma rule_update [simp]:
  "r_nodes (rule\<lparr>r_admitted := t\<rparr>) = r_nodes rule" "r_sorts (rule\<lparr>r_admitted := t\<rparr>) = r_sorts rule"
  "r_lhs (rule\<lparr>r_admitted := t\<rparr>) = r_lhs rule"
  by simp_all

lemma node_check_update: "node_check (rule\<lparr>r_admitted := t\<rparr>) = node_check rule"
proof -
  have w: "width_of (rule\<lparr>r_admitted := t\<rparr>) = width_of rule" by (intro ext) (simp add: width_of_def)
  show ?thesis by (intro ext) (unfold node_check_def rule_update w, rule refl)
qed

lemma wf_loop_cong:
  assumes "wf_loop rule ws stack strict = Some y" "r_nodes rule' = r_nodes rule" "node_check rule' = node_check rule"
  shows "wf_loop rule' ws stack strict = Some y"
proof -
  have "\<forall>rule'. r_nodes rule' = r_nodes rule \<longrightarrow> node_check rule' = node_check rule \<longrightarrow> wf_loop rule' ws stack strict = Some y"
    if "wf_loop rule ws stack strict = Some y" for rule ws stack strict y
  proof (rule wf_loop.raw_induct [OF _ that], goal_cases)
    case 1: (1 loop rule ws stack strict y)
    show ?case
    proof (cases stack)
      case Nil
      then show ?thesis using 1(2) by (simp add: wf_loop.simps)
    next
      case (Cons n rest)
      show ?thesis
      proof (intro allI impI)
        fix rule' assume e: "r_nodes rule' = r_nodes rule" "node_check rule' = node_check rule"
        from 1(2) Cons obtain ok where ok: "node_check rule ws strict n = Some ok" by (auto simp: bind_eq_Some_conv)
        show "wf_loop rule' ws stack strict = Some y"
        proof (cases ok)
          case True
          with 1(2) Cons ok obtain node where n: "at (r_nodes rule) n = Some node"
            and l: "loop rule ws (rev (children node) @ rest) strict = Some y"
            by (auto simp: bind_eq_Some_conv)
          show ?thesis using 1(1) [OF l] e n ok Cons True by (subst wf_loop.simps) simp
        next
          case False
          then show ?thesis using 1(2) Cons ok e by (subst wf_loop.simps) simp
        qed
      qed
    qed
  qed
  then show ?thesis using assms by blast
qed

lemma well_formed_update: "well_formed (rule\<lparr>r_admitted := t\<rparr>) = well_formed rule"
proof (intro ext)
  fix root ws strict
  have "wf_loop rule ws [root] strict = Some y \<Longrightarrow> wf_loop (rule\<lparr>r_admitted := t\<rparr>) ws [root] strict = Some y" for y
    by (erule wf_loop_cong) (simp_all add: node_check_update)
  moreover have "wf_loop (rule\<lparr>r_admitted := t\<rparr>) ws [root] strict = Some y \<Longrightarrow> wf_loop rule ws [root] strict = Some y" for y
    by (erule wf_loop_cong) (simp_all add: node_check_update)
  ultimately show "well_formed (rule\<lparr>r_admitted := t\<rparr>) root ws strict = well_formed rule root ws strict"
    unfolding well_formed_def by (metis option.exhaust)
qed

lemma validate_widths_update: "validate_widths (rule\<lparr>r_admitted := t\<rparr>) = validate_widths rule"
proof -
  have b: "first_bad (rule\<lparr>r_admitted := t\<rparr>) = first_bad rule"
  proof (intro ext)
    show "first_bad (rule\<lparr>r_admitted := t\<rparr>) ws ps = first_bad rule ws ps" for ws ps
      by (induction ps) (simp_all add: well_formed_update)
  qed
  have p: "rule_parts (rule\<lparr>r_admitted := t\<rparr>) = rule_parts rule" by (simp add: rule_parts_def)
  have "validate_step (rule\<lparr>r_admitted := t\<rparr>) = validate_step rule"
    by (intro ext) (simp only: validate_step_def well_formed_update b p rule_update)
  then show ?thesis by (simp add: validate_widths_def for_each_assignment_def)
qed

lemma admit_widths_validated:
  assumes "admit_widths trusted max_work work rule = Some (Inr (rule', work'))" "r_admitted rule = None"
  shows "widths_validated rule'"
proof (cases "trusted \<and> r_width_vars rule \<ge> 2")
  case True
  then have "rule' = rule" using assms(1) by (simp add: admit_widths_def)
  then show ?thesis using assms(2) by (simp add: widths_validated_def)
next
  case False
  with assms(1) obtain r where r: "validate_widths rule = Some r"
    "(case r of Inl d \<Rightarrow> Inl d | Inr t \<Rightarrow> Inr (rule\<lparr>r_admitted := t\<rparr>)) = (Inr rule' :: WidthDiag + Rule)"
    by (auto simp: admit_widths_def Let_def bind_eq_Some_conv split: if_splits) (auto split: sum.splits)
  then obtain t where "r = Inr t" "rule' = rule\<lparr>r_admitted := t\<rparr>" by (cases r) auto
  with r(1) show ?thesis by (simp add: widths_validated_def validate_widths_update)
qed

text \<open>The widths a table has.\<close>

definition has_width :: "u64 list \<Rightarrow> nat \<Rightarrow> bool" where
  "has_width bits k \<longleftrightarrow> bit (bits ! (k div 64)) (k mod 64)"

lemma set_width_ok:
  assumes "length bits = 9" "i < 576"
  shows "\<exists>bits'. set_width i bits = Some bits' \<and> length bits' = 9 \<and> (\<forall>k<576. has_width bits' k \<longleftrightarrow> k = i \<or> has_width bits k)"
proof -
  have i: "i div 64 < 9" using assms(2) by (simp add: less_mult_imp_div_less)
  let ?b = "bits[i div 64 := bits ! (i div 64) OR push_bit (i mod 64) 1]"
  have "has_width ?b k \<longleftrightarrow> k = i \<or> has_width bits k" if "k < 576" for k
  proof (cases "k div 64 = i div 64")
    case True
    have "k = i \<longleftrightarrow> k mod 64 = i mod 64" using True by (metis div_mult_mod_eq)
    then show ?thesis using True i assms(1) by (auto simp: has_width_def bit_or_iff bit_exp_iff)
  qed (auto simp: has_width_def)
  then show ?thesis using i assms(1) by (simp add: set_width_def at_def put_def)
qed

lemma first_bad_iff: "first_bad rule ws ps = Some x \<Longrightarrow> all_well_formed rule ws ps = Some (x = None)"
proof (induction ps)
  case (Cons p ps)
  then obtain r where "well_formed rule p ws False = Some r" by (auto simp: bind_eq_Some_conv)
  then show ?case using Cons by (cases r) auto
qed simp

text \<open>The assignments of a rule with at most one width variable and no mode.\<close>

definition single :: "Rule \<Rightarrow> nat list \<Rightarrow> bool" where
  "single rule ws \<longleftrightarrow> r_modes rule = 0 \<and> length ws = r_width_vars rule \<and>
     (ws = [] \<or> (\<exists>k. ws = [k] \<and> 0 < k \<and> k \<le> MAX_BITS))"

definition slot :: "nat list \<Rightarrow> nat" where "slot ws = (case ws of [] \<Rightarrow> 0 | w # _ \<Rightarrow> w)"

lemma single_anew:
  assumes "single rule ws"
  shows "admits_anew rule ws = do {
     cs \<leftarrow> all_hold (r_constraints rule) ws;
     if \<not> cs then Some False
     else do {
       r \<leftarrow> well_formed rule (r_lhs rule) ws True;
       if r \<noteq> Inr () then Some False else all_well_formed rule ws (rule_parts rule) } }"
  using assms by (auto simp: single_def admits_anew_def)

lemma validate_step_ok:
  assumes "single rule ws" "all_hold (r_constraints rule) ws = Some True" "length bits = 9"
    "validate_step rule ws (mt, Some bits, None) = Some (go, mt', table, failure)"
  shows "go \<longleftrightarrow> failure = None"
    "go \<Longrightarrow> \<exists>bits' b. table = Some bits' \<and> length bits' = 9 \<and> admits_anew rule ws = Some b \<and>
      (\<forall>k<576. has_width bits' k \<longleftrightarrow> has_width bits k \<or> (k = slot ws \<and> b))"
proof -
  have s: "slot ws < 576" using assms(1) by (auto simp: single_def slot_def MAX_BITS_def)
  from set_width_ok [OF assms(3) s] obtain bits1 where b: "set_width (slot ws) bits = Some bits1" "length bits1 = 9"
    "\<forall>k<576. has_width bits1 k \<longleftrightarrow> k = slot ws \<or> has_width bits k" by blast
  from assms(4) obtain r where r: "well_formed rule (r_lhs rule) ws True = Some r" by (auto simp: validate_step_def bind_eq_Some_conv)
  note step = assms(4) [unfolded validate_step_def, folded slot_def, simplified r b(1), simplified]
  have both: "(go \<longleftrightarrow> failure = None) \<and> (go \<longrightarrow> (\<exists>bits' b. table = Some bits' \<and> length bits' = 9 \<and> admits_anew rule ws = Some b \<and>
      (\<forall>k<576. has_width bits' k \<longleftrightarrow> has_width bits k \<or> (k = slot ws \<and> b))))"
  proof (cases "r = Inr ()")
    case False
    then show ?thesis using step assms(3) by (auto simp: single_anew [OF assms(1)] assms(2) r)
  next
    case True
    with step obtain bad where bad: "first_bad rule ws (rule_parts rule) = Some bad" by (auto simp: bind_eq_Some_conv)
    show ?thesis
      using step True bad b(2,3) first_bad_iff [OF bad] by (cases bad) (auto simp: single_anew [OF assms(1)] assms(2) r b(1))
  qed
  then show "go \<longleftrightarrow> failure = None" and "go \<Longrightarrow> \<exists>bits' b. table = Some bits' \<and> length bits' = 9 \<and> admits_anew rule ws = Some b \<and>
      (\<forall>k<576. has_width bits' k \<longleftrightarrow> has_width bits k \<or> (k = slot ws \<and> b))" by blast+
qed

lemma domain_one: "width_domain 1 = [1..<513]" "width_domain 0 = [1..<513]"
  by (simp_all add: width_domain_def WIDE_def)

lemma each_from_one:
  "i < length domain \<Longrightarrow> each_from f cs 0 domain [i] [] s = do {
     ok \<leftarrow> all_hold cs [domain ! i];
     (go, s) \<leftarrow> (if ok then f [domain ! i] s else Some (True, s));
     if \<not> go then Some s
     else if i + 1 < length domain then each_from f cs 0 domain [i + 1] [] s else Some s }"
proof -
  assume i: "i < length domain"
  have "[0..<1] = [0::nat]" by (simp add: upt_rec)
  then have e: "each_mode f ws 0 [0..<1] [] s = do { (go, s) \<leftarrow> f ws s; Some (go, [], s) }" for ws s
    by (cases "f ws s") (auto split: prod.splits)
  show ?thesis
    using i by (subst each_from.simps, cases "all_hold cs [domain ! i]", simp add: at_def)
      (cases "f [domain ! i] s", auto simp: at_def e split: prod.splits)
qed

lemma each_from_none:
  "each_from f cs 0 domain [] [] s = do {
     ok \<leftarrow> all_hold cs [];
     (go, s) \<leftarrow> (if ok then f [] s else Some (True, s));
     Some s }"
proof -
  have "[0..<1] = [0::nat]" by (simp add: upt_rec)
  then have e: "each_mode f ws 0 [0..<1] [] s = do { (go, s) \<leftarrow> f ws s; Some (go, [], s) }" for ws s
    by (cases "f ws s") (auto split: prod.splits)
  show ?thesis
    by (subst each_from.simps, cases "all_hold cs []", simp)
      (cases "f [] s", auto simp: e split: prod.splits)
qed

text \<open>The walk over one width variable, from index \<open>i\<close>: the table it leaves has the widths it had
  up to \<open>i\<close>, and above it those the rule is admitted at.\<close>

lemma walk_step:
  assumes r: "r_width_vars rule = 1" "r_modes rule = 0"
    and run: "each_from (validate_step rule) (r_constraints rule) 0 [1..<513] [i] [] (mt, Some bits, None) = Some (mt', table, None)"
    and l: "length bits = 9" and i: "i < 512"
  shows "\<exists>mt1 bits1 b. length bits1 = 9 \<and> admits_anew rule [i + 1] = Some b \<and>
    (\<forall>k<576. has_width bits1 k \<longleftrightarrow> has_width bits k \<or> (k = i + 1 \<and> b)) \<and>
    (if i + 1 < 512
     then each_from (validate_step rule) (r_constraints rule) 0 [1..<513] [i + 1] [] (mt1, Some bits1, None) = Some (mt', table, None)
     else table = Some bits1)"
proof -
  have d: "[1..<513] ! i = i + 1" "length [1..<513] = 512" using i by (simp_all add: nth_upt)
  have s: "single rule [i + 1]" using r i by (simp add: single_def MAX_BITS_def)
  note u = run [unfolded each_from_one [of i "[1..<513]", unfolded d, OF i]]
  from u obtain ok where ok: "all_hold (r_constraints rule) [i + 1] = Some ok" by (auto simp: bind_eq_Some_conv)
  show ?thesis
  proof (cases ok)
    case False
    then have "admits_anew rule [i + 1] = Some False" by (simp add: single_anew [OF s] ok)
    moreover have "if i + 1 < 512
       then each_from (validate_step rule) (r_constraints rule) 0 [1..<513] [i + 1] [] (mt, Some bits, None) = Some (mt', table, None)
       else table = Some bits" using u ok False by auto
    ultimately show ?thesis using l by blast
  next
    case True
    with u ok obtain go mt1 t1 f1 where st: "validate_step rule [i + 1] (mt, Some bits, None) = Some (go, mt1, t1, f1)"
      by (auto simp: bind_eq_Some_conv)
    note v = validate_step_ok [OF s ok [unfolded True [THEN eq_True [THEN iffD2]]] l st]
    have go: go using u ok True st v(1) by (auto split: if_splits)
    from v(2) [OF go] obtain bits1 b where b: "t1 = Some bits1" "length bits1 = 9" "admits_anew rule [i + 1] = Some b"
      "\<forall>k<576. has_width bits1 k \<longleftrightarrow> has_width bits k \<or> (k = slot [i + 1] \<and> b)" by blast
    have "if i + 1 < 512
       then each_from (validate_step rule) (r_constraints rule) 0 [1..<513] [i + 1] [] (mt1, Some bits1, None) = Some (mt', table, None)
       else table = Some bits1" using u ok True st go v(1) b(1) by auto
    moreover have "slot [i + 1] = i + 1" by (simp add: slot_def)
    ultimately show ?thesis using b(2-4) by metis
  qed
qed

lemma walk_one:
  assumes "r_width_vars rule = 1" "r_modes rule = 0"
    and "each_from (validate_step rule) (r_constraints rule) 0 [1..<513] [i] [] (mt, Some bits, None) = Some (mt', table, None)"
    "length bits = 9" "i < 512"
  shows "\<exists>bits'. table = Some bits' \<and> length bits' = 9 \<and>
    (\<forall>k<576. has_width bits' k \<longleftrightarrow> has_width bits k \<or> (i < k \<and> k \<le> 512 \<and> admits_anew rule [k] = Some True)) \<and>
    (\<forall>k. i < k \<and> k \<le> 512 \<longrightarrow> admits_anew rule [k] \<noteq> None)"
  using assms(3-5)
proof (induction "511 - i" arbitrary: i mt bits)
  case (0 i mt bits)
  then have nlt: "\<not> i + 1 < 512" by linarith
  from walk_step [OF assms(1,2) 0(2-4), unfolded if_not_P [OF nlt]] obtain bits1 b where
    s: "length bits1 = 9" "admits_anew rule [i + 1] = Some b"
      "\<forall>k<576. has_width bits1 k \<longleftrightarrow> has_width bits k \<or> (k = i + 1 \<and> b)" "table = Some bits1" by blast
  have k: "i < k \<and> k \<le> 512 \<longleftrightarrow> k = i + 1" for k using nlt 0(4) by linarith
  have "has_width bits1 k \<longleftrightarrow> has_width bits k \<or> (i < k \<and> k \<le> 512 \<and> admits_anew rule [k] = Some True)" if "k < 576" for k
    unfolding s(3) [rule_format, OF that] conj_assoc [symmetric] k using s(2) by auto
  then show ?case using s(1,2,4) unfolding k by blast
next
  case (Suc n i mt bits)
  have lt: "i + 1 < 512" using Suc.hyps(2) by linarith
  from walk_step [OF assms(1,2) Suc.prems, unfolded if_P [OF lt]] obtain mt1 bits1 b where
    s: "length bits1 = 9" "admits_anew rule [i + 1] = Some b"
      "\<forall>k<576. has_width bits1 k \<longleftrightarrow> has_width bits k \<or> (k = i + 1 \<and> b)"
      "each_from (validate_step rule) (r_constraints rule) 0 [1..<513] [i + 1] [] (mt1, Some bits1, None) = Some (mt', table, None)"
    by blast
  have "n = 511 - (i + 1)" using Suc.hyps(2) by linarith
  from Suc.hyps(1) [OF this s(4,1) lt] obtain bits' where b: "table = Some bits'" "length bits' = 9"
    "\<forall>k<576. has_width bits' k \<longleftrightarrow> has_width bits1 k \<or> (i + 1 < k \<and> k \<le> 512 \<and> admits_anew rule [k] = Some True)"
    "\<forall>k. i + 1 < k \<and> k \<le> 512 \<longrightarrow> admits_anew rule [k] \<noteq> None" by blast
  have split: "i < k \<longleftrightarrow> k = i + 1 \<or> i + 1 < k" for k by auto
  have "has_width bits' k \<longleftrightarrow> has_width bits k \<or> (i < k \<and> k \<le> 512 \<and> admits_anew rule [k] = Some True)" if "k < 576" for k
    unfolding b(3) [rule_format, OF that] s(3) [rule_format, OF that] split using s(2) lt by (cases "k = i + 1") auto
  moreover have "admits_anew rule [k] \<noteq> None" if "i < k \<and> k \<le> 512" for k
    using that b(4) s(2) unfolding split by auto
  ultimately show ?case using b(1,2) by blast
qed

lemma each_mode_inv:
  assumes "\<And>ws s go s'. P s \<Longrightarrow> f ws s = Some (go, s') \<Longrightarrow> P s'"
  shows "each_mode f ws m ks modes s = Some (go, modes', s') \<Longrightarrow> P s \<Longrightarrow> P s'"
proof (induction ks arbitrary: modes s)
  case (Cons k ks)
  from Cons.prems(1) obtain g s1 where s1: "f (ws @ mode_digits m k) s = Some (g, s1)"
    "(if g then each_mode f ws m ks (mode_digits m k) s1 else Some (False, mode_digits m k, s1)) = Some (go, modes', s')"
    by (auto simp: bind_eq_Some_conv Let_def)
  have "P s1" by (rule assms [OF Cons.prems(2) s1(1)])
  then show ?case using s1(2) Cons.IH by (cases g) auto
qed simp

lemma each_from_inv:
  assumes "\<And>ws s go s'. P s \<Longrightarrow> f ws s = Some (go, s') \<Longrightarrow> P s'"
    and "each_from f cs m domain idx modes s = Some s'" "P s"
  shows "P s'"
proof -
  have "(\<forall>ws s go s'. P s \<longrightarrow> f ws s = Some (go, s') \<longrightarrow> P s') \<longrightarrow> P s \<longrightarrow> P s'"
    if "each_from f cs m domain idx modes s = Some s'" for f cs m domain idx modes s s'
  proof (rule each_from.raw_induct [OF _ that], goal_cases)
    case 1: (1 loop f cs m domain idx modes s s')
    show ?case
    proof (intro impI)
      assume f: "\<forall>ws s go s'. P s \<longrightarrow> f ws s = Some (go, s') \<longrightarrow> P s'" and s: "P s"
      from 1(2) obtain ws ok go modes1 s1 where
        m: "(if \<not> ok then Some (True, modes, s) else if (5::nat) ^ m \<ge> 2 ^ 32 then None
          else each_mode f ws m [0..<5 ^ m] modes s) = Some (go, modes1, s1)"
        and rest: "(if \<not> go then Some s1 else (case odometer (length domain) idx of
            None \<Rightarrow> Some s1 | Some idx \<Rightarrow> loop f cs m domain idx modes1 s1)) = Some s'"
        by (auto simp: bind_eq_Some_conv)
      have s1: "P s1" using m s each_mode_inv [of P f ws m "[0..<5 ^ m]" modes s go modes1 s1] f by (auto split: if_splits)
      show "P s'"
      proof (cases "\<exists>i. go \<and> odometer (length domain) idx = Some i")
        case True
        then obtain i where "loop f cs m domain i modes1 s1 = Some s'" using rest by auto
        from 1(1) [OF this] f s1 show ?thesis by blast
      next
        case False
        then show ?thesis using rest s1 by (auto split: if_splits option.splits)
      qed
    qed
  qed
  then show ?thesis using assms by blast
qed

text \<open>The table a validation leaves answers as the check from scratch.\<close>

theorem table_exact:
  assumes "validate_widths rule = Some (Inr (Some bits))" "r_admitted rule = Some bits"
  shows "admitted rule ws = admits_anew rule ws"
proof -
  define t0 where "t0 = (if r_width_vars rule \<le> 1 \<and> r_modes rule = 0 then Some (replicate 9 0 :: u64 list) else None)"
  from assms(1) obtain mt where
    run: "for_each_assignment rule (validate_step rule) (0, t0, None) = Some (mt, Some bits, None)"
    by (auto simp: validate_widths_def t0_def [symmetric] bind_eq_Some_conv split: if_splits option.splits)
  have "t0 \<noteq> None"
  proof
    assume t: "t0 = None"
    have "(\<lambda>s :: validation. fst (snd s) = None) (mt, Some bits, None)"
    proof (rule each_from_inv [OF _ run [unfolded for_each_assignment_def]])
      fix ws s go s' assume s: "fst (snd s) = None" "validate_step rule ws s = Some (go, s')"
      obtain m f where "s = (m, None, f)" using s(1) by (cases s) auto
      with s(2) show "fst (snd s') = None" by (auto simp: validate_step_def bind_eq_Some_conv split: if_splits option.splits)
    qed (simp add: t)
    then show False by simp
  qed
  then have v: "r_width_vars rule \<le> 1" "r_modes rule = 0" "t0 = Some (replicate 9 0)" by (auto simp: t0_def split: if_splits)
  have no: "\<not> has_width (replicate 9 0) k" if "k < 576" for k
    using that by (simp add: has_width_def less_mult_imp_div_less)
  have len: "length (replicate 9 (0 :: u64)) = 9" by simp
  have at_bits: "at bits (k div 64) = Some (bits ! (k div 64))" "drop_bit (k mod 64) (bits ! (k div 64)) AND 1 = 1 \<longleftrightarrow> has_width bits k"
    if "k < 576" "length bits = 9" for k
    using that by (simp_all add: at_def less_mult_imp_div_less has_width_def shift_and_one)
  from v(1) consider "r_width_vars rule = 0" | "r_width_vars rule = 1" by linarith
  then show ?thesis
  proof cases
    case 1
    have s: "single rule []" using v(2) 1 by (simp add: single_def)
    from run have r: "do { ok \<leftarrow> all_hold (r_constraints rule) [];
        (go, s) \<leftarrow> (if ok then validate_step rule [] (0, t0, None) else Some (True, (0, t0, None))); Some s } = Some (mt, Some bits, None)"
      by (simp add: for_each_assignment_def 1 v(2) each_from_none)
    then obtain ok where ok: "all_hold (r_constraints rule) [] = Some ok" by (auto simp: bind_eq_Some_conv)
    have b: "length bits = 9 \<and> (\<exists>b. admits_anew rule [] = Some b \<and> (has_width bits 0 \<longleftrightarrow> b))"
    proof (cases ok)
      case False
      then show ?thesis using r ok no [of 0] by (auto simp: v(3) single_anew [OF s])
    next
      case True
      with r ok obtain go where st: "validate_step rule [] (0, Some (replicate 9 0), None) = Some (go, mt, Some bits, None)"
        by (auto simp: bind_eq_Some_conv v(3))
      have go: go using validate_step_ok(1) [OF s _ len st] ok True by simp
      from validate_step_ok(2) [OF s _ len st go] ok True no [of 0] show ?thesis by (auto simp: slot_def)
    qed
    have "admits_anew rule ws = Some False" if "ws \<noteq> []"
      using that v(2) 1 by (simp add: admits_anew_def)
    then show ?thesis using b at_bits [of 0] 1 by (auto simp: admitted_def assms(2))
  next
    case 2
    from run have r: "each_from (validate_step rule) (r_constraints rule) 0 [1..<513] [0] [] (0, Some (replicate 9 0), None) =
        Some (mt, Some bits, None)"
      by (simp add: One_nat_def [symmetric] replicate_Suc [of 0, folded One_nat_def] for_each_assignment_def 2 v(2,3) domain_one)
    from walk_one [OF 2 v(2) r len] have b: "length bits = 9"
      "\<And>k. k < 576 \<Longrightarrow> has_width bits k \<longleftrightarrow> 0 < k \<and> k \<le> 512 \<and> admits_anew rule [k] = Some True"
      "\<And>k. 0 < k \<and> k \<le> 512 \<Longrightarrow> admits_anew rule [k] \<noteq> None"
      using no by auto
    show ?thesis
    proof (cases "\<exists>k. ws = [k]")
      case False
      then show ?thesis using 2 v(2) by (auto simp: admitted_def assms(2) admits_anew_def length_Suc_conv One_nat_def)
    next
      case True
      then obtain k where k: "ws = [k]" by blast
      show ?thesis
      proof (cases "0 < k \<and> k \<le> 512")
        case True
        then show ?thesis using b(2) [of k] b(3) [of k] at_bits [of k] b(1) 2 by (auto simp: k admitted_def assms(2) MAX_BITS_def)
      next
        case False
        then have "admits_anew rule ws = Some False" using 2 v(2) by (auto simp: k admits_anew_def MAX_BITS_def)
        then show ?thesis using False b(2) [of k] at_bits [of k] b(1) 2 by (auto simp: k admitted_def assms(2) MAX_BITS_def)
      qed
    qed
  qed
qed

lemma admitted_anew: "widths_validated rule \<Longrightarrow> admitted rule ws = admits_anew rule ws"
  unfolding widths_validated_def using table_exact [of rule _ ws] by (cases "r_admitted rule") (auto simp: admitted_def)

section \<open>Rules that apply at every width\<close>

text \<open>The table with the widths 1 to 512.\<close>

definition ALL_WIDTHS :: "u64 list" where
  "ALL_WIDTHS = [- 2, - 1, - 1, - 1, - 1, - 1, - 1, - 1, 1]"

lemma table_eqI:
  assumes "length bits = 9" "length bits' = 9" "\<And>k. k < 576 \<Longrightarrow> has_width bits k = has_width bits' k"
  shows "bits = bits'"
proof (rule nth_equalityI)
  fix i assume i: "i < length bits"
  show "bits ! i = bits' ! i"
  proof (rule bit_eqI)
    fix n assume "possible_bit TYPE(u64) n"
    then have n: "n < 64" by (simp add: possible_bit_word)
    have "(64 * i + n) div 64 = i" "(64 * i + n) mod 64 = n" "64 * i + n < 576" using n i assms(1) by auto
    then show "bit (bits ! i) n = bit (bits' ! i) n" using assms(3) [of "64 * i + n"] by (simp add: has_width_def)
  qed
qed (simp add: assms)

lemma has_all_widths: "k < 576 \<Longrightarrow> has_width ALL_WIDTHS k \<longleftrightarrow> 0 < k \<and> k \<le> 512"
proof -
  assume k: "k < 576"
  define i n where "i = k div 64" and "n = k mod 64"
  have kn: "k = 64 * i + n" "n < 64" "i < 9" using k by (auto simp: i_def n_def)
  have m2: "bit (- 2 :: u64) n \<longleftrightarrow> 0 < n" using kn(2)
    by (subst minus_numeral_eq_not_sub_one) (cases n, auto simp: bit_not_iff bit_1_iff)
  have "i \<in> {0, 1, 2, 3, 4, 5, 6, 7, 8}" using kn(3) by auto
  then show ?thesis
    unfolding has_width_def i_def [symmetric] n_def [symmetric] kn(1)
    using kn(2) m2 by (elim insertE emptyE) (auto simp: ALL_WIDTHS_def bit_1_iff, presburger)
qed

lemma walk_all:
  assumes "\<And>k. i < k \<Longrightarrow> k \<le> 512 \<Longrightarrow> all_hold (r_constraints rule) [k] = Some True \<and>
      well_formed rule (r_lhs rule) [k] True = Some (Inr ()) \<and> first_bad rule [k] (rule_parts rule) = Some None"
    and "length bits = 9" "i < 512"
  shows "\<exists>bits'. each_from (validate_step rule) (r_constraints rule) 0 [1..<513] [i] [] (mt, Some bits, None) =
      Some (mt + (512 - i), Some bits', None) \<and> length bits' = 9 \<and>
    (\<forall>k<576. has_width bits' k \<longleftrightarrow> has_width bits k \<or> (i < k \<and> k \<le> 512))"
  using assms
proof (induction "511 - i" arbitrary: i mt bits)
  case (0 i mt bits)
  have i: "i = 511" using 0 by linarith
  from set_width_ok [OF 0(3), of "i + 1"] i obtain bits1 where
    b: "set_width (i + 1) bits = Some bits1" "length bits1 = 9" "\<forall>k<576. has_width bits1 k \<longleftrightarrow> k = i + 1 \<or> has_width bits k" by auto
  have d: "[1..<513] ! i = i + 1" "length [1..<513] = 512" using i by (simp_all add: nth_upt)
  have k: "i < k \<and> k \<le> 512 \<longleftrightarrow> k = i + 1" for k using i by linarith
  have "each_from (validate_step rule) (r_constraints rule) 0 [1..<513] [i] [] (mt, Some bits, None) = Some (mt + 1, Some bits1, None)"
    using 0(2) [of "i + 1"] i b(1) by (subst each_from_one) (simp_all add: d validate_step_def del: upt_conv_Cons)
  then show ?case using b(2,3) i unfolding k by auto
next
  case (Suc n i mt bits)
  have lt: "i + 1 < 512" "n = 511 - (i + 1)" using Suc.hyps(2) by linarith+
  from set_width_ok [OF Suc.prems(2), of "i + 1"] lt(1) obtain bits1 where
    b: "set_width (i + 1) bits = Some bits1" "length bits1 = 9" "\<forall>k<576. has_width bits1 k \<longleftrightarrow> k = i + 1 \<or> has_width bits k" by auto
  from Suc.hyps(1) [OF lt(2) Suc.prems(1) b(2) lt(1), of "mt + 1"] obtain bits' where
    r: "each_from (validate_step rule) (r_constraints rule) 0 [1..<513] [i + 1] [] (mt + 1, Some bits1, None) =
        Some (mt + 1 + (512 - (i + 1)), Some bits', None)" "length bits' = 9"
      "\<forall>k<576. has_width bits' k \<longleftrightarrow> has_width bits1 k \<or> (i + 1 < k \<and> k \<le> 512)" by auto
  have d: "[1..<513] ! i = i + 1" "length [1..<513] = 512" using lt(1) by (simp_all add: nth_upt)
  have "each_from (validate_step rule) (r_constraints rule) 0 [1..<513] [i] [] (mt, Some bits, None) =
      each_from (validate_step rule) (r_constraints rule) 0 [1..<513] [i + 1] [] (mt + 1, Some bits1, None)"
    using Suc.prems(1) [of "i + 1"] lt(1) b(1) by (subst each_from_one) (simp_all add: d validate_step_def)
  moreover have "mt + 1 + (512 - (i + 1)) = mt + (512 - i)" using lt(1) by linarith
  moreover have "has_width bits' k \<longleftrightarrow> has_width bits k \<or> (i < k \<and> k \<le> 512)" if "k < 576" for k
    using r(3) b(3) that lt(1) by auto
  ultimately show ?case using r(1,2) by auto
qed

theorem validate_all:
  assumes "r_width_vars rule = 1" "r_modes rule = 0"
    and "\<And>k. 0 < k \<Longrightarrow> k \<le> 512 \<Longrightarrow> all_hold (r_constraints rule) [k] = Some True \<and>
      well_formed rule (r_lhs rule) [k] True = Some (Inr ()) \<and> first_bad rule [k] (rule_parts rule) = Some None"
  shows "validate_widths rule = Some (Inr (Some ALL_WIDTHS))"
proof -
  have len: "length (replicate 9 (0 :: u64)) = 9" by simp
  have no: "\<not> has_width (replicate 9 0) k" if "k < 576" for k
    using that by (simp add: has_width_def less_mult_imp_div_less)
  from walk_all [of 0 rule "replicate 9 0" 0, OF assms(3) len] obtain bits where
    b: "each_from (validate_step rule) (r_constraints rule) 0 [1..<513] [0] [] (0, Some (replicate 9 0), None) = Some (512, Some bits, None)"
      "length bits = 9" "\<forall>k<576. has_width bits k \<longleftrightarrow> has_width (replicate 9 0) k \<or> (0 < k \<and> k \<le> 512)" by auto
  have "bits = ALL_WIDTHS"
    by (rule table_eqI [OF b(2)]) (use b(3) no has_all_widths in \<open>simp_all add: ALL_WIDTHS_def [symmetric]\<close>, simp add: ALL_WIDTHS_def)
  then show ?thesis using b(1)
    by (simp add: validate_widths_def for_each_assignment_def assms(1,2) domain_one One_nat_def [symmetric]
        replicate_Suc [of 0, folded One_nat_def])
qed

end
