(* ===== verification/Rules_Eval.thy ===== *)
theory Rules_Eval
  imports Rule_Widths Shift_Correct
begin

unbundle bit_operations_syntax

declare One_nat_def [simp del]

text \<open>
  The rule evaluator on well-sorted rules: literals, the checks of well-formedness, evaluation
  without failure, and rules whose width does not matter.
\<close>

section \<open>Literals\<close>

lemma find_top:
  "top_limb ls = Some t \<Longrightarrow> t < length ls \<and> ls ! t \<noteq> 0 \<and> (\<forall>i. t < i \<longrightarrow> i < length ls \<longrightarrow> ls ! i = 0)"
  "top_limb ls = None \<Longrightarrow> \<forall>i<length ls. ls ! i = 0"
proof -
  have "top_limb ls = None \<longrightarrow> (\<forall>i<length ls. ls ! i = 0)"
    "top_limb ls = Some t \<longrightarrow> t < length ls \<and> ls ! t \<noteq> 0 \<and> (\<forall>i. t < i \<longrightarrow> i < length ls \<longrightarrow> ls ! i = 0)" for t
  proof (induction ls rule: rev_induct)
    case (snoc x xs)
    have f: "filter (\<lambda>i. (xs @ [x]) ! i \<noteq> 0) (rev [0..<length xs]) = filter (\<lambda>i. xs ! i \<noteq> 0) (rev [0..<length xs])"
      by (rule filter_cong) (auto simp: nth_append)
    have top: "top_limb (xs @ [x]) = (if x \<noteq> 0 then Some (length xs) else top_limb xs)"
      unfolding top_limb_def length_append_singleton upt_Suc_append [OF le0] rev_append list.size rev.simps append_Nil
        append_Cons filter.simps(2) nth_append_length f by simp
    { case 1 show ?case using snoc(1) by (auto simp: top nth_append less_Suc_eq split: if_splits) }
    { case 2 show ?case using snoc(2) by (auto simp: top nth_append less_Suc_eq split: if_splits) }
  qed (simp_all add: top_limb_def)
  then show "top_limb ls = Some t \<Longrightarrow> t < length ls \<and> ls ! t \<noteq> 0 \<and> (\<forall>i. t < i \<longrightarrow> i < length ls \<longrightarrow> ls ! i = 0)"
    "top_limb ls = None \<Longrightarrow> \<forall>i<length ls. ls ! i = 0" by blast+
qed

lemma lval_all_zero: "(\<forall>i<length ls. ls ! i = 0) \<Longrightarrow> lval ls = 0"
  by (induction ls) (auto simp: nth_Cons split: nat.splits)

lemma lval_zero_iff: "lval ls = 0 \<longleftrightarrow> list_all (\<lambda>x. x = 0) ls"
  by (induction ls) (auto simp: unat_eq_0)

lemma lval_top:
  assumes "top_limb ls = Some t"
  shows "lval ls = lval (take t ls) + 2 ^ (64 * t) * unat (ls ! t)"
proof -
  note f = find_top(1) [OF assms]
  have "lval (drop (Suc t) ls) = 0" by (rule lval_all_zero) (use f in auto)
  moreover have "lval ls = lval (take (Suc t) ls) + B64 ^ Suc t * lval (drop (Suc t) ls)"
    by (rule lval_drop) (use f in simp)
  ultimately show ?thesis using f lval_take_Suc [of t ls] by (simp add: B64_power)
qed

lemma filter_single_upt: "k < n \<Longrightarrow> filter (\<lambda>i. i = k) [0..<n] = [k]"
  by (induction n) (auto simp: less_Suc_eq filter_empty_conv)

text \<open>The highest bit of a word.\<close>

lemma word_top:
  fixes x :: u64
  assumes "x \<noteq> 0"
  shows "2 ^ (63 - leading_zeros x) \<le> unat x" "unat x < 2 ^ (64 - leading_zeros x)" "leading_zeros x < 64"
    "count_ones x = 1 \<longleftrightarrow> unat x = 2 ^ (63 - leading_zeros x)"
proof -
  note p = leading_zeros_props [OF assms]
  show lz: "leading_zeros x < 64" using p(1) by simp
  show ge: "2 ^ (63 - leading_zeros x) \<le> unat x"
    using bit_nat_less [of "unat x" "63 - leading_zeros x" "63 - leading_zeros x"] p(2) by (auto simp: bit_unat simp flip: not_less)
  have "\<not> bit (unat x) i" if "64 - leading_zeros x \<le> i" for i
    unfolding bit_unat using p(3) [of i] that lz by simp
  then show "unat x < 2 ^ (64 - leading_zeros x)"
    by (intro less_power_bits) (metis not_le)
  show "count_ones x = 1 \<longleftrightarrow> unat x = 2 ^ (63 - leading_zeros x)"
  proof
    assume "unat x = 2 ^ (63 - leading_zeros x)"
    then have "bit (unat x) i \<longleftrightarrow> i = 63 - leading_zeros x" for i by (simp add: bit_exp_iff)
    then have b: "bit x i \<longleftrightarrow> i = 63 - leading_zeros x" for i by (simp add: bit_unat)
    have "filter (bit x) [0..<64] = filter (\<lambda>i. i = 63 - leading_zeros x) [0..<64]" by (rule filter_cong) (simp_all add: b)
    also have "\<dots> = [63 - leading_zeros x]" using filter_single_upt [of "63 - leading_zeros x" 64] by simp
    finally have "filter (bit x) [0..<64] = [63 - leading_zeros x]" .
    then show "count_ones x = 1" by (simp add: count_ones_def One_nat_def)
  next
    assume "count_ones x = 1"
    then obtain k where k: "filter (bit x) [0..<64] = [k]" by (auto simp: count_ones_def length_Suc_conv One_nat_def)
    have "bit x i \<longleftrightarrow> i = k" for i
    proof -
      have "i \<in> set (filter (bit x) [0..<64]) \<longleftrightarrow> bit x i" using bit_imp_le_length [of x i] by auto
      then show ?thesis unfolding k by simp
    qed
    then have u: "unat x = 2 ^ k" by (intro bit_eqI) (auto simp: bit_unat bit_exp_iff)
    have "k = 63 - leading_zeros x" using p(2) \<open>\<And>i. bit x i \<longleftrightarrow> i = k\<close> by simp
    then show "unat x = 2 ^ (63 - leading_zeros x)" using u by simp
  qed
qed

lemma wexpr_eval_fits: "wexpr_eval e ws = Some v \<Longrightarrow> i64_fits (wx_konst e) \<Longrightarrow> i64_fits v"
proof -
  have "wexpr_sum ts ws acc = Some v \<Longrightarrow> i64_fits acc \<Longrightarrow> i64_fits v" for ts acc
    by (induction ts ws acc rule: wexpr_sum.induct)
      (auto simp: i64_fits_def saturated_def bind_eq_Some_conv split: if_splits)
  then show "wexpr_eval e ws = Some v \<Longrightarrow> i64_fits (wx_konst e) \<Longrightarrow> i64_fits v" by (simp add: wexpr_eval_def)
qed

text \<open>The number a literal stands for at a width, before it is reduced to the width.\<close>

fun lit_number :: "Literal \<Rightarrow> nat \<Rightarrow> nat list \<Rightarrow> int" where
  "lit_number (LInt ls negative) w ws = (if negative then - int (lval ls) else int (lval ls))"
| "lit_number LOnes w ws = - 1"
| "lit_number LSMin w ws = - (2 ^ (w - 1))"
| "lit_number LSMax w ws = 2 ^ (w - 1) - 1"
| "lit_number (LLowMask k) w ws = 2 ^ nat (the (wexpr_eval k ws)) - 1"
| "lit_number (LBit k) w ws = 2 ^ nat (the (wexpr_eval k ws))"
| "lit_number (LWidth e) w ws = the (wexpr_eval e ws)"

fun lit_wexpr :: "Literal \<Rightarrow> WExpr option" where
  "lit_wexpr (LLowMask k) = Some k"
| "lit_wexpr (LBit k) = Some k"
| "lit_wexpr (LWidth e) = Some e"
| "lit_wexpr _ = None"

text \<open>The constants of a rule are 64-bit.\<close>

definition lit_ok :: "Literal \<Rightarrow> bool" where
  "lit_ok l \<longleftrightarrow> (case lit_wexpr l of None \<Rightarrow> True | Some e \<Rightarrow> i64_fits (wx_konst e))"

lemma int_fits_length:
  assumes "top_limb ls = Some t"
  defines "len \<equiv> 64 * t + 64 - leading_zeros (ls ! t)"
  shows "0 < len" "2 ^ (len - 1) \<le> lval ls" "lval ls < 2 ^ len"
    "(count_ones (ls ! t) = 1 \<and> list_all (\<lambda>x. x = 0) (take t ls)) \<longleftrightarrow> lval ls = 2 ^ (len - 1)"
proof -
  note f = find_top(1) [OF assms(1)] and v = lval_top [OF assms(1)]
  define lz where "lz = leading_zeros (ls ! t)"
  note w = word_top [of "ls ! t", folded lz_def]
  have nz: "ls ! t \<noteq> 0" and lz: "lz < 64" using f w(3) by auto
  have low: "lval (take t ls) < 2 ^ (64 * t)"
    using lval_take_less [of t ls] f by (simp add: B64_power)
  have e: "len = 64 * t + (64 - lz)" "len - 1 = 64 * t + (63 - lz)" using lz by (simp_all add: len_def lz_def One_nat_def)
  then show "0 < len" using lz by simp
  have "2 ^ (64 * t) * 2 ^ (63 - lz) \<le> 2 ^ (64 * t) * unat (ls ! t)" using w(1) [OF nz] by (rule mult_left_mono) simp
  then show "2 ^ (len - 1) \<le> lval ls" unfolding e(2) v power_add by linarith
  have "unat (ls ! t) + 1 \<le> 2 ^ (64 - lz)" using w(2) [OF nz] by simp
  then have "2 ^ (64 * t) * (unat (ls ! t) + 1) \<le> (2::nat) ^ (64 * t) * 2 ^ (64 - lz)" by (rule mult_left_mono) simp
  then have "2 ^ (64 * t) * unat (ls ! t) + 2 ^ (64 * t) \<le> (2::nat) ^ (64 * t) * 2 ^ (64 - lz)" by (simp add: distrib_left)
  then show "lval ls < 2 ^ len" unfolding e(1) v power_add using low by linarith
  have "lval ls = 2 ^ (len - 1) \<longleftrightarrow> lval (take t ls) = 0 \<and> unat (ls ! t) = 2 ^ (63 - lz)"
  proof
    assume a: "lval ls = 2 ^ (len - 1)"
    have "unat (ls ! t) = lval ls div 2 ^ (64 * t)" "lval (take t ls) = lval ls mod 2 ^ (64 * t)"
      unfolding v using low by simp_all
    then show "lval (take t ls) = 0 \<and> unat (ls ! t) = 2 ^ (63 - lz)" unfolding a e(2) power_add by simp
  qed (simp add: v e(2) power_add)
  then show "(count_ones (ls ! t) = 1 \<and> list_all (\<lambda>x. x = 0) (take t ls)) \<longleftrightarrow> lval ls = 2 ^ (len - 1)"
    using w(4) [OF nz] by (auto simp: lval_zero_iff)
qed

lemma literal_int:
  assumes "width_ok w" "literal_fits (LInt ls neg) w ws = Some fits"
  shows "case literal (LInt ls neg) w ws of None \<Rightarrow> \<not> fits
    | Some v \<Rightarrow> fits \<and> okw w v \<and> int (bv_val v) = lit_number (LInt ls neg) w ws mod 2 ^ w"
proof -
  define m where "m = wrapping_from_limbs w ls"
  note c = wrapping_from_limbs_correct [OF assms(1), of ls, folded m_def]
  have om: "okw w m" and w0: "0 < w" using c assms(1) by (simp_all add: okw_def width_ok_def)
  have inv: "bv_is_zero m \<longleftrightarrow> bv_val m = 0" "bv_msb m = bit (bv_val m) (w - 1)"
    using bv_inspect(3,2) [OF okwD(1) [OF om]] okwD(2) [OF om] by simp_all
  have smin: "m = bv_smin w \<longleftrightarrow> bv_val m = 2 ^ (w - 1)"
    using okw_eqI [OF om okw_const(4) [OF assms(1)]] bv_smin_correct(2) [OF assms(1)] by auto
  have neg: "okw w (un_unchecked UNeg m)" "bv_val (un_unchecked UNeg m) = (2 ^ w - bv_val m) mod 2 ^ w"
    using okw_un [OF om, of UNeg] by (simp_all add: sem_un_def)
  have ineg: "int ((2 ^ w - k) mod 2 ^ w) = - int k mod 2 ^ w" if "k < 2 ^ w" for k
    using that by (simp add: zmod_int of_nat_diff)
  show ?thesis
  proof (cases "top_limb ls")
    case None
    have z: "lval ls = 0" by (rule lval_all_zero [OF find_top(2) [OF None]])
    then show ?thesis
      using assms(2) None om c inv neg ineg [of 0]
      by (simp add: from_limbs_correct [OF assms(1)] ok_of_def flip: m_def)
  next
    case (Some t)
    define len where "len = 64 * t + 64 - leading_zeros (ls ! t)"
    note l = int_fits_length [OF Some, folded len_def]
    have le: "lval ls < 2 ^ k \<longleftrightarrow> len \<le> k" for k
    proof
      assume "lval ls < 2 ^ k"
      then have "(2::nat) ^ (len - 1) < 2 ^ k" using l(2) by linarith
      then have "len - 1 < k" by (rule power_less_imp_less_exp [rotated]) simp
      then show "len \<le> k" using l(1) by linarith
    next
      assume "len \<le> k"
      then have "(2::nat) ^ len \<le> 2 ^ k" by simp
      then show "lval ls < 2 ^ k" using l(3) by linarith
    qed
    have nz: "lval ls \<noteq> 0" using l(2) by (metis not_less zero_less_numeral zero_less_power)
    have fits: "fits \<longleftrightarrow> (if neg then len < w \<or> (len = w \<and> lval ls = 2 ^ (len - 1)) else len \<le> w)"
      using assms(2) Some l(4) by (auto simp: len_def Let_def)
    show ?thesis
    proof (cases "lval ls < 2 ^ w")
      case False
      then have "\<not> len \<le> w" using le by blast
      then show ?thesis using False by (auto simp: from_limbs_correct [OF assms(1)] ok_of_def fits)
    next
      case True
      have mv: "bv_val m = lval ls" using True c(3) by simp
      have lw: "len \<le> w" using True le by blast
      have top: "bit (lval ls) (w - 1) \<longleftrightarrow> len = w"
      proof -
        have "lval ls < 2 ^ (w - 1) * 2" using True w0 by (metis Suc_pred' mult.commute power_Suc)
        then have "bit (lval ls) (w - 1) \<longleftrightarrow> \<not> lval ls < 2 ^ (w - 1)"
          using div_nat_eqI [of "2 ^ (w - 1)" 1 "lval ls"] by (cases "lval ls < 2 ^ (w - 1)") (auto simp: bit_iff_odd)
        also have "\<dots> \<longleftrightarrow> len = w" unfolding le using lw w0 by linarith
        finally show ?thesis .
      qed
      show ?thesis
        using True lw om mv nz inv smin neg ineg [OF True] top w0
        by (auto simp: from_limbs_correct [OF assms(1)] ok_of_def fits simp flip: m_def)
    qed
  qed
qed

lemma unat_wide: "unat (ucast (x :: u64) :: u128) = unat x"
proof -
  have "unat x < 2 ^ 64" using unsigned_less [of x] by simp
  then show ?thesis by (simp add: unsigned_ucast_eq take_bit_nat_eq_self)
qed

lemma unat_u64: "0 \<le> k \<Longrightarrow> k < 2 ^ 64 \<Longrightarrow> unat (word_of_int k :: u64) = nat k"
  by (simp add: unsigned_of_int take_bit_int_eq_self)

lemma int_mod_eq: "0 \<le> (x::int) \<Longrightarrow> x < 2 ^ w \<Longrightarrow> x mod 2 ^ w = x" by simp

text \<open>
  A literal has a value exactly where \<open>literal_fits\<close> says so, its number reduced to the width.
\<close>

lemma literal_meaning:
  assumes "width_ok w" "lit_ok l" "literal_fits l w ws = Some fits"
  shows "case literal l w ws of None \<Rightarrow> \<not> fits
    | Some v \<Rightarrow> fits \<and> okw w v \<and> int (bv_val v) = lit_number l w ws mod 2 ^ w"
proof -
  have w0: "0 < w" using assms(1) by (simp add: width_ok_def)
  note ok = okw_const [OF assms(1)]
  have half: "(2::int) ^ w = 2 * 2 ^ (w - 1)" using w0 by (cases w) (simp_all add: One_nat_def)
  show ?thesis
  proof (cases l)
    case (LInt ls neg)
    show ?thesis unfolding LInt by (rule literal_int [OF assms(1) assms(3) [unfolded LInt]])
  next
    case LOnes
    then show ?thesis using assms(3) ok bv_const(6) [OF assms(1)]
      by (simp add: of_nat_diff zmod_minus1)
  next
    case LSMin
    have "- (2 ^ (w - 1)) mod 2 ^ w = (2 ^ (w - 1) :: int)"
      using zmod_zminus1_eq_if [of "2 ^ (w - 1)" "2 ^ w :: int"] half by simp
    then show ?thesis using LSMin assms(3) ok(4) bv_smin_correct(2) [OF assms(1)] by simp
  next
    case LSMax
    have "(2 ^ (w - 1) - 1 :: int) mod 2 ^ w = 2 ^ (w - 1) - 1" using half by (intro int_mod_eq) (use one_le_power [of "2 :: int" "w - 1"] in linarith)+
    then show ?thesis using LSMax assms(3) ok(5) bv_smax_correct(2) [OF assms(1)] by (simp add: of_nat_diff)
  next
    case (LLowMask e)
    then obtain k where k: "wexpr_eval e ws = Some k" "fits \<longleftrightarrow> 0 \<le> k \<and> k \<le> int w"
      using assms(3) by (auto simp: bind_eq_Some_conv)
    have "bv_val (low_mask w (nat k)) = 2 ^ nat k - 1" if fits
    proof -
      have "nat k \<le> w" using that k(2) by linarith
      then have "bv_val (low_mask w (nat k)) = mask (nat k)"
        by (intro bit_eqI) (auto simp: okw_masks(2) [OF assms(1)] bit_mask_iff)
      then show ?thesis by (simp only: mask_eq_exp_minus_1)
    qed
    moreover have "(2 ^ nat k - 1 :: int) mod 2 ^ w = 2 ^ nat k - 1" if fits
    proof (rule int_mod_eq)
      have "(2::int) ^ nat k \<le> 2 ^ w" using that k(2) by (intro power_increasing) auto
      then show "(2 ^ nat k - 1 :: int) < 2 ^ w" by linarith
    qed simp
    ultimately show ?thesis using LLowMask k okw_masks(1) [OF assms(1), of "nat k"] by (auto simp: of_nat_diff)
  next
    case (LBit e)
    then obtain k where k: "wexpr_eval e ws = Some k" "fits \<longleftrightarrow> 0 \<le> k \<and> k < int w"
      using assms(3) by (auto simp: bind_eq_Some_conv)
    define c where "c = wrapping_from_u64 w (word_of_int k)"
    have "okw w c" and cv: "bv_val c = nat k" if fits
    proof -
      have "w \<le> 512" using assms(1) by (simp add: width_ok_def)
      then have "nat k < w" and kk: "k < 512" "0 \<le> k" using that k(2) by auto
      then have nk: "nat k < 2 ^ w" using less_exp [of w] by linarith
      have u: "unat (word_of_int k :: u64) = nat k" using kk by (simp add: unat_u64)
      show "okw w c" "bv_val c = nat k"
        using from_u128_masked_correct [OF assms(1), of "ucast (word_of_int k :: u64)"] nk
        by (simp_all add: c_def wrapping_from_u64_def okw_def unat_wide u nat_less_iff)
    qed
    then have v: "okw w (bin_unchecked BShl (bv_one w) c)" "bv_val (bin_unchecked BShl (bv_one w) c) = 2 ^ nat k" if fits
      using that k(2) okw_bin [OF ok(2), of c BShl] bv_const(4) [OF assms(1)] by (auto simp: sem_bin_def)
    have "(2 ^ nat k :: int) mod 2 ^ w = 2 ^ nat k" if fits
      using that k(2) by (intro int_mod_eq) auto
    then show ?thesis using LBit k v by (auto simp: Let_def simp flip: c_def)
  next
    case (LWidth e)
    then obtain v where v: "wexpr_eval e ws = Some v" "fits \<longleftrightarrow> 0 \<le> v \<and> (63 \<le> w \<or> v < 2 ^ w)"
      using assms(3) by (auto simp: bind_eq_Some_conv)
    have fit: "i64_fits v" using wexpr_eval_fits [OF v(1)] assms(2) LWidth by (simp add: lit_ok_def)
    have big: "v < 2 ^ w" if "63 \<le> w"
    proof -
      have "(2::int) ^ 63 \<le> 2 ^ w" using that by (intro power_increasing) auto
      then show ?thesis using fit by (simp add: i64_fits_def)
    qed
    have u: "unat (word_of_int v :: u64) = nat v" if "0 \<le> v" using fit that by (simp add: i64_fits_def unat_u64)
    show ?thesis
    proof (cases "0 \<le> v")
      case True
      have "from_u64 w (word_of_int v) = (if nat v < 2 ^ w then Inr (from_u128_masked w (ucast (word_of_int v :: u64))) else Inl (VDoesNotFit w))"
        using from_u128_correct [OF assms(1), of "ucast (word_of_int v :: u64)"] by (simp add: from_u64_def unat_wide u [OF True])
      moreover have "nat v < 2 ^ w \<longleftrightarrow> v < 2 ^ w" using True by (simp add: nat_less_iff)
      ultimately show ?thesis
        using LWidth True v big from_u128_masked_correct [OF assms(1), of "ucast (word_of_int v :: u64)"]
        by (auto simp: ok_of_def okw_def unat_wide u [OF True])
    qed (use LWidth v in auto)
  qed
qed

section \<open>Well-sorted terms\<close>

text \<open>
  What the compiler guarantees of a term at an assignment of the width variables: the operands of a
  node come before it in the arena, and their sorts are those the node takes, the sort it is
  recorded with the one it gives. \<open>pw\<close> and \<open>lw\<close> are the widths of the parameters and of the lets
  in scope; the sort is \<open>None\<close> for a condition.
\<close>

inductive well_sorted :: "Rule \<Rightarrow> nat list \<Rightarrow> nat list \<Rightarrow> nat list \<Rightarrow> NodeId \<Rightarrow> nat option \<Rightarrow> bool"
  for rule ws pw lw where
  ws_param: "at (r_nodes rule) n = Some (RParam i) \<Longrightarrow> i < length pw \<Longrightarrow> width_of rule n ws = Some (Some (pw ! i)) \<Longrightarrow>
    well_sorted rule ws pw lw n (Some (pw ! i))"
| ws_let: "at (r_nodes rule) n = Some (RLet i) \<Longrightarrow> i < length lw \<Longrightarrow> width_of rule n ws = Some (Some (lw ! i)) \<Longrightarrow>
    well_sorted rule ws pw lw n (Some (lw ! i))"
| ws_lit: "at (r_nodes rule) n = Some (RLit l) \<Longrightarrow> lit_ok l \<Longrightarrow> width_of rule n ws = Some (Some w) \<Longrightarrow>
    well_sorted rule ws pw lw n (Some w)"
| ws_un: "at (r_nodes rule) n = Some (RUn op a) \<Longrightarrow> a < n \<Longrightarrow> well_sorted rule ws pw lw a (Some w) \<Longrightarrow>
    width_of rule n ws = Some (Some w) \<Longrightarrow> well_sorted rule ws pw lw n (Some w)"
| ws_bin: "at (r_nodes rule) n = Some (RBin op a b) \<Longrightarrow> a < n \<Longrightarrow> b < n \<Longrightarrow> well_sorted rule ws pw lw a (Some w) \<Longrightarrow>
    well_sorted rule ws pw lw b (Some w) \<Longrightarrow> width_of rule n ws = Some (Some w) \<Longrightarrow> well_sorted rule ws pw lw n (Some w)"
| ws_cmp: "at (r_nodes rule) n = Some (RCmp op a b) \<Longrightarrow> a < n \<Longrightarrow> b < n \<Longrightarrow> well_sorted rule ws pw lw a (Some w) \<Longrightarrow>
    well_sorted rule ws pw lw b (Some w) \<Longrightarrow> width_of rule n ws = Some (Some 1) \<Longrightarrow> well_sorted rule ws pw lw n (Some 1)"
| ws_zext: "at (r_nodes rule) n = Some (RZext a) \<Longrightarrow> a < n \<Longrightarrow> well_sorted rule ws pw lw a (Some v) \<Longrightarrow>
    width_of rule n ws = Some (Some w) \<Longrightarrow> well_sorted rule ws pw lw n (Some w)"
| ws_sext: "at (r_nodes rule) n = Some (RSext a) \<Longrightarrow> a < n \<Longrightarrow> well_sorted rule ws pw lw a (Some v) \<Longrightarrow>
    width_of rule n ws = Some (Some w) \<Longrightarrow> well_sorted rule ws pw lw n (Some w)"
| ws_extract: "at (r_nodes rule) n = Some (RExtract lo a) \<Longrightarrow> a < n \<Longrightarrow> well_sorted rule ws pw lw a (Some v) \<Longrightarrow>
    width_of rule n ws = Some (Some w) \<Longrightarrow> well_sorted rule ws pw lw n (Some w)"
| ws_concat: "at (r_nodes rule) n = Some (RConcat a b) \<Longrightarrow> a < n \<Longrightarrow> b < n \<Longrightarrow> well_sorted rule ws pw lw a (Some v) \<Longrightarrow>
    well_sorted rule ws pw lw b (Some w) \<Longrightarrow> width_of rule n ws = Some (Some (v + w)) \<Longrightarrow> well_sorted rule ws pw lw n (Some (v + w))"
| ws_select: "at (r_nodes rule) n = Some (RSelect c a b) \<Longrightarrow> c < n \<Longrightarrow> a < n \<Longrightarrow> b < n \<Longrightarrow> well_sorted rule ws pw lw c (Some 1) \<Longrightarrow>
    well_sorted rule ws pw lw a (Some w) \<Longrightarrow> well_sorted rule ws pw lw b (Some w) \<Longrightarrow> width_of rule n ws = Some (Some w) \<Longrightarrow>
    well_sorted rule ws pw lw n (Some w)"
| ws_and: "at (r_nodes rule) n = Some (RAnd a b) \<Longrightarrow> at (r_sorts rule) n = Some SortBool \<Longrightarrow> a < n \<Longrightarrow> b < n \<Longrightarrow>
    well_sorted rule ws pw lw a s \<Longrightarrow> well_sorted rule ws pw lw b t \<Longrightarrow> well_sorted rule ws pw lw n None"
| ws_or: "at (r_nodes rule) n = Some (ROr a b) \<Longrightarrow> at (r_sorts rule) n = Some SortBool \<Longrightarrow> a < n \<Longrightarrow> b < n \<Longrightarrow>
    well_sorted rule ws pw lw a s \<Longrightarrow> well_sorted rule ws pw lw b t \<Longrightarrow> well_sorted rule ws pw lw n None"
| ws_not: "at (r_nodes rule) n = Some (RNot a) \<Longrightarrow> at (r_sorts rule) n = Some SortBool \<Longrightarrow> a < n \<Longrightarrow>
    well_sorted rule ws pw lw a s \<Longrightarrow> well_sorted rule ws pw lw n None"
| ws_proves: "at (r_nodes rule) n = Some (RFact p a None) \<Longrightarrow> p = Proves \<or> p = OneUse \<Longrightarrow> at (r_sorts rule) n = Some SortBool \<Longrightarrow>
    a < n \<Longrightarrow> well_sorted rule ws pw lw a s \<Longrightarrow> well_sorted rule ws pw lw n None"
| ws_nonzero: "at (r_nodes rule) n = Some (RFact NonZero a None) \<Longrightarrow> at (r_sorts rule) n = Some SortBool \<Longrightarrow> a < n \<Longrightarrow>
    well_sorted rule ws pw lw a (Some w) \<Longrightarrow> well_sorted rule ws pw lw n None"
| ws_fact: "at (r_nodes rule) n = Some (RFact p a (Some m)) \<Longrightarrow> p \<notin> {Proves, OneUse, NonZero} \<Longrightarrow>
    at (r_sorts rule) n = Some SortBool \<Longrightarrow> a < n \<Longrightarrow> m < n \<Longrightarrow> well_sorted rule ws pw lw a (Some w) \<Longrightarrow>
    well_sorted rule ws pw lw m (Some w) \<Longrightarrow> well_sorted rule ws pw lw n None"
| ws_const: "at (r_nodes rule) n = Some (RConstP p a) \<Longrightarrow> at (r_sorts rule) n = Some SortBool \<Longrightarrow> a < n \<Longrightarrow>
    well_sorted rule ws pw lw a (Some w) \<Longrightarrow> well_sorted rule ws pw lw n None"

lemma width_of_ok:
  assumes "width_of rule n ws = Some (Some w)"
  shows "width_ok w"
proof -
  from assms obtain s where s: "at (r_sorts rule) n = Some s" by (auto simp: width_of_def bind_eq_Some_conv)
  then obtain e v where "wexpr_eval e ws = Some v" "(if 0 \<le> v \<and> v < 2 ^ 16 then ok_of (Width_new (nat v)) else None) = Some w"
    using assms by (cases s) (auto simp: width_of_def bind_eq_Some_conv)
  then show ?thesis
    by (auto simp: ok_of_def Width_new_def width_ok_def MAX_BITS_def split: if_splits)
qed

lemma well_sorted_width: "well_sorted rule ws pw lw n s \<Longrightarrow> s = Some w \<Longrightarrow> width_of rule n ws = Some (Some w)"
  by (induction rule: well_sorted.induct) auto

lemma well_sorted_in: "well_sorted rule ws pw lw n s \<Longrightarrow> n < length (r_nodes rule)"
  by (induction rule: well_sorted.induct) (auto simp: at_def split: if_splits)

text \<open>The nodes under a node.\<close>

inductive under :: "Rule \<Rightarrow> NodeId \<Rightarrow> NodeId \<Rightarrow> bool" for rule where
  under_refl: "under rule n n"
| under_step: "at (r_nodes rule) n = Some node \<Longrightarrow> c \<in> set (children node) \<Longrightarrow> under rule c m \<Longrightarrow> under rule n m"

lemma wf_loop_checks:
  assumes "wf_loop rule ws stack strict = Some r" "r = Inr ()" "n \<in> set stack" "under rule n m"
  shows "node_check rule ws strict m = Some True"
proof -
  have "r = Inr () \<longrightarrow> (\<forall>n m. n \<in> set stack \<longrightarrow> under rule n m \<longrightarrow> node_check rule ws strict m = Some True)"
    if "wf_loop rule ws stack strict = Some r" for rule ws stack strict r
  proof (rule wf_loop.raw_induct [OF _ that], goal_cases)
    case 1: (1 loop rule ws stack strict r)
    show ?case
    proof (cases stack)
      case (Cons k rest)
      show ?thesis
      proof (intro impI allI)
        fix n m
        assume r: "r = Inr ()" and n: "n \<in> set stack" and u: "under rule n m"
        from 1(2) r Cons obtain node where c: "node_check rule ws strict k = Some True" "at (r_nodes rule) k = Some node"
          and l: "loop rule ws (rev (children node) @ rest) strict = Some r"
          by (auto simp: bind_eq_Some_conv split: if_splits)
        note IH = 1(1) [OF l, rule_format, OF r]
        show "node_check rule ws strict m = Some True"
        proof (cases "n = k")
          case True
          from u [unfolded True] show ?thesis
          proof cases
            case under_refl
            then show ?thesis using c by simp
          next
            case (under_step node' d)
            then show ?thesis using IH [of d m] c by simp
          qed
        next
          case False
          then show ?thesis using IH [of n m] n u Cons by simp
        qed
      qed
    qed simp
  qed
  then show ?thesis using assms by blast
qed

lemma well_formed_checks:
  "well_formed rule root ws strict = Some (Inr ()) \<Longrightarrow> under rule root m \<Longrightarrow> node_check rule ws strict m = Some True"
  unfolding well_formed_def by (rule wf_loop_checks) auto

section \<open>Evaluation\<close>

fun val_ok :: "nat option \<Rightarrow> Val \<Rightarrow> bool" where
  "val_ok (Some w) (VBv v) = okw w v"
| "val_ok None (VBool b) = True"
| "val_ok _ _ = False"

lemma val_ok_Some: "val_ok (Some w) v \<longleftrightarrow> (\<exists>x. v = VBv x \<and> okw w x)"
  by (cases v) auto

lemma val_ok_None: "val_ok None v \<longleftrightarrow> (\<exists>b. v = VBool b)"
  by (cases v) auto

text \<open>The operators on values of known widths.\<close>

lemma okw_apply_un:
  assumes "okw w x" "op = UBswap \<Longrightarrow> w mod 8 = 0"
  shows "\<exists>v. ok_of (apply_un op x) = Some v \<and> okw w v \<and> bv_val v = sem_un op w (bv_val x)"
  using apply_un_correct [OF okwD(1) [OF assms(1)], of op] okwD(2) [OF assms(1)] assms(2)
  by (auto simp: ok_of_def okw_def split: sum.splits)

lemma okw_apply_bin:
  assumes "okw w x" "okw w y"
  shows "\<exists>v. ok_of (apply_bin op x y) = Some v \<and> okw w v \<and> bv_val v = sem_bin op w (bv_val x) (bv_val y)"
  using apply_bin_correct [OF okwD(1) [OF assms(1)] okwD(1) [OF assms(2)], of op] okwD(2) [OF assms(1)] okwD(2) [OF assms(2)]
  by (auto simp: ok_of_def okw_def split: sum.splits)

lemma okw_apply_cmp:
  assumes "okw w x" "okw w y"
  shows "ok_of (apply_cmp op x y) = Some (sem_cmp_ext op w (bv_val x) (bv_val y))"
  using apply_cmp_correct [OF okwD(1) [OF assms(1)] okwD(1) [OF assms(2)], of op] okwD(2) [OF assms(1)] okwD(2) [OF assms(2)]
  by (simp add: ok_of_def)

lemma okw_from_bool: "okw 1 (from_bool b)"
  using from_bool_correct by (simp add: okw_def)

lemma okw_ext:
  assumes "okw v x" "width_ok w" "v \<le> w"
  shows "\<exists>y. ok_of (bv_zext x w) = Some y \<and> okw w y \<and> bv_val y = bv_val x"
    "\<exists>y. ok_of (bv_sext x w) = Some y \<and> okw w y \<and> bv_val y = sem_sext v w (bv_val x)"
  using bv_zext_correct [OF okwD(1) [OF assms(1)] assms(2)] bv_sext_correct [OF okwD(1) [OF assms(1)] assms(2)]
    okwD(2) [OF assms(1)] assms(3)
  by (auto simp: ok_of_def okw_def sem_zext_def split: sum.splits)

lemma okw_extract:
  assumes "okw v x" "width_ok w" "lo + w \<le> v"
  shows "\<exists>y. ok_of (bv_extract x lo w) = Some y \<and> okw w y \<and> bv_val y = sem_extract lo w (bv_val x)"
  using bv_extract_correct [OF okwD(1) [OF assms(1)] assms(2), of lo] okwD(2) [OF assms(1)] assms(3)
  by (auto simp: ok_of_def okw_def split: sum.splits)

lemma okw_concat:
  assumes "okw v x" "okw w y" "width_ok (v + w)"
  shows "\<exists>z. ok_of (bv_concat x y) = Some z \<and> okw (v + w) z \<and> bv_val z = sem_concat w (bv_val x) (bv_val y)"
  using bv_concat_correct [OF okwD(1) [OF assms(1)] okwD(1) [OF assms(2)]] okwD(2) [OF assms(1)] okwD(2) [OF assms(2)] assms(3)
  by (auto simp: ok_of_def okw_def width_ok_def split: sum.splits)

lemma okw_select:
  assumes "okw 1 c" "okw w x" "okw w y"
  shows "ok_of (bv_select c x y) = Some (if bv_val c = 1 then x else y)"
  using bv_select_correct [OF okwD(1) [OF assms(1)], of x y] okwD(2) [OF assms(1)] okwD(2) [OF assms(2)] okwD(2) [OF assms(3)]
  by (simp add: ok_of_def)

text \<open>What the check of a node says about it.\<close>

lemma node_checkD:
  assumes "node_check rule ws strict n = Some True" "at (r_nodes rule) n = Some node" "width_of rule n ws = Some (Some w)"
  shows "node = RLit l \<Longrightarrow> literal_fits l w ws = Some True"
    "node = RUn UBswap a \<Longrightarrow> w mod 8 = 0"
    "node = RZext a \<Longrightarrow> width_of rule a ws = Some (Some v) \<Longrightarrow> v \<le> w"
    "node = RSext a \<Longrightarrow> width_of rule a ws = Some (Some v) \<Longrightarrow> v \<le> w"
    "node = RExtract lo a \<Longrightarrow> width_of rule a ws = Some (Some v) \<Longrightarrow>
      \<exists>k. wexpr_eval lo ws = Some k \<and> 0 \<le> k \<and> k + int w \<le> int v"
proof -
  from assms obtain s where s: "at (r_sorts rule) n = Some s" by (auto simp: node_check_def bind_eq_Some_conv)
  note e = assms(1) [unfolded node_check_def assms(2,3) s Option.bind.bind_lunit option.simps]
  show "node = RLit l \<Longrightarrow> literal_fits l w ws = Some True" using e by simp
  show "node = RUn UBswap a \<Longrightarrow> w mod 8 = 0" using e by simp
  show "node = RZext a \<Longrightarrow> width_of rule a ws = Some (Some v) \<Longrightarrow> v \<le> w" using e by simp
  show "node = RSext a \<Longrightarrow> width_of rule a ws = Some (Some v) \<Longrightarrow> v \<le> w" using e by simp
  show "node = RExtract lo a \<Longrightarrow> width_of rule a ws = Some (Some v) \<Longrightarrow>
      \<exists>k. wexpr_eval lo ws = Some k \<and> 0 \<le> k \<and> k + int w \<le> int v"
    using e by (cases "wexpr_eval lo ws") auto
qed

lemma the_width: "width_of rule n ws = Some (Some w) \<Longrightarrow> the_width rule n ws = Some w"
  by (simp add: the_width_def)

lemma kids_checked:
  assumes "\<forall>m. under rule n m \<longrightarrow> P m" "at (r_nodes rule) n = Some node" "c \<in> set (children node)"
  shows "\<forall>m. under rule c m \<longrightarrow> P m"
  using assms by (blast intro: under_step)

text \<open>The bound on the depth of the recursion does not matter.\<close>

lemma eval_within_cong:
  assumes "at (r_nodes rule) n = Some node" "\<And>c. c \<in> set (children node) \<Longrightarrow> eval_within d rule ws ps ls c = eval_within d' rule ws ps ls c"
  shows "eval_within (Suc d) rule ws ps ls n = eval_within (Suc d') rule ws ps ls n"
proof (cases "\<exists>p x m. node = RFact p x (Some m)")
  case True
  then show ?thesis using assms(2) unfolding eval_within.simps assms(1) Let_def Option.bind.bind_lunit by (auto cong: if_cong)
next
  case False
  then show ?thesis using assms(2) unfolding eval_within.simps assms(1) Let_def Option.bind.bind_lunit
    by (cases node) (auto split: option.splits cong: if_cong)
qed

lemma well_sorted_kids:
  assumes "well_sorted rule ws pw lw n s"
  shows "\<exists>node. at (r_nodes rule) n = Some node \<and> (\<forall>c\<in>set (children node). c < n \<and> (\<exists>t. well_sorted rule ws pw lw c t))"
  using assms by cases auto

lemma eval_depth:
  assumes "well_sorted rule ws pw lw n s" "n < d" "n < d'"
  shows "eval_within d rule ws ps ls n = eval_within d' rule ws ps ls n"
  using assms
proof (induction n arbitrary: s d d' rule: less_induct)
  case (less n)
  from well_sorted_kids [OF less.prems(1)] obtain node where node: "at (r_nodes rule) n = Some node"
    and kids: "\<And>c. c \<in> set (children node) \<Longrightarrow> c < n \<and> (\<exists>t. well_sorted rule ws pw lw c t)" by blast
  from less.prems(2,3) obtain e e' where d: "d = Suc e" "d' = Suc e'" "n \<le> e" "n \<le> e'"
    by (metis Suc_le_D Suc_le_eq Suc_le_mono)
  show ?case unfolding d(1,2)
  proof (rule eval_within_cong [OF node])
    fix c assume "c \<in> set (children node)"
    from kids [OF this] obtain t where "c < n" "well_sorted rule ws pw lw c t" by blast
    then show "eval_within e rule ws ps ls c = eval_within e' rule ws ps ls c"
      using less.IH [of c t e e'] d(3,4) by simp
  qed
qed

lemma rule_eval_unfold:
  assumes "well_sorted rule ws pw lw n s"
  shows "rule_eval rule ws ps ls n = eval_within (Suc (length (r_nodes rule))) rule ws ps ls n"
  unfolding rule_eval_def by (rule eval_depth [OF assms]) (use well_sorted_in [OF assms] in simp_all)

lemma well_sorted_evaluates:
  assumes "well_sorted rule ws pw lw n s" "\<forall>m. under rule n m \<longrightarrow> node_check rule ws strict m = Some True"
    "list_all2 okw pw ps" "list_all2 (\<lambda>w v. \<exists>x. v = Some x \<and> okw w x) lw ls"
  shows "\<exists>v. rule_eval rule ws ps ls n = Some v \<and> val_ok s v"
proof -
  have unfold: "rule_eval rule ws ps ls n = eval_within (Suc (length (r_nodes rule))) rule ws ps ls n"
    if "well_sorted rule ws pw lw n s" for n s by (rule rule_eval_unfold [OF that])
  note simps = eval_within.simps(2) Let_def Option.bind.bind_lunit RNode.case rule_eval_def [symmetric]
  note kid = kids_checked [where P = "\<lambda>m. node_check rule ws strict m = Some True"]
  show ?thesis using assms(1,2)
proof (induction rule: well_sorted.induct)
  case (ws_param n i)
  have "i < length ps" "okw (pw ! i) (ps ! i)" using assms(3) ws_param(2) by (auto simp: list_all2_conv_all_nth)
  then show ?case unfolding unfold [OF well_sorted.ws_param [OF ws_param(1-3)]] simps ws_param(1) by (simp add: at_def)
next
  case (ws_let n i)
  have "i < length ls" "\<exists>x. ls ! i = Some x \<and> okw (lw ! i) x" using assms(4) ws_let(2) by (auto simp: list_all2_conv_all_nth)
  then show ?case unfolding unfold [OF well_sorted.ws_let [OF ws_let(1-3)]] simps ws_let(1) by (auto simp: at_def)
next
  case (ws_lit n l w)
  have c: "node_check rule ws strict n = Some True" using ws_lit(4) under_refl by blast
  have w: "width_ok w" by (rule width_of_ok [OF ws_lit(3)])
  from literal_meaning [OF w ws_lit(2) node_checkD(1) [OF c ws_lit(1,3) refl]]
  obtain v where "literal l w ws = Some v" "okw w v" by (auto split: option.splits)
  then show ?case unfolding unfold [OF well_sorted.ws_lit [OF ws_lit(1-3)]] simps ws_lit(1) the_width [OF ws_lit(3)] by simp
next
  case (ws_un n op a w)
  note u = unfold [OF well_sorted.ws_un [OF ws_un.hyps]] and node = ws_un.hyps(1)
  have c: "node_check rule ws strict n = Some True" using ws_un.prems under_refl by blast
  from ws_un.IH [OF kid [OF ws_un.prems node]] obtain x where x: "rule_eval rule ws ps ls a = Some (VBv x)" "okw w x"
    by (auto simp: val_ok_Some)
  from node_checkD(2) [OF c node ws_un.hyps(4)] okw_apply_un [OF x(2), of op] obtain v where
    "ok_of (apply_un op x) = Some v" "okw w v" by blast
  then show ?case unfolding u simps node by (simp add: x(1))
next
  case (ws_bin n op a b w)
  note u = unfold [OF well_sorted.ws_bin [OF ws_bin.hyps]] and node = ws_bin.hyps(1)
  from ws_bin.IH(1) [OF kid [OF ws_bin.prems node]] obtain x where x: "rule_eval rule ws ps ls a = Some (VBv x)" "okw w x"
    by (auto simp: val_ok_Some)
  from ws_bin.IH(2) [OF kid [OF ws_bin.prems node]] obtain y where y: "rule_eval rule ws ps ls b = Some (VBv y)" "okw w y"
    by (auto simp: val_ok_Some)
  from okw_apply_bin [OF x(2) y(2), of op] obtain v where "ok_of (apply_bin op x y) = Some v" "okw w v" by blast
  then show ?case unfolding u simps node by (simp add: x(1) y(1))
next
  case (ws_cmp n op a b w)
  note u = unfold [OF well_sorted.ws_cmp [OF ws_cmp.hyps]] and node = ws_cmp.hyps(1)
  from ws_cmp.IH(1) [OF kid [OF ws_cmp.prems node]] obtain x where x: "rule_eval rule ws ps ls a = Some (VBv x)" "okw w x"
    by (auto simp: val_ok_Some)
  from ws_cmp.IH(2) [OF kid [OF ws_cmp.prems node]] obtain y where y: "rule_eval rule ws ps ls b = Some (VBv y)" "okw w y"
    by (auto simp: val_ok_Some)
  show ?case unfolding u simps node by (simp add: x(1) y(1) okw_apply_cmp [OF x(2) y(2)] okw_from_bool)
next
  case (ws_zext n a v w)
  note u = unfold [OF well_sorted.ws_zext [OF ws_zext.hyps]] and node = ws_zext.hyps(1)
  have c: "node_check rule ws strict n = Some True" using ws_zext.prems under_refl by blast
  from ws_zext.IH [OF kid [OF ws_zext.prems node]] obtain x where x: "rule_eval rule ws ps ls a = Some (VBv x)" "okw v x"
    by (auto simp: val_ok_Some)
  have "v \<le> w" by (rule node_checkD(3) [OF c node ws_zext.hyps(4) refl well_sorted_width [OF ws_zext.hyps(3) refl]])
  from okw_ext(1) [OF x(2) width_of_ok [OF ws_zext.hyps(4)] this] obtain y where "ok_of (bv_zext x w) = Some y" "okw w y" by blast
  then show ?case unfolding u simps node the_width [OF ws_zext.hyps(4)] by (simp add: x(1))
next
  case (ws_sext n a v w)
  note u = unfold [OF well_sorted.ws_sext [OF ws_sext.hyps]] and node = ws_sext.hyps(1)
  have c: "node_check rule ws strict n = Some True" using ws_sext.prems under_refl by blast
  from ws_sext.IH [OF kid [OF ws_sext.prems node]] obtain x where x: "rule_eval rule ws ps ls a = Some (VBv x)" "okw v x"
    by (auto simp: val_ok_Some)
  have "v \<le> w" by (rule node_checkD(4) [OF c node ws_sext.hyps(4) refl well_sorted_width [OF ws_sext.hyps(3) refl]])
  from okw_ext(2) [OF x(2) width_of_ok [OF ws_sext.hyps(4)] this] obtain y where "ok_of (bv_sext x w) = Some y" "okw w y" by blast
  then show ?case unfolding u simps node the_width [OF ws_sext.hyps(4)] by (simp add: x(1))
next
  case (ws_extract n lo a v w)
  note u = unfold [OF well_sorted.ws_extract [OF ws_extract.hyps]] and node = ws_extract.hyps(1)
  have c: "node_check rule ws strict n = Some True" using ws_extract.prems under_refl by blast
  from ws_extract.IH [OF kid [OF ws_extract.prems node]] obtain x where x: "rule_eval rule ws ps ls a = Some (VBv x)" "okw v x"
    by (auto simp: val_ok_Some)
  from node_checkD(5) [OF c node ws_extract.hyps(4) refl well_sorted_width [OF ws_extract.hyps(3) refl]]
  obtain k where k: "wexpr_eval lo ws = Some k" "0 \<le> k" "k + int w \<le> int v" by blast
  have "v \<le> 512" using okwD(3) [OF x(2)] by (simp add: width_ok_def)
  then have lt: "\<not> (k < 0 \<or> k \<ge> 2 ^ 16)" and le: "nat k + w \<le> v" using k(2,3) by auto
  from okw_extract [OF x(2) width_of_ok [OF ws_extract.hyps(4)] le] obtain y where
    "ok_of (bv_extract x (nat k) w) = Some y" "okw w y" by blast
  then show ?case unfolding u simps node the_width [OF ws_extract.hyps(4)] k(1) if_not_P [OF lt] by (simp add: x(1))
next
  case (ws_concat n a b v w)
  note u = unfold [OF well_sorted.ws_concat [OF ws_concat.hyps]] and node = ws_concat.hyps(1)
  from ws_concat.IH(1) [OF kid [OF ws_concat.prems node]] obtain x where x: "rule_eval rule ws ps ls a = Some (VBv x)" "okw v x"
    by (auto simp: val_ok_Some)
  from ws_concat.IH(2) [OF kid [OF ws_concat.prems node]] obtain y where y: "rule_eval rule ws ps ls b = Some (VBv y)" "okw w y"
    by (auto simp: val_ok_Some)
  from okw_concat [OF x(2) y(2) width_of_ok [OF ws_concat.hyps(6)]] obtain z where
    "ok_of (bv_concat x y) = Some z" "okw (v + w) z" by blast
  then show ?case unfolding u simps node by (simp add: x(1) y(1))
next
  case (ws_select n c a b w)
  note u = unfold [OF well_sorted.ws_select [OF ws_select.hyps]] and node = ws_select.hyps(1)
  from ws_select.IH(1) [OF kid [OF ws_select.prems node]] obtain z where z: "rule_eval rule ws ps ls c = Some (VBv z)" "okw 1 z"
    by (auto simp: val_ok_Some)
  from ws_select.IH(2) [OF kid [OF ws_select.prems node]] obtain x where x: "rule_eval rule ws ps ls a = Some (VBv x)" "okw w x"
    by (auto simp: val_ok_Some)
  from ws_select.IH(3) [OF kid [OF ws_select.prems node]] obtain y where y: "rule_eval rule ws ps ls b = Some (VBv y)" "okw w y"
    by (auto simp: val_ok_Some)
  show ?case unfolding u simps node by (simp add: x y z okw_select [OF z(2) x(2) y(2)])
next
  case (ws_and n a b s t)
  note u = unfold [OF well_sorted.ws_and [OF ws_and.hyps]] and node = ws_and.hyps(1)
  from ws_and.IH(1) [OF kid [OF ws_and.prems node]] obtain x where x: "rule_eval rule ws ps ls a = Some x" by auto
  from ws_and.IH(2) [OF kid [OF ws_and.prems node]] obtain y where y: "rule_eval rule ws ps ls b = Some y" by auto
  show ?case unfolding u simps node by (simp add: x y)
next
  case (ws_or n a b s t)
  note u = unfold [OF well_sorted.ws_or [OF ws_or.hyps]] and node = ws_or.hyps(1)
  from ws_or.IH(1) [OF kid [OF ws_or.prems node]] obtain x where x: "rule_eval rule ws ps ls a = Some x" by auto
  from ws_or.IH(2) [OF kid [OF ws_or.prems node]] obtain y where y: "rule_eval rule ws ps ls b = Some y" by auto
  show ?case unfolding u simps node by (simp add: x y)
next
  case (ws_not n a s)
  note u = unfold [OF well_sorted.ws_not [OF ws_not.hyps]] and node = ws_not.hyps(1)
  from ws_not.IH [OF kid [OF ws_not.prems node]] obtain x where x: "rule_eval rule ws ps ls a = Some x" by auto
  show ?case unfolding u simps node by (simp add: x)
next
  case (ws_proves n p a s)
  note u = unfold [OF well_sorted.ws_proves [OF ws_proves.hyps]] and node = ws_proves.hyps(1)
  from ws_proves.IH [OF kid [OF ws_proves.prems node]] obtain x where x: "rule_eval rule ws ps ls a = Some x" by auto
  show ?case unfolding u simps node using ws_proves.hyps(2) by (auto simp: x)
next
  case (ws_nonzero n a w)
  note u = unfold [OF well_sorted.ws_nonzero [OF ws_nonzero.hyps]] and node = ws_nonzero.hyps(1)
  from ws_nonzero.IH [OF kid [OF ws_nonzero.prems node]] obtain x where x: "rule_eval rule ws ps ls a = Some (VBv x)"
    by (auto simp: val_ok_Some)
  show ?case unfolding u simps node by (simp add: x)
next
  case (ws_fact n p a m w)
  note u = unfold [OF well_sorted.ws_fact [OF ws_fact.hyps]] and node = ws_fact.hyps(1)
  from ws_fact.IH(1) [OF kid [OF ws_fact.prems node]] obtain x where x: "rule_eval rule ws ps ls a = Some (VBv x)" "okw w x"
    by (auto simp: val_ok_Some)
  from ws_fact.IH(2) [OF kid [OF ws_fact.prems node]] obtain y where y: "rule_eval rule ws ps ls m = Some (VBv y)" "okw w y"
    by (auto simp: val_ok_Some)
  show ?case unfolding u simps node using ws_fact.hyps(2) by (auto simp: x(1) y(1))
next
  case (ws_const n p a w)
  note u = unfold [OF well_sorted.ws_const [OF ws_const.hyps]] and node = ws_const.hyps(1)
  from ws_const.IH [OF kid [OF ws_const.prems node]] obtain x where x: "rule_eval rule ws ps ls a = Some (VBv x)"
    by (auto simp: val_ok_Some)
  show ?case unfolding u simps node by (simp add: x)
qed
qed

section \<open>Admitted rules\<close>

definition term_checked :: "Rule \<Rightarrow> nat list \<Rightarrow> NodeId \<Rightarrow> bool" where
  "term_checked rule ws root \<longleftrightarrow> (\<exists>strict. \<forall>m. under rule root m \<longrightarrow> node_check rule ws strict m = Some True)"

lemma all_well_formed_checks:
  "all_well_formed rule ws ps = Some True \<Longrightarrow> p \<in> set ps \<Longrightarrow> term_checked rule ws p"
proof (induction ps)
  case (Cons q ps)
  from Cons.prems(1) have "well_formed rule q ws False = Some (Inr ())" "all_well_formed rule ws ps = Some True"
    by (auto simp: bind_eq_Some_conv split: if_splits)
  then show ?case using Cons well_formed_checks unfolding term_checked_def by (metis set_ConsD)
qed simp

text \<open>The terms of a rule: the sides, the guard and the lets.\<close>

definition rule_terms :: "Rule \<Rightarrow> NodeId set" where
  "rule_terms rule = {r_lhs rule, r_rhs rule} \<union> set_option (r_guard rule) \<union> set (r_lets rule)"

lemma admitted_checks:
  assumes "admitted rule ws = Some True" "widths_validated rule" "t \<in> rule_terms rule"
  shows "term_checked rule ws t"
proof -
  from assms(1) have "admits_anew rule ws = Some True" by (simp add: admitted_anew [OF assms(2)])
  then have l: "well_formed rule (r_lhs rule) ws True = Some (Inr ())"
    and o: "all_well_formed rule ws (rule_parts rule) = Some True"
    by (auto simp: admits_anew_def Let_def bind_eq_Some_conv split: if_splits)
  show ?thesis
  proof (cases "t = r_lhs rule")
    case True
    then show ?thesis using well_formed_checks [OF l] unfolding term_checked_def by blast
  next
    case False
    then show ?thesis using all_well_formed_checks [OF o, of t] assms(3) by (auto simp: rule_terms_def rule_parts_def split: option.splits)
  qed
qed

text \<open>
  A rule whose terms are well sorted at an assignment: \<open>pw\<close> are the widths of its parameters, \<open>lw\<close>
  those of its lets, each in the scope of the lets before it, and \<open>w\<close> the width of its sides.
\<close>

definition rule_sorted :: "Rule \<Rightarrow> nat list \<Rightarrow> nat list \<Rightarrow> nat list \<Rightarrow> nat \<Rightarrow> bool" where
  "rule_sorted rule ws pw lw w \<longleftrightarrow>
     list_all2 (\<lambda>p w. wexpr_eval (p_width p) ws = Some (int w) \<and> width_ok w) (r_params rule) pw \<and>
     length lw = length (r_lets rule) \<and>
     (\<forall>k<length lw. well_sorted rule ws pw (take k lw) (r_lets rule ! k) (Some (lw ! k))) \<and>
     (\<forall>gd\<in>set_option (r_guard rule). \<exists>s. well_sorted rule ws pw lw gd s) \<and>
     well_sorted rule ws pw lw (r_lhs rule) (Some w) \<and> well_sorted rule ws pw lw (r_rhs rule) (Some w)"

text \<open>
  What a rule claims at an assignment of widths and values: where its guard holds, its sides are
  equal.
\<close>

definition rule_holds :: "Rule \<Rightarrow> nat list \<Rightarrow> BitVec list \<Rightarrow> bool" where
  "rule_holds rule ws ps \<longleftrightarrow>
     (let ls = eval_lets rule ws ps
      in (case r_guard rule of
            None \<Rightarrow> True
          | Some gd \<Rightarrow> (case rule_eval rule ws ps ls gd of Some v \<Rightarrow> val_truthy v | None \<Rightarrow> False)) \<longrightarrow>
         (case (rule_eval rule ws ps ls (r_lhs rule), rule_eval rule ws ps ls (r_rhs rule)) of
            (Some (VBv x), Some (VBv y)) \<Rightarrow> x = y
          | _ \<Rightarrow> False))"

lemma term_evaluates:
  assumes "well_sorted rule ws pw lw n s" "term_checked rule ws n" "list_all2 okw pw ps"
    "list_all2 (\<lambda>w v. \<exists>x. v = Some x \<and> okw w x) lw ls"
  shows "\<exists>v. rule_eval rule ws ps ls n = Some v \<and> val_ok s v"
  using assms(2) well_sorted_evaluates [OF assms(1) _ assms(3,4)] unfolding term_checked_def by blast

lemma eval_lets_values:
  assumes "rule_sorted rule ws pw lw w" "\<forall>t\<in>rule_terms rule. term_checked rule ws t" "list_all2 okw pw ps"
  shows "list_all2 (\<lambda>w v. \<exists>x. v = Some x \<and> okw w x) lw (eval_lets rule ws ps)"
proof -
  let ?R = "\<lambda>w v. \<exists>x. v = Some x \<and> okw w x"
  have "list_all2 ?R lw (eval_lets_from rule ws ps lets out)"
    if "list_all2 ?R (take k lw) out" "lets = drop k (r_lets rule)" "k \<le> length lw" for lets out k
    using that
  proof (induction lets arbitrary: out k)
    case Nil
    then show ?case using assms(1) by (simp add: rule_sorted_def)
  next
    case (Cons l lets)
    have k: "k < length lw" using Cons.prems(2) assms(1) by (simp add: rule_sorted_def) (metis drop_eq_Nil2 list.distinct(1) not_le)
    then have l: "r_lets rule ! k = l" "lets = drop (Suc k) (r_lets rule)" "l \<in> rule_terms rule"
      using Cons.prems(2) assms(1) by (auto simp: rule_sorted_def rule_terms_def Cons_nth_drop_Suc [symmetric])
    have "well_sorted rule ws pw (take k lw) l (Some (lw ! k))" using assms(1) k l(1) by (auto simp: rule_sorted_def)
    from term_evaluates [OF this _ assms(3) Cons.prems(1)] assms(2) l(3)
    obtain x where x: "rule_eval rule ws ps out l = Some (VBv x)" "okw (lw ! k) x" by (auto simp: val_ok_Some)
    have "list_all2 ?R (take (Suc k) lw) (out @ [Some x])"
      unfolding take_Suc_conv_app_nth [OF k] using Cons.prems(1) x(2) by (intro list_all2_appendI) auto
    from Cons.IH [OF this l(2)] k x(1) show ?case by simp
  qed
  from this [of 0 "[]" "r_lets rule"] show ?thesis by (simp add: eval_lets_def)
qed

section \<open>Rules whose width does not matter\<close>

lemma uniform_children: "uniform_node node = Some ns \<Longrightarrow> ns = children node"
  by (induction node rule: uniform_node.induct) (auto split: if_splits)

lemma uniform_loop_checks:
  assumes "uniform_loop rule stack = Some True" "n \<in> set stack" "under rule n m"
  shows "\<exists>node ns. at (r_nodes rule) m = Some node \<and> uniform_node node = Some ns"
proof -
  let ?Q = "\<lambda>m. \<exists>node ns. at (r_nodes rule) m = Some node \<and> uniform_node node = Some ns"
  have "r \<longrightarrow> (\<forall>n m. n \<in> set stack \<longrightarrow> under rule n m \<longrightarrow> (\<exists>node ns. at (r_nodes rule) m = Some node \<and> uniform_node node = Some ns))"
    if "uniform_loop rule stack = Some r" for rule stack r
  proof (rule uniform_loop.raw_induct [OF _ that], goal_cases)
    case 1: (1 loop rule stack r)
    show ?case
    proof (cases stack)
      case (Cons k rest)
      show ?thesis
      proof (intro impI allI)
        fix n m
        assume r: "r" and n: "n \<in> set stack" and u: "under rule n m"
        from 1(2) r Cons obtain node ns where c: "at (r_nodes rule) k = Some node" "uniform_node node = Some ns"
          and l: "loop rule (rev ns @ rest) = Some r"
          by (auto simp: bind_eq_Some_conv split: option.splits)
        note IH = 1(1) [OF l, rule_format, OF r]
        show "\<exists>node ns. at (r_nodes rule) m = Some node \<and> uniform_node node = Some ns"
        proof (cases "n = k")
          case True
          from u [unfolded True] show ?thesis
          proof cases
            case under_refl
            then show ?thesis using c by simp
          next
            case (under_step node' d)
            then show ?thesis using IH [of d m] c uniform_children [OF c(2)] by simp
          qed
        next
          case False
          then show ?thesis using IH [of n m] n u Cons by simp
        qed
      qed
    qed simp
  qed
  then show ?thesis using assms by blast
qed

text \<open>
  Two evaluations of a uniform term, at two assignments of the widths: where one bit of every
  parameter of the one is one bit of that parameter in the other, so are the bits of the values.
\<close>

lemma nat_all_ones: "int n = - 1 mod 2 ^ w \<Longrightarrow> n = 2 ^ w - 1"
  by (simp add: zmod_minus1 of_nat_diff flip: of_nat_eq_iff [where 'a = int])

lemma uniform_literal:
  assumes "uniform_node (RLit l) = Some ns" "okw w v" "literal l w ws = Some v" "i < w"
  shows "vbit v i \<longleftrightarrow> (l = LOnes \<or> (\<exists>ls. l = LInt ls True \<and> lval ls = 1))"
proof -
  have ww: "width_ok w" using okwD(3) [OF assms(2)] .
  have ones: "vbit v i" if "bv_val v = 2 ^ w - 1" for v
    unfolding that using assms(4) by (simp add: bit_mask_iff flip: mask_eq_exp_minus_1)
  show ?thesis
  proof (cases l)
    case LOnes
    then show ?thesis using assms(3) ones bv_const(6) [OF ww] by auto
  next
    case (LInt ls neg)
    from assms(1) LInt consider (zero) "lval ls = 0" | (one) "neg" "lval ls = 1"
      by (auto simp: lval_zero_iff split: if_splits list.splits)
    then show ?thesis
    proof cases
      case zero
      then have "top_limb ls = None" using int_fits_length(2) [of ls] by (cases "top_limb ls") auto
      then have "literal_fits l w ws = Some True" using LInt by simp
      from literal_int [OF ww this [unfolded LInt]] assms(3) LInt zero have "bv_val v = 0" by simp
      then show ?thesis using LInt zero by simp
    next
      case one
      then obtain t where t: "top_limb ls = Some t" using find_top(2) [of ls] lval_all_zero [of ls] by (cases "top_limb ls") auto
      have "\<exists>f. literal_fits l w ws = Some f" using LInt t by (auto simp: Let_def)
      then obtain f where "literal_fits l w ws = Some f" by blast
      from literal_int [OF ww this [unfolded LInt]] assms(3) LInt one have "int (bv_val v) = - 1 mod 2 ^ w" by simp
      from ones [OF nat_all_ones [OF this]] show ?thesis using LInt one by simp
    qed
  qed (use assms(1) in auto)
qed

lemma well_sorted_inv:
  assumes "well_sorted rule ws pw lw n (Some w)"
  shows "at (r_nodes rule) n = Some (RParam k) \<Longrightarrow> k < length pw \<and> w = pw ! k"
    "at (r_nodes rule) n = Some (RUn op a) \<Longrightarrow> a < n \<and> well_sorted rule ws pw lw a (Some w)"
    "at (r_nodes rule) n = Some (RBin bop a b) \<Longrightarrow>
      a < n \<and> b < n \<and> well_sorted rule ws pw lw a (Some w) \<and> well_sorted rule ws pw lw b (Some w)"
  using assms by (cases; simp)+

lemma uniform_bits:
  assumes "\<forall>m. under rule n m \<longrightarrow> (\<exists>node ns. at (r_nodes rule) m = Some node \<and> uniform_node node = Some ns)"
    "well_sorted rule ws pw lw n (Some w)" "well_sorted rule ws' pw' lw' n (Some w')"
    "term_checked rule ws n" "term_checked rule ws' n" "list_all2 okw pw ps" "list_all2 okw pw' ps'"
    "list_all2 (\<lambda>w v. \<exists>x. v = Some x \<and> okw w x) lw ls" "list_all2 (\<lambda>w v. \<exists>x. v = Some x \<and> okw w x) lw' ls'"
    "\<And>k. k < length pw \<Longrightarrow> k < length pw' \<Longrightarrow> i < pw ! k \<Longrightarrow> j < pw' ! k \<Longrightarrow> vbit (ps ! k) i = vbit (ps' ! k) j"
    "i < w" "j < w'" "rule_eval rule ws ps ls n = Some (VBv v)" "rule_eval rule ws' ps' ls' n = Some (VBv v')"
  shows "vbit v i = vbit v' j"
  using assms(1-5,11-14)
proof (induction n arbitrary: w w' v v' rule: less_induct)
  case (less n)
  note simps = eval_within.simps(2) Let_def Option.bind.bind_lunit RNode.case rule_eval_def [symmetric]
  note u = rule_eval_unfold [OF less.prems(2)] and u' = rule_eval_unfold [OF less.prems(3)]
  from less.prems(1) obtain node ns where node: "at (r_nodes rule) n = Some node" and un: "uniform_node node = Some ns"
    using under_refl by blast
  have kid: "term_checked rule ws c" "term_checked rule ws' c"
    "\<forall>m. under rule c m \<longrightarrow> (\<exists>node ns. at (r_nodes rule) m = Some node \<and> uniform_node node = Some ns)"
    if "c \<in> set (children node)" for c
    using less.prems(1,4,5) that node unfolding term_checked_def by (meson under_step)+
  have val: "\<exists>x. rule_eval rule ws ps ls c = Some (VBv x) \<and> okw w x" if "c \<in> set (children node)" "well_sorted rule ws pw lw c (Some w)" for c w
    using term_evaluates [OF that(2) kid(1) [OF that(1)] assms(6,8)] by (auto simp: val_ok_Some)
  have val': "\<exists>x. rule_eval rule ws' ps' ls' c = Some (VBv x) \<and> okw w x" if "c \<in> set (children node)" "well_sorted rule ws' pw' lw' c (Some w)" for c w
    using term_evaluates [OF that(2) kid(2) [OF that(1)] assms(7,9)] by (auto simp: val_ok_Some)
  note e = less.prems(8) [unfolded u simps node] and e' = less.prems(9) [unfolded u' simps node]
  have ok: "okw w v" "okw w' v'"
    using term_evaluates [OF less.prems(2,4) assms(6,8)] term_evaluates [OF less.prems(3,5) assms(7,9)] less.prems(8,9) by auto
  have bin: "vbit v i = vbit v' j" if nb: "node = RBin op a b" and op: "op \<in> {BAnd, BOr, BXor}" for op a b
  proof -
    have a: "a < n" "b < n" "well_sorted rule ws pw lw a (Some w)" "well_sorted rule ws pw lw b (Some w)"
      and a': "well_sorted rule ws' pw' lw' a (Some w')" "well_sorted rule ws' pw' lw' b (Some w')"
      using well_sorted_inv(3) [OF less.prems(2)] well_sorted_inv(3) [OF less.prems(3)] node nb by blast+
    have c: "a \<in> set (children node)" "b \<in> set (children node)" using nb by simp_all
    from val [OF c(1) a(3)] val' [OF c(1) a'(1)] obtain x x' where
      x: "rule_eval rule ws ps ls a = Some (VBv x)" "okw w x" and x': "rule_eval rule ws' ps' ls' a = Some (VBv x')" "okw w' x'" by blast
    from val [OF c(2) a(4)] val' [OF c(2) a'(2)] obtain y y' where
      y: "rule_eval rule ws ps ls b = Some (VBv y)" "okw w y" and y': "rule_eval rule ws' ps' ls' b = Some (VBv y')" "okw w' y'" by blast
    have IH: "vbit x i = vbit x' j"
      by (rule less.IH [OF a(1) kid(3) [OF c(1)] a(3) a'(1) kid(1,2) [OF c(1)] less.prems(6,7) x(1) x'(1)])
    have IH2: "vbit y i = vbit y' j"
      by (rule less.IH [OF a(2) kid(3) [OF c(2)] a(4) a'(2) kid(1,2) [OF c(2)] less.prems(6,7) y(1) y'(1)])
    from okw_apply_bin [OF x(2) y(2), of op] obtain z where z: "ok_of (apply_bin op x y) = Some z" "bv_val z = sem_bin op w (bv_val x) (bv_val y)" by blast
    from okw_apply_bin [OF x'(2) y'(2), of op] obtain z' where z': "ok_of (apply_bin op x' y') = Some z'" "bv_val z' = sem_bin op w' (bv_val x') (bv_val y')" by blast
    have "v = z" "v' = z'" using e [unfolded nb RNode.case] e' [unfolded nb RNode.case] by (simp_all add: x(1) x'(1) y(1) y'(1) z(1) z'(1))
    with z(2) z'(2) have "bv_val v = sem_bin op w (bv_val x) (bv_val y)" "bv_val v' = sem_bin op w' (bv_val x') (bv_val y')" by simp_all
    with op show ?thesis using IH IH2
      by (elim insertE emptyE) (simp_all only: sem_bin_def BinOp.case bit_and_iff bit_or_iff bit_xor_iff)
  qed
  from un show ?case
  proof (cases rule: uniform_node.elims)
    case (1 k)
    have k: "k < length pw" "w = pw ! k" and k': "k < length pw'" "w' = pw' ! k"
      using well_sorted_inv(1) [OF less.prems(2)] well_sorted_inv(1) [OF less.prems(3)] node 1 by auto
    have "v = ps ! k" "v' = ps' ! k" using e e' 1 by (auto simp: at_def split: if_splits)
    then show ?thesis using assms(10) [OF k(1) k'(1)] k k' less.prems(6,7) by simp
  next
    case 2
    have l: "uniform_node (RLit LOnes) = Some []" by simp
    have "literal LOnes w ws = Some v" "literal LOnes w' ws' = Some v'"
      using e e' 2 well_sorted_width [OF less.prems(2) refl] well_sorted_width [OF less.prems(3) refl] by (auto simp: the_width)
    then show ?thesis using uniform_literal [OF l ok(1) _ less.prems(6)] uniform_literal [OF l ok(2) _ less.prems(7)] by blast
  next
    case (3 limbs neg)
    have l: "uniform_node (RLit (LInt limbs neg)) = Some ns" using un 3 by simp
    have "literal (LInt limbs neg) w ws = Some v" "literal (LInt limbs neg) w' ws' = Some v'"
      using e e' 3 well_sorted_width [OF less.prems(2) refl] well_sorted_width [OF less.prems(3) refl]
      by (auto simp: the_width bind_eq_Some_conv simp del: literal.simps)
    then show ?thesis using uniform_literal [OF l ok(1) _ less.prems(6)] uniform_literal [OF l ok(2) _ less.prems(7)] by blast
  next
    case (4 a)
    have a: "a < n" "well_sorted rule ws pw lw a (Some w)" and a': "well_sorted rule ws' pw' lw' a (Some w')"
      using well_sorted_inv(2) [OF less.prems(2)] well_sorted_inv(2) [OF less.prems(3)] node 4 by auto
    have c: "a \<in> set (children node)" using 4 by simp
    from val [OF c a(2)] val' [OF c a'] obtain x x' where
      x: "rule_eval rule ws ps ls a = Some (VBv x)" "okw w x" and x': "rule_eval rule ws' ps' ls' a = Some (VBv x')" "okw w' x'" by blast
    have IH: "vbit x i = vbit x' j"
      by (rule less.IH [OF a(1) kid(3) [OF c] a(2) a' kid(1,2) [OF c] less.prems(6,7) x(1) x'(1)])
    from okw_apply_un [OF x(2), of UNot] obtain z where z: "ok_of (apply_un UNot x) = Some z" "bv_val z = sem_un UNot w (bv_val x)" by blast
    from okw_apply_un [OF x'(2), of UNot] obtain z' where z': "ok_of (apply_un UNot x') = Some z'" "bv_val z' = sem_un UNot w' (bv_val x')" by blast
    have "v = z" "v' = z'" using e [unfolded 4(1) RNode.case] e' [unfolded 4(1) RNode.case] by (simp_all add: x(1) x'(1) z(1) z'(1))
    with z(2) z'(2) have "bv_val v = sem_un UNot w (bv_val x)" "bv_val v' = sem_un UNot w' (bv_val x')" by simp_all
    then show ?thesis
      using IH bit_sem_not [OF okwD(4) [OF x(2)], of i] bit_sem_not [OF okwD(4) [OF x'(2)], of j] less.prems(6,7)
      by (simp add: sem_un_def One_nat_def)
  next
    case (5 a b)
    show ?thesis by (rule bin [OF 5(1)]) blast
  next
    case (6 a b)
    show ?thesis by (rule bin [OF 6(1)]) blast
  next
    case (7 a b)
    show ?thesis by (rule bin [OF 7(1)]) blast
  qed (use un in auto)
qed

text \<open>Bit \<open>i\<close> of every value, spread over the width.\<close>

definition spread :: "nat \<Rightarrow> nat \<Rightarrow> BitVec \<Rightarrow> BitVec" where
  "spread i w v = (if bit (bv_val v) i then bv_ones w else bv_zero w)"

lemma spread_ok:
  assumes "width_ok w"
  shows "okw w (spread i w v)" "j < w \<Longrightarrow> vbit (spread i w v) j = vbit v i"
  using okw_const(1,3) [OF assms] bv_const(2,6) [OF assms] 
  by (auto simp: spread_def bit_mask_iff simp flip: mask_eq_exp_minus_1)

lemma no_lets: "r_lets rule = [] \<Longrightarrow> eval_lets rule ws ps = []"
  by (simp add: eval_lets_def)

lemma uniform_transfer:
  assumes u: "bitwise_uniform rule = Some True"
    and s: "rule_sorted rule ws pw lw w" "rule_sorted rule ws' pw' lw' w'"
    and c: "\<forall>t\<in>rule_terms rule. term_checked rule ws t" "\<forall>t\<in>rule_terms rule. term_checked rule ws' t"
    and holds: "\<And>ps. list_all2 okw pw ps \<Longrightarrow> rule_holds rule ws ps"
    and ps': "list_all2 okw pw' ps'"
  shows "rule_holds rule ws' ps'"
proof -
  from u have g: "r_guard rule = None" "r_lets rule = []" and loop: "uniform_loop rule [r_rhs rule, r_lhs rule] = Some True"
    by (auto simp: bitwise_uniform_def bind_eq_Some_conv split: if_splits)
  have lw: "lw = []" "lw' = []" using s g(2) by (simp_all add: rule_sorted_def)
  have un: "\<forall>m. under rule t m \<longrightarrow> (\<exists>node ns. at (r_nodes rule) m = Some node \<and> uniform_node node = Some ns)"
    if "t = r_lhs rule \<or> t = r_rhs rule" for t
    using uniform_loop_checks [OF loop] that by auto
  have in_terms: "r_lhs rule \<in> rule_terms rule" "r_rhs rule \<in> rule_terms rule" by (auto simp: rule_terms_def)
  have sorted: "well_sorted rule ws pw [] t (Some w)" "well_sorted rule ws' pw' [] t (Some w')"
    "term_checked rule ws t" "term_checked rule ws' t" if "t = r_lhs rule \<or> t = r_rhs rule" for t
    using s c that in_terms lw by (auto simp: rule_sorted_def)
  have lets: "list_all2 (\<lambda>w v. \<exists>x. v = Some x \<and> okw w x) [] []" by simp
  have value': "\<exists>v. rule_eval rule ws' ps' [] t = Some (VBv v) \<and> okw w' v" if "t = r_lhs rule \<or> t = r_rhs rule" for t
    using term_evaluates [OF sorted(2,4) [OF that] ps' lets] by (auto simp: val_ok_Some)
  from value' [of "r_lhs rule"] value' [of "r_rhs rule"] obtain x' y' where
    x': "rule_eval rule ws' ps' [] (r_lhs rule) = Some (VBv x')" "okw w' x'" and
    y': "rule_eval rule ws' ps' [] (r_rhs rule) = Some (VBv y')" "okw w' y'" by blast
  have "x' = y'"
  proof (rule okw_bit_eqI [OF x'(2) y'(2)])
    fix j assume j: "j < w'"
    have pok: "list_all2 (\<lambda>p w. wexpr_eval (p_width p) ws = Some (int w) \<and> width_ok w) (r_params rule) pw"
      "length pw' = length (r_params rule)"
      using s by (auto simp: rule_sorted_def dest: list_all2_lengthD)
    define ps where "ps = map2 (\<lambda>w v. spread j w v) pw ps'"
    have len: "length ps' = length pw'" "length pw = length pw'" "length ps = length pw"
      using ps' pok by (auto simp: ps_def dest!: list_all2_lengthD)
    have nth: "ps ! k = spread j (pw ! k) (ps' ! k)" "width_ok (pw ! k)" if "k < length pw" for k
      using that len pok(1) by (auto simp: ps_def list_all2_conv_all_nth)
    have ps: "list_all2 okw pw ps"
      using nth spread_ok(1) len by (auto simp: list_all2_conv_all_nth)
    have bits: "vbit (ps ! k) 0 = vbit (ps' ! k) j" if "k < length pw" "0 < pw ! k" for k
      using spread_ok(2) [OF nth(2) [OF that(1)] that(2)] nth(1) [OF that(1)] by simp
    have sval: "\<exists>v. rule_eval rule ws ps [] t = Some (VBv v)" if "t = r_lhs rule \<or> t = r_rhs rule" for t
      using term_evaluates [OF sorted(1,3) [OF that] ps lets] by (auto simp: val_ok_Some)
    from sval [of "r_lhs rule"] sval [of "r_rhs rule"] obtain x y where
      xy: "rule_eval rule ws ps [] (r_lhs rule) = Some (VBv x)" "rule_eval rule ws ps [] (r_rhs rule) = Some (VBv y)" by blast
    have "x = y"
      using holds [OF ps] unfolding rule_holds_def no_lets [OF g(2)] Let_def g(1) xy prod.case option.case Val.case by simp
    with xy have x: "rule_eval rule ws ps [] (r_lhs rule) = Some (VBv x)" "rule_eval rule ws ps [] (r_rhs rule) = Some (VBv x)" by simp_all
    have w0: "0 < w" using width_of_ok [OF well_sorted_width [OF sorted(1) [OF disjI1 [OF refl]] refl]] by (simp add: width_ok_def)
    have "vbit x 0 = vbit x' j"
      by (rule uniform_bits [OF un [OF disjI1 [OF refl]] sorted [OF disjI1 [OF refl]] ps ps' lets lets bits w0 j x(1) x'(1)])
    moreover have "vbit x 0 = vbit y' j"
      by (rule uniform_bits [OF un [OF disjI2 [OF refl]] sorted [OF disjI2 [OF refl]] ps ps' lets lets bits w0 j x(2) y'(1)])
    ultimately show "vbit x' j = vbit y' j" by simp
  qed
  then show ?thesis unfolding rule_holds_def no_lets [OF g(2)] Let_def g(1) x'(1) y'(1) by simp
qed

section \<open>What the evaluator promises\<close>

text \<open>
  C35: \<open>literal_fits\<close> answers, without building it, whether a literal has a value at a width; the
  value is the number of the literal modulo \<open>2 ^ w\<close>, in canonical form.
\<close>
theorem literal_fits_exact:
  assumes "width_ok w" "lit_ok l" "literal_fits l w ws = Some fits"
  shows "case literal l w ws of None \<Rightarrow> \<not> fits
    | Some v \<Rightarrow> fits \<and> bv_ok v \<and> bv_width v = w \<and> int (bv_val v) = lit_number l w ws mod 2 ^ w"
  using literal_meaning [OF assms] by (auto simp: okw_def split: option.splits)

text \<open>
  C36: where a rule is admitted, by the table of widths the compiler's validation leaves in it or
  by the check from scratch, nothing in it fails to evaluate: on any values of the parameters, every
  let has a value of its width, the guard a truth value, and the sides values of one width. The rule
  is well sorted at these widths, which gives every node a valid width; that extensions widen,
  extractions and literals fit and byte swaps have whole bytes comes from the admission.
\<close>
theorem admitted_rules_evaluate:
  assumes "rule_sorted rule ws pw lw w" "admitted rule ws = Some True" "widths_validated rule" "list_all2 okw pw ps"
  shows "list_all2 (\<lambda>w v. \<exists>x. v = Some x \<and> okw w x) lw (eval_lets rule ws ps) \<and>
    (case r_guard rule of None \<Rightarrow> True | Some gd \<Rightarrow> rule_eval rule ws ps (eval_lets rule ws ps) gd \<noteq> None) \<and>
    (\<exists>x y. rule_eval rule ws ps (eval_lets rule ws ps) (r_lhs rule) = Some (VBv x) \<and> okw w x \<and>
       rule_eval rule ws ps (eval_lets rule ws ps) (r_rhs rule) = Some (VBv y) \<and> okw w y)"
proof -
  have c: "\<forall>t\<in>rule_terms rule. term_checked rule ws t" using admitted_checks [OF assms(2,3)] by blast
  note l = eval_lets_values [OF assms(1) c assms(4)]
  have sl: "well_sorted rule ws pw lw (r_lhs rule) (Some w)" and sr: "well_sorted rule ws pw lw (r_rhs rule) (Some w)"
    and cl: "term_checked rule ws (r_lhs rule)" and cr: "term_checked rule ws (r_rhs rule)"
    using assms(1) c by (auto simp: rule_sorted_def rule_terms_def)
  have "rule_eval rule ws ps (eval_lets rule ws ps) gd \<noteq> None" if g: "r_guard rule = Some gd" for gd
  proof -
    from assms(1) g obtain s where "well_sorted rule ws pw lw gd s" by (auto simp: rule_sorted_def)
    moreover have "term_checked rule ws gd" using c g by (auto simp: rule_terms_def)
    ultimately show ?thesis using term_evaluates [OF _ _ assms(4) l] by fastforce
  qed
  then show ?thesis
    using l term_evaluates [OF sl cl assms(4) l] term_evaluates [OF sr cr assms(4) l]
    by (auto simp: val_ok_Some split: option.splits)
qed

text \<open>
  C37: width does not matter to a rule of bitwise operators on its parameters and the constants 0
  and all ones: if it holds at one assignment of the width, as at width 1, it holds at every other
  it is admitted at. Such a rule has one width variable, so the compiler leaves it a table of
  widths, which the rule's hypothesis covers, as it does a rule without a table.
\<close>
theorem width_irrelevant:
  assumes "bitwise_uniform rule = Some True" "rule_sorted rule ws pw lw w" "rule_sorted rule ws' pw' lw' w'"
    "admitted rule ws = Some True" "admitted rule ws' = Some True" "widths_validated rule"
    "\<forall>ps. list_all2 okw pw ps \<longrightarrow> rule_holds rule ws ps" "list_all2 okw pw' ps'"
  shows "rule_holds rule ws' ps'"
  by (rule uniform_transfer [OF assms(1-3) _ _ _ assms(8)])
    (use admitted_checks [OF assms(4,6)] admitted_checks [OF assms(5,6)] assms(7) in blast)+

section \<open>Witnesses\<close>

declare wf_loop.simps [code] uniform_loop.simps [code]

theorem literal_fits_exact_witness:
  "\<exists>v. literal (LWidth \<lparr>wx_konst = - 1, wx_terms = [(0, 3)]\<rparr>) 6 [20] = Some v \<and> bv_val v = 59"
proof -
  have w: "width_ok 6" by (simp add: width_ok_def)
  have f: "literal_fits (LWidth \<lparr>wx_konst = - 1, wx_terms = [(0, 3)]\<rparr>) 6 [20] = Some True" by code_simp
  have e: "wexpr_eval \<lparr>wx_konst = - 1, wx_terms = [(0, 3)]\<rparr> [20] = Some 59" by code_simp
  from literal_fits_exact [OF w _ f] show ?thesis
    by (auto simp: lit_ok_def i64_fits_def e split: option.splits simp del: literal.simps)
qed

text \<open>A rule with the table its validation leaves: \<open>x AND x\<close> is \<open>x\<close>, at every width.\<close>

definition idempotent :: Rule where
  "idempotent = \<lparr>r_width_vars = 1, r_modes = 0, r_constraints = [], r_params = [\<lparr>p_kind = PAny, p_width = wexpr_var 0\<rparr>],
     r_lets = [], r_nodes = [RParam 0, RBin BAnd 0 0], r_sorts = [SortBv (wexpr_var 0), SortBv (wexpr_var 0)],
     r_lhs = 1, r_rhs = 0, r_guard = None, r_admitted = Some ALL_WIDTHS\<rparr>"

lemma width_variable:
  "k \<le> 512 \<Longrightarrow> wexpr_eval (wexpr_var 0) [k] = Some (int k)"
  "0 < k \<Longrightarrow> k \<le> 512 \<Longrightarrow> at (r_sorts rule) n = Some (SortBv (wexpr_var 0)) \<Longrightarrow> width_of rule n [k] = Some (Some k)"
  by (simp_all add: wexpr_eval_def wexpr_var_def at_def saturated_def width_of_def ok_of_def Width_new_def MAX_BITS_def)

lemma idempotent_validated: "widths_validated idempotent"
proof -
  have "validate_widths idempotent = Some (Inr (Some ALL_WIDTHS))"
  proof (rule validate_all)
    fix k :: nat assume k: "0 < k" "k \<le> 512"
    have w: "width_of idempotent n [k] = Some (Some k)" if "n < 2" for n
      by (rule width_variable(2) [OF k]) (use that in \<open>auto simp: idempotent_def at_def less_Suc_eq numeral_2_eq_2\<close>)
    have c: "node_check idempotent [k] strict n = Some True" if "n < 2" for n strict
      using w [OF that] that by (auto simp: node_check_def idempotent_def at_def less_Suc_eq numeral_2_eq_2)
    have "well_formed idempotent n [k] strict = Some (Inr ())" if "n < 2" for n strict
      using that c by (auto simp: well_formed_def wf_loop.simps idempotent_def at_def less_Suc_eq numeral_2_eq_2)
    then show "all_hold (r_constraints idempotent) [k] = Some True \<and>
        well_formed idempotent (r_lhs idempotent) [k] True = Some (Inr ()) \<and>
        first_bad idempotent [k] (rule_parts idempotent) = Some None"
      by (simp add: idempotent_def rule_parts_def)
  qed (simp_all add: idempotent_def)
  then show ?thesis by (simp add: widths_validated_def) (simp add: idempotent_def)
qed

lemma idempotent_sorted:
  assumes "width_of idempotent 0 [w] = Some (Some w)" "width_of idempotent 1 [w] = Some (Some w)"
    "wexpr_eval (wexpr_var 0) [w] = Some (int w)"
  shows "rule_sorted idempotent [w] [w] [] w"
proof -
  have p: "well_sorted idempotent [w] [w] [] 0 (Some w)"
    using ws_param [of idempotent 0 0 "[w]" "[w]" "[]"] assms(1) by (simp add: idempotent_def at_def)
  have "well_sorted idempotent [w] [w] [] 1 (Some w)"
    using ws_bin [of idempotent 1 BAnd 0 0 "[w]" "[w]" "[]" w, OF _ _ _ p p] assms(2) by (simp add: idempotent_def at_def One_nat_def)
  then show ?thesis using p width_of_ok [OF assms(1)] assms(3) by (simp add: rule_sorted_def idempotent_def)
qed

lemma idempotent_holds: "okw w x \<Longrightarrow> rule_holds idempotent ws [x]"
proof -
  assume x: "okw w x"
  have "apply_bin BAnd x x = Inr x"
    using okw_eqI [OF okw_bin(1) [OF x x, of BAnd] x] okw_bin(2) [OF x x, of BAnd] by (simp add: apply_bin_def same_width_def sem_bin_def)
  then show ?thesis
    by (simp add: rule_holds_def idempotent_def rule_eval_def at_def ok_of_def One_nat_def)
qed

lemma idempotent_widths:
  "rule_sorted idempotent [1] [1] [] 1" "rule_sorted idempotent [8] [8] [] 8"
  "admitted idempotent [1] = Some True" "admitted idempotent [8] = Some True"
proof -
  show "rule_sorted idempotent [1] [1] [] 1" by (rule idempotent_sorted; code_simp)
  show "rule_sorted idempotent [8] [8] [] 8" by (rule idempotent_sorted; code_simp)
  show "admitted idempotent [1] = Some True" by code_simp
  show "admitted idempotent [8] = Some True" by code_simp
qed

theorem admitted_rules_evaluate_witness:
  "\<exists>x. rule_eval idempotent [8] [bv_ones 8] [] 1 = Some (VBv x) \<and> okw 8 x"
proof -
  have "list_all2 okw [8] [bv_ones 8]" using okw_const(3) [of 8] by (simp add: width_ok_def)
  from admitted_rules_evaluate [OF idempotent_widths(2,4) idempotent_validated this] show ?thesis
    by (auto simp: idempotent_def eval_lets_def)
qed

theorem width_irrelevant_witness: "rule_holds idempotent [8] [bv_ones 8]"
proof -
  have u: "bitwise_uniform idempotent = Some True" by code_simp
  have h: "\<forall>ps. list_all2 okw [1] ps \<longrightarrow> rule_holds idempotent [1] ps"
    using idempotent_holds by (auto simp: list_all2_Cons1)
  have ps: "list_all2 okw [8] [bv_ones 8]" using okw_const(3) [of 8] by (simp add: width_ok_def)
  show ?thesis
    by (rule width_irrelevant [OF u idempotent_widths(1-4) idempotent_validated h ps])
qed

end
