(* ===== verification/Rule_Prove.thy ===== *)
theory Rule_Prove
  imports Rules_Eval
begin

unbundle bit_operations_syntax

text \<open>
  The prover of rules (\<open>bitwright/src/prove/rule.rs\<close>): the symbolic evaluator, which builds the
  circuit of a node once and keeps it, and the obligation of a rule at one assignment of widths.
  \<open>None\<close> is a panic, a contract error, or a rule reported as unsupported.
\<close>

section \<open>Symbolic values\<close>

datatype SVal = SBv "L list" | SBool L

fun sv_bits :: "SVal \<Rightarrow> L list option" where
  "sv_bits (SBv b) = Some b"
| "sv_bits (SBool _) = None"

fun sv_truthy :: "SVal \<Rightarrow> Aig \<Rightarrow> (L \<times> Aig) option" where
  "sv_truthy (SBool b) g = Some (b, g)"
| "sv_truthy (SBv b) g = or_all b g"

definition clear_last :: "L list \<Rightarrow> L list" where
  "clear_last xs = (if xs = [] then [] else butlast xs @ [FALSE])"

text \<open>A fact predicate as what it states of the values.\<close>

definition fact_circuit :: "FactPred \<Rightarrow> L list \<Rightarrow> L list option \<Rightarrow> Aig \<Rightarrow> (L \<times> Aig) option" where
  "fact_circuit p xv mv g = (case p of
     NonZero \<Rightarrow> or_all xv g
   | Disjoint \<Rightarrow> do { m \<leftarrow> mv; (a, g) \<leftarrow> blast_and xv m g; (r, g) \<leftarrow> or_all a g; Some (r XOR 1, g) }
   | ZeroBits \<Rightarrow> do { m \<leftarrow> mv; (a, g) \<leftarrow> blast_and xv m g; (r, g) \<leftarrow> or_all a g; Some (r XOR 1, g) }
   | OneBits \<Rightarrow> do { m \<leftarrow> mv; (a, g) \<leftarrow> blast_and xv m g; blast_eq a m g }
   | FpNotNan \<Rightarrow> do { m \<leftarrow> mv; blast_ule (clear_last xv) m g }
   | FpFinite \<Rightarrow> do { m \<leftarrow> mv; blast_ult (clear_last xv) m g }
   | FpNonZero \<Rightarrow> do { m \<leftarrow> mv; or_all (clear_last xv) g }
   | _ \<Rightarrow> None)"

definition const_circuit :: "ConstPred \<Rightarrow> L list \<Rightarrow> Aig \<Rightarrow> (L \<times> Aig) option" where
  "const_circuit p c g =
     (let one = small_bits (length c) 1
      in case p of
           IsPow2 \<Rightarrow> do { (cnt, g) \<leftarrow> blast_popcnt c g; blast_eq cnt one g }
         | IsLowMask \<Rightarrow> do {
             (c1, g) \<leftarrow> blast_add c one g;
             (a, g) \<leftarrow> blast_and c c1 g;
             (nz, g) \<leftarrow> or_all c g;
             (z, g) \<leftarrow> or_all a g;
             aig_and nz (z XOR 1) g }
         | IsShiftedMask \<Rightarrow> do {
             (cm1, g) \<leftarrow> blast_sub c one g;
             (filled, g) \<leftarrow> blast_or c cm1 g;
             (f1, g) \<leftarrow> blast_add filled one g;
             (a, g) \<leftarrow> blast_and filled f1 g;
             (nz, g) \<leftarrow> or_all c g;
             (z, g) \<leftarrow> or_all a g;
             aig_and nz (z XOR 1) g })"

section \<open>The symbolic evaluator\<close>

text \<open>
  The parameters and the lets are words of the graph, and the memo has the value of each node
  already evaluated. The depth is bounded as for the concrete evaluator.
\<close>

primrec sym_within ::
  "nat \<Rightarrow> Rule \<Rightarrow> nat list \<Rightarrow> L list list \<Rightarrow> L list option list \<Rightarrow> NodeId \<Rightarrow> SVal option list \<Rightarrow> Aig \<Rightarrow>
     ((SVal \<times> SVal option list) \<times> Aig) option" where
  "sym_within 0 rule ws ps ls n memo g = None"
| "sym_within (Suc d) rule ws ps ls n memo g = do {
     known \<leftarrow> at memo n;
     case known of
       Some v \<Rightarrow> Some ((v, memo), g)
     | None \<Rightarrow>
         let ev = sym_within d rule ws ps ls;
             bits = (\<lambda>m memo g. do { ((v, memo), g) \<leftarrow> ev m memo g; b \<leftarrow> sv_bits v; Some ((b, memo), g) })
         in do {
           ((v, memo), g) \<leftarrow> do {
             node \<leftarrow> at (r_nodes rule) n;
             case node of
               RParam i \<Rightarrow> do { b \<leftarrow> at ps i; Some ((SBv b, memo), g) }
             | RLet i \<Rightarrow> do { b \<leftarrow> at ls i; b \<leftarrow> b; Some ((SBv b, memo), g) }
             | RLit l \<Rightarrow> do { w \<leftarrow> the_width rule n ws; v \<leftarrow> literal l w ws; Some ((SBv (konst v), memo), g) }
             | RUn op a \<Rightarrow> do { ((a, memo), g) \<leftarrow> bits a memo g; (r, g) \<leftarrow> rule_un op a g; Some ((SBv r, memo), g) }
             | RBin op a b \<Rightarrow> do {
                 ((a, memo), g) \<leftarrow> bits a memo g;
                 ((b, memo), g) \<leftarrow> bits b memo g;
                 (r, g) \<leftarrow> rule_bin op a b g;
                 Some ((SBv r, memo), g) }
             | RCmp op a b \<Rightarrow> do {
                 ((a, memo), g) \<leftarrow> bits a memo g;
                 ((b, memo), g) \<leftarrow> bits b memo g;
                 (r, g) \<leftarrow> rule_cmp op a b g;
                 Some ((SBv r, memo), g) }
             | RZext a \<Rightarrow> do {
                 ((v, memo), g) \<leftarrow> bits a memo g;
                 w \<leftarrow> the_width rule n ws;
                 Some ((SBv (resize w FALSE v), memo), g) }
             | RSext a \<Rightarrow> do {
                 ((v, memo), g) \<leftarrow> bits a memo g;
                 w \<leftarrow> the_width rule n ws;
                 Some ((SBv (resize w (last_or_false v) v), memo), g) }
             | RExtract lo a \<Rightarrow> do {
                 ((v, memo), g) \<leftarrow> bits a memo g;
                 lo \<leftarrow> wexpr_eval lo ws;
                 w \<leftarrow> the_width rule n ws;
                 if 0 \<le> lo \<and> nat lo + w \<le> length v then Some ((SBv (take w (drop (nat lo) v)), memo), g) else None }
             | RConcat h l \<Rightarrow> do {
                 ((h, memo), g) \<leftarrow> bits h memo g;
                 ((l, memo), g) \<leftarrow> bits l memo g;
                 Some ((SBv (l @ h), memo), g) }
             | RSelect c t f \<Rightarrow> do {
                 ((c, memo), g) \<leftarrow> ev c memo g;
                 (c, g) \<leftarrow> sv_truthy c g;
                 ((t, memo), g) \<leftarrow> bits t memo g;
                 ((f, memo), g) \<leftarrow> bits f memo g;
                 (r, g) \<leftarrow> blast_mux c t f g;
                 Some ((SBv r, memo), g) }
             | RAnd a b \<Rightarrow> do {
                 ((a, memo), g) \<leftarrow> ev a memo g;
                 ((b, memo), g) \<leftarrow> ev b memo g;
                 (a, g) \<leftarrow> sv_truthy a g;
                 (b, g) \<leftarrow> sv_truthy b g;
                 (r, g) \<leftarrow> aig_and a b g;
                 Some ((SBool r, memo), g) }
             | ROr a b \<Rightarrow> do {
                 ((a, memo), g) \<leftarrow> ev a memo g;
                 ((b, memo), g) \<leftarrow> ev b memo g;
                 (a, g) \<leftarrow> sv_truthy a g;
                 (b, g) \<leftarrow> sv_truthy b g;
                 (r, g) \<leftarrow> aig_or a b g;
                 Some ((SBool r, memo), g) }
             | RNot a \<Rightarrow> do {
                 ((a, memo), g) \<leftarrow> ev a memo g;
                 (a, g) \<leftarrow> sv_truthy a g;
                 Some ((SBool (a XOR 1), memo), g) }
             | RFact p x m \<Rightarrow>
                 if p = OneUse then Some ((SBool TRUE, memo), g)
                 else if p = Proves then do {
                   ((v, memo), g) \<leftarrow> ev x memo g;
                   (r, g) \<leftarrow> sv_truthy v g;
                   Some ((SBool r, memo), g) }
                 else do {
                   ((xv, memo), g) \<leftarrow> bits x memo g;
                   ((mv, memo), g) \<leftarrow> (case m of
                       Some m \<Rightarrow> do { ((b, memo), g) \<leftarrow> bits m memo g; Some ((Some b, memo), g) }
                     | None \<Rightarrow> Some ((None, memo), g));
                   (r, g) \<leftarrow> fact_circuit p xv mv g;
                   Some ((SBool r, memo), g) }
             | RConstP p a \<Rightarrow> do {
                 ((c, memo), g) \<leftarrow> bits a memo g;
                 (r, g) \<leftarrow> const_circuit p c g;
                 Some ((SBool r, memo), g) } };
           Some ((v, memo[n := Some v]), g) } }"

definition sym_eval ::
  "Rule \<Rightarrow> nat list \<Rightarrow> L list list \<Rightarrow> L list option list \<Rightarrow> NodeId \<Rightarrow> SVal option list \<Rightarrow> Aig \<Rightarrow>
     ((SVal \<times> SVal option list) \<times> Aig) option" where
  "sym_eval rule ws ps ls n memo g = sym_within (length (r_nodes rule)) rule ws ps ls n memo g"

definition sym_bits ::
  "Rule \<Rightarrow> nat list \<Rightarrow> L list list \<Rightarrow> L list option list \<Rightarrow> NodeId \<Rightarrow> SVal option list \<Rightarrow> Aig \<Rightarrow>
     ((L list \<times> SVal option list) \<times> Aig) option" where
  "sym_bits rule ws ps ls n memo g = do {
     ((v, memo), g) \<leftarrow> sym_eval rule ws ps ls n memo g;
     b \<leftarrow> sv_bits v;
     Some ((b, memo), g) }"

section \<open>The obligation of a rule\<close>

primrec fresh_inputs :: "nat \<Rightarrow> Aig \<Rightarrow> (L list \<times> Aig) option" where
  "fresh_inputs 0 g = Some ([], g)"
| "fresh_inputs (Suc k) g = do {
     let (l, g) = aig_input g;
     (ls, g) \<leftarrow> fresh_inputs k g;
     Some (l # ls, g) }"

text \<open>The words of the parameters: constants where the parameter is fixed, else fresh inputs.\<close>

fun param_circuits :: "Param list \<Rightarrow> nat list \<Rightarrow> BitVec option list \<Rightarrow> Aig \<Rightarrow> (L list list \<times> Aig) option" where
  "param_circuits [] ws fixed g = Some ([], g)"
| "param_circuits (p # ps) ws fixed g = do {
     w \<leftarrow> wexpr_eval (p_width p) ws;
     if w < 0 then None
     else do {
       (bits, g) \<leftarrow> (case fixed of Some v # _ \<Rightarrow> Some (konst v, g) | _ \<Rightarrow> fresh_inputs (nat w) g);
       (rest, g) \<leftarrow> param_circuits ps ws (drop 1 fixed) g;
       Some (bits # rest, g) } }"

fun let_circuits ::
  "Rule \<Rightarrow> nat list \<Rightarrow> L list list \<Rightarrow> NodeId list \<Rightarrow> L list option list \<Rightarrow> Aig \<Rightarrow> (L list option list \<times> Aig) option" where
  "let_circuits rule ws ps [] ls g = Some (ls, g)"
| "let_circuits rule ws ps (l # rest) ls g = do {
     ((v, _), g) \<leftarrow> sym_eval rule ws ps ls l (replicate (length (r_nodes rule)) None) g;
     let_circuits rule ws ps rest (ls @ [sv_bits v]) g }"

text \<open>The guard and the words of the sides.\<close>

definition rule_sides :: "Rule \<Rightarrow> nat list \<Rightarrow> L list list \<Rightarrow> Aig \<Rightarrow> ((L \<times> L list \<times> L list) \<times> Aig) option" where
  "rule_sides rule ws ps g = do {
     (ls, g) \<leftarrow> let_circuits rule ws ps (r_lets rule) [] g;
     let memo = replicate (length (r_nodes rule)) None;
     ((guard, memo), g) \<leftarrow> (case r_guard rule of
         Some gd \<Rightarrow> do {
           ((v, memo), g) \<leftarrow> sym_eval rule ws ps ls gd memo g;
           (t, g) \<leftarrow> sv_truthy v g;
           Some ((t, memo), g) }
       | None \<Rightarrow> Some ((TRUE, memo), g));
     ((l, memo), g) \<leftarrow> sym_bits rule ws ps ls (r_lhs rule) memo g;
     ((r, memo), g) \<leftarrow> sym_bits rule ws ps ls (r_rhs rule) memo g;
     Some ((guard, l, r), g) }"

text \<open>
  What is posed at one assignment: nothing where the graph is larger than the configuration allows,
  and otherwise the literal that is true where the guard holds and the sides differ, the words of
  the parameters and the graph. A pattern that is no floating-point node has no format
  (\<open>Rule::values_format\<close>), so the two sides are compared as values of the width, whatever
  \<open>float_values\<close> says.
\<close>

datatype Posed = TooLarge nat | Posed L "L list list" Aig

definition rule_bad :: "L \<Rightarrow> L list \<Rightarrow> L list \<Rightarrow> Aig \<Rightarrow> (L \<times> Aig) option" where
  "rule_bad guard l r g = do {
     (equal, g) \<leftarrow> blast_eq l r g;
     aig_and guard (equal XOR 1) g }"

definition obligation :: "nat \<Rightarrow> Rule \<Rightarrow> nat list \<Rightarrow> BitVec option list \<Rightarrow> Posed option" where
  "obligation max_nodes rule ws fixed = do {
     ok \<leftarrow> admitted rule ws;
     if \<not> ok then None
     else do {
       (ps, g) \<leftarrow> param_circuits (r_params rule) ws fixed aig_new;
       ((guard, l, r), g) \<leftarrow> rule_sides rule ws ps g;
       if length (nodes g) > max_nodes then Some (TooLarge (length (nodes g)))
       else do {
         (bad, g) \<leftarrow> rule_bad guard l r g;
         Some (Posed bad ps g) } } }"

text \<open>The clauses of the obligation.\<close>

definition rule_clauses :: "Aig \<Rightarrow> L \<Rightarrow> bool \<Rightarrow> (Cnf \<times> Port) option" where
  "rule_clauses g bad certificate = do {
     s \<leftarrow> encode_with_xor3 g [bad] \<lparr>num_vars = 0, given = []\<rparr> certificate False;
     cnf_assert bad s }"

text \<open>A parameter as a model gives it.\<close>

definition read_param :: "Cnf \<Rightarrow> bool list \<Rightarrow> L list \<Rightarrow> BitVec" where
  "read_param cnf model bits =
     (let limbs = for_up (length bits)
            (\<lambda>k l. if cnf_value cnf (bits ! k) model then l[k div 64 := l ! (k div 64) OR push_bit (k mod 64) 1] else l)
            (replicate 8 0);
          w = (case ok_of (Width_new (length bits)) of Some w \<Rightarrow> w | None \<Rightarrow> 1)
      in wrapping_from_limbs w limbs)"

text \<open>The check of a counterexample by the concrete evaluator.\<close>

definition counterexample_checks :: "Rule \<Rightarrow> nat list \<Rightarrow> BitVec list \<Rightarrow> bool" where
  "counterexample_checks rule ws ps =
     (let ls = eval_lets rule ws ps;
          holds = (case r_guard rule of
              None \<Rightarrow> True
            | Some gd \<Rightarrow> (case rule_eval rule ws ps ls gd of Some v \<Rightarrow> val_truthy v | None \<Rightarrow> False));
          differs = (case (Option.bind (rule_eval rule ws ps ls (r_lhs rule)) val_bv,
                           Option.bind (rule_eval rule ws ps ls (r_rhs rule)) val_bv) of
              (Some a, Some b) \<Rightarrow> a \<noteq> b
            | _ \<Rightarrow> False)
      in holds \<and> differs)"

end
