(* ===== verification/Rule_Sound.thy ===== *)
theory Rule_Sound
  imports Rule_Prove
begin

unbundle bit_operations_syntax

declare One_nat_def [simp del]

text \<open>
  The symbolic evaluator of rules computes what the concrete one does, under every assignment of
  the inputs, and the proof of an obligation proves the rule at its widths.
\<close>

section \<open>Words and conditions that have the value\<close>

definition word_has :: "(nat \<Rightarrow> bool) \<Rightarrow> Aig \<Rightarrow> L list \<Rightarrow> BitVec \<Rightarrow> bool" where
  "word_has \<rho> g b v \<longleftrightarrow> bv_ok v \<and> num \<rho> g (bv_width v) b (bv_val v)"

fun sval_has :: "(nat \<Rightarrow> bool) \<Rightarrow> Aig \<Rightarrow> SVal \<Rightarrow> Val \<Rightarrow> bool" where
  "sval_has \<rho> g (SBv b) (VBv v) = word_has \<rho> g b v"
| "sval_has \<rho> g (SBool l) (VBool p) = lit \<rho> g l p"
| "sval_has \<rho> g _ _ = False"

lemma word_has_okw: "okw w v \<Longrightarrow> word_has \<rho> g b v \<longleftrightarrow> num \<rho> g w b (bv_val v)"
  by (auto simp: word_has_def okw_def)

lemma word_has_mono: "word_has \<rho> g b v \<Longrightarrow> aig_le g g' \<Longrightarrow> word_has \<rho> g' b v"
  by (auto simp: word_has_def intro: num_mono)

lemma sval_has_mono: "sval_has \<rho> g s v \<Longrightarrow> aig_le g g' \<Longrightarrow> sval_has \<rho> g' s v"
  by (cases s; cases v) (auto intro: word_has_mono lit_mono)

definition memo_has :: "(nat \<Rightarrow> bool) \<Rightarrow> (NodeId \<Rightarrow> Val option) \<Rightarrow> Aig \<Rightarrow> SVal option list \<Rightarrow> bool" where
  "memo_has \<rho> ev g memo \<longleftrightarrow> (\<forall>k<length memo. \<forall>s. memo ! k = Some s \<longrightarrow> (\<exists>v. ev k = Some v \<and> sval_has \<rho> g s v))"

lemma memo_has_mono: "memo_has \<rho> ev g memo \<Longrightarrow> aig_le g g' \<Longrightarrow> memo_has \<rho> ev g' memo"
  unfolding memo_has_def by (meson sval_has_mono)

lemma memo_has_put:
  assumes "memo_has \<rho> ev g memo" "ev n = Some v" "sval_has \<rho> g s v"
  shows "memo_has \<rho> ev g (memo[n := Some s])"
  unfolding memo_has_def
proof (intro allI impI)
  fix k t assume "k < length (memo[n := Some s])" "memo[n := Some s] ! k = Some t"
  then show "\<exists>v. ev k = Some v \<and> sval_has \<rho> g t v"
    using assms unfolding memo_has_def by (cases "k = n") auto
qed

lemma memo_has_fresh: "memo_has \<rho> ev g (replicate n None)"
  by (simp add: memo_has_def)

text \<open>What an evaluation leaves: the value and a memo of the same length that is right.\<close>

definition sym_post :: "(nat \<Rightarrow> bool) \<Rightarrow> (NodeId \<Rightarrow> Val option) \<Rightarrow> nat \<Rightarrow> Val \<Rightarrow> Aig \<Rightarrow> SVal \<times> SVal option list \<Rightarrow> bool" where
  "sym_post \<rho> ev k v g r \<longleftrightarrow> sval_has \<rho> g (fst r) v \<and> memo_has \<rho> ev g (snd r) \<and> length (snd r) = k"

lemma nonzero_bits: "n < 2 ^ w \<Longrightarrow> (\<exists>p\<in>set (map (bit n) [0..<w]). p) \<longleftrightarrow> (n::nat) \<noteq> 0"
proof
  assume n: "n < 2 ^ w" "n \<noteq> 0"
  then obtain i where i: "bit n i" by (auto simp: bit_eq_iff)
  then have "i < w" using bit_nat_less n(1) by blast
  then show "\<exists>p\<in>set (map (bit n) [0..<w]). p" using i by auto
qed (cases "n = 0", auto)

lemma or_all_num: "num \<rho> g w b n \<Longrightarrow> gives g (or_all b g) (\<lambda>g' l. lit \<rho> g' l (n \<noteq> 0))"
  using or_all_gives [OF lits_num] nonzero_bits [OF numD(2)] by simp

lemma sv_truthy_gives:
  assumes "sval_has \<rho> g s v"
  shows "gives g (sv_truthy s g) (\<lambda>g' l. lit \<rho> g' l (val_truthy v))"
proof (cases s)
  case (SBool l)
  then show ?thesis using assms by (cases v) (auto intro: gives_return)
next
  case (SBv b)
  with assms obtain x where v: "v = VBv x" and x: "word_has \<rho> g b x" by (cases v) auto
  then have n: "num \<rho> g (bv_width x) b (bv_val x)" and ok: "bv_ok x" by (simp_all add: word_has_def)
  show ?thesis using or_all_num [OF n] SBv v bv_inspect(3) [OF ok] by simp
qed

section \<open>Predicates\<close>

lemma okw_zero: "okw w v \<Longrightarrow> bv_is_zero v \<longleftrightarrow> bv_val v = 0"
  using bv_inspect(3) okwD(1) by blast

lemma okw_and_val: "okw w x \<Longrightarrow> okw w y \<Longrightarrow> bv_val (bv_and x y) = bv_val x AND bv_val y"
  by (simp add: bv_and_def okw_bin sem_bin_def)

lemma okw_or_val: "okw w x \<Longrightarrow> okw w y \<Longrightarrow> bv_val (bv_or x y) = bv_val x OR bv_val y"
  by (simp add: bv_or_def okw_bin sem_bin_def)

lemma okw_cmp_sem: "okw w x \<Longrightarrow> okw w y \<Longrightarrow> cmp_unchecked op x y = sem_cmp op w (bv_val x) (bv_val y)"
  using cmp_unchecked_correct [of x y op] by (simp add: okw_def)

lemma clear_last_num:
  assumes "num \<rho> g w b n" "0 < w" "aig_inv g"
  shows "num \<rho> g w (clear_last b) (n mod 2 ^ (w - 1))"
proof (rule numI)
  note l = numD(1) [OF assms(1)]
  have b: "b \<noteq> []" using l assms(2) by auto
  show "length (clear_last b) = w" using b l assms(2) by (simp add: clear_last_def)
  have "n mod 2 ^ (w - 1) < 2 ^ (w - 1)" by simp
  also have "\<dots> \<le> 2 ^ w" by (rule power_increasing) simp_all
  finally show "n mod 2 ^ (w - 1) < 2 ^ w" .
  show "lit \<rho> g (clear_last b ! i) (bit (n mod 2 ^ (w - 1)) i)" if "i < w" for i
  proof -
    have m: "bit (n mod 2 ^ (w - 1)) i \<longleftrightarrow> i < w - 1 \<and> bit n i"
      by (simp only: take_bit_eq_mod [symmetric] bit_take_bit_iff)
    show ?thesis
    proof (cases "i < w - 1")
      case True
      then have "clear_last b ! i = b ! i" using b l by (simp add: clear_last_def nth_append nth_butlast)
      then show ?thesis using numD(3) [OF assms(1) that] True m by simp
    next
      case False
      then have "i = length (butlast b)" using that l by simp
      then have "clear_last b ! i = FALSE" using b by (simp add: clear_last_def del: length_butlast)
      then show ?thesis using lit_const(1) [OF assms(3), of \<rho>] False m by simp
    qed
  qed
qed

lemma magnitude:
  assumes "okw w x"
  shows "okw w (bv_and x (bv_smax w))" "bv_val (bv_and x (bv_smax w)) = bv_val x mod 2 ^ (w - 1)"
proof -
  have s: "okw w (bv_smax w)" by (rule okw_const(5) [OF okwD(3) [OF assms]])
  show "okw w (bv_and x (bv_smax w))" by (rule okw_bits(7) [OF assms s])
  have "bv_val (bv_smax w) = mask (w - 1)"
    using bv_smax_correct(2) [OF okwD(3) [OF assms]] by (simp add: mask_eq_exp_minus_1)
  then show "bv_val (bv_and x (bv_smax w)) = bv_val x mod 2 ^ (w - 1)"
    by (simp add: okw_and_val [OF assms s] flip: take_bit_eq_mask take_bit_eq_mod)
qed

lemma fact_circuit_gives:
  assumes x: "okw w x" and m: "okw w m" and xb: "num \<rho> g w xb (bv_val x)" and mb: "num \<rho> g w mb (bv_val m)"
    and p: "p \<notin> {Proves, OneUse, NonZero}"
  shows "gives g (fact_circuit p xb (Some mb) g) (\<lambda>g' l. lit \<rho> g' l (fact_pred p x m))"
proof (rule gives_inv)
  assume inv: "aig_inv g"
  have w: "0 < w" "bv_width x = w" using okwD [OF x] by simp_all
  note am = okw_and_val [OF x m] and az = okw_zero [OF okw_bits(7) [OF x m]]
  have disjoint: "gives g (do { (a, g) \<leftarrow> blast_and xb mb g; (r, g) \<leftarrow> or_all a g; Some (r XOR 1, g) })
      (\<lambda>g' l. lit \<rho> g' l (bv_is_zero (bv_and x m)))"
  proof (rule gives_bind [OF blast_and_gives [OF xb mb]], goal_cases)
    case (1 a g1)
    show ?case unfolding prod.case
      by (rule gives_bind [OF or_all_num [OF 1(2)]]) (auto intro!: gives_return simp: az am)
  qed
  have one: "gives g (do { (a, g) \<leftarrow> blast_and xb mb g; blast_eq a mb g }) (\<lambda>g' l. lit \<rho> g' l (bv_and x m = m))"
  proof (rule gives_bind [OF blast_and_gives [OF xb mb]], goal_cases)
    case (1 a g1)
    have "bv_and x m = m \<longleftrightarrow> bv_val x AND bv_val m = bv_val m"
      using okw_eqI [OF okw_bits(7) [OF x m] m] am by auto
    then show ?case unfolding prod.case blast_eq_def using eq_bits_gives [OF 1(2) num_mono [OF mb 1(1)]] by simp
  qed
  note mag = magnitude [OF x] and cl = clear_last_num [OF xb w(1) inv]
  show "gives g (fact_circuit p xb (Some mb) g) (\<lambda>g' l. lit \<rho> g' l (fact_pred p x m))"
  proof (cases p)
    case FpNotNan
    then show ?thesis using blast_ule_gives [OF cl mb] by (simp add: fact_circuit_def w(2) okw_cmp_sem [OF mag(1) m] mag(2) sem_cmp_def)
  next
    case FpFinite
    then show ?thesis using blast_ult_gives [OF cl mb] by (simp add: fact_circuit_def w(2) okw_cmp_sem [OF mag(1) m] mag(2) sem_cmp_def)
  next
    case FpNonZero
    then show ?thesis using or_all_num [OF cl] by (simp add: fact_circuit_def w(2) okw_zero [OF mag(1)] mag(2))
  qed (use disjoint one p in \<open>simp_all add: fact_circuit_def\<close>)
qed

lemma const_circuit_gives:
  assumes c: "okw w c" and cb: "num \<rho> g w cb (bv_val c)"
  shows "gives g (const_circuit p cb g) (\<lambda>g' l. lit \<rho> g' l (const_pred p c))"
proof (rule gives_inv)
  assume inv: "aig_inv g"
  have w: "0 < w" "bv_width c = w" "length cb = w" using okwD [OF c] numD(1) [OF cb] by simp_all
  have o: "okw w (bv_one w)" "bv_val (bv_one w) = 1" using okw_const(2) [OF okwD(3) [OF c]] bv_const(4) [OF okwD(3) [OF c]] w(1) by simp_all
  have one: "num \<rho> g w (small_bits w 1) 1" using num_small_bits [OF inv, of \<rho> w 1] w(1) by simp
  note z = okw_zero [OF c]
  have tail: "gives g (do { (nz, g) \<leftarrow> or_all cb g; (z, g) \<leftarrow> or_all a g; aig_and nz (z XOR 1) g }) (\<lambda>g' l. lit \<rho> g' l (bv_val c \<noteq> 0 \<and> k = 0))"
    if "num \<rho> g w cb (bv_val c)" "num \<rho> g w a k" for g a k
  proof (rule gives_bind [OF or_all_num [OF that(1)]], goal_cases)
    case (1 nz g1)
    show ?case unfolding prod.case
    proof (rule gives_bind [OF or_all_num [OF num_mono [OF that(2) 1(1)]]], goal_cases)
      case (1 z g2)
      from 1(2) have "lit \<rho> g2 (z XOR 1) (k = 0)" by simp
      then show ?case unfolding prod.case using aig_and_gives [OF lit_mono [OF \<open>lit \<rho> g1 nz _\<close> 1(1)]] by blast
    qed
  qed
  show "gives g (const_circuit p cb g) (\<lambda>g' l. lit \<rho> g' l (const_pred p c))"
  proof (cases p)
    case IsPow2
    have "gives g (do { (cnt, g) \<leftarrow> blast_popcnt cb g; blast_eq cnt (small_bits w 1) g }) (\<lambda>g' l. lit \<rho> g' l (bv_count_ones c = 1))"
    proof (rule gives_bind [OF blast_popcnt_gives [OF cb w(1)]], goal_cases)
      case (1 cnt g1)
      show ?case unfolding prod.case blast_eq_def using eq_bits_gives [OF 1(2) num_mono [OF one 1(1)]]
        by (simp add: bv_count_ones_rank [OF c] sem_un_def)
    qed
    then show ?thesis using IsPow2 by (simp add: const_circuit_def Let_def w(3) const_pred_def)
  next
    case IsLowMask
    have a: "okw w (bin_unchecked BAdd c (bv_one w))" "bv_val (bin_unchecked BAdd c (bv_one w)) = (bv_val c + 1) mod 2 ^ w"
      using okw_bin [OF c o(1), of BAdd] o(2) by (simp_all add: sem_bin_def)
    have v: "const_pred IsLowMask c \<longleftrightarrow> bv_val c \<noteq> 0 \<and> bv_val c AND ((bv_val c + 1) mod 2 ^ w) = 0"
      by (simp add: const_pred_def Let_def w(2) z okw_zero [OF okw_bits(7) [OF c a(1)]] okw_and_val [OF c a(1)] a(2))
    show ?thesis unfolding IsLowMask v const_circuit_def Let_def w(3) ConstPred.case
    proof (rule gives_bind [OF blast_add_gives [OF cb one]], goal_cases)
      case (1 c1 g1)
      show ?case unfolding prod.case
      proof (rule gives_bind [OF blast_and_gives [OF num_mono [OF cb 1(1)] 1(2)]], goal_cases)
        case (1 a g2)
        show ?case unfolding prod.case
          by (rule tail [OF num_mono [OF cb aig_le_trans [OF \<open>aig_le g g1\<close> 1(1)]] 1(2)])
      qed
    qed
  next
    case IsShiftedMask
    have s: "okw w (bin_unchecked BSub c (bv_one w))" "bv_val (bin_unchecked BSub c (bv_one w)) = (bv_val c + (2 ^ w - 1)) mod 2 ^ w"
      using okw_bin [OF c o(1), of BSub] o(2) by (simp_all add: sem_bin_def)
    define f where "f = bv_or c (bin_unchecked BSub c (bv_one w))"
    have f: "okw w f" "bv_val f = bv_val c OR ((bv_val c + (2 ^ w - 1)) mod 2 ^ w)"
      using okw_bits(9) [OF c s(1)] okw_or_val [OF c s(1)] s(2) by (simp_all add: f_def)
    have a: "okw w (bin_unchecked BAdd f (bv_one w))" "bv_val (bin_unchecked BAdd f (bv_one w)) = (bv_val f + 1) mod 2 ^ w"
      using okw_bin [OF f(1) o(1), of BAdd] o(2) by (simp_all add: sem_bin_def)
    have v: "const_pred IsShiftedMask c \<longleftrightarrow> bv_val c \<noteq> 0 \<and> bv_val f AND ((bv_val f + 1) mod 2 ^ w) = 0"
      by (simp add: const_pred_def Let_def w(2) z okw_zero [OF okw_bits(7) [OF f(1) a(1)]] okw_and_val [OF f(1) a(1)] a(2) flip: f_def)
    show ?thesis unfolding IsShiftedMask v const_circuit_def Let_def w(3) ConstPred.case
    proof (rule gives_bind [OF blast_sub_gives [OF cb one]], goal_cases)
      case (1 c1 g1)
      note l1 = 1(1)
      show ?case unfolding prod.case
      proof (rule gives_bind [OF blast_or_gives [OF num_mono [OF cb l1] 1(2)]], goal_cases)
        case (1 fb g2)
        note l2 = aig_le_trans [OF l1 1(1)]
        have fb: "num \<rho> g2 w fb (bv_val f)" unfolding f(2) by (rule 1(2))
        show ?case unfolding prod.case
        proof (rule gives_bind [OF blast_add_gives [OF fb num_mono [OF one l2]]], goal_cases)
          case (1 f1 g3)
          note l3 = aig_le_trans [OF l2 1(1)]
          show ?case unfolding prod.case
          proof (rule gives_bind [OF blast_and_gives [OF num_mono [OF fb 1(1)] 1(2)]], goal_cases)
            case (1 a g4)
            show ?case unfolding prod.case by (rule tail [OF num_mono [OF cb aig_le_trans [OF l3 1(1)]] 1(2)])
          qed
        qed
      qed
    qed
  qed
qed

section \<open>The symbolic evaluator computes the concrete one\<close>

definition bits_post :: "(nat \<Rightarrow> bool) \<Rightarrow> (NodeId \<Rightarrow> Val option) \<Rightarrow> nat \<Rightarrow> BitVec \<Rightarrow> Aig \<Rightarrow> L list \<times> SVal option list \<Rightarrow> bool" where
  "bits_post \<rho> ev k v g r \<longleftrightarrow> word_has \<rho> g (fst r) v \<and> memo_has \<rho> ev g (snd r) \<and> length (snd r) = k"

lemma gives_bind2:
  assumes "gives g r P" "\<And>x m g'. aig_le g g' \<Longrightarrow> P g' (x, m) \<Longrightarrow> gives g' (f x m g') Q"
  shows "gives g (do { ((x, m), g) \<leftarrow> r; f x m g }) Q"
  by (rule gives_bind [OF assms(1)]) (auto intro: assms(2))

lemma bits_gives:
  assumes "gives g r (sym_post \<rho> ev k (VBv x))"
  shows "gives g (do { ((v, memo), g) \<leftarrow> r; b \<leftarrow> sv_bits v; Some ((b, memo), g) }) (bits_post \<rho> ev k x)"
proof (rule gives_bind2 [OF assms], goal_cases)
  case (1 v m g')
  then obtain b where "v = SBv b" by (cases v) (auto simp: sym_post_def)
  then show ?case using 1 by (auto intro!: gives_return simp: sym_post_def bits_post_def)
qed

lemma word_result:
  assumes "gives g r (\<lambda>g' b. num \<rho> g' w b (bv_val z))" "okw w z" "memo_has \<rho> ev g m" "length m = k"
  shows "gives g (do { (b, g) \<leftarrow> r; Some ((SBv b, m), g) }) (sym_post \<rho> ev k (VBv z))"
  by (rule gives_bind [OF assms(1)])
    (use assms(2-4) in \<open>auto intro!: gives_return intro: memo_has_mono simp: sym_post_def word_has_okw\<close>)

lemma bool_result:
  assumes "gives g r (\<lambda>g' b. lit \<rho> g' b p)" "memo_has \<rho> ev g m" "length m = k"
  shows "gives g (do { (b, g) \<leftarrow> r; Some ((SBool b, m), g) }) (sym_post \<rho> ev k (VBool p))"
  by (rule gives_bind [OF assms(1)])
    (use assms(2,3) in \<open>auto intro!: gives_return intro: memo_has_mono simp: sym_post_def\<close>)

text \<open>The memo: a known node is returned, and a computed one is kept.\<close>

lemma sym_step:
  assumes "n < length memo" "memo_has \<rho> ev g memo" "length memo = k" "ev n = Some v"
    "gives g body (sym_post \<rho> ev k v)"
  shows "gives g (do {
      known \<leftarrow> at memo n;
      case known of
        Some s \<Rightarrow> Some ((s, memo), g)
      | None \<Rightarrow> do { ((s, memo), g) \<leftarrow> body; Some ((s, memo[n := Some s]), g) } }) (sym_post \<rho> ev k v)"
proof -
  have a: "at memo n = Some (memo ! n)" using assms(1) by (simp add: at_def)
  show ?thesis
  proof (cases "memo ! n")
    case None
    show ?thesis unfolding a Option.bind.bind_lunit None option.case
      by (rule gives_bind2 [OF assms(5)]) (auto intro!: gives_return memo_has_put simp: sym_post_def assms(4))
  next
    case (Some s)
    then have "sval_has \<rho> g s v" using assms(1,2,4) by (auto simp: memo_has_def)
    then show ?thesis unfolding a Option.bind.bind_lunit Some option.case
      using assms(2,3) by (auto intro!: gives_return simp: sym_post_def)
  qed
qed

text \<open>The words of the parameters and of the lets.\<close>

definition env_has :: "(nat \<Rightarrow> bool) \<Rightarrow> Aig \<Rightarrow> L list list \<Rightarrow> BitVec list \<Rightarrow> L list option list \<Rightarrow> BitVec option list \<Rightarrow> bool" where
  "env_has \<rho> g pb ps lb ls \<longleftrightarrow> list_all2 (word_has \<rho> g) pb ps \<and> list_all2 (rel_option (word_has \<rho> g)) lb ls"

lemma env_has_mono: "env_has \<rho> g pb ps lb ls \<Longrightarrow> aig_le g g' \<Longrightarrow> env_has \<rho> g' pb ps lb ls"
  unfolding env_has_def
  by (auto elim!: list_all2_mono option.rel_mono_strong intro: word_has_mono)

lemma bits_postD:
  assumes "bits_post \<rho> ev k x g (b, m)"
  shows "word_has \<rho> g b x" "okw w x \<Longrightarrow> num \<rho> g w b (bv_val x)" "memo_has \<rho> ev g m" "length m = k"
  using assms by (simp_all add: bits_post_def flip: word_has_okw)

lemma sym_postD:
  assumes "sym_post \<rho> ev k v g (s, m)"
  shows "sval_has \<rho> g s v" "memo_has \<rho> ev g m" "length m = k"
  using assms by (simp_all add: sym_post_def)

lemma sym_within_gives:
  assumes "well_sorted rule ws pw lw n s" "term_checked rule ws n"
    "list_all2 okw pw ps" "list_all2 (\<lambda>w v. \<exists>x. v = Some x \<and> okw w x) lw ls"
    "env_has \<rho> g pb ps lb ls" "memo_has \<rho> (rule_eval rule ws ps ls) g memo" "length memo = length (r_nodes rule)"
    "n < d" "rule_eval rule ws ps ls n = Some v"
  shows "gives g (sym_within d rule ws pb lb n memo g) (sym_post \<rho> (rule_eval rule ws ps ls) (length (r_nodes rule)) v)"
proof -
  let ?ev = "rule_eval rule ws ps ls" and ?k = "length (r_nodes rule)"
  have unfold: "rule_eval rule ws ps ls n = eval_within (Suc (length (r_nodes rule))) rule ws ps ls n"
    if "well_sorted rule ws pw lw n s" for n s by (rule rule_eval_unfold [OF that])
  note simps = eval_within.simps(2) Let_def Option.bind.bind_lunit RNode.case rule_eval_def [symmetric]
  have kidc: "term_checked rule ws c"
    if "term_checked rule ws n" "at (r_nodes rule) n = Some node" "c \<in> set (children node)" for n c node
    using that unfolding term_checked_def by (meson under_step)
  have bvval: "\<exists>x. ?ev c = Some (VBv x) \<and> okw w x" if "term_checked rule ws c" "well_sorted rule ws pw lw c (Some w)" for c w
    using term_evaluates [OF that(2,1) assms(3,4)] by (auto simp: val_ok_Some)
  have anyval: "\<exists>x. ?ev c = Some x" if "term_checked rule ws c" "well_sorted rule ws pw lw c t" for c t
    using term_evaluates [OF that(2,1) assms(3,4)] by auto
  have self: "\<exists>strict. node_check rule ws strict n = Some True" if "term_checked rule ws n" for n
    using that under_refl unfolding term_checked_def by blast
  show ?thesis using assms(1,2,5-9)
  proof (induction arbitrary: g memo d v rule: well_sorted.induct)
    case (ws_param n i)
    note node = ws_param.hyps(1) and pr = ws_param.prems
    note u = unfold [OF well_sorted.ws_param [OF ws_param.hyps]] and sorted = well_sorted.ws_param [OF ws_param.hyps]
    obtain e where d: "d = Suc e" "n \<le> e" using pr(5) by (cases d) auto
    have nlt: "n < length memo" using well_sorted_in [OF sorted] pr(4) by simp
    note step = sym_step [OF nlt pr(3,4)]
    have i: "i < length pb" "i < length ps" "word_has \<rho> g (pb ! i) (ps ! i)"
      using pr(2) ws_param.hyps(2) assms(3) by (auto simp: env_has_def list_all2_conv_all_nth)
    have v: "v = VBv (ps ! i)" using pr(6) unfolding u simps node by (simp add: at_def i)
    show ?case unfolding d(1) sym_within.simps(2) Let_def
      by (rule step [OF pr(6)], unfold node Option.bind.bind_lunit RNode.case)
        (use i pr(3,4) in \<open>auto intro!: gives_return simp: at_def v sym_post_def\<close>)
  next
    case (ws_let n i)
    note node = ws_let.hyps(1) and pr = ws_let.prems
    note u = unfold [OF well_sorted.ws_let [OF ws_let.hyps]] and sorted = well_sorted.ws_let [OF ws_let.hyps]
    obtain e where d: "d = Suc e" "n \<le> e" using pr(5) by (cases d) auto
    have nlt: "n < length memo" using well_sorted_in [OF sorted] pr(4) by simp
    note step = sym_step [OF nlt pr(3,4)]
    from assms(4) ws_let.hyps(2) obtain x where x: "i < length ls" "ls ! i = Some x" by (auto simp: list_all2_conv_all_nth)
    have "i < length lb" "rel_option (word_has \<rho> g) (lb ! i) (ls ! i)"
      using pr(2) x(1) by (auto simp: env_has_def list_all2_conv_all_nth)
    then obtain b where b: "i < length lb" "lb ! i = Some b" "word_has \<rho> g b x"
      unfolding x(2) option_rel_Some2 by blast
    have v: "v = VBv x" using pr(6) unfolding u simps node by (simp add: at_def x)
    show ?case unfolding d(1) sym_within.simps(2) Let_def
      by (rule step [OF pr(6)], unfold node Option.bind.bind_lunit RNode.case)
        (use b pr(3,4) in \<open>auto intro!: gives_return simp: at_def v sym_post_def\<close>)
  next
    case (ws_lit n l w)
    note node = ws_lit.hyps(1) and pr = ws_lit.prems
    note u = unfold [OF well_sorted.ws_lit [OF ws_lit.hyps]] and sorted = well_sorted.ws_lit [OF ws_lit.hyps]
    obtain e where d: "d = Suc e" "n \<le> e" using pr(5) by (cases d) auto
    have nlt: "n < length memo" using well_sorted_in [OF sorted] pr(4) by simp
    note step = sym_step [OF nlt pr(3,4)]
    from self [OF pr(1)] obtain strict where c: "node_check rule ws strict n = Some True" by blast
    note tw = the_width [OF ws_lit.hyps(3)] and ww = width_of_ok [OF ws_lit.hyps(3)]
    from literal_meaning [OF ww ws_lit.hyps(2) node_checkD(1) [OF c node ws_lit.hyps(3) refl]]
    obtain x where x: "literal l w ws = Some x" "okw w x" by (auto split: option.splits)
    have v: "v = VBv x" using pr(6) unfolding u simps node tw by (simp add: x)
    have body: "gives g (Some ((SBv (konst x), memo), g)) (sym_post \<rho> ?ev ?k v)"
    proof (rule gives_inv)
      assume "aig_inv g"
      from num_konst [OF this okwD(1) [OF x(2)]] show "gives g (Some ((SBv (konst x), memo), g)) (sym_post \<rho> ?ev ?k v)"
        using pr(3,4) okwD(1) [OF x(2)] by (auto intro!: gives_return simp: v sym_post_def word_has_def)
    qed
    show ?case unfolding d(1) sym_within.simps(2) Let_def
      by (rule step [OF pr(6)], unfold node Option.bind.bind_lunit RNode.case tw x(1), rule body)
  next
    case (ws_un n op a w)
    note node = ws_un.hyps(1) and pr = ws_un.prems
    note u = unfold [OF well_sorted.ws_un [OF ws_un.hyps]] and sorted = well_sorted.ws_un [OF ws_un.hyps]
    obtain e where d: "d = Suc e" "n \<le> e" using pr(5) by (cases d) auto
    have nlt: "n < length memo" using well_sorted_in [OF sorted] pr(4) by simp
    note step = sym_step [OF nlt pr(3,4)]
    have ka: "term_checked rule ws a" by (rule kidc [OF pr(1) node]) simp
    from bvval [OF ka ws_un.hyps(3)] obtain x where x: "?ev a = Some (VBv x)" "okw w x" by blast
    have ea: "a < e" using ws_un.hyps(2) d(2) by simp
    from self [OF pr(1)] obtain strict where c: "node_check rule ws strict n = Some True" by blast
    note sw = node_checkD(2) [OF c node ws_un.hyps(4)]
    from okw_apply_un [OF x(2), of op] sw obtain z where z: "ok_of (apply_un op x) = Some z" "okw w z" "bv_val z = sem_un op w (bv_val x)" by blast
    have v: "v = VBv z" using pr(6) unfolding u simps node by (simp add: x(1) z(1))
    show ?case unfolding d(1) sym_within.simps(2) Let_def
    proof (rule step [OF pr(6)], unfold node Option.bind.bind_lunit RNode.case, rule gives_bind2 [OF bits_gives [OF ws_un.IH [OF ka pr(2-4) ea x(1)]]], goal_cases)
      case (1 ab m1 g1)
      note A = bits_postD [OF 1(2)]
      note na = A(2) [OF x(2)]
      have sw': "op = UBswap \<Longrightarrow> w mod 8 = 0" using sw by blast
      have R: "gives g1 (rule_un op ab g1) (\<lambda>g' r. num \<rho> g' w r (bv_val z))"
        unfolding z(3) by (rule rule_un_gives [OF na okwD(3) [OF x(2)] sw'])
      show ?case unfolding v by (rule word_result [OF R z(2) A(3,4)])
    qed
  next
    case (ws_zext n a va w)
    note node = ws_zext.hyps(1) and pr = ws_zext.prems
    note u = unfold [OF well_sorted.ws_zext [OF ws_zext.hyps]] and sorted = well_sorted.ws_zext [OF ws_zext.hyps]
    obtain e where d: "d = Suc e" "n \<le> e" using pr(5) by (cases d) auto
    have nlt: "n < length memo" using well_sorted_in [OF sorted] pr(4) by simp
    note step = sym_step [OF nlt pr(3,4)]
    have ka: "term_checked rule ws a" by (rule kidc [OF pr(1) node]) simp
    from bvval [OF ka ws_zext.hyps(3)] obtain x where x: "?ev a = Some (VBv x)" "okw va x" by blast
    have ea: "a < e" using ws_zext.hyps(2) d(2) by simp
    from self [OF pr(1)] obtain strict where c: "node_check rule ws strict n = Some True" by blast
    note tw = the_width [OF ws_zext.hyps(4)]
    have le: "va \<le> w" by (rule node_checkD(3) [OF c node ws_zext.hyps(4) refl well_sorted_width [OF ws_zext.hyps(3) refl]])
    from okw_ext(1) [OF x(2) width_of_ok [OF ws_zext.hyps(4)] le] obtain z where z: "ok_of (bv_zext x w) = Some z" "okw w z" "bv_val z = bv_val x" by blast
    have v: "v = VBv z" using pr(6) unfolding u simps node tw by (simp add: x(1) z(1))
    show ?case unfolding d(1) sym_within.simps(2) Let_def
    proof (rule step [OF pr(6)], unfold node Option.bind.bind_lunit RNode.case, rule gives_bind2 [OF bits_gives [OF ws_zext.IH [OF ka pr(2-4) ea x(1)]]], goal_cases)
      case (1 ab m1 g1)
      note A = bits_postD [OF 1(2)]
      note na = A(2) [OF x(2)]
      show ?case unfolding tw Option.bind.bind_lunit
      proof (rule gives_inv)
        assume inv: "aig_inv g1"
        have "num \<rho> g1 w (resize w FALSE ab) (bv_val z)" unfolding z(3) by (rule resize_num [OF na le inv])
        then show "gives g1 (Some ((SBv (resize w FALSE ab), m1), g1)) (sym_post \<rho> ?ev ?k v)"
          using A(3,4) by (auto intro!: gives_return simp: v sym_post_def word_has_okw [OF z(2)])
      qed
    qed
  next
    case (ws_sext n a va w)
    note node = ws_sext.hyps(1) and pr = ws_sext.prems
    note u = unfold [OF well_sorted.ws_sext [OF ws_sext.hyps]] and sorted = well_sorted.ws_sext [OF ws_sext.hyps]
    obtain e where d: "d = Suc e" "n \<le> e" using pr(5) by (cases d) auto
    have nlt: "n < length memo" using well_sorted_in [OF sorted] pr(4) by simp
    note step = sym_step [OF nlt pr(3,4)]
    have ka: "term_checked rule ws a" by (rule kidc [OF pr(1) node]) simp
    from bvval [OF ka ws_sext.hyps(3)] obtain x where x: "?ev a = Some (VBv x)" "okw va x" by blast
    have ea: "a < e" using ws_sext.hyps(2) d(2) by simp
    from self [OF pr(1)] obtain strict where c: "node_check rule ws strict n = Some True" by blast
    note tw = the_width [OF ws_sext.hyps(4)]
    have le: "va \<le> w" by (rule node_checkD(4) [OF c node ws_sext.hyps(4) refl well_sorted_width [OF ws_sext.hyps(3) refl]])
    from okw_ext(2) [OF x(2) width_of_ok [OF ws_sext.hyps(4)] le] obtain z where z: "ok_of (bv_sext x w) = Some z" "okw w z" "bv_val z = sem_sext va w (bv_val x)" by blast
    have v: "v = VBv z" using pr(6) unfolding u simps node tw by (simp add: x(1) z(1))
    show ?case unfolding d(1) sym_within.simps(2) Let_def
    proof (rule step [OF pr(6)], unfold node Option.bind.bind_lunit RNode.case, rule gives_bind2 [OF bits_gives [OF ws_sext.IH [OF ka pr(2-4) ea x(1)]]], goal_cases)
      case (1 ab m1 g1)
      note A = bits_postD [OF 1(2)]
      note na = A(2) [OF x(2)]
      show ?case unfolding tw Option.bind.bind_lunit
      proof (rule gives_inv)
        assume inv: "aig_inv g1"
        have "num \<rho> g1 w (resize w (last_or_false ab) ab) (bv_val z)" unfolding z(3) by (rule sext_num [OF na okwD(5) [OF x(2)] le])
        then show "gives g1 (Some ((SBv (resize w (last_or_false ab) ab), m1), g1)) (sym_post \<rho> ?ev ?k v)"
          using A(3,4) by (auto intro!: gives_return simp: v sym_post_def word_has_okw [OF z(2)])
      qed
    qed
  next
    case (ws_extract n lo a va w)
    note node = ws_extract.hyps(1) and pr = ws_extract.prems
    note u = unfold [OF well_sorted.ws_extract [OF ws_extract.hyps]] and sorted = well_sorted.ws_extract [OF ws_extract.hyps]
    obtain e where d: "d = Suc e" "n \<le> e" using pr(5) by (cases d) auto
    have nlt: "n < length memo" using well_sorted_in [OF sorted] pr(4) by simp
    note step = sym_step [OF nlt pr(3,4)]
    have ka: "term_checked rule ws a" by (rule kidc [OF pr(1) node]) simp
    from bvval [OF ka ws_extract.hyps(3)] obtain x where x: "?ev a = Some (VBv x)" "okw va x" by blast
    have ea: "a < e" using ws_extract.hyps(2) d(2) by simp
    from self [OF pr(1)] obtain strict where c: "node_check rule ws strict n = Some True" by blast
    note tw = the_width [OF ws_extract.hyps(4)]
    from node_checkD(5) [OF c node ws_extract.hyps(4) refl well_sorted_width [OF ws_extract.hyps(3) refl]]
    obtain j where j: "wexpr_eval lo ws = Some j" "0 \<le> j" "j + int w \<le> int va" by blast
    have "va \<le> 512" using okwD(3) [OF x(2)] by (simp add: width_ok_def)
    then have lt: "\<not> (j < 0 \<or> j \<ge> 2 ^ 16)" and le: "nat j + w \<le> va" using j(2,3) by auto
    from okw_extract [OF x(2) width_of_ok [OF ws_extract.hyps(4)] le] obtain z where
      z: "ok_of (bv_extract x (nat j) w) = Some z" "okw w z" "bv_val z = sem_extract (nat j) w (bv_val x)" by blast
    have v: "v = VBv z" using pr(6) unfolding u simps node tw j(1) if_not_P [OF lt] by (simp add: x(1) z(1))
    show ?case unfolding d(1) sym_within.simps(2) Let_def
    proof (rule step [OF pr(6)], unfold node Option.bind.bind_lunit RNode.case, rule gives_bind2 [OF bits_gives [OF ws_extract.IH [OF ka pr(2-4) ea x(1)]]], goal_cases)
      case (1 ab m1 g1)
      note A = bits_postD [OF 1(2)]
      note na = A(2) [OF x(2)]
      have "num \<rho> g1 w (take w (drop (nat j) ab)) (bv_val x div 2 ^ nat j mod 2 ^ w)"
        by (rule num_take [OF num_drop [OF na]]) (use le in linarith)+
      then have n: "num \<rho> g1 w (take w (drop (nat j) ab)) (bv_val z)" by (simp add: z(3) sem_extract_def)
      have p: "0 \<le> j \<and> nat j + w \<le> length ab" using j(2) le numD(1) [OF na] by simp
      show ?case unfolding tw j(1) Option.bind.bind_lunit if_P [OF p]
        using n A(3,4) by (auto intro!: gives_return simp: v sym_post_def word_has_okw [OF z(2)])
    qed
  next
    case (ws_bin n op a b w)
    note node = ws_bin.hyps(1) and pr = ws_bin.prems
    note u = unfold [OF well_sorted.ws_bin [OF ws_bin.hyps]] and sorted = well_sorted.ws_bin [OF ws_bin.hyps]
    obtain e where d: "d = Suc e" "n \<le> e" using pr(5) by (cases d) auto
    have nlt: "n < length memo" using well_sorted_in [OF sorted] pr(4) by simp
    note step = sym_step [OF nlt pr(3,4)]
    have ka: "term_checked rule ws a" by (rule kidc [OF pr(1) node]) simp
    from bvval [OF ka ws_bin.hyps(4)] obtain x where x: "?ev a = Some (VBv x)" "okw w x" by blast
    have kb: "term_checked rule ws b" by (rule kidc [OF pr(1) node]) simp
    from bvval [OF kb ws_bin.hyps(5)] obtain y where y: "?ev b = Some (VBv y)" "okw w y" by blast
    have ea: "a < e" using ws_bin.hyps(2) d(2) by simp
    have eb: "b < e" using ws_bin.hyps(3) d(2) by simp
    from okw_apply_bin [OF x(2) y(2), of op] obtain z where z: "ok_of (apply_bin op x y) = Some z" "okw w z" "bv_val z = sem_bin op w (bv_val x) (bv_val y)" by blast
    have v: "v = VBv z" using pr(6) unfolding u simps node by (simp add: x(1) y(1) z(1))
    show ?case unfolding d(1) sym_within.simps(2) Let_def
    proof (rule step [OF pr(6)], unfold node Option.bind.bind_lunit RNode.case, rule gives_bind2 [OF bits_gives [OF ws_bin.IH(1) [OF ka pr(2-4) ea x(1)]]], goal_cases)
      case (1 ab m1 g1)
      note A = bits_postD [OF 1(2)] and l1 = 1(1)
      show ?case
      proof (rule gives_bind2 [OF bits_gives [OF ws_bin.IH(2) [OF kb env_has_mono [OF pr(2) l1] A(3,4) eb y(1)]]], goal_cases)
        case (1 bb m2 g2)
        note B = bits_postD [OF 1(2)] and l2 = 1(1)
        note na = num_mono [OF A(2) [OF x(2)] l2] and nb = B(2) [OF y(2)]
        have R: "gives g2 (rule_bin op ab bb g2) (\<lambda>g' r. num \<rho> g' w r (bv_val z))"
          unfolding z(3) by (rule rule_bin_gives [OF na nb okwD(3) [OF x(2)]])
        show ?case unfolding v by (rule word_result [OF R z(2) B(3,4)])
      qed
    qed
  next
    case (ws_cmp n op a b w)
    note node = ws_cmp.hyps(1) and pr = ws_cmp.prems
    note u = unfold [OF well_sorted.ws_cmp [OF ws_cmp.hyps]] and sorted = well_sorted.ws_cmp [OF ws_cmp.hyps]
    obtain e where d: "d = Suc e" "n \<le> e" using pr(5) by (cases d) auto
    have nlt: "n < length memo" using well_sorted_in [OF sorted] pr(4) by simp
    note step = sym_step [OF nlt pr(3,4)]
    have ka: "term_checked rule ws a" by (rule kidc [OF pr(1) node]) simp
    from bvval [OF ka ws_cmp.hyps(4)] obtain x where x: "?ev a = Some (VBv x)" "okw w x" by blast
    have kb: "term_checked rule ws b" by (rule kidc [OF pr(1) node]) simp
    from bvval [OF kb ws_cmp.hyps(5)] obtain y where y: "?ev b = Some (VBv y)" "okw w y" by blast
    have ea: "a < e" using ws_cmp.hyps(2) d(2) by simp
    have eb: "b < e" using ws_cmp.hyps(3) d(2) by simp
    define z where "z = from_bool (sem_cmp_ext op w (bv_val x) (bv_val y))"
    have z: "okw 1 z" "bv_val z = of_bool (sem_cmp_ext op w (bv_val x) (bv_val y))"
      using okw_from_bool from_bool_correct(3) by (simp_all add: z_def)
    have v: "v = VBv z" using pr(6) unfolding u simps node by (simp add: x(1) y(1) okw_apply_cmp [OF x(2) y(2)] z_def)
    show ?case unfolding d(1) sym_within.simps(2) Let_def
    proof (rule step [OF pr(6)], unfold node Option.bind.bind_lunit RNode.case, rule gives_bind2 [OF bits_gives [OF ws_cmp.IH(1) [OF ka pr(2-4) ea x(1)]]], goal_cases)
      case (1 ab m1 g1)
      note A = bits_postD [OF 1(2)] and l1 = 1(1)
      show ?case
      proof (rule gives_bind2 [OF bits_gives [OF ws_cmp.IH(2) [OF kb env_has_mono [OF pr(2) l1] A(3,4) eb y(1)]]], goal_cases)
        case (1 bb m2 g2)
        note B = bits_postD [OF 1(2)] and l2 = 1(1)
        note na = num_mono [OF A(2) [OF x(2)] l2] and nb = B(2) [OF y(2)]
        have R: "gives g2 (rule_cmp op ab bb g2) (\<lambda>g' r. num \<rho> g' 1 r (bv_val z))"
          unfolding z(2) by (rule rule_cmp_gives [OF na nb okwD(5) [OF x(2)]])
        show ?case unfolding v by (rule word_result [OF R z(1) B(3,4)])
      qed
    qed
  next
    case (ws_concat n a b va w)
    note node = ws_concat.hyps(1) and pr = ws_concat.prems
    note u = unfold [OF well_sorted.ws_concat [OF ws_concat.hyps]] and sorted = well_sorted.ws_concat [OF ws_concat.hyps]
    obtain e where d: "d = Suc e" "n \<le> e" using pr(5) by (cases d) auto
    have nlt: "n < length memo" using well_sorted_in [OF sorted] pr(4) by simp
    note step = sym_step [OF nlt pr(3,4)]
    have ka: "term_checked rule ws a" by (rule kidc [OF pr(1) node]) simp
    from bvval [OF ka ws_concat.hyps(4)] obtain x where x: "?ev a = Some (VBv x)" "okw va x" by blast
    have kb: "term_checked rule ws b" by (rule kidc [OF pr(1) node]) simp
    from bvval [OF kb ws_concat.hyps(5)] obtain y where y: "?ev b = Some (VBv y)" "okw w y" by blast
    have ea: "a < e" using ws_concat.hyps(2) d(2) by simp
    have eb: "b < e" using ws_concat.hyps(3) d(2) by simp
    from okw_concat [OF x(2) y(2) width_of_ok [OF ws_concat.hyps(6)]] obtain z where
      z: "ok_of (bv_concat x y) = Some z" "okw (va + w) z" "bv_val z = sem_concat w (bv_val x) (bv_val y)" by blast
    have v: "v = VBv z" using pr(6) unfolding u simps node by (simp add: x(1) y(1) z(1))
    show ?case unfolding d(1) sym_within.simps(2) Let_def
    proof (rule step [OF pr(6)], unfold node Option.bind.bind_lunit RNode.case, rule gives_bind2 [OF bits_gives [OF ws_concat.IH(1) [OF ka pr(2-4) ea x(1)]]], goal_cases)
      case (1 ab m1 g1)
      note A = bits_postD [OF 1(2)] and l1 = 1(1)
      show ?case
      proof (rule gives_bind2 [OF bits_gives [OF ws_concat.IH(2) [OF kb env_has_mono [OF pr(2) l1] A(3,4) eb y(1)]]], goal_cases)
        case (1 bb m2 g2)
        note B = bits_postD [OF 1(2)] and l2 = 1(1)
        note na = num_mono [OF A(2) [OF x(2)] l2] and nb = B(2) [OF y(2)]
        have "num \<rho> g2 (va + w) (bb @ ab) (bv_val z)"
          using num_append [OF nb na] by (simp add: z(3) sem_concat_def add.commute)
        then show ?case using B(3,4) by (auto intro!: gives_return simp: v sym_post_def word_has_okw [OF z(2)])
      qed
    qed
  next
    case (ws_select n c a b w)
    note node = ws_select.hyps(1) and pr = ws_select.prems
    note u = unfold [OF well_sorted.ws_select [OF ws_select.hyps]] and sorted = well_sorted.ws_select [OF ws_select.hyps]
    obtain e where d: "d = Suc e" "n \<le> e" using pr(5) by (cases d) auto
    have nlt: "n < length memo" using well_sorted_in [OF sorted] pr(4) by simp
    note step = sym_step [OF nlt pr(3,4)]
    have kc: "term_checked rule ws c" by (rule kidc [OF pr(1) node]) simp
    from bvval [OF kc ws_select.hyps(5)] obtain z where z: "?ev c = Some (VBv z)" "okw 1 z" by blast
    have ka: "term_checked rule ws a" by (rule kidc [OF pr(1) node]) simp
    from bvval [OF ka ws_select.hyps(6)] obtain x where x: "?ev a = Some (VBv x)" "okw w x" by blast
    have kb: "term_checked rule ws b" by (rule kidc [OF pr(1) node]) simp
    from bvval [OF kb ws_select.hyps(7)] obtain y where y: "?ev b = Some (VBv y)" "okw w y" by blast
    have ec: "c < e" using ws_select.hyps(2) d(2) by simp
    have ea: "a < e" using ws_select.hyps(3) d(2) by simp
    have eb: "b < e" using ws_select.hyps(4) d(2) by simp
    have cz: "val_truthy (VBv z) \<longleftrightarrow> bv_val z = 1"
      using okwD(4) [OF z(2)] okw_zero [OF z(2)] by auto
    have v: "v = VBv (if bv_val z = 1 then x else y)" using pr(6) unfolding u simps node by (simp add: x(1) y(1) z(1) okw_select [OF z(2) x(2) y(2)])
    have ov: "okw w (if bv_val z = 1 then x else y)" using x(2) y(2) by simp
    show ?case unfolding d(1) sym_within.simps(2) Let_def
    proof (rule step [OF pr(6)], unfold node Option.bind.bind_lunit RNode.case, rule gives_bind2 [OF ws_select.IH(1) [OF kc pr(2-4) ec z(1)]], goal_cases)
      case (1 cs m1 g1)
      note C = sym_postD [OF 1(2)] and l1 = 1(1)
      show ?case
      proof (rule gives_bind [OF sv_truthy_gives [OF C(1)]], unfold prod.case, goal_cases)
        case (1 cl g2)
        note lc = 1(2) [unfolded cz] and l2 = aig_le_trans [OF l1 1(1)] and M = memo_has_mono [OF C(2) 1(1)]
        show ?case
        proof (rule gives_bind2 [OF bits_gives [OF ws_select.IH(2) [OF ka env_has_mono [OF pr(2) l2] M C(3) ea x(1)]]], goal_cases)
          case (1 ab m3 g3)
          note A = bits_postD [OF 1(2)] and l23 = 1(1) and l3 = aig_le_trans [OF l2 1(1)]
          show ?case
          proof (rule gives_bind2 [OF bits_gives [OF ws_select.IH(3) [OF kb env_has_mono [OF pr(2) l3] A(3,4) eb y(1)]]], goal_cases)
            case (1 bb m4 g4)
            note B = bits_postD [OF 1(2)]
            have "gives g4 (blast_mux cl ab bb g4) (\<lambda>g' r. num \<rho> g' w r (bv_val (if bv_val z = 1 then x else y)))"
              using blast_mux_gives [OF lit_mono [OF lc aig_le_trans [OF l23 1(1)]] num_mono [OF A(2) [OF x(2)] 1(1)] B(2) [OF y(2)]]
              by (simp split: if_splits)
            then show ?case unfolding v by (rule word_result [OF _ ov B(3,4)])
          qed
        qed
      qed
    qed
  next
    case (ws_and n a b s t)
    note node = ws_and.hyps(1) and pr = ws_and.prems
    note u = unfold [OF well_sorted.ws_and [OF ws_and.hyps]] and sorted = well_sorted.ws_and [OF ws_and.hyps]
    obtain e where d: "d = Suc e" "n \<le> e" using pr(5) by (cases d) auto
    have nlt: "n < length memo" using well_sorted_in [OF sorted] pr(4) by simp
    note step = sym_step [OF nlt pr(3,4)]
    have ka: "term_checked rule ws a" by (rule kidc [OF pr(1) node]) simp
    from anyval [OF ka ws_and.hyps(5)] obtain x where x: "?ev a = Some x" by blast
    have kb: "term_checked rule ws b" by (rule kidc [OF pr(1) node]) simp
    from anyval [OF kb ws_and.hyps(6)] obtain y where y: "?ev b = Some y" by blast
    have ea: "a < e" using ws_and.hyps(3) d(2) by simp
    have eb: "b < e" using ws_and.hyps(4) d(2) by simp
    have v: "v = VBool (val_truthy x \<and> val_truthy y)" using pr(6) unfolding u simps node by (auto simp: x y split: if_splits)
    show ?case unfolding d(1) sym_within.simps(2) Let_def
    proof (rule step [OF pr(6)], unfold node Option.bind.bind_lunit RNode.case, rule gives_bind2 [OF ws_and.IH(1) [OF ka pr(2-4) ea x]], goal_cases)
      case (1 as m1 g1)
      note A = sym_postD [OF 1(2)] and l1 = 1(1)
      show ?case
      proof (rule gives_bind2 [OF ws_and.IH(2) [OF kb env_has_mono [OF pr(2) l1] A(2,3) eb y]], goal_cases)
        case (1 bs m2 g2)
        note B = sym_postD [OF 1(2)] and A' = sval_has_mono [OF A(1) 1(1)]
        show ?case
        proof (rule gives_bind [OF sv_truthy_gives [OF A']], unfold prod.case, goal_cases)
          case (1 al g3)
          note la = 1(2) and M3 = memo_has_mono [OF B(2) 1(1)] and B' = sval_has_mono [OF B(1) 1(1)]
          show ?case
          proof (rule gives_bind [OF sv_truthy_gives [OF B']], unfold prod.case, goal_cases)
            case (1 bl g4)
            show ?case unfolding v
              by (rule bool_result [OF aig_and_gives [OF lit_mono [OF la 1(1)] 1(2)] memo_has_mono [OF M3 1(1)] B(3)])
          qed
        qed
      qed
    qed
  next
    case (ws_or n a b s t)
    note node = ws_or.hyps(1) and pr = ws_or.prems
    note u = unfold [OF well_sorted.ws_or [OF ws_or.hyps]] and sorted = well_sorted.ws_or [OF ws_or.hyps]
    obtain e where d: "d = Suc e" "n \<le> e" using pr(5) by (cases d) auto
    have nlt: "n < length memo" using well_sorted_in [OF sorted] pr(4) by simp
    note step = sym_step [OF nlt pr(3,4)]
    have ka: "term_checked rule ws a" by (rule kidc [OF pr(1) node]) simp
    from anyval [OF ka ws_or.hyps(5)] obtain x where x: "?ev a = Some x" by blast
    have kb: "term_checked rule ws b" by (rule kidc [OF pr(1) node]) simp
    from anyval [OF kb ws_or.hyps(6)] obtain y where y: "?ev b = Some y" by blast
    have ea: "a < e" using ws_or.hyps(3) d(2) by simp
    have eb: "b < e" using ws_or.hyps(4) d(2) by simp
    have v: "v = VBool (val_truthy x \<or> val_truthy y)" using pr(6) unfolding u simps node by (auto simp: x y split: if_splits)
    show ?case unfolding d(1) sym_within.simps(2) Let_def
    proof (rule step [OF pr(6)], unfold node Option.bind.bind_lunit RNode.case, rule gives_bind2 [OF ws_or.IH(1) [OF ka pr(2-4) ea x]], goal_cases)
      case (1 as m1 g1)
      note A = sym_postD [OF 1(2)] and l1 = 1(1)
      show ?case
      proof (rule gives_bind2 [OF ws_or.IH(2) [OF kb env_has_mono [OF pr(2) l1] A(2,3) eb y]], goal_cases)
        case (1 bs m2 g2)
        note B = sym_postD [OF 1(2)] and A' = sval_has_mono [OF A(1) 1(1)]
        show ?case
        proof (rule gives_bind [OF sv_truthy_gives [OF A']], unfold prod.case, goal_cases)
          case (1 al g3)
          note la = 1(2) and M3 = memo_has_mono [OF B(2) 1(1)] and B' = sval_has_mono [OF B(1) 1(1)]
          show ?case
          proof (rule gives_bind [OF sv_truthy_gives [OF B']], unfold prod.case, goal_cases)
            case (1 bl g4)
            show ?case unfolding v
              by (rule bool_result [OF aig_or_gives [OF lit_mono [OF la 1(1)] 1(2)] memo_has_mono [OF M3 1(1)] B(3)])
          qed
        qed
      qed
    qed
  next
    case (ws_not n a s)
    note node = ws_not.hyps(1) and pr = ws_not.prems
    note u = unfold [OF well_sorted.ws_not [OF ws_not.hyps]] and sorted = well_sorted.ws_not [OF ws_not.hyps]
    obtain e where d: "d = Suc e" "n \<le> e" using pr(5) by (cases d) auto
    have nlt: "n < length memo" using well_sorted_in [OF sorted] pr(4) by simp
    note step = sym_step [OF nlt pr(3,4)]
    have ka: "term_checked rule ws a" by (rule kidc [OF pr(1) node]) simp
    from anyval [OF ka ws_not.hyps(4)] obtain x where x: "?ev a = Some x" by blast
    have ea: "a < e" using ws_not.hyps(3) d(2) by simp
    have v: "v = VBool (\<not> val_truthy x)" using pr(6) unfolding u simps node by (simp add: x)
    show ?case unfolding d(1) sym_within.simps(2) Let_def
    proof (rule step [OF pr(6)], unfold node Option.bind.bind_lunit RNode.case, rule gives_bind2 [OF ws_not.IH [OF ka pr(2-4) ea x]], goal_cases)
      case (1 as m1 g1)
      note A = sym_postD [OF 1(2)]
      show ?case
      proof (rule gives_bind [OF sv_truthy_gives [OF A(1)]], unfold prod.case, goal_cases)
        case (1 al g2)
        from 1(2) have "lit \<rho> g2 (al XOR 1) (\<not> val_truthy x)" by simp
        then show ?case using memo_has_mono [OF A(2) 1(1)] A(3) by (auto intro!: gives_return simp: v sym_post_def)
      qed
    qed
  next
    case (ws_proves n p a s)
    note node = ws_proves.hyps(1) and pr = ws_proves.prems
    note u = unfold [OF well_sorted.ws_proves [OF ws_proves.hyps]] and sorted = well_sorted.ws_proves [OF ws_proves.hyps]
    obtain e where d: "d = Suc e" "n \<le> e" using pr(5) by (cases d) auto
    have nlt: "n < length memo" using well_sorted_in [OF sorted] pr(4) by simp
    note step = sym_step [OF nlt pr(3,4)]
    have ka: "term_checked rule ws a" by (rule kidc [OF pr(1) node]) simp
    from anyval [OF ka ws_proves.hyps(5)] obtain x where x: "?ev a = Some x" by blast
    have ea: "a < e" using ws_proves.hyps(4) d(2) by simp
    show ?case
    proof (cases "p = OneUse")
      case True
      have v: "v = VBool True" using pr(6) unfolding u simps node using True by simp
      have body: "gives g (Some ((SBool TRUE, memo), g)) (sym_post \<rho> ?ev ?k v)"
        by (rule gives_inv) (use pr(3,4) lit_const(2) in \<open>auto intro!: gives_return simp: v sym_post_def\<close>)
      show ?thesis unfolding d(1) sym_within.simps(2) Let_def
        by (rule step [OF pr(6)], unfold node Option.bind.bind_lunit RNode.case if_P [OF True], rule body)
    next
      case False
      then have p: "p = Proves" using ws_proves.hyps(2) by simp
      have v: "v = VBool (val_truthy x)" using pr(6) unfolding u simps node using p by (simp add: x)
      show ?thesis unfolding d(1) sym_within.simps(2) Let_def
      proof (rule step [OF pr(6)], unfold node Option.bind.bind_lunit RNode.case if_not_P [OF False] if_P [OF p],
          rule gives_bind2 [OF ws_proves.IH [OF ka pr(2-4) ea x]], goal_cases)
        case (1 as m1 g1)
        note A = sym_postD [OF 1(2)]
        show ?case unfolding v by (rule bool_result [OF sv_truthy_gives [OF A(1)] A(2,3)])
      qed
    qed
  next
    case (ws_nonzero n a w)
    note node = ws_nonzero.hyps(1) and pr = ws_nonzero.prems
    note u = unfold [OF well_sorted.ws_nonzero [OF ws_nonzero.hyps]] and sorted = well_sorted.ws_nonzero [OF ws_nonzero.hyps]
    obtain e where d: "d = Suc e" "n \<le> e" using pr(5) by (cases d) auto
    have nlt: "n < length memo" using well_sorted_in [OF sorted] pr(4) by simp
    note step = sym_step [OF nlt pr(3,4)]
    have ka: "term_checked rule ws a" by (rule kidc [OF pr(1) node]) simp
    from bvval [OF ka ws_nonzero.hyps(4)] obtain x where x: "?ev a = Some (VBv x)" "okw w x" by blast
    have ea: "a < e" using ws_nonzero.hyps(3) d(2) by simp
    have v: "v = VBool (bv_val x \<noteq> 0)" using pr(6) unfolding u simps node by (simp add: x okw_zero [OF x(2)])
    have p: "NonZero \<noteq> OneUse" "NonZero \<noteq> Proves" by simp_all
    show ?case unfolding d(1) sym_within.simps(2) Let_def
    proof (rule step [OF pr(6)], unfold node Option.bind.bind_lunit RNode.case if_not_P [OF p(1)] if_not_P [OF p(2)],
        rule gives_bind2 [OF bits_gives [OF ws_nonzero.IH [OF ka pr(2-4) ea x(1)]]], goal_cases)
      case (1 ab m1 g1)
      note A = bits_postD [OF 1(2)]
      show ?case unfolding option.case Option.bind.bind_lunit prod.case v fact_circuit_def FactPred.case
        by (rule bool_result [OF or_all_num [OF A(2) [OF x(2)]] A(3,4)])
    qed
  next
    case (ws_fact n p a m w)
    note node = ws_fact.hyps(1) and pr = ws_fact.prems
    note u = unfold [OF well_sorted.ws_fact [OF ws_fact.hyps]] and sorted = well_sorted.ws_fact [OF ws_fact.hyps]
    obtain e where d: "d = Suc e" "n \<le> e" using pr(5) by (cases d) auto
    have nlt: "n < length memo" using well_sorted_in [OF sorted] pr(4) by simp
    note step = sym_step [OF nlt pr(3,4)]
    have ka: "term_checked rule ws a" by (rule kidc [OF pr(1) node]) simp
    from bvval [OF ka ws_fact.hyps(6)] obtain x where x: "?ev a = Some (VBv x)" "okw w x" by blast
    have km: "term_checked rule ws m" by (rule kidc [OF pr(1) node]) simp
    from bvval [OF km ws_fact.hyps(7)] obtain y where y: "?ev m = Some (VBv y)" "okw w y" by blast
    have ea: "a < e" using ws_fact.hyps(4) d(2) by simp
    have em: "m < e" using ws_fact.hyps(5) d(2) by simp
    have p: "p \<noteq> OneUse" "p \<noteq> Proves" "p \<noteq> NonZero" using ws_fact.hyps(2) by simp_all
    have v: "v = VBool (fact_pred p x y)" using pr(6) unfolding u simps node using p by (simp add: x y)
    show ?case unfolding d(1) sym_within.simps(2) Let_def
    proof (rule step [OF pr(6)], unfold node Option.bind.bind_lunit RNode.case if_not_P [OF p(1)] if_not_P [OF p(2)],
        rule gives_bind2 [OF bits_gives [OF ws_fact.IH(1) [OF ka pr(2-4) ea x(1)]]], goal_cases)
      case (1 ab m1 g1)
      note A = bits_postD [OF 1(2)] and l1 = 1(1)
      have mb: "gives g1 (do { ((b, memo), g) \<leftarrow> do { ((v, memo), g) \<leftarrow> sym_within e rule ws pb lb m m1 g1; b \<leftarrow> sv_bits v; Some ((b, memo), g) };
          Some ((Some b, memo), g) }) (\<lambda>g' r. \<exists>b. fst r = Some b \<and> bits_post \<rho> ?ev ?k y g' (b, snd r))"
        by (rule gives_bind2 [OF bits_gives [OF ws_fact.IH(2) [OF km env_has_mono [OF pr(2) l1] A(3,4) em y(1)]]])
          (auto intro!: gives_return)
      show ?case unfolding option.case
      proof (rule gives_bind2 [OF mb], goal_cases)
        case (1 bo m2 g2)
        then obtain bb where bb: "bo = Some bb" "bits_post \<rho> ?ev ?k y g2 (bb, m2)" by auto
        note B = bits_postD [OF bb(2)]
        show ?case unfolding v bb(1)
          by (rule bool_result [OF fact_circuit_gives [OF x(2) y(2) num_mono [OF A(2) [OF x(2)] 1(1)] B(2) [OF y(2)] ws_fact.hyps(2)] B(3,4)])
      qed
    qed
  next
    case (ws_const n p a w)
    note node = ws_const.hyps(1) and pr = ws_const.prems
    note u = unfold [OF well_sorted.ws_const [OF ws_const.hyps]] and sorted = well_sorted.ws_const [OF ws_const.hyps]
    obtain e where d: "d = Suc e" "n \<le> e" using pr(5) by (cases d) auto
    have nlt: "n < length memo" using well_sorted_in [OF sorted] pr(4) by simp
    note step = sym_step [OF nlt pr(3,4)]
    have ka: "term_checked rule ws a" by (rule kidc [OF pr(1) node]) simp
    from bvval [OF ka ws_const.hyps(4)] obtain x where x: "?ev a = Some (VBv x)" "okw w x" by blast
    have ea: "a < e" using ws_const.hyps(3) d(2) by simp
    have v: "v = VBool (const_pred p x)" using pr(6) unfolding u simps node by (simp add: x)
    show ?case unfolding d(1) sym_within.simps(2) Let_def
    proof (rule step [OF pr(6)], unfold node Option.bind.bind_lunit RNode.case, rule gives_bind2 [OF bits_gives [OF ws_const.IH [OF ka pr(2-4) ea x(1)]]], goal_cases)
      case (1 ab m1 g1)
      note A = bits_postD [OF 1(2)]
      show ?case unfolding v by (rule bool_result [OF const_circuit_gives [OF x(2) A(2) [OF x(2)]] A(3,4)])
    qed
  qed
qed

end
