(* ===== verification/Rule_Certified.thy ===== *)
theory Rule_Certified
  imports Rule_Sound "HOL-Library.Code_Target_Nat"
begin

unbundle bit_operations_syntax

declare One_nat_def [simp del]

text \<open>
  The obligation of a rule: the literal it poses is true exactly where the rule fails, so that an
  accepted certificate proves the rule at its widths and a model refutes it.
\<close>

section \<open>Lets, guard and sides\<close>

lemma sym_eval_gives:
  assumes "well_sorted rule ws pw lw n s" "term_checked rule ws n"
    "list_all2 okw pw ps" "list_all2 (\<lambda>w v. \<exists>x. v = Some x \<and> okw w x) lw ls"
    "env_has \<rho> g pb ps lb ls" "memo_has \<rho> (rule_eval rule ws ps ls) g memo" "length memo = length (r_nodes rule)"
    "rule_eval rule ws ps ls n = Some v"
  shows "gives g (sym_eval rule ws pb lb n memo g) (sym_post \<rho> (rule_eval rule ws ps ls) (length (r_nodes rule)) v)"
  unfolding sym_eval_def by (rule sym_within_gives [OF assms(1-7) well_sorted_in [OF assms(1)] assms(8)])

lemma let_circuits_gives:
  assumes s: "rule_sorted rule ws pw lw w" and c: "\<forall>t\<in>rule_terms rule. term_checked rule ws t" and ps: "list_all2 okw pw ps"
    and out: "list_all2 (\<lambda>w v. \<exists>x. v = Some x \<and> okw w x) (take k lw) out" "lets = drop k (r_lets rule)" "k \<le> length lw"
    and env: "env_has \<rho> g pb ps lb out"
  shows "gives g (let_circuits rule ws pb lets lb g)
    (\<lambda>g' lb'. list_all2 (rel_option (word_has \<rho> g')) lb' (eval_lets_from rule ws ps lets out))"
  using out env
proof (induction lets arbitrary: k out lb g)
  case Nil
  then show ?case by (simp add: gives_return env_has_def)
next
  case (Cons l lets)
  let ?ev = "rule_eval rule ws ps out"
  have k: "k < length lw" using Cons.prems(2) s by (simp add: rule_sorted_def) (metis drop_eq_Nil2 list.distinct(1) not_le)
  then have l: "r_lets rule ! k = l" "lets = drop (Suc k) (r_lets rule)" "l \<in> rule_terms rule"
    using Cons.prems(2) s by (auto simp: rule_sorted_def rule_terms_def Cons_nth_drop_Suc [symmetric])
  have ws: "well_sorted rule ws pw (take k lw) l (Some (lw ! k))" using s k l(1) by (auto simp: rule_sorted_def)
  from term_evaluates [OF ws _ ps Cons.prems(1)] c l(3)
  obtain x where x: "?ev l = Some (VBv x)" "okw (lw ! k) x" by (auto simp: val_ok_Some)
  have out': "list_all2 (\<lambda>w v. \<exists>x. v = Some x \<and> okw w x) (take (Suc k) lw) (out @ [Some x])"
    unfolding take_Suc_conv_app_nth [OF k] using Cons.prems(1) x(2) by (intro list_all2_appendI) auto
  have lc: "term_checked rule ws l" using c l(3) by blast
  show ?case unfolding let_circuits.simps
  proof (rule gives_bind2 [OF sym_eval_gives [OF ws lc ps Cons.prems(1) Cons.prems(4) memo_has_fresh _ x(1)]], goal_cases)
    case 1
    show ?case by simp
  next
    case (2 v m g1)
    from sym_postD(1) [OF 2(2)] obtain b where b: "v = SBv b" "word_has \<rho> g1 b x" by (cases v) auto
    have "env_has \<rho> g1 pb ps (lb @ [sv_bits v]) (out @ [Some x])"
      using env_has_mono [OF Cons.prems(4) 2(1)] b unfolding env_has_def by (auto intro: list_all2_appendI)
    from Cons.IH [OF out' l(2) _ this] k x(1) show ?case by simp
  qed
qed

lemma sides_gives:
  assumes s: "rule_sorted rule ws pw lw w" and c: "\<forall>t\<in>rule_terms rule. term_checked rule ws t" and ps: "list_all2 okw pw ps"
    and pb: "list_all2 (word_has \<rho> g) pb ps"
  shows "\<exists>gt x y. (\<not> rule_holds rule ws ps \<longleftrightarrow> gt \<and> x \<noteq> y) \<and>
    gives g (rule_sides rule ws pb g)
      (\<lambda>g' (gl, l, r). lit \<rho> g' gl gt \<and> num \<rho> g' w l x \<and> num \<rho> g' w r y)"
proof -
  define ls where "ls = eval_lets rule ws ps"
  let ?ev = "rule_eval rule ws ps ls" and ?k = "length (r_nodes rule)"
  have lok: "list_all2 (\<lambda>w v. \<exists>x. v = Some x \<and> okw w x) lw ls"
    unfolding ls_def by (rule eval_lets_values [OF s c ps])
  have sl: "well_sorted rule ws pw lw (r_lhs rule) (Some w)" and sr: "well_sorted rule ws pw lw (r_rhs rule) (Some w)"
    using s by (simp_all add: rule_sorted_def)
  have cl: "term_checked rule ws (r_lhs rule)" and cr: "term_checked rule ws (r_rhs rule)"
    using c by (auto simp: rule_terms_def)
  from term_evaluates [OF sl cl ps lok] obtain x where x: "?ev (r_lhs rule) = Some (VBv x)" "okw w x" by (auto simp: val_ok_Some)
  from term_evaluates [OF sr cr ps lok] obtain y where y: "?ev (r_rhs rule) = Some (VBv y)" "okw w y" by (auto simp: val_ok_Some)
  define gt where "gt = (case r_guard rule of None \<Rightarrow> True | Some gd \<Rightarrow> (case ?ev gd of Some v \<Rightarrow> val_truthy v | None \<Rightarrow> False))"
  have xy: "x = y \<longleftrightarrow> bv_val x = bv_val y" using okw_eqI [OF x(2) y(2)] by auto
  have holds: "\<not> rule_holds rule ws ps \<longleftrightarrow> gt \<and> bv_val x \<noteq> bv_val y"
    unfolding rule_holds_def Let_def ls_def [symmetric] gt_def [symmetric] x(1) y(1) prod.case option.case Val.case xy by blast
  have guard: "gives g1 (case r_guard rule of
         Some gd \<Rightarrow> do {
           ((v, memo), g) \<leftarrow> sym_eval rule ws pb lb gd (replicate ?k None) g1;
           (t, g) \<leftarrow> sv_truthy v g;
           Some ((t, memo), g) }
       | None \<Rightarrow> Some ((TRUE, replicate ?k None), g1))
     (\<lambda>g' r. lit \<rho> g' (fst r) gt \<and> memo_has \<rho> ?ev g' (snd r) \<and> length (snd r) = ?k)"
    if env: "env_has \<rho> g1 pb ps lb ls" for g1 lb
  proof (cases "r_guard rule")
    case None
    show ?thesis unfolding None option.case
      by (rule gives_inv) (auto intro!: gives_return memo_has_fresh simp: gt_def None lit_const(2))
  next
    case (Some gd)
    from s Some obtain t where sg: "well_sorted rule ws pw lw gd t" by (auto simp: rule_sorted_def)
    have cg: "term_checked rule ws gd" using c Some by (auto simp: rule_terms_def)
    from term_evaluates [OF sg cg ps lok] obtain v where v: "?ev gd = Some v" by blast
    then have gt: "gt = val_truthy v" by (simp add: gt_def Some)
    show ?thesis unfolding Some option.case
    proof (rule gives_bind2 [OF sym_eval_gives [OF sg cg ps lok env memo_has_fresh _ v]], goal_cases)
      case 1
      show ?case by simp
    next
      case (2 sv m g2)
      note S = sym_postD [OF 2(2)]
      show ?case unfolding gt
        by (rule gives_bind [OF sv_truthy_gives [OF S(1)]])
          (use memo_has_mono [OF S(2)] S(3) in \<open>auto intro!: gives_return\<close>)
    qed
  qed
  have env0: "env_has \<rho> g pb ps [] []" using pb by (simp add: env_has_def)
  have "gives g (rule_sides rule ws pb g)
      (\<lambda>g' (gl, l, r). lit \<rho> g' gl gt \<and> num \<rho> g' w l (bv_val x) \<and> num \<rho> g' w r (bv_val y))"
    unfolding rule_sides_def
  proof (rule gives_bind [OF let_circuits_gives [OF s c ps, of 0 "[]" "r_lets rule" \<rho> g pb "[]"]], goal_cases)
    case (5 lb g1)
    have env: "env_has \<rho> g1 pb ps lb ls"
      using 5(2) env_has_mono [OF env0 5(1)] by (simp add: env_has_def ls_def eval_lets_def)
    show ?case unfolding prod.case Let_def
    proof (rule gives_bind2 [OF guard [OF env]], goal_cases)
      case (1 gl m2 g2)
      note G = 1(2) [unfolded fst_conv snd_conv] and l2 = 1(1)
      show ?case unfolding sym_bits_def
      proof (rule gives_bind2 [OF bits_gives [OF sym_eval_gives [OF sl cl ps lok env_has_mono [OF env l2] _ _ x(1)]]], goal_cases)
        case (3 ab m3 g3)
        note A = bits_postD [OF 3(2)] and l3 = aig_le_trans [OF l2 3(1)] and l23 = 3(1)
        show ?case
        proof (rule gives_bind2 [OF bits_gives [OF sym_eval_gives [OF sr cr ps lok env_has_mono [OF env l3] A(3,4) y(1)]]], goal_cases)
          case (1 bb m4 g4)
          note B = bits_postD [OF 1(2)] and l34 = 1(1)
          have "lit \<rho> g4 gl gt" by (rule lit_mono [OF conjunct1 [OF G] aig_le_trans [OF l23 l34]])
          then show ?case
            using num_mono [OF A(2) [OF x(2)] l34] B(2) [OF y(2)] by (auto intro!: gives_return)
        qed
      qed (use G in auto)
    qed
  qed (use env0 in \<open>auto simp: \<close>)
  with holds show ?thesis by blast
qed

lemma rule_bad_gives:
  assumes "lit \<rho> g gl gt" "num \<rho> g w l x" "num \<rho> g w r y"
  shows "gives g (rule_bad gl l r g) (\<lambda>g' bad. lit \<rho> g' bad (gt \<and> x \<noteq> y))"
  unfolding rule_bad_def blast_eq_def
proof (rule gives_bind [OF eq_bits_gives [OF assms(2,3)]], unfold prod.case, goal_cases)
  case (1 eq g')
  have "lit \<rho> g' gl gt" by (rule lit_mono [OF assms(1) 1(1)])
  moreover have "lit \<rho> g' (eq XOR 1) (x \<noteq> y)" using 1(2) by simp
  ultimately show ?case by (rule aig_and_gives)
qed

lemma bad_gives:
  assumes s: "rule_sorted rule ws pw lw w" and c: "\<forall>t\<in>rule_terms rule. term_checked rule ws t" and ps: "list_all2 okw pw ps"
    and pb: "list_all2 (word_has \<rho> g) pb ps"
  shows "gives g (do { ((guard, l, r), g) \<leftarrow> rule_sides rule ws pb g; rule_bad guard l r g })
    (\<lambda>g' bad. lit \<rho> g' bad (\<not> rule_holds rule ws ps))"
proof -
  from sides_gives [OF assms] obtain gt x y where h: "\<not> rule_holds rule ws ps \<longleftrightarrow> gt \<and> x \<noteq> y" and
    g: "gives g (rule_sides rule ws pb g) (\<lambda>g' (gl, l, r). lit \<rho> g' gl gt \<and> num \<rho> g' w l x \<and> num \<rho> g' w r y)" by blast
  show ?thesis unfolding h
    by (rule gives_bind [OF g]) (use rule_bad_gives in \<open>auto split: prod.splits\<close>)
qed

section \<open>Parameters\<close>

definition num_inputs :: "Aig \<Rightarrow> nat" where "num_inputs g = length (filter (\<lambda>n. n = NInput) (nodes g))"

text \<open>Literals of inputs, not complemented.\<close>

definition input_lits :: "Aig \<Rightarrow> L list \<Rightarrow> bool" where
  "input_lits g ls \<longleftrightarrow> (\<forall>l\<in>set ls. \<exists>i<length (nodes g). l = 2 * i \<and> nodes g ! i = NInput)"

lemma input_lits_mono: "input_lits g ls \<Longrightarrow> aig_le g g' \<Longrightarrow> input_lits g' ls"
  unfolding input_lits_def aig_le_def by (fastforce simp: nth_append)

text \<open>Literals of inputs, or constants.\<close>

definition port_lits :: "Aig \<Rightarrow> L list \<Rightarrow> bool" where
  "port_lits g ls \<longleftrightarrow> (\<forall>l\<in>set ls. l = FALSE \<or> l = TRUE \<or> (\<exists>i<length (nodes g). l = 2 * i \<and> nodes g ! i = NInput))"

lemma port_lits_mono: "port_lits g ls \<Longrightarrow> aig_le g g' \<Longrightarrow> port_lits g' ls"
  unfolding port_lits_def aig_le_def by (fastforce simp: nth_append)

lemma input_port_lits: "input_lits g ls \<Longrightarrow> port_lits g ls"
  by (auto simp: input_lits_def port_lits_def)

lemma konst_port_lits: "port_lits g (konst v)"
  by (auto simp: port_lits_def konst_def)

text \<open>The fixed values have the widths of their parameters, and their words are constants.\<close>

definition fixed_widths :: "BitVec option list \<Rightarrow> nat list \<Rightarrow> bool" where
  "fixed_widths fixed pw \<longleftrightarrow> (\<forall>k<length pw. \<forall>v. k < length fixed \<longrightarrow> fixed ! k = Some v \<longrightarrow> okw (pw ! k) v)"

definition fixed_words :: "BitVec option list \<Rightarrow> L list list \<Rightarrow> bool" where
  "fixed_words fixed pb \<longleftrightarrow> (\<forall>k<length pb. \<forall>v. k < length fixed \<longrightarrow> fixed ! k = Some v \<longrightarrow> pb ! k = konst v)"

lemma fixed_widths_Cons:
  assumes "fixed_widths fixed (w # pw)"
  shows "fixed_widths (drop 1 fixed) pw" "fixed = Some v # rest \<Longrightarrow> okw w v"
  using assms unfolding fixed_widths_def
  by (auto simp: One_nat_def dest: spec [where x = "Suc _"] spec [where x = 0])

lemma fixed_words_Cons:
  assumes "fixed_words (drop 1 fixed) pb" "\<And>v rest. fixed = Some v # rest \<Longrightarrow> b = konst v"
  shows "fixed_words fixed (b # pb)"
  using assms unfolding fixed_words_def
  by (cases fixed) (auto simp: nth_Cons One_nat_def split: nat.splits)

lemma fresh_inputs_ok:
  assumes "aig_inv g"
  shows "\<exists>ls g'. fresh_inputs k g = Some (ls, g') \<and> aig_inv g' \<and> aig_le g g' \<and> num_inputs g' = num_inputs g + k \<and>
    length ls = k \<and> input_lits g' ls \<and> (\<forall>\<rho>. \<forall>i<k. lit \<rho> g' (ls ! i) (\<rho> (num_inputs g + i)))"
  using assms
proof (induction k arbitrary: g)
  case 0
  then show ?case by (simp add: input_lits_def)
next
  case (Suc k)
  obtain l g1 where i: "aig_input g = (l, g1)" by fastforce
  note a = aig_input_inv [OF Suc.prems i]
  have g1: "nodes g1 = nodes g @ [NInput]" "l = 2 * length (nodes g)" using i by (auto simp: aig_input_def Let_def)
  then have n1: "num_inputs g1 = num_inputs g + 1" by (simp add: num_inputs_def One_nat_def)
  from Suc.IH [OF a(1)] obtain ls g2 where r: "fresh_inputs k g1 = Some (ls, g2)" "aig_inv g2" "aig_le g1 g2"
    "num_inputs g2 = num_inputs g1 + k" "length ls = k" "input_lits g2 ls"
    "\<forall>\<rho>. \<forall>i<k. lit \<rho> g2 (ls ! i) (\<rho> (num_inputs g1 + i))" by blast
  have l2: "lit \<rho> g2 l (\<rho> (num_inputs g))" for \<rho>
    using lit_mono [OF a(3) r(3)] by (simp add: num_inputs_def)
  have "input_lits g1 [l]" by (simp add: input_lits_def g1)
  then have "input_lits g2 (l # ls)" using input_lits_mono [OF _ r(3), of "[l]"] r(6) by (simp add: input_lits_def)
  moreover have "lit \<rho> g2 ((l # ls) ! i) (\<rho> (num_inputs g + i))" if "i < Suc k" for \<rho> i
    using that l2 r(7) n1 by (cases i) (auto simp: One_nat_def)
  moreover have "fresh_inputs (Suc k) g = Some (l # ls, g2)" using i r(1) by simp
  ultimately show ?case using r(2,4,5) aig_le_trans [OF a(2) r(3)] n1 by (auto simp: One_nat_def)
qed

text \<open>
  The bits the inputs have to take for the parameters to have given values: those of the
  parameters that are not fixed, in order.
\<close>

fun free_bits :: "BitVec option list \<Rightarrow> BitVec list \<Rightarrow> bool list" where
  "free_bits fixed [] = []"
| "free_bits fixed (v # vs) =
     (case fixed of Some _ # _ \<Rightarrow> [] | _ \<Rightarrow> map (bit (bv_val v)) [0..<bv_width v]) @ free_bits (drop 1 fixed) vs"

definition fits_fixed :: "BitVec option list \<Rightarrow> BitVec list \<Rightarrow> bool" where
  "fits_fixed fixed ps \<longleftrightarrow> (\<forall>k<length ps. \<forall>v. k < length fixed \<longrightarrow> fixed ! k = Some v \<longrightarrow> ps ! k = v)"

lemma fits_fixed_Cons:
  "fits_fixed fixed (v # vs) \<Longrightarrow> fits_fixed (drop 1 fixed) vs"
  "fits_fixed (Some u # fixed) (v # vs) \<Longrightarrow> u = v"
proof -
  assume f: "fits_fixed fixed (v # vs)"
  show "fits_fixed (drop 1 fixed) vs"
    unfolding fits_fixed_def
  proof (intro allI impI)
    fix k u assume "k < length vs" "k < length (drop 1 fixed)" "drop 1 fixed ! k = Some u"
    then show "vs ! k = u" using f [unfolded fits_fixed_def, rule_format, of "Suc k" u] by (simp add: One_nat_def)
  qed
next
  assume f: "fits_fixed (Some u # fixed) (v # vs)"
  show "u = v" using f [unfolded fits_fixed_def, rule_format, of 0 u] by simp
qed

lemma param_circuits_ok:
  assumes "aig_inv g" "list_all2 (\<lambda>p w. wexpr_eval (p_width p) ws = Some (int w) \<and> width_ok w) params pw"
  shows "\<exists>pb g'. param_circuits params ws fixed g = Some (pb, g') \<and> aig_inv g' \<and> aig_le g g' \<and>
    (fixed_widths fixed pw \<longrightarrow> list_all2 (\<lambda>b w. length b = w) pb pw \<and> (\<forall>b\<in>set pb. port_lits g' b) \<and> fixed_words fixed pb) \<and>
    (\<forall>ps \<rho>. list_all2 okw pw ps \<longrightarrow> fits_fixed fixed ps \<longrightarrow>
       (\<forall>j<length (free_bits fixed ps). \<rho> (num_inputs g + j) = free_bits fixed ps ! j) \<longrightarrow>
       list_all2 (word_has \<rho> g') pb ps)"
  using assms
proof (induction params arbitrary: g pw fixed)
  case Nil
  then show ?case by (auto simp: fixed_words_def)
next
  case (Cons p params)
  from Cons.prems(2) obtain w pw' where pw: "pw = w # pw'" "wexpr_eval (p_width p) ws = Some (int w)" "width_ok w"
    "list_all2 (\<lambda>p w. wexpr_eval (p_width p) ws = Some (int w) \<and> width_ok w) params pw'" by (cases pw) auto
  have head: "\<exists>b g1. (case fixed of Some v # _ \<Rightarrow> Some (konst v, g) | _ \<Rightarrow> fresh_inputs w g) = Some (b, g1) \<and> aig_inv g1 \<and> aig_le g g1 \<and>
      (fixed_widths fixed pw \<longrightarrow> length b = w) \<and> port_lits g1 b \<and> (\<forall>v rest. fixed = Some v # rest \<longrightarrow> b = konst v) \<and>
      num_inputs g1 = num_inputs g + (case fixed of Some v # _ \<Rightarrow> 0 | _ \<Rightarrow> w) \<and>
      (\<forall>v \<rho>. okw w v \<longrightarrow> fits_fixed fixed [v] \<longrightarrow>
        (\<forall>j<length (free_bits fixed [v]). \<rho> (num_inputs g + j) = free_bits fixed [v] ! j) \<longrightarrow> word_has \<rho> g1 b v)"
  proof (cases "\<exists>v rest. fixed = Some v # rest")
    case True
    then obtain u rest where f: "fixed = Some u # rest" by blast
    have "word_has \<rho> g (konst u) v" if "okw w v" "fits_fixed fixed [v]" for v \<rho>
      using fits_fixed_Cons(2) [OF that(2) [unfolded f]] num_konst [OF Cons.prems(1) okwD(1) [OF that(1)]] okwD(1) [OF that(1)]
      by (simp add: word_has_def)
    moreover have "fixed_widths fixed pw \<longrightarrow> length (konst u) = w"
      using fixed_widths_Cons(2) [of fixed w pw', OF _ f] okwD(2) by (auto simp: pw(1) konst_def)
    ultimately show ?thesis using Cons.prems(1) konst_port_lits [of g u] by (auto simp: f)
  next
    case False
    then have f: "(case fixed of Some v # _ \<Rightarrow> a | _ \<Rightarrow> b) = b" for a b :: 'z by (auto split: list.splits option.splits)
    have f': "(case fixed of Some v # _ \<Rightarrow> P v | _ \<Rightarrow> b) = b" for P and b :: 'z using False by (auto split: list.splits option.splits)
    from fresh_inputs_ok [OF Cons.prems(1), of w] obtain b g1 where
      b: "fresh_inputs w g = Some (b, g1)" "aig_inv g1" "aig_le g g1" "num_inputs g1 = num_inputs g + w" "length b = w" "input_lits g1 b"
        "\<forall>\<rho>. \<forall>i<w. lit \<rho> g1 (b ! i) (\<rho> (num_inputs g + i))" by blast
    have "word_has \<rho> g1 b v" if "okw w v" "\<forall>j<length (free_bits fixed [v]). \<rho> (num_inputs g + j) = free_bits fixed [v] ! j" for v \<rho>
    proof -
      have fb: "free_bits fixed [v] = map (bit (bv_val v)) [0..<w]" using okwD(2) [OF that(1)] by (simp add: f)
      have "num \<rho> g1 w b (bv_val v)"
      proof (rule numI [OF b(5) okwD(4) [OF that(1)]])
        fix i assume "i < w"
        then show "lit \<rho> g1 (b ! i) (bit (bv_val v) i)" using b(7) [rule_format, of i \<rho>] that(2) [unfolded fb, rule_format, of i] by simp
      qed
      then show ?thesis by (simp add: word_has_okw [OF that(1)])
    qed
    then show ?thesis unfolding f f' using b(1-6) False input_port_lits [OF b(6)] by blast
  qed
  from head obtain b g1 where h: "(case fixed of Some v # _ \<Rightarrow> Some (konst v, g) | _ \<Rightarrow> fresh_inputs w g) = Some (b, g1)" "aig_inv g1" "aig_le g g1"
      "fixed_widths fixed pw \<longrightarrow> length b = w" "port_lits g1 b" "\<And>v rest. fixed = Some v # rest \<Longrightarrow> b = konst v"
      "num_inputs g1 = num_inputs g + (case fixed of Some v # _ \<Rightarrow> 0 | _ \<Rightarrow> w)"
      "\<forall>v \<rho>. okw w v \<longrightarrow> fits_fixed fixed [v] \<longrightarrow>
        (\<forall>j<length (free_bits fixed [v]). \<rho> (num_inputs g + j) = free_bits fixed [v] ! j) \<longrightarrow> word_has \<rho> g1 b v" by blast
  from Cons.IH [OF h(2) pw(4), of "drop 1 fixed"] obtain pb g2 where
    t: "param_circuits params ws (drop 1 fixed) g1 = Some (pb, g2)" "aig_inv g2" "aig_le g1 g2"
      "fixed_widths (drop 1 fixed) pw' \<longrightarrow> list_all2 (\<lambda>b w. length b = w) pb pw' \<and> (\<forall>b\<in>set pb. port_lits g2 b) \<and> fixed_words (drop 1 fixed) pb"
      "\<forall>ps \<rho>. list_all2 okw pw' ps \<longrightarrow> fits_fixed (drop 1 fixed) ps \<longrightarrow>
       (\<forall>j<length (free_bits (drop 1 fixed) ps). \<rho> (num_inputs g1 + j) = free_bits (drop 1 fixed) ps ! j) \<longrightarrow>
       list_all2 (word_has \<rho> g2) pb ps" by blast
  have run: "param_circuits (p # params) ws fixed g = Some (b # pb, g2)"
    unfolding param_circuits.simps pw(2) Option.bind.bind_lunit nat_int h(1) prod.case t(1) by simp
  have inputs: "list_all2 (\<lambda>b w. length b = w) (b # pb) pw \<and> (\<forall>c\<in>set (b # pb). port_lits g2 c) \<and> fixed_words fixed (b # pb)"
    if f: "fixed_widths fixed pw"
    using h(4) f t(4) fixed_widths_Cons(1) [OF f [unfolded pw(1)]] port_lits_mono [OF h(5) t(3)] fixed_words_Cons [OF _ h(6)]
    by (simp add: pw(1))
  have vals: "list_all2 (word_has \<rho> g2) (b # pb) ps"
    if ps: "list_all2 okw pw ps" "fits_fixed fixed ps" "\<forall>j<length (free_bits fixed ps). \<rho> (num_inputs g + j) = free_bits fixed ps ! j" for ps \<rho>
  proof -
    from ps(1) pw(1) obtain v vs where v: "ps = v # vs" "okw w v" "list_all2 okw pw' vs" by (cases ps) auto
    have split: "free_bits fixed ps = free_bits fixed [v] @ free_bits (drop 1 fixed) vs" by (simp add: v(1))
    have len: "length (free_bits fixed [v]) = (case fixed of Some v # _ \<Rightarrow> 0 | _ \<Rightarrow> w)"
      using okwD(2) [OF v(2)] by (auto split: list.splits option.splits)
    have "fits_fixed fixed [v]"
      using ps(2) [unfolded v(1) fits_fixed_def, rule_format, of 0] by (simp add: fits_fixed_def)
    moreover have "\<forall>j<length (free_bits fixed [v]). \<rho> (num_inputs g + j) = free_bits fixed [v] ! j"
      using ps(3) unfolding split by (auto simp: nth_append)
    ultimately have b: "word_has \<rho> g1 b v" using h(8) v(2) by blast
    have "\<rho> (num_inputs g1 + j) = free_bits (drop 1 fixed) vs ! j" if "j < length (free_bits (drop 1 fixed) vs)" for j
      using ps(3) [rule_format, of "length (free_bits fixed [v]) + j"] that unfolding split h(7) len [symmetric]
      by (simp add: nth_append add.assoc)
    then have "list_all2 (word_has \<rho> g2) pb vs"
      using t(5) v(3) fits_fixed_Cons(1) [OF ps(2) [unfolded v(1)]] by blast
    then show ?thesis using word_has_mono [OF b t(3)] v(1) by simp
  qed
  show ?case using run t(2) aig_le_trans [OF h(3) t(3)] inputs vals by blast
qed

section \<open>The obligation\<close>

lemma word_has_back:
  assumes "word_has \<rho> g' b v" "aig_le g g'" "word_has \<rho>' g b v'" "bv_width v = bv_width v'"
  shows "word_has \<rho> g b v"
proof -
  have n: "num \<rho> g' (bv_width v) b (bv_val v)" "num \<rho>' g (bv_width v) b (bv_val v')" "bv_ok v"
    using assms(1,3,4) by (simp_all add: word_has_def)
  have "lit \<rho> g (b ! i) (bit (bv_val v) i)" if "i < bv_width v" for i
  proof -
    have "lit \<rho> g (b ! i) (val \<rho> g (b ! i))" using numD(3) [OF n(2) that] by (simp add: lit_def)
    moreover from lit_mono [OF this assms(2)] numD(3) [OF n(1) that] have "val \<rho> g (b ! i) = bit (bv_val v) i"
      by (simp add: lit_def)
    ultimately show ?thesis by simp
  qed
  then show ?thesis using n unfolding word_has_def num_def by blast
qed

lemma obligation_ok:
  assumes s: "rule_sorted rule ws pw lw w" and a: "admitted rule ws = Some True" "widths_validated rule"
    and ps0: "list_all2 okw pw ps0" "fits_fixed fixed ps0"
  shows "\<exists>n bad pb g. (\<forall>max_nodes. obligation max_nodes rule ws fixed =
      Some (if n > max_nodes then TooLarge n else Posed bad pb g)) \<and> n \<le> length (nodes g) \<and>
    aig_inv g \<and> bad div 2 < length (nodes g) \<and>
    (fixed_widths fixed pw \<longrightarrow> list_all2 (\<lambda>b w. length b = w) pb pw \<and> (\<forall>b\<in>set pb. port_lits g b) \<and> fixed_words fixed pb) \<and>
    (\<forall>ps \<rho>. list_all2 okw pw ps \<longrightarrow>
       (fits_fixed fixed ps \<and> (\<forall>j<length (free_bits fixed ps). \<rho> j = free_bits fixed ps ! j) \<or> list_all2 (word_has \<rho> g) pb ps) \<longrightarrow>
       aig_value (eval_all g \<rho>) bad = (\<not> rule_holds rule ws ps))"
proof -
  have checked: "\<forall>t\<in>rule_terms rule. term_checked rule ws t" using admitted_checks [OF a] by blast
  have params: "list_all2 (\<lambda>p w. wexpr_eval (p_width p) ws = Some (int w) \<and> width_ok w) (r_params rule) pw"
    using s by (simp add: rule_sorted_def)
  from param_circuits_ok [OF aig_new_inv params, of fixed] obtain pb g1 where
    p: "param_circuits (r_params rule) ws fixed aig_new = Some (pb, g1)" "aig_inv g1"
      "fixed_widths fixed pw \<longrightarrow> list_all2 (\<lambda>b w. length b = w) pb pw \<and> (\<forall>b\<in>set pb. port_lits g1 b) \<and> fixed_words fixed pb"
      "\<forall>ps \<rho>. list_all2 okw pw ps \<longrightarrow> fits_fixed fixed ps \<longrightarrow>
         (\<forall>j<length (free_bits fixed ps). \<rho> (num_inputs aig_new + j) = free_bits fixed ps ! j) \<longrightarrow>
         list_all2 (word_has \<rho> g1) pb ps" by blast
  have n0: "num_inputs aig_new = 0" by (simp add: num_inputs_def aig_new_def)
  define body where "body = do { ((guard, l, r), g) \<leftarrow> rule_sides rule ws pb g1; rule_bad guard l r g }"
  have gives: "gives g1 body (\<lambda>g' bad. lit \<rho> g' bad (\<not> rule_holds rule ws ps))"
    if "list_all2 okw pw ps" "list_all2 (word_has \<rho> g1) pb ps" for ps \<rho>
    unfolding body_def by (rule bad_gives [OF s checked that])
  define \<rho>0 where "\<rho>0 j = free_bits fixed ps0 ! j" for j
  have w0: "list_all2 (word_has \<rho>0 g1) pb ps0" using p(4) ps0 by (simp add: n0 \<rho>0_def)
  from gives [OF ps0(1) w0] p(2) obtain bad g where
    g: "body = Some (bad, g)" "aig_inv g" "aig_le g1 g" "lit \<rho>0 g bad (\<not> rule_holds rule ws ps0)"
    by (auto simp: gives_def)
  have valid: "bad div 2 < length (nodes g)" using g(4) by (simp add: lit_def valid_def)
  from sides_gives [OF s checked ps0(1) w0] p(2) obtain gl l r g2 gt x y where
    sd: "rule_sides rule ws pb g1 = Some ((gl, l, r), g2)" "aig_inv g2" "lit \<rho>0 g2 gl gt" "num \<rho>0 g2 w l x" "num \<rho>0 g2 w r y"
    by (fastforce simp: gives_def)
  have bd: "rule_bad gl l r g2 = Some (bad, g)" using g(1) by (simp add: body_def sd(1))
  have le: "aig_le g2 g" using rule_bad_gives [OF sd(3-5)] sd(2) by (auto simp: gives_def bd)
  have run: "obligation max_nodes rule ws fixed =
      Some (if length (nodes g2) > max_nodes then TooLarge (length (nodes g2)) else Posed bad pb g)" for max_nodes
    unfolding obligation_def a(1) p(1) Option.bind.bind_lunit prod.case by (simp add: sd(1) bd)
  have inputs: "fixed_widths fixed pw \<longrightarrow> list_all2 (\<lambda>b w. length b = w) pb pw \<and> (\<forall>b\<in>set pb. port_lits g b) \<and> fixed_words fixed pb"
    using p(3) port_lits_mono [OF _ g(3)] by blast
  have "aig_value (eval_all g \<rho>) bad = (\<not> rule_holds rule ws ps)"
    if ps: "list_all2 okw pw ps" and
      h: "fits_fixed fixed ps \<and> (\<forall>j<length (free_bits fixed ps). \<rho> j = free_bits fixed ps ! j) \<or> list_all2 (word_has \<rho> g) pb ps" for ps \<rho>
  proof -
    have "list_all2 (word_has \<rho> g1) pb ps"
    proof (cases "fits_fixed fixed ps \<and> (\<forall>j<length (free_bits fixed ps). \<rho> j = free_bits fixed ps ! j)")
      case True
      then show ?thesis using p(4) ps by (simp add: n0)
    next
      case False
      with h have h': "list_all2 (word_has \<rho> g) pb ps" by blast
      show ?thesis unfolding list_all2_conv_all_nth
      proof (intro conjI allI impI)
        show "length pb = length ps" using h' by (rule list_all2_lengthD)
        fix i assume "i < length pb"
        then have i: "word_has \<rho> g (pb ! i) (ps ! i)" "word_has \<rho>0 g1 (pb ! i) (ps0 ! i)" "okw (pw ! i) (ps ! i)" "okw (pw ! i) (ps0 ! i)"
          using h' w0 ps ps0(1) by (auto simp: list_all2_conv_all_nth)
        then show "word_has \<rho> g1 (pb ! i) (ps ! i)" by (intro word_has_back [OF i(1) g(3) i(2)]) (simp add: okw_def)
      qed
    qed
    from gives [OF ps this] p(2) g(1) show ?thesis by (auto simp: gives_def lit_def val_def)
  qed
  moreover have "length (nodes g2) \<le> length (nodes g)" using le by (auto simp: aig_le_def)
  ultimately show ?thesis using run g(2) valid inputs by blast
qed

section \<open>The clauses\<close>

lemma rule_clauses_ok:
  assumes inv: "aig_inv g" and bad: "bad div 2 < length (nodes g)" and bound: "length (nodes g) \<le> NONE"
  shows "\<exists>cnf q cnf0 q0 c. rule_clauses g bad certificate = Some (cnf, q) \<and>
    encoding g [bad] \<lparr>num_vars = 0, given = []\<rparr> cnf0 q0 c \<and> var cnf = var cnf0 \<and> (certificate \<longrightarrow> kept cnf = map fst (given q)) \<and>
    (\<forall>model. (\<forall>cl\<in>set (map fst (given q)). satisfies (model_of model) cl) \<longleftrightarrow>
       (\<forall>cl\<in>set (clauses_since \<lparr>num_vars = 0, given = []\<rparr> q0). satisfies (model_of model) cl) \<and> cnf_value cnf bad model)"
proof -
  let ?p = "\<lparr>num_vars = 0, given = []\<rparr> :: Port"
  have rv: "\<forall>r\<in>set [bad]. valid g r" using bad by (simp add: valid_def)
  from encode_ok [OF inv rv, of ?p certificate False] obtain cnf0 q0 c where
    run: "encode_with_xor3 g [bad] ?p certificate False = Some (cnf0, q0)" "keep cnf0 = certificate"
    and e: "encoding g [bad] ?p cnf0 q0 c" by blast
  have len: "length (var cnf0) = length (nodes g)" using e unfolding encoding_def by (elim conjE)
  have kept: "keep cnf0 \<longrightarrow> kept cnf0 = clauses_since ?p q0" using e unfolding encoding_def by (elim conjE)
  from cnf_assert_ok [of bad "(cnf0, q0)"] bad len obtain s2 where
    s2: "cnf_assert bad (cnf0, q0) = Some s2" "emits (cnf0, q0) s2 [[node_lit (var cnf0) bad]]" by auto
  define U where "U = [node_lit (var cnf0) bad]"
  have given: "map fst (given (snd s2)) = clauses_since ?p q0 @ [U]"
    and v2: "var (fst s2) = var cnf0" and k2: "certificate \<longrightarrow> kept (fst s2) = map fst (given (snd s2))"
    using s2(2) kept run(2) by (auto simp: emits_def clauses_since_def U_def)
  have bound': "num_vars ?p + length (nodes g) \<le> NONE" using bound by simp
  have "cnf_value cnf0 bad model = (model_of model (var cnf0 ! (bad div 2)) = (bad AND 1 = 0))" for model
    by (rule cnf_value_var(1) [OF e bound' bad]) (use encoding_need [OF e, of bad] in simp)
  then have root: "satisfies (model_of model) U \<longleftrightarrow> cnf_value (fst s2) bad model" for model
    unfolding U_def satisfies_def cnf_value_cong [OF v2] by (simp add: lit_holds_new)
  have sat: "(\<forall>cl\<in>set (map fst (given (snd s2))). satisfies (model_of model) cl) \<longleftrightarrow>
      (\<forall>cl\<in>set (clauses_since ?p q0). satisfies (model_of model) cl) \<and> cnf_value (fst s2) bad model" for model
    unfolding given root [symmetric] by auto
  have r: "rule_clauses g bad certificate = Some (fst s2, snd s2)" by (simp add: rule_clauses_def run(1) s2(1))
  show ?thesis using r e v2 k2 sat by blast
qed

lemma rule_unsat:
  assumes "aig_inv g" "bad div 2 < length (nodes g)" "length (nodes g) \<le> NONE"
    "rule_clauses g bad True = Some (cnf, q)" "check (kept cnf) steps = Some (Inr ())"
  shows "\<not> aig_value (eval_all g \<rho>) bad"
proof
  assume yes: "aig_value (eval_all g \<rho>) bad"
  from rule_clauses_ok [OF assms(1-3), of True] assms(4) obtain cnf0 q0 c where
    e: "encoding g [bad] \<lparr>num_vars = 0, given = []\<rparr> cnf0 q0 c" and v: "var cnf = var cnf0" and k: "kept cnf = map fst (given q)"
    and sat: "\<And>model. (\<forall>cl\<in>set (map fst (given q)). satisfies (model_of model) cl) \<longleftrightarrow>
       (\<forall>cl\<in>set (clauses_since \<lparr>num_vars = 0, given = []\<rparr> q0). satisfies (model_of model) cl) \<and> cnf_value cnf bad model" by auto
  have roots: "\<forall>r\<in>set [bad]. r div 2 < length (nodes g)" using assms(2) by simp
  from input_model [OF assms(1) roots _ e, of \<rho>] assms(3) obtain model where
    m: "\<forall>cl\<in>set (clauses_since \<lparr>num_vars = 0, given = []\<rparr> q0). satisfies (model_of model) cl" "agrees g [bad] cnf0 model \<rho>" by auto
  have "cnf_value cnf bad model" using m(2) yes cnf_value_cong [OF v] by (simp add: agrees_def)
  then have "\<forall>cl\<in>set (kept cnf). satisfies (model_of model) cl" unfolding k sat using m(1) by simp
  then have "model_of model \<in> models (kept cnf)" by (simp add: models_def)
  then show False using check_steps_ok [of "kept cnf" steps True] assms(5) by (auto simp: check_def)
qed

section \<open>Counterexamples\<close>

lemma read_param_ok:
  assumes "length bits = w" "width_ok w"
  shows "okw w (read_param cnf model bits)" "bv_val (read_param cnf model bits) = of_bits w (\<lambda>i. cnf_value cnf (bits ! i) model)"
proof -
  define f where "f i = cnf_value cnf (bits ! i) model" for i
  define step where "step k l = (if f k then l[k div 64 := l ! (k div 64) OR push_bit (k mod 64) 1] else l)" for k and l :: limbs
  define limbs where "limbs = for_up w step (replicate 8 0)"
  have w: "w \<le> 512" using assms(2) by (simp add: width_ok_def)
  have "length limbs = 8 \<and> (\<forall>i. bit (lval limbs) i \<longleftrightarrow> i < w \<and> f i)"
    unfolding limbs_def
  proof (rule for_up_inv [where I = "\<lambda>k l. length l = 8 \<and> (\<forall>i. bit (lval l) i \<longleftrightarrow> i < k \<and> f i)"], goal_cases)
    case (2 k l)
    have "k div 64 < 8" using 2(1) w by (simp add: div_less_iff_less_mult)
    with 2(2) bit_lval_set [of k l] show ?case by (auto simp: step_def less_Suc_eq)
  qed simp
  then have v: "lval limbs = of_bits w f" by (intro bit_eqI) simp
  have "Width_new w = Inr w" using assms(2) by (simp add: Width_new_def width_ok_def MAX_BITS_def)
  then have r: "read_param cnf model bits = wrapping_from_limbs w limbs"
    unfolding read_param_def assms(1) limbs_def step_def f_def by (simp add: ok_of_def Let_def)
  have "of_bits w f < 2 ^ w" by simp
  moreover have "f = (\<lambda>i. cnf_value cnf (bits ! i) model)" by (rule ext) (simp add: f_def)
  ultimately show "okw w (read_param cnf model bits)" "bv_val (read_param cnf model bits) = of_bits w (\<lambda>i. cnf_value cnf (bits ! i) model)"
    unfolding r using wrapping_from_limbs_correct [OF assms(2), of limbs] by (simp_all add: okw_def v)
qed

lemma input_literal:
  assumes "i < length (nodes g)" "nodes g ! i = NInput"
  shows "aig_value (eval_all g (input_of g cnf model)) (2 * i) = cnf_value cnf (2 * i) model"
proof -
  have "input_of g cnf model (ordinal g i) = cnf_value cnf (2 * i) model"
  proof
    assume "input_of g cnf model (ordinal g i)"
    then obtain j where j: "j < length (nodes g)" "nodes g ! j = NInput" "ordinal g j = ordinal g i" "cnf_value cnf (2 * j) model"
      unfolding input_of_def by blast
    then show "cnf_value cnf (2 * i) model" using ordinal_inj [OF j(1) assms(1) j(2) assms(2) j(3)] by simp
  next
    assume "cnf_value cnf (2 * i) model"
    then show "input_of g cnf model (ordinal g i)" unfolding input_of_def using assms by blast
  qed
  then show ?thesis using val_input [OF assms, of "input_of g cnf model"] by (simp add: val_def)
qed

text \<open>A model of the clauses gives the constants their values.\<close>

lemma const_literal:
  assumes inv: "aig_inv g" and e: "encoding g roots p cnf q c" and bound: "num_vars p + length (nodes g) \<le> NONE"
    and sat: "\<forall>cl\<in>set (clauses_since p q). satisfies (model_of model) cl" and l: "l = FALSE \<or> l = TRUE"
  shows "cnf_value cnf l model = (l = TRUE)"
proof -
  have z: "l div 2 = 0" using l by auto
  have n: "l div 2 < length (nodes g)" using aig_invD(2) [OF inv] z by (simp add: valid_def)
  have zero: "ch_need c ! 0 \<Longrightarrow> \<not> model_of model (var cnf ! 0)"
    using e sat unfolding encoding_def by auto
  show ?thesis
    using cnf_value_var [OF e bound n, of model] zero l unfolding z by (cases "ch_need c ! 0") (auto simp: One_nat_def)
qed

lemma read_params_ok:
  assumes "aig_inv g" "list_all2 (\<lambda>b w. length b = w) pb pw" "\<forall>b\<in>set pb. port_lits g b" "\<forall>w\<in>set pw. width_ok w"
    and const: "\<And>l. l = FALSE \<or> l = TRUE \<Longrightarrow> cnf_value cnf l model = (l = TRUE)"
  shows "list_all2 okw pw (map (read_param cnf model) pb)"
    "list_all2 (word_has (input_of g cnf model) g) pb (map (read_param cnf model) pb)"
proof -
  have len: "length pb = length pw" using assms(2) by (rule list_all2_lengthD)
  have i: "length (pb ! i) = pw ! i" "port_lits g (pb ! i)" "width_ok (pw ! i)" if "i < length pb" for i
    using assms(2-4) that len by (auto simp: list_all2_conv_all_nth)
  show "list_all2 okw pw (map (read_param cnf model) pb)"
    using read_param_ok(1) [OF i(1,3)] len by (auto simp: list_all2_conv_all_nth)
  have "word_has (input_of g cnf model) g (pb ! i) (read_param cnf model (pb ! i))" if "i < length pb" for i
  proof -
    note r = read_param_ok [OF i(1,3) [OF that], of cnf model]
    have "lit (input_of g cnf model) g (pb ! i ! j) (cnf_value cnf (pb ! i ! j) model)" if j: "j < pw ! i" for j
    proof -
      have "pb ! i ! j \<in> set (pb ! i)" using i(1) [OF \<open>i < length pb\<close>] j by simp
      with i(2) [OF \<open>i < length pb\<close>] consider "pb ! i ! j = FALSE \<or> pb ! i ! j = TRUE"
        | n where "n < length (nodes g)" "pb ! i ! j = 2 * n" "nodes g ! n = NInput"
        unfolding port_lits_def by blast
      then show ?thesis
      proof cases
        case 1
        then show ?thesis using const [OF 1] lit_const [OF assms(1)] by auto
      next
        case (2 n)
        from input_literal [OF 2(1,3)] 2 show ?thesis by (simp add: lit_def valid_def val_def)
      qed
    qed
    then have "num (input_of g cnf model) g (pw ! i) (pb ! i) (bv_val (read_param cnf model (pb ! i)))"
      unfolding r(2) by (intro num_of_bits i(1) [OF that])
    then show ?thesis by (simp add: word_has_okw [OF r(1)])
  qed
  then show "list_all2 (word_has (input_of g cnf model) g) pb (map (read_param cnf model) pb)"
    by (simp add: list_all2_conv_all_nth)
qed

text \<open>A fixed parameter is read back as its value.\<close>

lemma read_konst:
  assumes "okw w v" and const: "\<And>l. l = FALSE \<or> l = TRUE \<Longrightarrow> cnf_value cnf l model = (l = TRUE)"
  shows "read_param cnf model (konst v) = v"
proof -
  have l: "length (konst v) = w" using okwD(2) [OF assms(1)] by (simp add: konst_def)
  have w: "width_ok w" using bv_okD(1) [OF okwD(1) [OF assms(1)]] okwD(2) [OF assms(1)] by simp
  note r = read_param_ok [OF l w, of cnf model]
  have "cnf_value cnf (konst v ! i) model = bit (bv_val v) i" if "i < w" for i
  proof -
    have b: "konst v ! i = (if bit (bv_val v) i then TRUE else FALSE)"
      using that l bv_inspect(1) [OF okwD(1) [OF assms(1)], of i] okwD(2) [OF assms(1)] by (simp add: konst_def)
    show ?thesis unfolding b using const [of TRUE] const [of FALSE] by simp
  qed
  then have "bv_val (read_param cnf model (konst v)) = bv_val v"
    unfolding r(2) using bit_nat_less [OF okwD(4) [OF assms(1)]] by (intro bit_eqI) auto
  then show ?thesis using okw_eqI [OF r(1) assms(1)] by simp
qed

text \<open>Fixed values of the right widths extend to values of all the parameters.\<close>

lemma fixed_values:
  assumes "fixed_widths fixed pw" "\<forall>w\<in>set pw. width_ok w"
  shows "\<exists>ps. list_all2 okw pw ps \<and> fits_fixed fixed ps"
proof -
  define f where "f k = (if k < length fixed then (case fixed ! k of Some v \<Rightarrow> v | None \<Rightarrow> bv_zero (pw ! k)) else bv_zero (pw ! k))" for k
  have "okw (pw ! k) (f k)" if "k < length pw" for k
    using assms that okw_const(1) [of "pw ! k"] by (auto simp: f_def fixed_widths_def split: option.splits)
  then have "list_all2 okw pw (map f [0..<length pw])" by (simp add: list_all2_conv_all_nth)
  moreover have "fits_fixed fixed (map f [0..<length pw])" by (simp add: fits_fixed_def f_def)
  ultimately show ?thesis by blast
qed

lemma read_fixed:
  assumes "fixed_words fixed pb" "fixed_widths fixed pw" "length pb = length pw"
    and const: "\<And>l. l = FALSE \<or> l = TRUE \<Longrightarrow> cnf_value cnf l model = (l = TRUE)"
  shows "fits_fixed fixed (map (read_param cnf model) pb)"
  using assms(1-3) read_konst [OF _ const] unfolding fits_fixed_def fixed_words_def fixed_widths_def by auto

lemma counterexample_checks_iff:
  assumes s: "rule_sorted rule ws pw lw w" and c: "\<forall>t\<in>rule_terms rule. term_checked rule ws t" and ps: "list_all2 okw pw ps"
  shows "counterexample_checks rule ws ps \<longleftrightarrow> \<not> rule_holds rule ws ps"
proof -
  note lok = eval_lets_values [OF s c ps]
  have "well_sorted rule ws pw lw (r_lhs rule) (Some w)" "well_sorted rule ws pw lw (r_rhs rule) (Some w)"
    "term_checked rule ws (r_lhs rule)" "term_checked rule ws (r_rhs rule)"
    using s c by (auto simp: rule_sorted_def rule_terms_def)
  from term_evaluates [OF this(1,3) ps lok] term_evaluates [OF this(2,4) ps lok]
  obtain x y where x: "rule_eval rule ws ps (eval_lets rule ws ps) (r_lhs rule) = Some (VBv x)"
    and y: "rule_eval rule ws ps (eval_lets rule ws ps) (r_rhs rule) = Some (VBv y)" by (auto simp: val_ok_Some)
  show ?thesis unfolding counterexample_checks_def rule_holds_def Let_def x y Option.bind.bind_lunit val_bv.simps by simp
qed

section \<open>What the prover of rules promises\<close>

lemma obligation_admitted: "obligation max_nodes rule ws fixed = Some r \<Longrightarrow> admitted rule ws = Some True"
  by (auto simp: obligation_def bind_eq_Some_conv split: if_splits)

lemma obligation_posed:
  assumes "rule_sorted rule ws pw lw w" "widths_validated rule" "obligation max_nodes rule ws fixed = Some (Posed bad pb g)"
    "list_all2 okw pw ps0" "fits_fixed fixed ps0"
  shows "aig_inv g" "bad div 2 < length (nodes g)"
    "fixed_widths fixed pw \<longrightarrow> list_all2 (\<lambda>b w. length b = w) pb pw \<and> (\<forall>b\<in>set pb. port_lits g b) \<and> fixed_words fixed pb"
    "\<forall>ps \<rho>. list_all2 okw pw ps \<longrightarrow>
       (fits_fixed fixed ps \<and> (\<forall>j<length (free_bits fixed ps). \<rho> j = free_bits fixed ps ! j) \<or> list_all2 (word_has \<rho> g) pb ps) \<longrightarrow>
       aig_value (eval_all g \<rho>) bad = (\<not> rule_holds rule ws ps)"
proof -
  note o = obligation_ok [OF assms(1) obligation_admitted [OF assms(3)] assms(2,4,5)]
  obtain n bad' pb' g' where e: "\<forall>max_nodes. obligation max_nodes rule ws fixed = Some (if n > max_nodes then TooLarge n else Posed bad' pb' g')"
    and r: "aig_inv g'" "bad' div 2 < length (nodes g')"
    "fixed_widths fixed pw \<longrightarrow> list_all2 (\<lambda>b w. length b = w) pb' pw \<and> (\<forall>b\<in>set pb'. port_lits g' b) \<and> fixed_words fixed pb'"
    "\<forall>ps \<rho>. list_all2 okw pw ps \<longrightarrow>
       (fits_fixed fixed ps \<and> (\<forall>j<length (free_bits fixed ps). \<rho> j = free_bits fixed ps ! j) \<or> list_all2 (word_has \<rho> g') pb' ps) \<longrightarrow>
       aig_value (eval_all g' \<rho>) bad' = (\<not> rule_holds rule ws ps)"
    using o by (elim exE conjE) blast
  have "bad' = bad" "pb' = pb" "g' = g" using e [rule_format, of max_nodes] assms(3) by (auto split: if_splits)
  then show "aig_inv g" "bad div 2 < length (nodes g)"
    "fixed_widths fixed pw \<longrightarrow> list_all2 (\<lambda>b w. length b = w) pb pw \<and> (\<forall>b\<in>set pb. port_lits g b) \<and> fixed_words fixed pb"
    "\<forall>ps \<rho>. list_all2 okw pw ps \<longrightarrow>
       (fits_fixed fixed ps \<and> (\<forall>j<length (free_bits fixed ps). \<rho> j = free_bits fixed ps ! j) \<or> list_all2 (word_has \<rho> g) pb ps) \<longrightarrow>
       aig_value (eval_all g \<rho>) bad = (\<not> rule_holds rule ws ps)" using r by simp_all
qed

text \<open>
  C38: the obligation of a rule is built wherever the rule is admitted, and posed unless its graph
  is larger than the configuration allows; its literal is then true, under any assignment that gives
  the parameters some values that agree with the fixed ones, exactly where the rule fails on them.
  The rule is well sorted at the widths, and carries no table of widths or the one its validation
  leaves.
\<close>
theorem obligation_exact:
  assumes "rule_sorted rule ws pw lw w" "admitted rule ws = Some True" "widths_validated rule"
    "list_all2 okw pw ps" "fits_fixed fixed ps" "\<forall>j<length (free_bits fixed ps). \<rho> j = free_bits fixed ps ! j"
  shows "\<exists>n bad pb g. (\<forall>max_nodes. obligation max_nodes rule ws fixed =
      Some (if n > max_nodes then TooLarge n else Posed bad pb g)) \<and> n \<le> length (nodes g) \<and> aig_inv g \<and>
    aig_value (eval_all g \<rho>) bad = (\<not> rule_holds rule ws ps)"
  using obligation_ok [OF assms(1-5)] assms(4-6) by blast

text \<open>
  C39: a certificate proves a rule: when the checker accepts a proof for the clauses of the posed
  obligation, the rule holds at these widths, on all values of the parameters that agree with those
  held fixed. The rule is well sorted at the widths, carries no table of widths or the one its
  validation leaves, and the graph has at most \<open>NONE\<close> nodes.
\<close>
theorem rule_certificate_sound:
  assumes "rule_sorted rule ws pw lw w" "widths_validated rule"
    "obligation max_nodes rule ws fixed = Some (Posed bad pb g)"
    "length (nodes g) \<le> NONE" "rule_clauses g bad True = Some (cnf, q)" "check (kept cnf) steps = Some (Inr ())"
    "list_all2 okw pw ps" "fits_fixed fixed ps"
  shows "rule_holds rule ws ps"
proof -
  note p = obligation_posed [OF assms(1,2,3,7,8)]
  have o: "aig_inv g" "bad div 2 < length (nodes g)" and
    v: "aig_value (eval_all g (\<lambda>j. free_bits fixed ps ! j)) bad = (\<not> rule_holds rule ws ps)"
    using p assms(7,8) by blast+
  from rule_unsat [OF o assms(4-6)] v show ?thesis by blast
qed

text \<open>
  C40: a counterexample is genuine, whichever parameters an attempt holds fixed (none, or the
  constants of one case of a split): the parameters read from any model of the clauses have the
  widths of the rule, those held fixed their values, and the concrete evaluator confirms that the
  rule fails on them, so the error for a counterexample that does not check does not arise. The
  rule is well sorted at the widths, carries no table of widths or the one its validation leaves, the
  fixed values have the widths of their parameters, and the graph has at most \<open>NONE\<close> nodes.
\<close>
theorem counterexample_genuine:
  assumes "rule_sorted rule ws pw lw w" "widths_validated rule"
    "obligation max_nodes rule ws fixed = Some (Posed bad pb g)" "fixed_widths fixed pw"
    "length (nodes g) \<le> NONE" "rule_clauses g bad certificate = Some (cnf, q)"
    "\<forall>cl\<in>set (map fst (given q)). satisfies (model_of model) cl"
  shows "list_all2 okw pw (map (read_param cnf model) pb) \<and> fits_fixed fixed (map (read_param cnf model) pb) \<and>
    counterexample_checks rule ws (map (read_param cnf model) pb)"
proof -
  note adm = obligation_admitted [OF assms(3)]
  have checked: "\<forall>t\<in>rule_terms rule. term_checked rule ws t" using admitted_checks [OF adm assms(2)] by blast
  have pw: "\<forall>w\<in>set pw. width_ok w"
    using assms(1) by (auto simp: rule_sorted_def list_all2_conv_all_nth in_set_conv_nth)
  from fixed_values [OF assms(4) pw] obtain ps0 where ps0: "list_all2 okw pw ps0" "fits_fixed fixed ps0" by blast
  note p = obligation_posed [OF assms(1,2,3) ps0]
  have o: "aig_inv g" "bad div 2 < length (nodes g)" "list_all2 (\<lambda>b w. length b = w) pb pw" "\<forall>b\<in>set pb. port_lits g b"
      "fixed_words fixed pb"
    and v: "\<And>ps \<rho>. list_all2 okw pw ps \<Longrightarrow> list_all2 (word_has \<rho> g) pb ps \<Longrightarrow> aig_value (eval_all g \<rho>) bad = (\<not> rule_holds rule ws ps)"
    using p assms(4) by blast+
  from rule_clauses_ok [OF o(1,2) assms(5), of certificate] assms(6,7) obtain cnf0 q0 c where
    e: "encoding g [bad] \<lparr>num_vars = 0, given = []\<rparr> cnf0 q0 c" and vc: "var cnf = var cnf0"
    and m: "\<forall>cl\<in>set (clauses_since \<lparr>num_vars = 0, given = []\<rparr> q0). satisfies (model_of model) cl" "cnf_value cnf bad model" by auto
  have const: "cnf_value cnf l model = (l = TRUE)" if "l = FALSE \<or> l = TRUE" for l
    unfolding cnf_value_cong [OF vc] by (rule const_literal [OF o(1) e _ m(1) that]) (use assms(5) in simp)
  have io: "input_of g cnf model = input_of g cnf0 model" by (rule ext) (simp add: input_of_def cnf_value_cong [OF vc])
  have "agrees g [bad] cnf0 model (input_of g cnf0 model)"
    by (rule model_input [OF o(1) _ _ e m(1)]) (use o(2) assms(5) in simp_all)
  then have bad: "aig_value (eval_all g (input_of g cnf model)) bad"
    using m(2) cnf_value_cong [OF vc] unfolding io by (simp add: agrees_def)
  note r = read_params_ok [OF o(1,3,4) pw const]
  have f: "fits_fixed fixed (map (read_param cnf model) pb)"
    by (rule read_fixed [OF o(5) assms(4) list_all2_lengthD [OF o(3)] const])
  from v [OF r] bad have "\<not> rule_holds rule ws (map (read_param cnf model) pb)" by simp
  then show ?thesis using r(1) f counterexample_checks_iff [OF assms(1) checked r(1)] by blast
qed

section \<open>Witnesses\<close>

declare collect.simps [code] propagate.simps [code]

text \<open>
  A rule with a let and a guard: \<open>x AND y\<close> is \<open>x\<close> where no bit of the complement of \<open>y\<close> is one in
  \<open>x\<close>; and the rule without its guard, which fails.
\<close>

definition absorb :: "NodeId option \<Rightarrow> Rule" where
  "absorb gd = \<lparr>r_width_vars = 1, r_modes = 0, r_constraints = [],
     r_params = [\<lparr>p_kind = PAny, p_width = wexpr_var 0\<rparr>, \<lparr>p_kind = PAny, p_width = wexpr_var 0\<rparr>],
     r_lets = [2], r_nodes = [RParam 0, RParam 1, RUn UNot 1, RLet 0, RFact ZeroBits 0 (Some 3), RBin BAnd 0 1],
     r_sorts = [SortBv (wexpr_var 0), SortBv (wexpr_var 0), SortBv (wexpr_var 0), SortBv (wexpr_var 0), SortBool, SortBv (wexpr_var 0)],
     r_lhs = 5, r_rhs = 0, r_guard = gd, r_admitted = Some ALL_WIDTHS\<rparr>"

lemma absorb_width: "n \<in> {0, 1, 2, 3, 5} \<Longrightarrow> width_of (absorb gd) n [1] = Some (Some 1)"
  by (auto simp: absorb_def width_of_def at_def wexpr_eval_def wexpr_var_def saturated_def ok_of_def Width_new_def MAX_BITS_def One_nat_def)

lemma absorb_sorted:
  assumes "gd \<in> {None, Some 4}"
  shows "rule_sorted (absorb gd) [1] [1, 1] [1] 1"
proof -
  let ?r = "absorb gd"
  have p: "well_sorted ?r [1] [1, 1] lw 0 (Some 1)" "well_sorted ?r [1] [1, 1] lw 1 (Some 1)" for lw
    using ws_param [of ?r 0 0 "[1, 1]" "[1]" lw] ws_param [of ?r 1 1 "[1, 1]" "[1]" lw]
    by (simp_all add: absorb_width) (simp_all add: absorb_def at_def One_nat_def)
  have n: "well_sorted ?r [1] [1, 1] [] 2 (Some 1)"
    by (rule ws_un [OF _ _ p(2)]) (simp_all add: absorb_width, simp_all add: absorb_def at_def)
  have l: "well_sorted ?r [1] [1, 1] [1] 3 (Some 1)"
    using ws_let [of ?r 3 0 "[1]" "[1]" "[1, 1]"] by (simp add: absorb_width) (simp add: absorb_def at_def)
  have a: "well_sorted ?r [1] [1, 1] [1] 5 (Some 1)"
    by (rule ws_bin [OF _ _ _ p(1) p(2)]) (simp_all add: absorb_width, simp_all add: absorb_def at_def)
  have g: "well_sorted ?r [1] [1, 1] [1] 4 None"
    by (rule ws_fact [where p = ZeroBits, OF _ _ _ _ _ p(1) l]) (simp_all add: absorb_def at_def)
  have w: "wexpr_eval (wexpr_var 0) [1] = Some 1" by code_simp
  show ?thesis using p n l a g assms w
    by (auto simp: rule_sorted_def absorb_def width_ok_def)
qed

lemma absorb_validated:
  assumes "gd \<in> {None, Some 4}"
  shows "widths_validated (absorb gd)"
proof -
  let ?r = "absorb gd"
  have "validate_widths ?r = Some (Inr (Some ALL_WIDTHS))"
  proof (rule validate_all)
    fix k :: nat assume k: "0 < k" "k \<le> 512"
    have w: "width_of ?r n [k] = Some (Some k)" if "n \<in> {0, 1, 2, 3, 5}" for n
      by (rule width_variable(2) [OF k]) (use that in \<open>auto simp: absorb_def at_def One_nat_def\<close>)
    have w4: "width_of ?r 4 [k] = Some None" by (simp add: width_of_def absorb_def at_def)
    have n: "at (r_nodes ?r) 0 = Some (RParam 0)" "at (r_nodes ?r) 1 = Some (RParam 1)" "at (r_nodes ?r) 2 = Some (RUn UNot 1)"
      "at (r_nodes ?r) 3 = Some (RLet 0)" "at (r_nodes ?r) 4 = Some (RFact ZeroBits 0 (Some 3))" "at (r_nodes ?r) 5 = Some (RBin BAnd 0 1)"
      by (simp_all add: absorb_def at_def One_nat_def)
    have s: "at (r_sorts ?r) m = Some (SortBv (wexpr_var 0))" if "m \<in> {0, 1, 2, 3, 5}" for m
      using that by (auto simp: absorb_def at_def One_nat_def)
    have s4: "at (r_sorts ?r) 4 = Some SortBool" by (simp add: absorb_def at_def)
    have c: "node_check ?r [k] strict 0 = Some True" "node_check ?r [k] strict 1 = Some True"
      "node_check ?r [k] strict 2 = Some True" "node_check ?r [k] strict 3 = Some True"
      "node_check ?r [k] strict 4 = Some True" "node_check ?r [k] strict 5 = Some True" for strict
      by (simp_all add: node_check_def n w w4 s s4)
    have f: "well_formed ?r n [k] strict = Some (Inr ())" if "n \<in> {0, 2, 4, 5}" for n strict
      using that by (auto simp: well_formed_def wf_loop.simps c n)
    show "all_hold (r_constraints ?r) [k] = Some True \<and> well_formed ?r (r_lhs ?r) [k] True = Some (Inr ()) \<and>
        first_bad ?r [k] (rule_parts ?r) = Some None"
    proof (intro conjI)
      show "all_hold (r_constraints ?r) [k] = Some True" by (simp add: absorb_def)
      show "well_formed ?r (r_lhs ?r) [k] True = Some (Inr ())" using f [of 5 True] by (simp add: absorb_def)
      have b: "set ps \<subseteq> {0, 2, 4} \<Longrightarrow> first_bad ?r [k] ps = Some None" for ps by (induction ps) (auto simp: f)
      show "first_bad ?r [k] (rule_parts ?r) = Some None"
        by (rule b) (use assms in \<open>auto simp: rule_parts_def absorb_def\<close>)
    qed
  qed (simp_all add: absorb_def)
  then show ?thesis by (simp add: widths_validated_def) (simp add: absorb_def)
qed

lemma okw_one_bit: "okw 1 (from_bool p)" by (rule okw_from_bool)

theorem obligation_exact_witness:
  "\<exists>n bad pb g. (\<forall>max_nodes. obligation max_nodes (absorb None) [1] [None, Some (from_bool False)] =
       Some (if n > max_nodes then TooLarge n else Posed bad pb g)) \<and>
     aig_value (eval_all g (\<lambda>j. True)) bad = (\<not> rule_holds (absorb None) [1] [from_bool True, from_bool False])"
proof -
  have ps: "list_all2 okw [1, 1] [from_bool True, from_bool False]" by (simp add: okw_one_bit)
  have f: "fits_fixed [None, Some (from_bool False)] [from_bool True, from_bool False]"
    by (auto simp: fits_fixed_def less_Suc_eq)
  have b: "\<forall>j<length (free_bits [None, Some (from_bool False)] [from_bool True, from_bool False]).
      True = free_bits [None, Some (from_bool False)] [from_bool True, from_bool False] ! j"
    using from_bool_correct(2,3) [of True] by (simp add: One_nat_def bit_0)
  have a: "admitted (absorb None) [1] = Some True" by code_simp
  have gd: "None \<in> {None, Some (4 :: NodeId)}" by simp
  show ?thesis using obligation_exact [OF absorb_sorted [OF gd] a absorb_validated [OF gd] ps f b] by blast
qed

theorem rule_certificate_sound_witness:
  "rule_holds (absorb (Some 4)) [1] [from_bool False, from_bool True]"
proof -
  let ?o = "obligation 1000 (absorb (Some 4)) [1] []"
  have gd: "Some 4 \<in> {None, Some (4 :: NodeId)}" by simp
  have "(case ?o of Some (Posed bad pb g) \<Rightarrow> length (nodes g) = 9 | _ \<Rightarrow> False)" by code_simp
  then obtain bad pb g where o: "?o = Some (Posed bad pb g)" and n: "length (nodes g) = 9"
    by (auto split: option.splits Posed.splits)
  have c: "case ?o of Some (Posed bad pb g) \<Rightarrow> (case rule_clauses g bad True of
        Some (cnf, q) \<Rightarrow> check (kept cnf) [Add [0], Add []] = Some (Inr ()) | None \<Rightarrow> False) | _ \<Rightarrow> False" by code_simp
  then obtain cnf q where q: "rule_clauses g bad True = Some (cnf, q)" and k: "check (kept cnf) [Add [0], Add []] = Some (Inr ())"
    unfolding o by (auto split: option.splits)
  have b: "length (nodes g) \<le> NONE" by (simp add: n NONE_def)
  have ps: "list_all2 okw [1, 1] [from_bool False, from_bool True]" by (simp add: okw_one_bit)
  show ?thesis
    by (rule rule_certificate_sound [OF absorb_sorted [OF gd] absorb_validated [OF gd] o b q k ps]) (simp add: fits_fixed_def)
qed

text \<open>The rule without its guard, its second parameter held at 0.\<close>

theorem counterexample_genuine_witness:
  "\<exists>ps. list_all2 okw [1, 1] ps \<and> fits_fixed [None, Some (from_bool False)] ps \<and> counterexample_checks (absorb None) [1] ps"
proof -
  let ?f = "[None, Some (from_bool False)]"
  let ?o = "obligation 1000 (absorb None) [1] ?f"
  have gd: "None \<in> {None, Some (4 :: NodeId)}" by simp
  have "(case ?o of Some (Posed bad pb g) \<Rightarrow> length (nodes g) < 1000 | _ \<Rightarrow> False)" by code_simp
  then obtain bad pb g where o: "?o = Some (Posed bad pb g)" and n: "length (nodes g) < 1000"
    by (auto split: option.splits Posed.splits)
  have c: "case ?o of Some (Posed bad pb g) \<Rightarrow> (case rule_clauses g bad False of
        Some (cnf, q) \<Rightarrow> (\<forall>cl\<in>set (map fst (given q)). \<exists>l\<in>set cl. lit_holds (model_of [True, True, True, True]) l)
      | None \<Rightarrow> False) | _ \<Rightarrow> False" by code_simp
  then obtain cnf q where q: "rule_clauses g bad False = Some (cnf, q)" and
    m: "\<forall>cl\<in>set (map fst (given q)). \<exists>l\<in>set cl. lit_holds (model_of [True, True, True, True]) l"
    unfolding o by (auto split: option.splits)
  have b: "length (nodes g) \<le> NONE" using n by (simp add: NONE_def)
  have m': "\<forall>cl\<in>set (map fst (given q)). satisfies (model_of [True, True, True, True]) cl"
    using m by (simp add: satisfies_def)
  have f: "fixed_widths ?f [1, 1]" using okw_one_bit by (auto simp: fixed_widths_def less_Suc_eq numeral_2_eq_2)
  from counterexample_genuine [OF absorb_sorted [OF gd] absorb_validated [OF gd] o f b q m'] show ?thesis by blast
qed

end
