(* ===== verification/Spec2Isabelle.thy ===== *)
theory Spec2Isabelle
  imports BitVec_Text Agreement Facts_Range Rule_Certified
begin

text \<open>
  bitwright is a library for fixed-width bit-vectors: exact values, facts about them, rewrite
  rules, and a prover that decides rules and equalities by translation to clauses. This
  development models the path a proof takes through it, from a value of 1 to 512 bits to the
  certificate that closes a question, and proves every layer against the one below. Each theory
  opens with what it holds; this is the map.

  \<^bold>\<open>Values.\<close> A value of the library (\<open>value/mod.rs\<close>, theory \<open>BitVec\<close>) is a width and eight limbs.
  Its operators run on a native kernel (\<open>value/narrow.rs\<close>, \<open>Narrow\<close>) up to 128 bits and on limbs
  (\<open>value/wide.rs\<close>, \<open>Limbs\<close>, \<open>Limbs_Arith\<close>, \<open>Limbs_Div\<close> with Knuth's division, \<open>Wide\<close> with the
  dispatch) beyond; \<open>Ops\<close> has the operator kinds (\<open>ops.rs\<close>) and \<open>Errors\<close> the value errors
  (\<open>error.rs\<close>). \<open>Semantics\<close> states what each operator means on numbers, and the locale
  \<open>bv_kernel\<close> of \<open>Kernel\<close> is the contract of an evaluator: the native kernel, the limb kernel, the
  dispatching \<open>BitVec\<close> and the bit-serial reference evaluator (\<open>bitwright-ref/src/lib.rs\<close>,
  \<open>Ref_Eval\<close>, with its assertions, over the bit lists of \<open>Ref_Bits\<close>) all interpret it, and \<open>Agreement\<close> concludes that they agree. \<open>Limbs_Bits\<close> and
  \<open>Limbs_Perm\<close> prove the limb kernels; \<open>BitVec_Text\<close> has parsing and printing and their round trip.

  \<^bold>\<open>Facts.\<close> \<open>Facts_Known\<close> (\<open>facts/known.rs\<close>) and \<open>Facts_Range\<close> (\<open>facts/range.rs\<close>) are the abstract
  domains of known bits, strided unsigned intervals and signed intervals. The locales \<open>abs_domain\<close>
  and \<open>exact_domain\<close> of \<open>Facts_Domain\<close> are their contract (a value set per element, a top, the
  singletons, a sound or exact meet, a hull), interpreted by all three.

  \<^bold>\<open>Circuits.\<close> \<open>Aig\<close> is the and-inverter graph (\<open>prove/aig.rs\<close>): nodes, structural hashing, gates
  with their local simplifications, evaluation. \<open>Aig_Inv\<close>, \<open>Aig_Gates\<close>, \<open>Aig_Parity\<close>,
  \<open>Aig_Cancel\<close>, \<open>Aig_Factor\<close> and \<open>Aig_Correct\<close> prove that on every reachable graph every gate
  computes its function. \<open>Blast\<close>, \<open>Blast_Mul\<close> and \<open>Blast_Shift\<close> are the bit-blaster
  (\<open>prove/blast.rs\<close>); \<open>Blast_Word\<close> is the calculus of circuits on words, and \<open>Divide_Correct\<close>,
  \<open>Shift_Correct\<close>, \<open>Rotate_Correct\<close>, \<open>Count_Correct\<close>, \<open>Scatter_Correct\<close>, \<open>Mul_Rows\<close>,
  \<open>Mul_Constant\<close>, \<open>Mul_Compress\<close>, \<open>Mul_Save\<close> and \<open>Blast_Correct\<close> prove each circuit equal to the
  operator of \<open>Semantics\<close>, at every width and for every operand.

  \<^bold>\<open>Clauses and certificates.\<close> \<open>Cnf\<close> is the clause encoding (\<open>Cnf\<close> of \<open>prove/aig.rs\<close>), proved
  exact in \<open>Cnf_Choice\<close>, \<open>Cnf_Gates\<close> and \<open>Cnf_Sound\<close>; \<open>Drup\<close> is the proof checker
  (\<open>prove/drup.rs\<close>), proved sound and total in \<open>Drup_Sound\<close>. A question (\<open>prove/mod.rs\<close>) is the
  clauses of its constraints and its denied goal: an accepted proof for them proves the goal, and
  a model of them refutes it.

  \<^bold>\<open>Rules.\<close> \<open>Rules\<close> has the representation of rewrite rules (\<open>rules/ir.rs\<close>), their concrete
  evaluator and the checks of admission (\<open>rules/eval.rs\<close>), proved in \<open>Rules_Eval\<close>. \<open>Rule_Widths\<close>
  has the validation of \<open>rules/compile.rs\<close>, which walks the assignments of the width variables and
  leaves, in a rule of at most one width variable and no rounding mode, the table that \<open>admitted\<close>
  reads; the table is proved to answer as the check from scratch does. \<open>Rule_Prove\<close>
  has the symbolic evaluator and the obligation of a rule (\<open>prove/rule.rs\<close>), proved against the
  concrete one in \<open>Rule_Sound\<close> and \<open>Rule_Certified\<close>: a certified rule holds for all values, and a
  counterexample always checks, also when parameters are held fixed.

  \<^bold>\<open>Conventions.\<close> \<open>u64\<close> and \<open>u128\<close> are words and wrap; \<open>usize\<close>, indices and literals of graphs and
  clauses are naturals (a graph of \<open>2 ^ 31\<close> nodes or clauses over \<open>2 ^ 32\<close> variables would
  exceed memory first; the bound of \<open>NONE\<close>, the variable of no node, is a hypothesis of the clause
  theorems). A panic of the code, an index out of range among them, is \<open>None\<close>; an error value is
  the left of a sum. Loops bounded by data are structural or counted (\<open>for_up\<close>). Loops whose end is
  a theorem are partial functions in the option monad (propagation and its scans in \<open>Drup\<close>, the
  collection of reachable gates in \<open>Cnf\<close>, the walks of \<open>well_formed\<close> and \<open>bitwise_uniform\<close>), or
  take a bound that is proved to suffice: the number of words for the adder tree, the length of
  the arena for the evaluators of rule nodes, whose operands come before them, and the fixed depths
  5 and 6 of the simplifying gates, which call each other on fewer inputs.

  \<^bold>\<open>Hypotheses.\<close> \<open>rule_sorted\<close> states what the rule compiler guarantees of a rule at the widths in
  question: operands before their nodes, sorts that agree, and sorts that give every node a valid
  width. \<open>widths_validated\<close> says that the rule carries no table of admitted widths or the one the
  validation leaves; every rule the compiler returns is of this kind (\<open>admit_widths_validated\<close>).
  Rules have no floating-point nodes, so the comparison of \<open>float_values\<close> does not apply to them.

  \<^bold>\<open>Debug assertions.\<close> Those of the reference evaluator, of \<open>from_raw\<close> and \<open>from_bounds\<close> are branches
  of the model. Those of \<open>URange::from_parts\<close> and \<open>KnownBits::hull\<close> are the invariants and the
  equal widths under which the theorems hold, and that of \<open>Cnf::lit\<close>, that the node has a variable,
  follows from the exactness of the encoding.

  \<^bold>\<open>Not modelled.\<close> The search of the SAT solver (heuristic; both of its answers are checked by
  what is modelled), floating point (a second evaluator of its own size), the parser
  and the sort inference of the rule compiler, the matcher, the simplification engine and its passes, the normal forms of mixed
  Boolean-arithmetic expressions, the parsers and printers other than those of values, and the
  bindings.
\<close>

end
